(* ===== verification/Prelude.thy ===== *)
theory Prelude
  imports Main "HOL-Library.Word" "HOL-Library.Monad_Syntax"
begin

unbundle bit_operations_syntax

text \<open>
  What every component shares: the machine types of the C code (bytes, \<open>size_t\<close>, pointers),
  the convention for undefined behaviour, raw buffer writes, and the generic lemmas on
  lists, words and options that the component proofs use.

  A C operation is a HOL function into \<open>'a option\<close>: \<open>None\<close> is undefined behaviour of the C
  program (a dereference of \<open>NULL\<close> or of freed memory, a double free, a write outside the
  buffer), so a theorem that an operation returns \<open>Some\<close> is a memory-safety theorem.
  Sequencing is the option monad with its \<open>do\<close> notation.
\<close>

section \<open>Machine types\<close>

type_synonym byte = "8 word"
type_synonym u32 = "32 word"
type_synonym size_t = "64 word"
type_synonym ptr = "64 word"

abbreviation NULL :: "64 word" where
  "NULL \<equiv> 0"

section \<open>Hints collected for the component proofs\<close>

named_theorems heap_simps \<open>evaluation of loads, stores and frees\<close>
named_theorems buf_simps \<open>evaluation of buffer reads and writes\<close>

section \<open>Words as sizes\<close>

lemma unat_Suc_word:
  fixes w :: "'a::len word"
  assumes "Suc (unat w) < 2 ^ LENGTH('a)"
  shows "unat (w + 1) = Suc (unat w)"
  using assms by (simp add: unat_word_ariths mod_Suc_eq)

lemma distinct_words_bound:
  fixes ps :: "'a::len word list"
  assumes "distinct ps" and "p \<notin> set ps"
  shows "length ps < 2 ^ LENGTH('a)"
proof -
  have "card (insert p (set ps)) \<le> card (UNIV :: 'a word set)"
    by (rule card_mono) simp_all
  with assms show ?thesis
    by (simp add: distinct_card card_word)
qed

lemma of_nat_eq_0_small:
  assumes "n < 2 ^ LENGTH('a)"
  shows "(of_nat n :: 'a::len word) = 0 \<longleftrightarrow> n = 0"
proof -
  have "unat (of_nat n :: 'a word) = n"
    using assms by (simp add: unat_of_nat)
  then show ?thesis
    by (metis unat_eq_zero)
qed

text \<open>Masks: the low bits of a size and the size rounded down.\<close>

lemma unat_and_mask: "unat (w AND mask k) = unat w mod 2 ^ k" for w :: "'a::len word"
  by (simp only: take_bit_eq_mask [symmetric] unsigned_take_bit_eq) (simp only: take_bit_eq_mod)

lemma of_nat_and_mask:
  "m < 2 ^ LENGTH('a) \<Longrightarrow> (of_nat m :: 'a::len word) AND mask k = of_nat (m mod 2 ^ k)"
proof -
  assume m: "m < 2 ^ LENGTH('a)"
  then have "m mod 2 ^ k < 2 ^ LENGTH('a)" by (meson le_less_trans mod_less_eq_dividend)
  with m have "unat (of_nat m AND mask k :: 'a word) = unat (of_nat (m mod 2 ^ k) :: 'a word)"
    by (simp only: unat_and_mask unat_of_nat mod_less)
  then show ?thesis by (simp only: word_unat_eq_iff)
qed

lemma of_nat_and_not_mask:
  assumes "m < 2 ^ LENGTH('a)"
  shows "(of_nat m :: 'a::len word) AND NOT (mask k) = of_nat (m div 2 ^ k * 2 ^ k)"
proof -
  let ?w = "of_nat m :: 'a word"
  have "(?w AND NOT (mask k)) + (?w AND mask k) = ?w"
    by (rule bit_word_eqI, subst disjunctive_add) (auto simp: bit_simps)
  then have "(?w AND NOT (mask k)) + of_nat (m mod 2 ^ k) = ?w"
    by (simp only: of_nat_and_mask [OF assms])
  also have "?w = of_nat (m div 2 ^ k * 2 ^ k) + of_nat (m mod 2 ^ k)"
    by (metis div_mult_mod_eq of_nat_add)
  finally show ?thesis by simp
qed

lemma mask_6: "(0x3f :: 'a::len word) = mask 6"
  by (simp add: mask_eq_exp_minus_1)

section \<open>Lists\<close>

text \<open>Splitting a list at the first element that satisfies a test.\<close>

lemma split_first:
  assumes "\<exists>x\<in>set xs. P x"
  obtains as x bs where "xs = as @ x # bs" "\<forall>y\<in>set as. \<not> P y" "P x"
    "dropWhile (\<lambda>y. \<not> P y) xs = x # bs"
proof -
  from assms obtain as x bs where *: "xs = as @ x # bs" "P x" "\<forall>y\<in>set as. \<not> P y"
    using split_list_first_prop [of xs P] by blast
  then have "dropWhile (\<lambda>y. \<not> P y) xs = x # bs"
    by (simp add: dropWhile_append2)
  with * that show ?thesis by blast
qed

lemma in_set_split_at:
  assumes "i < length xs"
  shows "xs = take i xs @ xs ! i # drop (Suc i) xs"
  using assms by (rule id_take_nth_drop)

section \<open>Buffers\<close>

text \<open>
  A C buffer is the list of its bytes (of any element type). \<open>mem_read\<close> and \<open>mem_write\<close> are
  \<open>memcpy\<close> from and to an offset of the buffer; they fault when any byte lies outside.
\<close>

definition mem_read :: "'a list \<Rightarrow> nat \<Rightarrow> nat \<Rightarrow> 'a list option" where
  "mem_read buf off n = (if off + n \<le> length buf then Some (take n (drop off buf)) else None)"

definition mem_write :: "'a list \<Rightarrow> nat \<Rightarrow> 'a list \<Rightarrow> 'a list option" where
  "mem_write buf off xs =
     (if off + length xs \<le> length buf
      then Some (take off buf @ xs @ drop (off + length xs) buf) else None)"

lemma mem_read_Some [buf_simps]:
  "off + n \<le> length buf \<Longrightarrow> mem_read buf off n = Some (take n (drop off buf))"
  by (simp add: mem_read_def)

lemma mem_write_Some [buf_simps]:
  "off + length xs \<le> length buf \<Longrightarrow>
   mem_write buf off xs = Some (take off buf @ xs @ drop (off + length xs) buf)"
  by (simp add: mem_write_def)

lemma mem_write_length: "mem_write buf off xs = Some buf' \<Longrightarrow> length buf' = length buf"
  by (auto simp: mem_write_def split: if_splits)

text \<open>Single elements of an array: \<open>arr_get\<close> and \<open>arr_set\<close> fault outside its bounds.\<close>

definition arr_get :: "'a list \<Rightarrow> nat \<Rightarrow> 'a option" where
  "arr_get xs i = (if i < length xs then Some (xs ! i) else None)"

definition arr_set :: "'a list \<Rightarrow> nat \<Rightarrow> 'a \<Rightarrow> 'a list option" where
  "arr_set xs i x = (if i < length xs then Some (xs[i := x]) else None)"

lemma arr_get_Some [buf_simps]: "i < length xs \<Longrightarrow> arr_get xs i = Some (xs ! i)"
  by (simp add: arr_get_def)

lemma arr_set_Some [buf_simps]: "i < length xs \<Longrightarrow> arr_set xs i x = Some (xs[i := x])"
  by (simp add: arr_set_def)

text \<open>An array seen as a part already handled and the rest.\<close>

lemma mem_write_append:
  "length bs \<le> length ys \<Longrightarrow> mem_write (xs @ ys) (length xs) bs = Some (xs @ bs @ drop (length bs) ys)"
  by (simp add: mem_write_def)

lemma arr_get_append [buf_simps]: "arr_get (xs @ ys) (length xs + i) = arr_get ys i"
  by (simp add: arr_get_def)

lemma arr_get_append0 [buf_simps]: "arr_get (xs @ ys) (length xs) = arr_get ys 0"
  using arr_get_append [of xs ys 0] by simp

lemma arr_set_append [buf_simps]:
  "arr_set (xs @ ys) (length xs + i) v = map_option ((@) xs) (arr_set ys i v)"
  by (simp add: arr_set_def list_update_append)

lemma arr_set_append0 [buf_simps]:
  "arr_set (xs @ ys) (length xs) v = map_option ((@) xs) (arr_set ys 0 v)"
  using arr_set_append [of xs ys 0 v] by simp

text \<open>
  A \<open>malloc\<close> given as an argument: for a size it returns \<open>NULL\<close> or a block of that size, with
  arbitrary contents.
\<close>

definition allocates :: "(nat \<Rightarrow> byte list option) \<Rightarrow> bool" where
  "allocates malloc \<longleftrightarrow> (\<forall>n buf. malloc n = Some buf \<longrightarrow> length buf = n)"

text \<open>The largest \<open>size_t\<close>, and \<open>(size_t)-1\<close>.\<close>

definition SIZE_MAX :: nat where
  "SIZE_MAX = 2 ^ 64 - 1"

end
