(* ===== verification/DList.thy ===== *)
theory DList
  imports Prelude
begin

text \<open>
  Doubly linked nodes on the C heap, the data structure under both \<open>lists/linked_list.c\<close>
  and \<open>queues/generic_queue.c\<close> (their item structs have the same three fields).

  The heap maps the address of every live node to its contents. \<open>load\<close> and the three
  stores fault (\<open>None\<close>) on \<open>NULL\<close> and on memory that is not allocated; \<open>free_item\<close> faults
  on a double free. \<open>malloc\<close> is a parameter of the operations that call it: the pointer it
  returned, which is \<open>NULL\<close> or an address that is not in use (\<open>fresh\<close>).

  \<open>dseg h a ps b\<close> says that the nodes at the addresses \<open>ps\<close> form a well linked segment
  whose first node points back to \<open>a\<close> and whose last node points on to \<open>b\<close>.
\<close>

section \<open>Nodes, loads and stores\<close>

record item =
  item_value :: ptr
  item_previous :: ptr
  item_next :: ptr

type_synonym heap = "ptr \<Rightarrow> item option"

definition load :: "heap \<Rightarrow> ptr \<Rightarrow> item option" where
  "load h p = (if p = NULL then None else h p)"

definition store_value :: "heap \<Rightarrow> ptr \<Rightarrow> ptr \<Rightarrow> heap option" where
  "store_value h p v = do { it \<leftarrow> load h p; Some (h(p \<mapsto> it\<lparr>item_value := v\<rparr>)) }"

definition store_previous :: "heap \<Rightarrow> ptr \<Rightarrow> ptr \<Rightarrow> heap option" where
  "store_previous h p q = do { it \<leftarrow> load h p; Some (h(p \<mapsto> it\<lparr>item_previous := q\<rparr>)) }"

definition store_next :: "heap \<Rightarrow> ptr \<Rightarrow> ptr \<Rightarrow> heap option" where
  "store_next h p q = do { it \<leftarrow> load h p; Some (h(p \<mapsto> it\<lparr>item_next := q\<rparr>)) }"

definition free_item :: "heap \<Rightarrow> ptr \<Rightarrow> heap option" where
  "free_item h p =
     (if p = NULL then Some h else do { _ \<leftarrow> load h p; Some (h(p := None)) })"

definition fresh :: "heap \<Rightarrow> ptr \<Rightarrow> bool" where
  "fresh h p \<longleftrightarrow> (p \<noteq> NULL \<longrightarrow> h p = None)"

lemma load_Some [heap_simps]: "p \<noteq> NULL \<Longrightarrow> h p = Some it \<Longrightarrow> load h p = Some it"
  by (simp add: load_def)

lemma store_value_Some [heap_simps]:
  "p \<noteq> NULL \<Longrightarrow> h p = Some it \<Longrightarrow> store_value h p v = Some (h(p \<mapsto> it\<lparr>item_value := v\<rparr>))"
  by (simp add: store_value_def load_def)

lemma store_previous_Some [heap_simps]:
  "p \<noteq> NULL \<Longrightarrow> h p = Some it \<Longrightarrow>
   store_previous h p v = Some (h(p \<mapsto> it\<lparr>item_previous := v\<rparr>))"
  by (simp add: store_previous_def load_def)

lemma store_next_Some [heap_simps]:
  "p \<noteq> NULL \<Longrightarrow> h p = Some it \<Longrightarrow> store_next h p v = Some (h(p \<mapsto> it\<lparr>item_next := v\<rparr>))"
  by (simp add: store_next_def load_def)

lemma free_item_Some [heap_simps]:
  "p \<noteq> NULL \<Longrightarrow> h p = Some it \<Longrightarrow> free_item h p = Some (h(p := None))"
  by (simp add: free_item_def load_def)

section \<open>Well linked segments\<close>

fun dseg :: "heap \<Rightarrow> ptr \<Rightarrow> ptr list \<Rightarrow> ptr \<Rightarrow> bool" where
  "dseg h a [] b \<longleftrightarrow> True"
| "dseg h a (p # ps) b \<longleftrightarrow>
     p \<noteq> NULL \<and>
     (\<exists>it. h p = Some it \<and> item_previous it = a \<and> item_next it = hd (ps @ [b])) \<and>
     dseg h p ps b"

lemma dseg_append:
  "dseg h a (ps @ qs) b \<longleftrightarrow> dseg h a ps (hd (qs @ [b])) \<and> dseg h (last (a # ps)) qs b"
  by (induction ps arbitrary: a) (auto simp: hd_append)

lemma dseg_upd [simp]: "p \<notin> set ps \<Longrightarrow> dseg (h(p := x)) a ps b = dseg h a ps b"
  by (induction ps arbitrary: a) auto

lemma dseg_not_NULL: "dseg h a ps b \<Longrightarrow> p \<in> set ps \<Longrightarrow> p \<noteq> NULL"
  by (induction ps arbitrary: a) auto

lemma dseg_live: "dseg h a ps b \<Longrightarrow> p \<in> set ps \<Longrightarrow> \<exists>it. h p = Some it"
  by (induction ps arbitrary: a) auto

lemma dseg_NULL_notin [simp]: "dseg h a ps b \<Longrightarrow> NULL \<notin> set ps"
  using dseg_not_NULL by blast

text \<open>Redirecting the outgoing pointers at the two ends of a segment.\<close>

lemma dseg_redirect_last:
  assumes "dseg h a (ps @ [p]) b" and "distinct (ps @ [p])" and "h p = Some it"
  shows "dseg (h(p \<mapsto> it\<lparr>item_next := c\<rparr>)) a (ps @ [p]) c"
  using assms by (auto simp: dseg_append)

lemma dseg_redirect_first:
  assumes "dseg h a (p # ps) b" and "distinct (p # ps)" and "h p = Some it"
  shows "dseg (h(p \<mapsto> it\<lparr>item_previous := c\<rparr>)) c (p # ps) b"
  using assms by auto

text \<open>The address of a node determines its neighbours.\<close>

lemma dseg_node:
  assumes "dseg h a (ps @ p # qs) b"
  shows "p \<noteq> NULL" and
    "\<exists>v. h p = Some \<lparr>item_value = v, item_previous = last (a # ps), item_next = hd (qs @ [b])\<rparr>"
proof -
  show "p \<noteq> NULL" using assms by (simp add: dseg_append)
  from assms obtain it where "h p = Some it" "item_previous it = last (a # ps)"
      "item_next it = hd (qs @ [b])"
    by (auto simp: dseg_append)
  then show "\<exists>v. h p = Some \<lparr>item_value = v, item_previous = last (a # ps), item_next = hd (qs @ [b])\<rparr>"
    by (intro exI [of _ "item_value it"]) (cases it, simp)
qed

section \<open>The values along a segment\<close>

definition vals :: "heap \<Rightarrow> ptr list \<Rightarrow> ptr list" where
  "vals h ps = map (\<lambda>p. item_value (the (h p))) ps"

lemma vals_simps [simp]:
  "vals h [] = []"
  "vals h (p # ps) = item_value (the (h p)) # vals h ps"
  "vals h (ps @ qs) = vals h ps @ vals h qs"
  "length (vals h ps) = length ps"
  by (simp_all add: vals_def)

lemma vals_upd [simp]: "p \<notin> set ps \<Longrightarrow> vals (h(p := x)) ps = vals h ps"
  by (induction ps) auto

lemma vals_link_upd:
  "h p = Some it \<Longrightarrow> item_value it' = item_value it \<Longrightarrow> vals (h(p \<mapsto> it')) ps = vals h ps"
  by (induction ps) auto

section \<open>Walking the links\<close>

text \<open>
  The three loops of the C code: \<open>for (i = 1; i <= index; i++) item = item->next\<close>, and the
  searches \<open>for (item = first; item; item = item->next)\<close> forwards and backwards, which stop
  at the first node whose value satisfies the test and end with \<open>NULL\<close> when none does. A
  search along a cyclic list would not return, so it is a partial function.
\<close>

fun walk_next :: "heap \<Rightarrow> nat \<Rightarrow> ptr \<Rightarrow> ptr option" where
  "walk_next h 0 p = Some p"
| "walk_next h (Suc n) p = do { it \<leftarrow> load h p; walk_next h n (item_next it) }"

partial_function (option) search_next :: "(ptr \<Rightarrow> bool) \<Rightarrow> heap \<Rightarrow> ptr \<Rightarrow> ptr option" where
  "search_next test h p =
     (if p = NULL then Some NULL
      else do { it \<leftarrow> load h p;
                if test (item_value it) then Some p else search_next test h (item_next it) })"

partial_function (option) search_previous :: "(ptr \<Rightarrow> bool) \<Rightarrow> heap \<Rightarrow> ptr \<Rightarrow> ptr option" where
  "search_previous test h p =
     (if p = NULL then Some NULL
      else do { it \<leftarrow> load h p;
                if test (item_value it) then Some p
                else search_previous test h (item_previous it) })"

lemma walk_next_dseg:
  "dseg h a ps b \<Longrightarrow> n \<le> length ps \<Longrightarrow> walk_next h n (hd (ps @ [b])) = Some (hd (drop n ps @ [b]))"
proof (induction n arbitrary: a ps)
  case 0
  then show ?case by simp
next
  case (Suc n)
  then obtain p ps' where ps: "ps = p # ps'" by (cases ps) auto
  with Suc.prems obtain it where it: "h p = Some it" "item_next it = hd (ps' @ [b])" "p \<noteq> NULL"
      "dseg h p ps' b" by auto
  with Suc.IH [of p ps'] Suc.prems ps show ?case by (simp add: load_def)
qed

lemma search_next_dseg:
  "dseg h a ps NULL \<Longrightarrow>
   search_next test h (hd (ps @ [NULL])) =
     Some (hd (dropWhile (\<lambda>p. \<not> test (item_value (the (h p)))) ps @ [NULL]))"
proof (induction ps arbitrary: a)
  case Nil
  then show ?case by (simp add: search_next.simps)
next
  case (Cons p ps)
  then obtain it where it: "h p = Some it" "item_next it = hd (ps @ [NULL])" "p \<noteq> NULL"
    and seg: "dseg h p ps NULL"
    by auto
  with Cons.IH [OF seg] show ?case
    by (simp add: search_next.simps [of test h p] load_def)
qed

lemma search_previous_dseg:
  "dseg h NULL ps b \<Longrightarrow>
   search_previous test h (last (NULL # ps)) =
     Some (hd (dropWhile (\<lambda>p. \<not> test (item_value (the (h p)))) (rev ps) @ [NULL]))"
proof (induction ps arbitrary: b rule: rev_induct)
  case Nil
  then show ?case by (simp add: search_previous.simps)
next
  case (snoc p ps)
  from snoc.prems obtain it where it: "h p = Some it" "item_previous it = last (NULL # ps)"
      "p \<noteq> NULL" and seg: "dseg h NULL ps p"
    by (auto simp: dseg_append)
  with snoc.IH [OF seg] show ?case
    by (simp add: search_previous.simps [of test h p] load_def)
qed

text \<open>What a search finds, with the segment split at the node it found.\<close>

lemma search_next_cases:
  assumes seg: "dseg h a ps NULL"
  obtains (none) "search_next test h (hd (ps @ [NULL])) = Some NULL"
      "\<forall>v\<in>set (vals h ps). \<not> test v"
  | (found) as p bs where "search_next test h (hd (ps @ [NULL])) = Some p" "p \<noteq> NULL"
      "ps = as @ p # bs" "\<forall>v\<in>set (vals h as). \<not> test v" "test (item_value (the (h p)))"
proof (cases "\<exists>p\<in>set ps. test (item_value (the (h p)))")
  case True
  then obtain as p bs where *: "ps = as @ p # bs" "\<forall>p\<in>set as. \<not> test (item_value (the (h p)))"
      "test (item_value (the (h p)))"
      "dropWhile (\<lambda>p. \<not> test (item_value (the (h p)))) ps = p # bs"
    by (rule split_first)
  show ?thesis
  proof (rule found [of p as bs])
    show "search_next test h (hd (ps @ [NULL])) = Some p"
      by (simp only: search_next_dseg [OF seg] *(4) append_Cons list.sel)
    show "p \<noteq> NULL" using seg * by (auto dest: dseg_not_NULL)
  qed (use * in \<open>auto simp: vals_def\<close>)
next
  case False
  then have none_left: "dropWhile (\<lambda>p. \<not> test (item_value (the (h p)))) ps = []" by simp
  show ?thesis
    by (rule none, simp only: search_next_dseg [OF seg] none_left append_Nil list.sel)
      (use False in \<open>simp add: vals_def\<close>)
qed

lemma search_previous_cases:
  assumes seg: "dseg h NULL ps b"
  obtains (none) "search_previous test h (last (NULL # ps)) = Some NULL"
      "\<forall>v\<in>set (vals h ps). \<not> test v"
  | (found) as p bs where "search_previous test h (last (NULL # ps)) = Some p" "p \<noteq> NULL"
      "ps = as @ p # bs" "\<forall>v\<in>set (vals h bs). \<not> test v" "test (item_value (the (h p)))"
proof (cases "\<exists>p\<in>set (rev ps). test (item_value (the (h p)))")
  case True
  then obtain as p bs where *: "rev ps = as @ p # bs"
      "\<forall>p\<in>set as. \<not> test (item_value (the (h p)))" "test (item_value (the (h p)))"
      "dropWhile (\<lambda>p. \<not> test (item_value (the (h p)))) (rev ps) = p # bs"
    by (rule split_first)
  then have ps: "ps = rev bs @ p # rev as" by (simp add: rev_eq_append_conv)
  show ?thesis
  proof (rule found [of p "rev bs" "rev as"])
    show "search_previous test h (last (NULL # ps)) = Some p"
      by (simp only: search_previous_dseg [OF seg] *(4) append_Cons list.sel)
    show "p \<noteq> NULL" using seg ps by (auto dest: dseg_not_NULL)
  qed (use * ps in \<open>auto simp: vals_def\<close>)
next
  case False
  then have none_left: "dropWhile (\<lambda>p. \<not> test (item_value (the (h p)))) (rev ps) = []" by simp
  show ?thesis
    by (rule none, simp only: search_previous_dseg [OF seg] none_left append_Nil list.sel)
      (use False in \<open>simp add: vals_def\<close>)
qed

section \<open>Whole lists\<close>

text \<open>
  \<open>dlist h ps f l n\<close>: the heap holds exactly the nodes \<open>ps\<close> (nothing leaked, nothing
  dangling), linked from the first node \<open>f\<close> to the last node \<open>l\<close>, and \<open>n\<close> is their number.
\<close>

definition dlist :: "heap \<Rightarrow> ptr list \<Rightarrow> ptr \<Rightarrow> ptr \<Rightarrow> size_t \<Rightarrow> bool" where
  "dlist h ps f l n \<longleftrightarrow>
     dseg h NULL ps NULL \<and> distinct ps \<and> dom h = set ps \<and>
     f = hd (ps @ [NULL]) \<and> l = last (NULL # ps) \<and> n = of_nat (length ps)"

lemma dlist_empty [simp]: "dlist h [] f l n \<longleftrightarrow> h = Map.empty \<and> f = NULL \<and> l = NULL \<and> n = 0"
  by (auto simp: dlist_def)

lemma dlist_length_bound: "dlist h ps f l n \<Longrightarrow> length ps < 2 ^ 64"
  using distinct_words_bound [of ps NULL] by (auto simp: dlist_def)

lemma dlist_unat: "dlist h ps f l n \<Longrightarrow> unat n = length ps"
  using dlist_length_bound [of h ps f l n] by (simp add: dlist_def unat_of_nat)

lemma dlist_first_NULL: "dlist h ps f l n \<Longrightarrow> f = NULL \<longleftrightarrow> ps = []"
  by (cases ps) (auto simp: dlist_def)

lemma dlist_last_NULL: "dlist h ps f l n \<Longrightarrow> l = NULL \<longleftrightarrow> ps = []"
  by (cases ps rule: rev_cases) (auto simp: dlist_def dseg_append)

lemma dlist_length_0: "dlist h ps f l n \<Longrightarrow> n = 0 \<longleftrightarrow> ps = []"
  by (metis dlist_unat length_0_conv unat_eq_zero)

text \<open>
  The heap after a node has been linked in between \<open>as\<close> and \<open>bs\<close>, and after the node
  between them has been unlinked and freed.
\<close>

definition linked_in :: "heap \<Rightarrow> ptr list \<Rightarrow> ptr \<Rightarrow> ptr \<Rightarrow> ptr list \<Rightarrow> heap" where
  "linked_in h as p v bs =
     (let q = last (NULL # as); r = hd (bs @ [NULL]);
          h1 = h(p \<mapsto> \<lparr>item_value = v, item_previous = q, item_next = r\<rparr>);
          h2 = (if as = [] then h1 else h1(q \<mapsto> (the (h1 q))\<lparr>item_next := p\<rparr>))
      in if bs = [] then h2 else h2(r \<mapsto> (the (h2 r))\<lparr>item_previous := p\<rparr>))"

definition unlinked :: "heap \<Rightarrow> ptr list \<Rightarrow> ptr \<Rightarrow> ptr list \<Rightarrow> heap" where
  "unlinked h as p bs =
     (let q = last (NULL # as); r = hd (bs @ [NULL]);
          h1 = h(p := None);
          h2 = (if as = [] then h1 else h1(q \<mapsto> (the (h1 q))\<lparr>item_next := r\<rparr>))
      in if bs = [] then h2 else h2(r \<mapsto> (the (h2 r))\<lparr>item_previous := q\<rparr>))"

lemma linked_in_seg:
  assumes "dseg h NULL as (hd (bs @ [NULL]))" and "dseg h (last (NULL # as)) bs NULL"
    and "distinct (as @ bs)" and "p \<notin> set as" "p \<notin> set bs" "p \<noteq> NULL"
  shows "dseg (linked_in h as p v bs) NULL (as @ p # bs) NULL"
    and "dom (linked_in h as p v bs) = insert p (dom h)"
    and "vals (linked_in h as p v bs) (as @ p # bs) = vals h as @ v # vals h bs"
proof -
  consider "as = []" "bs = []" | r bs' where "as = []" "bs = r # bs'"
    | as' q where "as = as' @ [q]" "bs = []" | as' q r bs' where "as = as' @ [q]" "bs = r # bs'"
    by (metis rev_exhaust neq_Nil_conv)
  note cases = this
  show "dseg (linked_in h as p v bs) NULL (as @ p # bs) NULL"
    using assms by (cases rule: cases) (auto simp: linked_in_def Let_def dseg_append)
  show "dom (linked_in h as p v bs) = insert p (dom h)"
    using assms by (cases rule: cases) (auto simp: linked_in_def Let_def dseg_append)
  show "vals (linked_in h as p v bs) (as @ p # bs) = vals h as @ v # vals h bs"
    using assms by (cases rule: cases) (auto simp: linked_in_def Let_def dseg_append)
qed

lemma dlist_linked_in:
  assumes "dlist h (as @ bs) f l n" and "p \<noteq> NULL" and "h p = None"
  shows "dlist (linked_in h as p v bs) (as @ p # bs)
           (if as = [] then p else f) (if bs = [] then p else l) (n + 1)"
    and "vals (linked_in h as p v bs) (as @ p # bs) = vals h as @ v # vals h bs"
proof -
  from assms have p: "p \<notin> set as" "p \<notin> set bs" by (auto simp: dlist_def)
  from assms have *: "dseg h NULL as (hd (bs @ [NULL]))" "dseg h (last (NULL # as)) bs NULL"
      "distinct (as @ bs)" "dom h = set as \<union> set bs" "f = hd (as @ bs @ [NULL])"
      "l = last (NULL # as @ bs)" "n = of_nat (length as + length bs)"
    by (simp_all add: dlist_def dseg_append)
  note facts = linked_in_seg [OF *(1-3) p assms(2), of v]
  show "dlist (linked_in h as p v bs) (as @ p # bs)
           (if as = [] then p else f) (if bs = [] then p else l) (n + 1)"
    unfolding dlist_def using facts(1,2) p *(3-7) by (simp add: hd_append)
  show "vals (linked_in h as p v bs) (as @ p # bs) = vals h as @ v # vals h bs"
    by (rule facts(3))
qed

lemma unlinked_seg:
  assumes "dseg h NULL as p" and "dseg h p bs NULL"
    and "distinct (as @ bs)" and "p \<notin> set as" "p \<notin> set bs" "p \<noteq> NULL"
  shows "dseg (unlinked h as p bs) NULL (as @ bs) NULL"
    and "dom (unlinked h as p bs) = dom h - {p}"
    and "vals (unlinked h as p bs) (as @ bs) = vals h as @ vals h bs"
proof -
  consider "as = []" "bs = []" | r bs' where "as = []" "bs = r # bs'"
    | as' q where "as = as' @ [q]" "bs = []" | as' q r bs' where "as = as' @ [q]" "bs = r # bs'"
    by (metis rev_exhaust neq_Nil_conv)
  note cases = this
  show "dseg (unlinked h as p bs) NULL (as @ bs) NULL"
    using assms by (cases rule: cases) (auto simp: unlinked_def Let_def dseg_append)
  show "dom (unlinked h as p bs) = dom h - {p}"
    using assms by (cases rule: cases) (auto simp: unlinked_def Let_def dseg_append)
  show "vals (unlinked h as p bs) (as @ bs) = vals h as @ vals h bs"
    using assms by (cases rule: cases) (auto simp: unlinked_def Let_def dseg_append)
qed

lemma dlist_unlinked:
  assumes "dlist h (as @ p # bs) f l n"
  shows "dlist (unlinked h as p bs) (as @ bs)
           (if as = [] then hd (bs @ [NULL]) else f) (if bs = [] then last (NULL # as) else l) (n - 1)"
    and "vals (unlinked h as p bs) (as @ bs) = vals h as @ vals h bs"
proof -
  from assms have *: "dseg h NULL as p" "dseg h p bs NULL" "distinct (as @ bs)" "p \<notin> set as"
      "p \<notin> set bs" "p \<noteq> NULL" "dom h = insert p (set as \<union> set bs)" "f = hd (as @ p # bs @ [NULL])"
      "l = last (p # bs)" "n = of_nat (length as + length bs) + 1"
    by (simp_all add: dlist_def dseg_append)
  note facts = unlinked_seg [OF *(1-6)]
  show "dlist (unlinked h as p bs) (as @ bs)
           (if as = [] then hd (bs @ [NULL]) else f) (if bs = [] then last (NULL # as) else l) (n - 1)"
    unfolding dlist_def using facts(1,2) *(3-10) by (simp add: hd_append)
  show "vals (unlinked h as p bs) (as @ bs) = vals h as @ vals h bs"
    by (rule facts(3))
qed

end
