(* ===== verification/Contracts.thy ===== *)
theory Contracts
  imports Prelude "HOL-Library.Multiset"
begin

text \<open>
  The interfaces that several components implement and the facts their clients get from
  them. A state refines a list through a relation \<open>rep\<close>; \<open>put\<close> takes the outcome \<open>a\<close> of the
  memory allocation it makes (\<open>got a\<close>: it succeeded) and must not fault on any outcome the
  environment can produce (\<open>ok a s\<close>).

  Interpreted by the linked list, the generic queue (in its first-in-first-out and its
  last-in-first-out use) and the byte ring buffer.
\<close>

section \<open>Appending stores, queues and stacks\<close>

locale append_store =
  fixes rep :: "'s \<Rightarrow> 'v list \<Rightarrow> bool"
    and ok :: "'a \<Rightarrow> 's \<Rightarrow> bool"
    and got :: "'a \<Rightarrow> bool"
    and put :: "'a \<Rightarrow> 'v \<Rightarrow> 's \<Rightarrow> 's option"
  assumes put_rep: "rep s vs \<Longrightarrow> ok a s \<Longrightarrow>
    \<exists>s'. put a v s = Some s' \<and> rep s' (if got a then vs @ [v] else vs)"

locale queue_store = append_store +
  fixes take :: "'s \<Rightarrow> ('v \<times> 's) option"
  assumes take_rep: "rep s (v # vs) \<Longrightarrow> \<exists>s'. take s = Some (v, s') \<and> rep s' vs"

text \<open>A queue that may also be asked when it is empty: it answers \<open>none\<close> and keeps its state.\<close>

locale total_queue_store = queue_store +
  fixes none :: 'v
  assumes take_none: "rep s [] \<Longrightarrow> take s = Some (none, s)"

locale stack_store = append_store +
  fixes pop :: "'s \<Rightarrow> ('v \<times> 's) option"
  assumes pop_rep: "rep s (vs @ [v]) \<Longrightarrow> \<exists>s'. pop s = Some (v, s') \<and> rep s' vs"

section \<open>Traces of a client\<close>

text \<open>
  A client's sequence of operations on such a store: \<open>Put a v\<close>, or \<open>Get\<close>, which takes an
  element out (at the front of a queue, at the end of a stack). \<open>run\<close> is the execution on the
  concrete state and collects what was taken; \<open>env_ok\<close> says that every allocation in it has
  an outcome that is possible in the state it is made in.
\<close>

datatype ('a, 'v) client_op = Put 'a 'v | Get

fun client_run :: "('a \<Rightarrow> 'v \<Rightarrow> 's \<Rightarrow> 's option) \<Rightarrow> ('s \<Rightarrow> ('v \<times> 's) option) \<Rightarrow>
  's \<Rightarrow> ('a, 'v) client_op list \<Rightarrow> ('v list \<times> 's) option" where
  "client_run put get s [] = Some ([], s)"
| "client_run put get s (Put a v # ops) = do {
     s \<leftarrow> put a v s;
     client_run put get s ops }"
| "client_run put get s (Get # ops) = do {
     (v, s) \<leftarrow> get s;
     (vs, s) \<leftarrow> client_run put get s ops;
     Some (v # vs, s) }"

fun env_ok :: "('a \<Rightarrow> 's \<Rightarrow> bool) \<Rightarrow> ('a \<Rightarrow> 'v \<Rightarrow> 's \<Rightarrow> 's option) \<Rightarrow> ('s \<Rightarrow> ('v \<times> 's) option) \<Rightarrow>
  's \<Rightarrow> ('a, 'v) client_op list \<Rightarrow> bool" where
  "env_ok ok put get s [] \<longleftrightarrow> True"
| "env_ok ok put get s (Put a v # ops) \<longleftrightarrow>
     ok a s \<and> (case put a v s of None \<Rightarrow> True | Some s' \<Rightarrow> env_ok ok put get s' ops)"
| "env_ok ok put get s (Get # ops) \<longleftrightarrow>
     (case get s of None \<Rightarrow> True | Some (v, s') \<Rightarrow> env_ok ok put get s' ops)"

text \<open>The specification: what is taken out of the list, and what remains. \<open>None\<close> when the
  client takes from an empty store.\<close>

fun queue_spec :: "('a \<Rightarrow> bool) \<Rightarrow> 'v list \<Rightarrow> ('a, 'v) client_op list \<Rightarrow>
  ('v list \<times> 'v list) option" where
  "queue_spec got vs [] = Some ([], vs)"
| "queue_spec got vs (Put a v # ops) = queue_spec got (if got a then vs @ [v] else vs) ops"
| "queue_spec got [] (Get # ops) = None"
| "queue_spec got (v # vs) (Get # ops) = do {
     (outs, rest) \<leftarrow> queue_spec got vs ops;
     Some (v # outs, rest) }"

fun stack_spec :: "('a \<Rightarrow> bool) \<Rightarrow> 'v list \<Rightarrow> ('a, 'v) client_op list \<Rightarrow>
  ('v list \<times> 'v list) option" where
  "stack_spec got vs [] = Some ([], vs)"
| "stack_spec got vs (Put a v # ops) = stack_spec got (if got a then vs @ [v] else vs) ops"
| "stack_spec got vs (Get # ops) =
     (if vs = [] then None
      else do { (outs, rest) \<leftarrow> stack_spec got (butlast vs) ops; Some (last vs # outs, rest) })"

fun accepted :: "('a \<Rightarrow> bool) \<Rightarrow> ('a, 'v) client_op list \<Rightarrow> 'v list" where
  "accepted got [] = []"
| "accepted got (Put a v # ops) = (if got a then v # accepted got ops else accepted got ops)"
| "accepted got (Get # ops) = accepted got ops"

text \<open>First in, first out: nothing is lost, duplicated or reordered.\<close>

lemma queue_spec_fifo:
  "queue_spec got vs ops = Some (outs, rest) \<Longrightarrow> outs @ rest = vs @ accepted got ops"
proof (induction got vs ops arbitrary: outs rule: queue_spec.induct)
  case (4 got v vs ops)
  then show ?case by (auto simp: bind_eq_Some_conv)
qed (auto split: if_splits)

context queue_store
begin

lemma run_refines:
  "rep s vs \<Longrightarrow> env_ok ok put take s ops \<Longrightarrow> queue_spec got vs ops = Some (outs, rest) \<Longrightarrow>
   \<exists>s'. client_run put take s ops = Some (outs, s') \<and> rep s' rest"
proof (induction ops arbitrary: s vs outs)
  case Nil
  then show ?case by simp
next
  case (Cons op ops)
  show ?case
  proof (cases op)
    case (Put a v)
    with Cons.prems have "ok a s" by simp
    with Cons.prems(1) obtain s' where s': "put a v s = Some s'"
      "rep s' (if got a then vs @ [v] else vs)"
      using put_rep by blast
    with Cons.IH [OF s'(2)] Cons.prems Put show ?thesis by simp
  next
    case Get
    with Cons.prems(3) obtain v ws outs' where vs: "vs = v # ws" "outs = v # outs'"
      "queue_spec got ws ops = Some (outs', rest)"
      by (cases vs) (auto simp: bind_eq_Some_conv)
    with Cons.prems(1) obtain s' where s': "take s = Some (v, s')" "rep s' ws"
      using take_rep by blast
    with Cons.IH [OF s'(2) _ vs(3)] Cons.prems Get vs show ?thesis by auto
  qed
qed

lemma run_fifo:
  assumes "rep s vs" and "env_ok ok put take s ops" and "queue_spec got vs ops \<noteq> None"
  shows "\<exists>outs rest s'. client_run put take s ops = Some (outs, s') \<and> rep s' rest \<and>
    outs @ rest = vs @ accepted got ops"
proof -
  from assms(3) obtain outs rest where spec: "queue_spec got vs ops = Some (outs, rest)" by auto
  from run_refines [OF assms(1,2) spec] queue_spec_fifo [OF spec] show ?thesis by blast
qed

end

text \<open>
  The answers of a queue that may be asked when it is empty: \<open>None\<close> for each such request. What was
  taken, followed by what remains, is again everything in its order.
\<close>

fun queue_answers :: "('a \<Rightarrow> bool) \<Rightarrow> 'v list \<Rightarrow> ('a, 'v) client_op list \<Rightarrow> 'v option list \<times> 'v list" where
  "queue_answers got vs [] = ([], vs)"
| "queue_answers got vs (Put a v # ops) = queue_answers got (if got a then vs @ [v] else vs) ops"
| "queue_answers got [] (Get # ops) = (let (outs, rest) = queue_answers got [] ops in (None # outs, rest))"
| "queue_answers got (v # vs) (Get # ops) = (let (outs, rest) = queue_answers got vs ops in (Some v # outs, rest))"

fun answered :: "'v option list \<Rightarrow> 'v list" where
  "answered [] = []"
| "answered (None # outs) = answered outs"
| "answered (Some v # outs) = v # answered outs"

lemma queue_answers_fifo:
  "queue_answers got vs ops = (outs, rest) \<Longrightarrow> answered outs @ rest = vs @ accepted got ops"
proof (induction got vs ops arbitrary: outs rule: queue_answers.induct)
  case (3 got ops)
  then show ?case by (auto simp: Let_def split: prod.splits)
next
  case (4 got v vs ops)
  then show ?case by (auto simp: Let_def split: prod.splits)
qed (auto split: if_splits)

context total_queue_store
begin

lemma run_answers:
  "rep s vs \<Longrightarrow> env_ok ok put take s ops \<Longrightarrow> queue_answers got vs ops = (outs, rest) \<Longrightarrow>
   \<exists>s'. client_run put take s ops = Some (map (case_option none id) outs, s') \<and> rep s' rest"
proof (induction ops arbitrary: s vs outs)
  case Nil
  then show ?case by simp
next
  case (Cons op ops)
  show ?case
  proof (cases op)
    case (Put a v)
    with Cons.prems have "ok a s" by simp
    with Cons.prems(1) obtain s' where s': "put a v s = Some s'" "rep s' (if got a then vs @ [v] else vs)"
      using put_rep by blast
    with Cons.IH [OF s'(2)] Cons.prems Put show ?thesis by simp
  next
    case op: Get
    show ?thesis
    proof (cases vs)
      case Nil
      from Cons.prems(3) obtain outs' where outs: "outs = None # outs'" "queue_answers got [] ops = (outs', rest)"
        by (auto simp: op Nil Let_def split: prod.splits)
      have "take s = Some (none, s)" using Cons.prems(1) take_none by (simp add: Nil)
      with Cons.IH [of s "[]", OF _ _ outs(2)] Cons.prems(1,2) show ?thesis by (auto simp: op Nil outs(1))
    next
      case vs: (Cons v ws)
      from Cons.prems(3) obtain outs' where outs: "outs = Some v # outs'" "queue_answers got ws ops = (outs', rest)"
        by (auto simp: op vs Let_def split: prod.splits)
      from Cons.prems(1) obtain s' where s': "take s = Some (v, s')" "rep s' ws"
        unfolding vs using take_rep by blast
      with Cons.IH [OF s'(2) _ outs(2)] Cons.prems(2) show ?thesis by (auto simp: op outs(1))
    qed
  qed
qed

end

context stack_store
begin

lemma run_lifo:
  "rep s vs \<Longrightarrow> env_ok ok put pop s ops \<Longrightarrow> stack_spec got vs ops = Some (outs, rest) \<Longrightarrow>
   \<exists>s'. client_run put pop s ops = Some (outs, s') \<and> rep s' rest"
proof (induction ops arbitrary: s vs outs)
  case Nil
  then show ?case by simp
next
  case (Cons op ops)
  show ?case
  proof (cases op)
    case (Put a v)
    with Cons.prems have "ok a s" by simp
    with Cons.prems(1) obtain s' where s': "put a v s = Some s'"
      "rep s' (if got a then vs @ [v] else vs)"
      using put_rep by blast
    with Cons.IH [OF s'(2)] Cons.prems Put show ?thesis by simp
  next
    case Get
    with Cons.prems(3) obtain outs' where vs: "vs = butlast vs @ [last vs]" "outs = last vs # outs'"
      "stack_spec got (butlast vs) ops = Some (outs', rest)"
      by (cases "vs = []") (auto simp: bind_eq_Some_conv)
    with Cons.prems(1) obtain s' where s': "pop s = Some (last vs, s')" "rep s' (butlast vs)"
      using pop_rep by metis
    with Cons.IH [OF s'(2) _ vs(3)] Cons.prems Get vs show ?thesis by auto
  qed
qed

end


section \<open>Priority stores\<close>

text \<open>
  A store that gives its elements back one at a time, each of maximal priority among those it
  holds. Its client is the loop that empties it.
\<close>

fun drain :: "('q \<Rightarrow> ('a \<times> 'q) option) \<Rightarrow> nat \<Rightarrow> 'q \<Rightarrow> 'a list" where
  "drain get 0 q = []"
| "drain get (Suc n) q = (case get q of None \<Rightarrow> [] | Some (x, q) \<Rightarrow> x # drain get n q)"

locale priority_store =
  fixes inv :: "'q \<Rightarrow> bool"
    and bag :: "'q \<Rightarrow> 'a multiset"
    and get :: "'q \<Rightarrow> ('a \<times> 'q) option"
    and prio :: "'a \<Rightarrow> 'p::linorder"
  assumes get_max: "inv q \<Longrightarrow> bag q \<noteq> {#} \<Longrightarrow>
    \<exists>x q'. get q = Some (x, q') \<and> inv q' \<and> bag q = add_mset x (bag q') \<and>
      (\<forall>y \<in># bag q. prio y \<le> prio x)"
begin

lemma drain_sorts:
  assumes "inv q" and "n = size (bag q)"
  shows "mset (drain get n q) = bag q \<and> sorted_wrt (\<lambda>x y. prio y \<le> prio x) (drain get n q)"
  using assms
proof (induction n arbitrary: q)
  case (Suc n)
  then obtain x q' where x: "get q = Some (x, q')" "inv q'" "bag q = add_mset x (bag q')"
    "\<forall>y \<in># bag q. prio y \<le> prio x"
    using get_max [of q] by fastforce
  with Suc.prems have "n = size (bag q')" by simp
  with Suc.IH [OF x(2)] x show ?case by (auto simp flip: set_mset_mset)
qed simp

end

end
