(* ===== verification/LinkedList.thy ===== *)
theory LinkedList
  imports DList Contracts
begin

text \<open>
  \<open>lists/linked_list.c\<close>: the list struct, its 24 functions and their refinement to HOL lists.

  The state is the heap of nodes with the list struct, \<open>None\<close> when the caller passes a
  \<open>NULL\<close> list. An operation returns \<open>None\<close> only for undefined behaviour. The callbacks
  \<open>matches\<close> are functions on values (\<open>None\<close> for a \<open>NULL\<close> callback); the callbacks called for
  their effect (\<open>free_value\<close>, \<open>fn\<close>) are recorded as the list of their calls.
\<close>

section \<open>State\<close>

record linked_list =
  first_item :: ptr
  last_item :: ptr
  ll_length :: size_t

record linked_list_iterator_t =
  it_item :: ptr
  it_forward :: bool

type_synonym ll_state = "heap \<times> linked_list option"

section \<open>Operations\<close>

definition linked_list_new :: "bool \<Rightarrow> linked_list option" where
  "linked_list_new calloc_ok =
     (if calloc_ok then Some \<lparr>first_item = NULL, last_item = NULL, ll_length = 0\<rparr> else None)"

partial_function (option) ll_free_loop :: "heap \<Rightarrow> ptr \<Rightarrow> (heap \<times> ptr list) option" where
  "ll_free_loop h p =
     (if p = NULL then Some (h, [])
      else do {
        it \<leftarrow> load h p;
        h \<leftarrow> free_item h p;
        (h, vs) \<leftarrow> ll_free_loop h (item_next it);
        Some (h, item_value it # vs) })"

fun linked_list_free :: "bool \<Rightarrow> ll_state \<Rightarrow> (ptr list \<times> ll_state) option" where
  "linked_list_free free_value (h, None) = Some ([], (h, None))"
| "linked_list_free free_value (h, Some list) = do {
     (h, vs) \<leftarrow> ll_free_loop h (first_item list);
     Some (if free_value then vs else [], (h, None)) }"

fun linked_list_add :: "ptr \<Rightarrow> ptr \<Rightarrow> ll_state \<Rightarrow> ll_state option" where
  "linked_list_add new_item v (h, None) = Some (h, None)"
| "linked_list_add new_item v (h, Some list) =
     (if new_item = NULL then Some (h, Some list)
      else do {
        let h = h(new_item \<mapsto> \<lparr>item_value = v, item_previous = last_item list, item_next = NULL\<rparr>);
        (h, list) \<leftarrow>
          (if ll_length list = 0 then Some (h, list\<lparr>first_item := new_item\<rparr>)
           else do { h \<leftarrow> store_next h (last_item list) new_item; Some (h, list) });
        Some (h, Some (list\<lparr>last_item := new_item, ll_length := ll_length list + 1\<rparr>)) })"

text \<open>The loop of \<open>linked_list_insert\<close>: it advances the pair (\<open>previous_item\<close>, \<open>next_item\<close>).\<close>

fun ll_insert_walk :: "heap \<Rightarrow> nat \<Rightarrow> ptr \<Rightarrow> ptr \<Rightarrow> (ptr \<times> ptr) option" where
  "ll_insert_walk h 0 previous_item next_item = Some (previous_item, next_item)"
| "ll_insert_walk h (Suc n) previous_item next_item = do {
     it \<leftarrow> load h next_item;
     ll_insert_walk h n next_item (item_next it) }"

fun linked_list_insert :: "ptr \<Rightarrow> size_t \<Rightarrow> ptr \<Rightarrow> ll_state \<Rightarrow> ll_state option" where
  "linked_list_insert new_item index v (h, None) = Some (h, None)"
| "linked_list_insert new_item index v (h, Some list) =
     (if index > ll_length list then Some (h, Some list)
      else do {
        (previous_item, next_item) \<leftarrow> ll_insert_walk h (unat index) NULL (first_item list);
        if new_item = NULL then Some (h, Some list)
        else do {
          let h = h(new_item \<mapsto> \<lparr>item_value = v, item_previous = NULL, item_next = NULL\<rparr>);
          (h, list) \<leftarrow>
            (if previous_item \<noteq> NULL
             then do { h \<leftarrow> store_next h previous_item new_item; Some (h, list) }
             else Some (h, list\<lparr>first_item := new_item\<rparr>));
          h \<leftarrow> store_previous h new_item previous_item;
          (h, list) \<leftarrow>
            (if next_item \<noteq> NULL
             then do { h \<leftarrow> store_previous h next_item new_item; Some (h, list) }
             else Some (h, list\<lparr>last_item := new_item\<rparr>));
          h \<leftarrow> store_next h new_item next_item;
          Some (h, Some (list\<lparr>ll_length := ll_length list + 1\<rparr>)) } })"

fun linked_list_get :: "size_t \<Rightarrow> ll_state \<Rightarrow> ptr option" where
  "linked_list_get index (h, None) = Some NULL"
| "linked_list_get index (h, Some list) =
     (if index \<ge> ll_length list then Some NULL
      else do {
        item \<leftarrow> walk_next h (unat index) (first_item list);
        it \<leftarrow> load h item;
        Some (item_value it) })"

fun linked_list_get_first_matching :: "(ptr \<Rightarrow> bool) option \<Rightarrow> ll_state \<Rightarrow> ptr option" where
  "linked_list_get_first_matching (Some matches) (h, Some list) = do {
     item \<leftarrow> search_next matches h (first_item list);
     if item = NULL then Some NULL else do { it \<leftarrow> load h item; Some (item_value it) } }"
| "linked_list_get_first_matching _ _ = Some NULL"

fun linked_list_get_last_matching :: "(ptr \<Rightarrow> bool) option \<Rightarrow> ll_state \<Rightarrow> ptr option" where
  "linked_list_get_last_matching (Some matches) (h, Some list) = do {
     item \<leftarrow> search_previous matches h (last_item list);
     if item = NULL then Some NULL else do { it \<leftarrow> load h item; Some (item_value it) } }"
| "linked_list_get_last_matching _ _ = Some NULL"

definition ll_remove_item :: "heap \<Rightarrow> linked_list \<Rightarrow> ptr \<Rightarrow> (heap \<times> linked_list) option" where
  "ll_remove_item h list item = do {
     it \<leftarrow> load h item;
     let previous_item = item_previous it;
     let next_item = item_next it;
     h \<leftarrow> free_item h item;
     let list = list\<lparr>ll_length := ll_length list - 1\<rparr>;
     (h, list) \<leftarrow>
       (if previous_item \<noteq> NULL
        then do { h \<leftarrow> store_next h previous_item next_item; Some (h, list) }
        else Some (h, list\<lparr>first_item := next_item\<rparr>));
     (if next_item \<noteq> NULL
      then do { h \<leftarrow> store_previous h next_item previous_item; Some (h, list) }
      else Some (h, list\<lparr>last_item := previous_item\<rparr>)) }"

fun linked_list_remove_at :: "size_t \<Rightarrow> ll_state \<Rightarrow> (ptr \<times> ll_state) option" where
  "linked_list_remove_at index (h, None) = Some (NULL, (h, None))"
| "linked_list_remove_at index (h, Some list) =
     (if ll_length list = 0 \<or> index \<ge> ll_length list then Some (NULL, (h, Some list))
      else do {
        item \<leftarrow> walk_next h (unat index) (first_item list);
        it \<leftarrow> load h item;
        (h, list) \<leftarrow> ll_remove_item h list item;
        Some (item_value it, (h, Some list)) })"

fun linked_list_remove_first :: "ptr \<Rightarrow> ll_state \<Rightarrow> (ptr \<times> ll_state) option" where
  "linked_list_remove_first v (h, None) = Some (NULL, (h, None))"
| "linked_list_remove_first v (h, Some list) = do {
     item \<leftarrow> search_next (\<lambda>x. x = v) h (first_item list);
     if item \<noteq> NULL
     then do { (h, list) \<leftarrow> ll_remove_item h list item; Some (v, (h, Some list)) }
     else Some (NULL, (h, Some list)) }"

fun linked_list_remove_last :: "ptr \<Rightarrow> ll_state \<Rightarrow> (ptr \<times> ll_state) option" where
  "linked_list_remove_last v (h, None) = Some (NULL, (h, None))"
| "linked_list_remove_last v (h, Some list) = do {
     item \<leftarrow> search_previous (\<lambda>x. x = v) h (last_item list);
     if item \<noteq> NULL
     then do { (h, list) \<leftarrow> ll_remove_item h list item; Some (v, (h, Some list)) }
     else Some (NULL, (h, Some list)) }"

text \<open>
  The loop shared in shape by \<open>linked_list_remove_all\<close> and
  \<open>linked_list_remove_all_matching\<close>: \<open>next_item\<close> is read before the node is freed.
\<close>

partial_function (option) ll_remove_loop ::
  "(ptr \<Rightarrow> bool) \<Rightarrow> heap \<Rightarrow> linked_list \<Rightarrow> ptr \<Rightarrow> bool \<Rightarrow> (bool \<times> heap \<times> linked_list) option" where
  "ll_remove_loop matches h list item found =
     (if item = NULL then Some (found, h, list)
      else do {
        it \<leftarrow> load h item;
        (if matches (item_value it)
         then do {
           (h, list) \<leftarrow> ll_remove_item h list item;
           ll_remove_loop matches h list (item_next it) True }
         else ll_remove_loop matches h list (item_next it) found) })"

fun linked_list_remove_all :: "ptr \<Rightarrow> ll_state \<Rightarrow> (ptr \<times> ll_state) option" where
  "linked_list_remove_all v (h, None) = Some (NULL, (h, None))"
| "linked_list_remove_all v (h, Some list) = do {
     (found, h, list) \<leftarrow> ll_remove_loop (\<lambda>x. x = v) h list (first_item list) False;
     Some (if found then v else NULL, (h, Some list)) }"

fun linked_list_remove_first_matching ::
  "(ptr \<Rightarrow> bool) option \<Rightarrow> ll_state \<Rightarrow> (ptr \<times> ll_state) option" where
  "linked_list_remove_first_matching (Some matches) (h, Some list) = do {
     item \<leftarrow> search_next matches h (first_item list);
     if item \<noteq> NULL
     then do {
       it \<leftarrow> load h item;
       (h, list) \<leftarrow> ll_remove_item h list item;
       Some (item_value it, (h, Some list)) }
     else Some (NULL, (h, Some list)) }"
| "linked_list_remove_first_matching _ s = Some (NULL, s)"

fun linked_list_remove_last_matching ::
  "(ptr \<Rightarrow> bool) option \<Rightarrow> ll_state \<Rightarrow> (ptr \<times> ll_state) option" where
  "linked_list_remove_last_matching (Some matches) (h, Some list) = do {
     item \<leftarrow> search_previous matches h (last_item list);
     if item \<noteq> NULL
     then do {
       it \<leftarrow> load h item;
       (h, list) \<leftarrow> ll_remove_item h list item;
       Some (item_value it, (h, Some list)) }
     else Some (NULL, (h, Some list)) }"
| "linked_list_remove_last_matching _ s = Some (NULL, s)"

fun linked_list_remove_all_matching :: "(ptr \<Rightarrow> bool) option \<Rightarrow> ll_state \<Rightarrow> ll_state option" where
  "linked_list_remove_all_matching (Some matches) (h, Some list) = do {
     (_, h, list) \<leftarrow> ll_remove_loop matches h list (first_item list) False;
     Some (h, Some list) }"
| "linked_list_remove_all_matching _ s = Some s"

fun linked_list_set_at :: "size_t \<Rightarrow> ptr \<Rightarrow> ll_state \<Rightarrow> (bool \<times> ll_state) option" where
  "linked_list_set_at index v (h, None) = Some (False, (h, None))"
| "linked_list_set_at index v (h, Some list) =
     (if ll_length list = 0 \<or> index \<ge> ll_length list then Some (False, (h, Some list))
      else do {
        item \<leftarrow> walk_next h (unat index) (first_item list);
        if item \<noteq> NULL then do { h \<leftarrow> store_value h item v; Some (True, (h, Some list)) }
        else Some (False, (h, Some list)) })"

fun linked_list_size :: "ll_state \<Rightarrow> size_t" where
  "linked_list_size (h, Some list) = ll_length list"
| "linked_list_size (h, None) = 0"

text \<open>
  Iterators: \<open>None\<close> is a \<open>NULL\<close> iterator (also the result once the iterator has freed itself).
  The \<open>list\<close> field of the C struct is the list of the state it is used with.
\<close>

fun linked_list_iterator :: "bool \<Rightarrow> bool \<Rightarrow> ll_state \<Rightarrow> linked_list_iterator_t option" where
  "linked_list_iterator malloc_ok forward (h, None) = None"
| "linked_list_iterator malloc_ok forward (h, Some list) =
     (if first_item list = NULL then None
      else if \<not> malloc_ok then None
      else Some \<lparr>it_item = (if forward then first_item list else last_item list),
                 it_forward = forward\<rparr>)"

fun linked_list_iterator_next ::
  "heap \<Rightarrow> linked_list_iterator_t option \<Rightarrow> linked_list_iterator_t option option" where
  "linked_list_iterator_next h None = Some None"
| "linked_list_iterator_next h (Some iterator) = do {
     it \<leftarrow> load h (it_item iterator);
     let item = (if it_forward iterator then item_next it else item_previous it);
     Some (if item \<noteq> NULL then Some (iterator\<lparr>it_item := item\<rparr>) else None) }"

fun linked_list_iterator_value :: "heap \<Rightarrow> linked_list_iterator_t option \<Rightarrow> ptr option" where
  "linked_list_iterator_value h (Some iterator) = do {
     it \<leftarrow> load h (it_item iterator);
     Some (item_value it) }"
| "linked_list_iterator_value h None = Some NULL"

fun linked_list_iterator_remove ::
  "linked_list_iterator_t option \<Rightarrow> ll_state \<Rightarrow> (linked_list_iterator_t option \<times> ll_state) option" where
  "linked_list_iterator_remove None s = Some (None, s)"
| "linked_list_iterator_remove (Some iterator) (h, None) = None"
| "linked_list_iterator_remove (Some iterator) (h, Some list) = do {
     it \<leftarrow> load h (it_item iterator);
     let next_item = (if it_forward iterator then item_next it else item_previous it);
     (h, list) \<leftarrow> ll_remove_item h list (it_item iterator);
     Some (if next_item \<noteq> NULL then Some (iterator\<lparr>it_item := next_item\<rparr>) else None,
           (h, Some list)) }"

definition linked_list_iterator_free ::
  "linked_list_iterator_t option \<Rightarrow> linked_list_iterator_t option" where
  "linked_list_iterator_free iterator = None"

partial_function (option) ll_foreach_loop :: "heap \<Rightarrow> ptr \<Rightarrow> size_t \<Rightarrow> (size_t \<times> ptr) list option" where
  "ll_foreach_loop h item i =
     (if item = NULL then Some []
      else do {
        it \<leftarrow> load h item;
        calls \<leftarrow> ll_foreach_loop h (item_next it) (i + 1);
        Some ((i, item_value it) # calls) })"

fun linked_list_foreach :: "bool \<Rightarrow> ll_state \<Rightarrow> (size_t \<times> ptr) list option" where
  "linked_list_foreach fn (h, None) = Some []"
| "linked_list_foreach fn (h, Some list) =
     (if \<not> fn then Some [] else ll_foreach_loop h (first_item list) 0)"

section \<open>Representation of a HOL list\<close>

text \<open>
  \<open>ll_nodes h list ps\<close>: the list struct and the heap agree with the node addresses \<open>ps\<close>.
  \<open>ll_rep s vs\<close>: the state holds a well formed list whose values are \<open>vs\<close>.
\<close>

definition ll_nodes :: "heap \<Rightarrow> linked_list \<Rightarrow> ptr list \<Rightarrow> bool" where
  "ll_nodes h list ps \<longleftrightarrow> dlist h ps (first_item list) (last_item list) (ll_length list)"

fun ll_rep :: "ll_state \<Rightarrow> ptr list \<Rightarrow> bool" where
  "ll_rep (h, Some list) vs \<longleftrightarrow> (\<exists>ps. ll_nodes h list ps \<and> vals h ps = vs)"
| "ll_rep (h, None) vs \<longleftrightarrow> False"

lemma ll_rep_cases:
  assumes "ll_rep s vs"
  obtains h list ps where "s = (h, Some list)" "ll_nodes h list ps" "vs = vals h ps"
  using assms by (cases s; cases "snd s") auto

lemma ll_repI: "ll_nodes h list ps \<Longrightarrow> vals h ps = vs \<Longrightarrow> ll_rep (h, Some list) vs"
  by auto

lemma ll_nodesD:
  assumes "ll_nodes h list ps"
  shows "dseg h NULL ps NULL" "first_item list = hd (ps @ [NULL])"
    "last_item list = last (NULL # ps)" "unat (ll_length list) = length ps" "distinct ps"
    "dom h = set ps"
  using assms dlist_unat [of h ps] by (auto simp: ll_nodes_def dlist_def)

lemma ll_rep_new: "ll_rep (Map.empty, linked_list_new True) []"
  by (auto simp: linked_list_new_def ll_nodes_def intro!: exI [of _ "[]"])

lemma ll_rep_size: "ll_rep s vs \<Longrightarrow> unat (linked_list_size s) = length vs"
  by (erule ll_rep_cases) (simp add: ll_nodesD)

lemma ll_nodes_mid:
  assumes "ll_nodes h list (as @ p # bs)"
  shows "p \<noteq> NULL" "\<exists>v. h p = Some \<lparr>item_value = v, item_previous = last (NULL # as),
    item_next = hd (bs @ [NULL])\<rparr>"
  using dseg_node [OF ll_nodesD(1) [OF assms]] by auto

section \<open>Linking in and unlinking\<close>

lemma ll_remove_item_mid:
  assumes nodes: "ll_nodes h list (as @ p # bs)"
  obtains list' where "ll_remove_item h list p = Some (unlinked h as p bs, list')"
    "ll_nodes (unlinked h as p bs) list' (as @ bs)"
    "vals (unlinked h as p bs) (as @ bs) = vals h as @ vals h bs"
proof -
  let ?list = "list\<lparr>ll_length := ll_length list - 1,
    first_item := (if as = [] then hd (bs @ [NULL]) else first_item list),
    last_item := (if bs = [] then last (NULL # as) else last_item list)\<rparr>"
  from nodes have d: "dlist h (as @ p # bs) (first_item list) (last_item list) (ll_length list)"
    by (simp add: ll_nodes_def)
  then have nn: "p \<notin> set as" "p \<notin> set bs" "distinct as" "distinct bs" "set as \<inter> set bs = {}"
    and seg: "dseg h NULL as p" "dseg h p bs NULL" by (auto simp: dlist_def dseg_append)
  obtain v where hp: "p \<noteq> NULL" "h p = Some \<lparr>item_value = v, item_previous = last (NULL # as),
      item_next = hd (bs @ [NULL])\<rparr>" using ll_nodes_mid [OF nodes] by blast
  consider "as = []" "bs = []" | r bs' where "as = []" "bs = r # bs'"
    | as' q where "as = as' @ [q]" "bs = []" | as' q r bs' where "as = as' @ [q]" "bs = r # bs'"
    by (metis rev_exhaust neq_Nil_conv)
  then have "ll_remove_item h list p = Some (unlinked h as p bs, ?list)"
    using nn seg hp
    by cases (auto simp: ll_remove_item_def unlinked_def Let_def heap_simps dseg_append)
  moreover have "ll_nodes (unlinked h as p bs) ?list (as @ bs)"
    using dlist_unlinked(1) [OF d] by (simp add: ll_nodes_def)
  moreover have "vals (unlinked h as p bs) (as @ bs) = vals h as @ vals h bs"
    using dlist_unlinked(2) [OF d] .
  ultimately show ?thesis by (rule that)
qed

lemma ll_add_nodes:
  assumes nodes: "ll_nodes h list ps" and new: "p \<noteq> NULL" "h p = None"
  obtains list' where "linked_list_add p v (h, Some list) = Some (linked_in h ps p v [], Some list')"
    "ll_nodes (linked_in h ps p v []) list' (ps @ [p])"
    "vals (linked_in h ps p v []) (ps @ [p]) = vals h ps @ [v]"
proof -
  let ?list = "list\<lparr>first_item := (if ps = [] then p else first_item list),
    last_item := p, ll_length := ll_length list + 1\<rparr>"
  from nodes have d: "dlist h (ps @ []) (first_item list) (last_item list) (ll_length list)"
    by (simp add: ll_nodes_def)
  then have seg: "dseg h NULL ps NULL" "last_item list = last (NULL # ps)" "distinct ps"
      "p \<notin> set ps" using new by (auto simp: dlist_def)
  have len: "ll_length list = 0 \<longleftrightarrow> ps = []" using dlist_length_0 d by auto
  have "linked_list_add p v (h, Some list) = Some (linked_in h ps p v [], Some ?list)"
    using new seg len
    by (cases ps rule: rev_cases) (auto simp: linked_in_def Let_def heap_simps dseg_append)
  moreover have "ll_nodes (linked_in h ps p v []) ?list (ps @ [p])"
    using dlist_linked_in(1) [OF d new, of v] by (simp add: ll_nodes_def)
  moreover have "vals (linked_in h ps p v []) (ps @ [p]) = vals h ps @ [v]"
    using dlist_linked_in(2) [OF d new, of v] by simp
  ultimately show ?thesis by (rule that)
qed

lemma ll_insert_walk_dseg:
  "dseg h a ps b \<Longrightarrow> n \<le> length ps \<Longrightarrow>
   ll_insert_walk h n a (hd (ps @ [b])) = Some (last (a # take n ps), hd (drop n ps @ [b]))"
proof (induction n arbitrary: a ps)
  case 0
  then show ?case by simp
next
  case (Suc n)
  then obtain p ps' where ps: "ps = p # ps'" by (cases ps) auto
  with Suc.prems obtain it where it: "h p = Some it" "item_next it = hd (ps' @ [b])" "p \<noteq> NULL"
      "dseg h p ps' b" by auto
  with Suc.IH [of p ps'] Suc.prems ps show ?case by (simp add: load_def)
qed

lemma ll_insert_nodes:
  assumes nodes: "ll_nodes h list (as @ bs)" and new: "p \<noteq> NULL" "h p = None"
    and index: "unat index = length as"
  obtains list' where
    "linked_list_insert p index v (h, Some list) = Some (linked_in h as p v bs, Some list')"
    "ll_nodes (linked_in h as p v bs) list' (as @ p # bs)"
    "vals (linked_in h as p v bs) (as @ p # bs) = vals h as @ v # vals h bs"
proof -
  let ?list = "list\<lparr>first_item := (if as = [] then p else first_item list),
    last_item := (if bs = [] then p else last_item list), ll_length := ll_length list + 1\<rparr>"
  from nodes have d: "dlist h (as @ bs) (first_item list) (last_item list) (ll_length list)"
    by (simp add: ll_nodes_def)
  then have "dseg h NULL (as @ bs) NULL" and dist: "distinct (as @ bs)" "p \<notin> set as" "p \<notin> set bs"
    using new by (auto simp: dlist_def)
  note seg = this(1)
  have in_range: "\<not> ll_length list < index"
    using ll_nodesD(4) [OF nodes] index by (simp add: word_less_nat_alt)
  have found: "ll_insert_walk h (unat index) NULL (first_item list) =
      Some (last (NULL # as), hd (bs @ [NULL]))"
    using ll_insert_walk_dseg [OF seg, of "length as"] ll_nodesD(2) [OF nodes] index by simp
  consider "as = []" "bs = []" | r bs' where "as = []" "bs = r # bs'"
    | as' q where "as = as' @ [q]" "bs = []" | as' q r bs' where "as = as' @ [q]" "bs = r # bs'"
    by (metis rev_exhaust neq_Nil_conv)
  then have link: "(do {
          let h = h(p \<mapsto> \<lparr>item_value = v, item_previous = NULL, item_next = NULL\<rparr>);
          (h, list) \<leftarrow>
            (if last (NULL # as) \<noteq> NULL
             then do { h \<leftarrow> store_next h (last (NULL # as)) p; Some (h, list) }
             else Some (h, list\<lparr>first_item := p\<rparr>));
          h \<leftarrow> store_previous h p (last (NULL # as));
          (h, list) \<leftarrow>
            (if hd (bs @ [NULL]) \<noteq> NULL
             then do { h \<leftarrow> store_previous h (hd (bs @ [NULL])) p; Some (h, list) }
             else Some (h, list\<lparr>last_item := p\<rparr>));
          h \<leftarrow> store_next h p (hd (bs @ [NULL]));
          Some (h, Some (list\<lparr>ll_length := ll_length list + 1\<rparr>)) }) =
      Some (linked_in h as p v bs, Some ?list)"
    using new seg dist
    by cases (auto simp: linked_in_def Let_def heap_simps dseg_append fun_upd_twist)
  have "linked_list_insert p index v (h, Some list) =
      Some (linked_in h as p v bs, Some ?list)"
    by (simp only: linked_list_insert.simps in_range found link new(1) if_False
        Option.bind.simps prod.case)
  moreover have "ll_nodes (linked_in h as p v bs) ?list (as @ p # bs)"
    using dlist_linked_in(1) [OF d new, of v] by (simp add: ll_nodes_def)
  moreover have "vals (linked_in h as p v bs) (as @ p # bs) = vals h as @ v # vals h bs"
    using dlist_linked_in(2) [OF d new, of v] .
  ultimately show ?thesis by (rule that)
qed

section \<open>Every operation refines its list counterpart\<close>

text \<open>The abstract operations on lists of values.\<close>

definition list_insert_at :: "nat \<Rightarrow> 'a \<Rightarrow> 'a list \<Rightarrow> 'a list" where
  "list_insert_at i x xs = (if i \<le> length xs then take i xs @ x # drop i xs else xs)"

definition list_remove_at :: "nat \<Rightarrow> 'a list \<Rightarrow> 'a list" where
  "list_remove_at i xs = take i xs @ drop (Suc i) xs"

definition list_remove_first :: "('a \<Rightarrow> bool) \<Rightarrow> 'a list \<Rightarrow> 'a list" where
  "list_remove_first P xs = takeWhile (\<lambda>x. \<not> P x) xs @ tl (dropWhile (\<lambda>x. \<not> P x) xs)"

definition list_remove_last :: "('a \<Rightarrow> bool) \<Rightarrow> 'a list \<Rightarrow> 'a list" where
  "list_remove_last P xs = rev (list_remove_first P (rev xs))"

lemma list_remove_first_mid:
  "\<forall>y\<in>set as. \<not> P y \<Longrightarrow> P x \<Longrightarrow> list_remove_first P (as @ x # bs) = as @ bs"
  by (simp add: list_remove_first_def takeWhile_append2 dropWhile_append2)

lemma list_remove_first_none: "\<forall>y\<in>set xs. \<not> P y \<Longrightarrow> list_remove_first P xs = xs"
  unfolding list_remove_first_def by (induction xs) auto

lemma list_remove_last_mid:
  "\<forall>y\<in>set bs. \<not> P y \<Longrightarrow> P x \<Longrightarrow> list_remove_last P (as @ x # bs) = as @ bs"
  by (simp add: list_remove_last_def list_remove_first_mid)

lemma list_remove_last_none: "\<forall>y\<in>set xs. \<not> P y \<Longrightarrow> list_remove_last P xs = xs"
  by (simp add: list_remove_last_def list_remove_first_none)

text \<open>The first value that satisfies a test, as \<open>find\<close>, and \<open>NULL\<close> when there is none.\<close>

definition found_or_NULL :: "ptr option \<Rightarrow> ptr" where
  "found_or_NULL r = (case r of None \<Rightarrow> NULL | Some v \<Rightarrow> v)"

lemma find_mid: "\<forall>y\<in>set as. \<not> P y \<Longrightarrow> P x \<Longrightarrow> find P (as @ x # bs) = Some x"
  by (induction as) auto

lemma find_none: "\<forall>y\<in>set xs. \<not> P y \<Longrightarrow> find P xs = None"
  by (simp add: find_None_iff)

lemma add_refines:
  assumes "ll_rep s vs" and "fresh (fst s) p"
  shows "\<exists>s'. linked_list_add p v s = Some s' \<and>
    ll_rep s' (if p = NULL then vs else vs @ [v])"
proof (cases "p = NULL")
  case True
  with assms show ?thesis by (auto elim!: ll_rep_cases intro: ll_repI)
next
  case False
  from assms(1) obtain h list ps where s: "s = (h, Some list)" "ll_nodes h list ps" "vs = vals h ps"
    by (rule ll_rep_cases)
  with assms(2) False have "h p = None" by (simp add: fresh_def)
  with s(2) False obtain list' where
      "linked_list_add p v (h, Some list) = Some (linked_in h ps p v [], Some list')"
      "ll_nodes (linked_in h ps p v []) list' (ps @ [p])"
      "vals (linked_in h ps p v []) (ps @ [p]) = vals h ps @ [v]"
    by (rule ll_add_nodes)
  with s False show ?thesis by (auto intro: ll_repI simp del: linked_list_add.simps)
qed

lemma insert_refines:
  assumes "ll_rep s vs" and "fresh (fst s) p"
  shows "\<exists>s'. linked_list_insert p index v s = Some s' \<and>
    ll_rep s' (if p = NULL then vs else list_insert_at (unat index) v vs)"
proof -
  from assms(1) obtain h list ps where s: "s = (h, Some list)" "ll_nodes h list ps" "vs = vals h ps"
    by (rule ll_rep_cases)
  show ?thesis
  proof (cases "index \<le> ll_length list")
    case False
    with s ll_nodesD(4) [OF s(2)] show ?thesis
      by (auto simp: list_insert_at_def word_le_nat_alt word_less_nat_alt not_le intro: ll_repI)
  next
    case in_range: True
    with ll_nodesD(4) [OF s(2)] have i: "unat index \<le> length ps" by (simp add: word_le_nat_alt)
    show ?thesis
    proof (cases "p = NULL")
      case True
      with s in_range i ll_insert_walk_dseg [OF ll_nodesD(1) [OF s(2)] i] ll_nodesD(2) [OF s(2)]
      show ?thesis by (auto simp: not_less intro: ll_repI)
    next
      case False
      with s assms(2) have new: "h p = None" by (simp add: fresh_def)
      from s(2) have "ll_nodes h list (take (unat index) ps @ drop (unat index) ps)" by simp
      from this False new obtain list' where
          "linked_list_insert p index v (h, Some list) =
             Some (linked_in h (take (unat index) ps) p v (drop (unat index) ps), Some list')"
          "ll_nodes (linked_in h (take (unat index) ps) p v (drop (unat index) ps)) list'
             (take (unat index) ps @ p # drop (unat index) ps)"
          "vals (linked_in h (take (unat index) ps) p v (drop (unat index) ps))
             (take (unat index) ps @ p # drop (unat index) ps) =
           vals h (take (unat index) ps) @ v # vals h (drop (unat index) ps)"
        by (rule ll_insert_nodes) (use i in simp)
      moreover have "list_insert_at (unat index) v vs =
          vals h (take (unat index) ps) @ v # vals h (drop (unat index) ps)"
        using i s(3) by (simp add: list_insert_at_def vals_def take_map drop_map)
      ultimately show ?thesis
        using s False by (auto intro: ll_repI simp del: linked_list_insert.simps)
    qed
  qed
qed

lemma get_refines:
  assumes "ll_rep s vs"
  shows "linked_list_get index s = Some (if unat index < length vs then vs ! unat index else NULL)"
proof -
  from assms obtain h list ps where s: "s = (h, Some list)" "ll_nodes h list ps" "vs = vals h ps"
    by (rule ll_rep_cases)
  note nd = ll_nodesD [OF s(2)]
  show ?thesis
  proof (cases "unat index < length ps")
    case True
    from s(2) True have "ll_nodes h list
        (take (unat index) ps @ ps ! unat index # drop (Suc (unat index)) ps)"
      by (simp add: id_take_nth_drop [symmetric])
    from ll_nodes_mid [OF this]
    obtain v where v: "ps ! unat index \<noteq> NULL" "h (ps ! unat index) = Some v" by auto
    from True have "walk_next h (unat index) (first_item list) = Some (ps ! unat index)"
      using walk_next_dseg [OF nd(1), of "unat index"] nd(2)
      by (simp add: Cons_nth_drop_Suc [symmetric])
    with True v s nd(4) show ?thesis
      by (simp add: word_le_nat_alt heap_simps vals_def)
  next
    case False
    with s nd(4) show ?thesis by (simp add: word_le_nat_alt)
  qed
qed

lemma get_first_matching_refines:
  assumes "ll_rep s vs"
  shows "linked_list_get_first_matching (Some matches) s = Some (found_or_NULL (find matches vs))"
proof -
  from assms obtain h list ps where s: "s = (h, Some list)" "ll_nodes h list ps" "vs = vals h ps"
    by (rule ll_rep_cases)
  note nd = ll_nodesD [OF s(2)]
  from nd(1) show ?thesis
  proof (cases rule: search_next_cases [where test = matches])
    case none
    with s nd(2) show ?thesis by (simp add: found_or_NULL_def find_none)
  next
    case (found as p bs)
    with s ll_nodes_mid [of h list as p bs] obtain it where "h p = Some it" by auto
    with found s nd(2) show ?thesis by (simp add: found_or_NULL_def find_mid heap_simps)
  qed
qed

lemma get_last_matching_refines:
  assumes "ll_rep s vs"
  shows "linked_list_get_last_matching (Some matches) s =
    Some (found_or_NULL (find matches (rev vs)))"
proof -
  from assms obtain h list ps where s: "s = (h, Some list)" "ll_nodes h list ps" "vs = vals h ps"
    by (rule ll_rep_cases)
  note nd = ll_nodesD [OF s(2)]
  from nd(1) show ?thesis
  proof (cases rule: search_previous_cases [where test = matches])
    case none
    with s nd(3) show ?thesis by (simp add: found_or_NULL_def find_none)
  next
    case (found as p bs)
    with s ll_nodes_mid [of h list as p bs] obtain it where "h p = Some it" by auto
    with found s nd(3) show ?thesis by (simp add: found_or_NULL_def find_mid heap_simps)
  qed
qed

lemma remove_at_refines:
  assumes "ll_rep s vs"
  shows "\<exists>s'. linked_list_remove_at index s =
      Some (if unat index < length vs then vs ! unat index else NULL, s') \<and>
    ll_rep s' (list_remove_at (unat index) vs)"
proof -
  from assms obtain h list ps where s: "s = (h, Some list)" "ll_nodes h list ps" "vs = vals h ps"
    by (rule ll_rep_cases)
  note nd = ll_nodesD [OF s(2)]
  show ?thesis
  proof (cases "unat index < length ps")
    case True
    let ?as = "take (unat index) ps" and ?p = "ps ! unat index" and ?bs = "drop (Suc (unat index)) ps"
    from s(2) True have mid: "ll_nodes h list (?as @ ?p # ?bs)"
      by (simp add: id_take_nth_drop [symmetric])
    from ll_nodes_mid [OF mid] obtain it where it: "?p \<noteq> NULL" "h ?p = Some it" by auto
    have "walk_next h (unat index) (first_item list) = Some ?p"
      using walk_next_dseg [OF nd(1), of "unat index"] nd(2) True
      by (simp add: Cons_nth_drop_Suc [symmetric])
    moreover obtain list' where "ll_remove_item h list ?p = Some (unlinked h ?as ?p ?bs, list')"
      "ll_nodes (unlinked h ?as ?p ?bs) list' (?as @ ?bs)"
      "vals (unlinked h ?as ?p ?bs) (?as @ ?bs) = vals h ?as @ vals h ?bs"
      using mid by (rule ll_remove_item_mid)
    moreover have "list_remove_at (unat index) vs = vals h ?as @ vals h ?bs"
      using s(3) by (simp add: list_remove_at_def vals_def take_map drop_map)
    moreover have "ll_length list \<noteq> 0" "\<not> ll_length list \<le> index"
      using True nd(4) by (auto simp: word_le_nat_alt)
    ultimately show ?thesis
      using s True it by (auto simp: heap_simps vals_def intro: ll_repI)
  next
    case False
    with s nd(4) show ?thesis
      by (auto simp: list_remove_at_def word_le_nat_alt intro: ll_repI)
  qed
qed

text \<open>Both kinds of search followed by the unlinking of what was found.\<close>

lemma search_remove_first:
  assumes "ll_rep (h, Some list) vs"
  shows "(search_next matches h (first_item list) = Some NULL \<and> find matches vs = None \<and>
      list_remove_first matches vs = vs) \<or>
    (\<exists>p it h' list'. search_next matches h (first_item list) = Some p \<and> p \<noteq> NULL \<and>
      h p = Some it \<and> matches (item_value it) \<and> find matches vs = Some (item_value it) \<and>
      ll_remove_item h list p = Some (h', list') \<and>
      ll_rep (h', Some list') (list_remove_first matches vs))"
proof -
  from assms obtain ps where s: "ll_nodes h list ps" "vs = vals h ps" by auto
  note nd = ll_nodesD [OF s(1)]
  from nd(1) show ?thesis
  proof (cases rule: search_next_cases [where test = matches])
    case none
    with s nd(2) show ?thesis by (simp add: list_remove_first_none find_none)
  next
    case (found as p bs)
    with s ll_nodes_mid [of h list as p bs] obtain it where it: "h p = Some it" by auto
    from s found have "ll_nodes h list (as @ p # bs)" by simp
    then obtain list' where "ll_remove_item h list p = Some (unlinked h as p bs, list')"
      "ll_nodes (unlinked h as p bs) list' (as @ bs)"
      "vals (unlinked h as p bs) (as @ bs) = vals h as @ vals h bs"
      by (rule ll_remove_item_mid)
    with found s nd(2) it show ?thesis
      by (intro disjI2 exI [of _ p] exI [of _ it] exI [of _ "unlinked h as p bs"] exI [of _ list'])
        (auto simp: list_remove_first_mid find_mid intro: ll_repI)
  qed
qed

lemma search_remove_last:
  assumes "ll_rep (h, Some list) vs"
  shows "(search_previous matches h (last_item list) = Some NULL \<and> find matches (rev vs) = None \<and>
      list_remove_last matches vs = vs) \<or>
    (\<exists>p it h' list'. search_previous matches h (last_item list) = Some p \<and> p \<noteq> NULL \<and>
      h p = Some it \<and> matches (item_value it) \<and> find matches (rev vs) = Some (item_value it) \<and>
      ll_remove_item h list p = Some (h', list') \<and>
      ll_rep (h', Some list') (list_remove_last matches vs))"
proof -
  from assms obtain ps where s: "ll_nodes h list ps" "vs = vals h ps" by auto
  note nd = ll_nodesD [OF s(1)]
  from nd(1) show ?thesis
  proof (cases rule: search_previous_cases [where test = matches])
    case none
    with s nd(3) show ?thesis by (simp add: list_remove_last_none find_none)
  next
    case (found as p bs)
    with s ll_nodes_mid [of h list as p bs] obtain it where it: "h p = Some it" by auto
    from s found have "ll_nodes h list (as @ p # bs)" by simp
    then obtain list' where "ll_remove_item h list p = Some (unlinked h as p bs, list')"
      "ll_nodes (unlinked h as p bs) list' (as @ bs)"
      "vals (unlinked h as p bs) (as @ bs) = vals h as @ vals h bs"
      by (rule ll_remove_item_mid)
    with found s nd(3) it show ?thesis
      by (intro disjI2 exI [of _ p] exI [of _ it] exI [of _ "unlinked h as p bs"] exI [of _ list'])
        (auto simp: list_remove_last_mid find_mid intro: ll_repI)
  qed
qed

lemma find_eq: "find (\<lambda>x. x = v) vs = (if v \<in> set vs then Some v else None)"
  by (induction vs) auto

lemma remove_first_refines:
  assumes "ll_rep s vs"
  shows "\<exists>s'. linked_list_remove_first v s = Some (if v \<in> set vs then v else NULL, s') \<and>
    ll_rep s' (list_remove_first (\<lambda>x. x = v) vs)"
proof -
  from assms obtain h list ps where s: "s = (h, Some list)" by (rule ll_rep_cases)
  from search_remove_first [of h list vs "\<lambda>x. x = v"] assms s show ?thesis
    by (cases "v \<in> set vs") (auto simp: find_eq)
qed

lemma remove_last_refines:
  assumes "ll_rep s vs"
  shows "\<exists>s'. linked_list_remove_last v s = Some (if v \<in> set vs then v else NULL, s') \<and>
    ll_rep s' (list_remove_last (\<lambda>x. x = v) vs)"
proof -
  from assms obtain h list ps where s: "s = (h, Some list)" by (rule ll_rep_cases)
  from search_remove_last [of h list vs "\<lambda>x. x = v"] assms s show ?thesis
    by (cases "v \<in> set vs") (auto simp: find_eq)
qed

lemma remove_first_matching_refines:
  assumes "ll_rep s vs"
  shows "\<exists>s'. linked_list_remove_first_matching (Some matches) s =
      Some (found_or_NULL (find matches vs), s') \<and>
    ll_rep s' (list_remove_first matches vs)"
proof -
  from assms obtain h list ps where s: "s = (h, Some list)" by (rule ll_rep_cases)
  from search_remove_first [of h list vs matches] assms s show ?thesis
    by (auto simp: found_or_NULL_def heap_simps)
qed

lemma remove_last_matching_refines:
  assumes "ll_rep s vs"
  shows "\<exists>s'. linked_list_remove_last_matching (Some matches) s =
      Some (found_or_NULL (find matches (rev vs)), s') \<and>
    ll_rep s' (list_remove_last matches vs)"
proof -
  from assms obtain h list ps where s: "s = (h, Some list)" by (rule ll_rep_cases)
  from search_remove_last [of h list vs matches] assms s show ?thesis
    by (auto simp: found_or_NULL_def heap_simps)
qed

text \<open>The removal loop keeps what it has passed (\<open>as\<close>) and filters the rest (\<open>bs\<close>).\<close>

lemma ll_remove_loop_nodes:
  "ll_nodes h list (as @ bs) \<Longrightarrow>
   \<exists>h' list' ps'. ll_remove_loop matches h list (hd (bs @ [NULL])) found =
       Some (found \<or> (\<exists>v\<in>set (vals h bs). matches v), h', list') \<and>
     ll_nodes h' list' ps' \<and>
     vals h' ps' = vals h as @ filter (\<lambda>v. \<not> matches v) (vals h bs)"
proof (induction bs arbitrary: h list as found)
  case Nil
  then show ?case by (auto simp: ll_remove_loop.simps)
next
  case (Cons p bs)
  from ll_nodes_mid [OF Cons.prems] obtain v where p: "p \<noteq> NULL"
    "h p = Some \<lparr>item_value = v, item_previous = last (NULL # as), item_next = hd (bs @ [NULL])\<rparr>"
    by blast
  show ?case
  proof (cases "matches v")
    case True
    obtain list' where rm: "ll_remove_item h list p = Some (unlinked h as p bs, list')"
      "ll_nodes (unlinked h as p bs) list' (as @ bs)"
      "vals (unlinked h as p bs) (as @ bs) = vals h as @ vals h bs"
      using Cons.prems by (rule ll_remove_item_mid)
    then have "vals (unlinked h as p bs) as = vals h as" "vals (unlinked h as p bs) bs = vals h bs"
      by simp_all
    with Cons.IH [OF rm(2), of True] rm(1) p True show ?thesis
      by (simp add: ll_remove_loop.simps [of matches h list p] load_def)
  next
    case False
    from Cons.prems have "ll_nodes h list ((as @ [p]) @ bs)" by simp
    from Cons.IH [OF this, of found] p False show ?thesis
      by (simp add: ll_remove_loop.simps [of matches h list p] load_def)
  qed
qed

lemma remove_all_refines:
  assumes "ll_rep s vs"
  shows "\<exists>s'. linked_list_remove_all v s = Some (if v \<in> set vs then v else NULL, s') \<and>
    ll_rep s' (removeAll v vs)"
proof -
  from assms obtain h list ps where s: "s = (h, Some list)" "ll_nodes h list ps" "vs = vals h ps"
    by (rule ll_rep_cases)
  have "removeAll v vs = filter (\<lambda>x. \<not> x = v) vs" by (induction vs) auto
  with ll_remove_loop_nodes [of h list "[]" ps "\<lambda>x. x = v" False] s ll_nodesD(2) [OF s(2)]
  show ?thesis by (auto intro: ll_repI)
qed

lemma remove_all_matching_refines:
  assumes "ll_rep s vs"
  shows "\<exists>s'. linked_list_remove_all_matching (Some matches) s = Some s' \<and>
    ll_rep s' (filter (\<lambda>v. \<not> matches v) vs)"
proof -
  from assms obtain h list ps where s: "s = (h, Some list)" "ll_nodes h list ps" "vs = vals h ps"
    by (rule ll_rep_cases)
  with ll_remove_loop_nodes [of h list "[]" ps matches False] ll_nodesD(2) [OF s(2)]
  show ?thesis by (auto intro: ll_repI)
qed

lemma vals_nth_upd:
  assumes "distinct (as @ p # bs)" and "h p = Some it"
  shows "vals (h(p \<mapsto> it\<lparr>item_value := v\<rparr>)) (as @ p # bs) =
    (vals h (as @ p # bs))[length as := v]"
  using assms by (auto simp: list_update_append)

lemma dseg_value_upd:
  assumes "h p = Some it"
  shows "dseg (h(p \<mapsto> it\<lparr>item_value := v\<rparr>)) a ps b = dseg h a ps b"
  using assms by (induction ps arbitrary: a) auto

lemma set_at_refines:
  assumes "ll_rep s vs"
  shows "\<exists>s'. linked_list_set_at index v s = Some (unat index < length vs, s') \<and>
    ll_rep s' (vs[unat index := v])"
proof -
  from assms obtain h list ps where s: "s = (h, Some list)" "ll_nodes h list ps" "vs = vals h ps"
    by (rule ll_rep_cases)
  note nd = ll_nodesD [OF s(2)]
  show ?thesis
  proof (cases "unat index < length ps")
    case True
    let ?as = "take (unat index) ps" and ?p = "ps ! unat index" and ?bs = "drop (Suc (unat index)) ps"
    from True have ps: "?as @ ?p # ?bs = ps" by (simp add: id_take_nth_drop [symmetric])
    with s(2) have mid: "ll_nodes h list (?as @ ?p # ?bs)" by simp
    from ll_nodes_mid [OF mid] obtain it where it: "?p \<noteq> NULL" "h ?p = Some it" by auto
    let ?h = "h(?p \<mapsto> it\<lparr>item_value := v\<rparr>)"
    have "ll_nodes ?h list ps"
      using s(2) it True by (auto simp: ll_nodes_def dlist_def dseg_value_upd)
    moreover have "vals ?h ps = vs[unat index := v]"
      using vals_nth_upd [of ?as ?p ?bs h it v] it nd(5) True ps s(3) by (simp add: ps)
    moreover have "walk_next h (unat index) (first_item list) = Some ?p"
      using walk_next_dseg [OF nd(1), of "unat index"] nd(2) True
      by (simp add: Cons_nth_drop_Suc [symmetric])
    moreover have "ll_length list \<noteq> 0" "\<not> ll_length list \<le> index"
      using True nd(4) by (auto simp: word_le_nat_alt)
    ultimately show ?thesis
      using s True it by (auto simp: heap_simps intro: ll_repI)
  next
    case False
    with s nd(4) show ?thesis by (auto simp: word_le_nat_alt list_update_beyond intro: ll_repI)
  qed
qed

section \<open>Freeing, visiting and iterating\<close>

lemma ll_free_loop_dseg:
  "dseg h a ps NULL \<Longrightarrow> distinct ps \<Longrightarrow>
   ll_free_loop h (hd (ps @ [NULL])) = Some (h |` (- set ps), vals h ps)"
proof (induction ps arbitrary: h a)
  case Nil
  then show ?case by (simp add: ll_free_loop.simps)
next
  case (Cons p ps)
  then obtain it where it: "h p = Some it" "item_next it = hd (ps @ [NULL])" "p \<noteq> NULL"
    and seg: "dseg (h(p := None)) p ps NULL" by auto
  have "(h(p := None)) |` (- set ps) = h |` (- insert p (set ps))"
    by (auto simp: restrict_map_def fun_eq_iff)
  moreover have "ll_free_loop (h(p := None)) (hd (ps @ [NULL])) =
      Some ((h(p := None)) |` (- set ps), vals (h(p := None)) ps)"
    by (rule Cons.IH [OF seg]) (use Cons.prems in simp)
  moreover have "vals (h(p := None)) ps = vals h ps" using Cons.prems by simp
  ultimately show ?case
    using it by (simp only: ll_free_loop.simps [of h p] list.sel append_Cons vals_simps
        load_Some [of p h it, OF it(3,1)] free_item_Some [of p h it, OF it(3,1)] if_False Option.bind.simps prod.case option.sel list.set)
qed

lemma free_refines:
  assumes "ll_rep s vs"
  shows "linked_list_free free_value s = Some (if free_value then vs else [], (Map.empty, None))"
proof -
  from assms obtain h list ps where s: "s = (h, Some list)" "ll_nodes h list ps" "vs = vals h ps"
    by (rule ll_rep_cases)
  note nd = ll_nodesD [OF s(2)]
  have "h |` (- set ps) = Map.empty" using nd(6) by (auto simp: restrict_map_def fun_eq_iff)
  with ll_free_loop_dseg [OF nd(1) nd(5)] nd(2) s show ?thesis by simp
qed

lemma ll_foreach_loop_dseg:
  "dseg h a ps NULL \<Longrightarrow>
   ll_foreach_loop h (hd (ps @ [NULL])) i = Some (zip (map (\<lambda>k. i + of_nat k) [0..<length ps]) (vals h ps))"
proof (induction ps arbitrary: a i)
  case Nil
  then show ?case by (simp add: ll_foreach_loop.simps)
next
  case (Cons p ps)
  then obtain it where it: "h p = Some it" "item_next it = hd (ps @ [NULL])" "p \<noteq> NULL"
    and seg: "dseg h p ps NULL" by auto
  have shift: "map (\<lambda>k. i + of_nat k) [0..<Suc (length ps)] =
      i # map (\<lambda>k. i + 1 + of_nat k) [0..<length ps]"
    by (simp only: upt_conv_Cons map_Suc_upt [symmetric] list.map map_map zero_less_Suc)
      (simp add: algebra_simps comp_def)
  with Cons.IH [OF seg, of "i + 1"] it show ?case
    by (simp add: ll_foreach_loop.simps [of h p] load_def del: upt_Suc)
qed

lemma foreach_refines:
  assumes "ll_rep s vs"
  shows "linked_list_foreach True s = Some (zip (map of_nat [0..<length vs]) vs)"
  using assms ll_foreach_loop_dseg [of "fst s" NULL _ 0]
  by (elim ll_rep_cases) (simp add: ll_nodesD)

text \<open>
  \<open>ll_iter_at h list as bs it\<close>: the iterator \<open>it\<close> stands on the first node of \<open>bs\<close> with the
  nodes \<open>as\<close> before it, in the direction of the iteration; \<open>None\<close> when nothing is left.
\<close>

definition iter_order :: "bool \<Rightarrow> ptr list \<Rightarrow> ptr list" where
  "iter_order forward ps = (if forward then ps else rev ps)"

definition iter_at :: "bool \<Rightarrow> ptr list \<Rightarrow> linked_list_iterator_t option" where
  "iter_at forward bs =
     (case bs of [] \<Rightarrow> None | p # _ \<Rightarrow> Some \<lparr>it_item = p, it_forward = forward\<rparr>)"

text \<open>A client of the iterator: read the value, advance, until the iterator is \<open>NULL\<close>.\<close>

partial_function (option) ll_collect ::
  "heap \<Rightarrow> linked_list_iterator_t option \<Rightarrow> ptr list option" where
  "ll_collect h iterator =
     (if iterator = None then Some []
      else do {
        v \<leftarrow> linked_list_iterator_value h iterator;
        iterator \<leftarrow> linked_list_iterator_next h iterator;
        vs \<leftarrow> ll_collect h iterator;
        Some (v # vs) })"

lemma iter_order_mid:
  assumes "iter_order forward ps = as @ p # bs"
  shows "ps = (if forward then as @ p # bs else rev bs @ p # rev as)"
  using assms by (auto simp: iter_order_def rev_eq_append_conv split: if_splits)

lemma iterator_step:
  assumes nodes: "ll_nodes h list ps" and "iter_order forward ps = as @ p # bs"
  shows "linked_list_iterator_next h (iter_at forward (p # bs)) = Some (iter_at forward bs)"
    and "linked_list_iterator_value h (iter_at forward (p # bs)) = Some (item_value (the (h p)))"
proof -
  let ?as = "if forward then as else rev bs" and ?bs = "if forward then bs else rev as"
  from nodes iter_order_mid [OF assms(2)] have mid: "ll_nodes h list (?as @ p # ?bs)"
    by (cases forward) auto
  note seg = ll_nodesD(1) [OF mid]
  from seg have live: "q \<in> set bs \<Longrightarrow> q \<noteq> NULL" for q
    by (rule dseg_not_NULL) (auto split: if_splits)
  from ll_nodes_mid [OF mid] obtain v where "p \<noteq> NULL"
    "h p = Some \<lparr>item_value = v, item_previous = last (NULL # ?as), item_next = hd (?bs @ [NULL])\<rparr>"
    by blast
  with live show "linked_list_iterator_next h (iter_at forward (p # bs)) = Some (iter_at forward bs)"
    and "linked_list_iterator_value h (iter_at forward (p # bs)) = Some (item_value (the (h p)))"
    by (cases bs; auto simp: iter_at_def load_def Let_def last_rev)+
qed

lemma ll_collect_order:
  assumes "ll_nodes h list ps"
  shows "iter_order forward ps = as @ bs \<Longrightarrow>
    ll_collect h (iter_at forward bs) = Some (vals h bs)"
proof (induction bs arbitrary: as)
  case Nil
  then show ?case by (simp add: ll_collect.simps iter_at_def)
next
  case (Cons p bs)
  from Cons.prems have "iter_order forward ps = (as @ [p]) @ bs" by simp
  from Cons.IH [OF this] iterator_step [OF assms Cons.prems]
  show ?case
    by (simp add: ll_collect.simps [of h "iter_at forward (p # bs)"])
      (simp add: iter_at_def)
qed

lemma iterator_start:
  assumes "ll_nodes h list ps"
  shows "linked_list_iterator True forward (h, Some list) = iter_at forward (iter_order forward ps)"
proof (cases "ps = []")
  case True
  with ll_nodesD [OF assms] show ?thesis by (simp add: iter_at_def iter_order_def)
next
  case False
  note nd = ll_nodesD [OF assms]
  from False nd(1) have "hd ps \<noteq> NULL" using dseg_not_NULL by fastforce
  moreover have "iter_at forward qs = Some \<lparr>it_item = hd qs, it_forward = forward\<rparr>"
    if "qs \<noteq> []" for qs using that by (cases qs) (simp_all add: iter_at_def)
  ultimately show ?thesis using False nd(2,3) by (simp add: iter_order_def hd_rev)
qed

lemma iterator_refines:
  assumes "ll_rep s vs"
  shows "ll_collect (fst s) (linked_list_iterator True forward s) =
    Some (if forward then vs else rev vs)"
proof -
  from assms obtain h list ps where s: "s = (h, Some list)" "ll_nodes h list ps" "vs = vals h ps"
    by (rule ll_rep_cases)
  have "vals h (iter_order forward ps) = (if forward then vs else rev vs)"
    using s(3) by (simp add: iter_order_def vals_def rev_map)
  with iterator_start [OF s(2)] ll_collect_order [OF s(2), of forward "[]" "iter_order forward ps"] s(1)
  show ?thesis by simp
qed

lemma iterator_remove_refines:
  assumes nodes: "ll_nodes h list ps" and order: "iter_order forward ps = as @ p # bs"
  shows "\<exists>h' list' ps'. linked_list_iterator_remove (iter_at forward (p # bs)) (h, Some list) =
      Some (iter_at forward bs, (h', Some list')) \<and>
    ll_nodes h' list' ps' \<and> iter_order forward ps' = as @ bs \<and>
    vals h' (as @ bs) = vals h as @ vals h bs"
proof -
  let ?as = "if forward then as else rev bs" and ?bs = "if forward then bs else rev as"
  from nodes iter_order_mid [OF order] have mid: "ll_nodes h list (?as @ p # ?bs)"
    by (cases forward) auto
  note seg = ll_nodesD(1) [OF mid]
  from seg have live: "q \<in> set bs \<Longrightarrow> q \<noteq> NULL" for q
    by (rule dseg_not_NULL) (auto split: if_splits)
  from ll_nodes_mid [OF mid] obtain v where p: "p \<noteq> NULL"
    "h p = Some \<lparr>item_value = v, item_previous = last (NULL # ?as), item_next = hd (?bs @ [NULL])\<rparr>"
    by blast
  obtain list' where rm: "ll_remove_item h list p = Some (unlinked h ?as p ?bs, list')"
      "ll_nodes (unlinked h ?as p ?bs) list' (?as @ ?bs)"
      "vals (unlinked h ?as p ?bs) (?as @ ?bs) = vals h ?as @ vals h ?bs"
    using mid by (rule ll_remove_item_mid)
  have "vals (unlinked h ?as p ?bs) (as @ bs) = vals h as @ vals h bs"
    using rm(3) by (auto simp: vals_def rev_map [symmetric] split: if_splits)
  moreover have "iter_order forward (?as @ ?bs) = as @ bs" by (simp add: iter_order_def)
  moreover have "linked_list_iterator_remove (iter_at forward (p # bs)) (h, Some list) =
      Some (iter_at forward bs, (unlinked h ?as p ?bs, Some list'))"
    using p rm(1) live by (cases bs) (auto simp: iter_at_def load_def Let_def last_rev)
  ultimately show ?thesis using rm(2) by blast
qed

section \<open>The list as a queue\<close>

text \<open>\<open>linked_list_add\<close> with \<open>linked_list_remove_at\<close> at index \<open>0\<close> meets the queue contract.\<close>

definition ll_ok :: "ptr \<Rightarrow> ll_state \<Rightarrow> bool" where
  "ll_ok p s \<longleftrightarrow> fresh (fst s) p"

definition ll_got :: "ptr \<Rightarrow> bool" where
  "ll_got p \<longleftrightarrow> p \<noteq> NULL"

interpretation ll_queue: queue_store ll_rep ll_ok ll_got linked_list_add "linked_list_remove_at 0"
proof unfold_locales
  show "\<exists>s'. linked_list_add p v s = Some s' \<and> ll_rep s' (if ll_got p then vs @ [v] else vs)"
    if "ll_rep s vs" and "ll_ok p s" for s vs p v
    using add_refines [of s vs p v] that by (auto simp: ll_ok_def ll_got_def)
  show "\<exists>s'. linked_list_remove_at 0 s = Some (v, s') \<and> ll_rep s' vs"
    if "ll_rep s (v # vs)" for s v vs
    using remove_at_refines [OF that, of 0] by (auto simp: list_remove_at_def)
qed

section \<open>Every client of the list\<close>

text \<open>
  The calls on the list itself as one operation type: \<open>ll_exec\<close> runs one call on the concrete state
  and returns the value the C function returns (\<open>NULL\<close> for the \<open>void\<close> functions, \<open>1\<close> and \<open>0\<close> for
  \<open>bool\<close>); \<open>ll_spec\<close> is the same call on a list.
\<close>

datatype ll_op =
    LL_Add ptr ptr
  | LL_Insert ptr size_t ptr
  | LL_Get size_t
  | LL_Get_First_Matching "ptr \<Rightarrow> bool"
  | LL_Get_Last_Matching "ptr \<Rightarrow> bool"
  | LL_Remove_At size_t
  | LL_Remove_First ptr
  | LL_Remove_Last ptr
  | LL_Remove_All ptr
  | LL_Remove_First_Matching "ptr \<Rightarrow> bool"
  | LL_Remove_Last_Matching "ptr \<Rightarrow> bool"
  | LL_Remove_All_Matching "ptr \<Rightarrow> bool"
  | LL_Set_At size_t ptr

fun ll_exec :: "ll_op \<Rightarrow> ll_state \<Rightarrow> (ptr \<times> ll_state) option" where
  "ll_exec (LL_Add p v) s = do { s \<leftarrow> linked_list_add p v s; Some (NULL, s) }"
| "ll_exec (LL_Insert p i v) s = do { s \<leftarrow> linked_list_insert p i v s; Some (NULL, s) }"
| "ll_exec (LL_Get i) s = do { v \<leftarrow> linked_list_get i s; Some (v, s) }"
| "ll_exec (LL_Get_First_Matching m) s =
     do { v \<leftarrow> linked_list_get_first_matching (Some m) s; Some (v, s) }"
| "ll_exec (LL_Get_Last_Matching m) s =
     do { v \<leftarrow> linked_list_get_last_matching (Some m) s; Some (v, s) }"
| "ll_exec (LL_Remove_At i) s = linked_list_remove_at i s"
| "ll_exec (LL_Remove_First v) s = linked_list_remove_first v s"
| "ll_exec (LL_Remove_Last v) s = linked_list_remove_last v s"
| "ll_exec (LL_Remove_All v) s = linked_list_remove_all v s"
| "ll_exec (LL_Remove_First_Matching m) s = linked_list_remove_first_matching (Some m) s"
| "ll_exec (LL_Remove_Last_Matching m) s = linked_list_remove_last_matching (Some m) s"
| "ll_exec (LL_Remove_All_Matching m) s =
     do { s \<leftarrow> linked_list_remove_all_matching (Some m) s; Some (NULL, s) }"
| "ll_exec (LL_Set_At i v) s =
     do { (ok, s) \<leftarrow> linked_list_set_at i v s; Some (if ok then 1 else 0, s) }"

definition nth_or_NULL :: "ptr list \<Rightarrow> nat \<Rightarrow> ptr" where
  "nth_or_NULL vs i = (if i < length vs then vs ! i else NULL)"

fun ll_spec :: "ll_op \<Rightarrow> ptr list \<Rightarrow> ptr \<times> ptr list" where
  "ll_spec (LL_Add p v) vs = (NULL, if p = NULL then vs else vs @ [v])"
| "ll_spec (LL_Insert p i v) vs = (NULL, if p = NULL then vs else list_insert_at (unat i) v vs)"
| "ll_spec (LL_Get i) vs = (nth_or_NULL vs (unat i), vs)"
| "ll_spec (LL_Get_First_Matching m) vs = (found_or_NULL (find m vs), vs)"
| "ll_spec (LL_Get_Last_Matching m) vs = (found_or_NULL (find m (rev vs)), vs)"
| "ll_spec (LL_Remove_At i) vs = (nth_or_NULL vs (unat i), list_remove_at (unat i) vs)"
| "ll_spec (LL_Remove_First v) vs =
     (if v \<in> set vs then v else NULL, list_remove_first (\<lambda>x. x = v) vs)"
| "ll_spec (LL_Remove_Last v) vs =
     (if v \<in> set vs then v else NULL, list_remove_last (\<lambda>x. x = v) vs)"
| "ll_spec (LL_Remove_All v) vs = (if v \<in> set vs then v else NULL, removeAll v vs)"
| "ll_spec (LL_Remove_First_Matching m) vs =
     (found_or_NULL (find m vs), list_remove_first m vs)"
| "ll_spec (LL_Remove_Last_Matching m) vs =
     (found_or_NULL (find m (rev vs)), list_remove_last m vs)"
| "ll_spec (LL_Remove_All_Matching m) vs = (NULL, filter (\<lambda>v. \<not> m v) vs)"
| "ll_spec (LL_Set_At i v) vs = (if unat i < length vs then 1 else 0, vs[unat i := v])"

fun ll_alloc :: "ll_op \<Rightarrow> ptr" where
  "ll_alloc (LL_Add p v) = p"
| "ll_alloc (LL_Insert p i v) = p"
| "ll_alloc _ = NULL"

lemma ll_exec_refines:
  assumes "ll_rep s vs" and "fresh (fst s) (ll_alloc op)"
  shows "\<exists>s'. ll_exec op s = Some (fst (ll_spec op vs), s') \<and> ll_rep s' (snd (ll_spec op vs))"
proof (cases op)
  case (LL_Add p v)
  with add_refines [OF assms(1), of p v] assms(2) show ?thesis by auto
next
  case (LL_Insert p i v)
  with insert_refines [OF assms(1), of p i v] assms(2) show ?thesis by auto
next
  case (LL_Remove_At i)
  with remove_at_refines [OF assms(1), of i] show ?thesis by (auto simp: nth_or_NULL_def)
next
  case (LL_Remove_First v)
  with remove_first_refines [OF assms(1), of v] show ?thesis by auto
next
  case (LL_Remove_Last v)
  with remove_last_refines [OF assms(1), of v] show ?thesis by auto
next
  case (LL_Remove_All v)
  with remove_all_refines [OF assms(1), of v] show ?thesis by auto
next
  case (LL_Remove_First_Matching m)
  with remove_first_matching_refines [OF assms(1), of m] show ?thesis by auto
next
  case (LL_Remove_Last_Matching m)
  with remove_last_matching_refines [OF assms(1), of m] show ?thesis by auto
next
  case (LL_Remove_All_Matching m)
  with remove_all_matching_refines [OF assms(1), of m] show ?thesis by auto
next
  case (LL_Set_At i v)
  with set_at_refines [OF assms(1), of i v] show ?thesis by auto
qed (use assms(1) in \<open>simp_all add: get_refines get_first_matching_refines
  get_last_matching_refines nth_or_NULL_def\<close>)

text \<open>
  A client holds a list and at most one iterator, and makes any of the calls of the file on them:
  \<open>ll_call\<close>. The specification keeps the values and the place of the iterator: \<open>Iter_On forward i\<close>
  stands behind \<open>i\<close> values in its direction; a call on the list that may free or insert nodes makes
  the iterator \<open>Stale\<close>, and a stale iterator may only be freed or replaced.
\<close>

datatype ll_call =
    LL_List ll_op
  | LL_Size
  | LL_Foreach
  | LL_Iterator bool bool
  | LL_Iterator_Next
  | LL_Iterator_Value
  | LL_Iterator_Remove
  | LL_Iterator_Free

datatype ll_answer = A_Value ptr | A_Size nat | A_Calls "(size_t \<times> ptr) list" | A_None

type_synonym ll_client = "ll_state \<times> linked_list_iterator_t option"

fun ll_call_exec :: "ll_call \<Rightarrow> ll_client \<Rightarrow> (ll_answer \<times> ll_client) option" where
  "ll_call_exec (LL_List op) (s, it) = do { (r, s) \<leftarrow> ll_exec op s; Some (A_Value r, s, it) }"
| "ll_call_exec LL_Size (s, it) = Some (A_Size (unat (linked_list_size s)), s, it)"
| "ll_call_exec LL_Foreach (s, it) = do { calls \<leftarrow> linked_list_foreach True s; Some (A_Calls calls, s, it) }"
| "ll_call_exec (LL_Iterator malloc_ok forward) (s, it) = Some (A_None, s, linked_list_iterator malloc_ok forward s)"
| "ll_call_exec LL_Iterator_Next (s, it) = do { it \<leftarrow> linked_list_iterator_next (fst s) it; Some (A_None, s, it) }"
| "ll_call_exec LL_Iterator_Value (s, it) = do { v \<leftarrow> linked_list_iterator_value (fst s) it; Some (A_Value v, s, it) }"
| "ll_call_exec LL_Iterator_Remove (s, it) = do { (it, s) \<leftarrow> linked_list_iterator_remove it s; Some (A_None, s, it) }"
| "ll_call_exec LL_Iterator_Free (s, it) = Some (A_None, s, linked_list_iterator_free it)"

datatype ll_cursor = No_Iter | Iter_On bool nat | Stale

fun ll_reads :: "ll_op \<Rightarrow> bool" where
  "ll_reads (LL_Get i) \<longleftrightarrow> True"
| "ll_reads (LL_Get_First_Matching m) \<longleftrightarrow> True"
| "ll_reads (LL_Get_Last_Matching m) \<longleftrightarrow> True"
| "ll_reads _ \<longleftrightarrow> False"

text \<open>The place after one value less, and the position in the list of the value the iterator stands on.\<close>

definition cursor_at :: "bool \<Rightarrow> nat \<Rightarrow> nat \<Rightarrow> ll_cursor" where
  "cursor_at forward i n = (if i < n then Iter_On forward i else No_Iter)"

definition cursor_index :: "bool \<Rightarrow> nat \<Rightarrow> nat \<Rightarrow> nat" where
  "cursor_index forward i n = (if forward then i else n - 1 - i)"

fun ll_call_spec :: "ll_call \<Rightarrow> ptr list \<times> ll_cursor \<Rightarrow> (ll_answer \<times> ptr list \<times> ll_cursor) option" where
  "ll_call_spec (LL_List op) (vs, cur) =
     Some (A_Value (fst (ll_spec op vs)), snd (ll_spec op vs), if ll_reads op \<or> cur = No_Iter then cur else Stale)"
| "ll_call_spec LL_Size (vs, cur) = Some (A_Size (length vs), vs, cur)"
| "ll_call_spec LL_Foreach (vs, cur) = Some (A_Calls (zip (map of_nat [0..<length vs]) vs), vs, cur)"
| "ll_call_spec (LL_Iterator malloc_ok forward) (vs, cur) =
     Some (A_None, vs, if malloc_ok then cursor_at forward 0 (length vs) else No_Iter)"
| "ll_call_spec LL_Iterator_Free (vs, cur) = Some (A_None, vs, No_Iter)"
| "ll_call_spec call (vs, Stale) = None"
| "ll_call_spec LL_Iterator_Value (vs, No_Iter) = Some (A_Value NULL, vs, No_Iter)"
| "ll_call_spec call (vs, No_Iter) = Some (A_None, vs, No_Iter)"
| "ll_call_spec LL_Iterator_Next (vs, Iter_On forward i) = Some (A_None, vs, cursor_at forward (i + 1) (length vs))"
| "ll_call_spec LL_Iterator_Value (vs, Iter_On forward i) =
     Some (A_Value (vs ! cursor_index forward i (length vs)), vs, Iter_On forward i)"
| "ll_call_spec LL_Iterator_Remove (vs, Iter_On forward i) =
     Some (A_None, list_remove_at (cursor_index forward i (length vs)) vs, cursor_at forward i (length vs - 1))"

fun ll_client_rep :: "ll_client \<Rightarrow> ptr list \<times> ll_cursor \<Rightarrow> bool" where
  "ll_client_rep (s, it) (vs, No_Iter) \<longleftrightarrow> ll_rep s vs \<and> it = None"
| "ll_client_rep (s, it) (vs, Stale) \<longleftrightarrow> ll_rep s vs"
| "ll_client_rep (s, it) (vs, Iter_On forward i) \<longleftrightarrow>
     (\<exists>h list ps. s = (h, Some list) \<and> ll_nodes h list ps \<and> vals h ps = vs \<and> i < length ps \<and>
       it = iter_at forward (drop i (iter_order forward ps)))"

lemma ll_client_rep_list: "ll_client_rep (s, it) (vs, cur) \<Longrightarrow> ll_rep s vs"
  by (cases cur) auto

lemma ll_client_rep_at:
  assumes "ll_nodes h list ps" and "it = iter_at forward (drop i (iter_order forward ps))"
  shows "ll_client_rep ((h, Some list), it) (vals h ps, cursor_at forward i (length ps))"
  using assms by (auto simp: cursor_at_def iter_at_def iter_order_def split: if_splits)

text \<open>The node an iterator stands on, with what lies before and behind it in its direction.\<close>

lemma iter_on_mid:
  assumes "i < length ps"
  obtains as p bs where "iter_order forward ps = as @ p # bs" "length as = i" "drop i (iter_order forward ps) = p # bs"
    "drop (i + 1) (iter_order forward ps) = bs" "p = ps ! cursor_index forward i (length ps)"
proof -
  let ?qs = "iter_order forward ps"
  have n: "i < length ?qs" using assms by (simp add: iter_order_def)
  then have "?qs = take i ?qs @ ?qs ! i # drop (Suc i) ?qs" by (rule id_take_nth_drop)
  moreover have "drop i ?qs = ?qs ! i # drop (Suc i) ?qs" using n by (rule Cons_nth_drop_Suc [symmetric])
  moreover have "?qs ! i = ps ! cursor_index forward i (length ps)"
    using assms by (simp add: iter_order_def cursor_index_def rev_nth)
  moreover have "length (take i ?qs) = i" using n by simp
  ultimately show ?thesis using that [of "take i ?qs" "?qs ! i" "drop (Suc i) ?qs"] by simp
qed

lemma ll_call_iterator_remove:
  assumes nodes: "ll_nodes h list ps" and i: "i < length ps"
  shows "\<exists>h' list' it'. linked_list_iterator_remove (iter_at forward (drop i (iter_order forward ps))) (h, Some list) =
      Some (it', (h', Some list')) \<and>
    ll_client_rep ((h', Some list'), it')
      (list_remove_at (cursor_index forward i (length ps)) (vals h ps), cursor_at forward i (length ps - 1))"
proof -
  obtain as p bs where mid: "iter_order forward ps = as @ p # bs" "length as = i" "drop i (iter_order forward ps) = p # bs"
    using i by (rule iter_on_mid)
  from iterator_remove_refines [OF nodes mid(1)] obtain h' list' ps' where
    rm: "linked_list_iterator_remove (iter_at forward (p # bs)) (h, Some list) = Some (iter_at forward bs, (h', Some list'))"
      "ll_nodes h' list' ps'" "iter_order forward ps' = as @ bs" "vals h' (as @ bs) = vals h as @ vals h bs" by blast
  have ps: "ps = (if forward then as @ p # bs else rev bs @ p # rev as)" using mid(1) by (rule iter_order_mid)
  have ps': "ps' = (if forward then as @ bs else rev (as @ bs))"
    using rm(3) rev_swap [of ps' "as @ bs"] by (cases forward) (simp_all add: iter_order_def)
  have "vals h' ps' = list_remove_at (cursor_index forward i (length ps)) (vals h ps)"
    using rm(4) mid(2) unfolding ps ps'
    by (auto simp: vals_def list_remove_at_def cursor_index_def rev_map [symmetric])
  moreover have "drop i (iter_order forward ps') = bs" "length ps' = length ps - 1"
    using rm(3) mid(2) ps ps' by auto
  ultimately show ?thesis
    using rm(1) ll_client_rep_at [OF rm(2), of "iter_at forward bs" forward i] by (simp add: mid(3))
qed

text \<open>Each call on a client state that is represented.\<close>

lemma ll_call_refines_list:
  assumes rep: "ll_client_rep (s, it) (vs, cur)" and alloc: "fresh (fst s) (ll_alloc op)"
  shows "\<exists>c'. ll_call_exec (LL_List op) (s, it) = Some (A_Value (fst (ll_spec op vs)), c') \<and>
    ll_client_rep c' (snd (ll_spec op vs), if ll_reads op \<or> cur = No_Iter then cur else Stale)"
proof -
  from ll_exec_refines [OF ll_client_rep_list [OF rep] alloc] obtain s' where
    s': "ll_exec op s = Some (fst (ll_spec op vs), s')" "ll_rep s' (snd (ll_spec op vs))" by blast
  have same: "s' = s \<and> snd (ll_spec op vs) = vs" if "ll_reads op"
    using that s'(1) by (cases op) (auto simp: bind_eq_Some_conv)
  have "ll_client_rep (s', it) (snd (ll_spec op vs), if ll_reads op \<or> cur = No_Iter then cur else Stale)"
  proof (cases "ll_reads op")
    case True
    with rep same show ?thesis by simp
  next
    case False
    with rep s'(2) show ?thesis by (cases "cur = No_Iter") simp_all
  qed
  with s'(1) show ?thesis by auto
qed

lemma ll_call_refines_iterator:
  assumes rep: "ll_client_rep (s, it) (vs, cur)" and call: "call \<in> {LL_Iterator_Next, LL_Iterator_Value, LL_Iterator_Remove}"
    and spec: "ll_call_spec call (vs, cur) = Some (r, a')"
  shows "\<exists>c'. ll_call_exec call (s, it) = Some (r, c') \<and> ll_client_rep c' a'"
proof (cases cur)
  case No_Iter
  with rep have it: "it = None" and s: "ll_rep s vs" by simp_all
  from call consider "call = LL_Iterator_Next" | "call = LL_Iterator_Value" | "call = LL_Iterator_Remove" by blast
  then show ?thesis using spec s by cases (auto simp: No_Iter it)
next
  case Stale
  then show ?thesis using call spec by auto
next
  case (Iter_On forward i)
  with rep obtain h list ps where s: "s = (h, Some list)" and nodes: "ll_nodes h list ps" and vs: "vs = vals h ps"
    and i: "i < length ps" and it: "it = iter_at forward (drop i (iter_order forward ps))" by auto
  obtain as p bs where mid: "iter_order forward ps = as @ p # bs" "length as = i" "drop i (iter_order forward ps) = p # bs"
    "drop (i + 1) (iter_order forward ps) = bs" "p = ps ! cursor_index forward i (length ps)" using i by (rule iter_on_mid)
  note it' = it [unfolded mid(3)]
  have len: "length vs = length ps" by (simp add: vs vals_def)
  from call consider (nxt) "call = LL_Iterator_Next" | (val) "call = LL_Iterator_Value" | (rem) "call = LL_Iterator_Remove" by blast
  then show ?thesis
  proof cases
    case nxt
    have "ll_client_rep (s, iter_at forward bs) (vs, cursor_at forward (i + 1) (length vs))"
      unfolding s vs len [unfolded vs] using nodes mid(4) [symmetric] by (intro ll_client_rep_at) simp_all
    with spec iterator_step(1) [OF nodes mid(1)] show ?thesis by (auto simp: nxt Iter_On s it')
  next
    case val
    have "cursor_index forward i (length ps) < length ps" using i by (auto simp: cursor_index_def)
    then have "item_value (the (h p)) = vs ! cursor_index forward i (length vs)"
      unfolding len by (simp add: vs mid(5) vals_def)
    with spec rep iterator_step(2) [OF nodes mid(1)] show ?thesis by (auto simp: val Iter_On s it')
  next
    case rem
    from ll_call_iterator_remove [OF nodes i, of forward] spec show ?thesis
      by (auto simp: rem Iter_On s it vs len [unfolded vs])
  qed
qed

lemma ll_call_refines:
  assumes rep: "ll_client_rep (s, it) (vs, cur)"
    and alloc: "\<And>op. call = LL_List op \<Longrightarrow> fresh (fst s) (ll_alloc op)"
    and spec: "ll_call_spec call (vs, cur) = Some (r, a')"
  shows "\<exists>c'. ll_call_exec call (s, it) = Some (r, c') \<and> ll_client_rep c' a'"
proof (cases call)
  case (LL_List op)
  with ll_call_refines_list [OF rep alloc [OF LL_List]] spec show ?thesis by auto
next
  case LL_Size
  with rep spec ll_rep_size [OF ll_client_rep_list [OF rep]] show ?thesis by auto
next
  case LL_Foreach
  with rep spec foreach_refines [OF ll_client_rep_list [OF rep]] show ?thesis by auto
next
  case (LL_Iterator malloc_ok forward)
  from ll_client_rep_list [OF rep] obtain h list ps where s: "s = (h, Some list)" "ll_nodes h list ps" "vs = vals h ps"
    by (rule ll_rep_cases)
  have "ll_client_rep (s, linked_list_iterator malloc_ok forward s)
      (vs, if malloc_ok then cursor_at forward 0 (length vs) else No_Iter)"
  proof (cases malloc_ok)
    case True
    have "linked_list_iterator True forward s = iter_at forward (iter_order forward ps)"
      unfolding s(1) using s(2) by (rule iterator_start)
    with ll_client_rep_at [OF s(2), of "iter_at forward (iter_order forward ps)" forward 0] True show ?thesis
      by (simp add: s(1,3) vals_def)
  next
    case False
    with s(2,3) show ?thesis by (auto simp: s(1))
  qed
  with spec LL_Iterator show ?thesis by auto
next
  case LL_Iterator_Free
  with spec ll_client_rep_list [OF rep] show ?thesis by (auto simp: linked_list_iterator_free_def)
qed (use ll_call_refines_iterator [OF rep _ spec] in simp_all)

text \<open>
  Runs: \<open>ll_run\<close> makes a list of calls and collects the answers; \<open>ll_allocs_ok\<close> says that each
  \<open>malloc\<close> of a node in it returned \<open>NULL\<close> or memory that was not in use.
\<close>

fun ll_run :: "ll_client \<Rightarrow> ll_call list \<Rightarrow> (ll_answer list \<times> ll_client) option" where
  "ll_run c [] = Some ([], c)"
| "ll_run c (call # calls) = do {
     (r, c) \<leftarrow> ll_call_exec call c;
     (rs, c) \<leftarrow> ll_run c calls;
     Some (r # rs, c) }"

fun ll_allocs_ok :: "ll_client \<Rightarrow> ll_call list \<Rightarrow> bool" where
  "ll_allocs_ok c [] \<longleftrightarrow> True"
| "ll_allocs_ok c (call # calls) \<longleftrightarrow>
     (case call of LL_List op \<Rightarrow> fresh (fst (fst c)) (ll_alloc op) | _ \<Rightarrow> True) \<and>
     (case ll_call_exec call c of None \<Rightarrow> True | Some (r, c') \<Rightarrow> ll_allocs_ok c' calls)"

fun ll_spec_run :: "ptr list \<times> ll_cursor \<Rightarrow> ll_call list \<Rightarrow> (ll_answer list \<times> ptr list \<times> ll_cursor) option" where
  "ll_spec_run a [] = Some ([], a)"
| "ll_spec_run a (call # calls) = do {
     (r, a) \<leftarrow> ll_call_spec call a;
     (rs, a) \<leftarrow> ll_spec_run a calls;
     Some (r # rs, a) }"

lemma ll_run_refines:
  "ll_client_rep c a \<Longrightarrow> ll_allocs_ok c calls \<Longrightarrow> ll_spec_run a calls = Some (rs, a') \<Longrightarrow>
   \<exists>c'. ll_run c calls = Some (rs, c') \<and> ll_client_rep c' a'"
proof (induction calls arbitrary: c a rs)
  case Nil
  then show ?case by simp
next
  case (Cons call calls)
  obtain s it vs cur where c: "c = (s, it)" "a = (vs, cur)" by (cases c; cases a) auto
  from Cons.prems(3) obtain r a1 rs1 where spec: "ll_call_spec call (vs, cur) = Some (r, a1)" "rs = r # rs1"
    "ll_spec_run a1 calls = Some (rs1, a')" by (auto simp: c bind_eq_Some_conv)
  have "fresh (fst s) (ll_alloc op)" if "call = LL_List op" for op using Cons.prems(2) that by (simp add: c)
  with ll_call_refines [OF Cons.prems(1) [unfolded c] _ spec(1)] obtain c1 where
    c1: "ll_call_exec call (s, it) = Some (r, c1)" "ll_client_rep c1 a1" by blast
  with Cons.prems(2) have "ll_allocs_ok c1 calls" by (simp add: c)
  from Cons.IH [OF c1(2) this spec(3)] c1(1) show ?case by (auto simp: c spec(2))
qed

section \<open>Properties\<close>

text \<open>
  C19. (memory safety and refinement of the list with its iterator): whatever sequence of calls a
  client makes on a new list and one iterator over it at a time, with any mix of allocation failures,
  no call dereferences \<open>NULL\<close> or freed memory, every answer is the one the same call on a plain list of
  values gives, and the final heap holds exactly the nodes of the final list, each of which
  \<open>linked_list_free\<close> then frees once. The calls are all those of the file; the client's one duty is
  not to advance, read or remove through an iterator after it changed the list by another call.
\<close>

theorem linked_list_api_refines:
  assumes "ll_allocs_ok ((Map.empty, linked_list_new True), None) calls"
    and "ll_spec_run ([], No_Iter) calls = Some (rs, vs, cur)"
  shows "\<exists>s' it'. ll_run ((Map.empty, linked_list_new True), None) calls = Some (rs, s', it') \<and>
    ll_rep s' vs \<and> linked_list_free free_value s' = Some (if free_value then vs else [], (Map.empty, None))"
proof -
  have "ll_client_rep ((Map.empty, linked_list_new True), None) ([], No_Iter)" using ll_rep_new by simp
  from ll_run_refines [OF this assms] obtain s' it' where
    run: "ll_run ((Map.empty, linked_list_new True), None) calls = Some (rs, s', it')" "ll_client_rep (s', it') (vs, cur)" by auto
  with ll_client_rep_list [OF run(2)] free_refines [of s' vs free_value] show ?thesis by blast
qed

theorem linked_list_api_refines_witness:
  "\<exists>s' it'. ll_run ((Map.empty, linked_list_new True), None)
      [LL_List (LL_Add 1 10), LL_List (LL_Add NULL 15), LL_List (LL_Add 2 20), LL_List (LL_Insert 3 1 30), LL_Size,
       LL_Iterator True False, LL_Iterator_Next, LL_Iterator_Value, LL_Iterator_Remove, LL_Iterator_Value] =
    Some ([A_Value 0, A_Value 0, A_Value 0, A_Value 0, A_Size 3, A_None, A_None, A_Value 30, A_None, A_Value 10], s', it') \<and>
    ll_rep s' [10, 20] \<and> linked_list_free True s' = Some (if True then [10, 20] else [], (Map.empty, None))"
proof (rule linked_list_api_refines)
  let ?calls = "[LL_List (LL_Add 1 10), LL_List (LL_Add NULL 15), LL_List (LL_Add 2 20), LL_List (LL_Insert 3 1 30), LL_Size,
       LL_Iterator True False, LL_Iterator_Next, LL_Iterator_Value, LL_Iterator_Remove, LL_Iterator_Value]"
  show "ll_allocs_ok ((Map.empty, linked_list_new True), None) ?calls"
    by (simp add: linked_list_new_def fresh_def load_def store_next_def store_previous_def Let_def
        ll_remove_item_def free_item_def)
  show "ll_spec_run ([], No_Iter) ?calls =
      Some ([A_Value 0, A_Value 0, A_Value 0, A_Value 0, A_Size 3, A_None, A_None, A_Value 30, A_None, A_Value 10],
        [10, 20], Iter_On False 1)"
    by (simp add: list_insert_at_def list_remove_at_def cursor_at_def cursor_index_def)
qed

text \<open>
  Removing every occurrence of a value, the loop that reads a node's \<open>next\<close> before it frees
  the node, leaves exactly the other values in their order and returns the value when it
  occurred.
\<close>

theorem linked_list_remove_all_removes:
  assumes "ll_rep s vs"
  shows "\<exists>s'. linked_list_remove_all v s = Some (if v \<in> set vs then v else NULL, s') \<and>
    ll_rep s' (removeAll v vs)"
  using assms by (rule remove_all_refines)

theorem linked_list_remove_all_removes_witness:
  "\<exists>s s'. ll_run ((Map.empty, linked_list_new True), None) (map LL_List [LL_Add 1 10, LL_Add 2 20, LL_Add 3 10]) =
      Some (replicate 3 (A_Value 0), s, None) \<and>
    linked_list_remove_all 10 s = Some (10, s') \<and> ll_rep s' [20]"
proof -
  let ?calls = "map LL_List [LL_Add 1 10, LL_Add 2 20, LL_Add 3 10]"
  have rep: "ll_client_rep ((Map.empty, linked_list_new True), None) ([], No_Iter)" using ll_rep_new by simp
  have ok: "ll_allocs_ok ((Map.empty, linked_list_new True), None) ?calls"
    by (simp add: linked_list_new_def fresh_def load_def store_next_def Let_def)
  have "ll_spec_run ([], No_Iter) ?calls = Some (replicate 3 (A_Value 0), [10, 20, 10], No_Iter)"
    by (simp add: numeral_3_eq_3)
  from ll_run_refines [OF rep ok this] obtain s where
    "ll_run ((Map.empty, linked_list_new True), None) ?calls = Some (replicate 3 (A_Value 0), s, None)" "ll_rep s [10, 20, 10]" by auto
  with linked_list_remove_all_removes [OF this(2), of 10] show ?thesis by auto
qed

text \<open>
  An iterator visits every value exactly once, first to last or last to first, and frees
  itself by becoming \<open>NULL\<close> after the last.
\<close>

theorem linked_list_iteration_visits_all:
  assumes "ll_rep s vs"
  shows "ll_collect (fst s) (linked_list_iterator True forward s) =
    Some (if forward then vs else rev vs)"
  using assms by (rule iterator_refines)

theorem linked_list_iteration_visits_all_witness:
  "\<exists>s. linked_list_add 1 10 (Map.empty, linked_list_new True) = Some s \<and>
    ll_collect (fst s) (linked_list_iterator True False s) = Some [10]"
proof -
  obtain s where "linked_list_add 1 10 (Map.empty, linked_list_new True) = Some s" "ll_rep s [10]"
    using add_refines [OF ll_rep_new, of 1 10] by (auto simp: fresh_def)
  with linked_list_iteration_visits_all [OF this(2), of False] show ?thesis by auto
qed

text \<open>
  Freeing the list frees every node exactly once (the heap is empty afterwards, and no free
  faults) and calls \<open>free_value\<close> on every value, in order.
\<close>

theorem linked_list_free_frees_all:
  assumes "ll_rep s vs"
  shows "linked_list_free free_value s = Some (if free_value then vs else [], (Map.empty, None))"
  using assms by (rule free_refines)

theorem linked_list_free_frees_all_witness:
  "\<exists>s. linked_list_add 1 10 (Map.empty, linked_list_new True) = Some s \<and>
    linked_list_free True s = Some ([10], (Map.empty, None))"
proof -
  obtain s where "linked_list_add 1 10 (Map.empty, linked_list_new True) = Some s" "ll_rep s [10]"
    using add_refines [OF ll_rep_new, of 1 10] by (auto simp: fresh_def)
  with linked_list_free_frees_all [OF this(2), of True] show ?thesis by auto
qed

end
