(* ===== verification/GenericQueue.thy ===== *)
theory GenericQueue
  imports DList Contracts
begin

text \<open>
  \<open>queues/generic_queue.c\<close>: the deque of \<open>void *\<close> values, on the same doubly linked nodes as the
  linked list. Its two removals at the ends, \<open>generic_queue_pop\<close> and \<open>generic_queue_unshift\<close>,
  do not clear the pointer of the new end node that led to the freed node. So the invariant
  of the code is weaker than a well formed list: \<open>gq_seg h queue a ps b\<close> says that the nodes
  \<open>ps\<close> are linked and that \<open>a\<close> and \<open>b\<close> are what the two outermost pointers happen to hold.

  The development shows what that is enough for (the FIFO and the LIFO use of the header's
  documentation), what needs clean ends, and what goes wrong without them.
\<close>

section \<open>State and operations\<close>

record generic_queue =
  gq_first_item :: ptr
  gq_last_item :: ptr
  gq_length :: size_t

record generic_queue_iterator_t =
  gqi_item :: ptr
  gqi_forward :: bool

type_synonym gq_state = "heap \<times> generic_queue option"

definition generic_queue_new :: "bool \<Rightarrow> generic_queue option" where
  "generic_queue_new calloc_ok =
     (if calloc_ok then Some \<lparr>gq_first_item = NULL, gq_last_item = NULL, gq_length = 0\<rparr>
      else None)"

partial_function (option) gq_free_loop :: "heap \<Rightarrow> ptr \<Rightarrow> (heap \<times> ptr list) option" where
  "gq_free_loop h p =
     (if p = NULL then Some (h, [])
      else do {
        it \<leftarrow> load h p;
        h \<leftarrow> free_item h p;
        (h, vs) \<leftarrow> gq_free_loop h (item_next it);
        Some (h, item_value it # vs) })"

fun generic_queue_free :: "bool \<Rightarrow> gq_state \<Rightarrow> (ptr list \<times> gq_state) option" where
  "generic_queue_free free_value (h, None) = Some ([], (h, None))"
| "generic_queue_free free_value (h, Some queue) = do {
     (h, vs) \<leftarrow> gq_free_loop h (gq_first_item queue);
     Some (if free_value then vs else [], (h, None)) }"

fun generic_queue_push :: "ptr \<Rightarrow> ptr \<Rightarrow> gq_state \<Rightarrow> gq_state option" where
  "generic_queue_push new_item v (h, None) = Some (h, None)"
| "generic_queue_push new_item v (h, Some queue) =
     (if new_item = NULL then Some (h, Some queue)
      else do {
        let h = h(new_item \<mapsto>
          \<lparr>item_value = v, item_previous = gq_last_item queue, item_next = NULL\<rparr>);
        let queue = queue\<lparr>gq_last_item := new_item, gq_length := gq_length queue + 1\<rparr>;
        if gq_first_item queue = NULL
        then Some (h, Some (queue\<lparr>gq_first_item := new_item\<rparr>))
        else do {
          it \<leftarrow> load h new_item;
          h \<leftarrow> store_next h (item_previous it) new_item;
          Some (h, Some queue) } })"

fun generic_queue_pop :: "gq_state \<Rightarrow> (ptr \<times> gq_state) option" where
  "generic_queue_pop (h, None) = Some (NULL, (h, None))"
| "generic_queue_pop (h, Some queue) =
     (if gq_last_item queue = NULL then Some (NULL, (h, Some queue))
      else do {
        let item = gq_last_item queue;
        it \<leftarrow> load h item;
        let queue = queue\<lparr>gq_last_item := item_previous it, gq_length := gq_length queue - 1\<rparr>;
        let queue = (if gq_length queue = 0 then queue\<lparr>gq_first_item := NULL\<rparr> else queue);
        h \<leftarrow> free_item h item;
        Some (item_value it, (h, Some queue)) })"

fun generic_queue_peek :: "gq_state \<Rightarrow> ptr option" where
  "generic_queue_peek (h, None) = Some NULL"
| "generic_queue_peek (h, Some queue) =
     (if gq_last_item queue = NULL then Some NULL
      else do { it \<leftarrow> load h (gq_last_item queue); Some (item_value it) })"

fun generic_queue_peek_first :: "gq_state \<Rightarrow> ptr option" where
  "generic_queue_peek_first (h, None) = Some NULL"
| "generic_queue_peek_first (h, Some queue) =
     (if gq_first_item queue = NULL then Some NULL
      else do { it \<leftarrow> load h (gq_first_item queue); Some (item_value it) })"

fun generic_queue_shift :: "ptr \<Rightarrow> ptr \<Rightarrow> gq_state \<Rightarrow> gq_state option" where
  "generic_queue_shift new_item v (h, None) = Some (h, None)"
| "generic_queue_shift new_item v (h, Some queue) =
     (if new_item = NULL then Some (h, Some queue)
      else do {
        let h = h(new_item \<mapsto>
          \<lparr>item_value = v, item_previous = NULL, item_next = gq_first_item queue\<rparr>);
        let queue = queue\<lparr>gq_first_item := new_item, gq_length := gq_length queue + 1\<rparr>;
        if gq_last_item queue = NULL
        then Some (h, Some (queue\<lparr>gq_last_item := new_item\<rparr>))
        else do {
          it \<leftarrow> load h new_item;
          h \<leftarrow> store_previous h (item_next it) new_item;
          Some (h, Some queue) } })"

fun generic_queue_unshift :: "gq_state \<Rightarrow> (ptr \<times> gq_state) option" where
  "generic_queue_unshift (h, None) = Some (NULL, (h, None))"
| "generic_queue_unshift (h, Some queue) =
     (if gq_first_item queue = NULL then Some (NULL, (h, Some queue))
      else do {
        let item = gq_first_item queue;
        it \<leftarrow> load h item;
        let queue = queue\<lparr>gq_first_item := item_next it, gq_length := gq_length queue - 1\<rparr>;
        let queue = (if gq_length queue = 0 then queue\<lparr>gq_last_item := NULL\<rparr> else queue);
        h \<leftarrow> free_item h item;
        Some (item_value it, (h, Some queue)) })"

fun generic_queue_length :: "gq_state \<Rightarrow> size_t" where
  "generic_queue_length (h, Some queue) = gq_length queue"
| "generic_queue_length (h, None) = 0"

fun generic_queue_remove :: "ptr \<Rightarrow> gq_state \<Rightarrow> (ptr \<times> gq_state) option" where
  "generic_queue_remove v (h, None) = Some (NULL, (h, None))"
| "generic_queue_remove v (h, Some queue) = do {
     item \<leftarrow> search_next (\<lambda>x. x = v) h (gq_first_item queue);
     if item = NULL then Some (NULL, (h, Some queue))
     else do {
       it \<leftarrow> load h item;
       (h, queue) \<leftarrow>
         (if item_previous it \<noteq> NULL
          then do { h \<leftarrow> store_next h (item_previous it) (item_next it); Some (h, queue) }
          else Some (h, queue\<lparr>gq_first_item := item_next it\<rparr>));
       it \<leftarrow> load h item;
       (h, queue) \<leftarrow>
         (if item_next it \<noteq> NULL
          then do { h \<leftarrow> store_previous h (item_next it) (item_previous it); Some (h, queue) }
          else Some (h, queue\<lparr>gq_last_item := item_previous it\<rparr>));
       h \<leftarrow> free_item h item;
       Some (v, (h, Some (queue\<lparr>gq_length := gq_length queue - 1\<rparr>))) } }"

text \<open>Iterators; \<open>None\<close> is a \<open>NULL\<close> iterator.\<close>

fun generic_queue_iterator :: "bool \<Rightarrow> bool \<Rightarrow> gq_state \<Rightarrow> generic_queue_iterator_t option" where
  "generic_queue_iterator malloc_ok forward (h, Some queue) =
     (if gq_first_item queue \<noteq> NULL
      then if \<not> malloc_ok then None
           else Some \<lparr>gqi_item = (if forward then gq_first_item queue else gq_last_item queue),
                      gqi_forward = forward\<rparr>
      else None)"
| "generic_queue_iterator malloc_ok forward (h, None) = None"

fun generic_queue_iterator_next ::
  "heap \<Rightarrow> generic_queue_iterator_t option \<Rightarrow> generic_queue_iterator_t option option" where
  "generic_queue_iterator_next h (Some iterator) = do {
     it \<leftarrow> load h (gqi_item iterator);
     let item = (if gqi_forward iterator then item_next it else item_previous it);
     Some (if item \<noteq> NULL then Some (iterator\<lparr>gqi_item := item\<rparr>) else None) }"
| "generic_queue_iterator_next h None = Some None"

fun generic_queue_iterator_value :: "heap \<Rightarrow> generic_queue_iterator_t option \<Rightarrow> ptr option" where
  "generic_queue_iterator_value h (Some iterator) = do {
     it \<leftarrow> load h (gqi_item iterator);
     Some (item_value it) }"
| "generic_queue_iterator_value h None = Some NULL"

text \<open>
  \<open>generic_queue_iterator_remove\<close> walks from the end where the iteration began to the
  iterator's node and unlinks it there.
\<close>

partial_function (option) gq_iterator_remove_loop ::
  "generic_queue_iterator_t \<Rightarrow> heap \<Rightarrow> generic_queue \<Rightarrow> ptr \<Rightarrow>
   (generic_queue_iterator_t option \<times> gq_state) option" where
  "gq_iterator_remove_loop iterator h queue item =
     (if item = NULL then Some (Some iterator, (h, Some queue))
      else do {
        it \<leftarrow> load h item;
        if gqi_item iterator = item
        then do {
          (h, queue) \<leftarrow>
            (if gq_first_item queue = item
             then Some (h, queue\<lparr>gq_first_item := item_next it\<rparr>)
             else do { h \<leftarrow> store_next h (item_previous it) (item_next it); Some (h, queue) });
          it \<leftarrow> load h item;
          (h, queue) \<leftarrow>
            (if gq_last_item queue = item
             then Some (h, queue\<lparr>gq_last_item := item_previous it\<rparr>)
             else do { h \<leftarrow> store_previous h (item_next it) (item_previous it); Some (h, queue) });
          it \<leftarrow> load h item;
          let next_item = (if gqi_forward iterator then item_next it else item_previous it);
          h \<leftarrow> free_item h item;
          Some (if next_item \<noteq> NULL then Some (iterator\<lparr>gqi_item := next_item\<rparr>) else None,
                (h, Some (queue\<lparr>gq_length := gq_length queue - 1\<rparr>))) }
        else gq_iterator_remove_loop iterator h queue
               (if gqi_forward iterator then item_next it else item_previous it) })"

fun generic_queue_iterator_remove ::
  "generic_queue_iterator_t option \<Rightarrow> gq_state \<Rightarrow>
   (generic_queue_iterator_t option \<times> gq_state) option" where
  "generic_queue_iterator_remove None s = Some (None, s)"
| "generic_queue_iterator_remove (Some iterator) (h, None) = None"
| "generic_queue_iterator_remove (Some iterator) (h, Some queue) =
     gq_iterator_remove_loop iterator h queue
       (if gqi_forward iterator then gq_first_item queue else gq_last_item queue)"

definition generic_queue_iterator_free ::
  "generic_queue_iterator_t option \<Rightarrow> generic_queue_iterator_t option" where
  "generic_queue_iterator_free iterator = None"

section \<open>The weak invariant, and its clean cases\<close>

definition gq_seg :: "heap \<Rightarrow> generic_queue \<Rightarrow> ptr \<Rightarrow> ptr list \<Rightarrow> ptr \<Rightarrow> bool" where
  "gq_seg h queue a ps b \<longleftrightarrow>
     dseg h a ps b \<and> distinct ps \<and> dom h = set ps \<and>
     gq_first_item queue = hd (ps @ [NULL]) \<and> gq_last_item queue = last (NULL # ps) \<and>
     gq_length queue = of_nat (length ps)"

text \<open>
  \<open>gq_clean\<close>: both outermost pointers are \<open>NULL\<close>. \<open>gq_fifo\<close>: the last node's \<open>next\<close> is
  \<open>NULL\<close> (the first node's \<open>previous\<close> may dangle). \<open>gq_lifo\<close>: the first node's \<open>previous\<close> is
  \<open>NULL\<close> (the last node's \<open>next\<close> may dangle).
\<close>

fun gq_rep :: "(ptr \<Rightarrow> bool) \<Rightarrow> (ptr \<Rightarrow> bool) \<Rightarrow> gq_state \<Rightarrow> ptr list \<Rightarrow> bool" where
  "gq_rep A B (h, Some queue) vs \<longleftrightarrow>
     (\<exists>a ps b. gq_seg h queue a ps b \<and> A a \<and> B b \<and> vals h ps = vs)"
| "gq_rep A B (h, None) vs \<longleftrightarrow> False"

abbreviation is_NULL :: "ptr \<Rightarrow> bool" where "is_NULL p \<equiv> p = NULL"
abbreviation any_ptr :: "ptr \<Rightarrow> bool" where "any_ptr p \<equiv> True"

abbreviation gq_clean :: "gq_state \<Rightarrow> ptr list \<Rightarrow> bool" where "gq_clean \<equiv> gq_rep is_NULL is_NULL"
abbreviation gq_fifo :: "gq_state \<Rightarrow> ptr list \<Rightarrow> bool" where "gq_fifo \<equiv> gq_rep any_ptr is_NULL"
abbreviation gq_lifo :: "gq_state \<Rightarrow> ptr list \<Rightarrow> bool" where "gq_lifo \<equiv> gq_rep is_NULL any_ptr"

lemma gq_rep_cases:
  assumes "gq_rep A B s vs"
  obtains h queue a ps b where "s = (h, Some queue)" "gq_seg h queue a ps b" "A a" "B b"
    "vs = vals h ps"
  using assms by (cases s; cases "snd s") auto

lemma gq_repI:
  "gq_seg h queue a ps b \<Longrightarrow> A a \<Longrightarrow> B b \<Longrightarrow> vals h ps = vs \<Longrightarrow> gq_rep A B (h, Some queue) vs"
  by auto

lemma gq_rep_new: "gq_clean (Map.empty, generic_queue_new True) []"
  by (auto simp: generic_queue_new_def gq_seg_def intro!: exI [of _ "[]"])

lemma gq_clean_weaken: "gq_clean s vs \<Longrightarrow> gq_fifo s vs" "gq_clean s vs \<Longrightarrow> gq_lifo s vs"
  by (auto elim!: gq_rep_cases intro: gq_repI)

lemma gq_segD:
  assumes "gq_seg h queue a ps b"
  shows "dseg h a ps b" "gq_first_item queue = hd (ps @ [NULL])"
    "gq_last_item queue = last (NULL # ps)" "unat (gq_length queue) = length ps" "distinct ps"
    "dom h = set ps"
proof -
  show "dseg h a ps b" "gq_first_item queue = hd (ps @ [NULL])"
    "gq_last_item queue = last (NULL # ps)" "distinct ps" "dom h = set ps"
    using assms by (auto simp: gq_seg_def)
  have "NULL \<notin> set ps" using assms by (auto simp: gq_seg_def)
  with assms have "length ps < 2 ^ 64"
    using distinct_words_bound [of ps NULL] by (auto simp: gq_seg_def)
  with assms show "unat (gq_length queue) = length ps" by (simp add: gq_seg_def unat_of_nat)
qed

lemma gq_rep_length: "gq_rep A B s vs \<Longrightarrow> unat (generic_queue_length s) = length vs"
  by (erule gq_rep_cases) (simp add: gq_segD)

section \<open>The operations on the weak invariant\<close>

lemma gq_push_rep:
  assumes rep: "gq_rep A B s vs" and "fresh (fst s) p" and "p \<noteq> NULL" and "A NULL"
  shows "\<exists>s'. generic_queue_push p v s = Some s' \<and> gq_rep A is_NULL s' (vs @ [v])"
proof -
  from rep obtain h queue a ps b where s: "s = (h, Some queue)" "gq_seg h queue a ps b" "A a" "B b"
    "vs = vals h ps" by (rule gq_rep_cases)
  note d = gq_segD [OF s(2)]
  have p: "h p = None" "p \<notin> set ps" using assms(2,3) s(1) d(6) by (auto simp: fresh_def)
  show ?thesis
  proof (cases ps rule: rev_cases)
    case Nil
    let ?h = "h(p \<mapsto> \<lparr>item_value = v, item_previous = NULL, item_next = NULL\<rparr>)"
    let ?queue = "queue\<lparr>gq_first_item := p, gq_last_item := p, gq_length := gq_length queue + 1\<rparr>"
    have "generic_queue_push p v s = Some (?h, Some ?queue)"
      using s Nil d(2,3) assms(3) by simp
    moreover have "gq_seg ?h ?queue NULL [p] NULL"
      using s(2) Nil assms(3) by (auto simp: gq_seg_def)
    moreover have "vals ?h [p] = vs @ [v]" using s(5) Nil by simp
    ultimately show ?thesis using s(3) assms(4) by (blast intro: gq_repI)
  next
    case (snoc ps' q)
    from d(1) snoc obtain it where q: "q \<noteq> NULL" "h q = Some it" "p \<noteq> q" "q \<notin> set ps'"
      using p d(5) by (auto simp: dseg_append)
    have ne: "hd (ps @ [NULL]) \<noteq> NULL"
      using d(1) snoc dseg_not_NULL [of h a ps b "hd ps"] by (cases ps') auto
    let ?h = "h(p \<mapsto> \<lparr>item_value = v, item_previous = q, item_next = NULL\<rparr>,
      q \<mapsto> it\<lparr>item_next := p\<rparr>)"
    let ?queue = "queue\<lparr>gq_last_item := p, gq_length := gq_length queue + 1\<rparr>"
    have "generic_queue_push p v s = Some (?h, Some ?queue)"
      using s(1) snoc d(2,3) assms(3) q ne by (simp add: heap_simps)
    moreover have "gq_seg ?h ?queue a (ps @ [p]) NULL"
      using s(2) snoc p q assms(3) by (auto simp: gq_seg_def dseg_append hd_append)
    moreover have "vals ?h (ps @ [p]) = vs @ [v]"
      using s(5) snoc p q by simp
    ultimately show ?thesis using s(3) by (blast intro: gq_repI)
  qed
qed

lemma gq_shift_rep:
  assumes rep: "gq_rep A B s vs" and "fresh (fst s) p" and "p \<noteq> NULL" and "B NULL"
  shows "\<exists>s'. generic_queue_shift p v s = Some s' \<and> gq_rep is_NULL B s' (v # vs)"
proof -
  from rep obtain h queue a ps b where s: "s = (h, Some queue)" "gq_seg h queue a ps b" "A a" "B b"
    "vs = vals h ps" by (rule gq_rep_cases)
  note d = gq_segD [OF s(2)]
  have p: "h p = None" "p \<notin> set ps" using assms(2,3) s(1) d(6) by (auto simp: fresh_def)
  show ?thesis
  proof (cases ps)
    case Nil
    let ?h = "h(p \<mapsto> \<lparr>item_value = v, item_previous = NULL, item_next = NULL\<rparr>)"
    let ?queue = "queue\<lparr>gq_first_item := p, gq_last_item := p, gq_length := gq_length queue + 1\<rparr>"
    have "generic_queue_shift p v s = Some (?h, Some ?queue)"
      using s Nil d(2,3) assms(3) by simp
    moreover have "gq_seg ?h ?queue NULL [p] NULL"
      using s(2) Nil assms(3) by (auto simp: gq_seg_def)
    moreover have "vals ?h [p] = v # vs" using s(5) Nil by simp
    ultimately show ?thesis using s(4) assms(4) by (blast intro: gq_repI)
  next
    case (Cons q ps')
    from d(1) Cons obtain it where q: "q \<noteq> NULL" "h q = Some it" "p \<noteq> q" "q \<notin> set ps'"
      using p d(5) by auto
    have ne: "last ps \<noteq> NULL"
      using d(1) Cons dseg_not_NULL [of h a ps b "last ps"] by auto
    let ?h = "h(p \<mapsto> \<lparr>item_value = v, item_previous = NULL, item_next = q\<rparr>,
      q \<mapsto> it\<lparr>item_previous := p\<rparr>)"
    let ?queue = "queue\<lparr>gq_first_item := p, gq_length := gq_length queue + 1\<rparr>"
    have "generic_queue_shift p v s = Some (?h, Some ?queue)"
      using s(1) Cons d(2,3) assms(3) q ne by (simp add: heap_simps)
    moreover have "gq_seg ?h ?queue NULL (p # ps) b"
      using s(2) Cons p q assms(3) by (auto simp: gq_seg_def)
    moreover have "vals ?h (p # ps) = v # vs"
      using s(5) Cons p q by simp
    ultimately show ?thesis using s(4) by (blast intro: gq_repI)
  qed
qed

lemma gq_pop_at:
  assumes seg: "gq_seg h queue a (qs @ [p]) b"
  shows "\<exists>queue'. generic_queue_pop (h, Some queue) = Some (item_value (the (h p)), (h(p := None), Some queue')) \<and>
    gq_last_item queue' = last (a # qs) \<and> (qs \<noteq> [] \<or> a = NULL \<longrightarrow> gq_seg (h(p := None)) queue' a qs p)"
proof -
  note d = gq_segD [OF seg]
  from d(1) obtain it where p: "p \<noteq> NULL" "h p = Some it" "item_previous it = last (a # qs)"
    by (auto simp: dseg_append)
  have p': "p \<notin> set qs" using d(5) by simp
  let ?queue = "queue\<lparr>gq_last_item := last (a # qs), gq_length := gq_length queue - 1,
    gq_first_item := hd (qs @ [NULL])\<rparr>"
  have len: "gq_length queue - 1 = of_nat (length qs)" "gq_length queue - 1 = 0 \<longleftrightarrow> qs = []"
  proof -
    show "gq_length queue - 1 = of_nat (length qs)" using seg by (simp add: gq_seg_def)
    moreover have "length qs < 2 ^ 64" using distinct_words_bound [of qs p] d(5) by simp
    ultimately show "gq_length queue - 1 = 0 \<longleftrightarrow> qs = []" by (simp add: of_nat_eq_0_small)
  qed
  have "generic_queue_pop (h, Some queue) = Some (item_value it, (h(p := None), Some ?queue))"
    using d(2,3) p len by (cases qs) (auto simp: heap_simps Let_def)
  moreover have "gq_seg (h(p := None)) ?queue a qs p" if "qs \<noteq> [] \<or> a = NULL"
    using seg p p' len that by (auto simp: gq_seg_def dseg_append)
  ultimately show ?thesis using p(2) by (intro exI [of _ ?queue]) simp
qed

lemma gq_pop_rep:
  assumes rep: "gq_lifo s (vs @ [v])"
  shows "\<exists>s'. generic_queue_pop s = Some (v, s') \<and> gq_lifo s' vs"
proof -
  from rep obtain h queue ps b where s: "s = (h, Some queue)" "gq_seg h queue NULL ps b"
    "vs @ [v] = vals h ps" by (elim gq_rep_cases) auto
  then obtain qs p where ps: "ps = qs @ [p]" by (cases ps rule: rev_cases) auto
  have "p \<notin> set qs" using gq_segD(5) [OF s(2)] ps by simp
  then have "vals (h(p := None)) qs = vs" "v = item_value (the (h p))" using s(3) ps by simp_all
  with gq_pop_at [OF s(2) [unfolded ps]] s(1) show ?thesis by (fastforce intro: gq_repI)
qed

lemma gq_unshift_rep:
  assumes rep: "gq_fifo s (v # vs)"
  shows "\<exists>s'. generic_queue_unshift s = Some (v, s') \<and> gq_fifo s' vs"
proof -
  from rep obtain h queue a ps where s: "s = (h, Some queue)" "gq_seg h queue a ps NULL"
    "v # vs = vals h ps" by (elim gq_rep_cases) auto
  then obtain qs p where ps: "ps = p # qs" by (cases ps) auto
  note d = gq_segD [OF s(2)]
  from d(1) ps obtain it where p: "p \<noteq> NULL" "h p = Some it" "item_next it = hd (qs @ [NULL])"
    by auto
  have v: "v = item_value it" "vs = vals h qs" using s(3) ps p by auto
  have p': "p \<notin> set qs" using d(5) ps by simp
  let ?queue = "queue\<lparr>gq_last_item := last (NULL # qs), gq_length := gq_length queue - 1,
    gq_first_item := hd (qs @ [NULL])\<rparr>"
  have len: "gq_length queue - 1 = of_nat (length qs)" "gq_length queue - 1 = 0 \<longleftrightarrow> qs = []"
  proof -
    show "gq_length queue - 1 = of_nat (length qs)" using s(2) ps by (simp add: gq_seg_def)
    moreover have "length qs < 2 ^ 64"
      using distinct_words_bound [of qs p] d(5) ps by simp
    ultimately show "gq_length queue - 1 = 0 \<longleftrightarrow> qs = []" by (simp add: of_nat_eq_0_small)
  qed
  have "generic_queue_unshift s = Some (v, (h(p := None), Some ?queue))"
    using s(1) d(2,3) ps p v len by (cases qs) (auto simp: heap_simps Let_def)
  moreover have "gq_seg (h(p := None)) ?queue p qs NULL"
    using s(2) ps p p' len by (auto simp: gq_seg_def dseg_append)
  moreover have "vals (h(p := None)) qs = vs" using p' v by simp
  ultimately show ?thesis by (blast intro: gq_repI)
qed

lemma gq_peek_rep:
  assumes rep: "gq_rep A B s vs"
  shows "generic_queue_peek s = Some (if vs = [] then NULL else last vs)"
    and "generic_queue_peek_first s = Some (if vs = [] then NULL else hd vs)"
proof -
  from rep obtain h queue a ps b where s: "s = (h, Some queue)" "gq_seg h queue a ps b"
    "vs = vals h ps" by (rule gq_rep_cases)
  note d = gq_segD [OF s(2)]
  have "vs = [] \<longleftrightarrow> ps = []" using s(3) by (cases ps) auto
  moreover have "last ps \<noteq> NULL \<and> hd ps \<noteq> NULL \<and> (\<exists>it. h (last ps) = Some it) \<and>
      (\<exists>it. h (hd ps) = Some it)" if "ps \<noteq> []"
    using dseg_live [OF d(1)] dseg_not_NULL [OF d(1)] hd_in_set [OF that] last_in_set [OF that]
    by blast
  ultimately show "generic_queue_peek s = Some (if vs = [] then NULL else last vs)"
    and "generic_queue_peek_first s = Some (if vs = [] then NULL else hd vs)"
    using s d(2,3) by (auto simp: heap_simps vals_def last_map hd_map)
qed

text \<open>Freeing walks the \<open>next\<close> pointers, so it needs the last one to be \<open>NULL\<close>.\<close>

lemma gq_free_loop_dseg:
  "dseg h a ps NULL \<Longrightarrow> distinct ps \<Longrightarrow>
   gq_free_loop h (hd (ps @ [NULL])) = Some (h |` (- set ps), vals h ps)"
proof (induction ps arbitrary: h a)
  case Nil
  then show ?case by (simp add: gq_free_loop.simps)
next
  case (Cons p ps)
  then obtain it where it: "h p = Some it" "item_next it = hd (ps @ [NULL])" "p \<noteq> NULL"
    and seg: "dseg (h(p := None)) p ps NULL" by auto
  have "(h(p := None)) |` (- set ps) = h |` (- insert p (set ps))"
    by (auto simp: restrict_map_def fun_eq_iff)
  moreover have "gq_free_loop (h(p := None)) (hd (ps @ [NULL])) =
      Some ((h(p := None)) |` (- set ps), vals (h(p := None)) ps)"
    by (rule Cons.IH [OF seg]) (use Cons.prems in simp)
  moreover have "vals (h(p := None)) ps = vals h ps" using Cons.prems by simp
  ultimately show ?case
    using it by (simp only: gq_free_loop.simps [of h p] list.sel append_Cons vals_simps
        load_Some [of p h it, OF it(3,1)] free_item_Some [of p h it, OF it(3,1)] if_False
        Option.bind.simps prod.case option.sel list.set)
qed

lemma gq_free_rep:
  assumes "gq_fifo s vs"
  shows "generic_queue_free free_value s = Some (if free_value then vs else [], (Map.empty, None))"
proof -
  from assms obtain h queue a ps where s: "s = (h, Some queue)" "gq_seg h queue a ps NULL"
    "vs = vals h ps" by (elim gq_rep_cases) auto
  note d = gq_segD [OF s(2)]
  have "h |` (- set ps) = Map.empty" using d(6) by (auto simp: restrict_map_def fun_eq_iff)
  with gq_free_loop_dseg [OF d(1,5)] d(2) s show ?thesis by simp
qed

section \<open>The clean list: removal by value, and iteration\<close>

lemma gq_clean_dlist:
  "gq_seg h queue NULL ps NULL \<longleftrightarrow>
   dlist h ps (gq_first_item queue) (gq_last_item queue) (gq_length queue)"
  by (auto simp: gq_seg_def dlist_def)

lemma gq_remove_rep:
  assumes "gq_clean s vs"
  shows "\<exists>s'. generic_queue_remove v s = Some (if v \<in> set vs then v else NULL, s') \<and>
    gq_clean s' (remove1 v vs)"
proof -
  from assms obtain h queue ps where s: "s = (h, Some queue)" "gq_seg h queue NULL ps NULL"
    "vs = vals h ps" by (elim gq_rep_cases) auto
  note d = gq_segD [OF s(2)]
  from d(1) show ?thesis
  proof (cases rule: search_next_cases [where test = "\<lambda>x. x = v"])
    case none
    then have "v \<notin> set vs" using s(3) by auto
    with none s d(2) show ?thesis by (auto simp: remove1_idem intro: gq_repI)
  next
    case (found as p bs)
    let ?h = "unlinked h as p bs"
    let ?queue = "queue\<lparr>gq_first_item := (if as = [] then hd (bs @ [NULL]) else gq_first_item queue),
      gq_last_item := (if bs = [] then last (NULL # as) else gq_last_item queue),
      gq_length := gq_length queue - 1\<rparr>"
    from s(2) found(3) have dl:
      "dlist h (as @ p # bs) (gq_first_item queue) (gq_last_item queue) (gq_length queue)"
      by (simp add: gq_clean_dlist)
    then have nn: "p \<notin> set as" "p \<notin> set bs" "distinct as" "distinct bs" "set as \<inter> set bs = {}"
      and seg: "dseg h NULL as p" "dseg h p bs NULL" by (auto simp: dlist_def dseg_append)
    from dseg_node(2) [of h NULL as p bs NULL] found(2,5) d(1) found(3)
    have hp: "h p = Some \<lparr>item_value = v, item_previous = last (NULL # as),
      item_next = hd (bs @ [NULL])\<rparr>" by auto
    consider "as = []" "bs = []" | r bs' where "as = []" "bs = r # bs'"
      | as' q where "as = as' @ [q]" "bs = []" | as' q r bs' where "as = as' @ [q]" "bs = r # bs'"
      by (metis rev_exhaust neq_Nil_conv)
    then have "generic_queue_remove v s = Some (v, (?h, Some ?queue))"
      using nn seg hp found(1,2) s(1) d(2)
      by cases (auto simp: unlinked_def Let_def heap_simps dseg_append fun_upd_twist)
    moreover have "gq_seg ?h ?queue NULL (as @ bs) NULL"
      unfolding gq_clean_dlist using dlist_unlinked(1) [OF dl] by simp
    moreover have "vals ?h (as @ bs) = remove1 v vs" "v \<in> set vs"
      using dlist_unlinked(2) [OF dl] s(3) found(3,4) hp by (auto simp: remove1_append)
    ultimately show ?thesis by (auto intro: gq_repI simp del: generic_queue_remove.simps)
  qed
qed

definition gq_iter_at :: "bool \<Rightarrow> ptr list \<Rightarrow> generic_queue_iterator_t option" where
  "gq_iter_at forward bs =
     (if bs = [] then None else Some \<lparr>gqi_item = hd bs, gqi_forward = forward\<rparr>)"

partial_function (option) gq_collect ::
  "heap \<Rightarrow> generic_queue_iterator_t option \<Rightarrow> ptr list option" where
  "gq_collect h iterator =
     (if iterator = None then Some []
      else do {
        v \<leftarrow> generic_queue_iterator_value h iterator;
        iterator \<leftarrow> generic_queue_iterator_next h iterator;
        vs \<leftarrow> gq_collect h iterator;
        Some (v # vs) })"

lemma gq_collect_step:
  "gq_collect h None = Some []"
  "gq_collect h (Some iterator) = do {
     it \<leftarrow> load h (gqi_item iterator);
     iterator' \<leftarrow> generic_queue_iterator_next h (Some iterator);
     vs \<leftarrow> gq_collect h iterator';
     Some (item_value it # vs) }"
  by (simp_all add: gq_collect.simps [of h None] gq_collect.simps [of h "Some iterator"])

text \<open>Iteration reads only the pointers in its own direction, so one clean end is enough.\<close>

lemma gq_collect_forward:
  "dseg h a ps NULL \<Longrightarrow> gq_collect h (gq_iter_at True ps) = Some (vals h ps)"
proof (induction ps arbitrary: a)
  case Nil
  then show ?case by (simp add: gq_collect.simps gq_iter_at_def)
next
  case (Cons p ps)
  then obtain it where it: "h p = Some it" "item_next it = hd (ps @ [NULL])" "p \<noteq> NULL"
    and seg: "dseg h p ps NULL" by auto
  from seg have "ps \<noteq> [] \<Longrightarrow> hd ps \<noteq> NULL" by (cases ps) auto
  with Cons.IH [OF seg] it show ?case
    by (cases "ps = []")
      (simp_all add: gq_collect_step gq_iter_at_def load_def hd_append)
qed

lemma gq_collect_backward:
  "dseg h NULL ps b \<Longrightarrow> gq_collect h (gq_iter_at False (rev ps)) = Some (vals h (rev ps))"
proof (induction ps arbitrary: b rule: rev_induct)
  case Nil
  then show ?case by (simp add: gq_collect.simps gq_iter_at_def)
next
  case (snoc p ps)
  from snoc.prems obtain it where it: "h p = Some it" "item_previous it = last (NULL # ps)"
    "p \<noteq> NULL" and seg: "dseg h NULL ps p" by (auto simp: dseg_append)
  from seg have "ps \<noteq> [] \<Longrightarrow> last ps \<noteq> NULL" by (cases ps rule: rev_cases) (auto simp: dseg_append)
  with snoc.IH [OF seg] it show ?case
    by (cases "ps = []")
      (simp_all add: gq_collect_step gq_iter_at_def load_def hd_rev)
qed

lemma gq_iterator_rep:
  assumes "gq_rep A B s vs" and "if forward then B = is_NULL else A = is_NULL"
  shows "gq_collect (fst s) (generic_queue_iterator True forward s) =
    Some (if forward then vs else rev vs)"
proof -
  from assms(1) obtain h queue a ps b where s: "s = (h, Some queue)" "gq_seg h queue a ps b"
    "A a" "B b" "vs = vals h ps" by (rule gq_rep_cases)
  note d = gq_segD [OF s(2)]
  have "ps \<noteq> [] \<Longrightarrow> hd ps \<noteq> NULL" using d(1) by (cases ps) auto
  then have "generic_queue_iterator True forward s =
      gq_iter_at forward (if forward then ps else rev ps)"
    using s(1) d(2,3) by (cases "ps = []") (auto simp: gq_iter_at_def hd_rev)
  with assms(2) s d(1) gq_collect_forward [of h a ps] gq_collect_backward [of h ps b]
  show ?thesis by (auto simp: vals_def rev_map split: if_splits)
qed

lemma gq_iterator_remove_here:
  assumes seg: "gq_seg h queue NULL (as @ p # bs) NULL"
  shows "\<exists>queue'. gq_iterator_remove_loop \<lparr>gqi_item = p, gqi_forward = forward\<rparr> h queue p =
      Some (gq_iter_at forward (if forward then bs else rev as), (unlinked h as p bs, Some queue')) \<and>
    gq_seg (unlinked h as p bs) queue' NULL (as @ bs) NULL \<and>
    vals (unlinked h as p bs) (as @ bs) = vals h as @ vals h bs"
proof -
  let ?h = "unlinked h as p bs"
  let ?queue = "queue\<lparr>gq_first_item := (if as = [] then hd (bs @ [NULL]) else gq_first_item queue),
    gq_last_item := (if bs = [] then last (NULL # as) else gq_last_item queue),
    gq_length := gq_length queue - 1\<rparr>"
  from seg have dl: "dlist h (as @ p # bs) (gq_first_item queue) (gq_last_item queue) (gq_length queue)"
    by (simp add: gq_clean_dlist)
  then have nn: "p \<notin> set as" "p \<notin> set bs" "distinct as" "distinct bs" "set as \<inter> set bs = {}"
    and sg: "dseg h NULL as p" "dseg h p bs NULL"
    and ends: "gq_first_item queue = hd (as @ p # bs)" "gq_last_item queue = last (as @ p # bs)"
    by (auto simp: dlist_def dseg_append hd_append)
  from seg have "dseg h NULL (as @ p # bs) NULL" by (simp add: gq_seg_def)
  from dseg_node [OF this] obtain v where hp: "p \<noteq> NULL"
    "h p = Some \<lparr>item_value = v, item_previous = last (NULL # as), item_next = hd (bs @ [NULL])\<rparr>"
    by blast
  consider "as = []" "bs = []" | r bs' where "as = []" "bs = r # bs'"
    | as' q where "as = as' @ [q]" "bs = []" | as' q r bs' where "as = as' @ [q]" "bs = r # bs'"
    by (metis rev_exhaust neq_Nil_conv)
  then have "gq_iterator_remove_loop \<lparr>gqi_item = p, gqi_forward = forward\<rparr> h queue p =
      Some (gq_iter_at forward (if forward then bs else rev as), (?h, Some ?queue))"
  proof cases
    case 1
    with nn sg hp ends show ?thesis
      by (subst gq_iterator_remove_loop.simps)
        (auto simp: unlinked_def Let_def heap_simps gq_iter_at_def)
  next
    case 2
    with nn(2) have "p \<noteq> last bs" "p \<noteq> r" by (auto dest: last_in_set)
    with 2 nn sg hp ends show ?thesis
      by (subst gq_iterator_remove_loop.simps)
        (auto simp: unlinked_def Let_def heap_simps gq_iter_at_def fun_upd_twist)
  next
    case 3
    with nn(1) have "p \<noteq> hd (as' @ [q, p])" "p \<noteq> q" by (cases as'; auto)+
    with 3 nn sg hp ends show ?thesis
      by (subst gq_iterator_remove_loop.simps)
        (auto simp: unlinked_def Let_def heap_simps gq_iter_at_def dseg_append fun_upd_twist)
  next
    case 4
    with nn(1,2) have "p \<noteq> hd (as' @ q # p # bs)" "p \<noteq> last bs" "p \<noteq> q" "p \<noteq> r"
      by (cases as'; auto dest: last_in_set)+
    with 4 nn sg hp ends show ?thesis
      by (subst gq_iterator_remove_loop.simps)
        (auto simp: unlinked_def Let_def heap_simps gq_iter_at_def dseg_append fun_upd_twist)
  qed
  moreover have "gq_seg ?h ?queue NULL (as @ bs) NULL"
    unfolding gq_clean_dlist using dlist_unlinked(1) [OF dl] by simp
  ultimately show ?thesis using dlist_unlinked(2) [OF dl] by blast
qed

lemma gq_iterator_remove_walk_forward:
  assumes "gqi_forward iterator" and "gqi_item iterator = p"
  shows "dseg h a (ws @ p # bs) b \<Longrightarrow> p \<notin> set ws \<Longrightarrow>
    gq_iterator_remove_loop iterator h queue (hd (ws @ [p])) =
    gq_iterator_remove_loop iterator h queue p"
proof (induction ws arbitrary: a)
  case Nil
  then show ?case by simp
next
  case (Cons w ws)
  then obtain it where it: "h w = Some it" "item_next it = hd (ws @ [p])" "w \<noteq> NULL"
    and seg: "dseg h w (ws @ p # bs) b" by (cases ws) auto
  with Cons.IH [OF seg] Cons.prems assms show ?case
    by (simp add: gq_iterator_remove_loop.simps [of iterator h queue w] heap_simps)
qed

lemma gq_iterator_remove_walk_backward:
  assumes "\<not> gqi_forward iterator" and "gqi_item iterator = p"
  shows "dseg h a (as @ p # ws) b \<Longrightarrow> p \<notin> set ws \<Longrightarrow>
    gq_iterator_remove_loop iterator h queue (last (p # ws)) =
    gq_iterator_remove_loop iterator h queue p"
proof (induction ws arbitrary: b rule: rev_induct)
  case Nil
  then show ?case by simp
next
  case (snoc w ws)
  from snoc.prems have seg: "dseg h a (as @ p # ws) w"
    and "dseg h (last (p # ws)) [w] b"
    using dseg_append [of h a "as @ p # ws" "[w]" b] by simp_all
  then obtain it where it: "h w = Some it" "item_previous it = last (p # ws)" "w \<noteq> NULL" by auto
  with snoc.IH [OF seg] snoc.prems assms show ?case
    by (simp add: gq_iterator_remove_loop.simps [of iterator h queue w] heap_simps)
qed

lemma gq_iterator_remove_rep:
  assumes seg: "gq_seg h queue NULL (as @ p # bs) NULL"
  shows "\<exists>h' queue'. generic_queue_iterator_remove
        (Some \<lparr>gqi_item = p, gqi_forward = forward\<rparr>) (h, Some queue) =
      Some (gq_iter_at forward (if forward then bs else rev as), (h', Some queue')) \<and>
    gq_seg h' queue' NULL (as @ bs) NULL \<and> vals h' (as @ bs) = vals h as @ vals h bs"
proof -
  note d = gq_segD [OF seg]
  have "generic_queue_iterator_remove (Some \<lparr>gqi_item = p, gqi_forward = forward\<rparr>) (h, Some queue) =
    gq_iterator_remove_loop \<lparr>gqi_item = p, gqi_forward = forward\<rparr> h queue p"
  proof (cases forward)
    case True
    have "hd (as @ p # bs @ [NULL]) = hd (as @ [p])" by (cases as) auto
    with True d gq_iterator_remove_walk_forward [of "\<lparr>gqi_item = p, gqi_forward = True\<rparr>" p h NULL as bs NULL]
    show ?thesis by simp
  next
    case False
    with d gq_iterator_remove_walk_backward [of "\<lparr>gqi_item = p, gqi_forward = False\<rparr>" p h NULL as bs NULL]
    show ?thesis by simp
  qed
  with gq_iterator_remove_here [OF seg, of forward] show ?thesis by metis
qed

section \<open>The two documented uses as contracts\<close>

text \<open>
  \<open>generic_queue_push\<close> with \<open>generic_queue_unshift\<close> is a queue, and with
  \<open>generic_queue_pop\<close> a stack; the allocation outcome is the pointer \<open>malloc\<close> returned.
\<close>

definition gq_ok :: "ptr \<Rightarrow> gq_state \<Rightarrow> bool" where
  "gq_ok p s \<longleftrightarrow> fresh (fst s) p"

definition not_NULL :: "ptr \<Rightarrow> bool" where
  "not_NULL p \<longleftrightarrow> p \<noteq> NULL"

lemma gq_push_contract:
  assumes "gq_rep A B s vs" and "gq_ok p s" and "A NULL" and "B NULL"
  shows "\<exists>s'. generic_queue_push p v s = Some s' \<and>
    gq_rep A B s' (if not_NULL p then vs @ [v] else vs)"
proof (cases "p = NULL")
  case True
  with assms show ?thesis
    by (elim gq_rep_cases) (auto simp: not_NULL_def intro: gq_repI)
next
  case False
  with gq_push_rep [of A B s vs p v] assms obtain s' where s': "generic_queue_push p v s = Some s'"
    "gq_rep A is_NULL s' (vs @ [v])" by (auto simp: gq_ok_def)
  from s'(2) have "gq_rep A B s' (vs @ [v])"
    by (elim gq_rep_cases) (use assms(4) in \<open>auto intro: gq_repI\<close>)
  with s' False show ?thesis by (auto simp: not_NULL_def)
qed

interpretation gq_queue: total_queue_store gq_fifo gq_ok not_NULL generic_queue_push generic_queue_unshift NULL
proof unfold_locales
  show "\<exists>s'. generic_queue_push p v s = Some s' \<and> gq_fifo s' (if not_NULL p then vs @ [v] else vs)"
    if "gq_fifo s vs" and "gq_ok p s" for s vs p v
    using that by (intro gq_push_contract) simp_all
  show "generic_queue_unshift s = Some (NULL, s)" if "gq_fifo s []" for s
  proof -
    from that obtain h queue a ps b where "s = (h, Some queue)" "gq_seg h queue a ps b" "ps = []"
      by (elim gq_rep_cases) (auto simp: vals_def)
    then show ?thesis by (simp add: gq_seg_def)
  qed
qed (rule gq_unshift_rep)

interpretation gq_stack: stack_store gq_lifo gq_ok not_NULL generic_queue_push generic_queue_pop
proof unfold_locales
  show "\<exists>s'. generic_queue_push p v s = Some s' \<and> gq_lifo s' (if not_NULL p then vs @ [v] else vs)"
    if "gq_lifo s vs" and "gq_ok p s" for s vs p v
    using that by (intro gq_push_contract) simp_all
qed (rule gq_pop_rep)

section \<open>Mixing the two ends\<close>




section \<open>Properties\<close>

text \<open>
  C20. (first in, first out): used through \<open>generic_queue_push\<close> and \<open>generic_queue_unshift\<close>, in
  any interleaving, also on an empty queue, and with any allocation failures, the queue never faults.
  Every \<open>generic_queue_unshift\<close> returns the oldest value, or \<open>NULL\<close> when there is none, and what comes
  out followed by what remains is exactly what was in it followed by what was accepted.
\<close>

theorem generic_queue_fifo:
  assumes "gq_fifo s vs"
    and "env_ok gq_ok generic_queue_push generic_queue_unshift s ops"
  shows "let (outs, rest) = queue_answers not_NULL vs ops
    in (\<exists>s'. client_run generic_queue_push generic_queue_unshift s ops = Some (map (case_option NULL id) outs, s') \<and>
         gq_fifo s' rest) \<and>
       answered outs @ rest = vs @ accepted not_NULL ops"
proof -
  obtain outs rest where spec: "queue_answers not_NULL vs ops = (outs, rest)" by fastforce
  from gq_queue.run_answers [OF assms spec] queue_answers_fifo [OF spec] show ?thesis by (simp add: spec)
qed

theorem generic_queue_fifo_witness:
  "\<exists>s'. client_run generic_queue_push generic_queue_unshift
      (Map.empty, generic_queue_new True) [Get, Put 1 10, Put 2 20, Get, Put NULL 30, Get, Get] =
    Some ([NULL, 10, 20, NULL], s') \<and> gq_fifo s' []"
proof -
  have "env_ok gq_ok generic_queue_push generic_queue_unshift (Map.empty, generic_queue_new True)
      [Get, Put 1 10, Put 2 20, Get, Put NULL 30, Get, Get]"
    by (simp add: generic_queue_new_def gq_ok_def fresh_def load_def store_next_def free_item_def
        Let_def)
  from generic_queue_fifo [OF gq_clean_weaken(1) [OF gq_rep_new] this] show ?thesis
    by (simp add: not_NULL_def)
qed

text \<open>
  Last in, first out: used through \<open>generic_queue_push\<close> and \<open>generic_queue_pop\<close>, the queue
  never faults and behaves as a stack.
\<close>

theorem generic_queue_lifo:
  assumes "gq_lifo s vs"
    and "env_ok gq_ok generic_queue_push generic_queue_pop s ops"
    and "stack_spec not_NULL vs ops = Some (outs, rest)"
  shows "\<exists>s'. client_run generic_queue_push generic_queue_pop s ops = Some (outs, s') \<and>
    gq_lifo s' rest"
  using assms by (rule gq_stack.run_lifo)

theorem generic_queue_lifo_witness:
  "\<exists>s'. client_run generic_queue_push generic_queue_pop (Map.empty, generic_queue_new True)
      [Put 1 10, Put 2 20, Get, Put 2 30, Get, Get] = Some ([20, 30, 10], s') \<and> gq_lifo s' []"
proof -
  have "env_ok gq_ok generic_queue_push generic_queue_pop (Map.empty, generic_queue_new True)
      [Put 1 10, Put 2 20, Get, Put 2 30, Get, Get]"
    by (simp add: generic_queue_new_def gq_ok_def fresh_def load_def store_next_def free_item_def
        Let_def)
  moreover have "stack_spec not_NULL [] [Put 1 10, Put 2 20, Get, Put 2 30, Get, Get] =
      Some ([20, 30, 10], [])"
    by (simp add: not_NULL_def)
  ultimately show ?thesis
    by (rule generic_queue_lifo [OF gq_clean_weaken(2) [OF gq_rep_new]])
qed



text \<open>
  The other end: after \<open>generic_queue_unshift\<close>, popping every value that is left makes the \<open>previous\<close> of
  the first node, which leads to the freed block, the last item of an empty queue, and
  \<open>generic_queue_peek\<close> reads through it.
\<close>

lemma generic_queue_peek_after_drain:
  assumes "gq_seg h queue a [p] NULL" and "a \<noteq> NULL" and "h a = None"
  shows "\<exists>s'. generic_queue_pop (h, Some queue) = Some (item_value (the (h p)), s') \<and> generic_queue_peek s' = None"
  using gq_pop_at [of h queue a "[]" p NULL] assms by (auto simp: load_def)

text \<open>
  Removing by value from a queue whose ends are clean never faults, removes the first
  occurrence only, and leaves a clean queue.
\<close>

theorem generic_queue_remove_removes:
  assumes "gq_clean s vs"
  shows "\<exists>s'. generic_queue_remove v s = Some (if v \<in> set vs then v else NULL, s') \<and>
    gq_clean s' (remove1 v vs)"
  using assms by (rule gq_remove_rep)

theorem generic_queue_remove_removes_witness:
  "\<exists>s s'. generic_queue_push 1 10 (Map.empty, generic_queue_new True) = Some s \<and>
    generic_queue_remove 10 s = Some (10, s') \<and> gq_clean s' []"
proof -
  obtain s where "generic_queue_push 1 10 (Map.empty, generic_queue_new True) = Some s"
    "gq_clean s [10]"
    using gq_push_rep [OF gq_rep_new, of 1 10] by (auto simp: fresh_def)
  with generic_queue_remove_removes [OF this(2), of 10] show ?thesis by auto
qed

end
