(* ===== verification/FifoBuffer.thy ===== *)
theory FifoBuffer
  imports Contracts
begin

text \<open>
  \<open>queues/fifo_queue.c\<close> and the inline functions of \<open>include/queues/fifo_queue.h\<close>: a ring buffer
  of bytes. All indices are 64-bit words, as in the code, and the arithmetic on them is the
  word arithmetic of the C expressions, so its wrap-around is part of the model. One byte of
  the ring is never used, so that \<open>first = end\<close> always means empty.
\<close>

section \<open>State and operations\<close>

record fifo_buffer =
  fifo_mem :: "byte list"
  fifo_size :: size_t
  fifo_first :: size_t
  fifo_end :: size_t

text \<open>\<open>calloc_ok\<close> is whether \<open>calloc\<close> succeeds; a \<open>NULL\<close> buffer argument is \<open>None\<close>.\<close>

definition fifo_initialize_internal :: "bool \<Rightarrow> size_t \<Rightarrow> fifo_buffer option" where
  "fifo_initialize_internal calloc_ok len =
     (if len = - 1 then None
      else if \<not> calloc_ok then None
      else Some \<lparr>fifo_mem = replicate (unat (len + 1)) 0, fifo_size = len + 1,
                 fifo_first = 0, fifo_end = 0\<rparr>)"

text \<open>\<open>fifo_initialize\<close> leaves the caller's buffer as it was when it fails.\<close>

fun fifo_initialize :: "bool \<Rightarrow> fifo_buffer option \<Rightarrow> size_t \<Rightarrow> bool \<times> fifo_buffer option" where
  "fifo_initialize calloc_ok None len = (False, None)"
| "fifo_initialize calloc_ok (Some buf) len =
     (case fifo_initialize_internal calloc_ok len of
        None \<Rightarrow> (False, Some buf)
      | Some buf' \<Rightarrow> (True, Some buf'))"

definition fifo_new :: "bool \<Rightarrow> bool \<Rightarrow> size_t \<Rightarrow> fifo_buffer option" where
  "fifo_new malloc_ok calloc_ok len =
     (if \<not> malloc_ok then None else fifo_initialize_internal calloc_ok len)"

definition fifo_free :: "fifo_buffer option \<Rightarrow> fifo_buffer option" where
  "fifo_free buffer = None"

fun fifo_deinitialize :: "fifo_buffer option \<Rightarrow> bool \<times> fifo_buffer option" where
  "fifo_deinitialize None = (False, None)"
| "fifo_deinitialize (Some buffer) =
     (True, Some (buffer\<lparr>fifo_mem := [], fifo_size := 0, fifo_first := 0, fifo_end := 0\<rparr>))"

definition fifo_clear :: "fifo_buffer \<Rightarrow> fifo_buffer" where
  "fifo_clear buffer = buffer\<lparr>fifo_first := 0, fifo_end := 0\<rparr>"

definition fifo_read_avail_of :: "fifo_buffer \<Rightarrow> size_t" where
  "fifo_read_avail_of buffer =
     (let first = fifo_first buffer; end' = fifo_end buffer
      in if end' < first then end' + fifo_size buffer - first else end' - first)"

definition fifo_write_avail_of :: "fifo_buffer \<Rightarrow> size_t" where
  "fifo_write_avail_of buffer = (fifo_size buffer - 1) - fifo_read_avail_of buffer"

text \<open>
  The unchecked copies. \<open>in_buf\<close> is the memory at the caller's pointer; reading it beyond its
  end, or leaving the ring's memory, faults.
\<close>

definition fifo_write :: "fifo_buffer \<Rightarrow> byte list \<Rightarrow> size_t \<Rightarrow> fifo_buffer option" where
  "fifo_write buffer in_buf len = do {
     let tail = fifo_size buffer - fifo_end buffer;
     let (first_write, rest_write) = (if len > tail then (tail, len - tail) else (len, 0));
     bs \<leftarrow> mem_read in_buf 0 (unat first_write);
     mem \<leftarrow> mem_write (fifo_mem buffer) (unat (fifo_end buffer)) bs;
     mem \<leftarrow> (if rest_write > 0
            then do { bs \<leftarrow> mem_read in_buf (unat first_write) (unat rest_write);
                      mem_write mem 0 bs }
            else Some mem);
     let new_end = fifo_end buffer + len;
     Some (buffer\<lparr>fifo_mem := mem,
       fifo_end := (if new_end \<ge> fifo_size buffer then new_end - fifo_size buffer else new_end)\<rparr>) }"

definition fifo_read :: "fifo_buffer \<Rightarrow> size_t \<Rightarrow> (byte list \<times> fifo_buffer) option" where
  "fifo_read buffer len = do {
     let tail = fifo_size buffer - fifo_first buffer;
     let (first_read, rest_read) = (if len > tail then (tail, len - tail) else (len, 0));
     out \<leftarrow> mem_read (fifo_mem buffer) (unat (fifo_first buffer)) (unat first_read);
     out' \<leftarrow> (if rest_read > 0 then mem_read (fifo_mem buffer) 0 (unat rest_read) else Some []);
     let new_first = fifo_first buffer + len;
     Some (out @ out', buffer\<lparr>fifo_first :=
       (if new_first \<ge> fifo_size buffer then new_first - fifo_size buffer else new_first)\<rparr>) }"

definition fifo_write_checked :: "fifo_buffer \<Rightarrow> byte list \<Rightarrow> size_t \<Rightarrow> (size_t \<times> fifo_buffer) option" where
  "fifo_write_checked buffer in_buf len = do {
     let avail = fifo_write_avail_of buffer;
     let len = (if len > avail then avail else len);
     buffer \<leftarrow> (if len \<noteq> 0 then fifo_write buffer in_buf len else Some buffer);
     Some (len, buffer) }"

definition fifo_read_checked ::
  "fifo_buffer \<Rightarrow> size_t \<Rightarrow> (size_t \<times> byte list \<times> fifo_buffer) option" where
  "fifo_read_checked buffer len = do {
     let avail = fifo_read_avail_of buffer;
     let len = (if len > avail then avail else len);
     (out, buffer) \<leftarrow> (if len \<noteq> 0 then fifo_read buffer len else Some ([], buffer));
     Some (len, out, buffer) }"

section \<open>Rings of values\<close>

text \<open>
  \<open>ring_get mem f c\<close> are the \<open>c\<close> elements from index \<open>f\<close> on, wrapping at the end;
  \<open>ring_put mem e xs\<close> overwrites from index \<open>e\<close> on, wrapping at the end.
\<close>

definition ring_get :: "'a list \<Rightarrow> nat \<Rightarrow> nat \<Rightarrow> 'a list" where
  "ring_get mem f c = take c (drop f mem @ take f mem)"

definition ring_put :: "'a list \<Rightarrow> nat \<Rightarrow> 'a list \<Rightarrow> 'a list" where
  "ring_put mem e xs =
     (let t = length mem - e
      in if length xs > t
         then drop t xs @ drop (length xs - t) (take e mem) @ take t xs
         else take e mem @ xs @ drop (e + length xs) mem)"

lemma ring_get_length: "c \<le> length mem \<Longrightarrow> length (ring_get mem f c) = c"
  by (simp add: ring_get_def)

lemma ring_get_nth:
  "f < length mem \<Longrightarrow> c \<le> length mem \<Longrightarrow> i < c \<Longrightarrow>
   ring_get mem f c ! i = mem ! (if f + i < length mem then f + i else f + i - length mem)"
  by (auto simp: ring_get_def nth_append add.commute)

lemma ring_put_length: "e < length mem \<Longrightarrow> length xs \<le> length mem \<Longrightarrow>
  length (ring_put mem e xs) = length mem"
  by (auto simp: ring_put_def Let_def)

lemma ring_put_nth:
  assumes "e < length mem" and "length xs \<le> length mem" and "j < length mem"
  shows "ring_put mem e xs ! j =
    (if e \<le> j \<and> j - e < length xs then xs ! (j - e)
     else if j < e \<and> j + length mem - e < length xs then xs ! (j + length mem - e)
     else mem ! j)"
  using assms by (auto simp: ring_put_def Let_def nth_append add.commute)

text \<open>The two copies of the code: up to the end of the memory, then the rest from its start.\<close>

lemma ring_put_two_copies:
  assumes "e < length mem" and "length mem - e < n" and "n \<le> length mem" and "n \<le> length src"
  shows "do { m \<leftarrow> mem_write mem e (take (length mem - e) src);
      mem_write m 0 (take (n - (length mem - e)) (drop (length mem - e) src)) } =
    Some (ring_put mem e (take n src))"
proof -
  have len: "length (take (length mem - e) src) = length mem - e"
    "length (take (n - (length mem - e)) (drop (length mem - e) src)) = n - (length mem - e)"
    using assms by simp_all
  have "mem_write mem e (take (length mem - e) src) =
      Some (take e mem @ take (length mem - e) src)"
    using assms len by (simp add: mem_write_def)
  moreover have "mem_write (take e mem @ take (length mem - e) src) 0
      (take (n - (length mem - e)) (drop (length mem - e) src)) =
    Some (ring_put mem e (take n src))"
    using assms len by (simp add: mem_write_def ring_put_def Let_def drop_take min_def)
  ultimately show ?thesis by simp
qed

lemma ring_get_put:
  assumes "f < length mem" and "c + length xs \<le> length mem"
    and e: "e = (if f + c < length mem then f + c else f + c - length mem)" and "e < length mem"
  shows "ring_get (ring_put mem e xs) f (c + length xs) = ring_get mem f c @ xs"
proof (rule nth_equalityI)
  show "length (ring_get (ring_put mem e xs) f (c + length xs)) = length (ring_get mem f c @ xs)"
    using assms by (simp add: ring_get_length ring_put_length)
next
  fix i assume "i < length (ring_get (ring_put mem e xs) f (c + length xs))"
  with assms have i: "i < c + length xs" by (simp add: ring_get_length ring_put_length)
  define j where "j = (if f + i < length mem then f + i else f + i - length mem)"
  have j: "j < length mem" using i assms(1,2) by (auto simp: j_def)
  have "ring_get (ring_put mem e xs) f (c + length xs) ! i = ring_put mem e xs ! j"
    using assms i by (simp add: ring_get_nth ring_put_length j_def)
  also have "\<dots> = (if i < c then mem ! j else xs ! (i - c))"
  proof (cases "i < c")
    case True
    then have "\<not> (e \<le> j \<and> j - e < length xs)" "\<not> (j < e \<and> j + length mem - e < length xs)"
      using assms(1,2) e by (auto simp: j_def split: if_splits)
    with True j assms(2,4) show ?thesis by (subst ring_put_nth) auto
  next
    case False
    then have "(e \<le> j \<and> j - e = i - c) \<or> (j < e \<and> j + length mem - e = i - c)"
      using assms(1,2) e i by (auto simp: j_def split: if_splits)
    with False i j assms(2,4) show ?thesis by (auto simp: ring_put_nth)
  qed
  also have "\<dots> = (ring_get mem f c @ xs) ! i"
    using i assms(1,2) by (auto simp: nth_append ring_get_length ring_get_nth j_def)
  finally show "ring_get (ring_put mem e xs) f (c + length xs) ! i = (ring_get mem f c @ xs) ! i" .
qed

lemma ring_get_split:
  assumes "f < length mem" and "n \<le> c" and "c \<le> length mem"
  shows "ring_get mem f c =
    ring_get mem f n @
    ring_get mem (if f + n < length mem then f + n else f + n - length mem) (c - n)"
  (is "?l = ?r")
proof (rule nth_equalityI)
  show "length ?l = length ?r" using assms by (simp add: ring_get_length)
next
  fix i assume "i < length ?l"
  with assms show "?l ! i = ?r ! i"
    by (auto simp: ring_get_length nth_append ring_get_nth split: if_splits)
qed

section \<open>The bytes in the ring\<close>

text \<open>
  \<open>fifo_inv\<close>: the size is the length of the memory, both indices are inside it, and the memory
  is no larger than half of the address space, as every C object is (\<open>PTRDIFF_MAX\<close>): without
  that bound \<open>end + len\<close> could wrap. \<open>fifo_bytes\<close>: the contents, oldest byte first.
\<close>

definition fifo_inv :: "fifo_buffer \<Rightarrow> bool" where
  "fifo_inv b \<longleftrightarrow> unat (fifo_size b) = length (fifo_mem b) \<and> length (fifo_mem b) \<le> 2 ^ 63 \<and>
     fifo_first b < fifo_size b \<and> fifo_end b < fifo_size b"

definition fifo_count :: "fifo_buffer \<Rightarrow> nat" where
  "fifo_count b =
     (if fifo_end b < fifo_first b
      then unat (fifo_end b) + unat (fifo_size b) - unat (fifo_first b)
      else unat (fifo_end b) - unat (fifo_first b))"

definition fifo_bytes :: "fifo_buffer \<Rightarrow> byte list" where
  "fifo_bytes b = ring_get (fifo_mem b) (unat (fifo_first b)) (fifo_count b)"

lemma fifo_invD:
  assumes "fifo_inv b"
  shows "unat (fifo_size b) = length (fifo_mem b)" "unat (fifo_first b) < length (fifo_mem b)"
    "unat (fifo_end b) < length (fifo_mem b)" "length (fifo_mem b) \<le> 2 ^ 63"
  using assms by (auto simp: fifo_inv_def word_less_nat_alt)

lemma fifo_count_less: "fifo_inv b \<Longrightarrow> fifo_count b < length (fifo_mem b)"
  using fifo_invD [of b] by (auto simp: fifo_count_def word_less_nat_alt)

lemma fifo_bytes_length: "fifo_inv b \<Longrightarrow> length (fifo_bytes b) = fifo_count b"
  using fifo_count_less [of b] by (simp add: fifo_bytes_def ring_get_length)

lemma fifo_read_avail_unat: "fifo_inv b \<Longrightarrow> unat (fifo_read_avail_of b) = fifo_count b"
proof -
  assume inv: "fifo_inv b"
  note d = fifo_invD [OF this]
  show ?thesis
  proof (cases "fifo_end b < fifo_first b")
    case True
    then have lt: "unat (fifo_end b) < unat (fifo_first b)" by (simp add: word_less_nat_alt)
    have eq: "fifo_end b + fifo_size b - fifo_first b = fifo_size b - (fifo_first b - fifo_end b)"
      by (simp add: algebra_simps)
    have diff: "unat (fifo_first b - fifo_end b) = unat (fifo_first b) - unat (fifo_end b)"
      using True by (simp add: unat_sub)
    have le: "fifo_first b - fifo_end b \<le> fifo_size b"
      using diff d by (simp add: word_le_nat_alt)
    have "unat (fifo_read_avail_of b) = unat (fifo_size b - (fifo_first b - fifo_end b))"
      by (simp only: fifo_read_avail_of_def Let_def True if_True eq)
    also have "\<dots> = unat (fifo_size b) - (unat (fifo_first b) - unat (fifo_end b))"
      using unat_sub [OF le] diff by simp
    finally show ?thesis using True lt d by (simp add: fifo_count_def)
  next
    case False
    then show ?thesis by (simp add: fifo_read_avail_of_def fifo_count_def unat_sub)
  qed
qed

lemma fifo_write_avail_unat:
  "fifo_inv b \<Longrightarrow> unat (fifo_write_avail_of b) = length (fifo_mem b) - 1 - fifo_count b"
proof -
  assume inv: "fifo_inv b"
  note d = fifo_invD [OF this]
  have "fifo_size b \<noteq> 0" using d by auto
  then have "unat (fifo_size b - 1) = length (fifo_mem b) - 1"
    using d by (simp add: unat_sub word_le_nat_alt)
  moreover have "fifo_read_avail_of b \<le> fifo_size b - 1"
    using calculation fifo_count_less [OF inv] by (simp add: word_le_nat_alt fifo_read_avail_unat inv)
  ultimately show ?thesis
    by (simp add: fifo_write_avail_of_def unat_sub fifo_read_avail_unat inv)
qed

section \<open>Writing and reading\<close>

text \<open>The index arithmetic of both copies: one compare and one subtraction wrap the index.\<close>

lemma ring_advance:
  fixes i n len :: size_t
  assumes "i < n" and "len < n" and "unat n \<le> 2 ^ 63"
  shows "unat (if i + len \<ge> n then i + len - n else i + len) =
    (if unat i + unat len < unat n then unat i + unat len else unat i + unat len - unat n)"
    and "(if i + len \<ge> n then i + len - n else i + len) < n"
proof -
  from assms have *: "unat i < unat n" "unat len < unat n" by (simp_all add: word_less_nat_alt)
  with assms(3) have sum: "unat (i + len) = unat i + unat len" by (simp add: unat_word_ariths)
  then have ge: "i + len \<ge> n \<longleftrightarrow> \<not> unat i + unat len < unat n" by (simp add: word_le_nat_alt not_less)
  show eq: "unat (if i + len \<ge> n then i + len - n else i + len) =
    (if unat i + unat len < unat n then unat i + unat len else unat i + unat len - unat n)"
    using ge sum by (simp add: unat_sub)
  show "(if i + len \<ge> n then i + len - n else i + len) < n"
    unfolding word_less_nat_alt eq using * by auto
qed

text \<open>The wrapped end index is where \<open>ring_get\<close> of the contents stops.\<close>

lemma fifo_end_position:
  assumes "fifo_inv b"
  shows "unat (fifo_end b) =
    (if unat (fifo_first b) + fifo_count b < length (fifo_mem b)
     then unat (fifo_first b) + fifo_count b
     else unat (fifo_first b) + fifo_count b - length (fifo_mem b))"
  using fifo_invD [OF assms] by (auto simp: fifo_count_def word_less_nat_alt)

lemma fifo_count_eq:
  assumes "unat (fifo_first b) < L" "c < L" "unat (fifo_size b) = L"
    and "unat (fifo_end b) = (if unat (fifo_first b) + c < L then unat (fifo_first b) + c
      else unat (fifo_first b) + c - L)"
  shows "fifo_count b = c"
  using assms by (auto simp: fifo_count_def word_less_nat_alt)

lemma fifo_write_eq:
  assumes inv: "fifo_inv b" and len: "unat len \<le> length (fifo_mem b)" "unat len \<le> length in_buf"
  shows "fifo_write b in_buf len = Some (b\<lparr>
    fifo_mem := ring_put (fifo_mem b) (unat (fifo_end b)) (take (unat len) in_buf),
    fifo_end := (if fifo_end b + len \<ge> fifo_size b then fifo_end b + len - fifo_size b
                 else fifo_end b + len)\<rparr>)"
proof -
  note d = fifo_invD [OF inv]
  let ?t = "fifo_size b - fifo_end b"
  have tail: "unat ?t = length (fifo_mem b) - unat (fifo_end b)"
    using d by (simp add: unat_sub word_le_nat_alt)
  show ?thesis
  proof (cases "?t < len")
    case True
    then have lt: "unat ?t < unat len" by (simp add: word_less_nat_alt)
    have rest: "unat (len - ?t) = unat len - unat ?t"
      using True by (intro unat_sub) simp
    with lt have pos: "len - ?t > 0" by (simp add: word_less_nat_alt)
    have "unat len - unat ?t = unat len - (length (fifo_mem b) - unat (fifo_end b))"
      using tail by simp
    with ring_put_two_copies [of "unat (fifo_end b)" "fifo_mem b" "unat len" in_buf]
    show ?thesis
      using True lt rest pos d len
      by (simp add: fifo_write_def Let_def mem_read_Some tail bind_eq_Some_conv del: diff_diff_left)
        auto
  next
    case False
    then have "\<not> unat ?t < unat len" by (simp add: word_less_nat_alt)
    with False tail d len show ?thesis
      by (simp add: fifo_write_def Let_def buf_simps ring_put_def min_def)
  qed
qed

lemma fifo_write_correct:
  assumes inv: "fifo_inv b" and room: "len \<le> fifo_write_avail_of b" and src: "unat len \<le> length in_buf"
  shows "\<exists>b'. fifo_write b in_buf len = Some b' \<and> fifo_inv b' \<and>
    fifo_bytes b' = fifo_bytes b @ take (unat len) in_buf \<and> fifo_size b' = fifo_size b"
proof -
  note d = fifo_invD [OF inv]
  let ?L = "length (fifo_mem b)" and ?c = "fifo_count b" and ?f = "unat (fifo_first b)"
  from room have len: "unat len + ?c < ?L"
    using fifo_write_avail_unat [OF inv] fifo_count_less [OF inv] by (simp add: word_le_nat_alt)
  let ?e = "if fifo_end b + len \<ge> fifo_size b then fifo_end b + len - fifo_size b
    else fifo_end b + len"
  let ?b = "b\<lparr>fifo_mem := ring_put (fifo_mem b) (unat (fifo_end b)) (take (unat len) in_buf),
    fifo_end := ?e\<rparr>"
  have xs: "length (take (unat len) in_buf) = unat len" using src by simp
  have L: "length (fifo_mem ?b) = ?L" using d len xs by (simp add: ring_put_length)
  have lt: "fifo_end b < fifo_size b" "len < fifo_size b" "unat (fifo_size b) \<le> 2 ^ 63"
    using inv d len by (auto simp: fifo_inv_def word_less_nat_alt)
  note adv = ring_advance [OF lt]
  have inv': "fifo_inv ?b"
    using inv L adv(2) by (simp add: fifo_inv_def)
  have e: "unat ?e = (if ?f + (?c + unat len) < ?L then ?f + (?c + unat len)
      else ?f + (?c + unat len) - ?L)"
    unfolding adv(1) d(1) fifo_end_position [OF inv] using d len by auto
  have "fifo_count ?b = ?c + unat len"
    by (rule fifo_count_eq [where L = ?L]) (use d len e in simp_all)
  then have "fifo_bytes ?b = fifo_bytes b @ take (unat len) in_buf"
    using ring_get_put [of ?f "fifo_mem b" ?c "take (unat len) in_buf" "unat (fifo_end b)"]
      fifo_end_position [OF inv] d len xs
    by (simp add: fifo_bytes_def)
  with inv' show ?thesis
    using fifo_write_eq [OF inv _ src] len by auto
qed

lemma fifo_read_correct:
  assumes inv: "fifo_inv b" and room: "len \<le> fifo_read_avail_of b"
  shows "\<exists>b'. fifo_read b len = Some (take (unat len) (fifo_bytes b), b') \<and> fifo_inv b' \<and>
    fifo_bytes b' = drop (unat len) (fifo_bytes b) \<and> fifo_size b' = fifo_size b"
proof -
  note d = fifo_invD [OF inv]
  let ?L = "length (fifo_mem b)" and ?c = "fifo_count b" and ?f = "unat (fifo_first b)"
  from room have len: "unat len \<le> ?c"
    using fifo_read_avail_unat [OF inv] by (simp add: word_le_nat_alt)
  have c: "?c < ?L" using fifo_count_less [OF inv] .
  let ?n = "if fifo_first b + len \<ge> fifo_size b then fifo_first b + len - fifo_size b
    else fifo_first b + len"
  let ?b = "b\<lparr>fifo_first := ?n\<rparr>"
  have lt: "fifo_first b < fifo_size b" "len < fifo_size b" "unat (fifo_size b) \<le> 2 ^ 63"
    using inv d len c by (auto simp: fifo_inv_def word_less_nat_alt)
  note adv = ring_advance [OF lt]
  have inv': "fifo_inv ?b" using inv adv(2) by (simp add: fifo_inv_def)
  have n: "unat ?n = (if ?f + unat len < ?L then ?f + unat len else ?f + unat len - ?L)"
    unfolding adv(1) d(1) ..
  have "unat (fifo_end b) = (if unat ?n + (?c - unat len) < ?L then unat ?n + (?c - unat len)
      else unat ?n + (?c - unat len) - ?L)"
    unfolding n fifo_end_position [OF inv] using d len c by auto
  then have count: "fifo_count ?b = ?c - unat len"
    by (intro fifo_count_eq [where L = ?L]) (use inv' d len c in \<open>simp_all add: fifo_inv_def word_less_nat_alt\<close>)
  have split: "fifo_bytes b = ring_get (fifo_mem b) ?f (unat len) @ fifo_bytes ?b"
    using ring_get_split [of ?f "fifo_mem b" "unat len" ?c] d len c n
    by (simp add: fifo_bytes_def count)
  have got: "length (ring_get (fifo_mem b) ?f (unat len)) = unat len"
    using len c by (simp add: ring_get_length)
  let ?t = "fifo_size b - fifo_first b"
  have tail: "unat ?t = ?L - ?f" using d by (simp add: unat_sub word_le_nat_alt)
  have "fifo_read b len = Some (ring_get (fifo_mem b) ?f (unat len), ?b)"
  proof (cases "?t < len")
    case True
    then have lt: "unat ?t < unat len" by (simp add: word_less_nat_alt)
    have rest: "unat (len - ?t) = unat len - unat ?t"
      using True by (intro unat_sub) simp
    with lt have pos: "len - ?t > 0" by (simp add: word_less_nat_alt)
    show ?thesis
      using True lt rest pos tail d len c
      by (simp add: fifo_read_def Let_def buf_simps ring_get_def)
  next
    case False
    then have "\<not> unat ?t < unat len" by (simp add: word_less_nat_alt)
    with False tail d len c show ?thesis
      by (simp add: fifo_read_def Let_def buf_simps ring_get_def)
  qed
  with split got inv' show ?thesis by auto
qed

lemma fifo_new_correct:
  assumes "fifo_initialize_internal calloc_ok len = Some b" and "unat len < 2 ^ 63"
  shows "fifo_inv b" and "fifo_bytes b = []" and "unat (fifo_write_avail_of b) = unat len"
proof -
  from assms(1) have b: "b = \<lparr>fifo_mem = replicate (unat (len + 1)) 0, fifo_size = len + 1,
      fifo_first = 0, fifo_end = 0\<rparr>"
    by (simp add: fifo_initialize_internal_def split: if_splits)
  have len: "unat (len + 1) = Suc (unat len)"
    using assms(2) by (intro unat_Suc_word) simp
  with b assms(2) show inv: "fifo_inv b" by (simp add: fifo_inv_def word_less_nat_alt)
  show "fifo_bytes b = []" using b by (simp add: fifo_bytes_def fifo_count_def ring_get_def)
  show "unat (fifo_write_avail_of b) = unat len"
    using fifo_write_avail_unat [OF inv] b len by (simp add: fifo_count_def)
qed

lemma fifo_clear_correct: "fifo_inv b \<Longrightarrow> fifo_inv (fifo_clear b) \<and> fifo_bytes (fifo_clear b) = []"
  using fifo_invD(2) [of b]
  by (auto simp: fifo_inv_def fifo_clear_def fifo_bytes_def fifo_count_def ring_get_def
      word_less_nat_alt)

section \<open>The byte ring as a queue\<close>

text \<open>Writing and reading one byte meets the queue contract; a write is allowed while there is
  room for it.\<close>

definition fifo_rep :: "fifo_buffer \<Rightarrow> byte list \<Rightarrow> bool" where
  "fifo_rep b bs \<longleftrightarrow> fifo_inv b \<and> fifo_bytes b = bs"

definition fifo_room :: "unit \<Rightarrow> fifo_buffer \<Rightarrow> bool" where
  "fifo_room u b \<longleftrightarrow> fifo_write_avail_of b \<noteq> 0"

definition fifo_put1 :: "unit \<Rightarrow> byte \<Rightarrow> fifo_buffer \<Rightarrow> fifo_buffer option" where
  "fifo_put1 u v b = fifo_write b [v] 1"

definition fifo_get1 :: "fifo_buffer \<Rightarrow> (byte \<times> fifo_buffer) option" where
  "fifo_get1 b = do { (out, b) \<leftarrow> fifo_read b 1; Some (hd out, b) }"

interpretation fifo_queue: queue_store fifo_rep fifo_room "\<lambda>_. True" fifo_put1 fifo_get1
proof unfold_locales
  show "\<exists>b'. fifo_put1 u v b = Some b' \<and> fifo_rep b' (if True then bs @ [v] else bs)"
    if "fifo_rep b bs" and "fifo_room u b" for b bs u v
  proof -
    from that(2) have "1 \<le> fifo_write_avail_of b"
      by (simp add: fifo_room_def word_le_nat_alt unat_gt_0 Suc_le_eq)
    with fifo_write_correct [of b 1 "[v]"] that(1) show ?thesis
      by (auto simp: fifo_rep_def fifo_put1_def)
  qed
  show "\<exists>b'. fifo_get1 b = Some (v, b') \<and> fifo_rep b' bs" if "fifo_rep b (v # bs)" for b v bs
  proof -
    from that have inv: "fifo_inv b" and bytes: "fifo_bytes b = v # bs" by (auto simp: fifo_rep_def)
    with fifo_bytes_length [OF inv] fifo_read_avail_unat [OF inv] have "1 \<le> fifo_read_avail_of b"
      by (simp add: word_le_nat_alt)
    with fifo_read_correct [of b 1] inv bytes show ?thesis
      by (auto simp: fifo_rep_def fifo_get1_def)
  qed
qed

section \<open>Properties\<close>

text \<open>
  A write of at most the available room, even when it wraps around the end of the ring,
  stays inside the memory and appends exactly the bytes written to the contents.
\<close>

theorem fifo_write_appends:
  assumes "fifo_inv b" and "len \<le> fifo_write_avail_of b" and "unat len \<le> length in_buf"
  shows "\<exists>b'. fifo_write b in_buf len = Some b' \<and> fifo_inv b' \<and>
    fifo_bytes b' = fifo_bytes b @ take (unat len) in_buf \<and> fifo_size b' = fifo_size b"
  using assms by (rule fifo_write_correct)

text \<open>The witness writes three bytes across the end of a ring of five.\<close>

definition wrapped_ring :: fifo_buffer where
  "wrapped_ring = \<lparr>fifo_mem = [0, 0, 0, 7, 0], fifo_size = 5, fifo_first = 3, fifo_end = 4\<rparr>"

theorem fifo_write_appends_witness:
  "\<exists>b'. fifo_write wrapped_ring [1, 2, 3] 3 = Some b' \<and> fifo_inv b' \<and>
    fifo_bytes b' = [7, 1, 2, 3] \<and> fifo_size b' = 5"
  using fifo_write_appends [of wrapped_ring 3 "[1, 2, 3]"]
  by (simp add: wrapped_ring_def fifo_inv_def fifo_write_avail_of_def fifo_read_avail_of_def
      fifo_bytes_def fifo_count_def ring_get_def)

text \<open>
  C27. reading back what was written: any write that fits followed by a read of everything
  returns the old contents and then the bytes written, and leaves the ring empty.
\<close>

theorem fifo_write_read_roundtrip:
  assumes "fifo_inv b" and "len \<le> fifo_write_avail_of b" and "unat len \<le> length in_buf"
  shows "\<exists>b1 b2. fifo_write b in_buf len = Some b1 \<and>
    fifo_read b1 (fifo_read_avail_of b1) = Some (fifo_bytes b @ take (unat len) in_buf, b2) \<and>
    fifo_inv b2 \<and> fifo_bytes b2 = []"
proof -
  obtain b1 where b1: "fifo_write b in_buf len = Some b1" "fifo_inv b1"
    "fifo_bytes b1 = fifo_bytes b @ take (unat len) in_buf"
    using fifo_write_correct [OF assms] by blast
  have "unat (fifo_read_avail_of b1) = length (fifo_bytes b1)"
    by (simp add: fifo_read_avail_unat fifo_bytes_length b1(2))
  then have "take (unat (fifo_read_avail_of b1)) (fifo_bytes b1) = fifo_bytes b1"
    "drop (unat (fifo_read_avail_of b1)) (fifo_bytes b1) = []" by simp_all
  with fifo_read_correct [OF b1(2) order_refl] b1(1) show ?thesis
    unfolding b1(3) [symmetric] by auto
qed

theorem fifo_write_read_roundtrip_witness:
  "\<exists>b1 b2. fifo_write wrapped_ring [1, 2, 3] 3 = Some b1 \<and>
    fifo_read b1 (fifo_read_avail_of b1) = Some ([7, 1, 2, 3], b2) \<and>
    fifo_inv b2 \<and> fifo_bytes b2 = []"
  using fifo_write_read_roundtrip [of wrapped_ring 3 "[1, 2, 3]"]
  by (simp add: wrapped_ring_def fifo_inv_def fifo_write_avail_of_def fifo_read_avail_of_def
      fifo_bytes_def fifo_count_def ring_get_def)

text \<open>
  The checked calls never fault, whatever length the caller asks for: they move the
  requested length clamped to the room (or the contents) and report it.
\<close>

theorem fifo_checked_clamps:
  assumes inv: "fifo_inv b" and src: "unat len \<le> length in_buf"
  shows "(\<exists>n b'. fifo_write_checked b in_buf len = Some (n, b') \<and>
      unat n = min (unat len) (length (fifo_mem b) - 1 - length (fifo_bytes b)) \<and> fifo_inv b' \<and>
      fifo_bytes b' = fifo_bytes b @ take (unat n) in_buf) \<and>
    (\<exists>n b'. fifo_read_checked b len = Some (n, take (unat n) (fifo_bytes b), b') \<and>
      unat n = min (unat len) (length (fifo_bytes b)) \<and> fifo_inv b' \<and>
      fifo_bytes b' = drop (unat n) (fifo_bytes b))"
proof -
  have "\<exists>b'. fifo_write_checked b in_buf len = Some (min len (fifo_write_avail_of b), b') \<and>
      fifo_inv b' \<and> fifo_bytes b' =
        fifo_bytes b @ take (unat (min len (fifo_write_avail_of b))) in_buf"
  proof -
    let ?n = "min len (fifo_write_avail_of b)"
    have n: "(if len > fifo_write_avail_of b then fifo_write_avail_of b else len) = ?n"
      by (auto simp: min_def not_less)
    have "unat ?n \<le> length in_buf" using src by (simp add: min_def word_le_nat_alt)
    with fifo_write_correct [OF inv, of ?n in_buf] inv n show ?thesis
      by (cases "?n = 0") (auto simp: fifo_write_checked_def Let_def)
  qed
  moreover have "\<exists>b'. fifo_read_checked b len = Some (min len (fifo_read_avail_of b),
        take (unat (min len (fifo_read_avail_of b))) (fifo_bytes b), b') \<and>
      fifo_inv b' \<and> fifo_bytes b' = drop (unat (min len (fifo_read_avail_of b))) (fifo_bytes b)"
  proof -
    let ?n = "min len (fifo_read_avail_of b)"
    have n: "(if len > fifo_read_avail_of b then fifo_read_avail_of b else len) = ?n"
      by (auto simp: min_def not_less)
    from fifo_read_correct [OF inv, of ?n] inv n show ?thesis
      by (cases "?n = 0") (auto simp: fifo_read_checked_def Let_def)
  qed
  moreover have "unat (min len (fifo_write_avail_of b)) =
      min (unat len) (length (fifo_mem b) - 1 - length (fifo_bytes b))"
    "unat (min len (fifo_read_avail_of b)) = min (unat len) (length (fifo_bytes b))"
    using inv by (simp_all add: min_def word_le_nat_alt fifo_write_avail_unat fifo_read_avail_unat
        fifo_bytes_length)
  ultimately show ?thesis by metis
qed

theorem fifo_checked_clamps_witness:
  "\<exists>n b'. fifo_write_checked wrapped_ring [1, 2, 3, 4, 5] 5 = Some (n, b') \<and> unat n = 3 \<and>
    fifo_bytes b' = [7, 1, 2, 3]"
proof -
  have "fifo_inv wrapped_ring" "fifo_bytes wrapped_ring = [7]" "length (fifo_mem wrapped_ring) = 5"
    by (simp_all add: wrapped_ring_def fifo_inv_def fifo_bytes_def fifo_count_def ring_get_def)
  moreover have "unat (5 :: size_t) \<le> length [1, 2, 3, 4, 5 :: byte]" by simp
  ultimately obtain n b' where "fifo_write_checked wrapped_ring [1, 2, 3, 4, 5] 5 = Some (n, b')"
    "unat n = 3" "fifo_bytes b' = [7] @ take (unat n) [1, 2, 3, 4, 5]"
    using fifo_checked_clamps [of wrapped_ring 5 "[1, 2, 3, 4, 5]"] by auto
  then show ?thesis by (auto simp: numeral_3_eq_3)
qed

end
