(* ===== verification/MessageQueue.thy ===== *)
theory MessageQueue
  imports Contracts
begin

text \<open>
  \<open>queues/message_queue.c\<close>: a bounded priority queue of messages, a binary max-heap on the
  priority in the array slots \<open>1\<close> to \<open>ptr - 1\<close>. Slots are pointers (\<open>None\<close> is \<open>NULL\<close>); a read of
  a \<open>NULL\<close> slot's fields and an access outside the array fault. The elements are owned by the
  slot that holds them, so they are values here. Indices are natural numbers: every index
  is below \<open>size\<close>, and an array of that many pointers has far fewer than \<open>2 ^ 63\<close> slots.
\<close>

section \<open>State and operations\<close>

datatype message_queue_icon = MESSAGE_QUEUE_ICON_DEFAULT

datatype message_queue_category =
    MESSAGE_QUEUE_CATEGORY_INFO
  | MESSAGE_QUEUE_CATEGORY_ERROR
  | MESSAGE_QUEUE_CATEGORY_WARNING
  | MESSAGE_QUEUE_CATEGORY_SUCCESS

record queue_elem =
  qe_msg :: "string option"
  qe_title :: "string option"
  qe_duration :: u32
  qe_prio :: u32
  qe_icon :: message_queue_icon
  qe_category :: message_queue_category

record msg_queue =
  mq_tmp :: "queue_elem option"
  mq_elems :: "queue_elem option list"
  mq_ptr :: nat
  mq_size :: nat

record msg_queue_entry =
  en_duration :: u32
  en_prio :: u32
  en_icon :: message_queue_icon
  en_category :: message_queue_category
  en_msg :: string
  en_title :: string

text \<open>The element a slot points to: faults on \<open>NULL\<close> and outside the array.\<close>

definition slot :: "queue_elem option list \<Rightarrow> nat \<Rightarrow> queue_elem option" where
  "slot elems i = do { p \<leftarrow> arr_get elems i; p }"

definition sizeof_queue_elem :: nat where
  "sizeof_queue_elem = 32"

fun msg_queue_initialize :: "bool \<Rightarrow> msg_queue option \<Rightarrow> nat \<Rightarrow> bool \<times> msg_queue option" where
  "msg_queue_initialize calloc_ok None len = (False, None)"
| "msg_queue_initialize calloc_ok (Some queue) len =
     (if len = SIZE_MAX then (False, Some queue)
      else if \<not> calloc_ok then (False, Some queue)
      else (True, Some (queue\<lparr>mq_tmp := None, mq_elems := replicate (len + 1) None,
                              mq_ptr := 1, mq_size := len + 1\<rparr>)))"

text \<open>\<open>queue0\<close> is the memory \<open>malloc\<close> returned (\<open>None\<close> when it failed), contents arbitrary.\<close>

definition msg_queue_new :: "msg_queue option \<Rightarrow> bool \<Rightarrow> nat \<Rightarrow> msg_queue option" where
  "msg_queue_new queue0 calloc_ok len =
     (let (ok, queue) = msg_queue_initialize calloc_ok queue0 len
      in if ok then queue else None)"

text \<open>The loop of \<open>msg_queue_clear\<close> over the slots \<open>i\<close> to \<open>ptr - 1\<close>.\<close>

fun clear_slots :: "nat \<Rightarrow> nat \<Rightarrow> queue_elem option list \<Rightarrow> queue_elem option list option" where
  "clear_slots 0 i elems = Some elems"
| "clear_slots (Suc n) i elems = do {
     p \<leftarrow> arr_get elems i;
     elems \<leftarrow> (if p \<noteq> None then arr_set elems i None else Some elems);
     clear_slots n (i + 1) elems }"

fun msg_queue_clear :: "msg_queue option \<Rightarrow> msg_queue option option" where
  "msg_queue_clear None = Some None"
| "msg_queue_clear (Some queue) = do {
     elems \<leftarrow> clear_slots (mq_ptr queue - 1) 1 (mq_elems queue);
     Some (Some (queue\<lparr>mq_elems := elems, mq_ptr := 1, mq_tmp := None\<rparr>)) }"

definition msg_queue_free :: "msg_queue option \<Rightarrow> msg_queue option option" where
  "msg_queue_free queue = do { _ \<leftarrow> msg_queue_clear queue; Some None }"

fun msg_queue_deinitialize :: "msg_queue option \<Rightarrow> (bool \<times> msg_queue option) option" where
  "msg_queue_deinitialize None = Some (False, None)"
| "msg_queue_deinitialize (Some queue) = do {
     queue' \<leftarrow> msg_queue_clear (Some queue);
     queue \<leftarrow> queue';
     Some (True, Some (queue\<lparr>mq_elems := [], mq_tmp := None, mq_ptr := 0, mq_size := 0\<rparr>)) }"

text \<open>The new element rises while its priority exceeds its parent's.\<close>

fun sift_up :: "queue_elem option list \<Rightarrow> nat \<Rightarrow> queue_elem option list option" where
  "sift_up elems tmp_ptr =
     (if tmp_ptr > 1
      then do {
        parent \<leftarrow> slot elems (tmp_ptr div 2);
        child \<leftarrow> slot elems tmp_ptr;
        if qe_prio child \<le> qe_prio parent then Some elems
        else do {
          elems \<leftarrow> arr_set elems (tmp_ptr div 2) (Some child);
          elems \<leftarrow> arr_set elems tmp_ptr (Some parent);
          sift_up elems (tmp_ptr div 2) } }
      else Some elems)"

declare sift_up.simps [simp del]

fun msg_queue_try_push :: "bool \<Rightarrow> msg_queue option \<Rightarrow> string option \<Rightarrow> u32 \<Rightarrow> u32 \<Rightarrow>
  string option \<Rightarrow> message_queue_icon \<Rightarrow> message_queue_category \<Rightarrow>
  (bool \<times> msg_queue option) option" where
  "msg_queue_try_push malloc_ok None msg prio duration title icon category = Some (False, None)"
| "msg_queue_try_push malloc_ok (Some queue) msg prio duration title icon category =
     (if mq_ptr queue \<ge> mq_size queue then Some (False, Some queue)
      else
        let msg_len = (case msg of None \<Rightarrow> 0 | Some m \<Rightarrow> length m + 1);
            title_len = (case title of None \<Rightarrow> 0 | Some t \<Rightarrow> length t + 1)
        in if msg_len > SIZE_MAX - sizeof_queue_elem then Some (False, Some queue)
           else if title_len > SIZE_MAX - (sizeof_queue_elem + msg_len) then Some (False, Some queue)
           else if \<not> malloc_ok then Some (False, Some queue)
           else do {
             let new_elem = \<lparr>qe_msg = msg, qe_title = title,
               qe_duration = (if duration \<noteq> 0 then duration else 1), qe_prio = prio,
               qe_icon = icon, qe_category = category\<rparr>;
             elems \<leftarrow> arr_set (mq_elems queue) (mq_ptr queue) (Some new_elem);
             elems \<leftarrow> sift_up elems (mq_ptr queue);
             Some (True, Some (queue\<lparr>mq_elems := elems, mq_ptr := mq_ptr queue + 1\<rparr>)) })"

definition msg_queue_push :: "bool \<Rightarrow> msg_queue option \<Rightarrow> string option \<Rightarrow> u32 \<Rightarrow> u32 \<Rightarrow>
  string option \<Rightarrow> message_queue_icon \<Rightarrow> message_queue_category \<Rightarrow> msg_queue option option" where
  "msg_queue_push malloc_ok queue msg prio duration title icon category = do {
     (_, queue) \<leftarrow> msg_queue_try_push malloc_ok queue msg prio duration title icon category;
     Some queue }"

text \<open>The element moved into the hole sinks below every larger child.\<close>

partial_function (option) sift_down ::
  "queue_elem option list \<Rightarrow> nat \<Rightarrow> nat \<Rightarrow> queue_elem option list option" where
  "sift_down elems ptr pos =
     (if 2 * pos < ptr
      then do {
        let child = 2 * pos;
        let right = child + 1;
        child \<leftarrow> (if right < ptr
          then do {
            r \<leftarrow> slot elems right;
            c \<leftarrow> slot elems child;
            Some (if qe_prio r > qe_prio c then right else child) }
          else Some child);
        p \<leftarrow> slot elems pos;
        c \<leftarrow> slot elems child;
        if qe_prio p \<ge> qe_prio c then Some elems
        else do {
          elems \<leftarrow> arr_set elems pos (Some c);
          elems \<leftarrow> arr_set elems child (Some p);
          sift_down elems ptr child } }
      else Some elems)"

text \<open>\<open>front\<close> is the pointer the caller then owns; it is dereferenced by every caller.\<close>

definition msg_queue_remove_front :: "msg_queue \<Rightarrow> (queue_elem option \<times> msg_queue) option" where
  "msg_queue_remove_front queue = do {
     front \<leftarrow> arr_get (mq_elems queue) 1;
     let ptr = mq_ptr queue - 1;
     last \<leftarrow> arr_get (mq_elems queue) ptr;
     elems \<leftarrow> arr_set (mq_elems queue) 1 last;
     elems \<leftarrow> arr_set elems ptr None;
     elems \<leftarrow> sift_down elems ptr 1;
     Some (front, queue\<lparr>mq_elems := elems, mq_ptr := ptr\<rparr>) }"

text \<open>Both return the message (\<open>None\<close> for \<open>NULL\<close>) with the queue.\<close>

fun msg_queue_pull :: "msg_queue option \<Rightarrow> (string option \<times> msg_queue option) option" where
  "msg_queue_pull None = Some (None, None)"
| "msg_queue_pull (Some queue) =
     (if mq_ptr queue = 1 then Some (None, Some queue)
      else do {
        front \<leftarrow> slot (mq_elems queue) 1;
        let front = front\<lparr>qe_duration := qe_duration front - 1\<rparr>;
        elems \<leftarrow> arr_set (mq_elems queue) 1 (Some front);
        let queue = queue\<lparr>mq_elems := elems\<rparr>;
        if qe_duration front > 0 then Some (qe_msg front, Some queue)
        else do {
          (p, queue) \<leftarrow> msg_queue_remove_front queue;
          front \<leftarrow> p;
          Some (qe_msg front, Some (queue\<lparr>mq_tmp := p\<rparr>)) } })"

text \<open>
  \<open>strlcpy\<close> into the 1024-byte fields keeps the first 1023 characters. The entry argument is
  \<open>None\<close> for \<open>NULL\<close>.
\<close>

fun msg_queue_extract :: "msg_queue option \<Rightarrow> msg_queue_entry option \<Rightarrow>
  (bool \<times> msg_queue option \<times> msg_queue_entry option) option" where
  "msg_queue_extract None entry = Some (False, None, entry)"
| "msg_queue_extract (Some queue) entry =
     (if mq_ptr queue = 1 \<or> entry = None then Some (False, Some queue, entry)
      else do {
        (p, queue) \<leftarrow> msg_queue_remove_front queue;
        front \<leftarrow> p;
        let entry = \<lparr>en_duration = qe_duration front, en_prio = qe_prio front,
          en_icon = qe_icon front, en_category = qe_category front,
          en_msg = (case qe_msg front of None \<Rightarrow> [] | Some m \<Rightarrow> take 1023 m),
          en_title = (case qe_title front of None \<Rightarrow> [] | Some t \<Rightarrow> take 1023 t)\<rparr>;
        Some (True, Some queue, Some entry) })"

fun msg_queue_size :: "msg_queue option \<Rightarrow> nat" where
  "msg_queue_size None = 0"
| "msg_queue_size (Some queue) = (if mq_ptr queue \<le> 1 then 0 else mq_ptr queue - 1)"

section \<open>The heap invariant\<close>

text \<open>
  \<open>pr e i\<close> is the priority in slot \<open>i\<close>. \<open>full e n\<close>: the slots below \<open>n\<close> hold elements.
  \<open>heap_but e n i\<close>: the order between child and parent holds everywhere but between \<open>i\<close> and
  its parent (\<open>i\<close> is rising) and \<open>heap_above e n i\<close> everywhere but between \<open>i\<close> and its children
  (\<open>i\<close> is sinking); in both the children of \<open>i\<close> are in order with the parent of \<open>i\<close>.
\<close>

definition pr :: "queue_elem option list \<Rightarrow> nat \<Rightarrow> u32" where
  "pr e i = qe_prio (the (e ! i))"

definition full :: "queue_elem option list \<Rightarrow> nat \<Rightarrow> bool" where
  "full e n \<longleftrightarrow> n \<le> length e \<and> (\<forall>i. 1 \<le> i \<and> i < n \<longrightarrow> e ! i \<noteq> None)"

definition heap_ordered :: "queue_elem option list \<Rightarrow> nat \<Rightarrow> bool" where
  "heap_ordered e n \<longleftrightarrow> (\<forall>j. 2 \<le> j \<and> j < n \<longrightarrow> pr e j \<le> pr e (j div 2))"

definition heap_but :: "queue_elem option list \<Rightarrow> nat \<Rightarrow> nat \<Rightarrow> bool" where
  "heap_but e n i \<longleftrightarrow>
     (\<forall>j. 2 \<le> j \<and> j < n \<and> j \<noteq> i \<longrightarrow> pr e j \<le> pr e (j div 2)) \<and>
     (\<forall>j. 2 \<le> i \<and> j < n \<and> j div 2 = i \<longrightarrow> pr e j \<le> pr e (i div 2))"

definition heap_above :: "queue_elem option list \<Rightarrow> nat \<Rightarrow> nat \<Rightarrow> bool" where
  "heap_above e n i \<longleftrightarrow>
     (\<forall>j. 2 \<le> j \<and> j < n \<and> j div 2 \<noteq> i \<longrightarrow> pr e j \<le> pr e (j div 2)) \<and>
     (\<forall>j. 2 \<le> i \<and> j < n \<and> j div 2 = i \<longrightarrow> pr e j \<le> pr e (i div 2))"

text \<open>What a sift may change: a rearrangement of the slots \<open>1\<close> to \<open>n - 1\<close>.\<close>

definition shuffled :: "nat \<Rightarrow> queue_elem option list \<Rightarrow> queue_elem option list \<Rightarrow> bool" where
  "shuffled n e e' \<longleftrightarrow> length e' = length e \<and> mset e' = mset e \<and>
     (\<forall>j. j = 0 \<or> n \<le> j \<longrightarrow> e' ! j = e ! j)"

lemma shuffled_refl [simp]: "shuffled n e e"
  by (simp add: shuffled_def)

lemma shuffled_trans: "shuffled n e e' \<Longrightarrow> shuffled n e' e'' \<Longrightarrow> shuffled n e e''"
  by (auto simp: shuffled_def)

lemma shuffled_swap:
  assumes "1 \<le> i" "i < n" "1 \<le> j" "j < n" "n \<le> length e"
  shows "shuffled n e (e[i := e ! j, j := e ! i])"
  using assms by (auto simp: shuffled_def mset_swap nth_list_update)

definition contents :: "queue_elem option list \<Rightarrow> nat \<Rightarrow> queue_elem option multiset" where
  "contents e n = mset (drop 1 (take n e))"

lemma mset_by_contents:
  assumes "1 \<le> n" and "n \<le> length e"
  shows "mset e = {#e ! 0#} + contents e n + mset (drop n e)"
proof -
  have "e = take n e @ drop n e" by simp
  moreover have "take n e = e ! 0 # drop 1 (take n e)"
    using assms by (cases e; cases n) auto
  ultimately show ?thesis
    unfolding contents_def by (metis mset_append mset.simps(2) add_mset_add_single union_commute)
qed

lemma shuffled_contents:
  assumes "shuffled n e e'" and "1 \<le> n" and "n \<le> length e"
  shows "contents e' n = contents e n"
proof -
  from assms have "drop n e' = drop n e" "e' ! 0 = e ! 0" "n \<le> length e'" "mset e' = mset e"
    by (auto simp: shuffled_def intro!: nth_equalityI)
  with mset_by_contents [of n e] mset_by_contents [of n e'] assms(2,3) show ?thesis by simp
qed

lemma slot_full: "full e n \<Longrightarrow> 1 \<le> i \<Longrightarrow> i < n \<Longrightarrow> slot e i = Some (the (e ! i))"
  by (auto simp: slot_def full_def arr_get_def)

lemma full_swap:
  assumes "full e n" "1 \<le> i" "i < n" "1 \<le> j" "j < n"
  shows "full (e[i := e ! j, j := e ! i]) n"
  using assms by (auto simp: full_def nth_list_update)

lemma pr_swap:
  assumes "i < length e" "j < length e"
  shows "pr (e[i := e ! j, j := e ! i]) k = (if k = j then pr e i else if k = i then pr e j else pr e k)"
  using assms by (auto simp: pr_def nth_list_update)

section \<open>Rising and sinking restore the order\<close>

lemma sift_up_correct:
  "full e n \<Longrightarrow> 1 \<le> i \<Longrightarrow> i < n \<Longrightarrow> heap_but e n i \<Longrightarrow>
   \<exists>e'. sift_up e i = Some e' \<and> full e' n \<and> heap_ordered e' n \<and> shuffled n e e'"
proof (induction e i rule: sift_up.induct)
  case (1 e i)
  show ?case
  proof (cases "i > 1")
    case False
    with "1.prems" have "i = 1" by simp
    with "1.prems" have "heap_ordered e n" by (auto simp: heap_but_def heap_ordered_def)
    with False "1.prems" show ?thesis by (subst sift_up.simps) simp
  next
    case True
    let ?p = "i div 2"
    have p: "1 \<le> ?p" "?p < n" "?p \<noteq> i" using True "1.prems"(3) by auto
    have len: "?p < length e" "i < length e" using "1.prems" p by (auto simp: full_def)
    obtain a b where ab: "e ! ?p = Some a" "e ! i = Some b"
      using "1.prems"(1-3) p by (fastforce simp: full_def)
    have s: "slot e ?p = Some a" "slot e i = Some b"
      using ab len by (simp_all add: slot_def arr_get_def)
    have prio: "pr e ?p = qe_prio a" "pr e i = qe_prio b" using ab by (simp_all add: pr_def)
    show ?thesis
    proof (cases "pr e i \<le> pr e ?p")
      case le: True
      have "heap_ordered e n"
        using "1.prems"(4) le by (auto simp: heap_but_def heap_ordered_def)
      with True s le prio "1.prems" show ?thesis by (subst sift_up.simps) simp
    next
      case False
      let ?e = "e[?p := e ! i, i := e ! ?p]"
      have up: "sift_up e i = sift_up ?e ?p"
        using True s False prio len ab by (subst sift_up.simps) (simp add: arr_set_Some)
      have full': "full ?e n" using "1.prems" p by (intro full_swap) auto
      have prs: "pr ?e k = (if k = i then pr e ?p else if k = ?p then pr e i else pr e k)" for k
        using pr_swap [of ?p e i] len by simp
      from "1.prems"(4) have order: "\<And>j. 2 \<le> j \<Longrightarrow> j < n \<Longrightarrow> j \<noteq> i \<Longrightarrow> pr e j \<le> pr e (j div 2)"
        and kids: "\<And>j. j < n \<Longrightarrow> j div 2 = i \<Longrightarrow> pr e j \<le> pr e ?p"
        using True by (auto simp: heap_but_def)
      have "heap_but ?e n ?p"
        unfolding heap_but_def
      proof (intro conjI allI impI)
        fix j assume j: "2 \<le> j \<and> j < n \<and> j \<noteq> ?p"
        show "pr ?e j \<le> pr ?e (j div 2)"
        proof -
          consider "j = i" | "j \<noteq> i" "j div 2 = i" | "j \<noteq> i" "j div 2 = ?p"
            | "j \<noteq> i" "j div 2 \<noteq> i" "j div 2 \<noteq> ?p" by blast
          then show ?thesis
          proof cases
            case 1
            then show ?thesis using False p by (simp add: prs)
          next
            case 2
            then show ?thesis using kids j p by (simp add: prs)
          next
            case 3
            then have "pr e j \<le> pr e ?p" using order [of j] j by simp
            with 3 j False show ?thesis using p(3) by (simp add: prs)
          next
            case 4
            then show ?thesis using order [of j] j by (simp add: prs)
          qed
        qed
      next
        fix j assume j: "2 \<le> ?p \<and> j < n \<and> j div 2 = ?p"
        have pp: "?p div 2 \<noteq> ?p" "?p div 2 \<noteq> i" using j p by auto
        have up_le: "pr e ?p \<le> pr e (?p div 2)" using order [of ?p] j p by simp
        show "pr ?e j \<le> pr ?e (?p div 2)"
        proof (cases "j = i")
          case True
          with up_le pp show ?thesis by (simp add: prs)
        next
          case ne: False
          moreover have "2 \<le> j" using j by linarith
          ultimately have "pr e j \<le> pr e ?p" using order [of j] j by simp
          moreover have "j \<noteq> ?p" using j by auto
          ultimately show ?thesis using ne up_le pp by (auto simp: prs)
        qed
      qed
      moreover have "arr_set e ?p (Some b) = Some (e[?p := e ! i])"
        "arr_set (e[?p := e ! i]) i (Some a) = Some ?e"
        using ab len by (simp_all add: arr_set_Some)
      ultimately obtain e' where e': "sift_up ?e ?p = Some e'" "full e' n" "heap_ordered e' n"
        "shuffled n ?e e'"
        using "1.IH" [OF True s(1,2) _ _ _ full' p(1,2)] False prio by auto
      moreover have "shuffled n e ?e"
        using "1.prems" p by (intro shuffled_swap) (auto simp: full_def)
      ultimately show ?thesis using up by (auto intro: shuffled_trans)
    qed
  qed
qed


text \<open>One turn of the sinking loop, with the child \<open>c\<close> it compares against.\<close>

lemma sift_down_step:
  assumes "full e n" and "1 \<le> i" and "2 * i < n"
  shows "\<exists>c. c div 2 = i \<and> i < c \<and> c < n \<and> (\<forall>j<n. j div 2 = i \<longrightarrow> pr e j \<le> pr e c) \<and>
    sift_down e n i = (if pr e c \<le> pr e i then Some e
                       else sift_down (e[i := e ! c, c := e ! i]) n c)"
proof -
  let ?c = "if 2 * i + 1 < n \<and> pr e (2 * i + 1) > pr e (2 * i) then 2 * i + 1 else 2 * i"
  have c: "?c div 2 = i" "i < ?c" "?c < n" using assms by auto
  have kids: "j = 2 * i \<or> j = 2 * i + 1" if "j div 2 = i" for j using that by auto
  have top: "\<forall>j<n. j div 2 = i \<longrightarrow> pr e j \<le> pr e ?c"
  proof (intro allI impI)
    fix j assume "j < n" "j div 2 = i"
    with kids [of j] show "pr e j \<le> pr e ?c" by (auto split: if_splits)
  qed
  have len: "n \<le> length e" using assms by (simp add: full_def)
  have some: "slot e k = Some (the (e ! k))" if "1 \<le> k" "k < n" for k
    using that assms(1) by (simp add: slot_full)
  obtain c where c: "c = ?c" "c div 2 = i" "i < c" "c < n" using c by blast
  have pick: "(if 2 * i + 1 < n
        then do { r \<leftarrow> slot e (2 * i + 1); c \<leftarrow> slot e (2 * i);
                  Some (if qe_prio r > qe_prio c then 2 * i + 1 else 2 * i) }
        else Some (2 * i)) = Some c"
    using assms some [of "2 * i"] some [of "2 * i + 1"] by (simp add: pr_def c(1))
  obtain a b where ab: "e ! i = Some a" "e ! c = Some b"
    using assms(1,2) c(3,4) by (fastforce simp: full_def)
  have s: "slot e i = Some a" "slot e c = Some b"
    using ab some [of i] some [of c] assms(2) c(3,4) by simp_all
  have "sift_down e n i = (if qe_prio b \<le> qe_prio a then Some e
                       else sift_down (e[i := e ! c, c := e ! i]) n c)"
    using assms(3) c(2-4) len
    by (subst sift_down.simps)
      (simp only: Let_def if_True pick s bind.bind_lunit, simp add: arr_set_Some ab)
  then have "sift_down e n i = (if pr e c \<le> pr e i then Some e
                       else sift_down (e[i := e ! c, c := e ! i]) n c)"
    by (simp add: pr_def ab)
  moreover have "\<forall>j<n. j div 2 = i \<longrightarrow> pr e j \<le> pr e c"
    using top by (simp only: c(1))
  ultimately show ?thesis using c(2-4) by blast
qed

lemma sift_down_correct:
  "full e n \<Longrightarrow> 1 \<le> i \<Longrightarrow> heap_above e n i \<Longrightarrow>
   \<exists>e'. sift_down e n i = Some e' \<and> full e' n \<and> heap_ordered e' n \<and> shuffled n e e'"
proof (induction "n - i" arbitrary: e i rule: less_induct)
  case less
  show ?case
  proof (cases "2 * i < n")
    case False
    have "j div 2 \<noteq> i" if "j < n" for j using that False by auto
    with less.prems(3) have "heap_ordered e n" by (auto simp: heap_above_def heap_ordered_def)
    with False less.prems show ?thesis by (subst sift_down.simps) simp
  next
    case True
    from sift_down_step [OF less.prems(1,2) True] obtain c where
      c: "c div 2 = i" "i < c" "c < n" and top: "\<And>j. j < n \<Longrightarrow> j div 2 = i \<Longrightarrow> pr e j \<le> pr e c" and
      step: "sift_down e n i = (if pr e c \<le> pr e i then Some e
                       else sift_down (e[i := e ! c, c := e ! i]) n c)" by blast
    from less.prems(3) have order: "\<And>j. 2 \<le> j \<Longrightarrow> j < n \<Longrightarrow> j div 2 \<noteq> i \<Longrightarrow> pr e j \<le> pr e (j div 2)"
      and kids: "\<And>j. 2 \<le> i \<Longrightarrow> j < n \<Longrightarrow> j div 2 = i \<Longrightarrow> pr e j \<le> pr e (i div 2)"
      by (auto simp: heap_above_def)
    show ?thesis
    proof (cases "pr e c \<le> pr e i")
      case le: True
      have "pr e j \<le> pr e (j div 2)" if "2 \<le> j" "j < n" for j
        using that order top le by (cases "j div 2 = i") (auto intro: order_trans)
      then have "heap_ordered e n" by (simp add: heap_ordered_def)
      with le step less.prems show ?thesis by auto
    next
      case False
      let ?e = "e[i := e ! c, c := e ! i]"
      have len: "i < length e" "c < length e" using less.prems(1) c by (auto simp: full_def)
      have prs: "pr ?e k = (if k = c then pr e i else if k = i then pr e c else pr e k)" for k
        using pr_swap [of i e c] len by simp
      have full': "full ?e n" using less.prems c by (intro full_swap) auto
      have "heap_above ?e n c"
        unfolding heap_above_def
      proof (intro conjI allI impI)
        fix j assume j: "2 \<le> j \<and> j < n \<and> j div 2 \<noteq> c"
        consider "j = c" | "j = i" | "j \<noteq> c" "j \<noteq> i" "j div 2 = i" | "j \<noteq> c" "j \<noteq> i" "j div 2 \<noteq> i"
          by blast
        then show "pr ?e j \<le> pr ?e (j div 2)"
        proof cases
          case 1 then show ?thesis using False c by (simp add: prs)
        next
          case 2
          have "i div 2 \<noteq> i" "i div 2 \<noteq> c" using 2 j c by auto
          then show ?thesis using 2 kids [of c] j c by (simp add: prs)
        next
          case 3 then show ?thesis using top j c by (simp add: prs)
        next
          case 4 then show ?thesis using order [of j] j by (simp add: prs)
        qed
      next
        fix j assume j: "2 \<le> c \<and> j < n \<and> j div 2 = c"
        then have "j \<noteq> i" "j \<noteq> c" "2 \<le> j" using c less.prems(2) by auto
        then show "pr ?e j \<le> pr ?e (c div 2)" using order [of j] j c by (simp add: prs)
      qed
      moreover have "n - c < n - i" "1 \<le> c" using c by auto
      ultimately obtain e' where "sift_down ?e n c = Some e'" "full e' n" "heap_ordered e' n"
        "shuffled n ?e e'" using less.hyps full' by blast
      moreover have "shuffled n e ?e"
        using less.prems c by (intro shuffled_swap) (auto simp: full_def)
      ultimately show ?thesis using step False by (auto intro: shuffled_trans)
    qed
  qed
qed


section \<open>The queue as a bag of messages\<close>

text \<open>
  The invariant of an initialized queue: the array has \<open>size\<close> slots, those below \<open>ptr\<close> (but
  slot \<open>0\<close>) hold the messages in heap order, the others are \<open>NULL\<close>, and every message has a frame
  left to live. The abstraction is the bag of the queued messages.
\<close>

definition mq_inv :: "msg_queue \<Rightarrow> bool" where
  "mq_inv q \<longleftrightarrow> length (mq_elems q) = mq_size q \<and> 1 \<le> mq_ptr q \<and> mq_ptr q \<le> mq_size q \<and>
     full (mq_elems q) (mq_ptr q) \<and> heap_ordered (mq_elems q) (mq_ptr q) \<and>
     (\<forall>i. mq_ptr q \<le> i \<and> i < mq_size q \<longrightarrow> mq_elems q ! i = None) \<and>
     (\<forall>x. Some x \<in># contents (mq_elems q) (mq_ptr q) \<longrightarrow> 1 \<le> qe_duration x)"

definition mq_bag :: "msg_queue \<Rightarrow> queue_elem multiset" where
  "mq_bag q = image_mset the (contents (mq_elems q) (mq_ptr q))"

lemma contents_1 [simp]: "contents e (Suc 0) = {#}"
  by (simp add: contents_def)

lemma contents_Suc:
  "1 \<le> n \<Longrightarrow> n < length e \<Longrightarrow> contents e (Suc n) = add_mset (e ! n) (contents e n)"
  by (simp add: contents_def take_Suc_conv_app_nth)

lemma contents_head:
  assumes "1 < n" and "n \<le> length e"
  shows "contents e n = add_mset (e ! 1) (mset (drop 2 (take n e)))"
proof -
  have "drop 1 (take n e) = take n e ! 1 # drop 2 (take n e)"
    using assms Cons_nth_drop_Suc [of 1 "take n e"] by (simp add: numeral_2_eq_2)
  with assms show ?thesis by (simp add: contents_def)
qed

lemma contents_update_above [simp]: "n \<le> i \<Longrightarrow> contents (e[i := x]) n = contents e n"
  by (simp add: contents_def)

lemma in_contents: "full e n \<Longrightarrow> p \<in># contents e n \<longleftrightarrow> (\<exists>i. 1 \<le> i \<and> i < n \<and> p = e ! i)"
proof
  assume f: "full e n" and "p \<in># contents e n"
  then obtain i where "i < n - 1" "p = e ! Suc i"
    by (auto simp: contents_def full_def in_set_conv_nth)
  then show "\<exists>i. 1 \<le> i \<and> i < n \<and> p = e ! i" by (intro exI [of _ "Suc i"]) auto
next
  assume f: "full e n" and "\<exists>i. 1 \<le> i \<and> i < n \<and> p = e ! i"
  then obtain i where "1 \<le> i" "i < n" "p = e ! i" by blast
  with f show "p \<in># contents e n"
    by (auto simp: contents_def full_def in_set_conv_nth intro!: exI [of _ "i - 1"])
qed

lemma mq_bag_iff:
  assumes "mq_inv q"
  shows "x \<in># mq_bag q \<longleftrightarrow> Some x \<in># contents (mq_elems q) (mq_ptr q)"
proof -
  have "None \<notin># contents (mq_elems q) (mq_ptr q)"
    using assms by (auto simp: mq_inv_def in_contents full_def)
  then have "p \<in># contents (mq_elems q) (mq_ptr q) \<Longrightarrow> p = Some (the p)" for p
    by (cases p) auto
  then show ?thesis unfolding mq_bag_def by (force simp: image_iff)
qed

lemma size_contents: "n \<le> length e \<Longrightarrow> size (contents e n) = n - 1"
  by (simp add: contents_def)

lemma size_mq_bag: "mq_inv q \<Longrightarrow> size (mq_bag q) = mq_ptr q - 1"
  by (simp add: mq_bag_def mq_inv_def size_contents)

lemma mq_bag_empty: "mq_inv q \<Longrightarrow> mq_bag q = {#} \<longleftrightarrow> mq_ptr q = 1"
  using size_mq_bag [of q] by (auto simp: mq_inv_def simp flip: size_eq_0_iff_empty)

lemma root_is_max:
  assumes "heap_ordered e n" "1 \<le> i" "i < n"
  shows "pr e i \<le> pr e 1"
  using assms(2,3)
proof (induction i rule: less_induct)
  case (less i)
  show ?case
  proof (cases "i = 1")
    case False
    then have "pr e i \<le> pr e (i div 2)" using assms(1) less.prems by (simp add: heap_ordered_def)
    also have "\<dots> \<le> pr e 1" using less.IH [of "i div 2"] less.prems False by simp
    finally show ?thesis .
  qed simp
qed

lemma shuffled_inv:
  assumes "shuffled n e e'" and "n \<le> i" shows "e' ! i = e ! i"
  using assms by (simp add: shuffled_def)

text \<open>The element taken out does not influence how the others are arranged.\<close>

lemma remove_front_update:
  assumes "1 < mq_ptr q" and "1 < length (mq_elems q)"
  shows "msg_queue_remove_front (q\<lparr>mq_elems := (mq_elems q)[1 := y]\<rparr>) =
    map_option (\<lambda>(_, q'). (y, q')) (msg_queue_remove_front q)"
  using assms
  by (cases "mq_ptr q = 2")
    (simp_all add: msg_queue_remove_front_def arr_get_def arr_set_def map_option_bind comp_def
      Let_def)

section \<open>Each operation on the bag\<close>

definition new_message :: "string option \<Rightarrow> u32 \<Rightarrow> u32 \<Rightarrow> string option \<Rightarrow> message_queue_icon \<Rightarrow>
  message_queue_category \<Rightarrow> queue_elem" where
  "new_message msg prio duration title icon category =
     \<lparr>qe_msg = msg, qe_title = title, qe_duration = (if duration \<noteq> 0 then duration else 1),
      qe_prio = prio, qe_icon = icon, qe_category = category\<rparr>"

text \<open>The size of the block \<open>msg_queue_try_push\<close> allocates for a message.\<close>

definition message_block :: "string option \<Rightarrow> string option \<Rightarrow> nat" where
  "message_block msg title = sizeof_queue_elem +
     (case msg of None \<Rightarrow> 0 | Some m \<Rightarrow> length m + 1) +
     (case title of None \<Rightarrow> 0 | Some t \<Rightarrow> length t + 1)"

lemma insert_correct:
  assumes inv: "mq_inv q" and room: "mq_ptr q < mq_size q" and dur: "1 \<le> qe_duration x"
  shows "\<exists>e. sift_up ((mq_elems q)[mq_ptr q := Some x]) (mq_ptr q) = Some e \<and>
    mq_inv (q\<lparr>mq_elems := e, mq_ptr := mq_ptr q + 1\<rparr>) \<and>
    contents e (mq_ptr q + 1) = add_mset (Some x) (contents (mq_elems q) (mq_ptr q))"
proof -
  let ?n = "mq_ptr q" and ?e = "(mq_elems q)[mq_ptr q := Some x]"
  note i = inv [unfolded mq_inv_def]
  have len: "length (mq_elems q) = mq_size q" "1 \<le> ?n" using i by auto
  have f: "full ?e (?n + 1)" using i room by (auto simp: full_def nth_list_update)
  have pr_below: "pr ?e j = pr (mq_elems q) j" if "j < ?n" for j using that by (simp add: pr_def)
  have "heap_but ?e (?n + 1) ?n"
    unfolding heap_but_def
  proof (intro conjI allI impI)
    fix j assume "2 \<le> j \<and> j < ?n + 1 \<and> j \<noteq> ?n"
    then have "2 \<le> j" "j < ?n" "j div 2 < ?n" by auto
    with i show "pr ?e j \<le> pr ?e (j div 2)" by (simp add: pr_below heap_ordered_def)
  next
    fix j assume "2 \<le> ?n \<and> j < ?n + 1 \<and> j div 2 = ?n"
    then show "pr ?e j \<le> pr ?e (?n div 2)" by linarith
  qed
  from sift_up_correct [OF f len(2) _ this] obtain e where
    e: "sift_up ?e ?n = Some e" "full e (?n + 1)" "heap_ordered e (?n + 1)" "shuffled (?n + 1) ?e e"
    by auto
  have c: "contents e (?n + 1) = add_mset (Some x) (contents (mq_elems q) ?n)"
    using shuffled_contents [OF e(4)] room len by (simp add: contents_Suc)
  moreover have "mq_inv (q\<lparr>mq_elems := e, mq_ptr := mq_ptr q + 1\<rparr>)"
    using i room dur e c shuffled_inv [OF e(4)] by (auto simp: mq_inv_def shuffled_def)
  ultimately show ?thesis using e(1) by blast
qed

lemma remove_front_correct:
  assumes inv: "mq_inv q" and some: "1 < mq_ptr q"
  shows "\<exists>x q'. mq_elems q ! 1 = Some x \<and> msg_queue_remove_front q = Some (Some x, q') \<and>
    mq_inv q' \<and> mq_bag q = add_mset x (mq_bag q') \<and> mq_ptr q' = mq_ptr q - 1 \<and>
    mq_size q' = mq_size q \<and> (\<forall>y \<in># mq_bag q. qe_prio y \<le> qe_prio x)"
proof -
  let ?e = "mq_elems q" and ?n = "mq_ptr q" and ?m = "mq_ptr q - 1"
  let ?d = "?e[1 := ?e ! ?m, ?m := None]"
  note i = inv [unfolded mq_inv_def]
  have m: "1 \<le> ?m" "?n = Suc ?m" "?m < length ?e" using some i by auto
  obtain x where x: "?e ! 1 = Some x" using i some by (fastforce simp: full_def)
  have f: "full ?d ?m" using i m by (auto simp: full_def nth_list_update)
  have same: "?d ! j = ?e ! j" if "j \<noteq> 1" "j \<noteq> ?m" for j using that by simp
  have "heap_above ?d ?m 1"
    using i by (auto simp: heap_above_def heap_ordered_def pr_def nth_list_update)
  from sift_down_correct [OF f _ this] obtain e where
    e: "sift_down ?d ?m 1 = Some e" "full e ?m" "heap_ordered e ?m" "shuffled ?m ?d e" by auto
  let ?q = "q\<lparr>mq_elems := e, mq_ptr := ?m\<rparr>"
  have run: "msg_queue_remove_front q = Some (Some x, ?q)"
    using m x e(1) by (simp add: msg_queue_remove_front_def arr_get_def arr_set_def)
  have "contents ?e ?n = add_mset (Some x) (contents ?d ?m)"
  proof (cases "?m = 1")
    case True
    then have "?n = Suc 1" using m by simp
    with m x show ?thesis by (simp add: contents_Suc)
  next
    case False
    have "drop 2 (take ?m ?d) = drop 2 (take ?m ?e)"
      using m by (intro nth_equalityI) auto
    with False have "contents ?e ?m = add_mset (?e ! 1) (mset (drop 2 (take ?m ?e)))"
      "contents ?d ?m = add_mset (?e ! ?m) (mset (drop 2 (take ?m ?e)))"
      using m by (subst contents_head; simp)+
    moreover have "contents ?e ?n = add_mset (?e ! ?m) (contents ?e ?m)"
      using contents_Suc [of ?m ?e] m by simp
    ultimately show ?thesis using x by simp
  qed
  then have c: "contents ?e ?n = add_mset (Some x) (contents e ?m)"
    using shuffled_contents [OF e(4)] m by simp
  have "mq_inv ?q"
    using i m e c shuffled_inv [OF e(4)] by (auto simp: mq_inv_def shuffled_def nth_list_update)
  moreover have "mq_bag q = add_mset x (mq_bag ?q)" using c by (simp add: mq_bag_def)
  moreover have "qe_prio y \<le> qe_prio x" if "y \<in># mq_bag q" for y
  proof -
    from that mq_bag_iff [OF inv] in_contents i obtain j where "1 \<le> j" "j < ?n" "?e ! j = Some y"
      by metis
    with root_is_max [of ?e ?n j] i x show ?thesis by (simp add: pr_def)
  qed
  ultimately show ?thesis using x run by auto
qed


lemma push_correct:
  assumes "mq_inv q" and "message_block msg title \<le> SIZE_MAX"
  shows "\<exists>q'. msg_queue_try_push malloc_ok (Some q) msg prio duration title icon category =
      Some (mq_ptr q < mq_size q \<and> malloc_ok, Some q') \<and> mq_inv q' \<and>
    mq_size q' = mq_size q \<and> mq_tmp q' = mq_tmp q \<and>
    mq_bag q' = (if mq_ptr q < mq_size q \<and> malloc_ok
                 then add_mset (new_message msg prio duration title icon category) (mq_bag q)
                 else mq_bag q)"
proof (cases "mq_ptr q < mq_size q \<and> malloc_ok")
  case False
  then show ?thesis using assms by (auto simp: message_block_def Let_def)
next
  case True
  let ?x = "new_message msg prio duration title icon category"
  have "1 \<le> qe_duration ?x"
    by (auto simp: new_message_def word_le_nat_alt Suc_le_eq unat_gt_0)
  with insert_correct [OF assms(1)] True obtain e where
    e: "sift_up ((mq_elems q)[mq_ptr q := Some ?x]) (mq_ptr q) = Some e"
      "mq_inv (q\<lparr>mq_elems := e, mq_ptr := mq_ptr q + 1\<rparr>)"
      "contents e (mq_ptr q + 1) = add_mset (Some ?x) (contents (mq_elems q) (mq_ptr q))"
    by blast
  have "mq_ptr q < length (mq_elems q)" using assms(1) True by (simp add: mq_inv_def)
  then have "msg_queue_try_push malloc_ok (Some q) msg prio duration title icon category =
      Some (True, Some (q\<lparr>mq_elems := e, mq_ptr := mq_ptr q + 1\<rparr>))"
    using True e(1) assms(2)
    by (cases msg; cases title)
      (simp_all add: Let_def message_block_def arr_set_Some new_message_def sizeof_queue_elem_def
        not_less, linarith+)
  moreover have "mq_bag (q\<lparr>mq_elems := e, mq_ptr := mq_ptr q + 1\<rparr>) = add_mset ?x (mq_bag q)"
    using e(3) by (simp add: mq_bag_def)
  ultimately show ?thesis using True e(2) by auto
qed

lemma new_queue_inv:
  assumes "msg_queue_new (Some q0) True n = Some q"
  shows "mq_inv q \<and> mq_bag q = {#} \<and> mq_size q = n + 1 \<and> mq_ptr q = 1"
  using assms
  by (auto simp: msg_queue_new_def mq_inv_def mq_bag_def full_def heap_ordered_def
      split: if_splits)

text \<open>The entry that describes a message.\<close>

definition entry_of :: "queue_elem \<Rightarrow> msg_queue_entry" where
  "entry_of x = \<lparr>en_duration = qe_duration x, en_prio = qe_prio x, en_icon = qe_icon x,
     en_category = qe_category x,
     en_msg = (case qe_msg x of None \<Rightarrow> [] | Some m \<Rightarrow> take 1023 m),
     en_title = (case qe_title x of None \<Rightarrow> [] | Some t \<Rightarrow> take 1023 t)\<rparr>"

lemma extract_correct:
  assumes "mq_inv q"
  shows "(mq_bag q = {#} \<longrightarrow>
      msg_queue_extract (Some q) (Some en) = Some (False, Some q, Some en)) \<and>
    (mq_bag q \<noteq> {#} \<longrightarrow> (\<exists>x q'.
      msg_queue_extract (Some q) (Some en) = Some (True, Some q', Some (entry_of x)) \<and>
      mq_inv q' \<and> mq_size q' = mq_size q \<and>
      mq_bag q = add_mset x (mq_bag q') \<and> (\<forall>y \<in># mq_bag q. qe_prio y \<le> qe_prio x)))"
proof (cases "mq_ptr q = 1")
  case True
  with assms show ?thesis by (simp add: mq_bag_empty)
next
  case False
  with assms have "1 < mq_ptr q" by (simp add: mq_inv_def)
  from remove_front_correct [OF assms this] obtain x q' where
    "msg_queue_remove_front q = Some (Some x, q')" "mq_inv q'" "mq_size q' = mq_size q"
    "mq_bag q = add_mset x (mq_bag q')" "\<forall>y \<in># mq_bag q. qe_prio y \<le> qe_prio x" by blast
  with False assms show ?thesis by (auto simp: mq_bag_empty entry_of_def)
qed

lemma pull_correct:
  assumes inv: "mq_inv q" and some: "mq_bag q \<noteq> {#}"
  shows "\<exists>x q'. msg_queue_pull (Some q) = Some (qe_msg x, Some q') \<and> mq_inv q' \<and>
    mq_size q' = mq_size q \<and> x \<in># mq_bag q \<and> (\<forall>y \<in># mq_bag q. qe_prio y \<le> qe_prio x) \<and>
    (let shown = x\<lparr>qe_duration := qe_duration x - 1\<rparr> in
     if 1 < qe_duration x
     then mq_bag q' = add_mset shown (mq_bag q - {#x#}) \<and> mq_tmp q' = mq_tmp q
     else mq_bag q' = mq_bag q - {#x#} \<and> mq_tmp q' = Some shown)"
proof -
  let ?e = "mq_elems q" and ?n = "mq_ptr q"
  note i = inv [unfolded mq_inv_def]
  have n: "1 < ?n" "1 < length ?e" using some i mq_bag_empty [OF inv] by auto
  obtain x where x: "?e ! 1 = Some x" using i n by (fastforce simp: full_def)
  let ?y = "x\<lparr>qe_duration := qe_duration x - 1\<rparr>"
  let ?r = "q\<lparr>mq_elems := ?e[1 := Some ?y]\<rparr>"
  have "pr (?e[1 := Some ?y]) j = pr ?e j" for j
    using x n by (cases "j = 1") (auto simp: pr_def)
  then have ordered: "heap_ordered (?e[1 := Some ?y]) ?n"
    using i by (simp only: heap_ordered_def) blast
  have x_in: "Some x \<in># contents ?e ?n" using x i n by (metis in_contents le_refl)
  then have x_bag: "x \<in># mq_bag q" and live: "1 \<le> qe_duration x"
    using i by (auto simp: mq_bag_iff [OF inv])
  have max: "\<forall>y \<in># mq_bag q. qe_prio y \<le> qe_prio x"
    using remove_front_correct [OF inv n(1)] x by auto
  have tail: "contents ?e ?n = add_mset (Some x) (mset (drop 2 (take ?n ?e)))"
    "contents (?e[1 := Some ?y]) ?n = add_mset (Some ?y) (mset (drop 2 (take ?n ?e)))"
    using x n i by (subst contents_head; simp add: take_update_swap)+
  then have bag: "mq_bag ?r = add_mset ?y (mq_bag q - {#x#})" by (simp add: mq_bag_def)
  show ?thesis
  proof (cases "1 < qe_duration x")
    case True
    then have "0 < qe_duration ?y" "1 \<le> qe_duration ?y"
      using live by (simp_all add: word_less_nat_alt word_le_nat_alt unat_sub)
    then have "mq_inv ?r"
      using i n tail ordered by (auto simp: mq_inv_def full_def nth_list_update)
    moreover have "msg_queue_pull (Some q) = Some (qe_msg x, Some ?r)"
      using n x \<open>0 < qe_duration ?y\<close> by (simp add: slot_def arr_get_def arr_set_def)
    ultimately show ?thesis using True x_bag max bag by auto
  next
    case False
    then have last: "qe_duration x = 1" using live by simp
    from remove_front_correct [OF inv n(1)] x obtain q' where
      q': "msg_queue_remove_front q = Some (Some x, q')" "mq_inv q'"
        "mq_bag q = add_mset x (mq_bag q')" "mq_size q' = mq_size q" by auto
    have "msg_queue_remove_front ?r = Some (Some ?y, q')"
      using remove_front_update [OF n, of "Some ?y"] q'(1) by simp
    then have "msg_queue_pull (Some q) = Some (qe_msg x, Some (q'\<lparr>mq_tmp := Some ?y\<rparr>))"
      using n x last by (simp add: slot_def arr_get_def arr_set_def)
    moreover have "mq_inv (q'\<lparr>mq_tmp := Some ?y\<rparr>)" "mq_bag (q'\<lparr>mq_tmp := Some ?y\<rparr>) = mq_bag q'"
      using q'(2) by (simp_all add: mq_inv_def mq_bag_def)
    ultimately show ?thesis using last x_bag max q'(3,4) by auto
  qed
qed


lemma clear_slots_correct:
  "i + n \<le> length e \<Longrightarrow> \<exists>e'. clear_slots n i e = Some e' \<and> length e' = length e \<and>
     (\<forall>j < length e. e' ! j = (if i \<le> j \<and> j < i + n then None else e ! j))"
proof (induction n arbitrary: i e)
  case (Suc n)
  let ?e = "e[i := None]"
  from Suc.prems have "arr_get e i = Some (e ! i)" "arr_set e i None = Some ?e"
    by (simp_all add: arr_get_def arr_set_def)
  then have "clear_slots (Suc n) i e = clear_slots n (i + 1) (if e ! i \<noteq> None then ?e else e)"
    by simp
  also have "(if e ! i \<noteq> None then ?e else e) = ?e" by (metis list_update_id)
  finally show ?case using Suc.IH [of "i + 1" ?e] Suc.prems by (auto simp: nth_list_update)
qed auto

lemma clear_correct:
  assumes "mq_inv q"
  shows "\<exists>q'. msg_queue_clear (Some q) = Some (Some q') \<and> mq_inv q' \<and> mq_bag q' = {#} \<and>
    mq_size q' = mq_size q \<and> (\<forall>i < mq_size q. 1 \<le> i \<longrightarrow> mq_elems q' ! i = None)"
proof -
  from assms have len: "1 + (mq_ptr q - 1) \<le> length (mq_elems q)" by (simp add: mq_inv_def)
  from clear_slots_correct [OF len] obtain e where
    "clear_slots (mq_ptr q - 1) 1 (mq_elems q) = Some e" "length e = length (mq_elems q)"
    "\<forall>j < length e. e ! j = (if 1 \<le> j \<and> j < mq_ptr q then None else mq_elems q ! j)"
    using assms by (auto simp: mq_inv_def)
  with assms show ?thesis
    by (auto simp: mq_inv_def mq_bag_def full_def heap_ordered_def)
qed

section \<open>Runs of the queue\<close>

datatype mq_op =
    Mq_push bool "string option" u32 u32 "string option" message_queue_icon message_queue_category
  | Mq_pull
  | Mq_extract msg_queue_entry
  | Mq_clear

fun mq_step :: "mq_op \<Rightarrow> msg_queue \<Rightarrow> msg_queue option" where
  "mq_step (Mq_push ok msg prio duration title icon category) q = do {
     q \<leftarrow> msg_queue_push ok (Some q) msg prio duration title icon category; q }"
| "mq_step Mq_pull q = do { (_, q) \<leftarrow> msg_queue_pull (Some q); q }"
| "mq_step (Mq_extract en) q = do { (_, q, _) \<leftarrow> msg_queue_extract (Some q) (Some en); q }"
| "mq_step Mq_clear q = do { q \<leftarrow> msg_queue_clear (Some q); q }"

fun mq_run :: "mq_op list \<Rightarrow> msg_queue \<Rightarrow> msg_queue option" where
  "mq_run [] q = Some q"
| "mq_run (opn # ops) q = do { q \<leftarrow> mq_step opn q; mq_run ops q }"

fun mq_op_ok :: "mq_op \<Rightarrow> bool" where
  "mq_op_ok (Mq_push ok msg prio duration title icon category) =
     (message_block msg title \<le> SIZE_MAX)"
| "mq_op_ok opn = True"

lemma mq_step_inv:
  assumes "mq_inv q" and "mq_op_ok opn"
  shows "\<exists>q'. mq_step opn q = Some q' \<and> mq_inv q' \<and> mq_size q' = mq_size q"
proof (cases opn)
  case (Mq_push ok msg prio duration title icon category)
  with assms push_correct [OF assms(1), of msg title ok prio duration icon category]
  obtain b q' where "msg_queue_try_push ok (Some q) msg prio duration title icon category =
      Some (b, Some q')" "mq_inv q'" "mq_size q' = mq_size q"
    by (auto simp del: msg_queue_try_push.simps)
  with Mq_push show ?thesis by (simp add: msg_queue_push_def del: msg_queue_try_push.simps)
next
  case Mq_pull
  show ?thesis
  proof (cases "mq_bag q = {#}")
    case True
    with Mq_pull assms show ?thesis by (simp add: mq_bag_empty)
  next
    case False
    from pull_correct [OF assms(1) False] obtain m q' where
      "msg_queue_pull (Some q) = Some (m, Some q')" "mq_inv q'" "mq_size q' = mq_size q" by blast
    with Mq_pull show ?thesis by (simp del: msg_queue_pull.simps)
  qed
next
  case (Mq_extract en)
  with extract_correct [OF assms(1), of en] assms show ?thesis
    by (cases "mq_bag q = {#}") (auto simp del: msg_queue_extract.simps)
next
  case Mq_clear
  with clear_correct [OF assms(1)] show ?thesis by (auto simp del: msg_queue_clear.simps)
qed

lemma mq_run_inv:
  "mq_inv q \<Longrightarrow> list_all mq_op_ok ops \<Longrightarrow>
   \<exists>q'. mq_run ops q = Some q' \<and> mq_inv q' \<and> mq_size q' = mq_size q"
proof (induction ops arbitrary: q)
  case (Cons opn ops)
  then obtain q' where q': "mq_step opn q = Some q'" "mq_inv q'" "mq_size q' = mq_size q"
    using mq_step_inv [of q opn] by auto
  from Cons.IH [OF q'(2)] Cons.prems q' show ?case by auto
qed simp

text \<open>The client that empties the queue with \<open>msg_queue_extract\<close>, reusing one entry.\<close>

definition mq_take :: "msg_queue_entry \<Rightarrow> msg_queue \<Rightarrow> (msg_queue_entry \<times> msg_queue) option" where
  "mq_take en q = (case msg_queue_extract (Some q) (Some en) of
     Some (True, Some q', Some en') \<Rightarrow> Some (en', q') | _ \<Rightarrow> None)"

definition mq_entries :: "msg_queue \<Rightarrow> msg_queue_entry multiset" where
  "mq_entries q = image_mset entry_of (mq_bag q)"

interpretation mq: priority_store mq_inv mq_entries "mq_take en" en_prio
proof unfold_locales
  fix q assume inv: "mq_inv q" and "mq_entries q \<noteq> {#}"
  then have "mq_bag q \<noteq> {#}" by (simp add: mq_entries_def)
  with extract_correct [OF inv, of en] obtain x q' where
    "msg_queue_extract (Some q) (Some en) = Some (True, Some q', Some (entry_of x))" "mq_inv q'"
    "mq_bag q = add_mset x (mq_bag q')" "\<forall>y \<in># mq_bag q. qe_prio y \<le> qe_prio x" by blast
  then show "\<exists>x q'. mq_take en q = Some (x, q') \<and> mq_inv q' \<and>
      mq_entries q = add_mset x (mq_entries q') \<and> (\<forall>y \<in># mq_entries q. en_prio y \<le> en_prio x)"
    by (intro exI [of _ "entry_of x"] exI [of _ q'])
      (auto simp: mq_take_def mq_entries_def entry_of_def)
qed

section \<open>The properties\<close>

text \<open>
  Pushing on an initialized queue: a full queue and a failed allocation change nothing and
  return \<open>false\<close>; otherwise exactly the new message (with a duration of at least one frame) is
  added to the bag of queued messages, and the heap invariant holds again.
\<close>

theorem msg_queue_push_adds:
  assumes "mq_inv q" and "message_block msg title \<le> SIZE_MAX"
  shows "\<exists>q'. msg_queue_try_push malloc_ok (Some q) msg prio duration title icon category =
      Some (mq_ptr q < mq_size q \<and> malloc_ok, Some q') \<and> mq_inv q' \<and>
    mq_size q' = mq_size q \<and> mq_tmp q' = mq_tmp q \<and>
    mq_bag q' = (if mq_ptr q < mq_size q \<and> malloc_ok
                 then add_mset (new_message msg prio duration title icon category) (mq_bag q)
                 else mq_bag q)"
  by (rule push_correct [OF assms])

text \<open>
  \<open>msg_queue_pull\<close> returns the text of a message of maximal priority. While that message has
  frames left it stays queued with one frame less; on its last frame it leaves the queue, and the
  queue keeps it (\<open>tmp\<close>) until the next removal, so that the returned text stays valid.
\<close>

theorem msg_queue_pull_shows_max:
  assumes "mq_inv q" and "mq_bag q \<noteq> {#}"
  shows "\<exists>x q'. msg_queue_pull (Some q) = Some (qe_msg x, Some q') \<and> mq_inv q' \<and>
    mq_size q' = mq_size q \<and> x \<in># mq_bag q \<and> (\<forall>y \<in># mq_bag q. qe_prio y \<le> qe_prio x) \<and>
    (let shown = x\<lparr>qe_duration := qe_duration x - 1\<rparr> in
     if 1 < qe_duration x
     then mq_bag q' = add_mset shown (mq_bag q - {#x#}) \<and> mq_tmp q' = mq_tmp q
     else mq_bag q' = mq_bag q - {#x#} \<and> mq_tmp q' = Some shown)"
  by (rule pull_correct [OF assms])

text \<open>
  C28. On a queue made by \<open>msg_queue_new\<close>, no sequence of pushes, pulls, extractions and clears
  accesses anything outside the array or through a \<open>NULL\<close> slot; \<open>msg_queue_size\<close> is then the
  number of queued messages, and extracting that many yields all of them, in order of
  non-increasing priority.
\<close>

theorem msg_queue_run_then_drain:
  assumes "msg_queue_new (Some q0) True len = Some q" and "list_all mq_op_ok ops"
  shows "\<exists>q'. mq_run ops q = Some q' \<and> msg_queue_size (Some q') = size (mq_bag q') \<and>
    mset (drain (mq_take en) (msg_queue_size (Some q')) q') = image_mset entry_of (mq_bag q') \<and>
    sorted_wrt (\<lambda>a b. en_prio b \<le> en_prio a) (drain (mq_take en) (msg_queue_size (Some q')) q')"
proof -
  from mq_run_inv [OF _ assms(2)] new_queue_inv [OF assms(1)] obtain q' where
    q': "mq_run ops q = Some q'" "mq_inv q'" by blast
  have "msg_queue_size (Some q') = size (mq_bag q')"
    using size_mq_bag [OF q'(2)] q'(2) by (simp add: mq_inv_def)
  with q' mq.drain_sorts [OF q'(2), of _ en] show ?thesis by (simp add: mq_entries_def)
qed

section \<open>The hypotheses hold at a concrete queue\<close>

definition demo_queue :: msg_queue where
  "demo_queue = \<lparr>mq_tmp = None,
     mq_elems = [None, Some (new_message (Some ''b'') 7 2 None MESSAGE_QUEUE_ICON_DEFAULT
                   MESSAGE_QUEUE_CATEGORY_ERROR),
                 Some (new_message (Some ''a'') 3 1 None MESSAGE_QUEUE_ICON_DEFAULT
                   MESSAGE_QUEUE_CATEGORY_INFO), None],
     mq_ptr = 3, mq_size = 4\<rparr>"

lemma demo_queue_inv: "mq_inv demo_queue" "mq_bag demo_queue \<noteq> {#}"
proof -
  have "1 \<le> i \<and> i < 3 \<longleftrightarrow> i = 1 \<or> i = 2" "2 \<le> i \<and> i < 3 \<longleftrightarrow> i = 2" "3 \<le> i \<and> i < 4 \<longleftrightarrow> i = 3"
    for i :: nat by auto
  then show "mq_inv demo_queue" "mq_bag demo_queue \<noteq> {#}"
    by (auto simp: demo_queue_def mq_inv_def mq_bag_def full_def heap_ordered_def contents_def
        pr_def new_message_def numeral_3_eq_3)
qed

lemma msg_queue_push_adds_witness:
  "\<exists>q'. msg_queue_try_push True (Some demo_queue) (Some ''c'') 9 0 None MESSAGE_QUEUE_ICON_DEFAULT
     MESSAGE_QUEUE_CATEGORY_INFO = Some (True, Some q') \<and> mq_inv q' \<and>
     mq_bag q' = add_mset (new_message (Some ''c'') 9 0 None MESSAGE_QUEUE_ICON_DEFAULT
       MESSAGE_QUEUE_CATEGORY_INFO) (mq_bag demo_queue)"
proof -
  have "message_block (Some ''c'') None \<le> SIZE_MAX" "mq_ptr demo_queue < mq_size demo_queue"
    by (simp_all add: message_block_def sizeof_queue_elem_def SIZE_MAX_def demo_queue_def)
  with msg_queue_push_adds [OF demo_queue_inv(1) this(1), of True 9 0 MESSAGE_QUEUE_ICON_DEFAULT
      MESSAGE_QUEUE_CATEGORY_INFO]
  show ?thesis by (auto simp del: msg_queue_try_push.simps)
qed

lemma msg_queue_pull_shows_max_witness:
  "\<exists>m q'. msg_queue_pull (Some demo_queue) = Some (m, Some q') \<and> mq_inv q'"
  using msg_queue_pull_shows_max [OF demo_queue_inv] by blast

lemma msg_queue_run_then_drain_witness:
  "\<exists>q' q''. msg_queue_new (Some demo_queue) True 2 = Some q' \<and>
     mq_run [Mq_push True (Some ''x'') 1 1 None MESSAGE_QUEUE_ICON_DEFAULT
       MESSAGE_QUEUE_CATEGORY_INFO, Mq_pull, Mq_clear] q' = Some q''"
  using msg_queue_run_then_drain [of demo_queue 2 _
      "[Mq_push True (Some ''x'') 1 1 None MESSAGE_QUEUE_ICON_DEFAULT
          MESSAGE_QUEUE_CATEGORY_INFO, Mq_pull, Mq_clear]"]
  by (simp add: msg_queue_new_def SIZE_MAX_def message_block_def sizeof_queue_elem_def) blast

end
