(* ===== verification/BlockHash.thy ===== *)
theory BlockHash
  imports Prelude
begin

text \<open>
  What the streaming hashes of \<open>hash/lrc_hash.c\<close> and \<open>utils/md5.c\<close> have in common: a chaining
  value, a buffer of pending bytes, a compression function on whole blocks, and a padding with
  the message length. \<open>absorb\<close> is the abstract effect of feeding bytes; the locale
  \<open>streaming_hash\<close> is the contract of an \<open>init\<close>/\<open>update\<close>/\<open>final\<close> interface, and its lemma says
  that a message may be cut into chunks in any way.
\<close>

section \<open>Absorbing bytes block by block\<close>

function absorb :: "nat \<Rightarrow> ('s \<Rightarrow> byte list \<Rightarrow> 's) \<Rightarrow> 's \<Rightarrow> byte list \<Rightarrow> 's \<times> byte list" where
  "absorb B f s xs =
     (if 0 < B \<and> B \<le> length xs then absorb B f (f s (take B xs)) (drop B xs) else (s, xs))"
  by pat_completeness auto
termination by (relation "measure (\<lambda>(B, f, s, xs). length xs)") auto

declare absorb.simps [simp del]

named_theorems absorb_simps \<open>absorbing a short, a full and a longer input\<close>

lemma absorb_short [absorb_simps]: "length xs < B \<Longrightarrow> absorb B f s xs = (s, xs)"
  by (subst absorb.simps) simp

lemma absorb_block [absorb_simps]:
  "0 < B \<Longrightarrow> length b = B \<Longrightarrow> absorb B f s (b @ xs) = absorb B f (f s b) xs"
  by (subst absorb.simps) simp

lemma absorb_one [absorb_simps]: "0 < B \<Longrightarrow> length b = B \<Longrightarrow> absorb B f s b = (f s b, [])"
  using absorb_block [of B b f s "[]"] by (simp add: absorb_short)

lemma absorb_step:
  "0 < B \<Longrightarrow> B \<le> length xs \<Longrightarrow> absorb B f s xs = absorb B f (f s (take B xs)) (drop B xs)"
  by (subst absorb.simps) simp

lemma absorb_rest: "0 < B \<Longrightarrow> length (snd (absorb B f s xs)) = length xs mod B"
proof (induction "length xs" arbitrary: s xs rule: less_induct)
  case less
  show ?case
  proof (cases "B \<le> length xs")
    case True
    with less have "length (snd (absorb B f (f s (take B xs)) (drop B xs))) = (length xs - B) mod B"
      by simp
    with True less.prems show ?thesis by (simp only: absorb_step le_mod_geq)
  qed (simp add: absorb_short)
qed

lemma absorb_append:
  "0 < B \<Longrightarrow> absorb B f s (xs @ ys) = (let (s', r) = absorb B f s xs in absorb B f s' (r @ ys))"
proof (induction "length xs" arbitrary: s xs rule: less_induct)
  case less
  show ?case
  proof (cases "B \<le> length xs")
    case True
    have "absorb B f s (xs @ ys) = absorb B f (f s (take B xs)) (drop B xs @ ys)"
      using True less.prems by (subst absorb_step) simp_all
    also have "\<dots> = (let (s', r) = absorb B f (f s (take B xs)) (drop B xs) in absorb B f s' (r @ ys))"
      using True less.prems by (intro less.hyps) simp_all
    finally show ?thesis using True less.prems by (simp only: absorb_step)
  qed (simp add: absorb_short)
qed

text \<open>A whole number of blocks is a fold of the compression function.\<close>

fun blocks :: "nat \<Rightarrow> nat \<Rightarrow> byte list \<Rightarrow> byte list list" where
  "blocks B 0 xs = []"
| "blocks B (Suc n) xs = take B xs # blocks B n (drop B xs)"

lemma absorb_blocks:
  "0 < B \<Longrightarrow> length xs = n * B \<Longrightarrow> absorb B f s xs = (foldl f s (blocks B n xs), [])"
  by (induction n arbitrary: s xs) (simp_all add: absorb_short absorb_step)

lemma absorb_whole:
  assumes "0 < B" and "n * B \<le> length xs"
  shows "absorb B f s xs = absorb B f (fst (absorb B f s (take (n * B) xs))) (drop (n * B) xs)"
proof -
  have "length (take (n * B) xs) = n * B" using assms(2) by simp
  from absorb_blocks [OF assms(1) this, of f s] absorb_append [OF assms(1), of f s "take (n * B) xs" "drop (n * B) xs"]
  show ?thesis by simp
qed

lemma absorb_invariant:
  assumes "P s" and "\<And>s b. P s \<Longrightarrow> P (f s b)"
  shows "P (fst (absorb B f s xs))"
  using assms(1)
proof (induction "length xs" arbitrary: s xs rule: less_induct)
  case less
  show ?case
  proof (cases "0 < B \<and> B \<le> length xs")
    case True
    then have "length (drop B xs) < length xs" by auto
    from less.hyps [OF this assms(2) [OF less.prems]] True show ?thesis by (simp only: absorb_step)
  next
    case False
    then have "absorb B f s xs = (s, xs)" by (subst absorb.simps) auto
    with less.prems show ?thesis by simp
  qed
qed

section \<open>Rotations\<close>

text \<open>The shift-and-or idioms of the C code are rotations.\<close>

lemma shifts_rotr:
  fixes w :: "'a::len word"
  assumes "0 < s" and "s < LENGTH('a)"
  shows "drop_bit s w OR push_bit (LENGTH('a) - s) w = word_rotr s w"
proof (rule bit_word_eqI)
  fix n assume n: "n < LENGTH('a)"
  have "bit (word_rotr s w) n = bit w ((n + s) mod LENGTH('a))"
    using n assms by (simp only: bit_word_rotr_iff) simp
  also have "\<dots> = bit (drop_bit s w OR push_bit (LENGTH('a) - s) w) n"
  proof (cases "LENGTH('a) \<le> n + s")
    case True
    then have "(n + s) mod LENGTH('a) = n + s - LENGTH('a)"
      using n assms by (simp add: mod_if)
    moreover have "\<not> bit w (s + n)" using True by (auto dest: bit_imp_le_length)
    moreover have "n - (LENGTH('a) - s) = n + s - LENGTH('a)" "LENGTH('a) - s \<le> n"
      using True assms by simp_all
    ultimately show ?thesis using n
      by (simp only: bit_or_iff bit_push_bit_iff bit_drop_bit_eq comp_apply) simp
  next
    case False
    then have "(n + s) mod LENGTH('a) = s + n" "\<not> LENGTH('a) - s \<le> n" by simp_all
    then show ?thesis
      by (simp only: bit_or_iff bit_push_bit_iff bit_drop_bit_eq comp_apply) simp
  qed
  finally show "bit (drop_bit s w OR push_bit (LENGTH('a) - s) w) n = bit (word_rotr s w) n"
    by simp
qed

lemma shifts_rotl:
  fixes w :: "'a::len word"
  assumes "0 < s" and "s < LENGTH('a)"
  shows "push_bit s w OR drop_bit (LENGTH('a) - s) w = word_rotl s w"
proof -
  have "push_bit s w OR drop_bit (LENGTH('a) - s) w = word_rotr (LENGTH('a) - s) w"
    using shifts_rotr [of "LENGTH('a) - s" w] assms by (simp add: or.commute)
  then show ?thesis using assms by (simp add: word_rotl_eq_word_rotr)
qed

section \<open>Message schedules\<close>

text \<open>
  A loop that fills an array from index \<open>a\<close> on, each entry from the entries before it, computes
  the sequence that satisfies the recurrence.
\<close>

lemma fill_array:
  assumes "n \<le> length w" and "\<forall>j < a. w ! j = W j"
    and step: "\<And>i v. a \<le> i \<Longrightarrow> i < n \<Longrightarrow> \<forall>j < i. v ! j = W j \<Longrightarrow> f i v = W i"
  shows "length (fold (\<lambda>i w. w[i := f i w]) [a..<n] w) = length w \<and>
    (\<forall>j < max a n. fold (\<lambda>i w. w[i := f i w]) [a..<n] w ! j = W j)"
  using assms
proof (induction n)
  case (Suc n)
  show ?case
  proof (cases "a \<le> n")
    case True
    with Suc have IH: "length (fold (\<lambda>i w. w[i := f i w]) [a..<n] w) = length w"
      "\<forall>j < n. fold (\<lambda>i w. w[i := f i w]) [a..<n] w ! j = W j" by (simp_all add: max_def)
    then have "f n (fold (\<lambda>i w. w[i := f i w]) [a..<n] w) = W n"
      using Suc.prems(3) True by simp
    with IH True Suc.prems(1) show ?thesis by (auto simp: less_Suc_eq nth_list_update)
  next
    case False
    with Suc.prems(2) show ?thesis by (simp add: max_def)
  qed
qed (simp add: max_def)

lemma schedule_start:
  assumes "length w = n" and "16 \<le> n" and "\<And>t. t < 16 \<Longrightarrow> W t = M t"
  shows "length (fold (\<lambda>i w. w[i := M i]) [0..<16] w) = n \<and>
    (\<forall>j < 16. fold (\<lambda>i w. w[i := M i]) [0..<16] w ! j = W j)"
  using fill_array [of 16 w 0 W "\<lambda>i w. M i"] assms by simp

lemma fold_upt_split:
  "a \<le> b \<Longrightarrow> b \<le> c \<Longrightarrow> fold f [a..<c] s = fold f [b..<c] (fold f [a..<b] s)"
  using upt_add_eq_append [of a b "c - b"] by simp

section \<open>Padding\<close>

text \<open>
  \<open>0x80\<close>, as many zeros as fill the last block, and the encoded length \<open>enc\<close>.
\<close>

definition md_pad :: "nat \<Rightarrow> byte list \<Rightarrow> nat \<Rightarrow> byte list" where
  "md_pad B enc n =
     0x80 # replicate ((2 * B - 1 - length enc - n mod B) mod B) 0 @ enc"

lemma pad_near: "(2 * B - 1 - L - n) mod B = B - 1 - L - n" if "L + n + 1 \<le> B" for B :: nat
proof -
  have "2 * B - 1 - L - n = B - 1 - L - n + B" using that by simp
  then have "(2 * B - 1 - L - n) mod B = (B - 1 - L - n) mod B" by (simp only: mod_add_self2)
  also have "\<dots> = B - 1 - L - n" using that by (intro mod_less) simp
  finally show ?thesis .
qed

lemma pad_far: "(2 * B - 1 - L - n) mod B = (B - 1 - n) + (B - L)"
  if "n < B" "B < L + n + 1" "L < B" for B :: nat
  using that by simp

lemma md_pad_whole:
  assumes "length enc < B"
  shows "(n + length (md_pad B enc n)) mod B = 0"
proof -
  define m where "m = n mod B"
  have m: "m < B" using assms by (simp add: m_def)
  define z where "z = (2 * B - 1 - length enc - m) mod B"
  have "(m + (z + 1 + length enc)) mod B = 0"
  proof (cases "length enc + m + 1 \<le> B")
    case True
    then have "m + (z + 1 + length enc) = B"
      using pad_near [of "length enc" m B] m by (simp add: z_def)
    then show ?thesis by simp
  next
    case False
    then have "m + (z + 1 + length enc) = 2 * B"
      using pad_far [of m B "length enc"] m assms by (simp add: z_def)
    then show ?thesis by simp
  qed
  moreover have "length (md_pad B enc n) = z + 1 + length enc"
    by (simp add: md_pad_def z_def m_def)
  ultimately show ?thesis unfolding m_def by (simp only: mod_add_left_eq)
qed

lemma absorb_pad_near:
  assumes "length p + 1 + length enc \<le> B" and "n mod B = length p"
  shows "absorb B f s (p @ md_pad B enc n) =
    (f s (p @ 0x80 # replicate (B - 1 - length enc - length p) 0 @ enc), [])"
proof -
  have "(2 * B - 1 - length enc - n mod B) mod B = B - 1 - length enc - length p"
    using pad_near [of "length enc" "length p" B] assms by simp
  then show ?thesis using assms(1) unfolding md_pad_def by (simp only:) (simp add: absorb_one)
qed

lemma absorb_pad_far:
  assumes "length p < B" and "B < length p + 1 + length enc" and "length enc < B"
    and "n mod B = length p"
  shows "absorb B f s (p @ md_pad B enc n) =
    (f (f s (p @ 0x80 # replicate (B - 1 - length p) 0)) (replicate (B - length enc) 0 @ enc), [])"
proof -
  let ?b1 = "p @ (0x80::byte) # replicate (B - 1 - length p) 0"
  let ?b2 = "replicate (B - length enc) 0 @ enc"
  have "(2 * B - 1 - length enc - n mod B) mod B = (B - 1 - length p) + (B - length enc)"
    using pad_far [of "length p" B "length enc"] assms by simp
  then have "p @ md_pad B enc n = ?b1 @ ?b2"
    unfolding md_pad_def by (simp only: replicate_add append_assoc append_Cons)
  moreover have "0 < B" "length ?b1 = B" "length ?b2 = B" using assms by auto
  ultimately show ?thesis by (simp only: absorb_block absorb_one)
qed

text \<open>The hash of a whole message: the reference the streaming code is compared with.\<close>

definition md_hash :: "nat \<Rightarrow> ('s \<Rightarrow> byte list \<Rightarrow> 's) \<Rightarrow> 's \<Rightarrow> ('s \<Rightarrow> byte list) \<Rightarrow>
  (nat \<Rightarrow> byte list) \<Rightarrow> byte list \<Rightarrow> byte list" where
  "md_hash B f iv out enc msg =
     (let padded = msg @ md_pad B (enc (length msg)) (length msg)
      in out (foldl f iv (blocks B (length padded div B) padded)))"

lemma md_hash_absorb:
  assumes "length (enc (length msg)) < B"
  shows "md_hash B f iv out enc msg =
    out (fst (absorb B f iv (msg @ md_pad B (enc (length msg)) (length msg))))"
proof -
  let ?p = "msg @ md_pad B (enc (length msg)) (length msg)"
  have "length ?p mod B = 0" using md_pad_whole [OF assms, of "length msg"] by simp
  then have "length ?p = length ?p div B * B" by (metis add.right_neutral div_mult_mod_eq)
  then show ?thesis
    using assms by (simp add: md_hash_def Let_def absorb_blocks del: length_append)
qed

section \<open>The streaming interface\<close>

text \<open>Feeding the chunks of a message one after the other.\<close>

fun update_all :: "('c \<Rightarrow> byte list \<Rightarrow> 'c option) \<Rightarrow> 'c \<Rightarrow> byte list list \<Rightarrow> 'c option" where
  "update_all update c [] = Some c"
| "update_all update c (xs # xss) = do { c \<leftarrow> update c xs; update_all update c xss }"

locale streaming_hash =
  fixes B :: nat
    and f :: "'s \<Rightarrow> byte list \<Rightarrow> 's"
    and enc :: "nat \<Rightarrow> byte list"
    and out :: "'s \<Rightarrow> byte list"
    and inv :: "'c \<Rightarrow> bool"
    and chain :: "'c \<Rightarrow> 's"
    and pending :: "'c \<Rightarrow> byte list"
    and count :: "'c \<Rightarrow> nat"
    and limit :: nat
    and update :: "'c \<Rightarrow> byte list \<Rightarrow> 'c option"
    and final :: "'c \<Rightarrow> byte list option"
  assumes length_enc: "length (enc n) < B"
    and pending_short: "inv c \<Longrightarrow> length (pending c) < B"
    and update: "inv c \<Longrightarrow> count c + length xs < limit \<Longrightarrow>
      \<exists>c'. update c xs = Some c' \<and> inv c' \<and> count c' = count c + length xs \<and>
        (chain c', pending c') = absorb B f (chain c) (pending c @ xs)"
    and final: "inv c \<Longrightarrow> count c < limit \<Longrightarrow> final c =
      Some (out (fst (absorb B f (chain c) (pending c @ md_pad B (enc (count c)) (count c)))))"
begin

lemma B_pos: "0 < B"
  using length_enc [of 0] by simp

lemma update_all_absorbs:
  assumes "inv c" and "count c + length (concat xss) < limit"
  shows "\<exists>c'. update_all update c xss = Some c' \<and> inv c' \<and>
    count c' = count c + length (concat xss) \<and>
    (chain c', pending c') = absorb B f (chain c) (pending c @ concat xss)"
  using assms
proof (induction xss arbitrary: c)
  case Nil
  then show ?case by (simp add: absorb_short pending_short)
next
  case (Cons xs xss)
  from update [of c xs] Cons.prems obtain c' where c': "update c xs = Some c'" "inv c'"
    "count c' = count c + length xs"
    "(chain c', pending c') = absorb B f (chain c) (pending c @ xs)" by auto
  from Cons.IH [OF c'(2)] Cons.prems c'(3) obtain c'' where c'': "update_all update c' xss = Some c''"
    "inv c''" "count c'' = count c' + length (concat xss)"
    "(chain c'', pending c'') = absorb B f (chain c') (pending c' @ concat xss)" by auto
  have "absorb B f (chain c) (pending c @ concat (xs # xss)) =
      absorb B f (chain c') (pending c' @ concat xss)"
    using absorb_append [OF B_pos, of f "chain c" "pending c @ xs" "concat xss"]
    by (simp flip: c'(4))
  with c' c'' show ?case by simp
qed

text \<open>Any way of cutting a message gives the reference hash of the whole message.\<close>

lemma streaming_correct:
  assumes "inv c" "pending c = []" "count c = 0" and "length (concat xss) < limit"
  shows "do { c \<leftarrow> update_all update c xss; final c } =
    Some (md_hash B f (chain c) out enc (concat xss))"
proof -
  let ?m = "concat xss"
  from update_all_absorbs [OF assms(1), of xss] assms(2-4) obtain c' where
    c': "update_all update c xss = Some c'" "inv c'" "count c' = length ?m"
    "(chain c', pending c') = absorb B f (chain c) ?m" by auto
  let ?pad = "md_pad B (enc (length ?m)) (length ?m)"
  have "absorb B f (chain c) (?m @ ?pad) = absorb B f (chain c') (pending c' @ ?pad)"
    using absorb_append [OF B_pos, of f "chain c" ?m ?pad] by (simp flip: c'(4))
  then show ?thesis
    using c' final [of c'] assms(4) by (simp add: md_hash_absorb length_enc)
qed

end

end
