(* ===== verification/Md5.thy ===== *)
theory Md5
  imports BlockHash
begin

text \<open>
  \<open>utils/md5.c\<close>. The context is a record; its buffer is a list of 64 bytes; the message length
  is kept as the code keeps it, in 29 low bits and 32 high bits. The compression is translated
  step by step as on x86, where \<open>MD5_SET\<close> and \<open>MD5_GET\<close> both read word \<open>n\<close> of the block, least
  significant byte first. The data argument is the list of the bytes from the pointer on.
\<close>

unbundle bit_operations_syntax

section \<open>State and operations\<close>

record MD5_CTX =
  md5_lo :: u32
  md5_hi :: u32
  md5_a :: u32
  md5_b :: u32
  md5_c :: u32
  md5_d :: u32
  md5_buffer :: "byte list"

definition MD5_F :: "u32 \<Rightarrow> u32 \<Rightarrow> u32 \<Rightarrow> u32" where
  "MD5_F x y z = z XOR (x AND (y XOR z))"

definition MD5_G :: "u32 \<Rightarrow> u32 \<Rightarrow> u32 \<Rightarrow> u32" where
  "MD5_G x y z = y XOR (z AND (x XOR y))"

definition MD5_H :: "u32 \<Rightarrow> u32 \<Rightarrow> u32 \<Rightarrow> u32" where
  "MD5_H x y z = (x XOR y) XOR z"

definition MD5_H2 :: "u32 \<Rightarrow> u32 \<Rightarrow> u32 \<Rightarrow> u32" where
  "MD5_H2 x y z = x XOR (y XOR z)"

definition MD5_I :: "u32 \<Rightarrow> u32 \<Rightarrow> u32 \<Rightarrow> u32" where
  "MD5_I x y z = y XOR (x OR NOT z)"

definition MD5_STEP :: "(u32 \<Rightarrow> u32 \<Rightarrow> u32 \<Rightarrow> u32) \<Rightarrow> u32 \<Rightarrow> u32 \<Rightarrow> u32 \<Rightarrow> u32 \<Rightarrow> u32 \<Rightarrow> u32 \<Rightarrow> nat \<Rightarrow> u32" where
  "MD5_STEP f a b c d x t s =
     (let a = a + (f b c d + x + t);
          a = push_bit s a OR drop_bit (32 - s) (a AND 0xffffffff)
      in a + b)"

text \<open>Word \<open>n\<close> of a block (\<open>MD5_SET(n)\<close>, \<open>MD5_GET(n)\<close>).\<close>

definition MD5_GET :: "byte list \<Rightarrow> nat \<Rightarrow> u32" where
  "MD5_GET ptr n = ucast (ptr ! (n * 4)) OR push_bit 8 (ucast (ptr ! (n * 4 + 1))) OR
     push_bit 16 (ucast (ptr ! (n * 4 + 2))) OR push_bit 24 (ucast (ptr ! (n * 4 + 3)))"

type_synonym md5_regs = "u32 \<times> u32 \<times> u32 \<times> u32"

definition md5_round1 :: "(nat \<Rightarrow> u32) \<Rightarrow> md5_regs \<Rightarrow> md5_regs" where
  "md5_round1 get = (\<lambda>(a, b, c, d).
     let a = MD5_STEP MD5_F a b c d (get 0) 0xd76aa478 7;
         d = MD5_STEP MD5_F d a b c (get 1) 0xe8c7b756 12;
         c = MD5_STEP MD5_F c d a b (get 2) 0x242070db 17;
         b = MD5_STEP MD5_F b c d a (get 3) 0xc1bdceee 22;
         a = MD5_STEP MD5_F a b c d (get 4) 0xf57c0faf 7;
         d = MD5_STEP MD5_F d a b c (get 5) 0x4787c62a 12;
         c = MD5_STEP MD5_F c d a b (get 6) 0xa8304613 17;
         b = MD5_STEP MD5_F b c d a (get 7) 0xfd469501 22;
         a = MD5_STEP MD5_F a b c d (get 8) 0x698098d8 7;
         d = MD5_STEP MD5_F d a b c (get 9) 0x8b44f7af 12;
         c = MD5_STEP MD5_F c d a b (get 10) 0xffff5bb1 17;
         b = MD5_STEP MD5_F b c d a (get 11) 0x895cd7be 22;
         a = MD5_STEP MD5_F a b c d (get 12) 0x6b901122 7;
         d = MD5_STEP MD5_F d a b c (get 13) 0xfd987193 12;
         c = MD5_STEP MD5_F c d a b (get 14) 0xa679438e 17;
         b = MD5_STEP MD5_F b c d a (get 15) 0x49b40821 22
     in (a, b, c, d))"

definition md5_round2 :: "(nat \<Rightarrow> u32) \<Rightarrow> md5_regs \<Rightarrow> md5_regs" where
  "md5_round2 get = (\<lambda>(a, b, c, d).
     let a = MD5_STEP MD5_G a b c d (get 1) 0xf61e2562 5;
         d = MD5_STEP MD5_G d a b c (get 6) 0xc040b340 9;
         c = MD5_STEP MD5_G c d a b (get 11) 0x265e5a51 14;
         b = MD5_STEP MD5_G b c d a (get 0) 0xe9b6c7aa 20;
         a = MD5_STEP MD5_G a b c d (get 5) 0xd62f105d 5;
         d = MD5_STEP MD5_G d a b c (get 10) 0x02441453 9;
         c = MD5_STEP MD5_G c d a b (get 15) 0xd8a1e681 14;
         b = MD5_STEP MD5_G b c d a (get 4) 0xe7d3fbc8 20;
         a = MD5_STEP MD5_G a b c d (get 9) 0x21e1cde6 5;
         d = MD5_STEP MD5_G d a b c (get 14) 0xc33707d6 9;
         c = MD5_STEP MD5_G c d a b (get 3) 0xf4d50d87 14;
         b = MD5_STEP MD5_G b c d a (get 8) 0x455a14ed 20;
         a = MD5_STEP MD5_G a b c d (get 13) 0xa9e3e905 5;
         d = MD5_STEP MD5_G d a b c (get 2) 0xfcefa3f8 9;
         c = MD5_STEP MD5_G c d a b (get 7) 0x676f02d9 14;
         b = MD5_STEP MD5_G b c d a (get 12) 0x8d2a4c8a 20
     in (a, b, c, d))"

definition md5_round3 :: "(nat \<Rightarrow> u32) \<Rightarrow> md5_regs \<Rightarrow> md5_regs" where
  "md5_round3 get = (\<lambda>(a, b, c, d).
     let a = MD5_STEP MD5_H a b c d (get 5) 0xfffa3942 4;
         d = MD5_STEP MD5_H2 d a b c (get 8) 0x8771f681 11;
         c = MD5_STEP MD5_H c d a b (get 11) 0x6d9d6122 16;
         b = MD5_STEP MD5_H2 b c d a (get 14) 0xfde5380c 23;
         a = MD5_STEP MD5_H a b c d (get 1) 0xa4beea44 4;
         d = MD5_STEP MD5_H2 d a b c (get 4) 0x4bdecfa9 11;
         c = MD5_STEP MD5_H c d a b (get 7) 0xf6bb4b60 16;
         b = MD5_STEP MD5_H2 b c d a (get 10) 0xbebfbc70 23;
         a = MD5_STEP MD5_H a b c d (get 13) 0x289b7ec6 4;
         d = MD5_STEP MD5_H2 d a b c (get 0) 0xeaa127fa 11;
         c = MD5_STEP MD5_H c d a b (get 3) 0xd4ef3085 16;
         b = MD5_STEP MD5_H2 b c d a (get 6) 0x04881d05 23;
         a = MD5_STEP MD5_H a b c d (get 9) 0xd9d4d039 4;
         d = MD5_STEP MD5_H2 d a b c (get 12) 0xe6db99e5 11;
         c = MD5_STEP MD5_H c d a b (get 15) 0x1fa27cf8 16;
         b = MD5_STEP MD5_H2 b c d a (get 2) 0xc4ac5665 23
     in (a, b, c, d))"

definition md5_round4 :: "(nat \<Rightarrow> u32) \<Rightarrow> md5_regs \<Rightarrow> md5_regs" where
  "md5_round4 get = (\<lambda>(a, b, c, d).
     let a = MD5_STEP MD5_I a b c d (get 0) 0xf4292244 6;
         d = MD5_STEP MD5_I d a b c (get 7) 0x432aff97 10;
         c = MD5_STEP MD5_I c d a b (get 14) 0xab9423a7 15;
         b = MD5_STEP MD5_I b c d a (get 5) 0xfc93a039 21;
         a = MD5_STEP MD5_I a b c d (get 12) 0x655b59c3 6;
         d = MD5_STEP MD5_I d a b c (get 3) 0x8f0ccc92 10;
         c = MD5_STEP MD5_I c d a b (get 10) 0xffeff47d 15;
         b = MD5_STEP MD5_I b c d a (get 1) 0x85845dd1 21;
         a = MD5_STEP MD5_I a b c d (get 8) 0x6fa87e4f 6;
         d = MD5_STEP MD5_I d a b c (get 15) 0xfe2ce6e0 10;
         c = MD5_STEP MD5_I c d a b (get 6) 0xa3014314 15;
         b = MD5_STEP MD5_I b c d a (get 13) 0x4e0811a1 21;
         a = MD5_STEP MD5_I a b c d (get 4) 0xf7537e82 6;
         d = MD5_STEP MD5_I d a b c (get 11) 0xbd3af235 10;
         c = MD5_STEP MD5_I c d a b (get 2) 0x2ad7d2bb 15;
         b = MD5_STEP MD5_I b c d a (get 9) 0xeb86d391 21
     in (a, b, c, d))"

text \<open>One turn of the loop of \<open>MD5_body\<close>.\<close>

definition md5_compress :: "md5_regs \<Rightarrow> byte list \<Rightarrow> md5_regs" where
  "md5_compress regs ptr =
     (let (saved_a, saved_b, saved_c, saved_d) = regs;
          (a, b, c, d) = md5_round4 (MD5_GET ptr) (md5_round3 (MD5_GET ptr)
                           (md5_round2 (MD5_GET ptr) (md5_round1 (MD5_GET ptr) regs)))
      in (a + saved_a, b + saved_b, c + saved_c, d + saved_d))"

text \<open>The loop ends when \<open>size -= 64\<close> reaches \<open>0\<close>; it faults when the data is shorter.\<close>

function md5_body_loop :: "md5_regs \<Rightarrow> byte list \<Rightarrow> size_t \<Rightarrow> (md5_regs \<times> byte list) option" where
  "md5_body_loop regs ptr sz =
     (if length ptr < 64 then None
      else let regs = md5_compress regs (take 64 ptr);
               ptr = drop 64 ptr;
               sz = sz - 64
           in if sz \<noteq> 0 then md5_body_loop regs ptr sz else Some (regs, ptr))"
  by pat_completeness auto
termination by (relation "measure (\<lambda>(regs, ptr, sz). length ptr)") auto

declare md5_body_loop.simps [simp del]

definition MD5_body :: "MD5_CTX \<Rightarrow> byte list \<Rightarrow> size_t \<Rightarrow> (MD5_CTX \<times> byte list) option" where
  "MD5_body ctx data sz = do {
     ((a, b, c, d), ptr) \<leftarrow>
       md5_body_loop (md5_a ctx, md5_b ctx, md5_c ctx, md5_d ctx) data sz;
     Some (ctx\<lparr>md5_a := a, md5_b := b, md5_c := c, md5_d := d\<rparr>, ptr) }"

definition MD5_Init :: "MD5_CTX \<Rightarrow> MD5_CTX" where
  "MD5_Init ctx = ctx\<lparr>md5_a := 0x67452301, md5_b := 0xefcdab89, md5_c := 0x98badcfe,
     md5_d := 0x10325476, md5_lo := 0, md5_hi := 0\<rparr>"

text \<open>The end of \<open>MD5_Update\<close>: whole blocks from the data, the rest into the buffer.\<close>

definition md5_update_tail :: "MD5_CTX \<Rightarrow> byte list \<Rightarrow> size_t \<Rightarrow> MD5_CTX option" where
  "md5_update_tail ctx data sz = do {
     (ctx, data, sz) \<leftarrow>
       (if sz \<ge> 64
        then do {
          (ctx, data) \<leftarrow> MD5_body ctx data (sz AND NOT 0x3f);
          Some (ctx, data, sz AND 0x3f) }
        else Some (ctx, data, sz));
     bytes \<leftarrow> mem_read data 0 (unat sz);
     buffer \<leftarrow> mem_write (md5_buffer ctx) 0 bytes;
     Some (ctx\<lparr>md5_buffer := buffer\<rparr>) }"

definition MD5_Update :: "MD5_CTX \<Rightarrow> byte list \<Rightarrow> size_t \<Rightarrow> MD5_CTX option" where
  "MD5_Update ctx data sz =
     (let saved_lo = md5_lo ctx;
          lo = ucast ((ucast saved_lo + sz) AND 0x1fffffff);
          ctx = ctx\<lparr>md5_lo := lo\<rparr>;
          ctx = (if lo < saved_lo then ctx\<lparr>md5_hi := md5_hi ctx + 1\<rparr> else ctx);
          ctx = ctx\<lparr>md5_hi := md5_hi ctx + ucast (drop_bit 29 sz)\<rparr>;
          used = unat (saved_lo AND 0x3f)
      in if used \<noteq> 0
         then let available = 64 - used
              in if unat sz < available
                 then do {
                   bytes \<leftarrow> mem_read data 0 (unat sz);
                   buffer \<leftarrow> mem_write (md5_buffer ctx) used bytes;
                   Some (ctx\<lparr>md5_buffer := buffer\<rparr>) }
                 else do {
                   bytes \<leftarrow> mem_read data 0 available;
                   buffer \<leftarrow> mem_write (md5_buffer ctx) used bytes;
                   (ctx, _) \<leftarrow> MD5_body (ctx\<lparr>md5_buffer := buffer\<rparr>) buffer 64;
                   md5_update_tail ctx (drop available data) (sz - of_nat available) }
         else md5_update_tail ctx data sz)"

text \<open>The four bytes of a word, least significant first.\<close>

definition le_bytes :: "u32 \<Rightarrow> byte list" where
  "le_bytes w = [ucast w, ucast (drop_bit 8 w), ucast (drop_bit 16 w), ucast (drop_bit 24 w)]"

text \<open>
  The last block, with the length, and the result with the context, which the code zeroes;
  \<open>md5_final_tail\<close> is the code from the second \<open>memset\<close> on.
\<close>

definition md5_final_tail :: "MD5_CTX \<Rightarrow> nat \<Rightarrow> nat \<Rightarrow> (byte list \<times> MD5_CTX) option" where
  "md5_final_tail ctx used available = do {
     buffer \<leftarrow> mem_write (md5_buffer ctx) used (replicate (available - 8) 0);
     let ctx = ctx\<lparr>md5_lo := push_bit 3 (md5_lo ctx)\<rparr>;
     buffer \<leftarrow> mem_write buffer 56 (le_bytes (md5_lo ctx) @ le_bytes (md5_hi ctx));
     (ctx, _) \<leftarrow> MD5_body (ctx\<lparr>md5_buffer := buffer\<rparr>) buffer 64;
     Some (le_bytes (md5_a ctx) @ le_bytes (md5_b ctx) @ le_bytes (md5_c ctx) @
             le_bytes (md5_d ctx),
           \<lparr>md5_lo = 0, md5_hi = 0, md5_a = 0, md5_b = 0, md5_c = 0, md5_d = 0,
            md5_buffer = replicate 64 0\<rparr>) }"

definition MD5_Final :: "MD5_CTX \<Rightarrow> (byte list \<times> MD5_CTX) option" where
  "MD5_Final ctx = do {
     let used = unat (md5_lo ctx AND 0x3f);
     buffer \<leftarrow> arr_set (md5_buffer ctx) used 0x80;
     let used = used + 1;
     let available = 64 - used;
     if available < 8
     then do {
       buffer \<leftarrow> mem_write buffer used (replicate available 0);
       (ctx, _) \<leftarrow> MD5_body (ctx\<lparr>md5_buffer := buffer\<rparr>) buffer 64;
       md5_final_tail ctx 0 64 }
     else md5_final_tail (ctx\<lparr>md5_buffer := buffer\<rparr>) used available }"

section \<open>The compression function of RFC 1321\<close>

text \<open>
  The standard numbers the 64 operations and rotates the registers; operation \<open>i\<close> uses word
  \<open>k\<close> of the block, the constant \<open>T[i + 1]\<close> and the rotation \<open>s\<close> of its round.
\<close>

definition rfc_f :: "nat \<Rightarrow> u32 \<Rightarrow> u32 \<Rightarrow> u32 \<Rightarrow> u32" where
  "rfc_f i x y z =
     (if i < 16 then (x AND y) OR (NOT x AND z)
      else if i < 32 then (x AND z) OR (y AND NOT z)
      else if i < 48 then x XOR y XOR z
      else y XOR (x OR NOT z))"

definition rfc_k :: "nat \<Rightarrow> nat" where
  "rfc_k i = (if i < 16 then i else if i < 32 then (5 * i + 1) mod 16
              else if i < 48 then (3 * i + 5) mod 16 else (7 * i) mod 16)"

definition rfc_s :: "nat \<Rightarrow> nat" where
  "rfc_s i = (if i < 16 then [7, 12, 17, 22] else if i < 32 then [5, 9, 14, 20]
              else if i < 48 then [4, 11, 16, 23] else [6, 10, 15, 21]) ! (i mod 4)"

definition rfc_T :: "u32 list" where
  "rfc_T = [0xd76aa478, 0xe8c7b756, 0x242070db, 0xc1bdceee,
      0xf57c0faf, 0x4787c62a, 0xa8304613, 0xfd469501,
      0x698098d8, 0x8b44f7af, 0xffff5bb1, 0x895cd7be,
      0x6b901122, 0xfd987193, 0xa679438e, 0x49b40821,
      0xf61e2562, 0xc040b340, 0x265e5a51, 0xe9b6c7aa,
      0xd62f105d, 0x02441453, 0xd8a1e681, 0xe7d3fbc8,
      0x21e1cde6, 0xc33707d6, 0xf4d50d87, 0x455a14ed,
      0xa9e3e905, 0xfcefa3f8, 0x676f02d9, 0x8d2a4c8a,
      0xfffa3942, 0x8771f681, 0x6d9d6122, 0xfde5380c,
      0xa4beea44, 0x4bdecfa9, 0xf6bb4b60, 0xbebfbc70,
      0x289b7ec6, 0xeaa127fa, 0xd4ef3085, 0x04881d05,
      0xd9d4d039, 0xe6db99e5, 0x1fa27cf8, 0xc4ac5665,
      0xf4292244, 0x432aff97, 0xab9423a7, 0xfc93a039,
      0x655b59c3, 0x8f0ccc92, 0xffeff47d, 0x85845dd1,
      0x6fa87e4f, 0xfe2ce6e0, 0xa3014314, 0x4e0811a1,
      0xf7537e82, 0xbd3af235, 0x2ad7d2bb, 0xeb86d391]"

fun rfc_op :: "(nat \<Rightarrow> u32) \<Rightarrow> nat \<Rightarrow> md5_regs \<Rightarrow> md5_regs" where
  "rfc_op X i (a, b, c, d) =
     (d, b + word_rotl (rfc_s i) (a + rfc_f i b c d + X (rfc_k i) + rfc_T ! i), b, c)"

definition rfc_block :: "md5_regs \<Rightarrow> byte list \<Rightarrow> md5_regs" where
  "rfc_block = (\<lambda>(aa, bb, cc, dd) block.
     let (a, b, c, d) = fold (rfc_op (MD5_GET block)) [0..<64] (aa, bb, cc, dd)
     in (aa + a, bb + b, cc + c, dd + d))"

lemma md5_fs: "MD5_F = rfc_f i" if "i < 16"
  using that by (intro ext bit_word_eqI) (auto simp: rfc_f_def MD5_F_def bit_simps)

lemma md5_gs: "MD5_G = rfc_f i" if "16 \<le> i" "i < 32"
  using that by (intro ext bit_word_eqI) (auto simp: rfc_f_def MD5_G_def bit_simps)

lemma md5_hs: "MD5_H = rfc_f i" "MD5_H2 = rfc_f i" if "32 \<le> i" "i < 48"
  using that by (auto simp: rfc_f_def MD5_H_def MD5_H2_def fun_eq_iff ac_simps)

lemma md5_is: "MD5_I = rfc_f i" if "48 \<le> i"
  using that by (auto simp: rfc_f_def MD5_I_def fun_eq_iff)

lemma rotl_shifts:
  fixes w :: u32
  assumes "0 < s" and "s < 32"
  shows "push_bit s w OR drop_bit (32 - s) w = word_rotl s w"
  using shifts_rotl [of s w] assms by simp

lemma md5_step_rotl:
  assumes "0 < s" and "s < 32"
  shows "MD5_STEP f a b c d x t s = b + word_rotl s (a + f b c d + x + t)"
proof -
  have "(0xffffffff :: u32) = - 1" by simp
  then have "w AND 0xffffffff = w" for w :: u32 by (simp only: and.right_neutral)
  then show ?thesis
    using assms by (simp add: MD5_STEP_def Let_def rotl_shifts add.assoc)
qed

text \<open>Four operations bring every register back to its place.\<close>

definition md5_quad :: "(u32 \<Rightarrow> u32 \<Rightarrow> u32 \<Rightarrow> u32) \<Rightarrow> (u32 \<Rightarrow> u32 \<Rightarrow> u32 \<Rightarrow> u32) \<Rightarrow>
  u32 \<times> u32 \<times> nat \<Rightarrow> u32 \<times> u32 \<times> nat \<Rightarrow> u32 \<times> u32 \<times> nat \<Rightarrow> u32 \<times> u32 \<times> nat \<Rightarrow>
  md5_regs \<Rightarrow> md5_regs" where
  "md5_quad f g = (\<lambda>(x0, t0, s0) (x1, t1, s1) (x2, t2, s2) (x3, t3, s3) (a, b, c, d).
     let a = MD5_STEP f a b c d x0 t0 s0;
         d = MD5_STEP g d a b c x1 t1 s1;
         c = MD5_STEP f c d a b x2 t2 s2;
         b = MD5_STEP g b c d a x3 t3 s3
     in (a, b, c, d))"

lemma quad_fold:
  "(let a = MD5_STEP f a b c d x0 t0 s0;
        d = MD5_STEP g d a b c x1 t1 s1;
        c = MD5_STEP f c d a b x2 t2 s2;
        b = MD5_STEP g b c d a x3 t3 s3
    in G a b c d) =
   (case md5_quad f g (x0, t0, s0) (x1, t1, s1) (x2, t2, s2) (x3, t3, s3) (a, b, c, d) of
      (a, b, c, d) \<Rightarrow> G a b c d)"
  by (simp add: md5_quad_def Let_def)

lemma case_md5_quad:
  "(case st of (a, b, c, d) \<Rightarrow> md5_quad f g p0 p1 p2 p3 (a, b, c, d)) = md5_quad f g p0 p1 p2 p3 st"
  "(case st of (a, b, c, d) \<Rightarrow> (a, b, c, d)) = st"
  by (simp_all split: prod.split)

lemmas unroll = quad_fold case_md5_quad prod.case

lemma rfc_s_bounds: "i < 64 \<Longrightarrow> 0 < rfc_s i \<and> rfc_s i < 32"
proof -
  have "i mod 4 = 0 \<or> i mod 4 = 1 \<or> i mod 4 = 2 \<or> i mod 4 = 3" by linarith
  then show ?thesis by (auto simp: rfc_s_def)
qed

lemma quad_ops:
  assumes "i0 < 64" "i1 < 64" "i2 < 64" "i3 < 64"
    and "rfc_f i2 = rfc_f i0" "rfc_f i3 = rfc_f i1"
  shows "rfc_op X i3 (rfc_op X i2 (rfc_op X i1 (rfc_op X i0 st))) =
    md5_quad (rfc_f i0) (rfc_f i1) (X (rfc_k i0), rfc_T ! i0, rfc_s i0)
      (X (rfc_k i1), rfc_T ! i1, rfc_s i1) (X (rfc_k i2), rfc_T ! i2, rfc_s i2)
      (X (rfc_k i3), rfc_T ! i3, rfc_s i3) st"
proof -
  obtain a b c d where "st = (a, b, c, d)" by (cases st) auto
  then show ?thesis
    by (simp add: md5_quad_def Let_def md5_step_rotl assms rfc_s_bounds)
qed

lemma rfc_fs:
  "i < 16 \<Longrightarrow> rfc_f i = MD5_F" "16 \<le> i \<Longrightarrow> i < 32 \<Longrightarrow> rfc_f i = MD5_G"
  "32 \<le> i \<Longrightarrow> i < 48 \<Longrightarrow> rfc_f i = MD5_H" "48 \<le> i \<Longrightarrow> rfc_f i = MD5_I"
  using md5_fs md5_gs md5_hs md5_is by metis+

lemma H2_H: "MD5_H2 = MD5_H"
  using md5_hs [of 32] by simp

lemmas rfc_eval = rfc_fs rfc_k_def rfc_s_def rfc_T_def

lemma upt_16: "[0..<16] = [0, 1, 2, 3, 4, 5, 6, 7, 8, 9, 10, 11, 12, 13, 14, 15::nat]"
  by (simp add: upt_rec)

lemma round1: "fold (rfc_op X) [0..<16] st = md5_round1 X st"
  unfolding md5_round1_def unroll upt_16
  by (simp add: quad_ops rfc_eval del: rfc_op.simps)

lemma round2: "fold (rfc_op X) [16..<32] st = md5_round2 X st"
  unfolding md5_round2_def unroll
  by (simp add: upt_rec quad_ops rfc_eval del: rfc_op.simps)

lemma round3: "fold (rfc_op X) [32..<48] st = md5_round3 X st"
  unfolding md5_round3_def H2_H unroll
  by (simp add: upt_rec quad_ops rfc_eval del: rfc_op.simps)

lemma round4: "fold (rfc_op X) [48..<64] st = md5_round4 X st"
  unfolding md5_round4_def unroll
  by (simp add: upt_rec quad_ops rfc_eval del: rfc_op.simps)

lemma md5_compress_rfc: "md5_compress regs block = rfc_block regs block"
proof -
  have "[0..<64] = [0..<16] @ [16..<32] @ [32..<48] @ [48..<64::nat]" by (simp add: upt_rec)
  then have "fold (rfc_op X) [0..<64] st = md5_round4 X (md5_round3 X (md5_round2 X (md5_round1 X st)))"
    for X st by (simp only: fold_append comp_apply round1 round2 round3 round4)
  then show ?thesis
    by (cases regs) (simp add: md5_compress_def rfc_block_def add.commute split: prod.split)
qed


section \<open>Feeding and finishing\<close>

text \<open>
  The abstraction of a context: the four registers, the pending bytes at the start of the
  buffer, and the number of bytes fed so far, which the code keeps modulo \<open>2 ^ 61\<close>.
\<close>

definition md5_chain :: "MD5_CTX \<Rightarrow> md5_regs" where
  "md5_chain ctx = (md5_a ctx, md5_b ctx, md5_c ctx, md5_d ctx)"

definition md5_count :: "MD5_CTX \<Rightarrow> nat" where
  "md5_count ctx = unat (md5_hi ctx) * 2 ^ 29 + unat (md5_lo ctx)"

definition md5_pending :: "MD5_CTX \<Rightarrow> byte list" where
  "md5_pending ctx = take (md5_count ctx mod 64) (md5_buffer ctx)"

definition md5_inv :: "MD5_CTX \<Rightarrow> bool" where
  "md5_inv ctx \<longleftrightarrow> length (md5_buffer ctx) = 64 \<and> unat (md5_lo ctx) < 2 ^ 29"

definition md5_enc :: "nat \<Rightarrow> byte list" where
  "md5_enc n = le_bytes (of_nat (8 * n)) @ le_bytes (of_nat (8 * n div 2 ^ 32))"

definition md5_out :: "md5_regs \<Rightarrow> byte list" where
  "md5_out = (\<lambda>(a, b, c, d). le_bytes a @ le_bytes b @ le_bytes c @ le_bytes d)"

lemma md5_body_loop_absorbs:
  "n \<noteq> 0 \<Longrightarrow> n * 64 < 2 ^ 64 \<Longrightarrow> n * 64 \<le> length data \<Longrightarrow>
   md5_body_loop regs data (of_nat (n * 64)) =
     Some (fst (absorb 64 md5_compress regs (take (n * 64) data)), drop (n * 64) data)"
proof (induction n arbitrary: regs data)
  case (Suc n)
  have step: "of_nat (Suc n * 64) - 64 = (of_nat (n * 64) :: size_t)" by simp
  have z: "(of_nat (n * 64) :: size_t) = 0 \<longleftrightarrow> n = 0"
    using Suc.prems of_nat_eq_0_small [where ?'a = 64, of "n * 64"] by simp
  have abs: "absorb 64 md5_compress regs (take (Suc n * 64) data) =
      absorb 64 md5_compress (md5_compress regs (take 64 data)) (take (n * 64) (drop 64 data))"
    using Suc.prems by (subst absorb_step) (simp_all add: take_drop add.commute)
  show ?case
  proof (cases "n = 0")
    case True
    with Suc.prems show ?thesis
      by (subst md5_body_loop.simps) (simp add: absorb_one)
  next
    case False
    have "md5_body_loop regs data (of_nat (Suc n * 64)) =
        md5_body_loop (md5_compress regs (take 64 data)) (drop 64 data) (of_nat (n * 64))"
      using Suc.prems False z by (subst md5_body_loop.simps) (simp only: step Let_def, simp)
    with Suc.IH [OF False, of "drop 64 data"] Suc.prems abs show ?thesis by (simp add: add.commute)
  qed
qed simp

lemma MD5_body_absorbs:
  assumes "n \<noteq> 0" and "n * 64 < 2 ^ 64" and "n * 64 \<le> length data"
  shows "\<exists>ctx'. MD5_body ctx data (of_nat (n * 64)) = Some (ctx', drop (n * 64) data) \<and>
    md5_chain ctx' = fst (absorb 64 md5_compress (md5_chain ctx) (take (n * 64) data)) \<and>
    md5_lo ctx' = md5_lo ctx \<and> md5_hi ctx' = md5_hi ctx \<and> md5_buffer ctx' = md5_buffer ctx"
proof -
  obtain a b c d where r: "fst (absorb 64 md5_compress (md5_chain ctx) (take (n * 64) data)) = (a, b, c, d)"
    using prod_cases4 by blast
  with md5_body_loop_absorbs [OF assms, of "md5_chain ctx"] show ?thesis
    by (simp add: MD5_body_def md5_chain_def)
qed

lemma MD5_body_64:
  assumes "length block = 64"
  shows "\<exists>ctx'. MD5_body ctx block 64 = Some (ctx', []) \<and>
    md5_chain ctx' = md5_compress (md5_chain ctx) block \<and>
    md5_lo ctx' = md5_lo ctx \<and> md5_hi ctx' = md5_hi ctx \<and> md5_buffer ctx' = md5_buffer ctx"
  using MD5_body_absorbs [of 1 block ctx] assms by (simp add: absorb_one)


lemma md5_update_tail_absorbs:
  assumes "length (md5_buffer ctx) = 64" and "length xs < 2 ^ 64"
  shows "\<exists>ctx'. md5_update_tail ctx xs (of_nat (length xs)) = Some ctx' \<and>
    (md5_chain ctx', take (length xs mod 64) (md5_buffer ctx')) =
      absorb 64 md5_compress (md5_chain ctx) xs \<and>
    md5_lo ctx' = md5_lo ctx \<and> md5_hi ctx' = md5_hi ctx \<and> length (md5_buffer ctx') = 64"
proof -
  let ?n = "length xs" and ?sz = "of_nat (length xs) :: size_t"
  have sz: "unat ?sz = ?n" using assms(2) by (simp add: unat_of_nat)
  have big: "64 \<le> ?sz \<longleftrightarrow> 64 \<le> ?n" by (simp add: word_le_nat_alt sz)
  show ?thesis
  proof (cases "64 \<le> ?n")
    case False
    with assms sz big show ?thesis
      by (auto simp: md5_update_tail_def mem_read_Some mem_write_Some absorb_short md5_chain_def)
  next
    case True
    let ?k = "?n div 64"
    have k: "?k \<noteq> 0" "?k * 64 \<le> ?n" "?k * 64 < 2 ^ 64" using True assms(2) by auto
    have masks: "?sz AND 0x3f = of_nat (?n mod 64)" "?sz AND NOT 0x3f = of_nat (?k * 64)"
      using of_nat_and_mask [where ?'a = 64, of ?n 6] of_nat_and_not_mask [where ?'a = 64, of ?n 6]
        assms(2) by (simp_all only: mask_6) simp_all
    from MD5_body_absorbs [OF k(1,3,2), of ctx] obtain ctx' where
      c: "MD5_body ctx xs (of_nat (?k * 64)) = Some (ctx', drop (?k * 64) xs)"
        "md5_chain ctx' = fst (absorb 64 md5_compress (md5_chain ctx) (take (?k * 64) xs))"
        "md5_lo ctx' = md5_lo ctx" "md5_hi ctx' = md5_hi ctx" "md5_buffer ctx' = md5_buffer ctx"
      by blast
    have rest: "drop (?k * 64) xs = drop (?n - ?n mod 64) xs" "length (drop (?k * 64) xs) = ?n mod 64"
      by (simp_all add: minus_mod_eq_div_mult minus_div_mult_eq_mod)
    have abs: "absorb 64 md5_compress (md5_chain ctx) xs = (md5_chain ctx', drop (?k * 64) xs)"
    proof -
      let ?a = "take (?k * 64) xs"
      have "length (snd (absorb 64 md5_compress (md5_chain ctx) ?a)) = 0"
        using k(2) by (subst absorb_rest) simp_all
      then have "absorb 64 md5_compress (md5_chain ctx) ?a = (md5_chain ctx', [])"
        using c(2) by (metis length_0_conv prod.collapse)
      with absorb_append [of 64 md5_compress "md5_chain ctx" ?a "drop (?k * 64) xs"] rest(2)
      show ?thesis by (simp add: absorb_short)
    qed
    have "unat (of_nat (?n mod 64) :: size_t) = ?n mod 64"
      by (subst unat_of_nat) (simp add: mod_less trans_less_add1)
    then have "md5_update_tail ctx xs ?sz =
        Some (ctx'\<lparr>md5_buffer := drop (?k * 64) xs @ drop (?n mod 64) (md5_buffer ctx)\<rparr>)"
      using True big c(5) rest(2) assms(1)
      unfolding md5_update_tail_def masks c(1) by (simp add: mem_read_Some mem_write_Some)
    with abs c(3,4) rest(2) assms(1) show ?thesis by (auto simp: md5_chain_def)
  qed
qed


lemma carry_29:
  assumes "lo < (M::nat)"
  shows "(lo + n) div M = n div M + (if (lo + n) mod M < lo then 1 else 0)"
proof -
  define q r where "q = n div M" and "r = n mod M"
  have r: "r < M" using assms by (simp add: r_def)
  have n: "lo + n = (lo + r) + q * M" by (simp add: q_def r_def)
  have "M \<noteq> 0" using assms by simp
  then have split: "(lo + n) div M = q + (lo + r) div M" "(lo + n) mod M = (lo + r) mod M"
    unfolding n by simp_all
  show ?thesis
  proof (cases "lo + r < M")
    case True
    with split show ?thesis by (simp add: q_def)
  next
    case False
    then have "(lo + r) div M = 1" "(lo + r) mod M = lo + r - M"
      using assms r by (simp_all add: div_if mod_if)
    with split False r show ?thesis by (simp add: q_def)
  qed
qed

text \<open>The length kept in \<open>lo\<close> and \<open>hi\<close>, after the carry.\<close>

lemma md5_count_step:
  assumes "unat lo < 2 ^ 29" and "unat hi * 2 ^ 29 + unat lo + n < 2 ^ 61"
    and lo': "lo' = ucast ((ucast lo + of_nat n :: size_t) AND 0x1fffffff)"
    and hi': "hi' = (if lo' < lo then hi + 1 else hi) + ucast (drop_bit 29 (of_nat n :: size_t))"
  shows "unat (lo' :: u32) < 2 ^ 29"
    and "unat (hi' :: u32) * 2 ^ 29 + unat lo' = unat hi * 2 ^ 29 + unat lo + n"
proof -
  let ?w = "ucast lo + of_nat n :: size_t"
  have w: "?w = of_nat (unat lo + n)" by simp
  have small: "unat lo + n < 2 ^ 64" using assms(2) by simp
  have m: "(0x1fffffff :: size_t) = mask 29" by (simp add: mask_eq_exp_minus_1)
  have "?w AND 0x1fffffff = of_nat ((unat lo + n) mod 2 ^ 29)"
    using of_nat_and_mask [where ?'a = 64, of "unat lo + n" 29] small by (simp only: w m) simp
  then have lo_nat: "unat lo' = (unat lo + n) mod 2 ^ 29"
    by (simp add: lo' unsigned_ucast_eq take_bit_eq_mod unat_of_nat mod_mod_cancel)
  then show "unat lo' < 2 ^ 29" by simp
  have "unat (drop_bit 29 (of_nat n :: size_t)) = n div 2 ^ 29"
    using small by (simp only: unat_drop_bit_eq) (simp add: unat_of_nat drop_bit_eq_div)
  then have "ucast (drop_bit 29 (of_nat n :: size_t)) = (of_nat (n div 2 ^ 29) :: u32)"
    by (metis of_nat_unat)
  then have "hi' = of_nat (unat hi + (n div 2 ^ 29 + (if lo' < lo then 1 else 0)))"
    by (simp add: hi')
  also have "n div 2 ^ 29 + (if lo' < lo then 1 else 0) = (unat lo + n) div 2 ^ 29"
    using carry_29 [OF assms(1), of n] by (simp add: word_less_nat_alt lo_nat)
  finally have hi_w: "hi' = of_nat (unat hi + (unat lo + n) div 2 ^ 29)" .
  have "unat hi + (unat lo + n) div 2 ^ 29 = (unat hi * 2 ^ 29 + unat lo + n) div 2 ^ 29"
    by (simp add: add.assoc)
  also have "\<dots> < 2 ^ 32" using assms(2) by (simp add: less_mult_imp_div_less)
  finally have "unat hi' = unat hi + (unat lo + n) div 2 ^ 29"
    unfolding hi_w by (simp only: unat_of_nat mod_less) simp
  then show "unat hi' * 2 ^ 29 + unat lo' = unat hi * 2 ^ 29 + unat lo + n"
    by (simp add: lo_nat algebra_simps)
qed


lemma MD5_Update_absorbs:
  assumes inv: "md5_inv ctx" and fits: "md5_count ctx + length xs < 2 ^ 61"
  shows "\<exists>ctx'. MD5_Update ctx xs (of_nat (length xs)) = Some ctx' \<and> md5_inv ctx' \<and>
    md5_count ctx' = md5_count ctx + length xs \<and>
    (md5_chain ctx', md5_pending ctx') =
      absorb 64 md5_compress (md5_chain ctx) (md5_pending ctx @ xs)"
proof -
  let ?n = "length xs" and ?sz = "of_nat (length xs) :: size_t"
  have buf: "length (md5_buffer ctx) = 64" and lo: "unat (md5_lo ctx) < 2 ^ 29"
    using inv by (simp_all add: md5_inv_def)
  have n: "?n < 2 ^ 64" using fits by simp
  have sz: "unat ?sz = ?n" using n by (simp add: unat_of_nat)
  define lo' where "lo' = (ucast ((ucast (md5_lo ctx) + ?sz) AND 0x1fffffff) :: u32)"
  define hi' where "hi' = (if lo' < md5_lo ctx then md5_hi ctx + 1 else md5_hi ctx) +
    ucast (drop_bit 29 ?sz)"
  define ctx1 where "ctx1 = ctx\<lparr>md5_lo := lo', md5_hi := hi'\<rparr>"
  define used where "used = md5_count ctx mod 64"
  have count1: "unat lo' < 2 ^ 29" "md5_count ctx1 = md5_count ctx + ?n"
    using md5_count_step [OF lo _ lo'_def hi'_def] fits by (simp_all add: md5_count_def ctx1_def)
  have used_eq: "unat (md5_lo ctx AND 0x3f) = used"
  proof -
    have "md5_count ctx = unat (md5_lo ctx) + (unat (md5_hi ctx) * 2 ^ 23) * 64"
      by (simp add: md5_count_def)
    then have "used = unat (md5_lo ctx) mod 64" by (simp only: used_def mod_mult_self1)
    then show ?thesis by (simp only: mask_6 unat_and_mask) simp
  qed
  have upd: "MD5_Update ctx xs ?sz = (if used \<noteq> 0
      then if ?n < 64 - used
           then do { bytes \<leftarrow> mem_read xs 0 ?n;
                     buffer \<leftarrow> mem_write (md5_buffer ctx) used bytes;
                     Some (ctx1\<lparr>md5_buffer := buffer\<rparr>) }
           else do { bytes \<leftarrow> mem_read xs 0 (64 - used);
                     buffer \<leftarrow> mem_write (md5_buffer ctx) used bytes;
                     (ctx, _) \<leftarrow> MD5_body (ctx1\<lparr>md5_buffer := buffer\<rparr>) buffer 64;
                     md5_update_tail ctx (drop (64 - used) xs) (?sz - of_nat (64 - used)) }
      else md5_update_tail ctx1 xs ?sz)"
    unfolding MD5_Update_def used_eq sz lo'_def [symmetric] Let_def
    by (simp add: ctx1_def hi'_def del: of_nat_diff)
  have chain1: "md5_chain (ctx1\<lparr>md5_buffer := b\<rparr>) = md5_chain ctx"
    "md5_count (ctx1\<lparr>md5_buffer := b\<rparr>) = md5_count ctx + ?n" "unat (md5_lo ctx1) < 2 ^ 29" for b
    using count1 by (simp_all add: md5_chain_def md5_count_def ctx1_def)
  have pend: "md5_pending ctx = take used (md5_buffer ctx)" "length (md5_pending ctx) = used" "used < 64"
    using buf by (simp_all add: md5_pending_def used_def)
  have after: "md5_inv ctx' \<and> md5_count ctx' = md5_count ctx + ?n"
    if "md5_lo ctx' = md5_lo ctx1" "md5_hi ctx' = md5_hi ctx1" "length (md5_buffer ctx') = 64" for ctx'
    using that count1 by (simp add: md5_inv_def md5_count_def ctx1_def)
  consider "used = 0" | "used \<noteq> 0" "?n < 64 - used" | "used \<noteq> 0" "64 - used \<le> ?n" by linarith
  then show ?thesis
  proof cases
    case 1
    from md5_update_tail_absorbs [of ctx1 xs] buf n obtain ctx' where
      "md5_update_tail ctx1 xs ?sz = Some ctx'"
      "(md5_chain ctx', take (?n mod 64) (md5_buffer ctx')) = absorb 64 md5_compress (md5_chain ctx) xs"
      "md5_lo ctx' = md5_lo ctx1" "md5_hi ctx' = md5_hi ctx1" "length (md5_buffer ctx') = 64"
      by (auto simp: ctx1_def md5_chain_def)
    moreover have "(md5_count ctx + ?n) mod 64 = ?n mod 64"
      using 1 by (metis used_def mod_add_left_eq add_0)
    ultimately show ?thesis using 1 upd after [of ctx'] used_def by (simp add: md5_pending_def)
  next
    case 2
    let ?c = "ctx1\<lparr>md5_buffer := take used (md5_buffer ctx) @ xs @ drop (used + ?n) (md5_buffer ctx)\<rparr>"
    have "MD5_Update ctx xs ?sz = Some ?c"
      using 2 buf by (simp add: upd mem_read_Some mem_write_Some)
    moreover have "(md5_count ctx + ?n) mod 64 = used + ?n"
      using 2 by (simp add: used_def mod_add_left_eq [symmetric, of "md5_count ctx" ?n 64])
    ultimately show ?thesis
      using 2 after [of ?c] buf pend chain1 by (simp add: md5_pending_def absorb_short)
  next
    case 3
    let ?a = "64 - used" and ?rest = "drop (64 - used) xs"
    let ?block = "md5_pending ctx @ take ?a xs"
    have block: "length ?block = 64" using 3 pend by simp
    from MD5_body_64 [OF block, of "ctx1\<lparr>md5_buffer := ?block\<rparr>"] obtain ctx2 where
      ctx2: "MD5_body (ctx1\<lparr>md5_buffer := ?block\<rparr>) ?block 64 = Some (ctx2, [])"
        "md5_chain ctx2 = md5_compress (md5_chain ctx) ?block" "md5_lo ctx2 = md5_lo ctx1"
        "md5_hi ctx2 = md5_hi ctx1" "md5_buffer ctx2 = ?block"
      by (auto simp: chain1)
    have "length (md5_buffer ctx2) = 64" "length ?rest < 2 ^ 64"
      using block n by (simp_all only: ctx2(5)) simp_all
    from md5_update_tail_absorbs [OF this] obtain ctx' where
      c: "md5_update_tail ctx2 ?rest (of_nat (length ?rest)) = Some ctx'"
      "(md5_chain ctx', take (length ?rest mod 64) (md5_buffer ctx')) =
        absorb 64 md5_compress (md5_chain ctx2) ?rest"
      "md5_lo ctx' = md5_lo ctx2" "md5_hi ctx' = md5_hi ctx2" "length (md5_buffer ctx') = 64"
      by blast
    have "absorb 64 md5_compress (md5_chain ctx) (md5_pending ctx @ xs) =
        absorb 64 md5_compress (md5_chain ctx) (?block @ ?rest)" by simp
    also have "\<dots> = absorb 64 md5_compress (md5_chain ctx2) ?rest"
      by (simp only: absorb_block [OF zero_less_numeral block] ctx2(2))
    finally have abs: "absorb 64 md5_compress (md5_chain ctx) (md5_pending ctx @ xs) =
        (md5_chain ctx', take (length ?rest mod 64) (md5_buffer ctx'))" using c(2) by simp
    have szr: "?sz - of_nat ?a = of_nat (length ?rest)" using 3 by simp
    have "MD5_Update ctx xs ?sz = Some ctx'"
      using 3 buf pend(2,3) ctx2(1) c(1) unfolding upd szr pend(1)
      by (simp add: mem_read_Some mem_write_Some)
    moreover have "(md5_count ctx + ?n) mod 64 = length ?rest mod 64"
    proof -
      have "(md5_count ctx + ?n) mod 64 = (used + ?n) mod 64" by (simp add: used_def mod_add_left_eq)
      also have "used + ?n = 64 + length ?rest" using 3 pend by simp
      finally show ?thesis by simp
    qed
    ultimately show ?thesis using abs after [of ctx'] c ctx2 by (simp add: md5_pending_def)
  qed
qed


lemma md5_used:
  assumes "unat (md5_lo ctx) < 2 ^ 29"
  shows "unat (md5_lo ctx AND 0x3f) = md5_count ctx mod 64"
proof -
  have "md5_count ctx = unat (md5_lo ctx) + (unat (md5_hi ctx) * 2 ^ 23) * 64"
    by (simp add: md5_count_def)
  then have "md5_count ctx mod 64 = unat (md5_lo ctx) mod 64" by (simp only: mod_mult_self1)
  then show ?thesis by (simp only: mask_6 unat_and_mask) simp
qed

lemma md5_length_bytes:
  assumes "unat (md5_lo ctx) < 2 ^ 29"
  shows "le_bytes (push_bit 3 (md5_lo ctx)) @ le_bytes (md5_hi ctx) = md5_enc (md5_count ctx)"
proof -
  have n: "8 * md5_count ctx = unat (md5_hi ctx) * 2 ^ 32 + 8 * unat (md5_lo ctx)"
    by (simp add: md5_count_def)
  moreover have z: "(4294967296 :: u32) = 0" by simp
  moreover from n have "8 * md5_count ctx div 2 ^ 32 = unat (md5_hi ctx)" using assms by simp
  ultimately show ?thesis
    by (simp add: md5_enc_def push_bit_eq_mult) (simp add: mult.commute z)
qed

lemma length_md5_enc: "length (md5_enc n) = 8"
  by (simp add: md5_enc_def le_bytes_def)

lemma md5_final_tail_value:
  assumes "md5_buffer ctx = pre @ post" "length (md5_buffer ctx) = 64" "length pre \<le> 56"
    and lo: "unat (md5_lo ctx) < 2 ^ 29"
  shows "map_option fst (md5_final_tail ctx (length pre) (64 - length pre)) =
    Some (md5_out (md5_compress (md5_chain ctx)
      (pre @ replicate (56 - length pre) 0 @ md5_enc (md5_count ctx))))"
proof -
  let ?z = "replicate (56 - length pre) (0 :: byte)"
  let ?enc = "md5_enc (md5_count ctx)" and ?lo = "push_bit 3 (md5_lo ctx)"
  let ?block = "pre @ ?z @ ?enc" and ?buf = "pre @ ?z @ drop (56 - length pre) post"
  have w: "mem_write (pre @ post) (length pre) (replicate (64 - length pre - 8) 0) = Some ?buf"
    "mem_write ?buf 56 ?enc = Some ?block"
    using assms(1-3) length_md5_enc [of "md5_count ctx"] by (simp_all add: mem_write_Some)
  let ?c = "ctx\<lparr>md5_lo := ?lo, md5_buffer := ?block\<rparr>"
  have block: "length ?block = 64" using assms(3) by (simp add: length_md5_enc)
  from MD5_body_64 [OF block, of ?c] obtain c where
    c: "MD5_body ?c ?block 64 = Some (c, [])" "md5_chain c = md5_compress (md5_chain ctx) ?block"
    by (auto simp: md5_chain_def)
  have "map_option fst (md5_final_tail ctx (length pre) (64 - length pre)) =
      Some (md5_out (md5_chain c))"
    unfolding md5_final_tail_def assms(1) w(1) Let_def
    by (simp add: md5_length_bytes [OF lo] w(2) c(1) md5_out_def md5_chain_def)
  then show ?thesis by (simp only: c(2))
qed

lemma MD5_Final_absorbs:
  assumes inv: "md5_inv ctx" and fits: "md5_count ctx < 2 ^ 61"
  shows "map_option fst (MD5_Final ctx) =
    Some (md5_out (fst (absorb 64 md5_compress (md5_chain ctx)
      (md5_pending ctx @ md_pad 64 (md5_enc (md5_count ctx)) (md5_count ctx)))))"
proof -
  let ?n = "md5_count ctx" and ?p = "md5_pending ctx"
  define used where "used = ?n mod 64"
  have buf: "length (md5_buffer ctx) = 64" and lo: "unat (md5_lo ctx) < 2 ^ 29"
    using inv by (simp_all add: md5_inv_def)
  have pend: "?p = take used (md5_buffer ctx)" "length ?p = used" "used < 64"
    using buf by (simp_all add: md5_pending_def used_def)
  let ?post = "drop (used + 1) (md5_buffer ctx)"
  have set: "arr_set (md5_buffer ctx) used 0x80 = Some (?p @ 0x80 # ?post)"
    using pend buf by (simp add: arr_set_Some upd_conv_take_nth_drop)
  note unfold_final = MD5_Final_def md5_used [OF lo, folded used_def] set Let_def
  show ?thesis
  proof (cases "used \<le> 55")
    case True
    have "MD5_Final ctx =
        md5_final_tail (ctx\<lparr>md5_buffer := (?p @ [0x80]) @ ?post\<rparr>) (used + 1) (64 - (used + 1))"
    proof -
      have "\<not> 63 - used < 8" using True by simp
      then show ?thesis unfolding unfold_final by simp
    qed
    moreover have "map_option fst (md5_final_tail (ctx\<lparr>md5_buffer := (?p @ [0x80]) @ ?post\<rparr>)
        (length (?p @ [0x80])) (64 - length (?p @ [0x80]))) = Some (md5_out (md5_compress
        (md5_chain ctx) ((?p @ [0x80]) @ replicate (56 - length (?p @ [0x80])) 0 @ md5_enc ?n)))"
    proof -
      let ?c = "ctx\<lparr>md5_buffer := (?p @ [0x80]) @ ?post\<rparr>"
      have "md5_buffer ?c = (?p @ [0x80]) @ ?post" "length (md5_buffer ?c) = 64"
        "length (?p @ [0x80]) \<le> 56" "unat (md5_lo ?c) < 2 ^ 29"
        using True pend(2,3) buf lo by simp_all
      moreover have "md5_chain ?c = md5_chain ctx" "md5_count ?c = ?n"
        by (simp_all add: md5_chain_def md5_count_def)
      ultimately show ?thesis using md5_final_tail_value [of ?c "?p @ [0x80]" ?post] by metis
    qed
    moreover have "absorb 64 md5_compress (md5_chain ctx) (?p @ md_pad 64 (md5_enc ?n) ?n) =
        (md5_compress (md5_chain ctx) (?p @ 0x80 # replicate (55 - used) 0 @ md5_enc ?n), [])"
    proof -
      have "length ?p + 1 + length (md5_enc ?n) \<le> 64" "?n mod 64 = length ?p"
        using True pend(2) by (simp_all add: length_md5_enc used_def)
      from absorb_pad_near [OF this] show ?thesis by (simp add: length_md5_enc pend(2))
    qed
    ultimately show ?thesis using pend(2) by simp
  next
    case False
    let ?b1 = "?p @ 0x80 # replicate (63 - used) 0"
    have b1: "length ?b1 = 64" using pend by simp
    have w1: "mem_write (?p @ 0x80 # ?post) (Suc used) (replicate (63 - used) 0) = Some ?b1"
      using pend buf by (simp add: mem_write_Some)
    from MD5_body_64 [OF b1, of "ctx\<lparr>md5_buffer := ?b1\<rparr>"] obtain c where
      c: "MD5_body (ctx\<lparr>md5_buffer := ?b1\<rparr>) ?b1 64 = Some (c, [])"
        "md5_chain c = md5_compress (md5_chain ctx) ?b1" "md5_lo c = md5_lo ctx"
        "md5_hi c = md5_hi ctx" "md5_buffer c = ?b1" by (auto simp: md5_chain_def)
    have "MD5_Final ctx = md5_final_tail c 0 64"
    proof -
      have "63 - used < 8" using False by simp
      with w1 c(1) show ?thesis unfolding unfold_final by simp
    qed
    moreover have "map_option fst (md5_final_tail c 0 64) = Some (md5_out (md5_compress
        (md5_chain c) (replicate 56 0 @ md5_enc ?n)))"
    proof -
      have "md5_buffer c = [] @ ?b1" "length (md5_buffer c) = 64" "unat (md5_lo c) < 2 ^ 29"
        using b1 lo by (simp_all only: c(3,5)) simp_all
      moreover have "md5_count c = ?n" by (simp add: md5_count_def c(3,4))
      ultimately show ?thesis using md5_final_tail_value [of c "[]" ?b1] by simp
    qed
    moreover have "absorb 64 md5_compress (md5_chain ctx) (?p @ md_pad 64 (md5_enc ?n) ?n) =
        (md5_compress (md5_chain c) (replicate 56 0 @ md5_enc ?n), [])"
    proof -
      have "length ?p < 64" "64 < length ?p + 1 + length (md5_enc ?n)" "length (md5_enc ?n) < 64"
        "?n mod 64 = length ?p"
        using False pend(2,3) by (simp_all add: length_md5_enc used_def)
      from absorb_pad_far [OF this] show ?thesis by (simp add: length_md5_enc pend(2) c(2))
    qed
    ultimately show ?thesis by simp
  qed
qed

section \<open>The streaming interface\<close>

definition md5_feed :: "MD5_CTX \<Rightarrow> byte list \<Rightarrow> MD5_CTX option" where
  "md5_feed ctx xs = MD5_Update ctx xs (of_nat (length xs))"

definition md5_finish :: "MD5_CTX \<Rightarrow> byte list option" where
  "md5_finish ctx = map_option fst (MD5_Final ctx)"

definition md5_iv :: md5_regs where
  "md5_iv = (0x67452301, 0xefcdab89, 0x98badcfe, 0x10325476)"

interpretation md5: streaming_hash 64 md5_compress md5_enc md5_out md5_inv md5_chain md5_pending
  md5_count "2 ^ 61" md5_feed md5_finish
proof unfold_locales
  show "length (md5_enc n) < 64" for n by (simp add: md5_enc_def le_bytes_def)
  show "md5_inv c \<Longrightarrow> length (md5_pending c) < 64" for c
    by (simp add: md5_inv_def md5_pending_def min_less_iff_disj)
  show "md5_inv c \<Longrightarrow> md5_count c + length xs < 2 ^ 61 \<Longrightarrow>
      \<exists>c'. md5_feed c xs = Some c' \<and> md5_inv c' \<and> md5_count c' = md5_count c + length xs \<and>
        (md5_chain c', md5_pending c') = absorb 64 md5_compress (md5_chain c) (md5_pending c @ xs)"
    for c xs unfolding md5_feed_def by (rule MD5_Update_absorbs)
  show "md5_inv c \<Longrightarrow> md5_count c < 2 ^ 61 \<Longrightarrow> md5_finish c =
      Some (md5_out (fst (absorb 64 md5_compress (md5_chain c)
        (md5_pending c @ md_pad 64 (md5_enc (md5_count c)) (md5_count c)))))" for c
    unfolding md5_finish_def by (rule MD5_Final_absorbs)
qed

text \<open>
  C22. MD5 as RFC 1321 defines it, in any number of pieces: initializing any context, feeding
  the chunks of a message one after the other and finishing never leaves the 64-byte buffer and
  returns the digest of the whole message, that is the RFC's block operation folded over the
  blocks of the message followed by its padding and its length in bits.
\<close>

theorem md5_stream_correct:
  assumes "length (md5_buffer ctx) = 64" and "length (concat chunks) < 2 ^ 61"
  shows "do { ctx \<leftarrow> update_all md5_feed (MD5_Init ctx) chunks; md5_finish ctx } =
    Some (md_hash 64 rfc_block md5_iv md5_out md5_enc (concat chunks))"
proof -
  have "md5_inv (MD5_Init ctx)" "md5_pending (MD5_Init ctx) = []" "md5_count (MD5_Init ctx) = 0"
    "md5_chain (MD5_Init ctx) = md5_iv"
    using assms(1)
    by (simp_all add: MD5_Init_def md5_inv_def md5_pending_def md5_count_def md5_chain_def md5_iv_def)
  moreover have "md5_compress = rfc_block" by (intro ext md5_compress_rfc)
  ultimately show ?thesis
    using md5.streaming_correct [of "MD5_Init ctx" chunks] assms(2) by metis
qed

text \<open>The message "a", fed in two pieces, the second empty.\<close>

theorem md5_stream_correct_witness:
  "\<exists>digest. do { ctx \<leftarrow> update_all md5_feed (MD5_Init \<lparr>md5_lo = 5, md5_hi = 7, md5_a = 0, md5_b = 0,
       md5_c = 0, md5_d = 0, md5_buffer = replicate 64 9\<rparr>) [[97], []]; md5_finish ctx } = Some digest"
  using md5_stream_correct [of "\<lparr>md5_lo = 5, md5_hi = 7, md5_a = 0, md5_b = 0,
       md5_c = 0, md5_d = 0, md5_buffer = replicate 64 9\<rparr>" "[[97], []]"] by simp

end
