(* ===== verification/Sha256.thy ===== *)
theory Sha256
  imports BlockHash
begin

text \<open>
  The SHA-256 and SHA-224 part of \<open>hash/lrc_hash.c\<close>, with the scalar block function (the vector
  units are an alternative the compiler selects). The union \<open>in\<close> is its 64 bytes; \<open>load32be\<close> and
  \<open>store32be\<close> read and write the words of the union most significant byte first.
\<close>

unbundle bit_operations_syntax

section \<open>State and operations\<close>

record sha256_state =
  sha_len :: "64 word"
  sha_in :: "byte list"
  sha_w :: "u32 list"
  sha_h :: "u32 list"
  sha_inlen :: nat
  sha_is224 :: bool

definition LSL32 :: "u32 \<Rightarrow> nat \<Rightarrow> u32" where
  "LSL32 x n = push_bit n x"

definition LSR32 :: "u32 \<Rightarrow> nat \<Rightarrow> u32" where
  "LSR32 x n = drop_bit n x"

definition ROR32 :: "u32 \<Rightarrow> nat \<Rightarrow> u32" where
  "ROR32 x n = LSR32 x n OR LSL32 x (32 - n)"

definition T_H :: "u32 list" where
  "T_H =
    [0x6A09E667, 0xBB67AE85, 0x3C6EF372, 0xA54FF53A, 0x510E527F, 0x9B05688C,
     0x1F83D9AB, 0x5BE0CD19]"

definition T_H224 :: "u32 list" where
  "T_H224 =
    [0xC1059ED8, 0x367CD507, 0x3070DD17, 0xF70E5939, 0xFFC00B31, 0x68581511,
     0x64F98FA7, 0xBEFA4FA4]"

definition T_K :: "u32 list" where
  "T_K =
    [0x428A2F98, 0x71374491, 0xB5C0FBCF, 0xE9B5DBA5, 0x3956C25B, 0x59F111F1,
     0x923F82A4, 0xAB1C5ED5, 0xD807AA98, 0x12835B01, 0x243185BE, 0x550C7DC3,
     0x72BE5D74, 0x80DEB1FE, 0x9BDC06A7, 0xC19BF174, 0xE49B69C1, 0xEFBE4786,
     0x0FC19DC6, 0x240CA1CC, 0x2DE92C6F, 0x4A7484AA, 0x5CB0A9DC, 0x76F988DA,
     0x983E5152, 0xA831C66D, 0xB00327C8, 0xBF597FC7, 0xC6E00BF3, 0xD5A79147,
     0x06CA6351, 0x14292967, 0x27B70A85, 0x2E1B2138, 0x4D2C6DFC, 0x53380D13,
     0x650A7354, 0x766A0ABB, 0x81C2C92E, 0x92722C85, 0xA2BFE8A1, 0xA81A664B,
     0xC24B8B70, 0xC76C51A3, 0xD192E819, 0xD6990624, 0xF40E3585, 0x106AA070,
     0x19A4C116, 0x1E376C08, 0x2748774C, 0x34B0BCB5, 0x391C0CB3, 0x4ED8AA4A,
     0x5B9CCA4F, 0x682E6FF3, 0x748F82EE, 0x78A5636F, 0x84C87814, 0x8CC70208,
     0x90BEFFFA, 0xA4506CEB, 0xBEF9A3F7, 0xC67178F2]"

text \<open>Word \<open>i\<close> of a block, and the bytes of a word, most significant first.\<close>

definition load32be :: "byte list \<Rightarrow> nat \<Rightarrow> u32" where
  "load32be bs i = push_bit 24 (ucast (bs ! (4 * i))) OR push_bit 16 (ucast (bs ! (4 * i + 1))) OR
     push_bit 8 (ucast (bs ! (4 * i + 2))) OR ucast (bs ! (4 * i + 3))"

definition be_bytes :: "u32 \<Rightarrow> byte list" where
  "be_bytes w = [ucast (drop_bit 24 w), ucast (drop_bit 16 w), ucast (drop_bit 8 w), ucast w]"

definition sha256_init :: "sha256_state" where
  "sha256_init = \<lparr>sha_len = 0, sha_in = replicate 64 0, sha_w = replicate 64 0, sha_h = T_H,
     sha_inlen = 0, sha_is224 = False\<rparr>"

text \<open>The message schedule, computed in place in the array \<open>w\<close>.\<close>

definition sha256_schedule :: "byte list \<Rightarrow> u32 list \<Rightarrow> u32 list" where
  "sha256_schedule block w =
     (let w = fold (\<lambda>i w. w[i := load32be block i]) [0..<16] w
      in fold (\<lambda>i w. w[i :=
           (let s0 = ROR32 (w ! (i - 15)) 7 XOR ROR32 (w ! (i - 15)) 18 XOR LSR32 (w ! (i - 15)) 3;
                s1 = ROR32 (w ! (i - 2)) 17 XOR ROR32 (w ! (i - 2)) 19 XOR LSR32 (w ! (i - 2)) 10
            in w ! (i - 16) + s0 + w ! (i - 7) + s1)]) [16..<64] w)"

type_synonym sha256_regs = "u32 \<times> u32 \<times> u32 \<times> u32 \<times> u32 \<times> u32 \<times> u32 \<times> u32"

definition sha256_round :: "u32 list \<Rightarrow> nat \<Rightarrow> sha256_regs \<Rightarrow> sha256_regs" where
  "sha256_round w i = (\<lambda>(a, b, c, d, e, f, g, h).
     let s0 = ROR32 a 2 XOR ROR32 a 13 XOR ROR32 a 22;
         maj = (a AND b) XOR (a AND c) XOR (b AND c);
         t2 = s0 + maj;
         s1 = ROR32 e 6 XOR ROR32 e 11 XOR ROR32 e 25;
         ch = (e AND f) XOR (NOT e AND g);
         t1 = h + s1 + ch + T_K ! i + w ! i
     in (t1 + t2, a, b, c, d + t1, e, f, g))"

definition sha256_block_scalar :: "sha256_state \<Rightarrow> sha256_state" where
  "sha256_block_scalar p =
     (let w = sha256_schedule (sha_in p) (sha_w p);
          h = sha_h p;
          (a, b, c, d, e, f, g, hh) = fold (sha256_round w) [0..<64]
            (h ! 0, h ! 1, h ! 2, h ! 3, h ! 4, h ! 5, h ! 6, h ! 7)
      in p\<lparr>sha_w := w, sha_h := [h ! 0 + a, h ! 1 + b, h ! 2 + c, h ! 3 + d,
             h ! 4 + e, h ! 5 + f, h ! 6 + g, h ! 7 + hh]\<rparr>)"

definition sha256_block :: "sha256_state \<Rightarrow> sha256_state" where
  "sha256_block p = (sha256_block_scalar p)\<lparr>sha_inlen := 0\<rparr>"

text \<open>
  The loop of \<open>sha256_chunk\<close>; with a full buffer it would copy nothing and not advance, which
  is why it is a partial function.
\<close>

partial_function (option) sha256_chunk_loop ::
  "sha256_state \<Rightarrow> byte list \<Rightarrow> sha256_state option" where
  "sha256_chunk_loop p s =
     (if s = [] then Some p
      else do {
        let l = (if length s < 64 - sha_inlen p then length s else 64 - sha_inlen p);
        buf \<leftarrow> mem_write (sha_in p) (sha_inlen p) (take l s);
        let p = p\<lparr>sha_in := buf, sha_inlen := sha_inlen p + l\<rparr>;
        sha256_chunk_loop (if sha_inlen p = 64 then sha256_block p else p) (drop l s) })"

definition sha256_chunk :: "sha256_state \<Rightarrow> byte list \<Rightarrow> sha256_state option" where
  "sha256_chunk p s = sha256_chunk_loop (p\<lparr>sha_len := sha_len p + of_nat (length s)\<rparr>) s"

text \<open>From the second \<open>memset\<close> of \<open>sha256_final\<close> on: the last block, with the length in bits.\<close>

definition sha256_final_tail :: "sha256_state \<Rightarrow> sha256_state option" where
  "sha256_final_tail p = do {
     buf \<leftarrow> mem_write (sha_in p) (sha_inlen p) (replicate (56 - sha_inlen p) 0);
     let len = push_bit 3 (sha_len p);
     buf \<leftarrow> mem_write buf 56 (be_bytes (ucast (drop_bit 32 len)));
     buf \<leftarrow> mem_write buf 60 (be_bytes (ucast len));
     Some (sha256_block (p\<lparr>sha_in := buf\<rparr>)) }"

definition sha256_final :: "sha256_state \<Rightarrow> sha256_state option" where
  "sha256_final p = do {
     buf \<leftarrow> arr_set (sha_in p) (sha_inlen p) 0x80;
     let p = p\<lparr>sha_in := buf, sha_inlen := sha_inlen p + 1\<rparr>;
     if sha_inlen p > 56
     then do {
       buf \<leftarrow> mem_write (sha_in p) (sha_inlen p) (replicate (64 - sha_inlen p) 0);
       sha256_final_tail (sha256_block (p\<lparr>sha_in := buf\<rparr>)) }
     else sha256_final_tail p }"

definition sha256_subhash :: "sha256_state \<Rightarrow> byte list" where
  "sha256_subhash p = concat (map (\<lambda>i. be_bytes (sha_h p ! i)) [0..<8])"

definition sha256_stream_init :: "bool \<Rightarrow> sha256_state" where
  "sha256_stream_init is224 = \<lparr>sha_len = 0, sha_in = replicate 64 0, sha_w = replicate 64 0,
     sha_h = (if is224 then T_H224 else T_H), sha_inlen = 0, sha_is224 = is224\<rparr>"

definition sha256_stream_update :: "sha256_state \<Rightarrow> byte list \<Rightarrow> sha256_state option" where
  "sha256_stream_update p data = (if data = [] then Some p else sha256_chunk p data)"

text \<open>The digest, and the state.\<close>

definition sha256_stream_final :: "sha256_state \<Rightarrow> (byte list \<times> sha256_state) option" where
  "sha256_stream_final p = do {
     let words = (if sha_is224 p then 7 else 8);
     p \<leftarrow> sha256_final p;
     Some (concat (map (\<lambda>i.
             [ucast (drop_bit 24 (sha_h p ! i)), ucast (drop_bit 16 (sha_h p ! i)),
              ucast (drop_bit 8 (sha_h p ! i)), ucast (sha_h p ! i)]) [0..<words]), p) }"

definition sha256_stream_block :: "sha256_state \<Rightarrow> byte list \<Rightarrow> sha256_state option" where
  "sha256_stream_block p data = do {
     bytes \<leftarrow> mem_read data 0 64;
     buf \<leftarrow> mem_write (sha_in p) 0 bytes;
     Some (sha256_block (p\<lparr>sha_in := buf, sha_inlen := 64\<rparr>)) }"

definition hex_digit :: "byte \<Rightarrow> char" where
  "hex_digit b = ''0123456789abcdef'' ! unat b"

definition sha256_hash :: "byte list \<Rightarrow> string option" where
  "sha256_hash inp = do {
     sha \<leftarrow> sha256_chunk sha256_init inp;
     sha \<leftarrow> sha256_final sha;
     Some (concat (map (\<lambda>b. [hex_digit (drop_bit 4 b), hex_digit (b AND 0x0f)])
             (sha256_subhash sha))) }"

section \<open>The hash computation of FIPS 180-4\<close>

definition fips_Sigma0 :: "u32 \<Rightarrow> u32" where
  "fips_Sigma0 x = word_rotr 2 x XOR word_rotr 13 x XOR word_rotr 22 x"

definition fips_Sigma1 :: "u32 \<Rightarrow> u32" where
  "fips_Sigma1 x = word_rotr 6 x XOR word_rotr 11 x XOR word_rotr 25 x"

definition fips_sigma0 :: "u32 \<Rightarrow> u32" where
  "fips_sigma0 x = word_rotr 7 x XOR word_rotr 18 x XOR drop_bit 3 x"

definition fips_sigma1 :: "u32 \<Rightarrow> u32" where
  "fips_sigma1 x = word_rotr 17 x XOR word_rotr 19 x XOR drop_bit 10 x"

text \<open>The message schedule as the recurrence of the standard.\<close>

fun fips_W :: "(nat \<Rightarrow> u32) \<Rightarrow> nat \<Rightarrow> u32" where
  "fips_W M t = (if t < 16 then M t
     else fips_sigma1 (fips_W M (t - 2)) + fips_W M (t - 7) +
          fips_sigma0 (fips_W M (t - 15)) + fips_W M (t - 16))"

declare fips_W.simps [simp del]

definition fips_round :: "(nat \<Rightarrow> u32) \<Rightarrow> nat \<Rightarrow> sha256_regs \<Rightarrow> sha256_regs" where
  "fips_round W t = (\<lambda>(a, b, c, d, e, f, g, h).
     let T1 = h + fips_Sigma1 e + ((e AND f) XOR (NOT e AND g)) + T_K ! t + W t;
         T2 = fips_Sigma0 a + ((a AND b) XOR (a AND c) XOR (b AND c))
     in (T1 + T2, a, b, c, d + T1, e, f, g))"

definition fips_compress :: "u32 list \<Rightarrow> byte list \<Rightarrow> u32 list" where
  "fips_compress H block =
     (let (a, b, c, d, e, f, g, h) = fold (fips_round (fips_W (load32be block))) [0..<64]
            (H ! 0, H ! 1, H ! 2, H ! 3, H ! 4, H ! 5, H ! 6, H ! 7)
      in [a + H ! 0, b + H ! 1, c + H ! 2, d + H ! 3, e + H ! 4, f + H ! 5, g + H ! 6, h + H ! 7])"

lemma ROR32_rotr: "0 < n \<Longrightarrow> n < 32 \<Longrightarrow> ROR32 x n = word_rotr n x"
  using shifts_rotr [of n x] by (simp add: ROR32_def LSR32_def LSL32_def)

lemma sha256_schedule_step:
  assumes "16 \<le> i" and "\<forall>j < i. v ! j = fips_W M j"
  shows "(let s0 = ROR32 (v ! (i - 15)) 7 XOR ROR32 (v ! (i - 15)) 18 XOR LSR32 (v ! (i - 15)) 3;
              s1 = ROR32 (v ! (i - 2)) 17 XOR ROR32 (v ! (i - 2)) 19 XOR LSR32 (v ! (i - 2)) 10
          in v ! (i - 16) + s0 + v ! (i - 7) + s1) = fips_W M i"
proof -
  have "v ! (i - 15) = fips_W M (i - 15)" "v ! (i - 2) = fips_W M (i - 2)"
    "v ! (i - 16) = fips_W M (i - 16)" "v ! (i - 7) = fips_W M (i - 7)"
    using assms by simp_all
  then show ?thesis
    using assms(1) fips_W.simps [of M i]
    by (simp add: ROR32_rotr LSR32_def fips_sigma0_def fips_sigma1_def Let_def)
qed

lemma sha256_schedule_fips:
  assumes "length w = 64"
  shows "length (sha256_schedule block w) = 64 \<and>
    (\<forall>t < 64. sha256_schedule block w ! t = fips_W (load32be block) t)"
proof -
  let ?W = "fips_W (load32be block)"
  define w1 where "w1 = fold (\<lambda>i w. w[i := load32be block i]) [0..<16] w"
  have w1: "length w1 = 64 \<and> (\<forall>j < 16. w1 ! j = ?W j)"
    unfolding w1_def using assms by (intro schedule_start) (simp_all add: fips_W.simps)
  define f where "f = (\<lambda>i (w :: u32 list).
           (let s0 = ROR32 (w ! (i - 15)) 7 XOR ROR32 (w ! (i - 15)) 18 XOR LSR32 (w ! (i - 15)) 3;
                s1 = ROR32 (w ! (i - 2)) 17 XOR ROR32 (w ! (i - 2)) 19 XOR LSR32 (w ! (i - 2)) 10
            in w ! (i - 16) + s0 + w ! (i - 7) + s1))"
  have step: "f i v = ?W i" if "16 \<le> i" "i < 64" "\<forall>j < i. v ! j = ?W j" for i v
    unfolding f_def by (rule sha256_schedule_step [OF that(1,3)])
  have w1': "64 \<le> length w1" "\<forall>j < 16. w1 ! j = ?W j" and m: "max 16 64 = (64 :: nat)"
    using w1 by simp_all
  have "sha256_schedule block w = fold (\<lambda>i w. w[i := f i w]) [16..<64] w1"
    by (simp only: sha256_schedule_def w1_def f_def Let_def)
  moreover have "length (fold (\<lambda>i w. w[i := f i w]) [16..<64] w1) = length w1 \<and>
      (\<forall>j < max 16 64. fold (\<lambda>i w. w[i := f i w]) [16..<64] w1 ! j = ?W j)"
    by (rule fill_array) (rule w1' | erule (2) step)+
  ultimately show ?thesis using w1 by (simp only: m) blast
qed

lemma sha256_round_fips:
  assumes "\<forall>t < n. w ! t = W t"
  shows "fold (sha256_round w) [0..<n] regs = fold (fips_round W) [0..<n] regs"
proof (rule fold_cong)
  fix t assume "t \<in> set [0..<n]"
  with assms show "sha256_round w t = fips_round W t"
    by (auto simp: sha256_round_def fips_round_def fips_Sigma0_def fips_Sigma1_def ROR32_rotr Let_def
        fun_eq_iff)
qed simp_all

lemma sha256_block_fips:
  assumes "length (sha_w p) = 64"
  shows "sha_h (sha256_block p) = fips_compress (sha_h p) (sha_in p)"
    and "length (sha_w (sha256_block p)) = 64"
    and "sha_inlen (sha256_block p) = 0" "sha_in (sha256_block p) = sha_in p"
      "sha_len (sha256_block p) = sha_len p" "sha_is224 (sha256_block p) = sha_is224 p"
proof -
  have "fold (sha256_round (sha256_schedule (sha_in p) (sha_w p))) [0..<64] regs =
      fold (fips_round (fips_W (load32be (sha_in p)))) [0..<64] regs" for regs
    using sha256_schedule_fips [OF assms, of "sha_in p"] by (intro sha256_round_fips) simp
  with sha256_schedule_fips [OF assms]
  show "sha_h (sha256_block p) = fips_compress (sha_h p) (sha_in p)"
    "length (sha_w (sha256_block p)) = 64"
    "sha_inlen (sha256_block p) = 0" "sha_in (sha256_block p) = sha_in p"
    "sha_len (sha256_block p) = sha_len p" "sha_is224 (sha256_block p) = sha_is224 p"
    by (simp_all add: sha256_block_def sha256_block_scalar_def Let_def fips_compress_def
        add.commute split: prod.split)
qed

lemma length_fips_compress [simp]: "length (fips_compress H block) = 8"
  by (simp add: fips_compress_def split: prod.split)

section \<open>Feeding and finishing\<close>

definition sha256_ok :: "sha256_state \<Rightarrow> bool" where
  "sha256_ok p \<longleftrightarrow> length (sha_in p) = 64 \<and> length (sha_w p) = 64 \<and> sha_inlen p < 64"

definition sha256_pending :: "sha256_state \<Rightarrow> byte list" where
  "sha256_pending p = take (sha_inlen p) (sha_in p)"

definition sha256_count :: "sha256_state \<Rightarrow> nat" where
  "sha256_count p = unat (sha_len p)"

definition sha256_inv :: "bool \<Rightarrow> sha256_state \<Rightarrow> bool" where
  "sha256_inv is224 p \<longleftrightarrow> sha256_ok p \<and> sha_inlen p = sha256_count p mod 64 \<and> sha_is224 p = is224"

lemma sha256_block_ok: "sha256_ok p \<Longrightarrow> sha256_ok (sha256_block p)"
  by (simp add: sha256_ok_def sha256_block_fips)

lemma sha256_chunk_loop_absorbs:
  "sha256_ok p \<Longrightarrow> \<exists>p'. sha256_chunk_loop p s = Some p' \<and> sha256_ok p' \<and>
     (sha_h p', sha256_pending p') = absorb 64 fips_compress (sha_h p) (sha256_pending p @ s) \<and>
     sha_inlen p' = (sha_inlen p + length s) mod 64 \<and> sha_len p' = sha_len p \<and>
     sha_is224 p' = sha_is224 p"
proof (induction "length s" arbitrary: p s rule: less_induct)
  case less
  note ok = less.prems [unfolded sha256_ok_def]
  have pend: "length (sha256_pending p) = sha_inlen p"
    using ok by (simp add: sha256_pending_def)
  show ?case
  proof (cases "length s < 64 - sha_inlen p")
    case True
    let ?p = "p\<lparr>sha_in := take (sha_inlen p) (sha_in p) @ s @ drop (sha_inlen p + length s) (sha_in p),
      sha_inlen := sha_inlen p + length s\<rparr>"
    have end_loop: "sha256_chunk_loop q [] = Some q" for q
      by (subst sha256_chunk_loop.simps) simp
    have "sha256_chunk_loop p s = Some (if s = [] then p else ?p)"
      using True ok by (subst sha256_chunk_loop.simps) (auto simp: mem_write_Some end_loop Let_def)
    moreover have "(if s = [] then p else ?p) = ?p" using ok by simp
    ultimately show ?thesis
      using True ok pend by (simp add: sha256_ok_def sha256_pending_def absorb_short)
  next
    case False
    let ?l = "64 - sha_inlen p"
    let ?block = "sha256_pending p @ take ?l s"
    let ?q = "p\<lparr>sha_in := ?block, sha_inlen := 64\<rparr>"
    have block: "length ?block = 64" using False ok pend by simp
    have "s \<noteq> []" using False ok by auto
    then have step: "sha256_chunk_loop p s = sha256_chunk_loop (sha256_block ?q) (drop ?l s)"
      using False ok by (subst sha256_chunk_loop.simps)
        (simp add: mem_write_Some sha256_pending_def Let_def)
    have q: "sha256_ok (sha256_block ?q)" "sha_h (sha256_block ?q) = fips_compress (sha_h p) ?block"
      "sha_inlen (sha256_block ?q) = 0" "sha_len (sha256_block ?q) = sha_len p"
      "sha_is224 (sha256_block ?q) = sha_is224 p"
      using ok block sha256_block_fips [of ?q] by (simp_all add: sha256_ok_def)
    have "0 < length s" using False ok by linarith
    then have "length (drop ?l s) < length s" using ok by (simp only: length_drop) linarith
    from less.hyps [OF this q(1)] obtain p' where p':
      "sha256_chunk_loop (sha256_block ?q) (drop ?l s) = Some p'" "sha256_ok p'"
      "(sha_h p', sha256_pending p') = absorb 64 fips_compress (sha_h (sha256_block ?q))
          (sha256_pending (sha256_block ?q) @ drop ?l s)"
      "sha_inlen p' = length (drop ?l s) mod 64" "sha_len p' = sha_len p"
      "sha_is224 p' = sha_is224 p"
      by (auto simp: q(3-5))
    have "absorb 64 fips_compress (sha_h p) (sha256_pending p @ s) =
        absorb 64 fips_compress (sha_h p) (?block @ drop ?l s)" by simp
    also have "\<dots> = absorb 64 fips_compress (fips_compress (sha_h p) ?block) (drop ?l s)"
      by (rule absorb_block [OF zero_less_numeral block])
    also have "\<dots> = (sha_h p', sha256_pending p')"
    proof -
      have "sha256_pending (sha256_block ?q) = []"
        unfolding sha256_pending_def [of "sha256_block ?q"] q(3) by simp
      then show ?thesis by (simp only: p'(3) q(2) append_Nil)
    qed
    finally have abs: "(sha_h p', sha256_pending p') =
      absorb 64 fips_compress (sha_h p) (sha256_pending p @ s)" by simp
    have "sha_inlen p + length s = 64 + length (drop ?l s)" using False ok by simp
    then have "sha_inlen p' = (sha_inlen p + length s) mod 64" by (simp only: p'(4) mod_add_self1)
    with abs step p'(1,2,5,6) show ?thesis by metis
  qed
qed

lemma sha256_chunk_absorbs:
  assumes inv: "sha256_inv k p" and fits: "sha256_count p + length s < 2 ^ 61"
  shows "\<exists>p'. sha256_chunk p s = Some p' \<and> sha256_inv k p' \<and>
    sha256_count p' = sha256_count p + length s \<and>
    (sha_h p', sha256_pending p') = absorb 64 fips_compress (sha_h p) (sha256_pending p @ s)"
proof -
  let ?p = "p\<lparr>sha_len := sha_len p + of_nat (length s)\<rparr>"
  have "unat (sha_len p) + length s < 2 ^ 64" using fits by (simp add: sha256_count_def)
  then have len: "unat (sha_len p + of_nat (length s)) = unat (sha_len p) + length s"
    by (simp add: unat_word_ariths unat_of_nat)
  have "sha256_ok ?p" using inv by (simp add: sha256_inv_def sha256_ok_def)
  from sha256_chunk_loop_absorbs [OF this, of s] obtain p' where
    p': "sha256_chunk_loop ?p s = Some p'" "sha256_ok p'"
    "(sha_h p', sha256_pending p') = absorb 64 fips_compress (sha_h p) (sha256_pending p @ s)"
    "sha_inlen p' = (sha_inlen p + length s) mod 64" "sha_len p' = sha_len p + of_nat (length s)"
    "sha_is224 p' = sha_is224 p" by (auto simp: sha256_pending_def)
  moreover have "sha256_count p' = sha256_count p + length s"
    by (simp add: sha256_count_def p'(5) len)
  moreover from this have "sha256_inv k p'"
    using inv p'(2,4,6) by (simp add: sha256_inv_def mod_add_left_eq)
  ultimately show ?thesis by (simp add: sha256_chunk_def)
qed


definition sha256_enc :: "nat \<Rightarrow> byte list" where
  "sha256_enc n = be_bytes (of_nat (8 * n div 2 ^ 32)) @ be_bytes (of_nat (8 * n))"

lemma length_sha256_enc: "length (sha256_enc n) = 8"
  by (simp add: sha256_enc_def be_bytes_def)

lemma sha256_length_bytes:
  assumes "unat (n :: 64 word) < 2 ^ 61"
  shows "be_bytes (ucast (drop_bit 32 (push_bit 3 n))) @ be_bytes (ucast (push_bit 3 n)) =
    sha256_enc (unat n)"
proof -
  have n8: "push_bit 3 n = of_nat (8 * unat n)" by (simp add: push_bit_eq_mult mult.commute)
  have u: "unat (push_bit 3 n) = 8 * unat n"
    unfolding n8 using assms by (subst unat_of_nat) simp
  have "unat (drop_bit 32 (push_bit 3 n)) = 8 * unat n div 2 ^ 32"
    by (simp only: unat_drop_bit_eq u) (simp add: drop_bit_eq_div)
  then have "(ucast (drop_bit 32 (push_bit 3 n)) :: u32) = of_nat (8 * unat n div 2 ^ 32)"
    "(ucast (push_bit 3 n) :: u32) = of_nat (8 * unat n)"
    using u by (metis of_nat_unat)+
  then show ?thesis by (simp only: sha256_enc_def)
qed

lemma sha256_final_tail_value:
  assumes "sha_in p = pre @ post" "sha_inlen p = length pre" "length (sha_in p) = 64"
    "length pre \<le> 56" "length (sha_w p) = 64" and len: "unat (sha_len p) < 2 ^ 61"
  shows "\<exists>p'. sha256_final_tail p = Some p' \<and> sha_is224 p' = sha_is224 p \<and>
    sha_h p' = fips_compress (sha_h p)
      (pre @ replicate (56 - length pre) 0 @ sha256_enc (unat (sha_len p)))"
proof -
  let ?z = "replicate (56 - length pre) (0 :: byte)" and ?len = "push_bit 3 (sha_len p)"
  let ?hi = "be_bytes (ucast (drop_bit 32 ?len))" and ?lo = "be_bytes (ucast ?len)"
  let ?b1 = "pre @ ?z @ drop (56 - length pre) post"
  let ?b2 = "pre @ ?z @ ?hi @ drop (60 - length pre) post" and ?b3 = "pre @ ?z @ ?hi @ ?lo"
  have l4: "length (be_bytes x) = 4" for x by (simp add: be_bytes_def)
  have "mem_write (pre @ post) (length pre) ?z = Some ?b1"
    using assms(1-4) by (simp add: mem_write_Some)
  moreover have "mem_write ?b1 56 ?hi = Some ?b2"
    using assms(1-4) l4 by (simp add: mem_write_Some)
  moreover have "mem_write ?b2 60 ?lo = Some ?b3"
    using assms(1-4) l4 by (simp add: mem_write_Some)
  ultimately have "sha256_final_tail p = Some (sha256_block (p\<lparr>sha_in := ?b3\<rparr>))"
    by (simp add: sha256_final_tail_def assms(1,2) Let_def)
  moreover have "?b3 = pre @ ?z @ sha256_enc (unat (sha_len p))"
    by (simp only: sha256_length_bytes [OF len])
  ultimately show ?thesis using sha256_block_fips [of "p\<lparr>sha_in := ?b3\<rparr>"] assms(5) by simp
qed

lemma sha256_final_absorbs:
  assumes inv: "sha256_inv k p" and fits: "sha256_count p < 2 ^ 61"
  shows "\<exists>p'. sha256_final p = Some p' \<and> sha_is224 p' = k \<and>
    sha_h p' = fst (absorb 64 fips_compress (sha_h p)
      (sha256_pending p @ md_pad 64 (sha256_enc (sha256_count p)) (sha256_count p)))"
proof -
  let ?n = "sha256_count p" and ?q = "sha256_pending p" and ?used = "sha_inlen p"
  have ok: "length (sha_in p) = 64" "length (sha_w p) = 64" "?used < 64" "?n mod 64 = ?used"
    "sha_is224 p = k" using inv by (simp_all add: sha256_inv_def sha256_ok_def)
  have q: "?q = take ?used (sha_in p)" "length ?q = ?used"
    using ok by (simp_all add: sha256_pending_def)
  have len: "unat (sha_len p) < 2 ^ 61" "unat (sha_len p) = ?n"
    using fits by (simp_all add: sha256_count_def)
  let ?post = "drop (?used + 1) (sha_in p)" and ?q1 = "?q @ [0x80]"
  let ?p = "p\<lparr>sha_in := ?q1 @ ?post, sha_inlen := ?used + 1\<rparr>"
  have set: "arr_set (sha_in p) ?used 0x80 = Some (?q1 @ ?post)"
    using q ok by (simp add: arr_set_Some upd_conv_take_nth_drop)
  show ?thesis
  proof (cases "?used \<le> 55")
    case True
    then have "sha256_final p = sha256_final_tail ?p"
      unfolding sha256_final_def set by simp
    moreover have "sha_in ?p = ?q1 @ ?post" "sha_inlen ?p = length ?q1" "length (sha_in ?p) = 64"
      "length ?q1 \<le> 56" "length (sha_w ?p) = 64" "unat (sha_len ?p) < 2 ^ 61"
      using True q(2) ok len by simp_all
    note sha256_final_tail_value [OF this]
    moreover have "absorb 64 fips_compress (sha_h p) (?q @ md_pad 64 (sha256_enc ?n) ?n) =
        (fips_compress (sha_h p) (?q @ 0x80 # replicate (55 - ?used) 0 @ sha256_enc ?n), [])"
    proof -
      have "length ?q + 1 + length (sha256_enc ?n) \<le> 64" "?n mod 64 = length ?q"
        using True q(2) ok by (simp_all add: length_sha256_enc)
      from absorb_pad_near [OF this] show ?thesis by (simp add: length_sha256_enc q(2))
    qed
    ultimately show ?thesis using q(2) ok(5) len(2) by simp
  next
    case False
    let ?b1 = "?q @ 0x80 # replicate (63 - ?used) 0"
    let ?c = "sha256_block (?p\<lparr>sha_in := ?b1\<rparr>)"
    have b1: "length ?b1 = 64" using q(2) ok(3) by simp
    have w1: "mem_write (?q1 @ ?post) (?used + 1) (replicate (64 - (?used + 1)) 0) = Some ?b1"
      using q ok(1,3) by (simp add: mem_write_Some)
    have c: "sha_h ?c = fips_compress (sha_h p) ?b1" "sha_in ?c = ?b1" "sha_inlen ?c = 0"
      "length (sha_w ?c) = 64" "sha_len ?c = sha_len p" "sha_is224 ?c = k"
      using sha256_block_fips [of "?p\<lparr>sha_in := ?b1\<rparr>"] ok by simp_all
    have "\<not> ?used + 1 \<le> 56" using False by simp
    then have "sha256_final p = sha256_final_tail ?c"
      unfolding sha256_final_def set using w1 by (simp add: not_le)
    moreover have "sha_in ?c = [] @ ?b1" "sha_inlen ?c = length []" "length (sha_in ?c) = 64"
      "length [] \<le> (56 :: nat)" "unat (sha_len ?c) < 2 ^ 61"
      using c b1 len by simp_all
    note sha256_final_tail_value [OF this(1-4) c(4) this(5)]
    moreover have "absorb 64 fips_compress (sha_h p) (?q @ md_pad 64 (sha256_enc ?n) ?n) =
        (fips_compress (sha_h ?c) (replicate 56 0 @ sha256_enc ?n), [])"
    proof -
      have "length ?q < 64" "64 < length ?q + 1 + length (sha256_enc ?n)"
        "length (sha256_enc ?n) < 64" "?n mod 64 = length ?q"
        using False q(2) ok by (simp_all add: length_sha256_enc)
      from absorb_pad_far [OF this, of fips_compress "sha_h p"]
      show ?thesis unfolding c(1) by (simp add: length_sha256_enc q(2))
    qed
    ultimately show ?thesis using c(5,6) len(2) by simp
  qed
qed


section \<open>The streaming interface\<close>

definition sha256_out :: "bool \<Rightarrow> u32 list \<Rightarrow> byte list" where
  "sha256_out is224 h = concat (map be_bytes (take (if is224 then 7 else 8) h))"

definition sha256_finish :: "sha256_state \<Rightarrow> byte list option" where
  "sha256_finish p = map_option fst (sha256_stream_final p)"

text \<open>The state of a stream in use: it also has the eight chaining words.\<close>

definition sha256_live :: "bool \<Rightarrow> sha256_state \<Rightarrow> bool" where
  "sha256_live k p \<longleftrightarrow> sha256_inv k p \<and> length (sha_h p) = 8"

lemma length_absorb_fips:
  "length H = 8 \<Longrightarrow> length (fst (absorb 64 fips_compress H xs)) = 8"
  by (rule absorb_invariant) simp_all

lemma digest_words:
  assumes "length h = 8" and "n \<le> 8"
  shows "concat (map (\<lambda>i. [ucast (drop_bit 24 (h ! i)), ucast (drop_bit 16 (h ! i)),
      ucast (drop_bit 8 (h ! i)), ucast (h ! i)]) [0..<n]) = concat (map be_bytes (take n h))"
proof -
  have "take n h = map ((!) h) [0..<n]" using assms by (intro nth_equalityI) simp_all
  then show ?thesis by (simp add: be_bytes_def comp_def)
qed

interpretation sha256: streaming_hash 64 fips_compress sha256_enc "sha256_out k" "sha256_live k"
  sha_h sha256_pending sha256_count "2 ^ 61" sha256_stream_update sha256_finish for k
proof unfold_locales
  show "length (sha256_enc n) < 64" for n by (simp add: length_sha256_enc)
  show "sha256_live k c \<Longrightarrow> length (sha256_pending c) < 64" for c
    by (auto simp: sha256_live_def sha256_inv_def sha256_ok_def sha256_pending_def)
  show "\<exists>c'. sha256_stream_update c xs = Some c' \<and> sha256_live k c' \<and>
      sha256_count c' = sha256_count c + length xs \<and>
      (sha_h c', sha256_pending c') = absorb 64 fips_compress (sha_h c) (sha256_pending c @ xs)"
    if live: "sha256_live k c" and fits: "sha256_count c + length xs < 2 ^ 61" for c xs
  proof (cases "xs = []")
    case True
    with live show ?thesis
      by (auto simp: sha256_stream_update_def sha256_live_def sha256_inv_def sha256_ok_def
          sha256_pending_def absorb_short)
  next
    case False
    from sha256_chunk_absorbs [of k c xs] live fits obtain c' where
      c': "sha256_chunk c xs = Some c'" "sha256_inv k c'" "sha256_count c' = sha256_count c + length xs"
      "(sha_h c', sha256_pending c') = absorb 64 fips_compress (sha_h c) (sha256_pending c @ xs)"
      by (auto simp: sha256_live_def)
    moreover have "length (sha_h c') = 8"
      using length_absorb_fips [of "sha_h c" "sha256_pending c @ xs"] live
      by (simp add: sha256_live_def flip: c'(4))
    ultimately show ?thesis using False by (simp add: sha256_stream_update_def sha256_live_def)
  qed
  show "sha256_finish c = Some (sha256_out k (fst (absorb 64 fips_compress (sha_h c)
      (sha256_pending c @ md_pad 64 (sha256_enc (sha256_count c)) (sha256_count c)))))"
    if live: "sha256_live k c" and fits: "sha256_count c < 2 ^ 61" for c
  proof -
    from sha256_final_absorbs [of k c] live fits obtain p' where
      p': "sha256_final c = Some p'" "sha_is224 p' = k"
      "sha_h p' = fst (absorb 64 fips_compress (sha_h c)
        (sha256_pending c @ md_pad 64 (sha256_enc (sha256_count c)) (sha256_count c)))"
      by (auto simp: sha256_live_def)
    have "length (sha_h p') = 8"
      using length_absorb_fips live by (simp add: p'(3) sha256_live_def)
    moreover have "sha_is224 c = k" using live by (simp add: sha256_live_def sha256_inv_def)
    ultimately have "sha256_finish c = Some (sha256_out k (sha_h p'))"
      by (simp add: sha256_finish_def sha256_stream_final_def p'(1) digest_words sha256_out_def
          del: upt_Suc)
    then show ?thesis by (simp only: p'(3))
  qed
qed

text \<open>
  C24. SHA-256 and SHA-224 as FIPS 180-4 defines them, in any number of pieces: initializing,
  feeding the chunks of a message and finishing never leaves the 64-byte buffer or the tables,
  always ends (the copy loop advances at every turn), and returns the digest of the whole
  message, the standard's hash computation over its padded blocks.
\<close>

theorem sha256_stream_correct:
  assumes "length (concat chunks) < 2 ^ 61"
  shows "do { p \<leftarrow> update_all sha256_stream_update (sha256_stream_init is224) chunks;
              map_option fst (sha256_stream_final p) } =
    Some (md_hash 64 fips_compress (if is224 then T_H224 else T_H) (sha256_out is224) sha256_enc
      (concat chunks))"
proof -
  have "sha256_live is224 (sha256_stream_init is224)"
    by (simp add: sha256_live_def sha256_inv_def sha256_ok_def sha256_count_def
        sha256_stream_init_def T_H_def T_H224_def)
  moreover have "sha256_pending (sha256_stream_init is224) = []"
    "sha256_count (sha256_stream_init is224) = 0"
    "sha_h (sha256_stream_init is224) = (if is224 then T_H224 else T_H)"
    by (simp_all add: sha256_pending_def sha256_count_def sha256_stream_init_def)
  ultimately show ?thesis
    using sha256.streaming_correct [of is224 "sha256_stream_init is224" chunks] assms
    by (simp add: sha256_finish_def)
qed

theorem sha256_stream_correct_witness:
  "\<exists>digest. do { p \<leftarrow> update_all sha256_stream_update (sha256_stream_init True) [[97], [98, 99]];
              map_option fst (sha256_stream_final p) } = Some digest"
  using sha256_stream_correct [of "[[97], [98, 99]]" True] by auto

text \<open>
  \<open>sha256_hash\<close> writes the 64 lower-case hexadecimal digits of the FIPS 180-4 digest of its
  whole input.
\<close>

theorem sha256_hash_correct:
  assumes "length msg < 2 ^ 61"
  shows "sha256_hash msg = Some (concat (map (\<lambda>b. [hex_digit (drop_bit 4 b), hex_digit (b AND 0x0f)])
    (md_hash 64 fips_compress T_H (sha256_out False) sha256_enc msg)))"
proof -
  have inv: "sha256_inv False sha256_init" "sha256_pending sha256_init = []"
    "sha256_count sha256_init = 0" "sha_h sha256_init = T_H"
    by (simp_all add: sha256_inv_def sha256_ok_def sha256_init_def sha256_count_def sha256_pending_def)
  have h8: "length T_H = 8" by (simp add: T_H_def)
  from sha256_chunk_absorbs [OF inv(1), of msg] assms inv obtain p where
    p: "sha256_chunk sha256_init msg = Some p" "sha256_inv False p" "sha256_count p = length msg"
    "(sha_h p, sha256_pending p) = absorb 64 fips_compress T_H msg" by auto
  let ?pad = "md_pad 64 (sha256_enc (length msg)) (length msg)"
  from sha256_final_absorbs [OF p(2)] p(3) assms obtain q where
    q: "sha256_final p = Some q" "sha_h q = fst (absorb 64 fips_compress (sha_h p) (sha256_pending p @ ?pad))"
    by auto
  have "absorb 64 fips_compress (sha_h p) (sha256_pending p @ ?pad) = absorb 64 fips_compress T_H (msg @ ?pad)"
    using absorb_append [of 64 fips_compress T_H msg ?pad] by (simp flip: p(4))
  then have h: "sha_h q = fst (absorb 64 fips_compress T_H (msg @ ?pad))" by (simp only: q(2))
  then have "length (sha_h q) = 8" by (simp only: length_absorb_fips [OF h8])
  then have "sha256_subhash q = sha256_out False (sha_h q)"
    using digest_words [of "sha_h q" 8]
    by (simp add: sha256_subhash_def sha256_out_def be_bytes_def del: upt_rec_numeral)
  with h have "sha256_subhash q = md_hash 64 fips_compress T_H (sha256_out False) sha256_enc msg"
    by (simp add: md_hash_absorb length_sha256_enc)
  with p(1) q(1) show ?thesis by (simp add: sha256_hash_def)
qed

theorem sha256_hash_correct_witness: "\<exists>s. sha256_hash [97, 98, 99] = Some s"
  using sha256_hash_correct [of "[97, 98, 99]"] by simp

end
