(* ===== verification/Sha1.thy ===== *)
theory Sha1
  imports Sha256
begin

text \<open>
  The SHA-1 part of \<open>hash/lrc_hash.c\<close>, with the scalar block function: the streaming interface
  with its 64-bit bit counter and its \<open>computed\<close> and \<open>corrupted\<close> flags, and the one-shot
  \<open>SHA1Digest\<close> that pads a copy of the tail instead. A data argument is the list of the bytes
  it points to; where the code passes a length with it, that is the length of the list.
\<close>

unbundle bit_operations_syntax

section \<open>State and operations\<close>

record sha1_state =
  s1_digest :: "u32 list"
  s1_length_low :: u32
  s1_length_high :: u32
  s1_block :: "byte list"
  s1_block_index :: nat
  s1_computed :: bool
  s1_corrupted :: bool

definition SHA1CircularShift :: "nat \<Rightarrow> u32 \<Rightarrow> u32" where
  "SHA1CircularShift bits wd = (push_bit bits wd AND 0xFFFFFFFF) OR drop_bit (32 - bits) wd"

definition SHA1Reset :: "sha1_state \<Rightarrow> sha1_state" where
  "SHA1Reset context = context\<lparr>s1_length_low := 0, s1_length_high := 0, s1_block_index := 0,
     s1_digest := [0x67452301, 0xEFCDAB89, 0x98BADCFE, 0x10325476, 0xC3D2E1F0],
     s1_computed := False, s1_corrupted := False\<rparr>"

definition sha1_schedule :: "byte list \<Rightarrow> u32 list \<Rightarrow> u32 list" where
  "sha1_schedule block W =
     (let W = fold (\<lambda>t W. W[t :=
            push_bit 24 (ucast (block ! (t * 4))) OR push_bit 16 (ucast (block ! (t * 4 + 1))) OR
            push_bit 8 (ucast (block ! (t * 4 + 2))) OR ucast (block ! (t * 4 + 3))]) [0..<16] W
      in fold (\<lambda>t W. W[t := SHA1CircularShift 1
            (W ! (t - 3) XOR W ! (t - 8) XOR W ! (t - 14) XOR W ! (t - 16))]) [16..<80] W)"

type_synonym sha1_regs = "u32 \<times> u32 \<times> u32 \<times> u32 \<times> u32"

definition sha1_K :: "u32 list" where
  "sha1_K = [0x5A827999, 0x6ED9EBA1, 0x8F1BBCDC, 0xCA62C1D6]"

text \<open>The bodies of the four loops, which differ in the function and the constant.\<close>

definition sha1_turn :: "(u32 \<Rightarrow> u32 \<Rightarrow> u32 \<Rightarrow> u32) \<Rightarrow> u32 \<Rightarrow> u32 list \<Rightarrow> nat \<Rightarrow> sha1_regs \<Rightarrow> sha1_regs" where
  "sha1_turn f k W t = (\<lambda>(A, B, C, D, E).
     let temp = SHA1CircularShift 5 A + f B C D + E + W ! t + k;
         temp = temp AND 0xFFFFFFFF
     in (temp, A, SHA1CircularShift 30 B, C, D))"

text \<open>One turn of the loop over the blocks; \<open>W0\<close> is the uninitialised array \<open>W\<close>.\<close>

definition sha1_scalar_block :: "u32 list \<Rightarrow> u32 list \<Rightarrow> byte list \<Rightarrow> u32 list" where
  "sha1_scalar_block W0 digest block =
     (let W = sha1_schedule block W0;
          regs = (digest ! 0, digest ! 1, digest ! 2, digest ! 3, digest ! 4);
          regs = fold (sha1_turn (\<lambda>B C D. (B AND C) OR (NOT B AND D)) (sha1_K ! 0) W) [0..<20] regs;
          regs = fold (sha1_turn (\<lambda>B C D. B XOR C XOR D) (sha1_K ! 1) W) [20..<40] regs;
          regs = fold (sha1_turn (\<lambda>B C D. (B AND C) OR (B AND D) OR (C AND D)) (sha1_K ! 2) W)
                   [40..<60] regs;
          (A, B, C, D, E) = fold (sha1_turn (\<lambda>B C D. B XOR C XOR D) (sha1_K ! 3) W) [60..<80] regs
      in [(digest ! 0 + A) AND 0xFFFFFFFF, (digest ! 1 + B) AND 0xFFFFFFFF,
          (digest ! 2 + C) AND 0xFFFFFFFF, (digest ! 3 + D) AND 0xFFFFFFFF,
          (digest ! 4 + E) AND 0xFFFFFFFF])"

fun sha1_scalar_blocks :: "u32 list \<Rightarrow> byte list \<Rightarrow> nat \<Rightarrow> u32 list option" where
  "sha1_scalar_blocks digest block 0 = Some digest"
| "sha1_scalar_blocks digest block (Suc n) = do {
     b \<leftarrow> mem_read block 0 64;
     sha1_scalar_blocks (sha1_scalar_block (replicate 80 0) digest b) (drop 64 block) n }"

definition sha1_blocks :: "u32 list \<Rightarrow> byte list \<Rightarrow> nat \<Rightarrow> u32 list option" where
  "sha1_blocks digest inp n = (if n = 0 then Some digest else sha1_scalar_blocks digest inp n)"

definition SHA1ProcessMessageBlock :: "sha1_state \<Rightarrow> sha1_state option" where
  "SHA1ProcessMessageBlock context = do {
     d \<leftarrow> sha1_blocks (s1_digest context) (s1_block context) 1;
     Some (context\<lparr>s1_digest := d, s1_block_index := 0\<rparr>) }"

text \<open>The loop that fills the block with zeros up to index \<open>n\<close>.\<close>

function sha1_zero_fill :: "nat \<Rightarrow> sha1_state \<Rightarrow> sha1_state option" where
  "sha1_zero_fill n context =
     (if s1_block_index context < n
      then do {
        b \<leftarrow> arr_set (s1_block context) (s1_block_index context) 0;
        sha1_zero_fill n (context\<lparr>s1_block := b, s1_block_index := s1_block_index context + 1\<rparr>) }
      else Some context)"
  by pat_completeness auto
termination by (relation "measure (\<lambda>(n, context). n - s1_block_index context)") auto

declare sha1_zero_fill.simps [simp del]

text \<open>From the second zero loop of \<open>SHA1PadMessage\<close> on: the block with the length.\<close>

definition sha1_pad_tail :: "sha1_state \<Rightarrow> sha1_state option" where
  "sha1_pad_tail context = do {
     context \<leftarrow> sha1_zero_fill 56 context;
     b \<leftarrow> mem_write (s1_block context) 56
            (be_bytes (s1_length_high context) @ be_bytes (s1_length_low context));
     SHA1ProcessMessageBlock (context\<lparr>s1_block := b\<rparr>) }"

definition SHA1PadMessage :: "sha1_state \<Rightarrow> sha1_state option" where
  "SHA1PadMessage context = do {
     b \<leftarrow> arr_set (s1_block context) (s1_block_index context) 0x80;
     let context = context\<lparr>s1_block := b, s1_block_index := s1_block_index context + 1\<rparr>;
     if s1_block_index context > 56
     then do {
       context \<leftarrow> sha1_zero_fill 64 context;
       context \<leftarrow> SHA1ProcessMessageBlock context;
       sha1_pad_tail context }
     else sha1_pad_tail context }"

definition digest_byte :: "u32 list \<Rightarrow> nat \<Rightarrow> byte" where
  "digest_byte d i = ucast (drop_bit (8 * (3 - i mod 4)) (d ! (i div 4)))"

text \<open>
  The return value, the context and the digest; \<open>wanted\<close> is false when the caller passes \<open>NULL\<close>
  for it.
\<close>

definition SHA1Result :: "sha1_state \<Rightarrow> bool \<Rightarrow> (bool \<times> sha1_state \<times> byte list option) option" where
  "SHA1Result context wanted =
     (if s1_corrupted context then Some (False, context, None)
      else do {
        context \<leftarrow> (if \<not> s1_computed context
          then do { context \<leftarrow> SHA1PadMessage context; Some (context\<lparr>s1_computed := True\<rparr>) }
          else Some context);
        Some (True, context,
              if wanted then Some (map (digest_byte (s1_digest context)) [0..<20]) else None) })"

text \<open>The copy loop of \<open>SHA1Input\<close>; with a full block it would not advance.\<close>

partial_function (option) sha1_input_loop :: "sha1_state \<Rightarrow> byte list \<Rightarrow> sha1_state option" where
  "sha1_input_loop context s =
     (if s = [] then Some context
      else let l = 64 - s1_block_index context
      in if l = 64 \<and> length s \<ge> 64
         then do {
           let whole = length s div 64 * 64;
           d \<leftarrow> sha1_blocks (s1_digest context) s (whole div 64);
           sha1_input_loop (context\<lparr>s1_digest := d\<rparr>) (drop whole s) }
         else do {
           let l = (if length s < l then length s else l);
           b \<leftarrow> mem_write (s1_block context) (s1_block_index context) (take l s);
           let context = context\<lparr>s1_block := b, s1_block_index := s1_block_index context + l\<rparr>;
           context \<leftarrow> (if s1_block_index context = 64 then SHA1ProcessMessageBlock context
                        else Some context);
           sha1_input_loop context (drop l s) })"

definition SHA1Input :: "sha1_state \<Rightarrow> byte list \<Rightarrow> sha1_state option" where
  "SHA1Input context message =
     (if message = [] then Some context
      else if s1_computed context \<or> s1_corrupted context
      then Some (context\<lparr>s1_corrupted := True\<rparr>)
      else let total = push_bit 32 (ucast (s1_length_high context)) OR ucast (s1_length_low context);
               n = (total + push_bit 3 (of_nat (length message)) :: 64 word)
           in if n < total then Some (context\<lparr>s1_corrupted := True\<rparr>)
              else sha1_input_loop (context\<lparr>s1_length_high := ucast (drop_bit 32 n),
                     s1_length_low := ucast n\<rparr>) message)"

definition sha1_stream_init :: "sha1_state \<Rightarrow> sha1_state" where
  "sha1_stream_init p = SHA1Reset p"

text \<open>\<open>SHA1Input\<close> counts in 32 bits, so the update cuts its data.\<close>

function sha1_stream_update :: "sha1_state \<Rightarrow> byte list \<Rightarrow> sha1_state option" where
  "sha1_stream_update p data =
     (if data = [] then Some p
      else do {
        let l = (if length data > 0x20000000 then 0x20000000 else length data);
        p \<leftarrow> SHA1Input p (take l data);
        sha1_stream_update p (drop l data) })"
  by pat_completeness auto
termination by (relation "measure (\<lambda>(p, data). length data)") auto

declare sha1_stream_update.simps [simp del]

definition sha1_stream_final :: "sha1_state \<Rightarrow> (bool \<times> sha1_state \<times> byte list option) option" where
  "sha1_stream_final p = SHA1Result p True"

definition sha1_stream_block :: "sha1_state \<Rightarrow> byte list \<Rightarrow> sha1_state option" where
  "sha1_stream_block p data = do {
     bytes \<leftarrow> mem_read data 0 64;
     b \<leftarrow> mem_write (s1_block p) 0 bytes;
     SHA1ProcessMessageBlock (p\<lparr>s1_block := b, s1_block_index := 64\<rparr>) }"

section \<open>The one-shot digest\<close>

definition sha1_iv :: "u32 list" where
  "sha1_iv = [0x67452301, 0xEFCDAB89, 0x98BADCFE, 0x10325476, 0xC3D2E1F0]"

text \<open>The number of padding blocks and the buffer \<open>out\<close> they are written to.\<close>

definition sha1_pad :: "byte list \<Rightarrow> byte list \<Rightarrow> nat \<Rightarrow> (nat \<times> byte list) option" where
  "sha1_pad out tail len = do {
     let rest = len mod 64;
     let n = (if rest < 56 then 1 else 2);
     let bits = (push_bit 3 (of_nat len) :: 64 word);
     bytes \<leftarrow> mem_read tail 0 rest;
     out \<leftarrow> mem_write out 0 bytes;
     out \<leftarrow> arr_set out rest 0x80;
     out \<leftarrow> mem_write out (rest + 1) (replicate (n * 64 - rest - 1 - 8) 0);
     out \<leftarrow> fold (\<lambda>i r. do { out \<leftarrow> r; arr_set out (n * 64 - 1 - i) (ucast (drop_bit (8 * i) bits)) })
             [0..<8] (Some out);
     Some (n, out) }"

definition sha1_out :: "u32 list \<Rightarrow> byte list" where
  "sha1_out d = map (digest_byte d) [0..<20]"

text \<open>\<open>last0\<close> is the uninitialised array \<open>last\<close> of 128 bytes.\<close>

definition SHA1Digest :: "byte list \<Rightarrow> byte list \<Rightarrow> nat \<Rightarrow> byte list option" where
  "SHA1Digest last0 data len = do {
     let whole = len div 64 * 64;
     d \<leftarrow> sha1_blocks sha1_iv data (whole div 64);
     (n, blk) \<leftarrow> sha1_pad last0 (drop whole data) len;
     d \<leftarrow> sha1_blocks d blk n;
     Some (sha1_out d) }"

text \<open>The digests of \<open>n\<close> messages of length \<open>len\<close>, each \<open>stride\<close> bytes after the one before.\<close>

fun SHA1DigestMany :: "byte list \<Rightarrow> byte list \<Rightarrow> nat \<Rightarrow> nat \<Rightarrow> nat \<Rightarrow> nat \<Rightarrow> byte list \<Rightarrow> byte list option" where
  "SHA1DigestMany last0 data stride len i 0 digests = Some digests"
| "SHA1DigestMany last0 data stride len i (Suc n) digests = do {
     d \<leftarrow> SHA1Digest last0 (drop (i * stride) data) len;
     digests \<leftarrow> mem_write digests (20 * i) d;
     SHA1DigestMany last0 data stride len (i + 1) n digests }"

section \<open>The hash computation of FIPS 180-4\<close>

fun fips1_W :: "(nat \<Rightarrow> u32) \<Rightarrow> nat \<Rightarrow> u32" where
  "fips1_W M t = (if t < 16 then M t
     else word_rotl 1 (fips1_W M (t - 3) XOR fips1_W M (t - 8) XOR
            fips1_W M (t - 14) XOR fips1_W M (t - 16)))"

declare fips1_W.simps [simp del]

definition fips1_f :: "nat \<Rightarrow> u32 \<Rightarrow> u32 \<Rightarrow> u32 \<Rightarrow> u32" where
  "fips1_f t x y z =
     (if t < 20 then (x AND y) XOR (NOT x AND z)
      else if 40 \<le> t \<and> t < 60 then (x AND y) XOR (x AND z) XOR (y AND z)
      else x XOR y XOR z)"

definition fips1_K :: "nat \<Rightarrow> u32" where
  "fips1_K t = (if t < 20 then 0x5A827999 else if t < 40 then 0x6ED9EBA1
                else if t < 60 then 0x8F1BBCDC else 0xCA62C1D6)"

definition fips1_round :: "(nat \<Rightarrow> u32) \<Rightarrow> nat \<Rightarrow> sha1_regs \<Rightarrow> sha1_regs" where
  "fips1_round W t = (\<lambda>(a, b, c, d, e).
     let T = word_rotl 5 a + fips1_f t b c d + e + fips1_K t + W t
     in (T, a, word_rotl 30 b, c, d))"

definition fips1_compress :: "u32 list \<Rightarrow> byte list \<Rightarrow> u32 list" where
  "fips1_compress H block =
     (let (a, b, c, d, e) = fold (fips1_round (fips1_W (load32be block))) [0..<80]
            (H ! 0, H ! 1, H ! 2, H ! 3, H ! 4)
      in [a + H ! 0, b + H ! 1, c + H ! 2, d + H ! 3, e + H ! 4])"

lemma and_ones: "w AND 0xFFFFFFFF = (w :: u32)"
proof -
  have "(0xFFFFFFFF :: u32) = - 1" by simp
  then show ?thesis by (simp only: and.right_neutral)
qed

lemma SHA1CircularShift_rotl: "0 < n \<Longrightarrow> n < 32 \<Longrightarrow> SHA1CircularShift n w = word_rotl n w"
  using shifts_rotl [of n w] by (simp add: SHA1CircularShift_def and_ones)

lemma sha1_schedule_step:
  assumes "16 \<le> i" and "\<forall>j < i. v ! j = fips1_W M j"
  shows "SHA1CircularShift 1 (v ! (i - 3) XOR v ! (i - 8) XOR v ! (i - 14) XOR v ! (i - 16)) =
    fips1_W M i"
  using assms fips1_W.simps [of M i] by (simp add: SHA1CircularShift_rotl)

lemma sha1_schedule_fips:
  assumes "length w = 80"
  shows "\<forall>t < 80. sha1_schedule block w ! t = fips1_W (load32be block) t"
proof -
  let ?W = "fips1_W (load32be block)"
  define M where "M = (\<lambda>t. push_bit 24 (ucast (block ! (t * 4))) OR
    push_bit 16 (ucast (block ! (t * 4 + 1))) OR push_bit 8 (ucast (block ! (t * 4 + 2))) OR
    ucast (block ! (t * 4 + 3)) :: u32)"
  have M: "M = load32be block" by (simp add: M_def load32be_def fun_eq_iff mult.commute)
  define w1 where "w1 = fold (\<lambda>i w. w[i := M i]) [0..<16] w"
  have w1: "length w1 = 80 \<and> (\<forall>j < 16. w1 ! j = ?W j)"
    unfolding w1_def M using assms by (intro schedule_start) (simp_all add: fips1_W.simps)
  define f where "f = (\<lambda>i (w :: u32 list).
    SHA1CircularShift 1 (w ! (i - 3) XOR w ! (i - 8) XOR w ! (i - 14) XOR w ! (i - 16)))"
  have step: "f i v = ?W i" if "16 \<le> i" "i < 80" "\<forall>j < i. v ! j = ?W j" for i v
    unfolding f_def by (rule sha1_schedule_step [OF that(1,3)])
  have w1': "80 \<le> length w1" "\<forall>j < 16. w1 ! j = ?W j" and m: "max 16 80 = (80 :: nat)"
    using w1 by simp_all
  have "sha1_schedule block w = fold (\<lambda>i w. w[i := f i w]) [16..<80] w1"
    by (simp only: sha1_schedule_def w1_def f_def Let_def M_def)
  moreover have "length (fold (\<lambda>i w. w[i := f i w]) [16..<80] w1) = length w1 \<and>
      (\<forall>j < max 16 80. fold (\<lambda>i w. w[i := f i w]) [16..<80] w1 ! j = ?W j)"
    by (rule fill_array) (rule w1' | erule (2) step)+
  ultimately show ?thesis by (simp only: m) blast
qed

lemma sha1_turns_fips:
  assumes "\<forall>t < 80. w ! t = W t" and "b \<le> 80"
    and f: "\<And>t. a \<le> t \<Longrightarrow> t < b \<Longrightarrow> f = fips1_f t \<and> k = fips1_K t"
  shows "fold (sha1_turn f k w) [a..<b] regs = fold (fips1_round W) [a..<b] regs"
proof (rule fold_cong)
  fix t assume t: "t \<in> set [a..<b]"
  then have "f = fips1_f t" "k = fips1_K t" "w ! t = W t" using f [of t] assms(1,2) by auto
  then show "sha1_turn f k w t = fips1_round W t"
    by (simp add: sha1_turn_def fips1_round_def and_ones SHA1CircularShift_rotl Let_def fun_eq_iff
        ac_simps)
qed simp_all

lemma fips1_fs:
  "t < 20 \<Longrightarrow> (\<lambda>B C D. (B AND C) OR (NOT B AND D)) = fips1_f t \<and> sha1_K ! 0 = fips1_K t"
  "20 \<le> t \<Longrightarrow> t < 40 \<Longrightarrow> (\<lambda>B C D. B XOR C XOR D) = fips1_f t \<and> sha1_K ! 1 = fips1_K t"
  "40 \<le> t \<Longrightarrow> t < 60 \<Longrightarrow> (\<lambda>B C D. (B AND C) OR (B AND D) OR (C AND D)) = fips1_f t \<and>
     sha1_K ! 2 = fips1_K t"
  "60 \<le> t \<Longrightarrow> (\<lambda>B C D. B XOR C XOR D) = fips1_f t \<and> sha1_K ! 3 = fips1_K t"
  by (auto simp: fips1_f_def fips1_K_def sha1_K_def fun_eq_iff ac_simps
      intro!: bit_word_eqI simp: bit_simps)

lemma sha1_scalar_block_fips: "sha1_scalar_block (replicate 80 0) H block = fips1_compress H block"
proof -
  let ?w = "sha1_schedule block (replicate 80 0)" and ?W = "fips1_W (load32be block)"
  have w: "\<forall>t < 80. ?w ! t = ?W t" by (rule sha1_schedule_fips) simp
  have turns:
    "fold (sha1_turn (\<lambda>B C D. (B AND C) OR (NOT B AND D)) (sha1_K ! 0) ?w) [0..<20] r =
       fold (fips1_round ?W) [0..<20] r"
    "fold (sha1_turn (\<lambda>B C D. B XOR C XOR D) (sha1_K ! 1) ?w) [20..<40] r =
       fold (fips1_round ?W) [20..<40] r"
    "fold (sha1_turn (\<lambda>B C D. (B AND C) OR (B AND D) OR (C AND D)) (sha1_K ! 2) ?w) [40..<60] r =
       fold (fips1_round ?W) [40..<60] r"
    "fold (sha1_turn (\<lambda>B C D. B XOR C XOR D) (sha1_K ! 3) ?w) [60..<80] r =
       fold (fips1_round ?W) [60..<80] r" for r
    by (rule sha1_turns_fips [OF w], simp, rule fips1_fs; simp)+
  have split: "fold (fips1_round ?W) [0..<80] r = fold (fips1_round ?W) [60..<80]
      (fold (fips1_round ?W) [40..<60] (fold (fips1_round ?W) [20..<40] (fold (fips1_round ?W) [0..<20] r)))"
    for r
    by (simp only: fold_upt_split [of 0 20 80] fold_upt_split [of 20 40 80]
        fold_upt_split [of 40 60 80]) 
  show ?thesis
    unfolding sha1_scalar_block_def fips1_compress_def Let_def split and_ones turns
    by (simp only: add.commute)
qed

section \<open>Feeding and finishing\<close>

lemma sha1_blocks_absorb:
  "n * 64 \<le> length data \<Longrightarrow>
   sha1_blocks d data n = Some (fst (absorb 64 fips1_compress d (take (n * 64) data)))"
proof (induction n arbitrary: d data)
  case 0
  then show ?case by (simp add: sha1_blocks_def absorb_short)
next
  case (Suc n)
  let ?d = "fips1_compress d (take 64 data)"
  have rest: "n * 64 \<le> length (drop 64 data)" using Suc.prems by simp
  have "sha1_scalar_blocks ?d (drop 64 data) n = sha1_blocks ?d (drop 64 data) n"
    by (simp add: sha1_blocks_def)
  then have "sha1_blocks d data (Suc n) = sha1_blocks ?d (drop 64 data) n"
    using Suc.prems by (simp add: sha1_blocks_def [of d] mem_read_Some sha1_scalar_block_fips)
  also have "\<dots> = Some (fst (absorb 64 fips1_compress ?d (take (n * 64) (drop 64 data))))"
    by (rule Suc.IH [OF rest])
  also have "absorb 64 fips1_compress ?d (take (n * 64) (drop 64 data)) =
      absorb 64 fips1_compress d (take (Suc n * 64) data)"
    using Suc.prems by (subst (2) absorb_step) (simp_all add: take_drop add.commute)
  finally show ?case .
qed

lemma sha1_process_block:
  assumes "length (s1_block c) = 64"
  shows "SHA1ProcessMessageBlock c =
    Some (c\<lparr>s1_digest := fips1_compress (s1_digest c) (s1_block c), s1_block_index := 0\<rparr>)"
  using assms sha1_blocks_absorb [of 1 "s1_block c" "s1_digest c"]
  by (simp add: SHA1ProcessMessageBlock_def absorb_one)

lemma sha1_zero_fill_value:
  "s1_block_index c \<le> n \<Longrightarrow> n \<le> length (s1_block c) \<Longrightarrow>
   sha1_zero_fill n c = Some (c\<lparr>s1_block_index := n,
     s1_block := take (s1_block_index c) (s1_block c) @ replicate (n - s1_block_index c) 0 @
       drop n (s1_block c)\<rparr>)"
proof (induction n c rule: sha1_zero_fill.induct)
  case (1 n c)
  let ?i = "s1_block_index c" and ?b = "s1_block c"
  show ?case
  proof (cases "?i < n")
    case False
    with "1.prems" have "n = ?i" by simp
    then show ?thesis by (subst sha1_zero_fill.simps) simp
  next
    case True
    let ?c = "c\<lparr>s1_block := ?b[?i := 0], s1_block_index := ?i + 1\<rparr>"
    have set: "arr_set ?b ?i 0 = Some (?b[?i := 0])"
      using True "1.prems" by (simp add: arr_set_Some)
    have "sha1_zero_fill n c = sha1_zero_fill n ?c"
      using True set by (subst sha1_zero_fill.simps) simp
    also have "\<dots> = Some (?c\<lparr>s1_block_index := n, s1_block := take (?i + 1) (?b[?i := 0]) @
        replicate (n - (?i + 1)) 0 @ drop n (?b[?i := 0])\<rparr>)"
      using "1.IH" [OF True set] True "1.prems" by simp
    also have "take (?i + 1) (?b[?i := 0]) @ replicate (n - (?i + 1)) 0 @ drop n (?b[?i := 0]) =
        take ?i ?b @ replicate (n - ?i) 0 @ drop n ?b"
      using True "1.prems" by (simp add: take_Suc_conv_app_nth Suc_diff_Suc [symmetric])
    finally show ?thesis by simp
  qed
qed

definition sha1_ok :: "sha1_state \<Rightarrow> bool" where
  "sha1_ok c \<longleftrightarrow> length (s1_block c) = 64 \<and> s1_block_index c < 64"

definition sha1_pending :: "sha1_state \<Rightarrow> byte list" where
  "sha1_pending c = take (s1_block_index c) (s1_block c)"

definition sha1_bits :: "sha1_state \<Rightarrow> nat" where
  "sha1_bits c = unat (s1_length_high c) * 2 ^ 32 + unat (s1_length_low c)"

definition sha1_count :: "sha1_state \<Rightarrow> nat" where
  "sha1_count c = sha1_bits c div 8"

definition sha1_inv :: "sha1_state \<Rightarrow> bool" where
  "sha1_inv c \<longleftrightarrow> sha1_ok c \<and> \<not> s1_computed c \<and> \<not> s1_corrupted c \<and>
     sha1_bits c = 8 * sha1_count c \<and> s1_block_index c = sha1_count c mod 64 \<and>
     length (s1_digest c) = 5"

lemma sha1_input_loop_absorbs:
  "sha1_ok c \<Longrightarrow> \<exists>c'. sha1_input_loop c s = Some c' \<and> sha1_ok c' \<and>
     (s1_digest c', sha1_pending c') = absorb 64 fips1_compress (s1_digest c) (sha1_pending c @ s) \<and>
     s1_block_index c' = (s1_block_index c + length s) mod 64 \<and>
     s1_length_high c' = s1_length_high c \<and> s1_length_low c' = s1_length_low c \<and>
     s1_computed c' = s1_computed c \<and> s1_corrupted c' = s1_corrupted c"
proof (induction "length s" arbitrary: c s rule: less_induct)
  case less
  let ?i = "s1_block_index c" and ?d = "s1_digest c"
  have ok: "length (s1_block c) = 64" "?i < 64" using less.prems by (simp_all add: sha1_ok_def)
  have pend: "length (sha1_pending c) = ?i" using ok by (simp add: sha1_pending_def)
  have end_loop: "sha1_input_loop q [] = Some q" for q
    by (subst sha1_input_loop.simps) simp
  consider "s = []" | "?i = 0" "64 \<le> length s" | "s \<noteq> []" "length s < 64 - ?i"
    | "0 < ?i" "64 - ?i \<le> length s" by (metis bot_nat_0.not_eq_extremum diff_zero not_le)
  then show ?case
  proof cases
    case 1
    with less.prems ok pend show ?thesis by (simp add: end_loop absorb_short)
  next
    case 2
    let ?k = "length s div 64"
    let ?q = "c\<lparr>s1_digest := fst (absorb 64 fips1_compress ?d (take (?k * 64) s))\<rparr>"
    have k: "?k * 64 \<le> length s" by simp
    have "s \<noteq> []" using 2 by auto
    then have run: "sha1_input_loop c s = sha1_input_loop ?q (drop (?k * 64) s)"
      using 2 sha1_blocks_absorb [OF k, of ?d] by (subst sha1_input_loop.simps) (simp add: Let_def)
    have q: "sha1_ok ?q" "sha1_pending ?q = []" using ok 2 by (simp_all add: sha1_ok_def sha1_pending_def)
    have "length (drop (?k * 64) s) < length s" using 2 by simp
    from less.hyps [OF this q(1)] obtain c' where c':
      "sha1_input_loop ?q (drop (?k * 64) s) = Some c'" "sha1_ok c'"
      "(s1_digest c', sha1_pending c') =
        absorb 64 fips1_compress (s1_digest ?q) (drop (?k * 64) s)"
      "s1_block_index c' = length (drop (?k * 64) s) mod 64"
      "s1_length_high c' = s1_length_high c" "s1_length_low c' = s1_length_low c"
      "s1_computed c' = s1_computed c" "s1_corrupted c' = s1_corrupted c"
      using 2 by (auto simp: q(2))
    have "sha1_pending c = []" using 2 by (simp add: sha1_pending_def)
    then have "(s1_digest c', sha1_pending c') = absorb 64 fips1_compress ?d (sha1_pending c @ s)"
      using absorb_whole [OF _ k, of fips1_compress ?d] by (simp add: c'(3))
    moreover have "s1_block_index c' = (?i + length s) mod 64"
      using 2 by (simp add: c'(4) minus_div_mult_eq_mod)
    ultimately show ?thesis using run c'(1,2,5-8) by metis
  next
    case 3
    let ?q = "c\<lparr>s1_block := take ?i (s1_block c) @ s @ drop (?i + length s) (s1_block c),
      s1_block_index := ?i + length s\<rparr>"
    have "?i + length s \<noteq> 64" "\<not> 64 \<le> length s" using 3 by linarith+
    then have "sha1_input_loop c s = Some ?q"
      using 3 ok by (subst sha1_input_loop.simps) (simp add: Let_def mem_write_Some end_loop)
    moreover have "sha1_ok ?q" "sha1_pending ?q = sha1_pending c @ s"
      using 3 ok by (simp_all add: sha1_ok_def sha1_pending_def)
    ultimately show ?thesis using 3 pend by (simp add: absorb_short)
  next
    case 4
    let ?l = "64 - ?i"
    let ?block = "sha1_pending c @ take ?l s"
    let ?q = "c\<lparr>s1_block := ?block, s1_block_index := 0, s1_digest := fips1_compress ?d ?block\<rparr>"
    have block: "length ?block = 64" using 4 ok pend by simp
    have s: "s \<noteq> []" "0 < length s" using 4 ok by auto
    have wr: "mem_write (s1_block c) ?i (take ?l s) = Some ?block"
      using 4 ok by (simp add: mem_write_Some sha1_pending_def)
    have process: "SHA1ProcessMessageBlock (c\<lparr>s1_block := ?block, s1_block_index := 64\<rparr>) = Some ?q"
      using sha1_process_block [of "c\<lparr>s1_block := ?block, s1_block_index := 64\<rparr>"] block by simp
    have "\<not> (64 - ?i = 64 \<and> 64 \<le> length s)" using 4 by linarith
    then have run: "sha1_input_loop c s = sha1_input_loop ?q (drop ?l s)"
      using 4 ok s by (subst sha1_input_loop.simps) (simp add: Let_def wr process)
    have q: "sha1_ok ?q" "sha1_pending ?q = []" using block by (simp_all add: sha1_ok_def sha1_pending_def)
    have "length (drop ?l s) < length s" using s ok by (simp only: length_drop)
    from less.hyps [OF this q(1)] obtain c' where c':
      "sha1_input_loop ?q (drop ?l s) = Some c'" "sha1_ok c'"
      "(s1_digest c', sha1_pending c') =
        absorb 64 fips1_compress (fips1_compress ?d ?block) (drop ?l s)"
      "s1_block_index c' = length (drop ?l s) mod 64"
      "s1_length_high c' = s1_length_high c" "s1_length_low c' = s1_length_low c"
      "s1_computed c' = s1_computed c" "s1_corrupted c' = s1_corrupted c"
      by (auto simp: q(2))
    have "absorb 64 fips1_compress ?d (sha1_pending c @ s) =
        absorb 64 fips1_compress ?d (?block @ drop ?l s)" by simp
    also have "\<dots> = (s1_digest c', sha1_pending c')"
      by (simp only: c'(3) absorb_block [OF zero_less_numeral block])
    finally have abs: "(s1_digest c', sha1_pending c') =
      absorb 64 fips1_compress ?d (sha1_pending c @ s)" by simp
    have "?i + length s = 64 + length (drop ?l s)" using 4 ok by simp
    then have "s1_block_index c' = (?i + length s) mod 64" by (simp only: c'(4) mod_add_self1)
    with abs run c'(1,2,5-8) show ?thesis by metis
  qed
qed


lemma length_fips1_compress [simp]: "length (fips1_compress H block) = 5"
  by (simp add: fips1_compress_def split: prod.split)

lemma length_absorb_fips1:
  "length H = 5 \<Longrightarrow> length (fst (absorb 64 fips1_compress H xs)) = 5"
  by (rule absorb_invariant) simp_all

section \<open>The bit counter\<close>

lemma join_words:
  fixes hi lo :: u32
  shows "(push_bit 32 (ucast hi) OR ucast lo :: 64 word) = of_nat (unat hi * 2 ^ 32 + unat lo)"
proof -
  have "(push_bit 32 (ucast hi) OR ucast lo :: 64 word) = push_bit 32 (ucast hi) + ucast lo"
    by (rule disjunctive_add [symmetric]) (auto simp: bit_simps dest: bit_imp_le_length)
  also have "\<dots> = of_nat (unat hi * 2 ^ 32 + unat lo)"
    by (simp add: push_bit_eq_mult mult.commute)
  finally show ?thesis .
qed

lemma join_words_bound: "unat (hi :: u32) * 2 ^ 32 + unat (lo :: u32) < 2 ^ 64"
  using unsigned_less [of hi, where ?'a = nat] unsigned_less [of lo, where ?'a = nat] by simp

lemma split_words:
  assumes "n < 2 ^ 64"
  shows "unat (ucast (drop_bit 32 (of_nat n :: 64 word)) :: u32) = n div 2 ^ 32"
    and "unat (ucast (of_nat n :: 64 word) :: u32) = n mod 2 ^ 32"
proof -
  have n: "unat (of_nat n :: 64 word) = n" using assms by (simp add: unat_of_nat)
  have "unat (drop_bit 32 (of_nat n :: 64 word)) = n div 2 ^ 32"
    by (simp only: unat_drop_bit_eq n) (simp add: drop_bit_eq_div)
  moreover have "n div 2 ^ 32 < 2 ^ 32" using assms by (simp add: less_mult_imp_div_less)
  ultimately show "unat (ucast (drop_bit 32 (of_nat n :: 64 word)) :: u32) = n div 2 ^ 32"
    by (simp only: unsigned_ucast_eq take_bit_eq_mod) simp
  show "unat (ucast (of_nat n :: 64 word) :: u32) = n mod 2 ^ 32"
    by (simp only: unsigned_ucast_eq n take_bit_eq_mod) simp
qed

lemma SHA1Input_absorbs:
  assumes inv: "sha1_inv c" and fits: "sha1_count c + length s < 2 ^ 61" and small: "length s < 2 ^ 32"
  shows "\<exists>c'. SHA1Input c s = Some c' \<and> sha1_inv c' \<and> sha1_count c' = sha1_count c + length s \<and>
    (s1_digest c', sha1_pending c') = absorb 64 fips1_compress (s1_digest c) (sha1_pending c @ s)"
proof (cases "s = []")
  case True
  with inv show ?thesis
    by (auto simp: SHA1Input_def sha1_inv_def sha1_ok_def sha1_pending_def absorb_short)
next
  case False
  note i = inv [unfolded sha1_inv_def]
  let ?total = "push_bit 32 (ucast (s1_length_high c)) OR ucast (s1_length_low c) :: 64 word"
  let ?N = "8 * (sha1_count c + length s)"
  let ?n = "?total + push_bit 3 (of_nat (length s))"
  have total: "?total = of_nat (8 * sha1_count c)"
    using i join_words [of "s1_length_high c" "s1_length_low c"] by (simp add: sha1_bits_def)
  have n: "?n = of_nat ?N"
    by (simp only: total) (simp add: push_bit_eq_mult algebra_simps)
  have bound: "?N < 2 ^ 64" using fits by simp
  have u: "m < 2 ^ 64 \<Longrightarrow> unat (of_nat m :: 64 word) = m" for m by (simp add: unat_of_nat)
  have "8 * sha1_count c < 2 ^ 64" using bound by simp
  then have "unat ?total = 8 * sha1_count c" "unat ?n = ?N"
    by (simp_all only: n u [OF bound], simp_all only: total u)
  then have no_wrap: "\<not> ?n < ?total" by (simp only: word_less_nat_alt) simp
  let ?q = "c\<lparr>s1_length_high := ucast (drop_bit 32 ?n), s1_length_low := ucast ?n\<rparr>"
  have run: "SHA1Input c s = sha1_input_loop ?q s"
    using False i no_wrap by (simp add: SHA1Input_def Let_def)
  have bits: "sha1_bits ?q = ?N"
    using split_words [OF bound] by (simp only: n sha1_bits_def sha1_state.simps) simp
  have "sha1_ok ?q" "sha1_pending ?q = sha1_pending c" using i by (simp_all add: sha1_ok_def sha1_pending_def)
  from sha1_input_loop_absorbs [OF this(1), of s] this(2) obtain c' where c':
    "sha1_input_loop ?q s = Some c'" "sha1_ok c'"
    "(s1_digest c', sha1_pending c') = absorb 64 fips1_compress (s1_digest c) (sha1_pending c @ s)"
    "s1_block_index c' = (s1_block_index c + length s) mod 64"
    "s1_length_high c' = s1_length_high ?q" "s1_length_low c' = s1_length_low ?q"
    "\<not> s1_computed c'" "\<not> s1_corrupted c'" using i by auto
  have "sha1_bits c' = ?N" using bits by (simp only: sha1_bits_def c'(5,6))
  moreover from this have count: "sha1_count c' = sha1_count c + length s"
    by (simp add: sha1_count_def)
  moreover have "length (s1_digest c') = 5"
    using length_absorb_fips1 [of "s1_digest c" "sha1_pending c @ s"] i by (simp flip: c'(3))
  ultimately have "sha1_inv c'"
    using c'(2,4,7,8) i by (simp add: sha1_inv_def mod_add_left_eq)
  with run c'(1,3) count show ?thesis by metis
qed


lemma sha1_stream_update_absorbs:
  "sha1_inv c \<Longrightarrow> sha1_count c + length s < 2 ^ 61 \<Longrightarrow>
   \<exists>c'. sha1_stream_update c s = Some c' \<and> sha1_inv c' \<and> sha1_count c' = sha1_count c + length s \<and>
     (s1_digest c', sha1_pending c') = absorb 64 fips1_compress (s1_digest c) (sha1_pending c @ s)"
proof (induction "length s" arbitrary: c s rule: less_induct)
  case less
  show ?case
  proof (cases "s = []")
    case True
    with less.prems show ?thesis
      by (subst sha1_stream_update.simps)
        (auto simp: sha1_inv_def sha1_ok_def sha1_pending_def absorb_short)
  next
    case False
    define l where "l = (if length s > 0x20000000 then 0x20000000 else length s)"
    have l: "0 < l" "l \<le> length s" "l \<le> 0x20000000" using False by (auto simp: l_def)
    from SHA1Input_absorbs [OF less.prems(1), of "take l s"] less.prems(2) l obtain c1 where
      c1: "SHA1Input c (take l s) = Some c1" "sha1_inv c1" "sha1_count c1 = sha1_count c + l"
      "(s1_digest c1, sha1_pending c1) =
        absorb 64 fips1_compress (s1_digest c) (sha1_pending c @ take l s)" by auto
    have "length (drop l s) < length s" "sha1_count c1 + length (drop l s) < 2 ^ 61"
      using l less.prems(2) c1(3) by (auto simp: not_le)
    from less.hyps [OF this(1) c1(2) this(2)] obtain c' where c':
      "sha1_stream_update c1 (drop l s) = Some c'" "sha1_inv c'"
      "sha1_count c' = sha1_count c1 + length (drop l s)"
      "(s1_digest c', sha1_pending c') =
        absorb 64 fips1_compress (s1_digest c1) (sha1_pending c1 @ drop l s)" by auto
    have "sha1_stream_update c s = Some c'"
      using False c1(1) c'(1) by (subst sha1_stream_update.simps) (simp add: l_def Let_def)
    moreover have "absorb 64 fips1_compress (s1_digest c) (sha1_pending c @ s) =
        absorb 64 fips1_compress (s1_digest c1) (sha1_pending c1 @ drop l s)"
      using absorb_append [of 64 fips1_compress "s1_digest c" "sha1_pending c @ take l s" "drop l s"]
      by (simp flip: c1(4))
    ultimately show ?thesis using c'(2-4) c1(3) l(2) by simp
  qed
qed

lemma sha1_length_bytes:
  assumes "sha1_bits c = 8 * n"
  shows "be_bytes (s1_length_high c) @ be_bytes (s1_length_low c) = sha256_enc n"
proof -
  let ?hi = "s1_length_high c" and ?lo = "s1_length_low c"
  have lo: "unat ?lo < 2 ^ 32" using unsigned_less [of ?lo, where ?'a = nat] by simp
  have "8 * n div 2 ^ 32 = unat ?hi" using assms lo by (simp add: sha1_bits_def flip: assms)
  then have "?hi = of_nat (8 * n div 2 ^ 32)" by (simp only: of_nat_unat ucast_id)
  moreover have "8 * n mod 2 ^ 32 = unat ?lo" using assms lo by (simp add: sha1_bits_def flip: assms)
  then have "unat (of_nat (8 * n) :: u32) = unat ?lo" by (simp only: unat_of_nat) simp
  then have "?lo = of_nat (8 * n)" by (simp only: word_unat_eq_iff)
  ultimately show ?thesis by (simp only: sha256_enc_def)
qed


text \<open>The last block: zeros up to byte \<open>56\<close>, the length, and the block function.\<close>

lemma sha1_last_block:
  assumes "s1_block c = pre @ post" "s1_block_index c = length pre" "length (s1_block c) = 64"
    "length pre \<le> 56" and bits: "sha1_bits c = 8 * n"
  shows "\<exists>c'. sha1_pad_tail c = Some c' \<and>
    s1_digest c' = fips1_compress (s1_digest c) (pre @ replicate (56 - length pre) 0 @ sha256_enc n)"
proof -
  let ?z = "pre @ replicate (56 - length pre) 0"
  let ?c = "c\<lparr>s1_block_index := 56, s1_block := ?z @ drop 56 (pre @ post)\<rparr>"
  let ?block = "?z @ sha256_enc n"
  have fill: "sha1_zero_fill 56 c = Some ?c"
    using sha1_zero_fill_value [of c 56] assms(1-4) by simp
  have "sha1_bits ?c = 8 * n" using bits by (simp add: sha1_bits_def)
  note bytes = sha1_length_bytes [OF this]
  have wr: "mem_write (?z @ drop 56 (pre @ post)) 56 (sha256_enc n) = Some ?block"
    using assms(1-4) by (simp add: mem_write_Some length_sha256_enc)
  have len: "length ?block = 64" using assms(4) by (simp add: length_sha256_enc)
  have process: "SHA1ProcessMessageBlock (?c\<lparr>s1_block := ?block\<rparr>) = Some (?c\<lparr>s1_block := ?block,
      s1_digest := fips1_compress (s1_digest c) ?block, s1_block_index := 0\<rparr>)"
    using sha1_process_block [of "?c\<lparr>s1_block := ?block\<rparr>"] len by simp
  have "s1_block ?c = ?z @ drop 56 (pre @ post)" by simp
  then show ?thesis
    unfolding sha1_pad_tail_def fill bind.bind_lunit bytes by (simp only: wr bind.bind_lunit process) simp
qed

lemma SHA1PadMessage_absorbs:
  assumes inv: "sha1_inv c"
  shows "\<exists>c'. SHA1PadMessage c = Some c' \<and>
    s1_digest c' = fst (absorb 64 fips1_compress (s1_digest c)
      (sha1_pending c @ md_pad 64 (sha256_enc (sha1_count c)) (sha1_count c)))"
proof -
  let ?n = "sha1_count c" and ?q = "sha1_pending c" and ?i = "s1_block_index c"
  have ok: "length (s1_block c) = 64" "?i < 64" "?n mod 64 = ?i" "sha1_bits c = 8 * ?n"
    using inv by (simp_all add: sha1_inv_def sha1_ok_def)
  have q: "?q = take ?i (s1_block c)" "length ?q = ?i" using ok by (simp_all add: sha1_pending_def)
  let ?post = "drop (?i + 1) (s1_block c)" and ?q1 = "?q @ [0x80]"
  let ?c = "c\<lparr>s1_block := ?q1 @ ?post, s1_block_index := ?i + 1\<rparr>"
  have set: "arr_set (s1_block c) ?i 0x80 = Some (?q1 @ ?post)"
    using q ok by (simp add: arr_set_Some upd_conv_take_nth_drop)
  show ?thesis
  proof (cases "?i \<le> 55")
    case True
    have "s1_block ?c = ?q1 @ ?post" "s1_block_index ?c = length ?q1" "length (s1_block ?c) = 64"
      "length ?q1 \<le> 56" "sha1_bits ?c = 8 * ?n"
      using True q(2) ok by (simp_all add: sha1_bits_def)
    from sha1_last_block [OF this] obtain c' where c': "sha1_pad_tail ?c = Some c'"
      "s1_digest c' = fips1_compress (s1_digest ?c)
         (?q1 @ replicate (56 - length ?q1) 0 @ sha256_enc ?n)" by blast
    have near: "\<not> s1_block_index ?c > 56" using True by simp
    have "SHA1PadMessage c = Some c'"
      using c'(1) unfolding SHA1PadMessage_def set bind.bind_lunit Let_def
      by (simp only: near if_False bind.bind_lunit)
    moreover have "absorb 64 fips1_compress (s1_digest c) (?q @ md_pad 64 (sha256_enc ?n) ?n) =
        (fips1_compress (s1_digest c) (?q @ 0x80 # replicate (55 - ?i) 0 @ sha256_enc ?n), [])"
    proof -
      have "length ?q + 1 + length (sha256_enc ?n) \<le> 64" "?n mod 64 = length ?q"
        using True q(2) ok by (simp_all add: length_sha256_enc)
      from absorb_pad_near [OF this] show ?thesis by (simp add: length_sha256_enc q(2))
    qed
    moreover have "s1_digest c' = fips1_compress (s1_digest c)
        (?q @ 0x80 # replicate (55 - ?i) 0 @ sha256_enc ?n)"
      using c'(2) q(2) by simp
    ultimately show ?thesis by (metis fst_conv)
  next
    case False
    let ?b1 = "?q @ 0x80 # replicate (63 - ?i) 0"
    let ?f = "?c\<lparr>s1_block_index := 64, s1_block := ?b1\<rparr>"
    let ?d = "?f\<lparr>s1_digest := fips1_compress (s1_digest c) ?b1, s1_block_index := 0\<rparr>"
    have b1: "length ?b1 = 64" using q(2) ok(2) by simp
    have fill: "sha1_zero_fill 64 ?c = Some ?f"
      using sha1_zero_fill_value [of ?c 64] q(2) ok by simp
    have process: "SHA1ProcessMessageBlock ?f = Some ?d"
      using sha1_process_block [of ?f] b1 by simp
    have "s1_block ?d = [] @ ?b1" "s1_block_index ?d = length ([] :: byte list)" "length (s1_block ?d) = 64"
      "length ([] :: byte list) \<le> (56 :: nat)" "sha1_bits ?d = 8 * ?n"
      using ok b1 by (simp_all add: sha1_bits_def)
    from sha1_last_block [of ?d "[]" ?b1 ?n, OF this]
    have "\<exists>c'. sha1_pad_tail ?d = Some c' \<and> s1_digest c' =
        fips1_compress (s1_digest ?d) ([] @ replicate (56 - length ([] :: byte list)) 0 @ sha256_enc ?n)" .
    then obtain c' where c': "sha1_pad_tail ?d = Some c'" "s1_digest c' =
        fips1_compress (s1_digest ?d) ([] @ replicate (56 - length ([] :: byte list)) 0 @ sha256_enc ?n)"
      by (elim exE conjE)
    have far: "s1_block_index ?c > 56" using False by simp
    have "SHA1PadMessage c = Some c'"
      using c'(1) unfolding SHA1PadMessage_def set bind.bind_lunit Let_def
      by (simp only: far if_True fill process bind.bind_lunit)
    moreover have "absorb 64 fips1_compress (s1_digest c) (?q @ md_pad 64 (sha256_enc ?n) ?n) =
        (fips1_compress (fips1_compress (s1_digest c) ?b1) (replicate 56 0 @ sha256_enc ?n), [])"
    proof -
      have "length ?q < 64" "64 < length ?q + 1 + length (sha256_enc ?n)"
        "length (sha256_enc ?n) < 64" "?n mod 64 = length ?q"
        using False q(2) ok by (simp_all add: length_sha256_enc)
      from absorb_pad_far [OF this, of fips1_compress "s1_digest c"]
      show ?thesis by (simp add: length_sha256_enc q(2))
    qed
    moreover have "s1_digest c' = fips1_compress (fips1_compress (s1_digest c) ?b1)
        (replicate 56 0 @ sha256_enc ?n)"
      using c'(2) by simp
    ultimately show ?thesis by (metis fst_conv)
  qed
qed


section \<open>The streaming interface\<close>

text \<open>The digest of a finish that succeeds.\<close>

definition sha1_finish :: "sha1_state \<Rightarrow> byte list option" where
  "sha1_finish p = do { (ok, _, digest) \<leftarrow> sha1_stream_final p; if ok then digest else None }"

interpretation sha1: streaming_hash 64 fips1_compress sha256_enc sha1_out sha1_inv s1_digest
  sha1_pending sha1_count "2 ^ 61" sha1_stream_update sha1_finish
proof unfold_locales
  show "length (sha256_enc n) < 64" for n by (simp add: length_sha256_enc)
  show "sha1_inv c \<Longrightarrow> length (sha1_pending c) < 64" for c
    by (auto simp: sha1_inv_def sha1_ok_def sha1_pending_def)
  show "sha1_inv c \<Longrightarrow> sha1_count c + length xs < 2 ^ 61 \<Longrightarrow>
      \<exists>c'. sha1_stream_update c xs = Some c' \<and> sha1_inv c' \<and>
        sha1_count c' = sha1_count c + length xs \<and>
        (s1_digest c', sha1_pending c') =
          absorb 64 fips1_compress (s1_digest c) (sha1_pending c @ xs)" for c xs
    by (rule sha1_stream_update_absorbs)
  show "sha1_finish c = Some (sha1_out (fst (absorb 64 fips1_compress (s1_digest c)
      (sha1_pending c @ md_pad 64 (sha256_enc (sha1_count c)) (sha1_count c)))))"
    if inv: "sha1_inv c" for c
  proof -
    from SHA1PadMessage_absorbs [OF inv] obtain c' where c': "SHA1PadMessage c = Some c'"
      "s1_digest c' = fst (absorb 64 fips1_compress (s1_digest c)
        (sha1_pending c @ md_pad 64 (sha256_enc (sha1_count c)) (sha1_count c)))" by blast
    have "\<not> s1_corrupted c" "\<not> s1_computed c" using inv by (simp_all add: sha1_inv_def)
    then have "sha1_finish c = Some (sha1_out (s1_digest c'))"
      by (simp add: sha1_finish_def sha1_stream_final_def SHA1Result_def c'(1) sha1_out_def)
    then show ?thesis by (simp only: c'(2))
  qed
qed

lemma sha1_init_inv:
  assumes "length (s1_block p) = 64"
  shows "sha1_inv (sha1_stream_init p)" "sha1_pending (sha1_stream_init p) = []"
    "sha1_count (sha1_stream_init p) = 0" "s1_digest (sha1_stream_init p) = sha1_iv"
  using assms
  by (simp_all add: sha1_inv_def sha1_ok_def sha1_pending_def sha1_count_def sha1_bits_def
      sha1_stream_init_def SHA1Reset_def sha1_iv_def)

definition sha1_reference :: "byte list \<Rightarrow> byte list" where
  "sha1_reference msg = md_hash 64 fips1_compress sha1_iv sha1_out sha256_enc msg"

lemma sha1_streaming:
  assumes "length (s1_block p) = 64" and "length (concat chunks) < 2 ^ 61"
  shows "do { p \<leftarrow> update_all sha1_stream_update (sha1_stream_init p) chunks; sha1_finish p } =
    Some (sha1_reference (concat chunks))"
  using sha1.streaming_correct [of "sha1_stream_init p" chunks] sha1_init_inv [OF assms(1)] assms(2)
  by (simp add: sha1_reference_def)

section \<open>The one-shot digest\<close>

lemma store_down:
  "k \<le> e \<Longrightarrow> e \<le> length out \<Longrightarrow>
   fold (\<lambda>i r. do { out \<leftarrow> r; arr_set out (e - 1 - i) (b i) }) [0..<k] (Some out) =
     Some (take (e - k) out @ rev (map b [0..<k]) @ drop e out)"
proof (induction k)
  case (Suc k)
  let ?o = "take (e - k) out @ rev (map b [0..<k]) @ drop e out"
  have "arr_set ?o (e - 1 - k) (b k) = Some (?o[e - 1 - k := b k])"
    using Suc.prems by (intro arr_set_Some) simp
  also have "?o[e - 1 - k := b k] = (take (e - k) out)[e - 1 - k := b k] @ rev (map b [0..<k]) @ drop e out"
    using Suc.prems by (simp add: list_update_append)
  also have "(take (e - k) out)[e - 1 - k := b k] = take (e - Suc k) out @ [b k]"
    using Suc.prems by (simp add: upd_conv_take_nth_drop)
  finally show ?case using Suc by simp
qed simp

lemma ucast_drop_ucast:
  "k + 8 \<le> 32 \<Longrightarrow> (ucast (drop_bit k (ucast w :: u32)) :: byte) = ucast (drop_bit k (w :: 64 word))"
  by (rule bit_word_eqI) (auto simp: bit_simps)

lemma store_down_bytes:
  "rev (map (\<lambda>i. ucast (drop_bit (8 * i) w)) [0..<8]) =
     be_bytes (ucast (drop_bit 32 w)) @ be_bytes (ucast (w :: 64 word))"
proof -
  have "[0..<8] = [0, 1, 2, 3, 4, 5, 6, 7::nat]" by (simp add: upt_rec)
  moreover have "(ucast (ucast v :: u32) :: byte) = ucast v" for v :: "64 word"
    using ucast_drop_ucast [of 0 v] by simp
  ultimately show ?thesis by (simp add: be_bytes_def ucast_drop_ucast)
qed

lemma sha1_pad_value:
  assumes "length out = 128" and "len mod 64 \<le> length rest_of" and "len < 2 ^ 61"
  defines "padding \<equiv> take (len mod 64) rest_of @ md_pad 64 (sha256_enc len) len"
  shows "\<exists>n. sha1_pad out rest_of len = Some (n, padding @ drop (n * 64) out) \<and>
    length padding = n * 64 \<and> n \<noteq> 0"
proof -
  define r where "r = len mod 64"
  define n :: nat where "n = (if r < 56 then 1 else 2)"
  let ?bits = "push_bit 3 (of_nat len) :: 64 word" and ?zeros = "replicate (n * 64 - r - 1 - 8) (0 :: byte)"
  let ?t = "take r rest_of"
  have r: "r < 64" "r + 1 + 8 \<le> n * 64" "n * 64 \<le> 128" "length ?t = r"
    using assms(2) by (auto simp: r_def n_def)
  have "unat (of_nat len :: 64 word) = len" using assms(3) by (simp add: unat_of_nat)
  then have enc: "be_bytes (ucast (drop_bit 32 ?bits)) @ be_bytes (ucast ?bits) = sha256_enc len"
    using sha256_length_bytes [of "of_nat len"] assms(3) by simp
  have pad: "padding = (?t @ 0x80 # ?zeros) @ sha256_enc len"
  proof -
    have "(2 * 64 - 1 - 8 - r) mod 64 = n * 64 - r - 1 - 8"
      using r(1) by (auto simp: n_def mod_if)
    then show ?thesis by (simp add: padding_def md_pad_def r_def length_sha256_enc)
  qed
  let ?o1 = "?t @ drop r out" and ?o2 = "?t @ 0x80 # drop (r + 1) out"
  let ?o3 = "(?t @ 0x80 # ?zeros) @ drop (n * 64 - 8) out"
  have w1: "mem_write out 0 ?t = Some ?o1" using r assms(1) by (simp add: mem_write_Some)
  have w2: "arr_set ?o1 r 0x80 = Some ?o2"
    using r assms(1) by (simp add: arr_set_Some list_update_append Cons_nth_drop_Suc [symmetric])
  obtain m where m: "n * 64 = r + 9 + m" using r(2) by (auto simp: le_iff_add)
  have w3: "mem_write ?o2 (r + 1) ?zeros = Some ?o3"
    using r assms(1) by (simp add: mem_write_Some m add.commute)
  have len3: "length (?t @ 0x80 # ?zeros) = n * 64 - 8" "length ?o3 = 128"
    using r assms(1) by auto
  have w4: "fold (\<lambda>i q. do { out \<leftarrow> q; arr_set out (n * 64 - 1 - i) (ucast (drop_bit (8 * i) ?bits)) })
      [0..<8] (Some ?o3) = Some (padding @ drop (n * 64) out)"
  proof -
    have "8 \<le> n * 64" "n * 64 \<le> length ?o3" using r len3(2) by simp_all
    note store_down [OF this, of "\<lambda>i. ucast (drop_bit (8 * i) ?bits)"]
    moreover have "take (n * 64 - 8) ?o3 = ?t @ 0x80 # ?zeros"
      using len3(1) by (metis append_eq_conv_conj)
    moreover have "drop (n * 64) ?o3 = drop (n * 64) out"
      using len3(1) r by (simp only: drop_append drop_drop) simp
    ultimately show ?thesis by (simp only: store_down_bytes enc pad append_assoc)
  qed
  have "sha1_pad out rest_of len = Some (n, padding @ drop (n * 64) out)"
    using r w1 w2 w3 w4 assms(2)
    by (simp add: sha1_pad_def mem_read_Some Let_def flip: r_def n_def del: upt_rec_numeral)
  moreover have "length padding = n * 64" using len3(1) r(2) by (simp add: pad length_sha256_enc)
  moreover have "n \<noteq> 0" by (simp add: n_def)
  ultimately show ?thesis by blast
qed

lemma SHA1Digest_value:
  assumes "length last0 = 128" and "len \<le> length data" and "len < 2 ^ 61"
  shows "SHA1Digest last0 data len = Some (sha1_reference (take len data))"
proof -
  let ?whole = "len div 64 * 64" and ?rest = "drop (len div 64 * 64) data"
  let ?pad = "md_pad 64 (sha256_enc len) len"
  let ?d = "fst (absorb 64 fips1_compress sha1_iv (take ?whole data))"
  let ?block = "take (len mod 64) ?rest @ ?pad"
  have le: "?whole \<le> length data" using assms(2) by (meson div_times_less_eq_dividend le_trans)
  have rest: "len mod 64 \<le> length ?rest"
    using assms(2) by (simp add: minus_div_mult_eq_mod [symmetric])
  from sha1_pad_value [OF assms(1) rest assms(3)] obtain n where
    n: "sha1_pad last0 ?rest len = Some (n, ?block @ drop (n * 64) last0)"
      "length ?block = n * 64" by blast
  have "n * 64 \<le> length (?block @ drop (n * 64) last0)" using n(2) by simp
  moreover have "take (n * 64) (?block @ drop (n * 64) last0) = ?block"
    using n(2) by (metis append_eq_conv_conj)
  ultimately have b: "sha1_blocks ?d (?block @ drop (n * 64) last0) n = Some (fst (absorb 64 fips1_compress ?d ?block))"
    by (simp only: sha1_blocks_absorb)
  have "SHA1Digest last0 data len = Some (sha1_out (fst (absorb 64 fips1_compress ?d ?block)))"
    by (simp add: SHA1Digest_def Let_def sha1_blocks_absorb [OF le] n(1) b del: append_assoc)
  moreover have msg: "take len data = take ?whole data @ take (len mod 64) ?rest"
    by (metis div_mult_mod_eq take_add)
  have "absorb 64 fips1_compress sha1_iv (take len data @ ?pad) = absorb 64 fips1_compress ?d ?block"
    using absorb_whole [of 64 "len div 64" "take len data @ ?pad" fips1_compress sha1_iv] le
    by (simp add: msg)
  ultimately show ?thesis
    using assms(2) by (simp add: sha1_reference_def md_hash_absorb length_sha256_enc)
qed


lemma length_sha1_out [simp]: "length (sha1_out d) = 20"
  by (simp add: sha1_out_def)

lemma SHA1DigestMany_value:
  assumes "length last0 = 128" and "len < 2 ^ 61"
  shows "(\<And>j. j < i + n \<Longrightarrow> j * stride + len \<le> length data) \<Longrightarrow>
    20 * (i + n) \<le> length digests \<Longrightarrow>
    SHA1DigestMany last0 data stride len i n digests = Some (take (20 * i) digests @
      concat (map (\<lambda>j. sha1_reference (take len (drop (j * stride) data))) [i..<i + n]) @
      drop (20 * (i + n)) digests)"
proof (induction n arbitrary: i digests)
  case (Suc n)
  let ?d = "sha1_reference (take len (drop (i * stride) data))"
  let ?digests = "take (20 * i) digests @ ?d @ drop (20 * i + 20) digests"
  have d: "length ?d = 20" by (simp add: sha1_reference_def md_hash_def Let_def)
  have "len \<le> length (drop (i * stride) data)" using Suc.prems(1) [of i] by simp
  then have one: "SHA1Digest last0 (drop (i * stride) data) len = Some ?d"
    using assms by (simp add: SHA1Digest_value)
  have wr: "mem_write digests (20 * i) ?d = Some ?digests"
    using Suc.prems(2) d by (simp add: mem_write_Some)
  have "SHA1DigestMany last0 data stride len (i + 1) n ?digests =
      Some (take (20 * (i + 1)) ?digests @
        concat (map (\<lambda>j. sha1_reference (take len (drop (j * stride) data))) [i + 1..<i + 1 + n]) @
        drop (20 * (i + 1 + n)) ?digests)"
    using Suc.prems d by (intro Suc.IH) auto
  moreover have "take (20 * (i + 1)) ?digests = take (20 * i) digests @ ?d"
    "drop (20 * (i + 1 + n)) ?digests = drop (20 * (i + Suc n)) digests"
    using Suc.prems(2) d by (simp_all add: algebra_simps)
  moreover have "[i..<i + Suc n] = i # [i + 1..<i + 1 + n]"
    by (simp add: upt_rec)
  ultimately show ?case using one wr by simp
qed simp

text \<open>
  C23. SHA-1 as FIPS 180-4 defines it, both ways the code computes it: initializing any state,
  feeding a message in any number of pieces and finishing succeeds, and gives the digest that
  \<open>SHA1Digest\<close> gives of the whole message at once with its separately written padding; both are
  the standard's hash computation over the padded blocks.
\<close>

theorem sha1_stream_and_oneshot:
  assumes "length (s1_block p) = 64" and "length last0 = 128" and "length (concat chunks) < 2 ^ 61"
  shows "do { p \<leftarrow> update_all sha1_stream_update (sha1_stream_init p) chunks; sha1_finish p } =
      SHA1Digest last0 (concat chunks) (length (concat chunks)) \<and>
    SHA1Digest last0 (concat chunks) (length (concat chunks)) =
      Some (md_hash 64 fips1_compress sha1_iv sha1_out sha256_enc (concat chunks))"
  using sha1_streaming [OF assms(1,3)] SHA1Digest_value [OF assms(2) _ assms(3), of "concat chunks"]
  by (simp add: sha1_reference_def)

theorem sha1_stream_and_oneshot_witness:
  "\<exists>digest. SHA1Digest (replicate 128 7) [97, 98, 99] 3 = Some digest"
  using sha1_stream_and_oneshot [of "\<lparr>s1_digest = [], s1_length_low = 1, s1_length_high = 2,
      s1_block = replicate 64 3, s1_block_index = 9, s1_computed = True, s1_corrupted = True\<rparr>"
      "replicate 128 7" "[[97], [98, 99]]"] by (auto simp: numeral_3_eq_3)

text \<open>
  \<open>SHA1DigestMany\<close> reads the \<open>n\<close> messages at their strides, writes the digest of each to its
  20 bytes of the output and touches no other byte.
\<close>

theorem sha1_digest_many_correct:
  assumes "length last0 = 128" and "len < 2 ^ 61" and "\<forall>j < n. j * stride + len \<le> length data"
    and "20 * n \<le> length digests"
  shows "SHA1DigestMany last0 data stride len 0 n digests = Some (
    concat (map (\<lambda>j. sha1_reference (take len (drop (j * stride) data))) [0..<n]) @
    drop (20 * n) digests)"
  using SHA1DigestMany_value [OF assms(1,2), of 0 n stride data digests] assms(3,4) by simp

theorem sha1_digest_many_correct_witness:
  "\<exists>ds. SHA1DigestMany (replicate 128 0) [1, 2, 3, 4] 2 2 0 2 (replicate 40 0) = Some ds"
proof -
  have "\<forall>j < 2. j * 2 + 2 \<le> length [1, 2, 3, 4 :: byte]" by (simp add: less_Suc_eq numeral_2_eq_2)
  moreover have "20 * 2 \<le> length (replicate 40 (0 :: byte))" "length (replicate 128 (0 :: byte)) = 128"
    "2 < (2 ^ 61 :: nat)" by simp_all
  ultimately show ?thesis using sha1_digest_many_correct by blast
qed

text \<open>
  A context that is computed or corrupted takes no more bytes: any piece that is not empty marks it as
  corrupted and changes nothing else, and so does an update, however many pieces it is cut into.
\<close>

lemma sha1_update_dead:
  "s1_computed p \<or> s1_corrupted p \<Longrightarrow> data \<noteq> [] \<Longrightarrow> sha1_stream_update p data = Some (p\<lparr>s1_corrupted := True\<rparr>)"
proof (induction p data rule: sha1_stream_update.induct)
  case (1 p data)
  let ?l = "if length data > 0x20000000 then 0x20000000 else length data"
  let ?q = "p\<lparr>s1_corrupted := True\<rparr>"
  have "take ?l data \<noteq> []" using 1(3) by auto
  then have input: "SHA1Input p (take ?l data) = Some ?q" using 1(2) by (simp add: SHA1Input_def)
  have "sha1_stream_update ?q (drop ?l data) = Some ?q"
  proof (cases "drop ?l data = []")
    case True
    then show ?thesis by (subst sha1_stream_update.simps) simp
  next
    case False
    from 1(1) [OF 1(3) refl input] False show ?thesis by simp
  qed
  with input 1(3) show ?case by (subst sha1_stream_update.simps) (simp add: Let_def)
qed

text \<open>
  Misuse is reported: feeding any number of further bytes to a stream that was finished marks it as
  corrupted, and finishing it again then fails without a digest.
\<close>

theorem sha1_update_after_final_fails:
  assumes "SHA1Result p wanted = Some (True, p', digest)" and "data \<noteq> []"
  shows "\<exists>p''. sha1_stream_update p' data = Some p'' \<and>
    sha1_stream_final p'' = Some (False, p'', None)"
proof -
  have computed: "s1_computed p'"
    using assms(1) by (auto simp: SHA1Result_def bind_eq_Some_conv split: if_splits)
  let ?q = "p'\<lparr>s1_corrupted := True\<rparr>"
  have "sha1_stream_final ?q = Some (False, ?q, None)"
    by (simp add: sha1_stream_final_def SHA1Result_def)
  with sha1_update_dead [of p' data] computed assms(2) show ?thesis by blast
qed

theorem sha1_update_after_final_fails_witness:
  "\<exists>p''. sha1_stream_update \<lparr>s1_digest = [1], s1_length_low = 0, s1_length_high = 0,
      s1_block = replicate 64 0, s1_block_index = 0, s1_computed = True, s1_corrupted = False\<rparr> [5] =
    Some p'' \<and> sha1_stream_final p'' = Some (False, p'', None)"
  using sha1_update_after_final_fails [of "\<lparr>s1_digest = [1], s1_length_low = 0, s1_length_high = 0,
      s1_block = replicate 64 0, s1_block_index = 0, s1_computed = True, s1_corrupted = False\<rparr>"
      False _ None "[5]"]
  by (simp add: SHA1Result_def)

end
