(* ===== verification/Sha512.thy ===== *)
theory Sha512
  imports BlockHash
begin

text \<open>
  The SHA-512 and SHA-384 part of \<open>hash/lrc_hash.c\<close>. The main loop of the code runs eight
  unrolled steps at a time, with the registers renamed instead of moved.
\<close>

unbundle bit_operations_syntax

section \<open>State and operations\<close>

type_synonym u64 = "64 word"

record sha512_state =
  s5_h :: "u64 list"
  s5_len :: u64
  s5_buf :: "byte list"
  s5_buflen :: nat
  s5_is384 :: bool

definition sha512_load64 :: "byte list \<Rightarrow> u64" where
  "sha512_load64 p = fold (\<lambda>i v. push_bit 8 v OR ucast (p ! i)) [0..<8] 0"

text \<open>The loop of \<open>sha512_store64\<close> that writes the bytes \<open>i - 1\<close> down to \<open>0\<close>.\<close>

fun store64_loop :: "nat \<Rightarrow> u64 \<Rightarrow> byte list" where
  "store64_loop 0 v = []"
| "store64_loop (Suc i) v = store64_loop i (drop_bit 8 v) @ [ucast v]"

definition sha512_store64 :: "u64 \<Rightarrow> byte list" where
  "sha512_store64 v = store64_loop 8 v"

definition U64 :: "u32 \<Rightarrow> u32 \<Rightarrow> u64" where
  "U64 hi lo = push_bit 32 (ucast hi) OR ucast lo"

definition sha512_k :: "u64 list" where
  "sha512_k =
    [U64 0x428a2f98 0xd728ae22, U64 0x71374491 0x23ef65cd, U64 0xb5c0fbcf 0xec4d3b2f, U64 0xe9b5dba5 0x8189dbbc,
     U64 0x3956c25b 0xf348b538, U64 0x59f111f1 0xb605d019, U64 0x923f82a4 0xaf194f9b, U64 0xab1c5ed5 0xda6d8118,
     U64 0xd807aa98 0xa3030242, U64 0x12835b01 0x45706fbe, U64 0x243185be 0x4ee4b28c, U64 0x550c7dc3 0xd5ffb4e2,
     U64 0x72be5d74 0xf27b896f, U64 0x80deb1fe 0x3b1696b1, U64 0x9bdc06a7 0x25c71235, U64 0xc19bf174 0xcf692694,
     U64 0xe49b69c1 0x9ef14ad2, U64 0xefbe4786 0x384f25e3, U64 0x0fc19dc6 0x8b8cd5b5, U64 0x240ca1cc 0x77ac9c65,
     U64 0x2de92c6f 0x592b0275, U64 0x4a7484aa 0x6ea6e483, U64 0x5cb0a9dc 0xbd41fbd4, U64 0x76f988da 0x831153b5,
     U64 0x983e5152 0xee66dfab, U64 0xa831c66d 0x2db43210, U64 0xb00327c8 0x98fb213f, U64 0xbf597fc7 0xbeef0ee4,
     U64 0xc6e00bf3 0x3da88fc2, U64 0xd5a79147 0x930aa725, U64 0x06ca6351 0xe003826f, U64 0x14292967 0x0a0e6e70,
     U64 0x27b70a85 0x46d22ffc, U64 0x2e1b2138 0x5c26c926, U64 0x4d2c6dfc 0x5ac42aed, U64 0x53380d13 0x9d95b3df,
     U64 0x650a7354 0x8baf63de, U64 0x766a0abb 0x3c77b2a8, U64 0x81c2c92e 0x47edaee6, U64 0x92722c85 0x1482353b,
     U64 0xa2bfe8a1 0x4cf10364, U64 0xa81a664b 0xbc423001, U64 0xc24b8b70 0xd0f89791, U64 0xc76c51a3 0x0654be30,
     U64 0xd192e819 0xd6ef5218, U64 0xd6990624 0x5565a910, U64 0xf40e3585 0x5771202a, U64 0x106aa070 0x32bbd1b8,
     U64 0x19a4c116 0xb8d2d0c8, U64 0x1e376c08 0x5141ab53, U64 0x2748774c 0xdf8eeb99, U64 0x34b0bcb5 0xe19b48a8,
     U64 0x391c0cb3 0xc5c95a63, U64 0x4ed8aa4a 0xe3418acb, U64 0x5b9cca4f 0x7763e373, U64 0x682e6ff3 0xd6b2b8a3,
     U64 0x748f82ee 0x5defb2fc, U64 0x78a5636f 0x43172f60, U64 0x84c87814 0xa1f0ab72, U64 0x8cc70208 0x1a6439ec,
     U64 0x90befffa 0x23631e28, U64 0xa4506ceb 0xde82bde9, U64 0xbef9a3f7 0xb2c67915, U64 0xc67178f2 0xe372532b,
     U64 0xca273ece 0xea26619c, U64 0xd186b8c7 0x21c0c207, U64 0xeada7dd6 0xcde0eb1e, U64 0xf57d4f7f 0xee6ed178,
     U64 0x06f067aa 0x72176fba, U64 0x0a637dc5 0xa2c898a6, U64 0x113f9804 0xbef90dae, U64 0x1b710b35 0x131c471b,
     U64 0x28db77f5 0x23047d84, U64 0x32caab7b 0x40c72493, U64 0x3c9ebe0a 0x15c9bebc, U64 0x431d67c4 0x9c100d4c,
     U64 0x4cc5d4be 0xcb3e42b6, U64 0x597f299c 0xfc657e2a, U64 0x5fcb6fab 0x3ad6faec, U64 0x6c44198c 0x4a475817]"

definition ROTR64 :: "u64 \<Rightarrow> nat \<Rightarrow> u64" where
  "ROTR64 x n = drop_bit n x OR push_bit (64 - n) x"

definition CH :: "u64 \<Rightarrow> u64 \<Rightarrow> u64 \<Rightarrow> u64" where
  "CH x y z = (x AND y) XOR (NOT x AND z)"

definition MAJ :: "u64 \<Rightarrow> u64 \<Rightarrow> u64 \<Rightarrow> u64" where
  "MAJ x y z = (x AND y) XOR (x AND z) XOR (y AND z)"

definition SHA512_BSIG0 :: "u64 \<Rightarrow> u64" where
  "SHA512_BSIG0 x = ROTR64 x 28 XOR ROTR64 x 34 XOR ROTR64 x 39"

definition SHA512_BSIG1 :: "u64 \<Rightarrow> u64" where
  "SHA512_BSIG1 x = ROTR64 x 14 XOR ROTR64 x 18 XOR ROTR64 x 41"

definition SHA512_SSIG0 :: "u64 \<Rightarrow> u64" where
  "SHA512_SSIG0 x = ROTR64 x 1 XOR ROTR64 x 8 XOR drop_bit 7 x"

definition SHA512_SSIG1 :: "u64 \<Rightarrow> u64" where
  "SHA512_SSIG1 x = ROTR64 x 19 XOR ROTR64 x 61 XOR drop_bit 6 x"

definition sha512_schedule :: "byte list \<Rightarrow> u64 list \<Rightarrow> u64 list" where
  "sha512_schedule d w =
     (let w = fold (\<lambda>i w. w[i := sha512_load64 (drop (8 * i) d)]) [0..<16] w
      in fold (\<lambda>i w. w[i := SHA512_SSIG1 (w ! (i - 2)) + w ! (i - 7) +
           SHA512_SSIG0 (w ! (i - 15)) + w ! (i - 16)]) [16..<80] w)"

type_synonym sha512_regs = "u64 \<times> u64 \<times> u64 \<times> u64 \<times> u64 \<times> u64 \<times> u64 \<times> u64"

text \<open>The new values of \<open>d\<close> and \<open>h\<close>.\<close>

definition SHA512_STEP :: "u64 list \<Rightarrow> u64 \<Rightarrow> u64 \<Rightarrow> u64 \<Rightarrow> u64 \<Rightarrow> u64 \<Rightarrow> u64 \<Rightarrow> u64 \<Rightarrow> u64 \<Rightarrow> nat \<Rightarrow> u64 \<times> u64" where
  "SHA512_STEP w a b c d e f g h i =
     (let t1 = h + SHA512_BSIG1 e + CH e f g + sha512_k ! i + w ! i;
          t2 = SHA512_BSIG0 a + MAJ a b c
      in (d + t1, t1 + t2))"

text \<open>One turn of the main loop.\<close>

definition sha512_eight :: "u64 list \<Rightarrow> nat \<Rightarrow> sha512_regs \<Rightarrow> sha512_regs" where
  "sha512_eight w i = (\<lambda>(a, b, c, dd, e, f, g, h).
     let (dd, h) = SHA512_STEP w a b c dd e f g h i;
         (c, g) = SHA512_STEP w h a b c dd e f g (i + 1);
         (b, f) = SHA512_STEP w g h a b c dd e f (i + 2);
         (a, e) = SHA512_STEP w f g h a b c dd e (i + 3);
         (h, dd) = SHA512_STEP w e f g h a b c dd (i + 4);
         (g, c) = SHA512_STEP w dd e f g h a b c (i + 5);
         (f, b) = SHA512_STEP w c dd e f g h a b (i + 6);
         (e, a) = SHA512_STEP w b c dd e f g h a (i + 7)
     in (a, b, c, dd, e, f, g, h))"

text \<open>The chaining words after a block; \<open>w0\<close> is the uninitialised array \<open>w\<close>.\<close>

definition sha512_block :: "u64 list \<Rightarrow> u64 list \<Rightarrow> byte list \<Rightarrow> u64 list" where
  "sha512_block w0 h d =
     (let w = sha512_schedule d w0;
          (a, b, c, dd, e, f, g, hh) = fold (\<lambda>k. sha512_eight w (8 * k)) [0..<10]
            (h ! 0, h ! 1, h ! 2, h ! 3, h ! 4, h ! 5, h ! 6, h ! 7)
      in [h ! 0 + a, h ! 1 + b, h ! 2 + c, h ! 3 + dd, h ! 4 + e, h ! 5 + f, h ! 6 + g, h ! 7 + hh])"

definition sha512_iv :: "bool \<Rightarrow> u64 list" where
  "sha512_iv is384 =
     (if is384
      then [U64 0xcbbb9d5d 0xc1059ed8, U64 0x629a292a 0x367cd507, U64 0x9159015a 0x3070dd17, U64 0x152fecd8 0xf70e5939,
            U64 0x67332667 0xffc00b31, U64 0x8eb44a87 0x68581511, U64 0xdb0c2e0d 0x64f98fa7, U64 0x47b5481d 0xbefa4fa4]
      else [U64 0x6a09e667 0xf3bcc908, U64 0xbb67ae85 0x84caa73b, U64 0x3c6ef372 0xfe94f82b, U64 0xa54ff53a 0x5f1d36f1,
            U64 0x510e527f 0xade682d1, U64 0x9b05688c 0x2b3e6c1f, U64 0x1f83d9ab 0xfb41bd6b, U64 0x5be0cd19 0x137e2179])"

definition sha512_stream_init :: "sha512_state \<Rightarrow> bool \<Rightarrow> sha512_state" where
  "sha512_stream_init p is384 =
     p\<lparr>s5_h := sha512_iv is384, s5_len := 0, s5_buflen := 0, s5_is384 := is384\<rparr>"

text \<open>The block function on a state, reading the block at a pointer.\<close>

definition sha512_block_at :: "sha512_state \<Rightarrow> byte list \<Rightarrow> sha512_state option" where
  "sha512_block_at p d = do {
     b \<leftarrow> mem_read d 0 128;
     Some (p\<lparr>s5_h := sha512_block (replicate 80 0) (s5_h p) b\<rparr>) }"

text \<open>The loop over whole blocks and the copy of the rest.\<close>

function sha512_update_tail :: "sha512_state \<Rightarrow> byte list \<Rightarrow> sha512_state option" where
  "sha512_update_tail p data =
     (if length data \<ge> 128
      then do { p \<leftarrow> sha512_block_at p data; sha512_update_tail p (drop 128 data) }
      else if data \<noteq> []
      then do { buf \<leftarrow> mem_write (s5_buf p) 0 data;
                Some (p\<lparr>s5_buf := buf, s5_buflen := length data\<rparr>) }
      else Some p)"
  by pat_completeness auto
termination by (relation "measure (\<lambda>(p, data). length data)") auto

declare sha512_update_tail.simps [simp del]

definition sha512_stream_update :: "sha512_state \<Rightarrow> byte list \<Rightarrow> sha512_state option" where
  "sha512_stream_update p data =
     (if data = [] then Some p
      else let p = p\<lparr>s5_len := s5_len p + of_nat (length data)\<rparr>
      in if s5_buflen p \<noteq> 0
         then do {
           let n = (if 128 - s5_buflen p > length data then length data else 128 - s5_buflen p);
           buf \<leftarrow> mem_write (s5_buf p) (s5_buflen p) (take n data);
           let p = p\<lparr>s5_buf := buf, s5_buflen := s5_buflen p + n\<rparr>;
           if s5_buflen p < 128 then Some p
           else do {
             p \<leftarrow> sha512_block_at p (s5_buf p);
             sha512_update_tail (p\<lparr>s5_buflen := 0\<rparr>) (drop n data) } }
         else sha512_update_tail p data)"

text \<open>From the second \<open>memset\<close> of the finish on, up to the last block.\<close>

definition sha512_final_tail :: "sha512_state \<Rightarrow> u64 \<Rightarrow> sha512_state option" where
  "sha512_final_tail p bits = do {
     buf \<leftarrow> mem_write (s5_buf p) (s5_buflen p) (replicate (128 - s5_buflen p) 0);
     buf \<leftarrow> mem_write buf 120 (sha512_store64 bits);
     sha512_block_at (p\<lparr>s5_buf := buf\<rparr>) buf }"

text \<open>The digest; the code then zeroes the state.\<close>

definition sha512_stream_final :: "sha512_state \<Rightarrow> (byte list \<times> sha512_state) option" where
  "sha512_stream_final p = do {
     let n = (if s5_is384 p then 6 else 8);
     let bits = s5_len p * 8;
     buf \<leftarrow> arr_set (s5_buf p) (s5_buflen p) 0x80;
     let p = p\<lparr>s5_buf := buf, s5_buflen := s5_buflen p + 1\<rparr>;
     p \<leftarrow> (if s5_buflen p > 112
       then do {
         buf \<leftarrow> mem_write (s5_buf p) (s5_buflen p) (replicate (128 - s5_buflen p) 0);
         p \<leftarrow> sha512_block_at (p\<lparr>s5_buf := buf\<rparr>) buf;
         sha512_final_tail (p\<lparr>s5_buflen := 0\<rparr>) bits }
       else sha512_final_tail p bits);
     Some (concat (map (\<lambda>i. sha512_store64 (s5_h p ! i)) [0..<n]),
           \<lparr>s5_h = replicate 8 0, s5_len = 0, s5_buf = replicate 128 0, s5_buflen = 0,
            s5_is384 = False\<rparr>) }"

section \<open>The hash computation of FIPS 180-4\<close>

definition fips512_Sigma0 :: "u64 \<Rightarrow> u64" where
  "fips512_Sigma0 x = word_rotr 28 x XOR word_rotr 34 x XOR word_rotr 39 x"

definition fips512_Sigma1 :: "u64 \<Rightarrow> u64" where
  "fips512_Sigma1 x = word_rotr 14 x XOR word_rotr 18 x XOR word_rotr 41 x"

definition fips512_sigma0 :: "u64 \<Rightarrow> u64" where
  "fips512_sigma0 x = word_rotr 1 x XOR word_rotr 8 x XOR drop_bit 7 x"

definition fips512_sigma1 :: "u64 \<Rightarrow> u64" where
  "fips512_sigma1 x = word_rotr 19 x XOR word_rotr 61 x XOR drop_bit 6 x"

fun fips512_W :: "(nat \<Rightarrow> u64) \<Rightarrow> nat \<Rightarrow> u64" where
  "fips512_W M t = (if t < 16 then M t
     else fips512_sigma1 (fips512_W M (t - 2)) + fips512_W M (t - 7) +
          fips512_sigma0 (fips512_W M (t - 15)) + fips512_W M (t - 16))"

declare fips512_W.simps [simp del]

definition fips512_round :: "(nat \<Rightarrow> u64) \<Rightarrow> nat \<Rightarrow> sha512_regs \<Rightarrow> sha512_regs" where
  "fips512_round W t = (\<lambda>(a, b, c, d, e, f, g, h).
     let T1 = h + fips512_Sigma1 e + ((e AND f) XOR (NOT e AND g)) + sha512_k ! t + W t;
         T2 = fips512_Sigma0 a + ((a AND b) XOR (a AND c) XOR (b AND c))
     in (T1 + T2, a, b, c, d + T1, e, f, g))"

definition load_words :: "byte list \<Rightarrow> nat \<Rightarrow> u64" where
  "load_words block t = sha512_load64 (drop (8 * t) block)"

definition fips512_compress :: "u64 list \<Rightarrow> byte list \<Rightarrow> u64 list" where
  "fips512_compress H block =
     (let (a, b, c, d, e, f, g, h) = fold (fips512_round (fips512_W (load_words block))) [0..<80]
            (H ! 0, H ! 1, H ! 2, H ! 3, H ! 4, H ! 5, H ! 6, H ! 7)
      in [a + H ! 0, b + H ! 1, c + H ! 2, d + H ! 3, e + H ! 4, f + H ! 5, g + H ! 6, h + H ! 7])"

lemma ROTR64_rotr: "0 < n \<Longrightarrow> n < 64 \<Longrightarrow> ROTR64 x n = word_rotr n x"
  using shifts_rotr [of n x] by (simp add: ROTR64_def)

lemma sigmas_fips:
  "SHA512_BSIG0 = fips512_Sigma0" "SHA512_BSIG1 = fips512_Sigma1"
  "SHA512_SSIG0 = fips512_sigma0" "SHA512_SSIG1 = fips512_sigma1"
  by (simp_all add: fun_eq_iff SHA512_BSIG0_def SHA512_BSIG1_def SHA512_SSIG0_def SHA512_SSIG1_def
      fips512_Sigma0_def fips512_Sigma1_def fips512_sigma0_def fips512_sigma1_def ROTR64_rotr)

lemma sha512_schedule_step:
  assumes "16 \<le> i" and "\<forall>j < i. v ! j = fips512_W M j"
  shows "SHA512_SSIG1 (v ! (i - 2)) + v ! (i - 7) + SHA512_SSIG0 (v ! (i - 15)) + v ! (i - 16) =
    fips512_W M i"
  using assms fips512_W.simps [of M i] by (simp add: sigmas_fips)

lemma sha512_schedule_fips:
  assumes "length w = 80"
  shows "\<forall>t < 80. sha512_schedule block w ! t = fips512_W (load_words block) t"
proof -
  let ?W = "fips512_W (load_words block)"
  define w1 where "w1 = fold (\<lambda>i w. w[i := load_words block i]) [0..<16] w"
  have w1: "length w1 = 80 \<and> (\<forall>j < 16. w1 ! j = ?W j)"
    unfolding w1_def using assms by (intro schedule_start) (simp_all add: fips512_W.simps)
  define f where "f = (\<lambda>i (w :: u64 list). SHA512_SSIG1 (w ! (i - 2)) + w ! (i - 7) +
           SHA512_SSIG0 (w ! (i - 15)) + w ! (i - 16))"
  have step: "f i v = ?W i" if "16 \<le> i" "i < 80" "\<forall>j < i. v ! j = ?W j" for i v
    unfolding f_def by (rule sha512_schedule_step [OF that(1,3)])
  have w1': "80 \<le> length w1" "\<forall>j < 16. w1 ! j = ?W j" and m: "max 16 80 = (80 :: nat)"
    using w1 by simp_all
  have "sha512_schedule block w = fold (\<lambda>i w. w[i := f i w]) [16..<80] w1"
    by (simp only: sha512_schedule_def w1_def f_def Let_def load_words_def)
  moreover have "length (fold (\<lambda>i w. w[i := f i w]) [16..<80] w1) = length w1 \<and>
      (\<forall>j < max 16 80. fold (\<lambda>i w. w[i := f i w]) [16..<80] w1 ! j = ?W j)"
    by (rule fill_array) (rule w1' | erule (2) step)+
  ultimately show ?thesis by (simp only: m) blast
qed

text \<open>The unrolled steps: eight rounds bring every register back to its name.\<close>

lemma fips512_round_step:
  assumes "w ! i = W i" and "SHA512_STEP w a b c d e f g h i = (d', h')"
  shows "fips512_round W i (a, b, c, d, e, f, g, h) = (h', a, b, c, d', e, f, g)"
  using assms
  by (auto simp: fips512_round_def SHA512_STEP_def sigmas_fips CH_def MAJ_def Let_def)

lemma sha512_eight_fips:
  assumes "\<And>j. j < 8 \<Longrightarrow> w ! (i + j) = W (i + j)"
  shows "sha512_eight w i regs = fold (fips512_round W) [i..<i + 8] regs"
proof -
  have upt: "[i..<i + 8] = [i, i + 1, i + 2, i + 3, i + 4, i + 5, i + 6, i + 7]"
    by (simp add: upt_rec)
  obtain a b c d e f g h where r: "regs = (a, b, c, d, e, f, g, h)" by (cases regs) auto
  obtain d1 h1 where 1: "SHA512_STEP w a b c d e f g h i = (d1, h1)" by fastforce
  obtain c1 g1 where 2: "SHA512_STEP w h1 a b c d1 e f g (i + 1) = (c1, g1)" by fastforce
  obtain b1 f1 where 3: "SHA512_STEP w g1 h1 a b c1 d1 e f (i + 2) = (b1, f1)" by fastforce
  obtain a1 e1 where 4: "SHA512_STEP w f1 g1 h1 a b1 c1 d1 e (i + 3) = (a1, e1)" by fastforce
  obtain h2 d2 where 5: "SHA512_STEP w e1 f1 g1 h1 a1 b1 c1 d1 (i + 4) = (h2, d2)" by fastforce
  obtain g2 c2 where 6: "SHA512_STEP w d2 e1 f1 g1 h2 a1 b1 c1 (i + 5) = (g2, c2)" by fastforce
  obtain f2 b2 where 7: "SHA512_STEP w c2 d2 e1 f1 g2 h2 a1 b1 (i + 6) = (f2, b2)" by fastforce
  obtain e2 a2 where 8: "SHA512_STEP w b2 c2 d2 e1 f2 g2 h2 a1 (i + 7) = (e2, a2)" by fastforce
  have "sha512_eight w i regs = (a2, b2, c2, d2, e2, f2, g2, h2)"
    by (simp only: sha512_eight_def r prod.case Let_def 1 2 3 4 5 6 7 8)
  moreover have w: "w ! i = W i" "w ! (i + 1) = W (i + 1)" "w ! (i + 2) = W (i + 2)"
    "w ! (i + 3) = W (i + 3)" "w ! (i + 4) = W (i + 4)" "w ! (i + 5) = W (i + 5)"
    "w ! (i + 6) = W (i + 6)" "w ! (i + 7) = W (i + 7)"
    using assms [of 0] assms [of 1] assms [of 2] assms [of 3] assms [of 4] assms [of 5]
      assms [of 6] assms [of 7] by simp_all
  note round = fips512_round_step [where W = W]
  have "fold (fips512_round W) [i..<i + 8] regs = (a2, b2, c2, d2, e2, f2, g2, h2)"
    by (simp only: upt r fold_simps
        round [OF w(1) 1] round [OF w(2) 2]
        round [OF w(3) 3] round [OF w(4) 4]
        round [OF w(5) 5] round [OF w(6) 6]
        round [OF w(7) 7] round [OF w(8) 8])
  ultimately show ?thesis by simp
qed

lemma sha512_main_loop_fips:
  assumes "\<forall>t < 80. w ! t = W t"
  shows "n \<le> 10 \<Longrightarrow> fold (\<lambda>k. sha512_eight w (8 * k)) [0..<n] regs =
    fold (fips512_round W) [0..<8 * n] regs"
proof (induction n)
  case (Suc n)
  have "fold (fips512_round W) [0..<8 * Suc n] regs =
      fold (fips512_round W) [8 * n..<8 * n + 8] (fold (fips512_round W) [0..<8 * n] regs)"
    using fold_upt_split [of 0 "8 * n" "8 * n + 8"] by (simp add: add.commute)
  also have "\<dots> = sha512_eight w (8 * n) (fold (fips512_round W) [0..<8 * n] regs)"
    using assms Suc.prems by (intro sha512_eight_fips [symmetric]) simp
  finally show ?case using Suc by simp
qed simp

lemma sha512_block_fips: "sha512_block (replicate 80 0) H d = fips512_compress H d"
proof -
  have w: "\<forall>t < 80. sha512_schedule d (replicate 80 0) ! t = fips512_W (load_words d) t"
    by (rule sha512_schedule_fips) simp
  have "fold (\<lambda>k. sha512_eight (sha512_schedule d (replicate 80 0)) (8 * k)) [0..<10] regs =
      fold (fips512_round (fips512_W (load_words d))) [0..<80] regs" for regs
    using sha512_main_loop_fips [OF w, of 10 regs] by simp
  then show ?thesis by (simp only: sha512_block_def fips512_compress_def Let_def add.commute)
qed

lemma length_fips512_compress [simp]: "length (fips512_compress H block) = 8"
  by (simp add: fips512_compress_def split: prod.split)

lemma length_absorb_fips512:
  "length H = 8 \<Longrightarrow> length (fst (absorb 128 fips512_compress H xs)) = 8"
  by (rule absorb_invariant) simp_all

lemma sha512_block_at_value:
  "128 \<le> length d \<Longrightarrow> sha512_block_at p d = Some (p\<lparr>s5_h := fips512_compress (s5_h p) (take 128 d)\<rparr>)"
  by (simp add: sha512_block_at_def mem_read_Some sha512_block_fips)

section \<open>Feeding and finishing\<close>

definition sha512_pending :: "sha512_state \<Rightarrow> byte list" where
  "sha512_pending p = take (s5_buflen p) (s5_buf p)"

definition sha512_count :: "sha512_state \<Rightarrow> nat" where
  "sha512_count p = unat (s5_len p)"

definition sha512_inv :: "bool \<Rightarrow> sha512_state \<Rightarrow> bool" where
  "sha512_inv k p \<longleftrightarrow> length (s5_buf p) = 128 \<and> s5_buflen p = sha512_count p mod 128 \<and>
     s5_is384 p = k \<and> length (s5_h p) = 8"

lemma sha512_update_tail_absorbs:
  "length (s5_buf p) = 128 \<Longrightarrow> s5_buflen p = 0 \<Longrightarrow>
   \<exists>p'. sha512_update_tail p s = Some p' \<and> length (s5_buf p') = 128 \<and>
     s5_buflen p' = length s mod 128 \<and> s5_len p' = s5_len p \<and> s5_is384 p' = s5_is384 p \<and>
     (s5_h p', sha512_pending p') = absorb 128 fips512_compress (s5_h p) s"
proof (induction "length s" arbitrary: p s rule: less_induct)
  case less
  show ?case
  proof (cases "128 \<le> length s")
    case False
    with less.prems show ?thesis
      by (subst sha512_update_tail.simps)
        (auto simp: mem_write_Some sha512_pending_def absorb_short)
  next
    case True
    let ?q = "p\<lparr>s5_h := fips512_compress (s5_h p) (take 128 s)\<rparr>"
    have "length (drop 128 s) < length s" "length (s5_buf ?q) = 128" "s5_buflen ?q = 0"
      using True less.prems by auto
    from less.hyps [OF this] obtain p' where p':
      "sha512_update_tail ?q (drop 128 s) = Some p'" "length (s5_buf p') = 128"
      "s5_buflen p' = length (drop 128 s) mod 128" "s5_len p' = s5_len p" "s5_is384 p' = s5_is384 p"
      "(s5_h p', sha512_pending p') = absorb 128 fips512_compress (s5_h ?q) (drop 128 s)"
      by auto
    have "sha512_update_tail p s = Some p'"
      using True p'(1) by (subst sha512_update_tail.simps) (simp add: sha512_block_at_value)
    moreover have "s5_buflen p' = length s mod 128"
      using True by (simp add: p'(3) le_mod_geq)
    moreover have "(s5_h p', sha512_pending p') = absorb 128 fips512_compress (s5_h p) s"
      using True by (simp add: p'(6) absorb_step [of 128 s])
    ultimately show ?thesis using p'(2,4,5) by blast
  qed
qed

lemma sha512_update_absorbs:
  assumes inv: "sha512_inv k p" and fits: "sha512_count p + length s < 2 ^ 61"
  shows "\<exists>p'. sha512_stream_update p s = Some p' \<and> sha512_inv k p' \<and>
    sha512_count p' = sha512_count p + length s \<and>
    (s5_h p', sha512_pending p') = absorb 128 fips512_compress (s5_h p) (sha512_pending p @ s)"
proof -
  let ?i = "s5_buflen p" and ?q = "sha512_pending p"
  have ok: "length (s5_buf p) = 128" "?i = sha512_count p mod 128" "?i < 128" "s5_is384 p = k"
    "length (s5_h p) = 8" using inv by (simp_all add: sha512_inv_def)
  have pend: "length ?q = ?i" "?q = take ?i (s5_buf p)" using ok by (simp_all add: sha512_pending_def)
  let ?p = "p\<lparr>s5_len := s5_len p + of_nat (length s)\<rparr>"
  have "unat (s5_len p) + length s < 2 ^ 64" using fits by (simp add: sha512_count_def)
  then have len: "unat (s5_len p + of_nat (length s)) = sha512_count p + length s"
    by (simp add: sha512_count_def unat_word_ariths unat_of_nat)
  text \<open>What is left to show in every case.\<close>
  have finish: ?thesis
    if "sha512_stream_update p s = Some p'" "length (s5_buf p') = 128" "s5_len p' = s5_len ?p"
      "s5_buflen p' = (?i + length s) mod 128" "s5_is384 p' = k"
      "(s5_h p', sha512_pending p') = absorb 128 fips512_compress (s5_h p) (?q @ s)" for p'
  proof -
    have c: "sha512_count p' = sha512_count p + length s"
      using that(3) len by (simp add: sha512_count_def)
    have "length (s5_h p') = 8"
      using length_absorb_fips512 [OF ok(5), of "?q @ s"] by (simp flip: that(6))
    moreover have "s5_buflen p' = sha512_count p' mod 128"
      by (simp add: that(4) c ok(2) mod_add_left_eq)
    ultimately have "sha512_inv k p'" using that(2,5) by (simp add: sha512_inv_def)
    with that(1,6) c show ?thesis by blast
  qed
  consider "s = []" | "s \<noteq> []" "?i = 0" | "s \<noteq> []" "?i \<noteq> 0" "length s < 128 - ?i"
    | "s \<noteq> []" "?i \<noteq> 0" "128 - ?i \<le> length s" by linarith
  then show ?thesis
  proof cases
    case 1
    then show ?thesis
      using ok pend by (intro finish [of p]) (simp_all add: sha512_stream_update_def absorb_short)
  next
    case 2
    from sha512_update_tail_absorbs [of ?p s] ok 2 obtain p' where
      p': "sha512_update_tail ?p s = Some p'" "length (s5_buf p') = 128"
      "s5_buflen p' = length s mod 128" "s5_len p' = s5_len ?p" "s5_is384 p' = k"
      "(s5_h p', sha512_pending p') = absorb 128 fips512_compress (s5_h p) s"
      by auto
    then show ?thesis
      using 2 pend by (intro finish [of p']) (simp_all add: sha512_stream_update_def Let_def)
  next
    case 3
    let ?r = "?p\<lparr>s5_buf := ?q @ s @ drop (?i + length s) (s5_buf p), s5_buflen := ?i + length s\<rparr>"
    have "\<not> 128 - ?i \<le> length s" "\<not> 128 \<le> ?i + length s" using 3 by linarith+
    then have "sha512_stream_update p s = Some ?r"
      using 3 ok pend by (simp add: sha512_stream_update_def Let_def mem_write_Some)
    then show ?thesis
      by (rule finish) (use 3 ok pend in \<open>simp_all add: sha512_pending_def absorb_short\<close>)
  next
    case 4
    let ?n = "128 - ?i"
    let ?block = "?q @ take ?n s"
    let ?r = "?p\<lparr>s5_buf := ?block, s5_h := fips512_compress (s5_h p) ?block, s5_buflen := 0\<rparr>"
    have block: "length ?block = 128" using 4 ok pend by simp
    have "length (s5_buf ?r) = 128" "s5_buflen ?r = 0" using block by simp_all
    from sha512_update_tail_absorbs [OF this, of "drop ?n s"] obtain p' where
      p': "sha512_update_tail ?r (drop ?n s) = Some p'" "length (s5_buf p') = 128"
      "s5_buflen p' = length (drop ?n s) mod 128" "s5_len p' = s5_len ?p" "s5_is384 p' = k"
      "(s5_h p', sha512_pending p') =
        absorb 128 fips512_compress (fips512_compress (s5_h p) ?block) (drop ?n s)"
      using ok(4) by auto
    have wr: "mem_write (s5_buf p) ?i (take ?n s) = Some ?block"
      using 4 ok pend(2) by (simp add: mem_write_Some)
    have blk: "sha512_block_at (?p\<lparr>s5_buf := ?block, s5_buflen := 128\<rparr>) ?block =
        Some (?r\<lparr>s5_buflen := 128\<rparr>)"
      using block pend(1) by (simp add: sha512_block_at_value)
    have "\<not> length s < ?n" "?i + ?n = 128" using 4 ok by linarith+
    then have "sha512_stream_update p s = Some p'"
      using 4 wr blk p'(1) by (simp add: sha512_stream_update_def Let_def)
    moreover have "s5_buflen p' = (?i + length s) mod 128"
    proof -
      have "?i + length s = 128 + length (drop ?n s)" using 4 ok by simp
      then show ?thesis by (simp only: p'(3) mod_add_self1)
    qed
    moreover have "(s5_h p', sha512_pending p') = absorb 128 fips512_compress (s5_h p) (?q @ s)"
    proof -
      have "?q @ s = ?block @ drop ?n s" by simp
      then show ?thesis by (simp only: p'(6) absorb_block [OF zero_less_numeral block])
    qed
    ultimately show ?thesis using p'(2,4,5) by (intro finish)
  qed
qed

definition sha512_enc :: "nat \<Rightarrow> byte list" where
  "sha512_enc n = replicate 8 0 @ sha512_store64 (of_nat (8 * n))"

lemma length_store64 [simp]: "length (sha512_store64 v) = 8"
  by (simp add: sha512_store64_def eval_nat_numeral)

lemma length_sha512_enc: "length (sha512_enc n) = 16"
  by (simp add: sha512_enc_def)

lemma sha512_final_tail_value:
  assumes "s5_buf p = pre @ post" "s5_buflen p = length pre" "length (s5_buf p) = 128"
    "length pre \<le> 112"
  shows "\<exists>p'. sha512_final_tail p (of_nat (8 * n)) = Some p' \<and> s5_is384 p' = s5_is384 p \<and>
    s5_h p' = fips512_compress (s5_h p) (pre @ replicate (112 - length pre) 0 @ sha512_enc n)"
proof -
  let ?block = "pre @ replicate (112 - length pre) 0 @ sha512_enc n"
  have split: "replicate (128 - length pre) (0::byte) =
      replicate (112 - length pre) 0 @ replicate 8 0 @ replicate 8 0"
  proof -
    have "128 - length pre = (112 - length pre) + (8 + 8)" using assms(4) by simp
    then show ?thesis by (simp only: replicate_add)
  qed
  have w1: "mem_write (pre @ post) (length pre) (replicate (128 - length pre) 0) =
      Some (pre @ replicate (112 - length pre) 0 @ replicate 8 0 @ replicate 8 0)"
    unfolding split using assms by (simp add: mem_write_Some)
  have w2: "mem_write (pre @ replicate (112 - length pre) 0 @ replicate 8 0 @ replicate 8 0) 120
      (sha512_store64 (of_nat (8 * n))) = Some ?block"
    using assms(4) by (simp add: mem_write_Some sha512_enc_def)
  have "length ?block = 128" using assms(4) by (simp add: length_sha512_enc)
  then have blk: "sha512_block_at (p\<lparr>s5_buf := ?block\<rparr>) ?block =
      Some (p\<lparr>s5_buf := ?block, s5_h := fips512_compress (s5_h p) ?block\<rparr>)"
    by (simp add: sha512_block_at_value)
  show ?thesis
    unfolding sha512_final_tail_def assms(1,2) w1 bind.bind_lunit w2 blk by simp
qed

definition sha512_out :: "bool \<Rightarrow> u64 list \<Rightarrow> byte list" where
  "sha512_out is384 h = concat (map sha512_store64 (take (if is384 then 6 else 8) h))"

definition sha512_finish :: "sha512_state \<Rightarrow> byte list option" where
  "sha512_finish p = map_option fst (sha512_stream_final p)"

lemma sha512_digest_words:
  assumes "length h = 8" and "n \<le> 8"
  shows "concat (map (\<lambda>i. sha512_store64 (h ! i)) [0..<n]) = concat (map sha512_store64 (take n h))"
proof -
  have "take n h = map ((!) h) [0..<n]" using assms by (intro nth_equalityI) simp_all
  then show ?thesis by (simp add: comp_def)
qed

lemma sha512_finish_absorbs:
  assumes inv: "sha512_inv k p"
  shows "sha512_finish p = Some (sha512_out k (fst (absorb 128 fips512_compress (s5_h p)
      (sha512_pending p @ md_pad 128 (sha512_enc (sha512_count p)) (sha512_count p)))))"
proof -
  let ?n = "sha512_count p" and ?q = "sha512_pending p" and ?i = "s5_buflen p"
  have ok: "length (s5_buf p) = 128" "?n mod 128 = ?i" "?i < 128" "s5_is384 p = k"
    "length (s5_h p) = 8" using inv by (simp_all add: sha512_inv_def)
  have q: "?q = take ?i (s5_buf p)" "length ?q = ?i" using ok by (simp_all add: sha512_pending_def)
  have bits: "s5_len p * 8 = of_nat (8 * ?n)" by (simp add: sha512_count_def mult.commute)
  let ?post = "drop (?i + 1) (s5_buf p)" and ?q1 = "?q @ [0x80]"
  let ?p = "p\<lparr>s5_buf := ?q1 @ ?post, s5_buflen := ?i + 1\<rparr>"
  have set: "arr_set (s5_buf p) ?i 0x80 = Some (?q1 @ ?post)"
    using q ok by (simp add: arr_set_Some upd_conv_take_nth_drop)
  let ?words = "if k then 6 else 8 :: nat"
  define result where "result = (\<lambda>t :: sha512_state option. do { p \<leftarrow> t;
      Some (concat (map (\<lambda>i. sha512_store64 (s5_h p ! i)) [0..<?words])) })"
  have result: "result (Some p') = Some (sha512_out k (s5_h p'))" if "length (s5_h p') = 8" for p'
    using that by (simp add: result_def sha512_digest_words sha512_out_def)
  have run: "sha512_finish p = result (if ?i + 1 > 112
      then do {
        buf \<leftarrow> mem_write (?q1 @ ?post) (?i + 1) (replicate (128 - (?i + 1)) 0);
        p \<leftarrow> sha512_block_at (?p\<lparr>s5_buf := buf\<rparr>) buf;
        sha512_final_tail (p\<lparr>s5_buflen := 0\<rparr>) (of_nat (8 * ?n)) }
      else sha512_final_tail ?p (of_nat (8 * ?n)))"
    unfolding sha512_finish_def sha512_stream_final_def set Let_def bind.bind_lunit bits ok(4)
    by (simp add: result_def map_option_bind comp_def del: of_nat_mult)
  show ?thesis
  proof (cases "?i \<le> 111")
    case True
    have "s5_buf ?p = ?q1 @ ?post" "s5_buflen ?p = length ?q1" "length (s5_buf ?p) = 128"
      "length ?q1 \<le> 112" using True q(2) ok by simp_all
    from sha512_final_tail_value [OF this, of ?n] obtain p' where
      p': "sha512_final_tail ?p (of_nat (8 * ?n)) = Some p'" "s5_h p' = fips512_compress (s5_h ?p)
        (?q1 @ replicate (112 - length ?q1) 0 @ sha512_enc ?n)" by blast
    have near: "\<not> ?i + 1 > 112" using True by simp
    have "sha512_finish p = Some (sha512_out k (s5_h p'))"
      unfolding run using near p' by (simp add: result del: of_nat_mult)
    moreover have "absorb 128 fips512_compress (s5_h p) (?q @ md_pad 128 (sha512_enc ?n) ?n) =
        (s5_h p', [])"
    proof -
      have "length ?q + 1 + length (sha512_enc ?n) \<le> 128" "?n mod 128 = length ?q"
        using True q(2) ok by (simp_all add: length_sha512_enc)
      from absorb_pad_near [OF this] show ?thesis by (simp add: length_sha512_enc q(2) p'(2))
    qed
    ultimately show ?thesis by simp
  next
    case False
    let ?b1 = "?q @ 0x80 # replicate (127 - ?i) 0"
    let ?d = "?p\<lparr>s5_buf := ?b1, s5_h := fips512_compress (s5_h p) ?b1, s5_buflen := 0\<rparr>"
    have b1: "length ?b1 = 128" using q(2) ok(3) by simp
    have w1: "mem_write (?q1 @ ?post) (?i + 1) (replicate (128 - (?i + 1)) 0) = Some ?b1"
      using q ok(1,3) by (simp add: mem_write_Some)
    have blk: "sha512_block_at (?p\<lparr>s5_buf := ?b1\<rparr>) ?b1 =
        Some (?p\<lparr>s5_buf := ?b1, s5_h := fips512_compress (s5_h p) ?b1\<rparr>)"
      using b1 q(2) by (simp add: sha512_block_at_value)
    have "s5_buf ?d = [] @ ?b1" "s5_buflen ?d = length ([] :: byte list)" "length (s5_buf ?d) = 128"
      "length ([] :: byte list) \<le> 112" using b1 by simp_all
    from sha512_final_tail_value [OF this, of ?n] obtain p' where
      p': "sha512_final_tail ?d (of_nat (8 * ?n)) = Some p'" "s5_h p' = fips512_compress (s5_h ?d)
        ([] @ replicate (112 - length ([] :: byte list)) 0 @ sha512_enc ?n)" by blast
    have far: "?i + 1 > 112" using False by simp
    have "sha512_finish p = result (Some p')"
      unfolding run using p'(1) by (simp only: far if_True w1 bind.bind_lunit blk)
    also have "\<dots> = Some (sha512_out k (s5_h p'))" using p'(2) by (intro result) simp
    finally have "sha512_finish p = Some (sha512_out k (s5_h p'))" .
    moreover have "absorb 128 fips512_compress (s5_h p) (?q @ md_pad 128 (sha512_enc ?n) ?n) =
        (s5_h p', [])"
    proof -
      have "length ?q < 128" "128 < length ?q + 1 + length (sha512_enc ?n)"
        "length (sha512_enc ?n) < 128" "?n mod 128 = length ?q"
        using False q(2) ok by (simp_all add: length_sha512_enc)
      from absorb_pad_far [OF this, of fips512_compress "s5_h p"]
      show ?thesis by (simp add: length_sha512_enc q(2) p'(2))
    qed
    ultimately show ?thesis by simp
  qed
qed

interpretation sha512: streaming_hash 128 fips512_compress sha512_enc "sha512_out k" "sha512_inv k"
  s5_h sha512_pending sha512_count "2 ^ 61" sha512_stream_update sha512_finish for k
proof unfold_locales
  show "length (sha512_enc n) < 128" for n by (simp add: length_sha512_enc)
  show "sha512_inv k c \<Longrightarrow> length (sha512_pending c) < 128" for c
    by (simp add: sha512_inv_def sha512_pending_def)
qed (rule sha512_update_absorbs, assumption+, rule sha512_finish_absorbs, assumption)

text \<open>
  C25. SHA-512 and SHA-384 as FIPS 180-4 defines them, in any number of pieces: the eight-fold
  unrolled block function with renamed registers is the standard's, and initializing, feeding
  the chunks of a message and finishing returns the digest of the whole message.
\<close>

theorem sha512_stream_correct:
  assumes "length (s5_buf p) = 128" and "length (concat chunks) < 2 ^ 61"
  shows "do { p \<leftarrow> update_all sha512_stream_update (sha512_stream_init p is384) chunks;
              map_option fst (sha512_stream_final p) } =
    Some (md_hash 128 fips512_compress (sha512_iv is384) (sha512_out is384) sha512_enc
      (concat chunks))"
proof -
  have "sha512_inv is384 (sha512_stream_init p is384)"
    using assms(1) by (simp add: sha512_inv_def sha512_count_def sha512_stream_init_def sha512_iv_def)
  moreover have "sha512_pending (sha512_stream_init p is384) = []"
    "sha512_count (sha512_stream_init p is384) = 0"
    "s5_h (sha512_stream_init p is384) = sha512_iv is384"
    by (simp_all add: sha512_pending_def sha512_count_def sha512_stream_init_def)
  ultimately show ?thesis
    using sha512.streaming_correct [of is384 "sha512_stream_init p is384" chunks] assms(2)
    by (simp add: sha512_finish_def)
qed

theorem sha512_stream_correct_witness:
  "\<exists>digest. do { p \<leftarrow> update_all sha512_stream_update (sha512_stream_init
       \<lparr>s5_h = [], s5_len = 3, s5_buf = replicate 128 1, s5_buflen = 200, s5_is384 = False\<rparr> True)
       [[97], [98, 99]];
     map_option fst (sha512_stream_final p) } = Some digest"
  using sha512_stream_correct [of "\<lparr>s5_h = [], s5_len = 3, s5_buf = replicate 128 1,
      s5_buflen = 200, s5_is384 = False\<rparr>" "[[97], [98, 99]]" True] by auto

end
