(* ===== verification/Djb2.thy ===== *)
theory Djb2
  imports Prelude
begin

text \<open>
  \<open>djb2_calculate\<close> of \<open>hash/lrc_hash.c\<close>: the string hash with its SSE2 path, which takes eight
  bytes at a time with precomputed powers of 33, and the scalar loop for the rest. The string is
  the list of its bytes before the terminating zero.
\<close>

unbundle bit_operations_syntax

definition DJB2_W8 :: "u32 list" where
  "DJB2_W8 = [0xEC41D4E1, 0x4CFA3CC1, 0x025528A1, 0x00121881, 0x00008C61, 0x00000441, 0x00000021,
     0x00000001]"

text \<open>The loop \<open>while (*p) h = (h << 5) + h + *p++\<close>.\<close>

fun djb2_scalar :: "u32 \<Rightarrow> byte list \<Rightarrow> u32" where
  "djb2_scalar h [] = h"
| "djb2_scalar h (c # p) = djb2_scalar (push_bit 5 h + h + ucast c) p"

text \<open>
  \<open>_mm_mul_epu32\<close> multiplies 32-bit lanes to 64-bit products, of which the code reads the low 32
  bits: lane \<open>i\<close> of the widened bytes with lane \<open>i\<close> of the weights.
\<close>

definition lane_product :: "byte list \<Rightarrow> nat \<Rightarrow> u32" where
  "lane_product p i = ucast (ucast (ucast (p ! i) :: u32) * ucast (DJB2_W8 ! i) :: 64 word)"

text \<open>The body of the SSE2 loop, with the products in the order in which the code adds them.\<close>

definition djb2_block :: "u32 \<Rightarrow> byte list \<Rightarrow> u32" where
  "djb2_block h p =
     (let s = 0;
          s = s + lane_product p 0;
          s = s + lane_product p 2;
          s = s + lane_product p 1;
          s = s + lane_product p 3;
          s = s + lane_product p 4;
          s = s + lane_product p 6;
          s = s + lane_product p 5;
          s = s + lane_product p 7
      in h * 0x747C7101 + s)"

fun djb2_sse2 :: "nat \<Rightarrow> u32 \<Rightarrow> byte list \<Rightarrow> u32 \<times> byte list" where
  "djb2_sse2 0 h p = (h, p)"
| "djb2_sse2 (Suc n) h p = djb2_sse2 n (djb2_block h p) (drop 8 p)"

text \<open>\<open>end8\<close> is \<open>p + (len & ~7)\<close>, so the SSE2 loop runs \<open>len div 8\<close> times.\<close>

definition djb2_calculate :: "byte list \<Rightarrow> u32" where
  "djb2_calculate str =
     (let (h, p) = djb2_sse2 (length str div 8) 5381 str in djb2_scalar h p)"

section \<open>The vector path computes the scalar loop\<close>

lemma low_half_of_nat: "(ucast (of_nat k :: 64 word) :: u32) = of_nat k"
proof -
  have "unat (ucast (of_nat k :: 64 word) :: u32) = k mod 2 ^ 64 mod 2 ^ 32"
    by (simp only: unsigned_ucast_eq take_bit_eq_mod unat_of_nat) simp
  also have "\<dots> = k mod 2 ^ 32" by (simp add: mod_mod_cancel)
  finally show ?thesis by (simp only: word_unat_eq_iff unat_of_nat) simp
qed

lemma lane_product_value: "lane_product p i = ucast (p ! i) * DJB2_W8 ! i"
proof -
  have "(ucast (ucast x * ucast y :: 64 word) :: u32) = x * y" for x y :: u32
  proof -
    have "(ucast x * ucast y :: 64 word) = of_nat (unat x * unat y)" by simp
    then show ?thesis by (simp only: low_half_of_nat) simp
  qed
  then show ?thesis by (simp only: lane_product_def)
qed

lemma djb2_scalar_append: "djb2_scalar h (xs @ ys) = djb2_scalar (djb2_scalar h xs) ys"
  by (induction xs arbitrary: h) simp_all

lemma djb2_scalar_Cons: "djb2_scalar h (c # p) = djb2_scalar (h * 33 + ucast c) p"
  by (simp add: push_bit_eq_mult algebra_simps)

lemma djb2_block_scalar:
  assumes "length p = 8"
  shows "djb2_block h p = djb2_scalar h p"
proof -
  obtain c0 c1 c2 c3 c4 c5 c6 c7 where p: "p = [c0, c1, c2, c3, c4, c5, c6, c7]"
    using assms by (auto simp: length_Suc_conv eval_nat_numeral)
  have z: "(38654705664 :: u32) = 0" "(1404454305792 :: u32) = 0" by simp_all
  show ?thesis
    by (simp add: p djb2_scalar_Cons djb2_block_def lane_product_value DJB2_W8_def Let_def
        distrib_right mult.assoc del: djb2_scalar.simps(2)) (simp add: ac_simps, simp only: z mult_zero_right add_0)
qed

lemma djb2_sse2_scalar:
  "n * 8 \<le> length p \<Longrightarrow> djb2_sse2 n h p = (djb2_scalar h (take (n * 8) p), drop (n * 8) p)"
proof (induction n arbitrary: h p)
  case (Suc n)
  have "take (Suc n * 8) p = take 8 p @ take (n * 8) (drop 8 p)"
    by (simp add: take_add)
  moreover have "djb2_block h p = djb2_block h (take 8 p)"
    by (simp add: djb2_block_def lane_product_value)
  ultimately show ?case
    using Suc by (simp add: djb2_block_scalar djb2_scalar_append add.commute)
qed simp

text \<open>
  C26. The vectorised hash is the plain one: for every string, whatever its length, the eight
  bytes at a time with the weights \<open>33 ^ 7, ..., 33, 1\<close> modulo \<open>2 ^ 32\<close>, followed by the scalar loop
  for the last bytes, give the hash of the scalar loop alone.
\<close>

theorem djb2_vector_equals_scalar: "djb2_calculate str = djb2_scalar 5381 str"
  by (simp add: djb2_calculate_def djb2_sse2_scalar flip: djb2_scalar_append)

end
