(* ===== verification/Base64.thy ===== *)
theory Base64
  imports Prelude
begin

text \<open>
  \<open>encodings/encoding_base64.c\<close>: the encoder and the decoder, with the index arithmetic and the
  buffer writes of the code. Lengths are the \<open>int\<close>s of the code, natural numbers here since a
  length is not negative, with the multiplication that can exceed \<open>INT_MAX\<close> a fault (signed
  overflow). \<open>malloc\<close> is an argument: it returns \<open>NULL\<close> or memory of the size asked for, with
  arbitrary contents.
\<close>

unbundle bit_operations_syntax

section \<open>The code\<close>

definition INT_MAX :: nat where
  "INT_MAX = 2 ^ 31 - 1"

definition char_byte :: "char \<Rightarrow> byte" where
  "char_byte c = of_nat (of_char c)"

definition b64 :: "byte list" where
  "b64 = map char_byte ''ABCDEFGHIJKLMNOPQRSTUVWXYZabcdefghijklmnopqrstuvwxyz0123456789+/''"

definition unb64 :: "byte list" where
  "unb64 =
    [0, 0, 0, 0, 0, 0, 0, 0, 0, 0, 0, 0, 0, 0, 0, 0,
     0, 0, 0, 0, 0, 0, 0, 0, 0, 0, 0, 0, 0, 0, 0, 0,
     0, 0, 0, 0, 0, 0, 0, 0, 0, 0, 0, 62, 0, 0, 0, 63,
     52, 53, 54, 55, 56, 57, 58, 59, 60, 61, 0, 0, 0, 0, 0, 0,
     0, 0, 1, 2, 3, 4, 5, 6, 7, 8, 9, 10, 11, 12, 13, 14,
     15, 16, 17, 18, 19, 20, 21, 22, 23, 24, 25, 0, 0, 0, 0, 0,
     0, 26, 27, 28, 29, 30, 31, 32, 33, 34, 35, 36, 37, 38, 39, 40,
     41, 42, 43, 44, 45, 46, 47, 48, 49, 50, 51, 0, 0, 0, 0, 0,
     0, 0, 0, 0, 0, 0, 0, 0, 0, 0, 0, 0, 0, 0, 0, 0,
     0, 0, 0, 0, 0, 0, 0, 0, 0, 0, 0, 0, 0, 0, 0, 0,
     0, 0, 0, 0, 0, 0, 0, 0, 0, 0, 0, 0, 0, 0, 0, 0,
     0, 0, 0, 0, 0, 0, 0, 0, 0, 0, 0, 0, 0, 0, 0, 0,
     0, 0, 0, 0, 0, 0, 0, 0, 0, 0, 0, 0, 0, 0, 0, 0,
     0, 0, 0, 0, 0, 0, 0, 0, 0, 0, 0, 0, 0, 0, 0, 0,
     0, 0, 0, 0, 0, 0, 0, 0, 0, 0, 0, 0, 0, 0, 0, 0,
     0, 0, 0, 0, 0, 0, 0, 0, 0, 0, 0, 0, 0, 0, 0, 0]"

text \<open>The loop over whole triples: it returns \<open>byteNo\<close>, \<open>rc\<close> and \<open>res\<close>.\<close>

function base64_loop :: "byte list \<Rightarrow> nat \<Rightarrow> nat \<Rightarrow> nat \<Rightarrow> byte list \<Rightarrow>
  (nat \<times> nat \<times> byte list) option" where
  "base64_loop bin len byteNo rc res =
     (if byteNo + 3 \<le> len
      then do {
        BYTE0 \<leftarrow> arr_get bin byteNo;
        BYTE1 \<leftarrow> arr_get bin (byteNo + 1);
        BYTE2 \<leftarrow> arr_get bin (byteNo + 2);
        res \<leftarrow> arr_set res rc (b64 ! unat (drop_bit 2 BYTE0));
        res \<leftarrow> arr_set res (rc + 1) (b64 ! unat (push_bit 4 (0x3 AND BYTE0) + drop_bit 4 BYTE1));
        res \<leftarrow> arr_set res (rc + 2) (b64 ! unat (push_bit 2 (0x0f AND BYTE1) + drop_bit 6 BYTE2));
        res \<leftarrow> arr_set res (rc + 3) (b64 ! unat (0x3f AND BYTE2));
        base64_loop bin len (byteNo + 3) (rc + 4) res }
      else Some (byteNo, rc, res))"
  by pat_completeness auto
termination by (relation "measure (\<lambda>(bin, len, byteNo, rc, res). len - byteNo)") auto

declare base64_loop.simps [simp del]

text \<open>The string returned (\<open>None\<close> for \<open>NULL\<close>), with its terminating zero, and \<open>*flen\<close>.\<close>

definition base64 :: "(nat \<Rightarrow> byte list option) \<Rightarrow> byte list \<Rightarrow> nat \<Rightarrow>
  (byte list option \<times> nat) option" where
  "base64 malloc bin len = do {
     let modulusLen = len mod 3;
     let pad = push_bit 1 (modulusLen AND 1) + drop_bit 1 (modulusLen AND 2);
     if 4 * (len + pad) > INT_MAX then None
     else let flen = 4 * (len + pad) div 3 in
     case malloc (flen + 1) of
       None \<Rightarrow> Some (None, flen)
     | Some res \<Rightarrow> do {
         (byteNo, rc, res) \<leftarrow> base64_loop bin len 0 0 res;
         (rc, res) \<leftarrow>
           (if pad = 2
            then do {
              b0 \<leftarrow> arr_get bin byteNo;
              res \<leftarrow> arr_set res rc (b64 ! unat (drop_bit 2 b0));
              res \<leftarrow> arr_set res (rc + 1) (b64 ! unat (push_bit 4 (0x3 AND b0)));
              res \<leftarrow> arr_set res (rc + 2) (char_byte (CHR ''=''));
              res \<leftarrow> arr_set res (rc + 3) (char_byte (CHR ''=''));
              Some (rc + 4, res) }
            else if pad = 1
            then do {
              b0 \<leftarrow> arr_get bin byteNo;
              b1 \<leftarrow> arr_get bin (byteNo + 1);
              res \<leftarrow> arr_set res rc (b64 ! unat (drop_bit 2 b0));
              res \<leftarrow> arr_set res (rc + 1) (b64 ! unat (push_bit 4 (0x3 AND b0) + drop_bit 4 b1));
              res \<leftarrow> arr_set res (rc + 2) (b64 ! unat (push_bit 2 (0x0f AND b1)));
              res \<leftarrow> arr_set res (rc + 3) (char_byte (CHR ''=''));
              Some (rc + 4, res) }
            else Some (rc, res));
         res \<leftarrow> arr_set res rc 0;
         Some (Some res, flen) } }"

text \<open>The loop over whole quartets, \<open>charNo <= len-4-pad\<close>.\<close>

function unbase64_loop :: "byte list \<Rightarrow> nat \<Rightarrow> nat \<Rightarrow> nat \<Rightarrow> nat \<Rightarrow> byte list \<Rightarrow>
  (nat \<times> nat \<times> byte list) option" where
  "unbase64_loop ascii len pad charNo cb bin =
     (if charNo + 4 + pad \<le> len
      then do {
        a \<leftarrow> arr_get ascii charNo;
        b \<leftarrow> arr_get ascii (charNo + 1);
        c \<leftarrow> arr_get ascii (charNo + 2);
        d \<leftarrow> arr_get ascii (charNo + 3);
        let A = unb64 ! unat a; let B = unb64 ! unat b;
        let C = unb64 ! unat c; let D = unb64 ! unat d;
        bin \<leftarrow> arr_set bin cb (push_bit 2 A OR drop_bit 4 B);
        bin \<leftarrow> arr_set bin (cb + 1) (push_bit 4 B OR drop_bit 2 C);
        bin \<leftarrow> arr_set bin (cb + 2) (push_bit 6 C OR D);
        unbase64_loop ascii len pad (charNo + 4) (cb + 3) bin }
      else Some (charNo, cb, bin))"
  by pat_completeness auto
termination by (relation "measure (\<lambda>(ascii, len, pad, charNo, cb, bin). len - charNo)") auto

declare unbase64_loop.simps [simp del]

definition unbase64 :: "(nat \<Rightarrow> byte list option) \<Rightarrow> byte list \<Rightarrow> nat \<Rightarrow>
  (byte list option \<times> nat) option" where
  "unbase64 malloc ascii len =
     (if len < 4 \<or> len AND 3 \<noteq> 0 then Some (None, 0)
      else do {
        z1 \<leftarrow> arr_get ascii (len - 1);
        z2 \<leftarrow> arr_get ascii (len - 2);
        let pad = (if z1 = char_byte (CHR ''='') then 1 else 0);
        let pad = (if z2 = char_byte (CHR ''='') then pad + 1 else pad);
        if 3 * len > INT_MAX then None
        else let flen = 3 * len div 4 - pad in
        case malloc flen of
          None \<Rightarrow> Some (None, flen)
        | Some bin \<Rightarrow> do {
            (charNo, cb, bin) \<leftarrow> unbase64_loop ascii len pad 0 0 bin;
            bin \<leftarrow>
              (if pad = 1
               then do {
                 a \<leftarrow> arr_get ascii charNo;
                 b \<leftarrow> arr_get ascii (charNo + 1);
                 c \<leftarrow> arr_get ascii (charNo + 2);
                 let A = unb64 ! unat a; let B = unb64 ! unat b; let C = unb64 ! unat c;
                 bin \<leftarrow> arr_set bin cb (push_bit 2 A OR drop_bit 4 B);
                 arr_set bin (cb + 1) (push_bit 4 B OR drop_bit 2 C) }
               else if pad = 2
               then do {
                 a \<leftarrow> arr_get ascii charNo;
                 b \<leftarrow> arr_get ascii (charNo + 1);
                 let A = unb64 ! unat a; let B = unb64 ! unat b;
                 arr_set bin cb (push_bit 2 A OR drop_bit 4 B) }
               else Some bin);
            Some (Some bin, flen) } })"

section \<open>The encoding of RFC 4648\<close>

text \<open>The 24 bits of a triple, cut into four groups of 6; a short last group is filled with zeros.\<close>

definition bits24 :: "byte \<Rightarrow> byte \<Rightarrow> byte \<Rightarrow> nat" where
  "bits24 a b c = unat a * 2 ^ 16 + unat b * 2 ^ 8 + unat c"

fun b64_encode :: "byte list \<Rightarrow> byte list" where
  "b64_encode [] = []"
| "b64_encode [a] =
     (let n = bits24 a 0 0 in [b64 ! (n div 2 ^ 18), b64 ! (n div 2 ^ 12 mod 64),
        char_byte (CHR ''=''), char_byte (CHR ''='')])"
| "b64_encode [a, b] =
     (let n = bits24 a b 0 in [b64 ! (n div 2 ^ 18), b64 ! (n div 2 ^ 12 mod 64),
        b64 ! (n div 2 ^ 6 mod 64), char_byte (CHR ''='')])"
| "b64_encode (a # b # c # xs) =
     (let n = bits24 a b c in [b64 ! (n div 2 ^ 18), b64 ! (n div 2 ^ 12 mod 64),
        b64 ! (n div 2 ^ 6 mod 64), b64 ! (n mod 64)] @ b64_encode xs)"

lemma byte_bound: "unat (x :: byte) < 256"
  using unsigned_less [of x, where ?'a = nat] by simp

lemma byte_masks:
  "unat (0x3 AND x :: byte) = unat x mod 4" "unat (0x0f AND x :: byte) = unat x mod 16"
  "unat (0x3f AND x :: byte) = unat x mod 64"
  using unat_and_mask [of x 2] unat_and_mask [of x 4] unat_and_mask [of x 6]
  by (simp_all add: mask_eq_exp_minus_1 and.commute)

lemma byte_shifts:
  "unat (drop_bit k (x :: byte)) = unat x div 2 ^ k"
  "unat x * 2 ^ k < 256 \<Longrightarrow> unat (push_bit k (x :: byte)) = unat x * 2 ^ k"
proof -
  show "unat (drop_bit k x) = unat x div 2 ^ k"
    by (simp only: unat_drop_bit_eq) (simp only: drop_bit_eq_div)
  assume "unat x * 2 ^ k < 256"
  then show "unat (push_bit k x) = unat x * 2 ^ k"
    by (simp only: unsigned_push_bit_eq) (simp add: push_bit_eq_mult take_bit_eq_mod)
qed

lemma byte_add: "unat (x :: byte) + unat y < 256 \<Longrightarrow> unat (x + y) = unat x + unat y"
  by (simp add: unat_word_ariths)

lemma bits24_groups:
  fixes a b c :: nat
  assumes "a < 256" "b < 256" "c < 256"
  defines "n \<equiv> a * 2 ^ 16 + b * 2 ^ 8 + c"
  shows "n div 2 ^ 18 = a div 4" and "n div 2 ^ 12 mod 64 = a mod 4 * 16 + b div 16"
    and "n div 2 ^ 6 mod 64 = b mod 16 * 4 + c div 64" and "n mod 64 = c mod 64"
proof -
  define q r p s t u where defs: "q = a div 4" "r = a mod 4" "p = b div 16" "s = b mod 16"
    "t = c div 64" "u = c mod 64"
  have "a = 4 * q + r" "b = 16 * p + s" "c = 64 * t + u"
    and bounds: "r < 4" "p < 16" "s < 16" "t < 4" "u < 64"
    using assms(1-3) by (auto simp: defs)
  then have n: "n = q * 262144 + r * 65536 + p * 4096 + s * 256 + t * 64 + u"
    by (simp add: n_def)
  have d12: "n div 4096 = q * 64 + (r * 16 + p)" and d6: "n div 64 = (q * 64 + r * 16 + p) * 64 + (s * 4 + t)"
    and d18: "n div 262144 = q"
    using n bounds by (intro div_nat_eqI; simp)+
  show "n div 2 ^ 18 = a div 4" using d18 by (simp add: defs)
  show "n div 2 ^ 12 mod 64 = a mod 4 * 16 + b div 16" using d12 bounds by (simp flip: defs)
  have "n div 64 mod 64 = s * 4 + t"
    unfolding d6 using bounds(3,4) by (simp only: mod_mult_self3) simp
  then show "n div 2 ^ 6 mod 64 = b mod 16 * 4 + c div 64" by (simp flip: defs)
  have "n = (q * 4096 + r * 1024 + p * 64 + s * 4 + t) * 64 + u" using n by simp
  then have "n mod 64 = u"
    using bounds(5) by (simp only: mod_mult_self3) simp
  then show "n mod 64 = c mod 64" by (simp flip: defs)
qed

lemma sextets:
  "unat (drop_bit 2 a) = bits24 a b c div 2 ^ 18"
  "unat (push_bit 4 (0x3 AND a) + drop_bit 4 b) = bits24 a b c div 2 ^ 12 mod 64"
  "unat (push_bit 2 (0x0f AND b) + drop_bit 6 c) = bits24 a b c div 2 ^ 6 mod 64"
  "unat (0x3f AND c) = bits24 a b c mod 64"
proof -
  note groups = bits24_groups [OF byte_bound [of a] byte_bound [of b] byte_bound [of c], folded bits24_def]
  show "unat (drop_bit 2 a) = bits24 a b c div 2 ^ 18"
    by (simp only: groups byte_shifts) simp
  show "unat (0x3f AND c) = bits24 a b c mod 64"
    by (simp only: groups byte_masks)
  have b: "unat a mod 4 < 4" "unat b div 16 < 16" "unat b mod 16 < 16" "unat c div 64 < 4"
    using byte_bound [of b] byte_bound [of c] by auto
  have s1: "unat (push_bit 4 (0x3 AND a)) = unat a mod 4 * 16"
    using byte_shifts(2) [of "0x3 AND a" 4] b(1) by (simp only: byte_masks) simp
  have s2: "unat (push_bit 2 (0x0f AND b)) = unat b mod 16 * 4"
    using byte_shifts(2) [of "0x0f AND b" 2] b(3) by (simp only: byte_masks) simp
  have d: "unat (drop_bit 4 b) = unat b div 16" "unat (drop_bit 6 c) = unat c div 64"
    by (simp_all only: byte_shifts) simp_all
  show "unat (push_bit 4 (0x3 AND a) + drop_bit 4 b) = bits24 a b c div 2 ^ 12 mod 64"
    using byte_add [of "push_bit 4 (0x3 AND a)" "drop_bit 4 b", unfolded s1 d] b(1,2)
    unfolding groups by linarith
  show "unat (push_bit 2 (0x0f AND b) + drop_bit 6 c) = bits24 a b c div 2 ^ 6 mod 64"
    using byte_add [of "push_bit 2 (0x0f AND b)" "drop_bit 6 c", unfolded s2 d] b(3,4)
    unfolding groups by linarith
qed


section \<open>The encoder\<close>

lemma b64_encode_length: "length (b64_encode xs) = (length xs + 2) div 3 * 4"
proof (induction xs rule: b64_encode.induct)
  case (4 a b c xs)
  have "(length xs + 5) div 3 = (length xs + 2) div 3 + 1" by presburger
  with 4 show ?case by (simp add: Let_def add.commute)
qed (simp_all add: Let_def)

lemma b64_encode_append:
  "length xs mod 3 = 0 \<Longrightarrow> b64_encode (xs @ ys) = b64_encode xs @ b64_encode ys"
proof (induction xs rule: b64_encode.induct)
  case (4 a b c xs)
  then have "length xs mod 3 = 0" by simp
  with 4 show ?case by (simp add: Let_def)
qed (simp_all add: Let_def)

text \<open>A message is whole triples and at most two bytes.\<close>

lemma triples_and_tail:
  obtains ws ts where "(xs :: 'a list) = ws @ ts" "length ws mod 3 = 0" "length ts = length xs mod 3"
proof
  let ?n = "length xs div 3 * 3"
  have "?n \<le> length xs" by simp
  then show "length (take ?n xs) mod 3 = 0" by (simp only: length_take min.absorb2) simp
  show "xs = take ?n xs @ drop ?n xs" by simp
  show "length (drop ?n xs) = length xs mod 3" by (simp add: minus_div_mult_eq_mod)
qed

lemma length_ge_4: "4 \<le> length xs \<Longrightarrow> \<exists>a b c d ys. xs = a # b # c # d # ys"
  by (auto simp: Suc_le_length_iff numeral_eq_Suc)

lemma base64_loop_step:
  assumes "byteNo + 3 \<le> len" "arr_get bin byteNo = Some a" "arr_get bin (byteNo + 1) = Some b"
    "arr_get bin (byteNo + 2) = Some c"
  shows "base64_loop bin len byteNo rc res = do {
    let n = bits24 a b c;
    res \<leftarrow> arr_set res rc (b64 ! (n div 2 ^ 18));
    res \<leftarrow> arr_set res (rc + 1) (b64 ! (n div 2 ^ 12 mod 64));
    res \<leftarrow> arr_set res (rc + 2) (b64 ! (n div 2 ^ 6 mod 64));
    res \<leftarrow> arr_set res (rc + 3) (b64 ! (n mod 64));
    base64_loop bin len (byteNo + 3) (rc + 4) res }"
  by (subst base64_loop.simps)
    (simp only: assms if_True bind.bind_lunit sextets(1) [of a b c] sextets(2) [of a b c]
      sextets(3) [of b c a] sextets(4) [of c a b] Let_def)

lemma base64_loop_encodes:
  "length ws mod 3 = 0 \<Longrightarrow> length ts < 3 \<Longrightarrow> length (b64_encode ws) \<le> length buf \<Longrightarrow>
   len = length (pre @ ws @ ts) \<Longrightarrow>
   base64_loop (pre @ ws @ ts) len (length pre) (length out) (out @ buf) =
   Some (length (pre @ ws), length (out @ b64_encode ws),
         out @ b64_encode ws @ drop (length (b64_encode ws)) buf)"
proof (induction ws arbitrary: pre out buf rule: b64_encode.induct)
  case 1
  then show ?case by (subst base64_loop.simps) simp
next
  case (4 a b c xs)
  then have "4 \<le> length buf" by (simp add: Let_def)
  then obtain w x y z buf' where buf: "buf = w # x # y # z # buf'" using length_ge_4 by blast
  let ?n = "bits24 a b c"
  let ?o = "out @ [b64 ! (?n div 2 ^ 18), b64 ! (?n div 2 ^ 12 mod 64), b64 ! (?n div 2 ^ 6 mod 64), b64 ! (?n mod 64)]"
  have "length xs mod 3 = 0" using 4(2) by simp
  then have IH: "base64_loop ((pre @ [a, b, c]) @ xs @ ts) len (length (pre @ [a, b, c])) (length ?o) (?o @ buf') =
    Some (length ((pre @ [a, b, c]) @ xs), length (?o @ b64_encode xs),
         ?o @ b64_encode xs @ drop (length (b64_encode xs)) buf')"
    using 4(3-5) by (intro 4(1)) (simp_all add: Let_def buf)
  have k: "k + 3 = Suc (Suc (Suc k))" "k + 4 = Suc (Suc (Suc (Suc k)))" for k :: nat by simp_all
  have "base64_loop (pre @ (a # b # c # xs) @ ts) len (length pre) (length out) (out @ buf) =
    base64_loop ((pre @ [a, b, c]) @ xs @ ts) len (length (pre @ [a, b, c])) (length ?o) (?o @ buf')"
    by (subst base64_loop_step [where a = a and b = b and c = c])
      (use 4(5) in \<open>simp_all add: buf_simps arr_get_def arr_set_def buf Let_def list_update_append
        nth_append k\<close>)
  also note IH
  finally show ?case by (simp add: Let_def buf)
qed simp_all


text \<open>The length the encoder computes.\<close>

lemma pad_arith:
  "push_bit 1 (n mod 3 AND 1) + drop_bit 1 (n mod 3 AND 2) = (3 - n mod 3) mod (3 :: nat)"
proof -
  consider "n mod 3 = 0" | "n mod 3 = 1" | "n mod 3 = 2" by linarith
  then show ?thesis by cases (simp_all add: drop_bit_eq_div)
qed

lemma padded_length:
  fixes n :: nat
  shows "n + (3 - n mod 3) mod 3 = 3 * ((n + 2) div 3)"
proof -
  consider "n mod 3 = 0" | "n mod 3 = 1" | "n mod 3 = 2" by linarith
  then show ?thesis by cases (simp; presburger)+
qed


lemma sextets_tail:
  "unat (push_bit 4 (0x3 AND a)) = bits24 a 0 0 div 2 ^ 12 mod 64"
  "unat (push_bit 2 (0x0f AND b)) = bits24 a b 0 div 2 ^ 6 mod 64"
  using sextets(2) [of a 0 0] sextets(3) [of b 0 a] by (simp_all only: drop_bit_of_0 add_0_right)

lemma arr_get_here:
  "arr_get (xs @ a # ys) (length xs) = Some a" "arr_get (xs @ a # b # ys) (length xs + 1) = Some b"
  by (simp_all add: arr_get_def nth_append)

lemma arr_set_here:
  "arr_set (xs @ a # ys) (length xs) v = Some (xs @ v # ys)"
  "arr_set (xs @ a # b # ys) (length xs + 1) v = Some (xs @ a # v # ys)"
  "arr_set (xs @ a # b # c # ys) (length xs + 2) v = Some (xs @ a # b # v # ys)"
  "arr_set (xs @ a # b # c # d # ys) (length xs + 3) v = Some (xs @ a # b # c # v # ys)"
  "arr_set (xs @ a # b # c # d # e # ys) (length xs + 4) v = Some (xs @ a # b # c # d # v # ys)"
  by (simp_all add: arr_set_def list_update_append)

definition base64_size :: "nat \<Rightarrow> nat" where
  "base64_size n = (n + 2) div 3 * 4"

lemma base64_encodes:
  assumes "allocates malloc" and "malloc (base64_size (length bin) + 1) = Some buf"
    and "base64_size (length bin) * 3 \<le> INT_MAX"
  shows "base64 malloc bin (length bin) =
    Some (Some (b64_encode bin @ [0]), length (b64_encode bin))"
proof -
  obtain ws ts where bin: "bin = ws @ ts" "length ws mod 3 = 0" "length ts = length bin mod 3"
    by (rule triples_and_tail)
  let ?e = "b64_encode ws"
  have ts: "length ts < 3" by (simp add: bin(3))
  have len: "length buf = length (b64_encode bin) + 1"
    using assms(1,2) by (simp add: allocates_def b64_encode_length base64_size_def)
  have enc: "b64_encode bin = ?e @ b64_encode ts"
    by (simp add: bin(1) b64_encode_append bin(2))
  have loop: "base64_loop bin (length bin) 0 0 buf = Some (length ws, length ?e, ?e @ drop (length ?e) buf)"
    using base64_loop_encodes [OF bin(2) ts, where pre = "[]" and out = "[]" and buf = buf and
      len = "length bin", unfolded append_Nil] len
    by (simp add: enc [unfolded bin(1)] bin(1))
  have size: "4 * (length bin + (3 - length bin mod 3) mod 3) = base64_size (length bin) * 3"
    by (simp add: padded_length base64_size_def)
  have l: "length (b64_encode bin) = base64_size (length bin)"
    by (simp add: b64_encode_length base64_size_def)
  obtain d where d: "drop (length ?e) buf = d" "length d = length (b64_encode ts) + 1"
    using len by (simp add: enc)
  have run: "base64 malloc bin (length bin) = (do {
     (rc, res) \<leftarrow> (if (3 - length ts) mod 3 = 2 then do {
              b0 \<leftarrow> arr_get bin (length ws);
              res \<leftarrow> arr_set (?e @ d) (length ?e) (b64 ! unat (drop_bit 2 b0));
              res \<leftarrow> arr_set res (length ?e + 1) (b64 ! unat (push_bit 4 (0x3 AND b0)));
              res \<leftarrow> arr_set res (length ?e + 2) (char_byte (CHR ''=''));
              res \<leftarrow> arr_set res (length ?e + 3) (char_byte (CHR ''=''));
              Some (length ?e + 4, res) }
            else if (3 - length ts) mod 3 = 1
            then do {
              b0 \<leftarrow> arr_get bin (length ws);
              b1 \<leftarrow> arr_get bin (length ws + 1);
              res \<leftarrow> arr_set (?e @ d) (length ?e) (b64 ! unat (drop_bit 2 b0));
              res \<leftarrow> arr_set res (length ?e + 1) (b64 ! unat (push_bit 4 (0x3 AND b0) + drop_bit 4 b1));
              res \<leftarrow> arr_set res (length ?e + 2) (b64 ! unat (push_bit 2 (0x0f AND b1)));
              res \<leftarrow> arr_set res (length ?e + 3) (char_byte (CHR ''=''));
              Some (length ?e + 4, res) }
            else Some (length ?e, ?e @ d));
     res \<leftarrow> arr_set res rc 0;
     Some (Some res, base64_size (length bin)) })"
    using assms(2,3) unfolding base64_def Let_def pad_arith size
    by (simp only: loop d bin(3) not_less [symmetric] nonzero_mult_div_cancel_right option.case
      bind.bind_lunit prod.case if_False)
  show ?thesis
  proof -
    consider "ts = []" | a where "ts = [a]" | a b where "ts = [a, b]"
      using ts by (cases ts rule: b64_encode.cases) auto
    then show ?thesis
    proof cases
      case 1
      then obtain x where "d = [x]" using d(2) by (auto simp: length_Suc_conv)
      with 1 show ?thesis unfolding run l by (simp add: buf_simps enc arr_set_def)
    next
      case (2 a)
      then obtain v w x y z where "d = [v, w, x, y, z]"
        using d(2) by (auto simp: length_Suc_conv Let_def)
      moreover have "(3 - length [a]) mod 3 = (2 :: nat)" by simp
      ultimately show ?thesis unfolding run l unfolding bin(1) 2
        by (simp only: simp_thms if_True if_False bind.bind_lunit prod.case arr_get_here arr_set_here
          sextets(1) [of a 0 0] sextets_tail(1) [of a]) (simp add: b64_encode_append bin(2) Let_def)
    next
      case (3 a b)
      then obtain v w x y z where "d = [v, w, x, y, z]"
        using d(2) by (auto simp: length_Suc_conv Let_def)
      moreover have "(3 - length [a, b]) mod 3 = (1 :: nat)" by simp
      moreover have "(1 :: nat) = 2 \<longleftrightarrow> False" by simp
      ultimately show ?thesis unfolding run l unfolding bin(1) 3
        by (simp only: simp_thms if_True if_False bind.bind_lunit prod.case arr_get_here arr_set_here
          sextets(1) [of a b 0] sextets(2) [of a b 0] sextets_tail(2) [where a = a and b = b])
          (simp add: b64_encode_append bin(2) Let_def)
    qed
  qed
qed


lemma base64_pad_multiple: "(n + (push_bit 1 (n mod 3 AND 1) + drop_bit 1 (n mod 3 AND 2))) mod 3 = (0 :: nat)"
proof -
  have "n mod 3 < 3" by simp
  then consider "n mod 3 = 0" | "n mod 3 = 1" | "n mod 3 = 2" by linarith
  then show ?thesis by cases (simp_all, presburger+)
qed

text \<open>
  C29. When \<open>malloc\<close> delivers, \<open>base64\<close> makes no access outside the message or the block it allocates,
  and returns exactly the encoding of RFC 4648 (groups of six bits, zero-filled, \<open>=\<close> padding) with its
  terminating zero, and its length, for every message for which \<open>4 * (len + pad)\<close> fits an \<open>int\<close>, that is,
  up to 536870910 bytes; for every longer message that product, and so the call, is undefined.
\<close>
theorem base64_correct:
  assumes "allocates malloc" and "malloc (base64_size (length bin) + 1) = Some buf"
  shows "base64 malloc bin (length bin) =
    (if length bin \<le> 536870910 then Some (Some (b64_encode bin @ [0]), length (b64_encode bin)) else None)"
proof (cases "length bin \<le> 536870910")
  case True
  then have "(length bin + 2) div 3 \<le> (536870910 + 2) div 3" by (intro div_le_mono) simp
  then have "base64_size (length bin) * 3 \<le> INT_MAX" by (simp add: base64_size_def INT_MAX_def)
  with base64_encodes [OF assms] True show ?thesis by simp
next
  case False
  let ?m = "length bin mod 3"
  have "536870910 < length bin + (push_bit 1 (?m AND 1) + drop_bit 1 (?m AND 2))" using False by simp
  moreover have "length bin + (push_bit 1 (?m AND 1) + drop_bit 1 (?m AND 2)) \<noteq> 536870911"
    using False base64_pad_multiple [of "length bin"] by presburger
  ultimately have "4 * (length bin + (push_bit 1 (?m AND 1) + drop_bit 1 (?m AND 2))) > INT_MAX" by (simp add: INT_MAX_def)
  with False show ?thesis by (simp add: base64_def Let_def)
qed

theorem base64_correct_witness:
  "base64 (\<lambda>n. Some (replicate n 0)) [0x66, 0x6f, 0x6f, 0x62] (length [0x66, 0x6f, 0x6f, 0x62 :: byte]) =
   (if length [0x66, 0x6f, 0x6f, 0x62 :: byte] \<le> 536870910
    then Some (Some (b64_encode [0x66, 0x6f, 0x6f, 0x62] @ [0]), length (b64_encode [0x66, 0x6f, 0x6f, 0x62])) else None)"
  by (rule base64_correct [where buf = "replicate 9 0"])
    (simp_all add: allocates_def base64_size_def)

section \<open>The decoder\<close>

text \<open>The table inverts the alphabet, and the padding sign is not in it.\<close>

lemma unb64_b64_table: "map (\<lambda>i. unb64 ! unat (b64 ! i)) [0..<64] = map of_nat [0..<64]"
  by code_simp

lemma unb64_b64: "i < 64 \<Longrightarrow> unb64 ! unat (b64 ! i) = of_nat i"
  using arg_cong [OF unb64_b64_table, of "\<lambda>xs. xs ! i"] by simp

lemma b64_table_no_pad: "char_byte (CHR ''='') \<notin> set b64" "length b64 = 64"
  by code_simp+

lemma b64_no_pad: "i < 64 \<Longrightarrow> b64 ! i \<noteq> char_byte (CHR ''='')"
  using b64_table_no_pad nth_mem by metis

text \<open>The four values of an encoded triple, as the decoder reads them.\<close>

lemma sextet_bounds: "bits24 a b c div 2 ^ 18 < 64"
  by (simp only: sextets(1) [of a b c, symmetric] byte_shifts) (use byte_bound [of a] in simp)

lemma sextet_words:
  "(of_nat (bits24 a b c div 2 ^ 18) :: byte) = drop_bit 2 a"
  "(of_nat (bits24 a b c div 2 ^ 12 mod 64) :: byte) = push_bit 4 (0x3 AND a) + drop_bit 4 b"
  "(of_nat (bits24 a b c div 2 ^ 6 mod 64) :: byte) = push_bit 2 (0x0f AND b) + drop_bit 6 c"
  "(of_nat (bits24 a b c mod 64) :: byte) = 0x3f AND c"
  by (simp_all only: sextets(1) [of a b c, symmetric] sextets(2) [of a b c, symmetric]
    sextets(3) [of b c a, symmetric] sextets(4) [of c a b, symmetric] of_nat_unat ucast_id)

lemma sextet_ors:
  "push_bit 4 (0x3 AND a) + drop_bit 4 b = push_bit 4 (mask 2 AND a) OR drop_bit 4 (b :: byte)"
  "push_bit 2 (0x0f AND b) + drop_bit 6 c = push_bit 2 (mask 4 AND b) OR drop_bit 6 (c :: byte)"
proof -
  have m: "(0x3 :: byte) = mask 2" "(0x0f :: byte) = mask 4"
    by (simp_all add: mask_eq_exp_minus_1)
  show "push_bit 4 (0x3 AND a) + drop_bit 4 b = push_bit 4 (mask 2 AND a) OR drop_bit 4 b"
    unfolding m by (rule disjunctive_add) (auto simp: bit_simps dest: bit_imp_le_length)
  show "push_bit 2 (0x0f AND b) + drop_bit 6 c = push_bit 2 (mask 4 AND b) OR drop_bit 6 c"
    unfolding m by (rule disjunctive_add) (auto simp: bit_simps dest: bit_imp_le_length)
qed

lemma decode_quartet:
  fixes a b c :: byte
  defines "A \<equiv> drop_bit 2 a" and "B \<equiv> push_bit 4 (0x3 AND a) + drop_bit 4 b"
    and "C \<equiv> push_bit 2 (0x0f AND b) + drop_bit 6 c" and "D \<equiv> 0x3f AND c"
  shows "push_bit 2 A OR drop_bit 4 B = a" "push_bit 4 B OR drop_bit 2 C = b" "push_bit 6 C OR D = c"
proof -
  have n: "2 \<le> n \<Longrightarrow> Suc (Suc (n - 2)) = n" "4 \<le> n \<Longrightarrow> Suc (Suc (Suc (Suc (n - 4)))) = n"
    "6 \<le> n \<Longrightarrow> Suc (Suc (Suc (Suc (Suc (Suc (n - 6)))))) = n" for n :: nat by simp_all
  show "push_bit 2 A OR drop_bit 4 B = a"
    unfolding A_def B_def sextet_ors
    by (rule bit_word_eqI, case_tac "n < 2") (auto simp: bit_simps n dest: bit_imp_le_length)
  show "push_bit 4 B OR drop_bit 2 C = b"
    unfolding C_def B_def sextet_ors
    by (rule bit_word_eqI, case_tac "n < 4") (auto simp: bit_simps n dest: bit_imp_le_length)
  show "push_bit 6 C OR D = c"
    unfolding C_def D_def sextet_ors mask_6
    by (rule bit_word_eqI, case_tac "n < 6") (auto simp: bit_simps n dest: bit_imp_le_length)
qed


lemma unbase64_loop_step:
  assumes "charNo + 4 + pad \<le> len"
    and "arr_get ascii charNo = Some (b64 ! (bits24 a b c div 2 ^ 18))"
    and "arr_get ascii (charNo + 1) = Some (b64 ! (bits24 a b c div 2 ^ 12 mod 64))"
    and "arr_get ascii (charNo + 2) = Some (b64 ! (bits24 a b c div 2 ^ 6 mod 64))"
    and "arr_get ascii (charNo + 3) = Some (b64 ! (bits24 a b c mod 64))"
  shows "unbase64_loop ascii len pad charNo cb bin = do {
    bin \<leftarrow> arr_set bin cb a;
    bin \<leftarrow> arr_set bin (cb + 1) b;
    bin \<leftarrow> arr_set bin (cb + 2) c;
    unbase64_loop ascii len pad (charNo + 4) (cb + 3) bin }"
proof -
  have m: "n mod 64 < 64" for n :: nat by simp
  show ?thesis
    by (subst unbase64_loop.simps)
      (simp only: assms if_True bind.bind_lunit Let_def unb64_b64 [OF sextet_bounds] unb64_b64 [OF m]
        sextet_words decode_quartet)
qed

lemma unbase64_loop_decodes:
  "length ws mod 3 = 0 \<Longrightarrow> length rest < 4 + pad \<Longrightarrow> ws = [] \<or> pad \<le> length rest \<Longrightarrow>
   length ws \<le> length buf \<Longrightarrow> len = length (pre @ b64_encode ws @ rest) \<Longrightarrow>
   unbase64_loop (pre @ b64_encode ws @ rest @ more) len pad (length pre) (length out) (out @ buf) =
   Some (length (pre @ b64_encode ws), length (out @ ws), out @ ws @ drop (length ws) buf)"
proof (induction ws arbitrary: pre out buf rule: b64_encode.induct)
  case 1
  then show ?case by (subst unbase64_loop.simps) simp
next
  case (4 a b c xs)
  then obtain x y z buf' where buf: "buf = x # y # z # buf'"
    by (auto simp: Suc_le_length_iff)
  let ?n = "bits24 a b c"
  let ?q = "[b64 ! (?n div 2 ^ 18), b64 ! (?n div 2 ^ 12 mod 64), b64 ! (?n div 2 ^ 6 mod 64), b64 ! (?n mod 64)]"
  have "length xs mod 3 = 0" using 4(2) by simp
  then have IH: "unbase64_loop ((pre @ ?q) @ b64_encode xs @ rest @ more) len pad (length (pre @ ?q))
      (length (out @ [a, b, c])) ((out @ [a, b, c]) @ buf') =
    Some (length ((pre @ ?q) @ b64_encode xs), length ((out @ [a, b, c]) @ xs),
         (out @ [a, b, c]) @ xs @ drop (length xs) buf')"
    using 4(3-6) by (intro 4(1)) (auto simp add: Let_def buf)
  have k: "k + 3 = Suc (Suc (Suc k))" "k + 4 = Suc (Suc (Suc (Suc k)))" for k :: nat by simp_all
  have "unbase64_loop (pre @ b64_encode (a # b # c # xs) @ rest @ more) len pad (length pre) (length out) (out @ buf) =
    unbase64_loop ((pre @ ?q) @ b64_encode xs @ rest @ more) len pad (length (pre @ ?q))
      (length (out @ [a, b, c])) ((out @ [a, b, c]) @ buf')"
    by (subst unbase64_loop_step [where a = a and b = b and c = c])
      (use 4(4,6) in \<open>auto simp add: buf_simps arr_get_def arr_set_def buf Let_def list_update_append
        nth_append k\<close>)
  also note IH
  finally show ?case by (simp add: Let_def buf)
qed simp_all


lemma b64_whole_no_pad:
  "length ws mod 3 = 0 \<Longrightarrow> char_byte (CHR ''='') \<notin> set (b64_encode ws)"
proof (induction ws rule: b64_encode.induct)
  case (4 a b c xs)
  then show ?case
    using b64_no_pad [OF sextet_bounds [of a b c]] b64_no_pad [of "bits24 a b c div 2 ^ 12 mod 64"]
      b64_no_pad [of "bits24 a b c div 2 ^ 6 mod 64"] b64_no_pad [of "bits24 a b c mod 64"]
    by (auto simp: Let_def)
qed simp_all

lemma base64_size_whole: "n mod 3 = 0 \<Longrightarrow> 3 * base64_size n div 4 = n"
  by (simp add: base64_size_def) presburger

lemma and_3: "n AND 3 = n mod (4 :: nat)"
  using take_bit_eq_mask [of 2 n] by (simp add: take_bit_eq_mod mask_eq_exp_minus_1)

text \<open>The three shapes of an encoding.\<close>

lemma unbase64_whole:
  assumes "ws \<noteq> []" "length ws mod 3 = 0" "allocates malloc" "malloc (length ws) = Some buf"
    and "3 * length (b64_encode ws) \<le> INT_MAX"
  shows "unbase64 malloc (b64_encode ws @ more) (length (b64_encode ws)) = Some (Some ws, length ws)"
proof -
  let ?e = "b64_encode ws"
  have len: "length ?e = base64_size (length ws)" "length buf = length ws"
    using assms(3,4) by (simp_all add: b64_encode_length base64_size_def allocates_def)
  obtain k where k: "length ws = 3 * Suc k"
    using assms(1,2) by (cases "length ws div 3") (auto simp: mod_eq_0_iff_dvd)
  then have e: "length ?e = 4 * Suc k" by (simp add: len base64_size_def)
  have "(?e @ more) ! i \<noteq> char_byte (CHR ''='')" if "i < length ?e" for i
    using b64_whole_no_pad [OF assms(2)] that by (simp add: nth_append) (metis nth_mem)
  then have z: "arr_get (?e @ more) (length ?e - 1) \<noteq> Some (char_byte (CHR ''=''))"
    "arr_get (?e @ more) (length ?e - 1) \<noteq> None" "arr_get (?e @ more) (length ?e - 2) \<noteq> None"
    "arr_get (?e @ more) (length ?e - 2) \<noteq> Some (char_byte (CHR ''=''))"
    by (simp_all add: e arr_get_def)
  have a: "length ?e AND 3 = 0" by (simp add: and_3 e)
  have loop: "unbase64_loop (?e @ more) (4 + 4 * k) 0 0 0 buf = Some (4 + 4 * k, length ws, ws)"
    using unbase64_loop_decodes [of ws "[]" 0 buf "length ?e" "[]" more "[]"] assms(2) len e by simp
  show ?thesis
    using z assms(4,5) a e base64_size_whole [OF assms(2)] unfolding unbase64_def len(1) [symmetric]
    by (auto simp: loop Let_def)
qed


lemma unbase64_padded:
  assumes "length ws mod 3 = 0" "allocates malloc" "malloc (length (ws @ [a])) = Some buf1"
    "malloc (length (ws @ [a, b])) = Some buf2"
    and "3 * length (b64_encode (ws @ [a, b])) \<le> INT_MAX"
  shows "unbase64 malloc (b64_encode (ws @ [a]) @ more) (length (b64_encode (ws @ [a]))) =
      Some (Some (ws @ [a]), length (ws @ [a]))" (is ?one)
    and "unbase64 malloc (b64_encode (ws @ [a, b]) @ more) (length (b64_encode (ws @ [a, b]))) =
      Some (Some (ws @ [a, b]), length (ws @ [a, b]))" (is ?two)
proof -
  let ?e = "b64_encode ws"
  obtain k where k: "length ws = 3 * k" using assms(1) by (auto simp: mod_eq_0_iff_dvd)
  have len: "length ?e = 4 * k" by (simp add: b64_encode_length k)
  have enc: "b64_encode (ws @ t) = ?e @ b64_encode t" for t by (simp add: assms(1) b64_encode_append)
  have a: "length ?e + 4 AND 3 = 0" by (simp add: and_3 len)
  have fl: "3 * (length ?e + 4) div 4 = length ws + 3" by (simp add: len k)
  have l1: "length buf1 = length ws + 1" and l2: "length buf2 = length ws + 2"
    using assms(2-4) by (simp_all add: allocates_def)
  obtain x where d1: "drop (length ws) buf1 = [x]"
    using l1 by (metis One_nat_def add_diff_cancel_left' length_0_conv length_Suc_conv length_drop)
  have "length (drop (length ws) buf2) = Suc (Suc 0)" using l2 by simp
  then obtain y z where d2: "drop (length ws) buf2 = [y, z]"
    by (auto simp: length_Suc_conv simp del: length_drop)
  have loop1: "unbase64_loop (?e @ b64_encode [a] @ more) (length ?e + 4) 2 0 0 buf1 =
      Some (length ?e, length ws, ws @ [x])"
    using unbase64_loop_decodes [of ws "b64_encode [a]" 2 buf1 "length ?e + 4" "[]" more "[]"] assms(1) l1
    by (simp add: Let_def d1)
  have loop2: "unbase64_loop (?e @ b64_encode [a, b] @ more) (length ?e + 4) 1 0 0 buf2 =
      Some (length ?e, length ws, ws @ [y, z])"
    using unbase64_loop_decodes [of ws "b64_encode [a, b]" 1 buf2 "length ?e + 4" "[]" more "[]"] assms(1) l2
    by (simp add: Let_def d2)
  have q: "b64_encode [a] = [b64 ! (bits24 a 0 0 div 2 ^ 18), b64 ! (bits24 a 0 0 div 2 ^ 12 mod 64),
        char_byte (CHR ''=''), char_byte (CHR ''='')]"
    "b64_encode [a, b] = [b64 ! (bits24 a b 0 div 2 ^ 18), b64 ! (bits24 a b 0 div 2 ^ 12 mod 64),
        b64 ! (bits24 a b 0 div 2 ^ 6 mod 64), char_byte (CHR ''='')]"
    by (simp_all add: Let_def)
  have m: "n mod 64 < 64" for n :: nat by simp
  have n: "length (?e @ [p, q, r, s]) = length ?e + 4" for p q r s by simp
  have idx: "length ?e + 4 - 1 = length ?e + 3" "length ?e + 4 - 2 = length ?e + 2" by simp_all
  have np: "b64 ! (bits24 a b 0 div 2 ^ 6 mod 64) = char_byte (CHR ''='') \<longleftrightarrow> False"
    using b64_no_pad [OF m] by simp
  have small: "length ?e + 4 < 4 \<longleftrightarrow> False" "INT_MAX < 3 * (length ?e + 4) \<longleftrightarrow> False"
    using assms(5) by (simp_all add: enc Let_def)
  have fin: "length ws + 3 - 2 = length (ws @ [a])" "length ws + 3 - 1 = length (ws @ [a, b])"
    by simp_all
  have nums: "(1 + 1 :: nat) = 2" "(1 :: nat) = 2 \<longleftrightarrow> False" "(0::nat) + 1 = 1" "(2::nat) = 1 \<longleftrightarrow> False"
    by simp_all
  have get: "arr_get (?e @ p # ys) (length ?e) = Some p"
    "arr_get (?e @ p # q # ys) (length ?e + 1) = Some q"
    "arr_get (?e @ p # q # r # ys) (length ?e + 2) = Some r"
    "arr_get (?e @ p # q # r # s # ys) (length ?e + 3) = Some s" for p q r s ys
    by (simp_all add: arr_get_def nth_append)
  note eval = n nums idx append_assoc append_Cons append_Nil get a small nums fl fin np simp_thms if_True if_False
    Let_def bind.bind_lunit option.case prod.case unb64_b64 [OF sextet_bounds] unb64_b64 [OF m]
    sextet_words decode_quartet arr_set_here
  show ?one
    unfolding enc unbase64_def
    using loop1 assms(3) by (simp only: eval q)
  show ?two
    unfolding enc unbase64_def
    using loop2 assms(4) by (simp only: eval q)
qed


text \<open>
  C30. Decoding inverts encoding: for every message of at least one and at most 536870910 bytes (beyond
  that the sizes overflow an \<open>int\<close>), as long as memory lasts, the string \<open>base64\<close> returns, passed to
  \<open>unbase64\<close> with the length \<open>base64\<close> reported, gives a block that holds exactly the message, and its
  length.
\<close>
theorem base64_roundtrip:
  assumes "allocates malloc" and mem: "\<forall>n. malloc n \<noteq> None"
    and "data \<noteq> []" and "length data \<le> 536870910"
  shows "\<exists>s flen. base64 malloc data (length data) = Some (Some s, flen) \<and>
    unbase64 malloc s flen = Some (Some data, length data)"
proof -
  have m: "\<exists>buf. malloc n = Some buf" for n using mem by simp
  obtain ws ts where data: "data = ws @ ts" "length ws mod 3 = 0" "length ts = length data mod 3"
    by (rule triples_and_tail)
  have "(length data + 2) div 3 \<le> (536870910 + 2) div 3" using assms(4) by (intro div_le_mono) simp
  then have le: "base64_size (length data) * 3 \<le> INT_MAX" by (simp add: base64_size_def INT_MAX_def)
  obtain buf where "malloc (base64_size (length data) + 1) = Some buf" using m by blast
  then have e: "base64 malloc data (length data) = Some (Some (b64_encode data @ [0]), length (b64_encode data))"
    using assms(1) le by (intro base64_encodes) simp_all
  have size: "3 * length (b64_encode xs) \<le> INT_MAX" if "(length xs + 2) div 3 = (length data + 2) div 3" for xs
    using le that by (simp add: b64_encode_length base64_size_def mult.commute)
  consider "ts = []" | a where "ts = [a]" | a b where "ts = [a, b]"
    using data(3) by (cases ts rule: b64_encode.cases) (auto, presburger?)
  then have "unbase64 malloc (b64_encode data @ [0]) (length (b64_encode data)) = Some (Some data, length data)"
  proof cases
    case 1
    obtain buf' where "malloc (length ws) = Some buf'" using m by blast
    with 1 data assms(1,3) size [of ws] show ?thesis by (simp add: unbase64_whole)
  next
    case (2 a)
    obtain buf1 buf2 where "malloc (length (ws @ [a])) = Some buf1" "malloc (length (ws @ [a, a])) = Some buf2"
      using m by blast
    moreover have "(length (ws @ [a, a]) + 2) div 3 = (length data + 2) div 3" using data(2) by (simp add: data(1) 2) presburger
    ultimately show ?thesis using unbase64_padded(1) [OF data(2) assms(1)] size [of "ws @ [a, a]"] by (simp add: data(1) 2)
  next
    case (3 a b)
    obtain buf1 buf2 where "malloc (length (ws @ [a])) = Some buf1" "malloc (length (ws @ [a, b])) = Some buf2"
      using m by blast
    with unbase64_padded(2) [OF data(2) assms(1)] size [of "ws @ [a, b]"] show ?thesis by (simp add: data(1) 3)
  qed
  with e show ?thesis by blast
qed

theorem base64_roundtrip_witness:
  "\<exists>s flen. base64 (\<lambda>n. Some (replicate n 0)) [0xff, 0, 0x61, 0x80] (length [0xff, 0, 0x61, 0x80 :: byte]) =
      Some (Some s, flen) \<and>
    unbase64 (\<lambda>n. Some (replicate n 0)) s flen =
      Some (Some [0xff, 0, 0x61, 0x80], length [0xff, 0, 0x61, 0x80 :: byte])"
  by (rule base64_roundtrip) (simp_all add: allocates_def)

text \<open>On any input the loop stays inside both buffers and stops at the last whole quartet.\<close>

lemma unbase64_loop_safe:
  assumes "len mod 4 = 0" "len \<le> length ascii" "pad \<le> 2" "4 * cb = 3 * charNo" "charNo mod 4 = 0"
    and "charNo + (if pad = 0 then 0 else 4) \<le> len" "length bin = 3 * len div 4 - pad"
  shows "\<exists>bin'. unbase64_loop ascii len pad charNo cb bin =
      Some (len - (if pad = 0 then 0 else 4), 3 * (len - (if pad = 0 then 0 else 4)) div 4, bin') \<and>
    length bin' = length bin"
  using assms
proof (induction ascii len pad charNo cb bin rule: unbase64_loop.induct)
  case (1 ascii len pad charNo cb bin)
  obtain m j where mj: "len = 4 * m" "charNo = 4 * j" "cb = 3 * j"
    using 1(2,5,6) by (auto simp: mod_eq_0_iff_dvd elim!: dvdE)
  have bin: "length bin = 3 * m - pad" using 1(8) by (simp add: mj)
  show ?case
  proof (cases "charNo + 4 + pad \<le> len")
    case True
    then have cb: "cb + 2 < length bin" and next_quartet: "charNo + 4 + (if pad = 0 then 0 else 4) \<le> len"
      unfolding bin using 1(4) by (auto simp: mj) presburger+
    from True 1(3) obtain a b c d where get: "arr_get ascii charNo = Some a"
      "arr_get ascii (charNo + 1) = Some b" "arr_get ascii (charNo + 2) = Some c"
      "arr_get ascii (charNo + 3) = Some d"
      by (simp add: arr_get_def)
    let ?b1 = "bin[cb := push_bit 2 (unb64 ! unat a) OR drop_bit 4 (unb64 ! unat b)]"
    let ?b2 = "?b1[cb + 1 := push_bit 4 (unb64 ! unat b) OR drop_bit 2 (unb64 ! unat c)]"
    let ?b3 = "?b2[cb + 2 := push_bit 6 (unb64 ! unat c) OR unb64 ! unat d]"
    have set: "arr_set bin cb (push_bit 2 (unb64 ! unat a) OR drop_bit 4 (unb64 ! unat b)) = Some ?b1"
      "arr_set ?b1 (cb + 1) (push_bit 4 (unb64 ! unat b) OR drop_bit 2 (unb64 ! unat c)) = Some ?b2"
      "arr_set ?b2 (cb + 2) (push_bit 6 (unb64 ! unat c) OR unb64 ! unat d) = Some ?b3"
      using cb by (simp_all add: arr_set_def)
    have "unbase64_loop ascii len pad charNo cb bin = unbase64_loop ascii len pad (charNo + 4) (cb + 3) ?b3"
      by (subst unbase64_loop.simps) (use True in \<open>simp only: get set if_True bind.bind_lunit Let_def\<close>)
    moreover have "\<exists>bin'. unbase64_loop ascii len pad (charNo + 4) (cb + 3) ?b3 =
        Some (len - (if pad = 0 then 0 else 4), 3 * (len - (if pad = 0 then 0 else 4)) div 4, bin') \<and>
        length bin' = length ?b3"
      using 1(2-8) next_quartet by (intro 1(1) [OF True get(1) get(2) get(3) get(4) refl refl refl refl set]) (simp_all add: mj)
    ultimately show ?thesis by simp
  next
    case False
    with 1(4,7) have "charNo = len - (if pad = 0 then 0 else 4)" "cb = 3 * charNo div 4"
      by (auto simp: mj split: if_splits, presburger)
    with False show ?thesis by (subst unbase64_loop.simps) simp
  qed
qed


text \<open>
  \<open>unbase64\<close> is safe on any input, well-formed or not: whatever the characters and the
  length (short, misaligned or with \<open>=\<close> anywhere), it reads only inside the string and writes only
  inside the block it allocates, and it either returns no block or one of exactly the length
  it reports.
\<close>
theorem unbase64_safe:
  assumes "allocates malloc" and "len \<le> length ascii" and "3 * len \<le> INT_MAX"
  shows "\<exists>r flen. unbase64 malloc ascii len = Some (r, flen) \<and> (\<forall>bin. r = Some bin \<longrightarrow> length bin = flen)"
proof (cases "len < 4 \<or> len AND 3 \<noteq> 0")
  case True
  then show ?thesis by (simp add: unbase64_def)
next
  case False
  then have len: "4 \<le> len" "len mod 4 = 0" by (auto simp: and_3)
  from len assms(2) have "len - 1 < length ascii" "len - 2 < length ascii" by linarith+
  then obtain z1 z2 where z: "arr_get ascii (len - 1) = Some z1" "arr_get ascii (len - 2) = Some z2"
    by (simp only: arr_get_Some)
  define pad where "pad = (if z2 = char_byte (CHR ''='') then (if z1 = char_byte (CHR ''='') then 1 else 0) + 1
    else if z1 = char_byte (CHR ''='') then 1 else 0 :: nat)"
  have pad: "pad \<le> 2" by (simp add: pad_def)
  show ?thesis
  proof (cases "malloc (3 * len div 4 - pad)")
    case None
    then show ?thesis using False z assms(3) by (simp add: unbase64_def Let_def flip: pad_def)
  next
    case (Some buf)
    then have buf: "length buf = 3 * len div 4 - pad" using assms(1) by (simp add: allocates_def)
    have "(if pad = 0 then 0 else 4) \<le> len" using len(1) by simp
    with unbase64_loop_safe [OF len(2) assms(2) pad, of 0 0 buf] buf
    obtain bin where loop: "unbase64_loop ascii len pad 0 0 buf =
        Some (len - (if pad = 0 then 0 else 4), 3 * (len - (if pad = 0 then 0 else 4)) div 4, bin)"
      "length bin = 3 * len div 4 - pad"
      by auto
    obtain k where k: "len = 4 * k + 4"
      using len by (metis add.commute le_Suc_ex mod_eq_0_iff_dvd dvd_def dvd_add_right_iff dvd_refl)
    let ?run = "unbase64 malloc ascii len"
    consider "pad = 0" | "pad = 1" | "pad = 2" using pad by linarith
    then show ?thesis
      using False z assms(2,3) Some loop unfolding unbase64_def Let_def
      by cases (simp_all add: k arr_get_def arr_set_def flip: pad_def)
  qed
qed

theorem unbase64_safe_witness:
  "\<exists>r flen. unbase64 (\<lambda>n. Some (replicate n 0)) [0x3d, 0x3d, 0x3d, 0x3d, 7] 4 = Some (r, flen) \<and>
    (\<forall>bin. r = Some bin \<longrightarrow> length bin = flen)"
  by (rule unbase64_safe) (simp_all add: allocates_def INT_MAX_def)

end
