(* ===== verification/Cstring.thy ===== *)
theory Cstring
  imports Prelude
begin

text \<open>
  C strings: what the string components use of the standard library, \<open>compat/compat_strl.c\<close>, and
  the allocator as a counter.

  A \<open>const char *\<close> that is only read and only moves forward is the list of bytes from it to the
  end of its buffer: \<open>p++\<close> drops the head, \<open>*p\<close> is the head and faults on \<open>[]\<close>. A string that is
  written is a buffer and an index. Library functions fault (\<open>None\<close>) where they would read past
  the end of the buffer, so a result \<open>Some\<close> says that the terminator was met in time.
\<close>

section \<open>The standard library\<close>

text \<open>The string held by a buffer: the bytes before the first zero.\<close>

definition cstr :: "byte list \<Rightarrow> byte list" where
  "cstr s = takeWhile (\<lambda>c. c \<noteq> 0) s"

definition terminated :: "byte list \<Rightarrow> bool" where
  "terminated s \<longleftrightarrow> 0 \<in> set s"

fun deref :: "byte list \<Rightarrow> byte option" where
  "deref [] = None"
| "deref (c # s) = Some c"

fun strlen :: "byte list \<Rightarrow> nat option" where
  "strlen [] = None"
| "strlen (c # s) = (if c = 0 then Some 0 else map_option Suc (strlen s))"

text \<open>\<open>strchr\<close> and \<open>strstr\<close>: the inner option is the pointer returned, \<open>None\<close> for \<open>NULL\<close>.\<close>

fun strchr :: "byte list \<Rightarrow> byte \<Rightarrow> byte list option option" where
  "strchr [] c = None"
| "strchr (x # s) c = (if x = c then Some (Some (x # s)) else if x = 0 then Some None else strchr s c)"

fun match_at :: "byte list \<Rightarrow> byte list \<Rightarrow> bool option" where
  "match_at h [] = None"
| "match_at [] (d # n) = (if d = 0 then Some True else None)"
| "match_at (c # h) (d # n) =
     (if d = 0 then Some True else if c = d then match_at h n else Some False)"

fun strstr :: "byte list \<Rightarrow> byte list \<Rightarrow> byte list option option" where
  "strstr [] n = None"
| "strstr (c # h) n = do {
     m \<leftarrow> match_at (c # h) n;
     if m then Some (Some (c # h)) else if c = 0 then Some None else strstr h n }"

definition tolower :: "byte \<Rightarrow> byte" where
  "tolower c = (if 0x41 \<le> c \<and> c \<le> 0x5a then c + 32 else c)"

definition toupper :: "byte \<Rightarrow> byte" where
  "toupper c = (if 0x61 \<le> c \<and> c \<le> 0x7a then c - 32 else c)"

text \<open>\<open>strdup\<close>'s copy: the string and its terminator.\<close>

definition dup_string :: "byte list \<Rightarrow> byte list option" where
  "dup_string s = map_option (\<lambda>n. take n s @ [0]) (strlen s)"

section \<open>\<open>strlcpy\<close> and \<open>strlcat\<close>\<close>

text \<open>The destination is the buffer \<open>s\<close> from index \<open>off\<close> on.\<close>

definition strlcpy :: "byte list \<Rightarrow> nat \<Rightarrow> byte list \<Rightarrow> nat \<Rightarrow> (byte list \<times> nat) option" where
  "strlcpy s off src len = do {
     src_len \<leftarrow> strlen src;
     s \<leftarrow> (if len \<noteq> 0
          then do {
            let cpy_len = (if src_len < len - 1 then src_len else len - 1);
            s \<leftarrow> mem_write s off (take cpy_len src);
            arr_set s (off + cpy_len) 0 }
          else Some s);
     Some (s, src_len) }"

text \<open>\<open>memchr(s, 0, len)\<close>, as the distance found.\<close>

definition memchr0 :: "byte list \<Rightarrow> nat \<Rightarrow> nat option option" where
  "memchr0 s len =
     (let k = length (cstr (take len s)) in
      if k < length (take len s) then Some (Some k) else if length s < len then None else Some None)"

definition strlcat :: "byte list \<Rightarrow> byte list \<Rightarrow> nat \<Rightarrow> (byte list \<times> nat) option" where
  "strlcat s source len = do {
     nul \<leftarrow> memchr0 s len;
     let dst_len = (case nul of Some k \<Rightarrow> k | None \<Rightarrow> len);
     if dst_len = len then map_option (\<lambda>n. (s, len + n)) (strlen source)
     else do {
       (s, n) \<leftarrow> strlcpy s dst_len source (len - dst_len);
       Some (s, dst_len + n) } }"

section \<open>The allocator\<close>

text \<open>
  \<open>outcomes\<close> says which of the next allocations succeed (those beyond the list do); \<open>blocks\<close>
  counts the blocks allocated and not yet freed.
\<close>

record mem =
  outcomes :: "bool list"
  blocks :: int

definition alloc :: "mem \<Rightarrow> bool \<times> mem" where
  "alloc m = (case outcomes m of
     [] \<Rightarrow> (True, m\<lparr>blocks := blocks m + 1\<rparr>)
   | b # bs \<Rightarrow> (b, m\<lparr>outcomes := bs, blocks := blocks m + (if b then 1 else 0)\<rparr>))"

text \<open>\<open>realloc\<close>: the block count grows only when there was no block before.\<close>

definition realloc :: "bool \<Rightarrow> mem \<Rightarrow> bool \<times> mem" where
  "realloc had_block m = (let (ok, m') = alloc m in
     (ok, if ok \<and> had_block then m'\<lparr>blocks := blocks m' - 1\<rparr> else m'))"

definition release :: "mem \<Rightarrow> mem" where
  "release m = m\<lparr>blocks := blocks m - 1\<rparr>"

text \<open>No allocation fails.\<close>

definition plenty :: "mem \<Rightarrow> bool" where
  "plenty m \<longleftrightarrow> list_all id (outcomes m)"

lemma alloc_cases:
  obtains m' where "alloc m = (True, m')" "blocks m' = blocks m + 1" "plenty m \<Longrightarrow> plenty m'"
  | m' where "alloc m = (False, m')" "blocks m' = blocks m" "\<not> plenty m"
  by (cases "outcomes m") (auto simp: alloc_def plenty_def split: if_splits)

lemma realloc_cases:
  obtains m' where "realloc h m = (True, m')" "blocks m' = blocks m + (if h then 0 else 1)"
    "plenty m \<Longrightarrow> plenty m'"
  | m' where "realloc h m = (False, m')" "blocks m' = blocks m" "\<not> plenty m"
  by (rule alloc_cases [of m]) (auto simp: realloc_def plenty_def)

lemma release_simps [simp]: "blocks (release m) = blocks m - 1" "outcomes (release m) = outcomes m"
  "plenty (release m) = plenty m"
  by (simp_all add: release_def plenty_def)

section \<open>Lemmas on strings\<close>

lemma cstr_simps [simp]: "cstr [] = []" "cstr (c # s) = (if c = 0 then [] else c # cstr s)"
  by (simp_all add: cstr_def)

lemma terminated_simps [simp]: "\<not> terminated []" "terminated (c # s) \<longleftrightarrow> c = 0 \<or> terminated s"
  by (auto simp: terminated_def)

lemma terminated_append [simp]: "terminated (s @ t) \<longleftrightarrow> terminated s \<or> terminated t"
  by (auto simp: terminated_def)

lemma cstr_no_zero [simp]: "0 \<notin> set (cstr s)"
  by (induction s) auto

lemma cstr_append: "0 \<notin> set s \<Longrightarrow> cstr (s @ t) = s @ cstr t"
  by (induction s) auto

lemma cstr_closed [simp]: "cstr (s @ [0]) = cstr s"
  by (induction s) auto

lemma cstr_id: "0 \<notin> set s \<Longrightarrow> cstr s = s"
  using cstr_append [of s "[]"] by simp

lemma cstr_cstr [simp]: "cstr (cstr s) = cstr s"
  by (rule cstr_id) simp

lemma terminated_split: "terminated s \<Longrightarrow> \<exists>t. s = cstr s @ 0 # t"
  by (induction s) auto

lemma cstr_shorter: "length (cstr s) < length s \<Longrightarrow> terminated s"
  by (induction s) (auto split: if_splits)

text \<open>A terminated buffer is its string, the terminator and what follows.\<close>

lemma terminatedE:
  assumes "terminated s"
  obtains x t where "s = x @ 0 # t" "0 \<notin> set x" "cstr s = x"
  using terminated_split [OF assms] cstr_no_zero by metis

lemma strlen_terminated: "terminated s \<Longrightarrow> strlen s = Some (length (cstr s))"
  by (induction s) auto

lemma strlen_string [simp]: "0 \<notin> set x \<Longrightarrow> strlen (x @ 0 # t) = Some (length x)"
  using strlen_terminated [of "x @ 0 # t"] by (simp add: cstr_append)

lemma take_cstr: "take (length (cstr s)) s = cstr s"
  by (induction s) simp_all

lemma dup_string_terminated: "terminated s \<Longrightarrow> dup_string s = Some (cstr s @ [0])"
  by (simp add: dup_string_def strlen_terminated take_cstr)

text \<open>\<open>strchr\<close> decides membership.\<close>

lemma strchr_member:
  "terminated s \<Longrightarrow> c \<noteq> 0 \<Longrightarrow> \<exists>r. strchr s c = Some r \<and> (r \<noteq> None \<longleftrightarrow> c \<in> set (cstr s))"
  by (induction s) auto

lemma match_at_prefix:
  "terminated n \<Longrightarrow> terminated h \<Longrightarrow> match_at h n = Some (take (length (cstr n)) (cstr h) = cstr n)"
proof (induction n arbitrary: h)
  case (Cons d n)
  then obtain c h' where h: "h = c # h'" by (cases h) auto
  show ?case
  proof (cases "d \<noteq> 0 \<and> c = d")
    case True
    with Cons.prems h have "terminated n" "terminated h'" by auto
    with Cons.IH True h show ?thesis by simp
  qed (auto simp: h)
qed simp

text \<open>\<open>strstr\<close> finds the first place where the whole of \<open>n\<close> follows.\<close>

fun find_sub :: "'a list \<Rightarrow> 'a list \<Rightarrow> nat option" where
  "find_sub n [] = (if n = [] then Some 0 else None)"
| "find_sub n (c # s) =
     (if take (length n) (c # s) = n then Some 0 else map_option Suc (find_sub n s))"

lemma find_sub_found:
  "find_sub n s = Some k \<Longrightarrow> k + length n \<le> length s \<and> take (length n) (drop k s) = n"
proof (induction n s arbitrary: k rule: find_sub.induct)
  case (2 n c s)
  show ?case
  proof (cases "take (length n) (c # s) = n")
    case True
    then have "length n \<le> length (c # s)" by (metis length_take min.cobounded1)
    with 2(2) True show ?thesis by simp
  qed (use 2 in auto)
qed (auto split: if_splits)

lemma strstr_find_sub:
  assumes "terminated n"
  shows "0 \<notin> set x \<Longrightarrow> strstr (x @ 0 # t) n = Some (map_option (\<lambda>k. drop k x @ 0 # t) (find_sub (cstr n) x))"
proof (induction x)
  case Nil
  then show ?case
    using match_at_prefix [OF assms, of "0 # t"] by (auto simp del: match_at.simps)
next
  case (Cons c x)
  have "match_at (c # x @ 0 # t) n = Some (take (length (cstr n)) (c # x) = cstr n)"
    using match_at_prefix [OF assms, of "(c # x) @ 0 # t"] Cons.prems by (simp add: cstr_append)
  with Cons show ?case by (auto simp: option.map_comp comp_def)
qed

text \<open>The strings of a list with a separator between them.\<close>

fun join_strings :: "'a list \<Rightarrow> 'a list list \<Rightarrow> 'a list" where
  "join_strings d [] = []"
| "join_strings d [x] = x"
| "join_strings d (x # y # xs) = x @ d @ join_strings d (y # xs)"

lemma join_strings_Cons:
  "join_strings d (x # xs) = x @ (if xs = [] then [] else d @ join_strings d xs)"
  by (cases xs) simp_all

section \<open>\<open>strlcpy\<close> and \<open>strlcat\<close> truncate\<close>

lemma strlcpy_result:
  assumes "terminated src" "0 < len" "off + len \<le> length s"
  shows "strlcpy s off src len =
    Some (take off s @ take (len - 1) (cstr src) @ 0 #
            drop (off + length (take (len - 1) (cstr src)) + 1) s, length (cstr src))"
proof -
  let ?k = "if length (cstr src) < len - 1 then length (cstr src) else len - 1"
  obtain x t where src: "src = x @ 0 # t" "cstr src = x" using assms(1) by (rule terminatedE)
  define y where "y = take (len - 1) x"
  have y: "take ?k src = y" "length y = ?k" using src(2) by (auto simp: src(1) y_def)
  have fits: "off + length y < length s" using assms(2,3) y(2) by auto
  then have d: "drop (off + length y) s = s ! (off + length y) # drop (off + length y + 1) s"
    by (metis Cons_nth_drop_Suc Suc_eq_plus1)
  have w: "mem_write s off y = Some (take off s @ y @ drop (off + length y) s)"
    using fits by (simp add: buf_simps)
  have o: "off = length (take off s)" using fits by simp
  have "arr_set (take off s @ y @ drop (off + length y) s) (off + length y) 0 =
      Some (take off s @ y @ 0 # drop (off + length y + 1) s)"
    using fits unfolding d by (simp add: arr_set_def list_update_append)
  then show ?thesis
    unfolding strlcpy_def Let_def strlen_terminated [OF assms(1)] src(2)
    using assms(2) w y unfolding src(2) by (simp add: Let_def y_def)
qed

text \<open>Copying to the end of the string a buffer holds.\<close>

lemma strlcpy_at_end:
  assumes "terminated source" "length (cstr s) < len" "len \<le> length s"
  shows "\<exists>s'. strlcpy s (length (cstr s)) source (len - length (cstr s)) = Some (s', length (cstr source)) \<and>
    length s' = length s \<and> cstr s' = take (len - 1) (cstr s @ cstr source) \<and> terminated (take len s')"
proof -
  let ?d = "cstr s"
  define y where "y = take (len - length ?d - 1) (cstr source)"
  define z where "z = drop (length ?d + length y + 1) s"
  have y: "0 \<notin> set y" "length ?d + length y < len"
    using assms(2) by (auto simp: y_def dest: in_set_takeD)
  have "strlcpy s (length ?d) source (len - length ?d) = Some (?d @ y @ 0 # z, length (cstr source))"
    using strlcpy_result [OF assms(1), of "len - length ?d" "length ?d" s] assms(2,3)
    by (simp add: take_cstr y_def z_def)
  moreover have "terminated (take len (?d @ y @ 0 # z))"
    using y(2) by (simp add: terminated_def take_Cons')
  moreover have "cstr (?d @ y @ 0 # z) = take (len - 1) (?d @ cstr source)"
    using y(1) assms(2) by (simp add: cstr_append y_def)
  moreover have "length (?d @ y @ 0 # z) = length s"
    using y(2) assms(3) by (simp add: z_def)
  ultimately show ?thesis by blast
qed

lemma cstr_take_terminated: "terminated (take len s) \<Longrightarrow> cstr (take len s) = cstr s \<and> length (cstr s) < len"
proof -
  assume "terminated (take len s)"
  then obtain x t where t: "take len s = x @ 0 # t" "0 \<notin> set x" "cstr (take len s) = x"
    by (rule terminatedE)
  then have "s = x @ 0 # t @ drop len s" by (metis append_Cons append_assoc append_take_drop_id)
  then have "cstr s = x" using t(2) by (metis cstr_append cstr_simps(2) append_Nil2)
  moreover have "length x < len" using arg_cong [OF t(1), of length] by simp
  ultimately show ?thesis using t(3) by simp
qed

text \<open>
  \<open>strlcat\<close> appends within its size: for a terminated destination string that fits in \<open>len\<close>
  bytes, the buffer then holds the first \<open>len - 1\<close> bytes of the concatenation, terminated, keeps
  its length, and the result is the length of the whole concatenation, so truncation shows.
\<close>
theorem strlcat_truncates:
  assumes "terminated source" "terminated (take len s)" "len \<le> length s"
  shows "\<exists>s'. strlcat s source len = Some (s', length (cstr s) + length (cstr source)) \<and>
    cstr s' = take (len - 1) (cstr s @ cstr source) \<and> terminated (take len s') \<and> length s' = length s"
proof -
  note d = cstr_take_terminated [OF assms(2)]
  have "length (cstr (take len s)) < length (take len s)"
    using d assms(3) by simp
  then have "memchr0 s len = Some (Some (length (cstr s)))"
    using d by (simp add: memchr0_def Let_def)
  with strlcpy_at_end [OF assms(1) _ assms(3)] d show ?thesis
    by (auto simp: strlcat_def Let_def)
qed

theorem strlcat_truncates_witness:
  "\<exists>s'. strlcat [0x61, 0, 1, 1, 1] [0x62, 0x63, 0x64, 0] 4 =
      Some (s', length (cstr [0x61, 0, 1, 1, 1]) + length (cstr [0x62, 0x63, 0x64, 0])) \<and>
    cstr s' = take (4 - 1) (cstr [0x61, 0, 1, 1, 1] @ cstr [0x62, 0x63, 0x64, 0]) \<and>
    terminated (take 4 s') \<and> length s' = length [0x61, 0, 1, 1, 1 :: byte]"
  by (rule strlcat_truncates) simp_all

end
