(* ===== verification/OwnedList.thy ===== *)
theory OwnedList
  imports Cstring
begin

text \<open>
  The interface of the growable containers: adding an element either appends it or reports
  failure and keeps the contents, and in both cases the blocks of the heap are accounted for.
  Proved for a sequence of additions that stops at the first failure, as the splitting and
  copying loops do.
\<close>

fun push_all :: "('l \<Rightarrow> 'x \<Rightarrow> mem \<Rightarrow> (bool \<times> 'l \<times> mem) option) \<Rightarrow> 'l \<Rightarrow> 'x list \<Rightarrow> mem \<Rightarrow>
    (bool \<times> 'l \<times> mem) option" where
  "push_all push l [] m = Some (True, l, m)"
| "push_all push l (x # xs) m = do {
     (ok, l, m) \<leftarrow> push l x m;
     if ok then push_all push l xs m else Some (False, l, m) }"

locale growable =
  fixes rep :: "'l \<Rightarrow> 'y list \<Rightarrow> bool"
    and owned :: "'l \<Rightarrow> 'y list \<Rightarrow> int"
    and push :: "'l \<Rightarrow> 'x \<Rightarrow> mem \<Rightarrow> (bool \<times> 'l \<times> mem) option"
    and stored :: "'x \<Rightarrow> 'y"
    and fits :: "'x \<Rightarrow> bool"
    and limit :: nat
  assumes push: "rep l ys \<Longrightarrow> fits x \<Longrightarrow> \<exists>ok l' m'. push l x m = Some (ok, l', m') \<and>
    rep l' (if ok then ys @ [stored x] else ys) \<and>
    blocks m' - owned l' (if ok then ys @ [stored x] else ys) = blocks m - owned l ys \<and>
    (plenty m \<and> length ys < limit \<longrightarrow> ok \<and> plenty m')"
begin

lemma push_all_appends:
  "rep l ys \<Longrightarrow> \<forall>x\<in>set xs. fits x \<Longrightarrow> \<exists>ok l' m' k. push_all push l xs m = Some (ok, l', m') \<and>
    k \<le> length xs \<and> (ok \<longrightarrow> k = length xs) \<and> rep l' (ys @ map stored (take k xs)) \<and>
    blocks m' - owned l' (ys @ map stored (take k xs)) = blocks m - owned l ys \<and>
    (plenty m \<and> length ys + length xs \<le> limit \<longrightarrow> ok)"
proof (induction xs arbitrary: l ys m)
  case Nil
  then show ?case by auto
next
  case (Cons x xs)
  obtain ok l' m' where p: "push l x m = Some (ok, l', m')"
    "rep l' (if ok then ys @ [stored x] else ys)"
    "blocks m' - owned l' (if ok then ys @ [stored x] else ys) = blocks m - owned l ys"
    "plenty m \<and> length ys < limit \<longrightarrow> ok \<and> plenty m'"
    using push [OF Cons.prems(1), of x m] Cons.prems(2) by auto
  show ?case
  proof (cases ok)
    case True
    with p(2) have "rep l' (ys @ [stored x])" by simp
    from Cons.IH [OF this, of m'] Cons.prems(2) obtain ok' l'' m'' k where
      q: "push_all push l' xs m' = Some (ok', l'', m'')" "k \<le> length xs" "ok' \<longrightarrow> k = length xs"
      "rep l'' ((ys @ [stored x]) @ map stored (take k xs))"
      "blocks m'' - owned l'' ((ys @ [stored x]) @ map stored (take k xs)) =
        blocks m' - owned l' (ys @ [stored x])"
      "plenty m' \<and> length (ys @ [stored x]) + length xs \<le> limit \<longrightarrow> ok'"
      by auto
    have "push_all push l (x # xs) m = Some (ok', l'', m'')" using p(1) q(1) True by simp
    then show ?thesis
      using q(2-6) p(3,4) True by (intro exI [of _ ok'] exI [of _ l''] exI [of _ m''] exI [of _ "Suc k"]) auto
  next
    case False
    then have "push_all push l (x # xs) m = Some (False, l', m')" using p(1) by simp
    then show ?thesis
      using p(2-4) False
      by (intro exI [of _ False] exI [of _ l'] exI [of _ m'] exI [of _ "0 :: nat"]) auto
  qed
qed

end

end
