(* ===== verification/StringList.thy ===== *)
theory StringList
  imports OwnedList
begin

text \<open>
  \<open>lists/string_list.c\<close>: the growable array of owned strings, the splitting of a string into
  such a list, and the searches and joins over it.

  A block the list owns is a value (\<open>data\<close> is the bytes of the string, \<open>None\<close> for \<open>NULL\<close>); the slots
  of \<open>elems\<close> that no store has reached are \<open>None\<close> and reading one is a fault. The union \<open>attr\<close> is the
  member last stored. \<open>mem\<close> decides the allocations and counts the blocks, so that leaks show.
\<close>

section \<open>The code\<close>

datatype string_list_elem_attr = Attr_b bool | Attr_i "32 word" | Attr_p ptr

record string_list_elem =
  el_data :: "byte list option"
  el_userdata :: ptr
  el_attr :: string_list_elem_attr

record string_list =
  sl_elems :: "string_list_elem option list option"
  sl_size :: nat
  sl_cap :: nat

definition sizeof_string_list_elem :: nat where
  "sizeof_string_list_elem = 24"

text \<open>An element as \<open>calloc\<close> leaves it.\<close>

definition zero_elem :: string_list_elem where
  "zero_elem = \<lparr>el_data = None, el_userdata = NULL, el_attr = Attr_i 0\<rparr>"

definition elem_at :: "string_list \<Rightarrow> nat \<Rightarrow> string_list_elem option" where
  "elem_at l i = do { es \<leftarrow> sl_elems l; e \<leftarrow> arr_get es i; e }"

definition set_elem :: "string_list \<Rightarrow> nat \<Rightarrow> string_list_elem \<Rightarrow> string_list option" where
  "set_elem l i e = do {
     es \<leftarrow> sl_elems l;
     es \<leftarrow> arr_set es i (Some e);
     Some (l\<lparr>sl_elems := Some es\<rparr>) }"

text \<open>The release loop; its bound is the size cast to \<open>unsigned\<close>.\<close>

function free_elems_loop :: "string_list \<Rightarrow> nat \<Rightarrow> nat \<Rightarrow> mem \<Rightarrow> mem option" where
  "free_elems_loop l n i m =
     (if i < n
      then do {
        e \<leftarrow> elem_at l i;
        let m = (if el_data e \<noteq> None then release m else m);
        let m = (if el_userdata e \<noteq> NULL then release m else m);
        free_elems_loop l n (i + 1) m }
      else Some m)"
  by pat_completeness auto
termination by (relation "measure (\<lambda>(l, n, i, m). n - i)") auto

declare free_elems_loop.simps [simp del]

definition string_list_deinitialize_internal ::
    "string_list option \<Rightarrow> mem \<Rightarrow> (bool \<times> string_list option \<times> mem) option" where
  "string_list_deinitialize_internal list m = (case list of
     None \<Rightarrow> Some (False, None, m)
   | Some l \<Rightarrow> do {
       m \<leftarrow> (if sl_elems l \<noteq> None
            then do {
              m \<leftarrow> free_elems_loop l (sl_size l mod 2 ^ 32) 0 m;
              Some (release m) }
            else Some m);
       Some (True, Some (l\<lparr>sl_elems := None\<rparr>), m) })"

definition string_list_capacity ::
    "string_list option \<Rightarrow> nat \<Rightarrow> mem \<Rightarrow> bool \<times> string_list option \<times> mem" where
  "string_list_capacity list cap m = (case list of
     None \<Rightarrow> (False, None, m)
   | Some l \<Rightarrow>
       if cap < sl_size l \<or> cap = 0 then (False, Some l, m)
       else if cap > SIZE_MAX div sizeof_string_list_elem then (False, Some l, m)
       else let (ok, m) = realloc (sl_elems l \<noteq> None) m in
         if \<not> ok then (False, Some l, m)
         else let old = (case sl_elems l of None \<Rightarrow> [] | Some es \<Rightarrow> es);
                  new_data = take cap old @ replicate (cap - length old) None in
           (True, Some (l\<lparr>sl_elems := Some new_data, sl_cap := cap\<rparr>), m))"

definition string_list_free :: "string_list option \<Rightarrow> mem \<Rightarrow> mem option" where
  "string_list_free list m = (case list of
     None \<Rightarrow> Some m
   | Some l \<Rightarrow> do {
       (b, l', m) \<leftarrow> string_list_deinitialize_internal (Some l) m;
       Some (release m) })"

definition string_list_deinitialize ::
    "string_list option \<Rightarrow> mem \<Rightarrow> (bool \<times> string_list option \<times> mem) option" where
  "string_list_deinitialize list m = (case list of
     None \<Rightarrow> Some (False, None, m)
   | Some l \<Rightarrow> do {
       (b, l', m) \<leftarrow> string_list_deinitialize_internal (Some l) m;
       if \<not> b then Some (False, l', m)
       else Some (True, map_option (\<lambda>l. l\<lparr>sl_elems := None, sl_size := 0, sl_cap := 0\<rparr>) l', m) })"

definition string_list_new :: "mem \<Rightarrow> string_list option \<times> mem" where
  "string_list_new m = (let (ok, m) = alloc m in
     if \<not> ok then (None, m)
     else let (ok, m) = alloc m in
       if \<not> ok then (None, release m)
       else (Some \<lparr>sl_elems = Some (replicate 32 (Some zero_elem)), sl_size = 0, sl_cap = 32\<rparr>, m))"

definition string_list_initialize ::
    "string_list option \<Rightarrow> mem \<Rightarrow> (bool \<times> string_list option \<times> mem) option" where
  "string_list_initialize list m = (case list of
     None \<Rightarrow> Some (False, None, m)
   | Some l \<Rightarrow> (let (ok, m) = alloc m in
       if \<not> ok
       then do {
         (b, l, m) \<leftarrow> string_list_deinitialize (Some l) m;
         Some (False, l, m) }
       else Some (True, Some (l\<lparr>sl_elems := Some (replicate 32 (Some zero_elem)),
              sl_size := 0, sl_cap := 32\<rparr>), m)))"

text \<open>Making room for one element: the first lines of both append functions.\<close>

definition string_list_grow :: "string_list \<Rightarrow> mem \<Rightarrow> (bool \<times> string_list \<times> mem) option" where
  "string_list_grow l m =
     (if sl_size l \<ge> sl_cap l
      then if sl_cap l > SIZE_MAX div 2 then Some (False, l, m)
        else (case string_list_capacity (Some l) (if sl_cap l > 0 then sl_cap l * 2 else 32) m of
            (ok, Some l', m) \<Rightarrow> Some (ok, l', m)
          | (ok, None, m) \<Rightarrow> None)
      else Some (True, l, m))"

definition store_new_elem :: "string_list \<Rightarrow> byte list \<Rightarrow> string_list_elem_attr \<Rightarrow> string_list option" where
  "store_new_elem l dup a = do {
     l \<leftarrow> set_elem l (sl_size l) \<lparr>el_data = Some dup, el_userdata = NULL, el_attr = a\<rparr>;
     Some (l\<lparr>sl_size := sl_size l + 1\<rparr>) }"

definition string_list_append ::
    "string_list \<Rightarrow> byte list \<Rightarrow> string_list_elem_attr \<Rightarrow> mem \<Rightarrow> (bool \<times> string_list \<times> mem) option" where
  "string_list_append l elem a m = do {
     (ok, l, m) \<leftarrow> string_list_grow l m;
     if \<not> ok then Some (False, l, m)
     else do {
       data_dup \<leftarrow> dup_string elem;
       let (ok, m) = alloc m in
       if \<not> ok then Some (False, l, m)
       else do {
         l \<leftarrow> store_new_elem l data_dup a;
         Some (True, l, m) } } }"

definition string_list_append_n ::
    "string_list \<Rightarrow> byte list \<Rightarrow> nat \<Rightarrow> string_list_elem_attr \<Rightarrow> mem \<Rightarrow>
     (bool \<times> string_list \<times> mem) option" where
  "string_list_append_n l elem len a m = do {
     (ok, l, m) \<leftarrow> string_list_grow l m;
     if \<not> ok then Some (False, l, m)
     else if len = SIZE_MAX then Some (False, l, m)
     else let (ok, m) = alloc m in
       if \<not> ok then Some (False, l, m)
       else do {
         bytes \<leftarrow> mem_read elem 0 len;
         l \<leftarrow> store_new_elem l (bytes @ [0]) a;
         Some (True, l, m) } }"

text \<open>Joining: the loop of both join functions.\<close>

function join_loop :: "string_list \<Rightarrow> nat \<Rightarrow> byte list \<Rightarrow> nat \<Rightarrow> nat \<Rightarrow> byte list \<Rightarrow> nat \<Rightarrow>
  byte list option" where
  "join_loop l len delim dlen i s pos =
     (if i < sl_size l
      then do {
        e \<leftarrow> elem_at l i;
        d \<leftarrow> el_data e;
        elen \<leftarrow> strlen d;
        if pos + elen \<ge> len
        then do { (s, n) \<leftarrow> strlcpy s pos d (len - pos); Some s }
        else do {
          (s, n) \<leftarrow> strlcpy s pos d (len - pos);
          let pos = pos + n;
          if i + 1 < sl_size l
          then if pos + dlen \<ge> len
            then do { (s, n) \<leftarrow> strlcpy s pos delim (len - pos); Some s }
            else do {
              (s, n) \<leftarrow> strlcpy s pos delim (len - pos);
              join_loop l len delim dlen (i + 1) s (pos + n) }
          else join_loop l len delim dlen (i + 1) s pos } }
      else Some s)"
  by pat_completeness auto
termination by (relation "measure (\<lambda>(l, len, delim, dlen, i, s, pos). sl_size l - i)") auto

declare join_loop.simps [simp del]

definition string_list_join_concat ::
    "byte list \<Rightarrow> nat \<Rightarrow> string_list \<Rightarrow> byte list \<Rightarrow> byte list option" where
  "string_list_join_concat s len list delim = do {
     pos \<leftarrow> strlen s;
     if pos < len
     then do {
       dlen \<leftarrow> strlen delim;
       join_loop list len delim dlen 0 s pos }
     else Some s }"

definition string_list_join_concat_special ::
    "byte list \<Rightarrow> nat \<Rightarrow> string_list \<Rightarrow> byte list \<Rightarrow> byte list option" where
  "string_list_join_concat_special s len list delim = do {
     pos \<leftarrow> strlen s;
     if pos < len
     then do {
       dlen \<leftarrow> strlen delim;
       join_loop list len delim dlen 0 s pos }
     else Some s }"

text \<open>Splitting.\<close>

fun string_count_tokens_loop :: "byte list \<Rightarrow> byte list \<Rightarrow> bool \<Rightarrow> nat \<Rightarrow> nat option" where
  "string_count_tokens_loop [] delim in_tok count = None"
| "string_count_tokens_loop (c # p) delim in_tok count =
     (if c = 0 then Some count
      else do {
        r \<leftarrow> strchr delim c;
        if r \<noteq> None then string_count_tokens_loop p delim False count
        else if \<not> in_tok then string_count_tokens_loop p delim True (count + 1)
        else string_count_tokens_loop p delim in_tok count })"

definition string_count_tokens :: "byte list \<Rightarrow> byte list \<Rightarrow> nat option" where
  "string_count_tokens str delim = string_count_tokens_loop str delim False 0"

fun skip_delims :: "byte list \<Rightarrow> byte list \<Rightarrow> byte list option" where
  "skip_delims delim [] = None"
| "skip_delims delim (c # p) =
     (if c = 0 then Some (c # p)
      else do { r \<leftarrow> strchr delim c; if r \<noteq> None then skip_delims delim p else Some (c # p) })"

fun skip_token :: "byte list \<Rightarrow> byte list \<Rightarrow> byte list option" where
  "skip_token delim [] = None"
| "skip_token delim (c # p) =
     (if c = 0 then Some (c # p)
      else do { r \<leftarrow> strchr delim c; if r = None then skip_token delim p else Some (c # p) })"

partial_function (option) string_split_loop ::
    "byte list \<Rightarrow> byte list \<Rightarrow> string_list \<Rightarrow> mem \<Rightarrow> (string_list option \<times> mem) option" where
  "string_split_loop delim p l m = do {
     c \<leftarrow> deref p;
     if c = 0 then Some (Some l, m)
     else do {
       tok \<leftarrow> skip_delims delim p;
       c \<leftarrow> deref tok;
       if c = 0 then Some (Some l, m)
       else do {
         p \<leftarrow> skip_token delim tok;
         (ok, l, m) \<leftarrow> string_list_append_n l tok (length tok - length p) (Attr_i 0) m;
         if \<not> ok
         then do { m \<leftarrow> string_list_free (Some l) m; Some (None, m) }
         else string_split_loop delim p l m } } }"

definition string_split :: "byte list \<Rightarrow> byte list \<Rightarrow> mem \<Rightarrow> (string_list option \<times> mem) option" where
  "string_split str delim m = (let (list, m) = string_list_new m in
     case list of
       None \<Rightarrow> Some (None, m)
     | Some l \<Rightarrow> string_split_loop delim str l m)"

text \<open>
  \<open>string_split_noalloc\<close> splits at occurrences of the whole string \<open>delim\<close>. It needs \<open>delim\<close> not
  empty, as the code checks, so that \<open>p\<close> moves; the pointers are optional for the \<open>NULL\<close> checks.
\<close>

partial_function (option) split_noalloc_loop ::
    "byte list \<Rightarrow> nat \<Rightarrow> byte list \<Rightarrow> string_list \<Rightarrow> mem \<Rightarrow> (bool \<times> string_list \<times> mem) option" where
  "split_noalloc_loop delim dlen p l m = do {
     c \<leftarrow> deref p;
     if c = 0 then Some (True, l, m)
     else do {
       r \<leftarrow> strstr p delim;
       case r of
         Some e \<Rightarrow> do {
           let n = length p - length e;
           (ok, l, m) \<leftarrow> (if n > 0 then string_list_append_n l p n (Attr_i 0) m else Some (True, l, m));
           if \<not> ok then Some (False, l, m)
           else split_noalloc_loop delim dlen (drop dlen e) l m }
       | None \<Rightarrow> do {
           n \<leftarrow> strlen p;
           (ok, l, m) \<leftarrow> (if n > 0 then string_list_append_n l p n (Attr_i 0) m else Some (True, l, m));
           if \<not> ok then Some (False, l, m) else Some (True, l, m) } } }"

definition string_split_noalloc ::
    "string_list option \<Rightarrow> byte list option \<Rightarrow> byte list option \<Rightarrow> mem \<Rightarrow>
     (bool \<times> string_list option \<times> mem) option" where
  "string_split_noalloc list str delim m = (case (list, str, delim) of
     (Some l, Some str, Some delim) \<Rightarrow> do {
       c \<leftarrow> deref delim;
       if c = 0 then Some (False, Some l, m)
       else do {
         dlen \<leftarrow> strlen delim;
         n \<leftarrow> string_count_tokens str delim;
         (ok, l, m) \<leftarrow> (if n > sl_cap l
             then (case string_list_capacity (Some l) n m of
                 (ok, Some l, m) \<Rightarrow> Some (ok, l, m)
               | (ok, None, m) \<Rightarrow> None)
             else Some (True, l, m));
         if \<not> ok then Some (False, Some l, m)
         else do {
           (b, l, m) \<leftarrow> split_noalloc_loop delim dlen str l m;
           Some (b, Some l, m) } } }
   | _ \<Rightarrow> Some (False, list, m))"

text \<open>Searching. The comparison loop of \<open>string_list_find_elem\<close> on its two moving pointers.\<close>

fun find_compare :: "byte list \<Rightarrow> byte list \<Rightarrow> bool option" where
  "find_compare (c # p1) (d # p2) =
     (if c OR 32 = d OR 32 \<or> c = d
      then if c = 0 then Some True else find_compare p1 p2
      else Some False)"
| "find_compare p1 p2 = None"

function find_elem_loop :: "string_list \<Rightarrow> byte list \<Rightarrow> nat \<Rightarrow> nat option" where
  "find_elem_loop l elem i =
     (if i < sl_size l
      then do {
        e \<leftarrow> elem_at l i;
        p1 \<leftarrow> el_data e;
        found \<leftarrow> find_compare p1 elem;
        if found then Some (i + 1) else find_elem_loop l elem (i + 1) }
      else Some 0)"
  by pat_completeness auto
termination by (relation "measure (\<lambda>(l, elem, i). sl_size l - i)") auto

declare find_elem_loop.simps [simp del]

text \<open>The result is cast to \<open>int\<close>.\<close>

definition string_list_find_elem :: "string_list option \<Rightarrow> byte list option \<Rightarrow> 32 word option" where
  "string_list_find_elem list elem = (case (list, elem) of
     (Some l, Some elem) \<Rightarrow> do { k \<leftarrow> find_elem_loop l elem 0; Some (of_nat k) }
   | _ \<Rightarrow> Some 0)"

fun tolower_compare :: "byte list \<Rightarrow> byte list \<Rightarrow> bool option" where
  "tolower_compare (c # a) (d # b) =
     (if tolower c = tolower d
      then if c = 0 then Some True else tolower_compare a b
      else Some False)"
| "tolower_compare a b = None"

function find_prefix_loop :: "string_list \<Rightarrow> byte list \<Rightarrow> byte list \<Rightarrow> nat \<Rightarrow> bool option" where
  "find_prefix_loop l elem prefixed i =
     (if i < sl_size l
      then do {
        e \<leftarrow> elem_at l i;
        data \<leftarrow> el_data e;
        found \<leftarrow> tolower_compare data elem;
        if found then Some True
        else do {
          found \<leftarrow> tolower_compare data prefixed;
          if found then Some True else find_prefix_loop l elem prefixed (i + 1) } }
      else Some False)"
  by pat_completeness auto
termination by (relation "measure (\<lambda>(l, elem, prefixed, i). sl_size l - i)") auto

declare find_prefix_loop.simps [simp del]

text \<open>
  \<open>prefixed\<close> is an array of 255 bytes whose first contents do not matter; the second copy is
  given \<open>sizeof(prefixed) - _len\<close> bytes of room, which wraps when the prefix is longer.
\<close>

definition string_list_find_elem_prefix ::
    "string_list option \<Rightarrow> byte list \<Rightarrow> byte list \<Rightarrow> bool option" where
  "string_list_find_elem_prefix list prefix elem = (case list of
     None \<Rightarrow> Some False
   | Some l \<Rightarrow> do {
       let prefixed = replicate 255 0;
       (prefixed, n) \<leftarrow> strlcpy prefixed 0 prefix 255;
       let room = (if n \<le> 255 then 255 - n else 2 ^ 64 + 255 - n);
       (prefixed, k) \<leftarrow> strlcpy prefixed n elem room;
       find_prefix_loop l elem prefixed 0 })"

text \<open>Copying: an empty or missing string of the source is \<open>NULL\<close> in the copy.\<close>

function free_datas_loop :: "string_list \<Rightarrow> nat \<Rightarrow> nat \<Rightarrow> mem \<Rightarrow> mem option" where
  "free_datas_loop l n j m =
     (if j < n
      then do {
        e \<leftarrow> elem_at l j;
        free_datas_loop l n (j + 1) (if el_data e \<noteq> None then release m else m) }
      else Some m)"
  by pat_completeness auto
termination by (relation "measure (\<lambda>(l, n, j, m). n - j)") auto

declare free_datas_loop.simps [simp del]

function clone_loop :: "string_list \<Rightarrow> string_list \<Rightarrow> nat \<Rightarrow> mem \<Rightarrow>
    (string_list option \<times> mem) option" where
  "clone_loop src dest i m =
     (if i < sl_size src
      then do {
        e \<leftarrow> elem_at src i;
        slen \<leftarrow> (case el_data e of None \<Rightarrow> Some 0 | Some s \<Rightarrow> strlen s);
        d \<leftarrow> elem_at dest i;
        let d = d\<lparr>el_data := None, el_attr := el_attr e\<rparr>;
        dest \<leftarrow> set_elem dest i d;
        if slen \<noteq> 0
        then let (ok, m) = alloc m in
          if \<not> ok
          then do {
            m \<leftarrow> free_datas_loop dest i 0 m;
            Some (None, release (release m)) }
          else do {
            s \<leftarrow> el_data e;
            ret \<leftarrow> mem_read s 0 (slen + 1);
            dest \<leftarrow> set_elem dest i (d\<lparr>el_data := Some ret\<rparr>);
            clone_loop src dest (i + 1) m }
        else clone_loop src dest (i + 1) m }
      else Some (Some dest, m))"
  by pat_completeness auto

termination by (relation "measure (\<lambda>(src, dest, i, m). sl_size src - i)") auto

declare clone_loop.simps [simp del]

definition string_list_clone :: "string_list \<Rightarrow> mem \<Rightarrow> (string_list option \<times> mem) option" where
  "string_list_clone src m = (let (ok, m) = alloc m in
     if \<not> ok then Some (None, m)
     else let n = sl_size src;
              cap = (if sl_cap src < n then n else sl_cap src);
              (ok, m) = alloc m in
       if \<not> ok then Some (None, release m)
       else clone_loop src \<lparr>sl_elems = Some (replicate cap (Some zero_elem)), sl_size = n, sl_cap = cap\<rparr> 0 m)"

section \<open>What a list holds\<close>

text \<open>
  \<open>sl_rep l xs\<close>: the array is allocated with the capacity recorded, its first \<open>size\<close> slots hold \<open>xs\<close>,
  or there is no array and the list is empty. \<open>sl_owned\<close> counts the blocks the list owns.
\<close>

definition sl_rep :: "string_list \<Rightarrow> string_list_elem list \<Rightarrow> bool" where
  "sl_rep l xs \<longleftrightarrow> sl_size l = length xs \<and>
     (case sl_elems l of
        None \<Rightarrow> xs = [] \<and> sl_cap l = 0
      | Some es \<Rightarrow> length es = sl_cap l \<and> (\<exists>rest. es = map Some xs @ rest)) \<and>
     sl_cap l \<le> SIZE_MAX div sizeof_string_list_elem"

definition elem_blocks :: "string_list_elem \<Rightarrow> int" where
  "elem_blocks e = (if el_data e \<noteq> None then 1 else 0) + (if el_userdata e \<noteq> NULL then 1 else 0)"

definition sl_owned :: "string_list \<Rightarrow> string_list_elem list \<Rightarrow> int" where
  "sl_owned l xs = (if sl_elems l = None then 0 else 1) + sum_list (map elem_blocks xs)"

text \<open>The element that holds the string \<open>x\<close> and nothing else.\<close>

definition string_elem :: "byte list \<Rightarrow> string_list_elem_attr \<Rightarrow> string_list_elem" where
  "string_elem x a = \<lparr>el_data = Some (x @ [0]), el_userdata = NULL, el_attr = a\<rparr>"

text \<open>The number of elements below which growing cannot overflow the array size.\<close>

definition sl_limit :: nat where
  "sl_limit = SIZE_MAX div sizeof_string_list_elem div 2"

lemma sl_limit_pos: "32 \<le> SIZE_MAX div sizeof_string_list_elem" "SIZE_MAX div sizeof_string_list_elem \<le> SIZE_MAX div 2"
  by (simp_all add: SIZE_MAX_def sizeof_string_list_elem_def)

lemma elem_at_rep: "sl_rep l xs \<Longrightarrow> i < length xs \<Longrightarrow> elem_at l i = Some (xs ! i)"
  by (auto simp: sl_rep_def elem_at_def arr_get_def nth_append split: option.splits)

lemma sl_rep_size: "sl_rep l xs \<Longrightarrow> sl_size l = length xs"
  by (simp add: sl_rep_def)

lemma capacity_rep:
  assumes "sl_rep l xs"
  obtains m' where "string_list_capacity (Some l) cap m = (False, Some l, m')" "blocks m' = blocks m"
      "cap < length xs \<or> cap = 0 \<or> cap > SIZE_MAX div sizeof_string_list_elem \<or> \<not> plenty m"
  | l' m' where "string_list_capacity (Some l) cap m = (True, Some l', m')" "sl_rep l' xs"
      "sl_cap l' = cap" "sl_elems l' \<noteq> None" "blocks m' - sl_owned l' xs = blocks m - sl_owned l xs"
      "plenty m \<longrightarrow> plenty m'"
proof (cases "cap < length xs \<or> cap = 0 \<or> cap > SIZE_MAX div sizeof_string_list_elem")
  case True
  then show ?thesis using that(1) [of m] assms by (auto simp: string_list_capacity_def sl_rep_def)
next
  case False
  let ?old = "case sl_elems l of None \<Rightarrow> [] | Some es \<Rightarrow> es"
  let ?l = "l\<lparr>sl_elems := Some (take cap ?old @ replicate (cap - length ?old) None), sl_cap := cap\<rparr>"
  have "\<exists>rest. ?old = map Some xs @ rest"
    using assms by (auto simp: sl_rep_def split: option.splits)
  then have "sl_rep ?l xs" using assms False by (auto simp: sl_rep_def)
  with False assms that show ?thesis
    by (cases rule: realloc_cases [of "sl_elems l \<noteq> None" m])
      (auto simp: string_list_capacity_def sl_rep_size sl_owned_def Let_def)
qed

lemma grow_rep:
  assumes "sl_rep l xs"
  shows "\<exists>ok l' m'. string_list_grow l m = Some (ok, l', m') \<and> sl_rep l' xs \<and>
    blocks m' - sl_owned l' xs = blocks m - sl_owned l xs \<and>
    (ok \<longrightarrow> length xs < sl_cap l' \<and> sl_elems l' \<noteq> None) \<and>
    (plenty m \<and> length xs < sl_limit \<longrightarrow> ok \<and> plenty m')"
proof (cases "sl_size l \<ge> sl_cap l")
  case False
  with assms show ?thesis by (auto simp: string_list_grow_def sl_rep_def split: option.splits)
next
  case True
  let ?c = "if sl_cap l > 0 then sl_cap l * 2 else 32"
  have cap: "\<not> sl_cap l > SIZE_MAX div 2" and len: "length xs = sl_size l"
    using assms sl_limit_pos by (auto simp: sl_rep_def)
  have eq: "sl_size l = sl_cap l" using assms True by (auto simp: sl_rep_def split: option.splits)
  have fits: "length xs < sl_limit \<Longrightarrow> ?c \<le> SIZE_MAX div sizeof_string_list_elem"
    using eq len sl_limit_pos by (auto simp: sl_limit_def)
  have c: "\<not> ?c < length xs" "?c \<noteq> 0" "length xs < ?c" using eq len by auto
  have run: "string_list_grow l m = (case string_list_capacity (Some l) ?c m of
      (ok, Some l', m) \<Rightarrow> Some (ok, l', m) | (ok, None, m) \<Rightarrow> None)"
    using True cap by (simp only: string_list_grow_def if_True if_False)
  define c where "c = ?c"
  from capacity_rep [OF assms, of c m] show ?thesis
  proof cases
    case (1 m')
    have "\<not> (plenty m \<and> length xs < sl_limit)" using 1(3) c fits unfolding c_def by auto
    then show ?thesis
      unfolding run c_def [symmetric] 1(1) using 1(2) assms by auto
  next
    case (2 l' m')
    have "length xs < sl_cap l'" using 2(3) c(3) unfolding c_def by simp
    then show ?thesis
      unfolding run c_def [symmetric] 2(1) using 2 by auto
  qed
qed

text \<open>Storing at the end of a list with room.\<close>

lemma store_new_elem_rep:
  assumes "sl_rep l xs" "length xs < sl_cap l" "sl_elems l \<noteq> None"
  obtains l' where "store_new_elem l (x @ [0]) a = Some l'" "sl_rep l' (xs @ [string_elem x a])"
    "sl_elems l' \<noteq> None"
proof -
  from assms obtain rest where l: "sl_elems l = Some (map Some xs @ rest)"
    "length (map Some xs @ rest) = sl_cap l" "sl_size l = length xs"
    by (auto simp: sl_rep_def)
  with assms(2) obtain r rest' where r: "rest = r # rest'" by (cases rest) auto
  let ?l = "l\<lparr>sl_elems := Some (map Some (xs @ [string_elem x a]) @ rest'), sl_size := length xs + 1\<rparr>"
  have "store_new_elem l (x @ [0]) a = Some ?l"
    using l r by (simp add: store_new_elem_def set_elem_def arr_set_def list_update_append string_elem_def)
  moreover have "sl_rep ?l (xs @ [string_elem x a])"
    using assms(1) l r by (auto simp: sl_rep_def)
  ultimately show ?thesis by (rule that) simp
qed

text \<open>Both append functions: grow, allocate the copy, store it.\<close>

lemma grow_then_store:
  assumes "sl_rep l xs"
    and run: "\<And>l1 m1. string_list_grow l m = Some (False, l1, m1) \<Longrightarrow> f = Some (False, l1, m1)"
      "\<And>l1 m1 m2. string_list_grow l m = Some (True, l1, m1) \<Longrightarrow> alloc m1 = (False, m2) \<Longrightarrow>
         f = Some (False, l1, m2)"
      "\<And>l1 m1 m2 l2. string_list_grow l m = Some (True, l1, m1) \<Longrightarrow> alloc m1 = (True, m2) \<Longrightarrow>
         store_new_elem l1 (x @ [0]) a = Some l2 \<Longrightarrow> f = Some (True, l2, m2)"
  shows "\<exists>ok l' m'. f = Some (ok, l', m') \<and>
    sl_rep l' (if ok then xs @ [string_elem x a] else xs) \<and>
    blocks m' - sl_owned l' (if ok then xs @ [string_elem x a] else xs) = blocks m - sl_owned l xs \<and>
    (plenty m \<and> length xs < sl_limit \<longrightarrow> ok \<and> plenty m')"
proof -
  obtain ok l1 m1 where g: "string_list_grow l m = Some (ok, l1, m1)" "sl_rep l1 xs"
    "blocks m1 - sl_owned l1 xs = blocks m - sl_owned l xs"
    "ok \<longrightarrow> length xs < sl_cap l1 \<and> sl_elems l1 \<noteq> None"
    "plenty m \<and> length xs < sl_limit \<longrightarrow> ok \<and> plenty m1"
    using grow_rep [OF assms(1), of m] by blast
  show ?thesis
  proof (cases ok)
    case False
    with g(1) have "f = Some (False, l1, m1)" by (intro run(1)) simp
    with False g show ?thesis by (intro exI [of _ False] exI [of _ l1] exI [of _ m1]) simp
  next
    case True
    with g(4) obtain l2 where s: "store_new_elem l1 (x @ [0]) a = Some l2"
      "sl_rep l2 (xs @ [string_elem x a])" "sl_elems l2 \<noteq> None"
      using store_new_elem_rep [OF g(2)] by metis
    show ?thesis
    proof (cases rule: alloc_cases [of m1])
      case (1 m2)
      with True g(1) s(1) have "f = Some (True, l2, m2)" by (intro run(3)) simp_all
      moreover have "sl_owned l2 (xs @ [string_elem x a]) = sl_owned l1 xs + 1"
        using True g(4) s(3) by (simp add: sl_owned_def elem_blocks_def string_elem_def)
      ultimately show ?thesis
        using s(2) g(3,5) 1(2,3) by (intro exI [of _ True] exI [of _ l2] exI [of _ m2]) simp
    next
      case (2 m2)
      with True g(1) have "f = Some (False, l1, m2)" by (intro run(2)) simp_all
      then show ?thesis
        using g(2,3,5) 2(2,3) by (intro exI [of _ False] exI [of _ l1] exI [of _ m2]) simp
    qed
  qed
qed

lemma append_n_rep:
  assumes "sl_rep l xs" "n \<le> length p" "n \<noteq> SIZE_MAX"
  shows "\<exists>ok l' m'. string_list_append_n l p n a m = Some (ok, l', m') \<and>
    sl_rep l' (if ok then xs @ [string_elem (take n p) a] else xs) \<and>
    blocks m' - sl_owned l' (if ok then xs @ [string_elem (take n p) a] else xs) =
      blocks m - sl_owned l xs \<and>
    (plenty m \<and> length xs < sl_limit \<longrightarrow> ok \<and> plenty m')"
  using assms by (intro grow_then_store) (simp_all add: string_list_append_n_def mem_read_Some)

lemma append_rep:
  assumes "sl_rep l xs" "terminated elem"
  shows "\<exists>ok l' m'. string_list_append l elem a m = Some (ok, l', m') \<and>
    sl_rep l' (if ok then xs @ [string_elem (cstr elem) a] else xs) \<and>
    blocks m' - sl_owned l' (if ok then xs @ [string_elem (cstr elem) a] else xs) =
      blocks m - sl_owned l xs \<and>
    (plenty m \<and> length xs < sl_limit \<longrightarrow> ok \<and> plenty m')"
  using assms by (intro grow_then_store) (simp_all add: string_list_append_def dup_string_terminated)

text \<open>Adding strings to a list meets the contract of the growable containers.\<close>

definition sl_push :: "string_list \<Rightarrow> byte list \<Rightarrow> mem \<Rightarrow> (bool \<times> string_list \<times> mem) option" where
  "sl_push l x m = string_list_append_n l x (length x) (Attr_i 0) m"

interpretation sl: growable sl_rep sl_owned sl_push "\<lambda>x. string_elem x (Attr_i 0)"
  "\<lambda>x. length x < SIZE_MAX" sl_limit
proof
  fix l ys m and x :: "byte list"
  assume "sl_rep l ys" "length x < SIZE_MAX"
  then have "sl_rep l ys" "length x \<le> length x" "length x \<noteq> SIZE_MAX" by simp_all
  from append_n_rep [OF this, of "Attr_i 0" m]
  show "\<exists>ok l' m'. sl_push l x m = Some (ok, l', m') \<and>
    sl_rep l' (if ok then ys @ [string_elem x (Attr_i 0)] else ys) \<and>
    blocks m' - sl_owned l' (if ok then ys @ [string_elem x (Attr_i 0)] else ys) =
      blocks m - sl_owned l ys \<and>
    (plenty m \<and> length ys < sl_limit \<longrightarrow> ok \<and> plenty m')"
    unfolding sl_push_def take_all [OF order.refl] .
qed

section \<open>Releasing a list\<close>

lemma free_elems_blocks:
  "sl_rep l xs \<Longrightarrow> i \<le> length xs \<Longrightarrow>
   \<exists>m'. free_elems_loop l (length xs) i m = Some m' \<and>
     blocks m' = blocks m - sum_list (map elem_blocks (drop i xs))"
proof (induction l "length xs" i m rule: free_elems_loop.induct)
  case (1 l i m)
  show ?case
  proof (cases "i < length xs")
    case True
    then have d: "drop i xs = xs ! i # drop (i + 1) xs" by (simp add: Cons_nth_drop_Suc)
    let ?m = "if el_data (xs ! i) \<noteq> None then release m else m"
    let ?m' = "if el_userdata (xs ! i) \<noteq> NULL then release ?m else ?m"
    have "free_elems_loop l (length xs) i m = free_elems_loop l (length xs) (i + 1) ?m'"
      using True elem_at_rep [OF 1(2) True] by (subst free_elems_loop.simps) (simp add: Let_def)
    moreover obtain m' where "free_elems_loop l (length xs) (i + 1) ?m' = Some m'"
      "blocks m' = blocks ?m' - sum_list (map elem_blocks (drop (i + 1) xs))"
      using 1(1) [OF True elem_at_rep [OF 1(2) True] refl refl 1(2)] True by auto
    ultimately show ?thesis by (simp add: d elem_blocks_def)
  next
    case False
    with 1(3) show ?thesis by (subst free_elems_loop.simps) simp
  qed
qed

lemma string_list_free_releases:
  assumes "sl_rep l xs" "length xs < 2 ^ 32"
  shows "\<exists>m'. string_list_free (Some l) m = Some m' \<and> blocks m' = blocks m - sl_owned l xs - 1"
proof -
  have n: "length xs mod 4294967296 = length xs" using assms(2) by simp
  show ?thesis
    using free_elems_blocks [OF assms(1), of 0 m] assms(1)
    by (auto simp: string_list_free_def string_list_deinitialize_internal_def sl_owned_def n sl_rep_def)
qed

section \<open>Splitting into tokens\<close>

text \<open>The tokens of a string: the longest runs without a delimiter.\<close>

function tokens :: "('a \<Rightarrow> bool) \<Rightarrow> 'a list \<Rightarrow> 'a list list" where
  "tokens d s = (let t = dropWhile d s in
     if t = [] then []
     else takeWhile (\<lambda>c. \<not> d c) t # tokens d (dropWhile (\<lambda>c. \<not> d c) t))"
  by pat_completeness auto
termination
proof (relation "measure (\<lambda>(d, s). length s)", goal_cases)
  case (2 d s t)
  then have "dropWhile (\<lambda>c. \<not> d c) t \<noteq> t" by (metis dropWhile_eq_self_iff hd_dropWhile)
  then have "length (dropWhile (\<lambda>c. \<not> d c) t) < length t"
    by (metis length_dropWhile_le nat_less_le dropWhile_eq_drop drop_0 length_drop diff_is_0_eq le_refl
      append_Nil takeWhile_dropWhile_id length_append add_cancel_left_left length_0_conv)
  moreover have "length t \<le> length s" using 2(1) length_dropWhile_le by metis
  ultimately show ?case by simp
qed simp

declare tokens.simps [simp del]

lemma tokens_none: "dropWhile d s = [] \<Longrightarrow> tokens d s = []"
  by (subst tokens.simps) (simp only: Let_def simp_thms if_True)

lemma tokens_some:
  "dropWhile d s \<noteq> [] \<Longrightarrow> tokens d s = takeWhile (\<lambda>c. \<not> d c) (dropWhile d s) #
     tokens d (dropWhile (\<lambda>c. \<not> d c) (dropWhile d s))"
  by (subst tokens.simps) (simp only: Let_def if_False)

lemma skip_delims_result:
  assumes "terminated delim"
  shows "0 \<notin> set x \<Longrightarrow> skip_delims delim (x @ 0 # t) = Some (dropWhile (\<lambda>c. c \<in> set (cstr delim)) x @ 0 # t)"
proof (induction x)
  case (Cons c x)
  then have "c \<noteq> 0" by auto
  with strchr_member [OF assms this] Cons show ?case by auto
qed simp

lemma skip_token_result:
  assumes "terminated delim"
  shows "0 \<notin> set x \<Longrightarrow> skip_token delim (x @ 0 # t) = Some (dropWhile (\<lambda>c. c \<notin> set (cstr delim)) x @ 0 # t)"
proof (induction x)
  case (Cons c x)
  then have "c \<noteq> 0" by auto
  with strchr_member [OF assms this] Cons show ?case by auto
qed simp

text \<open>
  The splitting loop is: add the tokens one after another, release everything at the first
  failure.
\<close>

lemma append_n_prefix:
  "string_list_append_n l (x @ y) (length x) (Attr_i 0) m = sl_push l x m"
proof -
  have read: "mem_read (x @ y) 0 (length x) = Some x" "mem_read x 0 (length x) = Some x"
    by (simp_all add: mem_read_def)
  show ?thesis unfolding sl_push_def string_list_append_n_def read ..
qed

lemma length_takeWhile_diff:
  "length y - length (dropWhile P y) = length (takeWhile P y)"
proof -
  have "length (takeWhile P y) + length (dropWhile P y) = length y"
    by (metis length_append takeWhile_dropWhile_id)
  then show ?thesis by simp
qed

lemma string_split_loop_tokens:
  assumes "terminated delim"
  defines "d \<equiv> \<lambda>c. c \<in> set (cstr delim)"
  shows "0 \<notin> set x \<Longrightarrow>
    string_split_loop delim (x @ 0 # t) l m = do {
      (ok, l, m) \<leftarrow> push_all sl_push l (tokens d x) m;
      if ok then Some (Some l, m)
      else do { m \<leftarrow> string_list_free (Some l) m; Some (None, m) } }"
proof (induction "length x" arbitrary: x l m rule: less_induct)
  case less
  let ?y = "dropWhile d x"
  have skip: "skip_delims delim (x @ 0 # t) = Some (?y @ 0 # t)"
    using skip_delims_result [OF assms(1) less.prems] by (simp add: d_def)
  show ?case
  proof (cases "?y = []")
    case True
    then have "tokens d x = []" by (rule tokens_none)
    moreover have "\<exists>b. deref (x @ 0 # t) = Some b" by (cases x) auto
    ultimately show ?thesis
      using True by (subst string_split_loop.simps) (auto simp: skip [unfolded True append_Nil])
  next
    case False
    let ?tok = "takeWhile (\<lambda>c. \<not> d c) ?y" and ?z = "dropWhile (\<lambda>c. \<not> d c) ?y"
    obtain c y' where y: "?y = c # y'" using False by (cases ?y) auto
    have y0: "0 \<notin> set ?y" using less.prems by (meson set_dropWhileD)
    then have z0: "0 \<notin> set ?z" by (meson set_dropWhileD)
    have "\<not> d c" using y by (metis hd_dropWhile list.sel(1) False)
    then have "length ?z \<le> length y'" by (simp add: y length_dropWhile_le)
    moreover have "length ?y \<le> length x" by (rule length_dropWhile_le)
    ultimately have shorter: "length ?z < length x" using y by simp
    have tok: "tokens d x = ?tok # tokens d ?z"
      using False by (rule tokens_some)
    have x: "x = x1 # x2 \<Longrightarrow> x1 \<noteq> 0" "x \<noteq> []" for x1 x2
      using less.prems False by auto
    have skip2: "skip_token delim (?y @ 0 # t) = Some (?z @ 0 # t)"
      using skip_token_result [OF assms(1) y0] by (simp add: d_def)
    have "?y @ 0 # t = ?tok @ ?z @ 0 # t" by simp
    then have push: "string_list_append_n l (?y @ 0 # t) (length ?tok) (Attr_i 0) m = sl_push l ?tok m"
      by (metis append_n_prefix)
    have c0: "deref (?y @ 0 # t) = Some c" "c \<noteq> 0" using y y0 by auto
    have x0: "\<exists>b. deref (x @ 0 # t) = Some b \<and> b \<noteq> 0" using x by (cases x) auto
    have "string_split_loop delim (x @ 0 # t) l m = do {
       (ok, l, m) \<leftarrow> sl_push l ?tok m;
       if \<not> ok then do { m \<leftarrow> string_list_free (Some l) m; Some (None, m) }
       else string_split_loop delim (?z @ 0 # t) l m }"
      using x0 c0
      by (subst string_split_loop.simps) (auto simp: skip skip2 length_takeWhile_diff push)
    then show ?thesis
      unfolding tok by (auto simp: less.hyps [OF shorter z0] intro!: Option.bind_cong split: prod.splits)
  qed
qed

lemma string_list_new_rep:
  obtains m' where "string_list_new m = (None, m')" "blocks m' = blocks m" "\<not> plenty m"
  | l m' where "string_list_new m = (Some l, m')" "sl_rep l []" "blocks m' = blocks m + 1 + sl_owned l []"
      "plenty m \<Longrightarrow> plenty m'"
proof (cases rule: alloc_cases [of m])
  case (2 m1)
  with that(1) show ?thesis by (simp add: string_list_new_def)
next
  case (1 m1)
  then show ?thesis
  proof (cases rule: alloc_cases [of m1])
    case (1 m2)
    with that(2) \<open>alloc m = (True, m1)\<close> \<open>blocks m1 = blocks m + 1\<close> \<open>plenty m \<Longrightarrow> plenty m1\<close>
    show ?thesis
      by (simp add: string_list_new_def sl_rep_def sl_owned_def sizeof_string_list_elem_def SIZE_MAX_def)
  next
    case (2 m2)
    with that(1) \<open>alloc m = (True, m1)\<close> \<open>blocks m1 = blocks m + 1\<close> \<open>plenty m \<Longrightarrow> plenty m1\<close>
    show ?thesis by (auto simp add: string_list_new_def)
  qed
qed

lemma tokens_members:
  "y \<in> set (tokens d x) \<Longrightarrow> y \<noteq> [] \<and> set y \<subseteq> set x \<and> (\<forall>c\<in>set y. \<not> d c)"
proof (induction d x rule: tokens.induct)
  case (1 d x)
  let ?t = "dropWhile d x" and ?tok = "takeWhile (\<lambda>c. \<not> d c) (dropWhile d x)"
  let ?z = "dropWhile (\<lambda>c. \<not> d c) ?t"
  have t: "?t \<noteq> []"
    using 1(2) tokens_none [of d x] by (metis empty_iff empty_set)
  then have y: "y = ?tok \<or> y \<in> set (tokens d ?z)"
    using 1(2) tokens_some [OF t] by (metis set_ConsD)
  have set: "set ?tok \<subseteq> set x" "set ?z \<subseteq> set x"
    by (meson set_dropWhileD set_takeWhileD subsetI)+
  have "?tok \<noteq> []" using t by (metis hd_dropWhile takeWhile_eq_Nil_iff)
  then show ?case
    using y 1(1) [OF refl t] set by (metis (no_types, lifting) order.trans set_takeWhileD)
qed

lemma tokens_concat_length: "length (concat (tokens d x)) \<le> length x"
proof (induction d x rule: tokens.induct)
  case (1 d x)
  let ?t = "dropWhile d x"
  let ?tok = "takeWhile (\<lambda>c. \<not> d c) ?t" and ?z = "dropWhile (\<lambda>c. \<not> d c) ?t"
  have len: "length ?tok + length ?z \<le> length x"
    by (metis length_append takeWhile_dropWhile_id length_dropWhile_le)
  show ?case
  proof (cases "?t = []")
    case True
    then show ?thesis by (simp only: tokens_none) simp
  next
    case False
    have "concat (tokens d x) = ?tok @ concat (tokens d ?z)"
      by (subst tokens_some [OF False]) (rule concat.simps)
    then have "length (concat (tokens d x)) = length ?tok + length (concat (tokens d ?z))"
      by (simp only: length_append)
    with 1 [OF refl False] len show ?thesis by linarith
  qed
qed

lemma length_concat_members:
  "x \<in> set xs \<Longrightarrow> length x \<le> length (concat xs)"
  "\<forall>x\<in>set xs. x \<noteq> [] \<Longrightarrow> length xs \<le> length (concat xs)"
proof -
  show "x \<in> set xs \<Longrightarrow> length x \<le> length (concat xs)" by (induction xs) auto
  show "\<forall>x\<in>set xs. x \<noteq> [] \<Longrightarrow> length xs \<le> length (concat xs)"
    by (induction xs) (auto simp: neq_Nil_conv)
qed

lemma tokens_length:
  "y \<in> set (tokens d x) \<Longrightarrow> length y \<le> length x" "length (tokens d x) \<le> length x"
  using length_concat_members(1) [of y "tokens d x"] length_concat_members(2) [of "tokens d x"]
    tokens_members [of _ d x] tokens_concat_length [of d x]
  by (blast intro: le_trans)+

lemma string_split_result:
  assumes "terminated str" "terminated delim" "length (cstr str) < 2 ^ 32"
  defines "toks \<equiv> tokens (\<lambda>c. c \<in> set (cstr delim)) (cstr str)"
  shows "\<exists>r m'. string_split str delim m = Some (r, m') \<and>
    (plenty m \<longrightarrow> r \<noteq> None) \<and>
    (case r of
       None \<Rightarrow> blocks m' = blocks m
     | Some l \<Rightarrow> sl_rep l (map (\<lambda>x. string_elem x (Attr_i 0)) toks) \<and>
         blocks m' = blocks m + 1 + sl_owned l (map (\<lambda>x. string_elem x (Attr_i 0)) toks))"
proof -
  obtain x t where str: "str = x @ 0 # t" "0 \<notin> set x" "cstr str = x"
    using assms(1) by (rule terminatedE)
  have len: "length x < 2 ^ 32" using assms(3) str(3) by simp
  show ?thesis
  proof (cases rule: string_list_new_rep [of m])
    case (1 m')
    then show ?thesis by (simp add: string_split_def)
  next
    case (2 l m1)
    have fits: "\<forall>y\<in>set toks. length y < SIZE_MAX"
      using tokens_length(1) len unfolding toks_def str(3) SIZE_MAX_def by fastforce
    obtain ok l2 m2 k where p: "push_all sl_push l toks m1 = Some (ok, l2, m2)" "k \<le> length toks"
      "ok \<longrightarrow> k = length toks" "sl_rep l2 ([] @ map (\<lambda>x. string_elem x (Attr_i 0)) (take k toks))"
      "blocks m2 - sl_owned l2 ([] @ map (\<lambda>x. string_elem x (Attr_i 0)) (take k toks)) =
        blocks m1 - sl_owned l []"
      "plenty m1 \<and> length ([] :: string_list_elem list) + length toks \<le> sl_limit \<longrightarrow> ok"
      using sl.push_all_appends [OF 2(2) fits, of m1] by blast
    have small: "length toks \<le> sl_limit" "length toks < 2 ^ 32"
      using tokens_length(2) [of "\<lambda>c. c \<in> set (cstr delim)" x] len
      by (simp_all add: toks_def str(3) sl_limit_def sizeof_string_list_elem_def SIZE_MAX_def)
    have run: "string_split str delim m = do {
      (ok, l, m) \<leftarrow> push_all sl_push l toks m1;
      if ok then Some (Some l, m)
      else do { m \<leftarrow> string_list_free (Some l) m; Some (None, m) } }"
      using string_split_loop_tokens [OF assms(2) str(2), of t l m1, folded str(1)] 2(1)
      by (simp add: string_split_def toks_def str(3))
    show ?thesis
    proof (cases ok)
      case True
      with p(1,3-5) 2(3) show ?thesis by (simp add: run)
    next
      case False
      have "length ([] @ map (\<lambda>x. string_elem x (Attr_i 0)) (take k toks)) < 2 ^ 32"
        using small(2) by simp
      from string_list_free_releases [OF p(4) this, of m2] obtain m3 where
        "string_list_free (Some l2) m2 = Some m3"
        "blocks m3 = blocks m2 - sl_owned l2 ([] @ map (\<lambda>x. string_elem x (Attr_i 0)) (take k toks)) - 1"
        by blast
      moreover have "\<not> plenty m" using False p(6) small(1) 2(4) by auto
      ultimately show ?thesis using False p(1,5) 2(3) by (simp add: run)
    qed
  qed
qed

text \<open>
  C32. \<open>string_split\<close> on any two terminated strings, the first below 4 GiB (the loop that frees a list
  counts its elements in an \<open>unsigned\<close>): it returns a list of exactly the maximal runs
  of non-delimiter bytes, in order, each in a block of its own, or \<open>NULL\<close> because memory ran out (or
  the array would be too long), and then every block it had allocated is freed again. All its reads
  stay inside the two strings.
\<close>
theorem string_split_tokens:
  assumes "terminated str" "terminated delim" "length (cstr str) < 2 ^ 32"
  defines "toks \<equiv> tokens (\<lambda>c. c \<in> set (cstr delim)) (cstr str)"
  shows "\<exists>r m'. string_split str delim m = Some (r, m') \<and>
    (plenty m \<longrightarrow> r \<noteq> None) \<and>
    (case r of
       None \<Rightarrow> blocks m' = blocks m
     | Some l \<Rightarrow> sl_rep l (map (\<lambda>x. string_elem x (Attr_i 0)) toks) \<and>
         blocks m' = blocks m + 1 + sl_owned l (map (\<lambda>x. string_elem x (Attr_i 0)) toks))"
  using assms(1-3) unfolding toks_def by (rule string_split_result)

theorem string_split_tokens_witness:
  "\<exists>r m'. string_split [0x61, 0x2c, 0x2c, 0x62, 0] [0x2c, 0] \<lparr>outcomes = [True, True, False], blocks = 0\<rparr> = Some (r, m') \<and>
    (plenty \<lparr>outcomes = [True, True, False], blocks = 0\<rparr> \<longrightarrow> r \<noteq> None) \<and>
    (case r of
       None \<Rightarrow> blocks m' = blocks \<lparr>outcomes = [True, True, False], blocks = 0\<rparr>
     | Some l \<Rightarrow> sl_rep l (map (\<lambda>x. string_elem x (Attr_i 0))
           (tokens (\<lambda>c. c \<in> set (cstr [0x2c, 0])) (cstr [0x61, 0x2c, 0x2c, 0x62, 0]))) \<and>
         blocks m' = blocks \<lparr>outcomes = [True, True, False], blocks = 0\<rparr> + 1 +
           sl_owned l (map (\<lambda>x. string_elem x (Attr_i 0))
             (tokens (\<lambda>c. c \<in> set (cstr [0x2c, 0])) (cstr [0x61, 0x2c, 0x2c, 0x62, 0]))))"
  by (rule string_split_tokens) simp_all

section \<open>Joining\<close>

text \<open>Every element holds a string, and the strings.\<close>

definition has_strings :: "string_list_elem list \<Rightarrow> bool" where
  "has_strings xs \<longleftrightarrow> (\<forall>e\<in>set xs. \<exists>s. el_data e = Some s \<and> terminated s)"

definition strings_of :: "string_list_elem list \<Rightarrow> byte list list" where
  "strings_of xs = map (\<lambda>e. cstr (the (el_data e))) xs"

lemma join_loop_result:
  assumes "sl_rep l xs" "has_strings xs" "terminated delim"
  shows "length (cstr s) < len \<Longrightarrow> len \<le> length s \<Longrightarrow> i \<le> length xs \<Longrightarrow>
    \<exists>s'. join_loop l len delim (length (cstr delim)) i s (length (cstr s)) = Some s' \<and>
      length s' = length s \<and> cstr s' = take (len - 1) (cstr s @ join_strings (cstr delim) (strings_of (drop i xs)))"
proof (induction "length xs - i" arbitrary: i s)
  case 0
  then show ?case
    using sl_rep_size [OF assms(1)] by (subst join_loop.simps) (simp add: strings_of_def)
next
  case (Suc n)
  then have i: "i < length xs" by simp
  obtain d where d: "el_data (xs ! i) = Some d" "terminated d"
    using assms(2) i nth_mem unfolding has_strings_def by metis
  let ?e = "length (cstr d)" and ?p = "length (cstr s)" and ?D = "cstr delim"
  let ?rest = "strings_of (drop (i + 1) xs)"
  have drop: "strings_of (drop i xs) = cstr d # ?rest"
    using i d by (simp add: strings_of_def flip: Cons_nth_drop_Suc)
  have more: "i + 1 < length xs \<longleftrightarrow> ?rest \<noteq> []" using i by (auto simp: strings_of_def)
  obtain s1 where s1: "strlcpy s ?p d (len - ?p) = Some (s1, ?e)" "length s1 = length s"
    "cstr s1 = take (len - 1) (cstr s @ cstr d)"
    using strlcpy_at_end [OF d(2) Suc.prems(1,2)] by blast
  note step = elem_at_rep [OF assms(1) i] sl_rep_size [OF assms(1)] d strlen_terminated s1(1)
  show ?case
  proof (cases "?p + ?e \<ge> len")
    case True
    then show ?thesis
      using s1 i by (subst join_loop.simps) (auto simp: step drop join_strings_Cons)
  next
    case False
    then have c1: "cstr s1 = cstr s @ cstr d" using s1(3) by simp
    obtain s2 where s2: "strlcpy s1 (?p + ?e) delim (len - (?p + ?e)) = Some (s2, length ?D)"
      "length s2 = length s" "cstr s2 = take (len - 1) (cstr s @ cstr d @ ?D)"
      using strlcpy_at_end [OF assms(3), of s1 len] False Suc.prems(2) s1(2) c1 by auto
    consider "?rest = []" | "?rest \<noteq> []" "?p + ?e + length ?D \<ge> len" | "?rest \<noteq> []" "?p + ?e + length ?D < len"
      by linarith
    then show ?thesis
    proof cases
      case 1
      then have fin: "length xs = i + 1" using more i by simp
      have "join_loop l len delim (length ?D) i s ?p = join_loop l len delim (length ?D) (i + 1) s1 (?p + ?e)"
        using False i fin by (subst join_loop.simps) (simp add: step)
      also have "\<dots> = Some s1" using fin by (subst join_loop.simps) (simp add: step)
      finally show ?thesis using s1 1 by (simp add: drop)
    next
      case 2
      then have "join_loop l len delim (length ?D) i s ?p = Some s2"
        using False i more by (subst join_loop.simps) (simp add: step s2(1))
      with 2 s2 show ?thesis by (simp add: drop join_strings_Cons)
    next
      case 3
      have c2: "cstr s2 = cstr s @ cstr d @ ?D" using s2(3) 3(2) by simp
      have "join_loop l len delim (length ?D) i s ?p =
          join_loop l len delim (length ?D) (i + 1) s2 (?p + ?e + length ?D)"
        using False i more 3 by (subst join_loop.simps) (simp add: step s2(1))
      moreover have "\<exists>s'. join_loop l len delim (length ?D) (i + 1) s2 (length (cstr s2)) = Some s' \<and>
          length s' = length s2 \<and> cstr s' = take (len - 1) (cstr s2 @ join_strings ?D ?rest)"
        using Suc.hyps(2) Suc.prems(2) 3(2) c2 s2(2) i by (intro Suc.hyps(1)) simp_all
      ultimately show ?thesis
        using 3(1) s2(2) by (simp add: c2 drop join_strings_Cons add.assoc)
    qed
  qed
qed

lemma join_concat_result:
  assumes "sl_rep l xs" "has_strings xs" "terminated delim" "terminated (take len s)" "len \<le> length s"
  shows "\<exists>s'. string_list_join_concat s len l delim = Some s' \<and> length s' = length s \<and>
    terminated s' \<and> cstr s' = take (len - 1) (cstr s @ join_strings (cstr delim) (strings_of xs))"
proof -
  note c = cstr_take_terminated [OF assms(4)]
  from join_loop_result [OF assms(1-3), of s len 0] c assms(5) obtain s' where
    s': "join_loop l len delim (length (cstr delim)) 0 s (length (cstr s)) = Some s'" "length s' = length s"
    "cstr s' = take (len - 1) (cstr s @ join_strings (cstr delim) (strings_of xs))"
    by auto
  have "length (cstr s') < length s'" using s'(2,3) c assms(5) by auto
  moreover have "terminated s" using assms(4) by (auto simp: terminated_def dest: in_set_takeD)
  ultimately show ?thesis
    using s' c assms(3) by (simp add: string_list_join_concat_def strlen_terminated cstr_shorter)
qed

text \<open>
  \<open>string_list_join_concat\<close> appends the elements of the list, separated by \<open>delim\<close>, to the string
  in the buffer: the result is exactly the first \<open>len - 1\<close> bytes of that concatenation, terminated
  inside the buffer, whatever the sizes; no byte beyond the buffer is touched.
\<close>
theorem string_list_join_concat_joins:
  assumes "sl_rep l xs" "has_strings xs" "terminated delim" "terminated (take len s)" "len \<le> length s"
  shows "\<exists>s'. string_list_join_concat s len l delim = Some s' \<and> length s' = length s \<and>
    terminated s' \<and> cstr s' = take (len - 1) (cstr s @ join_strings (cstr delim) (strings_of xs))"
  using assms by (rule join_concat_result)

definition abc_list :: string_list where
  "abc_list = \<lparr>sl_elems = Some [Some (string_elem [0x61] (Attr_i 0)), Some (string_elem [0x62, 0x63] (Attr_i 0)), None],
     sl_size = 2, sl_cap = 3\<rparr>"

lemma abc_list_rep: "sl_rep abc_list [string_elem [0x61] (Attr_i 0), string_elem [0x62, 0x63] (Attr_i 0)]"
  by (simp add: sl_rep_def abc_list_def sizeof_string_list_elem_def SIZE_MAX_def)

theorem string_list_join_concat_joins_witness:
  "\<exists>s'. string_list_join_concat [0x78, 0, 9, 9, 9, 9, 9] 5 abc_list [0x2c, 0] = Some s' \<and>
    length s' = length [0x78, 0, 9, 9, 9, 9, 9 :: byte] \<and> terminated s' \<and>
    cstr s' = take (5 - 1) (cstr [0x78, 0, 9, 9, 9, 9, 9] @ join_strings (cstr [0x2c, 0])
      (strings_of [string_elem [0x61] (Attr_i 0), string_elem [0x62, 0x63] (Attr_i 0)]))"
  by (rule string_list_join_concat_joins [OF abc_list_rep])
    (simp_all add: has_strings_def string_elem_def)

text \<open>Splitting a joined string.\<close>

lemma tokens_skip: "\<forall>c\<in>set D. d c \<Longrightarrow> tokens d (D @ r) = tokens d r"
proof -
  assume "\<forall>c\<in>set D. d c"
  then have e: "dropWhile d (D @ r) = dropWhile d r" by (simp add: dropWhile_append)
  show ?thesis
    by (cases "dropWhile d r = []") (simp_all only: e tokens_none tokens_some simp_thms)
qed

lemma tokens_one:
  assumes "x \<noteq> []" "\<forall>c\<in>set x. \<not> d c" "r = [] \<or> d (hd r)"
  shows "tokens d (x @ r) = x # tokens d r"
proof -
  obtain a x' where x: "x = a # x'" using assms(1) by (cases x) auto
  have t: "dropWhile d (x @ r) = x @ r" using assms(2) by (simp add: x)
  have "takeWhile (\<lambda>c. \<not> d c) (x @ r) = x"
    using assms(2,3) by (cases r) (simp_all add: takeWhile_tail)
  moreover have "dropWhile (\<lambda>c. \<not> d c) (x @ r) = r"
    using assms(2,3) by (cases r) (simp_all add: dropWhile_append3)
  ultimately show ?thesis
    using assms(1) tokens_some [of d "x @ r"] by (simp add: t)
qed

lemma tokens_join:
  assumes "D \<noteq> []" "\<forall>c\<in>set D. d c"
  shows "\<forall>x\<in>set xs. x \<noteq> [] \<and> (\<forall>c\<in>set x. \<not> d c) \<Longrightarrow> tokens d (join_strings D xs) = xs"
proof (induction xs rule: induct_list012)
  case 1
  then show ?case by (simp add: tokens_none)
next
  case (2 x)
  then show ?case using tokens_one [of x d "[]"] by (simp add: tokens_none)
next
  case (3 x y xs)
  moreover have "hd (D @ join_strings D (y # xs)) \<in> set D" using assms(1) by simp
  ultimately show ?case
    using tokens_one [of x d "D @ join_strings D (y # xs)"] assms(2) by (simp add: tokens_skip)
qed

lemma strings_of_elems: "strings_of (map (\<lambda>x. string_elem x a) ys) = map cstr ys"
  by (induction ys) (simp_all add: strings_of_def string_elem_def)

text \<open>
  C33. Joining and splitting are inverse: when there is at least one delimiter and no element is empty
  or contains a delimiter, joining a list into an empty buffer that is large enough, but below 4 GiB,
  and splitting the result at the same delimiters gives a list of exactly the same strings, as long as
  memory lasts.
\<close>
theorem string_list_join_split_roundtrip:
  assumes "sl_rep l xs" "has_strings xs" "terminated delim" "cstr delim \<noteq> []"
    and "\<forall>x\<in>set (strings_of xs). x \<noteq> [] \<and> set x \<inter> set (cstr delim) = {}"
    and "length (join_strings (cstr delim) (strings_of xs)) < len" "len \<le> length s" "len < 2 ^ 32"
    and "plenty m"
  shows "\<exists>s' l' ys m'. string_list_join_concat (0 # s) len l delim = Some s' \<and>
    string_split s' delim m = Some (Some l', m') \<and> sl_rep l' ys \<and> strings_of ys = strings_of xs"
proof -
  let ?j = "join_strings (cstr delim) (strings_of xs)" and ?d = "\<lambda>c. c \<in> set (cstr delim)"
  have "terminated (take len (0 # s))" using assms(6) by (cases len) simp_all
  from join_concat_result [OF assms(1-3) this] assms(6,7) obtain s' where
    s': "string_list_join_concat (0 # s) len l delim = Some s'" "terminated s'" "cstr s' = ?j"
    by auto
  have toks: "tokens ?d (cstr s') = strings_of xs"
    unfolding s'(3) using assms(4,5) by (intro tokens_join) auto
  have "length (cstr s') < 2 ^ 32" using s'(3) assms(6,8) by simp
  from string_split_result [OF s'(2) assms(3) this, of m] assms(9) obtain l' m' where
    "string_split s' delim m = Some (Some l', m')"
    "sl_rep l' (map (\<lambda>x. string_elem x (Attr_i 0)) (strings_of xs))"
    by (auto simp: toks)
  moreover have "strings_of (map (\<lambda>x. string_elem x (Attr_i 0)) (strings_of xs)) = strings_of xs"
    unfolding strings_of_elems by (simp add: strings_of_def)
  ultimately show ?thesis using s'(1) by blast
qed

theorem string_list_join_split_roundtrip_witness:
  "\<exists>s' l' ys m'. string_list_join_concat (0 # replicate 9 7) 8 abc_list [0x2c, 0x20, 0] = Some s' \<and>
    string_split s' [0x2c, 0x20, 0] \<lparr>outcomes = [], blocks = 3\<rparr> = Some (Some l', m') \<and> sl_rep l' ys \<and>
    strings_of ys = strings_of [string_elem [0x61] (Attr_i 0), string_elem [0x62, 0x63] (Attr_i 0)]"
  by (rule string_list_join_split_roundtrip [OF abc_list_rep])
    (simp_all add: has_strings_def string_elem_def strings_of_def plenty_def)

section \<open>Searching\<close>

text \<open>Position of the first match, counted from 1, or 0.\<close>

fun first_index :: "('a \<Rightarrow> bool) \<Rightarrow> 'a list \<Rightarrow> nat" where
  "first_index P [] = 0"
| "first_index P (x # xs) =
     (if P x then 1 else if first_index P xs = 0 then 0 else first_index P xs + 1)"

definition fold_case :: "byte list \<Rightarrow> byte list" where
  "fold_case s = map (\<lambda>c. c OR 32) s"

lemma or32_table: "list_all (\<lambda>n. ((of_nat n :: byte) OR 32 = 32) = (n = 0 \<or> n = 32)) [0..<256]"
  by code_simp

lemma or32_is_32: "(c :: byte) OR 32 = 32 \<longleftrightarrow> c = 0 \<or> c = 32"
proof -
  have "unat c < 256" using unsigned_less [of c, where ?'a = nat] by simp
  then have "unat c \<in> set [0..<256]" by (simp only: atLeastLessThan_iff set_upt) simp
  with or32_table have "((of_nat (unat c) :: byte) OR 32 = 32) = (unat c = 0 \<or> unat c = 32)"
    by (simp only: list_all_iff)
  moreover have "unat c = 0 \<longleftrightarrow> c = 0" "unat c = 32 \<longleftrightarrow> c = 32"
    by (simp_all only: word_unat_eq_iff [of c] unat_0 unsigned_numeral) simp_all
  ultimately show ?thesis by simp
qed

lemma find_compare_result:
  "terminated p1 \<Longrightarrow> terminated p2 \<Longrightarrow> 32 \<notin> set (cstr p1) \<Longrightarrow> 32 \<notin> set (cstr p2) \<Longrightarrow>
   find_compare p1 p2 = Some (fold_case (cstr p1) = fold_case (cstr p2))"
proof (induction p1 arbitrary: p2)
  case (Cons c p1)
  from Cons.prems(2) obtain d q where p2: "p2 = d # q" by (cases p2) auto
  consider "c = 0" "d = 0" | "c = 0" "d \<noteq> 0" | "c \<noteq> 0" "d = 0" | "c \<noteq> 0" "d \<noteq> 0" by blast
  then show ?case
  proof cases
    case 1
    then show ?thesis by (simp add: p2)
  next
    case 2
    then have "d \<noteq> 32" using Cons.prems(4) by (simp add: p2)
    then have "d OR 32 \<noteq> 32" using 2 or32_is_32 [of d] by blast
    then have "(0 :: byte) OR 32 \<noteq> d OR 32" using or32_is_32 [of 0] by simp
    with 2 show ?thesis by (simp add: p2 fold_case_def)
  next
    case 3
    then have "c \<noteq> 32" using Cons.prems(3) by simp
    then have "c OR 32 \<noteq> 32" using 3 or32_is_32 [of c] by blast
    then have "c OR 32 \<noteq> (0 :: byte) OR 32" using or32_is_32 [of 0] by simp
    with 3 show ?thesis by (simp add: p2 fold_case_def)
  next
    case 4
    with Cons.prems have "find_compare p1 q = Some (fold_case (cstr p1) = fold_case (cstr q))"
      by (intro Cons.IH) (simp_all add: p2)
    moreover have "c OR 32 = d OR 32 \<or> c = d \<longleftrightarrow> c OR 32 = d OR 32" by blast
    ultimately show ?thesis using 4 by (simp only: p2 find_compare.simps) (simp add: fold_case_def)
  qed
qed simp

lemma find_elem_loop_result:
  assumes "sl_rep l xs" "has_strings xs" "terminated elem"
    and "\<forall>x\<in>set (strings_of xs). 32 \<notin> set x" "32 \<notin> set (cstr elem)"
  defines "P \<equiv> \<lambda>x. fold_case x = fold_case (cstr elem)"
  shows "i \<le> length xs \<Longrightarrow> find_elem_loop l elem i =
    Some (let k = first_index P (strings_of (drop i xs)) in if k = 0 then 0 else i + k)"
proof (induction "length xs - i" arbitrary: i)
  case 0
  then show ?case
    using sl_rep_size [OF assms(1)] by (subst find_elem_loop.simps) (simp add: strings_of_def)
next
  case (Suc n)
  then have i: "i < length xs" by simp
  obtain d where d: "el_data (xs ! i) = Some d" "terminated d"
    using assms(2) i nth_mem unfolding has_strings_def by metis
  have drop: "strings_of (drop i xs) = cstr d # strings_of (drop (i + 1) xs)"
    using i d by (simp add: strings_of_def flip: Cons_nth_drop_Suc)
  have "cstr d \<in> set (strings_of xs)" using d i nth_mem by (force simp: strings_of_def)
  then have c: "find_compare d elem = Some (P (cstr d))"
    using find_compare_result [OF d(2) assms(3)] assms(4,5) by (simp add: P_def)
  have "find_elem_loop l elem i = (if P (cstr d) then Some (i + 1) else find_elem_loop l elem (i + 1))"
    using i by (subst find_elem_loop.simps)
      (simp add: sl_rep_size [OF assms(1)] elem_at_rep [OF assms(1) i] d c)
  with Suc.hyps(1) [of "i + 1"] Suc.hyps(2) i show ?case by (simp add: drop Let_def)
qed

text \<open>
  \<open>string_list_find_elem\<close> returns the position, counted from 1, of the first element equal to
  \<open>elem\<close> when every byte is read with its bit 5 set (which folds the case of letters), and 0 when
  there is none, provided that no string involved contains a space.
\<close>
theorem string_list_find_elem_first:
  assumes "sl_rep l xs" "has_strings xs" "terminated elem"
    and "\<forall>x\<in>set (strings_of xs). 32 \<notin> set x" "32 \<notin> set (cstr elem)"
  shows "string_list_find_elem (Some l) (Some elem) =
    Some (of_nat (first_index (\<lambda>x. fold_case x = fold_case (cstr elem)) (strings_of xs)))"
  using find_elem_loop_result [OF assms, of 0] by (simp add: string_list_find_elem_def Let_def)

theorem string_list_find_elem_first_witness:
  "string_list_find_elem (Some abc_list) (Some [0x42, 0x63, 0]) =
    Some (of_nat (first_index (\<lambda>x. fold_case x = fold_case (cstr [0x42, 0x63, 0]))
      (strings_of [string_elem [0x61] (Attr_i 0), string_elem [0x62, 0x63] (Attr_i 0)])))"
  by (rule string_list_find_elem_first [OF abc_list_rep])
    (simp_all add: has_strings_def string_elem_def strings_of_def)








section \<open>Copying\<close>

text \<open>What the copy of an element holds: no user data, and no string when the original is empty.\<close>

definition clone_elem :: "string_list_elem \<Rightarrow> string_list_elem" where
  "clone_elem e = \<lparr>el_data = (case el_data e of None \<Rightarrow> None
       | Some s \<Rightarrow> if cstr s = [] then None else Some (cstr s @ [0])),
     el_userdata = NULL, el_attr = el_attr e\<rparr>"

definition terminated_elems :: "string_list_elem list \<Rightarrow> bool" where
  "terminated_elems xs \<longleftrightarrow> (\<forall>e\<in>set xs. \<forall>s. el_data e = Some s \<longrightarrow> terminated s)"

lemma set_elem_rep:
  assumes "sl_rep l xs" "i < length xs"
  obtains l' where "set_elem l i e = Some l'" "sl_rep l' (xs[i := e])" "sl_elems l' \<noteq> None"
proof -
  from assms obtain rest where l: "sl_elems l = Some (map Some xs @ rest)" "sl_size l = length xs"
    "length xs + length rest = sl_cap l"
    by (auto simp: sl_rep_def split: option.splits)
  let ?l = "l\<lparr>sl_elems := Some (map Some (xs[i := e]) @ rest)\<rparr>"
  have "set_elem l i e = Some ?l"
    using l assms(2) by (simp add: set_elem_def arr_set_def list_update_append map_update)
  moreover have "sl_rep ?l (xs[i := e])"
    using assms l by (auto simp: sl_rep_def)
  ultimately show ?thesis by (rule that) simp
qed

lemma free_datas_blocks:
  assumes "sl_rep l xs" "n \<le> length xs" "\<forall>e\<in>set (take n xs). el_userdata e = NULL"
  shows "j \<le> n \<Longrightarrow> \<exists>m'. free_datas_loop l n j m = Some m' \<and>
    blocks m' = blocks m - sum_list (map elem_blocks (drop j (take n xs)))"
proof (induction "n - j" arbitrary: j m)
  case 0
  then show ?case by (subst free_datas_loop.simps) simp
next
  case (Suc k)
  then have j: "j < n" "j < length xs" using assms(2) by simp_all
  let ?m = "if el_data (xs ! j) \<noteq> None then release m else m"
  have d: "drop j (take n xs) = xs ! j # drop (Suc j) (take n xs)"
    using j by (metis Cons_nth_drop_Suc length_take min_less_iff_conj nth_take)
  then have "xs ! j \<in> set (take n xs)" by (metis in_set_dropD list.set_intros(1))
  then have u: "el_userdata (xs ! j) = NULL" using assms(3) by blast
  have run: "free_datas_loop l n j m = free_datas_loop l n (j + 1) ?m"
    using j elem_at_rep [OF assms(1) j(2)] by (subst free_datas_loop.simps) simp
  have k: "k = n - (j + 1)" "j + 1 \<le> n" using Suc.hyps(2) j by simp_all
  obtain m' where "free_datas_loop l n (j + 1) ?m = Some m'"
    "blocks m' = blocks ?m - sum_list (map elem_blocks (drop (j + 1) (take n xs)))"
    using Suc.hyps(1) [OF k, of ?m] by blast
  then show ?case unfolding run d by (simp add: elem_blocks_def u)
qed

text \<open>The state of the copy after \<open>i\<close> elements.\<close>

definition cloned :: "string_list_elem list \<Rightarrow> nat \<Rightarrow> string_list_elem list" where
  "cloned xs i = map clone_elem (take i xs) @ replicate (length xs - i) zero_elem"

lemma cloned_step:
  "i < length xs \<Longrightarrow> (cloned xs i)[i := clone_elem (xs ! i)] = cloned xs (i + 1)"
proof -
  assume i: "i < length xs"
  then have "length xs - i = Suc (length xs - (i + 1))" by simp
  then show ?thesis
    using i by (simp only: cloned_def replicate_Suc) (simp add: list_update_append take_Suc_conv_app_nth)
qed

lemma cloned_at: "i < length xs \<Longrightarrow> cloned xs i ! i = zero_elem" "length (cloned xs i) = length xs \<or> length xs < i"
  "i \<le> length xs \<Longrightarrow> take i (cloned xs i) = map clone_elem (take i xs)"
  by (auto simp: cloned_def nth_append)

lemma clone_loop_result:
  assumes "sl_rep src xs" "terminated_elems xs"
  shows "i \<le> length xs \<Longrightarrow> sl_rep dest (cloned xs i) \<Longrightarrow> sl_elems dest \<noteq> None \<Longrightarrow>
    \<exists>r m'. clone_loop src dest i m = Some (r, m') \<and> (plenty m \<longrightarrow> r \<noteq> None) \<and>
      (case r of
         None \<Rightarrow> blocks m' = blocks m - 2 - sum_list (map elem_blocks (map clone_elem (take i xs)))
       | Some l \<Rightarrow> sl_rep l (map clone_elem xs) \<and> sl_elems l \<noteq> None \<and>
           blocks m' = blocks m + sum_list (map elem_blocks (map clone_elem (drop i xs))))"
proof (induction "length xs - i" arbitrary: i dest m)
  case 0
  then have "cloned xs i = map clone_elem xs" by (simp add: cloned_def)
  with 0 show ?case
    using sl_rep_size [OF assms(1)] by (subst clone_loop.simps) simp
next
  case (Suc n)
  then have i: "i < length xs" by simp
  let ?e = "xs ! i"
  have e: "elem_at src i = Some ?e" using elem_at_rep [OF assms(1) i] .
  have d: "elem_at dest i = Some zero_elem"
    using elem_at_rep [OF Suc.prems(2), of i] i cloned_at(1,2) [where i = i and xs = xs] by auto
  let ?d = "zero_elem\<lparr>el_data := None, el_attr := el_attr ?e\<rparr>"
  let ?len = "case el_data ?e of None \<Rightarrow> Some 0 | Some s \<Rightarrow> strlen s"
  let ?b = "\<lambda>ys. sum_list (map elem_blocks (map clone_elem ys))"
  have le: "i < length (cloned xs i)" using i cloned_at(2) [where i = i and xs = xs] by auto
  obtain dest1 where d1: "set_elem dest i ?d = Some dest1" "sl_rep dest1 ((cloned xs i)[i := ?d])"
    "sl_elems dest1 \<noteq> None"
    using set_elem_rep [OF Suc.prems(2) le] by metis
  have n: "n = length xs - (i + 1)" "i + 1 \<le> length xs" using Suc.hyps(2) i by simp_all
  have b: "?b (take (i + 1) xs) = ?b (take i xs) + elem_blocks (clone_elem ?e)"
    "?b (drop i xs) = elem_blocks (clone_elem ?e) + ?b (drop (i + 1) xs)"
    using i by (simp_all add: take_Suc_conv_app_nth flip: Cons_nth_drop_Suc)
  have trm: "el_data ?e = Some s \<Longrightarrow> terminated s" for s
    using assms(2) nth_mem [OF i] unfolding terminated_elems_def by blast
  show ?case
  proof (cases "\<exists>s. el_data ?e = Some s \<and> cstr s \<noteq> []")
    case False
    have len: "?len = Some 0"
      using False trm by (auto simp: strlen_terminated split: option.splits)
    have c: "clone_elem ?e = ?d" "elem_blocks (clone_elem ?e) = 0"
      using False by (auto simp: clone_elem_def zero_elem_def elem_blocks_def split: option.splits)
    have "clone_loop src dest i m = clone_loop src dest1 (i + 1) m"
      using i by (subst clone_loop.simps) (simp add: sl_rep_size [OF assms(1)] e d d1(1) len)
    moreover have "sl_rep dest1 (cloned xs (i + 1))"
      using d1(2) cloned_step [OF i] by (simp only: c(1))
    ultimately show ?thesis
      using Suc.hyps(1) [OF n, of dest1 m] d1(3)
      by (simp only: b c(2) add_0 add_0_right simp_thms)
  next
    case True
    then obtain s where s: "el_data ?e = Some s" "cstr s \<noteq> []" "terminated s"
      using trm by blast
    have read: "mem_read s 0 (length (cstr s) + 1) = Some (cstr s @ [0])"
    proof -
      obtain x t where "s = x @ 0 # t" "cstr s = x" using s(3) by (rule terminatedE)
      then show ?thesis by (simp add: mem_read_def)
    qed
    have c: "clone_elem ?e = ?d\<lparr>el_data := Some (cstr s @ [0])\<rparr>" "elem_blocks (clone_elem ?e) = 1"
      using s by (simp_all add: clone_elem_def zero_elem_def elem_blocks_def)
    obtain dest2 where d2: "set_elem dest1 i (clone_elem ?e) = Some dest2"
      "sl_rep dest2 (cloned xs (i + 1))" "sl_elems dest2 \<noteq> None"
      using set_elem_rep [OF d1(2), of i] le cloned_step [OF i] by (metis length_list_update list_update_overwrite)
    have run: "clone_loop src dest i m = (let (ok, m) = alloc m in
        if \<not> ok then do { m \<leftarrow> free_datas_loop dest1 i 0 m; Some (None, release (release m)) }
        else clone_loop src dest2 (i + 1) m)"
      using i s d2(1) by (subst clone_loop.simps)
        (simp add: sl_rep_size [OF assms(1)] e d d1(1) strlen_terminated read [unfolded Suc_eq_plus1 [symmetric]] c(1) Let_def
          cong: if_cong)
    show ?thesis
    proof (cases rule: alloc_cases [of m])
      case (1 m2)
      from Suc.hyps(1) [OF n d2(2,3), of m2] obtain r m' where
        "clone_loop src dest2 (i + 1) m2 = Some (r, m')" "plenty m2 \<longrightarrow> r \<noteq> None"
        "case r of
           None \<Rightarrow> blocks m' = blocks m2 - 2 - (?b (take i xs) + 1)
         | Some l \<Rightarrow> sl_rep l (map clone_elem xs) \<and> sl_elems l \<noteq> None \<and>
             blocks m' = blocks m2 + ?b (drop (i + 1) xs)"
        unfolding b c(2) by blast
      with 1 show ?thesis
        unfolding run b c(2) by (intro exI [of _ r] exI [of _ m']) (cases r; auto)
    next
      case (2 m2)
      have t: "take i ((cloned xs i)[i := ?d]) = map clone_elem (take i xs)"
        using cloned_at(3) [where i = i and xs = xs] i by simp
      have "i \<le> length ((cloned xs i)[i := ?d])" using le by simp
      moreover have "\<forall>e\<in>set (take i ((cloned xs i)[i := ?d])). el_userdata e = NULL"
        unfolding t by (auto simp: clone_elem_def)
      ultimately obtain m3 where "free_datas_loop dest1 i 0 m2 = Some m3" "blocks m3 = blocks m2 - ?b (take i xs)"
        using free_datas_blocks [OF d1(2), of i 0 m2] unfolding t by auto
      with 2 show ?thesis unfolding run by simp
    qed
  qed
qed

text \<open>
  \<open>string_list_clone\<close> returns a list with the same elements in the same order, each string in a
  block of its own, the attributes copied and no user data; an element whose string is empty has
  no string (\<open>NULL\<close>) in the copy. When an allocation fails it returns \<open>NULL\<close> and has freed every
  block it allocated.
\<close>
theorem string_list_clone_copies:
  assumes "sl_rep src xs" "terminated_elems xs"
  shows "\<exists>r m'. string_list_clone src m = Some (r, m') \<and> (plenty m \<longrightarrow> r \<noteq> None) \<and>
    (case r of
       None \<Rightarrow> blocks m' = blocks m
     | Some l \<Rightarrow> sl_rep l (map clone_elem xs) \<and> blocks m' = blocks m + 1 + sl_owned l (map clone_elem xs))"
proof (cases rule: alloc_cases [of m])
  case (2 m1)
  then show ?thesis by (simp add: string_list_clone_def)
next
  case (1 m1)
  let ?cap = "if sl_cap src < sl_size src then sl_size src else sl_cap src"
  let ?dest = "\<lparr>sl_elems = Some (replicate ?cap (Some zero_elem)), sl_size = sl_size src, sl_cap = ?cap\<rparr>"
  note m1 = 1
  show ?thesis
  proof (cases rule: alloc_cases [of m1])
    case (2 m2)
    with m1 show ?thesis by (auto simp: string_list_clone_def Let_def)
  next
    case (1 m2)
    have n: "sl_size src = length xs" "length xs \<le> ?cap" "?cap \<le> SIZE_MAX div sizeof_string_list_elem"
      using assms(1) by (auto simp: sl_rep_def split: option.splits)
    have "replicate ?cap (Some zero_elem) = map Some (replicate (length xs) zero_elem) @ replicate (?cap - length xs) (Some zero_elem)"
      using n(2) by (simp add: replicate_add [symmetric])
    then have "sl_rep ?dest (cloned xs 0)"
      using n by (auto simp: sl_rep_def cloned_def)
    from clone_loop_result [OF assms _ this, of m2] obtain r m' where
      "clone_loop src ?dest 0 m2 = Some (r, m')" "plenty m2 \<longrightarrow> r \<noteq> None"
      "case r of None \<Rightarrow> blocks m' = blocks m2 - 2
       | Some l \<Rightarrow> sl_rep l (map clone_elem xs) \<and> sl_elems l \<noteq> None \<and>
           blocks m' = blocks m2 + sum_list (map elem_blocks (map clone_elem xs))"
      by (auto split: option.splits)
    with m1 1 show ?thesis
      by (intro exI [of _ r] exI [of _ m']) (auto simp: string_list_clone_def Let_def sl_owned_def split: option.splits)
  qed
qed

theorem string_list_clone_copies_witness:
  "\<exists>r m'. string_list_clone abc_list \<lparr>outcomes = [True, True, True, False], blocks = 4\<rparr> = Some (r, m') \<and>
    (plenty \<lparr>outcomes = [True, True, True, False], blocks = 4\<rparr> \<longrightarrow> r \<noteq> None) \<and>
    (case r of
       None \<Rightarrow> blocks m' = blocks \<lparr>outcomes = [True, True, True, False], blocks = 4\<rparr>
     | Some l \<Rightarrow> sl_rep l (map clone_elem [string_elem [0x61] (Attr_i 0), string_elem [0x62, 0x63] (Attr_i 0)]) \<and>
         blocks m' = blocks \<lparr>outcomes = [True, True, True, False], blocks = 4\<rparr> + 1 +
           sl_owned l (map clone_elem [string_elem [0x61] (Attr_i 0), string_elem [0x62, 0x63] (Attr_i 0)]))"
  by (rule string_list_clone_copies [OF abc_list_rep]) (simp add: terminated_elems_def string_elem_def)

end
