(* ===== verification/StdString.thy ===== *)
theory StdString
  imports Cstring
begin

text \<open>
  \<open>string/stdstring.c\<close> and the inline functions of its header: character classes, in-place edits,
  trimming, substitution, tokens, numbers, percent decoding and extension lists. A string edited in
  place is its buffer; loops over two pointers into one buffer keep both as indices.
\<close>

unbundle bit_operations_syntax

section \<open>Character classes\<close>

definition lr_char_props :: "byte list" where
  "lr_char_props = [
    0x00, 0x00, 0x00, 0x00, 0x00, 0x00, 0x00, 0x00, 0x00, 0x80, 0x80, 0x00, 0x00, 0x80, 0x00, 0x00,
    0x00, 0x00, 0x00, 0x00, 0x00, 0x00, 0x00, 0x00, 0x00, 0x00, 0x00, 0x00, 0x00, 0x00, 0x00, 0x00,
    0x80, 0x00, 0x00, 0x00, 0x00, 0x00, 0x00, 0x00, 0x00, 0x00, 0x00, 0x00, 0x00, 0x00, 0x00, 0x00,
    0x41, 0x41, 0x41, 0x41, 0x41, 0x41, 0x41, 0x41, 0x41, 0x41, 0x00, 0x00, 0x00, 0x00, 0x00, 0x00,
    0x00, 0x23, 0x23, 0x23, 0x23, 0x23, 0x23, 0x22, 0x22, 0x22, 0x22, 0x22, 0x22, 0x22, 0x22, 0x22,
    0x22, 0x22, 0x22, 0x22, 0x22, 0x22, 0x22, 0x22, 0x22, 0x22, 0x22, 0x00, 0x00, 0x00, 0x00, 0x08,
    0x00, 0x25, 0x25, 0x25, 0x25, 0x25, 0x25, 0x24, 0x24, 0x24, 0x24, 0x24, 0x24, 0x24, 0x24, 0x24,
    0x24, 0x24, 0x24, 0x24, 0x24, 0x24, 0x24, 0x24, 0x24, 0x24, 0x24, 0x00, 0x00, 0x00, 0x00, 0x00,
    0x00, 0x00, 0x00, 0x00, 0x00, 0x00, 0x00, 0x00, 0x00, 0x00, 0x00, 0x00, 0x00, 0x00, 0x00, 0x00,
    0x00, 0x00, 0x00, 0x00, 0x00, 0x00, 0x00, 0x00, 0x00, 0x00, 0x00, 0x00, 0x00, 0x00, 0x00, 0x00,
    0x00, 0x00, 0x00, 0x00, 0x00, 0x00, 0x00, 0x00, 0x00, 0x00, 0x00, 0x00, 0x00, 0x00, 0x00, 0x00,
    0x00, 0x00, 0x00, 0x00, 0x00, 0x00, 0x00, 0x00, 0x00, 0x00, 0x00, 0x00, 0x00, 0x00, 0x00, 0x00,
    0x00, 0x00, 0x00, 0x00, 0x00, 0x00, 0x00, 0x00, 0x00, 0x00, 0x00, 0x00, 0x00, 0x00, 0x00, 0x00,
    0x00, 0x00, 0x00, 0x00, 0x00, 0x00, 0x00, 0x00, 0x00, 0x00, 0x00, 0x00, 0x00, 0x00, 0x00, 0x00,
    0x00, 0x00, 0x00, 0x00, 0x00, 0x00, 0x00, 0x00, 0x00, 0x00, 0x00, 0x00, 0x00, 0x00, 0x00, 0x00,
    0x00, 0x00, 0x00, 0x00, 0x00, 0x00, 0x00, 0x00, 0x00, 0x00, 0x00, 0x00, 0x00, 0x00, 0x00, 0x00]"

definition ISSPACE :: "byte \<Rightarrow> bool" where
  "ISSPACE c \<longleftrightarrow> lr_char_props ! unat c AND 0x80 \<noteq> 0"

definition ISDIGIT :: "byte \<Rightarrow> bool" where
  "ISDIGIT c \<longleftrightarrow> lr_char_props ! unat c AND 0x40 \<noteq> 0"

section \<open>Comparisons\<close>

text \<open>The inline functions of the header; a pointer that may be \<open>NULL\<close> is an option.\<close>

definition string_is_empty :: "byte list option \<Rightarrow> bool option" where
  "string_is_empty data = (case data of
     None \<Rightarrow> Some True
   | Some d \<Rightarrow> do { c \<leftarrow> deref d; Some (c = 0) })"

fun strcmp_equal :: "byte list \<Rightarrow> byte list \<Rightarrow> bool option" where
  "strcmp_equal (c # a) (d # b) =
     (if c \<noteq> d then Some False else if c = 0 then Some True else strcmp_equal a b)"
| "strcmp_equal a b = None"

text \<open>\<open>!strncmp(a, b, n)\<close>.\<close>

fun strncmp_equal :: "byte list \<Rightarrow> byte list \<Rightarrow> nat \<Rightarrow> bool option" where
  "strncmp_equal a b 0 = Some True"
| "strncmp_equal (c # a) (d # b) (Suc n) =
     (if c \<noteq> d then Some False else if c = 0 then Some True else strncmp_equal a b n)"
| "strncmp_equal a b (Suc n) = None"

text \<open>Two pointers are equal when they are the same object; \<open>same\<close> says so.\<close>

definition string_is_equal :: "bool \<Rightarrow> byte list option \<Rightarrow> byte list option \<Rightarrow> bool option" where
  "string_is_equal same a b =
     (if same then Some True
      else case (a, b) of (Some a, Some b) \<Rightarrow> strcmp_equal a b | _ \<Rightarrow> Some False)"

definition string_starts_with_size :: "byte list option \<Rightarrow> byte list option \<Rightarrow> nat \<Rightarrow> bool option" where
  "string_starts_with_size str prefix len = (case (str, prefix) of
     (Some str, Some prefix) \<Rightarrow> strncmp_equal prefix str len | _ \<Rightarrow> Some False)"

definition string_starts_with :: "byte list option \<Rightarrow> byte list option \<Rightarrow> bool option" where
  "string_starts_with str prefix = (case (str, prefix) of
     (Some str, Some prefix) \<Rightarrow> do { n \<leftarrow> strlen prefix; strncmp_equal prefix str n }
   | _ \<Rightarrow> Some False)"

definition string_ends_with_size :: "byte list \<Rightarrow> byte list \<Rightarrow> nat \<Rightarrow> nat \<Rightarrow> bool option" where
  "string_ends_with_size s suffix len suffix_len =
     (if len < suffix_len then Some False
      else do {
        a \<leftarrow> mem_read suffix 0 suffix_len;
        b \<leftarrow> mem_read s (len - suffix_len) suffix_len;
        Some (a = b) })"

definition string_ends_with :: "byte list option \<Rightarrow> byte list option \<Rightarrow> bool option" where
  "string_ends_with s suffix = (case (s, suffix) of
     (Some s, Some suffix) \<Rightarrow> do {
       n \<leftarrow> strlen s;
       k \<leftarrow> strlen suffix;
       string_ends_with_size s suffix n k }
   | _ \<Rightarrow> Some False)"

function strlen_size_loop :: "byte list \<Rightarrow> nat \<Rightarrow> nat \<Rightarrow> nat option" where
  "strlen_size_loop str len i =
     (if i < len then do { c \<leftarrow> arr_get str i; if c \<noteq> 0 then strlen_size_loop str len (i + 1) else Some i }
      else Some i)"
  by pat_completeness auto
termination by (relation "measure (\<lambda>(str, len, i). len - i)") auto

declare strlen_size_loop.simps [simp del]

definition strlen_size :: "byte list option \<Rightarrow> nat \<Rightarrow> nat option" where
  "strlen_size str len = (case str of None \<Rightarrow> Some 0 | Some str \<Rightarrow> strlen_size_loop str len 0)"

fun equal_nocase_loop :: "byte list \<Rightarrow> byte list \<Rightarrow> bool option" where
  "equal_nocase_loop (c # p1) (d # p2) =
     (if tolower c = tolower d then if c = 0 then Some True else equal_nocase_loop p1 p2
      else Some False)"
| "equal_nocase_loop p1 p2 = None"

definition string_is_equal_case_insensitive ::
    "bool \<Rightarrow> byte list option \<Rightarrow> byte list option \<Rightarrow> bool option" where
  "string_is_equal_case_insensitive same a b = (case (a, b) of
     (Some a, Some b) \<Rightarrow> if same then Some True else equal_nocase_loop a b
   | _ \<Rightarrow> Some False)"

fun prefix_nocase_loop :: "byte list \<Rightarrow> byte list \<Rightarrow> bool option" where
  "prefix_nocase_loop (c # p1) (d # p2) =
     (if tolower c = tolower d then if d = 0 then Some True else prefix_nocase_loop p1 p2
      else Some (d = 0))"
| "prefix_nocase_loop p1 p2 = None"

definition string_starts_with_case_insensitive ::
    "bool \<Rightarrow> byte list option \<Rightarrow> byte list option \<Rightarrow> bool option" where
  "string_starts_with_case_insensitive same str prefix = (case (str, prefix) of
     (Some str, Some prefix) \<Rightarrow> if same then Some True else prefix_nocase_loop str prefix
   | _ \<Rightarrow> Some False)"

section \<open>Edits in place\<close>

fun string_to_upper :: "byte list \<Rightarrow> byte list option" where
  "string_to_upper [] = None"
| "string_to_upper (c # cs) =
     (if c \<noteq> 0 then map_option ((#) (toupper c)) (string_to_upper cs) else Some (c # cs))"

fun string_to_lower :: "byte list \<Rightarrow> byte list option" where
  "string_to_lower [] = None"
| "string_to_lower (c # cs) =
     (if c \<noteq> 0 then map_option ((#) (tolower c)) (string_to_lower cs) else Some (c # cs))"

function ucwords_loop :: "byte list \<Rightarrow> nat \<Rightarrow> byte list option" where
  "ucwords_loop s i = do {
     c \<leftarrow> arr_get s i;
     if c = 0 then Some s
     else do {
       s' \<leftarrow> (if c = 0x20
          then do {
            d \<leftarrow> arr_get s (i + 1);
            if d \<noteq> 0 then arr_set s (i + 1) (toupper d) else Some s }
          else Some s);
       ucwords_loop s' (i + 1) } }"
  by pat_completeness auto
termination by (relation "measure (\<lambda>(s, i). length s - i)")
    (auto simp: arr_get_def arr_set_def split: if_splits)

declare ucwords_loop.simps [simp del]

definition string_ucwords :: "byte list option \<Rightarrow> byte list option option" where
  "string_ucwords s = (case s of
     None \<Rightarrow> Some None
   | Some s \<Rightarrow> do {
       c \<leftarrow> deref s;
       if c = 0 then Some (Some s)
       else do {
         s \<leftarrow> ucwords_loop s 0;
         c \<leftarrow> arr_get s 0;
         s \<leftarrow> arr_set s 0 (toupper c);
         Some (Some s) } })"




section \<open>Trimming\<close>

definition is_trim_left_space :: "byte \<Rightarrow> bool" where
  "is_trim_left_space c \<longleftrightarrow> c = 0x20 \<or> c = 0x09 \<or> c = 0x0a \<or> c = 0x0d \<or> c = 0x0b \<or> c = 0x0c"

fun trim_left_skip :: "byte list \<Rightarrow> byte list option" where
  "trim_left_skip [] = None"
| "trim_left_skip (c # p) = (if c \<noteq> 0 \<and> is_trim_left_space c then trim_left_skip p else Some (c # p))"

definition string_trim_whitespace_left :: "byte list option \<Rightarrow> byte list option option" where
  "string_trim_whitespace_left s = (case s of
     None \<Rightarrow> Some None
   | Some s \<Rightarrow> do {
       c \<leftarrow> deref s;
       if c = 0 then Some (Some s)
       else do {
         current \<leftarrow> trim_left_skip s;
         if length current = length s then Some (Some s)
         else do {
           n \<leftarrow> strlen current;
           bytes \<leftarrow> mem_read current 0 (n + 1);
           s \<leftarrow> mem_write s 0 bytes;
           Some (Some s) } } })"

fun trim_right_back :: "byte list \<Rightarrow> nat \<Rightarrow> nat option" where
  "trim_right_back s 0 = Some 0"
| "trim_right_back s (Suc i) = do {
     c \<leftarrow> arr_get s (Suc i);
     if ISSPACE c then trim_right_back s i else Some (Suc i) }"

definition string_trim_whitespace_right :: "byte list option \<Rightarrow> byte list option option" where
  "string_trim_whitespace_right s = (case s of
     None \<Rightarrow> Some None
   | Some s \<Rightarrow> do {
       c \<leftarrow> deref s;
       if c = 0 then Some (Some s)
       else do {
         n \<leftarrow> strlen s;
         current \<leftarrow> trim_right_back s (n - 1);
         c \<leftarrow> arr_get s current;
         s \<leftarrow> arr_set s (current + (if ISSPACE c then 0 else 1)) 0;
         Some (Some s) } })"

definition string_trim_whitespace :: "byte list option \<Rightarrow> byte list option option" where
  "string_trim_whitespace s = do {
     s \<leftarrow> string_trim_whitespace_right s;
     string_trim_whitespace_left s }"

section \<open>Tokens and characters\<close>

text \<open>
  \<open>*str\<close> is \<open>NULL\<close> or a pointer into the string, and the result is the new \<open>*str\<close> and the token, a block
  of its own; \<open>str\<close> and \<open>delim\<close> themselves may be \<open>NULL\<close>.
\<close>

definition string_tokenize :: "byte list option option \<Rightarrow> byte list option \<Rightarrow> mem \<Rightarrow>
    (byte list option option \<times> byte list option \<times> mem) option" where
  "string_tokenize str delim m = (case (str, delim) of
     (Some str', Some delim) \<Rightarrow> do {
       c \<leftarrow> deref delim;
       if c = 0 then Some (str, None, m)
       else (case str' of
         None \<Rightarrow> Some (str, None, m)
       | Some str_ptr \<Rightarrow> do {
           delim_len \<leftarrow> strlen delim;
           delim_ptr \<leftarrow> strstr str_ptr delim;
           n \<leftarrow> (case delim_ptr of Some p \<Rightarrow> Some (length str_ptr - length p) | None \<Rightarrow> strlen str_ptr);
           let (ok, m) = alloc m in
           if \<not> ok then Some (str, None, m)
           else do {
             (token, k) \<leftarrow> strlcpy (replicate (n + 1) 0) 0 str_ptr (n + 1);
             Some (Some (map_option (drop delim_len) delim_ptr), Some token, m) } }) }
   | _ \<Rightarrow> Some (str, None, m))"

function remove_chars_loop :: "byte list \<Rightarrow> byte \<Rightarrow> nat \<Rightarrow> nat \<Rightarrow> (byte list \<times> nat) option" where
  "remove_chars_loop s c dst src = do {
     x \<leftarrow> arr_get s src;
     if x = 0
     then do { s \<leftarrow> arr_set s dst 0; Some (s, dst) }
     else if x \<noteq> c
     then do { s' \<leftarrow> arr_set s dst x; remove_chars_loop s' c (dst + 1) (src + 1) }
     else remove_chars_loop s c dst (src + 1) }"
  by pat_completeness auto
termination by (relation "measure (\<lambda>(s, c, dst, src). length s - src)")
    (auto simp: arr_get_def arr_set_def split: if_splits)

declare remove_chars_loop.simps [simp del]

definition string_remove_all_chars :: "byte list \<Rightarrow> byte \<Rightarrow> (byte list \<times> nat) option" where
  "string_remove_all_chars s c = remove_chars_loop s c 0 0"

lemma strchr_suffix: "strchr s c = Some (Some p) \<Longrightarrow> length p \<le> length s \<and> p \<noteq> []"
  by (induction s) (auto split: if_splits)

function replace_chars_loop :: "byte list \<Rightarrow> byte \<Rightarrow> byte \<Rightarrow> nat \<Rightarrow> byte list option" where
  "replace_chars_loop s c replace i = do {
     r \<leftarrow> strchr (drop i s) c;
     case r of
       None \<Rightarrow> Some s
     | Some p \<Rightarrow> do {
         s' \<leftarrow> arr_set s (length s - length p) replace;
         replace_chars_loop s' c replace (length s - length p + 1) } }"
  by pat_completeness auto
termination by (relation "measure (\<lambda>(s, c, replace, i). length s - i)")
    (auto simp: arr_set_def split: if_splits dest!: strchr_suffix)

declare replace_chars_loop.simps [simp del]

definition string_replace_all_chars :: "byte list \<Rightarrow> byte \<Rightarrow> byte \<Rightarrow> byte list option" where
  "string_replace_all_chars s c replace = replace_chars_loop s c replace 0"

section \<open>Numbers\<close>

text \<open>
  \<open>strtoul\<close> on a string of digits of the base: the value, \<open>ULONG_MAX\<close> when it does not fit 64 bits;
  both callers convert the result to \<open>unsigned\<close>.
\<close>

definition string_hexval :: "byte \<Rightarrow> int" where
  "string_hexval c =
     (if 0x30 \<le> c \<and> c \<le> 0x39 then uint c - 0x30
      else if 0x61 \<le> c \<and> c \<le> 0x66 then uint c - 0x61 + 10
      else if 0x41 \<le> c \<and> c \<le> 0x46 then uint c - 0x41 + 10
      else -1)"

definition digits_value :: "nat \<Rightarrow> byte list \<Rightarrow> nat" where
  "digits_value base ds = foldl (\<lambda>n d. n * base + nat (string_hexval d)) 0 ds"

definition strtoul_digits :: "nat \<Rightarrow> byte list \<Rightarrow> nat" where
  "strtoul_digits base s = min (digits_value base (cstr s)) (2 ^ 64 - 1)"

fun all_chars :: "(byte \<Rightarrow> bool) \<Rightarrow> byte list \<Rightarrow> bool option" where
  "all_chars ok [] = None"
| "all_chars ok (c # p) = (if c = 0 then Some True else if \<not> ok c then Some False else all_chars ok p)"

definition string_to_unsigned :: "byte list option \<Rightarrow> u32 option" where
  "string_to_unsigned str = (case str of
     None \<Rightarrow> Some 0
   | Some str \<Rightarrow> do {
       c \<leftarrow> deref str;
       if c = 0 then Some 0
       else do {
         ok \<leftarrow> all_chars ISDIGIT str;
         Some (if ok then of_nat (strtoul_digits 10 str) else 0) } })"

definition isxdigit :: "byte \<Rightarrow> bool" where
  "isxdigit c \<longleftrightarrow> string_hexval c \<noteq> -1"

definition string_hex_to_unsigned :: "byte list option \<Rightarrow> u32 option" where
  "string_hex_to_unsigned str = (case str of
     None \<Rightarrow> Some 0
   | Some str \<Rightarrow> do {
       c \<leftarrow> deref str;
       if c = 0 then Some 0
       else do {
         prefixed \<leftarrow> (if c = 0x30
           then do { d \<leftarrow> arr_get str 1; Some (d = 0x78 \<or> d = 0x58) }
           else Some False);
         let hex_str = (if prefixed then drop 2 str else str);
         h \<leftarrow> deref hex_str;
         if prefixed \<and> h = 0 then Some 0
         else do {
           ok \<leftarrow> all_chars isxdigit hex_str;
           Some (if ok then of_nat (strtoul_digits 16 hex_str) else 0) } } })"

section \<open>Percent decoding\<close>

text \<open>
  The loop of \<open>string_percent_decode\<close>: the source is a suffix, the destination a buffer with the
  index \<open>_len\<close>. The result is \<open>-1\<close> when \<open>s\<close> is too small, and otherwise the length cast to \<open>int\<close>.
\<close>

definition percent_char :: "byte \<Rightarrow> byte list \<Rightarrow> (byte \<times> byte list) option" where
  "percent_char c src =
     (if c = 0x25
      then do {
        h \<leftarrow> deref src;
        let hi = string_hexval h;
        lo \<leftarrow> (if hi \<ge> 0 then do { l \<leftarrow> arr_get src 1; Some (string_hexval l) } else Some (-1));
        if lo \<ge> 0
        then Some (push_bit 4 (word_of_int hi) OR word_of_int lo, drop 2 src)
        else Some (c, src) }
      else Some (c, src))"

lemma percent_char_suffix: "percent_char c src = Some (c', src') \<Longrightarrow> length src' \<le> length src"
  by (auto simp: percent_char_def Let_def split: if_splits Option.bind_splits)

function percent_loop :: "byte list \<Rightarrow> nat \<Rightarrow> byte list \<Rightarrow> nat \<Rightarrow> (byte list \<times> int) option" where
  "percent_loop s len [] k = None"
| "percent_loop s len (c # src) k =
     (if c \<noteq> 0
      then do {
        (c', src') \<leftarrow> percent_char c src;
        if k + 1 \<ge> len
        then do { s \<leftarrow> arr_set s k 0; Some (s, -1) }
        else do {
          s' \<leftarrow> arr_set s k c';
          percent_loop s' len src' (k + 1) } }
      else do { s \<leftarrow> arr_set s k 0; Some (s, sint (of_nat k :: 32 word)) })"
  by pat_completeness auto
termination by (relation "measure (\<lambda>(s, len, src, k). length src)")
    (auto dest: percent_char_suffix)

definition string_percent_decode ::
    "byte list option \<Rightarrow> nat \<Rightarrow> byte list option \<Rightarrow> (byte list option \<times> int) option" where
  "string_percent_decode s len src = (case (s, src) of
     (Some s', Some src) \<Rightarrow>
       if len = 0 then Some (s, -1)
       else do { (s, r) \<leftarrow> percent_loop s' len src 0; Some (Some s, r) }
   | _ \<Rightarrow> Some (s, -1))"

text \<open>
  The same call with \<open>s == src\<close>: one block, read at \<open>i\<close> and written at \<open>k\<close>. The write never passes the
  read, so the result is that of two blocks of the same content.
\<close>

function percent_in_place_loop :: "byte list \<Rightarrow> nat \<Rightarrow> nat \<Rightarrow> nat \<Rightarrow> (byte list \<times> int) option" where
  "percent_in_place_loop s len i k =
     (case drop i s of
        [] \<Rightarrow> None
      | c # src \<Rightarrow>
          if c \<noteq> 0
          then do {
            (c', src') \<leftarrow> percent_char c src;
            if k + 1 \<ge> len
            then do { s \<leftarrow> arr_set s k 0; Some (s, -1) }
            else do {
              s' \<leftarrow> arr_set s k c';
              percent_in_place_loop s' len (length s - length src') (k + 1) } }
          else do { s \<leftarrow> arr_set s k 0; Some (s, sint (of_nat k :: 32 word)) })"
  by pat_completeness auto
termination
proof (relation "measure (\<lambda>(s, len, i, k). length s - i)", simp)
  fix s :: "byte list" and len i k c src and x and c' src' and s' :: "byte list"
  assume "drop i s = c # src" "percent_char c src = Some x" "(c', src') = x" "arr_set s k c' = Some s'"
  then have "length src' \<le> length src" "length s' = length s" "length (drop i s) = Suc (length src)"
    by (auto dest: percent_char_suffix simp: arr_set_def split: if_splits)
  then show "((s', len, length s - length src', k + 1), s, len, i, k) \<in> measure (\<lambda>(s, len, i, k). length s - i)"
    by simp
qed

declare percent_in_place_loop.simps [simp del]

definition string_percent_decode_in_place :: "byte list \<Rightarrow> nat \<Rightarrow> (byte list \<times> int) option" where
  "string_percent_decode_in_place s len = (if len = 0 then Some (s, -1) else percent_in_place_loop s len 0 0)"

section \<open>Counting and cleaning\<close>

text \<open>The counter is an \<open>int\<close>; one more than \<open>INT_MAX\<close> occurrences is signed overflow.\<close>

fun count_occurrences :: "byte list \<Rightarrow> byte \<Rightarrow> nat \<Rightarrow> nat option" where
  "count_occurrences [] c count = None"
| "count_occurrences (x # str) c count =
     (if x = 0 then Some count
      else if x = c then if count + 1 < 2 ^ 31 then count_occurrences str c (count + 1) else None
      else count_occurrences str c count)"

definition string_count_occurrences_single_character :: "byte list \<Rightarrow> byte \<Rightarrow> nat option" where
  "string_count_occurrences_single_character str c = count_occurrences str c 0"

fun string_replace_whitespace_with_single_character :: "byte list \<Rightarrow> byte \<Rightarrow> byte list option" where
  "string_replace_whitespace_with_single_character [] c = None"
| "string_replace_whitespace_with_single_character (x # s) c =
     (if x = 0 then Some (x # s)
      else map_option ((#) (if ISSPACE x then c else x))
        (string_replace_whitespace_with_single_character s c))"

function multi_space_loop :: "byte list \<Rightarrow> nat \<Rightarrow> nat \<Rightarrow> bool \<Rightarrow> byte list option" where
  "multi_space_loop s dst src prev_is_space = do {
     x \<leftarrow> arr_get s src;
     if x = 0 then arr_set s dst 0
     else let curr_is_space = ISSPACE x in
       if prev_is_space \<and> curr_is_space then multi_space_loop s dst (src + 1) prev_is_space
       else do {
         s' \<leftarrow> arr_set s dst x;
         multi_space_loop s' (dst + 1) (src + 1) curr_is_space } }"
  by pat_completeness auto
termination by (relation "measure (\<lambda>(s, dst, src, p). length s - src)")
    (auto simp: arr_get_def arr_set_def split: if_splits)

declare multi_space_loop.simps [simp del]

definition string_replace_multi_space_with_single_space :: "byte list \<Rightarrow> byte list option" where
  "string_replace_multi_space_with_single_space s = multi_space_loop s 0 0 False"

text \<open>Copies into another buffer \<open>s\<close>, from its index \<open>k\<close> on.\<close>

fun remove_whitespace_loop :: "byte list \<Rightarrow> byte list \<Rightarrow> nat \<Rightarrow> (byte list \<times> nat) option" where
  "remove_whitespace_loop s [] k = None"
| "remove_whitespace_loop s (x # str) k =
     (if x = 0 then do { s \<leftarrow> arr_set s k 0; Some (s, k) }
      else if \<not> ISSPACE x then do { s \<leftarrow> arr_set s k x; remove_whitespace_loop s str (k + 1) }
      else remove_whitespace_loop s str k)"

definition string_remove_all_whitespace :: "byte list \<Rightarrow> byte list \<Rightarrow> (byte list \<times> nat) option" where
  "string_remove_all_whitespace s str = remove_whitespace_loop s str 0"

fun copy_ascii_loop :: "byte list \<Rightarrow> byte list \<Rightarrow> nat \<Rightarrow> byte list option" where
  "copy_ascii_loop s [] k = None"
| "copy_ascii_loop s (x # str) k =
     (if x = 0 then arr_set s k 0
      else if sint x > 0x1F \<and> sint x < 0x7F then do { s \<leftarrow> arr_set s k x; copy_ascii_loop s str (k + 1) }
      else copy_ascii_loop s str k)"

definition string_copy_only_ascii :: "byte list \<Rightarrow> byte list \<Rightarrow> byte list option" where
  "string_copy_only_ascii s str = copy_ascii_loop s str 0"

section \<open>Appending with a position\<close>

definition strlcpy_append :: "byte list option \<Rightarrow> nat \<Rightarrow> nat option \<Rightarrow> byte list option \<Rightarrow>
    (byte list option \<times> nat option \<times> int) option" where
  "strlcpy_append s len pos src = (case (s, pos, src) of
     (Some s', Some pos', Some src) \<Rightarrow>
       if len = 0 then Some (s, pos, -1)
       else if pos' \<ge> len then Some (s, Some (len - 1), -1)
       else do {
         let remaining = len - pos';
         (s', n) \<leftarrow> strlcpy s' pos' src remaining;
         if n \<ge> remaining then Some (Some s', Some (len - 1), -1)
         else Some (Some s', Some (pos' + n), 0) }
   | _ \<Rightarrow> Some (s, pos, -1))"

section \<open>Positions\<close>

text \<open>\<open>strrchr\<close>, as the distance of the last occurrence; the results are cast to \<open>int\<close>.\<close>

fun strrchr :: "byte list \<Rightarrow> byte \<Rightarrow> nat option option" where
  "strrchr [] c = None"
| "strrchr (x # s) c =
     (if x = 0 then Some (if c = 0 then Some 0 else None)
      else do {
        r \<leftarrow> strrchr s c;
        Some (case r of Some k \<Rightarrow> Some (k + 1) | None \<Rightarrow> if x = c then Some 0 else None) })"

definition string_index_last_occurance :: "byte list \<Rightarrow> byte \<Rightarrow> u32 option" where
  "string_index_last_occurance str c = do {
     pos \<leftarrow> strrchr str c;
     Some (case pos of Some k \<Rightarrow> of_nat k | None \<Rightarrow> -1) }"

definition string_find_index_substring_string :: "byte list \<Rightarrow> byte list \<Rightarrow> u32 option" where
  "string_find_index_substring_string str substr = do {
     pos \<leftarrow> strstr str substr;
     Some (case pos of Some p \<Rightarrow> of_nat (length str - length p) | None \<Rightarrow> -1) }"

section \<open>Extension lists\<close>

text \<open>
  Lists separated by \<open>|\<close>, given with their length. \<open>memchr\<close> on the part from \<open>p\<close> to \<open>end\<close>: the distance
  to the separator, or to the end.
\<close>

definition ext_bar :: byte where
  "ext_bar = 0x7c"

function ext_list_find_loop :: "byte list \<Rightarrow> nat \<Rightarrow> nat \<Rightarrow> byte list \<Rightarrow> nat \<Rightarrow> bool option" where
  "ext_list_find_loop delim_str delim_len p ext ext_len =
     (if p < delim_len
      then do {
        part \<leftarrow> mem_read delim_str p (delim_len - p);
        let tok_len = length (takeWhile (\<lambda>c. c \<noteq> ext_bar) part);
        eq \<leftarrow> (if tok_len = ext_len
          then do { a \<leftarrow> mem_read delim_str p ext_len; b \<leftarrow> mem_read ext 0 ext_len; Some (a = b) }
          else Some False);
        if eq then Some True
        else ext_list_find_loop delim_str delim_len (p + tok_len + 1) ext ext_len }
      else Some False)"
  by pat_completeness auto
termination by (relation "measure (\<lambda>(s, n, p, e, k). n - p)") auto

declare ext_list_find_loop.simps [simp del]

definition string_ext_list_find :: "byte list \<Rightarrow> nat \<Rightarrow> byte list \<Rightarrow> nat \<Rightarrow> bool option" where
  "string_ext_list_find delim_str delim_len ext ext_len =
     ext_list_find_loop delim_str delim_len 0 ext ext_len"

definition string_ext_list_append_dedup ::
    "byte list \<Rightarrow> nat \<Rightarrow> nat \<Rightarrow> byte list \<Rightarrow> nat \<Rightarrow> (byte list \<times> nat) option" where
  "string_ext_list_append_dedup dst dst_len dst_size ext ext_len =
     (if ext_len = 0 then Some (dst, dst_len)
      else do {
        found \<leftarrow> string_ext_list_find dst dst_len ext ext_len;
        if found then Some (dst, dst_len)
        else if dst_len + 1 + ext_len + 1 > dst_size then Some (dst, dst_len)
        else do {
          (dst, dst_len) \<leftarrow> (if dst_len > 0
            then do { dst \<leftarrow> arr_set dst dst_len ext_bar; Some (dst, dst_len + 1) }
            else Some (dst, dst_len));
          bytes \<leftarrow> mem_read ext 0 ext_len;
          dst \<leftarrow> mem_write dst dst_len bytes;
          let dst_len = dst_len + ext_len;
          dst \<leftarrow> arr_set dst dst_len 0;
          Some (dst, dst_len) } })"

function ext_list_merge_loop :: "byte list \<Rightarrow> nat \<Rightarrow> nat \<Rightarrow> byte list \<Rightarrow> nat \<Rightarrow> nat \<Rightarrow>
    (byte list \<times> nat) option" where
  "ext_list_merge_loop dst dst_len dst_size src n p =
     (if p < n
      then do {
        part \<leftarrow> mem_read src p (n - p);
        let tok_len = length (takeWhile (\<lambda>c. c \<noteq> ext_bar) part);
        (dst', dst_len') \<leftarrow> (if tok_len > 0
          then string_ext_list_append_dedup dst dst_len dst_size (drop p src) tok_len
          else Some (dst, dst_len));
        ext_list_merge_loop dst' dst_len' dst_size src n (p + tok_len + 1) }
      else Some (dst, dst_len))"
  by pat_completeness auto
termination by (relation "measure (\<lambda>(d, l, z, s, n, p). n - p)") auto

declare ext_list_merge_loop.simps [simp del]

definition string_ext_list_merge_dedup ::
    "byte list \<Rightarrow> nat \<Rightarrow> nat \<Rightarrow> byte list option \<Rightarrow> (byte list \<times> nat) option" where
  "string_ext_list_merge_dedup dst dst_len dst_size src = (case src of
     None \<Rightarrow> Some (dst, dst_len)
   | Some src \<Rightarrow> do {
       c \<leftarrow> deref src;
       if c = 0 then Some (dst, dst_len)
       else do {
         n \<leftarrow> strlen src;
         ext_list_merge_loop dst dst_len dst_size src n 0 } })"

section \<open>Character classes and edits\<close>

text \<open>The table says what its comment says: blanks are tab, line feed, carriage return and space.\<close>

lemma table_classes: "list_all (\<lambda>n.
    (ISSPACE (of_nat n) \<longleftrightarrow> n \<in> {9, 10, 13, 32}) \<and> (ISDIGIT (of_nat n) \<longleftrightarrow> 48 \<le> n \<and> n \<le> 57)) [0..<256]"
  by code_simp

lemma byte_range: "unat (c :: byte) \<in> set [0..<256]" "(of_nat (unat c) :: byte) = c"
proof -
  have "unat c < 256" using unsigned_less [of c, where ?'a = nat] by simp
  then show "unat c \<in> set [0..<256]" by (simp only: atLeastLessThan_iff set_upt) simp
qed simp

lemma ISSPACE_iff: "ISSPACE c \<longleftrightarrow> unat c \<in> {9, 10, 13, 32}"
  and ISDIGIT_iff: "ISDIGIT c \<longleftrightarrow> 48 \<le> unat c \<and> unat c \<le> 57"
  using table_classes [unfolded list_all_iff, THEN bspec, OF byte_range(1) [of c]]
  unfolding byte_range(2) by (simp_all only: simp_thms)

lemma not_space_0 [simp]: "\<not> ISSPACE 0"
  by (simp add: ISSPACE_iff)

lemma string_to_upper_maps: "0 \<notin> set x \<Longrightarrow> string_to_upper (x @ 0 # t) = Some (map toupper x @ 0 # t)"
  by (induction x) auto

lemma string_to_lower_maps: "0 \<notin> set x \<Longrightarrow> string_to_lower (x @ 0 # t) = Some (map tolower x @ 0 # t)"
  by (induction x) auto

lemma replace_whitespace_maps:
  "0 \<notin> set x \<Longrightarrow> string_replace_whitespace_with_single_character (x @ 0 # t) c =
     Some (map (\<lambda>b. if ISSPACE b then c else b) x @ 0 # t)"
  by (induction x) auto

text \<open>A pointer that writes behind the one that reads.\<close>

lemma remove_chars_loop_filters:
  "0 \<notin> set x \<Longrightarrow> dst = length out \<Longrightarrow> src = length out + length gap \<Longrightarrow>
   \<exists>t'. remove_chars_loop (out @ gap @ x @ 0 # t) c dst src =
     Some (out @ filter (\<lambda>b. b \<noteq> c) x @ 0 # t', length out + length (filter (\<lambda>b. b \<noteq> c) x)) \<and>
     length t' + length (filter (\<lambda>b. b \<noteq> c) x) = length gap + length x + length t"
proof (induction x arbitrary: out gap dst src)
  case Nil
  have g: "arr_get (out @ gap @ 0 # t) src = Some 0"
    using Nil by (simp add: arr_get_def nth_append)
  show ?case
  proof (cases gap)
    case Nil
    then show ?thesis
      using g \<open>dst = _\<close> \<open>src = _\<close> by (subst remove_chars_loop.simps) (simp add: arr_set_def)
  next
    case (Cons b gap')
    then show ?thesis
      using g \<open>dst = _\<close> \<open>src = _\<close> by (subst remove_chars_loop.simps) (simp add: arr_set_def list_update_append)
  qed
next
  case (Cons a x)
  have g: "arr_get (out @ gap @ (a # x) @ 0 # t) src = Some a" "a \<noteq> 0"
    using Cons.prems by (auto simp: arr_get_def nth_append)
  show ?case
  proof (cases "a = c")
    case True
    have "\<exists>t'. remove_chars_loop (out @ (gap @ [a]) @ x @ 0 # t) c dst (src + 1) =
       Some (out @ filter (\<lambda>b. b \<noteq> c) x @ 0 # t', length out + length (filter (\<lambda>b. b \<noteq> c) x)) \<and>
       length t' + length (filter (\<lambda>b. b \<noteq> c) x) = length (gap @ [a]) + length x + length t"
      using Cons.prems by (intro Cons.IH) auto
    then show ?thesis
      using g True by (subst remove_chars_loop.simps) simp
  next
    case False
    obtain gap' where set: "arr_set (out @ gap @ (a # x) @ 0 # t) dst a = Some ((out @ [a]) @ gap' @ x @ 0 # t)"
      "length gap' = length gap"
    proof (cases gap)
      case Nil
      then show ?thesis using that [of "[]"] Cons.prems by (simp add: arr_set_def list_update_append)
    next
      case (Cons b gap')
      then show ?thesis
        using that [of "gap' @ [a]"] \<open>dst = length out\<close> by (simp add: arr_set_def list_update_append)
    qed
    have "\<exists>t'. remove_chars_loop ((out @ [a]) @ gap' @ x @ 0 # t) c (dst + 1) (src + 1) =
       Some ((out @ [a]) @ filter (\<lambda>b. b \<noteq> c) x @ 0 # t', length (out @ [a]) + length (filter (\<lambda>b. b \<noteq> c) x)) \<and>
       length t' + length (filter (\<lambda>b. b \<noteq> c) x) = length gap' + length x + length t"
      using Cons.prems set(2) by (intro Cons.IH) auto
    then show ?thesis
      using g False set by (subst remove_chars_loop.simps) simp
  qed
qed

lemma string_remove_all_chars_filters:
  assumes "terminated s"
  shows "\<exists>s'. string_remove_all_chars s c = Some (s', length (filter (\<lambda>b. b \<noteq> c) (cstr s))) \<and>
    length s' = length s \<and> terminated s' \<and> cstr s' = filter (\<lambda>b. b \<noteq> c) (cstr s)"
proof -
  obtain x t where s: "s = x @ 0 # t" "0 \<notin> set x" "cstr s = x" using assms by (rule terminatedE)
  then show ?thesis
    using remove_chars_loop_filters [of x 0 "[]" 0 "[]" t c]
    by (auto simp: string_remove_all_chars_def cstr_append)
qed

section \<open>Trimming removes the blanks at both ends\<close>

definition drop_trailing :: "('a \<Rightarrow> bool) \<Rightarrow> 'a list \<Rightarrow> 'a list" where
  "drop_trailing P xs = rev (dropWhile P (rev xs))"

lemma drop_trailing_snoc: "drop_trailing P (xs @ [x]) = (if P x then drop_trailing P xs else xs @ [x])"
  by (simp add: drop_trailing_def)

lemma trim_left_skip_result:
  "0 \<notin> set x \<Longrightarrow> trim_left_skip (x @ 0 # t) = Some (dropWhile is_trim_left_space x @ 0 # t)"
  by (induction x) auto

lemma string_trim_whitespace_left_result:
  assumes "terminated s"
  shows "\<exists>s'. string_trim_whitespace_left (Some s) = Some (Some s') \<and> length s' = length s \<and> terminated s' \<and>
    cstr s' = dropWhile is_trim_left_space (cstr s)"
proof -
  obtain x t where s: "s = x @ 0 # t" "0 \<notin> set x" "cstr s = x" using assms by (rule terminatedE)
  let ?y = "dropWhile is_trim_left_space x"
  obtain c where c: "deref s = Some c" "c = 0 \<longleftrightarrow> x = []" using s(1,2) by (cases x) auto
  have skip: "trim_left_skip s = Some (?y @ 0 # t)" unfolding s(1) using s(2) by (rule trim_left_skip_result)
  have y0: "0 \<notin> set ?y" using s(2) by (meson set_dropWhileD)
  have le: "length ?y \<le> length x" by (rule length_dropWhile_le)
  show ?thesis
  proof (cases "x = [] \<or> length ?y = length x")
    case True
    then have "?y = x" by (metis dropWhile.simps(1) dropWhile_eq_drop append_Nil length_0_conv length_append
      add_cancel_left_left takeWhile_dropWhile_id)
    with True c skip s show ?thesis by (auto simp: string_trim_whitespace_left_def)
  next
    case False
    have len: "length s = length x + 1 + length t" by (simp add: s(1))
    have w: "mem_write s 0 (?y @ [0]) = Some (?y @ 0 # drop (length ?y + 1) s)"
      using le by (simp add: mem_write_def s(1))
    have r: "mem_read (?y @ 0 # t) 0 (length ?y + 1) = Some (?y @ [0])" by (simp add: mem_read_def)
    have "string_trim_whitespace_left (Some s) = Some (Some (?y @ 0 # drop (length ?y + 1) s))"
      using False c y0 r w len by (auto simp: string_trim_whitespace_left_def skip)
    then show ?thesis using y0 le by (simp add: cstr_append s)
  qed
qed

text \<open>The backward scan stops at the last byte that is not blank, or at the first byte.\<close>

lemma trim_right_back_result:
  assumes "i < length x"
  shows "\<exists>k\<le>i. trim_right_back (x @ r) i = Some k \<and> (k = 0 \<or> \<not> ISSPACE (x ! k)) \<and>
    (\<forall>j. k < j \<and> j \<le> i \<longrightarrow> ISSPACE (x ! j))"
  using assms
proof (induction i)
  case (Suc i)
  then have g: "arr_get (x @ r) (Suc i) = Some (x ! Suc i)" by (simp add: arr_get_def nth_append)
  show ?case
  proof (cases "ISSPACE (x ! Suc i)")
    case True
    with Suc obtain k where "k \<le> i" "trim_right_back (x @ r) i = Some k" "k = 0 \<or> \<not> ISSPACE (x ! k)"
      "\<forall>j. k < j \<and> j \<le> i \<longrightarrow> ISSPACE (x ! j)"
      by auto
    with g True show ?thesis by (intro exI [of _ k]) (auto simp: le_Suc_eq)
  qed (use g in auto)
qed simp

lemma drop_trailing_take:
  assumes "k < length x" "\<not> P (x ! k)" "\<forall>j. k < j \<and> j < length x \<longrightarrow> P (x ! j)"
  shows "drop_trailing P x = take (k + 1) x"
proof -
  have "\<forall>y\<in>set (drop (k + 1) x). P y"
    using assms(3) by (auto simp: in_set_conv_nth)
  moreover have "x = take k x @ [x ! k] @ drop (k + 1) x"
    using assms(1) by (simp add: Cons_nth_drop_Suc)
  then have "rev x = rev (drop (k + 1) x) @ x ! k # rev (take k x)"
    by (metis append_Cons append_Nil append_assoc rev.simps(2) rev_append rev_singleton_conv)
  ultimately have "dropWhile P (rev x) = x ! k # rev (take k x)"
    using assms(2) dropWhile_append2 [of "rev (drop (k + 1) x)" P "x ! k # rev (take k x)"]
    by (simp add: dropWhile_append2)
  then show ?thesis
    using assms(1) by (simp add: drop_trailing_def take_Suc_conv_app_nth)
qed

lemma cut_string:
  assumes "j \<le> length x" "0 \<notin> set x"
  shows "length (take j x @ 0 # drop (j + 1) (x @ 0 # t)) = length (x @ 0 # t) \<and>
    cstr (take j x @ 0 # drop (j + 1) (x @ 0 # t)) = take j x \<and>
    terminated (take j x @ 0 # drop (j + 1) (x @ 0 # t))"
proof -
  have "0 \<notin> set (take j x)" using assms(2) by (meson in_set_takeD)
  then show ?thesis using assms(1) by (simp add: cstr_append)
qed

lemma string_trim_whitespace_right_result:
  assumes "terminated s"
  shows "\<exists>s'. string_trim_whitespace_right (Some s) = Some (Some s') \<and> length s' = length s \<and> terminated s' \<and>
    cstr s' = drop_trailing ISSPACE (cstr s)"
proof -
  obtain x t where s: "s = x @ 0 # t" "0 \<notin> set x" "cstr s = x" using assms by (rule terminatedE)
  show ?thesis
  proof (cases "x = []")
    case True
    then show ?thesis by (simp add: string_trim_whitespace_right_def s drop_trailing_def)
  next
    case False
    then obtain c x' where c: "x = c # x'" "c \<noteq> 0" using s(2) by (cases x) auto
    have "length x - 1 < length x" using c by simp
    from trim_right_back_result [OF this, of "0 # t"] obtain k where k: "k \<le> length x - 1"
      "trim_right_back s (length x - 1) = Some k" "k = 0 \<or> \<not> ISSPACE (x ! k)"
      "\<forall>j. k < j \<and> j \<le> length x - 1 \<longrightarrow> ISSPACE (x ! j)"
      unfolding s(1) by blast
    have kl: "k < length x" using k(1) c by simp
    have g: "arr_get s k = Some (x ! k)" using kl by (simp add: s(1) arr_get_def nth_append)
    have n: "strlen s = Some (length x)" using s(1,2) by simp
    have d: "deref s = Some c" by (simp add: s(1) c(1))
    have set: "arr_set s j 0 = Some (take j x @ 0 # drop (j + 1) s)" if "j \<le> length x" for j
      using that by (simp add: arr_set_def s(1) upd_conv_take_nth_drop)
    let ?j = "k + (if ISSPACE (x ! k) then 0 else 1)"
    have run: "string_trim_whitespace_right (Some s) = Some (Some (take ?j x @ 0 # drop (?j + 1) s))"
      using c(2) kl by (simp add: string_trim_whitespace_right_def d n k(2) [unfolded One_nat_def] g set)
    have "take ?j x = drop_trailing ISSPACE x"
    proof (cases "ISSPACE (x ! k)")
      case True
      then have "k = 0" using k(3) by simp
      then have "ISSPACE (x ! j)" if "j < length x" for j
        using k(4) True that by (cases j) auto
      then have "\<forall>y\<in>set x. ISSPACE y" by (metis in_set_conv_nth)
      then show ?thesis using True k(3) by (simp add: drop_trailing_def dropWhile_eq_Nil_conv [THEN iffD2])
    next
      case False
      moreover have "\<forall>j. k < j \<and> j < length x \<longrightarrow> ISSPACE (x ! j)" using k(4) by auto
      ultimately show ?thesis using kl drop_trailing_take [of k x ISSPACE] False by auto
    qed
    moreover have "?j \<le> length x" using kl by simp
    ultimately show ?thesis
      using cut_string [of ?j x t] s(2) unfolding run s(3) unfolding s(1) by auto
  qed
qed

text \<open>
  \<open>string_trim_whitespace\<close> on any terminated string stays inside its buffer and leaves exactly the
  string without its trailing blanks (space, tab, line feed, carriage return: the class of the
  table) and then without its leading ones, where the vertical tab and the form feed count as
  blanks too.
\<close>
theorem string_trim_whitespace_trims:
  assumes "terminated s"
  shows "\<exists>s'. string_trim_whitespace (Some s) = Some (Some s') \<and> length s' = length s \<and> terminated s' \<and>
    cstr s' = dropWhile is_trim_left_space (drop_trailing ISSPACE (cstr s))"
proof -
  obtain s1 where "string_trim_whitespace_right (Some s) = Some (Some s1)" "length s1 = length s"
    "terminated s1" "cstr s1 = drop_trailing ISSPACE (cstr s)"
    using string_trim_whitespace_right_result [OF assms] by blast
  then show ?thesis
    using string_trim_whitespace_left_result [of s1] by (simp add: string_trim_whitespace_def)
qed

theorem string_trim_whitespace_trims_witness:
  "\<exists>s'. string_trim_whitespace (Some [0x0b, 0x20, 0x61, 0x20, 0x62, 0x0d, 0x0a, 0]) = Some (Some s') \<and>
    length s' = length [0x0b, 0x20, 0x61, 0x20, 0x62, 0x0d, 0x0a, 0 :: byte] \<and> terminated s' \<and>
    cstr s' = dropWhile is_trim_left_space
      (drop_trailing ISSPACE (cstr [0x0b, 0x20, 0x61, 0x20, 0x62, 0x0d, 0x0a, 0]))"
  by (rule string_trim_whitespace_trims) simp

section \<open>Substitution\<close>














section \<open>Percent decoding inverts encoding\<close>

text \<open>The encoder the decoder is meant for: bytes outside \<open>plain\<close> are written \<open>%XX\<close>.\<close>

definition hex_char :: "nat \<Rightarrow> byte" where
  "hex_char n = (if n < 10 then of_nat (0x30 + n) else of_nat (0x41 + (n - 10)))"

definition percent_encode :: "(byte \<Rightarrow> bool) \<Rightarrow> byte list \<Rightarrow> byte list" where
  "percent_encode plain xs = concat (map (\<lambda>c.
     if plain c then [c] else [0x25, hex_char (unat c div 16), hex_char (unat c mod 16)]) xs)"

lemma hex_char_value_table: "list_all (\<lambda>n. string_hexval (hex_char n) = int n) [0..<16]"
  by code_simp

lemma hex_char_value: "n < 16 \<Longrightarrow> string_hexval (hex_char n) = int n"
  using hex_char_value_table [unfolded list_all_iff] by simp

lemma nibbles: "push_bit 4 (word_of_int (int (unat c div 16))) OR word_of_int (int (unat c mod 16)) = (c :: byte)"
proof -
  have "unat c div 16 = unat (drop_bit 4 c)"
    by (simp only: unat_drop_bit_eq) (simp only: drop_bit_eq_div, simp)
  moreover have "unat c mod 16 = unat (take_bit 4 c)"
    by (simp only: unsigned_take_bit_eq) (simp only: take_bit_eq_mod, simp)
  moreover have "push_bit 4 (drop_bit 4 c) OR take_bit 4 c = c"
    by (rule bit_word_eqI) (auto simp: bit_simps)
  moreover have "(word_of_int (int (unat w)) :: byte) = w" for w by simp
  ultimately show ?thesis by (simp only:)
qed

lemma percent_char_encoded:
  "percent_char 0x25 (hex_char (unat c div 16) # hex_char (unat c mod 16) # r) = Some (c, r)"
proof -
  have "unat c < 256" using unsigned_less [of c, where ?'a = nat] by simp
  then have "unat c div 16 < 16" "unat c mod 16 < 16" by auto
  then have "string_hexval (hex_char (unat c div 16)) = int (unat c div 16)"
    "string_hexval (hex_char (unat c mod 16)) = int (unat c mod 16)"
    by (simp_all only: hex_char_value)
  then show ?thesis
    unfolding percent_char_def Let_def arr_get_def
    by (simp only: deref.simps bind.bind_lunit nibbles) (simp add: nibbles del: of_int_of_nat_eq)
qed

lemma length_percent_encode: "length xs \<le> length (percent_encode plain xs)"
  by (induction xs) (simp_all add: percent_encode_def)

lemma percent_loop_decodes:
  assumes plain: "\<And>c. plain c \<Longrightarrow> c \<noteq> 0 \<and> c \<noteq> 0x25"
  shows "length out + length xs < len \<Longrightarrow> length xs < length gap \<Longrightarrow>
    percent_loop (out @ gap) len (percent_encode plain xs @ 0 # t) (length out) =
      Some (out @ xs @ 0 # drop (length xs + 1) gap, sint (of_nat (length out + length xs) :: 32 word))"
proof (induction xs arbitrary: out gap)
  case Nil
  then obtain g gap' where "gap = g # gap'" by (cases gap) auto
  then show ?case by (simp add: percent_encode_def arr_set_def list_update_append)
next
  case (Cons c xs)
  then obtain g gap' where gap: "gap = g # gap'" by (cases gap) auto
  have set: "arr_set (out @ gap) (length out) c = Some ((out @ [c]) @ gap')"
    by (simp add: gap arr_set_def list_update_append)
  have IH: "percent_loop ((out @ [c]) @ gap') len (percent_encode plain xs @ 0 # t) (length (out @ [c])) =
      Some ((out @ [c]) @ xs @ 0 # drop (length xs + 1) gap', sint (of_nat (length (out @ [c]) + length xs) :: 32 word))"
    using Cons.prems by (intro Cons.IH) (simp_all add: gap)
  have room: "\<not> length out + 1 \<ge> len" using Cons.prems(1) by simp
  show ?case
  proof (cases "plain c")
    case True
    then have "percent_char c r = Some (c, r)" "c \<noteq> 0" for r using plain by (auto simp: percent_char_def)
    then show ?thesis
      using True IH room set by (simp add: percent_encode_def gap)
  next
    case False
    then have e: "percent_encode plain (c # xs) @ 0 # t =
        0x25 # hex_char (unat c div 16) # hex_char (unat c mod 16) # percent_encode plain xs @ 0 # t"
      by (simp add: percent_encode_def)
    show ?thesis
      using IH room set unfolding e by (simp add: percent_char_encoded gap)
  qed
qed

text \<open>In place, what is read has not been written yet.\<close>

lemma percent_char_split: "percent_char c src = Some (c', src') \<Longrightarrow> \<exists>w. src = w @ src'"
  by (auto simp: percent_char_def Let_def intro: exI [of _ "take 2 src"] split: if_splits Option.bind_splits)

lemma percent_in_place_loop_eq:
  "k \<le> i \<Longrightarrow> percent_in_place_loop s len i k = percent_loop s len (drop i s) k"
proof (induction s len i k rule: percent_in_place_loop.induct)
  case (1 s len i k)
  show ?case
  proof (cases "drop i s")
    case Nil
    then show ?thesis by (subst percent_in_place_loop.simps) simp
  next
    case (Cons c src)
    note d = Cons
    show ?thesis
    proof (cases "c \<noteq> 0 \<and> percent_char c src \<noteq> None \<and> \<not> k + 1 \<ge> len")
      case False
      then show ?thesis
        by (cases "percent_char c src") (subst percent_in_place_loop.simps, auto simp: d)+
    next
      case True
      then obtain c' src' where pc: "percent_char c src = Some (c', src')" by auto
      then obtain w where w: "src = w @ src'" using percent_char_split by blast
      have n: "length s = i + Suc (length w + length src')"
        using arg_cong [OF d, of length] w by simp
      let ?i = "length s - length src'" and ?s = "s[k := c']"
      have set: "arr_set s k c' = Some ?s" using n 1(2) by (simp add: arr_set_def)
      have rest: "drop ?i ?s = src'"
      proof -
        have "drop ?i s = drop (Suc (length w)) (drop i s)" using n by (simp add: add.commute)
        then show ?thesis using n 1(2) by (simp add: d w drop_update_cancel)
      qed
      have "percent_in_place_loop ?s len ?i (k + 1) = percent_loop ?s len src' (k + 1)"
        using 1(1) [OF d _ pc refl _ set] True n 1(2) rest by simp
      then show ?thesis using True by (subst percent_in_place_loop.simps) (simp add: d pc set)
    qed
  qed
qed

lemma percent_in_place_result:
  "string_percent_decode_in_place s len = map_option (\<lambda>(s, r). (the s, r)) (string_percent_decode (Some s) len (Some s))"
  by (cases "percent_loop s len s 0")
    (auto simp: string_percent_decode_in_place_def string_percent_decode_def percent_in_place_loop_eq)

text \<open>
  C36. \<open>string_percent_decode\<close> is the inverse of percent encoding: for any bytes (zeros included), fewer
  than \<open>2 ^ 31\<close> of them, and any choice of the bytes left as they are, other than \<open>%\<close> and zero, decoding
  the encoded text into a buffer with room gives the bytes back, terminated, and their number; nothing
  behind them in the buffer changes. Decoding the text in place gives the same.
\<close>
theorem string_percent_decode_roundtrip:
  assumes "\<And>c. plain c \<Longrightarrow> c \<noteq> 0 \<and> c \<noteq> 0x25" and "length xs < len" "len \<le> length s" and "length xs < 2 ^ 31"
  shows "string_percent_decode (Some s) len (Some (percent_encode plain xs @ [0])) =
      Some (Some (xs @ 0 # drop (length xs + 1) s), int (length xs)) \<and>
    string_percent_decode_in_place (percent_encode plain xs @ 0 # t) len =
      Some (xs @ 0 # drop (length xs + 1) (percent_encode plain xs @ 0 # t), int (length xs))"
proof -
  have n: "sint (of_nat (length xs) :: 32 word) = int (length xs)"
    using assms(4) signed_take_bit_int_eq_self [of 31 "int (length xs)"] by (simp add: signed_of_nat)
  have "length xs < length (percent_encode plain xs @ 0 # t)"
    using length_percent_encode [of xs plain] by simp
  with percent_loop_decodes [of plain "[]" xs len s "[]", OF assms(1)]
    percent_loop_decodes [of plain "[]" xs len "percent_encode plain xs @ 0 # t" t, OF assms(1)] assms(2,3)
  show ?thesis
    by (simp add: string_percent_decode_def string_percent_decode_in_place_def percent_in_place_loop_eq n)
qed

theorem string_percent_decode_roundtrip_witness:
  "string_percent_decode (Some (replicate 6 9)) 5
      (Some (percent_encode (\<lambda>c. c = 0x61) [0x61, 0x25, 0, 0xff] @ [0])) =
    Some (Some ([0x61, 0x25, 0, 0xff] @ 0 # drop (length [0x61, 0x25, 0, 0xff :: byte] + 1) (replicate 6 9)),
      int (length [0x61, 0x25, 0, 0xff :: byte])) \<and>
   string_percent_decode_in_place (percent_encode (\<lambda>c. c = 0x61) [0x61, 0x25, 0, 0xff] @ 0 # []) 5 =
    Some ([0x61, 0x25, 0, 0xff] @ 0 # drop (length [0x61, 0x25, 0, 0xff :: byte] + 1)
        (percent_encode (\<lambda>c. c = 0x61) [0x61, 0x25, 0, 0xff] @ 0 # []),
      int (length [0x61, 0x25, 0, 0xff :: byte]))"
  by (rule string_percent_decode_roundtrip) simp_all

section \<open>Extension lists hold each extension once\<close>

text \<open>The fields of a list, as the code walks over them: nothing follows a final separator.\<close>

function bar_fields :: "byte list \<Rightarrow> byte list list" where
  "bar_fields s = (if s = [] then []
     else takeWhile (\<lambda>c. c \<noteq> ext_bar) s # bar_fields (drop (length (takeWhile (\<lambda>c. c \<noteq> ext_bar) s) + 1) s))"
  by pat_completeness auto
termination by (relation "measure length") auto

declare bar_fields.simps [simp del]

lemma bar_fields_Nil [simp]: "bar_fields [] = []"
  by (simp add: bar_fields.simps)

lemma bar_fields_step: "s \<noteq> [] \<Longrightarrow> bar_fields s =
  takeWhile (\<lambda>c. c \<noteq> ext_bar) s # bar_fields (drop (length (takeWhile (\<lambda>c. c \<noteq> ext_bar) s) + 1) s)"
  by (subst bar_fields.simps) simp

lemma take_drop_take: "l \<le> n - p \<Longrightarrow> take l (drop p (take n s)) = take l (drop p s)"
  by (simp add: drop_take min_absorb1)

text \<open>Reading the field at \<open>p\<close>.\<close>

lemma field_at:
  assumes "p < n" "n \<le> length s"
  shows "mem_read s p (n - p) = Some (drop p (take n s))"
    and "bar_fields (drop p (take n s)) =
      takeWhile (\<lambda>c. c \<noteq> ext_bar) (drop p (take n s)) #
      bar_fields (drop (p + length (takeWhile (\<lambda>c. c \<noteq> ext_bar) (drop p (take n s))) + 1) (take n s))"
    and "mem_read s p (length (takeWhile (\<lambda>c. c \<noteq> ext_bar) (drop p (take n s)))) =
      Some (takeWhile (\<lambda>c. c \<noteq> ext_bar) (drop p (take n s)))"
proof -
  let ?d = "drop p (take n s)" and ?f = "takeWhile (\<lambda>c. c \<noteq> ext_bar) (drop p (take n s))"
  show "mem_read s p (n - p) = Some ?d"
    using assms by (simp add: mem_read_def drop_take)
  have "?d \<noteq> []" using assms by simp
  from bar_fields_step [OF this] show "bar_fields ?d = ?f # bar_fields (drop (p + length ?f + 1) (take n s))"
    by (simp add: add.commute add.left_commute)
  have l: "length ?f \<le> length ?d" by (rule length_takeWhile_le)
  have "?f = take (length ?f) ?d" by (metis takeWhile_eq_take)
  also have "\<dots> = take (length ?f) (drop p s)"
  proof -
    have "length ?f \<le> n - p" using l assms by simp
    then show ?thesis by (rule take_drop_take)
  qed
  finally show "mem_read s p (length ?f) = Some ?f"
    using l assms by (simp add: mem_read_def)
qed

lemma ext_list_find_result:
  assumes "n \<le> length s" "k \<le> length ext"
  shows "ext_list_find_loop s n p ext k = Some (take k ext \<in> set (bar_fields (drop p (take n s))))"
proof (induction "n - p" arbitrary: p rule: less_induct)
  case less
  show ?case
  proof (cases "p < n")
    case False
    then show ?thesis using assms by (subst ext_list_find_loop.simps) simp
  next
    case True
    let ?f = "takeWhile (\<lambda>c. c \<noteq> ext_bar) (drop p (take n s))"
    note f = field_at [OF True assms(1)]
    have ext: "mem_read ext 0 k = Some (take k ext)" using assms(2) by (simp add: mem_read_def)
    have rec: "ext_list_find_loop s n (p + length ?f + 1) ext k =
        Some (take k ext \<in> set (bar_fields (drop (p + length ?f + 1) (take n s))))"
      using True by (intro less) simp
    have eq: "(if length ?f = k then do { a \<leftarrow> mem_read s p k; b \<leftarrow> mem_read ext 0 k; Some (a = b) }
        else Some False) = Some (?f = take k ext)"
      using f(3) ext assms(2) by auto
    show ?thesis
      using True by (subst ext_list_find_loop.simps)
        (simp only: if_True f(1) bind.bind_lunit Let_def eq rec f(2), simp)
  qed
qed

lemma bar_fields_join:
  "\<forall>f\<in>set fs. f \<noteq> [] \<and> ext_bar \<notin> set f \<Longrightarrow> bar_fields (join_strings [ext_bar] fs) = fs"
proof (induction fs rule: induct_list012)
  case (2 f)
  then have "takeWhile (\<lambda>c. c \<noteq> ext_bar) f = f" "f \<noteq> []" by (auto simp: takeWhile_eq_all_conv)
  with bar_fields_step [of f] have "bar_fields f = f # bar_fields (drop (length f + 1) f)"
    by (simp only: not_False_eq_True)
  then show ?case by simp
next
  case (3 f g fs)
  let ?s = "f @ ext_bar # join_strings [ext_bar] (g # fs)"
  have "takeWhile (\<lambda>c. c \<noteq> ext_bar) ?s = f"
    using 3 by (auto simp: takeWhile_append takeWhile_eq_all_conv)
  with bar_fields_step [of ?s] have "bar_fields ?s = f # bar_fields (drop (length f + 1) ?s)"
    by simp
  with 3 show ?case by simp
qed simp

text \<open>
  \<open>ext_rep dst n fs\<close>: the first \<open>n\<close> bytes of the buffer hold the fields \<open>fs\<close>, none of them empty.
\<close>

definition ext_rep :: "byte list \<Rightarrow> nat \<Rightarrow> byte list list \<Rightarrow> bool" where
  "ext_rep dst n fs \<longleftrightarrow> n \<le> length dst \<and> take n dst = join_strings [ext_bar] fs \<and>
     (\<forall>f\<in>set fs. f \<noteq> [] \<and> ext_bar \<notin> set f)"

definition ext_add :: "nat \<Rightarrow> byte list list \<Rightarrow> byte list \<Rightarrow> byte list list" where
  "ext_add room fs e =
     (if e = [] \<or> e \<in> set fs \<or> length (join_strings [ext_bar] fs) + length e + 2 > room then fs
      else fs @ [e])"

lemma join_strings_snoc:
  "join_strings d (fs @ [e]) = (if fs = [] then e else join_strings d fs @ d @ e)"
  by (induction fs rule: induct_list012) simp_all

lemma ext_append_result:
  assumes "ext_rep dst n fs" "k \<le> length ext" "ext_bar \<notin> set (take k ext)" "room \<le> length dst"
  shows "\<exists>dst' n'. string_ext_list_append_dedup dst n room ext k = Some (dst', n') \<and>
    ext_rep dst' n' (ext_add room fs (take k ext)) \<and> length dst' = length dst"
proof -
  let ?e = "take k ext"
  have j: "n = length (join_strings [ext_bar] fs)" "take n dst = join_strings [ext_bar] fs" "n \<le> length dst"
    using assms(1) by (auto simp: ext_rep_def dest!: arg_cong [of _ _ length])
  have found: "string_ext_list_find dst n ext k = Some (?e \<in> set fs)"
    using ext_list_find_result [OF j(3) assms(2), of 0] j(2) bar_fields_join [of fs] assms(1)
    by (simp add: string_ext_list_find_def ext_rep_def)
  have e0: "?e = [] \<longleftrightarrow> k = 0" using assms(2) by auto
  have le: "length ?e = k" using assms(2) by simp
  show ?thesis
  proof (cases "?e = [] \<or> ?e \<in> set fs \<or> n + k + 2 > room")
    case True
    then have "string_ext_list_append_dedup dst n room ext k = Some (dst, n)"
      using e0 by (auto simp: string_ext_list_append_dedup_def found)
    moreover have "ext_add room fs ?e = fs" using True j(1) le by (auto simp: ext_add_def)
    ultimately show ?thesis using assms(1) by simp
  next
    case False
    then have room: "n + k + 2 \<le> length dst" using assms(4) by simp
    have new: "ext_add room fs ?e = fs @ [?e]" using False j(1) le by (auto simp: ext_add_def)
    have n0: "n > 0 \<longleftrightarrow> fs \<noteq> []"
      using j(1) assms(1) by (cases fs) (auto simp: ext_rep_def join_strings_Cons)
    define pre where "pre = take n dst @ (if fs = [] then [] else [ext_bar])"
    define gap where "gap = drop (length pre) dst"
    have pre: "length pre = (if n > 0 then n + 1 else n)" using room by (simp add: pre_def n0)
    have d1: "(if n > 0 then do { dst \<leftarrow> arr_set dst n ext_bar; Some (dst, n + 1) } else Some (dst, n)) =
        Some (pre @ gap, length pre)"
      using room n0 pre by (auto simp: arr_set_def gap_def pre_def upd_conv_take_nth_drop)
    have lg: "length gap \<ge> k + 1" "length pre + length gap = length dst" using room pre by (auto simp: gap_def)
    have w: "mem_write (pre @ gap) (length pre) ?e = Some (pre @ ?e @ drop k gap)"
      using mem_write_append [of ?e gap pre] lg(1) le by simp
    have z: "arr_set (pre @ ?e @ drop k gap) (length pre + k) 0 = Some (pre @ ?e @ 0 # drop (k + 1) gap)"
      using arr_set_append [of "pre @ ?e" "drop k gap" 0 0] lg(1) le
      by (simp add: arr_set_def) (metis Cons_nth_drop_Suc Suc_le_eq list_update_code(2))
    have read: "mem_read ext 0 k = Some ?e" using assms(2) by (simp add: mem_read_def)
    have "string_ext_list_append_dedup dst n room ext k = Some (pre @ ?e @ 0 # drop (k + 1) gap, length pre + k)"
      using False e0 unfolding string_ext_list_append_dedup_def found
      by (simp only: d1 bind.bind_lunit prod.case read w z Let_def if_False simp_thms) simp
    moreover have "take (length pre + k) (pre @ ?e @ 0 # drop (k + 1) gap) = pre @ ?e" using le by simp
    moreover have "pre @ ?e = join_strings [ext_bar] (fs @ [?e])"
      by (simp add: pre_def j(2) join_strings_snoc)
    moreover have "length (pre @ ?e @ 0 # drop (k + 1) gap) = length dst" using lg le by simp
    ultimately show ?thesis
      using assms(1,3) False lg le unfolding new by (auto simp: ext_rep_def)
  qed
qed

lemma ext_merge_loop_result:
  assumes "N \<le> length src"
  shows "ext_rep dst n fs \<Longrightarrow> room \<le> length dst \<Longrightarrow>
    \<exists>dst' n'. ext_list_merge_loop dst n room src N p = Some (dst', n') \<and>
      ext_rep dst' n' (foldl (ext_add room) fs (bar_fields (drop p (take N src)))) \<and> length dst' = length dst"
proof (induction "N - p" arbitrary: p dst n fs rule: less_induct)
  case less
  show ?case
  proof (cases "p < N")
    case False
    then show ?thesis using less.prems assms by (subst ext_list_merge_loop.simps) simp
  next
    case True
    let ?f = "takeWhile (\<lambda>c. c \<noteq> ext_bar) (drop p (take N src))"
    note f = field_at [OF True assms]
    have len: "length ?f \<le> length (drop p src)" and tk: "take (length ?f) (drop p src) = ?f"
      using f(3) by (auto simp: mem_read_def split: if_splits)
    have "ext_bar \<notin> set (take (length ?f) (drop p src))"
      unfolding tk by (metis (mono_tags, lifting) set_takeWhileD)
    from ext_append_result [OF less.prems(1) len this less.prems(2)]
    obtain d1 n1 where d1: "(if length ?f > 0
        then string_ext_list_append_dedup dst n room (drop p src) (length ?f)
        else Some (dst, n)) = Some (d1, n1)" "ext_rep d1 n1 (ext_add room fs ?f)" "length d1 = length dst"
      using less.prems(1) unfolding tk by (cases "?f = []") (auto simp: ext_add_def)
    have "\<exists>dst' n'. ext_list_merge_loop d1 n1 room src N (p + length ?f + 1) = Some (dst', n') \<and>
      ext_rep dst' n' (foldl (ext_add room) (ext_add room fs ?f) (bar_fields (drop (p + length ?f + 1) (take N src)))) \<and>
      length dst' = length d1"
      using True less.prems(2) d1(2,3) by (intro less.hyps) simp_all
    moreover have "ext_list_merge_loop dst n room src N p = ext_list_merge_loop d1 n1 room src N (p + length ?f + 1)"
      using True by (subst ext_list_merge_loop.simps)
        (simp only: if_True f(1) bind.bind_lunit Let_def d1(1) prod.case)
    ultimately show ?thesis
      unfolding f(2) by (simp add: d1(3))
  qed
qed

lemma ext_add_distinct: "distinct fs \<Longrightarrow> distinct (foldl (ext_add room) fs es)"
  by (induction es arbitrary: fs) (simp_all add: ext_add_def)

text \<open>
  \<open>string_ext_list_merge_dedup\<close> keeps an extension list free of duplicates: starting from a list
  of distinct extensions in the buffer, it appends the extensions of \<open>src\<close> one after another, leaving
  out empty ones, those already there and those that do not fit \<open>dst_size\<close> together with a separator
  and the terminator (the code makes room for a separator also before the first), and writes nothing
  outside the buffer.
\<close>
theorem string_ext_list_merge_dedup_adds:
  assumes "ext_rep dst n fs" "distinct fs" "room \<le> length dst" "terminated src"
  shows "\<exists>dst' n' fs'. string_ext_list_merge_dedup dst n room (Some src) = Some (dst', n') \<and>
    fs' = foldl (ext_add room) fs (bar_fields (cstr src)) \<and> ext_rep dst' n' fs' \<and> distinct fs' \<and>
    length dst' = length dst"
proof -
  obtain x t where s: "src = x @ 0 # t" "0 \<notin> set x" "cstr src = x" using assms(4) by (rule terminatedE)
  have n: "strlen src = Some (length x)" "length x \<le> length src" using s(1,2) by simp_all
  obtain dst' n' where m: "ext_list_merge_loop dst n room src (length x) 0 = Some (dst', n')"
    "ext_rep dst' n' (foldl (ext_add room) fs (bar_fields x))" "length dst' = length dst"
    using ext_merge_loop_result [OF n(2) assms(1,3), of 0] by (auto simp: s(1))
  have "\<exists>dst' n'. string_ext_list_merge_dedup dst n room (Some src) = Some (dst', n') \<and>
      ext_rep dst' n' (foldl (ext_add room) fs (bar_fields x)) \<and> length dst' = length dst"
  proof (cases x)
    case Nil
    then show ?thesis using assms(1) by (simp add: string_ext_list_merge_dedup_def s(1))
  next
    case (Cons c x')
    then have "deref src = Some c" "c \<noteq> 0" using s(1,2) by auto
    with m n(1) show ?thesis by (simp add: string_ext_list_merge_dedup_def)
  qed
  then show ?thesis using ext_add_distinct [OF assms(2)] s(3) by blast
qed

theorem string_ext_list_merge_dedup_adds_witness:
  "\<exists>dst' n' fs'. string_ext_list_merge_dedup ([0x61, ext_bar, 0x62] @ replicate 6 0) 3 9
        (Some [0x62, ext_bar, ext_bar, 0x63, 0]) = Some (dst', n') \<and>
    fs' = foldl (ext_add 9) [[0x61], [0x62]] (bar_fields (cstr [0x62, ext_bar, ext_bar, 0x63, 0])) \<and>
    ext_rep dst' n' fs' \<and> distinct fs' \<and> length dst' = length ([0x61, ext_bar, 0x62] @ replicate 6 (0 :: byte))"
  by (rule string_ext_list_merge_dedup_adds) (simp_all add: ext_rep_def ext_bar_def)

end
