(* ===== verification/Spsc.thy ===== *)
theory Spsc
  imports Prelude
begin

text \<open>
  \<open>queues/retro_spsc.c\<close>: the ring between one producer and one consumer, in its plain and its
  mirrored form, one call at a time. The atomic loads and stores of the cursors are the fields of
  the record; \<open>SpscThreads\<close> interleaves the two sides.
\<close>

unbundle bit_operations_syntax

section \<open>Positions that wrap\<close>

text \<open>The element of a buffer at any position, and writing a list of elements from a position on.\<close>

definition cyc_get :: "'a list \<Rightarrow> nat \<Rightarrow> nat \<Rightarrow> 'a list" where
  "cyc_get buf pos n = map (\<lambda>j. buf ! ((pos + j) mod length buf)) [0..<n]"

fun cyc_put :: "'a list \<Rightarrow> nat \<Rightarrow> 'a list \<Rightarrow> 'a list" where
  "cyc_put buf pos [] = buf"
| "cyc_put buf pos (x # xs) = cyc_put (buf[pos mod length buf := x]) (pos + 1) xs"

section \<open>The code\<close>

record retro_spsc =
  sp_buffer :: "byte list option"
  sp_capacity :: size_t
  sp_mask :: size_t
  sp_mirror :: size_t
  sp_head :: size_t
  sp_cached_tail :: size_t
  sp_tail :: size_t
  sp_cached_head :: size_t

text \<open>
  \<open>memcpy\<close> to and from the ring at an offset. A mirrored buffer is mapped twice back to back, so
  that its byte \<open>i + size\<close> is its byte \<open>i\<close>, for offsets below twice its size.
\<close>

definition store_bytes :: "retro_spsc \<Rightarrow> nat \<Rightarrow> byte list \<Rightarrow> retro_spsc option" where
  "store_bytes q off bytes = do {
     buf \<leftarrow> sp_buffer q;
     buf \<leftarrow> (if sp_mirror q = 0 then mem_write buf off bytes
       else if off + length bytes \<le> 2 * length buf then Some (cyc_put buf off bytes) else None);
     Some (q\<lparr>sp_buffer := Some buf\<rparr>) }"

definition load_bytes :: "retro_spsc \<Rightarrow> nat \<Rightarrow> nat \<Rightarrow> byte list option" where
  "load_bytes q off n = do {
     buf \<leftarrow> sp_buffer q;
     if sp_mirror q = 0 then mem_read buf off n
     else if off + n \<le> 2 * length buf then Some (cyc_get buf off n) else None }"

definition spsc_contig :: "retro_spsc \<Rightarrow> size_t \<Rightarrow> size_t" where
  "spsc_contig q idx = (if sp_mirror q \<noteq> 0 then -1 else sp_mask q + 1 - idx)"

text \<open>With \<open>v\<close> above half the range, \<open>r\<close> would shift to 0 and the loop would not end.\<close>

partial_function (option) pow2_loop :: "size_t \<Rightarrow> size_t \<Rightarrow> size_t option" where
  "pow2_loop v r = (if r < v then pow2_loop v (push_bit 1 r) else Some r)"

definition spsc_round_up_pow2 :: "size_t \<Rightarrow> size_t option" where
  "spsc_round_up_pow2 v =
     (if v = 0 then Some 0 else if v AND (v - 1) = 0 then Some v else pow2_loop v 1)"

definition HALF_SIZE_MAX :: size_t where
  "HALF_SIZE_MAX = of_nat (SIZE_MAX div 2)"

text \<open>The result is \<open>None\<close> inside the pair when the call returns false and leaves \<open>*q\<close> alone.\<close>

definition retro_spsc_init :: "(nat \<Rightarrow> byte list option) \<Rightarrow> size_t \<Rightarrow> retro_spsc option option" where
  "retro_spsc_init malloc min_capacity =
     (if min_capacity = 0 \<or> min_capacity > HALF_SIZE_MAX then Some None
      else do {
        cap \<leftarrow> spsc_round_up_pow2 min_capacity;
        if cap = 0 \<or> cap > HALF_SIZE_MAX then Some None
        else case malloc (unat cap) of
          None \<Rightarrow> Some None
        | Some buffer \<Rightarrow> Some (Some \<lparr>sp_buffer = Some buffer, sp_capacity = cap, sp_mask = cap - 1,
            sp_mirror = 0, sp_head = 0, sp_cached_tail = 0, sp_tail = 0, sp_cached_head = 0\<rparr>) })"

text \<open>The mapping unit and the mapping of the operating system are arguments.\<close>

definition retro_spsc_init_mirrored ::
    "size_t \<Rightarrow> (nat \<Rightarrow> byte list option) \<Rightarrow> (nat \<Rightarrow> byte list option) \<Rightarrow> size_t \<Rightarrow> retro_spsc option option" where
  "retro_spsc_init_mirrored granule mirror_alloc malloc min_capacity =
     (if min_capacity = 0 \<or> min_capacity > HALF_SIZE_MAX then Some None
      else do {
        cap \<leftarrow> spsc_round_up_pow2 min_capacity;
        let sz = (if cap > granule then cap else granule);
        case (if cap \<noteq> 0 \<and> granule AND (granule - 1) = 0 \<and> sz \<le> of_nat (SIZE_MAX div 4)
              then mirror_alloc (unat sz) else None) of
          Some buf \<Rightarrow> Some (Some \<lparr>sp_buffer = Some buf, sp_capacity = cap, sp_mask = sz - 1,
            sp_mirror = sz, sp_head = 0, sp_cached_tail = 0, sp_tail = 0, sp_cached_head = 0\<rparr>)
        | None \<Rightarrow> retro_spsc_init malloc min_capacity })"

definition retro_spsc_free :: "retro_spsc \<Rightarrow> retro_spsc" where
  "retro_spsc_free q = q\<lparr>sp_buffer := None, sp_capacity := 0, sp_mirror := 0\<rparr>"

definition retro_spsc_clear :: "retro_spsc \<Rightarrow> retro_spsc" where
  "retro_spsc_clear q = q\<lparr>sp_cached_tail := 0, sp_cached_head := 0, sp_head := 0, sp_tail := 0\<rparr>"

text \<open>Moving the contents to a larger ring, run by run.\<close>

partial_function (option) grow_loop :: "retro_spsc \<Rightarrow> size_t \<Rightarrow> size_t \<Rightarrow> retro_spsc \<Rightarrow> retro_spsc option" where
  "grow_loop q head pos n =
     (if pos = head then Some n
      else do {
        let src = pos AND sp_mask q;
        let dst = pos AND sp_mask n;
        let run = head - pos;
        let run = (if sp_mirror q = 0 \<and> run > sp_mask q + 1 - src then sp_mask q + 1 - src else run);
        let run = (if sp_mirror n = 0 \<and> run > sp_mask n + 1 - dst then sp_mask n + 1 - dst else run);
        bytes \<leftarrow> load_bytes q (unat src) (unat run);
        n \<leftarrow> store_bytes n (unat dst) bytes;
        grow_loop q head (pos + run) n })"

definition retro_spsc_grow :: "size_t \<Rightarrow> (nat \<Rightarrow> byte list option) \<Rightarrow> (nat \<Rightarrow> byte list option) \<Rightarrow>
    retro_spsc \<Rightarrow> size_t \<Rightarrow> (bool \<times> retro_spsc) option" where
  "retro_spsc_grow granule mirror_alloc malloc q min_capacity =
     (if sp_buffer q = None then Some (False, q)
      else if min_capacity \<le> sp_capacity q then Some (True, q)
      else do {
        r \<leftarrow> (if sp_mirror q \<noteq> 0
          then retro_spsc_init_mirrored granule mirror_alloc malloc min_capacity
          else retro_spsc_init malloc min_capacity);
        case r of
          None \<Rightarrow> Some (False, q)
        | Some n \<Rightarrow> do {
            let head = sp_head q;
            let tail = sp_tail q;
            n \<leftarrow> grow_loop q head tail n;
            let q = retro_spsc_free q;
            Some (True, q\<lparr>sp_buffer := sp_buffer n, sp_capacity := sp_capacity n, sp_mask := sp_mask n,
              sp_mirror := sp_mirror n, sp_cached_tail := tail, sp_cached_head := head,
              sp_head := head, sp_tail := tail\<rparr>) } })"

definition retro_spsc_write_avail :: "retro_spsc \<Rightarrow> size_t" where
  "retro_spsc_write_avail q = sp_capacity q - (sp_head q - sp_tail q)"

definition retro_spsc_read_avail :: "retro_spsc \<Rightarrow> size_t" where
  "retro_spsc_read_avail q = sp_head q - sp_tail q"

text \<open>
  The three parts of a write: how many bytes are taken (with the consumer's cursor loaded again
  only when the copy of it is not enough), the two copies, the publication of the cursor.
\<close>

definition write_reserve :: "retro_spsc \<Rightarrow> size_t \<Rightarrow> size_t \<times> retro_spsc" where
  "write_reserve q bytes =
     (let head = sp_head q;
          avail = sp_capacity q - (head - sp_cached_tail q);
          q = (if avail < bytes then q\<lparr>sp_cached_tail := sp_tail q\<rparr> else q);
          avail = (if avail < bytes then sp_capacity q - (head - sp_cached_tail q) else avail)
      in (if bytes > avail then avail else bytes, q))"

definition copy_in :: "retro_spsc \<Rightarrow> size_t \<Rightarrow> byte list \<Rightarrow> size_t \<Rightarrow> retro_spsc option" where
  "copy_in q head src bytes = do {
     let head_idx = head AND sp_mask q;
     let first = spsc_contig q head_idx;
     let first = (if first > bytes then bytes else first);
     part \<leftarrow> mem_read src 0 (unat first);
     q \<leftarrow> store_bytes q (unat head_idx) part;
     part \<leftarrow> mem_read src (unat first) (unat (bytes - first));
     store_bytes q 0 part }"

definition retro_spsc_write :: "retro_spsc \<Rightarrow> byte list \<Rightarrow> size_t \<Rightarrow> (size_t \<times> retro_spsc) option" where
  "retro_spsc_write q data bytes =
     (let (bytes, q) = write_reserve q bytes in
      if bytes = 0 then Some (0, q)
      else do {
        q \<leftarrow> copy_in q (sp_head q) data bytes;
        Some (bytes, q\<lparr>sp_head := sp_head q + bytes\<rparr>) })"

definition frames_reserve :: "retro_spsc \<Rightarrow> size_t \<Rightarrow> size_t \<Rightarrow> size_t \<times> retro_spsc" where
  "frames_reserve q frames frame_bytes =
     (let head = sp_head q;
          avail = (sp_capacity q - (head - sp_cached_tail q)) div frame_bytes;
          q = (if avail < frames then q\<lparr>sp_cached_tail := sp_tail q\<rparr> else q);
          avail = (if avail < frames then (sp_capacity q - (head - sp_cached_tail q)) div frame_bytes
                   else avail)
      in (if frames > avail then avail else frames, q))"

definition retro_spsc_write_frames ::
    "retro_spsc \<Rightarrow> byte list \<Rightarrow> size_t \<Rightarrow> size_t \<Rightarrow> (size_t \<times> retro_spsc) option" where
  "retro_spsc_write_frames q data frames frame_bytes =
     (if frames = 0 \<or> frame_bytes = 0 then Some (0, q)
      else let (frames, q) = frames_reserve q frames frame_bytes
           in if frames = 0 then Some (0, q)
              else do {
                let bytes = frames * frame_bytes;
                q \<leftarrow> copy_in q (sp_head q) data bytes;
                Some (frames, q\<lparr>sp_head := sp_head q + bytes\<rparr>) })"

text \<open>The same three parts of a read.\<close>

definition read_reserve :: "retro_spsc \<Rightarrow> size_t \<Rightarrow> size_t \<times> retro_spsc" where
  "read_reserve q bytes =
     (let tail = sp_tail q;
          avail = sp_cached_head q - tail;
          q = (if avail < bytes then q\<lparr>sp_cached_head := sp_head q\<rparr> else q);
          avail = (if avail < bytes then sp_cached_head q - tail else avail)
      in (if bytes > avail then avail else bytes, q))"

definition copy_out :: "retro_spsc \<Rightarrow> size_t \<Rightarrow> size_t \<Rightarrow> byte list option" where
  "copy_out q tail bytes = do {
     let tail_idx = tail AND sp_mask q;
     let first = spsc_contig q tail_idx;
     let first = (if first > bytes then bytes else first);
     part1 \<leftarrow> load_bytes q (unat tail_idx) (unat first);
     part2 \<leftarrow> load_bytes q 0 (unat (bytes - first));
     Some (part1 @ part2) }"

definition retro_spsc_read :: "retro_spsc \<Rightarrow> size_t \<Rightarrow> (byte list \<times> retro_spsc) option" where
  "retro_spsc_read q bytes =
     (let (bytes, q) = read_reserve q bytes in
      if bytes = 0 then Some ([], q)
      else do {
        dst \<leftarrow> copy_out q (sp_tail q) bytes;
        Some (dst, q\<lparr>sp_tail := sp_tail q + bytes\<rparr>) })"

definition retro_spsc_peek :: "retro_spsc \<Rightarrow> size_t \<Rightarrow> (byte list \<times> retro_spsc) option" where
  "retro_spsc_peek q bytes =
     (let (bytes, q) = read_reserve q bytes in
      if bytes = 0 then Some ([], q)
      else do {
        dst \<leftarrow> copy_out q (sp_tail q) bytes;
        Some (dst, q) })"

definition retro_spsc_skip :: "retro_spsc \<Rightarrow> size_t \<Rightarrow> size_t \<times> retro_spsc" where
  "retro_spsc_skip q bytes =
     (let (bytes, q) = read_reserve q bytes in
      if bytes = 0 then (0, q) else (bytes, q\<lparr>sp_tail := sp_tail q + bytes\<rparr>))"

text \<open>Access in place: the result is the offset of \<open>*ptr\<close> in the buffer and the length of the span.\<close>

definition retro_spsc_write_begin :: "retro_spsc \<Rightarrow> size_t \<times> size_t \<times> retro_spsc" where
  "retro_spsc_write_begin q =
     (let head = sp_head q;
          avail = sp_capacity q - (head - sp_cached_tail q);
          head_idx = head AND sp_mask q;
          span = spsc_contig q head_idx;
          again = (avail < span \<and> avail < sp_capacity q);
          q = (if again then q\<lparr>sp_cached_tail := sp_tail q\<rparr> else q);
          avail = (if again then sp_capacity q - (head - sp_cached_tail q) else avail)
      in (head_idx, if span > avail then avail else span, q))"

definition retro_spsc_write_end :: "retro_spsc \<Rightarrow> size_t \<Rightarrow> retro_spsc" where
  "retro_spsc_write_end q bytes = (if bytes = 0 then q else q\<lparr>sp_head := sp_head q + bytes\<rparr>)"

definition retro_spsc_read_begin :: "retro_spsc \<Rightarrow> size_t \<times> size_t \<times> retro_spsc" where
  "retro_spsc_read_begin q =
     (let tail = sp_tail q;
          avail = sp_cached_head q - tail;
          tail_idx = tail AND sp_mask q;
          span = spsc_contig q tail_idx;
          again = (avail < span \<and> avail < sp_capacity q);
          q = (if again then q\<lparr>sp_cached_head := sp_head q\<rparr> else q);
          avail = (if again then sp_cached_head q - tail else avail)
      in (tail_idx, if span > avail then avail else span, q))"

definition retro_spsc_read_end :: "retro_spsc \<Rightarrow> size_t \<Rightarrow> retro_spsc" where
  "retro_spsc_read_end q bytes = (if bytes = 0 then q else q\<lparr>sp_tail := sp_tail q + bytes\<rparr>)"

section \<open>Writing and reading around the ring\<close>

lemma cyc_get_length [simp]: "length (cyc_get buf pos n) = n"
  by (simp add: cyc_get_def)

lemma cyc_get_nth: "j < n \<Longrightarrow> cyc_get buf pos n ! j = buf ! ((pos + j) mod length buf)"
  by (simp add: cyc_get_def)

lemma cyc_put_length [simp]: "length (cyc_put buf pos xs) = length buf"
  by (induction xs arbitrary: buf pos) simp_all

lemma cyc_put_mod: "cyc_put buf (pos mod length buf) xs = cyc_put buf pos xs"
proof (induction xs arbitrary: buf pos)
  case (Cons x xs)
  let ?b = "buf[pos mod length buf := x]"
  have "cyc_put ?b (pos mod length buf + 1) xs = cyc_put ?b ((pos mod length buf + 1) mod length ?b) xs"
    by (rule Cons.IH [symmetric])
  also have "(pos mod length buf + 1) mod length ?b = (pos + 1) mod length ?b"
    by (simp add: mod_Suc_eq)
  also have "cyc_put ?b ((pos + 1) mod length ?b) xs = cyc_put ?b (pos + 1) xs" by (rule Cons.IH)
  finally show ?case by simp
qed simp

lemma cyc_put_append: "cyc_put buf pos (xs @ ys) = cyc_put (cyc_put buf pos xs) (pos + length xs) ys"
  by (induction xs arbitrary: buf pos) simp_all

text \<open>Two positions less than one turn apart are different slots.\<close>

lemma dvd_minus_mod_eq: "a mod L = b mod L \<Longrightarrow> a \<le> b \<Longrightarrow> L dvd b - (a :: nat)"
  using mod_eq_dvd_iff_nat [of a b L] by simp

lemma slots_differ:
  assumes "a < b" "b < a + L"
  shows "a mod L \<noteq> b mod (L :: nat)"
proof
  assume "a mod L = b mod L"
  then have "L dvd b - a" by (intro dvd_minus_mod_eq) (use assms(1) in simp_all)
  then show False using assms by (auto dest: dvd_imp_le)
qed

lemma cyc_put_other:
  "length xs \<le> length buf \<Longrightarrow> m < pos \<Longrightarrow> pos + length xs \<le> m + length buf \<Longrightarrow>
   cyc_put buf pos xs ! (m mod length buf) = buf ! (m mod length buf)"
proof (induction xs arbitrary: buf pos)
  case (Cons x xs)
  let ?b = "buf[pos mod length buf := x]"
  have "cyc_put ?b (pos + 1) xs ! (m mod length ?b) = ?b ! (m mod length ?b)"
    using Cons.prems by (intro Cons.IH) simp_all
  moreover have "m mod length buf \<noteq> pos mod length buf"
    using Cons.prems by (intro slots_differ) simp_all
  ultimately show ?case by simp
qed simp

lemma cyc_put_here:
  "length xs \<le> length buf \<Longrightarrow> j < length xs \<Longrightarrow>
   cyc_put buf pos xs ! ((pos + j) mod length buf) = xs ! j"
proof (induction xs arbitrary: buf pos j)
  case (Cons x xs)
  let ?b = "buf[pos mod length buf := x]"
  show ?case
  proof (cases j)
    case 0
    have "cyc_put ?b (pos + 1) xs ! (pos mod length ?b) = ?b ! (pos mod length ?b)"
      using Cons.prems by (intro cyc_put_other) simp_all
    moreover have "pos mod length buf < length buf" using Cons.prems(1) by (intro mod_less_divisor) (cases buf, simp_all)
    ultimately show ?thesis using 0 by simp
  next
    case (Suc i)
    have "cyc_put ?b (pos + 1) xs ! ((pos + 1 + i) mod length ?b) = xs ! i"
      using Cons.prems Suc by (intro Cons.IH) simp_all
    then show ?thesis using Suc by simp
  qed
qed simp

lemma cyc_get_put:
  assumes "n + length xs \<le> length buf"
  shows "cyc_get (cyc_put buf (pos + n) xs) pos (n + length xs) = cyc_get buf pos n @ xs"
proof (rule nth_equalityI)
  fix j assume "j < length (cyc_get (cyc_put buf (pos + n) xs) pos (n + length xs))"
  then have j: "j < n + length xs" by simp
  show "cyc_get (cyc_put buf (pos + n) xs) pos (n + length xs) ! j = (cyc_get buf pos n @ xs) ! j"
  proof (cases "j < n")
    case True
    have "cyc_put buf (pos + n) xs ! ((pos + j) mod length buf) = buf ! ((pos + j) mod length buf)"
      using True assms by (intro cyc_put_other) simp_all
    then show ?thesis using True j by (simp add: cyc_get_nth nth_append)
  next
    case False
    have "cyc_put buf (pos + n) xs ! ((pos + n + (j - n)) mod length buf) = xs ! (j - n)"
      using False j assms by (intro cyc_put_here) simp_all
    then show ?thesis using False j by (simp add: cyc_get_nth nth_append)
  qed
qed simp

lemma cyc_get_split: "cyc_get buf pos (m + n) = cyc_get buf pos m @ cyc_get buf (pos + m) n"
proof (rule nth_equalityI)
  fix j assume "j < length (cyc_get buf pos (m + n))"
  then show "cyc_get buf pos (m + n) ! j = (cyc_get buf pos m @ cyc_get buf (pos + m) n) ! j"
    by (auto simp: cyc_get_nth nth_append)
qed simp

lemma cyc_get_mod: "cyc_get buf (pos mod length buf) n = cyc_get buf pos n"
  by (simp add: cyc_get_def mod_add_left_eq)

lemma mem_write_cyc: "off + length xs \<le> length buf \<Longrightarrow> mem_write buf off xs = Some (cyc_put buf off xs)"
proof (induction xs arbitrary: buf off)
  case (Cons x xs)
  have "mem_write (buf[off := x]) (off + 1) xs = Some (cyc_put (buf[off := x]) (off + 1) xs)"
    using Cons.prems by (intro Cons.IH) simp
  moreover have "mem_write (buf[off := x]) (off + 1) xs = mem_write buf off (x # xs)"
    using Cons.prems by (simp add: mem_write_def take_Suc_conv_app_nth take_update_cancel)
  ultimately show ?case using Cons.prems by simp
qed (simp add: mem_write_def)

lemma mem_read_cyc: "off + n \<le> length buf \<Longrightarrow> mem_read buf off n = Some (cyc_get buf off n)"
proof -
  assume le: "off + n \<le> length buf"
  have "take n (drop off buf) = cyc_get buf off n"
    by (rule nth_equalityI) (use le in \<open>simp_all add: cyc_get_nth\<close>)
  with le show ?thesis by (simp add: mem_read_def)
qed

section \<open>The copies\<close>

text \<open>The buffer of a ring: a power of two of bytes, seen through its mask.\<close>

definition spsc_ring :: "retro_spsc \<Rightarrow> nat \<Rightarrow> byte list \<Rightarrow> bool" where
  "spsc_ring q k buf \<longleftrightarrow> sp_buffer q = Some buf \<and> length buf = 2 ^ k \<and> k \<le> 63 \<and> sp_mask q = mask k"

lemma spsc_ringD:
  assumes "spsc_ring q k buf"
  shows "sp_buffer q = Some buf" "length buf = 2 ^ k" "k \<le> 63" "sp_mask q = mask k"
    "(2 :: nat) ^ k \<le> 2 ^ 63" "(2 :: nat) ^ k dvd 2 ^ 64"
  using assms power_increasing [of k 63 "2 :: nat"] le_imp_power_dvd [of k 64 "2 :: nat"]
  by (simp_all add: spsc_ring_def)

lemma ring_index:
  assumes "spsc_ring q k buf"
  shows "unat ((of_nat P :: size_t) AND sp_mask q) = P mod 2 ^ k"
proof -
  have "P mod 2 ^ 64 mod 2 ^ k = P mod 2 ^ k" by (rule mod_mod_cancel) (rule spsc_ringD [OF assms])
  then show ?thesis by (simp add: spsc_ringD [OF assms] unat_and_mask unat_of_nat)
qed

lemma unat_pow2: "k \<le> 63 \<Longrightarrow> unat (2 ^ k :: size_t) = 2 ^ k"
proof -
  assume "k \<le> 63"
  then have "(2 :: nat) ^ k < 2 ^ 64" by (intro power_strict_increasing) simp_all
  then have "unat (of_nat (2 ^ k) :: size_t) = 2 ^ k"
    unfolding unat_of_nat by (intro mod_less) simp
  then show ?thesis by simp
qed

lemma ring_contig:
  assumes "spsc_ring q k buf" and "sp_mirror q = 0"
  shows "unat (spsc_contig q ((of_nat P :: size_t) AND sp_mask q)) = 2 ^ k - P mod 2 ^ k"
proof -
  note k = spsc_ringD [OF assms(1)]
  have two: "unat (2 ^ k :: size_t) = 2 ^ k" by (rule unat_pow2 [OF k(3)])
  moreover have "sp_mask q + 1 = 2 ^ k" using k by (simp add: mask_eq_exp_minus_1)
  moreover have "(of_nat P AND sp_mask q) \<le> (2 ^ k :: size_t)"
    unfolding word_le_nat_alt ring_index [OF assms(1)] two by (simp add: less_imp_le)
  ultimately show ?thesis
    using assms by (simp add: spsc_contig_def unat_sub ring_index)
qed

text \<open>
  How many bytes the first copy takes, and when it does not take all, that it ends at the end of
  the buffer.
\<close>

lemma ring_first:
  fixes P :: nat and n :: size_t
  assumes ring: "spsc_ring q k buf"
  defines "first \<equiv> unat (let c = spsc_contig q (of_nat P AND sp_mask q) in if c > n then n else c)"
  shows "first \<le> unat n" "sp_mirror q \<noteq> 0 \<Longrightarrow> first = unat n"
    "sp_mirror q = 0 \<Longrightarrow> P mod 2 ^ k + first \<le> 2 ^ k"
    "first < unat n \<Longrightarrow> P mod 2 ^ k + first = 2 ^ k"
proof -
  have c: "first = min (unat n) (unat (spsc_contig q (of_nat P AND sp_mask q)))"
    by (auto simp: first_def word_less_nat_alt min_def Let_def)
  show "first \<le> unat n" by (simp add: c)
  show m: "first = unat n" if "sp_mirror q \<noteq> 0"
  proof -
    have "unat n \<le> unat (-1 :: size_t)" using word_le_nat_alt word_n1_ge by blast
    then show ?thesis using that by (simp add: c spsc_contig_def)
  qed
  have le: "P mod 2 ^ k \<le> 2 ^ k" by (simp add: less_imp_le)
  show "P mod 2 ^ k + first \<le> 2 ^ k" if "sp_mirror q = 0"
    unfolding c ring_contig [OF ring that] using le by linarith
  show "P mod 2 ^ k + first = 2 ^ k" if "first < unat n"
  proof (cases "sp_mirror q = 0")
    case True
    then show ?thesis using le that by (simp add: c ring_contig [OF ring True] min_def split: if_splits)
  qed (use m that in simp)
qed

lemma store_bytes_ring:
  assumes "spsc_ring q k buf"
    and "sp_mirror q = 0 \<Longrightarrow> off + length bytes \<le> 2 ^ k" "off + length bytes \<le> 2 * 2 ^ k"
  shows "store_bytes q off bytes = Some (q\<lparr>sp_buffer := Some (cyc_put buf off bytes)\<rparr>)"
  using assms by (auto simp: store_bytes_def spsc_ringD [OF assms(1)] mem_write_cyc)

lemma load_bytes_ring:
  assumes "spsc_ring q k buf"
    and "sp_mirror q = 0 \<Longrightarrow> off + n \<le> 2 ^ k" "off + n \<le> 2 * 2 ^ k"
  shows "load_bytes q off n = Some (cyc_get buf off n)"
  using assms by (auto simp: load_bytes_def spsc_ringD [OF assms(1)] mem_read_cyc)

text \<open>The two copies together write, or read, around the ring.\<close>

lemma copy_in_ring:
  assumes ring: "spsc_ring q k buf" and n: "unat n \<le> 2 ^ k" "unat n \<le> length src"
  shows "copy_in q (of_nat P) src n = Some (q\<lparr>sp_buffer := Some (cyc_put buf P (take (unat n) src))\<rparr>)"
proof -
  define first where "first = (let c = spsc_contig q (of_nat P AND sp_mask q) in if c > n then n else c)"
  note f = ring_first [OF ring, of P n, folded first_def]
  have idx: "P mod 2 ^ k < 2 ^ k" by simp
  let ?p1 = "take (unat first) src" and ?p2 = "take (unat n - unat first) (drop (unat first) src)"
  let ?b1 = "cyc_put buf (P mod 2 ^ k) ?p1"
  have "first \<le> n" using f(1) by (simp add: word_le_nat_alt)
  then have sub: "unat (n - first) = unat n - unat first" by (rule unat_sub)
  have l1: "length ?p1 = unat first" using f(1) n(2) by simp
  have l2: "length ?p2 = unat n - unat first" using f(1) n(2) by simp
  have ring1: "spsc_ring (q\<lparr>sp_buffer := Some ?b1\<rparr>) k ?b1" using ring by (simp add: spsc_ring_def)
  have s1: "store_bytes q (P mod 2 ^ k) ?p1 = Some (q\<lparr>sp_buffer := Some ?b1\<rparr>)"
    using f idx n by (intro store_bytes_ring [OF ring]) (unfold l1, linarith+)
  have s2: "store_bytes (q\<lparr>sp_buffer := Some ?b1\<rparr>) 0 ?p2 = Some (q\<lparr>sp_buffer := Some (cyc_put ?b1 0 ?p2)\<rparr>)"
    using f n by (subst store_bytes_ring [OF ring1]) (auto simp: l2)
  have "cyc_put ?b1 0 ?p2 = cyc_put ?b1 (P mod 2 ^ k + unat first) ?p2"
  proof (cases "unat first < unat n")
    case True
    then have "P mod 2 ^ k + unat first = length ?b1" using f(4) spsc_ringD [OF ring] by simp
    then show ?thesis using cyc_put_mod [of ?b1 "length ?b1" ?p2] by simp
  qed simp
  also have "\<dots> = cyc_put buf (P mod 2 ^ k) (?p1 @ ?p2)" by (simp only: cyc_put_append l1)
  also have "?p1 @ ?p2 = take (unat n) src"
    using f(1) by (simp flip: take_add)
  also have "cyc_put buf (P mod 2 ^ k) (take (unat n) src) = cyc_put buf P (take (unat n) src)"
    using cyc_put_mod [of buf P] spsc_ringD [OF ring] by simp
  finally show ?thesis
    using f(1) n(2) s1 s2
    by (simp add: copy_in_def Let_def ring_index [OF ring] first_def [symmetric, unfolded Let_def] mem_read_def sub)
qed

lemma copy_out_ring:
  assumes ring: "spsc_ring q k buf" and n: "unat n \<le> 2 ^ k"
  shows "copy_out q (of_nat P) n = Some (cyc_get buf P (unat n))"
proof -
  define first where "first = (let c = spsc_contig q (of_nat P AND sp_mask q) in if c > n then n else c)"
  note f = ring_first [OF ring, of P n, folded first_def]
  have idx: "P mod 2 ^ k < 2 ^ k" by simp
  have "first \<le> n" using f(1) by (simp add: word_le_nat_alt)
  then have sub: "unat (n - first) = unat n - unat first" by (rule unat_sub)
  let ?m = "unat n - unat first"
  have s1: "load_bytes q (P mod 2 ^ k) (unat first) = Some (cyc_get buf (P mod 2 ^ k) (unat first))"
    using f idx n by (intro load_bytes_ring [OF ring]) linarith+
  have s2: "load_bytes q 0 ?m = Some (cyc_get buf 0 ?m)"
    using f n by (intro load_bytes_ring [OF ring]) auto
  have "cyc_get buf 0 ?m = cyc_get buf (P mod 2 ^ k + unat first) ?m"
  proof (cases "unat first < unat n")
    case True
    then have "P mod 2 ^ k + unat first = length buf" using f(4) spsc_ringD [OF ring] by simp
    then show ?thesis using cyc_get_mod [of buf "length buf" ?m] by simp
  qed (simp add: cyc_get_def)
  then have "cyc_get buf (P mod 2 ^ k) (unat first) @ cyc_get buf 0 ?m = cyc_get buf (P mod 2 ^ k) (unat first + ?m)"
    by (simp only: cyc_get_split)
  also have "\<dots> = cyc_get buf P (unat n)"
    using cyc_get_mod [of buf P] f(1) spsc_ringD [OF ring] by simp
  finally show ?thesis
    using s1 s2
    by (simp add: copy_out_def Let_def ring_index [OF ring] first_def [symmetric, unfolded Let_def] sub)
qed

section \<open>What the ring holds\<close>

text \<open>
  The cursors count all bytes ever written and read, modulo the range of \<open>size_t\<close>. The copy of the
  other side's cursor that each side keeps may be old, but never ahead of it.
\<close>

definition spsc_at :: "retro_spsc \<Rightarrow> nat \<Rightarrow> byte list \<Rightarrow> nat \<Rightarrow> nat \<Rightarrow> nat \<Rightarrow> byte list \<Rightarrow> bool" where
  "spsc_at q k buf CT T CH xs \<longleftrightarrow> spsc_ring q k buf \<and> 0 < sp_capacity q \<and> unat (sp_capacity q) \<le> 2 ^ k
     \<and> sp_head q = of_nat (T + length xs) \<and> sp_tail q = of_nat T
     \<and> sp_cached_tail q = of_nat CT \<and> sp_cached_head q = of_nat CH
     \<and> CT \<le> T \<and> T \<le> CH \<and> CH \<le> T + length xs \<and> T + length xs \<le> CT + unat (sp_capacity q)
     \<and> cyc_get buf T (length xs) = xs"

definition spsc_holds :: "retro_spsc \<Rightarrow> byte list \<Rightarrow> bool" where
  "spsc_holds q xs \<longleftrightarrow> (\<exists>k buf CT T CH. spsc_at q k buf CT T CH xs)"

lemma spsc_holdsI: "spsc_at q k buf CT T CH xs \<Longrightarrow> spsc_holds q xs"
  unfolding spsc_holds_def by blast

lemma of_nat_sub_unat: "b \<le> a \<Longrightarrow> a - b < 2 ^ 64 \<Longrightarrow> unat (of_nat a - of_nat b :: size_t) = a - b"
  by (simp add: of_nat_diff [symmetric] unat_of_nat del: of_nat_diff)

lemma spsc_at_diffs:
  assumes "spsc_at q k buf CT T CH xs"
  shows "unat (sp_head q - sp_cached_tail q) = T + length xs - CT"
    "unat (sp_head q - sp_tail q) = length xs"
    "unat (sp_cached_head q - sp_tail q) = CH - T"
    "unat (sp_capacity q - (sp_head q - sp_cached_tail q)) = unat (sp_capacity q) - (T + length xs - CT)"
    "unat (sp_capacity q - (sp_head q - sp_tail q)) = unat (sp_capacity q) - length xs"
    "length xs \<le> unat (sp_capacity q)"
proof -
  have cap: "unat (sp_capacity q) < 2 ^ 64" using unsigned_less [of "sp_capacity q", where ?'a = nat] by simp
  note a = assms [unfolded spsc_at_def]
  show d1: "unat (sp_head q - sp_cached_tail q) = T + length xs - CT"
    using a cap by (simp only: ) (rule of_nat_sub_unat, auto)
  show d2: "unat (sp_head q - sp_tail q) = length xs"
    using a cap of_nat_sub_unat [of T "T + length xs"] by (simp only:) simp
  show "unat (sp_cached_head q - sp_tail q) = CH - T"
    using a cap by (simp only: ) (rule of_nat_sub_unat, auto)
  show le: "length xs \<le> unat (sp_capacity q)" using a by linarith
  show "unat (sp_capacity q - (sp_head q - sp_cached_tail q)) = unat (sp_capacity q) - (T + length xs - CT)"
  proof (subst unat_sub)
    show "sp_head q - sp_cached_tail q \<le> sp_capacity q" unfolding word_le_nat_alt d1 using a by linarith
  qed (simp add: d1)
  show "unat (sp_capacity q - (sp_head q - sp_tail q)) = unat (sp_capacity q) - length xs"
  proof (subst unat_sub)
    show "sp_head q - sp_tail q \<le> sp_capacity q" unfolding word_le_nat_alt d2 by (rule le)
  qed (simp add: d2)
qed

lemma spsc_at_reload_tail:
  "spsc_at q k buf CT T CH xs \<Longrightarrow> spsc_at (q\<lparr>sp_cached_tail := sp_tail q\<rparr>) k buf T T CH xs"
  by (auto simp: spsc_at_def spsc_ring_def)

lemma spsc_at_reload_head:
  "spsc_at q k buf CT T CH xs \<Longrightarrow> spsc_at (q\<lparr>sp_cached_head := sp_head q\<rparr>) k buf CT T (T + length xs) xs"
  by (auto simp: spsc_at_def spsc_ring_def)

text \<open>
  The cached cursor is enough or is loaded again, so that a call takes what a load at every call
  would take.
\<close>

lemma write_reserve_at:
  assumes "spsc_at q k buf CT T CH xs"
  obtains m q' CT' where "write_reserve q n = (m, q')" "spsc_at q' k buf CT' T CH xs"
    "unat m = min (unat n) (unat (sp_capacity q) - length xs)" "T + length xs + unat m \<le> CT' + unat (sp_capacity q)"
    "sp_capacity q' = sp_capacity q" "sp_head q' = sp_head q" "sp_mirror q' = sp_mirror q"
proof -
  note d = spsc_at_diffs [OF assms]
  have le: "CT \<le> T" "T + length xs \<le> CT + unat (sp_capacity q)" using assms by (auto simp: spsc_at_def)
  let ?q = "q\<lparr>sp_cached_tail := sp_tail q\<rparr>"
  show thesis
  proof (cases "sp_capacity q - (sp_head q - sp_cached_tail q) < n")
    case True
    let ?a = "sp_capacity q - (sp_head q - sp_tail q)"
    have "write_reserve q n = (if n > ?a then ?a else n, ?q)"
      using True by (simp add: write_reserve_def Let_def)
    moreover have m: "unat (if n > ?a then ?a else n) = min (unat n) (unat (sp_capacity q) - length xs)"
      using d(5) by (auto simp: word_less_nat_alt min_def)
    moreover have "T + length xs + unat (if n > ?a then ?a else n) \<le> T + unat (sp_capacity q)"
      unfolding m using d(6) by linarith
    ultimately show ?thesis using that spsc_at_reload_tail [OF assms] by fastforce
  next
    case False
    then have "unat n \<le> unat (sp_capacity q) - (T + length xs - CT)"
      using d(4) by (simp add: word_less_nat_alt)
    moreover from this have "unat n = min (unat n) (unat (sp_capacity q) - length xs)"
      and "T + length xs + unat n \<le> CT + unat (sp_capacity q)" using le by linarith+
    moreover have "write_reserve q n = (n, q)"
      using False by (simp add: write_reserve_def Let_def)
    ultimately show ?thesis using that assms by blast
  qed
qed

lemma read_reserve_at:
  assumes "spsc_at q k buf CT T CH xs"
  obtains m q' CH' where "read_reserve q n = (m, q')" "spsc_at q' k buf CT T CH' xs"
    "unat m = min (unat n) (length xs)" "T + unat m \<le> CH'"
    "sp_capacity q' = sp_capacity q" "sp_tail q' = sp_tail q" "sp_mirror q' = sp_mirror q"
proof -
  note d = spsc_at_diffs [OF assms]
  have le: "T \<le> CH" "CH \<le> T + length xs" using assms by (auto simp: spsc_at_def)
  let ?q = "q\<lparr>sp_cached_head := sp_head q\<rparr>"
  show thesis
  proof (cases "sp_cached_head q - sp_tail q < n")
    case True
    let ?a = "sp_head q - sp_tail q"
    have "read_reserve q n = (if n > ?a then ?a else n, ?q)"
      using True by (simp add: read_reserve_def Let_def)
    moreover have m: "unat (if n > ?a then ?a else n) = min (unat n) (length xs)"
      using d(2) by (auto simp: word_less_nat_alt min_def)
    moreover have "T + unat (if n > ?a then ?a else n) \<le> T + length xs"
      unfolding m by simp
    ultimately show ?thesis using that spsc_at_reload_head [OF assms] by fastforce
  next
    case False
    then have "unat n \<le> CH - T" using d(3) by (simp add: word_less_nat_alt)
    moreover from this have "unat n = min (unat n) (length xs)" and "T + unat n \<le> CH" using le by linarith+
    moreover have "read_reserve q n = (n, q)"
      using False by (simp add: read_reserve_def Let_def)
    ultimately show ?thesis using that assms by blast
  qed
qed

text \<open>Publishing bytes written past the head, and releasing bytes at the tail.\<close>

lemma spsc_at_publish:
  assumes "spsc_at q k buf CT T CH xs" and "T + length xs + length ys \<le> CT + unat (sp_capacity q)"
  shows "spsc_at (q\<lparr>sp_buffer := Some (cyc_put buf (T + length xs) ys), sp_head := sp_head q + of_nat (length ys)\<rparr>)
    k (cyc_put buf (T + length xs) ys) CT T CH (xs @ ys)"
proof -
  have "length xs + length ys \<le> length buf" using assms by (auto simp: spsc_at_def spsc_ring_def)
  then have "cyc_get (cyc_put buf (T + length xs) ys) T (length xs + length ys) = cyc_get buf T (length xs) @ ys"
    by (rule cyc_get_put)
  then show ?thesis using assms by (auto simp: spsc_at_def spsc_ring_def)
qed

lemma spsc_at_release:
  assumes "spsc_at q k buf CT T CH xs" and "n \<le> length xs" and "T + n \<le> CH"
  shows "spsc_at (q\<lparr>sp_tail := sp_tail q + of_nat n\<rparr>) k buf CT (T + n) CH (drop n xs)"
proof -
  have "cyc_get buf T (length xs) = cyc_get buf T n @ cyc_get buf (T + n) (length xs - n)"
    using cyc_get_split [of buf T n "length xs - n"] assms(2) by simp
  then have "drop n xs = cyc_get buf (T + n) (length xs - n)"
    using assms(1) by (metis spsc_at_def append_eq_conv_conj cyc_get_length)
  then show ?thesis using assms by (auto simp: spsc_at_def spsc_ring_def)
qed

section \<open>The calls\<close>

text \<open>Each call on a ring that holds \<open>xs\<close> is the operation on a bounded queue of bytes.\<close>

lemma spsc_write_holds:
  assumes "spsc_holds q xs" and "unat n \<le> length data"
  shows "\<exists>q'. retro_spsc_write q data n =
      Some (of_nat (min (unat n) (unat (sp_capacity q) - length xs)), q')
    \<and> spsc_holds q' (xs @ take (min (unat n) (unat (sp_capacity q) - length xs)) data)
    \<and> sp_capacity q' = sp_capacity q"
proof -
  from assms(1) obtain k buf CT T CH where at: "spsc_at q k buf CT T CH xs" by (auto simp: spsc_holds_def)
  obtain m q' CT' where r: "write_reserve q n = (m, q')" "spsc_at q' k buf CT' T CH xs"
    "unat m = min (unat n) (unat (sp_capacity q) - length xs)" "T + length xs + unat m \<le> CT' + unat (sp_capacity q)"
    "sp_capacity q' = sp_capacity q" "sp_head q' = sp_head q" "sp_mirror q' = sp_mirror q"
    by (rule write_reserve_at [OF at])
  have mw: "m = of_nat (unat m)" by simp
  show ?thesis
  proof (cases "m = 0")
    case True
    then show ?thesis using r spsc_holdsI [OF r(2)] by (auto simp: retro_spsc_write_def)
  next
    case False
    let ?ys = "take (unat m) data"
    have len: "length ?ys = unat m" using r(3) assms(2) by simp
    have ring: "spsc_ring q' k buf" "sp_head q' = of_nat (T + length xs)" "unat (sp_capacity q') \<le> 2 ^ k"
      using r(2) by (simp_all add: spsc_at_def)
    have "unat m \<le> 2 ^ k" using r(3) ring(3) [unfolded r(5)] by linarith
    moreover have "unat m \<le> length data" using r(3) assms(2) by linarith
    ultimately have "copy_in q' (sp_head q') data m = Some (q'\<lparr>sp_buffer := Some (cyc_put buf (T + length xs) ?ys)\<rparr>)"
      unfolding ring(2) by (rule copy_in_ring [OF ring(1)])
    moreover have "spsc_holds (q'\<lparr>sp_buffer := Some (cyc_put buf (T + length xs) ?ys), sp_head := sp_head q' + of_nat (length ?ys)\<rparr>) (xs @ ?ys)"
      using r(4,5) len by (intro spsc_holdsI [OF spsc_at_publish [OF r(2)]]) simp
    ultimately show ?thesis
      using False r(1,5) unfolding retro_spsc_write_def r(3) [symmetric] len
      by (auto simp: Let_def)
  qed
qed

lemma spsc_read_holds:
  assumes "spsc_holds q xs"
  shows "\<exists>q'. retro_spsc_read q n = Some (take (unat n) xs, q')
    \<and> spsc_holds q' (drop (unat n) xs) \<and> sp_capacity q' = sp_capacity q"
    and "\<exists>q'. retro_spsc_peek q n = Some (take (unat n) xs, q')
    \<and> spsc_holds q' xs \<and> sp_capacity q' = sp_capacity q"
    and "\<exists>q'. retro_spsc_skip q n = (of_nat (min (unat n) (length xs)), q')
    \<and> spsc_holds q' (drop (unat n) xs) \<and> sp_capacity q' = sp_capacity q"
proof -
  from assms obtain k buf CT T CH where at: "spsc_at q k buf CT T CH xs" by (auto simp: spsc_holds_def)
  obtain m q' CH' where r: "read_reserve q n = (m, q')" "spsc_at q' k buf CT T CH' xs"
    "unat m = min (unat n) (length xs)" "T + unat m \<le> CH'"
    "sp_capacity q' = sp_capacity q" "sp_tail q' = sp_tail q" "sp_mirror q' = sp_mirror q"
    by (rule read_reserve_at [OF at])
  have mw: "m = of_nat (min (unat n) (length xs))" by (simp flip: r(3))
  have td: "take (unat m) xs = take (unat n) xs" "drop (unat m) xs = drop (unat n) xs"
    using r(3) by (auto simp: min_def)
  have ring: "spsc_ring q' k buf" "sp_tail q' = of_nat T" "unat (sp_capacity q') \<le> 2 ^ k"
    "cyc_get buf T (length xs) = xs"
    using r(2) by (simp_all add: spsc_at_def)
  have le: "unat m \<le> length xs" using r(3) by simp
  have "unat m \<le> 2 ^ k" using le spsc_at_diffs(6) [OF r(2)] ring(3) by simp
  then have "copy_out q' (sp_tail q') m = Some (cyc_get buf T (unat m))"
    unfolding ring(2) by (rule copy_out_ring [OF ring(1)])
  moreover have "cyc_get buf T (unat m) = take (unat m) xs"
    using cyc_get_split [of buf T "unat m" "length xs - unat m"] le ring(4)
    by (metis append_eq_conv_conj cyc_get_length le_add_diff_inverse)
  ultimately have out: "copy_out q' (sp_tail q') m = Some (take (unat n) xs)" by (simp add: td)
  have rel: "spsc_holds (q'\<lparr>sp_tail := sp_tail q' + m\<rparr>) (drop (unat n) xs)"
    using spsc_holdsI [OF spsc_at_release [OF r(2) le r(4)]] by (simp add: td)
  have zero: "take (unat n) xs = []" "drop (unat n) xs = xs" "min (unat n) (length xs) = 0" if "m = 0"
    using that td r(3) by auto
  have same: "spsc_holds q' xs" by (rule spsc_holdsI [OF r(2)])
  show "\<exists>q'. retro_spsc_read q n = Some (take (unat n) xs, q')
    \<and> spsc_holds q' (drop (unat n) xs) \<and> sp_capacity q' = sp_capacity q"
    using r(1,5) out rel zero same by (cases "m = 0") (auto simp: retro_spsc_read_def)
  show "\<exists>q'. retro_spsc_peek q n = Some (take (unat n) xs, q')
    \<and> spsc_holds q' xs \<and> sp_capacity q' = sp_capacity q"
    using r(1,5) out zero same by (cases "m = 0") (auto simp: retro_spsc_peek_def)
  show "\<exists>q'. retro_spsc_skip q n = (of_nat (min (unat n) (length xs)), q')
    \<and> spsc_holds q' (drop (unat n) xs) \<and> sp_capacity q' = sp_capacity q"
    using r(1,5) rel zero same mw by (cases "m = 0") (auto simp: retro_spsc_skip_def)
qed

lemma spsc_avail_holds:
  assumes "spsc_holds q xs"
  shows "unat (retro_spsc_write_avail q) = unat (sp_capacity q) - length xs"
    "unat (retro_spsc_read_avail q) = length xs" "length xs \<le> unat (sp_capacity q)"
  using assms spsc_at_diffs
  by (auto simp: spsc_holds_def retro_spsc_write_avail_def retro_spsc_read_avail_def)

lemma cyc_get_0 [simp]: "cyc_get buf pos 0 = []"
  by (simp add: cyc_get_def)

lemma spsc_clear_holds:
  "spsc_holds q xs \<Longrightarrow> spsc_holds (retro_spsc_clear q) []
    \<and> sp_capacity (retro_spsc_clear q) = sp_capacity q"
proof -
  assume "spsc_holds q xs"
  then obtain k buf CT T CH where at: "spsc_at q k buf CT T CH xs" by (auto simp: spsc_holds_def)
  then have "spsc_at (retro_spsc_clear q) k buf 0 0 0 []"
    by (simp add: spsc_at_def spsc_ring_def retro_spsc_clear_def)
  from spsc_holdsI [OF this] show ?thesis by (simp add: retro_spsc_clear_def)
qed

text \<open>Whole frames only.\<close>

lemma frames_reserve_at:
  assumes at: "spsc_at q k buf CT T CH xs" and "0 < f"
  obtains m q' CT' where "frames_reserve q n f = (m, q')" "spsc_at q' k buf CT' T CH xs"
    "unat m = min (unat n) ((unat (sp_capacity q) - length xs) div unat f)"
    "unat (m * f) = unat m * unat f" "T + length xs + unat (m * f) \<le> CT' + unat (sp_capacity q)"
    "sp_capacity q' = sp_capacity q" "sp_head q' = sp_head q" "sp_mirror q' = sp_mirror q"
proof -
  note d = spsc_at_diffs [OF at]
  let ?room = "unat (sp_capacity q) - length xs"
  let ?a = "(sp_capacity q - (sp_head q - sp_cached_tail q)) div f"
  let ?b = "(sp_capacity q - (sp_head q - sp_tail q)) div f"
  define again where "again \<longleftrightarrow> ?a < n"
  define q1 where "q1 = (if again then q\<lparr>sp_cached_tail := sp_tail q\<rparr> else q)"
  define m where "m = (let avail = (if again then ?b else ?a) in if n > avail then avail else n)"
  define CT' where "CT' = (if again then T else CT)"
  have q1: "spsc_at q1 k buf CT' T CH xs" "sp_capacity q1 = sp_capacity q" "sp_head q1 = sp_head q"
    "sp_mirror q1 = sp_mirror q"
    using at spsc_at_reload_tail [OF at] by (auto simp: q1_def CT'_def)
  have b: "unat ?b = ?room div unat f" and a: "unat ?a = (unat (sp_capacity q) - (T + length xs - CT)) div unat f"
    by (simp_all add: unat_div d)
  have le: "CT \<le> T" "T + length xs \<le> CT + unat (sp_capacity q)" using at by (auto simp: spsc_at_def)
  have ab: "unat ?a \<le> unat ?b" unfolding a b using le by (intro div_le_mono) linarith
  have m: "unat m = min (unat n) (?room div unat f)"
    using ab by (auto simp: m_def again_def word_less_nat_alt min_def Let_def b [symmetric])
  let ?c = "unat (sp_capacity q) - (T + length xs - CT')"
  have "unat m \<le> ?c div unat f"
    using le by (auto simp: m b a again_def CT'_def word_less_nat_alt not_less)
  then have mf: "unat m * unat f \<le> ?c" by (meson div_times_less_eq_dividend le_trans mult_le_mono1)
  have cap: "unat m * unat f \<le> unat (sp_capacity q)" using mf by simp
  have um: "unat (m * f) = unat m * unat f"
    using cap unsigned_less [of "sp_capacity q", where ?'a = nat] by (intro unat_mult_lem [THEN iffD1]) simp
  have "T + length xs - CT' \<le> unat (sp_capacity q)"
    using le unfolding CT'_def by (cases again; simp only: if_True if_False; linarith)
  then have "T + length xs + unat (m * f) \<le> CT' + unat (sp_capacity q)" using mf um by simp
  moreover have "frames_reserve q n f = (m, q1)"
    by (auto simp: frames_reserve_def Let_def m_def q1_def again_def)
  ultimately show thesis using that q1 m um by blast
qed

lemma spsc_write_frames_holds:
  assumes "spsc_holds q xs" and "unat n * unat f \<le> length data"
  shows "\<exists>q'. retro_spsc_write_frames q data n f =
      Some (of_nat (min (unat n) ((unat (sp_capacity q) - length xs) div unat f)), q')
    \<and> spsc_holds q' (xs @ take (min (unat n) ((unat (sp_capacity q) - length xs) div unat f) * unat f) data)
    \<and> sp_capacity q' = sp_capacity q"
proof (cases "f = 0 \<or> n = 0")
  case True
  then have "min (unat n) ((unat (sp_capacity q) - length xs) div unat f) = 0" by auto
  then show ?thesis using True assms(1) by (auto simp: retro_spsc_write_frames_def)
next
  case False
  from assms(1) obtain k buf CT T CH where at: "spsc_at q k buf CT T CH xs" by (auto simp: spsc_holds_def)
  have f0: "0 < f" using False by (simp add: word_gt_0)
  obtain m q' CT' where r: "frames_reserve q n f = (m, q')" "spsc_at q' k buf CT' T CH xs"
    "unat m = min (unat n) ((unat (sp_capacity q) - length xs) div unat f)"
    "unat (m * f) = unat m * unat f" "T + length xs + unat (m * f) \<le> CT' + unat (sp_capacity q)"
    "sp_capacity q' = sp_capacity q" "sp_head q' = sp_head q" "sp_mirror q' = sp_mirror q"
    by (rule frames_reserve_at [OF at f0])
  show ?thesis
  proof (cases "m = 0")
    case True
    then show ?thesis unfolding r(3) [symmetric] using r(1,6) spsc_holdsI [OF r(2)] False
      by (simp add: retro_spsc_write_frames_def)
  next
    case m: False
    let ?ys = "take (unat (m * f)) data"
    have "unat m \<le> unat n" using r(3) by simp
    then have ml: "unat (m * f) \<le> length data" using assms(2) unfolding r(4) by (meson le_trans mult_le_mono1)
    then have len: "length ?ys = unat (m * f)" by simp
    have ring: "spsc_ring q' k buf" "sp_head q' = of_nat (T + length xs)" "unat (sp_capacity q) \<le> 2 ^ k"
      "CT' \<le> T" using r(2,6) by (simp_all add: spsc_at_def)
    then have "unat (m * f) \<le> 2 ^ k" using r(5) by linarith
    from copy_in_ring [OF ring(1) this ml]
    have "copy_in q' (sp_head q') data (m * f) = Some (q'\<lparr>sp_buffer := Some (cyc_put buf (T + length xs) ?ys)\<rparr>)"
      unfolding ring(2) .
    moreover have "spsc_holds (q'\<lparr>sp_buffer := Some (cyc_put buf (T + length xs) ?ys),
        sp_head := sp_head q' + of_nat (length ?ys)\<rparr>) (xs @ ?ys)"
      using r(5,6) len by (intro spsc_holdsI [OF spsc_at_publish [OF r(2)]]) simp
    ultimately show ?thesis
      using m False r(1,6) unfolding r(3) [symmetric] r(4) [symmetric] len
      by (simp add: retro_spsc_write_frames_def Let_def)
  qed
qed

text \<open>
  Access in place. The span handed out to the producer is free, and what it stores there before
  \<open>write_end\<close> is appended; the span handed out to the consumer is what it would read.
\<close>

lemma unat_minus_one: "unat (-1 :: size_t) = 2 ^ 64 - 1"
  using unsigned_minus_1_eq_mask [where ?'a = nat and ?'b = 64] by (simp add: mask_eq_exp_minus_1)

lemma spsc_write_begin_holds:
  assumes "spsc_holds q xs"
  obtains off span q' where "retro_spsc_write_begin q = (off, span, q')"
    "spsc_holds q' xs" "sp_capacity q' = sp_capacity q"
    "length xs < unat (sp_capacity q) \<Longrightarrow> 0 < span" "unat span \<le> unat (sp_capacity q) - length xs"
    "sp_mirror q \<noteq> 0 \<Longrightarrow> unat span = unat (sp_capacity q) - length xs"
    "\<And>ys. length ys \<le> unat span \<Longrightarrow> \<exists>q''. store_bytes q' (unat off) ys = Some q''
      \<and> spsc_holds (retro_spsc_write_end q'' (of_nat (length ys))) (xs @ ys)"
proof -
  from assms obtain k buf CT T CH where at: "spsc_at q k buf CT T CH xs" by (auto simp: spsc_holds_def)
  note d = spsc_at_diffs [OF at]
  have le: "CT \<le> T" "T + length xs \<le> CT + unat (sp_capacity q)" using at by (auto simp: spsc_at_def)
  have head: "sp_head q = of_nat (T + length xs)" and ring: "spsc_ring q k buf" and k: "unat (sp_capacity q) \<le> 2 ^ k"
    using at by (simp_all add: spsc_at_def)
  let ?a = "sp_capacity q - (sp_head q - sp_cached_tail q)"
  let ?b = "sp_capacity q - (sp_head q - sp_tail q)"
  define c where "c = spsc_contig q (sp_head q AND sp_mask q)"
  define again where "again \<longleftrightarrow> ?a < c \<and> ?a < sp_capacity q"
  define q1 where "q1 = (if again then q\<lparr>sp_cached_tail := sp_tail q\<rparr> else q)"
  define span where "span = (let avail = (if again then ?b else ?a) in if c > avail then avail else c)"
  define CT' where "CT' = (if again then T else CT)"
  have q1: "spsc_at q1 k buf CT' T CH xs" "sp_capacity q1 = sp_capacity q" "sp_mirror q1 = sp_mirror q"
    "sp_mask q1 = sp_mask q"
    using at spsc_at_reload_tail [OF at] by (auto simp: q1_def CT'_def)
  have code: "retro_spsc_write_begin q = (sp_head q AND sp_mask q, span, q1)"
    by (auto simp: retro_spsc_write_begin_def Let_def span_def q1_def again_def c_def)
  have span: "unat span = min (unat c) (unat (sp_capacity q) - length xs)"
    and room: "unat span \<le> unat (sp_capacity q) - (T + length xs - CT')"
    using le d(4,5) by (auto simp: span_def again_def CT'_def word_less_nat_alt min_def Let_def)
  have pos: "P mod 2 ^ k < 2 ^ k" for P :: nat by simp
  have cmir: "unat c = 2 ^ 64 - 1" if "sp_mirror q \<noteq> 0" using that by (simp add: c_def spsc_contig_def unat_minus_one)
  have cpos: "0 < unat c"
    using ring_contig [OF ring, of "T + length xs", folded head] pos [of "T + length xs"]
      cmir by (cases "sp_mirror q = 0") (simp_all add: c_def)
  show thesis
  proof (rule that [OF code])
    show "spsc_holds q1 xs" "sp_capacity q1 = sp_capacity q" using spsc_holdsI [OF q1(1)] q1(2) by simp_all
    show "unat span \<le> unat (sp_capacity q) - length xs" using span by simp
    show "0 < span" if "length xs < unat (sp_capacity q)"
      using that span cpos by (simp add: word_less_nat_alt)
    show "unat span = unat (sp_capacity q) - length xs" if "sp_mirror q \<noteq> 0"
      using span cmir [OF that] unsigned_less [of "sp_capacity q", where ?'a = nat] by simp
    fix ys :: "byte list"
    assume ys: "length ys \<le> unat span"
    have off: "unat (sp_head q AND sp_mask q) = (T + length xs) mod 2 ^ k" unfolding head by (rule ring_index [OF ring])
    have ring1: "spsc_ring q1 k buf" using q1(1) by (simp add: spsc_at_def)
    have "(T + length xs) mod 2 ^ k + length ys \<le> 2 ^ k" if "sp_mirror q1 = 0"
      using ring_contig [OF ring, of "T + length xs", folded head] that ys span q1(3) pos [of "T + length xs", THEN less_imp_le]
      by (simp add: c_def le_diff_conv2)
    then have "store_bytes q1 ((T + length xs) mod 2 ^ k) ys
      = Some (q1\<lparr>sp_buffer := Some (cyc_put buf ((T + length xs) mod 2 ^ k) ys)\<rparr>)"
      using ys span k pos [of "T + length xs"] by (intro store_bytes_ring [OF ring1]) linarith+
    also have "cyc_put buf ((T + length xs) mod 2 ^ k) ys = cyc_put buf (T + length xs) ys"
      using cyc_put_mod [of buf "T + length xs"] spsc_ringD [OF ring] by simp
    finally have st: "store_bytes q1 (unat (sp_head q AND sp_mask q)) ys
      = Some (q1\<lparr>sp_buffer := Some (cyc_put buf (T + length xs) ys)\<rparr>)" by (simp add: off)
    have "T + length xs - CT' \<le> unat (sp_capacity q)"
      using le unfolding CT'_def by (cases again; simp only: if_True if_False; linarith)
    then have pub: "spsc_holds (q1\<lparr>sp_buffer := Some (cyc_put buf (T + length xs) ys),
        sp_head := sp_head q1 + of_nat (length ys)\<rparr>) (xs @ ys)"
      using ys room q1(1,2) by (intro spsc_holdsI [OF spsc_at_publish [OF q1(1)]]) (simp add: spsc_at_def)
    have zero: "(of_nat (length ys) :: size_t) = 0 \<longleftrightarrow> ys = []"
      using of_nat_eq_0_small [of "length ys", where ?'a = 64] ys unsigned_less [of span, where ?'a = nat] by simp
    show "\<exists>q''. store_bytes q1 (unat (sp_head q AND sp_mask q)) ys = Some q''
      \<and> spsc_holds (retro_spsc_write_end q'' (of_nat (length ys))) (xs @ ys)"
      using pub st by (cases "ys = []") (simp_all add: retro_spsc_write_end_def zero)
  qed
qed

lemma spsc_read_begin_holds:
  assumes "spsc_holds q xs"
  obtains off span q' where "retro_spsc_read_begin q = (off, span, q')"
    "spsc_holds q' xs" "sp_capacity q' = sp_capacity q"
    "xs \<noteq> [] \<Longrightarrow> 0 < span" "unat span \<le> length xs"
    "sp_mirror q \<noteq> 0 \<Longrightarrow> unat span = length xs"
    "load_bytes q' (unat off) (unat span) = Some (take (unat span) xs)"
    "\<And>n. unat n \<le> unat span \<Longrightarrow> spsc_holds (retro_spsc_read_end q' n) (drop (unat n) xs)"
proof -
  from assms obtain k buf CT T CH where at: "spsc_at q k buf CT T CH xs" by (auto simp: spsc_holds_def)
  note d = spsc_at_diffs [OF at]
  have le: "T \<le> CH" "CH \<le> T + length xs" "length xs \<le> unat (sp_capacity q)" using at d by (auto simp: spsc_at_def)
  have tail: "sp_tail q = of_nat T" and ring: "spsc_ring q k buf" and k: "unat (sp_capacity q) \<le> 2 ^ k"
    and cont: "cyc_get buf T (length xs) = xs"
    using at by (simp_all add: spsc_at_def)
  let ?a = "sp_cached_head q - sp_tail q"
  let ?b = "sp_head q - sp_tail q"
  define c where "c = spsc_contig q (sp_tail q AND sp_mask q)"
  define again where "again \<longleftrightarrow> ?a < c \<and> ?a < sp_capacity q"
  define q1 where "q1 = (if again then q\<lparr>sp_cached_head := sp_head q\<rparr> else q)"
  define span where "span = (let avail = (if again then ?b else ?a) in if c > avail then avail else c)"
  define CH' where "CH' = (if again then T + length xs else CH)"
  have q1: "spsc_at q1 k buf CT T CH' xs" "sp_capacity q1 = sp_capacity q" "sp_mirror q1 = sp_mirror q"
    "sp_mask q1 = sp_mask q"
    using at spsc_at_reload_head [OF at] by (auto simp: q1_def CH'_def)
  have code: "retro_spsc_read_begin q = (sp_tail q AND sp_mask q, span, q1)"
    by (auto simp: retro_spsc_read_begin_def Let_def span_def q1_def again_def c_def)
  have span: "unat span = min (unat c) (length xs)" and room: "T + unat span \<le> CH'"
    using le d(2,3) by (auto simp: span_def again_def CH'_def word_less_nat_alt min_def Let_def)
  have pos: "P mod 2 ^ k < 2 ^ k" for P :: nat by simp
  have cmir: "unat c = 2 ^ 64 - 1" if "sp_mirror q \<noteq> 0" using that by (simp add: c_def spsc_contig_def unat_minus_one)
  have cpos: "0 < unat c"
    using ring_contig [OF ring, of T, folded tail] pos [of T]
      cmir by (cases "sp_mirror q = 0") (simp_all add: c_def)
  show thesis
  proof (rule that [OF code])
    show "spsc_holds q1 xs" "sp_capacity q1 = sp_capacity q" using spsc_holdsI [OF q1(1)] q1(2) by simp_all
    show "unat span \<le> length xs" using span by simp
    show "0 < span" if "xs \<noteq> []" using that span cpos by (simp add: word_less_nat_alt)
    show "unat span = length xs" if "sp_mirror q \<noteq> 0"
      using span le(3) cmir [OF that] unsigned_less [of "sp_capacity q", where ?'a = nat] by simp
    have off: "unat (sp_tail q AND sp_mask q) = T mod 2 ^ k" unfolding tail by (rule ring_index [OF ring])
    have ring1: "spsc_ring q1 k buf" using q1(1) by (simp add: spsc_at_def)
    have "T mod 2 ^ k + unat span \<le> 2 ^ k" if "sp_mirror q1 = 0"
      using ring_contig [OF ring, of T, folded tail] that span q1(3) pos [of T, THEN less_imp_le]
      by (simp add: c_def min_def le_diff_conv2 split: if_splits)
    then have "load_bytes q1 (T mod 2 ^ k) (unat span) = Some (cyc_get buf (T mod 2 ^ k) (unat span))"
      using span k le pos [of T] by (intro load_bytes_ring [OF ring1]) linarith+
    also have "cyc_get buf (T mod 2 ^ k) (unat span) = cyc_get buf T (unat span)"
      using cyc_get_mod [of buf T] spsc_ringD [OF ring] by simp
    also have "\<dots> = take (unat span) xs"
      using cyc_get_split [of buf T "unat span" "length xs - unat span"] span cont
      by (metis append_eq_conv_conj cyc_get_length le_add_diff_inverse min.cobounded2)
    finally show "load_bytes q1 (unat (sp_tail q AND sp_mask q)) (unat span) = Some (take (unat span) xs)"
      by (simp add: off)
    fix n :: size_t assume n: "unat n \<le> unat span"
    then have "spsc_holds (q1\<lparr>sp_tail := sp_tail q1 + n\<rparr>) (drop (unat n) xs)"
      using spsc_holdsI [OF spsc_at_release [OF q1(1), of "unat n"]] span room
n by (simp add: min_def split: if_splits)
    then show "spsc_holds (retro_spsc_read_end q1 n) (drop (unat n) xs)"
      using spsc_holdsI [OF q1(1)] by (auto simp: retro_spsc_read_end_def)
  qed
qed

section \<open>Creation and growth\<close>

text \<open>The loop doubles up to the power of two that \<open>v\<close> needs; half the range is a bound for it.\<close>

lemma pow2_loop_result:
  assumes "unat v \<le> 2 ^ 63" and "j \<le> 63" and "j = 0 \<or> 2 ^ (j - 1) < unat v"
  shows "\<exists>i. pow2_loop v (2 ^ j) = Some (2 ^ i) \<and> j \<le> i \<and> i \<le> 63 \<and> unat v \<le> 2 ^ i \<and> (i = 0 \<or> 2 ^ (i - 1) < unat v)"
  using assms
proof (induction "63 - j" arbitrary: j)
  case 0
  then have "j = 63" by simp
  then have "\<not> (2 ^ j :: size_t) < v" using 0 by (simp add: word_less_nat_alt not_less)
  then show ?case using 0 \<open>j = 63\<close> by (subst pow2_loop.simps) (auto intro!: exI [of _ 63])
next
  case (Suc n)
  have two: "unat (2 ^ j :: size_t) = 2 ^ j" using Suc.prems(2) by (rule unat_pow2)
  show ?case
  proof (cases "2 ^ j < v")
    case True
    then have "pow2_loop v (2 ^ j) = pow2_loop v (2 ^ (Suc j))"
      by (subst pow2_loop.simps) (simp add: push_bit_eq_mult mult.commute)
    moreover have "2 ^ (Suc j - 1) < unat v" using True two by (simp add: word_less_nat_alt)
    ultimately show ?thesis
      using Suc.hyps(1) [of "Suc j"] Suc.hyps(2) Suc.prems Suc_leD by fastforce
  next
    case False
    then have "unat v \<le> 2 ^ j" using two by (simp add: word_less_nat_alt not_less)
    then show ?thesis using False Suc.prems by (subst pow2_loop.simps) auto
  qed
qed

text \<open>A power of two is the size that \<open>AND\<close> with its predecessor clears.\<close>

lemma and_minus_1_pow2:
  assumes "v AND (v - 1) = 0" and "v \<noteq> (0 :: size_t)"
  obtains i where "i \<le> 63" "v = 2 ^ i"
proof -
  define i where "i = (LEAST i. bit v i)"
  obtain m where m: "bit v m" using assms(2) by (auto simp: bit_eq_iff)
  then have i: "bit v i" unfolding i_def by (rule LeastI)
  have low: "\<not> bit v j" if "j < i" for j using that not_less_Least unfolding i_def by blast
  have i63: "i \<le> 63" using i bit_imp_le_length [OF i] by simp
  define h where "h = v AND NOT (2 ^ i)"
  have split: "v = h + 2 ^ i"
  proof -
    have "v = h OR 2 ^ i" using i by (intro bit_word_eqI) (auto simp: bit_simps h_def)
    also have "\<dots> = h + 2 ^ i" by (subst disjunctive_add) (auto simp: bit_simps h_def)
    finally show ?thesis .
  qed
  have minus: "v - 1 = h OR mask i"
  proof -
    have "v - 1 = h + mask i" using split by (simp add: mask_eq_exp_minus_1)
    also have "\<dots> = h OR mask i" using low by (subst disjunctive_add) (auto simp: bit_simps h_def)
    finally show ?thesis .
  qed
  have "h = 0"
  proof (rule bit_word_eqI)
    fix j assume "j < LENGTH(64)"
    have "\<not> bit (v AND (v - 1)) j" using assms(1) by simp
    then show "bit h j = bit (0 :: size_t) j" by (auto simp: minus bit_simps h_def)
  qed
  then show thesis using that i63 split by simp
qed

lemma spsc_round_up_pow2_result:
  assumes "0 < v" and "unat v \<le> 2 ^ 63"
  obtains i where "spsc_round_up_pow2 v = Some (2 ^ i)" "i \<le> 63" "unat v \<le> 2 ^ i" "i = 0 \<or> 2 ^ (i - 1) < unat v"
proof (cases "v AND (v - 1) = 0")
  case True
  then obtain i where i: "i \<le> 63" "v = 2 ^ i" using assms(1) and_minus_1_pow2 by (metis word_gt_0)
  then have "unat v = 2 ^ i" by (simp add: unat_pow2)
  moreover have "i = 0 \<or> 2 ^ (i - 1) < (2 :: nat) ^ i" by (cases i) simp_all
  ultimately show thesis
    using True i assms(1) by (intro that [of i]) (auto simp: spsc_round_up_pow2_def)
next
  case False
  from assms(1) have "0 < unat v" by (simp add: word_less_nat_alt)
  then obtain i where "pow2_loop v (2 ^ 0) = Some (2 ^ i)" "i \<le> 63" "unat v \<le> 2 ^ i" "i = 0 \<or> 2 ^ (i - 1) < unat v"
    using pow2_loop_result [OF assms(2), of 0] by auto
  then show thesis using False assms(1) by (intro that [of i]) (auto simp: spsc_round_up_pow2_def)
qed

text \<open>What creation returns: an empty ring whose capacity is the power of two asked for.\<close>

definition spsc_fresh :: "retro_spsc \<Rightarrow> size_t \<Rightarrow> bool" where
  "spsc_fresh q c \<longleftrightarrow> (\<exists>k buf. spsc_at q k buf 0 0 0 []) \<and> unat c \<le> unat (sp_capacity q)
     \<and> unat (sp_capacity q) < 2 * unat c"

lemma HALF_SIZE_MAX_unat: "unat HALF_SIZE_MAX = 2 ^ 63 - 1"
  by (simp add: HALF_SIZE_MAX_def SIZE_MAX_def)

lemma half_size_bounds:
  assumes "\<not> (v = 0 \<or> v > HALF_SIZE_MAX)"
  shows "0 < v" "unat v \<le> 2 ^ 63"
proof -
  show "0 < v" using assms by (simp add: word_gt_0)
  have "unat v \<le> 2 ^ 63 - 1" using assms by (simp add: word_less_nat_alt HALF_SIZE_MAX_unat not_less)
  then show "unat v \<le> 2 ^ 63" by simp
qed

lemma pow2_minus_1: "(2 :: size_t) ^ k - 1 = mask k"
  by (simp add: mask_eq_exp_minus_1)

lemma pow2_capacity:
  "i = 0 \<or> 2 ^ (i - 1) < unat v \<Longrightarrow> 0 < unat v \<Longrightarrow> 2 ^ i < 2 * unat v"
  by (cases i) simp_all

lemma retro_spsc_init_result:
  assumes "allocates malloc"
  obtains r where "retro_spsc_init malloc c = Some r" "\<And>q. r = Some q \<Longrightarrow> spsc_fresh q c"
    "r = None \<Longrightarrow> (\<forall>n. malloc n \<noteq> None) \<Longrightarrow> c = 0 \<or> unat c > 2 ^ 62"
proof (cases "c = 0 \<or> c > HALF_SIZE_MAX")
  case True
  then have "c = 0 \<or> unat c > 2 ^ 62" by (auto simp: word_less_nat_alt HALF_SIZE_MAX_unat)
  then show thesis using True by (intro that [of None]) (simp_all add: retro_spsc_init_def)
next
  case False
  note b = half_size_bounds [OF False]
  obtain i where i: "spsc_round_up_pow2 c = Some (2 ^ i)" "i \<le> 63" "unat c \<le> 2 ^ i" "i = 0 \<or> 2 ^ (i - 1) < unat c"
    by (rule spsc_round_up_pow2_result [OF b])
  have two: "unat (2 ^ i :: size_t) = 2 ^ i" by (rule unat_pow2 [OF i(2)])
  have ne: "(2 ^ i :: size_t) \<noteq> 0" using two by (metis power_not_zero unat_0 zero_neq_numeral)
  have c0: "0 < unat c" using b(1) by (simp add: word_less_nat_alt)
  show thesis
  proof (cases "2 ^ i > HALF_SIZE_MAX")
    case True
    then have "(2 :: nat) ^ 62 < 2 ^ i" by (simp add: word_less_nat_alt HALF_SIZE_MAX_unat two)
    then have "62 < i" by (rule power_less_imp_less_exp [rotated]) simp
    then have "(2 :: nat) ^ 62 < unat c" using i(2,4) by (cases "i = 63") simp_all
    then show ?thesis using True False i(1) by (intro that [of None]) (simp_all add: retro_spsc_init_def)
  next
    case fits: False
    show ?thesis
    proof (cases "malloc (unat (2 ^ i :: size_t))")
      case None
      then show ?thesis using fits ne False i(1)
        by (intro that [of None]) (simp_all add: retro_spsc_init_def)
    next
      case (Some buf)
      then have "length buf = 2 ^ i" using assms two by (metis allocates_def)
      let ?q = "\<lparr>sp_buffer = Some buf, sp_capacity = 2 ^ i, sp_mask = 2 ^ i - 1,
            sp_mirror = 0, sp_head = 0, sp_cached_tail = 0, sp_tail = 0, sp_cached_head = 0\<rparr>"
      have "spsc_at ?q i buf 0 0 0 []"
        using \<open>length buf = 2 ^ i\<close> i(2) ne two
        by (simp add: spsc_at_def spsc_ring_def pow2_minus_1 word_gt_0)
      then have "spsc_fresh ?q c"
        using i(3) pow2_capacity [OF i(4) c0] two by (auto simp: spsc_fresh_def)
      then show ?thesis using fits ne False i(1) Some
        by (intro that [of "Some ?q"]) (simp_all add: retro_spsc_init_def)
    qed
  qed
qed

lemma retro_spsc_init_mirrored_result:
  assumes "allocates malloc" and "allocates mirror_alloc"
  obtains r where "retro_spsc_init_mirrored granule mirror_alloc malloc c = Some r"
    "\<And>q. r = Some q \<Longrightarrow> spsc_fresh q c"
    "r = None \<Longrightarrow> (\<forall>n. malloc n \<noteq> None) \<Longrightarrow> c = 0 \<or> unat c > 2 ^ 62"
proof (cases "c = 0 \<or> c > HALF_SIZE_MAX")
  case True
  then have "c = 0 \<or> unat c > 2 ^ 62" by (auto simp: word_less_nat_alt HALF_SIZE_MAX_unat)
  then show thesis using True by (intro that [of None]) (simp_all add: retro_spsc_init_mirrored_def)
next
  case False
  note b = half_size_bounds [OF False]
  obtain i where i: "spsc_round_up_pow2 c = Some (2 ^ i)" "i \<le> 63" "unat c \<le> 2 ^ i" "i = 0 \<or> 2 ^ (i - 1) < unat c"
    by (rule spsc_round_up_pow2_result [OF b])
  have two: "unat (2 ^ i :: size_t) = 2 ^ i" by (rule unat_pow2 [OF i(2)])
  have ne: "(2 ^ i :: size_t) \<noteq> 0" using two by (metis power_not_zero unat_0 zero_neq_numeral)
  have c0: "0 < unat c" using b(1) by (simp add: word_less_nat_alt)
  define sz where "sz = (if 2 ^ i > granule then 2 ^ i else granule)"
  define m where "m = (if granule AND (granule - 1) = 0 \<and> sz \<le> of_nat (SIZE_MAX div 4)
    then mirror_alloc (unat sz) else None)"
  have code: "retro_spsc_init_mirrored granule mirror_alloc malloc c = (case m of
      Some buf \<Rightarrow> Some (Some \<lparr>sp_buffer = Some buf, sp_capacity = 2 ^ i, sp_mask = sz - 1,
            sp_mirror = sz, sp_head = 0, sp_cached_tail = 0, sp_tail = 0, sp_cached_head = 0\<rparr>)
      | None \<Rightarrow> retro_spsc_init malloc c)"
    unfolding retro_spsc_init_mirrored_def m_def sz_def Let_def using False ne i(1) by simp
  show thesis
  proof (cases m)
    case None
    show ?thesis by (rule retro_spsc_init_result [OF assms(1), of c]) (rule that, simp_all add: code None)
  next
    case (Some buf)
    then have g: "granule AND (granule - 1) = 0" and ma: "mirror_alloc (unat sz) = Some buf"
      by (auto simp: m_def split: if_splits)
    obtain k where k: "k \<le> 63" "sz = 2 ^ k" "i \<le> k"
    proof (cases "2 ^ i > granule")
      case True
      then show thesis using that [of i] i(2) by (simp add: sz_def)
    next
      case False
      then have le: "2 ^ i \<le> granule" by simp
      then have "granule \<noteq> 0" using ne by auto
      then obtain j where j: "j \<le> 63" "granule = 2 ^ j" using and_minus_1_pow2 [OF g] by blast
      then have "(2 :: nat) ^ i \<le> 2 ^ j" using le two by (simp add: word_le_nat_alt unat_pow2)
      then have "i \<le> j" by (rule power_le_imp_le_exp [rotated]) simp
      then show thesis using that [of j] j False by (simp add: sz_def)
    qed
    have "length buf = 2 ^ k" using assms(2) ma k by (metis allocates_def unat_pow2)
    let ?q = "\<lparr>sp_buffer = Some buf, sp_capacity = 2 ^ i, sp_mask = sz - 1,
            sp_mirror = sz, sp_head = 0, sp_cached_tail = 0, sp_tail = 0, sp_cached_head = 0\<rparr>"
    have "(2 :: nat) ^ i \<le> 2 ^ k" using k(3) by (intro power_increasing) simp_all
    then have "spsc_at ?q k buf 0 0 0 []"
      using \<open>length buf = 2 ^ k\<close> k ne two
      by (simp add: spsc_at_def spsc_ring_def pow2_minus_1 word_gt_0)
    then have "spsc_fresh ?q c"
      using i(3) pow2_capacity [OF i(4) c0] two by (auto simp: spsc_fresh_def)
    then show ?thesis by (intro that [of "Some ?q"]) (simp_all add: code Some)
  qed
qed

text \<open>Growing copies run by run, each run as long as both buffers allow.\<close>

lemma grow_loop_result:
  assumes q: "spsc_ring q k buf" and n: "spsc_ring n j nbuf"
    and L: "L \<le> 2 ^ k" "L \<le> 2 ^ j" and P: "T \<le> P" "P \<le> T + L"
    and sofar: "cyc_get nbuf T (P - T) = cyc_get buf T (P - T)"
  shows "\<exists>nbuf'. grow_loop q (of_nat (T + L)) (of_nat P) n = Some (n\<lparr>sp_buffer := Some nbuf'\<rparr>)
    \<and> length nbuf' = 2 ^ j \<and> cyc_get nbuf' T L = cyc_get buf T L"
  using n P sofar
proof (induction "T + L - P" arbitrary: P n nbuf rule: less_induct)
  case less
  note n = less.prems(1) and P = less.prems(2,3) and sofar = less.prems(4)
  have small: "T + L - P < 2 ^ 64"
    using L(1) P spsc_ringD(5) [OF q] by simp
  have run: "unat (of_nat (T + L) - of_nat P :: size_t) = T + L - P"
    using P small by (intro of_nat_sub_unat) simp_all
  show ?case
  proof (cases "P = T + L")
    case True
    then have "n\<lparr>sp_buffer := Some nbuf\<rparr> = n" using spsc_ringD(1) [OF n] by simp
    then show ?thesis using True sofar spsc_ringD(2) [OF n]
      by (subst grow_loop.simps) (auto intro!: exI [of _ nbuf])
  next
    case False
    let ?r0 = "of_nat (T + L) - of_nat P :: size_t"
    let ?s = "of_nat P AND sp_mask q" and ?d = "of_nat P AND sp_mask n"
    define r1 where "r1 = (if sp_mirror q = 0 \<and> ?r0 > sp_mask q + 1 - ?s then sp_mask q + 1 - ?s else ?r0)"
    define r where "r = (if sp_mirror n = 0 \<and> r1 > sp_mask n + 1 - ?d then sp_mask n + 1 - ?d else r1)"
    have pq: "P mod 2 ^ k < 2 ^ k" and pn: "P mod 2 ^ j < 2 ^ j" by simp_all
    have cq: "unat (sp_mask q + 1 - ?s) = 2 ^ k - P mod 2 ^ k" if "sp_mirror q = 0"
      using ring_contig [OF q that, of P] that by (simp add: spsc_contig_def)
    have cn: "unat (sp_mask n + 1 - ?d) = 2 ^ j - P mod 2 ^ j" if "sp_mirror n = 0"
      using ring_contig [OF n that, of P] that by (simp add: spsc_contig_def)
    have r1: "0 < unat r1" "unat r1 \<le> T + L - P" "sp_mirror q = 0 \<Longrightarrow> P mod 2 ^ k + unat r1 \<le> 2 ^ k"
      using False P pq cq by (auto simp: r1_def run word_less_nat_alt not_less simp del: of_nat_add)
    have r: "0 < unat r" "unat r \<le> unat r1" "sp_mirror n = 0 \<Longrightarrow> P mod 2 ^ j + unat r \<le> 2 ^ j"
      using r1 pn cn by (auto simp: r_def word_less_nat_alt not_less)
    have rL: "unat r \<le> T + L - P" "unat r \<le> L" using r r1 P by linarith+
    have "load_bytes q (unat ?s) (unat r) = Some (cyc_get buf (P mod 2 ^ k) (unat r))"
      unfolding ring_index [OF q] using r(2) r1(3) rL L pq by (intro load_bytes_ring [OF q]) linarith+
    then have load: "load_bytes q (unat ?s) (unat r) = Some (cyc_get buf P (unat r))"
      using cyc_get_mod [of buf P] spsc_ringD [OF q] by simp
    let ?ys = "cyc_get buf P (unat r)"
    let ?nbuf = "cyc_put nbuf P ?ys"
    have "store_bytes n (unat ?d) ?ys = Some (n\<lparr>sp_buffer := Some (cyc_put nbuf (P mod 2 ^ j) ?ys)\<rparr>)"
      unfolding ring_index [OF n] using r(3) rL L pn
      by (intro store_bytes_ring [OF n]) (unfold cyc_get_length, linarith+)
    then have store: "store_bytes n (unat ?d) ?ys = Some (n\<lparr>sp_buffer := Some ?nbuf\<rparr>)"
      using cyc_put_mod [of nbuf P] spsc_ringD [OF n] by simp
    let ?n = "n\<lparr>sp_buffer := Some ?nbuf\<rparr>"
    have step: "grow_loop q (of_nat (T + L)) (of_nat P) n = grow_loop q (of_nat (T + L)) (of_nat (P + unat r)) ?n"
    proof -
      have "(of_nat P :: size_t) \<noteq> of_nat (T + L)" using run False P by (metis diff_is_0_eq le_antisym right_minus_eq unat_0)
      moreover have "of_nat (P + unat r) = of_nat P + r" by simp
      ultimately show ?thesis using load store
        by (subst grow_loop.simps) (simp only: Let_def r1_def [symmetric] r_def [symmetric] if_False bind.bind_lunit)
    qed
    have "cyc_get ?nbuf T (P - T + unat r) = cyc_get nbuf T (P - T) @ ?ys"
      using cyc_get_put [of "P - T" ?ys nbuf T] rL P L spsc_ringD(2) [OF n] by simp
    also have "\<dots> = cyc_get buf T (P - T + unat r)"
      using sofar P cyc_get_split [of buf T "P - T" "unat r"] by simp
    finally have sofar': "cyc_get ?nbuf T (P + unat r - T) = cyc_get buf T (P + unat r - T)"
      using P by simp
    have ring': "spsc_ring ?n j ?nbuf" using n by (simp add: spsc_ring_def)
    have lt: "T + L - (P + unat r) < T + L - P" using r(1) rL P by linarith
    have "T \<le> P + unat r" "P + unat r \<le> T + L" using P rL by linarith+
    from less.hyps [OF lt ring' this sofar'] show ?thesis unfolding step by simp
  qed
qed

lemma spsc_grow_holds:
  assumes at: "spsc_holds q xs" and alloc: "allocates malloc" "allocates mirror_alloc"
  obtains ok q' where "retro_spsc_grow granule mirror_alloc malloc q c = Some (ok, q')"
    "spsc_holds q' xs" "ok \<Longrightarrow> unat c \<le> unat (sp_capacity q')" "\<not> ok \<Longrightarrow> q' = q"
    "\<not> ok \<Longrightarrow> (\<forall>n. malloc n \<noteq> None) \<Longrightarrow> unat c > 2 ^ 62"
proof -
  from at obtain k buf CT T CH where at': "spsc_at q k buf CT T CH xs" by (auto simp: spsc_holds_def)
  then have ring: "spsc_ring q k buf" and head: "sp_head q = of_nat (T + length xs)" and tail: "sp_tail q = of_nat T"
    and cont: "cyc_get buf T (length xs) = xs" and cap: "unat (sp_capacity q) \<le> 2 ^ k" and pos: "0 < sp_capacity q"
    by (simp_all add: spsc_at_def)
  have buf: "sp_buffer q \<noteq> None" using ring by (simp add: spsc_ring_def)
  have len: "length xs \<le> unat (sp_capacity q)" by (rule spsc_at_diffs [OF at'])
  show thesis
  proof (cases "c \<le> sp_capacity q")
    case True
    show ?thesis
      by (rule that [of True q]) (use at True buf in \<open>simp_all add: retro_spsc_grow_def word_le_nat_alt\<close>)
  next
    case False
    then have c0: "c \<noteq> 0" and clt: "unat (sp_capacity q) < unat c" by (auto simp: word_le_nat_alt not_le)
    obtain r where r: "(if sp_mirror q \<noteq> 0 then retro_spsc_init_mirrored granule mirror_alloc malloc c
        else retro_spsc_init malloc c) = Some r"
      "\<And>n. r = Some n \<Longrightarrow> spsc_fresh n c"
      "r = None \<Longrightarrow> (\<forall>n. malloc n \<noteq> None) \<Longrightarrow> c = 0 \<or> unat c > 2 ^ 62"
    proof (cases "sp_mirror q \<noteq> 0")
      case True
      show thesis
        by (rule retro_spsc_init_mirrored_result [OF alloc, of granule c], rule that) (use True in simp_all)
    next
      case False
      show thesis by (rule retro_spsc_init_result [OF alloc(1), of c], rule that) (use False in simp_all)
    qed
    show ?thesis
    proof (cases r)
      case None
      show ?thesis
        by (rule that [of False q])
          (use at r None False buf c0 in \<open>simp_all add: retro_spsc_grow_def\<close>)
    next
      case (Some n)
      obtain j nbuf where n: "spsc_at n j nbuf 0 0 0 []" and nc: "unat c \<le> unat (sp_capacity n)"
        using r(2) [OF Some] by (auto simp: spsc_fresh_def)
      have nring: "spsc_ring n j nbuf" and ncap: "unat (sp_capacity n) \<le> 2 ^ j" and npos: "0 < sp_capacity n"
        using n by (simp_all add: spsc_at_def)
      have L: "length xs \<le> 2 ^ k" "length xs \<le> 2 ^ j" using len cap ncap nc clt by linarith+
      obtain nbuf' where g: "grow_loop q (of_nat (T + length xs)) (of_nat T) n = Some (n\<lparr>sp_buffer := Some nbuf'\<rparr>)"
        "length nbuf' = 2 ^ j" "cyc_get nbuf' T (length xs) = cyc_get buf T (length xs)"
        using grow_loop_result [OF ring nring L, of T T] by auto
      let ?q = "(retro_spsc_free q)\<lparr>sp_buffer := Some nbuf', sp_capacity := sp_capacity n, sp_mask := sp_mask n,
              sp_mirror := sp_mirror n, sp_cached_tail := sp_tail q, sp_cached_head := sp_head q,
              sp_head := sp_head q, sp_tail := sp_tail q\<rparr>"
      have code: "retro_spsc_grow granule mirror_alloc malloc q c = Some (True, ?q)"
        using buf False r(1) Some g(1) by (simp add: retro_spsc_grow_def head tail Let_def)
      have "length xs \<le> unat (sp_capacity n)" using len nc clt by linarith
      then have "spsc_at ?q j nbuf' T T (T + length xs) xs"
        using g(2,3) nring npos ncap cont by (simp add: spsc_at_def spsc_ring_def head tail)
      then show ?thesis using that [OF code] spsc_holdsI nc by fastforce
    qed
  qed
qed

section \<open>Sequences of calls\<close>

text \<open>The calls a caller can make in any order, and what each of them answers.\<close>

datatype spsc_call = Write "byte list" | Write_frames "byte list" size_t size_t | Read size_t | Peek size_t
  | Skip size_t | Write_avail | Read_avail | Clear

datatype spsc_answer = Count nat | Bytes "byte list" | Nothing

fun spsc_call_ok :: "spsc_call \<Rightarrow> bool" where
  "spsc_call_ok (Write data) = (length data < 2 ^ 64)"
| "spsc_call_ok (Write_frames data frames frame_bytes) = (unat frames * unat frame_bytes \<le> length data)"
| "spsc_call_ok _ = True"

fun spsc_exec :: "spsc_call \<Rightarrow> retro_spsc \<Rightarrow> (spsc_answer \<times> retro_spsc) option" where
  "spsc_exec (Write data) q = map_option (apfst (\<lambda>n. Count (unat n))) (retro_spsc_write q data (of_nat (length data)))"
| "spsc_exec (Write_frames data frames frame_bytes) q =
     map_option (apfst (\<lambda>n. Count (unat n))) (retro_spsc_write_frames q data frames frame_bytes)"
| "spsc_exec (Read n) q = map_option (apfst Bytes) (retro_spsc_read q n)"
| "spsc_exec (Peek n) q = map_option (apfst Bytes) (retro_spsc_peek q n)"
| "spsc_exec (Skip n) q = Some (apfst (\<lambda>n. Count (unat n)) (retro_spsc_skip q n))"
| "spsc_exec Write_avail q = Some (Count (unat (retro_spsc_write_avail q)), q)"
| "spsc_exec Read_avail q = Some (Count (unat (retro_spsc_read_avail q)), q)"
| "spsc_exec Clear q = Some (Nothing, retro_spsc_clear q)"

text \<open>The same calls on a queue of at most \<open>cap\<close> bytes.\<close>

fun spsc_spec :: "nat \<Rightarrow> spsc_call \<Rightarrow> byte list \<Rightarrow> spsc_answer \<times> byte list" where
  "spsc_spec cap (Write data) xs =
     (let n = min (length data) (cap - length xs) in (Count n, xs @ take n data))"
| "spsc_spec cap (Write_frames data frames frame_bytes) xs =
     (let n = min (unat frames) ((cap - length xs) div unat frame_bytes)
      in (Count n, xs @ take (n * unat frame_bytes) data))"
| "spsc_spec cap (Read n) xs = (Bytes (take (unat n) xs), drop (unat n) xs)"
| "spsc_spec cap (Peek n) xs = (Bytes (take (unat n) xs), xs)"
| "spsc_spec cap (Skip n) xs = (Count (min (unat n) (length xs)), drop (unat n) xs)"
| "spsc_spec cap Write_avail xs = (Count (cap - length xs), xs)"
| "spsc_spec cap Read_avail xs = (Count (length xs), xs)"
| "spsc_spec cap Clear xs = (Nothing, [])"

fun spsc_run :: "spsc_call list \<Rightarrow> retro_spsc \<Rightarrow> (spsc_answer list \<times> retro_spsc) option" where
  "spsc_run [] q = Some ([], q)"
| "spsc_run (c # cs) q = do { (a, q) \<leftarrow> spsc_exec c q; (as, q) \<leftarrow> spsc_run cs q; Some (a # as, q) }"

fun spsc_spec_run :: "nat \<Rightarrow> spsc_call list \<Rightarrow> byte list \<Rightarrow> spsc_answer list \<times> byte list" where
  "spsc_spec_run cap [] xs = ([], xs)"
| "spsc_spec_run cap (c # cs) xs =
     (let (a, xs) = spsc_spec cap c xs; (as, xs) = spsc_spec_run cap cs xs in (a # as, xs))"

lemma unat_of_nat_min: "unat (of_nat (min (unat (n :: size_t)) m) :: size_t) = min (unat n) m"
proof -
  have "min (unat n) m < 2 ^ 64" using unsigned_less [of n, where ?'a = nat] by simp
  then show ?thesis by (simp add: unat_of_nat del: of_nat_min)
qed

lemma spsc_exec_spec:
  assumes "spsc_holds q xs" and "spsc_call_ok c"
  obtains q' where "spsc_exec c q = Some (fst (spsc_spec (unat (sp_capacity q)) c xs), q')"
    "spsc_holds q' (snd (spsc_spec (unat (sp_capacity q)) c xs))" "sp_capacity q' = sp_capacity q"
proof (cases c)
  case (Write data)
  then have "unat (of_nat (length data) :: size_t) = length data" using assms(2) by (simp add: unat_of_nat)
  with spsc_write_holds [OF assms(1), of "of_nat (length data)" data] show thesis
    using that Write unat_of_nat_min [of "of_nat (length data)"] by (auto simp: Let_def)
next
  case (Write_frames data frames frame_bytes)
  with spsc_write_frames_holds [OF assms(1), of frames frame_bytes data] assms(2) show thesis
    using that by (auto simp: Let_def unat_of_nat_min)
next
  case (Skip n)
  with spsc_read_holds(3) [OF assms(1), of n] show thesis using that by (auto simp: unat_of_nat_min)
next
  case (Read n)
  with spsc_read_holds(1) [OF assms(1), of n] show thesis using that by auto
next
  case (Peek n)
  with spsc_read_holds(2) [OF assms(1), of n] show thesis using that by auto
next
  case Clear
  with spsc_clear_holds [OF assms(1)] show thesis using that by auto
next
  case Write_avail
  then show thesis using that [of q] spsc_avail_holds [OF assms(1)] assms(1) by simp
next
  case Read_avail
  then show thesis using that [of q] spsc_avail_holds [OF assms(1)] assms(1) by simp
qed

lemma spsc_run_spec:
  "spsc_holds q xs \<Longrightarrow> list_all spsc_call_ok cs \<Longrightarrow>
   \<exists>q'. spsc_run cs q = Some (fst (spsc_spec_run (unat (sp_capacity q)) cs xs), q')
     \<and> spsc_holds q' (snd (spsc_spec_run (unat (sp_capacity q)) cs xs)) \<and> sp_capacity q' = sp_capacity q"
proof (induction cs arbitrary: q xs)
  case (Cons c cs)
  have ok: "spsc_call_ok c" "list_all spsc_call_ok cs" using Cons.prems(2) by simp_all
  obtain q1 where q1: "spsc_exec c q = Some (fst (spsc_spec (unat (sp_capacity q)) c xs), q1)"
    "spsc_holds q1 (snd (spsc_spec (unat (sp_capacity q)) c xs))" "sp_capacity q1 = sp_capacity q"
    using spsc_exec_spec [OF Cons.prems(1) ok(1)] by blast
  from Cons.IH [OF q1(2) ok(2)] q1 show ?case by (auto simp: case_prod_beta Let_def)
qed simp

section \<open>Properties\<close>

text \<open>
  C7. a ring that was created, plain or mirrored, behaves under every sequence of writes, frame
  writes, reads, peeks, skips, queries and clears as a bounded queue of bytes: no call faults,
  each takes or gives exactly what fits, in order, across the wrap of the buffer and of the
  64-bit cursors, and the cached cursors never show.
\<close>

theorem spsc_calls_refine_queue:
  assumes "spsc_fresh q c" and "list_all spsc_call_ok cs"
  shows "\<exists>q'. spsc_run cs q = Some (fst (spsc_spec_run (unat (sp_capacity q)) cs []), q')
    \<and> spsc_holds q' (snd (spsc_spec_run (unat (sp_capacity q)) cs [])) \<and> unat c \<le> unat (sp_capacity q)"
proof -
  have "spsc_holds q []" using assms(1) spsc_holdsI unfolding spsc_fresh_def by blast
  from spsc_run_spec [OF this assms(2)] assms(1) show ?thesis by (auto simp: spsc_fresh_def)
qed

text \<open>The witness writes, reads and writes around the end of a ring of four bytes.\<close>

definition small_ring :: retro_spsc where
  "small_ring = \<lparr>sp_buffer = Some [0, 0, 0, 0], sp_capacity = 4, sp_mask = 3, sp_mirror = 0,
     sp_head = 0, sp_cached_tail = 0, sp_tail = 0, sp_cached_head = 0\<rparr>"

lemma small_ring_at: "spsc_at small_ring 2 [0, 0, 0, 0] 0 0 0 []"
  by (simp add: spsc_at_def spsc_ring_def small_ring_def mask_eq_exp_minus_1)

lemma small_ring_fresh: "spsc_fresh small_ring 3"
  using small_ring_at unfolding spsc_fresh_def by (auto simp: small_ring_def)

theorem spsc_calls_refine_queue_witness:
  "\<exists>q'. spsc_run [Write [1, 2, 3], Read 2, Write [4, 5, 6, 7], Peek 1, Read 9] small_ring
    = Some ([Count 3, Bytes [1, 2], Count 3, Bytes [3], Bytes [3, 4, 5, 6]], q') \<and> spsc_holds q' []"
proof -
  let ?cs = "[Write [1, 2, 3], Read 2, Write [4, 5, 6, 7], Peek 1, Read 9]"
  have cap: "unat (sp_capacity small_ring) = 4" by (simp add: small_ring_def)
  have spec: "spsc_spec_run 4 ?cs [] = ([Count 3, Bytes [1, 2], Count 3, Bytes [3], Bytes [3, 4, 5, 6]], [])"
    by (simp add: Let_def)
  have "list_all spsc_call_ok ?cs" by simp
  from spsc_calls_refine_queue [OF small_ring_fresh this] show ?thesis
    unfolding cap spec fst_conv snd_conv by blast
qed

text \<open>
  C8. growing keeps the contents: it never faults, on success the ring holds the same bytes in
  the same order with at least the capacity asked for, on failure it is unchanged, and it fails
  only when memory is refused or the capacity is above 2^62.
\<close>

theorem spsc_grow_keeps_contents:
  assumes "spsc_holds q xs" and "allocates malloc" and "allocates mirror_alloc"
  shows "\<exists>ok q'. retro_spsc_grow granule mirror_alloc malloc q c = Some (ok, q') \<and> spsc_holds q' xs
    \<and> (if ok then unat c \<le> unat (sp_capacity q') else q' = q \<and> ((\<exists>n. malloc n = None) \<or> unat c > 2 ^ 62))"
proof (rule spsc_grow_holds [OF assms, of granule c])
  fix ok q'
  assume "retro_spsc_grow granule mirror_alloc malloc q c = Some (ok, q')" "spsc_holds q' xs"
    "ok \<Longrightarrow> unat c \<le> unat (sp_capacity q')" "\<not> ok \<Longrightarrow> q' = q"
    and fails: "\<not> ok \<Longrightarrow> (\<forall>n. malloc n \<noteq> None) \<Longrightarrow> unat c > 2 ^ 62"
  moreover have "(\<exists>n. malloc n = None) \<or> unat c > 2 ^ 62" if "\<not> ok" using fails [OF that] by metis
  ultimately show ?thesis by (cases ok) auto
qed

theorem spsc_grow_keeps_contents_witness:
  "\<exists>ok q'. retro_spsc_grow 4096 (\<lambda>_. None) (\<lambda>n. Some (replicate n 0)) small_ring 5 = Some (ok, q')
    \<and> spsc_holds q' [] \<and> (if ok then 5 \<le> unat (sp_capacity q') else q' = small_ring)"
proof -
  have "spsc_holds small_ring []" by (rule spsc_holdsI [OF small_ring_at])
  moreover have "allocates (\<lambda>n. Some (replicate n 0))" "allocates (\<lambda>_. None)" by (simp_all add: allocates_def)
  ultimately obtain ok q' where "retro_spsc_grow 4096 (\<lambda>_. None) (\<lambda>n. Some (replicate n 0)) small_ring 5 = Some (ok, q')"
    "spsc_holds q' []" "if ok then unat (5 :: size_t) \<le> unat (sp_capacity q') else q' = small_ring"
    using spsc_grow_keeps_contents [of small_ring "[]" "\<lambda>n. Some (replicate n 0)" "\<lambda>_. None" 4096 5] by metis
  then show ?thesis by (intro exI conjI) (assumption | cases ok, simp_all)+
qed

end
