(* ===== verification/SpscThreads.thy ===== *)
theory SpscThreads
  imports Spsc
begin

text \<open>
  The producer and the consumer of \<open>queues/retro_spsc.c\<close> side by side. A call is split where the
  code touches shared memory: the load of the other side's cursor (with the arithmetic on the
  side's own fields), each byte of the two \<open>memcpy\<close>, the store that publishes the own cursor. The
  steps of the two threads interleave in any order.
\<close>

unbundle bit_operations_syntax

section \<open>The copies byte by byte\<close>

text \<open>The offsets that the two copies of \<open>bytes\<close> bytes at the cursor \<open>pos\<close> touch, in order.\<close>

definition ring_slots :: "retro_spsc \<Rightarrow> size_t \<Rightarrow> size_t \<Rightarrow> nat list" where
  "ring_slots q pos bytes =
     (let idx = pos AND sp_mask q;
          first = spsc_contig q idx;
          first = (if first > bytes then bytes else first)
      in map ((+) (unat idx)) [0..<unat first] @ [0..<unat (bytes - first)])"

definition store_byte :: "nat \<times> byte \<Rightarrow> retro_spsc \<Rightarrow> retro_spsc option" where
  "store_byte slot q = store_bytes q (fst slot) [snd slot]"

definition load_byte :: "nat \<Rightarrow> retro_spsc \<Rightarrow> byte option" where
  "load_byte slot q = map_option hd (load_bytes q slot 1)"

fun store_all :: "(nat \<times> byte) list \<Rightarrow> retro_spsc \<Rightarrow> retro_spsc option" where
  "store_all [] q = Some q"
| "store_all (x # xs) q = do { q \<leftarrow> store_byte x q; store_all xs q }"

section \<open>The threads\<close>

text \<open>
  A producer is between calls or in a write: the cursor it loaded, the bytes it takes, the stores
  it has still to do. A consumer is between calls, in a read or peek (the cursor it loaded, the
  number of bytes, the offsets it has still to load, the bytes it has, whether it will release
  them), or in a skip. \<open>sent\<close> and \<open>recvd\<close> record what was published and released.
\<close>

datatype producer = PIdle | PCopy size_t "byte list" "(nat \<times> byte) list"

datatype consumer = CIdle | CCopy size_t size_t "nat list" "byte list" bool | CSkip size_t size_t

record spsc_sys =
  ring :: retro_spsc
  prod :: producer
  cons :: consumer
  sent :: "byte list"
  recvd :: "byte list"

inductive spsc_prod_step :: "spsc_sys \<Rightarrow> spsc_sys \<Rightarrow> bool" where
  write_none: "prod s = PIdle \<Longrightarrow> write_reserve (ring s) n = (m, q) \<Longrightarrow> m = 0 \<Longrightarrow>
    spsc_prod_step s (s\<lparr>ring := q\<rparr>)"
| write_start: "prod s = PIdle \<Longrightarrow> unat n \<le> length data \<Longrightarrow> write_reserve (ring s) n = (m, q) \<Longrightarrow> m \<noteq> 0 \<Longrightarrow>
    spsc_prod_step s (s\<lparr>ring := q,
      prod := PCopy (sp_head q) (take (unat m) data) (zip (ring_slots q (sp_head q) m) data)\<rparr>)"
| frames_none: "prod s = PIdle \<Longrightarrow> f \<noteq> 0 \<Longrightarrow> frames_reserve (ring s) n f = (m, q) \<Longrightarrow> m = 0 \<Longrightarrow>
    spsc_prod_step s (s\<lparr>ring := q\<rparr>)"
| frames_start: "prod s = PIdle \<Longrightarrow> f \<noteq> 0 \<Longrightarrow> unat n * unat f \<le> length data \<Longrightarrow>
    frames_reserve (ring s) n f = (m, q) \<Longrightarrow> m \<noteq> 0 \<Longrightarrow>
    spsc_prod_step s (s\<lparr>ring := q,
      prod := PCopy (sp_head q) (take (unat (m * f)) data) (zip (ring_slots q (sp_head q) (m * f)) data)\<rparr>)"
| write_byte: "prod s = PCopy h data (slot # rest) \<Longrightarrow> store_byte slot (ring s) = Some q \<Longrightarrow>
    spsc_prod_step s (s\<lparr>ring := q, prod := PCopy h data rest\<rparr>)"
| write_publish: "prod s = PCopy h data [] \<Longrightarrow>
    spsc_prod_step s (s\<lparr>ring := (ring s)\<lparr>sp_head := h + of_nat (length data)\<rparr>, prod := PIdle,
      sent := sent s @ data\<rparr>)"

inductive spsc_cons_step :: "spsc_sys \<Rightarrow> spsc_sys \<Rightarrow> bool" where
  read_none: "cons s = CIdle \<Longrightarrow> read_reserve (ring s) n = (m, q) \<Longrightarrow> m = 0 \<Longrightarrow>
    spsc_cons_step s (s\<lparr>ring := q\<rparr>)"
| read_start: "cons s = CIdle \<Longrightarrow> read_reserve (ring s) n = (m, q) \<Longrightarrow> m \<noteq> 0 \<Longrightarrow>
    spsc_cons_step s (s\<lparr>ring := q, cons := CCopy (sp_tail q) m (ring_slots q (sp_tail q) m) [] release\<rparr>)"
| skip_start: "cons s = CIdle \<Longrightarrow> read_reserve (ring s) n = (m, q) \<Longrightarrow> m \<noteq> 0 \<Longrightarrow>
    spsc_cons_step s (s\<lparr>ring := q, cons := CSkip (sp_tail q) m\<rparr>)"
| read_byte: "cons s = CCopy t m (slot # rest) got release \<Longrightarrow> load_byte slot (ring s) = Some b \<Longrightarrow>
    spsc_cons_step s (s\<lparr>cons := CCopy t m rest (got @ [b]) release\<rparr>)"
| read_release: "cons s = CCopy t m [] got True \<Longrightarrow>
    spsc_cons_step s (s\<lparr>ring := (ring s)\<lparr>sp_tail := t + m\<rparr>, cons := CIdle, recvd := recvd s @ got\<rparr>)"
| peek_done: "cons s = CCopy t m [] got False \<Longrightarrow> spsc_cons_step s (s\<lparr>cons := CIdle\<rparr>)"
| skip_release: "cons s = CSkip t m \<Longrightarrow>
    spsc_cons_step s (s\<lparr>ring := (ring s)\<lparr>sp_tail := t + m\<rparr>, cons := CIdle,
      recvd := recvd s @ take (unat m) (drop (length (recvd s)) (sent s))\<rparr>)"

inductive spsc_reach :: "retro_spsc \<Rightarrow> spsc_sys \<Rightarrow> bool" for q0 where
  start: "spsc_reach q0 \<lparr>ring = q0, prod = PIdle, cons = CIdle, sent = [], recvd = []\<rparr>"
| producer: "spsc_reach q0 s \<Longrightarrow> spsc_prod_step s s' \<Longrightarrow> spsc_reach q0 s'"
| consumer: "spsc_reach q0 s \<Longrightarrow> spsc_cons_step s s' \<Longrightarrow> spsc_reach q0 s'"

section \<open>The slots of a copy\<close>

text \<open>
  The offsets name the slots of the positions \<open>P\<close>, \<open>P + 1\<close>, ...: one after the other in the buffer
  or, mirrored, in its second image.
\<close>

fun slots_at :: "nat \<Rightarrow> nat \<Rightarrow> nat \<Rightarrow> nat list \<Rightarrow> bool" where
  "slots_at k lim P [] = True"
| "slots_at k lim P (i # is) = (i mod 2 ^ k = P mod 2 ^ k \<and> i < lim \<and> slots_at k lim (Suc P) is)"

definition offset_limit :: "retro_spsc \<Rightarrow> nat \<Rightarrow> nat" where
  "offset_limit q k = (if sp_mirror q = 0 then 2 ^ k else 2 * 2 ^ k)"

lemma offset_limit_update [simp]:
  "offset_limit (q\<lparr>sp_buffer := b\<rparr>) k = offset_limit q k" "offset_limit (q\<lparr>sp_head := h\<rparr>) k = offset_limit q k"
  "offset_limit (q\<lparr>sp_tail := h\<rparr>) k = offset_limit q k"
  by (simp_all add: offset_limit_def)

lemma slots_at_append:
  "slots_at k lim P (is @ js) \<longleftrightarrow> slots_at k lim P is \<and> slots_at k lim (P + length is) js"
  by (induction "is" arbitrary: P) simp_all

lemma slots_at_run:
  "i mod 2 ^ k = P mod 2 ^ k \<Longrightarrow> i + n \<le> lim \<Longrightarrow> slots_at k lim P (map ((+) i) [0..<n])"
proof (induction n)
  case (Suc n)
  then have "(i + n) mod 2 ^ k = (P + n) mod 2 ^ k" by (metis mod_add_left_eq)
  then show ?case using Suc by (simp add: slots_at_append)
qed simp

lemma slots_at_in:
  "slots_at k lim P is \<Longrightarrow> i \<in> set is \<Longrightarrow> \<exists>p. P \<le> p \<and> p < P + length is \<and> i mod 2 ^ k = p mod 2 ^ k"
proof (induction "is" arbitrary: P)
  case (Cons j js)
  show ?case
  proof (cases "i = j")
    case False
    then obtain p where "Suc P \<le> p" "p < Suc P + length js" "i mod 2 ^ k = p mod 2 ^ k"
      using Cons.IH [of "Suc P"] Cons.prems by auto
    then show ?thesis by (intro exI [of _ p]) simp
  qed (use Cons.prems in auto)
qed simp

lemma ring_slots_at:
  assumes ring: "spsc_ring q k buf" and n: "unat n \<le> 2 ^ k"
  shows "slots_at k (offset_limit q k) P (ring_slots q (of_nat P) n)" "length (ring_slots q (of_nat P) n) = unat n"
proof -
  define first where "first = (let c = spsc_contig q (of_nat P AND sp_mask q) in if c > n then n else c)"
  note f = ring_first [OF ring, of P n, folded first_def]
  have "first \<le> n" using f(1) by (simp add: word_le_nat_alt)
  then have sub: "unat (n - first) = unat n - unat first" by (rule unat_sub)
  have code: "ring_slots q (of_nat P) n = map ((+) (P mod 2 ^ k)) [0..<unat first] @ [0..<unat n - unat first]"
    by (simp add: ring_slots_def Let_def ring_index [OF ring] first_def [symmetric, unfolded Let_def] sub)
  have idx: "P mod 2 ^ k < 2 ^ k" by simp
  have "P mod 2 ^ k + unat first \<le> offset_limit q k"
  proof (cases "sp_mirror q = 0")
    case False
    then show ?thesis using f(1) n idx by (simp only: offset_limit_def if_False)
  qed (use f(3) in \<open>simp add: offset_limit_def\<close>)
  then have one: "slots_at k (offset_limit q k) P (map ((+) (P mod 2 ^ k)) [0..<unat first])"
    by (intro slots_at_run) simp_all
  have two: "slots_at k (offset_limit q k) (P + unat first) (map ((+) 0) [0..<unat n - unat first])"
  proof (cases "unat first < unat n")
    case True
    have "0 mod 2 ^ k = (P + unat first) mod 2 ^ k" using f(4) [OF True] by (metis mod_add_left_eq mod_self mod_0)
    moreover have "2 ^ k \<le> offset_limit q k" by (simp add: offset_limit_def)
    then have "0 + (unat n - unat first) \<le> offset_limit q k" using n by linarith
    ultimately show ?thesis by (rule slots_at_run)
  qed simp
  show "slots_at k (offset_limit q k) P (ring_slots q (of_nat P) n)"
    using one two unfolding code slots_at_append length_map length_upt map_idI [of _ "(+) (0 :: nat)", OF add_0]
    by simp
  show "length (ring_slots q (of_nat P) n) = unat n" using f(1) by (simp add: code)
qed

lemma store_byte_ring:
  assumes "spsc_ring q k buf" and "i < offset_limit q k" and "i mod 2 ^ k = P mod 2 ^ k"
  shows "store_byte (i, b) q = Some (q\<lparr>sp_buffer := Some (cyc_put buf P [b])\<rparr>)"
proof -
  have "store_bytes q i [b] = Some (q\<lparr>sp_buffer := Some (cyc_put buf i [b])\<rparr>)"
    using assms(2) by (intro store_bytes_ring [OF assms(1)]) (auto simp: offset_limit_def split: if_splits)
  then show ?thesis using assms(3) spsc_ringD(2) [OF assms(1)] by (simp add: store_byte_def)
qed

lemma load_byte_ring:
  assumes "spsc_ring q k buf" and "i < offset_limit q k" and "i mod 2 ^ k = P mod 2 ^ k"
  shows "load_byte i q = Some (buf ! (P mod 2 ^ k))"
proof -
  have "load_bytes q i 1 = Some (cyc_get buf i 1)"
    using assms(2) by (intro load_bytes_ring [OF assms(1)]) (auto simp: offset_limit_def split: if_splits)
  then show ?thesis using assms(3) spsc_ringD(2) [OF assms(1)] by (simp add: load_byte_def cyc_get_def)
qed

text \<open>The copies of the code are their bytes, one after the other.\<close>

lemma store_all_ring:
  "spsc_ring q k buf \<Longrightarrow> slots_at k (offset_limit q k) P is \<Longrightarrow> length is \<le> length bytes \<Longrightarrow>
   store_all (zip is bytes) q = Some (q\<lparr>sp_buffer := Some (cyc_put buf P (take (length is) bytes))\<rparr>)"
proof (induction "is" arbitrary: q P buf bytes)
  case Nil
  then show ?case using spsc_ringD(1) [OF Nil.prems(1)] by simp
next
  case (Cons i js)
  obtain b bs where b: "bytes = b # bs" using Cons.prems(3) by (cases bytes) simp_all
  have st: "store_byte (i, b) q = Some (q\<lparr>sp_buffer := Some (cyc_put buf P [b])\<rparr>)"
    using Cons.prems(2) by (intro store_byte_ring [OF Cons.prems(1)]) simp_all
  have "spsc_ring (q\<lparr>sp_buffer := Some (cyc_put buf P [b])\<rparr>) k (cyc_put buf P [b])"
    using Cons.prems(1) by (simp add: spsc_ring_def)
  from Cons.IH [OF this, of "Suc P" bs] show ?case using Cons.prems(2,3) st b by simp
qed

lemma copy_in_bytes:
  assumes "spsc_ring q k buf" and "unat n \<le> 2 ^ k" and "unat n \<le> length data"
  shows "copy_in q (of_nat P) data n = store_all (zip (ring_slots q (of_nat P) n) data) q"
  using store_all_ring [OF assms(1) ring_slots_at(1) [OF assms(1,2)]] ring_slots_at(2) [OF assms(1,2)]
    copy_in_ring [OF assms] assms(3) by simp

section \<open>The invariant of the two threads\<close>

text \<open>
  \<open>H\<close> bytes were published and \<open>T\<close> released. A producer in a call has room for its bytes above
  \<open>H\<close>, and some of them are written; a consumer in a call reads below \<open>H\<close>.
\<close>

fun stored :: "producer \<Rightarrow> byte list" where
  "stored PIdle = []"
| "stored (PCopy h data rest) = take (length data - length rest) data"

fun prod_ok :: "nat \<Rightarrow> nat \<Rightarrow> nat \<Rightarrow> nat \<Rightarrow> producer \<Rightarrow> bool" where
  "prod_ok k lim H bound PIdle \<longleftrightarrow> True"
| "prod_ok k lim H bound (PCopy h data rest) \<longleftrightarrow> h = of_nat H \<and> data \<noteq> [] \<and> H + length data \<le> bound
     \<and> length rest \<le> length data \<and> slots_at k lim (H + (length data - length rest)) (map fst rest)
     \<and> map snd rest = drop (length data - length rest) data"

fun cons_ok :: "nat \<Rightarrow> nat \<Rightarrow> nat \<Rightarrow> nat \<Rightarrow> byte list \<Rightarrow> consumer \<Rightarrow> bool" where
  "cons_ok k lim T CH unread CIdle \<longleftrightarrow> True"
| "cons_ok k lim T CH unread (CCopy t m rest got release) \<longleftrightarrow> t = of_nat T \<and> 0 < m \<and> T + unat m \<le> CH
     \<and> length got + length rest = unat m \<and> got = take (length got) unread
     \<and> slots_at k lim (T + length got) rest"
| "cons_ok k lim T CH unread (CSkip t m) \<longleftrightarrow> t = of_nat T \<and> T + unat m \<le> CH"

definition cyc_holds :: "byte list \<Rightarrow> nat \<Rightarrow> byte list \<Rightarrow> bool" where
  "cyc_holds buf T xs \<longleftrightarrow> cyc_get buf T (length xs) = xs"

lemma cyc_holds_append:
  "cyc_holds buf T (xs @ ys) \<longleftrightarrow> cyc_holds buf T xs \<and> cyc_holds buf (T + length xs) ys"
  by (simp add: cyc_holds_def cyc_get_split append_eq_append_conv)

lemma cyc_holds_put:
  "cyc_holds buf T xs \<Longrightarrow> length xs + length ys \<le> length buf \<Longrightarrow>
   cyc_holds (cyc_put buf (T + length xs) ys) T (xs @ ys)"
  by (simp add: cyc_holds_def cyc_get_put)

definition sys_at :: "spsc_sys \<Rightarrow> nat \<Rightarrow> byte list \<Rightarrow> nat \<Rightarrow> nat \<Rightarrow> bool" where
  "sys_at s k buf CT CH \<longleftrightarrow>
     (let q = ring s; T = length (recvd s); H = length (sent s); unread = drop T (sent s) in
      spsc_ring q k buf \<and> 0 < sp_capacity q \<and> unat (sp_capacity q) \<le> 2 ^ k
      \<and> sp_head q = of_nat H \<and> sp_tail q = of_nat T \<and> sp_cached_tail q = of_nat CT \<and> sp_cached_head q = of_nat CH
      \<and> CT \<le> T \<and> T \<le> CH \<and> CH \<le> H \<and> H \<le> CT + unat (sp_capacity q)
      \<and> recvd s = take T (sent s)
      \<and> cyc_holds buf T (unread @ stored (prod s))
      \<and> prod_ok k (offset_limit q k) H (CT + unat (sp_capacity q)) (prod s)
      \<and> cons_ok k (offset_limit q k) T CH unread (cons s))"

lemmas sys_atD = sys_at_def [THEN iffD1, unfolded Let_def]

text \<open>Without the bytes in flight the ring is as in one thread.\<close>

lemma sys_at_ring:
  assumes "sys_at s k buf CT CH"
  shows "spsc_at (ring s) k buf CT (length (recvd s)) CH (drop (length (recvd s)) (sent s))"
proof -
  note a = sys_atD [OF assms]
  let ?T = "length (recvd s)" and ?xs = "drop (length (recvd s)) (sent s)"
  have "cyc_holds buf ?T (?xs @ stored (prod s))" using a by blast
  then have "cyc_get buf ?T (length ?xs) = ?xs" unfolding cyc_holds_append by (simp add: cyc_holds_def)
  moreover have "?T + length ?xs = length (sent s)" using a by simp
  ultimately show ?thesis using a unfolding spsc_at_def by simp
qed

lemma prod_ok_mono:
  "prod_ok k lim H bound p \<Longrightarrow> bound \<le> bound' \<Longrightarrow> prod_ok k lim H bound' p"
  by (cases p) auto

lemma cons_ok_mono:
  "cons_ok k lim T CH unread c \<Longrightarrow> CH \<le> CH' \<Longrightarrow> T + length unread \<ge> CH \<Longrightarrow> cons_ok k lim T CH' (unread @ zs) c"
  by (cases c) auto

lemma drop_prefix_append: "length xs \<le> length ys \<Longrightarrow> drop (length xs) (ys @ zs) = drop (length xs) ys @ zs"
  by simp

text \<open>Starting a write.\<close>

lemma sys_at_producer_reload:
  assumes "sys_at s k buf CT CH" and idle: "prod s = PIdle" and at: "spsc_at q k buf CT' (length (recvd s)) CH (drop (length (recvd s)) (sent s))"
    and same: "sp_capacity q = sp_capacity (ring s)" "sp_mirror q = sp_mirror (ring s)"
  shows "sys_at (s\<lparr>ring := q\<rparr>) k buf CT' CH"
proof -
  have "offset_limit q k = offset_limit (ring s) k" using same(2) by (simp add: offset_limit_def)
  then show ?thesis using assms(1) at same idle unfolding sys_at_def Let_def spsc_at_def by auto
qed

lemma sys_at_write_start:
  assumes s: "sys_at s k buf CT CH" and idle: "prod s = PIdle"
    and m: "0 < m" "unat m \<le> length data" "length (sent s) + unat m \<le> CT + unat (sp_capacity (ring s))"
  shows "sys_at (s\<lparr>prod := PCopy (sp_head (ring s)) (take (unat m) data)
    (zip (ring_slots (ring s) (sp_head (ring s)) m) data)\<rparr>) k buf CT CH"
proof -
  note a = sys_atD [OF s]
  have ring: "spsc_ring (ring s) k buf" and head: "sp_head (ring s) = of_nat (length (sent s))" using a by simp_all
  have "unat m \<le> 2 ^ k" using m(3) a by linarith
  note sl = ring_slots_at [OF ring this, of "length (sent s)", folded head]
  have "map fst (zip (ring_slots (ring s) (sp_head (ring s)) m) data) = ring_slots (ring s) (sp_head (ring s)) m"
    and "map snd (zip (ring_slots (ring s) (sp_head (ring s)) m) data) = take (unat m) data"
    using sl(2) m(2) by (simp_all add: map_fst_zip_take map_snd_zip_take min_absorb1 min_absorb2)
  moreover have "take (unat m) data \<noteq> []" using m(1,2) by (auto simp: word_less_nat_alt)
  ultimately have "prod_ok k (offset_limit (ring s) k) (length (sent s)) (CT + unat (sp_capacity (ring s)))
      (PCopy (sp_head (ring s)) (take (unat m) data) (zip (ring_slots (ring s) (sp_head (ring s)) m) data))"
    using sl m head by simp
  then show ?thesis using a idle sl(2) m(2) unfolding sys_at_def Let_def by simp
qed

text \<open>One byte of a write.\<close>

lemma sys_at_write_byte:
  assumes s: "sys_at s k buf CT CH" and p: "prod s = PCopy h data (slot # rest)"
  obtains q buf' where "store_byte slot (ring s) = Some q" "sys_at (s\<lparr>ring := q, prod := PCopy h data rest\<rparr>) k buf' CT CH"
proof -
  note a = sys_atD [OF s, unfolded p]
  let ?T = "length (recvd s)" and ?H = "length (sent s)"
  obtain j b where slot: "slot = (j, b)" by (cases slot)
  have ring: "spsc_ring (ring s) k buf" and pok: "prod_ok k (offset_limit (ring s) k) ?H (CT + unat (sp_capacity (ring s))) (PCopy h data (slot # rest))"
    using a by blast+
  define i where "i = length data - Suc (length rest)"
  have i: "length data - Suc (length rest) = i" "length data - length rest = Suc i" "length rest < length data"
    "i < length data" using pok by (auto simp: i_def)
  have j: "j < offset_limit (ring s) k" "j mod 2 ^ k = (?H + i) mod 2 ^ k" and b: "drop i data = b # map snd rest"
    using pok by (simp_all add: slot i)
  let ?buf = "cyc_put buf (?H + i) [b]"
  have st: "store_byte slot (ring s) = Some ((ring s)\<lparr>sp_buffer := Some ?buf\<rparr>)"
    unfolding slot by (rule store_byte_ring [OF ring j])
  have "data ! i = b" using b i(4) by (metis hd_drop_conv_nth list.sel(1))
  then have take: "take (Suc i) data = take i data @ [b]" using i(4) by (simp add: take_Suc_conv_app_nth)
  have drop: "drop (Suc i) data = map snd rest" using b by (metis drop_Suc list.sel(3) tl_drop)
  let ?un = "drop ?T (sent s)"
  have TH: "?T \<le> ?H" using a by linarith
  have "stored (PCopy h data (slot # rest)) = take i data" by (simp add: i)
  then have cont: "cyc_holds buf ?T (?un @ take i data)" using a by metis
  have pos: "?T + length (?un @ take i data) = ?H + i" using TH i by simp
  have "?H + Suc i \<le> CT + unat (sp_capacity (ring s))" using pok i(4) by simp
  moreover have "CT \<le> ?T" "unat (sp_capacity (ring s)) \<le> 2 ^ k" using a by blast+
  ultimately have "length (?un @ take i data) + length [b] \<le> length buf"
    using pos by (simp only: spsc_ringD(2) [OF ring] list.size)
  from cyc_holds_put [OF cont this] have cont': "cyc_holds ?buf ?T (?un @ take (Suc i) data)"
    unfolding pos take by simp
  have "prod_ok k (offset_limit (ring s) k) ?H (CT + unat (sp_capacity (ring s))) (PCopy h data rest)"
    using pok drop i by simp
  moreover have "spsc_ring ((ring s)\<lparr>sp_buffer := Some ?buf\<rparr>) k ?buf" using ring by (simp add: spsc_ring_def)
  ultimately have "sys_at (s\<lparr>ring := (ring s)\<lparr>sp_buffer := Some ?buf\<rparr>, prod := PCopy h data rest\<rparr>) k ?buf CT CH"
    using a cont' by (simp add: sys_at_def Let_def i)
  then show thesis using that st by blast
qed

text \<open>Publishing a write.\<close>

lemma sys_at_publish:
  assumes s: "sys_at s k buf CT CH" and p: "prod s = PCopy h data []"
  shows "sys_at (s\<lparr>ring := (ring s)\<lparr>sp_head := h + of_nat (length data)\<rparr>, prod := PIdle, sent := sent s @ data\<rparr>) k buf CT CH"
proof -
  note a = sys_atD [OF s]
  let ?T = "length (recvd s)" and ?H = "length (sent s)"
  have TH: "?T \<le> ?H" using a by linarith
  then have un: "drop ?T (sent s @ data) = drop ?T (sent s) @ data" by simp
  have "cons_ok k (offset_limit (ring s) k) ?T CH (drop ?T (sent s) @ data) (cons s)"
    using a TH by (intro cons_ok_mono [of _ _ _ CH]) simp_all
  moreover have "spsc_ring ((ring s)\<lparr>sp_head := h + of_nat (length data)\<rparr>) k buf" using a by (simp add: spsc_ring_def)
  ultimately show ?thesis using a p TH unfolding sys_at_def Let_def un by simp
qed

text \<open>The consumer's steps.\<close>

lemma sys_at_set_cons:
  "sys_at s k buf CT CH \<Longrightarrow>
   cons_ok k (offset_limit (ring s) k) (length (recvd s)) CH (drop (length (recvd s)) (sent s)) c \<Longrightarrow>
   sys_at (s\<lparr>cons := c\<rparr>) k buf CT CH"
  by (simp add: sys_at_def Let_def)

lemma sys_at_consumer_reload:
  assumes "sys_at s k buf CT CH" and idle: "cons s = CIdle"
    and at: "spsc_at q k buf CT (length (recvd s)) CH' (drop (length (recvd s)) (sent s))"
    and same: "sp_capacity q = sp_capacity (ring s)" "sp_mirror q = sp_mirror (ring s)"
  shows "sys_at (s\<lparr>ring := q\<rparr>) k buf CT CH'"
proof -
  have "offset_limit q k = offset_limit (ring s) k" using same(2) by (simp add: offset_limit_def)
  then show ?thesis using assms(1) at same idle unfolding sys_at_def Let_def spsc_at_def by auto
qed

lemma sys_at_read_start:
  assumes s: "sys_at s k buf CT CH" and m: "0 < m" "length (recvd s) + unat m \<le> CH"
  shows "sys_at (s\<lparr>cons := CCopy (sp_tail (ring s)) m (ring_slots (ring s) (sp_tail (ring s)) m) [] release\<rparr>) k buf CT CH"
proof -
  note a = sys_atD [OF s]
  have ring: "spsc_ring (ring s) k buf" and tail: "sp_tail (ring s) = of_nat (length (recvd s))" using a by simp_all
  have "unat m \<le> 2 ^ k" using m(2) a by linarith
  note sl = ring_slots_at [OF ring this, of "length (recvd s)", folded tail]
  have "cons_ok k (offset_limit (ring s) k) (length (recvd s)) CH (drop (length (recvd s)) (sent s))
      (CCopy (sp_tail (ring s)) m (ring_slots (ring s) (sp_tail (ring s)) m) [] release)"
    using sl m tail by simp
  then show ?thesis by (rule sys_at_set_cons [OF s])
qed

lemma sys_at_read_byte:
  assumes s: "sys_at s k buf CT CH" and c: "cons s = CCopy t m (slot # rest) got release"
  obtains b where "load_byte slot (ring s) = Some b"
    "sys_at (s\<lparr>cons := CCopy t m rest (got @ [b]) release\<rparr>) k buf CT CH"
proof -
  note a = sys_atD [OF s, unfolded c]
  let ?T = "length (recvd s)" and ?un = "drop (length (recvd s)) (sent s)"
  have ring: "spsc_ring (ring s) k buf" and TC: "?T \<le> CH" "CH \<le> length (sent s)"
    and cok: "cons_ok k (offset_limit (ring s) k) ?T CH ?un (CCopy t m (slot # rest) got release)"
    using a by blast+
  let ?g = "length got"
  have g: "?g < length ?un" using cok TC by (simp only: cons_ok.simps length_drop list.size) linarith
  have slot: "slot < offset_limit (ring s) k" "slot mod 2 ^ k = (?T + ?g) mod 2 ^ k" using cok by simp_all
  have ld: "load_byte slot (ring s) = Some (buf ! ((?T + ?g) mod 2 ^ k))" by (rule load_byte_ring [OF ring slot])
  have "cyc_get buf ?T (length ?un) = ?un"
    using sys_at_ring [OF s] by (simp add: spsc_at_def)
  then have "buf ! ((?T + ?g) mod 2 ^ k) = ?un ! ?g"
    using cyc_get_nth [OF g, of buf ?T] spsc_ringD(2) [OF ring] by metis
  moreover have "take (Suc ?g) ?un = take ?g ?un @ [?un ! ?g]" by (rule take_Suc_conv_app_nth [OF g])
  ultimately have "cons_ok k (offset_limit (ring s) k) ?T CH ?un
      (CCopy t m rest (got @ [buf ! ((?T + ?g) mod 2 ^ k)]) release)"
    using cok by simp
  then have "sys_at (s\<lparr>cons := CCopy t m rest (got @ [buf ! ((?T + ?g) mod 2 ^ k)]) release\<rparr>) k buf CT CH"
    by (rule sys_at_set_cons [OF s])
  then show thesis using that ld by blast
qed

text \<open>Releasing bytes, read or skipped.\<close>

lemma sys_at_release:
  assumes s: "sys_at s k buf CT CH" and n: "length (recvd s) + n \<le> CH"
    and t: "sp_tail (ring s) = t" and got: "got = take n (drop (length (recvd s)) (sent s))"
  shows "sys_at (s\<lparr>ring := (ring s)\<lparr>sp_tail := t + of_nat n\<rparr>, cons := CIdle, recvd := recvd s @ got\<rparr>) k buf CT CH"
proof -
  note a = sys_atD [OF s]
  let ?T = "length (recvd s)"
  have CH: "CH \<le> length (sent s)" "?T \<le> length (sent s)" using a by (blast, linarith)
  have len: "length got = n" using CH n by (simp only: got length_take length_drop)
  have "recvd s @ got = take ?T (sent s) @ take n (drop ?T (sent s))" using a by (metis got)
  then have r: "recvd s @ got = take (?T + n) (sent s)" by (simp add: take_add)
  have "drop ?T (sent s) = got @ drop (?T + n) (sent s)"
    using append_take_drop_id [of n "drop ?T (sent s)"] by (simp add: got add.commute)
  then have "cyc_holds buf (?T + n) (drop (?T + n) (sent s) @ stored (prod s))"
    using a len by (simp only: append_assoc cyc_holds_append)
  moreover have "spsc_ring ((ring s)\<lparr>sp_tail := t + of_nat n\<rparr>) k buf" using a by (simp add: spsc_ring_def)
  ultimately show ?thesis
    using a n t r len unfolding sys_at_def Let_def by simp
qed

text \<open>What a side reserves, in terms of the cursors.\<close>

lemma write_reserved:
  assumes s: "sys_at s k buf CT CH" and r: "write_reserve (ring s) n = (m, q)"
  obtains CT' where "spsc_at q k buf CT' (length (recvd s)) CH (drop (length (recvd s)) (sent s))"
    "unat m \<le> unat n" "length (sent s) + unat m \<le> CT' + unat (sp_capacity q)"
    "sp_capacity q = sp_capacity (ring s)" "sp_mirror q = sp_mirror (ring s)"
proof -
  have "length (recvd s) \<le> length (sent s)" using sys_atD [OF s] by linarith
  then have len: "length (recvd s) + length (drop (length (recvd s)) (sent s)) = length (sent s)" by simp
  show thesis
  proof (rule write_reserve_at [OF sys_at_ring [OF s], of n])
    fix m' q' CT'
    assume *: "write_reserve (ring s) n = (m', q')"
      "spsc_at q' k buf CT' (length (recvd s)) CH (drop (length (recvd s)) (sent s))"
      "unat m' = min (unat n) (unat (sp_capacity (ring s)) - length (drop (length (recvd s)) (sent s)))"
      "length (recvd s) + length (drop (length (recvd s)) (sent s)) + unat m' \<le> CT' + unat (sp_capacity (ring s))"
      "sp_capacity q' = sp_capacity (ring s)" "sp_mirror q' = sp_mirror (ring s)"
    then have "m' = m" "q' = q" using r by simp_all
    moreover have "unat m' \<le> unat n" using *(3) by simp
    ultimately show thesis using that *(2,4-6) by (simp only: len)
  qed
qed

lemma frames_reserved:
  assumes s: "sys_at s k buf CT CH" and f: "f \<noteq> 0" and r: "frames_reserve (ring s) n f = (m, q)"
  obtains CT' where "spsc_at q k buf CT' (length (recvd s)) CH (drop (length (recvd s)) (sent s))"
    "unat (m * f) \<le> unat n * unat f" "m \<noteq> 0 \<Longrightarrow> 0 < m * f"
    "length (sent s) + unat (m * f) \<le> CT' + unat (sp_capacity q)"
    "sp_capacity q = sp_capacity (ring s)" "sp_mirror q = sp_mirror (ring s)"
proof -
  have "length (recvd s) \<le> length (sent s)" using sys_atD [OF s] by linarith
  then have len: "length (recvd s) + length (drop (length (recvd s)) (sent s)) = length (sent s)" by simp
  have f0: "0 < f" using f by (simp add: word_gt_0)
  show thesis
  proof (rule frames_reserve_at [OF sys_at_ring [OF s] f0, of n])
    fix m' q' CT'
    assume *: "frames_reserve (ring s) n f = (m', q')"
      "spsc_at q' k buf CT' (length (recvd s)) CH (drop (length (recvd s)) (sent s))"
      "unat m' = min (unat n) ((unat (sp_capacity (ring s)) - length (drop (length (recvd s)) (sent s))) div unat f)"
      "unat (m' * f) = unat m' * unat f"
      "length (recvd s) + length (drop (length (recvd s)) (sent s)) + unat (m' * f) \<le> CT' + unat (sp_capacity (ring s))"
      "sp_capacity q' = sp_capacity (ring s)" "sp_mirror q' = sp_mirror (ring s)"
    have eq: "m' = m" "q' = q" using *(1) r by simp_all
    have "unat m' \<le> unat n" using *(3) by simp
    then have "unat (m' * f) \<le> unat n * unat f" unfolding *(4) by (rule mult_le_mono1)
    moreover have "0 < m * f" if "m \<noteq> 0"
      using that f *(4) unfolding eq by (metis mult_is_0 unat_eq_zero word_gt_0)
    ultimately show thesis using *(2,5-7) unfolding len eq by (intro that [of CT']) simp_all
  qed
qed

lemma read_reserved:
  assumes s: "sys_at s k buf CT CH" and r: "read_reserve (ring s) n = (m, q)"
  obtains CH' where "spsc_at q k buf CT (length (recvd s)) CH' (drop (length (recvd s)) (sent s))"
    "unat m = min (unat n) (length (sent s) - length (recvd s))" "length (recvd s) + unat m \<le> CH'"
    "sp_capacity q = sp_capacity (ring s)" "sp_mirror q = sp_mirror (ring s)"
proof (rule read_reserve_at [OF sys_at_ring [OF s], of n])
  fix m' q' CH'
  assume *: "read_reserve (ring s) n = (m', q')"
    "spsc_at q' k buf CT (length (recvd s)) CH' (drop (length (recvd s)) (sent s))"
    "unat m' = min (unat n) (length (drop (length (recvd s)) (sent s)))" "length (recvd s) + unat m' \<le> CH'"
    "sp_capacity q' = sp_capacity (ring s)" "sp_mirror q' = sp_mirror (ring s)"
  then have "m' = m" "q' = q" using r by simp_all
  then show thesis using that *(2-6) by (simp only: length_drop)
qed

text \<open>Every step of either thread keeps the invariant.\<close>

lemma prod_step_inv:
  assumes s: "sys_at s k buf CT CH" and step: "spsc_prod_step s s'"
  shows "(\<exists>buf' CT'. sys_at s' k buf' CT' CH) \<and> sp_capacity (ring s') = sp_capacity (ring s)"
  using step
proof cases
  case (write_none n m q)
  show ?thesis
    by (rule write_reserved [OF s write_none(3)])
      (use write_none(1) sys_at_producer_reload [OF s write_none(2), of q] in auto)
next
  case (write_start n data m q)
  show ?thesis
  proof (rule write_reserved [OF s write_start(4)])
    fix CT'
    assume r: "spsc_at q k buf CT' (length (recvd s)) CH (drop (length (recvd s)) (sent s))"
      "unat m \<le> unat n" "length (sent s) + unat m \<le> CT' + unat (sp_capacity q)"
      "sp_capacity q = sp_capacity (ring s)" "sp_mirror q = sp_mirror (ring s)"
    have at: "sys_at (s\<lparr>ring := q\<rparr>) k buf CT' CH"
      by (rule sys_at_producer_reload [OF s write_start(2) r(1,4,5)])
    have "sys_at (s\<lparr>ring := q, prod := PCopy (sp_head q) (take (unat m) data) (zip (ring_slots q (sp_head q) m) data)\<rparr>) k buf CT' CH"
      using sys_at_write_start [OF at, of m data] write_start r(2,3) by (simp add: word_gt_0)
    then show ?thesis using write_start(1) r(4) by auto
  qed
next
  case (frames_none f n m q)
  show ?thesis
    by (rule frames_reserved [OF s frames_none(3,4)])
      (use frames_none(1) sys_at_producer_reload [OF s frames_none(2), of q] in auto)
next
  case (frames_start f n data m q)
  show ?thesis
  proof (rule frames_reserved [OF s frames_start(3,5)])
    fix CT'
    assume r: "spsc_at q k buf CT' (length (recvd s)) CH (drop (length (recvd s)) (sent s))"
      "unat (m * f) \<le> unat n * unat f" "m \<noteq> 0 \<Longrightarrow> 0 < m * f"
      "length (sent s) + unat (m * f) \<le> CT' + unat (sp_capacity q)"
      "sp_capacity q = sp_capacity (ring s)" "sp_mirror q = sp_mirror (ring s)"
    have at: "sys_at (s\<lparr>ring := q\<rparr>) k buf CT' CH"
      by (rule sys_at_producer_reload [OF s frames_start(2) r(1,5,6)])
    have "unat (m * f) \<le> length data" using r(2) frames_start(4) by (rule le_trans)
    from sys_at_write_start [OF at _ r(3) [OF frames_start(6)] this]
    have "sys_at (s\<lparr>ring := q, prod := PCopy (sp_head q) (take (unat (m * f)) data)
        (zip (ring_slots q (sp_head q) (m * f)) data)\<rparr>) k buf CT' CH"
      using frames_start(2) r(4) by simp
    then show ?thesis using frames_start(1) r(5) by auto
  qed
next
  case (write_byte h data slot rest q)
  then obtain buf' where "sys_at (s\<lparr>ring := q, prod := PCopy h data rest\<rparr>) k buf' CT CH"
    using sys_at_write_byte [OF s write_byte(2)] by (metis option.inject)
  moreover have "sp_capacity q = sp_capacity (ring s)"
    using write_byte(3) by (auto simp: store_byte_def store_bytes_def split: bind_splits)
  ultimately show ?thesis using write_byte by auto
next
  case (write_publish h data)
  then show ?thesis using sys_at_publish [OF s] by auto
qed

lemma cons_step_inv:
  assumes s: "sys_at s k buf CT CH" and step: "spsc_cons_step s s'"
  shows "(\<exists>CH'. sys_at s' k buf CT CH') \<and> sp_capacity (ring s') = sp_capacity (ring s)"
  using step
proof cases
  case (read_none n m q)
  show ?thesis
    by (rule read_reserved [OF s read_none(3)])
      (use read_none(1) sys_at_consumer_reload [OF s read_none(2), of q] in auto)
next
  case (read_start n m q release)
  show ?thesis
  proof (rule read_reserved [OF s read_start(3)])
    fix CH'
    assume r: "spsc_at q k buf CT (length (recvd s)) CH' (drop (length (recvd s)) (sent s))"
      "length (recvd s) + unat m \<le> CH'"
      "sp_capacity q = sp_capacity (ring s)" "sp_mirror q = sp_mirror (ring s)"
    have at: "sys_at (s\<lparr>ring := q\<rparr>) k buf CT CH'"
      by (rule sys_at_consumer_reload [OF s read_start(2) r(1,3,4)])
    show ?thesis
      using sys_at_read_start [OF at, of m release] read_start r(2,3) by (auto simp: word_gt_0)
  qed
next
  case (skip_start n m q)
  show ?thesis
  proof (rule read_reserved [OF s skip_start(3)])
    fix CH'
    assume r: "spsc_at q k buf CT (length (recvd s)) CH' (drop (length (recvd s)) (sent s))"
      "length (recvd s) + unat m \<le> CH'"
      "sp_capacity q = sp_capacity (ring s)" "sp_mirror q = sp_mirror (ring s)"
    have at: "sys_at (s\<lparr>ring := q\<rparr>) k buf CT CH'"
      by (rule sys_at_consumer_reload [OF s skip_start(2) r(1,3,4)])
    have "sys_at (s\<lparr>ring := q, cons := CSkip (sp_tail q) m\<rparr>) k buf CT CH'"
      using sys_at_set_cons [OF at, of "CSkip (sp_tail q) m"] r(1,2) by (simp add: spsc_at_def)
    then show ?thesis using skip_start r(3) by auto
  qed
next
  case (read_byte t m slot rest got release b)
  show ?thesis
    by (rule sys_at_read_byte [OF s read_byte(2)]) (use read_byte in auto)
next
  case (read_release t m got)
  note a = sys_atD [OF s, unfolded read_release(2)]
  have "length (recvd s) + unat m \<le> CH" "sp_tail (ring s) = t" "got = take (unat m) (drop (length (recvd s)) (sent s))"
    using a by auto
  from sys_at_release [OF s this] show ?thesis using read_release(1) by auto
next
  case (peek_done t m got)
  then show ?thesis using sys_at_set_cons [OF s, of CIdle] by auto
next
  case (skip_release t m)
  note a = sys_atD [OF s, unfolded skip_release(2)]
  have "length (recvd s) + unat m \<le> CH" "sp_tail (ring s) = t" using a by auto
  from sys_at_release [OF s this refl] show ?thesis using skip_release(1) by auto
qed

lemma spsc_reach_inv:
  assumes "spsc_fresh q0 c" and "spsc_reach q0 s"
  obtains k buf CT CH where "sys_at s k buf CT CH" "sp_capacity (ring s) = sp_capacity q0"
proof -
  have "(\<exists>k buf CT CH. sys_at s k buf CT CH) \<and> sp_capacity (ring s) = sp_capacity q0"
    using assms(2)
  proof induction
    case start
    obtain k buf where "spsc_at q0 k buf 0 0 0 []" using assms(1) by (auto simp: spsc_fresh_def)
    then have "sys_at \<lparr>ring = q0, prod = PIdle, cons = CIdle, sent = [], recvd = []\<rparr> k buf 0 0"
      by (simp add: sys_at_def spsc_at_def cyc_holds_def)
    then show ?case by auto
  next
    case (producer s s')
    then show ?case using prod_step_inv by metis
  next
    case (consumer s s')
    then show ?case using cons_step_inv by metis
  qed
  then show thesis using that by blast
qed

section \<open>Progress\<close>

text \<open>The own steps a side has left in its call.\<close>

fun prod_left :: "producer \<Rightarrow> nat" where
  "prod_left PIdle = 0"
| "prod_left (PCopy h data rest) = Suc (length rest)"

fun cons_left :: "consumer \<Rightarrow> nat" where
  "cons_left CIdle = 0"
| "cons_left (CCopy t m rest got release) = Suc (length rest)"
| "cons_left (CSkip t m) = 1"

lemma prod_finishes:
  "sys_at s k buf CT CH \<Longrightarrow> prod s = PCopy h data rest \<Longrightarrow>
   \<exists>s'. (spsc_prod_step ^^ Suc (length rest)) s s' \<and> prod s' = PIdle \<and> sent s' = sent s @ data"
proof (induction rest arbitrary: s buf)
  case Nil
  have "spsc_prod_step s (s\<lparr>ring := (ring s)\<lparr>sp_head := h + of_nat (length data)\<rparr>, prod := PIdle, sent := sent s @ data\<rparr>)"
    by (rule write_publish [OF Nil.prems(2)])
  then show ?case by auto
next
  case (Cons slot rest)
  obtain q buf' where "store_byte slot (ring s) = Some q"
    and at: "sys_at (s\<lparr>ring := q, prod := PCopy h data rest\<rparr>) k buf' CT CH"
    using sys_at_write_byte [OF Cons.prems] by blast
  then have step: "spsc_prod_step s (s\<lparr>ring := q, prod := PCopy h data rest\<rparr>)"
    by (intro write_byte [OF Cons.prems(2)])
  obtain s' where "(spsc_prod_step ^^ Suc (length rest)) (s\<lparr>ring := q, prod := PCopy h data rest\<rparr>) s'"
    "prod s' = PIdle" "sent s' = sent s @ data"
    using Cons.IH [OF at] by auto
  with step show ?case using relpowp_Suc_I2 by (metis length_Cons)
qed

lemma cons_finishes:
  "sys_at s k buf CT CH \<Longrightarrow> cons s = CCopy t m rest got release \<Longrightarrow>
   \<exists>s'. (spsc_cons_step ^^ Suc (length rest)) s s' \<and> cons s' = CIdle
     \<and> recvd s' = (if release then take (length (recvd s) + unat m) (sent s) else recvd s)"
proof (induction rest arbitrary: s got)
  case Nil
  note a = sys_atD [OF Nil.prems(1), unfolded Nil.prems(2)]
  have "recvd s @ got = take (length (recvd s)) (sent s) @ take (unat m) (drop (length (recvd s)) (sent s))"
    using a by (metis cons_ok.simps(2) add.right_neutral list.size(3))
  then have r: "recvd s @ got = take (length (recvd s) + unat m) (sent s)" by (simp add: take_add)
  show ?case
  proof (cases release)
    case True
    with Nil.prems(2) have "spsc_cons_step s (s\<lparr>ring := (ring s)\<lparr>sp_tail := t + m\<rparr>, cons := CIdle, recvd := recvd s @ got\<rparr>)"
      by (intro read_release) simp
    then show ?thesis using True r by auto
  next
    case False
    with Nil.prems(2) have "spsc_cons_step s (s\<lparr>cons := CIdle\<rparr>)" by (intro peek_done) simp
    then show ?thesis using False by auto
  qed
next
  case (Cons slot rest)
  obtain b where ld: "load_byte slot (ring s) = Some b"
    and at: "sys_at (s\<lparr>cons := CCopy t m rest (got @ [b]) release\<rparr>) k buf CT CH"
    using sys_at_read_byte [OF Cons.prems] by blast
  have step: "spsc_cons_step s (s\<lparr>cons := CCopy t m rest (got @ [b]) release\<rparr>)"
    by (rule read_byte [OF Cons.prems(2) ld])
  obtain s' where "(spsc_cons_step ^^ Suc (length rest)) (s\<lparr>cons := CCopy t m rest (got @ [b]) release\<rparr>) s'"
    "cons s' = CIdle" "recvd s' = (if release then take (length (recvd s) + unat m) (sent s) else recvd s)"
    using Cons.IH [OF at] by (auto simp del: relpowp.simps)
  with step show ?case using relpowp_Suc_I2 by (metis length_Cons)
qed

lemma prod_step_left:
  "spsc_prod_step s s' \<Longrightarrow> cons s' = cons s \<and> recvd s' = recvd s
    \<and> (prod s \<noteq> PIdle \<longrightarrow> Suc (prod_left (prod s')) = prod_left (prod s))"
  by (cases rule: spsc_prod_step.cases) auto

lemma cons_step_left:
  "spsc_cons_step s s' \<Longrightarrow> prod s' = prod s \<and> sent s' = sent s
    \<and> (cons s \<noteq> CIdle \<longrightarrow> Suc (cons_left (cons s')) = cons_left (cons s))"
  by (cases rule: spsc_cons_step.cases) auto

section \<open>Properties\<close>

text \<open>The witnesses: one byte was published, and its read and the write of another are both under way.\<close>

definition busy_ring :: retro_spsc where
  "busy_ring = small_ring\<lparr>sp_buffer := Some [1, 0, 0, 0], sp_head := 1, sp_cached_head := 1\<rparr>"

definition busy_sys :: spsc_sys where
  "busy_sys = \<lparr>ring = busy_ring, prod = PCopy 1 [2] [(1, 2)], cons = CCopy 0 1 [0] [] True, sent = [1], recvd = []\<rparr>"

lemma busy_sys_reach: "spsc_reach small_ring busy_sys"
proof -
  let ?q1 = "small_ring\<lparr>sp_buffer := Some [1, 0, 0, 0]\<rparr>" and ?q2 = "small_ring\<lparr>sp_buffer := Some [1, 0, 0, 0], sp_head := 1\<rparr>"
  note eval = small_ring_def busy_ring_def write_reserve_def read_reserve_def ring_slots_def spsc_contig_def Let_def
    store_byte_def store_bytes_def mem_write_def
  let ?s = "\<lambda>q p c xs. \<lparr>ring = q, prod = p, cons = c, sent = xs, recvd = []\<rparr>"
  have "spsc_reach small_ring (?s small_ring PIdle CIdle [])" by (rule spsc_reach.start)
  moreover have "spsc_prod_step (?s small_ring PIdle CIdle []) (?s small_ring (PCopy 0 [1] [(0, 1)]) CIdle [])"
    using write_start [of "?s small_ring PIdle CIdle []" 1 "[1]" 1 small_ring] by (simp add: eval)
  moreover have "spsc_prod_step (?s small_ring (PCopy 0 [1] [(0, 1)]) CIdle []) (?s ?q1 (PCopy 0 [1] []) CIdle [])"
    using write_byte [of "?s small_ring (PCopy 0 [1] [(0, 1)]) CIdle []" 0 "[1]" "(0, 1)" "[]" ?q1] by (simp add: eval)
  moreover have "spsc_prod_step (?s ?q1 (PCopy 0 [1] []) CIdle []) (?s ?q2 PIdle CIdle [1])"
    using write_publish [of "?s ?q1 (PCopy 0 [1] []) CIdle []" 0 "[1]"] by (simp add: eval)
  moreover have "spsc_cons_step (?s ?q2 PIdle CIdle [1]) (?s busy_ring PIdle (CCopy 0 1 [0] [] True) [1])"
    using read_start [of "?s ?q2 PIdle CIdle [1]" 1 1 busy_ring True] by (simp add: eval)
  moreover have "spsc_prod_step (?s busy_ring PIdle (CCopy 0 1 [0] [] True) [1]) busy_sys"
    using write_start [of "?s busy_ring PIdle (CCopy 0 1 [0] [] True) [1]" 1 "[2]" 1 busy_ring]
    by (simp add: eval busy_sys_def)
  ultimately show ?thesis by (meson producer consumer)
qed

text \<open>
  C1. whatever the interleaving of the two threads, the bytes released by the consumer are exactly
  the first bytes published by the producer, in order, what a read under way holds is what comes
  next, and never more than the capacity is between the two.
\<close>

theorem spsc_interleaving_fifo:
  assumes "spsc_fresh q0 c" and "spsc_reach q0 s"
  shows "recvd s = take (length (recvd s)) (sent s)
    \<and> length (sent s) - length (recvd s) \<le> unat (sp_capacity q0)
    \<and> (\<forall>t m rest got release. cons s = CCopy t m rest got release \<longrightarrow>
         got = take (length got) (drop (length (recvd s)) (sent s)))"
proof (rule spsc_reach_inv [OF assms])
  fix k buf CT CH
  assume at: "sys_at s k buf CT CH" and cap: "sp_capacity (ring s) = sp_capacity q0"
  note a = sys_atD [OF at]
  have "length (sent s) - length (recvd s) \<le> unat (sp_capacity q0)" using a unfolding cap by linarith
  moreover have "recvd s = take (length (recvd s)) (sent s)" using a by blast
  moreover have "got = take (length got) (drop (length (recvd s)) (sent s))"
    if "cons s = CCopy t m rest got release" for t m rest got release
    using a unfolding that cons_ok.simps by blast
  ultimately show ?thesis by blast
qed

theorem spsc_interleaving_fifo_witness:
  "recvd busy_sys = take (length (recvd busy_sys)) (sent busy_sys)
    \<and> length (sent busy_sys) - length (recvd busy_sys) \<le> 4"
  using spsc_interleaving_fifo [OF small_ring_fresh busy_sys_reach] by (simp add: small_ring_def)

text \<open>
  C2. no data race: while a write and a read (or peek) are both under way, no byte of the buffer
  that the producer has still to store is one that the consumer has still to load, in the plain
  ring and in both images of the mirrored one.
\<close>

theorem spsc_no_data_race:
  assumes "spsc_fresh q0 c" and "spsc_reach q0 s"
    and "prod s = PCopy h data stores" and "cons s = CCopy t m loads got release"
  shows "\<exists>buf. sp_buffer (ring s) = Some buf \<and>
    (\<forall>i\<in>fst ` set stores. \<forall>j\<in>set loads. i mod length buf \<noteq> j mod length buf)"
proof (rule spsc_reach_inv [OF assms(1,2)])
  fix k buf CT CH
  assume at: "sys_at s k buf CT CH"
  note a = sys_atD [OF at, unfolded assms(3,4)]
  let ?H = "length (sent s)" and ?T = "length (recvd s)"
  have ring: "spsc_ring (ring s) k buf" and cap: "unat (sp_capacity (ring s)) \<le> 2 ^ k"
    and le: "CT \<le> ?T" "?T \<le> CH" "CH \<le> ?H" using a by blast+
  have st: "slots_at k (offset_limit (ring s) k) (?H + (length data - length stores)) (map fst stores)"
    "length stores \<le> length data" "?H + length data \<le> CT + unat (sp_capacity (ring s))"
    and ld: "slots_at k (offset_limit (ring s) k) (?T + length got) loads" "length got + length loads = unat m"
      "?T + unat m \<le> CH"
    using a unfolding prod_ok.simps cons_ok.simps by blast+
  have "i mod 2 ^ k \<noteq> j mod 2 ^ k" if i: "i \<in> fst ` set stores" and j: "j \<in> set loads" for i j
  proof -
    have "i \<in> set (map fst stores)" using i by simp
    from slots_at_in [OF st(1) this] obtain p where "?H + (length data - length stores) \<le> p"
      "p < ?H + (length data - length stores) + length (map fst stores)" and ip: "i mod 2 ^ k = p mod 2 ^ k"
      by blast
    then have p: "?H \<le> p" "p < ?H + length data" "i mod 2 ^ k = p mod 2 ^ k" using st(2) by simp_all
    from slots_at_in [OF ld(1) j] obtain r where "?T + length got \<le> r"
      "r < ?T + length got + length loads" and jr: "j mod 2 ^ k = r mod 2 ^ k"
      by blast
    then have r: "?T \<le> r" "r < CH" "j mod 2 ^ k = r mod 2 ^ k" using ld(2,3) by simp_all
    have "r < p" "p < r + 2 ^ k" using p r le st(3) cap by linarith+
    then have "r mod 2 ^ k \<noteq> p mod 2 ^ k" by (rule slots_differ)
    then show ?thesis using p(3) r(3) by simp
  qed
  then show ?thesis using spsc_ringD [OF ring] by auto
qed

theorem spsc_no_data_race_witness:
  "\<exists>buf. sp_buffer (ring busy_sys) = Some buf \<and> 1 mod length buf \<noteq> 0 mod length buf"
  using spsc_no_data_race [OF small_ring_fresh busy_sys_reach, of 1 "[2]" "[(1, 2)]" 0 1 "[0]" "[]" True]
  by (auto simp: busy_sys_def)

text \<open>
  C3. the ring is wait-free: a call under way is finished by its own thread in a number of its own
  steps that is known when it starts and that no step of the other thread changes; a write then has
  published all its bytes, and a read has released what it read (a peek nothing).
\<close>

theorem spsc_wait_free:
  assumes "spsc_fresh q0 c" and "spsc_reach q0 s"
  shows "(\<forall>h data stores. prod s = PCopy h data stores \<longrightarrow>
      (\<exists>s'. (spsc_prod_step ^^ prod_left (prod s)) s s' \<and> prod s' = PIdle \<and> sent s' = sent s @ data))
    \<and> (\<forall>t m loads got release. cons s = CCopy t m loads got release \<longrightarrow>
      (\<exists>s'. (spsc_cons_step ^^ cons_left (cons s)) s s' \<and> cons s' = CIdle
        \<and> recvd s' = (if release then take (length (recvd s) + unat m) (sent s) else recvd s)))
    \<and> (\<forall>s'. spsc_cons_step s s' \<longrightarrow> prod_left (prod s') = prod_left (prod s))
    \<and> (\<forall>s'. spsc_prod_step s s' \<longrightarrow> cons_left (cons s') = cons_left (cons s))"
proof (rule spsc_reach_inv [OF assms])
  fix k buf CT CH
  assume at: "sys_at s k buf CT CH"
  have "\<exists>s'. (spsc_prod_step ^^ prod_left (prod s)) s s' \<and> prod s' = PIdle \<and> sent s' = sent s @ data"
    if "prod s = PCopy h data stores" for h data stores
    using prod_finishes [OF at that] that by (simp del: relpowp.simps)
  moreover have "\<exists>s'. (spsc_cons_step ^^ cons_left (cons s)) s s' \<and> cons s' = CIdle
      \<and> recvd s' = (if release then take (length (recvd s) + unat m) (sent s) else recvd s)"
    if "cons s = CCopy t m loads got release" for t m loads got release
    using cons_finishes [OF at that] that by (simp del: relpowp.simps)
  moreover have "prod_left (prod s') = prod_left (prod s)" if "spsc_cons_step s s'" for s'
    using cons_step_left [OF that] by simp
  moreover have "cons_left (cons s') = cons_left (cons s)" if "spsc_prod_step s s'" for s'
    using prod_step_left [OF that] by simp
  ultimately show ?thesis by blast
qed

theorem spsc_wait_free_witness:
  "\<exists>s'. (spsc_prod_step ^^ 2) busy_sys s' \<and> prod s' = PIdle \<and> sent s' = [1, 2]"
proof -
  have "prod busy_sys = PCopy 1 [2] [(1, 2)]" "prod_left (prod busy_sys) = 2" "sent busy_sys @ [2] = [1, 2]"
    by (simp_all add: busy_sys_def)
  with spsc_wait_free [OF small_ring_fresh busy_sys_reach] show ?thesis by metis
qed

end
