(* ===== verification/TripleBuffer.thy ===== *)
theory TripleBuffer
  imports Prelude
begin

text \<open>
  \<open>include/queues/retro_triple_buffer.h\<close>: three buffers between a producer that always has one to
  fill and a consumer that always has one to show. The first part is the code, one call at a
  time; the second interleaves the two threads, with the load and the exchange of a take apart.
\<close>

unbundle bit_operations_syntax

section \<open>The code\<close>

definition RETRO_TRIPLE_BUFFER_FRESH :: u32 where
  "RETRO_TRIPLE_BUFFER_FRESH = 4"

record retro_triple_buffer =
  tb_buf :: "ptr list"
  tb_mid :: u32
  tb_back :: u32
  tb_front :: u32

definition retro_triple_buffer_init :: "ptr \<Rightarrow> ptr \<Rightarrow> ptr \<Rightarrow> retro_triple_buffer" where
  "retro_triple_buffer_init a b c = \<lparr>tb_buf = [a, b, c], tb_mid = 1, tb_back = 0, tb_front = 2\<rparr>"

definition retro_triple_buffer_back :: "retro_triple_buffer \<Rightarrow> ptr option" where
  "retro_triple_buffer_back f = arr_get (tb_buf f) (unat (tb_back f))"

definition retro_triple_buffer_publish :: "retro_triple_buffer \<Rightarrow> retro_triple_buffer" where
  "retro_triple_buffer_publish f =
     (let old = tb_mid f in
      f\<lparr>tb_mid := tb_back f OR RETRO_TRIPLE_BUFFER_FRESH, tb_back := old AND 3\<rparr>)"

text \<open>The two accesses of a take to \<open>mid\<close>: the test, and the exchange.\<close>

definition take_fresh :: "retro_triple_buffer \<Rightarrow> bool" where
  "take_fresh f \<longleftrightarrow> tb_mid f AND RETRO_TRIPLE_BUFFER_FRESH \<noteq> 0"

definition take_exchange :: "retro_triple_buffer \<Rightarrow> (ptr \<times> retro_triple_buffer) option" where
  "take_exchange f = do {
     let f = f\<lparr>tb_front := tb_mid f AND 3, tb_mid := tb_front f\<rparr>;
     p \<leftarrow> arr_get (tb_buf f) (unat (tb_front f));
     Some (p, f) }"

definition retro_triple_buffer_take :: "retro_triple_buffer \<Rightarrow> (ptr \<times> retro_triple_buffer) option" where
  "retro_triple_buffer_take f = (if \<not> take_fresh f then Some (NULL, f) else take_exchange f)"

definition retro_triple_buffer_front :: "retro_triple_buffer \<Rightarrow> (ptr \<times> retro_triple_buffer) option" where
  "retro_triple_buffer_front f = do {
     (_, f) \<leftarrow> retro_triple_buffer_take f;
     p \<leftarrow> arr_get (tb_buf f) (unat (tb_front f));
     Some (p, f) }"

section \<open>The threads\<close>

text \<open>
  The memory behind the three pointers holds frames. The producer stores into its back buffer as
  often as it likes (every store is a step) and publishes; the consumer is idle or has seen the
  fresh flag. \<open>published\<close> records the frames as they were when published, \<open>shown\<close> how many
  frames had been published when the consumer got its buffer (0 before the first).
\<close>

record 'v tb_sys =
  tb :: retro_triple_buffer
  frames :: "ptr \<Rightarrow> 'v"
  saw_fresh :: bool
  published :: "'v list"
  shown :: nat

inductive tb_step :: "'v tb_sys \<Rightarrow> 'v tb_sys \<Rightarrow> bool" where
  fill: "retro_triple_buffer_back (tb s) = Some p \<Longrightarrow>
    tb_step s (s\<lparr>frames := (frames s)(p := v)\<rparr>)"
| publish: "retro_triple_buffer_back (tb s) = Some p \<Longrightarrow>
    tb_step s (s\<lparr>tb := retro_triple_buffer_publish (tb s), published := published s @ [frames s p]\<rparr>)"
| take_test: "\<not> saw_fresh s \<Longrightarrow> tb_step s (s\<lparr>saw_fresh := take_fresh (tb s)\<rparr>)"
| take_swap: "saw_fresh s \<Longrightarrow> take_exchange (tb s) = Some (p, f) \<Longrightarrow>
    tb_step s (s\<lparr>tb := f, saw_fresh := False, shown := length (published s)\<rparr>)"

inductive tb_reach :: "ptr \<Rightarrow> ptr \<Rightarrow> ptr \<Rightarrow> (ptr \<Rightarrow> 'v) \<Rightarrow> 'v tb_sys \<Rightarrow> bool" for a b c mem where
  start: "tb_reach a b c mem \<lparr>tb = retro_triple_buffer_init a b c, frames = mem, saw_fresh = False,
    published = [], shown = 0\<rparr>"
| step: "tb_reach a b c mem s \<Longrightarrow> tb_step s s' \<Longrightarrow> tb_reach a b c mem s'"

section \<open>The invariant\<close>

text \<open>
  The three indices are a permutation of the three buffers, with the flag in \<open>mid\<close> only. A set
  flag means that the middle buffer holds the last published frame, which was not shown; the
  front buffer holds the frame that was shown last.
\<close>

definition owners :: "retro_triple_buffer \<Rightarrow> nat \<Rightarrow> nat \<Rightarrow> nat \<Rightarrow> bool \<Rightarrow> bool" where
  "owners f i j k fresh \<longleftrightarrow> distinct [i, j, k] \<and> i < 3 \<and> j < 3 \<and> k < 3 \<and> tb_back f = of_nat i \<and> tb_front f = of_nat k
     \<and> tb_mid f = (if fresh then of_nat j OR 4 else of_nat j)"

definition tb_at :: "'v tb_sys \<Rightarrow> nat \<Rightarrow> nat \<Rightarrow> nat \<Rightarrow> bool \<Rightarrow> bool" where
  "tb_at s i j k fresh \<longleftrightarrow> distinct (tb_buf (tb s)) \<and> length (tb_buf (tb s)) = 3 \<and>
     owners (tb s) i j k fresh \<and> (saw_fresh s \<longrightarrow> fresh) \<and> shown s \<le> length (published s)
       \<and> (fresh \<longrightarrow> shown s < length (published s) \<and> frames s (tb_buf (tb s) ! j) = last (published s))
       \<and> (\<not> fresh \<longrightarrow> shown s = length (published s))
       \<and> (0 < shown s \<longrightarrow> frames s (tb_buf (tb s) ! k) = published s ! (shown s - 1))"

text \<open>What each access makes of the owners.\<close>

lemma index_bits:
  assumes "j < (3 :: nat)"
  shows "of_nat j AND 3 = (of_nat j :: u32)" "(of_nat j OR 4) AND 3 = (of_nat j :: u32)"
    "of_nat j AND 4 = (0 :: u32)" "(of_nat j OR 4) AND 4 = (4 :: u32)" "unat (of_nat j :: u32) = j"
proof -
  have "j = 0 \<or> j = 1 \<or> j = 2" using assms by linarith
  then show "of_nat j AND 3 = (of_nat j :: u32)" "(of_nat j OR 4) AND 3 = (of_nat j :: u32)"
    "of_nat j AND 4 = (0 :: u32)" "(of_nat j OR 4) AND 4 = (4 :: u32)" "unat (of_nat j :: u32) = j"
    by (elim disjE; simp)+
qed

lemma owners_publish:
  "owners f i j k fresh \<Longrightarrow> owners (retro_triple_buffer_publish f) j i k True"
  by (auto simp: owners_def retro_triple_buffer_publish_def RETRO_TRIPLE_BUFFER_FRESH_def index_bits)

lemma owners_fresh: "owners f i j k fresh \<Longrightarrow> take_fresh f = fresh"
  by (auto simp: owners_def take_fresh_def RETRO_TRIPLE_BUFFER_FRESH_def index_bits)

lemma owners_take:
  "owners f i j k fresh \<Longrightarrow> owners (f\<lparr>tb_front := tb_mid f AND 3, tb_mid := tb_front f\<rparr>) i k j False"
  by (auto simp: owners_def index_bits)

lemma owners_index: "owners f i j k fresh \<Longrightarrow> unat (tb_back f) = i \<and> unat (tb_front f) = k"
  by (simp add: owners_def index_bits)

lemma tb_step_inv:
  assumes "tb_at s i j k fresh" and "tb_step s s'"
  shows "(\<exists>i j k fresh. tb_at s' i j k fresh) \<and> tb_buf (tb s') = tb_buf (tb s) \<and> shown s \<le> shown s'
    \<and> (\<exists>more. published s' = published s @ more)"
proof -
  note a = assms(1) [unfolded tb_at_def]
  have o: "owners (tb s) i j k fresh" using a by blast
  have ne: "i < 3" "j < 3" "k < 3" "i \<noteq> j" "j \<noteq> k" "i \<noteq> k" using o by (auto simp: owners_def)
  have backp: "p = tb_buf (tb s) ! i" if "retro_triple_buffer_back (tb s) = Some p" for p
    using that owners_index [OF o] a ne by (simp add: retro_triple_buffer_back_def arr_get_def)
  have other: "tb_buf (tb s) ! j \<noteq> tb_buf (tb s) ! i" "tb_buf (tb s) ! k \<noteq> tb_buf (tb s) ! i"
    using a ne by (simp_all add: nth_eq_iff_index_eq)
  from assms(2) show ?thesis
  proof cases
    case (fill p v)
    have "tb_at s' i j k fresh"
      using a other backp [OF fill(2)] unfolding fill(1) tb_at_def by simp
    then show ?thesis using fill by auto
  next
    case (publish p)
    have "owners (retro_triple_buffer_publish (tb s)) j i k True" by (rule owners_publish [OF o])
    moreover have buf: "tb_buf (retro_triple_buffer_publish (tb s)) = tb_buf (tb s)"
      by (simp add: retro_triple_buffer_publish_def Let_def)
    moreover have "0 < shown s \<longrightarrow> (published s @ [frames s p]) ! (shown s - 1) = published s ! (shown s - 1)"
      using a by (cases "shown s") (simp_all add: nth_append)
    ultimately have "tb_at s' j i k True"
      using a backp [OF publish(2)] unfolding publish(1) tb_at_def by simp
    then show ?thesis using publish(1) buf by auto
  next
    case take_test
    have "tb_at s' i j k fresh" using a owners_fresh [OF o] unfolding take_test(1) tb_at_def by simp
    then show ?thesis using take_test by auto
  next
    case (take_swap p f)
    then have f: "f = (tb s)\<lparr>tb_front := tb_mid (tb s) AND 3, tb_mid := tb_front (tb s)\<rparr>"
      by (auto simp: take_exchange_def Let_def split: bind_splits)
    have own: "owners f i k j False" unfolding f by (rule owners_take [OF o])
    have buf: "tb_buf f = tb_buf (tb s)" by (simp add: f)
    have "frames s (tb_buf (tb s) ! j) = published s ! (length (published s) - 1)"
      using a take_swap(2) by (cases "published s = []") (auto simp: last_conv_nth)
    with own buf have "tb_at s' i k j False"
      using a unfolding take_swap(1) tb_at_def by simp
    then show ?thesis using take_swap(1) buf a by auto
  qed
qed

lemma tb_reach_inv:
  assumes "tb_reach a b c mem s" and "distinct [a, b, c]"
  obtains i j k fresh where "tb_at s i j k fresh" "tb_buf (tb s) = [a, b, c]"
proof -
  have "(\<exists>i j k fresh. tb_at s i j k fresh) \<and> tb_buf (tb s) = [a, b, c]"
    using assms(1)
  proof induction
    case start
    have "owners (retro_triple_buffer_init a b c) 0 1 2 False"
      by (simp add: owners_def retro_triple_buffer_init_def)
    then have "tb_at \<lparr>tb = retro_triple_buffer_init a b c, frames = mem, saw_fresh = False,
      published = [], shown = 0\<rparr> 0 1 2 False"
      using assms(2) by (simp add: tb_at_def retro_triple_buffer_init_def)
    then show ?case by (auto simp: retro_triple_buffer_init_def)
  next
    case (step s s')
    then show ?case using tb_step_inv by metis
  qed
  then show thesis using that by blast
qed

section \<open>Properties\<close>

text \<open>
  C6. in every interleaving the buffer the producer fills and the buffer the consumer shows are
  different, both indices are inside the array, and what the consumer shows is a frame exactly as
  it was published: the one that was the newest when the consumer took it. A take that finds the
  flag set gets the newest frame of all, and one that finds it clear has already shown it.
\<close>

theorem triple_buffer_frames_intact:
  assumes "distinct [a, b, c]" and "tb_reach a b c mem s"
  shows "\<exists>back front. retro_triple_buffer_back (tb s) = Some back
    \<and> arr_get [a, b, c] (unat (tb_front (tb s))) = Some front \<and> back \<noteq> front
    \<and> shown s \<le> length (published s)
    \<and> (if shown s = 0 then True else frames s front = published s ! (shown s - 1))
    \<and> (if take_fresh (tb s)
       then \<exists>p f. retro_triple_buffer_take (tb s) = Some (p, f) \<and> p \<noteq> back \<and> frames s p = last (published s)
       else shown s = length (published s) \<and> retro_triple_buffer_take (tb s) = Some (NULL, tb s))"
proof (rule tb_reach_inv [OF assms(2,1)])
  fix i j k fresh
  assume at: "tb_at s i j k fresh" and buf: "tb_buf (tb s) = [a, b, c]"
  note t = at [unfolded tb_at_def buf]
  have o: "owners (tb s) i j k fresh" using t by blast
  have ne: "i < 3" "j < 3" "k < 3" "i \<noteq> j" "j \<noteq> k" "i \<noteq> k" using o by (auto simp: owners_def)
  let ?b = "[a, b, c]"
  have diff: "?b ! i \<noteq> ?b ! k" "?b ! j \<noteq> ?b ! i" using assms(1) ne by (simp_all add: nth_eq_iff_index_eq)
  have "retro_triple_buffer_back (tb s) = Some (?b ! i)" "arr_get ?b (unat (tb_front (tb s))) = Some (?b ! k)"
    using owners_index [OF o] ne by (simp_all add: retro_triple_buffer_back_def arr_get_def buf)
  moreover have "if take_fresh (tb s)
      then \<exists>p f. retro_triple_buffer_take (tb s) = Some (p, f) \<and> p \<noteq> ?b ! i \<and> frames s p = last (published s)
      else shown s = length (published s) \<and> retro_triple_buffer_take (tb s) = Some (NULL, tb s)"
  proof (cases fresh)
    case True
    have "unat (tb_mid (tb s) AND 3) = j" using o True by (simp add: owners_def index_bits)
    then have "take_exchange (tb s) = Some (?b ! j, (tb s)\<lparr>tb_front := tb_mid (tb s) AND 3, tb_mid := tb_front (tb s)\<rparr>)"
      using ne by (simp add: take_exchange_def arr_get_def buf)
    then show ?thesis using True t diff owners_fresh [OF o] by (simp add: retro_triple_buffer_take_def)
  next
    case False
    then show ?thesis using t owners_fresh [OF o] by (simp add: retro_triple_buffer_take_def)
  qed
  ultimately show ?thesis using t diff by auto
qed

text \<open>The witness: one frame was filled and published, and not taken yet.\<close>

definition one_frame :: "nat tb_sys" where
  "one_frame = \<lparr>tb = \<lparr>tb_buf = [10, 20, 30], tb_mid = 4, tb_back = 1, tb_front = 2\<rparr>,
     frames = (\<lambda>_. 0)(10 := 7), saw_fresh = False, published = [7], shown = 0\<rparr>"

lemma one_frame_reach: "tb_reach 10 20 30 (\<lambda>_. 0) one_frame"
proof -
  note eval = retro_triple_buffer_init_def retro_triple_buffer_back_def retro_triple_buffer_publish_def
    RETRO_TRIPLE_BUFFER_FRESH_def arr_get_def one_frame_def Let_def
  let ?s0 = "\<lparr>tb = retro_triple_buffer_init 10 20 30, frames = (\<lambda>_. 0), saw_fresh = False,
    published = [], shown = 0\<rparr> :: nat tb_sys"
  let ?s1 = "?s0\<lparr>frames := (\<lambda>_. 0)(10 := 7)\<rparr>"
  have "tb_step ?s0 ?s1" using fill [of ?s0 10 7] by (simp add: eval)
  moreover have "tb_step ?s1 one_frame" using publish [of ?s1 10] by (simp add: eval)
  ultimately show ?thesis by (meson tb_reach.intros)
qed

theorem triple_buffer_frames_intact_witness:
  "\<exists>p f. retro_triple_buffer_take (tb one_frame) = Some (p, f) \<and> frames one_frame p = 7"
proof -
  have "take_fresh (tb one_frame)" "last (published one_frame) = 7"
    by (simp_all add: take_fresh_def RETRO_TRIPLE_BUFFER_FRESH_def one_frame_def)
  moreover have "distinct [10, 20, 30 :: ptr]" by simp
  ultimately show ?thesis using triple_buffer_frames_intact [OF _ one_frame_reach] by auto
qed

end
