(* ===== verification/MpscStack.thy ===== *)
theory MpscStack
  imports Prelude
begin

text \<open>
  \<open>include/queues/mpsc_stack.h\<close>: the stack that many producers push nodes onto and one consumer
  drains as a chain. The memory is the map from the address of a node to its \<open>next\<close>. The second
  part interleaves any number of producers with the consumer, a push split at its load of the
  head and its compare-and-swap.
\<close>

section \<open>The code\<close>

type_synonym nodes = "ptr \<Rightarrow> ptr option"

record mpsc_stack =
  ms_head :: ptr

definition mpsc_stack_init :: "mpsc_stack \<Rightarrow> mpsc_stack" where
  "mpsc_stack_init st = st\<lparr>ms_head := NULL\<rparr>"

definition store_next_of :: "nodes \<Rightarrow> ptr \<Rightarrow> ptr \<Rightarrow> nodes option" where
  "store_next_of h node p = (if h node = None then None else Some (h(node \<mapsto> p)))"

text \<open>One round of the push loop: the load, and the compare-and-swap.\<close>

definition push_load :: "ptr \<Rightarrow> nodes \<times> mpsc_stack \<Rightarrow> (nodes \<times> mpsc_stack) option" where
  "push_load node s = (case s of (h, st) \<Rightarrow> do {
     h \<leftarrow> store_next_of h node (ms_head st);
     Some (h, st) })"

definition push_cas :: "ptr \<Rightarrow> nodes \<times> mpsc_stack \<Rightarrow> (bool \<times> nodes \<times> mpsc_stack) option" where
  "push_cas node s = (case s of (h, st) \<Rightarrow> do {
     expected \<leftarrow> h node;
     if ms_head st = expected then Some (True, h, st\<lparr>ms_head := node\<rparr>) else Some (False, h, st) })"

partial_function (option) mpsc_stack_push :: "ptr \<Rightarrow> nodes \<times> mpsc_stack \<Rightarrow> (nodes \<times> mpsc_stack) option" where
  "mpsc_stack_push node s = do {
     s \<leftarrow> push_load node s;
     (swapped, s) \<leftarrow> push_cas node s;
     if swapped then Some s else mpsc_stack_push node s }"

definition mpsc_stack_empty :: "mpsc_stack \<Rightarrow> bool" where
  "mpsc_stack_empty st \<longleftrightarrow> ms_head st = NULL"

definition mpsc_stack_drain :: "mpsc_stack \<Rightarrow> ptr \<times> mpsc_stack" where
  "mpsc_stack_drain st = (ms_head st, st\<lparr>ms_head := NULL\<rparr>)"

partial_function (option) reverse_loop :: "nodes \<Rightarrow> ptr \<Rightarrow> ptr \<Rightarrow> (ptr \<times> nodes) option" where
  "reverse_loop h chain node =
     (if node = NULL then Some (chain, h)
      else do {
        nxt \<leftarrow> h node;
        h \<leftarrow> store_next_of h node chain;
        reverse_loop h node nxt })"

definition mpsc_stack_reverse :: "nodes \<Rightarrow> ptr \<Rightarrow> (ptr \<times> nodes) option" where
  "mpsc_stack_reverse h node = reverse_loop h NULL node"

text \<open>A caller's walk along a chain.\<close>

partial_function (option) walk_chain :: "nodes \<Rightarrow> ptr \<Rightarrow> ptr list option" where
  "walk_chain h node =
     (if node = NULL then Some []
      else do { nxt \<leftarrow> h node; ps \<leftarrow> walk_chain h nxt; Some (node # ps) })"

section \<open>The threads\<close>

text \<open>
  A producer \<open>t\<close> is idle (\<open>busy t = None\<close>) or pushes a node, with the version of the head it loaded
  (\<open>None\<close>: it is about to load). The consumer holds the nodes of the chain it drained and may
  relink them until it gives them back. \<open>pushes\<close> and \<open>drained\<close> record the nodes in the order they were
  pushed and, walking each drained chain from its end, drained; \<open>version\<close> counts the changes of the
  head.
\<close>

record mpsc_sys =
  mem :: nodes
  stack :: mpsc_stack
  busy :: "nat \<Rightarrow> (ptr \<times> nat option) option"
  held :: "ptr list"
  pushes :: "ptr list"
  drained :: "ptr list"
  version :: nat

abbreviation in_flight :: "mpsc_sys \<Rightarrow> nat \<Rightarrow> ptr \<Rightarrow> bool" where
  "in_flight s t p \<equiv> (\<exists>v. busy s t = Some (p, v))"

abbreviation on_stack :: "mpsc_sys \<Rightarrow> ptr \<Rightarrow> bool" where
  "on_stack s p \<equiv> (\<exists>ps. walk_chain (mem s) (ms_head (stack s)) = Some ps \<and> p \<in> set ps)"

text \<open>
  A push may start on any node that exists, is not on the stack, not in the hands of the consumer
  and not being pushed by another thread: the contract of the header.
\<close>

inductive mpsc_step :: "mpsc_sys \<Rightarrow> mpsc_sys \<Rightarrow> bool" where
  push_start: "busy s t = None \<Longrightarrow> node \<noteq> NULL \<Longrightarrow> mem s node \<noteq> None \<Longrightarrow> \<not> on_stack s node \<Longrightarrow>
    node \<notin> set (held s) \<Longrightarrow> \<forall>u. \<not> in_flight s u node \<Longrightarrow>
    mpsc_step s (s\<lparr>busy := (busy s)(t \<mapsto> (node, None))\<rparr>)"
| load: "busy s t = Some (node, None) \<Longrightarrow> push_load node (mem s, stack s) = Some (h, st) \<Longrightarrow>
    mpsc_step s (s\<lparr>mem := h, stack := st, busy := (busy s)(t \<mapsto> (node, Some (version s)))\<rparr>)"
| cas_done: "busy s t = Some (node, Some v) \<Longrightarrow> push_cas node (mem s, stack s) = Some (True, h, st) \<Longrightarrow>
    mpsc_step s (s\<lparr>mem := h, stack := st, busy := (busy s)(t := None), pushes := pushes s @ [node],
      version := Suc (version s)\<rparr>)"
| cas_failed: "busy s t = Some (node, Some v) \<Longrightarrow> push_cas node (mem s, stack s) = Some (False, h, st) \<Longrightarrow>
    mpsc_step s (s\<lparr>mem := h, stack := st, busy := (busy s)(t \<mapsto> (node, None))\<rparr>)"
| drain: "held s = [] \<Longrightarrow> mpsc_stack_drain (stack s) = (p, st) \<Longrightarrow> walk_chain (mem s) p = Some ps \<Longrightarrow>
    mpsc_step s (s\<lparr>stack := st, held := ps, drained := drained s @ rev ps, version := Suc (version s)\<rparr>)"
| relink: "p \<in> set (held s) \<Longrightarrow> store_next_of (mem s) p q = Some h \<Longrightarrow> mpsc_step s (s\<lparr>mem := h\<rparr>)"
| give_back: "mpsc_step s (s\<lparr>held := []\<rparr>)"

inductive mpsc_reach :: "nodes \<Rightarrow> mpsc_sys \<Rightarrow> bool" for h0 where
  start: "mpsc_reach h0 \<lparr>mem = h0, stack = mpsc_stack_init \<lparr>ms_head = p\<rparr>, busy = (\<lambda>_. None), held = [],
    pushes = [], drained = [], version = 0\<rparr>"
| step: "mpsc_reach h0 s \<Longrightarrow> mpsc_step s s' \<Longrightarrow> mpsc_reach h0 s'"

section \<open>Chains\<close>

fun chain :: "nodes \<Rightarrow> ptr \<Rightarrow> ptr list \<Rightarrow> bool" where
  "chain h p [] \<longleftrightarrow> p = NULL"
| "chain h p (q # qs) \<longleftrightarrow> p = q \<and> p \<noteq> NULL \<and> (\<exists>r. h p = Some r \<and> chain h r qs)"

lemma walk_of_chain: "chain h p ps \<Longrightarrow> walk_chain h p = Some ps"
  by (induction ps arbitrary: p) (subst walk_chain.simps; fastforce)+

lemma chain_update: "q \<notin> set ps \<Longrightarrow> chain (h(q \<mapsto> r)) p ps = chain h p ps"
  by (induction ps arbitrary: p) auto

text \<open>Reversing a chain turns every link, and nothing else.\<close>

lemma reverse_loop_chain:
  "chain h node qs \<Longrightarrow> chain h c ps \<Longrightarrow> distinct (ps @ qs) \<Longrightarrow>
   \<exists>p h'. reverse_loop h c node = Some (p, h') \<and> chain h' p (rev qs @ ps) \<and> (\<forall>x. x \<notin> set qs \<longrightarrow> h' x = h x)"
proof (induction qs arbitrary: h c node ps)
  case Nil
  then show ?case by (subst reverse_loop.simps) simp
next
  case (Cons q qs)
  then obtain r where r: "node = q" "q \<noteq> NULL" "h q = Some r" "chain h r qs" by auto
  let ?h = "h(q \<mapsto> c)"
  have "chain ?h r qs" "chain ?h q (q # ps)"
    using Cons.prems r by (simp_all add: chain_update)
  moreover have "distinct ((q # ps) @ qs)" using Cons.prems(3) by auto
  ultimately obtain p h' where "reverse_loop ?h q r = Some (p, h')" "chain h' p (rev qs @ q # ps)"
    "\<forall>x. x \<notin> set qs \<longrightarrow> h' x = ?h x"
    using Cons.IH by blast
  then show ?case using r by (subst reverse_loop.simps) (auto simp: store_next_of_def)
qed

lemma mpsc_stack_reverse_chain:
  assumes "chain h p ps" and "distinct ps"
  obtains q h' where "mpsc_stack_reverse h p = Some (q, h')" "chain h' q (rev ps)"
    "\<forall>x. x \<notin> set ps \<longrightarrow> h' x = h x"
  using reverse_loop_chain [of h p ps NULL "[]"] assms by (auto simp: mpsc_stack_reverse_def)

section \<open>The invariant\<close>

text \<open>
  The head leads through the nodes on the stack, newest first; they, the nodes of the consumer
  and the nodes being pushed are all different. A producer that loaded the newest version of the
  head has it as the \<open>next\<close> of its node.
\<close>

definition flight_ok :: "mpsc_sys \<Rightarrow> ptr list \<Rightarrow> nat \<Rightarrow> ptr \<Rightarrow> nat option \<Rightarrow> bool" where
  "flight_ok s items t node v \<longleftrightarrow> node \<noteq> NULL \<and> node \<notin> set items \<and> node \<notin> set (held s) \<and> mem s node \<noteq> None
     \<and> (\<forall>u w. busy s u = Some (node, w) \<longrightarrow> u = t)
     \<and> (\<forall>n. v = Some n \<longrightarrow> n \<le> version s \<and> (n = version s \<longrightarrow> mem s node = Some (ms_head (stack s))))"

definition mpsc_inv :: "mpsc_sys \<Rightarrow> ptr list \<Rightarrow> bool" where
  "mpsc_inv s items \<longleftrightarrow> chain (mem s) (ms_head (stack s)) items \<and> distinct (items @ held s)
     \<and> pushes s = drained s @ rev items
     \<and> (\<forall>t node v. busy s t = Some (node, v) \<longrightarrow> flight_ok s items t node v)"

lemma mpsc_inv_flight: "mpsc_inv s items \<Longrightarrow> busy s t = Some (node, v) \<Longrightarrow> flight_ok s items t node v"
  by (simp add: mpsc_inv_def)

lemma chain_on_stack: "mpsc_inv s items \<Longrightarrow> on_stack s p \<longleftrightarrow> p \<in> set items"
  using walk_of_chain [of "mem s" "ms_head (stack s)" items] by (simp add: mpsc_inv_def)

text \<open>
  A push under way is not disturbed by a step that leaves its node alone and either does not change
  the head or counts the change.
\<close>

lemma flight_ok_frame:
  assumes f: "flight_ok s items t node v" and "mem s' node = mem s node"
    and busy: "\<And>u w. busy s' u = Some (node, w) \<Longrightarrow> u = t \<or> (\<exists>w'. busy s u = Some (node, w'))"
    and "node \<notin> set items'" "node \<notin> set (held s')"
    and ver: "version s' = version s \<and> ms_head (stack s') = ms_head (stack s) \<or> version s < version s'"
  shows "flight_ok s' items' t node v"
proof -
  have "u = t" if "busy s' u = Some (node, w)" for u w
    using busy [OF that] f by (auto simp: flight_ok_def)
  moreover have "n \<le> version s' \<and> (n = version s' \<longrightarrow> mem s' node = Some (ms_head (stack s')))" if "v = Some n" for n
  proof -
    have "n \<le> version s" "n = version s \<longrightarrow> mem s node = Some (ms_head (stack s))"
      using f that by (simp_all add: flight_ok_def)
    then show ?thesis using ver assms(2) by (elim disjE) simp_all
  qed
  ultimately show ?thesis using f assms(2,4,5) by (simp add: flight_ok_def)
qed

lemma flight_ok_upd:
  assumes "flight_ok s items u n v" and b: "busy s' = (busy s)(t := y)" and y: "\<forall>w. y \<noteq> Some (n, w)"
    and "mem s' n = mem s n" "n \<notin> set items'" "n \<notin> set (held s')"
    and "version s' = version s \<and> ms_head (stack s') = ms_head (stack s) \<or> version s < version s'"
  shows "flight_ok s' items' u n v"
proof (rule flight_ok_frame [OF assms(1,4) _ assms(5-7)])
  fix u' w assume "busy s' u' = Some (n, w)"
  then show "u' = u \<or> (\<exists>w'. busy s u' = Some (n, w'))"
    using y unfolding b by (cases "u' = t") simp_all
qed

lemma other_node:
  "mpsc_inv s items \<Longrightarrow> busy s t = Some (node, v) \<Longrightarrow> busy s u = Some (n, w) \<Longrightarrow> u \<noteq> t \<Longrightarrow> n \<noteq> node"
  using mpsc_inv_flight [of s items t node v] by (auto simp: flight_ok_def)

lemma flight_free:
  "mpsc_inv s items \<Longrightarrow> busy s t = Some (node, v) \<Longrightarrow> node \<notin> set items \<and> node \<notin> set (held s) \<and> node \<noteq> NULL"
  using mpsc_inv_flight [of s items t node v] by (simp add: flight_ok_def)

lemma push_start_inv:
  assumes inv: "mpsc_inv s items" and "busy s t = None" "node \<noteq> NULL" "mem s node \<noteq> None"
    "node \<notin> set items" "node \<notin> set (held s)" "\<forall>u. \<not> in_flight s u node"
  shows "mpsc_inv (s\<lparr>busy := (busy s)(t \<mapsto> (node, None))\<rparr>) items"
proof -
  let ?s = "s\<lparr>busy := (busy s)(t \<mapsto> (node, None))\<rparr>"
  have "flight_ok ?s items u n w" if b: "busy ?s u = Some (n, w)" for u n w
  proof (cases "u = t")
    case True
    then have n: "n = node" "w = None" using b by simp_all
    have uniq: "\<forall>u' w'. busy ?s u' = Some (node, w') \<longrightarrow> u' = t"
      using assms(7) by simp
    show ?thesis unfolding flight_ok_def n True by (intro conjI; (rule uniq | use assms(3-6) in simp))
  next
    case False
    then have u: "busy s u = Some (n, w)" using b by simp
    then have "n \<noteq> node" using assms(7) by blast
    then show ?thesis
      using flight_free [OF inv u] by (intro flight_ok_upd [where s' = ?s and t = t and y = "Some (node, None)", OF mpsc_inv_flight [OF inv u]]) simp_all
  qed
  then show ?thesis using inv by (simp add: mpsc_inv_def)
qed

lemma load_inv:
  assumes inv: "mpsc_inv s items" and t: "busy s t = Some (node, v)"
  shows "mpsc_inv (s\<lparr>mem := (mem s)(node \<mapsto> ms_head (stack s)), busy := (busy s)(t \<mapsto> (node, Some (version s)))\<rparr>) items"
proof -
  let ?s = "s\<lparr>mem := (mem s)(node \<mapsto> ms_head (stack s)), busy := (busy s)(t \<mapsto> (node, Some (version s)))\<rparr>"
  have free: "node \<notin> set items" "node \<notin> set (held s)" "node \<noteq> NULL" using flight_free [OF inv t] by simp_all
  have "flight_ok ?s items u n w" if b: "busy ?s u = Some (n, w)" for u n w
  proof (cases "u = t")
    case True
    then have n: "n = node" "w = Some (version s)" using b by simp_all
    have uniq: "\<forall>u' w'. busy ?s u' = Some (node, w') \<longrightarrow> u' = t"
      using other_node [OF inv t] by (simp split: if_splits) blast
    show ?thesis unfolding flight_ok_def n True by (intro conjI; (rule uniq | use free in simp))
  next
    case False
    then have u: "busy s u = Some (n, w)" using b by simp
    have "n \<noteq> node" by (rule other_node [OF inv t u False])
    then show ?thesis
      using flight_free [OF inv u] by (intro flight_ok_upd [where s' = ?s and t = t and y = "Some (node, Some (version s))", OF mpsc_inv_flight [OF inv u]]) simp_all
  qed
  moreover have "chain ((mem s)(node \<mapsto> ms_head (stack s))) (ms_head (stack s)) items"
    using inv free by (simp add: mpsc_inv_def chain_update)
  ultimately show ?thesis using inv by (simp add: mpsc_inv_def)
qed

lemma cas_done_inv:
  assumes inv: "mpsc_inv s items" and t: "busy s t = Some (node, v)" and nxt: "mem s node = Some (ms_head (stack s))"
  shows "mpsc_inv (s\<lparr>stack := (stack s)\<lparr>ms_head := node\<rparr>, busy := (busy s)(t := None),
    pushes := pushes s @ [node], version := Suc (version s)\<rparr>) (node # items)"
proof -
  let ?s = "s\<lparr>stack := (stack s)\<lparr>ms_head := node\<rparr>, busy := (busy s)(t := None),
    pushes := pushes s @ [node], version := Suc (version s)\<rparr>"
  have free: "node \<notin> set items" "node \<notin> set (held s)" "node \<noteq> NULL" using flight_free [OF inv t] by simp_all
  have "flight_ok ?s (node # items) u n w" if b: "busy ?s u = Some (n, w)" for u n w
  proof -
    have u: "u \<noteq> t" "busy s u = Some (n, w)" using b by (auto split: if_splits)
    have "n \<noteq> node" by (rule other_node [OF inv t u(2,1)])
    then show ?thesis
      using flight_free [OF inv u(2)] by (intro flight_ok_upd [where s' = ?s and t = t and y = "None", OF mpsc_inv_flight [OF inv u(2)]]) simp_all
  qed
  then show ?thesis using inv free nxt by (simp add: mpsc_inv_def)
qed

lemma cas_failed_inv:
  assumes inv: "mpsc_inv s items" and t: "busy s t = Some (node, v)"
  shows "mpsc_inv (s\<lparr>busy := (busy s)(t \<mapsto> (node, None))\<rparr>) items"
proof -
  let ?s = "s\<lparr>busy := (busy s)(t \<mapsto> (node, None))\<rparr>"
  have "flight_ok ?s items u n w" if b: "busy ?s u = Some (n, w)" for u n w
  proof (cases "u = t")
    case True
    then have n: "n = node" "w = None" using b by simp_all
    have uniq: "\<forall>u' w'. busy ?s u' = Some (node, w') \<longrightarrow> u' = t"
      using other_node [OF inv t] by (simp split: if_splits) blast
    have "mem s node \<noteq> None" using mpsc_inv_flight [OF inv t] by (simp add: flight_ok_def)
    note mem = this flight_free [OF inv t]
    show ?thesis unfolding flight_ok_def n True by (intro conjI; (rule uniq | use mem in simp))
  next
    case False
    then have u: "busy s u = Some (n, w)" using b by simp
    have "n \<noteq> node" by (rule other_node [OF inv t u False])
    then show ?thesis
      using flight_free [OF inv u] by (intro flight_ok_upd [where s' = ?s and t = t and y = "Some (node, None)", OF mpsc_inv_flight [OF inv u]]) simp_all
  qed
  then show ?thesis using inv by (simp add: mpsc_inv_def)
qed

lemma drain_inv:
  assumes inv: "mpsc_inv s items"
  shows "mpsc_inv (s\<lparr>stack := (stack s)\<lparr>ms_head := NULL\<rparr>, held := items, drained := drained s @ rev items,
    version := Suc (version s)\<rparr>) []"
proof -
  let ?s = "s\<lparr>stack := (stack s)\<lparr>ms_head := NULL\<rparr>, held := items, drained := drained s @ rev items,
    version := Suc (version s)\<rparr>"
  have "flight_ok ?s [] u n w" if "busy ?s u = Some (n, w)" for u n w
  proof -
    have u: "busy s u = Some (n, w)" using that by simp
    show ?thesis using flight_free [OF inv u] u by (intro flight_ok_frame [OF mpsc_inv_flight [OF inv u]]) auto
  qed
  then show ?thesis using inv by (simp add: mpsc_inv_def)
qed

lemma relink_inv:
  assumes inv: "mpsc_inv s items" and p: "p \<in> set (held s)"
  shows "mpsc_inv (s\<lparr>mem := (mem s)(p \<mapsto> q)\<rparr>) items"
proof -
  have "flight_ok (s\<lparr>mem := (mem s)(p \<mapsto> q)\<rparr>) items u n w" if u: "busy s u = Some (n, w)" for u n w
  proof -
    have "n \<noteq> p" using flight_free [OF inv u] p by blast
    then show ?thesis using flight_free [OF inv u] u by (intro flight_ok_frame [OF mpsc_inv_flight [OF inv u]]) auto
  qed
  moreover have "p \<notin> set items" using inv p by (auto simp: mpsc_inv_def)
  ultimately show ?thesis using inv by (simp add: mpsc_inv_def chain_update)
qed

lemma give_back_inv:
  assumes inv: "mpsc_inv s items"
  shows "mpsc_inv (s\<lparr>held := []\<rparr>) items"
proof -
  have "flight_ok (s\<lparr>held := []\<rparr>) items u n w" if u: "busy s u = Some (n, w)" for u n w
    using flight_free [OF inv u] u by (intro flight_ok_frame [OF mpsc_inv_flight [OF inv u]]) auto
  then show ?thesis using inv by (simp add: mpsc_inv_def)
qed

lemma push_load_Some: "push_load node (h, st) = Some (h', st') \<longleftrightarrow>
    h node \<noteq> None \<and> h' = h(node \<mapsto> ms_head st) \<and> st' = st"
  by (auto simp: push_load_def store_next_of_def)

lemma push_cas_Some: "push_cas node (h, st) = Some (ok, h', st') \<longleftrightarrow>
    (\<exists>e. h node = Some e \<and> ok = (ms_head st = e) \<and> h' = h \<and> st' = (if ok then st\<lparr>ms_head := node\<rparr> else st))"
  by (auto simp: push_cas_def split: bind_splits if_splits)

lemma mpsc_step_inv:
  assumes inv: "mpsc_inv s items" and step: "mpsc_step s s'"
  shows "\<exists>items'. mpsc_inv s' items'"
  using step
proof cases
  case (push_start t node)
  have "node \<notin> set items" using push_start(5) unfolding chain_on_stack [OF inv] .
  from push_start_inv [OF inv push_start(2-4) this push_start(6,7)] show ?thesis unfolding push_start(1) by blast
next
  case (load t node h st)
  with load_inv [OF inv load(2)] show ?thesis by (auto simp: push_load_Some)
next
  case (cas_done t node v h st)
  then have h: "h = mem s" "st = (stack s)\<lparr>ms_head := node\<rparr>" "mem s node = Some (ms_head (stack s))"
    by (auto simp: push_cas_Some)
  from cas_done_inv [OF inv cas_done(2) h(3)] show ?thesis unfolding cas_done(1) h by (intro exI) simp
next
  case (cas_failed t node v h st)
  then have h: "h = mem s" "st = stack s" by (auto simp: push_cas_Some)
  from cas_failed_inv [OF inv cas_failed(2)] show ?thesis unfolding cas_failed(1) h by (intro exI) simp
next
  case (drain p st ps)
  have "ps = items" "st = (stack s)\<lparr>ms_head := NULL\<rparr>"
    using walk_of_chain [of "mem s" "ms_head (stack s)" items] inv drain
    by (auto simp: mpsc_inv_def mpsc_stack_drain_def)
  with drain_inv [OF inv] show ?thesis unfolding drain(1) by blast
next
  case (relink p q h)
  then have "h = (mem s)(p \<mapsto> q)" by (auto simp: store_next_of_def split: if_splits)
  with relink_inv [OF inv relink(2)] show ?thesis unfolding relink(1) by blast
next
  case give_back
  with give_back_inv [OF inv] show ?thesis by blast
qed

lemma mpsc_reach_inv:
  assumes "mpsc_reach h0 s"
  obtains items where "mpsc_inv s items"
proof -
  have "\<exists>items. mpsc_inv s items"
    using assms
  proof induction
    case (start p)
    have "mpsc_inv \<lparr>mem = h0, stack = mpsc_stack_init \<lparr>ms_head = p\<rparr>, busy = (\<lambda>_. None), held = [],
      pushes = [], drained = [], version = 0\<rparr> []"
      by (simp add: mpsc_inv_def mpsc_stack_init_def)
    then show ?case by blast
  next
    case (step s s')
    then show ?case using mpsc_step_inv by blast
  qed
  then show thesis using that by blast
qed

section \<open>Properties\<close>

text \<open>
  The witnesses: node 20 is in a push that loaded the empty stack, and node 10 was pushed since, so
  that its compare-and-swap is going to fail.
\<close>

definition two_nodes :: nodes where
  "two_nodes = (\<lambda>_. None)(10 \<mapsto> 7, 20 \<mapsto> 7)"

definition contended :: mpsc_sys where
  "contended = \<lparr>mem = (\<lambda>_. None)(10 \<mapsto> 0, 20 \<mapsto> 0), stack = \<lparr>ms_head = 10\<rparr>, busy = (\<lambda>_. None)(1 \<mapsto> (20, Some 0)),
     held = [], pushes = [10], drained = [], version = 1\<rparr>"

lemma walk_chain_NULL [simp]: "walk_chain h 0 = Some []"
  by (subst walk_chain.simps) simp

lemma contended_reach: "mpsc_reach two_nodes contended"
proof -
  let ?s0 = "\<lparr>mem = two_nodes, stack = mpsc_stack_init \<lparr>ms_head = 5\<rparr>, busy = (\<lambda>_. None), held = [],
    pushes = [], drained = [], version = 0\<rparr>"
  let ?s1 = "?s0\<lparr>busy := (\<lambda>_. None)(1 \<mapsto> (20, None))\<rparr>"
  let ?s2 = "?s0\<lparr>busy := (\<lambda>_. None)(1 \<mapsto> (20, None), 0 \<mapsto> (10, None))\<rparr>"
  let ?s3 = "?s0\<lparr>mem := two_nodes(20 \<mapsto> 0), busy := (\<lambda>_. None)(1 \<mapsto> (20, Some 0), 0 \<mapsto> (10, None))\<rparr>"
  let ?s4 = "?s0\<lparr>mem := two_nodes(20 \<mapsto> 0, 10 \<mapsto> 0), busy := (\<lambda>_. None)(1 \<mapsto> (20, Some 0), 0 \<mapsto> (10, Some 0))\<rparr>"
  have "mpsc_step ?s0 ?s1" using push_start [of ?s0 1 20] by (simp add: two_nodes_def mpsc_stack_init_def)
  moreover have "mpsc_step ?s1 ?s2" using push_start [of ?s1 0 10] by (simp add: two_nodes_def mpsc_stack_init_def)
  moreover have "mpsc_step ?s2 ?s3"
    using load [of ?s2 1 20 "two_nodes(20 \<mapsto> 0)" "\<lparr>ms_head = 0\<rparr>"]
    by (simp add: push_load_Some two_nodes_def mpsc_stack_init_def fun_upd_twist)
  moreover have "mpsc_step ?s3 ?s4"
    using load [of ?s3 0 10 "two_nodes(20 \<mapsto> 0, 10 \<mapsto> 0)" "\<lparr>ms_head = 0\<rparr>"]
    by (simp add: push_load_Some two_nodes_def mpsc_stack_init_def fun_upd_twist)
  moreover have "mpsc_step ?s4 contended"
  proof -
    have "two_nodes(20 \<mapsto> 0, 10 \<mapsto> 0) = (\<lambda>_. None)(10 \<mapsto> 0, 20 \<mapsto> 0)" by (auto simp: two_nodes_def)
    moreover have "((\<lambda>_. None)((1 :: nat) \<mapsto> (20, Some 0), 0 \<mapsto> (10, Some 0)))(0 := None) = (\<lambda>_. None)(1 \<mapsto> (20 :: ptr, Some (0 :: nat)))"
      by (auto simp: fun_eq_iff)
    ultimately show ?thesis
      using cas_done [of ?s4 0 10 0 "two_nodes(20 \<mapsto> 0, 10 \<mapsto> 0)" "\<lparr>ms_head = 10\<rparr>"]
      by (simp add: push_cas_Some mpsc_stack_init_def contended_def)
  qed
  moreover have "mpsc_reach two_nodes ?s0" by (rule mpsc_reach.start)
  ultimately show ?thesis by (meson mpsc_reach.step)
qed

text \<open>
  C4. however pushes and drains interleave, no node is lost and none comes twice: the nodes
  drained so far and the nodes the stack leads through (newest first) are together exactly the
  nodes pushed, in order; and draining now and reversing the chain gives the consumer the nodes
  pushed since the last drain in the order they were pushed, with no other node touched.
\<close>

theorem mpsc_stack_loses_nothing:
  assumes "mpsc_reach h0 s"
  shows "\<exists>items q h'. walk_chain (mem s) (ms_head (stack s)) = Some items \<and> distinct items
    \<and> pushes s = drained s @ rev items
    \<and> mpsc_stack_reverse (mem s) (fst (mpsc_stack_drain (stack s))) = Some (q, h')
    \<and> walk_chain h' q = Some (drop (length (drained s)) (pushes s))
    \<and> (\<forall>x. x \<notin> set items \<longrightarrow> h' x = mem s x)"
proof (rule mpsc_reach_inv [OF assms])
  fix items
  assume inv: "mpsc_inv s items"
  then have c: "chain (mem s) (ms_head (stack s)) items" "distinct items" "pushes s = drained s @ rev items"
    by (simp_all add: mpsc_inv_def)
  obtain q h' where "mpsc_stack_reverse (mem s) (ms_head (stack s)) = Some (q, h')" "chain h' q (rev items)"
    "\<forall>x. x \<notin> set items \<longrightarrow> h' x = mem s x"
    by (rule mpsc_stack_reverse_chain [OF c(1,2)])
  then show ?thesis
    using c walk_of_chain [OF c(1)] walk_of_chain [of h' q "rev items"] by (auto simp: mpsc_stack_drain_def)
qed

theorem mpsc_stack_loses_nothing_witness:
  "\<exists>items. walk_chain (mem contended) (ms_head (stack contended)) = Some items \<and> [10] = rev items"
  using mpsc_stack_loses_nothing [OF contended_reach] by (auto simp: contended_def)

text \<open>
  C5. the push is lock-free: a thread in a push can always take its next step, and its
  compare-and-swap fails only if, since it loaded the head, another push or drain has changed the
  head; with no interference the next compare-and-swap succeeds.
\<close>

theorem mpsc_push_lock_free:
  assumes "mpsc_reach h0 s" and "busy s t = Some (node, v)"
  shows "case v of
      None \<Rightarrow> (\<exists>h st. push_load node (mem s, stack s) = Some (h, st)
        \<and> push_cas node (h, st) = Some (True, h, st\<lparr>ms_head := node\<rparr>))
    | Some n \<Rightarrow> (\<exists>ok h st. push_cas node (mem s, stack s) = Some (ok, h, st) \<and> (ok \<or> n < version s))"
proof (rule mpsc_reach_inv [OF assms(1)])
  fix items
  assume inv: "mpsc_inv s items"
  have f: "flight_ok s items t node v" by (rule mpsc_inv_flight [OF inv assms(2)])
  show ?thesis
  proof (cases v)
    case None
    then show ?thesis using f by (auto simp: flight_ok_def push_load_def push_cas_def store_next_of_def)
  next
    case (Some n)
    then show ?thesis using f by (auto simp: flight_ok_def push_cas_def)
  qed
qed

theorem mpsc_push_lock_free_witness:
  "\<exists>ok h st. push_cas 20 (mem contended, stack contended) = Some (ok, h, st) \<and> (ok \<or> (0 :: nat) < 1)"
  using mpsc_push_lock_free [OF contended_reach, of 1 20 "Some 0"] by (auto simp: contended_def)

end
