(* ===== verification/Fnmatch.thy ===== *)
theory Fnmatch
  imports Cstring
begin

text \<open>
  \<open>compat/compat_fnmatch.c\<close>: the matcher, pointer by pointer, and the patterns it implements.
\<close>

section \<open>The code\<close>

definition FNM_NOMATCH :: int where
  "FNM_NOMATCH = 1"

text \<open>The inner loop of a star: the pattern behind a run of stars, or \<open>None\<close> at its end.\<close>

fun skip_stars :: "byte list \<Rightarrow> byte list option option" where
  "skip_stars [] = None"
| "skip_stars (x # c) = (if x = 0 then Some None else if x = 0x2a then skip_stars c else Some (Some (x # c)))"

text \<open>
  The loop over a list of characters: whether one is the character \<open>s\<close>, and the pattern behind the
  closing bracket; \<open>None\<close> when there is no bracket.
\<close>

fun class_loop :: "byte list \<Rightarrow> byte \<Rightarrow> bool \<Rightarrow> (bool \<times> byte list) option option" where
  "class_loop [] s charmatch = None"
| "class_loop (x # c) s charmatch =
     (if x = 0x5d then Some (Some (charmatch, c))
      else if x = 0 then Some None
      else if charmatch then class_loop c s charmatch
      else class_loop c s (x = s))"

lemma skip_stars_shorter: "skip_stars c = Some (Some c') \<Longrightarrow> length c' \<le> length c"
  by (induction c) (auto split: if_splits)

lemma class_loop_shorter: "class_loop c s m = Some (Some (m', c')) \<Longrightarrow> length c' < length c"
  by (induction c arbitrary: m) (fastforce split: if_splits)+

text \<open>
  The loop over the pattern, and the loop of a star over the rest of the string, which calls the
  matcher.
\<close>

function rl_fnmatch_loop :: "byte list \<Rightarrow> byte list \<Rightarrow> int option"
  and fnmatch_star :: "byte list \<Rightarrow> byte list \<Rightarrow> int option" where
  "rl_fnmatch_loop c string = do {
     x \<leftarrow> deref c;
     if x = 0 then do { s \<leftarrow> deref string; Some (if s = 0 then 0 else FNM_NOMATCH) }
     else do {
       ended \<leftarrow> (if x \<noteq> 0x2a then map_option (\<lambda>s. s = 0) (deref string) else Some False);
       if ended then Some FNM_NOMATCH
       else if x = 0x2a then do {
         rest \<leftarrow> skip_stars (tl c);
         case rest of None \<Rightarrow> Some 0 | Some c' \<Rightarrow> fnmatch_star c' string }
       else if x = 0x5b then do {
         s \<leftarrow> deref string;
         r \<leftarrow> class_loop (tl c) s False;
         case r of
           None \<Rightarrow> Some FNM_NOMATCH
         | Some (charmatch, c') \<Rightarrow>
             if \<not> charmatch then Some FNM_NOMATCH
             else rl_fnmatch_loop c' (tl string) }
       else if x = 0x3f then rl_fnmatch_loop (tl c) (tl string)
       else do {
         let c' = (if x = 0x5c then tl c else c);
         y \<leftarrow> deref c';
         if x = 0x5c \<and> y = 0 then Some FNM_NOMATCH
         else do {
           s \<leftarrow> deref string;
           if y \<noteq> s then Some FNM_NOMATCH else rl_fnmatch_loop (tl c') (tl string) } } } }"
| "fnmatch_star c string = do {
     s \<leftarrow> deref string;
     if s = 0 then Some FNM_NOMATCH
     else do {
       rv \<leftarrow> rl_fnmatch_loop c string;
       if rv \<noteq> 0 then fnmatch_star c (tl string) else Some 0 } }"
  by pat_completeness auto

termination
proof (relation "inv_image (less_than <*lex*> less_than <*lex*> less_than)
    (case_sum (\<lambda>(c, s). (length c, length s, 0)) (\<lambda>(c, s). (length c, length s, Suc 0)))", goal_cases)
  case 1
  show ?case by (intro wf_inv_image wf_lex_prod wf_less_than)
qed (auto elim!: deref.elims dest!: skip_stars_shorter class_loop_shorter)

definition rl_fnmatch :: "byte list \<Rightarrow> byte list \<Rightarrow> int \<Rightarrow> int option" where
  "rl_fnmatch pattern string flags = rl_fnmatch_loop pattern string"

section \<open>Patterns\<close>

text \<open>
  What a pattern means: a sequence of items. There are no ranges and no negation in a list of
  characters, and a backslash does not quote inside it.
\<close>

datatype glob = Star | Any | OneOf "byte list" | Lit byte

fun split_class :: "byte list \<Rightarrow> (byte list \<times> byte list) option" where
  "split_class [] = None"
| "split_class (x # p) = (if x = 0x5d then Some ([], p) else map_option (apfst ((#) x)) (split_class p))"

lemma split_class_shorter: "split_class p = Some (xs, r) \<Longrightarrow> length r < length p"
  by (induction p arbitrary: xs) (auto split: if_splits)

function parse_glob :: "byte list \<Rightarrow> glob list option" where
  "parse_glob [] = Some []"
| "parse_glob (x # p) =
     (if x = 0x2a then map_option ((#) Star) (parse_glob p)
      else if x = 0x3f then map_option ((#) Any) (parse_glob p)
      else if x = 0x5b then
        (case split_class p of None \<Rightarrow> None | Some (xs, r) \<Rightarrow> map_option ((#) (OneOf xs)) (parse_glob r))
      else if x = 0x5c then (case p of [] \<Rightarrow> None | y # r \<Rightarrow> map_option ((#) (Lit y)) (parse_glob r))
      else map_option ((#) (Lit x)) (parse_glob p))"
  by pat_completeness auto

termination by (relation "measure length") (auto dest: split_class_shorter)

fun glob_match :: "glob list \<Rightarrow> byte list \<Rightarrow> bool" where
  "glob_match [] s \<longleftrightarrow> s = []"
| "glob_match (Star # g) s \<longleftrightarrow> glob_match g s \<or> (case s of [] \<Rightarrow> False | _ # t \<Rightarrow> glob_match (Star # g) t)"
| "glob_match (Any # g) s \<longleftrightarrow> (case s of [] \<Rightarrow> False | _ # t \<Rightarrow> glob_match g t)"
| "glob_match (OneOf xs # g) s \<longleftrightarrow> (case s of [] \<Rightarrow> False | y # t \<Rightarrow> y \<in> set xs \<and> glob_match g t)"
| "glob_match (Lit x # g) s \<longleftrightarrow> (case s of [] \<Rightarrow> False | y # t \<Rightarrow> y = x \<and> glob_match g t)"

definition pattern_matches :: "byte list \<Rightarrow> byte list \<Rightarrow> bool" where
  "pattern_matches p s = (case parse_glob p of None \<Rightarrow> False | Some g \<Rightarrow> glob_match g s)"

section \<open>The code implements them\<close>

lemma matches_Nil: "pattern_matches [] s \<longleftrightarrow> s = []"
  by (simp add: pattern_matches_def)

lemma matches_star: "pattern_matches (0x2a # p) s \<longleftrightarrow>
    pattern_matches p s \<or> (case s of [] \<Rightarrow> False | _ # t \<Rightarrow> pattern_matches (0x2a # p) t)"
  by (cases s) (auto simp: pattern_matches_def split: option.splits)

lemma matches_any: "pattern_matches (0x3f # p) s \<longleftrightarrow> (case s of [] \<Rightarrow> False | _ # t \<Rightarrow> pattern_matches p t)"
  by (cases s) (auto simp: pattern_matches_def split: option.splits)

lemma matches_class: "pattern_matches (0x5b # p) s \<longleftrightarrow>
    (case split_class p of None \<Rightarrow> False | Some (xs, r) \<Rightarrow>
      (case s of [] \<Rightarrow> False | y # t \<Rightarrow> y \<in> set xs \<and> pattern_matches r t))"
  by (cases s) (auto simp: pattern_matches_def split: option.splits)

lemma matches_quoted: "pattern_matches (0x5c # p) s \<longleftrightarrow>
    (case p of [] \<Rightarrow> False | y # r \<Rightarrow> (case s of [] \<Rightarrow> False | x # t \<Rightarrow> x = y \<and> pattern_matches r t))"
  by (cases s) (auto simp: pattern_matches_def split: option.splits list.splits)

lemma matches_literal: "x \<notin> {0x2a, 0x3f, 0x5b, 0x5c} \<Longrightarrow>
    pattern_matches (x # p) s \<longleftrightarrow> (case s of [] \<Rightarrow> False | y # t \<Rightarrow> y = x \<and> pattern_matches p t)"
  by (cases s) (auto simp: pattern_matches_def split: option.splits)

text \<open>A star matches when the rest of the pattern matches some suffix.\<close>

lemma matches_star_suffix:
  "pattern_matches (0x2a # p) s \<longleftrightarrow> (\<exists>u t. s = u @ t \<and> pattern_matches p t)"
proof (induction s)
  case Nil
  then show ?case by (subst matches_star) simp
next
  case (Cons x s)
  show ?case
    by (subst matches_star) (auto simp: Cons.IH Cons_eq_append_conv)
qed

lemma matches_stars: "pattern_matches (0x2a # 0x2a # p) s = pattern_matches (0x2a # p) s"
  by (auto simp: matches_star_suffix [of p] matches_star_suffix [of "0x2a # p"]) (metis append_assoc append_Nil)+

lemma matches_star_end: "pattern_matches [0x2a] s"
  by (auto simp: matches_star_suffix matches_Nil)

text \<open>The loops of the code on a terminated pattern.\<close>

lemma skip_stars_result:
  "terminated c \<Longrightarrow> \<exists>r. skip_stars c = Some r \<and> (case r of
      None \<Rightarrow> (\<forall>s. pattern_matches (0x2a # cstr c) s)
    | Some c' \<Rightarrow> terminated c' \<and> (\<exists>x c''. c' = x # c'' \<and> x \<noteq> 0 \<and> x \<noteq> 0x2a)
        \<and> (\<forall>s. pattern_matches (0x2a # cstr c) s = pattern_matches (0x2a # cstr c') s))"
proof (induction c)
  case (Cons x c)
  show ?case
  proof (cases "x = 0x2a")
    case True
    then obtain r where "skip_stars c = Some r" "case r of
        None \<Rightarrow> (\<forall>s. pattern_matches (0x2a # cstr c) s)
      | Some c' \<Rightarrow> terminated c' \<and> (\<exists>x c''. c' = x # c'' \<and> x \<noteq> 0 \<and> x \<noteq> 0x2a)
          \<and> (\<forall>s. pattern_matches (0x2a # cstr c) s = pattern_matches (0x2a # cstr c') s)"
      using Cons by auto
    moreover have "pattern_matches (0x2a # cstr (x # c)) = pattern_matches (0x2a # cstr c)"
      using True by (intro ext) (simp add: matches_stars)
    ultimately show ?thesis using True by (intro exI [of _ r]) (simp split: option.splits)
  qed (use Cons.prems in \<open>auto simp: matches_star_end\<close>)
qed simp

lemma class_loop_result:
  "terminated c \<Longrightarrow> \<exists>r. class_loop c s m = Some r \<and> (case r of
      None \<Rightarrow> split_class (cstr c) = None
    | Some (m', c') \<Rightarrow> terminated c' \<and> (\<exists>xs. m' = (m \<or> s \<in> set xs) \<and> split_class (cstr c) = Some (xs, cstr c')))"
proof (induction c arbitrary: m)
  case (Cons x c)
  show ?case
  proof (cases "x = 0 \<or> x = 0x5d")
    case True
    then show ?thesis using Cons.prems by auto
  next
    case False
    then have c: "terminated c" using Cons.prems by simp
    have step: "class_loop (x # c) s m = class_loop c s (m \<or> x = s)" using False by (cases m) simp_all
    obtain r where r: "class_loop c s (m \<or> x = s) = Some r" "case r of
        None \<Rightarrow> split_class (cstr c) = None
      | Some (m', c') \<Rightarrow> terminated c' \<and> (\<exists>xs. m' = ((m \<or> x = s) \<or> s \<in> set xs) \<and> split_class (cstr c) = Some (xs, cstr c'))"
      using Cons.IH [OF c, of "m \<or> x = s"] by blast
    show ?thesis
    proof (cases r)
      case None
      then show ?thesis using r False unfolding step by simp
    next
      case (Some mc)
      then obtain xs where "terminated (snd mc)" "fst mc = ((m \<or> x = s) \<or> s \<in> set xs)"
        "split_class (cstr c) = Some (xs, cstr (snd mc))" using r(2) by (cases mc) auto
      then show ?thesis using r(1) Some False unfolding step
        by (cases mc) (auto intro!: exI [of _ "x # xs"])
    qed
  qed
qed simp

text \<open>The star tries every suffix, given that the matcher is right on the rest of the pattern.\<close>

lemma fnmatch_star_result:
  assumes rest: "\<And>s. terminated s \<Longrightarrow>
      rl_fnmatch_loop c s = Some (if pattern_matches (cstr c) (cstr s) then 0 else FNM_NOMATCH)"
    and nonempty: "\<not> pattern_matches (cstr c) []"
  shows "terminated s \<Longrightarrow>
    fnmatch_star c s = Some (if pattern_matches (0x2a # cstr c) (cstr s) then 0 else FNM_NOMATCH)"
proof (induction s)
  case (Cons a s)
  show ?case
  proof (cases "a = 0")
    case True
    then show ?thesis using nonempty by (subst fnmatch_star.simps) (simp add: matches_star)
  next
    case False
    then show ?thesis
      using Cons rest [of "a # s"] by (subst fnmatch_star.simps) (simp add: matches_star [of _ "_ # _"] FNM_NOMATCH_def)
  qed
qed simp

lemma matches_nothing: "x \<noteq> 0x2a \<Longrightarrow> \<not> pattern_matches (x # p) []"
  by (cases "x = 0x3f"; cases "x = 0x5b"; cases "x = 0x5c")
    (auto simp: matches_any matches_class matches_quoted matches_literal split: option.splits list.splits)

lemma rl_fnmatch_loop_result:
  "terminated c \<Longrightarrow> terminated s \<Longrightarrow>
   rl_fnmatch_loop c s = Some (if pattern_matches (cstr c) (cstr s) then 0 else FNM_NOMATCH)"
proof (induction "length c" arbitrary: c s rule: less_induct)
  case less
  obtain x c' where c: "c = x # c'" using less.prems(1) by (cases c) simp_all
  obtain a s' where s: "s = a # s'" using less.prems(2) by (cases s) simp_all
  note IH = less.hyps [unfolded c]
  note step = rl_fnmatch_loop.simps [of c s, unfolded c s]
  have t: "terminated c'" "x \<noteq> 0" if "x \<noteq> 0" using that less.prems(1) by (simp_all add: c)
  have ts: "terminated s'" if "a \<noteq> 0" using that less.prems(2) by (simp add: s)
  consider "x = 0" | "x \<noteq> 0" "x \<noteq> 0x2a" "a = 0" | "x = 0x2a" | "x = 0x5b" "a \<noteq> 0" | "x = 0x3f" "a \<noteq> 0"
    | "x = 0x5c" "a \<noteq> 0" | "x \<notin> {0, 0x2a, 0x3f, 0x5b, 0x5c}" "a \<noteq> 0"
    by auto
  then show ?case
  proof cases
    case 1
    then show ?thesis by (simp add: c s step matches_Nil)
  next
    case 2
    then show ?thesis by (simp add: c s step matches_nothing)
  next
    case 3
    obtain r where r: "skip_stars c' = Some r" "case r of
        None \<Rightarrow> (\<forall>s. pattern_matches (0x2a # cstr c') s)
      | Some c'' \<Rightarrow> terminated c'' \<and> (\<exists>x d. c'' = x # d \<and> x \<noteq> 0 \<and> x \<noteq> 0x2a)
          \<and> (\<forall>s. pattern_matches (0x2a # cstr c') s = pattern_matches (0x2a # cstr c'') s)"
      using skip_stars_result [OF t(1)] 3 by auto
    show ?thesis
    proof (cases r)
      case None
      then show ?thesis using 3 r by (simp add: c s step)
    next
      case (Some d)
      then obtain y e where d: "d = y # e" "y \<noteq> 0" "y \<noteq> 0x2a" "terminated d" using r(2) by auto
      have "length d < length (x # c')" using skip_stars_shorter r(1) Some by fastforce
      from IH [OF this d(4)] have "fnmatch_star d (a # s') =
          Some (if pattern_matches (0x2a # cstr d) (cstr (a # s')) then 0 else FNM_NOMATCH)"
        using less.prems(2) d by (intro fnmatch_star_result) (simp_all add: s matches_nothing)
      then show ?thesis using 3 r Some by (simp add: c s step)
    qed
  next
    case 4
    obtain r where r: "class_loop c' a False = Some r" "case r of
        None \<Rightarrow> split_class (cstr c') = None
      | Some (m', c'') \<Rightarrow> terminated c'' \<and> (\<exists>xs. m' = (False \<or> a \<in> set xs) \<and> split_class (cstr c') = Some (xs, cstr c''))"
      using class_loop_result [OF t(1), of a False] 4 by auto
    show ?thesis
    proof (cases r)
      case None
      then show ?thesis using 4 r by (simp add: c s step matches_class)
    next
      case (Some md)
      then obtain m d xs where md: "md = (m, d)" "terminated d" "m = (a \<in> set xs)" "split_class (cstr c') = Some (xs, cstr d)"
        using r(2) by (cases md) auto
      have "length d < length (x # c')" using class_loop_shorter r(1) Some md(1) by fastforce
      from IH [OF this md(2) ts] show ?thesis
        using 4 r Some md by (auto simp: c s step matches_class)
    qed
  next
    case 5
    then show ?thesis using IH [of c' s'] t ts by (simp add: c s step matches_any)
  next
    case 6
    obtain y d where d: "c' = y # d" using t(1) 6 by (cases c') auto
    show ?thesis
    proof (cases "y = 0")
      case True
      then show ?thesis using 6 by (simp add: c s step d matches_quoted)
    next
      case False
      then have "terminated d" using t(1) 6 d by simp
      then show ?thesis using 6 False IH [of d s'] ts by (auto simp: c s step d matches_quoted)
    qed
  next
    case 7
    then show ?thesis using IH [of c' s'] t ts by (auto simp: c s step matches_literal)
  qed
qed

section \<open>Properties\<close>

text \<open>
  C31. on every pair of C strings the matcher returns, reads neither string beyond its
  terminator, and answers 0 exactly when the pattern is well formed and the string is in its
  language; every other pattern (an open list, a backslash at the end) matches nothing.
\<close>

theorem rl_fnmatch_matches:
  assumes "terminated pattern" and "terminated string"
  shows "rl_fnmatch pattern string flags =
    Some (case parse_glob (cstr pattern) of
        None \<Rightarrow> FNM_NOMATCH
      | Some g \<Rightarrow> if glob_match g (cstr string) then 0 else FNM_NOMATCH)"
  using rl_fnmatch_loop_result [OF assms]
  by (auto simp: rl_fnmatch_def pattern_matches_def split: option.splits)

text \<open>The witness matches \<open>ab\<close> with \<open>*[cb]\<close>.\<close>

theorem rl_fnmatch_matches_witness:
  "rl_fnmatch [0x2a, 0x5b, 0x63, 0x62, 0x5d, 0] [0x61, 0x62, 0] 0 = Some 0"
  using rl_fnmatch_matches [of "[0x2a, 0x5b, 0x63, 0x62, 0x5d, 0]" "[0x61, 0x62, 0]" 0] by simp

text \<open>
  Ranges and negated lists, which the description of \<open>fnmatch(3)\<close> that the header refers to has,
  are not implemented: \<open>[a-c]\<close> does not match \<open>b\<close> and matches \<open>-\<close>; \<open>[!a]\<close> matches \<open>a\<close>.
\<close>

theorem rl_fnmatch_no_ranges:
  "rl_fnmatch [0x5b, 0x61, 0x2d, 0x63, 0x5d, 0] [0x62, 0] 0 = Some FNM_NOMATCH \<and>
   rl_fnmatch [0x5b, 0x61, 0x2d, 0x63, 0x5d, 0] [0x2d, 0] 0 = Some 0 \<and>
   rl_fnmatch [0x5b, 0x21, 0x61, 0x5d, 0] [0x61, 0] 0 = Some 0"
  by (simp add: rl_fnmatch_def)

end
