(* ===== verification/Lz4Copy.thy ===== *)
theory Lz4Copy
  imports Prelude
begin

text \<open>
  The match copies of \<open>encodings/encoding_rlz4.c\<close>: copies inside one buffer whose source and
  destination may be closer than the length. The contract of all of them is the byte-wise
  forward copy \<open>lz4_copy\<close>, which reads bytes it has just written.
\<close>

section \<open>Copies inside a buffer\<close>

text \<open>
  \<open>memcpy\<close> with both pointers in the buffer \<open>dst\<close>: undefined where the ranges leave the buffer or
  overlap. A pointer moves by \<open>ptr_add\<close>, undefined below the buffer.
\<close>

definition memcpy_within :: "byte list \<Rightarrow> nat \<Rightarrow> nat \<Rightarrow> nat \<Rightarrow> byte list option" where
  "memcpy_within dst to from n =
     (if n \<noteq> 0 \<and> from < to + n \<and> to < from + n then None
      else do { bs \<leftarrow> mem_read dst from n; mem_write dst to bs })"

definition ptr_add :: "nat \<Rightarrow> int \<Rightarrow> nat option" where
  "ptr_add p d = (if 0 \<le> int p + d then Some (nat (int p + d)) else None)"

text \<open>The loop \<open>do { copy; to += s; from += s; } while (to < end)\<close>, for a copy of one stride.\<close>

partial_function (option) stride_loop ::
  "(byte list \<Rightarrow> nat \<Rightarrow> nat \<Rightarrow> byte list option) \<Rightarrow> nat \<Rightarrow> byte list \<Rightarrow> nat \<Rightarrow> nat \<Rightarrow> nat \<Rightarrow> byte list option" where
  "stride_loop copy s dst to from stop = do {
     dst \<leftarrow> copy dst to from;
     if to + s < stop then stride_loop copy s dst (to + s) (from + s) stop else Some dst }"

definition copy8 :: "byte list \<Rightarrow> nat \<Rightarrow> nat \<Rightarrow> byte list option" where
  "copy8 dst to from = memcpy_within dst to from 8"

definition copy16 :: "byte list \<Rightarrow> nat \<Rightarrow> nat \<Rightarrow> byte list option" where
  "copy16 dst to from = memcpy_within dst to from 16"

definition copy32 :: "byte list \<Rightarrow> nat \<Rightarrow> nat \<Rightarrow> byte list option" where
  "copy32 dst to from = do {
     dst \<leftarrow> memcpy_within dst to from 16;
     memcpy_within dst (to + 16) (from + 16) 16 }"

text \<open>The loop that doubles the region written, and the rest that is not a full doubling.\<close>

partial_function (option) double_loop :: "byte list \<Rightarrow> nat \<Rightarrow> nat \<Rightarrow> nat \<Rightarrow> (byte list \<times> nat) option" where
  "double_loop dst to got match_len =
     (if got * 2 \<le> match_len
      then do { dst \<leftarrow> memcpy_within dst (to + got) to got; double_loop dst to (got * 2) match_len }
      else Some (dst, got))"

definition double_copy :: "byte list \<Rightarrow> nat \<Rightarrow> nat \<Rightarrow> nat \<Rightarrow> byte list option" where
  "double_copy dst to got match_len = do {
     (dst, got) \<leftarrow> double_loop dst to got match_len;
     if got < match_len then memcpy_within dst (to + got) to (match_len - got) else Some dst }"

text \<open>The byte loop \<open>while (n--) *to++ = *from++;\<close> and the loop of exact chunks before it.\<close>

fun byte_loop :: "byte list \<Rightarrow> nat \<Rightarrow> nat \<Rightarrow> nat \<Rightarrow> byte list option" where
  "byte_loop dst to from 0 = Some dst"
| "byte_loop dst to from (Suc n) = do {
     b \<leftarrow> arr_get dst from;
     dst \<leftarrow> arr_set dst to b;
     byte_loop dst (Suc to) (Suc from) n }"

fun chunk_loop :: "byte list \<Rightarrow> nat \<Rightarrow> nat \<Rightarrow> nat \<Rightarrow> byte list option" where
  "chunk_loop dst to from n =
     (if n \<ge> 8
      then do { dst \<leftarrow> memcpy_within dst to from 8; chunk_loop dst (to + 8) (from + 8) (n - 8) }
      else byte_loop dst to from n)"

declare chunk_loop.simps [simp del]

section \<open>The match copies\<close>

definition inc32 :: "int list" where
  "inc32 = [0, 1, 2, 1, 0, 4, 4, 4]"

definition dec64 :: "int list" where
  "dec64 = [0, 0, 0, -1, -4, 1, 2, 3]"

definition rlz4_copy_match_blind :: "byte list \<Rightarrow> nat \<Rightarrow> nat \<Rightarrow> nat \<Rightarrow> nat \<Rightarrow> byte list option" where
  "rlz4_copy_match_blind dst to from match_len offset =
     (if offset = 1 then do { b \<leftarrow> arr_get dst from; mem_write dst to (replicate match_len b) }
      else do {
        let stop = to + match_len;
        (dst, from) \<leftarrow>
          (if offset < 8
           then do {
             dst \<leftarrow> memcpy_within dst to from 2;
             dst \<leftarrow> memcpy_within dst (to + 2) (from + 2) 2;
             d \<leftarrow> arr_get inc32 offset;
             from \<leftarrow> ptr_add from d;
             dst \<leftarrow> memcpy_within dst (to + 4) from 4;
             d \<leftarrow> arr_get dec64 offset;
             from \<leftarrow> ptr_add from (- d);
             Some (dst, from) }
           else do { dst \<leftarrow> memcpy_within dst to from 8; Some (dst, from + 8) });
        let to = to + 8;
        if to < stop then stride_loop copy8 8 dst to from stop else Some dst })"

definition rlz4_copy_match_exact :: "byte list \<Rightarrow> nat \<Rightarrow> nat \<Rightarrow> nat \<Rightarrow> nat \<Rightarrow> byte list option" where
  "rlz4_copy_match_exact dst dst_len op offset match_len = do {
     from \<leftarrow> ptr_add op (- int offset);
     if offset \<ge> 32 \<and> dst_len - op \<ge> match_len + 31
     then stride_loop copy32 32 dst op from (op + match_len)
     else if offset \<ge> 16 \<and> dst_len - op \<ge> match_len + 15
     then stride_loop copy16 16 dst op from (op + match_len)
     else if offset \<ge> 8 \<and> dst_len - op \<ge> match_len + 15
     then stride_loop copy8 8 dst op from (op + match_len)
     else do {
       let got = (if offset < match_len then offset else match_len);
       dst \<leftarrow> memcpy_within dst op from got;
       if offset \<ge> match_len
       then (if match_len > got
             then memcpy_within dst (op + got) (from + got) (match_len - got) else Some dst)
       else double_copy dst op got match_len } }"

text \<open>The copy of the careful loop.\<close>

definition rlz4_copy_match_tail :: "byte list \<Rightarrow> nat \<Rightarrow> nat \<Rightarrow> nat \<Rightarrow> nat \<Rightarrow> byte list option" where
  "rlz4_copy_match_tail dst dst_len op offset match_len = do {
     from \<leftarrow> ptr_add op (- int offset);
     if offset \<ge> 8 \<and> dst_len - op \<ge> match_len + 15
     then stride_loop copy8 8 dst op from (op + match_len)
     else if offset \<ge> 8 \<or> offset \<ge> match_len then chunk_loop dst op from match_len
     else if match_len \<le> 16 then byte_loop dst op from match_len
     else do { dst \<leftarrow> memcpy_within dst op from offset; double_copy dst op offset match_len } }"

section \<open>Their contract\<close>

text \<open>The byte-wise forward copy, one byte at a time at the end of the output.\<close>

primrec lz4_copy :: "nat \<Rightarrow> nat \<Rightarrow> byte list \<Rightarrow> byte list" where
  "lz4_copy offset 0 out = out"
| "lz4_copy offset (Suc n) out =
     (let o' = lz4_copy offset n out in o' @ [o' ! (length o' - offset)])"

lemma lz4_copy_periodic:
  assumes "0 < offset" and "offset \<le> length out"
  shows "lz4_copy offset n out =
    out @ map (\<lambda>j. out ! (length out - offset + j mod offset)) [0..<n]"
proof (induction n)
  case (Suc n)
  let ?f = "\<lambda>j. out ! (length out - offset + j mod offset)"
  have "(out @ map ?f [0..<n]) ! (length out + n - offset) = ?f n"
  proof (cases "n < offset")
    case True
    then have "length out + n - offset < length out" using assms by linarith
    then show ?thesis using assms True by (simp add: nth_append)
  next
    case False
    then have "length out + n - offset = length out + (n - offset)" by simp
    moreover have "(n - offset) mod offset = n mod offset" using False by (simp add: le_mod_geq)
    ultimately show ?thesis using assms False by (simp add: nth_append)
  qed
  then show ?case by (simp add: Suc.IH Let_def)
qed simp

lemma length_lz4_copy [simp]: "length (lz4_copy offset n out) = length out + n"
  by (induction n) (simp_all add: Let_def)

text \<open>
  The state of a copy: the bytes before \<open>op\<close> are those of \<open>d0\<close>, and those from \<open>op - off\<close> up to
  \<open>op + k\<close> have the period \<open>off\<close>.
\<close>

definition matched :: "byte list \<Rightarrow> nat \<Rightarrow> nat \<Rightarrow> nat \<Rightarrow> byte list \<Rightarrow> bool" where
  "matched d0 op off k d \<longleftrightarrow> length d = length d0 \<and> (\<forall>i<op. d ! i = d0 ! i) \<and>
     (\<forall>x<off + k. d ! (op - off + x) = d0 ! (op - off + x mod off))"

lemma matched_start: "off \<le> op \<Longrightarrow> matched d0 op off 0 d0"
  by (simp add: matched_def)

lemma matched_length: "matched d0 op off k d \<Longrightarrow> length d = length d0"
  by (simp add: matched_def)

lemma matched_mono: "matched d0 op off k d \<Longrightarrow> m \<le> k \<Longrightarrow> matched d0 op off m d"
  by (simp add: matched_def)

lemma matched_result:
  assumes "matched d0 op off k d" and "0 < off" and "off \<le> op" and "op + k \<le> length d0"
  shows "take (op + k) d = lz4_copy off k (take op d0)"
proof (rule nth_equalityI)
  show "length (take (op + k) d) = length (lz4_copy off k (take op d0))"
    using assms by (simp add: matched_length)
next
  fix i assume "i < length (take (op + k) d)"
  then have i: "i < op + k" by simp
  show "take (op + k) d ! i = lz4_copy off k (take op d0) ! i"
  proof (cases "i < op")
    case True
    then show ?thesis using assms i by (simp add: lz4_copy_periodic nth_append matched_def)
  next
    case False
    define j where "j = i - op"
    have j: "i = op - off + (off + j)" "off + j < off + k" using False i assms by (simp_all add: j_def)
    then have "d ! i = d0 ! (op - off + j mod off)"
      using assms(1) unfolding matched_def by (metis mod_add_self1)
    moreover have "op - off + j mod off < op" using assms by (simp add: less_diff_conv2)
    moreover have "i - op < k" using False i by simp
    ultimately show ?thesis using False i assms by (simp add: lz4_copy_periodic nth_append j_def)
  qed
qed

text \<open>
  The one step of all copies: \<open>n\<close> bytes from a distance \<open>D\<close> that is a multiple of the offset,
  not shorter than \<open>n\<close> and within the periodic part.
\<close>

lemma matched_memcpy:
  assumes m: "matched d0 op off k d"
    and D: "off dvd D" "0 < D" "D \<le> k + off" "n \<le> D" and op: "off \<le> op" "0 < off"
    and room: "op + k + n \<le> length d0" and pos: "to = op + k" "from + D = to"
  shows "\<exists>d'. memcpy_within d to from n = Some d' \<and> matched d0 op off (k + n) d'"
proof -
  have len: "length d = length d0" using m by (simp add: matched_length)
  have apart: "from + n \<le> to" using pos D by simp
  let ?d' = "take to d @ take n (drop from d) @ drop (to + n) d"
  have copy: "memcpy_within d to from n = Some ?d'"
    using apart room len pos by (simp add: memcpy_within_def mem_read_def mem_write_def)
  have old: "?d' ! i = d ! i" if "i < to" for i
    using that room len pos by (simp add: nth_append)
  have new: "?d' ! (to + i) = d ! (from + i)" if "i < n" for i
    using that room len pos apart by (simp add: nth_append)
  have "?d' ! (op - off + x) = d0 ! (op - off + x mod off)" if x: "x < off + (k + n)" for x
  proof (cases "x < off + k")
    case True
    then have "?d' ! (op - off + x) = d ! (op - off + x)" using op pos by (intro old) simp
    then show ?thesis using m True by (simp add: matched_def)
  next
    case False
    define i where "i = x - off - k"
    have i: "i < n" "x = off + k + i" using x False by (simp_all add: i_def)
    have at: "op - off + x = to + i" using i pos op by simp
    have xD: "D \<le> x" "x - D < off + k" using i D by simp_all
    have "from + i = op - off + (x - D)" using at pos D(3) i op by simp
    then have "?d' ! (op - off + x) = d ! (op - off + (x - D))" using new [OF i(1)] at by simp
    also have "\<dots> = d0 ! (op - off + (x - D) mod off)"
      using m xD(2) unfolding matched_def by blast
    also have "(x - D) mod off = x mod off"
    proof -
      obtain q where q: "D = off * q" using D(1) by blast
      have "x = (x - D) + off * q" using xD(1) q by simp
      then show ?thesis by (metis mod_mult_self2)
    qed
    finally show ?thesis .
  qed
  moreover have "\<forall>i<op. ?d' ! i = d0 ! i" using m old pos by (simp add: matched_def)
  moreover have "length ?d' = length d0" using room len pos apart by simp
  ultimately show ?thesis using copy unfolding matched_def by blast
qed

text \<open>The loops, each from this step.\<close>

lemma stride_loop_matched:
  assumes step: "\<And>d k to from. matched d0 op off k d \<Longrightarrow> op + k + s \<le> length d0 \<Longrightarrow> to = op + k \<Longrightarrow>
      from + D = to \<Longrightarrow> D \<le> k + off \<Longrightarrow> \<exists>d'. copy d to from = Some d' \<and> matched d0 op off (k + s) d'"
    and s: "0 < s" and stop: "stop + s \<le> length d0 + 1"
  shows "matched d0 op off k d \<Longrightarrow> op + k + s \<le> length d0 \<Longrightarrow> to = op + k \<Longrightarrow> from + D = to \<Longrightarrow>
    D \<le> k + off \<Longrightarrow> \<exists>d' k'. stride_loop copy s d to from stop = Some d' \<and> stop \<le> op + k' \<and> matched d0 op off k' d'"
proof (induction "stop - to" arbitrary: k d to "from" rule: less_induct)
  case less
  obtain d' where d': "copy d to from = Some d'" "matched d0 op off (k + s) d'"
    using step [OF less.prems] by blast
  show ?case
  proof (cases "to + s < stop")
    case True
    have "\<exists>e k'. stride_loop copy s d' (to + s) (from + s) stop = Some e \<and> stop \<le> op + k' \<and> matched d0 op off k' e"
      using True s stop less.prems by (intro less.hyps [OF _ d'(2)]) simp_all
    then show ?thesis using d' True by (subst stride_loop.simps) simp
  next
    case False
    then show ?thesis using d' less.prems(3) by (subst stride_loop.simps) (auto intro!: exI [of _ "k + s"])
  qed
qed

lemma copy8_matched:
  assumes "off dvd D" and "8 \<le> D" and "off \<le> op" "0 < off"
  shows "matched d0 op off k d \<Longrightarrow> op + k + 8 \<le> length d0 \<Longrightarrow> to = op + k \<Longrightarrow> from + D = to \<Longrightarrow>
    D \<le> k + off \<Longrightarrow> \<exists>d'. copy8 d to from = Some d' \<and> matched d0 op off (k + 8) d'"
  using assms unfolding copy8_def by (intro matched_memcpy) simp_all

lemma copy16_matched:
  assumes "16 \<le> off" and "off \<le> op"
  shows "matched d0 op off k d \<Longrightarrow> op + k + 16 \<le> length d0 \<Longrightarrow> to = op + k \<Longrightarrow> from + off = to \<Longrightarrow>
    off \<le> k + off \<Longrightarrow> \<exists>d'. copy16 d to from = Some d' \<and> matched d0 op off (k + 16) d'"
  using assms unfolding copy16_def by (intro matched_memcpy) simp_all

lemma copy32_matched:
  assumes "32 \<le> off" and "off \<le> op" and m: "matched d0 op off k d" "op + k + 32 \<le> length d0"
    and pos: "to = op + k" "from + off = to"
  shows "\<exists>d'. copy32 d to from = Some d' \<and> matched d0 op off (k + 32) d'"
proof -
  obtain d' where d': "memcpy_within d to from 16 = Some d'" "matched d0 op off (k + 16) d'"
    using matched_memcpy [OF m(1), of off 16 to "from"] assms by auto
  from matched_memcpy [OF this(2), of off 16 "to + 16" "from + 16"] d'(1) assms
  show ?thesis by (auto simp: copy32_def ac_simps)
qed

lemma double_loop_matched:
  "matched d0 op off g d \<Longrightarrow> off dvd g \<Longrightarrow> 0 < g \<Longrightarrow> g \<le> m \<Longrightarrow> op + m \<le> length d0 \<Longrightarrow> off \<le> op \<Longrightarrow>
   \<exists>d' g'. double_loop d op g m = Some (d', g') \<and> matched d0 op off g' d' \<and> off dvd g' \<and> 0 < g' \<and>
     g' \<le> m \<and> m < 2 * g'"
proof (induction "m - g" arbitrary: g d rule: less_induct)
  case less
  have off: "0 < off" using less.prems(2,3) by (auto intro: dvd_pos_nat)
  show ?case
  proof (cases "g * 2 \<le> m")
    case True
    obtain d' where d': "memcpy_within d (op + g) op g = Some d'" "matched d0 op off (g + g) d'"
      using matched_memcpy [OF less.prems(1), of g g "op + g" op] less.prems off True by auto
    have "\<exists>e g'. double_loop d' op (g * 2) m = Some (e, g') \<and> matched d0 op off g' e \<and> off dvd g' \<and> 0 < g' \<and>
        g' \<le> m \<and> m < 2 * g'"
      using d'(2) True less.prems by (intro less.hyps) (simp_all add: mult_2_right)
    then show ?thesis using d' True by (subst double_loop.simps) simp
  next
    case False
    then show ?thesis using less.prems by (subst double_loop.simps) auto
  qed
qed

lemma double_copy_matched:
  assumes "matched d0 op off g d" and "off dvd g" and "0 < g" and "g \<le> m" and "op + m \<le> length d0" and "off \<le> op"
  shows "\<exists>d'. double_copy d op g m = Some d' \<and> matched d0 op off m d'"
proof -
  have off: "0 < off" using assms(2,3) by (auto intro: dvd_pos_nat)
  obtain d' g' where g: "double_loop d op g m = Some (d', g')" "matched d0 op off g' d'" "off dvd g'" "0 < g'"
    "g' \<le> m" "m < 2 * g'"
    using double_loop_matched [OF assms] by blast
  then show ?thesis
    using matched_memcpy [OF g(2), of g' "m - g'" "op + g'" op] assms(5,6) off
    by (cases "g' < m") (auto simp: double_copy_def)
qed

lemma byte_loop_matched:
  assumes "off \<le> op" and "0 < off"
  shows "matched d0 op off k d \<Longrightarrow> op + k + n \<le> length d0 \<Longrightarrow> to = op + k \<Longrightarrow> from + off = to \<Longrightarrow>
    \<exists>d'. byte_loop d to from n = Some d' \<and> matched d0 op off (k + n) d'"
proof (induction n arbitrary: k d to "from")
  case (Suc n)
  have len: "length d = length d0" using Suc.prems(1) by (rule matched_length)
  obtain d' where d': "memcpy_within d to from 1 = Some d'" "matched d0 op off (k + 1) d'"
    using matched_memcpy [OF Suc.prems(1), of off 1 to "from"] assms Suc.prems by auto
  have "from < length d" "to < length d" "from < to" using Suc.prems assms len by simp_all
  then have "d' = d[to := d ! from]"
    using d'(1) by (auto simp: memcpy_within_def mem_read_def mem_write_def upd_conv_take_nth_drop take_Suc_conv_app_nth hd_drop_conv_nth take_Suc split: if_splits)
  then show ?case
    using Suc.IH [OF d'(2), of "Suc to" "Suc from"] Suc.prems assms len by (auto simp: buf_simps)
qed auto

lemma chunk_loop_matched:
  assumes "off \<le> op" and "0 < off"
  shows "matched d0 op off k d \<Longrightarrow> op + k + n \<le> length d0 \<Longrightarrow> to = op + k \<Longrightarrow> from + off = to \<Longrightarrow>
    8 \<le> off \<or> n < 8 \<Longrightarrow> \<exists>d'. chunk_loop d to from n = Some d' \<and> matched d0 op off (k + n) d'"
proof (induction n arbitrary: k d to "from" rule: less_induct)
  case (less n)
  show ?case
  proof (cases "8 \<le> n")
    case True
    obtain d' where d': "memcpy_within d to from 8 = Some d'" "matched d0 op off (k + 8) d'"
      using matched_memcpy [OF less.prems(1), of off 8 to "from"] assms less.prems True by auto
    have "\<exists>e. chunk_loop d' (to + 8) (from + 8) (n - 8) = Some e \<and> matched d0 op off (k + 8 + (n - 8)) e"
      using d'(2) True less.prems by (intro less.IH) auto
    then show ?thesis using d' True by (subst chunk_loop.simps) simp
  next
    case False
    then show ?thesis
      using byte_loop_matched [OF assms less.prems(1-4)] by (subst chunk_loop.simps) simp
  qed
qed

text \<open>The three match copies.\<close>

lemma stride_copy_matched:
  assumes "matched d0 op off k d" and "off dvd D" and "8 \<le> D" and "off \<le> op" and "0 < off"
    and "to = op + k" and "from + D = to" and "D \<le> k + off" and "op + k + 8 \<le> length d0"
    and "op + m + 7 \<le> length d0"
  shows "\<exists>d'. stride_loop copy8 8 d to from (op + m) = Some d' \<and> matched d0 op off m d'"
proof -
  have "\<exists>d' k'. stride_loop copy8 8 d to from (op + m) = Some d' \<and> op + m \<le> op + k' \<and> matched d0 op off k' d'"
    by (rule stride_loop_matched [OF copy8_matched [OF assms(2,3,4,5)] _ _ assms(1)]) (use assms in simp_all)
  then show ?thesis by (auto intro: matched_mono)
qed

lemma memset_matched:
  assumes "1 \<le> op" and "op + m \<le> length d0"
  shows "\<exists>d'. mem_write d0 op (replicate m (d0 ! (op - 1))) = Some d' \<and> matched d0 op 1 m d'"
proof -
  let ?d = "take op d0 @ replicate m (d0 ! (op - 1)) @ drop (op + m) d0"
  have "?d ! (op - 1 + x) = d0 ! (op - 1)" if "x < 1 + m" for x
    using that assms by (cases x) (simp_all add: nth_append)
  then show ?thesis using assms by (auto simp: mem_write_def matched_def nth_append)
qed

text \<open>The tables re-seat the source at a distance that is a multiple of the offset.\<close>

lemma blind_distances:
  assumes "2 \<le> off" "off < 8" "off \<le> op"
  shows "\<exists>f f' D D'. arr_get inc32 off = Some (int f) \<and> arr_get dec64 off = Some (int (op - off + f) - int f') \<and>
    op - off + f + D = op + 4 \<and> off dvd D \<and> 4 \<le> D \<and> D \<le> 4 + off \<and>
    f' + D' = op + 8 \<and> off dvd D' \<and> 8 \<le> D' \<and> D' \<le> 8 + off"
proof -
  consider "off = 2" | "off = 3" | "off = 4" | "off = 5" | "off = 6" | "off = 7" using assms by linarith
  then show ?thesis
  proof cases
    case 1 then show ?thesis using assms(3)
      by (intro exI [of _ 2] exI [of _ op] exI [of _ 4] exI [of _ 8]) (simp add: arr_get_def inc32_def dec64_def)
  next
    case 2 then show ?thesis using assms(3)
      by (intro exI [of _ 1] exI [of _ "op - 1"] exI [of _ 6] exI [of _ 9]) (simp add: arr_get_def inc32_def dec64_def)
  next
    case 3 then show ?thesis using assms(3)
      by (intro exI [of _ 0] exI [of _ op] exI [of _ 8] exI [of _ 8]) (simp add: arr_get_def inc32_def dec64_def)
  next
    case 4 then show ?thesis using assms(3)
      by (intro exI [of _ 4] exI [of _ "op - 2"] exI [of _ 5] exI [of _ 10]) (simp add: arr_get_def inc32_def dec64_def)
  next
    case 5 then show ?thesis using assms(3)
      by (intro exI [of _ 4] exI [of _ "op - 4"] exI [of _ 6] exI [of _ 12]) (simp add: arr_get_def inc32_def dec64_def)
  next
    case 6 then show ?thesis using assms(3)
      by (intro exI [of _ 4] exI [of _ "op - 6"] exI [of _ 7] exI [of _ 14]) (simp add: arr_get_def inc32_def dec64_def)
  qed
qed

lemma rlz4_copy_match_blind_matched:
  assumes "0 < off" "off < 8" "off \<le> op" "op + 8 \<le> length d0" "op + m + 7 \<le> length d0"
  shows "\<exists>d'. rlz4_copy_match_blind d0 op (op - off) m off = Some d' \<and> matched d0 op off m d'"
proof (cases "off = 1")
  case True
  then show ?thesis using memset_matched [of op m d0] assms
    by (simp add: rlz4_copy_match_blind_def buf_simps)
next
  case False
  then have off: "2 \<le> off" using assms by simp
  obtain f f' D D' where D: "arr_get inc32 off = Some (int f)" "arr_get dec64 off = Some (int (op - off + f) - int f')"
    "op - off + f + D = op + 4" "off dvd D" "4 \<le> D" "D \<le> 4 + off"
    "f' + D' = op + 8" "off dvd D'" "8 \<le> D'" "D' \<le> 8 + off"
    using blind_distances [OF off assms(2,3)] by blast
  obtain d1 where d1: "memcpy_within d0 op (op - off) 2 = Some d1" "matched d0 op off (0 + 2) d1"
    using matched_memcpy [OF matched_start [OF assms(3), of d0], of off 2 op "op - off"] assms off by auto
  obtain d2 where d2: "memcpy_within d1 (op + 2) (op - off + 2) 2 = Some d2" "matched d0 op off (0 + 2 + 2) d2"
    using matched_memcpy [OF d1(2), of off 2 "op + 2" "op - off + 2"] assms off by auto
  obtain d3 where d3: "memcpy_within d2 (op + 4) (op - off + f) 4 = Some d3" "matched d0 op off (0 + 2 + 2 + 4) d3"
    using matched_memcpy [OF d2(2), of D 4 "op + 4" "op - off + f"] assms off D by auto
  have p: "ptr_add (op - off) (int f) = Some (op - off + f)"
    "ptr_add (op - off + f) (- (int (op - off + f) - int f')) = Some f'"
    by (simp_all add: ptr_add_def nat_int_add)
  have "\<exists>d'. (if op + 8 < op + m then stride_loop copy8 8 d3 (op + 8) f' (op + m) else Some d3) = Some d' \<and>
      matched d0 op off m d'"
  proof (cases "8 < m")
    case True
    then show ?thesis
      using stride_copy_matched [OF d3(2) D(8,9), of "op + 8" f' m] assms D off by simp
  next
    case False
    then show ?thesis using d3(2) by (auto intro: matched_mono)
  qed
  then show ?thesis
    using d1 d2 d3 D(1,2) p False assms(2) by (simp add: rlz4_copy_match_blind_def Let_def del: of_nat_add)
qed

lemma double_from_start:
  assumes "0 < off" "off \<le> op" "off < m" "op + m \<le> length d0"
  shows "\<exists>d1 d'. memcpy_within d0 op (op - off) off = Some d1 \<and> double_copy d1 op off m = Some d' \<and> matched d0 op off m d'"
proof -
  obtain d1 where d1: "memcpy_within d0 op (op - off) off = Some d1" "matched d0 op off (0 + off) d1"
    using matched_memcpy [OF matched_start [OF assms(2), of d0], of off off op "op - off"] assms by auto
  then show ?thesis using double_copy_matched [of d0 op off off d1 m] assms by auto
qed

lemma rlz4_copy_match_exact_matched:
  assumes "0 < off" "off \<le> op" "op + m \<le> length d0" "0 < m \<or> op = length d0"
  shows "\<exists>d'. rlz4_copy_match_exact d0 (length d0) op off m = Some d' \<and> matched d0 op off m d'"
proof -
  note start = matched_start [OF assms(2), of d0]
  have p: "ptr_add op (- int off) = Some (op - off)" using assms(2) by (simp add: ptr_add_def nat_diff_distrib flip: of_nat_diff)
  consider (c32) "off \<ge> 32" "length d0 - op \<ge> m + 31"
    | (c16) "\<not> (off \<ge> 32 \<and> length d0 - op \<ge> m + 31)" "off \<ge> 16" "length d0 - op \<ge> m + 15"
    | (c8) "\<not> (off \<ge> 32 \<and> length d0 - op \<ge> m + 31)" "\<not> (off \<ge> 16 \<and> length d0 - op \<ge> m + 15)" "off \<ge> 8" "length d0 - op \<ge> m + 15"
    | (all) "\<not> (off \<ge> 32 \<and> length d0 - op \<ge> m + 31)" "\<not> (off \<ge> 16 \<and> length d0 - op \<ge> m + 15)" "\<not> (off \<ge> 8 \<and> length d0 - op \<ge> m + 15)"
    by blast
  then show ?thesis
  proof cases
    case c32
    then have m: "0 < m" using assms(4) by auto
    have "\<exists>d' k'. stride_loop copy32 32 d0 op (op - off) (op + m) = Some d' \<and> op + m \<le> op + k' \<and> matched d0 op off k' d'"
      by (rule stride_loop_matched [OF copy32_matched _ _ start, where D = off]) (use assms c32 m in simp_all)
    then show ?thesis using c32 by (auto simp: rlz4_copy_match_exact_def p intro: matched_mono)
  next
    case c16
    then have m: "0 < m" using assms(4) by auto
    have "\<exists>d' k'. stride_loop copy16 16 d0 op (op - off) (op + m) = Some d' \<and> op + m \<le> op + k' \<and> matched d0 op off k' d'"
      by (rule stride_loop_matched [OF copy16_matched _ _ start, where D = off]) (use assms c16 m in simp_all)
    then show ?thesis using c16 by (simp add: rlz4_copy_match_exact_def p) (auto intro: matched_mono)
  next
    case c8
    then show ?thesis using stride_copy_matched [OF start dvd_refl, of op "op - off" m] assms
      by (simp add: rlz4_copy_match_exact_def p)
  next
    case all
    show ?thesis
    proof (cases "off < m")
      case True
      then show ?thesis using double_from_start [OF assms(1,2) True assms(3)] all
        by (auto simp: rlz4_copy_match_exact_def p Let_def)
    next
      case False
      have "\<exists>d'. memcpy_within d0 op (op - off) m = Some d' \<and> matched d0 op off (0 + m) d'"
        using False assms by (intro matched_memcpy [OF start dvd_refl]) simp_all
      then show ?thesis using False all by (auto simp: rlz4_copy_match_exact_def p Let_def)
    qed
  qed
qed

lemma rlz4_copy_match_tail_matched:
  assumes "0 < off" "off \<le> op" "op + m \<le> length d0"
  shows "\<exists>d'. rlz4_copy_match_tail d0 (length d0) op off m = Some d' \<and> matched d0 op off m d'"
proof -
  note start = matched_start [OF assms(2), of d0]
  have p: "ptr_add op (- int off) = Some (op - off)" using assms(2) by (simp add: ptr_add_def nat_diff_distrib flip: of_nat_diff)
  consider (c8) "off \<ge> 8" "length d0 - op \<ge> m + 15"
    | (chunk) "\<not> (off \<ge> 8 \<and> length d0 - op \<ge> m + 15)" "off \<ge> 8 \<or> off \<ge> m"
    | (byte) "\<not> (off \<ge> 8 \<and> length d0 - op \<ge> m + 15)" "\<not> (off \<ge> 8 \<or> off \<ge> m)" "m \<le> 16"
    | (all) "\<not> (off \<ge> 8 \<and> length d0 - op \<ge> m + 15)" "\<not> (off \<ge> 8 \<or> off \<ge> m)" "\<not> m \<le> 16"
    by blast
  then show ?thesis
  proof cases
    case c8
    then show ?thesis using stride_copy_matched [OF start dvd_refl, of op "op - off" m] assms
      by (simp add: rlz4_copy_match_tail_def p)
  next
    case chunk
    have "\<exists>d'. chunk_loop d0 op (op - off) m = Some d' \<and> matched d0 op off (0 + m) d'"
      using chunk assms by (intro chunk_loop_matched [OF assms(2,1) start]) auto
    then show ?thesis using chunk by (auto simp: rlz4_copy_match_tail_def p)
  next
    case byte
    have "\<exists>d'. byte_loop d0 op (op - off) m = Some d' \<and> matched d0 op off (0 + m) d'"
      using byte assms by (intro byte_loop_matched [OF assms(2,1) start]) auto
    then show ?thesis using byte by (simp add: rlz4_copy_match_tail_def p)
  next
    case all
    then show ?thesis using double_from_start [OF assms(1,2) _ assms(3)]
      by (auto simp: rlz4_copy_match_tail_def p Let_def not_le)
  qed
qed

end
