(* ===== verification/Lz4.thy ===== *)
theory Lz4
  imports Lz4Copy
begin

text \<open>
  \<open>encodings/encoding_rlz4.c\<close>: the decoder of LZ4 blocks with its fast loop, its careful loop and
  its stop rules. The buffers \<open>dst\<close> and \<open>src\<close> do not overlap. Sizes are naturals; sums and
  differences that the code does not bound by a comparison are taken modulo \<open>2 ^ 64\<close>.
\<close>

section \<open>The code\<close>

definition RLZ4_ERROR_PARAM :: int where "RLZ4_ERROR_PARAM = -1"
definition RLZ4_ERROR_TRUNCATED :: int where "RLZ4_ERROR_TRUNCATED = -2"
definition RLZ4_ERROR_OFFSET :: int where "RLZ4_ERROR_OFFSET = -3"

definition size_add :: "nat \<Rightarrow> nat \<Rightarrow> nat" where
  "size_add a b = (a + b) mod 2 ^ 64"

definition size_sub :: "nat \<Rightarrow> nat \<Rightarrow> nat" where
  "size_sub a b = (a + 2 ^ 64 - b) mod 2 ^ 64"

definition int64 :: "nat \<Rightarrow> int" where
  "int64 n = (if n < 2 ^ 63 then int n else int n - 2 ^ 64)"

text \<open>The value 0 of the C function is \<open>Some None\<close>.\<close>

function rlz4_extend :: "byte list \<Rightarrow> nat \<Rightarrow> nat \<Rightarrow> nat \<Rightarrow> (nat \<times> nat) option option" where
  "rlz4_extend src limit pos len =
     (if limit \<le> pos then Some None
      else do {
        b \<leftarrow> arr_get src pos;
        let len = size_add len (unat b);
        if b = 255 then rlz4_extend src limit (pos + 1) len else Some (Some (pos + 1, len)) })"
  by pat_completeness auto
termination by (relation "measure (\<lambda>(src, limit, pos, len). limit - pos)") auto

declare rlz4_extend.simps [simp del]

text \<open>What a piece of the loops does: return from the decoder, or go on with new cursors.\<close>

datatype outcome = Return int "byte list" | Continue nat nat "byte list"

text \<open>The two offset reads: a 16-bit load, and two bytes put together.\<close>

definition load_off16 :: "byte list \<Rightarrow> nat \<Rightarrow> nat option" where
  "load_off16 src ip = do {
     bs \<leftarrow> mem_read src ip 2;
     Some (unat (bs ! 0) + 256 * unat (bs ! 1)) }"

definition load_offset :: "byte list \<Rightarrow> nat \<Rightarrow> nat option" where
  "load_offset src ip = do {
     lo \<leftarrow> arr_get src ip;
     hi \<leftarrow> arr_get src (ip + 1);
     Some (unat ((ucast lo :: size_t) OR push_bit 8 (ucast hi))) }"

text \<open>The match length, with its extension; \<open>Some None\<close> when that is cut short.\<close>

definition rlz4_match_len :: "byte list \<Rightarrow> nat \<Rightarrow> byte \<Rightarrow> nat \<Rightarrow> (nat \<times> nat) option option" where
  "rlz4_match_len src src_len token ip = do {
     let match_len = unat (token AND 15);
     r \<leftarrow> (if match_len = 15
          then rlz4_extend src (if src_len \<ge> 6 then src_len - 6 else 0) ip match_len
          else Some (Some (ip, match_len)));
     Some (map_option (\<lambda>(ip, match_len). (ip, size_add match_len 4)) r) }"

text \<open>The exact copy of literals, with its stop rules.\<close>

definition rlz4_literals :: "byte list \<Rightarrow> nat \<Rightarrow> nat \<Rightarrow> byte list \<Rightarrow> nat \<Rightarrow> nat \<Rightarrow> nat \<Rightarrow> outcome option" where
  "rlz4_literals dst dst_len op src src_len ip lit_len = do {
     let avail = size_sub src_len ip;
     let (emit, in_short) = (if lit_len > avail then (avail, True) else (lit_len, False));
     if emit > size_sub dst_len op
     then do {
       bs \<leftarrow> mem_read src ip (size_sub dst_len op);
       dst \<leftarrow> mem_write dst op bs;
       Some (Return (int64 dst_len) dst) }
     else do {
       bs \<leftarrow> mem_read src ip emit;
       dst \<leftarrow> mem_write dst op bs;
       let op = op + emit;
       let ip = ip + emit;
       Some (if in_short then Return (int64 op) dst else Continue ip op dst) } }"

text \<open>The end of every exact match: clamp the length, copy, stop when the output is full.\<close>

definition rlz4_clamped_match ::
  "(byte list \<Rightarrow> nat \<Rightarrow> nat \<Rightarrow> nat \<Rightarrow> nat \<Rightarrow> byte list option) \<Rightarrow>
   byte list \<Rightarrow> nat \<Rightarrow> nat \<Rightarrow> nat \<Rightarrow> nat \<Rightarrow> nat \<Rightarrow> outcome option" where
  "rlz4_clamped_match copy dst dst_len op ip offset match_len = do {
     let match_len = (if match_len > size_sub dst_len op then size_sub dst_len op else match_len);
     dst \<leftarrow> copy dst dst_len op offset match_len;
     let op = op + match_len;
     Some (if op = dst_len then Return (int64 op) dst else Continue ip op dst) }"

text \<open>The match behind long literals in the fast loop.\<close>

definition rlz4_fast_long_match :: "byte list \<Rightarrow> nat \<Rightarrow> nat \<Rightarrow> byte list \<Rightarrow> nat \<Rightarrow> nat \<Rightarrow> byte \<Rightarrow> outcome option" where
  "rlz4_fast_long_match dst dst_len op src src_len ip token =
     (if size_sub src_len ip \<le> 2 then Some (Return (int64 op) dst)
      else do {
        offset \<leftarrow> load_off16 src ip;
        let ip = ip + 2;
        if size_sub offset 1 \<ge> op then Some (Return RLZ4_ERROR_OFFSET dst)
        else do {
          r \<leftarrow> rlz4_match_len src src_len token ip;
          case r of
            None \<Rightarrow> Some (Return RLZ4_ERROR_TRUNCATED dst)
          | Some (ip, match_len) \<Rightarrow>
              rlz4_clamped_match rlz4_copy_match_exact dst dst_len op ip offset match_len } })"

text \<open>A sequence with short literals in the fast loop: the stripe, the offset, the match.\<close>

definition rlz4_short_match :: "byte list \<Rightarrow> nat \<Rightarrow> nat \<Rightarrow> nat \<Rightarrow> byte list option" where
  "rlz4_short_match dst op offset match_len = do {
     from \<leftarrow> ptr_add op (- int offset);
     if offset \<ge> 8
     then do {
       dst \<leftarrow> memcpy_within dst op from 8;
       dst \<leftarrow> memcpy_within dst (op + 8) (from + 8) 8;
       memcpy_within dst (op + 16) (from + 16) 2 }
     else rlz4_copy_match_blind dst op from match_len offset }"

definition rlz4_fast_short :: "byte list \<Rightarrow> nat \<Rightarrow> nat \<Rightarrow> byte list \<Rightarrow> nat \<Rightarrow> nat \<Rightarrow> byte \<Rightarrow> nat \<Rightarrow> outcome option" where
  "rlz4_fast_short dst dst_len op src src_len ip token lit_len = do {
     bs \<leftarrow> mem_read src ip 16;
     dst \<leftarrow> mem_write dst op bs;
     let op = op + lit_len;
     let ip = ip + lit_len;
     offset \<leftarrow> load_off16 src ip;
     let ip = ip + 2;
     if size_sub offset 1 \<ge> op then Some (Return RLZ4_ERROR_OFFSET dst)
     else if token AND 15 \<noteq> 15
     then do {
       let match_len = unat (token AND 15) + 4;
       dst \<leftarrow> rlz4_short_match dst op offset match_len;
       Some (Continue ip (op + match_len) dst) }
     else do {
       r \<leftarrow> rlz4_match_len src src_len token ip;
       case r of
         None \<Rightarrow> Some (Return RLZ4_ERROR_TRUNCATED dst)
       | Some (ip, match_len) \<Rightarrow>
           if offset \<ge> 32 \<and> size_add match_len 31 \<le> size_sub dst_len op
           then do {
             from \<leftarrow> ptr_add op (- int offset);
             dst \<leftarrow> stride_loop copy32 32 dst op from (op + match_len);
             Some (Continue ip (op + match_len) dst) }
           else rlz4_clamped_match rlz4_copy_match_exact dst dst_len op ip offset match_len } }"

definition rlz4_fast_step :: "byte list \<Rightarrow> nat \<Rightarrow> nat \<Rightarrow> byte list \<Rightarrow> nat \<Rightarrow> nat \<Rightarrow> outcome option" where
  "rlz4_fast_step dst dst_len op src src_len ip = do {
     token \<leftarrow> arr_get src ip;
     let ip = ip + 1;
     let lit_len = unat (drop_bit 4 token);
     if lit_len < 15 then rlz4_fast_short dst dst_len op src src_len ip token lit_len
     else do {
       r \<leftarrow> rlz4_extend src (src_len - 15) ip lit_len;
       case r of
         None \<Rightarrow> Some (Return RLZ4_ERROR_TRUNCATED dst)
       | Some (ip, lit_len) \<Rightarrow> do {
           s \<leftarrow> rlz4_literals dst dst_len op src src_len ip lit_len;
           case s of
             Return v dst \<Rightarrow> Some (Return v dst)
           | Continue ip op dst \<Rightarrow> rlz4_fast_long_match dst dst_len op src src_len ip token } } }"

partial_function (option) rlz4_fast_loop ::
  "byte list \<Rightarrow> nat \<Rightarrow> nat \<Rightarrow> nat \<Rightarrow> nat \<Rightarrow> byte list \<Rightarrow> outcome option" where
  "rlz4_fast_loop src src_len dst_len ip op dst =
     (if ip < src_len - 64 \<and> op < dst_len - 64
      then do {
        s \<leftarrow> rlz4_fast_step dst dst_len op src src_len ip;
        case s of
          Return v dst \<Rightarrow> Some (Return v dst)
        | Continue ip op dst \<Rightarrow> rlz4_fast_loop src src_len dst_len ip op dst }
      else Some (Continue ip op dst))"

text \<open>The careful loop.\<close>

fun literal_bytes :: "byte list \<Rightarrow> nat \<Rightarrow> byte list \<Rightarrow> nat \<Rightarrow> nat \<Rightarrow> byte list option" where
  "literal_bytes dst to src from 0 = Some dst"
| "literal_bytes dst to src from (Suc n) = do {
     b \<leftarrow> arr_get src from;
     dst \<leftarrow> arr_set dst to b;
     literal_bytes dst (Suc to) src (Suc from) n }"

definition rlz4_tail_literals :: "byte list \<Rightarrow> nat \<Rightarrow> nat \<Rightarrow> byte list \<Rightarrow> nat \<Rightarrow> nat \<Rightarrow> nat \<Rightarrow> outcome option" where
  "rlz4_tail_literals dst dst_len op src src_len ip lit_len =
     (if lit_len \<noteq> 0 \<and> lit_len \<le> 16 \<and> lit_len \<le> size_sub src_len ip \<and> lit_len \<le> size_sub dst_len op
      then do {
        dst \<leftarrow> literal_bytes dst op src ip lit_len;
        Some (Continue (ip + lit_len) (op + lit_len) dst) }
      else rlz4_literals dst dst_len op src src_len ip lit_len)"

definition rlz4_tail_match :: "byte list \<Rightarrow> nat \<Rightarrow> nat \<Rightarrow> byte list \<Rightarrow> nat \<Rightarrow> nat \<Rightarrow> byte \<Rightarrow> outcome option" where
  "rlz4_tail_match dst dst_len op src src_len ip token =
     (if size_sub src_len ip \<le> 2 then Some (Return (int64 op) dst)
      else if size_sub src_len ip < 2 then Some (Return RLZ4_ERROR_TRUNCATED dst)
      else do {
        offset \<leftarrow> load_offset src ip;
        let ip = ip + 2;
        if size_sub offset 1 \<ge> op then Some (Return RLZ4_ERROR_OFFSET dst)
        else do {
          r \<leftarrow> rlz4_match_len src src_len token ip;
          case r of
            None \<Rightarrow> Some (Return RLZ4_ERROR_TRUNCATED dst)
          | Some (ip, match_len) \<Rightarrow>
              rlz4_clamped_match rlz4_copy_match_tail dst dst_len op ip offset match_len } })"

definition rlz4_tail_step :: "byte list \<Rightarrow> nat \<Rightarrow> nat \<Rightarrow> byte list \<Rightarrow> nat \<Rightarrow> nat \<Rightarrow> outcome option" where
  "rlz4_tail_step dst dst_len op src src_len ip =
     (if ip \<ge> src_len then Some (Return (int64 op) dst)
      else do {
        token \<leftarrow> arr_get src ip;
        let ip = ip + 1;
        let lit_len = unat (drop_bit 4 token);
        r \<leftarrow> (if lit_len = 15
             then rlz4_extend src (if src_len \<ge> 15 then src_len - 15 else 0) ip lit_len
             else Some (Some (ip, lit_len)));
        case r of
          None \<Rightarrow> Some (Return RLZ4_ERROR_TRUNCATED dst)
        | Some (ip, lit_len) \<Rightarrow> do {
            s \<leftarrow> rlz4_tail_literals dst dst_len op src src_len ip lit_len;
            case s of
              Return v dst \<Rightarrow> Some (Return v dst)
            | Continue ip op dst \<Rightarrow> rlz4_tail_match dst dst_len op src src_len ip token } })"

partial_function (option) rlz4_tail_loop ::
  "byte list \<Rightarrow> nat \<Rightarrow> nat \<Rightarrow> nat \<Rightarrow> nat \<Rightarrow> byte list \<Rightarrow> (int \<times> byte list) option" where
  "rlz4_tail_loop src src_len dst_len ip op dst = do {
     s \<leftarrow> rlz4_tail_step dst dst_len op src src_len ip;
     case s of
       Return v dst \<Rightarrow> Some (v, dst)
     | Continue ip op dst \<Rightarrow> rlz4_tail_loop src src_len dst_len ip op dst }"

text \<open>The decoder; a pointer that may be \<open>NULL\<close> is an option, and the output is the buffer left.\<close>

definition rlz4_decode :: "byte list option \<Rightarrow> nat \<Rightarrow> byte list option \<Rightarrow> nat \<Rightarrow> (int \<times> byte list) option" where
  "rlz4_decode dst dst_len src src_len =
     (let d = (case dst of None \<Rightarrow> [] | Some d \<Rightarrow> d) in
      if src_len = 0 then Some (0, d)
      else case src of
        None \<Rightarrow> Some (RLZ4_ERROR_PARAM, d)
      | Some src \<Rightarrow>
          if dst = None \<and> dst_len \<noteq> 0 then Some (RLZ4_ERROR_PARAM, d)
          else do {
            s \<leftarrow> (if src_len \<ge> 64 \<and> dst_len \<ge> 64
                 then rlz4_fast_loop src src_len dst_len 0 0 d
                 else Some (Continue 0 0 d));
            case s of
              Return v d \<Rightarrow> Some (v, d)
            | Continue ip op d \<Rightarrow> rlz4_tail_loop src src_len dst_len ip op d })"

section \<open>The block format\<close>

text \<open>
  What a block means, on lists: the output so far and the input that remains. Sequences are those of
  the format; where to stop is decided as in the code: at the end of the input, when literals are cut
  short (with the literals that are there), when the output is full, and when fewer than three bytes
  follow the literals. The bytes of a length may not reach the last 15 (literals) or 6 (match) bytes
  of the input. \<open>rlz4.h\<close> says of a block that ends inside a sequence that it decodes to its longest
  prefix of whole sequences, which the code does not do.
\<close>

datatype lz4_result = Decoded "byte list" | Failed int

datatype lz4_step = Stop lz4_result | More "byte list" "byte list"

fun lz4_extend :: "nat \<Rightarrow> nat \<Rightarrow> byte list \<Rightarrow> (nat \<times> byte list) option" where
  "lz4_extend margin n [] = None"
| "lz4_extend margin n (b # r) =
     (if length r < margin then None
      else if b = 255 then lz4_extend margin (n + 255) r else Some (n + unat b, r))"

definition lz4_length :: "nat \<Rightarrow> nat \<Rightarrow> byte list \<Rightarrow> (nat \<times> byte list) option" where
  "lz4_length margin n r = (if n = 15 then lz4_extend margin n r else Some (n, r))"

definition lz4_literals :: "nat \<Rightarrow> byte list \<Rightarrow> nat \<Rightarrow> byte list \<Rightarrow> lz4_step" where
  "lz4_literals cap out n r =
     (if min n (length r) > cap - length out then Stop (Decoded (out @ take (cap - length out) r))
      else if length r < n then Stop (Decoded (out @ r))
      else More (out @ take n r) (drop n r))"

fun lz4_match :: "nat \<Rightarrow> byte list \<Rightarrow> byte \<Rightarrow> byte list \<Rightarrow> lz4_step" where
  "lz4_match cap out token (lo # hi # x # r) =
     (let offset = unat lo + 256 * unat hi in
      if offset = 0 \<or> length out < offset then Stop (Failed RLZ4_ERROR_OFFSET)
      else case lz4_length 6 (unat (token AND 15)) (x # r) of
        None \<Rightarrow> Stop (Failed RLZ4_ERROR_TRUNCATED)
      | Some (m, r) \<Rightarrow>
          let out = lz4_copy offset (min (m + 4) (cap - length out)) out in
          if length out = cap then Stop (Decoded out) else More out r)"
| "lz4_match cap out token r = Stop (Decoded out)"

fun lz4_sequence :: "nat \<Rightarrow> byte list \<Rightarrow> byte list \<Rightarrow> lz4_step" where
  "lz4_sequence cap out [] = Stop (Decoded out)"
| "lz4_sequence cap out (token # r) =
     (case lz4_length 15 (unat (drop_bit 4 token)) r of
        None \<Rightarrow> Stop (Failed RLZ4_ERROR_TRUNCATED)
      | Some (n, r) \<Rightarrow>
          (case lz4_literals cap out n r of
             Stop x \<Rightarrow> Stop x
           | More out r \<Rightarrow> lz4_match cap out token r))"

lemma lz4_extend_shorter: "lz4_extend k n r = Some (m, r') \<Longrightarrow> length r' < length r"
  by (induction k n r rule: lz4_extend.induct) (auto split: if_splits)

lemma lz4_length_shorter: "lz4_length k n r = Some (m, r') \<Longrightarrow> length r' \<le> length r"
  by (auto simp: lz4_length_def dest: lz4_extend_shorter split: if_splits)

lemma lz4_match_shorter: "lz4_match cap out t r = More out' r' \<Longrightarrow> length r' < length r"
  by (induction cap out t r rule: lz4_match.induct)
    (auto simp: Let_def dest!: lz4_length_shorter split: if_splits option.splits)

lemma lz4_sequence_shorter: "lz4_sequence cap out r = More out' r' \<Longrightarrow> length r' < length r"
  by (cases r)
    (auto simp: lz4_literals_def dest!: lz4_length_shorter lz4_match_shorter split: if_splits option.splits lz4_step.splits)

function lz4_block :: "nat \<Rightarrow> byte list \<Rightarrow> byte list \<Rightarrow> lz4_result" where
  "lz4_block cap out r =
     (case lz4_sequence cap out r of Stop x \<Rightarrow> x | More out r \<Rightarrow> lz4_block cap out r)"
  by pat_completeness auto
termination
  by (relation "measure (\<lambda>(cap, out, r). length r)") (auto dest: lz4_sequence_shorter)

declare lz4_block.simps [simp del]

section \<open>The decoder implements it\<close>

lemma size_sub_le: "b \<le> a \<Longrightarrow> a < 2 ^ 64 \<Longrightarrow> size_sub a b = a - b"
  by (simp add: size_sub_def mod_if)

lemma size_add_small: "a + b < 2 ^ 64 \<Longrightarrow> size_add a b = a + b"
  by (simp add: size_add_def)

text \<open>The offset 0 wraps to the largest size: one comparison rejects it and what is too far.\<close>

lemma offset_rejected: "n < 2 ^ 63 \<Longrightarrow> offset < 2 ^ 63 \<Longrightarrow> n \<le> size_sub offset 1 \<longleftrightarrow> offset = 0 \<or> n < offset"
  by (cases "offset = 0") (auto simp: size_sub_le, simp add: size_sub_def)

lemma load_off16_result: "ip + 2 \<le> length src \<Longrightarrow>
    load_off16 src ip = Some (unat (src ! ip) + 256 * unat (src ! (ip + 1)))"
  by (simp add: load_off16_def buf_simps)

lemma load_offset_result:
  assumes "ip + 2 \<le> length src"
  shows "load_offset src ip = Some (unat (src ! ip) + 256 * unat (src ! (ip + 1)))"
proof -
  let ?lo = "ucast (src ! ip) :: size_t" and ?hi = "ucast (src ! (ip + 1)) :: size_t"
  have "?lo OR push_bit 8 ?hi = ?lo + push_bit 8 ?hi"
    by (rule disjunctive_add [symmetric]) (auto simp: bit_simps dest: bit_imp_le_length)
  moreover have "unat (src ! ip) < 256" "unat (src ! (ip + 1)) < 256"
    using unsigned_less [of "src ! ip", where ?'a = nat] unsigned_less [of "src ! (ip + 1)", where ?'a = nat] by simp_all
  ultimately have "unat (?lo OR push_bit 8 ?hi) = unat (src ! ip) + 256 * unat (src ! (ip + 1))"
    by (simp add: unat_word_ariths push_bit_eq_mult unsigned_ucast_eq take_bit_eq_mod)
  then show ?thesis using assms by (simp add: load_offset_def buf_simps)
qed

text \<open>The extension of a length, with the bound that excludes a wrap-around.\<close>

lemma rlz4_extend_result:
  "pos \<le> length src \<Longrightarrow> n + 255 * (length src - pos) < 2 ^ 64 \<Longrightarrow>
   (case lz4_extend k n (drop pos src) of
      None \<Rightarrow> rlz4_extend src (length src - k) pos n = Some None
    | Some (m, r) \<Rightarrow> \<exists>pos'. rlz4_extend src (length src - k) pos n = Some (Some (pos', m)) \<and> pos < pos' \<and>
        pos' \<le> length src \<and> r = drop pos' src \<and> m \<le> n + 255 * (pos' - pos))"
proof (induction "length src - pos" arbitrary: pos n)
  case 0
  then show ?case by (subst rlz4_extend.simps) simp
next
  case (Suc l)
  let ?b = "src ! pos"
  have pos: "pos < length src" using Suc.hyps(2) by simp
  then have d: "drop pos src = ?b # drop (Suc pos) src" by (simp add: Cons_nth_drop_Suc)
  have b: "unat ?b < 256" using unsigned_less [of ?b, where ?'a = nat] by simp
  have add: "size_add n (unat ?b) = n + unat ?b" using Suc.prems(2) pos b by (intro size_add_small) linarith
  show ?case
  proof (cases "length src - k \<le> pos")
    case True
    then have "length src - Suc pos < k" using pos by linarith
    then show ?thesis using True by (subst rlz4_extend.simps) (simp add: d)
  next
    case False
    then have k: "\<not> length src - Suc pos < k" by simp
    show ?thesis
    proof (cases "?b = 255")
      case True
      have "n + 255 + 255 * (length src - Suc pos) < 2 ^ 64" using Suc.prems(2) pos by linarith
      then have "case lz4_extend k (n + 255) (drop (Suc pos) src) of
          None \<Rightarrow> rlz4_extend src (length src - k) (Suc pos) (n + 255) = Some None
        | Some (m, r) \<Rightarrow> \<exists>pos'. rlz4_extend src (length src - k) (Suc pos) (n + 255) = Some (Some (pos', m)) \<and>
            Suc pos < pos' \<and> pos' \<le> length src \<and> r = drop pos' src \<and> m \<le> n + 255 + 255 * (pos' - Suc pos)"
        using Suc.hyps pos by (intro Suc.hyps(1)) simp_all
      moreover have "rlz4_extend src (length src - k) pos n = rlz4_extend src (length src - k) (Suc pos) (n + 255)"
        using False True pos add by (subst rlz4_extend.simps) (simp add: buf_simps)
      moreover have "lz4_extend k n (drop pos src) = lz4_extend k (n + 255) (drop (Suc pos) src)"
        using True k by (simp add: d)
      ultimately show ?thesis by (auto split: option.splits)
    next
      case no: False
      have "rlz4_extend src (length src - k) pos n = Some (Some (Suc pos, n + unat ?b))"
        using False no pos add by (subst rlz4_extend.simps) (simp add: buf_simps)
      moreover have "lz4_extend k n (drop pos src) = Some (n + unat ?b, drop (Suc pos) src)"
        using no k by (simp add: d)
      ultimately show ?thesis using pos b by simp
    qed
  qed
qed

text \<open>
  The cursors and the output buffer against the lists of the format. The sizes are bounded so that
  no length wraps around: a length has at most 255 for every byte of the input.
\<close>

definition lz4_at :: "byte list \<Rightarrow> nat \<Rightarrow> nat \<Rightarrow> nat \<Rightarrow> byte list \<Rightarrow> byte list \<Rightarrow> byte list \<Rightarrow> bool" where
  "lz4_at src N ip op d out r \<longleftrightarrow> length src < 2 ^ 55 \<and> N < 2 ^ 63 \<and> ip \<le> length src \<and> r = drop ip src \<and>
     op = length out \<and> op \<le> N \<and> length d = N \<and> take op d = out"

fun agrees :: "byte list \<Rightarrow> nat \<Rightarrow> outcome \<Rightarrow> lz4_step \<Rightarrow> bool" where
  "agrees src N (Return v d) (Stop (Decoded out)) \<longleftrightarrow>
     length d = N \<and> length out \<le> N \<and> v = int (length out) \<and> take (length out) d = out"
| "agrees src N (Return v d) (Stop (Failed e)) \<longleftrightarrow> length d = N \<and> v = e"
| "agrees src N (Continue ip op d) (More out r) \<longleftrightarrow> lz4_at src N ip op d out r"
| "agrees src N s x \<longleftrightarrow> False"

lemma lz4_at_sizes:
  assumes "lz4_at src N ip op d out r"
  shows "size_sub (length src) ip = length r" and "size_sub N op = N - length out" and "int64 op = int (length out)"
    and "int64 N = int N"
  using assms by (simp_all add: lz4_at_def size_sub_le int64_def)

lemma lz4_at_Stop: "lz4_at src N ip op d out r \<Longrightarrow> agrees src N (Return (int64 op) d) (Stop (Decoded out))"
  by (auto simp: lz4_at_sizes) (auto simp: lz4_at_def)

lemma lz4_at_Fail: "lz4_at src N ip op d out r \<Longrightarrow> agrees src N (Return e d) (Stop (Failed e))"
  by (simp add: lz4_at_def)

text \<open>Writing literals behind the output.\<close>

lemma lz4_at_literals:
  assumes "lz4_at src N ip op d out r" and "n \<le> k" and "k \<le> length r" and "k \<le> N - length out"
  shows "\<exists>d'. mem_write d op (take k (drop ip src)) = Some d' \<and>
    lz4_at src N (ip + n) (op + n) d' (out @ take n r) (drop n r)"
proof -
  let ?d = "take op d @ take k r @ drop (op + k) d"
  have "length (take k r) = k" using assms(3) by simp
  moreover have "op + k \<le> length d"
  proof -
    have "op = length out" "op \<le> N" "length d = N" using assms(1) by (simp_all add: lz4_at_def)
    then show ?thesis using assms(4) by linarith
  qed
  moreover have "take (op + n) ?d = out @ take n r"
    using assms by (auto simp: lz4_at_def)
  ultimately show ?thesis
    using assms by (auto simp: lz4_at_def mem_write_def add.commute)
qed

lemma rlz4_literals_result:
  assumes "lz4_at src N ip op d out r"
  shows "\<exists>s. rlz4_literals d N op src (length src) ip n = Some s \<and> agrees src N s (lz4_literals N out n r)"
proof -
  note sizes = lz4_at_sizes [OF assms]
  define k where "k = min n (length r)"
  define room where "room = N - length out"
  have ip: "length r = length src - ip" "ip \<le> length src" "r = drop ip src" using assms by (simp_all add: lz4_at_def)
  have emit: "(if length r < n then (length r, True) else (n, False)) = (k, length r < n)" by (simp add: k_def)
  have code: "rlz4_literals d N op src (length src) ip n =
      (if room < k
       then do { d \<leftarrow> mem_write d op (take room (drop ip src)); Some (Return (int64 N) d) }
       else do { d \<leftarrow> mem_write d op (take k (drop ip src));
         Some (if length r < n then Return (int64 (op + k)) d else Continue (ip + k) (op + k) d) })"
  proof -
    have "room < k \<Longrightarrow> ip + room \<le> length src" "ip + k \<le> length src" using ip unfolding k_def by linarith+
    then show ?thesis by (simp add: rlz4_literals_def sizes emit room_def [symmetric] buf_simps Let_def)
  qed
  show ?thesis
  proof (cases "room < k")
    case True
    obtain d' where d': "mem_write d op (take room (drop ip src)) = Some d'"
      "lz4_at src N (ip + room) (op + room) d' (out @ take room r) (drop room r)"
      using lz4_at_literals [OF assms, of room room] True by (auto simp: k_def room_def)
    have "op + room = N" using assms by (simp add: lz4_at_def room_def)
    with lz4_at_Stop [OF d'(2)]
    have "agrees src N (Return (int64 N) d') (Stop (Decoded (out @ take room r)))" by (simp only:)
    with d'(1) True show ?thesis
      unfolding code by (simp add: lz4_literals_def k_def room_def del: agrees.simps)
  next
    case False
    obtain d' where d': "mem_write d op (take k (drop ip src)) = Some d'"
      "lz4_at src N (ip + k) (op + k) d' (out @ take k r) (drop k r)"
    proof -
      have "k \<le> length r" "k \<le> N - length out" using False by (simp add: k_def, simp only: room_def not_less)
      then show ?thesis using lz4_at_literals [OF assms order_refl] that by blast
    qed
    show ?thesis
    proof (cases "length r < n")
      case True
      then have "take k r = r" by (simp add: k_def)
      with lz4_at_Stop [OF d'(2)] d'(1) True False show ?thesis
        unfolding code by (simp add: lz4_literals_def k_def room_def)
    next
      case l: False
      then have "k = n" by (simp add: k_def)
      with d' l False show ?thesis unfolding code by (simp add: lz4_literals_def room_def)
    qed
  qed
qed

lemma literal_bytes_result:
  "from + n \<le> length src \<Longrightarrow> to + n \<le> length d \<Longrightarrow>
   literal_bytes d to src from n = mem_write d to (take n (drop from src))"
proof (induction n arbitrary: d to "from")
  case 0
  then show ?case by (simp add: mem_write_def)
next
  case (Suc n)
  have "take (Suc n) (drop from src) = src ! from # take n (drop (Suc from) src)"
    using Suc.prems by (simp add: Cons_nth_drop_Suc [symmetric])
  moreover have "take (Suc to) (d[to := x]) = take to d @ [x]" for x
    using Suc.prems by (simp add: take_Suc_conv_app_nth)
  ultimately show ?case using Suc by (simp add: buf_simps)
qed

lemma rlz4_tail_literals_result:
  assumes "lz4_at src N ip op d out r"
  shows "\<exists>s. rlz4_tail_literals d N op src (length src) ip n = Some s \<and> agrees src N s (lz4_literals N out n r)"
proof (cases "n \<noteq> 0 \<and> n \<le> 16 \<and> n \<le> length r \<and> n \<le> N - length out")
  case True
  have ip: "length r = length src - ip" "ip \<le> length src" "op = length out" "length d = N" "op \<le> N"
    using assms by (simp_all add: lz4_at_def)
  then have "literal_bytes d op src ip n = mem_write d op (take n (drop ip src))"
    using True by (intro literal_bytes_result) linarith+
  then show ?thesis
    using True lz4_at_literals [OF assms, of n n]
    by (auto simp: rlz4_tail_literals_def lz4_literals_def lz4_at_sizes [OF assms])
next
  case False
  then show ?thesis using rlz4_literals_result [OF assms, of n]
    by (auto simp: rlz4_tail_literals_def lz4_at_sizes [OF assms])
qed

text \<open>The length of a match.\<close>

lemma unat_low_nibble: "unat (t AND 15 :: byte) < 16"
proof -
  have "(15 :: byte) = mask 4" by (simp add: mask_eq_exp_minus_1)
  then show ?thesis by (simp only: unat_and_mask) simp
qed

lemma rlz4_match_len_result:
  assumes "length src < 2 ^ 55" and "pos \<le> length src"
  shows "case lz4_length 6 (unat (t AND 15)) (drop pos src) of
      None \<Rightarrow> rlz4_match_len src (length src) t pos = Some None
    | Some (m, r) \<Rightarrow> \<exists>pos'. rlz4_match_len src (length src) t pos = Some (Some (pos', m + 4)) \<and> pos \<le> pos' \<and>
        pos' \<le> length src \<and> r = drop pos' src \<and> m + 4 < 2 ^ 63"
proof (cases "unat (t AND 15) = 15")
  case True
  have lim: "(if length src \<ge> 6 then length src - 6 else 0) = length src - 6" by simp
  have "(15::nat) + 255 * (length src - pos) < 2 ^ 64" using assms(1) by simp
  from rlz4_extend_result [OF assms(2) this, of 6] show ?thesis
  proof (cases "lz4_extend 6 15 (drop pos src)")
    case (Some x)
    then obtain m r pos' where x: "x = (m, r)" "rlz4_extend src (length src - 6) pos 15 = Some (Some (pos', m))"
      "pos < pos'" "pos' \<le> length src" "r = drop pos' src" "m \<le> 15 + 255 * (pos' - pos)"
      using rlz4_extend_result [OF assms(2) \<open>15 + 255 * (length src - pos) < 2 ^ 64\<close>, of 6] by (cases x) auto
    have "m + 4 < 2 ^ 63" using x(3,4,6) assms(1) by simp
    then show ?thesis using Some x True
      by (simp add: rlz4_match_len_def lz4_length_def lim size_add_small del: One_nat_def)
  qed (use True in \<open>simp add: rlz4_match_len_def lz4_length_def lim\<close>)
next
  case False
  then show ?thesis using assms unat_low_nibble [of t]
    by (simp add: rlz4_match_len_def lz4_length_def size_add_small)
qed

text \<open>A match written by one of the copies.\<close>

lemma lz4_at_match:
  assumes "lz4_at src N ip op d out r" and "matched d op off k d'" and "0 < off" and "off \<le> op" and "op + k \<le> N"
    and "ip' \<le> length src"
  shows "lz4_at src N ip' (op + k) d' (lz4_copy off k out) (drop ip' src)"
proof -
  have "take (op + k) d' = lz4_copy off k (take op d)"
    using assms by (intro matched_result) (simp_all add: lz4_at_def)
  moreover have "take op d = out" using assms(1) unfolding lz4_at_def by blast
  ultimately show ?thesis using assms by (simp add: lz4_at_def matched_length)
qed

lemma rlz4_clamped_match_result:
  assumes at: "lz4_at src N ip op d out r" and off: "0 < off" "off \<le> op" and m: "0 < m"
    and copy: "\<And>m. op + m \<le> N \<Longrightarrow> 0 < m \<or> op = N \<Longrightarrow> \<exists>d'. copy d N op off m = Some d' \<and> matched d op off m d'"
    and ip': "ip' \<le> length src"
  shows "\<exists>s. rlz4_clamped_match copy d N op ip' off m = Some s \<and>
    agrees src N s (let out = lz4_copy off (min m (N - length out)) out in
      if length out = N then Stop (Decoded out) else More out (drop ip' src))"
proof -
  define k where "k = min m (N - length out)"
  have op: "op = length out" "op \<le> N" using at by (simp_all add: lz4_at_def)
  have clamp: "(if N - length out < m then N - length out else m) = k" by (simp add: k_def)
  have room: "op + k \<le> N" "0 < k \<or> op = N" using op m by (auto simp: k_def)
  obtain d' where d': "copy d N op off k = Some d'" "matched d op off k d'" using copy [OF room] by blast
  note at' = lz4_at_match [OF at d'(2) off room(1) ip']
  have "rlz4_clamped_match copy d N op ip' off m =
      Some (if op + k = N then Return (int64 (op + k)) d' else Continue ip' (op + k) d')"
    unfolding rlz4_clamped_match_def lz4_at_sizes(2) [OF at] clamp Let_def using d'(1) by simp
  moreover have "op + k = N \<Longrightarrow> agrees src N (Return (int64 N) d') (Stop (Decoded (lz4_copy off k out)))"
    using lz4_at_Stop [OF at'] by (simp only:)
  moreover have "length (lz4_copy off k out) = op + k" using op(1) by simp
  ultimately show ?thesis
    using at' by (simp add: k_def [symmetric] Let_def del: agrees.simps(1,2) length_lz4_copy)
qed

text \<open>The input behind the literals: an offset, and the match of either loop.\<close>

lemma lz4_match_few: "length r \<le> 2 \<Longrightarrow> lz4_match cap out t r = Stop (Decoded out)"
  by (induction cap out t r rule: lz4_match.induct) simp_all

lemma lz4_match_offset:
  assumes "ip + 2 < length src" and offset: "offset = unat (src ! ip) + 256 * unat (src ! (ip + 1))"
  shows "lz4_match cap out t (drop ip src) =
    (if offset = 0 \<or> length out < offset then Stop (Failed RLZ4_ERROR_OFFSET)
     else case lz4_length 6 (unat (t AND 15)) (drop (ip + 2) src) of
       None \<Rightarrow> Stop (Failed RLZ4_ERROR_TRUNCATED)
     | Some (m, r) \<Rightarrow>
         let out = lz4_copy offset (min (m + 4) (cap - length out)) out in
         if length out = cap then Stop (Decoded out) else More out r)"
proof -
  have two: "drop (ip + 2) src = src ! (ip + 2) # drop (ip + 3) src"
    using assms by (simp add: Cons_nth_drop_Suc numeral_2_eq_2 numeral_3_eq_3)
  have "drop ip src = src ! ip # src ! (ip + 1) # src ! (ip + 2) # drop (ip + 3) src"
    using assms by (simp add: Cons_nth_drop_Suc numeral_2_eq_2 numeral_3_eq_3)
  then show ?thesis unfolding two by (simp only: lz4_match.simps Let_def offset)
qed

lemma offset_bound: "unat (a :: byte) + 256 * unat (b :: byte) < 2 ^ 63"
  using unsigned_less [of a, where ?'a = nat] unsigned_less [of b, where ?'a = nat] by simp

lemma rlz4_exact_match_result:
  assumes at: "lz4_at src N ip op d out (drop ip src)" and room: "ip + 2 < length src"
    and copy: "\<And>m off. 0 < off \<Longrightarrow> off \<le> op \<Longrightarrow> op + m \<le> N \<Longrightarrow> 0 < m \<or> op = N \<Longrightarrow>
      \<exists>d'. copy d N op off m = Some d' \<and> matched d op off m d'"
    and offset: "offset = unat (src ! ip) + 256 * unat (src ! (ip + 1))"
  shows "\<exists>s. (if size_sub offset 1 \<ge> op then Some (Return RLZ4_ERROR_OFFSET d)
      else do {
        r \<leftarrow> rlz4_match_len src (length src) t (ip + 2);
        case r of
          None \<Rightarrow> Some (Return RLZ4_ERROR_TRUNCATED d)
        | Some (ip, match_len) \<Rightarrow> rlz4_clamped_match copy d N op ip offset match_len }) = Some s \<and>
    agrees src N s (lz4_match N out t (drop ip src))"
proof -
  have op: "op = length out" "op \<le> N" "N < 2 ^ 63" "length d = N" "length src < 2 ^ 55"
    using at by (simp_all add: lz4_at_def)
  have rej: "size_sub offset 1 \<ge> op \<longleftrightarrow> offset = 0 \<or> length out < offset"
    using op offset_bound [of "src ! ip" "src ! (ip + 1)"] unfolding offset op(1) by (intro offset_rejected) linarith+
  show ?thesis
  proof (cases "offset = 0 \<or> length out < offset")
    case True
    then show ?thesis using lz4_at_Fail [OF at] rej
      by (simp add: lz4_match_offset [OF room offset] Let_def)
  next
    case off: False
    show ?thesis
    proof (cases "lz4_length 6 (unat (t AND 15)) (drop (ip + 2) src)")
      case None
      then have "rlz4_match_len src (length src) t (ip + 2) = Some None"
        using rlz4_match_len_result [OF op(5), of "ip + 2" t] room by simp
      then show ?thesis using off rej None lz4_at_Fail [OF at]
        by (simp add: lz4_match_offset [OF room offset] Let_def)
    next
      case (Some x)
      then obtain m pos' where m: "x = (m, drop pos' src)" "pos' \<le> length src"
        "rlz4_match_len src (length src) t (ip + 2) = Some (Some (pos', m + 4))"
        using rlz4_match_len_result [OF op(5), of "ip + 2" t] room by (cases x) auto
      have "\<exists>s. rlz4_clamped_match copy d N op pos' offset (m + 4) = Some s \<and>
        agrees src N s (let out = lz4_copy offset (min (m + 4) (N - length out)) out in
          if length out = N then Stop (Decoded out) else More out (drop pos' src))"
        using off op(1) m(2) by (intro rlz4_clamped_match_result [OF at] copy) simp_all
      then show ?thesis using off rej m Some
        by (simp add: lz4_match_offset [OF room offset] Let_def)
    qed
  qed
qed

lemma rlz4_tail_match_result:
  assumes "lz4_at src N ip op d out r"
  shows "\<exists>s. rlz4_tail_match d N op src (length src) ip t = Some s \<and> agrees src N s (lz4_match N out t r)"
proof (cases "length r \<le> 2")
  case True
  then show ?thesis using lz4_at_Stop [OF assms]
    by (simp add: rlz4_tail_match_def lz4_at_sizes(1,2) [OF assms] lz4_match_few)
next
  case False
  have r: "r = drop ip src" "length d = N" using assms by (simp_all add: lz4_at_def)
  then have room: "ip + 2 < length src" using False by simp
  have copy: "\<exists>d'. rlz4_copy_match_tail d N op off m = Some d' \<and> matched d op off m d'"
    if "0 < off" "off \<le> op" "op + m \<le> N" for off m
    using rlz4_copy_match_tail_matched [of off op m d] that r(2) by simp
  have more: "(length r \<le> 2) = False" "(length r < 2) = False" "ip + 2 \<le> length src" using False room by simp_all
  show ?thesis
    unfolding rlz4_tail_match_def lz4_at_sizes(1) [OF assms] more(1,2) load_offset_result [OF more(3)] Let_def if_False
      Option.bind.bind_lunit
    using rlz4_exact_match_result [where copy = rlz4_copy_match_tail, OF assms [unfolded r(1)] room copy refl, of t]
    unfolding r(1) .
qed

lemma rlz4_fast_long_match_result:
  assumes "lz4_at src N ip op d out r"
  shows "\<exists>s. rlz4_fast_long_match d N op src (length src) ip t = Some s \<and> agrees src N s (lz4_match N out t r)"
proof (cases "length r \<le> 2")
  case True
  then show ?thesis using lz4_at_Stop [OF assms]
    by (simp add: rlz4_fast_long_match_def lz4_at_sizes(1,2) [OF assms] lz4_match_few)
next
  case False
  have r: "r = drop ip src" "length d = N" using assms by (simp_all add: lz4_at_def)
  then have room: "ip + 2 < length src" using False by simp
  have copy: "\<exists>d'. rlz4_copy_match_exact d N op off m = Some d' \<and> matched d op off m d'"
    if "0 < off" "off \<le> op" "op + m \<le> N" "0 < m \<or> op = N" for off m
    using rlz4_copy_match_exact_matched [of off op m d] that r(2) by simp
  have more: "(length r \<le> 2) = False" "(length r < 2) = False" "ip + 2 \<le> length src" using False room by simp_all
  show ?thesis
    unfolding rlz4_fast_long_match_def lz4_at_sizes(1) [OF assms] more(1,2) load_off16_result [OF more(3)] Let_def if_False
      Option.bind.bind_lunit
    using rlz4_exact_match_result [where copy = rlz4_copy_match_exact, OF assms [unfolded r(1)] room copy refl, of t]
    unfolding r(1) .
qed

text \<open>A sequence of the fast loop: the margins make every blind copy safe.\<close>

lemma matched_18:
  assumes "8 \<le> off" "off \<le> op" "op + 18 \<le> length d"
  shows "\<exists>d1 d2 d3. memcpy_within d op (op - off) 8 = Some d1 \<and> memcpy_within d1 (op + 8) (op - off + 8) 8 = Some d2 \<and>
    memcpy_within d2 (op + 16) (op - off + 16) 2 = Some d3 \<and> matched d op off 18 d3"
proof -
  have "\<exists>d1. memcpy_within d op (op - off) 8 = Some d1 \<and> matched d op off (0 + 8) d1"
    using assms by (intro matched_memcpy [OF matched_start dvd_refl]) simp_all
  then obtain d1 where d1: "memcpy_within d op (op - off) 8 = Some d1" "matched d op off (0 + 8) d1" by blast
  have "\<exists>d2. memcpy_within d1 (op + 8) (op - off + 8) 8 = Some d2 \<and> matched d op off (0 + 8 + 8) d2"
    using assms by (intro matched_memcpy [OF d1(2) dvd_refl]) simp_all
  then obtain d2 where d2: "memcpy_within d1 (op + 8) (op - off + 8) 8 = Some d2" "matched d op off (0 + 8 + 8) d2" by blast
  have "\<exists>d3. memcpy_within d2 (op + 16) (op - off + 16) 2 = Some d3 \<and> matched d op off (0 + 8 + 8 + 2) d3"
    using assms by (intro matched_memcpy [OF d2(2) dvd_refl]) simp_all
  then obtain d3 where d3: "memcpy_within d2 (op + 16) (op - off + 16) 2 = Some d3" "matched d op off (0 + 8 + 8 + 2) d3" by blast
  have "matched d op off 18 d3" using d3(2) by simp
  with d1(1) d2(1) d3(1) show ?thesis by blast
qed

lemma rlz4_short_match_matched:
  assumes "0 < off" "off \<le> op" "op + 25 \<le> length d" "m \<le> 18"
  shows "\<exists>d'. rlz4_short_match d op off m = Some d' \<and> matched d op off m d'"
proof -
  have p: "ptr_add op (- int off) = Some (op - off)" using assms(2) by (simp add: ptr_add_def nat_diff_distrib flip: of_nat_diff)
  show ?thesis
  proof (cases "off \<ge> 8")
    case True
    then obtain d1 d2 d3 where d: "memcpy_within d op (op - off) 8 = Some d1"
      "memcpy_within d1 (op + 8) (op - off + 8) 8 = Some d2"
      "memcpy_within d2 (op + 16) (op - off + 16) 2 = Some d3" "matched d op off 18 d3"
      using matched_18 [of off op d] assms by auto
    have "rlz4_short_match d op off m = Some d3"
      using True unfolding rlz4_short_match_def p by (simp add: d(1-3))
    moreover have "matched d op off m d3" using d(4) assms(4) by (rule matched_mono)
    ultimately show ?thesis by blast
  next
    case False
    then show ?thesis using rlz4_copy_match_blind_matched [of off op d m] assms p
      by (simp add: rlz4_short_match_def)
  qed
qed

lemma rlz4_long_copy_matched:
  assumes "32 \<le> off" "off \<le> op" "0 < m" "op + m + 31 \<le> length d"
  shows "\<exists>d'. stride_loop copy32 32 d op (op - off) (op + m) = Some d' \<and> matched d op off m d'"
proof -
  have "\<exists>d' k'. stride_loop copy32 32 d op (op - off) (op + m) = Some d' \<and> op + m \<le> op + k' \<and> matched d op off k' d'"
    by (rule stride_loop_matched [OF copy32_matched _ _ matched_start, where D = off]) (use assms in simp_all)
  then show ?thesis by (auto intro: matched_mono)
qed

lemma rlz4_fast_short_result:
  assumes at: "lz4_at src N ip op d out r" and room: "ip + 64 \<le> length src" "op + 64 < N" and n: "n < 15"
  shows "\<exists>s. rlz4_fast_short d N op src (length src) ip t n = Some s \<and>
    agrees src N s (lz4_match N (out @ take n r) t (drop n r))"
proof -
  have sizes: "op = length out" "N < 2 ^ 63" "length r = length src - ip" "r = drop ip src" "length src < 2 ^ 55" "length d = N"
    using at by (simp_all add: lz4_at_def)
  obtain d1 where d1: "mem_write d op (take 16 (drop ip src)) = Some d1"
    "lz4_at src N (ip + n) (op + n) d1 (out @ take n r) (drop n r)"
  proof -
    have "n \<le> 16" "16 \<le> length r" "16 \<le> N - length out" using n room sizes(1,3) by simp_all
    then show ?thesis using lz4_at_literals [OF at] that sizes(4) by blast
  qed
  define ip1 op1 out1 where "ip1 = ip + n" and "op1 = op + n" and "out1 = out @ take n r"
  define offset where "offset = unat (src ! ip1) + 256 * unat (src ! (ip1 + 1))"
  have dr: "drop n r = drop ip1 src" by (simp add: ip1_def sizes(4) add.commute)
  have at1: "lz4_at src N ip1 op1 d1 out1 (drop ip1 src)"
    using d1(2) unfolding ip1_def [symmetric] op1_def [symmetric] out1_def [symmetric] dr .
  have small: "ip1 + 2 < length src" "op1 + 50 \<le> N" using n room by (simp_all add: ip1_def op1_def)
  have op1: "op1 = length out1" "length d1 = N" using at1 by (simp_all add: lz4_at_def)
  have code: "rlz4_fast_short d N op src (length src) ip t n =
    (if size_sub offset 1 \<ge> op1 then Some (Return RLZ4_ERROR_OFFSET d1)
     else if t AND 15 \<noteq> 15
     then do {
       dst \<leftarrow> rlz4_short_match d1 op1 offset (unat (t AND 15) + 4);
       Some (Continue (ip1 + 2) (op1 + (unat (t AND 15) + 4)) dst) }
     else do {
       r \<leftarrow> rlz4_match_len src (length src) t (ip1 + 2);
       case r of
         None \<Rightarrow> Some (Return RLZ4_ERROR_TRUNCATED d1)
       | Some (ip, match_len) \<Rightarrow>
           if offset \<ge> 32 \<and> size_add match_len 31 \<le> size_sub N op1
           then do {
             from \<leftarrow> ptr_add op1 (- int offset);
             dst \<leftarrow> stride_loop copy32 32 d1 op1 from (op1 + match_len);
             Some (Continue ip (op1 + match_len) dst) }
           else rlz4_clamped_match rlz4_copy_match_exact d1 N op1 ip offset match_len })"
  proof -
    have "ip + 16 \<le> length src" "ip1 + 2 \<le> length src" using room small by simp_all
    show ?thesis
      unfolding rlz4_fast_short_def mem_read_Some [OF \<open>ip + 16 \<le> length src\<close>] d1(1) Option.bind.bind_lunit Let_def
        ip1_def [symmetric] op1_def [symmetric] load_off16_result [OF \<open>ip1 + 2 \<le> length src\<close>] offset_def by (rule refl)
  qed
  have rej: "size_sub offset 1 \<ge> op1 \<longleftrightarrow> offset = 0 \<or> length out1 < offset"
    using op1(1) small(2) sizes(2) offset_bound [of "src ! ip1" "src ! (ip1 + 1)"] unfolding offset_def op1(1)
    by (intro offset_rejected) linarith+
  note match = lz4_match_offset [OF small(1) offset_def, of N out1 t]
  have goal: "\<exists>s. rlz4_fast_short d N op src (length src) ip t n = Some s \<and>
    agrees src N s (lz4_match N out1 t (drop ip1 src))"
  proof (cases "offset = 0 \<or> length out1 < offset")
    case True
    then show ?thesis unfolding code match using lz4_at_Fail [OF at1] rej by simp
  next
    case off: False
    have o: "0 < offset" "offset \<le> op1" using off op1 by simp_all
    have p: "ptr_add op1 (- int offset) = Some (op1 - offset)"
      using o by (simp add: ptr_add_def nat_diff_distrib flip: of_nat_diff)
    show ?thesis
    proof (cases "t AND 15 = 15")
      case False
      define m where "m = unat (t AND 15) + 4"
      have "unat (t AND 15) \<noteq> unat (15 :: byte)" using False word_unat_eq_iff by blast
      then have nib: "unat (t AND 15) \<noteq> 15" "m \<le> 18" using unat_low_nibble [of t] by (simp_all add: m_def)
      obtain d2 where d2: "rlz4_short_match d1 op1 offset m = Some d2" "matched d1 op1 offset m d2"
        using rlz4_short_match_matched [OF o, of d1 m] op1 small nib by auto
      have "lz4_at src N (ip1 + 2) (op1 + m) d2 (lz4_copy offset m out1) (drop (ip1 + 2) src)"
        using small nib by (intro lz4_at_match [OF at1 d2(2) o]) simp_all
      moreover have "min m (N - length out1) = m" "length out1 + m \<noteq> N"
        using nib(2) small(2) op1(1) by linarith+
      ultimately show ?thesis unfolding code match m_def [symmetric]
        using False off rej d2(1) nib(1) by (simp add: lz4_length_def m_def [symmetric])
    next
      case True
      show ?thesis
      proof (cases "lz4_length 6 (unat (t AND 15)) (drop (ip1 + 2) src)")
        case None
        then have "rlz4_match_len src (length src) t (ip1 + 2) = Some None"
          using rlz4_match_len_result [OF sizes(5), of "ip1 + 2" t] small by simp
        then show ?thesis unfolding code match None using True off rej lz4_at_Fail [OF at1] by simp
      next
        case (Some x)
        then obtain m pos' where m: "x = (m, drop pos' src)" "pos' \<le> length src"
          "rlz4_match_len src (length src) t (ip1 + 2) = Some (Some (pos', m + 4))" "m + 4 < 2 ^ 63"
          using rlz4_match_len_result [OF sizes(5), of "ip1 + 2" t] small by (cases x) auto
        show ?thesis
        proof (cases "offset \<ge> 32 \<and> m + 4 + 31 \<le> N - op1")
          case fast: True
          then have l: "op1 + (m + 4) + 31 \<le> N" using small by linarith
          obtain d2 where d2: "stride_loop copy32 32 d1 op1 (op1 - offset) (op1 + (m + 4)) = Some d2" "matched d1 op1 offset (m + 4) d2"
            using rlz4_long_copy_matched [of offset op1 "m + 4" d1] fast o l op1 by auto
          have "lz4_at src N pos' (op1 + (m + 4)) d2 (lz4_copy offset (m + 4) out1) (drop pos' src)"
            using l m(2) by (intro lz4_at_match [OF at1 d2(2) o]) simp_all
          moreover have "min (m + 4) (N - length out1) = m + 4" "length out1 + (m + 4) \<noteq> N" using l op1(1) by simp_all
          moreover have "size_add (m + 4) 31 \<le> size_sub N op1"
            using fast m(4) small sizes(2) by (simp add: size_add_small size_sub_le)
          ultimately show ?thesis unfolding code match Some m(1,3)
            using True off rej d2(1) p fast by simp
        next
          case slow: False
          then have ns: "\<not> (offset \<ge> 32 \<and> size_add (m + 4) 31 \<le> size_sub N op1)"
            using m(4) small sizes(2) by (simp add: size_add_small size_sub_le)
          have "\<exists>s. rlz4_clamped_match rlz4_copy_match_exact d1 N op1 pos' offset (m + 4) = Some s \<and>
            agrees src N s (let out = lz4_copy offset (min (m + 4) (N - length out1)) out1 in
              if length out = N then Stop (Decoded out) else More out (drop pos' src))"
          proof (rule rlz4_clamped_match_result [OF at1 o _ _ m(2)])
            show "\<exists>d'. rlz4_copy_match_exact d1 N op1 offset m = Some d' \<and> matched d1 op1 offset m d'"
              if "op1 + m \<le> N" "0 < m \<or> op1 = N" for m
              using rlz4_copy_match_exact_matched [OF o, of m d1] that op1(2) by simp
          qed simp
          then show ?thesis unfolding code match Some m(1,3) using True off rej ns by auto
        qed
      qed
    qed
  qed
  then show ?thesis unfolding out1_def dr .
qed

section \<open>The loops\<close>

text \<open>The token and the length of the literals.\<close>

lemma unat_high_nibble: "unat (drop_bit 4 (t :: byte)) < 16"
  using unsigned_less [of t, where ?'a = nat] by (simp only: unsigned_drop_bit_eq) (simp add: drop_bit_eq_div take_bit_eq_mod)

lemma lz4_at_token:
  assumes "lz4_at src N ip op d out r" and "ip < length src"
  shows "r = src ! ip # drop (ip + 1) src" and "lz4_at src N (ip + 1) op d out (drop (ip + 1) src)"
  using assms by (auto simp: lz4_at_def Cons_nth_drop_Suc)

lemma lz4_at_extend:
  assumes "lz4_at src N ip op d out r"
  shows "case lz4_extend 15 15 r of
      None \<Rightarrow> rlz4_extend src (length src - 15) ip 15 = Some None
    | Some (m, r') \<Rightarrow> \<exists>ip'. rlz4_extend src (length src - 15) ip 15 = Some (Some (ip', m)) \<and>
        lz4_at src N ip' op d out r'"
proof -
  have ip: "ip \<le> length src" "r = drop ip src" "length src < 2 ^ 55" using assms by (simp_all add: lz4_at_def)
  then have "15 + 255 * (length src - ip) < 2 ^ 64" by simp
  from rlz4_extend_result [OF ip(1) this, of 15] show ?thesis
    using assms by (auto simp: lz4_at_def split: option.splits)
qed

text \<open>Literals and a match after them.\<close>

lemma rlz4_then_match:
  assumes "\<exists>s. lits = Some s \<and> agrees src N s x"
    and "\<And>ip op d out r. lz4_at src N ip op d out r \<Longrightarrow> \<exists>s. k ip op d = Some s \<and> agrees src N s (lz4_match N out t r)"
  shows "\<exists>s. do { s \<leftarrow> lits; case s of Return v dst \<Rightarrow> Some (Return v dst) | Continue ip op dst \<Rightarrow> k ip op dst } = Some s \<and>
    agrees src N s (case x of Stop x \<Rightarrow> Stop x | More out r \<Rightarrow> lz4_match N out t r)"
proof -
  obtain s where s: "lits = Some s" "agrees src N s x" using assms(1) by blast
  then show ?thesis using assms(2) by (cases s; cases x) auto
qed

lemma rlz4_tail_step_result:
  assumes at: "lz4_at src N ip op d out r"
  shows "\<exists>s. rlz4_tail_step d N op src (length src) ip = Some s \<and> agrees src N s (lz4_sequence N out r)"
proof (cases "ip < length src")
  case False
  then have "r = []" using at by (simp add: lz4_at_def)
  then show ?thesis using False lz4_at_Stop [OF at] by (simp add: rlz4_tail_step_def)
next
  case True
  define t where "t = src ! ip"
  define r1 where "r1 = drop (ip + 1) src"
  note at1 = lz4_at_token [OF at True, folded t_def r1_def]
  have lim: "(if length src \<ge> 15 then length src - 15 else 0) = length src - 15" by simp
  have get: "arr_get src ip = Some t" using True by (simp add: buf_simps t_def)
  have lits: "\<exists>s. do { s \<leftarrow> rlz4_tail_literals d N op src (length src) ip n;
        case s of Return v dst \<Rightarrow> Some (Return v dst) | Continue ip op dst \<Rightarrow> rlz4_tail_match dst N op src (length src) ip t } = Some s \<and>
      agrees src N s (case lz4_literals N out n r of Stop x \<Rightarrow> Stop x | More out r \<Rightarrow> lz4_match N out t r)"
    if "lz4_at src N ip op d out r" for ip n r
    by (intro rlz4_then_match rlz4_tail_literals_result [OF that] rlz4_tail_match_result)
  show ?thesis
  proof (cases "unat (drop_bit 4 t) = 15")
    case False
    then show ?thesis using lits [OF at1(2), of "unat (drop_bit 4 t)"] True
      by (simp add: rlz4_tail_step_def get at1(1) lz4_length_def)
  next
    case n: True
    show ?thesis
    proof (cases "lz4_extend 15 15 r1")
      case None
      then show ?thesis using lz4_at_extend [OF at1(2)] True n lz4_at_Fail [OF at]
        unfolding rlz4_tail_step_def get lim at1(1) by (simp add: lz4_length_def)
    next
      case (Some y)
      then obtain m r2 ip' where y: "y = (m, r2)" "rlz4_extend src (length src - 15) (ip + 1) 15 = Some (Some (ip', m))"
        "lz4_at src N ip' op d out r2"
        using lz4_at_extend [OF at1(2)] by (cases y) auto
      then show ?thesis using Some lits [OF y(3), of m] True n
        unfolding rlz4_tail_step_def get lim at1(1) by (simp add: lz4_length_def)
    qed
  qed
qed

lemma rlz4_fast_step_result:
  assumes at: "lz4_at src N ip op d out r" and room: "ip + 64 < length src" "op + 64 < N"
  shows "\<exists>s. rlz4_fast_step d N op src (length src) ip = Some s \<and> agrees src N s (lz4_sequence N out r)"
proof -
  define t where "t = src ! ip"
  define n where "n = unat (drop_bit 4 t)"
  define r1 where "r1 = drop (ip + 1) src"
  have "ip < length src" using room by simp
  note at1 = lz4_at_token [OF at this, folded t_def r1_def]
  have get: "arr_get src ip = Some t" using room by (simp add: buf_simps t_def)
  have n16: "n < 16" unfolding n_def by (rule unat_high_nibble)
  show ?thesis
  proof (cases "n < 15")
    case True
    have r1: "length r1 = length src - (ip + 1)" by (simp add: r1_def)
    have "op = length out" using at by (simp add: lz4_at_def)
    then have "\<not> length r1 < n" "\<not> min n (length r1) > N - length out" using True room r1 by linarith+
    then have "lz4_literals N out n r1 = More (out @ take n r1) (drop n r1)"
      by (simp add: lz4_literals_def)
    then show ?thesis using rlz4_fast_short_result [OF at1(2), of n t] True room
      by (simp add: rlz4_fast_step_def get n_def [symmetric] at1(1) lz4_length_def)
  next
    case False
    then have n: "n = 15" using n16 by simp
    show ?thesis
    proof (cases "lz4_extend 15 15 r1")
      case None
      then show ?thesis using lz4_at_extend [OF at1(2)] n lz4_at_Fail [OF at]
        unfolding rlz4_fast_step_def get at1(1) by (simp add: n_def [symmetric] lz4_length_def)
    next
      case (Some y)
      then obtain m r2 ip' where y: "y = (m, r2)" "rlz4_extend src (length src - 15) (ip + 1) 15 = Some (Some (ip', m))"
        "lz4_at src N ip' op d out r2"
        using lz4_at_extend [OF at1(2)] by (cases y) auto
      have "\<exists>s. do { s \<leftarrow> rlz4_literals d N op src (length src) ip' m;
          case s of Return v dst \<Rightarrow> Some (Return v dst) | Continue ip op dst \<Rightarrow> rlz4_fast_long_match dst N op src (length src) ip t } = Some s \<and>
        agrees src N s (case lz4_literals N out m r2 of Stop x \<Rightarrow> Stop x | More out r \<Rightarrow> lz4_match N out t r)"
        by (intro rlz4_then_match rlz4_literals_result [OF y(3)] rlz4_fast_long_match_result)
      then show ?thesis using Some y(1,2) n
        unfolding rlz4_fast_step_def get at1(1) by (simp add: n_def [symmetric] lz4_length_def)
    qed
  qed
qed

text \<open>The result of a decoder state: what the format says from there.\<close>

definition decodes_to :: "nat \<Rightarrow> (int \<times> byte list) option \<Rightarrow> lz4_result \<Rightarrow> bool" where
  "decodes_to N code x \<longleftrightarrow> (\<exists>v d. code = Some (v, d) \<and> length d = N \<and>
     (case x of
        Decoded out \<Rightarrow> length out \<le> N \<and> v = int (length out) \<and> take (length out) d = out
      | Failed e \<Rightarrow> v = e))"

lemma agrees_Return: "agrees src N (Return v d) x \<Longrightarrow> \<exists>y. x = Stop y \<and> decodes_to N (Some (v, d)) y"
  by (cases x; simp add: decodes_to_def; rename_tac y; case_tac y; simp)

lemma agrees_Continue: "agrees src N (Continue ip op d) x \<Longrightarrow> \<exists>out r. x = More out r \<and> lz4_at src N ip op d out r"
  by (cases x) simp_all

lemma rlz4_tail_loop_result:
  "lz4_at src N ip op d out r \<Longrightarrow> decodes_to N (rlz4_tail_loop src (length src) N ip op d) (lz4_block N out r)"
proof (induction "length r" arbitrary: ip op d out r rule: less_induct)
  case less
  obtain s where s: "rlz4_tail_step d N op src (length src) ip = Some s" "agrees src N s (lz4_sequence N out r)"
    using rlz4_tail_step_result [OF less.prems] by blast
  show ?case
  proof (cases s)
    case (Return v d')
    then obtain y where "lz4_sequence N out r = Stop y" "decodes_to N (Some (v, d')) y"
      using s agrees_Return by blast
    then show ?thesis using s(1) Return
      by (subst rlz4_tail_loop.simps, subst lz4_block.simps) simp
  next
    case (Continue ip' op' d')
    then obtain out' r' where r': "lz4_sequence N out r = More out' r'" "lz4_at src N ip' op' d' out' r'"
      using s agrees_Continue by blast
    then have "decodes_to N (rlz4_tail_loop src (length src) N ip' op' d') (lz4_block N out' r')"
      by (intro less.hyps lz4_sequence_shorter)
    then show ?thesis using s Continue r'
      by (subst rlz4_tail_loop.simps, subst lz4_block.simps) simp
  qed
qed

lemma rlz4_fast_loop_result:
  "lz4_at src N ip op d out r \<Longrightarrow> 64 \<le> length src \<Longrightarrow> 64 \<le> N \<Longrightarrow>
   decodes_to N (do { s \<leftarrow> rlz4_fast_loop src (length src) N ip op d;
      case s of Return v d \<Rightarrow> Some (v, d) | Continue ip op d \<Rightarrow> rlz4_tail_loop src (length src) N ip op d })
     (lz4_block N out r)"
proof (induction "length r" arbitrary: ip op d out r rule: less_induct)
  case less
  show ?case
  proof (cases "ip < length src - 64 \<and> op < N - 64")
    case False
    then show ?thesis using rlz4_tail_loop_result [OF less.prems(1)]
      by (subst rlz4_fast_loop.simps) auto
  next
    case True
    then obtain s where s: "rlz4_fast_step d N op src (length src) ip = Some s" "agrees src N s (lz4_sequence N out r)"
      using rlz4_fast_step_result [OF less.prems(1)] by fastforce
    show ?thesis
    proof (cases s)
      case (Return v d')
      then obtain y where "lz4_sequence N out r = Stop y" "decodes_to N (Some (v, d')) y"
        using s agrees_Return by blast
      then show ?thesis using s(1) True Return
        by (subst rlz4_fast_loop.simps, subst lz4_block.simps) simp
    next
      case (Continue ip' op' d')
      then obtain out' r' where r': "lz4_sequence N out r = More out' r'" "lz4_at src N ip' op' d' out' r'"
        using s agrees_Continue by blast
      then have "decodes_to N (do { s \<leftarrow> rlz4_fast_loop src (length src) N ip' op' d';
          case s of Return v d \<Rightarrow> Some (v, d) | Continue ip op d \<Rightarrow> rlz4_tail_loop src (length src) N ip op d })
        (lz4_block N out' r')"
        by (intro less.hyps lz4_sequence_shorter less.prems(2,3))
      then show ?thesis using s Continue r' True
        by (subst rlz4_fast_loop.simps, subst lz4_block.simps) simp
    qed
  qed
qed

lemma rlz4_decode_result:
  assumes "length src < 2 ^ 55" and "length dst < 2 ^ 63"
  shows "decodes_to (length dst) (rlz4_decode (Some dst) (length dst) (Some src) (length src)) (lz4_block (length dst) [] src)"
proof (cases "src = []")
  case True
  then show ?thesis by (simp add: rlz4_decode_def lz4_block.simps decodes_to_def)
next
  case False
  have "lz4_at src (length dst) 0 0 dst [] src" using assms by (simp add: lz4_at_def)
  from rlz4_tail_loop_result [OF this] rlz4_fast_loop_result [OF this] False
  show ?thesis by (auto simp: rlz4_decode_def)
qed

section \<open>Blocks written by the format\<close>

text \<open>
  The encoding of a block: sequences of literals and a match, and last literals alone. An offset
  has two bytes and reaches no further than the output; behind the last match there are at least
  five literals.
\<close>

datatype lz4_seq = Seq "byte list" nat nat

fun lz4_len_bytes :: "nat \<Rightarrow> byte list" where
  "lz4_len_bytes n = (if n < 255 then [of_nat n] else 255 # lz4_len_bytes (n - 255))"

declare lz4_len_bytes.simps [simp del]

definition lz4_ext :: "nat \<Rightarrow> byte list" where
  "lz4_ext n = (if n < 15 then [] else lz4_len_bytes (n - 15))"

definition lz4_token :: "nat \<Rightarrow> nat \<Rightarrow> byte" where
  "lz4_token n m = of_nat (16 * min 15 n + min 15 m)"

fun lz4_encode :: "lz4_seq list \<Rightarrow> byte list \<Rightarrow> byte list" where
  "lz4_encode [] lits = lz4_token (length lits) 0 # lz4_ext (length lits) @ lits"
| "lz4_encode (Seq xs offset len # ss) lits =
     lz4_token (length xs) (len - 4) # lz4_ext (length xs) @ xs @
     [of_nat (offset mod 256), of_nat (offset div 256)] @ lz4_ext (len - 4) @ lz4_encode ss lits"

fun lz4_expand :: "byte list \<Rightarrow> lz4_seq list \<Rightarrow> byte list \<Rightarrow> byte list" where
  "lz4_expand out [] lits = out @ lits"
| "lz4_expand out (Seq xs offset len # ss) lits = lz4_expand (lz4_copy offset len (out @ xs)) ss lits"

fun lz4_well_formed :: "nat \<Rightarrow> lz4_seq list \<Rightarrow> byte list \<Rightarrow> bool" where
  "lz4_well_formed n [] lits \<longleftrightarrow> True"
| "lz4_well_formed n (Seq xs offset len # ss) lits \<longleftrightarrow>
     5 \<le> length lits \<and> 0 < offset \<and> offset < 2 ^ 16 \<and> offset \<le> n + length xs \<and> 4 \<le> len \<and>
     lz4_well_formed (n + length xs + len) ss lits"

lemma lz4_token_nibbles:
  "unat (drop_bit 4 (lz4_token n m)) = min 15 n" "unat (lz4_token n m AND 15) = min 15 m"
proof -
  have "16 * min 15 n + min 15 m < (2::nat) ^ LENGTH(8)" by simp
  then have t: "unat (lz4_token n m) = 16 * min 15 n + min 15 m" by (simp only: lz4_token_def unat_of_nat mod_less)
  have "unat (drop_bit 4 (lz4_token n m)) = unat (lz4_token n m) div 16"
    by (simp only: unsigned_drop_bit_eq) (simp add: drop_bit_eq_div take_bit_eq_mod t)
  then show "unat (drop_bit 4 (lz4_token n m)) = min 15 n" unfolding t by simp
  have "(15 :: byte) = mask 4" by (simp add: mask_eq_exp_minus_1)
  then have "unat (lz4_token n m AND 15) = unat (lz4_token n m) mod 16" by (simp only: unat_and_mask) simp
  then show "unat (lz4_token n m AND 15) = min 15 m" unfolding t by simp
qed

lemma lz4_extend_len_bytes: "margin \<le> length r \<Longrightarrow> lz4_extend margin n (lz4_len_bytes k @ r) = Some (n + k, r)"
proof (induction k arbitrary: n rule: less_induct)
  case (less k)
  show ?case
  proof (cases "k < 255")
    case True
    then have "unat (of_nat k :: byte) = k" by (simp add: unat_of_nat)
    moreover have "(of_nat k :: byte) \<noteq> 255"
    proof
      assume "(of_nat k :: byte) = 255"
      then have "unat (of_nat k :: byte) = 255" by simp
      with calculation True show False by simp
    qed
    ultimately show ?thesis using True less.prems by (subst lz4_len_bytes.simps) simp
  next
    case False
    then show ?thesis using less.IH [of "k - 255" "n + 255"] less.prems by (subst lz4_len_bytes.simps) simp
  qed
qed

lemma lz4_length_ext: "15 \<le> n \<longrightarrow> margin \<le> length r \<Longrightarrow> lz4_length margin (min 15 n) (lz4_ext n @ r) = Some (n, r)"
  by (simp add: lz4_length_def lz4_ext_def lz4_extend_len_bytes min_def)

lemma lz4_copy_append: "\<exists>ys. lz4_copy offset n out = out @ ys"
  by (induction n) (auto simp: Let_def)

lemma lz4_expand_append: "\<exists>ys. lz4_expand out ss lits = out @ ys"
proof (induction out ss lits rule: lz4_expand.induct)
  case (2 out xs offset len ss lits)
  then show ?case using lz4_copy_append [of offset len "out @ xs"] by auto
qed simp

lemma lz4_copy_take:
  "k \<le> n \<Longrightarrow> lz4_copy offset k out = take (length out + k) (lz4_copy offset n out)"
proof (induction n)
  case (Suc n)
  then show ?case by (cases "k = Suc n") (simp_all add: Let_def)
qed simp

lemma length_lz4_encode: "length lits < length (lz4_encode ss lits)"
  by (induction ss lits rule: lz4_encode.induct) simp_all

lemma lz4_block_encode:
  "length out \<le> cap \<Longrightarrow> lz4_well_formed (length out) ss lits \<Longrightarrow>
   lz4_block cap out (lz4_encode ss lits) = Decoded (take cap (lz4_expand out ss lits))"
proof (induction ss arbitrary: out)
  case Nil
  have "lz4_length 15 (min 15 (length lits)) (lz4_ext (length lits) @ lits) = Some (length lits, lits)"
    by (rule lz4_length_ext) simp
  then show ?case
    using Nil.prems by (subst lz4_block.simps) (simp add: lz4_token_nibbles lz4_literals_def)
next
  case (Cons s ss)
  obtain xs offset len where s: "s = Seq xs offset len" by (cases s)
  let ?rest = "lz4_encode ss lits"
  let ?r = "of_nat (offset mod 256) # of_nat (offset div 256) # lz4_ext (len - 4) @ ?rest"
  note wf = Cons.prems(2) [unfolded s lz4_well_formed.simps]
  have rest: "6 \<le> length ?rest" using length_lz4_encode [of lits ss] wf by simp
  have lits: "lz4_length 15 (min 15 (length xs)) (lz4_ext (length xs) @ xs @ ?r) = Some (length xs, xs @ ?r)"
    by (rule lz4_length_ext) simp
  obtain ys where ys: "lz4_expand out (s # ss) lits = out @ xs @ ys"
    using lz4_expand_append [of "lz4_copy offset len (out @ xs)" ss lits] lz4_copy_append [of offset len "out @ xs"]
    by (auto simp: s)
  show ?case
  proof (cases "length xs > cap - length out")
    case True
    then show ?thesis using Cons.prems(1) unfolding ys
      by (subst lz4_block.simps) (simp add: s lz4_token_nibbles lits lz4_literals_def)
  next
    case False
    define o1 where "o1 = out @ xs"
    define k where "k = min len (cap - length o1)"
    have o1: "length o1 \<le> cap" using False Cons.prems(1) by (simp add: o1_def)
    have bytes: "unat (of_nat (offset mod 256) :: byte) + 256 * unat (of_nat (offset div 256) :: byte) = offset"
    proof -
      have "offset < 2 ^ 16" using wf by blast
      then have "offset div 256 < 256" by simp
      then show ?thesis by (simp add: unat_of_nat)
    qed
    obtain x xs' where ne: "lz4_ext (len - 4) @ ?rest = x # xs'" using rest by (cases "lz4_ext (len - 4) @ ?rest") auto
    have len: "lz4_length 6 (min 15 (len - 4)) (x # xs') = Some (len - 4, ?rest)"
      unfolding ne [symmetric] using rest by (intro lz4_length_ext impI)
    have match: "lz4_match cap o1 (lz4_token (length xs) (len - 4)) ?r =
        (if length (lz4_copy offset k o1) = cap then Stop (Decoded (lz4_copy offset k o1)) else More (lz4_copy offset k o1) ?rest)"
    proof -
      have "\<not> (offset = 0 \<or> length o1 < offset)" "len - 4 + 4 = len" using wf by (auto simp: o1_def)
      then show ?thesis
        unfolding ne lz4_match.simps bytes lz4_token_nibbles len Let_def option.case prod.case k_def by (simp only: if_False)
    qed
    have step: "lz4_sequence cap out (lz4_encode (s # ss) lits) = lz4_match cap o1 (lz4_token (length xs) (len - 4)) ?r"
      using False by (simp add: s lz4_token_nibbles lits lz4_literals_def o1_def)
    show ?thesis
    proof (cases "length o1 + k = cap")
      case True
      obtain zs where "lz4_expand out (s # ss) lits = lz4_copy offset len o1 @ zs"
        using lz4_expand_append [of "lz4_copy offset len o1" ss lits] by (auto simp: s o1_def)
      moreover have "lz4_copy offset k o1 = take cap (lz4_copy offset len o1)" "length (lz4_copy offset len o1) \<ge> cap"
        using lz4_copy_take [of k len offset o1] True by (simp_all add: k_def)
      ultimately show ?thesis using True by (subst lz4_block.simps) (simp add: step match)
    next
      case less: False
      then have "k = len" using o1 by (simp add: k_def min_def split: if_splits)
      moreover have "lz4_block cap (lz4_copy offset len o1) ?rest = Decoded (take cap (lz4_expand (lz4_copy offset len o1) ss lits))"
        using less o1 wf \<open>k = len\<close> by (intro Cons.IH) (simp_all add: k_def o1_def)
      ultimately show ?thesis using less by (subst lz4_block.simps) (simp add: step match del: lz4_encode.simps, simp add: s o1_def)
    qed
  qed
qed

section \<open>Properties\<close>

text \<open>
  C9. for every input and every output buffer the decoder returns, copies no overlapping or outside
  bytes, and gives what \<open>lz4_block\<close> says of the input: the bytes up to the end of the block or the end
  of the buffer and their number, or the error of the first sequence whose length is cut short or
  whose match reaches before the output. The fast loop, with its copies beyond the match, and the
  careful loop give the same result. Of a block that ends inside a sequence this is what the code does,
  and not the longest prefix of whole sequences that \<open>rlz4.h\<close> announces: literals that are cut short are
  kept as far as they go, and a length that is cut short is an error (\<open>rlz4_decode_cut_sequence\<close>).
\<close>

theorem rlz4_decode_correct:
  assumes "length src < 2 ^ 55" and "length dst < 2 ^ 63"
  shows "\<exists>v dst'. rlz4_decode (Some dst) (length dst) (Some src) (length src) = Some (v, dst') \<and>
    length dst' = length dst \<and>
    (case lz4_block (length dst) [] src of
       Decoded out \<Rightarrow> v = int (length out) \<and> take (length out) dst' = out
     | Failed e \<Rightarrow> v = e)"
  using rlz4_decode_result [OF assms] by (cases "lz4_block (length dst) [] src") (auto simp: decodes_to_def)

text \<open>The witness: three literals, a match of six bytes at offset 3, and an output with room to spare.\<close>

theorem rlz4_decode_correct_witness:
  "\<exists>v dst'. rlz4_decode (Some (replicate 12 0)) 12 (Some [0x32, 7, 8, 9, 3, 0, 0x50, 1, 2, 3, 4, 5]) 12 = Some (v, dst') \<and>
    v = 12 \<and> length dst' = 12"
proof -
  let ?src = "[0x32, 7, 8, 9, 3, 0, 0x50, 1, 2, 3, 4, 5] :: byte list" and ?dst = "replicate 12 0 :: byte list"
  have block: "lz4_block 12 [] ?src = Decoded [7, 8, 9, 7, 8, 9, 7, 8, 9, 1, 2, 3]" by code_simp
  have l: "length ?src = 12" "length ?dst = 12" "(12 :: nat) < 2 ^ 55" "(12 :: nat) < 2 ^ 63" by simp_all
  show ?thesis
    using rlz4_decode_correct [of ?src ?dst, unfolded l(1,2) block, OF l(3,4)] by auto
qed

text \<open>
  A block that ends inside its first sequence has no whole sequence, and by \<open>rlz4.h\<close> it would decode to
  zero bytes. When its literals are cut short it decodes to them instead, and when the length of the
  literals is cut short it is an error.
\<close>

theorem rlz4_decode_cut_sequence:
  assumes "length xs < n" and "n < 15" and "length xs < length dst" and "length dst < 2 ^ 63"
    and "length ys \<le> 15"
  shows "(\<exists>dst'. rlz4_decode (Some dst) (length dst) (Some (lz4_token n m # xs)) (length (lz4_token n m # xs)) =
      Some (int (length xs), dst') \<and> take (length xs) dst' = xs) \<and>
    (\<exists>dst'. rlz4_decode (Some dst) (length dst) (Some (lz4_token 15 m # ys)) (length (lz4_token 15 m # ys)) =
      Some (RLZ4_ERROR_TRUNCATED, dst'))"
proof
  have "lz4_block (length dst) [] (lz4_token n m # xs) = Decoded xs"
    using assms(1-3) by (subst lz4_block.simps) (simp add: lz4_token_nibbles lz4_length_def lz4_literals_def)
  with rlz4_decode_result [of "lz4_token n m # xs" dst] assms
  show "\<exists>dst'. rlz4_decode (Some dst) (length dst) (Some (lz4_token n m # xs)) (length (lz4_token n m # xs)) =
      Some (int (length xs), dst') \<and> take (length xs) dst' = xs"
    by (auto simp: decodes_to_def)
  have "lz4_extend 15 15 ys = None" using assms(5) by (cases ys) auto
  then have "lz4_block (length dst) [] (lz4_token 15 m # ys) = Failed RLZ4_ERROR_TRUNCATED"
    by (subst lz4_block.simps) (simp add: lz4_token_nibbles lz4_length_def)
  with rlz4_decode_result [of "lz4_token 15 m # ys" dst] assms(4,5)
  show "\<exists>dst'. rlz4_decode (Some dst) (length dst) (Some (lz4_token 15 m # ys)) (length (lz4_token 15 m # ys)) =
      Some (RLZ4_ERROR_TRUNCATED, dst')"
    by (auto simp: decodes_to_def)
qed

text \<open>
  C10. decoding a block written by the format gives back what it stands for, as far as the output
  buffer reaches: the literals and the copies, byte by byte, cut at the end of the buffer. The
  margins the decoder keeps at the end of the input never reject such a block.
\<close>

theorem rlz4_decode_roundtrip:
  assumes "lz4_well_formed 0 ss lits" and "length (lz4_encode ss lits) < 2 ^ 55" and "length dst < 2 ^ 63"
  shows "\<exists>dst'. rlz4_decode (Some dst) (length dst) (Some (lz4_encode ss lits)) (length (lz4_encode ss lits)) =
      Some (int (min (length dst) (length (lz4_expand [] ss lits))), dst') \<and>
    length dst' = length dst \<and>
    take (length (lz4_expand [] ss lits)) dst' = take (length dst) (lz4_expand [] ss lits)"
proof -
  have "lz4_block (length dst) [] (lz4_encode ss lits) = Decoded (take (length dst) (lz4_expand [] ss lits))"
    using assms(1) by (intro lz4_block_encode) simp_all
  then obtain d where d: "length d = length dst"
    "rlz4_decode (Some dst) (length dst) (Some (lz4_encode ss lits)) (length (lz4_encode ss lits)) =
      Some (int (min (length dst) (length (lz4_expand [] ss lits))), d)"
    "take (min (length (lz4_expand [] ss lits)) (length dst)) d = take (length dst) (lz4_expand [] ss lits)"
    using rlz4_decode_result [OF assms(2,3)] by (auto simp: decodes_to_def min.commute)
  moreover have "take (length (lz4_expand [] ss lits)) d = take (min (length (lz4_expand [] ss lits)) (length dst)) d"
    using d(1) by (simp add: min_def)
  ultimately show ?thesis by auto
qed

text \<open>The witness: \<open>ababab\<close> repeated by a match at offset 2, and five literals.\<close>

theorem rlz4_decode_roundtrip_witness:
  "\<exists>dst'. rlz4_decode (Some (replicate 20 0)) 20
      (Some (lz4_encode [Seq [0x61, 0x62] 2 4] [1, 2, 3, 4, 5])) (length (lz4_encode [Seq [0x61, 0x62] 2 4] [1, 2, 3, 4, 5])) =
      Some (11, dst') \<and> take 11 dst' = [0x61, 0x62, 0x61, 0x62, 0x61, 0x62, 1, 2, 3, 4, 5]"
proof -
  let ?ss = "[Seq [0x61, 0x62] 2 4]" and ?lits = "[1, 2, 3, 4, 5]"
  have "lz4_expand [] ?ss ?lits = [0x61, 0x62, 0x61, 0x62, 0x61, 0x62, 1, 2, 3, 4, 5]"
    by (simp add: eval_nat_numeral Let_def)
  then have e: "lz4_expand [] ?ss ?lits = [0x61, 0x62, 0x61, 0x62, 0x61, 0x62, 1, 2, 3, 4, 5]" .
  have wf: "lz4_well_formed 0 ?ss ?lits" by simp
  have l: "length (lz4_encode ?ss ?lits) < 2 ^ 55" by (simp add: lz4_ext_def)
  have d: "length (replicate 20 (0 :: byte)) = 20" by simp
  have "length (replicate 20 (0 :: byte)) < 2 ^ 63" by simp
  from rlz4_decode_roundtrip [OF wf l this, unfolded e d] show ?thesis
    by (simp del: lz4_encode.simps) (auto simp: eval_nat_numeral simp del: lz4_encode.simps)
qed

end
