(* ===== verification/Utf8.thy ===== *)
theory Utf8
  imports Cstring
begin

text \<open>
  The UTF-8 half of \<open>encodings/encoding_utf.c\<close>: decoding to code points, counting, skipping,
  walking and copying characters. The pointer \<open>in\<close> only moves forward and is the list of bytes
  from it on; \<open>utf8cpy\<close> moves back and uses indices.
\<close>

section \<open>The code\<close>

definition utf8_lut :: "nat list" where
  "utf8_lut = replicate 128 0 @ replicate 64 1 @ replicate 32 2 @ replicate 16 3 @ replicate 8 4 @
     replicate 4 5 @ [6, 6] @ [7, 7]"

text \<open>Eight bytes read as a little-endian word.\<close>

definition load64 :: "byte list \<Rightarrow> 64 word option" where
  "load64 p = map_option (\<lambda>bs. word_rcat (rev bs)) (mem_read p 0 8)"

definition HIGH_BITS :: "64 word" where
  "HIGH_BITS = 0x8080808080808080"

text \<open>
  The two loops over a run of ASCII: eight bytes at a time, then one. The state is the input, its
  size, the output buffer with the room left and the number of characters written so far, which
  is where the next one goes.
\<close>

function ascii8_loop :: "byte list \<Rightarrow> nat \<Rightarrow> u32 list \<Rightarrow> nat \<Rightarrow> nat \<Rightarrow> (byte list \<times> nat \<times> u32 list \<times> nat \<times> nat) option" where
  "ascii8_loop inp in_size out out_chars ret =
     (if in_size \<ge> 8 \<and> out_chars \<ge> 8
      then do {
        w \<leftarrow> load64 inp;
        if w AND HIGH_BITS \<noteq> 0 then Some (inp, in_size, out, out_chars, ret)
        else do {
          bs \<leftarrow> mem_read inp 0 8;
          out \<leftarrow> mem_write out ret (map ucast bs);
          ascii8_loop (drop 8 inp) (in_size - 8) out (out_chars - 8) (ret + 8) } }
      else Some (inp, in_size, out, out_chars, ret))"
  by pat_completeness auto
termination by (relation "measure (\<lambda>(inp, in_size, out, out_chars, ret). in_size)") auto

fun ascii1_loop :: "byte list \<Rightarrow> nat \<Rightarrow> u32 list \<Rightarrow> nat \<Rightarrow> nat \<Rightarrow> (byte list \<times> nat \<times> u32 list \<times> nat \<times> nat) option" where
  "ascii1_loop inp 0 out out_chars ret = Some (inp, 0, out, out_chars, ret)"
| "ascii1_loop inp (Suc in_size) out out_chars ret =
     (if out_chars = 0 then Some (inp, Suc in_size, out, out_chars, ret)
      else do {
        b \<leftarrow> deref inp;
        if b < 0x80
        then do {
          out \<leftarrow> arr_set out ret (ucast b);
          ascii1_loop (tl inp) in_size out (out_chars - 1) (ret + 1) }
        else Some (inp, Suc in_size, out, out_chars, ret) })"

declare ascii8_loop.simps [simp del] ascii1_loop.simps [simp del]

text \<open>One continuation byte, and the loop over those of a long sequence.\<close>

definition continuation :: "u32 \<Rightarrow> byte list \<Rightarrow> (u32 \<times> byte list) option" where
  "continuation c inp = do { b \<leftarrow> deref inp; Some (push_bit 6 c OR ucast (b AND 0x3F), tl inp) }"

primrec continuation_loop :: "nat \<Rightarrow> u32 \<Rightarrow> byte list \<Rightarrow> (u32 \<times> byte list) option" where
  "continuation_loop 0 c inp = Some (c, inp)"
| "continuation_loop (Suc n) c inp = do { (c, inp) \<leftarrow> continuation c inp; continuation_loop n c inp }"

text \<open>
  A sequence after its first byte: the code point, the input behind it and its size; \<open>Some None\<close>
  where the code leaves the loop.
\<close>

definition utf8_sequence :: "byte \<Rightarrow> byte list \<Rightarrow> nat \<Rightarrow> (u32 \<times> byte list \<times> nat) option option" where
  "utf8_sequence first inp in_size =
     (if first < 0xE0 then
        (if first < 0xC0 then Some None
         else if in_size < 2 then Some None
         else do {
           (c, inp) \<leftarrow> continuation (ucast (first AND 0x1F)) inp;
           Some (Some (c, inp, in_size - 2)) })
      else if first < 0xF0 then
        (if in_size < 3 then Some None
         else do {
           (c, inp) \<leftarrow> continuation (ucast (first AND 0x0F)) inp;
           (c, inp) \<leftarrow> continuation c inp;
           Some (Some (c, inp, in_size - 3)) })
      else if first < 0xF8 then
        (if in_size < 4 then Some None
         else do {
           (c, inp) \<leftarrow> continuation (ucast (first AND 0x07)) inp;
           (c, inp) \<leftarrow> continuation c inp;
           (c, inp) \<leftarrow> continuation c inp;
           Some (Some (c, inp, in_size - 4)) })
      else do {
        ones \<leftarrow> arr_get utf8_lut (unat first);
        if ones > 6 then Some None
        else if ones > in_size then Some None
        else do {
          (c, inp) \<leftarrow> continuation_loop (ones - 1) (ucast first AND (push_bit (7 - ones) 1 - 1)) inp;
          Some (Some (c, inp, in_size - ones)) } })"

partial_function (option) utf8_conv_loop ::
  "byte list \<Rightarrow> nat \<Rightarrow> u32 list \<Rightarrow> nat \<Rightarrow> nat \<Rightarrow> (u32 list \<times> nat) option" where
  "utf8_conv_loop inp in_size out out_chars ret =
     (if in_size \<noteq> 0 \<and> out_chars \<noteq> 0
      then do {
        b \<leftarrow> deref inp;
        (inp, in_size, out, out_chars, ret) \<leftarrow>
          (if b < 0x80
           then do {
             (inp, in_size, out, out_chars, ret) \<leftarrow> ascii8_loop inp in_size out out_chars ret;
             ascii1_loop inp in_size out out_chars ret }
           else Some (inp, in_size, out, out_chars, ret));
        if b < 0x80 \<and> (in_size = 0 \<or> out_chars = 0) then Some (out, ret)
        else do {
          first \<leftarrow> deref inp;
          r \<leftarrow> utf8_sequence first (tl inp) in_size;
          case r of
            None \<Rightarrow> Some (out, ret)
          | Some (c, inp, in_size) \<Rightarrow> do {
              out \<leftarrow> arr_set out ret c;
              utf8_conv_loop inp in_size out (out_chars - 1) (ret + 1) } } }
      else Some (out, ret))"

definition utf8_conv_utf32 :: "u32 list \<Rightarrow> nat \<Rightarrow> byte list \<Rightarrow> nat \<Rightarrow> (u32 list \<times> nat) option" where
  "utf8_conv_utf32 out out_chars inp in_size = utf8_conv_loop inp in_size out out_chars 0"

text \<open>Counting: a byte that continues a character, and the sum over a word of eight bytes.\<close>

abbreviation continues :: "byte \<Rightarrow> bool" where
  "continues b \<equiv> b AND 0xC0 = 0x80"

definition count_word :: "64 word \<Rightarrow> nat" where
  "count_word w =
     (let c = drop_bit 7 (w AND NOT (push_bit 1 w) AND HIGH_BITS);
          c = c + drop_bit 32 c;
          c = c + drop_bit 16 c;
          c = c + drop_bit 8 c
      in 8 - unat (c AND 0xFF))"

text \<open>The three loops of \<open>utf8len\<close>; the first one runs up to an aligned address.\<close>

fun count_byte_loop :: "byte list \<Rightarrow> nat \<Rightarrow> nat \<Rightarrow> nat option" where
  "count_byte_loop p 0 ret = Some ret"
| "count_byte_loop p (Suc n) ret = do {
     b \<leftarrow> deref p;
     count_byte_loop (tl p) n (if \<not> continues b then ret + 1 else ret) }"

fun count_align_loop :: "nat \<Rightarrow> byte list \<Rightarrow> nat \<Rightarrow> nat \<Rightarrow> (byte list \<times> nat \<times> nat) option" where
  "count_align_loop addr p 0 ret = Some (p, 0, ret)"
| "count_align_loop addr p (Suc n) ret =
     (if addr mod 8 = 0 then Some (p, Suc n, ret)
      else do {
        b \<leftarrow> deref p;
        count_align_loop (addr + 1) (tl p) n (if \<not> continues b then ret + 1 else ret) })"

function count_word_loop :: "byte list \<Rightarrow> nat \<Rightarrow> nat \<Rightarrow> (byte list \<times> nat \<times> nat) option" where
  "count_word_loop p n ret =
     (if n \<ge> 8
      then do { w \<leftarrow> load64 p; count_word_loop (drop 8 p) (n - 8) (ret + count_word w) }
      else Some (p, n, ret))"
  by pat_completeness auto
termination by (relation "measure (\<lambda>(p, n, ret). n)") auto

declare count_word_loop.simps [simp del]

text \<open>\<open>addr\<close> is the address of the string.\<close>

definition utf8len :: "nat \<Rightarrow> byte list option \<Rightarrow> nat option" where
  "utf8len addr string = (case string of
     None \<Rightarrow> Some 0
   | Some p \<Rightarrow> do {
       n \<leftarrow> strlen p;
       (p, n, ret) \<leftarrow> count_align_loop addr p n 0;
       (p, n, ret) \<leftarrow> count_word_loop p n ret;
       count_byte_loop p n ret })"

text \<open>\<open>if (*strb) strb++\<close>, nested \<open>n\<close> times.\<close>

fun skip_nonzero :: "nat \<Rightarrow> byte list \<Rightarrow> byte list option" where
  "skip_nonzero 0 s = Some s"
| "skip_nonzero (Suc n) s = do { b \<leftarrow> deref s; if b \<noteq> 0 then skip_nonzero n (tl s) else Some s }"

fun skip_ascii :: "byte list \<Rightarrow> nat \<Rightarrow> (byte list \<times> nat) option" where
  "skip_ascii s 0 = Some (s, 0)"
| "skip_ascii s (Suc chars) =
     (if chars = 0 then Some (s, Suc chars)
      else do {
        nb \<leftarrow> deref s;
        if nb = 0 \<or> nb \<ge> 0x80 then Some (s, Suc chars) else skip_ascii (tl s) chars })"

lemma skip_ascii_le: "skip_ascii s n = Some (s', m) \<Longrightarrow> m \<le> n"
  by (induction s n rule: skip_ascii.induct) (fastforce simp: bind_eq_Some_conv split: if_splits)+

function utf8skip_loop :: "byte list \<Rightarrow> nat \<Rightarrow> byte list option" where
  "utf8skip_loop s chars = do {
     b \<leftarrow> deref s;
     if b = 0 then Some s
     else do {
       (s, chars) \<leftarrow>
         (if b < 0xC0 then (if b < 0x80 then skip_ascii (tl s) chars else Some (tl s, chars))
          else if b < 0xE0 then map_option (\<lambda>s. (s, chars)) (skip_nonzero 1 (tl s))
          else if b < 0xF0 then map_option (\<lambda>s. (s, chars)) (skip_nonzero 2 (tl s))
          else if b < 0xF8 then map_option (\<lambda>s. (s, chars)) (skip_nonzero 3 (tl s))
          else do {
            ones \<leftarrow> arr_get utf8_lut (unat b);
            map_option (\<lambda>s. (s, chars)) (skip_nonzero ones s) });
       if chars - 1 = 0 then Some s else utf8skip_loop s (chars - 1) } }"
  by pat_completeness auto

termination
  by (relation "measure snd") (auto dest!: skip_ascii_le split: if_splits simp: bind_eq_Some_conv)

declare utf8skip_loop.simps [simp del]

definition utf8skip :: "byte list \<Rightarrow> nat \<Rightarrow> byte list option" where
  "utf8skip str chars = (if chars = 0 then Some str else utf8skip_loop str chars)"

text \<open>\<open>utf8_walk\<close>: a continuation byte that is not the terminator, up to \<open>n\<close> of them.\<close>

fun walk_bytes :: "nat \<Rightarrow> u32 \<Rightarrow> byte list \<Rightarrow> (u32 \<times> byte list) option" where
  "walk_bytes 0 ret s = Some (ret, s)"
| "walk_bytes (Suc n) ret s = do {
     b \<leftarrow> deref s;
     if b \<noteq> 0 then walk_bytes n (push_bit 6 ret OR ucast (b AND 0x3F)) (tl s) else Some (ret, s) }"

definition utf8_walk :: "byte list \<Rightarrow> (u32 \<times> byte list) option" where
  "utf8_walk s = do {
     first \<leftarrow> deref s;
     let s = tl s;
     if first < 0x80 then Some (ucast first, s)
     else if first < 0xE0 then
       (if first < 0xC0 then Some (ucast (first AND 0x3F), s) else walk_bytes 1 (ucast (first AND 0x1F)) s)
     else if first < 0xF0 then walk_bytes 2 (ucast (first AND 0x0F)) s
     else if first < 0xF8 then walk_bytes 3 (ucast (first AND 0x07)) s
     else do {
       ones \<leftarrow> arr_get utf8_lut (unat first);
       Some (ucast first AND (push_bit (7 - ones) 1 - 1), s) } }"

text \<open>\<open>utf8cpy\<close>, with the index of \<open>sb\<close> in the buffer \<open>in\<close>.\<close>

function skip_cont :: "byte list \<Rightarrow> nat \<Rightarrow> nat option" where
  "skip_cont inp i = do { b \<leftarrow> arr_get inp i; if continues b then skip_cont inp (i + 1) else Some i }"
  by pat_completeness auto
termination by (relation "measure (\<lambda>(inp, i). length inp - i)") (auto simp: arr_get_def split: if_splits)

declare skip_cont.simps [simp del]

fun cpy_loop :: "byte list \<Rightarrow> nat \<Rightarrow> nat \<Rightarrow> nat \<Rightarrow> nat option" where
  "cpy_loop inp len i chars =
     (if i < len - 1
      then do {
        b \<leftarrow> arr_get inp i;
        if b = 0 then Some i
        else (case chars of
            0 \<Rightarrow> Some i
          | Suc chars \<Rightarrow> do { i \<leftarrow> skip_cont inp (i + 1); cpy_loop inp len i chars }) }
      else Some i)"

declare cpy_loop.simps [simp del]

fun cpy_back :: "byte list \<Rightarrow> nat \<Rightarrow> nat option" where
  "cpy_back inp 0 = Some 0"
| "cpy_back inp (Suc i) = do { b \<leftarrow> arr_get inp (Suc i); if continues b then cpy_back inp i else Some (Suc i) }"

definition utf8cpy :: "byte list \<Rightarrow> nat \<Rightarrow> byte list option \<Rightarrow> nat \<Rightarrow> (byte list \<times> nat) option" where
  "utf8cpy s len inp chars = (case inp of
     None \<Rightarrow> Some (s, 0)
   | Some inp \<Rightarrow>
       if len = 0 then Some (s, 0)
       else do {
         i \<leftarrow> cpy_loop inp len 0 chars;
         byte_count \<leftarrow> (if i > len - 1 then cpy_back inp (len - 1) else Some i);
         bs \<leftarrow> mem_read inp 0 byte_count;
         s \<leftarrow> mem_write s 0 bs;
         s \<leftarrow> arr_set s byte_count 0;
         Some (s, byte_count) })"

section \<open>Eight bytes in a word\<close>

lemma bit_le_word: "bit (word_rcat (rev bs) :: 64 word) n \<longleftrightarrow> n < 64 \<and> n div 8 < length bs \<and> bit (bs ! (n div 8) :: byte) (n mod 8)"
  using bit_horner_sum_uint_exp_iff [of bs n] by (auto simp: word_rcat_def bit_simps)

lemma bit_0x80: "bit (0x80 :: byte) j \<longleftrightarrow> j = 7"
proof -
  have "(0x80 :: byte) = push_bit 7 1" by simp
  then show ?thesis by (simp only: bit_simps) auto
qed

lemma bit_HIGH_BITS: "bit HIGH_BITS n \<longleftrightarrow> n < 64 \<and> n mod 8 = 7"
proof -
  let ?bs = "[0x80, 0x80, 0x80, 0x80, 0x80, 0x80, 0x80, 0x80] :: byte list"
  have eq: "HIGH_BITS = word_rcat (rev ?bs)" by (simp add: HIGH_BITS_def word_rcat_def)
  have "bit HIGH_BITS n \<longleftrightarrow> n < 64 \<and> n div 8 < length ?bs \<and> bit (?bs ! (n div 8)) (n mod 8)"
    unfolding eq by (rule bit_le_word)
  moreover have "length ?bs = 8" by simp
  moreover have "?bs ! i = 0x80" if "i < 8" for i
    using that by (auto simp: less_Suc_eq numeral_nat nth_Cons')
  moreover have "n < 64 \<Longrightarrow> n div 8 < 8" by simp
  ultimately show ?thesis by (auto simp only: bit_0x80)
qed

lemma bit_7: "bit (b :: byte) 7 \<longleftrightarrow> \<not> b < 0x80"
proof -
  have "unat b < 256" using unsigned_less [of b, where ?'a = nat] by simp
  then have "odd (unat b div 2 ^ 7) \<longleftrightarrow> 128 \<le> unat b"
    by (cases "unat b < 128") (simp_all add: div_if)
  moreover have "bit b 7 \<longleftrightarrow> bit (unat b) 7" by (simp add: bit_simps)
  ultimately show ?thesis by (simp add: bit_iff_odd word_less_nat_alt not_less)
qed

lemma bit_6_7: "continues (b :: byte) \<longleftrightarrow> bit b 7 \<and> \<not> bit b 6"
proof -
  have c0: "bit (0xC0 :: byte) j \<longleftrightarrow> j = 6 \<or> j = 7" for j
  proof -
    have "(0xC0 :: byte) = push_bit 6 1 OR push_bit 7 1" by simp
    then show ?thesis by (simp only: bit_simps) auto
  qed
  show ?thesis
  proof
    assume eq: "continues b"
    have "(bit b n \<and> (n = 6 \<or> n = 7)) = (n = 7)" for n
      using arg_cong [OF eq, of "\<lambda>w. bit w n"] by (simp only: bit_and_iff c0 bit_0x80)
    from this [of 7] this [of 6] show "bit b 7 \<and> \<not> bit b 6" by simp
  next
    assume "bit b 7 \<and> \<not> bit b 6"
    then show "continues b"
      by (intro bit_word_eqI) (auto simp only: bit_and_iff c0 bit_0x80)
  qed
qed

lemma high_bits_clear:
  assumes "length bs = 8"
  shows "word_rcat (rev bs) AND HIGH_BITS = 0 \<longleftrightarrow> (\<forall>b \<in> set bs. b < (0x80 :: byte))"
proof -
  have bits: "bit (word_rcat (rev bs) AND HIGH_BITS) n \<longleftrightarrow> n < 64 \<and> bit (bs ! (n div 8)) 7 \<and> n mod 8 = 7" for n
    using assms by (auto simp: bit_and_iff bit_le_word bit_HIGH_BITS)
  have "word_rcat (rev bs) AND HIGH_BITS = 0 \<longleftrightarrow> (\<forall>n. \<not> bit (word_rcat (rev bs) AND HIGH_BITS) n)"
    by (metis bit_0_eq bot_apply bot_bool_def bit_word_eqI)
  also have "\<dots> \<longleftrightarrow> (\<forall>i<8. \<not> bit (bs ! i) 7)"
  proof (intro iffI allI impI)
    fix i :: nat
    assume all: "\<forall>n. \<not> bit (word_rcat (rev bs) AND HIGH_BITS) n" and i: "i < 8"
    have "(7 + 8 * i) div 8 = i" "(7 + 8 * i) mod 8 = 7" "7 + 8 * i < 64" using i by simp_all
    with all [unfolded bits, rule_format, of "7 + 8 * i"] show "\<not> bit (bs ! i) 7" by simp
  next
    fix n :: nat
    assume "\<forall>i<8. \<not> bit (bs ! i) 7"
    moreover have "n < 64 \<Longrightarrow> n div 8 < 8" by simp
    ultimately show "\<not> bit (word_rcat (rev bs) AND HIGH_BITS) n" unfolding bits by blast
  qed
  finally show ?thesis using assms by (simp add: bit_7 all_set_conv_all_nth)
qed

text \<open>The sum over the eight bytes: each contributes its flag, and no digit overflows.\<close>

lemma word_rcat_flags:
  "word_rcat (rev [k0, k1, k2, k3, k4, k5, k6, k7 :: byte]) =
    (of_nat (unat k0 + 256 * (unat k1 + 256 * (unat k2 + 256 * (unat k3 + 256 *
      (unat k4 + 256 * (unat k5 + 256 * (unat k6 + 256 * unat k7))))))) :: 64 word)"
proof -
  have "horner_sum uint (2 ^ LENGTH(8)) [k0, k1, k2, k3, k4, k5, k6, k7] =
      int (unat k0 + 256 * (unat k1 + 256 * (unat k2 + 256 * (unat k3 + 256 *
        (unat k4 + 256 * (unat k5 + 256 * (unat k6 + 256 * unat k7)))))))"
    by simp
  then show ?thesis unfolding word_rcat_def comp_def rev_rev_ident by (simp only: of_int_of_nat_eq)
qed

lemma div_16: "a < 256 \<Longrightarrow> b < 256 \<Longrightarrow> (a + 256 * (b + 256 * r)) div (65536 :: nat) = r"
  by (simp add: div_mult2_eq [of _ 256 256, simplified])

lemma div_8: "a < 256 \<Longrightarrow> (a + 256 * r) div (256 :: nat) = r"
  by simp

lemma sum_of_digits:
  assumes "k0 \<le> 1" "k1 \<le> 1" "k2 \<le> 1" "k3 \<le> 1" "k4 \<le> 1" "k5 \<le> 1" "k6 \<le> 1" "k7 \<le> (1::nat)"
  shows "let c = (of_nat (k0 + 256 * (k1 + 256 * (k2 + 256 * (k3 + 256 * (k4 + 256 * (k5 + 256 * (k6 + 256 * k7))))))) :: 64 word);
          c = c + drop_bit 32 c; c = c + drop_bit 16 c; c = c + drop_bit 8 c
      in unat (c AND 0xFF) = k0 + k1 + k2 + k3 + k4 + k5 + k6 + k7"
proof -
  define h where "h = k4 + 256 * (k5 + 256 * (k6 + 256 * k7))"
  define c0 where "c0 = k0 + 256 * (k1 + 256 * (k2 + 256 * (k3 + 256 * h)))"
  define c1 where "c1 = (k0 + k4) + 256 * ((k1 + k5) + 256 * ((k2 + k6) + 256 * ((k3 + k7) + 256 * h)))"
  define x where "x = (k2 + k6) + 256 * ((k3 + k7) + 256 * h)"
  define c2 where "c2 = (k0 + k4 + k2 + k6) + 256 * ((k1 + k5) + (k3 + k7) + 256 * (x + h))"
  define c3 where "c3 = (k0 + k4 + k2 + k6 + (k1 + k5 + k3 + k7)) + 256 * ((k1 + k5) + (k3 + k7) + 256 * (x + h) + (x + h))"
  have bounds: "h < 2 ^ 25" "x < 2 ^ 42" "c0 < 2 ^ 58" "c1 < 2 ^ 60" "c2 < 2 ^ 62" "c3 < 2 ^ 63"
    using assms unfolding c3_def c2_def x_def c1_def c0_def h_def by simp_all
  have d: "c0 div 2 ^ 32 = h" "c1 div 2 ^ 16 = x" "c2 div 2 ^ 8 = (k1 + k5) + (k3 + k7) + 256 * (x + h)"
  proof -
    have "c0 = (k0 + 256 * (k1 + 256 * (k2 + 256 * k3))) + 2 ^ 32 * h" by (simp add: c0_def algebra_simps)
    moreover have "k0 + 256 * (k1 + 256 * (k2 + 256 * k3)) < 2 ^ 32" using assms by simp
    ultimately show "c0 div 2 ^ 32 = h" by simp
    show "c1 div 2 ^ 16 = x" using div_16 [of "k0 + k4" "k1 + k5" x] assms by (simp add: c1_def x_def)
    show "c2 div 2 ^ 8 = (k1 + k5) + (k3 + k7) + 256 * (x + h)" using assms by (simp add: c2_def)
  qed
  have shift: "drop_bit n (of_nat c :: 64 word) = of_nat (c div 2 ^ n)" if "c < 2 ^ 63" for n c
  proof (rule word_unat_eq_iff [THEN iffD2])
    have "c div 2 ^ n < 2 ^ 64" using that le_less_trans [OF div_le_dividend [of c "2 ^ n"] that] by simp
    then show "unat (drop_bit n (of_nat c :: 64 word)) = unat (of_nat (c div 2 ^ n) :: 64 word)"
      using that by (simp only: unat_drop_bit_eq) (simp add: drop_bit_eq_div unat_of_nat)
  qed
  have "c0 + h = c1" "c1 + x = c2" "c2 + ((k1 + k5) + (k3 + k7) + 256 * (x + h)) = c3"
    by (simp_all add: c0_def c1_def c2_def c3_def x_def h_def algebra_simps)
  then have s: "(of_nat c0 :: 64 word) + drop_bit 32 (of_nat c0) = of_nat c1"
    "(of_nat c1 :: 64 word) + drop_bit 16 (of_nat c1) = of_nat c2"
    "(of_nat c2 :: 64 word) + drop_bit 8 (of_nat c2) = of_nat c3"
    using bounds d by (simp_all add: shift flip: of_nat_add)
  have "(0xFF :: 64 word) = mask 8" by (simp add: mask_eq_exp_minus_1)
  then have "unat ((of_nat c3 :: 64 word) AND 0xFF) = c3 mod 256"
    using bounds by (simp only: unat_and_mask) (simp add: unat_of_nat)
  also have "c3 mod 256 = (k0 + k4 + k2 + k6 + (k1 + k5 + k3 + k7)) mod 256" unfolding c3_def by (rule mod_mult_self2)
  also have "\<dots> = k0 + k4 + k2 + k6 + (k1 + k5 + k3 + k7)" using assms by simp
  finally show ?thesis using s unfolding Let_def h_def [symmetric] c0_def [symmetric] by simp
qed

lemma continuation_flags:
  assumes "length bs = 8"
  shows "drop_bit 7 (word_rcat (rev bs) AND NOT (push_bit 1 (word_rcat (rev bs))) AND HIGH_BITS) =
    (word_rcat (rev (map (\<lambda>b. if continues b then 1 else 0 :: byte) bs)) :: 64 word)"
proof (rule bit_word_eqI)
  fix n assume n: "n < LENGTH(64)"
  let ?w = "word_rcat (rev bs) :: 64 word"
  have "bit (drop_bit 7 (?w AND NOT (push_bit 1 ?w) AND HIGH_BITS)) n \<longleftrightarrow>
      7 + n < 64 \<and> bit (bs ! ((7 + n) div 8)) 7 \<and> \<not> bit (bs ! ((6 + n) div 8)) ((6 + n) mod 8) \<and> (7 + n) mod 8 = 7"
    unfolding bit_drop_bit_eq comp_def bit_and_iff bit_not_iff bit_push_bit_iff bit_le_word bit_HIGH_BITS
    using assms by auto
  also have "\<dots> \<longleftrightarrow> n mod 8 = 0 \<and> continues (bs ! (n div 8))"
  proof (cases "n mod 8 = 0")
    case True
    then obtain i where i: "n = 8 * i" by blast
    then have "(7 + n) div 8 = i" "(6 + n) div 8 = i" "(6 + n) mod 8 = 6" "7 + n < 64" using n by simp_all
    then show ?thesis by (simp add: i bit_6_7)
  next
    case False
    then have "(7 + n) mod 8 \<noteq> 7" by presburger
    then show ?thesis using False by simp
  qed
  also have "\<dots> \<longleftrightarrow> bit (word_rcat (rev (map (\<lambda>b. if continues b then 1 else 0 :: byte) bs)) :: 64 word) n"
    using n assms by (auto simp: bit_le_word bit_1_iff simp del: rev_map)
  finally show "bit (drop_bit 7 (?w AND NOT (push_bit 1 ?w) AND HIGH_BITS)) n \<longleftrightarrow>
    bit (word_rcat (rev (map (\<lambda>b. if continues b then 1 else 0 :: byte) bs)) :: 64 word) n" .
qed

lemma eight_bytes: "length bs = 8 \<Longrightarrow> \<exists>a b c d e f g h. bs = [a, b, c, d, e, f, g, h]"
  by (auto simp: numeral_eq_Suc length_Suc_conv)

lemma count_word_bytes:
  assumes "length bs = 8"
  shows "count_word (word_rcat (rev bs)) = length (filter (\<lambda>b. \<not> continues b) bs)"
proof -
  define k where "k b = (if continues b then 1 else 0 :: byte)" for b
  obtain b0 b1 b2 b3 b4 b5 b6 b7 where bs: "bs = [b0, b1, b2, b3, b4, b5, b6, b7]"
    using eight_bytes [OF assms] by blast
  have le: "unat (k b) \<le> 1" for b by (simp add: k_def)
  have flags: "drop_bit 7 (word_rcat (rev bs) AND NOT (push_bit 1 (word_rcat (rev bs))) AND HIGH_BITS) =
      (word_rcat (rev [k b0, k b1, k b2, k b3, k b4, k b5, k b6, k b7]) :: 64 word)"
    using continuation_flags [OF assms] unfolding bs by (simp add: k_def)
  have sum: "unat (k b) + length (filter (\<lambda>b. \<not> continues b) [b]) = 1" for b by (simp add: k_def)
  have "count_word (word_rcat (rev bs)) =
      8 - (unat (k b0) + unat (k b1) + unat (k b2) + unat (k b3) + unat (k b4) + unat (k b5) + unat (k b6) + unat (k b7))"
    unfolding count_word_def flags word_rcat_flags
    using sum_of_digits [OF le le le le le le le le, of b0 b1 b2 b3 b4 b5 b6 b7] by (simp only: Let_def)
  also have "\<dots> = length (filter (\<lambda>b. \<not> continues b) ([b0] @ [b1] @ [b2] @ [b3] @ [b4] @ [b5] @ [b6] @ [b7]))"
    unfolding filter_append length_append
    using sum [of b0] sum [of b1] sum [of b2] sum [of b3] sum [of b4] sum [of b5] sum [of b6] sum [of b7] by linarith
  finally show ?thesis by (simp add: bs)
qed

section \<open>Counting characters\<close>

abbreviation starts :: "byte list \<Rightarrow> nat" where
  "starts bs \<equiv> length (filter (\<lambda>b. \<not> continues b) bs)"

lemma starts_take_drop: "starts (take m p) + starts (take (n - m) (drop m p)) = starts (take n p)" if "m \<le> n"
proof -
  have "take n p = take m p @ take (n - m) (drop m p)" using that by (metis le_add_diff_inverse take_add)
  then show ?thesis by simp
qed

lemma count_byte_loop_result: "n \<le> length p \<Longrightarrow> count_byte_loop p n ret = Some (ret + starts (take n p))"
proof (induction p n ret rule: count_byte_loop.induct)
  case (2 p n ret)
  then show ?case by (cases p) auto
qed simp

lemma count_align_loop_result:
  "n \<le> length p \<Longrightarrow> \<exists>k\<le>n. count_align_loop addr p n ret = Some (drop k p, n - k, ret + starts (take k p))"
proof (induction addr p n ret rule: count_align_loop.induct)
  case (2 addr p n ret)
  show ?case
  proof (cases "addr mod 8 = 0")
    case True
    then show ?thesis by (intro exI [of _ 0]) simp
  next
    case False
    obtain b q where p: "p = b # q" using 2(2) by (cases p) auto
    then obtain k where k: "k \<le> n" "count_align_loop (addr + 1) q n (if \<not> continues b then ret + 1 else ret) =
        Some (drop k q, n - k, (if \<not> continues b then ret + 1 else ret) + starts (take k q))"
      using 2(1) [OF False, of b] 2(2) by auto
    then show ?thesis using False p by (intro exI [of _ "Suc k"]) auto
  qed
qed simp

lemma load64_result: "8 \<le> length p \<Longrightarrow> load64 p = Some (word_rcat (rev (take 8 p)))"
  by (simp add: load64_def buf_simps)

lemma count_word_loop_result:
  "n \<le> length p \<Longrightarrow> \<exists>k\<le>n. count_word_loop p n ret = Some (drop k p, n - k, ret + starts (take k p))"
proof (induction p n ret rule: count_word_loop.induct)
  case (1 p n ret)
  show ?case
  proof (cases "8 \<le> n")
    case False
    then show ?thesis by (subst count_word_loop.simps) (intro exI [of _ 0], simp)
  next
    case True
    let ?w = "word_rcat (rev (take 8 p)) :: 64 word"
    have c: "count_word ?w = starts (take 8 p)" using True 1(2) by (intro count_word_bytes) simp
    obtain k where k: "k \<le> n - 8" "count_word_loop (drop 8 p) (n - 8) (ret + count_word ?w) =
        Some (drop k (drop 8 p), n - 8 - k, ret + count_word ?w + starts (take k (drop 8 p)))"
    proof -
      have "load64 p = Some ?w" "n - 8 \<le> length (drop 8 p)" using True 1(2) by (simp_all add: load64_result)
      then show ?thesis using 1(1) [OF True] that by blast
    qed
    have "starts (take (8 + k) p) = starts (take 8 p) + starts (take k (drop 8 p))"
      using starts_take_drop [of 8 "8 + k" p] by simp
    then show ?thesis using k True 1(2) c
      by (subst count_word_loop.simps) (intro exI [of _ "8 + k"], simp add: load64_result add.commute)
  qed
qed

lemma utf8len_result: "terminated p \<Longrightarrow> utf8len addr (Some p) = Some (starts (cstr p))"
proof -
  assume t: "terminated p"
  let ?n = "length (cstr p)"
  have n: "?n \<le> length p" by (simp add: cstr_def length_takeWhile_le)
  obtain k where k: "k \<le> ?n" "count_align_loop addr p ?n 0 = Some (drop k p, ?n - k, starts (take k p))"
    using count_align_loop_result [OF n, of addr 0] by auto
  obtain j where j: "j \<le> ?n - k" "count_word_loop (drop k p) (?n - k) (starts (take k p)) =
      Some (drop j (drop k p), ?n - k - j, starts (take k p) + starts (take j (drop k p)))"
  proof -
    have "?n - k \<le> length (drop k p)" using n by simp
    then show ?thesis using count_word_loop_result that by blast
  qed
  have "count_byte_loop (drop j (drop k p)) (?n - k - j) (starts (take k p) + starts (take j (drop k p))) =
      Some (starts (take k p) + starts (take j (drop k p)) + starts (take (?n - k - j) (drop j (drop k p))))"
    using n by (intro count_byte_loop_result) simp
  also have "starts (take k p) + starts (take j (drop k p)) + starts (take (?n - k - j) (drop j (drop k p))) = starts (take ?n p)"
    using starts_take_drop [of k ?n p] starts_take_drop [of j "?n - k" "drop k p"] k(1) j(1) by simp
  finally show ?thesis
    using k j by (simp add: utf8len_def strlen_terminated [OF t] take_cstr del: drop_drop)
qed

section \<open>Decoding\<close>

text \<open>
  The decoder the code implements, on numbers: a lead byte says how many bytes follow and gives the
  high bits, each byte that follows gives six bits more. It is lenient: only a byte that cannot lead
  and the end of the input stop it.
\<close>

definition utf8_lead :: "byte \<Rightarrow> (nat \<times> nat) option" where
  "utf8_lead b = (let v = unat b in
     if v < 0x80 then Some (0, v) else if v < 0xC0 then None
     else if v < 0xE0 then Some (1, v mod 32) else if v < 0xF0 then Some (2, v mod 16)
     else if v < 0xF8 then Some (3, v mod 8) else if v < 0xFC then Some (4, v mod 4)
     else if v < 0xFE then Some (5, v mod 2) else None)"

definition utf8_value :: "nat \<Rightarrow> byte list \<Rightarrow> nat" where
  "utf8_value m bs = foldl (\<lambda>c b. c * 64 + unat b mod 64) m bs"

fun decode_utf8 :: "nat \<Rightarrow> byte list \<Rightarrow> nat list" where
  "decode_utf8 0 bs = []"
| "decode_utf8 (Suc n) [] = []"
| "decode_utf8 (Suc n) (b # bs) =
     (case utf8_lead b of
        None \<Rightarrow> []
      | Some (k, m) \<Rightarrow>
          if length bs < k then [] else utf8_value m (take k bs) # decode_utf8 n (drop k bs))"

text \<open>One continuation byte: the words do not overflow.\<close>

lemma unat_low_6: "unat (b AND 0x3F :: byte) = unat b mod 64"
  unfolding mask_6 unat_and_mask by simp

lemma continuation_Cons:
  assumes "m < 2 ^ 26"
  shows "continuation (of_nat m) (b # inp) = Some (of_nat (m * 64 + unat b mod 64), inp)"
proof -
  let ?x = "ucast (b AND 0x3F) :: u32"
  have x: "unat ?x = unat b mod 64" by (simp add: unsigned_ucast_eq take_bit_eq_mod unat_low_6)
  have "push_bit 6 (of_nat m :: u32) OR ?x = push_bit 6 (of_nat m) + ?x"
  proof (rule disjunctive_add [symmetric])
    fix n
    show "\<not> bit (push_bit 6 (of_nat m :: u32)) n \<or> \<not> bit ?x n"
      unfolding mask_6 bit_push_bit_iff bit_ucast_iff bit_and_iff bit_mask_iff by auto
  qed
  moreover have "push_bit 6 (of_nat m) + ?x = of_nat (unat (push_bit 6 (of_nat m) + ?x))" by simp
  moreover have "unat (push_bit 6 (of_nat m) + ?x) = m * 64 + unat b mod 64"
    using assms x by (simp add: unat_word_ariths push_bit_eq_mult unat_of_nat)
  ultimately have "push_bit 6 (of_nat m) OR ?x = of_nat (m * 64 + unat b mod 64)"
    by (simp only:)
  then show ?thesis by (simp add: continuation_def)
qed

lemma utf8_value_simps [simp]: "utf8_value m [] = m" "utf8_value m (b # bs) = utf8_value (m * 64 + unat b mod 64) bs"
  by (simp_all add: utf8_value_def)

lemma continuation_loop_result:
  "(m + 1) * 64 ^ n \<le> 2 ^ 31 \<Longrightarrow> n \<le> length inp \<Longrightarrow>
   continuation_loop n (of_nat m) inp = Some (of_nat (utf8_value m (take n inp)), drop n inp)"
proof (induction n arbitrary: m inp)
  case (Suc n)
  obtain b r where inp: "inp = b # r" using Suc.prems(2) by (cases inp) auto
  have one: "(1::nat) \<le> 64 ^ n" by simp
  have all: "(m + 1) * 64 * 64 ^ n \<le> 2 ^ 31" using Suc.prems(1) by (simp only: power_Suc mult.assoc)
  have "(m + 1) * 64 \<le> (m + 1) * 64 * 64 ^ n" using one by (metis mult.right_neutral mult_le_mono2)
  then have "(m + 1) * 64 \<le> 2 ^ 31" using all by (rule le_trans)
  then have m: "m < 2 ^ 26" by simp
  have "m * 64 + unat b mod 64 + 1 \<le> (m + 1) * 64" by simp
  then have "(m * 64 + unat b mod 64 + 1) * 64 ^ n \<le> (m + 1) * 64 * 64 ^ n" by (rule mult_le_mono1)
  then have "continuation_loop n (of_nat (m * 64 + unat b mod 64)) r =
      Some (of_nat (utf8_value (m * 64 + unat b mod 64) (take n r)), drop n r)"
    using all Suc.prems(2) inp by (intro Suc.IH) (simp_all only: le_trans length_Cons Suc_le_mono)
  then show ?case using continuation_Cons [OF m, of b r] by (simp add: inp)
qed simp

text \<open>Each of the unrolled cases is that loop.\<close>

lemma of_nat_low_bits: "(of_nat (unat w mod 2 ^ k) :: u32) = ucast (w AND mask k :: byte)"
  by (simp flip: unat_and_mask)

lemma utf8_lut_long:
  assumes "248 \<le> v" "v < 254"
  shows "arr_get utf8_lut v = Some (if v < 252 then 5 else 6)"
proof -
  have "v \<in> {248, 249, 250, 251, 252, 253}" using assms by auto
  then show ?thesis by (auto simp: arr_get_def utf8_lut_def nth_append)
qed

lemma utf8_lut_none: "254 \<le> v \<Longrightarrow> v < 256 \<Longrightarrow> arr_get utf8_lut v = Some 7"
proof -
  assume "254 \<le> v" "v < 256"
  then have "v \<in> {254, 255}" by auto
  then show ?thesis by (auto simp: arr_get_def utf8_lut_def nth_append)
qed

lemma continuation_loop_unrolled:
  "continuation_loop 1 c inp = continuation c inp"
  "continuation_loop 2 c inp = do { (c, inp) \<leftarrow> continuation c inp; continuation c inp }"
  "continuation_loop 3 c inp = do { (c, inp) \<leftarrow> continuation c inp; (c, inp) \<leftarrow> continuation c inp; continuation c inp }"
  by (simp_all add: numeral_2_eq_2 numeral_3_eq_3 split_def)

lemma utf8_sequence_loop:
  assumes lead: "utf8_lead b = Some (Suc k, m)"
  shows "utf8_sequence b inp n =
    (if n < Suc (Suc k) then Some None
     else do { (c, inp) \<leftarrow> continuation_loop (Suc k) (of_nat m) inp; Some (Some (c, inp, n - Suc (Suc k))) })"
proof -
  have v: "unat b < 256" using unsigned_less [of b, where ?'a = nat] by simp
  have masks: "(0x1F :: byte) = mask 5" "(0x0F :: byte) = mask 4" "(0x07 :: byte) = mask 3"
    by (simp_all add: mask_eq_exp_minus_1)
  have long: "ucast b AND (push_bit 2 1 - 1) = (of_nat (unat b mod 4) :: u32)"
    "ucast b AND (push_bit 1 1 - 1) = (of_nat (unat b mod 2) :: u32)"
  proof -
    have masks: "push_bit 2 1 - 1 = (mask 2 :: u32)" "push_bit 1 1 - 1 = (mask 1 :: u32)" by (simp_all add: mask_eq_exp_minus_1)
    have low: "(ucast b :: u32) AND mask j = of_nat (unat b mod 2 ^ j)" for j
    proof (rule word_unat_eq_iff [THEN iffD2])
      have "unat b < 2 ^ 32" using v by simp
      then have "unat b mod 2 ^ j < 2 ^ 32" by (rule le_less_trans [OF mod_less_eq_dividend])
      then show "unat ((ucast b :: u32) AND mask j) = unat (of_nat (unat b mod 2 ^ j) :: u32)"
        unfolding unat_and_mask using v by (simp add: unat_of_nat unsigned_ucast_eq take_bit_eq_mod)
    qed
    show "ucast b AND (push_bit 2 1 - 1) = (of_nat (unat b mod 4) :: u32)"
      "ucast b AND (push_bit 1 1 - 1) = (of_nat (unat b mod 2) :: u32)"
      unfolding masks low by simp_all
  qed
  note low = of_nat_low_bits [of b 5, simplified] of_nat_low_bits [of b 4, simplified] of_nat_low_bits [of b 3, simplified]
  note cmp = utf8_sequence_def word_less_nat_alt
  consider (two) "0xC0 \<le> unat b" "unat b < 0xE0" "k = 0" "m = unat b mod 32"
    | (three) "0xE0 \<le> unat b" "unat b < 0xF0" "k = 1" "m = unat b mod 16"
    | (four) "0xF0 \<le> unat b" "unat b < 0xF8" "k = 2" "m = unat b mod 8"
    | (five) "0xF8 \<le> unat b" "unat b < 0xFC" "k = 3" "m = unat b mod 4"
    | (six) "0xFC \<le> unat b" "unat b < 0xFE" "k = 4" "m = unat b mod 2"
    using lead by (auto simp: utf8_lead_def Let_def split: if_splits)
  then show ?thesis
  proof cases
    case two
    then have k: "Suc k = 1" by simp
    show ?thesis unfolding cmp masks k continuation_loop_unrolled using two(1,2,4) by (simp add: low split_def flip: numeral_2_eq_2)
  next
    case three
    then have k: "Suc k = 2" by simp
    show ?thesis unfolding cmp masks k continuation_loop_unrolled using three(1,2,4) by (simp add: low split_def)
  next
    case four
    then have k: "Suc k = 3" by simp
    show ?thesis unfolding cmp masks k continuation_loop_unrolled using four(1,2,4) by (simp add: low split_def)
  next
    case five
    then show ?thesis unfolding cmp by (simp add: utf8_lut_long long [simplified] del: continuation_loop.simps)
  next
    case six
    then show ?thesis unfolding cmp by (simp add: utf8_lut_long long [simplified] del: continuation_loop.simps)
  qed
qed

lemma utf8_sequence_none:
  assumes "utf8_lead b = None"
  shows "utf8_sequence b inp n = Some None"
proof -
  have v: "unat b < 256" using unsigned_less [of b, where ?'a = nat] by simp
  consider "0x80 \<le> unat b" "unat b < 0xC0" | "0xFE \<le> unat b"
    using assms by (auto simp: utf8_lead_def Let_def split: if_splits)
  then show ?thesis
    using v by cases (simp_all add: utf8_sequence_def word_less_nat_alt utf8_lut_none)
qed

lemma utf8_lead_0: "utf8_lead b = Some (0, m) \<longleftrightarrow> b < 0x80 \<and> m = unat b"
  by (auto simp: utf8_lead_def Let_def word_less_nat_alt)

lemma utf8_lead_bound: "utf8_lead b = Some (k, m) \<Longrightarrow> (m + 1) * 64 ^ k \<le> 2 ^ 31"
proof -
  assume "utf8_lead b = Some (k, m)"
  then consider "k = 0" "m < 128" | "k = 1" "m < 32" | "k = 2" "m < 16" | "k = 3" "m < 8" | "k = 4" "m < 4" | "k = 5" "m < 2"
    by (auto simp: utf8_lead_def Let_def split: if_splits)
  then show ?thesis by cases simp_all
qed

text \<open>The output: the characters written from \<open>ret\<close> on.\<close>

definition put_at :: "'a list \<Rightarrow> nat \<Rightarrow> 'a list \<Rightarrow> 'a list" where
  "put_at out ret xs = take ret out @ xs @ drop (ret + length xs) out"

lemma length_put_at: "ret + length xs \<le> length out \<Longrightarrow> length (put_at out ret xs) = length out"
  by (simp add: put_at_def)

lemma put_at_Nil [simp]: "put_at out ret [] = out"
  by (simp add: put_at_def)

lemma put_at_put_at:
  "ret + length xs + length ys \<le> length out \<Longrightarrow>
   put_at (put_at out ret xs) (ret + length xs) ys = put_at out ret (xs @ ys)"
  by (cases xs; cases ys) (auto simp: put_at_def min_def ac_simps)

lemma mem_write_put_at: "ret + length xs \<le> length out \<Longrightarrow> mem_write out ret xs = Some (put_at out ret xs)"
  by (simp add: mem_write_def put_at_def)

lemma arr_set_put_at: "ret < length out \<Longrightarrow> arr_set out ret x = Some (put_at out ret [x])"
  by (simp add: arr_set_def put_at_def upd_conv_take_nth_drop)

lemma ascii8_loop_result:
  "in_size \<le> length inp \<Longrightarrow> ret + out_chars \<le> length out \<Longrightarrow>
   \<exists>k. k \<le> in_size \<and> k \<le> out_chars \<and> (\<forall>b \<in> set (take k inp). b < 0x80) \<and>
     ascii8_loop inp in_size out out_chars ret =
       Some (drop k inp, in_size - k, put_at out ret (map ucast (take k inp)), out_chars - k, ret + k)"
proof (induction "in_size" arbitrary: inp out out_chars ret rule: less_induct)
  case (less in_size)
  let ?bs = "take 8 inp"
  show ?case
  proof (cases "8 \<le> in_size \<and> 8 \<le> out_chars \<and> (\<forall>b \<in> set ?bs. b < 0x80)")
    case False
    have "ascii8_loop inp in_size out out_chars ret = Some (inp, in_size, out, out_chars, ret)"
    proof (cases "8 \<le> in_size \<and> 8 \<le> out_chars")
      case True
      then have "8 \<le> length inp" "word_rcat (rev ?bs) AND HIGH_BITS \<noteq> 0"
        using less.prems(1) high_bits_clear [of ?bs] False by auto
      then show ?thesis using True by (subst ascii8_loop.simps) (simp add: load64_result)
    qed (subst ascii8_loop.simps, auto)
    then show ?thesis by (intro exI [of _ 0]) simp
  next
    case True
    let ?out = "put_at out ret (map ucast ?bs)"
    have len: "8 \<le> length inp" "length ?bs = 8" "length (map ucast ?bs) = 8" using True less.prems(1) by simp_all
    have out: "length ?out = length out" using True less.prems(2) len by (intro length_put_at) simp
    obtain k where k: "k \<le> in_size - 8" "k \<le> out_chars - 8" "\<forall>b \<in> set (take k (drop 8 inp)). b < 0x80"
      "ascii8_loop (drop 8 inp) (in_size - 8) ?out (out_chars - 8) (ret + 8) =
        Some (drop k (drop 8 inp), in_size - 8 - k, put_at ?out (ret + 8) (map ucast (take k (drop 8 inp))), out_chars - 8 - k, ret + 8 + k)"
    proof -
      have "in_size - 8 < in_size" "in_size - 8 \<le> length (drop 8 inp)" "ret + 8 + (out_chars - 8) \<le> length ?out"
        using True less.prems out by simp_all
      then show ?thesis using less.IH that by blast
    qed
    have "ascii8_loop inp in_size out out_chars ret = ascii8_loop (drop 8 inp) (in_size - 8) ?out (out_chars - 8) (ret + 8)"
    proof -
      have "word_rcat (rev ?bs) AND HIGH_BITS = 0" using high_bits_clear [OF len(2)] True by blast
      moreover have "mem_write out ret (map ucast ?bs) = Some ?out"
        using True less.prems(2) len by (intro mem_write_put_at) simp
      ultimately show ?thesis using True len(1)
        by (subst ascii8_loop.simps) (simp add: load64_result buf_simps)
    qed
    moreover have "put_at ?out (ret + 8) (map ucast (take k (drop 8 inp))) = put_at out ret (map ucast (take (8 + k) inp))"
    proof -
      have "ret + length (map ucast ?bs :: u32 list) + length (map ucast (take k (drop 8 inp)) :: u32 list) \<le> length out"
        using less.prems(2) True k(2) len by (auto simp: min_def)
      from put_at_put_at [OF this] show ?thesis using len by (simp add: take_add)
    qed
    moreover have "\<forall>b \<in> set (take (8 + k) inp). b < 0x80" using True k(3) by (auto simp: take_add)
    moreover have "8 + k \<le> in_size" "8 + k \<le> out_chars" using k(1,2) True by linarith+
    ultimately show ?thesis using k(4) by (intro exI [of _ "8 + k"]) (simp add: add.commute)
  qed
qed

lemma ascii1_loop_result:
  "in_size \<le> length inp \<Longrightarrow> ret + out_chars \<le> length out \<Longrightarrow>
   \<exists>k. k \<le> in_size \<and> k \<le> out_chars \<and> (\<forall>b \<in> set (take k inp). b < 0x80) \<and>
     (k < in_size \<longrightarrow> k < out_chars \<longrightarrow> \<not> inp ! k < 0x80) \<and>
     ascii1_loop inp in_size out out_chars ret =
       Some (drop k inp, in_size - k, put_at out ret (map ucast (take k inp)), out_chars - k, ret + k)"
proof (induction "in_size" arbitrary: inp out out_chars ret)
  case 0
  then show ?case by (simp add: ascii1_loop.simps)
next
  case (Suc in_size)
  obtain b r where inp: "inp = b # r" using Suc.prems(1) by (cases inp) auto
  show ?case
  proof (cases "out_chars = 0 \<or> \<not> b < 0x80")
    case True
    then show ?thesis by (intro exI [of _ 0]) (auto simp: ascii1_loop.simps inp)
  next
    case False
    let ?out = "put_at out ret [ucast b]"
    have out: "length ?out = length out" "arr_set out ret (ucast b) = Some ?out"
      using False Suc.prems(2) by (simp_all add: length_put_at arr_set_put_at)
    obtain k where k: "k \<le> in_size" "k \<le> out_chars - 1" "\<forall>b \<in> set (take k r). b < 0x80"
      "k < in_size \<longrightarrow> k < out_chars - 1 \<longrightarrow> \<not> r ! k < 0x80"
      "ascii1_loop r in_size ?out (out_chars - 1) (ret + 1) =
        Some (drop k r, in_size - k, put_at ?out (ret + 1) (map ucast (take k r)), out_chars - 1 - k, ret + 1 + k)"
    proof -
      have "in_size \<le> length r" "ret + 1 + (out_chars - 1) \<le> length ?out" using Suc.prems False out inp by simp_all
      then show ?thesis using Suc.IH that by blast
    qed
    have "put_at ?out (ret + 1) (map ucast (take k r)) = put_at out ret (map ucast (take (Suc k) inp))"
    proof -
      have "ret + length [ucast b :: u32] + length (map ucast (take k r) :: u32 list) \<le> length out"
        using Suc.prems(2) False k(2) by auto
      from put_at_put_at [OF this] show ?thesis by (simp add: inp)
    qed
    then show ?thesis using k False out by (intro exI [of _ "Suc k"]) (auto simp: ascii1_loop.simps inp)
  qed
qed

text \<open>The reference on a run of ASCII, and on what the loop leaves.\<close>

lemma decode_utf8_ascii:
  "k \<le> n \<Longrightarrow> k \<le> length bs \<Longrightarrow> \<forall>b \<in> set (take k bs). b < 0x80 \<Longrightarrow>
   decode_utf8 n bs = map unat (take k bs) @ decode_utf8 (n - k) (drop k bs)"
proof (induction k arbitrary: n bs)
  case (Suc k)
  obtain b r where bs: "bs = b # r" using Suc.prems(2) by (cases bs) auto
  obtain m where n: "n = Suc m" using Suc.prems(1) by (cases n) auto
  have "utf8_lead b = Some (0, unat b)" using Suc.prems(3) bs by (simp add: utf8_lead_0)
  then show ?case using Suc.IH [of m r] Suc.prems by (simp add: n bs)
qed simp

lemma decode_utf8_Nil [simp]: "decode_utf8 n [] = []"
  by (cases n) simp_all

lemma ucast_of_unat: "map ucast bs = (map of_nat (map unat (bs :: byte list)) :: u32 list)"
  by simp

lemma ascii_loops_result:
  assumes "in_size \<le> length inp" and "ret + out_chars \<le> length out"
  shows "\<exists>k. k \<le> in_size \<and> k \<le> out_chars \<and> (\<forall>b \<in> set (take k inp). b < 0x80) \<and>
    (k < in_size \<longrightarrow> k < out_chars \<longrightarrow> \<not> inp ! k < 0x80) \<and>
    do { (inp, in_size, out, out_chars, ret) \<leftarrow> ascii8_loop inp in_size out out_chars ret;
      ascii1_loop inp in_size out out_chars ret } =
     Some (drop k inp, in_size - k, put_at out ret (map ucast (take k inp)), out_chars - k, ret + k)"
proof -
  obtain j where j: "j \<le> in_size" "j \<le> out_chars" "\<forall>b \<in> set (take j inp). b < 0x80"
    "ascii8_loop inp in_size out out_chars ret =
      Some (drop j inp, in_size - j, put_at out ret (map ucast (take j inp)), out_chars - j, ret + j)"
    using ascii8_loop_result [OF assms] by blast
  let ?out = "put_at out ret (map ucast (take j inp))"
  have lj: "length (take j inp) = j" using j(1) assms(1) by simp
  have out: "length ?out = length out" using assms lj j(2) by (intro length_put_at) simp
  obtain k where k: "k \<le> in_size - j" "k \<le> out_chars - j" "\<forall>b \<in> set (take k (drop j inp)). b < 0x80"
    "k < in_size - j \<longrightarrow> k < out_chars - j \<longrightarrow> \<not> drop j inp ! k < 0x80"
    "ascii1_loop (drop j inp) (in_size - j) ?out (out_chars - j) (ret + j) =
      Some (drop k (drop j inp), in_size - j - k, put_at ?out (ret + j) (map ucast (take k (drop j inp))), out_chars - j - k, ret + j + k)"
  proof -
    have "in_size - j \<le> length (drop j inp)" "ret + j + (out_chars - j) \<le> length ?out" using assms out j(2) by simp_all
    then show ?thesis using ascii1_loop_result that by blast
  qed
  have sum: "j + k \<le> in_size" "j + k \<le> out_chars" using j(1,2) k(1,2) by simp_all
  have "put_at ?out (ret + j) (map ucast (take k (drop j inp))) = put_at out ret (map ucast (take (j + k) inp))"
  proof -
    have "length (take k (drop j inp)) \<le> k" by simp
    then have "ret + length (map ucast (take j inp) :: u32 list) + length (map ucast (take k (drop j inp)) :: u32 list) \<le> length out"
      using assms(2) sum(2) lj by simp
    from put_at_put_at [OF this] show ?thesis using lj by (simp add: take_add)
  qed
  moreover have "\<forall>b \<in> set (take (j + k) inp). b < 0x80" using j(3) k(3) by (auto simp: take_add)
  moreover have "j + k < in_size \<longrightarrow> j + k < out_chars \<longrightarrow> \<not> inp ! (j + k) < 0x80"
    using k(4) assms(1) by auto
  ultimately show ?thesis using j(4) k(5) sum by (intro exI [of _ "j + k"]) (simp add: add.commute)
qed

text \<open>The whole decoder.\<close>

lemma utf8_conv_loop_result:
  "in_size \<le> length inp \<Longrightarrow> ret + out_chars \<le> length out \<Longrightarrow>
   utf8_conv_loop inp in_size out out_chars ret =
     (let xs = decode_utf8 out_chars (take in_size inp) in Some (put_at out ret (map of_nat xs), ret + length xs))"
proof (induction in_size arbitrary: inp out out_chars ret rule: less_induct)
  case (less n)
  show ?case
  proof (cases "n = 0 \<or> out_chars = 0")
    case True
    then show ?thesis by (subst utf8_conv_loop.simps) (auto simp: Let_def)
  next
    case go: False
    obtain b r where inp: "inp = b # r" using less.prems(1) go by (cases inp) auto
    obtain k where k: "k \<le> n" "k \<le> out_chars" "\<forall>b \<in> set (take k inp). b < 0x80" "b < 0x80 \<or> k = 0"
      "k < n \<longrightarrow> k < out_chars \<longrightarrow> \<not> inp ! k < 0x80"
      "(if b < 0x80 then do { (inp, in_size, out, out_chars, ret) \<leftarrow> ascii8_loop inp n out out_chars ret;
          ascii1_loop inp in_size out out_chars ret } else Some (inp, n, out, out_chars, ret)) =
        Some (drop k inp, n - k, put_at out ret (map ucast (take k inp)), out_chars - k, ret + k)"
    proof (cases "b < 0x80")
      case True
      then show ?thesis using ascii_loops_result [OF less.prems] that by auto
    next
      case False
      then show ?thesis using that [of 0] inp by simp
    qed
    let ?out = "put_at out ret (map ucast (take k inp))" and ?head = "map unat (take k inp)"
    have lk: "length (take k inp) = k" using k(1) less.prems(1) by simp
    have out: "length ?out = length out" using less.prems(2) lk k(2) by (intro length_put_at) simp
    have dec: "decode_utf8 out_chars (take n inp) = ?head @ decode_utf8 (out_chars - k) (take (n - k) (drop k inp))"
      using decode_utf8_ascii [of k out_chars "take n inp"] k less.prems(1) by (simp add: drop_take min_def)
    have put: "put_at ?out (ret + k) (map of_nat xs) = put_at out ret (map of_nat (?head @ xs))" if "length xs \<le> out_chars - k" for xs
    proof -
      have "ret + length (map ucast (take k inp) :: u32 list) + length (map of_nat xs :: u32 list) \<le> length out"
        using less.prems(2) k(2) lk that by simp
      from put_at_put_at [OF this] show ?thesis using lk by (simp add: comp_def)
    qed
    have deref: "deref inp = Some b" by (simp add: inp)
    have step: "utf8_conv_loop inp n out out_chars ret =
      (if b < 0x80 \<and> (n - k = 0 \<or> out_chars - k = 0) then Some (?out, ret + k)
       else do {
         first \<leftarrow> deref (drop k inp);
         r \<leftarrow> utf8_sequence first (tl (drop k inp)) (n - k);
         case r of
           None \<Rightarrow> Some (?out, ret + k)
         | Some (c, inp, in_size) \<Rightarrow> do {
             out \<leftarrow> arr_set ?out (ret + k) c;
             utf8_conv_loop inp in_size out (out_chars - k - 1) (ret + k + 1) } })"
      using go by (subst utf8_conv_loop.simps) (simp add: deref k(6))
    show ?thesis
    proof (cases "n - k = 0 \<or> out_chars - k = 0")
      case True
      then have b: "b < 0x80" using k(4) go by auto
      have "decode_utf8 out_chars (take n inp) = ?head" using True dec by auto
      then show ?thesis unfolding step using True b lk put [of "[]"] by (simp add: Let_def)
    next
      case False
      obtain b' r' where d: "drop k inp = b' # r'" using False less.prems(1) by (cases "drop k inp") auto
      obtain l m where lm: "n - k = Suc l" "out_chars - k = Suc m" using False by (metis not0_implies_Suc)
      have r': "length r' \<ge> l" "\<not> b' < 0x80"
      proof -
        have "length (drop k inp) \<ge> Suc l" using less.prems(1) lm by simp
        then show "length r' \<ge> l" by (simp add: d)
        have "inp ! k = b'" using d by (metis nth_via_drop)
        then show "\<not> b' < 0x80" using k(5) False by auto
      qed
      have stop: ?thesis if "utf8_sequence b' r' (Suc l) = Some None" "decode_utf8 (Suc m) (b' # take l r') = []"
      proof -
        have "decode_utf8 out_chars (take n inp) = ?head" using that(2) dec by (simp add: d lm)
        then show ?thesis unfolding step using False that(1) lk put [of "[]"] by (simp add: d lm Let_def)
      qed
      show ?thesis
      proof (cases "utf8_lead b'")
        case None
        then show ?thesis by (intro stop utf8_sequence_none) simp_all
      next
        case (Some cm)
        then obtain c m0 where cm: "utf8_lead b' = Some (Suc c, m0)"
          using r'(2) utf8_lead_0 by (cases cm; cases "fst cm") auto
        note seq = utf8_sequence_loop [OF cm, of r' "Suc l"]
        show ?thesis
        proof (cases "l < Suc c")
          case True
          then show ?thesis using r'(1) by (intro stop) (simp_all add: seq cm)
        next
          case long: False
          let ?v = "utf8_value m0 (take (Suc c) r')" and ?ys = "decode_utf8 m (take (l - Suc c) (drop (Suc c) r'))"
          have loop: "continuation_loop (Suc c) (of_nat m0) r' = Some (of_nat ?v, drop (Suc c) r')"
            using long r'(1) by (intro continuation_loop_result utf8_lead_bound [OF cm]) simp
          let ?out1 = "put_at ?out (ret + k) [of_nat ?v]"
          have room: "ret + k < length ?out" "ret + k + 1 + m \<le> length ?out" using less.prems(2) lm(2) out k(2) by simp_all
          have out1: "length ?out1 = length out" using room(1) out by (subst length_put_at) simp_all
          have ys: "length ?ys \<le> m"
          proof -
            have "length (decode_utf8 i bs) \<le> i" for i bs
              by (induction i bs rule: decode_utf8.induct) (auto split: option.splits)
            then show ?thesis .
          qed
          have code: "utf8_conv_loop inp n out out_chars ret =
              utf8_conv_loop (drop (Suc c) r') (l - Suc c) ?out1 m (ret + k + 1)"
            unfolding step using False long loop arr_set_put_at [OF room(1)]
            by (simp add: d lm seq del: continuation_loop.simps)
          also have "\<dots> = Some (put_at ?out1 (ret + k + 1) (map of_nat ?ys), ret + k + 1 + length ?ys)"
          proof -
            have "l - Suc c < n" "l - Suc c \<le> length (drop (Suc c) r')" "ret + k + 1 + m \<le> length ?out1"
              using lm(1) r'(1) room(2) out out1 by simp_all
            from less.IH [OF this] show ?thesis by (simp only: Let_def)
          qed
          also have "put_at ?out1 (ret + k + 1) (map of_nat ?ys) = put_at ?out (ret + k) (map of_nat (?v # ?ys))"
            using put_at_put_at [of "ret + k" "[of_nat ?v]" "map of_nat ?ys" ?out] room ys by simp
          also have "\<dots> = put_at out ret (map of_nat (?head @ ?v # ?ys))"
            using ys lm(2) by (intro put) simp
          finally have "utf8_conv_loop inp n out out_chars ret =
              Some (put_at out ret (map of_nat (?head @ ?v # ?ys)), ret + length (?head @ ?v # ?ys))"
            using lk by (simp add: add.assoc)
          moreover have "decode_utf8 out_chars (take n inp) = ?head @ ?v # ?ys"
          proof -
            have "take (Suc c) (take l r') = take (Suc c) r'" "drop (Suc c) (take l r') = take (l - Suc c) (drop (Suc c) r')"
              using long by (simp_all add: min_def drop_take)
            then show ?thesis unfolding dec d lm using long r'(1) by (simp add: cm)
          qed
          ultimately show ?thesis by (simp only: Let_def)
        qed
      qed
    qed
  qed
qed

end
