(* ===== verification/Utf8Text.thy ===== *)
theory Utf8Text
  imports Utf8
begin

text \<open>
  \<open>encodings/encoding_utf.c\<close> on well-formed UTF-8: the encoding of a sequence of code points, and
  what the functions of \<open>Utf8\<close> do on it.
\<close>

section \<open>The encoding\<close>

definition utf8_enc :: "nat \<Rightarrow> byte list" where
  "utf8_enc v =
     (if v < 0x80 then [of_nat v]
      else if v < 0x800 then [of_nat (0xC0 + v div 64), of_nat (0x80 + v mod 64)]
      else if v < 0x10000 then [of_nat (0xE0 + v div 64 div 64), of_nat (0x80 + v div 64 mod 64), of_nat (0x80 + v mod 64)]
      else [of_nat (0xF0 + v div 64 div 64 div 64), of_nat (0x80 + v div 64 div 64 mod 64),
        of_nat (0x80 + v div 64 mod 64), of_nat (0x80 + v mod 64)])"

definition utf8_text :: "nat list \<Rightarrow> byte list" where
  "utf8_text vs = concat (map utf8_enc vs)"

text \<open>A code point of Unicode.\<close>

definition code_point :: "nat \<Rightarrow> bool" where
  "code_point v \<longleftrightarrow> v < 0x110000"

text \<open>Leads and continuation bytes.\<close>

lemma unat_byte: "x < 256 \<Longrightarrow> unat (of_nat x :: byte) = x"
  by (simp add: unat_of_nat)

lemma enc_cases:
  assumes "code_point v"
  obtains (one) "v < 0x80" "utf8_enc v = [of_nat v]" "utf8_lead (of_nat v) = Some (0, v)"
    | (more) b bs m where "utf8_enc v = b # bs" "utf8_lead b = Some (length bs, m)" "utf8_value m bs = v"
      "\<forall>c \<in> set bs. 0x80 \<le> unat c \<and> unat c < 0xC0" "0xC0 \<le> unat b" "bs = [] \<longleftrightarrow> False" "v \<noteq> 0"
proof -
  define q where "q = v div 64"
  define p where "p = q div 64"
  define o' where "o' = p div 64"
  have v: "q * 64 + v mod 64 = v" and q: "p * 64 + q mod 64 = q" and p: "o' * 64 + p mod 64 = p"
    by (simp_all add: q_def p_def o'_def)
  have tail: "0x80 \<le> unat (of_nat (0x80 + x mod 64) :: byte)" "unat (of_nat (0x80 + x mod 64) :: byte) < 0xC0"
    "unat (of_nat (0x80 + x mod 64) :: byte) mod 64 = x mod 64" for x :: nat
  proof -
    have "x mod 64 < 64" by simp
    then have "128 + x mod 64 < 256" "(128 + x mod 64) mod 64 = x mod 64" "128 + x mod 64 < 192"
      by (simp_all add: mod_add_left_eq [symmetric, of 128])
    then show "0x80 \<le> unat (of_nat (0x80 + x mod 64) :: byte)" "unat (of_nat (0x80 + x mod 64) :: byte) < 0xC0"
      "unat (of_nat (0x80 + x mod 64) :: byte) mod 64 = x mod 64"
      by (simp_all only: unat_byte)
  qed
  consider "v < 0x80" | "0x80 \<le> v" "v < 0x800" | "0x800 \<le> v" "v < 0x10000" | "0x10000 \<le> v" "v < 0x110000"
    using assms unfolding code_point_def by linarith
  then show thesis
  proof cases
    case 1
    then have "unat (of_nat v :: byte) = v" by (intro unat_byte) simp
    then show thesis using 1 by (intro one) (simp_all add: utf8_enc_def utf8_lead_0 word_less_nat_alt)
  next
    case 2
    then have "q < 32" by (simp add: q_def)
    then have u: "unat (of_nat (0xC0 + q) :: byte) = 0xC0 + q" by (intro unat_byte) simp
    have "(192 + q) mod 32 = q" using mod_mult_self4 [of 32 6 q] \<open>q < 32\<close> by simp
    then have "utf8_lead (of_nat (0xC0 + q)) = Some (1, q)"
      unfolding utf8_lead_def u Let_def using \<open>q < 32\<close> by simp
    moreover have "utf8_value q [of_nat (0x80 + v mod 64)] = v" unfolding utf8_value_simps tail(3) by (rule v)
    moreover have "utf8_enc v = [of_nat (0xC0 + q), of_nat (0x80 + v mod 64)]" using 2 by (simp add: utf8_enc_def q_def)
    ultimately show thesis using 2(1) tail(1,2) u
      by (intro more [of "of_nat (0xC0 + q)" "[of_nat (0x80 + v mod 64)]" q]) simp_all
  next
    case 3
    then have "p < 16" by (simp add: q_def p_def)
    then have u: "unat (of_nat (0xE0 + p) :: byte) = 0xE0 + p" by (intro unat_byte) simp
    have "(224 + p) mod 16 = p" using mod_mult_self4 [of 16 14 p] \<open>p < 16\<close> by simp
    then have "utf8_lead (of_nat (0xE0 + p)) = Some (2, p)"
      unfolding utf8_lead_def u Let_def using \<open>p < 16\<close> by simp
    moreover have "utf8_value p [of_nat (0x80 + q mod 64), of_nat (0x80 + v mod 64)] = v"
      unfolding utf8_value_simps tail(3) q by (rule v)
    moreover have "utf8_enc v = [of_nat (0xE0 + p), of_nat (0x80 + q mod 64), of_nat (0x80 + v mod 64)]"
      using 3 by (simp add: utf8_enc_def q_def p_def)
    ultimately show thesis using 3(1) tail(1,2) u
      by (intro more [of "of_nat (0xE0 + p)" "[of_nat (0x80 + q mod 64), of_nat (0x80 + v mod 64)]" p]) simp_all
  next
    case 4
    then have "o' < 8" by (simp add: q_def p_def o'_def)
    then have u: "unat (of_nat (0xF0 + o') :: byte) = 0xF0 + o'" by (intro unat_byte) simp
    have "(240 + o') mod 8 = o'" using mod_mult_self4 [of 8 30 o'] \<open>o' < 8\<close> by simp
    then have "utf8_lead (of_nat (0xF0 + o')) = Some (3, o')"
      unfolding utf8_lead_def u Let_def using \<open>o' < 8\<close> by simp
    moreover have "utf8_value o' [of_nat (0x80 + p mod 64), of_nat (0x80 + q mod 64), of_nat (0x80 + v mod 64)] = v"
      unfolding utf8_value_simps tail(3) p q by (rule v)
    moreover have "utf8_enc v = [of_nat (0xF0 + o'), of_nat (0x80 + p mod 64), of_nat (0x80 + q mod 64), of_nat (0x80 + v mod 64)]"
      using 4 by (simp add: utf8_enc_def q_def p_def o'_def)
    ultimately show thesis using 4(1) tail(1,2) u
      by (intro more [of "of_nat (0xF0 + o')" "[of_nat (0x80 + p mod 64), of_nat (0x80 + q mod 64), of_nat (0x80 + v mod 64)]" o']) simp_all
  qed
qed

lemma continues_iff: "continues b \<longleftrightarrow> 0x80 \<le> unat b \<and> unat b < 0xC0"
proof -
  have v: "unat b < 256" using unsigned_less [of b, where ?'a = nat] by simp
  have "bit b 6 \<longleftrightarrow> bit (unat b) 6" by (simp add: bit_simps)
  then have six: "bit b 6 \<longleftrightarrow> odd (unat b div 64)" by (simp add: bit_iff_odd)
  have seven: "bit b 7 \<longleftrightarrow> 0x80 \<le> unat b" by (simp add: bit_7 word_less_nat_alt not_less)
  have "0x80 \<le> unat b \<Longrightarrow> odd (unat b div 64) \<longleftrightarrow> 0xC0 \<le> unat b"
  proof -
    assume "0x80 \<le> unat b"
    then consider "unat b div 64 = 2" "unat b < 0xC0" | "unat b div 64 = 3" "0xC0 \<le> unat b"
      using v by (cases "unat b < 0xC0") (auto simp: div_nat_eqI)
    then show ?thesis by cases simp_all
  qed
  then show ?thesis unfolding bit_6_7 six seven by auto
qed

lemma utf8_enc_not_Nil [simp]: "utf8_enc v \<noteq> []"
  by (simp add: utf8_enc_def)

lemma utf8_text_simps [simp]: "utf8_text [] = []" "utf8_text (v # vs) = utf8_enc v @ utf8_text vs"
  by (simp_all add: utf8_text_def)

lemma utf8_text_append: "utf8_text (vs @ ws) = utf8_text vs @ utf8_text ws"
  by (simp add: utf8_text_def)

lemma decode_enc: "code_point v \<Longrightarrow> decode_utf8 (Suc n) (utf8_enc v @ r) = v # decode_utf8 n r"
  by (rule enc_cases [of v]) auto

lemma decode_text: "list_all code_point vs \<Longrightarrow> decode_utf8 n (utf8_text vs @ r) = take n vs @ decode_utf8 (n - length vs) r"
proof (induction vs arbitrary: n)
  case (Cons v vs)
  then show ?case by (cases n) (simp_all add: decode_enc)
qed simp

text \<open>A character has one byte that does not continue, and is free of zeros unless it is one.\<close>

lemma starts_enc: "code_point v \<Longrightarrow> starts (utf8_enc v) = 1"
proof (rule enc_cases [of v])
  fix b bs m
  assume b: "utf8_enc v = b # bs" "\<forall>c \<in> set bs. 0x80 \<le> unat c \<and> unat c < 0xC0" "0xC0 \<le> unat b"
  then have "filter (\<lambda>b. \<not> continues b) bs = []" by (auto simp: filter_empty_conv continues_iff)
  then show "starts (utf8_enc v) = 1" using b continues_iff [of b] by simp
next
  assume "v < 0x80" "utf8_enc v = [of_nat v]"
  then show "starts (utf8_enc v) = 1" using continues_iff [of "of_nat v"] unat_byte [of v] by simp
qed

lemma starts_text: "list_all code_point vs \<Longrightarrow> starts (utf8_text vs) = length vs"
  by (induction vs) (simp_all add: starts_enc)

lemma zero_in_enc: "code_point v \<Longrightarrow> 0 \<in> set (utf8_enc v) \<longleftrightarrow> v = 0"
proof (rule enc_cases [of v])
  assume "v < 0x80" "utf8_enc v = [of_nat v]"
  then show "0 \<in> set (utf8_enc v) \<longleftrightarrow> v = 0" using unat_byte [of v] by auto
qed auto

lemma zero_in_text: "list_all code_point vs \<Longrightarrow> 0 \<in> set (utf8_text vs) \<longleftrightarrow> 0 \<in> set vs"
  by (induction vs) (auto simp: zero_in_enc)

section \<open>Walking and skipping\<close>

lemma walk_bytes_result:
  "\<forall>c \<in> set bs. c \<noteq> 0 \<Longrightarrow> (m + 1) * 64 ^ length bs \<le> 2 ^ 31 \<Longrightarrow>
   walk_bytes (length bs) (of_nat m) (bs @ r) = Some (of_nat (utf8_value m bs), r)"
proof -
  assume nz: "\<forall>c \<in> set bs. c \<noteq> 0" and bound: "(m + 1) * 64 ^ length bs \<le> 2 ^ 31"
  have "walk_bytes (length bs) ret (bs @ r) = continuation_loop (length bs) ret (bs @ r)" for ret
    using nz by (induction bs arbitrary: ret) (simp_all add: continuation_def)
  then show ?thesis using continuation_loop_result [OF bound, of "bs @ r"] by simp
qed

lemma utf8_walk_enc:
  assumes "code_point v"
  shows "utf8_walk (utf8_enc v @ r) = Some (of_nat v, r)"
proof (rule enc_cases [OF assms])
  assume v: "v < 0x80" "utf8_enc v = [of_nat v]"
  then have u: "unat (of_nat v :: byte) = v" by (intro unat_byte) simp
  have "(of_nat v :: u32) = ucast (of_nat v :: byte)"
    by (rule word_unat_eq_iff [THEN iffD2]) (use v u in \<open>simp add: unat_of_nat unsigned_ucast_eq take_bit_eq_mod\<close>)
  then show ?thesis using v u by (simp add: utf8_walk_def word_less_nat_alt)
next
  fix b bs m
  assume b: "utf8_enc v = b # bs" "utf8_lead b = Some (length bs, m)" "utf8_value m bs = v"
    "\<forall>c \<in> set bs. 0x80 \<le> unat c \<and> unat c < 0xC0" "0xC0 \<le> unat b" "bs = [] \<longleftrightarrow> False"
  have nz: "\<forall>c \<in> set bs. c \<noteq> 0" using b(4) by auto
  have len: "length bs \<le> 3"
    using b(1) assms by (auto simp: utf8_enc_def code_point_def split: if_splits)
  have masks: "(0x1F :: byte) = mask 5" "(0x0F :: byte) = mask 4" "(0x07 :: byte) = mask 3"
    by (simp_all add: mask_eq_exp_minus_1)
  note low = of_nat_low_bits [of b 5, simplified] of_nat_low_bits [of b 4, simplified] of_nat_low_bits [of b 3, simplified]
  note walk = walk_bytes_result [OF nz utf8_lead_bound [OF b(2)], of r, unfolded b(3)]
  consider "unat b < 0xE0" "length bs = 1" "m = unat b mod 32" | "0xE0 \<le> unat b" "unat b < 0xF0" "length bs = 2" "m = unat b mod 16"
    | "0xF0 \<le> unat b" "unat b < 0xF8" "length bs = 3" "m = unat b mod 8"
    using b(2,5) len by (auto simp: utf8_lead_def Let_def split: if_splits)
  then have "utf8_walk (b # bs @ r) = walk_bytes (length bs) (of_nat m) (bs @ r)"
    using b(5) by cases (simp_all only: utf8_walk_def word_less_nat_alt masks deref.simps list.sel Let_def, simp_all add: low)
  then show ?thesis unfolding b(1) using walk by simp
qed

lemma skip_nonzero_result: "\<forall>c \<in> set bs. c \<noteq> 0 \<Longrightarrow> skip_nonzero (length bs) (bs @ r) = Some r"
  by (induction bs) simp_all

text \<open>A text that is ended by a zero: what its first byte tells.\<close>

definition string_of :: "nat list \<Rightarrow> byte list \<Rightarrow> byte list" where
  "string_of vs t = utf8_text vs @ 0 # t"

lemma string_of_simps: "string_of [] t = 0 # t" "string_of (v # vs) t = utf8_enc v @ string_of vs t"
  by (simp_all add: string_of_def)

definition plain :: "nat \<Rightarrow> bool" where
  "plain v \<longleftrightarrow> code_point v \<and> v \<noteq> 0"

lemma plain_cases:
  assumes "plain v"
  obtains (one) b where "utf8_enc v = [b]" "b < 0x80" "b \<noteq> 0"
    | (more) b bs where "utf8_enc v = b # bs" "\<forall>c \<in> set bs. continues c \<and> c \<noteq> 0" "\<not> b < 0xC0" "\<not> continues b"
        "if b < 0xE0 then length bs = 1 else if b < 0xF0 then length bs = 2 else b < 0xF8 \<and> length bs = 3"
proof -
  have v: "code_point v" "v \<noteq> 0" using assms by (simp_all add: plain_def)
  show thesis
  proof (rule enc_cases [OF v(1)])
    assume e: "v < 0x80" "utf8_enc v = [of_nat v]"
    then have "unat (of_nat v :: byte) = v" by (intro unat_byte) simp
    then show thesis using e v(2) by (intro one [of "of_nat v"]) (auto simp: word_less_nat_alt)
  next
    fix b bs m
    assume e: "utf8_enc v = b # bs" "utf8_lead b = Some (length bs, m)"
      "\<forall>c \<in> set bs. 0x80 \<le> unat c \<and> unat c < 0xC0" "0xC0 \<le> unat b" "bs = [] \<longleftrightarrow> False"
    have "length bs \<le> 3" using e(1) v(1) by (auto simp: utf8_enc_def code_point_def split: if_splits)
    then show thesis using e
      by (intro more [of b bs]) (auto simp: continues_iff word_less_nat_alt utf8_lead_def Let_def split: if_splits)
  qed
qed

lemma skip_ascii_result:
  "list_all plain vs \<Longrightarrow> 0 < n \<Longrightarrow>
   \<exists>j. j < n \<and> j \<le> length vs \<and> skip_ascii (string_of vs t) n = Some (string_of (drop j vs) t, n - j)"
proof (induction vs arbitrary: n)
  case Nil
  then show ?case by (cases n) (auto simp: string_of_simps)
next
  case (Cons v vs)
  obtain m where n: "n = Suc m" using Cons.prems(2) by (cases n) auto
  have stop: ?case if "skip_ascii (string_of (v # vs) t) n = Some (string_of (v # vs) t, n)"
    using that Cons.prems(2) by (intro exI [of _ 0]) simp
  show ?case
  proof (cases "m = 0")
    case True
    then show ?thesis by (intro stop) (simp add: n)
  next
    case False
    have "plain v" using Cons.prems(1) by simp
    then show ?thesis
    proof (cases rule: plain_cases)
      case (one b)
      obtain j where "j < m" "j \<le> length vs" "skip_ascii (string_of vs t) m = Some (string_of (drop j vs) t, m - j)"
        using Cons.IH [of m] Cons.prems(1) False by auto
      then show ?thesis using one False by (intro exI [of _ "Suc j"]) (simp add: n string_of_simps)
    next
      case (more b bs)
      then have "128 \<le> b" by (simp add: word_less_nat_alt word_le_nat_alt)
      then show ?thesis using more(1) False by (intro stop) (simp add: n string_of_simps)
    qed
  qed
qed

lemma utf8skip_loop_result:
  "list_all plain vs \<Longrightarrow> 0 < n \<Longrightarrow> utf8skip_loop (string_of vs t) n = Some (string_of (drop n vs) t)"
proof (induction n arbitrary: vs rule: less_induct)
  case (less n)
  show ?case
  proof (cases vs)
    case Nil
    then show ?thesis by (subst utf8skip_loop.simps) (simp add: string_of_simps)
  next
    case (Cons v ws)
    have ws: "list_all plain ws" "plain v" using less.prems(1) by (simp_all add: Cons)
    have rest: "(if n - j - 1 = 0 then Some (string_of (drop j ws) t) else utf8skip_loop (string_of (drop j ws) t) (n - j - 1)) =
        Some (string_of (drop n vs) t)" if "j < n" for j
    proof (cases "n - j - 1 = 0")
      case True
      then have "n = Suc j" using that by simp
      then show ?thesis by (simp add: Cons)
    next
      case False
      have "list_all plain (drop j ws)" using ws(1) by (metis append_take_drop_id list_all_append)
      then have "utf8skip_loop (string_of (drop j ws) t) (n - j - 1) = Some (string_of (drop (n - j - 1) (drop j ws)) t)"
        using False that by (intro less.IH) simp_all
      also have "drop (n - j - 1) (drop j ws) = drop n vs" using that Cons by (cases n) (simp_all add: Suc_diff_Suc)
      finally show ?thesis using False by simp
    qed
    show ?thesis using ws(2)
    proof (cases rule: plain_cases)
      case (one b)
      obtain j where j: "j < n" "skip_ascii (string_of ws t) n = Some (string_of (drop j ws) t, n - j)"
        using skip_ascii_result [OF ws(1) less.prems(2)] by blast
      have "b < 0xC0" using one(2) by (simp add: word_less_nat_alt)
      then have "utf8skip_loop (b # string_of ws t) n =
          (if n - j - 1 = 0 then Some (string_of (drop j ws) t) else utf8skip_loop (string_of (drop j ws) t) (n - j - 1))"
        using one(2,3) j(2) by (subst utf8skip_loop.simps) auto
      then show ?thesis using one(1) rest [OF j(1)] unfolding Cons by (simp only: string_of_simps append_Cons append_Nil)
    next
      case (more b bs)
      have nz: "b \<noteq> 0" using more(3) by auto
      have skip: "skip_nonzero (length bs) (bs @ string_of ws t) = Some (string_of ws t)"
        using more(2) by (intro skip_nonzero_result) simp
      have "utf8skip_loop (b # bs @ string_of ws t) n =
          (if n - 1 = 0 then Some (string_of ws t) else utf8skip_loop (string_of ws t) (n - 1))"
        using more(3,5) nz skip by (subst utf8skip_loop.simps) (auto split: if_splits)
      also have "\<dots> = Some (string_of (drop n vs) t)" using rest [OF less.prems(2)] by (simp only: drop_0 diff_zero)
      finally show ?thesis unfolding Cons by (simp only: string_of_simps more(1) append_Cons)
    qed
  qed
qed

section \<open>Copying\<close>

lemma skip_cont_result:
  "list_all continues bs \<Longrightarrow> \<not> continues c \<Longrightarrow> skip_cont (a @ bs @ c # r) (length a) = Some (length a + length bs)"
proof (induction bs arbitrary: a)
  case Nil
  then show ?case by (subst skip_cont.simps) (simp add: arr_get_def)
next
  case (Cons b bs)
  have "skip_cont ((a @ [b]) @ bs @ c # r) (length (a @ [b])) = Some (length (a @ [b]) + length bs)"
    using Cons by (intro Cons.IH) simp_all
  then show ?case using Cons.prems by (subst skip_cont.simps) (simp add: arr_get_def)
qed

lemma string_of_head: "list_all plain vs \<Longrightarrow> \<exists>c r. string_of vs t = c # r \<and> \<not> continues c"
proof (cases vs)
  case (Cons v ws)
  assume "list_all plain vs"
  then have "plain v" using Cons by simp
  then show ?thesis
  proof (cases rule: plain_cases)
    case (one b)
    then have "\<not> continues b" by (simp add: continues_iff word_less_nat_alt)
    then show ?thesis using one by (simp add: Cons string_of_simps)
  qed (simp add: Cons string_of_simps)
qed (simp add: string_of_simps)

text \<open>Where character \<open>m\<close> starts, and the string around it.\<close>

definition char_at :: "nat list \<Rightarrow> nat \<Rightarrow> nat" where
  "char_at vs m = length (utf8_text (take m vs))"

lemma string_of_split:
  assumes "m < length vs"
  shows "string_of vs t = utf8_text (take m vs) @ utf8_enc (vs ! m) @ string_of (drop (Suc m) vs) t"
    and "char_at vs (Suc m) = char_at vs m + length (utf8_enc (vs ! m))"
  using arg_cong [OF id_take_nth_drop [OF assms], of utf8_text] assms
  by (simp_all add: string_of_def utf8_text_append char_at_def take_Suc_conv_app_nth)

lemma char_shape:
  assumes "list_all plain vs" and "m < length vs"
  obtains b bs where "utf8_enc (vs ! m) = b # bs" "b \<noteq> 0" "\<not> continues b" "list_all continues bs"
proof -
  have "plain (vs ! m)" using assms by (simp add: list_all_length)
  then show thesis
  proof (cases rule: plain_cases)
    case (one b)
    then show thesis using that [of b "[]"] by (simp add: continues_iff word_less_nat_alt)
  next
    case (more b bs)
    then have "b \<noteq> 0" by auto
    then show thesis using that [of b bs] more by (auto simp: list_all_iff)
  qed
qed

lemma char_at_mono: "m \<le> n \<Longrightarrow> char_at vs m \<le> char_at vs n"
proof -
  assume "m \<le> n"
  then have "take n vs = take m vs @ take (n - m) (drop m vs)" by (metis le_add_diff_inverse take_add)
  then show ?thesis by (simp add: char_at_def utf8_text_append)
qed

lemma char_at_end: "length vs \<le> m \<Longrightarrow> char_at vs m = length (utf8_text vs)"
  by (simp add: char_at_def)

lemma string_of_nth_end: "string_of vs t ! length (utf8_text vs) = 0"
  by (simp add: string_of_def)

lemma length_string_of: "length (string_of vs t) = length (utf8_text vs) + Suc (length t)"
  by (simp add: string_of_def)

lemma cpy_loop_result:
  "list_all plain vs \<Longrightarrow> m \<le> length vs \<Longrightarrow>
   \<exists>m'. m \<le> m' \<and> m' \<le> length vs \<and> m' \<le> m + chars \<and> (m < m' \<longrightarrow> char_at vs (m' - 1) < len - 1) \<and>
     (len - 1 \<le> char_at vs m' \<or> m' = length vs \<or> m' = m + chars) \<and>
     cpy_loop (string_of vs t) len (char_at vs m) chars = Some (char_at vs m')"
proof (induction chars arbitrary: m)
  case 0
  have "char_at vs m < length (string_of vs t)"
    using char_at_mono [OF 0(2), of vs] by (simp add: char_at_end length_string_of)
  then show ?case using 0(2) by (intro exI [of _ m]) (subst cpy_loop.simps, simp add: arr_get_def)
next
  case (Suc chars)
  show ?case
  proof (cases "char_at vs m < len - 1 \<and> m < length vs")
    case False
    have "cpy_loop (string_of vs t) len (char_at vs m) (Suc chars) = Some (char_at vs m)"
    proof (cases "char_at vs m < len - 1")
      case True
      then have "m = length vs" using False Suc.prems(2) by simp
      then show ?thesis by (subst cpy_loop.simps) (simp add: arr_get_def char_at_end length_string_of string_of_nth_end)
    qed (subst cpy_loop.simps, simp)
    then show ?thesis using False Suc.prems(2) by (intro exI [of _ m]) auto
  next
    case True
    then have m: "m < length vs" "char_at vs m < len - 1" by simp_all
    obtain b bs where b: "utf8_enc (vs ! m) = b # bs" "b \<noteq> 0" "\<not> continues b" "list_all continues bs"
      using char_shape [OF Suc.prems(1) m(1)] by blast
    have "list_all plain (drop (Suc m) vs)" using Suc.prems(1) by (metis append_take_drop_id list_all_append)
    then obtain c r where c: "string_of (drop (Suc m) vs) t = c # r" "\<not> continues c" using string_of_head by blast
    have str: "string_of vs t = (utf8_text (take m vs) @ [b]) @ bs @ c # r"
      using string_of_split(1) [OF m(1), of t] b(1) c(1) by simp
    have next_: "char_at vs (Suc m) = char_at vs m + 1 + length bs" using string_of_split(2) [OF m(1)] b(1) by simp
    have get: "arr_get (string_of vs t) (char_at vs m) = Some b" unfolding str by (simp add: arr_get_def char_at_def nth_append)
    have skip: "skip_cont (string_of vs t) (char_at vs m + 1) = Some (char_at vs (Suc m))"
      using skip_cont_result [OF b(4) c(2), of "utf8_text (take m vs) @ [b]" r] unfolding str next_ by (simp add: char_at_def)
    obtain m' where m': "Suc m \<le> m'" "m' \<le> length vs" "m' \<le> Suc m + chars" "Suc m < m' \<longrightarrow> char_at vs (m' - 1) < len - 1"
      "len - 1 \<le> char_at vs m' \<or> m' = length vs \<or> m' = Suc m + chars"
      "cpy_loop (string_of vs t) len (char_at vs (Suc m)) chars = Some (char_at vs m')"
      using Suc.IH [OF Suc.prems(1), of "Suc m"] m(1) by auto
    have "char_at vs (m' - 1) < len - 1" using m'(1,4) m(2) by (cases "Suc m = m'") auto
    moreover have "cpy_loop (string_of vs t) len (char_at vs m) (Suc chars) = Some (char_at vs m')"
      using m(2) get b(2) skip m'(6) by (subst cpy_loop.simps) simp
    ultimately show ?thesis using m' by (intro exI [of _ m']) auto
  qed
qed

lemma cpy_back_result:
  "i \<le> length bs \<Longrightarrow> \<not> continues b \<Longrightarrow> list_all continues bs \<Longrightarrow>
   cpy_back (a @ b # bs @ r) (length a + i) = Some (length a)"
proof (induction i)
  case 0
  then show ?case by (cases "length a") (simp_all add: arr_get_def nth_append)
next
  case (Suc i)
  have "(a @ b # bs @ r) ! Suc (length a + i) = bs ! i" using Suc.prems(1) by (simp add: nth_append)
  moreover have "continues (bs ! i)" using Suc.prems by (simp add: list_all_length)
  ultimately show ?case using Suc by (simp add: arr_get_def)
qed

lemma utf8cpy_result:
  assumes vs: "list_all plain vs" and len: "0 < len" "len \<le> length s"
  shows "\<exists>m. m \<le> length vs \<and> m \<le> chars \<and> char_at vs m \<le> len - 1 \<and>
    (m = length vs \<or> m = chars \<or> len - 1 < char_at vs (Suc m)) \<and>
    utf8cpy s len (Some (string_of vs t)) chars =
      Some (utf8_text (take m vs) @ 0 # drop (Suc (char_at vs m)) s, char_at vs m)"
proof -
  have "char_at vs 0 = 0" by (simp add: char_at_def)
  then obtain m' where m': "m' \<le> length vs" "m' \<le> chars" "0 < m' \<longrightarrow> char_at vs (m' - 1) < len - 1"
    "len - 1 \<le> char_at vs m' \<or> m' = length vs \<or> m' = chars" "cpy_loop (string_of vs t) len 0 chars = Some (char_at vs m')"
    using cpy_loop_result [OF vs, of 0 chars len t] by auto
  have wr: "utf8cpy s len (Some (string_of vs t)) chars =
      Some (utf8_text (take m vs) @ 0 # drop (Suc (char_at vs m)) s, char_at vs m)"
    if "(if char_at vs m' > len - 1 then cpy_back (string_of vs t) (len - 1) else Some (char_at vs m')) = Some (char_at vs m)"
      "char_at vs m \<le> len - 1" "m \<le> length vs" for m
  proof -
    have "string_of vs t = utf8_text (take m vs) @ utf8_text (drop m vs) @ 0 # t"
      using utf8_text_append [of "take m vs" "drop m vs"] by (simp add: string_of_def)
    then have "mem_read (string_of vs t) 0 (char_at vs m) = Some (utf8_text (take m vs))"
      by (simp add: mem_read_def char_at_def)
    moreover have "mem_write s 0 (utf8_text (take m vs)) = Some (utf8_text (take m vs) @ drop (char_at vs m) s)"
      using that(2) len by (simp add: mem_write_def char_at_def)
    moreover have "arr_set (utf8_text (take m vs) @ drop (char_at vs m) s) (char_at vs m) 0 =
        Some (utf8_text (take m vs) @ 0 # drop (Suc (char_at vs m)) s)"
    proof -
      have "char_at vs m < length s" using that(2) len by simp
      then show ?thesis by (simp add: arr_set_def char_at_def list_update_append Cons_nth_drop_Suc [symmetric])
    qed
    ultimately show ?thesis using that(1) len(1) m'(5) by (simp add: utf8cpy_def)
  qed
  show ?thesis
  proof (cases "char_at vs m' > len - 1")
    case False
    have "m' = length vs \<or> m' = chars \<or> len - 1 < char_at vs (Suc m')"
    proof (cases "m' < length vs")
      case True
      then have "char_at vs m' < char_at vs (Suc m')" using string_of_split(2) [OF True] by simp
      then show ?thesis using m'(4) False by auto
    qed (use m'(1) in simp)
    then show ?thesis using False m' wr [of m'] by (intro exI [of _ m']) simp
  next
    case True
    then obtain m where m: "m' = Suc m" by (cases m') (simp_all add: char_at_def)
    have before: "char_at vs m < len - 1" "m < length vs" using m'(1,3) m by simp_all
    obtain b bs where b: "utf8_enc (vs ! m) = b # bs" "b \<noteq> 0" "\<not> continues b" "list_all continues bs"
      using char_shape [OF vs before(2)] by blast
    have "char_at vs (Suc m) = char_at vs m + 1 + length bs" using string_of_split(2) [OF before(2)] b(1) by simp
    then have "len - 1 - char_at vs m \<le> length bs" using True m by simp
    from cpy_back_result [OF this b(3,4), of "utf8_text (take m vs)" "string_of (drop (Suc m) vs) t"]
    have "cpy_back (string_of vs t) (len - 1) = Some (char_at vs m)"
      using before(1) unfolding string_of_split(1) [OF before(2)] b(1) by (simp add: char_at_def)
    then have "utf8cpy s len (Some (string_of vs t)) chars =
        Some (utf8_text (take m vs) @ 0 # drop (Suc (char_at vs m)) s, char_at vs m)"
      using True before by (intro wr) simp_all
    then show ?thesis using True m m'(2) before by (intro exI [of _ m]) simp
  qed
qed

section \<open>Properties\<close>

text \<open>
  C14. whatever the bytes, the decoder of UTF-8 reads only the input and writes only the output, and
  gives the code points of the lenient reference decoder, up to the first byte that cannot lead a
  character, the end of the input or the end of the output. The loops over eight ASCII bytes and the
  unrolled cases change nothing.
\<close>

theorem utf8_conv_utf32_correct:
  assumes "in_size \<le> length inp" and "out_chars \<le> length out"
  shows "let vs = decode_utf8 out_chars (take in_size inp) in
    utf8_conv_utf32 out out_chars inp in_size = Some (map of_nat vs @ drop (length vs) out, length vs)"
  using utf8_conv_loop_result [OF assms(1), of 0 out_chars out] assms(2)
  by (simp add: utf8_conv_utf32_def put_at_def Let_def)

text \<open>The witness: \<open>a\<close>, a character of two bytes and a byte that cannot lead.\<close>

theorem utf8_conv_utf32_correct_witness:
  "utf8_conv_utf32 [0, 0, 0, 0] 4 [0x61, 0xC3, 0xA9, 0x80, 0x61] 5 = Some ([0x61, 0xE9, 0, 0], 2)"
proof -
  have "decode_utf8 4 (take 5 [0x61, 0xC3, 0xA9, 0x80, 0x61]) = [0x61, 0xE9]" by code_simp
  then show ?thesis
    using utf8_conv_utf32_correct [of 5 "[0x61, 0xC3, 0xA9, 0x80, 0x61]" 4 "[0, 0, 0, 0]"] by (simp add: Let_def)
qed

text \<open>
  C17. \<open>utf8len\<close> counts the bytes that do not continue a character, whatever the address of the
  string: eight bytes at a time in a word gives the same count. On the encoding of code points that is
  their number.
\<close>

theorem utf8len_counts:
  assumes "terminated s"
  shows "utf8len addr (Some s) = Some (length (filter (\<lambda>b. b AND 0xC0 \<noteq> 0x80) (cstr s))) \<and>
    (\<forall>vs. list_all code_point vs \<longrightarrow> cstr s = utf8_text vs \<longrightarrow> utf8len addr (Some s) = Some (length vs))"
  using utf8len_result [OF assms] starts_text by simp

theorem utf8len_counts_witness:
  "utf8len 0x1003 (Some [0xC3, 0xA9, 0x61, 0xE2, 0x82, 0xAC, 0]) = Some 3"
  using utf8len_counts [where s = "[0xC3, 0xA9, 0x61, 0xE2, 0x82, 0xAC, 0]" and addr = "0x1003"] by simp

text \<open>
  C18. on a string of code points \<open>utf8cpy\<close> copies whole characters: as many as fit in \<open>len\<close> with the
  terminator and no more than asked for, and not one less. The result is their number of bytes, and
  the copy is terminated.
\<close>

theorem utf8cpy_whole_characters:
  assumes "list_all (\<lambda>v. code_point v \<and> v \<noteq> 0) vs" and "0 < len" and "len \<le> length s"
  shows "\<exists>m. m \<le> length vs \<and> m \<le> chars \<and> length (utf8_text (take m vs)) < len \<and>
    (m = length vs \<or> m = chars \<or> len \<le> length (utf8_text (take (Suc m) vs))) \<and>
    utf8cpy s len (Some (utf8_text vs @ 0 # t)) chars =
      Some (utf8_text (take m vs) @ 0 # drop (Suc (length (utf8_text (take m vs)))) s, length (utf8_text (take m vs)))"
proof -
  have "list_all plain vs" using assms(1) by (simp add: plain_def [abs_def])
  from utf8cpy_result [OF this assms(2,3), of chars t] obtain m where m: "m \<le> length vs" "m \<le> chars"
    "char_at vs m \<le> len - 1" "m = length vs \<or> m = chars \<or> len - 1 < char_at vs (Suc m)"
    "utf8cpy s len (Some (string_of vs t)) chars =
      Some (utf8_text (take m vs) @ 0 # drop (Suc (char_at vs m)) s, char_at vs m)"
    by blast
  then have "char_at vs m < len" "m = length vs \<or> m = chars \<or> len \<le> char_at vs (Suc m)" using assms(2) by auto
  with m show ?thesis unfolding char_at_def string_of_def by blast
qed

text \<open>The witness: in five bytes there is room for the letter and for one character of three bytes.\<close>

theorem utf8cpy_whole_characters_witness:
  "\<exists>m. m \<le> 3 \<and> length (utf8_text (take m [0x61, 0x20AC, 0x20AC])) < 6 \<and>
    utf8cpy (replicate 9 1) 6 (Some (utf8_text [0x61, 0x20AC, 0x20AC] @ [0])) 10 =
      Some (utf8_text (take m [0x61, 0x20AC, 0x20AC]) @
        0 # drop (Suc (length (utf8_text (take m [0x61, 0x20AC, 0x20AC])))) (replicate 9 1),
        length (utf8_text (take m [0x61, 0x20AC, 0x20AC])))"
proof -
  let ?vs = "[0x61, 0x20AC, 0x20AC] :: nat list"
  have vs: "list_all (\<lambda>v. code_point v \<and> v \<noteq> 0) ?vs" by (simp add: code_point_def)
  have len: "0 < (6 :: nat)" "6 \<le> length (replicate 9 (1 :: byte))" by simp_all
  from utf8cpy_whole_characters [OF vs len, of 10 "[]"] obtain m where m: "m \<le> length ?vs" and
    r: "length (utf8_text (take m ?vs)) < 6"
    "utf8cpy (replicate 9 1) 6 (Some (utf8_text ?vs @ [0])) 10 =
      Some (utf8_text (take m ?vs) @ 0 # drop (Suc (length (utf8_text (take m ?vs)))) (replicate 9 1), length (utf8_text (take m ?vs)))"
    by (elim exE conjE)
  have "m \<le> 3" using m by simp
  then show ?thesis by (intro exI [of _ m] conjI r)
qed

text \<open>
  On a string of code points \<open>utf8skip\<close> skips exactly as many characters as asked for and stops
  at the terminator, and \<open>utf8_walk\<close> returns the first code point and the rest.
\<close>

theorem utf8_skip_and_walk:
  assumes "list_all (\<lambda>v. code_point v \<and> v \<noteq> 0) vs"
  shows "utf8skip (utf8_text vs @ 0 # t) n = Some (utf8_text (drop n vs) @ 0 # t) \<and>
    (vs \<noteq> [] \<longrightarrow> utf8_walk (utf8_text vs @ 0 # t) = Some (of_nat (hd vs), utf8_text (tl vs) @ 0 # t))"
proof
  have plain: "list_all plain vs" using assms by (simp add: plain_def [abs_def])
  show "utf8skip (utf8_text vs @ 0 # t) n = Some (utf8_text (drop n vs) @ 0 # t)"
    using utf8skip_loop_result [OF plain, of n t] by (simp add: utf8skip_def string_of_def)
  show "vs \<noteq> [] \<longrightarrow> utf8_walk (utf8_text vs @ 0 # t) = Some (of_nat (hd vs), utf8_text (tl vs) @ 0 # t)"
    using assms by (cases vs) (simp_all add: utf8_walk_enc)
qed

theorem utf8_skip_and_walk_witness:
  "utf8skip (utf8_text [0x61, 0x20AC, 0xE9] @ [0]) 2 = Some (utf8_text [0xE9] @ [0]) \<and>
   utf8_walk (utf8_text [0x20AC] @ [0]) = Some (0x20AC, [0])"
  using utf8_skip_and_walk [of "[0x61, 0x20AC, 0xE9]" "[]" 2] utf8_skip_and_walk [of "[0x20AC]" "[]" 0]
  by (auto simp: code_point_def simp del: utf8_text_simps(2))

end
