(* ===== verification/Utf16.thy ===== *)
theory Utf16
  imports Utf8Text
begin

text \<open>
  The UTF-16 half of \<open>encodings/encoding_utf.c\<close>: conversion to UTF-8, with its counting mode, and
  the string functions built on both halves, as compiled outside Windows.
\<close>

section \<open>The code\<close>

type_synonym u16 = "16 word"

text \<open>A unit and, for the first of a pair, the unit behind it; \<open>Some None\<close> is the \<open>break\<close>.\<close>

definition utf16_pair :: "u16 list \<Rightarrow> nat \<Rightarrow> nat \<Rightarrow> u32 \<Rightarrow> (u32 \<times> nat) option option" where
  "utf16_pair inp in_size in_pos value =
     (if value \<ge> 0xD800 \<and> value < 0xE000
      then (if value \<ge> 0xDC00 \<or> in_pos = in_size then Some None
        else do {
          c2 \<leftarrow> map_option ucast (arr_get inp in_pos);
          let in_pos = in_pos + 1;
          if c2 < 0xDC00 \<or> c2 \<ge> 0xE000 then Some None
          else Some (Some ((push_bit 10 (value - 0xD800) OR (c2 - 0xDC00)) + 0x10000, in_pos)) })
      else Some (Some (value, in_pos)))"

partial_function (option) utf16_count_loop :: "u16 list \<Rightarrow> nat \<Rightarrow> nat \<Rightarrow> nat \<Rightarrow> (nat \<times> bool) option" where
  "utf16_count_loop inp in_size in_pos out_pos =
     (if in_pos = in_size then Some (out_pos, True)
      else do {
        value \<leftarrow> map_option ucast (arr_get inp in_pos);
        let in_pos = in_pos + 1;
        if value < 0x80 then utf16_count_loop inp in_size in_pos (out_pos + 1)
        else do {
          r \<leftarrow> utf16_pair inp in_size in_pos value;
          case r of
            None \<Rightarrow> Some (out_pos, False)
          | Some (value, in_pos) \<Rightarrow>
              utf16_count_loop inp in_size in_pos
                (if value < 0x800 then out_pos + 2 else if value < 0x10000 then out_pos + 3 else out_pos + 4) } })"

fun utf16_ascii_loop :: "u16 list \<Rightarrow> nat \<Rightarrow> nat \<Rightarrow> byte list \<Rightarrow> nat \<Rightarrow> (nat \<times> byte list \<times> nat) option" where
  "utf16_ascii_loop inp 0 in_pos out out_pos = Some (in_pos, out, out_pos)"
| "utf16_ascii_loop inp (Suc n) in_pos out out_pos = do {
     c \<leftarrow> arr_get inp in_pos;
     if c < 0x80
     then do {
       out \<leftarrow> arr_set out out_pos (ucast c);
       utf16_ascii_loop inp n (in_pos + 1) out (out_pos + 1) }
     else Some (in_pos, out, out_pos) }"

definition utf16_put :: "byte list \<Rightarrow> nat \<Rightarrow> u32 \<Rightarrow> (byte list \<times> nat) option" where
  "utf16_put out out_pos value =
     (if value < 0x800 then do {
        out \<leftarrow> arr_set out out_pos (ucast (0xC0 OR drop_bit 6 value));
        out \<leftarrow> arr_set out (out_pos + 1) (ucast (0x80 OR value AND 0x3F));
        Some (out, out_pos + 2) }
      else if value < 0x10000 then do {
        out \<leftarrow> arr_set out out_pos (ucast (0xE0 OR drop_bit 12 value));
        out \<leftarrow> arr_set out (out_pos + 1) (ucast (0x80 OR drop_bit 6 value AND 0x3F));
        out \<leftarrow> arr_set out (out_pos + 2) (ucast (0x80 OR value AND 0x3F));
        Some (out, out_pos + 3) }
      else do {
        out \<leftarrow> arr_set out out_pos (ucast (0xF0 OR drop_bit 18 value));
        out \<leftarrow> arr_set out (out_pos + 1) (ucast (0x80 OR drop_bit 12 value AND 0x3F));
        out \<leftarrow> arr_set out (out_pos + 2) (ucast (0x80 OR drop_bit 6 value AND 0x3F));
        out \<leftarrow> arr_set out (out_pos + 3) (ucast (0x80 OR value AND 0x3F));
        Some (out, out_pos + 4) })"

partial_function (option) utf16_encode_loop ::
  "u16 list \<Rightarrow> nat \<Rightarrow> nat \<Rightarrow> byte list \<Rightarrow> nat \<Rightarrow> (byte list \<times> nat \<times> bool) option" where
  "utf16_encode_loop inp in_size in_pos out out_pos =
     (if in_pos = in_size then Some (out, out_pos, True)
      else do {
        (in_pos, out, out_pos) \<leftarrow> utf16_ascii_loop inp (in_size - in_pos) in_pos out out_pos;
        if in_pos = in_size then Some (out, out_pos, True)
        else do {
          value \<leftarrow> map_option ucast (arr_get inp in_pos);
          r \<leftarrow> utf16_pair inp in_size (in_pos + 1) value;
          case r of
            None \<Rightarrow> Some (out, out_pos, False)
          | Some (value, in_pos) \<Rightarrow> do {
              (out, out_pos) \<leftarrow> utf16_put out out_pos value;
              utf16_encode_loop inp in_size in_pos out out_pos } } })"

text \<open>The result is the buffer, the value of \<open>*out_chars\<close> and the value returned.\<close>

definition utf16_conv_utf8 :: "byte list option \<Rightarrow> u16 list \<Rightarrow> nat \<Rightarrow> (byte list option \<times> nat \<times> bool) option" where
  "utf16_conv_utf8 out inp in_size = (case out of
     None \<Rightarrow> map_option (\<lambda>(n, ok). (None, n, ok)) (utf16_count_loop inp in_size 0 0)
   | Some out \<Rightarrow> map_option (\<lambda>(out, n, ok). (Some out, n, ok)) (utf16_encode_loop inp in_size 0 out 0))"

text \<open>The length of a string of units, and the conversion into a new buffer.\<close>

fun wide_len :: "'a::zero list \<Rightarrow> nat option" where
  "wide_len [] = None"
| "wide_len (c # p) = (if c \<noteq> 0 then map_option Suc (wide_len p) else Some 0)"

definition utf16_to_char :: "(nat \<Rightarrow> byte list option) \<Rightarrow> u16 list \<Rightarrow> (byte list option \<times> nat \<times> bool) option" where
  "utf16_to_char malloc inp = do {
     in_len \<leftarrow> wide_len inp;
     if in_len > (SIZE_MAX - 1) div 3 then Some (None, 0, False)
     else case malloc (3 * in_len + 1) of
       None \<Rightarrow> Some (None, 0, False)
     | Some utf_data \<Rightarrow> utf16_conv_utf8 (Some utf_data) inp in_len }"

definition utf16_to_char_string :: "(nat \<Rightarrow> byte list option) \<Rightarrow> u16 list \<Rightarrow> byte list \<Rightarrow> nat \<Rightarrow> (byte list \<times> bool) option" where
  "utf16_to_char_string malloc inp s len = do {
     (utf16_data, n, ret) \<leftarrow> utf16_to_char malloc inp;
     if ret
     then do {
       data \<leftarrow> utf16_data;
       data \<leftarrow> arr_set data n 0;
       (s, _) \<leftarrow> strlcpy s 0 data len;
       Some (s, True) }
     else Some (s, False) }"

text \<open>The copies of local strings, which are UTF-8 here; \<open>ok\<close> is whether the allocation succeeds.\<close>

definition utf8_to_local_string_alloc :: "bool \<Rightarrow> byte list option \<Rightarrow> byte list option option" where
  "utf8_to_local_string_alloc ok str = (case str of
     None \<Rightarrow> Some None
   | Some p \<Rightarrow> do {
       c \<leftarrow> deref p;
       if c \<noteq> 0 then do { d \<leftarrow> dup_string p; Some (if ok then Some d else None) } else Some None })"

definition local_to_utf8_string_alloc :: "bool \<Rightarrow> byte list option \<Rightarrow> byte list option option" where
  "local_to_utf8_string_alloc ok str = (case str of
     None \<Rightarrow> Some None
   | Some p \<Rightarrow> do {
       c \<leftarrow> deref p;
       if c \<noteq> 0 then do { d \<leftarrow> dup_string p; Some (if ok then Some d else None) } else Some None })"

definition local_to_utf8_string :: "byte list option \<Rightarrow> byte list option \<Rightarrow> nat \<Rightarrow> (byte list option \<times> bool) option" where
  "local_to_utf8_string inp s len = (case s of
     None \<Rightarrow> Some (None, False)
   | Some s \<Rightarrow>
       if len = 0 then Some (Some s, False)
       else do {
         s \<leftarrow> arr_set s 0 0;
         case inp of
           None \<Rightarrow> Some (Some s, True)
         | Some p \<Rightarrow> do {
             c \<leftarrow> deref p;
             if c = 0 then Some (Some s, True)
             else do { (s, _) \<leftarrow> strlcpy s 0 p len; Some (Some s, True) } } })"

text \<open>
  Strings of \<open>wchar_t\<close>, of \<open>wchar_size\<close> bytes: a cast to \<open>wchar_t\<close> keeps the low bits. \<open>malloc32\<close> and
  \<open>malloc_wide\<close> answer for a number of elements.
\<close>

definition to_wchar :: "nat \<Rightarrow> u32 \<Rightarrow> u32" where
  "to_wchar wchar_size c = (if wchar_size = 2 then take_bit 16 c else c)"

fun wide_pairs_loop :: "u32 list \<Rightarrow> u32 list \<Rightarrow> nat \<Rightarrow> (u32 list \<times> nat) option" where
  "wide_pairs_loop [] buf o' = Some (buf, o')"
| "wide_pairs_loop (cp # u32) buf o' =
     (if cp < 0x10000 then do { buf \<leftarrow> arr_set buf o' (to_wchar 2 cp); wide_pairs_loop u32 buf (o' + 1) }
      else if cp \<le> 0x10FFFF then do {
        let cp = cp - 0x10000;
        buf \<leftarrow> arr_set buf o' (to_wchar 2 (0xD800 OR drop_bit 10 cp));
        buf \<leftarrow> arr_set buf (o' + 1) (to_wchar 2 (0xDC00 OR cp AND 0x3FF));
        wide_pairs_loop u32 buf (o' + 2) }
      else do { buf \<leftarrow> arr_set buf o' (to_wchar 2 0xFFFD); wide_pairs_loop u32 buf (o' + 1) })"

definition utf8_to_utf16_string_alloc ::
  "nat \<Rightarrow> (nat \<Rightarrow> u32 list option) \<Rightarrow> (nat \<Rightarrow> u32 list option) \<Rightarrow> byte list option \<Rightarrow> u32 list option option" where
  "utf8_to_utf16_string_alloc wchar_size malloc32 malloc_wide str = (case str of
     None \<Rightarrow> Some None
   | Some str \<Rightarrow> do {
       c \<leftarrow> deref str;
       if c = 0 then Some None
       else do {
         n8 \<leftarrow> strlen str;
         case malloc32 n8 of
           None \<Rightarrow> Some None
         | Some u32 \<Rightarrow> do {
             (u32, n32) \<leftarrow> utf8_conv_utf32 u32 n8 str n8;
             if wchar_size = 2
             then (case malloc_wide (2 * n32 + 1) of
                 None \<Rightarrow> Some None
               | Some buf \<Rightarrow> do {
                   (buf, o') \<leftarrow> wide_pairs_loop (take n32 u32) buf 0;
                   map_option Some (arr_set buf o' 0) })
             else (case malloc_wide (n32 + 1) of
                 None \<Rightarrow> Some None
               | Some buf \<Rightarrow> do {
                   buf \<leftarrow> mem_write buf 0 (map (to_wchar wchar_size) (take n32 u32));
                   map_option Some (arr_set buf n32 0) }) } } })"

text \<open>The units of a wide string; the flag says that every code point had some.\<close>

fun narrow_pairs_loop :: "u32 list \<Rightarrow> u16 list \<Rightarrow> nat \<Rightarrow> (u16 list \<times> nat \<times> bool) option" where
  "narrow_pairs_loop [] u16 n16 = Some (u16, n16, True)"
| "narrow_pairs_loop (cp # str) u16 n16 =
     (if cp < 0x10000 then do { u16 \<leftarrow> arr_set u16 n16 (ucast cp); narrow_pairs_loop str u16 (n16 + 1) }
      else if cp \<le> 0x10FFFF then do {
        let cp = cp - 0x10000;
        u16 \<leftarrow> arr_set u16 n16 (ucast (0xD800 OR drop_bit 10 cp));
        u16 \<leftarrow> arr_set u16 (n16 + 1) (ucast (0xDC00 OR cp AND 0x3FF));
        narrow_pairs_loop str u16 (n16 + 2) }
      else Some (u16, n16, False))"

definition utf16_to_utf8_string_alloc ::
  "nat \<Rightarrow> (nat \<Rightarrow> u16 list option) \<Rightarrow> (nat \<Rightarrow> byte list option) \<Rightarrow> u32 list option \<Rightarrow> byte list option option" where
  "utf16_to_utf8_string_alloc wchar_size malloc16 malloc str = (case str of
     None \<Rightarrow> Some None
   | Some str \<Rightarrow>
       if str \<noteq> [] \<and> hd str = 0 then Some None
       else do {
         in_len \<leftarrow> wide_len str;
         case malloc16 (2 * in_len) of
           None \<Rightarrow> Some None
         | Some u16 \<Rightarrow> do {
             (u16, n16, ok) \<leftarrow>
               (if wchar_size = 2
                then map_option (\<lambda>u16. (u16, in_len, True)) (mem_write u16 0 (map ucast (take in_len str)))
                else narrow_pairs_loop (take in_len str) u16 0);
             if \<not> ok then Some None
             else do {
               (_, n, counted) \<leftarrow> utf16_conv_utf8 None u16 n16;
               if \<not> counted then Some None
               else case malloc (n + 1) of
                 None \<Rightarrow> Some None
               | Some buf \<Rightarrow> do {
                   (buf, n, written) \<leftarrow> utf16_conv_utf8 (Some buf) u16 n16;
                   if written then do { buf \<leftarrow> buf; map_option Some (arr_set buf n 0) } else Some None } } } })"

section \<open>Units and code points\<close>

text \<open>The next code point of a sequence of units, and all of them up to the first unit out of place.\<close>

fun utf16_next :: "u16 list \<Rightarrow> (nat \<times> u16 list) option" where
  "utf16_next [] = None"
| "utf16_next (x # xs) =
     (if unat x < 0xD800 \<or> 0xE000 \<le> unat x then Some (unat x, xs)
      else if 0xDC00 \<le> unat x then None
      else case xs of
        [] \<Rightarrow> None
      | y # ys \<Rightarrow>
          if 0xDC00 \<le> unat y \<and> unat y < 0xE000
          then Some ((unat x - 0xD800) * 1024 + (unat y - 0xDC00) + 0x10000, ys) else None)"

lemma utf16_next_shorter: "utf16_next xs = Some (v, ys) \<Longrightarrow> length ys < length xs"
  by (cases xs) (auto split: if_splits list.splits)

function utf16_decode :: "u16 list \<Rightarrow> nat list \<times> bool" where
  "utf16_decode xs =
     (if xs = [] then ([], True)
      else case utf16_next xs of
        None \<Rightarrow> ([], False)
      | Some (v, ys) \<Rightarrow> apfst ((#) v) (utf16_decode ys))"
  by pat_completeness auto
termination by (relation "measure length") (auto dest: utf16_next_shorter)

declare utf16_decode.simps [simp del] utf16_next.simps [simp del]

lemma utf16_next_code_point: "utf16_next xs = Some (v, ys) \<Longrightarrow> code_point v"
proof (cases xs)
  case (Cons x zs)
  assume n: "utf16_next xs = Some (v, ys)"
  have "unat x < 65536" using unsigned_less [of x, where ?'a = nat] by simp
  then show ?thesis using n unfolding Cons by (auto simp: utf16_next.simps code_point_def split: if_splits list.splits)
qed (simp add: utf16_next.simps)

lemma utf16_decode_code_points: "list_all code_point (fst (utf16_decode xs))"
proof (induction xs rule: utf16_decode.induct)
  case (1 xs)
  then show ?case
    by (subst utf16_decode.simps) (auto split: option.splits dest: utf16_next_code_point)
qed

text \<open>The units of the input from a position on.\<close>

abbreviation units :: "u16 list \<Rightarrow> nat \<Rightarrow> nat \<Rightarrow> u16 list" where
  "units inp n p \<equiv> take (n - p) (drop p inp)"

lemma units_Cons: "p < n \<Longrightarrow> n \<le> length inp \<Longrightarrow> units inp n p = inp ! p # units inp n (Suc p)"
  by (simp add: Cons_nth_drop_Suc [symmetric] take_Cons' Suc_diff_Suc)

text \<open>Words of 32 bits built from disjoint pieces.\<close>

lemma or_high:
  assumes "unat x < 2 ^ k"
  shows "push_bit k c OR x = push_bit k c + (x :: 'a::len word)"
proof (rule disjunctive_add [symmetric])
  fix n
  have "n < k" if "bit x n"
  proof (rule ccontr)
    assume "\<not> n < k"
    then have "unat x < 2 ^ n" using assms by (meson le_less_trans not_less power_increasing less_le_trans one_le_numeral)
    then have "\<not> bit (unat x) n" by (simp add: bit_iff_odd)
    then show False using that by (simp add: bit_simps)
  qed
  then show "\<not> bit (push_bit k c) n \<or> \<not> bit x n" by (auto simp: bit_push_bit_iff)
qed

lemma u32_of_unit: "unat (ucast (x :: u16) :: u32) = unat x"
  using unsigned_less [of x, where ?'a = nat] by (simp add: unsigned_ucast_eq take_bit_eq_mod)

lemma surrogate_value:
  assumes "0xD800 \<le> unat x" "unat x < 0xDC00" "0xDC00 \<le> unat y" "unat y < 0xE000"
  shows "(push_bit 10 (ucast (x :: u16) - 0xD800) OR (ucast (y :: u16) - 0xDC00)) + 0x10000 =
    (of_nat ((unat x - 0xD800) * 1024 + (unat y - 0xDC00) + 0x10000) :: u32)"
proof -
  let ?x = "ucast x :: u32" and ?y = "ucast y :: u32"
  have "?x = of_nat (unat x)" "?y = of_nat (unat y)" by simp_all
  then have d: "?x - 0xD800 = of_nat (unat x - 0xD800)" "?y - 0xDC00 = of_nat (unat y - 0xDC00)"
    using assms by (simp_all add: of_nat_diff)
  have "unat (of_nat (unat y - 0xDC00) :: u32) = unat y - 0xDC00" using assms by (simp only: unat_of_nat) simp
  then have "unat (?y - 0xDC00) < 2 ^ 10" unfolding d(2) using assms by simp
  then have "push_bit 10 (?x - 0xD800) OR (?y - 0xDC00) = push_bit 10 (?x - 0xD800) + (?y - 0xDC00)" by (rule or_high)
  also have "\<dots> = of_nat ((unat x - 0xD800) * 1024 + (unat y - 0xDC00))"
    unfolding d by (simp add: push_bit_eq_mult)
  finally show ?thesis by simp
qed

lemma utf16_pair_result:
  assumes "p < n" "n \<le> length inp"
  shows "utf16_pair inp n (Suc p) (ucast (inp ! p)) =
    Some (case utf16_next (units inp n p) of
      None \<Rightarrow> None
    | Some (v, ys) \<Rightarrow> Some (of_nat v, n - length ys))"
proof -
  let ?x = "inp ! p" and ?y = "inp ! Suc p"
  have "unat ?x < 65536" using unsigned_less [of ?x, where ?'a = nat] by simp
  have val: "ucast ?x = (of_nat (unat ?x) :: u32)" by simp
  have "length (units inp n q) = n - q" for q using assms(2) by (simp add: min_absorb1 diff_le_mono)
  then have len: "n - length (units inp n (Suc p)) = Suc p" "Suc p < n \<Longrightarrow> n - length (units inp n (Suc (Suc p))) = Suc (Suc p)"
    using assms by (simp_all only: diff_diff_cancel Suc_le_eq)
  note cmp = word_less_nat_alt word_le_nat_alt u32_of_unit
  consider "unat ?x < 0xD800 \<or> 0xE000 \<le> unat ?x" | "0xDC00 \<le> unat ?x" "unat ?x < 0xE000"
    | "0xD800 \<le> unat ?x" "unat ?x < 0xDC00" "Suc p = n" | "0xD800 \<le> unat ?x" "unat ?x < 0xDC00" "Suc p < n"
    using assms(1) by linarith
  then show ?thesis
  proof cases
    case 1
    then show ?thesis using len(1) unfolding units_Cons [OF assms] by (auto simp: utf16_pair_def utf16_next.simps cmp)
  next
    case 2
    then show ?thesis unfolding units_Cons [OF assms] by (simp add: utf16_pair_def utf16_next.simps cmp)
  next
    case 3
    then show ?thesis unfolding units_Cons [OF assms] by (simp add: utf16_pair_def utf16_next.simps cmp)
  next
    case 4
    then have u: "units inp n p = ?x # ?y # units inp n (Suc (Suc p))"
      using units_Cons [OF assms] units_Cons [of "Suc p" n inp] assms(2) by simp
    have get: "arr_get inp (Suc p) = Some ?y" using 4 assms(2) by (simp add: buf_simps)
    show ?thesis
    proof (cases "0xDC00 \<le> unat ?y \<and> unat ?y < 0xE000")
      case True
      then show ?thesis using 4 len(2) surrogate_value [of ?x ?y]
        unfolding u by (simp add: utf16_pair_def utf16_next.simps cmp get)
    next
      case False
      then show ?thesis using 4 unfolding u by (auto simp: utf16_pair_def utf16_next.simps cmp get)
    qed
  qed
qed

section \<open>Conversion to UTF-8\<close>

lemma utf16_decode_Cons:
  "p < n \<Longrightarrow> n \<le> length inp \<Longrightarrow> utf16_decode (units inp n p) =
    (case utf16_next (units inp n p) of None \<Rightarrow> ([], False) | Some (v, ys) \<Rightarrow> apfst ((#) v) (utf16_decode ys))"
  by (subst utf16_decode.simps) (simp add: units_Cons)

lemma utf16_next_rest:
  assumes "p < n" "n \<le> length inp" "utf16_next (units inp n p) = Some (v, ys)"
  shows "ys = units inp n (n - length ys)" and "p < n - length ys" and "n - length ys \<le> n"
proof -
  have len: "length (units inp n q) = n - q" for q using assms(2) by (simp add: min_absorb1 diff_le_mono)
  have "ys = units inp n (Suc p) \<or> Suc p < n \<and> ys = units inp n (Suc (Suc p))"
  proof (cases "Suc p < n")
    case True
    then show ?thesis
      using assms(3) units_Cons [OF assms(1,2)] units_Cons [OF True assms(2)] by (auto simp: utf16_next.simps split: if_splits)
  next
    case False
    then show ?thesis
      using assms(1,3) units_Cons [OF assms(1,2)] by (auto simp: utf16_next.simps split: if_splits)
  qed
  then consider "ys = units inp n (Suc p)" | "Suc p < n" "ys = units inp n (Suc (Suc p))" by blast
  then have "\<exists>q. ys = units inp n q \<and> p < q \<and> q \<le> n" using assms(1) by cases auto
  then obtain q where q: "ys = units inp n q" "p < q" "q \<le> n" by blast
  then have "n - length ys = q" using len [of q] by simp
  then show "ys = units inp n (n - length ys)" "p < n - length ys" "n - length ys \<le> n" using q by simp_all
qed

lemma utf16_next_ascii:
  assumes "p < n" "n \<le> length inp" "unat (inp ! p) < 0x80"
  shows "utf16_next (units inp n p) = Some (unat (inp ! p), units inp n (Suc p))"
  using assms by (simp add: units_Cons utf16_next.simps)

lemma utf8_enc_length: "length (utf8_enc v) = (if v < 0x80 then 1 else if v < 0x800 then 2 else if v < 0x10000 then 3 else 4)"
  by (simp add: utf8_enc_def)

lemma unat_code_point: "code_point v \<Longrightarrow> unat (of_nat v :: u32) = v"
  by (simp add: code_point_def unat_of_nat)

lemma utf16_count_loop_result:
  "n \<le> length inp \<Longrightarrow> p \<le> n \<Longrightarrow> utf16_count_loop inp n p k =
    (let (vs, ok) = utf16_decode (units inp n p) in Some (k + length (utf8_text vs), ok))"
proof (induction "n - p" arbitrary: p k rule: less_induct)
  case less
  show ?case
  proof (cases "p = n")
    case True
    then show ?thesis by (subst utf16_count_loop.simps) (simp add: utf16_decode.simps)
  next
    case False
    then have p: "p < n" using less.prems(2) by simp
    have get: "arr_get inp p = Some (inp ! p)" using p less.prems(1) by (simp add: buf_simps)
    note pair = utf16_pair_result [OF p less.prems(1)]
    have u: "unat (ucast (inp ! p) :: u32) = unat (inp ! p)" by (rule u32_of_unit)
    have step: "utf16_count_loop inp n p k = (case utf16_next (units inp n p) of
        None \<Rightarrow> Some (k, False)
      | Some (v, ys) \<Rightarrow> utf16_count_loop inp n (n - length ys) (k + length (utf8_enc v)))"
    proof (cases "unat (inp ! p) < 0x80")
      case True
      have "n - length (units inp n (Suc p)) = Suc p" using p less.prems(1) by (simp add: min_absorb1 diff_le_mono)
      then show ?thesis using True False utf16_next_ascii [OF p less.prems(1) True]
        by (subst utf16_count_loop.simps) (simp add: get word_less_nat_alt u utf8_enc_length)
    next
      case big: False
      show ?thesis
      proof (cases "utf16_next (units inp n p)")
        case None
        then show ?thesis using big False pair
          by (subst utf16_count_loop.simps) (simp add: get word_less_nat_alt u)
      next
        case (Some x)
        obtain v ys where x: "x = (v, ys)" by (cases x)
        have "0x80 \<le> v" using Some big units_Cons [OF p less.prems(1)] x
          by (auto simp: utf16_next.simps split: if_splits list.splits)
        moreover have "unat (of_nat v :: u32) = v" using utf16_next_code_point Some x by (intro unat_code_point) blast
        ultimately show ?thesis using big False pair Some x
          by (subst utf16_count_loop.simps) (simp add: get word_less_nat_alt u utf8_enc_length)
      qed
    qed
    show ?thesis
    proof (cases "utf16_next (units inp n p)")
      case None
      then show ?thesis unfolding step utf16_decode_Cons [OF p less.prems(1)] by simp
    next
      case (Some x)
      obtain v ys where x: "x = (v, ys)" by (cases x)
      note rest = utf16_next_rest [OF p less.prems(1) Some [unfolded x]]
      have "utf16_count_loop inp n (n - length ys) (k + length (utf8_enc v)) =
          (let (vs, ok) = utf16_decode ys in Some (k + length (utf8_enc v) + length (utf8_text vs), ok))"
        using less.hyps [of "n - length ys"] rest less.prems(1) p by (metis diff_less_mono2)
      then show ?thesis unfolding step utf16_decode_Cons [OF p less.prems(1)] Some x
        by (simp add: case_prod_beta add.assoc)
    qed
  qed
qed

text \<open>The bytes the encoder writes.\<close>

lemma byte_of_or:
  assumes "q < 2 ^ k" and "unat (push_bit k c :: u32) + q < 256"
  shows "ucast (push_bit k c OR of_nat q :: u32) = (of_nat (unat (push_bit k c) + q) :: byte)"
proof -
  let ?c = "push_bit k c"
  have q: "unat (of_nat q :: u32) = q" using assms(2) by (simp add: unat_of_nat)
  then have "?c OR of_nat q = ?c + of_nat q" using assms(1) by (intro or_high) simp
  also have "\<dots> = of_nat (unat ?c + q)" by simp
  finally have "ucast (?c OR of_nat q) = (ucast (of_nat (unat ?c + q) :: u32) :: byte)" by (simp only:)
  also have "\<dots> = of_nat (take_bit 32 (unat ?c + q))" by (simp only: unsigned_of_nat) simp
  also have "take_bit 32 (unat ?c + q) = unat ?c + q" using assms(2) by (simp only: take_bit_nat_eq_self_iff) simp
  finally show ?thesis .
qed

lemma drop_bit_code_point: "code_point v \<Longrightarrow> drop_bit k (of_nat v :: u32) = of_nat (v div 2 ^ k)"
proof (rule word_unat_eq_iff [THEN iffD2])
  assume v: "code_point v"
  have "v < 2 ^ 32" using v by (simp add: code_point_def)
  then have "v div 2 ^ k < 2 ^ 32" by (rule le_less_trans [OF div_le_dividend])
  then show "unat (drop_bit k (of_nat v :: u32)) = unat (of_nat (v div 2 ^ k) :: u32)"
    using v by (simp only: unat_drop_bit_eq) (simp add: drop_bit_eq_div unat_of_nat code_point_def)
qed

lemma low_code_point: "code_point v \<Longrightarrow> (of_nat v :: u32) AND 0x3F = of_nat (v mod 64)"
  unfolding mask_6 using of_nat_and_mask [of v 6, where 'a = 32] by (simp add: code_point_def)

lemma utf8_bytes:
  assumes "code_point v"
  shows "v < 0x800 \<Longrightarrow> ucast (0xC0 OR drop_bit 6 (of_nat v :: u32)) = (of_nat (0xC0 + v div 64) :: byte)"
    and "v < 0x10000 \<Longrightarrow> ucast (0xE0 OR drop_bit 12 (of_nat v :: u32)) = (of_nat (0xE0 + v div 64 div 64) :: byte)"
    and "ucast (0xF0 OR drop_bit 18 (of_nat v :: u32)) = (of_nat (0xF0 + v div 64 div 64 div 64) :: byte)"
    and "ucast (0x80 OR of_nat v AND 0x3F :: u32) = (of_nat (0x80 + v mod 64) :: byte)"
    and "ucast (0x80 OR drop_bit 6 (of_nat v) AND 0x3F :: u32) = (of_nat (0x80 + v div 64 mod 64) :: byte)"
    and "ucast (0x80 OR drop_bit 12 (of_nat v) AND 0x3F :: u32) = (of_nat (0x80 + v div 64 div 64 mod 64) :: byte)"
proof -
  have cp: "code_point (v div 64)" "code_point (v div 64 div 64)" using assms by (simp_all add: code_point_def)
  have div: "v div 2 ^ 6 = v div 64" "v div 2 ^ 12 = v div 64 div 64" "v div 2 ^ 18 = v div 64 div 64 div 64"
    by (simp_all add: div_mult2_eq [symmetric])
  have tags: "(0xC0 :: u32) = push_bit 6 3" "(0xE0 :: u32) = push_bit 5 7" "(0xF0 :: u32) = push_bit 4 15"
    "(0x80 :: u32) = push_bit 6 2" by simp_all
  have vals: "unat (push_bit 6 3 :: u32) = 0xC0" "unat (push_bit 5 7 :: u32) = 0xE0" "unat (push_bit 4 15 :: u32) = 0xF0"
    "unat (push_bit 6 2 :: u32) = 0x80" by simp_all
  show "ucast (0xC0 OR drop_bit 6 (of_nat v :: u32)) = (of_nat (0xC0 + v div 64) :: byte)" if "v < 0x800"
    unfolding drop_bit_code_point [OF assms] div tags using that byte_of_or [of "v div 64" 6 3, unfolded vals] by simp
  show "ucast (0xE0 OR drop_bit 12 (of_nat v :: u32)) = (of_nat (0xE0 + v div 64 div 64) :: byte)" if "v < 0x10000"
    unfolding drop_bit_code_point [OF assms] div tags using that byte_of_or [of "v div 64 div 64" 5 7, unfolded vals] by simp
  show "ucast (0xF0 OR drop_bit 18 (of_nat v :: u32)) = (of_nat (0xF0 + v div 64 div 64 div 64) :: byte)"
    unfolding drop_bit_code_point [OF assms] div tags
    using assms byte_of_or [of "v div 64 div 64 div 64" 4 15, unfolded vals] by (simp add: code_point_def)
  have low: "ucast (0x80 OR of_nat (x mod 64) :: u32) = (of_nat (0x80 + x mod 64) :: byte)" for x
    unfolding tags(4) using byte_of_or [of "x mod 64" 6 2, unfolded vals] by simp
  show "ucast (0x80 OR of_nat v AND 0x3F :: u32) = (of_nat (0x80 + v mod 64) :: byte)"
    "ucast (0x80 OR drop_bit 6 (of_nat v) AND 0x3F :: u32) = (of_nat (0x80 + v div 64 mod 64) :: byte)"
    "ucast (0x80 OR drop_bit 12 (of_nat v) AND 0x3F :: u32) = (of_nat (0x80 + v div 64 div 64 mod 64) :: byte)"
    unfolding drop_bit_code_point [OF assms] div low_code_point [OF assms] low_code_point [OF cp(1)] low_code_point [OF cp(2)]
    by (rule low)+
qed

lemma utf16_put_result:
  assumes "code_point v" and "0x80 \<le> v" and "pos + length (utf8_enc v) \<le> length out"
  shows "utf16_put out pos (of_nat v) = Some (put_at out pos (utf8_enc v), pos + length (utf8_enc v))"
proof -
  have put: "arr_set (put_at out pos bs) (pos + length bs) b = Some (put_at out pos (bs @ [b]))"
    if "pos + length bs < length out" for bs b
  proof -
    have "arr_set (put_at out pos bs) (pos + length bs) b = Some (put_at (put_at out pos bs) (pos + length bs) [b])"
      using that by (intro arr_set_put_at) (simp add: length_put_at)
    then show ?thesis using put_at_put_at [of pos bs "[b]" out] that by simp
  qed
  note put1 = put [of "[]", simplified] and put2 = put [of "[b]" for b, simplified]
    and put3 = put [of "[b, c]" for b c, simplified]
  have put4: "arr_set (put_at out pos [b, c, d]) (pos + 3) e = Some (put_at out pos [b, c, d, e])" if "pos + 3 < length out" for b c d e
    using put [of "[b, c, d]" e] that by (simp add: numeral_3_eq_3)
  note u = unat_code_point [OF assms(1)]
  note bytes = utf8_bytes [OF assms(1)]
  consider "v < 0x800" | "0x800 \<le> v" "v < 0x10000" | "0x10000 \<le> v" by linarith
  then show ?thesis
  proof cases
    case 1
    then have "utf8_enc v = [of_nat (0xC0 + v div 64), of_nat (0x80 + v mod 64)]" using assms(2) by (simp add: utf8_enc_def)
    moreover have "(of_nat v :: u32) < 0x800" using 1 by (simp add: word_less_nat_alt u)
    ultimately show ?thesis using assms(3)
      unfolding utf16_put_def bytes(1) [OF 1] bytes(4) by (simp add: put1 put2 del: of_nat_add)
  next
    case 2
    then have "utf8_enc v = [of_nat (0xE0 + v div 64 div 64), of_nat (0x80 + v div 64 mod 64), of_nat (0x80 + v mod 64)]"
      by (simp add: utf8_enc_def)
    moreover have "\<not> (of_nat v :: u32) < 0x800" "(of_nat v :: u32) < 0x10000" using 2 by (simp_all add: word_less_nat_alt u)
    ultimately show ?thesis using assms(3)
      unfolding utf16_put_def bytes(2) [OF 2(2)] bytes(4,5) by (simp add: put1 put2 put3 del: of_nat_add)
  next
    case 3
    then have "utf8_enc v = [of_nat (0xF0 + v div 64 div 64 div 64), of_nat (0x80 + v div 64 div 64 mod 64),
        of_nat (0x80 + v div 64 mod 64), of_nat (0x80 + v mod 64)]"
      by (simp add: utf8_enc_def)
    moreover have "\<not> (of_nat v :: u32) < 0x800" "\<not> (of_nat v :: u32) < 0x10000" using 3 by (simp_all add: word_less_nat_alt u)
    ultimately show ?thesis using assms(3)
      unfolding utf16_put_def bytes(3,4,5,6) by (simp add: put1 put2 put3 put4 del: of_nat_add)
  qed
qed

text \<open>The encoder, one code point at a time: the loop over ASCII is part of the same recursion.\<close>

lemma utf16_encode_ascii:
  assumes "p < n" "n \<le> length inp" "unat (inp ! p) < 0x80" "pos < length out"
  shows "utf16_encode_loop inp n p out pos = utf16_encode_loop inp n (Suc p) (put_at out pos [ucast (inp ! p)]) (Suc pos)"
proof -
  have m: "n - p = Suc (n - Suc p)" using assms(1) by simp
  have get: "arr_get inp p = Some (inp ! p)" using assms by (simp add: buf_simps)
  have c: "inp ! p < 0x80" using assms(3) by (simp add: word_less_nat_alt)
  have "utf16_ascii_loop inp (n - p) p out pos =
      utf16_ascii_loop inp (n - Suc p) (Suc p) (put_at out pos [ucast (inp ! p)]) (Suc pos)"
    unfolding m using get c assms(4) by (simp add: arr_set_put_at)
  then show ?thesis using assms(1)
    by (subst (1 2) utf16_encode_loop.simps) auto
qed

lemma utf16_encode_other:
  assumes "p < n" "n \<le> length inp" "\<not> unat (inp ! p) < 0x80"
  shows "utf16_encode_loop inp n p out pos = do {
    r \<leftarrow> utf16_pair inp n (Suc p) (ucast (inp ! p));
    case r of
      None \<Rightarrow> Some (out, pos, False)
    | Some (value, in_pos) \<Rightarrow> do {
        (out, pos) \<leftarrow> utf16_put out pos value;
        utf16_encode_loop inp n in_pos out pos } }"
proof -
  have m: "n - p = Suc (n - Suc p)" using assms(1) by simp
  have get: "arr_get inp p = Some (inp ! p)" using assms by (simp add: buf_simps)
  have "\<not> inp ! p < 0x80" using assms(3) by (simp add: word_less_nat_alt)
  then have "utf16_ascii_loop inp (n - p) p out pos = Some (p, out, pos)" unfolding m using get by simp
  then show ?thesis using assms(1) get by (subst utf16_encode_loop.simps) simp
qed

lemma utf16_encode_loop_result:
  "n \<le> length inp \<Longrightarrow> p \<le> n \<Longrightarrow> pos + length (utf8_text (fst (utf16_decode (units inp n p)))) \<le> length out \<Longrightarrow>
   utf16_encode_loop inp n p out pos =
    (let (vs, ok) = utf16_decode (units inp n p) in
      Some (put_at out pos (utf8_text vs), pos + length (utf8_text vs), ok))"
proof (induction "n - p" arbitrary: p pos out rule: less_induct)
  case less
  show ?case
  proof (cases "p = n")
    case True
    then show ?thesis by (subst utf16_encode_loop.simps) (simp add: utf16_decode.simps)
  next
    case False
    then have p: "p < n" using less.prems(2) by simp
    note dec = utf16_decode_Cons [OF p less.prems(1)]
    note pair = utf16_pair_result [OF p less.prems(1)]
    show ?thesis
    proof (cases "utf16_next (units inp n p)")
      case None
      then have "\<not> unat (inp ! p) < 0x80" using utf16_next_ascii [OF p less.prems(1)] by auto
      then show ?thesis unfolding dec None using None pair
        by (simp add: utf16_encode_other [OF p less.prems(1)])
    next
      case (Some x)
      obtain v ys where x: "x = (v, ys)" by (cases x)
      note rest = utf16_next_rest [OF p less.prems(1) Some [unfolded x]]
      have cp: "code_point v" using utf16_next_code_point Some x by blast
      have room: "pos + length (utf8_enc v) + length (utf8_text (fst (utf16_decode ys))) \<le> length out"
        using less.prems(3) unfolding dec Some x by (simp add: add.assoc)
      let ?out = "put_at out pos (utf8_enc v)"
      have out: "length ?out = length out" using room by (intro length_put_at) simp
      have step: "utf16_encode_loop inp n p out pos = utf16_encode_loop inp n (n - length ys) ?out (pos + length (utf8_enc v))"
      proof (cases "unat (inp ! p) < 0x80")
        case True
        then have v: "v = unat (inp ! p)" "ys = units inp n (Suc p)"
          using Some x utf16_next_ascii [OF p less.prems(1)] by auto
        have "n - length ys = Suc p" unfolding v(2) using p less.prems(1) by (simp add: min_absorb1 diff_le_mono)
        moreover have "utf8_enc v = [ucast (inp ! p)]" using True v(1) by (simp add: utf8_enc_def)
        ultimately show ?thesis using utf16_encode_ascii [OF p less.prems(1) True] room by simp
      next
        case big: False
        have "0x80 \<le> v" using Some big units_Cons [OF p less.prems(1)] x
          by (auto simp: utf16_next.simps split: if_splits list.splits)
        then have "utf16_put out pos (of_nat v) = Some (?out, pos + length (utf8_enc v))"
          using room by (intro utf16_put_result [OF cp]) simp_all
        then show ?thesis using pair Some x by (simp add: utf16_encode_other [OF p less.prems(1) big])
      qed
      obtain vs ok where vs: "utf16_decode ys = (vs, ok)" by (cases "utf16_decode ys")
      have "utf16_encode_loop inp n (n - length ys) ?out (pos + length (utf8_enc v)) =
          (let (vs, ok) = utf16_decode (units inp n (n - length ys)) in
            Some (put_at ?out (pos + length (utf8_enc v)) (utf8_text vs), pos + length (utf8_enc v) + length (utf8_text vs), ok))"
        using rest p less.prems(1) room out by (intro less.hyps) auto
      also have "\<dots> = Some (put_at out pos (utf8_enc v @ utf8_text vs), pos + length (utf8_enc v @ utf8_text vs), ok)"
        using room put_at_put_at [of pos "utf8_enc v" "utf8_text vs" out] vs
        unfolding rest(1) [symmetric] by (simp add: add.assoc)
      finally show ?thesis unfolding step dec Some x using vs by simp
    qed
  qed
qed

text \<open>Three bytes for every unit are enough.\<close>

lemma utf16_text_length: "length (utf8_text (fst (utf16_decode xs))) \<le> 3 * length xs"
proof (induction xs rule: utf16_decode.induct)
  case (1 xs)
  show ?case
  proof (cases "utf16_next xs")
    case None
    then show ?thesis by (subst utf16_decode.simps) simp
  next
    case (Some x)
    obtain v ys where x: "x = (v, ys)" by (cases x)
    obtain u us where xs: "xs = u # us" using Some by (cases xs) (auto simp: utf16_next.simps)
    have "unat u < 65536" using unsigned_less [of u, where ?'a = nat] by simp
    then have "length (utf8_enc v) + 3 * length ys \<le> 3 * length xs"
      using Some x unfolding xs by (auto simp: utf16_next.simps utf8_enc_length split: if_splits list.splits)
    moreover have "length (utf8_text (fst (utf16_decode ys))) \<le> 3 * length ys" using 1 [OF _ Some x [symmetric]] xs by simp
    ultimately show ?thesis using Some x xs by (subst utf16_decode.simps) simp
  qed
qed

section \<open>Pairs of units\<close>

text \<open>The encoding of a code point that is not one half of a pair.\<close>

definition scalar :: "nat \<Rightarrow> bool" where
  "scalar v \<longleftrightarrow> code_point v \<and> (v < 0xD800 \<or> 0xE000 \<le> v)"

definition utf16_units :: "nat \<Rightarrow> nat list" where
  "utf16_units v = (if v < 0x10000 then [v] else [0xD800 + (v - 0x10000) div 1024, 0xDC00 + (v - 0x10000) mod 1024])"

definition utf16_text :: "nat list \<Rightarrow> nat list" where
  "utf16_text vs = concat (map utf16_units vs)"

lemma utf16_text_simps [simp]: "utf16_text [] = []" "utf16_text (v # vs) = utf16_units v @ utf16_text vs"
  by (simp_all add: utf16_text_def)

lemma utf16_units_bound: "scalar v \<Longrightarrow> u \<in> set (utf16_units v) \<Longrightarrow> u < 0x10000"
proof -
  assume v: "scalar v" "u \<in> set (utf16_units v)"
  have "(v - 0x10000) mod 1024 < 1024" by simp
  moreover have "(v - 0x10000) div 1024 < 1024"
  proof -
    have "v - 0x10000 < 1024 * 1024" using v(1) by (auto simp: scalar_def code_point_def)
    then show ?thesis by (rule less_mult_imp_div_less)
  qed
  ultimately show ?thesis using v(2) by (auto simp: utf16_units_def split: if_splits)
qed

lemma unat_unit: "x < 0x10000 \<Longrightarrow> unat (of_nat x :: u16) = x"
  by (simp add: unat_of_nat)

lemma utf16_next_units:
  assumes "scalar v"
  shows "utf16_next (map of_nat (utf16_units v) @ xs) = Some (v, xs)"
proof (cases "v < 0x10000")
  case True
  then have "unat (of_nat v :: u16) = v" by (rule unat_unit)
  then show ?thesis using True assms by (auto simp: utf16_units_def utf16_next.simps scalar_def)
next
  case False
  define w where "w = v - 0x10000"
  have w: "w div 1024 < 1024" "w mod 1024 < 1024" "w div 1024 * 1024 + w mod 1024 + 0x10000 = v"
    using assms False by (simp_all add: w_def scalar_def code_point_def)
  have "unat (of_nat (0xD800 + w div 1024) :: u16) = 0xD800 + w div 1024" "unat (of_nat (0xDC00 + w mod 1024) :: u16) = 0xDC00 + w mod 1024"
    using w(1,2) by (intro unat_unit; simp)+
  moreover have "utf16_units v = [0xD800 + w div 1024, 0xDC00 + w mod 1024]" using False by (simp add: utf16_units_def w_def)
  ultimately show ?thesis using w by (simp add: utf16_next.simps del: of_nat_add)
qed

lemma utf16_units_not_Nil [simp]: "utf16_units v \<noteq> []"
  by (simp add: utf16_units_def)

lemma utf16_decode_text: "list_all scalar vs \<Longrightarrow> utf16_decode (map of_nat (utf16_text vs)) = (vs, True)"
proof (induction vs)
  case Nil
  then show ?case by (simp add: utf16_decode.simps)
next
  case (Cons v vs)
  then show ?case by (subst utf16_decode.simps) (simp add: utf16_next_units)
qed

section \<open>Strings\<close>

text \<open>Both modes of the conversion.\<close>

lemma utf16_conv_utf8_result:
  assumes "n \<le> length inp" and "utf16_decode (take n inp) = (vs, ok)"
  shows "utf16_conv_utf8 None inp n = Some (None, length (utf8_text vs), ok)"
    and "length (utf8_text vs) \<le> length out \<Longrightarrow>
      utf16_conv_utf8 (Some out) inp n = Some (Some (utf8_text vs @ drop (length (utf8_text vs)) out), length (utf8_text vs), ok)"
  using utf16_count_loop_result [OF assms(1), of 0 0] utf16_encode_loop_result [OF assms(1), of 0 0 out] assms(2)
  by (simp_all add: utf16_conv_utf8_def put_at_def)

lemma wide_len_result: "0 \<notin> set us \<Longrightarrow> wide_len (us @ 0 # t) = Some (length us)"
  by (induction us) auto

lemma utf16_next_no_zero: "utf16_next xs = Some (v, ys) \<Longrightarrow> 0 \<notin> set xs \<Longrightarrow> v \<noteq> 0 \<and> set ys \<subseteq> set xs \<and> xs \<noteq> []"
  by (cases xs) (auto simp: utf16_next.simps unat_eq_0 unat_gt_0 split: if_splits list.splits)

lemma utf16_decode_no_zero: "0 \<notin> set us \<Longrightarrow> 0 \<notin> set (fst (utf16_decode us))"
proof (induction us rule: utf16_decode.induct)
  case (1 xs)
  show ?case
  proof (cases "utf16_next xs")
    case None
    then show ?thesis by (subst utf16_decode.simps) simp
  next
    case (Some x)
    obtain v ys where x: "x = (v, ys)" by (cases x)
    have v: "v \<noteq> 0" "set ys \<subseteq> set xs" "xs \<noteq> []"
      using utf16_next_no_zero 1(2) Some x by blast+
    then have "0 \<notin> set (fst (utf16_decode ys))" using 1(1) [OF v(3) Some x [symmetric]] 1(2) by auto
    then show ?thesis using Some x v(1,3) by (subst utf16_decode.simps) simp
  qed
qed

text \<open>A conversion of a terminated string into a new buffer never overruns it.\<close>

lemma utf16_to_char_string_result:
  assumes malloc: "allocates malloc" and us: "0 \<notin> set us" "length us \<le> (SIZE_MAX - 1) div 3"
    and s: "0 < len" "len \<le> length s" and dec: "utf16_decode us = (vs, ok)"
  shows "utf16_to_char_string malloc (us @ 0 # t) s len = Some
    (if malloc (3 * length us + 1) \<noteq> None \<and> ok
     then (take (len - 1) (utf8_text vs) @ 0 # drop (length (take (len - 1) (utf8_text vs)) + 1) s, True)
     else (s, False))"
proof -
  have wl: "wide_len (us @ 0 # t) = Some (length us)" using us(1) by (rule wide_len_result)
  have room: "length (utf8_text vs) \<le> 3 * length us" using utf16_text_length [of us] dec by simp
  show ?thesis
  proof (cases "malloc (3 * length us + 1)")
    case None
    then show ?thesis using us(2) wl by (simp add: utf16_to_char_string_def utf16_to_char_def)
  next
    case (Some d)
    then have d: "length d = 3 * length us + 1" using malloc by (auto simp: allocates_def)
    have "utf16_conv_utf8 (Some d) (us @ 0 # t) (length us) =
        Some (Some (utf8_text vs @ drop (length (utf8_text vs)) d), length (utf8_text vs), ok)"
      using room d dec by (intro utf16_conv_utf8_result(2)) simp_all
    then have conv: "utf16_to_char malloc (us @ 0 # t) =
        Some (Some (utf8_text vs @ drop (length (utf8_text vs)) d), length (utf8_text vs), ok)"
      using us(2) wl Some by (simp add: utf16_to_char_def)
    show ?thesis
    proof (cases ok)
      case False
      then show ?thesis using conv by (simp add: utf16_to_char_string_def)
    next
      case True
      obtain x r where "drop (length (utf8_text vs)) d = x # r" using room d by (cases "drop (length (utf8_text vs)) d") auto
      then have "arr_set (utf8_text vs @ drop (length (utf8_text vs)) d) (length (utf8_text vs)) 0 = Some (utf8_text vs @ 0 # r)"
        by (simp add: arr_set_def list_update_append)
      moreover have "0 \<notin> set vs" using utf16_decode_no_zero [OF us(1)] dec by simp
      then have "0 \<notin> set (utf8_text vs)" using zero_in_text utf16_decode_code_points [of us] dec by simp
      ultimately show ?thesis using conv True Some strlcpy_result [of "utf8_text vs @ 0 # r" len 0 s] s
        by (simp add: utf16_to_char_string_def cstr_append)
    qed
  qed
qed

text \<open>The two halves of a pair as the string functions compute them.\<close>

lemma pair_words:
  assumes "scalar v" "0x10000 \<le> v"
  defines "w \<equiv> v - 0x10000"
  shows "(of_nat v :: u32) - 0x10000 = of_nat w"
    and "0xD800 OR drop_bit 10 (of_nat w) = (of_nat (0xD800 + w div 1024) :: u32)"
    and "0xDC00 OR of_nat w AND 0x3FF = (of_nat (0xDC00 + w mod 1024) :: u32)"
proof -
  have w: "w < 1024 * 1024" "code_point w" using assms by (auto simp: scalar_def code_point_def)
  have "w div 1024 < 1024" using w(1) by (rule less_mult_imp_div_less)
  then have hi: "unat (of_nat (w div 1024) :: u32) < 2 ^ 10" by (simp add: unat_of_nat)
  have lo: "unat (of_nat (w mod 1024) :: u32) < 2 ^ 10" by (simp add: unat_of_nat)
  have tags: "(0xD800 :: u32) = push_bit 10 54" "(0xDC00 :: u32) = push_bit 10 55" "(0x3FF :: u32) = mask 10"
    by (simp_all add: mask_eq_exp_minus_1)
  show "(of_nat v :: u32) - 0x10000 = of_nat w" using assms(2) by (simp add: w_def of_nat_diff)
  have "drop_bit 10 (of_nat w :: u32) = of_nat (w div 1024)" using drop_bit_code_point [OF w(2), of 10] by simp
  then show "0xD800 OR drop_bit 10 (of_nat w) = (of_nat (0xD800 + w div 1024) :: u32)"
    unfolding tags(1) using or_high [OF hi, of 54] by simp
  have "(of_nat w :: u32) AND 0x3FF = of_nat (w mod 1024)"
    unfolding tags(3) using of_nat_and_mask [of w 10, where 'a = 32] w(1) by simp
  then show "0xDC00 OR of_nat w AND 0x3FF = (of_nat (0xDC00 + w mod 1024) :: u32)"
    unfolding tags(2) using or_high [OF lo, of 55] by simp
qed

lemma to_wchar_small: "x < 0x10000 \<Longrightarrow> to_wchar n (of_nat x) = of_nat x"
proof (cases "n = 2")
  case True
  assume x: "x < 0x10000"
  have "take_bit 16 (of_nat x :: u32) = of_nat x"
    by (rule word_unat_eq_iff [THEN iffD2])
      (simp only: unsigned_take_bit_eq unat_of_nat, use x in \<open>simp add: take_bit_eq_mod\<close>)
  then show ?thesis using True by (simp add: to_wchar_def)
qed (simp add: to_wchar_def)

lemma put_at_snoc:
  assumes "pos + length bs < length out" and "i = pos + length bs"
  shows "arr_set (put_at out pos bs) i b = Some (put_at out pos (bs @ [b]))"
proof -
  have "arr_set (put_at out pos bs) i b = Some (put_at (put_at out pos bs) i [b])"
    using assms by (intro arr_set_put_at) (simp add: length_put_at)
  then show ?thesis using put_at_put_at [of pos bs "[b]" out] assms by simp
qed

lemma units_cases:
  assumes "scalar v"
  obtains (one) "v < 0x10000" "utf16_units v = [v]" "(of_nat v :: u32) < 0x10000"
    | (two) w where "w = v - 0x10000" "utf16_units v = [0xD800 + w div 1024, 0xDC00 + w mod 1024]"
        "\<not> (of_nat v :: u32) < 0x10000" "(of_nat v :: u32) \<le> 0x10FFFF" "(of_nat v :: u32) - 0x10000 = of_nat w"
        "0xD800 OR drop_bit 10 (of_nat w) = (of_nat (0xD800 + w div 1024) :: u32)"
        "0xDC00 OR of_nat w AND 0x3FF = (of_nat (0xDC00 + w mod 1024) :: u32)"
        "0xD800 + w div 1024 < 0x10000" "0xDC00 + w mod 1024 < 0x10000"
proof -
  have u: "unat (of_nat v :: u32) = v" "v < 0x110000"
    using assms by (simp_all add: unat_code_point scalar_def, simp add: code_point_def)
  show thesis
  proof (cases "v < 0x10000")
    case True
    then show thesis using u by (intro one) (simp_all add: utf16_units_def word_less_nat_alt)
  next
    case False
    have "0xD800 + (v - 0x10000) div 1024 < 0x10000" "0xDC00 + (v - 0x10000) mod 1024 < 0x10000"
      using utf16_units_bound [OF assms] False by (auto simp: utf16_units_def)
    then show thesis using False u pair_words [OF assms]
      by (intro two [of "v - 0x10000"]) (simp_all add: utf16_units_def word_less_nat_alt word_le_nat_alt)
  qed
qed

lemma wide_pairs_loop_result:
  "list_all scalar vs \<Longrightarrow> pos + length (utf16_text vs) \<le> length buf \<Longrightarrow>
   wide_pairs_loop (map of_nat vs) buf pos =
     Some (put_at buf pos (map of_nat (utf16_text vs)), pos + length (utf16_text vs))"
proof (induction vs arbitrary: buf pos)
  case (Cons v vs)
  have v: "scalar v" "list_all scalar vs" using Cons.prems(1) by simp_all
  have join: "put_at (put_at buf pos (map of_nat (utf16_units v))) (pos + length (utf16_units v)) (map of_nat (utf16_text vs)) =
      put_at buf pos (map (of_nat :: nat \<Rightarrow> u32) (utf16_text (v # vs)))"
    using put_at_put_at [of pos "map of_nat (utf16_units v)" "map of_nat (utf16_text vs)" buf] Cons.prems(2) by (simp add: add.assoc)
  have IH: "wide_pairs_loop (map of_nat vs) (put_at buf pos (map of_nat (utf16_units v))) (pos + length (utf16_units v)) =
      Some (put_at buf pos (map of_nat (utf16_text (v # vs))), pos + length (utf16_text (v # vs)))"
    using Cons.IH [OF v(2), of "pos + length (utf16_units v)" "put_at buf pos (map of_nat (utf16_units v))"] Cons.prems(2)
    unfolding join by (simp add: length_put_at add.assoc)
  show ?case using v(1)
  proof (cases rule: units_cases)
    case one
    have "arr_set buf pos (to_wchar 2 (of_nat v)) = Some (put_at buf pos [of_nat v])"
      using put_at_snoc [of pos "[]" buf pos] one Cons.prems(2) by (simp add: to_wchar_small)
    then show ?thesis using one IH by simp
  next
    case (two w)
    have "arr_set buf pos (to_wchar 2 (of_nat (0xD800 + w div 1024))) = Some (put_at buf pos [of_nat (0xD800 + w div 1024)])"
      unfolding to_wchar_small [OF two(8)] using put_at_snoc [of pos "[]" buf pos] two(2) Cons.prems(2) by (simp del: of_nat_add)
    moreover have "arr_set (put_at buf pos [of_nat (0xD800 + w div 1024)]) (pos + 1) (to_wchar 2 (of_nat (0xDC00 + w mod 1024))) =
        Some (put_at buf pos [of_nat (0xD800 + w div 1024), of_nat (0xDC00 + w mod 1024)])"
      unfolding to_wchar_small [OF two(9)]
      using put_at_snoc [of pos "[of_nat (0xD800 + w div 1024)]" buf "pos + 1"] two(2) Cons.prems(2) by (simp del: of_nat_add)
    ultimately show ?thesis using two(2-7) IH by (simp del: of_nat_add)
  qed
qed simp

lemma ucast_unit: "x < 0x10000 \<Longrightarrow> ucast (of_nat x :: u32) = (of_nat x :: u16)"
proof -
  assume x: "x < 0x10000"
  have "ucast (of_nat x :: u32) = (of_nat (take_bit 32 x) :: u16)" by (simp only: unsigned_of_nat) simp
  also have "take_bit 32 x = x" using x by (simp only: take_bit_nat_eq_self_iff) simp
  finally show ?thesis .
qed

lemma narrow_pairs_loop_result:
  "list_all scalar vs \<Longrightarrow> pos + length (utf16_text vs) \<le> length buf \<Longrightarrow>
   narrow_pairs_loop (map of_nat vs) buf pos =
     Some (put_at buf pos (map of_nat (utf16_text vs)), pos + length (utf16_text vs), True)"
proof (induction vs arbitrary: buf pos)
  case (Cons v vs)
  have v: "scalar v" "list_all scalar vs" using Cons.prems(1) by simp_all
  have join: "put_at (put_at buf pos (map of_nat (utf16_units v))) (pos + length (utf16_units v)) (map of_nat (utf16_text vs)) =
      put_at buf pos (map (of_nat :: nat \<Rightarrow> u16) (utf16_text (v # vs)))"
    using put_at_put_at [of pos "map of_nat (utf16_units v)" "map of_nat (utf16_text vs)" buf] Cons.prems(2) by (simp add: add.assoc)
  have IH: "narrow_pairs_loop (map of_nat vs) (put_at buf pos (map of_nat (utf16_units v))) (pos + length (utf16_units v)) =
      Some (put_at buf pos (map of_nat (utf16_text (v # vs))), pos + length (utf16_text (v # vs)), True)"
    using Cons.IH [OF v(2), of "pos + length (utf16_units v)" "put_at buf pos (map of_nat (utf16_units v))"] Cons.prems(2)
    unfolding join by (simp add: length_put_at add.assoc)
  show ?case using v(1)
  proof (cases rule: units_cases)
    case one
    have "arr_set buf pos (ucast (of_nat v :: u32)) = Some (put_at buf pos [of_nat v])"
      unfolding ucast_unit [OF one(1)] using put_at_snoc [of pos "[]" buf pos] one Cons.prems(2) by simp
    then show ?thesis using one IH by simp
  next
    case (two w)
    have "arr_set buf pos (ucast (of_nat (0xD800 + w div 1024) :: u32)) = Some (put_at buf pos [of_nat (0xD800 + w div 1024)])"
      unfolding ucast_unit [OF two(8)] using put_at_snoc [of pos "[]" buf pos] two(2) Cons.prems(2) by (simp del: of_nat_add)
    moreover have "arr_set (put_at buf pos [of_nat (0xD800 + w div 1024)]) (pos + 1) (ucast (of_nat (0xDC00 + w mod 1024) :: u32)) =
        Some (put_at buf pos [of_nat (0xD800 + w div 1024), of_nat (0xDC00 + w mod 1024)])"
      unfolding ucast_unit [OF two(9)]
      using put_at_snoc [of pos "[of_nat (0xD800 + w div 1024)]" buf "pos + 1"] two(2) Cons.prems(2) by (simp del: of_nat_add)
    ultimately show ?thesis using two(2-7) IH by (simp del: of_nat_add)
  qed
qed simp

text \<open>An allocator that never fails.\<close>

definition always_allocates :: "(nat \<Rightarrow> 'a list option) \<Rightarrow> bool" where
  "always_allocates malloc \<longleftrightarrow> (\<forall>n. \<exists>buf. malloc n = Some buf \<and> length buf = n)"

text \<open>What a wide string holds for a sequence of code points.\<close>

definition wide_text :: "nat \<Rightarrow> nat list \<Rightarrow> u32 list" where
  "wide_text wchar_size vs = map of_nat (if wchar_size = 2 then utf16_text vs else vs)"

lemma utf16_text_length2: "length (utf16_text vs) \<le> 2 * length vs"
  by (induction vs) (simp_all add: utf16_units_def)

lemma utf8_text_length1: "length vs \<le> length (utf8_text vs)"
proof (induction vs)
  case (Cons v vs)
  have "length (utf8_enc v) \<ge> 1" by (simp add: utf8_enc_length)
  then show ?case using Cons by simp
qed simp

lemma code_point_of_scalar: "list_all scalar vs \<Longrightarrow> list_all code_point vs"
  by (induction vs) (simp_all add: scalar_def)

lemma put_at_terminated:
  assumes "length xs < length buf"
  shows "\<exists>r. arr_set (put_at buf 0 xs) (length xs) z = Some (xs @ z # r)"
proof -
  have "arr_set (put_at buf 0 xs) (length xs) z = Some (put_at buf 0 (xs @ [z]))"
    using assms by (intro put_at_snoc) simp_all
  also have "put_at buf 0 (xs @ [z]) = xs @ z # drop (Suc (length xs)) buf" by (simp add: put_at_def)
  finally show ?thesis by blast
qed

lemma utf8_to_utf16_result:
  assumes vs: "list_all scalar vs" "0 \<notin> set vs" "vs \<noteq> []" and malloc: "always_allocates m32" "always_allocates mw"
  shows "\<exists>r. utf8_to_utf16_string_alloc wchar_size m32 mw (Some (utf8_text vs @ 0 # t)) = Some (Some (wide_text wchar_size vs @ 0 # r))"
proof -
  let ?n = "length (utf8_text vs)"
  note cp = code_point_of_scalar [OF vs(1)]
  have nz: "0 \<notin> set (utf8_text vs)" using zero_in_text [OF cp] vs(2) by simp
  obtain c cs where body: "utf8_text vs = c # cs" using vs(3) by (cases vs; cases "utf8_text vs") auto
  then have c: "c \<noteq> 0" using nz by auto
  have len: "strlen (utf8_text vs @ 0 # t) = Some ?n" using nz by simp
  obtain u where u: "m32 ?n = Some u" "length u = ?n" using malloc(1) by (auto simp: always_allocates_def)
  have dec: "decode_utf8 ?n (take ?n (utf8_text vs @ 0 # t)) = vs"
    using decode_text [OF cp, of ?n "[]"] utf8_text_length1 [of vs] by simp
  have conv: "utf8_conv_utf32 u ?n (utf8_text vs @ 0 # t) ?n = Some (map of_nat vs @ drop (length vs) u, length vs)"
    using utf8_conv_loop_result [of ?n "utf8_text vs @ 0 # t" 0 ?n u] u(2) dec
    by (simp add: utf8_conv_utf32_def put_at_def Let_def)
  have tk: "take (length vs) (map of_nat vs @ drop (length vs) u) = map of_nat vs" by simp
  have start: "utf8_to_utf16_string_alloc wchar_size m32 mw (Some (utf8_text vs @ 0 # t)) =
      (if wchar_size = 2
       then (case mw (2 * length vs + 1) of
           None \<Rightarrow> Some None
         | Some buf \<Rightarrow> do {
             (buf, o') \<leftarrow> wide_pairs_loop (map of_nat vs) buf 0;
             map_option Some (arr_set buf o' 0) })
       else (case mw (length vs + 1) of
           None \<Rightarrow> Some None
         | Some buf \<Rightarrow> do {
             buf \<leftarrow> mem_write buf 0 (map (to_wchar wchar_size) (map of_nat vs));
             map_option Some (arr_set buf (length vs) 0) }))"
  proof -
    have "deref (utf8_text vs @ 0 # t) = Some c" by (simp add: body)
    then show ?thesis unfolding utf8_to_utf16_string_alloc_def
      by (simp only: option.case Option.bind.bind_lunit c if_False len u(1) conv prod.case tk)
  qed
  show ?thesis
  proof (cases "wchar_size = 2")
    case True
    obtain buf where buf: "mw (2 * length vs + 1) = Some buf" "length buf = 2 * length vs + 1"
      using malloc(2) by (auto simp: always_allocates_def)
    have "wide_pairs_loop (map of_nat vs) buf 0 = Some (put_at buf 0 (map of_nat (utf16_text vs)), length (utf16_text vs))"
      using wide_pairs_loop_result [OF vs(1), of 0 buf] utf16_text_length2 [of vs] buf(2) by simp
    moreover have "length (utf16_text vs) < length buf" using utf16_text_length2 [of vs] buf(2) by simp
    ultimately show ?thesis using put_at_terminated [of "map of_nat (utf16_text vs)" buf] True buf(1)
      unfolding start wide_text_def by (auto simp del: map_eq_append_conv)
  next
    case False
    obtain buf where buf: "mw (length vs + 1) = Some buf" "length buf = length vs + 1"
      using malloc(2) by (auto simp: always_allocates_def)
    have "mem_write buf 0 (map (to_wchar wchar_size) (map of_nat vs)) = Some (put_at buf 0 (map of_nat vs))"
      using mem_write_put_at [of 0 "map of_nat vs" buf] buf(2) False by (simp add: to_wchar_def comp_def)
    then show ?thesis using put_at_terminated [of "map of_nat vs" buf] False buf unfolding start wide_text_def by auto
  qed
qed

lemma wide_text_no_zero:
  assumes "list_all scalar vs" "0 \<notin> set vs"
  shows "0 \<notin> set (wide_text wchar_size vs)"
proof -
  have "u \<noteq> 0 \<and> u < 0x110000" if "u \<in> set (if wchar_size = 2 then utf16_text vs else vs)" for u
    using assms that
  proof (induction vs)
    case (Cons v vs)
    have "u \<noteq> 0 \<and> u < 0x110000" if "u \<in> set (utf16_units v)"
      using that utf16_units_bound [of v u] Cons.prems by (auto simp: utf16_units_def split: if_splits)
    then show ?case using Cons by (auto simp: scalar_def code_point_def split: if_splits)
  qed (simp split: if_splits)
  moreover have "(of_nat u :: u32) \<noteq> 0" if "u \<noteq> 0" "u < 0x110000" for u
    using that of_nat_eq_0_small [of u, where 'a = 32] by simp
  ultimately show ?thesis unfolding wide_text_def by auto
qed

lemma utf16_to_utf8_result:
  assumes vs: "list_all scalar vs" "0 \<notin> set vs" "vs \<noteq> []" and malloc: "always_allocates m16" "always_allocates m"
  shows "utf16_to_utf8_string_alloc wchar_size m16 m (Some (wide_text wchar_size vs @ 0 # r)) = Some (Some (utf8_text vs @ [0]))"
proof -
  let ?w = "wide_text wchar_size vs" and ?units = "map of_nat (utf16_text vs) :: u16 list"
  let ?k = "length (utf16_text vs)" and ?n = "length (utf8_text vs)"
  have ne: "?w \<noteq> []" using vs(3) by (cases vs) (simp_all add: wide_text_def)
  then have hd: "hd (?w @ 0 # r) \<noteq> 0" using wide_text_no_zero [OF vs(1,2), of wchar_size] by (cases ?w) auto
  have wl: "wide_len (?w @ 0 # r) = Some (length ?w)" using wide_text_no_zero [OF vs(1,2)] by (rule wide_len_result)
  obtain b16 where b16: "m16 (2 * length ?w) = Some b16" "length b16 = 2 * length ?w"
    using malloc(1) by (auto simp: always_allocates_def)
  have units: "(if wchar_size = 2
      then map_option (\<lambda>u16. (u16, length ?w, True)) (mem_write b16 0 (map ucast (take (length ?w) (?w @ 0 # r))))
      else narrow_pairs_loop (take (length ?w) (?w @ 0 # r)) b16 0) = Some (put_at b16 0 ?units, ?k, True)"
  proof (cases "wchar_size = 2")
    case True
    have bound: "x < 0x10000" if "x \<in> set (utf16_text vs)" for x
      using that vs(1) by (induction vs) (auto dest: utf16_units_bound)
    then have "map ucast ?w = ?units" using True by (auto simp: wide_text_def intro!: ucast_unit)
    moreover have "length ?w = ?k" using True by (simp add: wide_text_def)
    moreover have "mem_write b16 0 ?units = Some (put_at b16 0 ?units)"
      using b16(2) calculation(2) by (intro mem_write_put_at) simp
    ultimately show ?thesis using True by simp
  next
    case False
    then have "?w = map of_nat vs" by (simp add: wide_text_def)
    moreover have "?k \<le> length b16" using utf16_text_length2 [of vs] b16(2) calculation by simp
    ultimately show ?thesis using narrow_pairs_loop_result [OF vs(1), of 0 b16] False by simp
  qed
  have "?k \<le> length b16"
  proof (cases "wchar_size = 2")
    case True
    then show ?thesis using b16(2) by (simp add: wide_text_def)
  next
    case False
    then show ?thesis using b16(2) utf16_text_length2 [of vs] by (simp add: wide_text_def)
  qed
  then have len: "?k \<le> length (put_at b16 0 ?units)" by (simp add: length_put_at)
  have "take ?k (put_at b16 0 ?units) = ?units" by (simp add: put_at_def)
  then have dec: "utf16_decode (take ?k (put_at b16 0 ?units)) = (vs, True)" using utf16_decode_text [OF vs(1)] by simp
  obtain buf where buf: "m (Suc ?n) = Some buf" "length buf = Suc ?n" using malloc(2) by (auto simp: always_allocates_def)
  have conv: "utf16_conv_utf8 (Some buf) (put_at b16 0 ?units) ?k = Some (Some (utf8_text vs @ drop ?n buf), ?n, True)"
    using buf(2) by (intro utf16_conv_utf8_result(2) [OF len dec]) simp
  have "length (drop ?n buf) = 1" using buf(2) by simp
  then obtain x where "drop ?n buf = [x]" by (cases "drop ?n buf") (simp_all del: length_drop)
  then have "arr_set (utf8_text vs @ drop ?n buf) ?n 0 = Some (utf8_text vs @ [0])"
    by (simp add: arr_set_def list_update_append)
  then show ?thesis
    unfolding utf16_to_utf8_string_alloc_def
    by (simp add: hd wl b16(1) units utf16_conv_utf8_result(1) [OF len dec] buf(1) conv)
qed

section \<open>Properties\<close>

text \<open>
  C15. whatever the units, the two modes of \<open>utf16_conv_utf8\<close> agree: with a null output it counts the
  bytes that it writes to an output which has room for them. What is written is the UTF-8 encoding of
  the code points of the units, pairs of surrogates joined, up to the first unit out of place; the
  result says whether there was none. The rest of the output is left alone.
\<close>

theorem utf16_conv_utf8_correct:
  assumes "n \<le> length inp"
  shows "let (vs, ok) = utf16_decode (take n inp); bytes = utf8_text vs in
    utf16_conv_utf8 None inp n = Some (None, length bytes, ok) \<and>
    (length bytes \<le> length out \<longrightarrow>
      utf16_conv_utf8 (Some out) inp n = Some (Some (bytes @ drop (length bytes) out), length bytes, ok))"
proof -
  obtain vs ok where dec: "utf16_decode (take n inp) = (vs, ok)" by (cases "utf16_decode (take n inp)")
  show ?thesis using utf16_conv_utf8_result(1) [OF assms dec] utf16_conv_utf8_result(2) [OF assms dec, of out]
    by (simp add: dec Let_def)
qed

text \<open>The witness: a letter, a pair of surrogates, and the second unit of a pair alone.\<close>

theorem utf16_conv_utf8_correct_witness:
  "utf16_conv_utf8 None [0x61, 0xD83D, 0xDE00, 0xDE00] 4 = Some (None, 5, False) \<and>
   utf16_conv_utf8 (Some [0, 0, 0, 0, 0, 7]) [0x61, 0xD83D, 0xDE00, 0xDE00] 4 =
     Some (Some [0x61, 0xF0, 0x9F, 0x98, 0x80, 7], 5, False)"
proof -
  let ?u = "[0x61, 0xD83D, 0xDE00, 0xDE00] :: u16 list"
  have dec: "utf16_decode (take 4 ?u) = ([0x61, 0x1F600], False)"
    by (simp add: utf16_decode.simps [of "_ # _"] utf16_next.simps)
  have enc: "utf8_text [0x61, 0x1F600] = [0x61, 0xF0, 0x9F, 0x98, 0x80]" by (simp add: utf8_enc_def)
  show ?thesis
    using utf16_conv_utf8_correct [of 4 ?u "[0, 0, 0, 0, 0, 7]"] by (simp only: dec enc Let_def prod.case) simp
qed

text \<open>
  C16. a string of one or more scalar values survives the round trip through a wide string, with two or
  with four bytes to the unit, when the allocations succeed: \<open>utf8_to_utf16_string_alloc\<close> gives the code
  units, terminated, and \<open>utf16_to_utf8_string_alloc\<close> gives the same bytes back, in a block that they
  fill. The empty string is not converted: both functions return \<open>NULL\<close> for it.
\<close>

theorem wide_string_roundtrip:
  assumes "list_all scalar vs" and "0 \<notin> set vs"
    and "always_allocates m32" and "always_allocates mw" and "always_allocates m16" and "always_allocates m"
  shows "if vs = []
    then utf8_to_utf16_string_alloc wchar_size m32 mw (Some (utf8_text vs @ 0 # t)) = Some None \<and>
      utf16_to_utf8_string_alloc wchar_size m16 m (Some (wide_text wchar_size vs @ 0 # r)) = Some None
    else \<exists>r. utf8_to_utf16_string_alloc wchar_size m32 mw (Some (utf8_text vs @ 0 # t)) = Some (Some (wide_text wchar_size vs @ 0 # r)) \<and>
      utf16_to_utf8_string_alloc wchar_size m16 m (Some (wide_text wchar_size vs @ 0 # r)) = Some (Some (utf8_text vs @ [0]))"
proof (cases "vs = []")
  case True
  then show ?thesis
    by (simp add: wide_text_def utf16_units_def utf8_to_utf16_string_alloc_def utf16_to_utf8_string_alloc_def)
next
  case False
  from utf8_to_utf16_result [OF assms(1,2) False assms(3,4)] utf16_to_utf8_result [OF assms(1,2) False assms(5,6)] False
  show ?thesis by auto
qed

theorem wide_string_roundtrip_witness:
  "\<exists>r. utf8_to_utf16_string_alloc 2 (\<lambda>n. Some (replicate n 0)) (\<lambda>n. Some (replicate n 1)) (Some [0x61, 0xF0, 0x9F, 0x98, 0x80, 0]) =
     Some (Some ([0x61, 0xD83D, 0xDE00] @ 0 # r)) \<and>
   utf16_to_utf8_string_alloc 2 (\<lambda>n. Some (replicate n 0)) (\<lambda>n. Some (replicate n 7)) (Some ([0x61, 0xD83D, 0xDE00] @ 0 # r)) =
     Some (Some [0x61, 0xF0, 0x9F, 0x98, 0x80, 0])"
proof -
  let ?vs = "[0x61, 0x1F600] :: nat list"
  have e: "utf8_text ?vs = [0x61, 0xF0, 0x9F, 0x98, 0x80]" by (simp add: utf8_enc_def)
  have w: "wide_text 2 ?vs = [0x61, 0xD83D, 0xDE00]" by (simp add: wide_text_def utf16_units_def)
  have "\<exists>r. utf8_to_utf16_string_alloc 2 (\<lambda>n. Some (replicate n 0)) (\<lambda>n. Some (replicate n 1)) (Some (utf8_text ?vs @ 0 # [])) =
       Some (Some (wide_text 2 ?vs @ 0 # r)) \<and>
     utf16_to_utf8_string_alloc 2 (\<lambda>n. Some (replicate n 0)) (\<lambda>n. Some (replicate n 7)) (Some (wide_text 2 ?vs @ 0 # r)) =
       Some (Some (utf8_text ?vs @ [0]))"
    using wide_string_roundtrip [of ?vs "\<lambda>n. Some (replicate n 0)" "\<lambda>n. Some (replicate n 1)" "\<lambda>n. Some (replicate n 0)"
      "\<lambda>n. Some (replicate n 7)" 2 "[]" "[]"]
    by (simp only: if_False list.distinct) (simp add: always_allocates_def scalar_def code_point_def)
  then show ?thesis unfolding e w append.simps .
qed

end
