(* ===== verification/ShiftRegister.thy ===== *)
theory ShiftRegister
  imports Prelude
begin

text \<open>
  Linear feedback shift registers, the reference behind the checksums of
  \<open>encodings/encoding_crc32.c\<close>. A register of type \<open>'a word\<close> takes the message one bit at a time; one
  step of it is linear over exclusive or. The tables, the folding by carry-less multiplication and
  the constants of the vector code are all facts of linear maps, so that two of them are equal when
  they agree on the words with a single bit. The locale holds what follows from linearity alone;
  \<open>Crc32\<close> interprets it for the three registers of the code.
\<close>

section \<open>Bits of a word, in both orders\<close>

definition lsb_bits :: "'b::len word \<Rightarrow> bool list" where
  "lsb_bits x = map (bit x) [0..<LENGTH('b)]"

definition msb_bits :: "'b::len word \<Rightarrow> bool list" where
  "msb_bits x = rev (lsb_bits x)"

abbreviation single :: "nat \<Rightarrow> 'b::len word" where
  "single i \<equiv> 2 ^ i"

lemma length_bits [simp]: "length (lsb_bits (x :: 'b::len word)) = LENGTH('b)" "length (msb_bits x) = LENGTH('b)"
  by (simp_all add: lsb_bits_def msb_bits_def)

lemma lsb_bits_single:
  assumes "i < LENGTH('b)"
  shows "lsb_bits (single i :: 'b::len word) = replicate i False @ True # replicate (LENGTH('b) - Suc i) False"
  using assms by (intro nth_equalityI) (auto simp: lsb_bits_def bit_simps nth_append nth_Cons' )

lemma msb_bits_single:
  assumes "i < LENGTH('b)"
  shows "msb_bits (single i :: 'b::len word) = replicate (LENGTH('b) - Suc i) False @ True # replicate i False"
  using assms by (simp add: msb_bits_def lsb_bits_single)

lemma lsb_bits_xor: "lsb_bits (x XOR y) = map2 (\<noteq>) (lsb_bits x) (lsb_bits y)"
  by (rule nth_equalityI) (auto simp: lsb_bits_def bit_simps)

lemma msb_bits_xor: "msb_bits (x XOR y) = map2 (\<noteq>) (msb_bits x) (msb_bits y)"
  by (simp add: msb_bits_def lsb_bits_xor zip_rev rev_map)

lemma lsb_bits_0: "lsb_bits (0 :: 'b::len word) = replicate LENGTH('b) False"
  by (rule nth_equalityI) (auto simp: lsb_bits_def)

text \<open>The bits of a sequence of bytes, and of the words loaded from it, low or high byte first.\<close>

abbreviation lsb_stream :: "byte list \<Rightarrow> bool list" where
  "lsb_stream bs \<equiv> concat (map lsb_bits bs)"

abbreviation msb_stream :: "byte list \<Rightarrow> bool list" where
  "msb_stream bs \<equiv> concat (map msb_bits bs)"

lemma length_stream: "length (lsb_stream bs) = 8 * length bs" "length (msb_stream bs) = 8 * length bs"
  by (induction bs) simp_all

lemma nth_lsb_stream: "n < 8 * length bs \<Longrightarrow> lsb_stream bs ! n = bit (bs ! (n div 8)) (n mod 8)"
proof (induction bs arbitrary: n)
  case (Cons b bs)
  show ?case
  proof (cases "n < 8")
    case True
    then show ?thesis by (simp add: nth_append lsb_bits_def)
  next
    case False
    then have "n div 8 = Suc ((n - 8) div 8)" "n mod 8 = (n - 8) mod 8" by (simp_all add: le_div_geq le_mod_geq)
    then show ?thesis using False Cons by (simp add: nth_append)
  qed
qed simp

lemma lsb_bits_load:
  assumes "8 * length bs = LENGTH('b)"
  shows "lsb_bits (word_rcat (rev bs) :: 'b::len word) = lsb_stream bs"
proof (rule nth_equalityI)
  show "length (lsb_bits (word_rcat (rev bs) :: 'b word)) = length (lsb_stream bs)" using assms by (simp add: length_stream)
  fix n assume "n < length (lsb_bits (word_rcat (rev bs) :: 'b word))"
  then have n: "n < LENGTH('b)" "n div 8 < length bs" using assms by auto
  then have "bit (word_rcat (rev bs) :: 'b word) n = bit (bs ! (n div 8)) (n mod 8)"
    using bit_horner_sum_uint_exp_iff [of bs n] by (simp add: word_rcat_def bit_simps)
  then show "lsb_bits (word_rcat (rev bs) :: 'b word) ! n = lsb_stream bs ! n"
    using n assms by (simp add: nth_lsb_stream) (simp add: lsb_bits_def)
qed

lemma msb_bits_load:
  assumes "8 * length bs = LENGTH('b)"
  shows "msb_bits (word_rcat bs :: 'b::len word) = msb_stream bs"
proof -
  have "msb_bits (word_rcat bs :: 'b word) = rev (lsb_stream (rev bs))"
    using lsb_bits_load [of "rev bs", where 'b = 'b] assms by (simp add: msb_bits_def)
  also have "\<dots> = msb_stream bs" by (simp add: rev_concat rev_map msb_bits_def [abs_def] comp_def)
  finally show ?thesis .
qed

text \<open>For evaluation: the bits one after the other.\<close>

primrec low_bits :: "nat \<Rightarrow> 'b::len word \<Rightarrow> bool list" where
  "low_bits 0 x = []"
| "low_bits (Suc n) x = (x AND 1 \<noteq> 0) # low_bits n (drop_bit 1 x)"

lemma low_bits_numeral: "low_bits (numeral k) x = (x AND 1 \<noteq> 0) # low_bits (pred_numeral k) (drop_bit 1 x)"
  by (simp add: numeral_eq_Suc)

lemma low_bits_map: "low_bits n x = map (bit x) [0..<n]"
proof (induction n arbitrary: x)
  case (Suc n)
  have "map (bit x) [0..<Suc n] = bit x 0 # map (bit (drop_bit 1 x)) [0..<n]"
    by (simp only: upt_conv_Cons [of 0 "Suc n"] map_Suc_upt [symmetric] list.map map_map comp_def zero_less_Suc bit_drop_bit_eq plus_1_eq_Suc)
  then show ?case using Suc by (simp add: and_exp_eq_0_iff_not_bit [of x 0, simplified])
qed simp

lemma lsb_bits_low: "lsb_bits (x :: 'b::len word) = low_bits LENGTH('b) x"
  by (simp only: lsb_bits_def low_bits_map)

lemma push_single: "push_bit i (single j) = (single (i + j) :: 'b::len word)"
  by (simp add: push_bit_eq_mult power_add ac_simps)

section \<open>Linear maps\<close>

definition xor_linear :: "('b::len word \<Rightarrow> 'c::len word) \<Rightarrow> bool" where
  "xor_linear f \<longleftrightarrow> (\<forall>x y. f (x XOR y) = f x XOR f y)"

lemma xor_linearD: "xor_linear f \<Longrightarrow> f (x XOR y) = f x XOR f y"
  by (simp add: xor_linear_def)

lemma xor_linear_0: "xor_linear f \<Longrightarrow> f 0 = 0"
  using xor_linearD [of f 0 0] by simp

named_theorems linear \<open>linear maps are closed under the operations of the code\<close>

lemma xor_linear_id [linear]: "xor_linear (\<lambda>x. x)"
  by (simp add: xor_linear_def)

lemma xor_linear_xor [linear]: "xor_linear f \<Longrightarrow> xor_linear g \<Longrightarrow> xor_linear (\<lambda>x. f x XOR g x)"
  by (simp add: xor_linear_def ac_simps)

lemma xor_linear_compose: "xor_linear f \<Longrightarrow> xor_linear g \<Longrightarrow> xor_linear (\<lambda>x. f (g x))"
  by (simp add: xor_linear_def)

lemma xor_linear_bits [linear]:
  "xor_linear f \<Longrightarrow> xor_linear (\<lambda>x. push_bit n (f x))"
  "xor_linear f \<Longrightarrow> xor_linear (\<lambda>x. drop_bit n (f x))"
  "xor_linear f \<Longrightarrow> xor_linear (\<lambda>x. take_bit n (f x))"
  "xor_linear f \<Longrightarrow> xor_linear (\<lambda>x. f x AND m)"
  "xor_linear f \<Longrightarrow> xor_linear (\<lambda>x. ucast (f x))"
  by (auto simp: xor_linear_def intro!: bit_word_eqI simp: bit_simps)

text \<open>Two linear maps are equal when they agree on the single bits.\<close>

lemma take_bit_Suc_xor: "take_bit (Suc n) x = take_bit n x XOR (if bit x n then single n else 0)" for x :: "'b::len word"
  by (rule bit_word_eqI) (auto simp: bit_simps less_Suc_eq)

lemma xor_linear_eq:
  fixes f g :: "'b::len word \<Rightarrow> 'c::len word"
  assumes "xor_linear f" and "xor_linear g" and "\<And>i. i < LENGTH('b) \<Longrightarrow> f (single i) = g (single i)"
  shows "f x = g x"
proof -
  have "f (take_bit n x) = g (take_bit n x)" if "n \<le> LENGTH('b)" for n
    using that
  proof (induction n)
    case (Suc n)
    then have "f (if bit x n then single n else 0) = g (if bit x n then single n else 0)"
      using assms by (simp add: xor_linear_0)
    with Suc show ?case by (simp add: take_bit_Suc_xor xor_linearD [OF assms(1)] xor_linearD [OF assms(2)])
  qed (simp add: xor_linear_0 assms)
  from this [of "LENGTH('b)"] show ?thesis by simp
qed

text \<open>For words below a power of two the bits below it are enough.\<close>

lemma xor_linear_eq_small:
  fixes f g :: "'b::len word \<Rightarrow> 'c::len word"
  assumes "xor_linear f" and "xor_linear g" and "\<And>i. i < n \<Longrightarrow> f (single i) = g (single i)" and "take_bit n x = x"
  shows "f x = g x"
proof -
  have "f (take_bit n x) = g (take_bit n x)"
  proof (rule xor_linear_eq [of "\<lambda>x. f (take_bit n x)" "\<lambda>x. g (take_bit n x)"])
    show "f (take_bit n (single i)) = g (take_bit n (single i))" for i
    proof (cases "i < n")
      case True
      then have "take_bit n (single i :: 'b word) = single i" by (intro bit_word_eqI) (auto simp: bit_take_bit_iff bit_exp_iff)
      with True assms(3) show ?thesis by simp
    next
      case False
      then have "take_bit n (single i :: 'b word) = 0" by (intro bit_word_eqI) (auto simp: bit_take_bit_iff bit_exp_iff)
      then show ?thesis using assms(1,2) by (simp add: xor_linear_0)
    qed
  qed (intro xor_linear_compose [OF assms(1)] xor_linear_compose [OF assms(2)] xor_linear_bits xor_linear_id)+
  then show ?thesis by (simp add: assms(4))
qed

section \<open>Carry-less multiplication\<close>

text \<open>The product of the low \<open>n\<close> bits of \<open>a\<close> with \<open>b\<close>, without carries.\<close>

primrec clmul :: "nat \<Rightarrow> 'b::len word \<Rightarrow> 'b word \<Rightarrow> 'b word" where
  "clmul 0 a b = 0"
| "clmul (Suc n) a b = clmul n a b XOR (if bit a n then push_bit n b else 0)"

lemma clmul_linear [linear]: "xor_linear f \<Longrightarrow> xor_linear (\<lambda>a. clmul n (f a) b)"
  by (induction n) (auto simp: xor_linear_def bit_simps ac_simps)

lemma clmul_single: "i < n \<Longrightarrow> i < LENGTH('b) \<Longrightarrow> clmul n (single i) b = push_bit i (b :: 'b::len word)"
proof (induction n)
  case (Suc n)
  have "clmul m (single i) b = 0" if "m \<le> i" for m
    using that by (induction m) (auto simp: bit_simps)
  with Suc show ?case by (cases "i = n") (auto simp: bit_simps)
qed simp

lemma clmul_single_out: "n \<le> i \<Longrightarrow> clmul n (single i) b = 0"
  by (induction n) (auto simp: bit_simps)

text \<open>For evaluation.\<close>

primrec clmul_bits :: "bool list \<Rightarrow> 'b::len word \<Rightarrow> 'b word" where
  "clmul_bits [] b = 0"
| "clmul_bits (x # xs) b = (if x then b else 0) XOR clmul_bits xs (push_bit 1 b)"

lemma clmul_bits_append: "clmul_bits (xs @ ys) b = clmul_bits xs b XOR clmul_bits ys (push_bit (length xs) b)"
  by (induction xs arbitrary: b) (simp_all add: ac_simps push_bit_push_bit)

lemma clmul_low: "clmul n a b = clmul_bits (low_bits n a) b"
  by (induction n) (simp_all add: low_bits_map clmul_bits_append)

lemma clmul_short: "take_bit m a = a \<Longrightarrow> m \<le> n \<Longrightarrow> clmul n a b = clmul m a b"
proof (induction n)
  case (Suc n)
  have "\<not> bit a k" if "m \<le> k" for k using Suc.prems(1) that by (metis bit_take_bit_iff not_less)
  then show ?case using Suc by (cases "m = Suc n") auto
qed simp

section \<open>Registers\<close>

text \<open>\<open>n\<close> steps, and the steps of a register into which the bits of a message enter at the bit \<open>e\<close>.\<close>

definition adv :: "('a::len word \<Rightarrow> 'a word) \<Rightarrow> nat \<Rightarrow> 'a word \<Rightarrow> 'a word" where
  "adv step n c = (step ^^ n) c"

definition feed :: "('a::len word \<Rightarrow> 'a word) \<Rightarrow> 'a word \<Rightarrow> 'a word \<Rightarrow> bool list \<Rightarrow> 'a word" where
  "feed step e c bs = foldl (\<lambda>c b. step (if b then c XOR e else c)) c bs"

text \<open>A value and the ones after it, for the evaluation of the tables.\<close>

primrec orbit :: "('a::len word \<Rightarrow> 'a word) \<Rightarrow> nat \<Rightarrow> 'a word \<Rightarrow> 'a word list" where
  "orbit step 0 c = []"
| "orbit step (Suc n) c = c # orbit step n (step c)"

text \<open>The sum of the words at which a list of bits is set.\<close>

fun dot :: "bool list \<Rightarrow> 'a::len word list \<Rightarrow> 'a word" where
  "dot (b # bs) (x # xs) = (if b then x XOR dot bs xs else dot bs xs)"
| "dot bs xs = 0"

lemma dot_xor: "length as = length bs \<Longrightarrow> dot (map2 (\<noteq>) as bs) xs = dot as xs XOR dot bs xs"
proof (induction as bs arbitrary: xs rule: list_induct2)
  case (Cons a as b bs)
  then show ?case by (cases xs) (auto simp: ac_simps)
qed simp

lemma dot_zeros: "dot (replicate n False) xs = 0"
proof (induction n arbitrary: xs)
  case (Suc n)
  then show ?case by (cases xs) simp_all
qed simp

lemma dot_one: "i < length xs \<Longrightarrow> dot (replicate i False @ True # replicate n False) xs = xs ! i"
proof (induction i arbitrary: xs)
  case 0
  then show ?case by (cases xs) (simp_all add: dot_zeros)
next
  case (Suc i)
  then show ?case by (cases xs) simp_all
qed

lemma dot_linear: "xor_linear (\<lambda>c. dot (lsb_bits c) xs)" "xor_linear (\<lambda>c. dot (msb_bits c) xs)"
  by (simp_all only: xor_linear_def lsb_bits_xor msb_bits_xor dot_xor length_bits) simp_all

text \<open>All sums of a list of words, in the order of a table whose index selects them by its bits.\<close>

fun span :: "'a::len word list \<Rightarrow> 'a word list" where
  "span [] = [0]"
| "span (b # bs) = (let xs = span bs in xs @ map (\<lambda>x. b XOR x) xs)"

lemma length_span: "length (span bs) = 2 ^ length bs"
  by (induction bs) (simp_all add: Let_def)

lemma span_nth:
  assumes "xor_linear f" and "i < 2 ^ n" and "n \<le> LENGTH('b)"
  shows "span (rev (map (\<lambda>j. f (single j)) [0..<n])) ! i = f (of_nat i :: 'b::len word)"
  using assms(2,3)
proof (induction n arbitrary: i)
  case 0
  then show ?case using assms(1) by (simp add: xor_linear_0)
next
  case (Suc n)
  let ?bs = "rev (map (\<lambda>j. f (single j)) [0..<n])"
  have len: "length (span ?bs) = 2 ^ n" by (simp add: length_span)
  show ?case
  proof (cases "i < 2 ^ n")
    case True
    then show ?thesis using Suc len by (simp add: Let_def nth_append)
  next
    case False
    let ?k = "i - 2 ^ n"
    have k: "?k < 2 ^ n" using False Suc.prems(1) by simp
    have "of_nat i = (single n XOR of_nat ?k :: 'b word)"
    proof -
      have "\<not> bit (single n :: 'b word) m \<or> \<not> bit (of_nat ?k :: 'b word) m" for m
      proof (cases "m = n")
        case True
        have "\<not> bit ?k n" using k by (simp add: bit_iff_odd)
        with True show ?thesis by (simp add: bit_of_nat_iff)
      qed (simp add: bit_exp_iff)
      then have "single n + of_nat ?k = (single n XOR of_nat ?k :: 'b word)" by (intro disjunctive_add_eq_xor) (auto intro!: bit_word_eqI simp: bit_simps)
      moreover have "(of_nat i :: 'b word) = single n + of_nat ?k" using False of_nat_add [of "2 ^ n" ?k, where ?'a = "'b word"] by simp
      ultimately show ?thesis by simp
    qed
    then have "f (of_nat i) = f (single n) XOR f (of_nat ?k)" by (simp only: xor_linearD [OF assms(1)])
    moreover have "span ?bs ! ?k = f (of_nat ?k)" using Suc k by simp
    ultimately show ?thesis using False k len by (simp add: Let_def nth_append del: of_nat_diff)
  qed
qed

declare span.simps [simp del]

lemma adv_simps [simp]: "adv step 0 c = c" "adv step (Suc n) c = adv step n (step c)"
  by (simp_all add: adv_def funpow_swap1)

lemma adv_add: "adv step (m + n) c = adv step m (adv step n c)"
  by (simp add: adv_def funpow_add)

lemma adv_regroup: "m + n = m' + n' \<Longrightarrow> adv step m (adv step n c) = adv step m' (adv step n' c)"
  by (simp only: adv_add [symmetric])

lemma adv_commute: "adv step m (adv step n c) = adv step n (adv step m c)"
  by (simp only: adv_add [symmetric] add.commute)

lemma adv_numeral: "adv step (numeral k) c = adv step (pred_numeral k) (step c)"
  by (simp add: numeral_eq_Suc)

lemma orbit_numeral: "orbit step (numeral k) c = c # orbit step (pred_numeral k) (step c)"
  by (simp add: numeral_eq_Suc)

lemma length_orbit [simp]: "length (orbit step n c) = n"
  by (induction n arbitrary: c) simp_all

lemma orbit_nth: "i < n \<Longrightarrow> orbit step n c ! i = adv step i c"
proof (induction n arbitrary: c i)
  case (Suc n)
  then show ?case by (cases i) simp_all
qed simp

lemma feed_simps [simp]: "feed step e c [] = c" "feed step e c (b # bs) = feed step e (step (if b then c XOR e else c)) bs"
  by (simp_all add: feed_def)

lemma feed_append [simp]: "feed step e c (xs @ ys) = feed step e (feed step e c xs) ys"
  by (simp add: feed_def)

lemma feed_zeros [simp]: "feed step e c (replicate n False) = adv step n c"
  by (induction n arbitrary: c) simp_all

locale shift_register =
  fixes step :: "'a::len word \<Rightarrow> 'a word" and e :: "'a word"
  assumes step_linear: "xor_linear step"
begin

lemma step_0: "step 0 = 0"
  using step_linear by (rule xor_linear_0)

lemma adv_xor: "adv step n (x XOR y) = adv step n x XOR adv step n y"
  using step_linear by (induction n arbitrary: x y) (simp_all add: xor_linear_def)

lemma adv_0: "adv step n 0 = 0"
  using adv_xor [of n 0 0] by simp

lemma adv_linear [linear]: "xor_linear f \<Longrightarrow> xor_linear (\<lambda>x. adv step n (f x))"
  by (simp add: xor_linear_def adv_xor)

lemma adv_step: "adv step n (step c) = adv step (Suc n) c"
  by simp

lemma feed_xor:
  "length xs = length ys \<Longrightarrow> feed step e (c XOR d) (map2 (\<noteq>) xs ys) = feed step e c xs XOR feed step e d ys"
proof (induction xs ys arbitrary: c d rule: list_induct2)
  case (Cons x xs y ys)
  have "step (if x \<noteq> y then (c XOR d) XOR e else c XOR d) =
      step (if x then c XOR e else c) XOR step (if y then d XOR e else d)"
    using step_linear by (cases x; cases y) (simp_all add: xor_linear_def ac_simps)
  then show ?case by (simp only: list.map zip_Cons_Cons prod.case feed_simps Cons.IH)
qed simp

lemma feed_split: "feed step e c bs = adv step (length bs) c XOR feed step e 0 bs"
proof -
  have "map2 (\<noteq>) (replicate (length bs) False) bs = bs" by (rule nth_equalityI) auto
  then show ?thesis using feed_xor [of "replicate (length bs) False" bs c 0] by simp
qed

lemma feed_one: "feed step e 0 (replicate i False @ True # replicate j False) = adv step (Suc j) e"
  by (simp add: adv_0)

text \<open>What a word of the message contributes, in both orders of its bits.\<close>

definition lsb_value :: "'b::len word \<Rightarrow> 'a word" where
  "lsb_value x = feed step e 0 (lsb_bits x)"

definition msb_value :: "'b::len word \<Rightarrow> 'a word" where
  "msb_value x = feed step e 0 (msb_bits x)"

lemma value_xor: "lsb_value (x XOR y) = lsb_value x XOR lsb_value y" "msb_value (x XOR y) = msb_value x XOR msb_value y"
  unfolding lsb_value_def msb_value_def lsb_bits_xor msb_bits_xor
  using feed_xor [of _ _ 0 0] by (simp_all flip: feed_xor)

lemma value_linear [linear]:
  "xor_linear f \<Longrightarrow> xor_linear (\<lambda>x. lsb_value (f x))" "xor_linear f \<Longrightarrow> xor_linear (\<lambda>x. msb_value (f x))"
  by (simp_all add: xor_linear_def value_xor)

lemma lsb_value_single:
  assumes "i < LENGTH('b)"
  shows "lsb_value (single i :: 'b::len word) = adv step (LENGTH('b) - i) e"
proof -
  have "Suc (LENGTH('b) - Suc i) = LENGTH('b) - i" using assms by simp
  then show ?thesis unfolding lsb_value_def lsb_bits_single [OF assms] feed_one by simp
qed

lemma msb_value_single:
  assumes "i < LENGTH('b)"
  shows "msb_value (single i :: 'b::len word) = adv step (Suc i) e"
  unfolding msb_value_def msb_bits_single [OF assms] feed_one ..

text \<open>
  A list of words of the message: the value of the whole, and what folding does. A pair of
  constants \<open>k\<close> folds over \<open>n\<close> bits when the product stands for the word with \<open>n\<close> more bits behind it.
\<close>

definition lsb_lanes :: "'b::len word list \<Rightarrow> 'a word" where
  "lsb_lanes xs = feed step e 0 (concat (map lsb_bits xs))"

definition msb_lanes :: "'b::len word list \<Rightarrow> 'a word" where
  "msb_lanes xs = feed step e 0 (concat (map msb_bits xs))"

lemma length_concat_bits [simp]:
  "length (concat (map lsb_bits (xs :: 'b::len word list))) = LENGTH('b) * length xs"
  "length (concat (map msb_bits xs)) = LENGTH('b) * length xs"
  by (induction xs) simp_all

lemma lsb_lanes_simps:
  "lsb_lanes [] = 0"
  "lsb_lanes ((x :: 'b::len word) # xs) = adv step (LENGTH('b) * length xs) (lsb_value x) XOR lsb_lanes xs"
  using feed_split [of "lsb_value x" "concat (map lsb_bits xs)"] by (simp_all add: lsb_lanes_def lsb_value_def)

lemma msb_lanes_simps:
  "msb_lanes [] = 0"
  "msb_lanes ((x :: 'b::len word) # xs) = adv step (LENGTH('b) * length xs) (msb_value x) XOR msb_lanes xs"
  using feed_split [of "msb_value x" "concat (map msb_bits xs)"] by (simp_all add: msb_lanes_def msb_value_def)

lemma value_single128:
  assumes "i < 128"
  shows "lsb_value (single i :: 128 word) = adv step (128 - i) e" "msb_value (single i :: 128 word) = adv step (Suc i) e"
  using lsb_value_single [where ?'b = 128, of i] msb_value_single [where ?'b = 128, of i] assms by simp_all

lemma adv_meet: "n = m + k \<Longrightarrow> adv step n c = adv step m (adv step k c)"
  by (simp add: adv_add)

lemma lsb_value_push:
  assumes "take_bit 64 k = k" and "i < 64"
  shows "lsb_value (push_bit i k :: 128 word) = adv step (64 - i) (lsb_value (push_bit 64 k))"
proof (rule xor_linear_eq_small [of "\<lambda>k. lsb_value (push_bit i k)" "\<lambda>k. adv step (64 - i) (lsb_value (push_bit 64 k))" 64])
  show "lsb_value (push_bit i (single j) :: 128 word) = adv step (64 - i) (lsb_value (push_bit 64 (single j) :: 128 word))"
    if "j < 64" for j
  proof -
    have "128 - (i + j) = (64 - i) + (128 - (64 + j))" using that assms(2) by simp
    then have "adv step (128 - (i + j)) e = adv step (64 - i) (adv step (128 - (64 + j)) e)" by (rule adv_meet)
    then show ?thesis using that assms(2) by (simp only: push_single value_single128 add_less_mono add_strict_mono)
  qed
qed (use assms in \<open>auto intro!: linear\<close>)

lemma msb_value_push:
  assumes "take_bit 64 k = k" and "i < 64"
  shows "msb_value (push_bit i k :: 128 word) = adv step i (msb_value k)"
proof (rule xor_linear_eq_small [of "\<lambda>k. msb_value (push_bit i k)" "\<lambda>k. adv step i (msb_value k)" 64])
  show "msb_value (push_bit i (single j) :: 128 word) = adv step i (msb_value (single j :: 128 word))" if "j < 64" for j
  proof -
    have "adv step (Suc (i + j)) e = adv step i (adv step (Suc j) e)" by (rule adv_meet) simp
    then show ?thesis using that assms(2) by (simp only: push_single value_single128)
  qed
qed (use assms in \<open>auto intro!: linear\<close>)

lemma halves_single:
  "i < 64 \<Longrightarrow> take_bit 64 (single i :: 128 word) = single i" "i < 64 \<Longrightarrow> drop_bit 64 (single i :: 128 word) = 0"
  "64 \<le> i \<Longrightarrow> take_bit 64 (single i :: 128 word) = 0"
  "64 \<le> i \<Longrightarrow> i < 128 \<Longrightarrow> drop_bit 64 (single i :: 128 word) = single (i - 64)"
  by (auto intro!: bit_word_eqI simp: bit_take_bit_iff bit_drop_bit_eq bit_exp_iff)

lemma high_half: "take_bit 64 (drop_bit 64 k) = drop_bit 64 (k :: 128 word)"
  by (rule bit_word_eqI) (auto simp: bit_simps dest: bit_imp_le_length)

lemma lsb_fold:
  assumes "lsb_value (push_bit 64 (take_bit 64 k)) = adv step (n + 64) e"
    and "lsb_value (push_bit 64 (drop_bit 64 k) :: 128 word) = adv step n e"
  shows "lsb_value (clmul 64 (take_bit 64 x) (take_bit 64 k) XOR clmul 64 (drop_bit 64 x) (drop_bit 64 (k :: 128 word))) =
    adv step n (lsb_value x)"
proof (rule xor_linear_eq [of "\<lambda>x. lsb_value (clmul 64 (take_bit 64 x) (take_bit 64 k) XOR clmul 64 (drop_bit 64 x) (drop_bit 64 k))"])
  fix i assume "i < LENGTH(128)"
  then have i: "i < 128" by simp
  show "lsb_value (clmul 64 (take_bit 64 (single i)) (take_bit 64 k) XOR clmul 64 (drop_bit 64 (single i)) (drop_bit 64 k)) =
      adv step n (lsb_value (single i :: 128 word))"
  proof (cases "i < 64")
    case True
    have "adv step (64 - i) (adv step (n + 64) e) = adv step n (adv step (128 - i) e)"
      using True by (subst (1 2) adv_add [symmetric]) (simp add: ac_simps)
    then show ?thesis
      using True i by (simp add: halves_single clmul_single lsb_value_push assms value_single128 xor_linear_0 [OF clmul_linear [OF xor_linear_id]])
  next
    case False
    have "adv step (64 - (i - 64)) (adv step n e) = adv step n (adv step (128 - i) e)"
      using False i by (subst (1 2) adv_add [symmetric]) (simp add: ac_simps)
    then show ?thesis
      using False i by (simp add: halves_single clmul_single lsb_value_push [OF high_half] assms value_single128 xor_linear_0 [OF clmul_linear [OF xor_linear_id]])
  qed
qed (auto intro!: linear)

lemma msb_fold:
  assumes "msb_value (take_bit 64 k) = adv step (n + 1) e" and "msb_value (drop_bit 64 k :: 128 word) = adv step (n + 65) e"
  shows "msb_value (clmul 64 (take_bit 64 x) (take_bit 64 k) XOR clmul 64 (drop_bit 64 x) (drop_bit 64 (k :: 128 word))) =
    adv step n (msb_value x)"
proof (rule xor_linear_eq [of "\<lambda>x. msb_value (clmul 64 (take_bit 64 x) (take_bit 64 k) XOR clmul 64 (drop_bit 64 x) (drop_bit 64 k))"])
  fix i assume "i < LENGTH(128)"
  then have i: "i < 128" by simp
  show "msb_value (clmul 64 (take_bit 64 (single i)) (take_bit 64 k) XOR clmul 64 (drop_bit 64 (single i)) (drop_bit 64 k)) =
      adv step n (msb_value (single i :: 128 word))"
  proof (cases "i < 64")
    case True
    have "adv step i (adv step (n + 1) e) = adv step n (adv step (Suc i) e)"
      by (subst (1 2) adv_add [symmetric]) (simp add: ac_simps)
    then show ?thesis
      using True i by (simp add: halves_single clmul_single msb_value_push assms value_single128 xor_linear_0 [OF clmul_linear [OF xor_linear_id]])
  next
    case False
    have "adv step (i - 64) (adv step (n + 65) e) = adv step n (adv step (Suc i) e)"
      using False i by (subst (1 2) adv_add [symmetric]) (simp add: ac_simps)
    then show ?thesis
      using False i by (simp add: halves_single clmul_single msb_value_push [OF high_half] assms value_single128 xor_linear_0 [OF clmul_linear [OF xor_linear_id]])
  qed
qed (auto intro!: linear)

text \<open>
  Several words fold at once: each by the distance of all of them onto a new one; and neighbours
  join.
\<close>

lemma lanes_append:
  "lsb_lanes (xs @ ys) = adv step (LENGTH('b) * length ys) (lsb_lanes xs) XOR lsb_lanes (ys :: 'b::len word list)"
  "msb_lanes (xs @ ys) = adv step (LENGTH('b) * length ys) (msb_lanes xs) XOR msb_lanes ys"
  using feed_split [of "lsb_lanes xs" "concat (map lsb_bits ys)"] feed_split [of "msb_lanes xs" "concat (map msb_bits ys)"]
  by (simp_all add: lsb_lanes_def msb_lanes_def)

lemma lsb_lanes_fold:
  assumes "\<And>x. lsb_value (f x) = adv step n (lsb_value (x :: 'b::len word))" and "length ys = length xs"
  shows "lsb_lanes (map2 (\<lambda>x y. f x XOR y :: 'b word) xs ys) = adv step n (lsb_lanes xs) XOR lsb_lanes ys"
  using assms(2)
proof (induction ys xs rule: list_induct2)
  case (Cons y ys x xs)
  have "adv step (LENGTH('b) * length xs) (adv step n v) = adv step n (adv step (LENGTH('b) * length xs) v)" for v
    by (simp only: adv_add [symmetric] add.commute)
  with Cons show ?case by (simp add: lsb_lanes_simps value_xor adv_xor assms(1) ac_simps)
qed (simp add: lsb_lanes_simps adv_0)

lemma msb_lanes_fold:
  assumes "\<And>x. msb_value (f x) = adv step n (msb_value (x :: 'b::len word))" and "length ys = length xs"
  shows "msb_lanes (map2 (\<lambda>x y. f x XOR y :: 'b word) xs ys) = adv step n (msb_lanes xs) XOR msb_lanes ys"
  using assms(2)
proof (induction ys xs rule: list_induct2)
  case (Cons y ys x xs)
  have "adv step (LENGTH('b) * length xs) (adv step n v) = adv step n (adv step (LENGTH('b) * length xs) v)" for v
    by (simp only: adv_add [symmetric] add.commute)
  with Cons show ?case by (simp add: msb_lanes_simps value_xor adv_xor assms(1) ac_simps)
qed (simp add: msb_lanes_simps adv_0)

lemma lanes_join:
  assumes "n = LENGTH('b)"
  shows "(\<And>x. lsb_value (f x) = adv step n (lsb_value (x :: 'b::len word))) \<Longrightarrow> lsb_lanes ((f x XOR y) # zs) = lsb_lanes (x # y # zs)"
    and "(\<And>x. msb_value (f x) = adv step n (msb_value (x :: 'b::len word))) \<Longrightarrow> msb_lanes ((f x XOR y) # zs) = msb_lanes (x # y # zs)"
proof -
  have "adv step (LENGTH('b) * length zs) (adv step n v) = adv step (LENGTH('b) * length (y # zs)) v" for v
    using assms by (simp add: adv_add [symmetric] ac_simps)
  then show "(\<And>x. lsb_value (f x) = adv step n (lsb_value (x :: 'b word))) \<Longrightarrow> lsb_lanes ((f x XOR y) # zs) = lsb_lanes (x # y # zs)"
    "(\<And>x. msb_value (f x) = adv step n (msb_value (x :: 'b word))) \<Longrightarrow> msb_lanes ((f x XOR y) # zs) = msb_lanes (x # y # zs)"
    by (simp_all add: lsb_lanes_simps msb_lanes_simps value_xor adv_xor ac_simps del: mult_Suc_right list.size)
qed

end

text \<open>
  A register that takes the low bit of a byte first shifts to the right and takes the bit at its low
  end, one that takes the high bit first shifts to the left and takes it at its high end.
\<close>

locale lsb_register = shift_register step 1 for step :: "'a::len word \<Rightarrow> 'a word" +
  assumes step_single: "Suc i < LENGTH('a) \<Longrightarrow> step (single (Suc i)) = single i"
begin

lemma adv_single: "i + j < LENGTH('a) \<Longrightarrow> adv step i (single (i + j)) = single j"
proof (induction i)
  case (Suc i)
  then show ?case by (simp add: step_single del: power_Suc)
qed simp

lemma adv_push:
  assumes "take_bit n c = c" and "m + n \<le> LENGTH('a)"
  shows "adv step m (push_bit m c) = c"
proof (rule xor_linear_eq_small [of "\<lambda>c. adv step m (push_bit m c)" "\<lambda>c. c" n])
  show "adv step m (push_bit m (single i)) = single i" if "i < n" for i
    using that assms(2) by (simp only: push_single adv_single)
qed (use assms in \<open>auto intro!: linear\<close>)

text \<open>The value of the steps of a register, from the steps of a single bit.\<close>

lemma adv_dot: "adv step n c = dot (msb_bits c) (orbit step LENGTH('a) (adv step n (single (LENGTH('a) - 1))))"
proof (rule xor_linear_eq [of "adv step n" "\<lambda>c. dot (msb_bits c) (orbit step LENGTH('a) (adv step n (single (LENGTH('a) - 1))))"])
  fix i assume i: "i < LENGTH('a)"
  let ?j = "LENGTH('a) - Suc i"
  have "adv step ?j (single (?j + i)) = single i" using i by (intro adv_single) simp
  then have "adv step n (single i) = adv step ?j (adv step n (single (LENGTH('a) - 1)))"
    using i by (subst adv_commute) simp
  then show "adv step n (single i) = dot (msb_bits (single i :: 'a word)) (orbit step LENGTH('a) (adv step n (single (LENGTH('a) - 1))))"
    using i by (simp only: msb_bits_single dot_one length_orbit orbit_nth)
qed (intro linear dot_linear)+

lemma adv_mult:
  "adv step (m + n) (single (LENGTH('a) - 1)) =
    dot (msb_bits (adv step m (single (LENGTH('a) - 1)))) (orbit step LENGTH('a) (adv step n (single (LENGTH('a) - 1))))"
  by (simp only: add.commute [of m] adv_add adv_dot [of n "adv step m (single (LENGTH('a) - 1))"])

text \<open>
  A word whose bit \<open>n - 1\<close> weighs as the highest bit of the register and the lower ones by steps from
  there, as in the reduction of a product.
\<close>

definition weigh :: "nat \<Rightarrow> 'b::len word \<Rightarrow> 'a word" where
  "weigh n y = dot (lsb_bits y) (map (\<lambda>j. adv step (n - Suc j) (single (LENGTH('a) - 1))) [0..<n])"

lemma weigh_linear [linear]: "xor_linear f \<Longrightarrow> xor_linear (\<lambda>x. weigh n (f x))"
  unfolding weigh_def by (rule xor_linear_compose [OF dot_linear(1)])

lemma weigh_single:
  assumes "j < n" and "j < LENGTH('b)"
  shows "weigh n (single j :: 'b::len word) = adv step (n - Suc j) (single (LENGTH('a) - 1))"
  unfolding weigh_def lsb_bits_single [OF assms(2)] using assms(1) by (subst dot_one) simp_all

lemma weigh_push:
  assumes "m + LENGTH('a) \<le> n" and "m + LENGTH('a) \<le> LENGTH('b)"
  shows "weigh n (push_bit m (ucast c) :: 'b::len word) = adv step (n - LENGTH('a) - m) c"
proof (rule xor_linear_eq [of "\<lambda>c. weigh n (push_bit m (ucast c) :: 'b word)" "adv step (n - LENGTH('a) - m)"])
  fix i assume i: "i < LENGTH('a)"
  let ?top = "LENGTH('a) - 1"
  have "adv step (?top - i) (single (?top - i + i)) = single i" using i by (intro adv_single) simp
  then have "adv step (n - LENGTH('a) - m) (single i) = adv step (n - LENGTH('a) - m) (adv step (?top - i) (single ?top))"
    using i by simp
  also have "\<dots> = adv step (n - Suc (m + i)) (adv step 0 (single ?top))"
    using i assms(1) by (intro adv_regroup) simp
  finally have "adv step (n - LENGTH('a) - m) (single i) = adv step (n - Suc (m + i)) (single ?top)" by simp
  moreover have "push_bit m (ucast (single i :: 'a word)) = (single (m + i) :: 'b word)"
    by (rule bit_word_eqI) (use i assms in \<open>auto simp: bit_simps\<close>)
  moreover have "m + i < LENGTH('b)" "m + i < n" using i assms by simp_all
  ultimately show "weigh n (push_bit m (ucast (single i :: 'a word)) :: 'b word) = adv step (n - LENGTH('a) - m) (single i)"
    using weigh_single [of "m + i" n, where ?'b = 'b] by simp
qed (intro linear)+

text \<open>A word of the message that is no longer than the register, and one that holds a register.\<close>

lemma lsb_value_short:
  assumes "LENGTH('b) \<le> LENGTH('a)"
  shows "lsb_value (x :: 'b::len word) = adv step LENGTH('b) (ucast x)"
proof (rule xor_linear_eq [of lsb_value "\<lambda>x. adv step LENGTH('b) (ucast x)"])
  fix i assume i: "i < LENGTH('b)"
  have "LENGTH('b) = LENGTH('b) - i + i" using i by simp
  then have "adv step LENGTH('b) (single i) = adv step (LENGTH('b) - i) (adv step i (single i))" by (rule adv_meet)
  moreover have "adv step i (single i) = 1" using adv_single [of i 0] i assms by simp
  moreover have "ucast (single i :: 'b word) = (single i :: 'a word)"
    by (rule bit_word_eqI) (use i in \<open>auto simp: bit_simps\<close>)
  ultimately show "lsb_value (single i :: 'b word) = adv step LENGTH('b) (ucast (single i :: 'b word))"
    using lsb_value_single [OF i] by simp
qed (auto intro!: linear)

lemma lsb_value_long:
  assumes "m + LENGTH('a) \<le> LENGTH('b)"
  shows "lsb_value (push_bit m (ucast c) :: 'b::len word) = adv step (LENGTH('b) - m) c"
proof (rule xor_linear_eq [of "\<lambda>c. lsb_value (push_bit m (ucast c) :: 'b word)" "adv step (LENGTH('b) - m)"])
  fix i assume i: "i < LENGTH('a)"
  have "LENGTH('b) - m = (LENGTH('b) - (m + i)) + i" using i assms by simp
  then have "adv step (LENGTH('b) - m) (single i) = adv step (LENGTH('b) - (m + i)) (adv step i (single i))" by (rule adv_meet)
  moreover have "adv step i (single i) = 1" using adv_single [of i 0] i by simp
  moreover have "push_bit m (ucast (single i :: 'a word)) = (single (m + i) :: 'b word)"
    by (rule bit_word_eqI) (use i assms in \<open>auto simp: bit_simps\<close>)
  moreover have "m + i < LENGTH('b)" using i assms by simp
  ultimately show "lsb_value (push_bit m (ucast (single i :: 'a word)) :: 'b word) = adv step (LENGTH('b) - m) (single i)"
    using lsb_value_single [of "m + i", where ?'b = 'b] by simp
qed (auto intro!: linear)

end

locale msb_register = shift_register +
  assumes top: "e = single (LENGTH('a) - 1)"
    and step_single: "Suc i < LENGTH('a) \<Longrightarrow> step (single i) = single (Suc i)"
begin

lemma adv_single: "j + i < LENGTH('a) \<Longrightarrow> adv step i (single j) = single (j + i)"
proof (induction i arbitrary: j)
  case (Suc i)
  then show ?case using Suc.IH [of "Suc j"] by (simp add: step_single del: power_Suc)
qed simp

lemma adv_push:
  assumes "take_bit n c = c" and "m + n \<le> LENGTH('a)"
  shows "adv step m c = push_bit m c"
proof (rule xor_linear_eq_small [of "adv step m" "push_bit m" n])
  show "adv step m (single i) = push_bit m (single i)" if "i < n" for i
    using that assms(2) by (simp only: push_single adv_single add.commute)
qed (use assms in \<open>auto intro!: linear\<close>)

lemma adv_dot: "adv step n c = dot (lsb_bits c) (orbit step LENGTH('a) (adv step n 1))"
proof (rule xor_linear_eq [of "adv step n" "\<lambda>c. dot (lsb_bits c) (orbit step LENGTH('a) (adv step n 1))"])
  fix i assume i: "i < LENGTH('a)"
  have "adv step i (single 0) = single i" using adv_single [of 0 i] i by simp
  then have "adv step n (single i) = adv step i (adv step n 1)"
    by (subst adv_commute) simp
  then show "adv step n (single i) = dot (lsb_bits (single i :: 'a word)) (orbit step LENGTH('a) (adv step n 1))"
    using i by (simp only: lsb_bits_single dot_one length_orbit orbit_nth)
qed (intro linear dot_linear)+

lemma adv_mult: "adv step (m + n) 1 = dot (lsb_bits (adv step m 1)) (orbit step LENGTH('a) (adv step n 1))"
  by (simp only: add.commute [of m] adv_add adv_dot [of n "adv step m 1"])

lemma adv_single_top:
  assumes "i < LENGTH('a)"
  shows "adv step (LENGTH('a) - Suc i) (single i) = e"
  using adv_single [of i "LENGTH('a) - Suc i"] assms by (simp add: top)

lemma msb_value_short:
  assumes "LENGTH('b) \<le> LENGTH('a)"
  shows "msb_value (x :: 'b::len word) = adv step LENGTH('b) (push_bit (LENGTH('a) - LENGTH('b)) (ucast x))"
proof (rule xor_linear_eq [of msb_value "\<lambda>x. adv step LENGTH('b) (push_bit (LENGTH('a) - LENGTH('b)) (ucast x))"])
  fix i assume i: "i < LENGTH('b)"
  let ?j = "LENGTH('a) - LENGTH('b) + i"
  have j: "?j < LENGTH('a)" using i assms by simp
  have "LENGTH('b) = Suc i + (LENGTH('a) - Suc ?j)" using i assms by simp
  then have "adv step LENGTH('b) (single ?j) = adv step (Suc i) (adv step (LENGTH('a) - Suc ?j) (single ?j))" by (rule adv_meet)
  moreover have "push_bit (LENGTH('a) - LENGTH('b)) (ucast (single i :: 'b word)) = (single ?j :: 'a word)"
    by (rule bit_word_eqI) (use i j in \<open>auto simp: bit_simps\<close>)
  ultimately show "msb_value (single i :: 'b word) =
      adv step LENGTH('b) (push_bit (LENGTH('a) - LENGTH('b)) (ucast (single i :: 'b word)))"
    by (simp only: msb_value_single [OF i] adv_single_top [OF j])
qed (intro linear)+

lemma msb_value_long:
  assumes "m + LENGTH('a) \<le> LENGTH('b)"
  shows "msb_value (push_bit m (ucast c) :: 'b::len word) = adv step (m + LENGTH('a)) c"
proof (rule xor_linear_eq [of "\<lambda>c. msb_value (push_bit m (ucast c) :: 'b word)" "adv step (m + LENGTH('a))"])
  fix i assume i: "i < LENGTH('a)"
  have "m + LENGTH('a) = Suc (m + i) + (LENGTH('a) - Suc i)" using i by simp
  then have "adv step (m + LENGTH('a)) (single i) = adv step (Suc (m + i)) (adv step (LENGTH('a) - Suc i) (single i))" by (rule adv_meet)
  moreover have "push_bit m (ucast (single i :: 'a word)) = (single (m + i) :: 'b word)"
    by (rule bit_word_eqI) (use i assms in \<open>auto simp: bit_simps\<close>)
  moreover have "m + i < LENGTH('b)" using i assms by simp
  ultimately show "msb_value (push_bit m (ucast (single i :: 'a word)) :: 'b word) = adv step (m + LENGTH('a)) (single i)"
    by (simp only: msb_value_single adv_single_top [OF i])
qed (intro linear)+

end

end
