(* ===== verification/CrcTables.thy ===== *)
theory CrcTables
  imports ShiftRegister
begin

text \<open>
  The slicing tables of \<open>encodings/encoding_crc32_tables.h\<close>, entry for entry, and the proof that they
  are what the header of that file says: slice \<open>n\<close> at \<open>i\<close> is the register after the byte \<open>i\<close> and \<open>n\<close>
  bytes of zeros. A table is linear in its index, so that a slice is the list of all sums of its
  eight entries at the single bits; and these are consecutive values of one orbit of the register.
\<close>

section \<open>The registers, one bit at a time\<close>

text \<open>
  The reflected CRC-32 of zlib, gzip and PNG; the CRC-32 of Ogg, which takes the high bit first; and
  the CRC-16 of CCITT.
\<close>

definition crc32_step :: "u32 \<Rightarrow> u32" where
  "crc32_step c = drop_bit 1 c XOR (if bit c 0 then 0xEDB88320 else 0)"

definition crc32_ogg_step :: "u32 \<Rightarrow> u32" where
  "crc32_ogg_step c = push_bit 1 c XOR (if bit c 31 then 0x04C11DB7 else 0)"

definition crc16_step :: "16 word \<Rightarrow> 16 word" where
  "crc16_step c = push_bit 1 c XOR (if bit c 15 then 0x1021 else 0)"

interpretation crc32: lsb_register crc32_step
proof
  show "xor_linear crc32_step"
    by (auto simp: xor_linear_def crc32_step_def intro!: bit_word_eqI simp: bit_simps)
  show "crc32_step (single (Suc i)) = single i" if "Suc i < LENGTH(32)" for i
    using that by (auto simp: crc32_step_def bit_exp_iff intro!: bit_word_eqI simp: bit_simps simp del: power_Suc)
qed

interpretation ogg: msb_register crc32_ogg_step "0x80000000"
proof
  show "xor_linear crc32_ogg_step"
    by (auto simp: xor_linear_def crc32_ogg_step_def intro!: bit_word_eqI simp: bit_simps)
  show "(0x80000000 :: u32) = single (LENGTH(32) - 1)" by simp
  show "crc32_ogg_step (single i) = single (Suc i)" if "Suc i < LENGTH(32)" for i
    using that by (simp only: crc32_ogg_step_def push_single bit_exp_iff) (auto simp: possible_bit_def)
qed

interpretation crc16: msb_register crc16_step "0x8000"
proof
  show "xor_linear crc16_step"
    by (auto simp: xor_linear_def crc16_step_def intro!: bit_word_eqI simp: bit_simps)
  show "(0x8000 :: 16 word) = single (LENGTH(16) - 1)" by simp
  show "crc16_step (single i) = single (Suc i)" if "Suc i < LENGTH(16)" for i
    using that by (simp only: crc16_step_def push_single bit_exp_iff) (auto simp: possible_bit_def)
qed

text \<open>The definitions are the usual shifts with a conditional exclusive or; for evaluation.\<close>

lemma bit_32_and: "bit (c :: u32) 0 \<longleftrightarrow> c AND 1 \<noteq> 0" "bit (c :: u32) 31 \<longleftrightarrow> c AND 0x80000000 \<noteq> 0"
  "bit (d :: 16 word) 15 \<longleftrightarrow> d AND 0x8000 \<noteq> 0"
  using and_exp_eq_0_iff_not_bit [of c 0] and_exp_eq_0_iff_not_bit [of c 31] and_exp_eq_0_iff_not_bit [of d 15] by simp_all

section \<open>\<open>crc32_slice8\<close>\<close>

definition crc32_slice8_0 :: "u32 list" where
  "crc32_slice8_0 =
  [0x0, 0x77073096, 0xEE0E612C, 0x990951BA, 0x76DC419, 0x706AF48F, 0xE963A535, 0x9E6495A3, 0xEDB8832, 0x79DCB8A4,
   0xE0D5E91E, 0x97D2D988, 0x9B64C2B, 0x7EB17CBD, 0xE7B82D07, 0x90BF1D91, 0x1DB71064, 0x6AB020F2, 0xF3B97148,
   0x84BE41DE, 0x1ADAD47D, 0x6DDDE4EB, 0xF4D4B551, 0x83D385C7, 0x136C9856, 0x646BA8C0, 0xFD62F97A, 0x8A65C9EC,
   0x14015C4F, 0x63066CD9, 0xFA0F3D63, 0x8D080DF5, 0x3B6E20C8, 0x4C69105E, 0xD56041E4, 0xA2677172, 0x3C03E4D1,
   0x4B04D447, 0xD20D85FD, 0xA50AB56B, 0x35B5A8FA, 0x42B2986C, 0xDBBBC9D6, 0xACBCF940, 0x32D86CE3, 0x45DF5C75,
   0xDCD60DCF, 0xABD13D59, 0x26D930AC, 0x51DE003A, 0xC8D75180, 0xBFD06116, 0x21B4F4B5, 0x56B3C423, 0xCFBA9599,
   0xB8BDA50F, 0x2802B89E, 0x5F058808, 0xC60CD9B2, 0xB10BE924, 0x2F6F7C87, 0x58684C11, 0xC1611DAB, 0xB6662D3D,
   0x76DC4190, 0x1DB7106, 0x98D220BC, 0xEFD5102A, 0x71B18589, 0x6B6B51F, 0x9FBFE4A5, 0xE8B8D433, 0x7807C9A2,
   0xF00F934, 0x9609A88E, 0xE10E9818, 0x7F6A0DBB, 0x86D3D2D, 0x91646C97, 0xE6635C01, 0x6B6B51F4, 0x1C6C6162,
   0x856530D8, 0xF262004E, 0x6C0695ED, 0x1B01A57B, 0x8208F4C1, 0xF50FC457, 0x65B0D9C6, 0x12B7E950, 0x8BBEB8EA,
   0xFCB9887C, 0x62DD1DDF, 0x15DA2D49, 0x8CD37CF3, 0xFBD44C65, 0x4DB26158, 0x3AB551CE, 0xA3BC0074, 0xD4BB30E2,
   0x4ADFA541, 0x3DD895D7, 0xA4D1C46D, 0xD3D6F4FB, 0x4369E96A, 0x346ED9FC, 0xAD678846, 0xDA60B8D0, 0x44042D73,
   0x33031DE5, 0xAA0A4C5F, 0xDD0D7CC9, 0x5005713C, 0x270241AA, 0xBE0B1010, 0xC90C2086, 0x5768B525, 0x206F85B3,
   0xB966D409, 0xCE61E49F, 0x5EDEF90E, 0x29D9C998, 0xB0D09822, 0xC7D7A8B4, 0x59B33D17, 0x2EB40D81, 0xB7BD5C3B,
   0xC0BA6CAD, 0xEDB88320, 0x9ABFB3B6, 0x3B6E20C, 0x74B1D29A, 0xEAD54739, 0x9DD277AF, 0x4DB2615, 0x73DC1683,
   0xE3630B12, 0x94643B84, 0xD6D6A3E, 0x7A6A5AA8, 0xE40ECF0B, 0x9309FF9D, 0xA00AE27, 0x7D079EB1, 0xF00F9344,
   0x8708A3D2, 0x1E01F268, 0x6906C2FE, 0xF762575D, 0x806567CB, 0x196C3671, 0x6E6B06E7, 0xFED41B76, 0x89D32BE0,
   0x10DA7A5A, 0x67DD4ACC, 0xF9B9DF6F, 0x8EBEEFF9, 0x17B7BE43, 0x60B08ED5, 0xD6D6A3E8, 0xA1D1937E, 0x38D8C2C4,
   0x4FDFF252, 0xD1BB67F1, 0xA6BC5767, 0x3FB506DD, 0x48B2364B, 0xD80D2BDA, 0xAF0A1B4C, 0x36034AF6, 0x41047A60,
   0xDF60EFC3, 0xA867DF55, 0x316E8EEF, 0x4669BE79, 0xCB61B38C, 0xBC66831A, 0x256FD2A0, 0x5268E236, 0xCC0C7795,
   0xBB0B4703, 0x220216B9, 0x5505262F, 0xC5BA3BBE, 0xB2BD0B28, 0x2BB45A92, 0x5CB36A04, 0xC2D7FFA7, 0xB5D0CF31,
   0x2CD99E8B, 0x5BDEAE1D, 0x9B64C2B0, 0xEC63F226, 0x756AA39C, 0x26D930A, 0x9C0906A9, 0xEB0E363F, 0x72076785,
   0x5005713, 0x95BF4A82, 0xE2B87A14, 0x7BB12BAE, 0xCB61B38, 0x92D28E9B, 0xE5D5BE0D, 0x7CDCEFB7, 0xBDBDF21,
   0x86D3D2D4, 0xF1D4E242, 0x68DDB3F8, 0x1FDA836E, 0x81BE16CD, 0xF6B9265B, 0x6FB077E1, 0x18B74777, 0x88085AE6,
   0xFF0F6A70, 0x66063BCA, 0x11010B5C, 0x8F659EFF, 0xF862AE69, 0x616BFFD3, 0x166CCF45, 0xA00AE278, 0xD70DD2EE,
   0x4E048354, 0x3903B3C2, 0xA7672661, 0xD06016F7, 0x4969474D, 0x3E6E77DB, 0xAED16A4A, 0xD9D65ADC, 0x40DF0B66,
   0x37D83BF0, 0xA9BCAE53, 0xDEBB9EC5, 0x47B2CF7F, 0x30B5FFE9, 0xBDBDF21C, 0xCABAC28A, 0x53B39330, 0x24B4A3A6,
   0xBAD03605, 0xCDD70693, 0x54DE5729, 0x23D967BF, 0xB3667A2E, 0xC4614AB8, 0x5D681B02, 0x2A6F2B94, 0xB40BBE37,
   0xC30C8EA1, 0x5A05DF1B, 0x2D02EF8D]"

definition crc32_slice8_1 :: "u32 list" where
  "crc32_slice8_1 =
  [0x0, 0x191B3141, 0x32366282, 0x2B2D53C3, 0x646CC504, 0x7D77F445, 0x565AA786, 0x4F4196C7, 0xC8D98A08, 0xD1C2BB49,
   0xFAEFE88A, 0xE3F4D9CB, 0xACB54F0C, 0xB5AE7E4D, 0x9E832D8E, 0x87981CCF, 0x4AC21251, 0x53D92310, 0x78F470D3,
   0x61EF4192, 0x2EAED755, 0x37B5E614, 0x1C98B5D7, 0x5838496, 0x821B9859, 0x9B00A918, 0xB02DFADB, 0xA936CB9A,
   0xE6775D5D, 0xFF6C6C1C, 0xD4413FDF, 0xCD5A0E9E, 0x958424A2, 0x8C9F15E3, 0xA7B24620, 0xBEA97761, 0xF1E8E1A6,
   0xE8F3D0E7, 0xC3DE8324, 0xDAC5B265, 0x5D5DAEAA, 0x44469FEB, 0x6F6BCC28, 0x7670FD69, 0x39316BAE, 0x202A5AEF,
   0xB07092C, 0x121C386D, 0xDF4636F3, 0xC65D07B2, 0xED705471, 0xF46B6530, 0xBB2AF3F7, 0xA231C2B6, 0x891C9175,
   0x9007A034, 0x179FBCFB, 0xE848DBA, 0x25A9DE79, 0x3CB2EF38, 0x73F379FF, 0x6AE848BE, 0x41C51B7D, 0x58DE2A3C,
   0xF0794F05, 0xE9627E44, 0xC24F2D87, 0xDB541CC6, 0x94158A01, 0x8D0EBB40, 0xA623E883, 0xBF38D9C2, 0x38A0C50D,
   0x21BBF44C, 0xA96A78F, 0x138D96CE, 0x5CCC0009, 0x45D73148, 0x6EFA628B, 0x77E153CA, 0xBABB5D54, 0xA3A06C15,
   0x888D3FD6, 0x91960E97, 0xDED79850, 0xC7CCA911, 0xECE1FAD2, 0xF5FACB93, 0x7262D75C, 0x6B79E61D, 0x4054B5DE,
   0x594F849F, 0x160E1258, 0xF152319, 0x243870DA, 0x3D23419B, 0x65FD6BA7, 0x7CE65AE6, 0x57CB0925, 0x4ED03864,
   0x191AEA3, 0x188A9FE2, 0x33A7CC21, 0x2ABCFD60, 0xAD24E1AF, 0xB43FD0EE, 0x9F12832D, 0x8609B26C, 0xC94824AB,
   0xD05315EA, 0xFB7E4629, 0xE2657768, 0x2F3F79F6, 0x362448B7, 0x1D091B74, 0x4122A35, 0x4B53BCF2, 0x52488DB3,
   0x7965DE70, 0x607EEF31, 0xE7E6F3FE, 0xFEFDC2BF, 0xD5D0917C, 0xCCCBA03D, 0x838A36FA, 0x9A9107BB, 0xB1BC5478,
   0xA8A76539, 0x3B83984B, 0x2298A90A, 0x9B5FAC9, 0x10AECB88, 0x5FEF5D4F, 0x46F46C0E, 0x6DD93FCD, 0x74C20E8C,
   0xF35A1243, 0xEA412302, 0xC16C70C1, 0xD8774180, 0x9736D747, 0x8E2DE606, 0xA500B5C5, 0xBC1B8484, 0x71418A1A,
   0x685ABB5B, 0x4377E898, 0x5A6CD9D9, 0x152D4F1E, 0xC367E5F, 0x271B2D9C, 0x3E001CDD, 0xB9980012, 0xA0833153,
   0x8BAE6290, 0x92B553D1, 0xDDF4C516, 0xC4EFF457, 0xEFC2A794, 0xF6D996D5, 0xAE07BCE9, 0xB71C8DA8, 0x9C31DE6B,
   0x852AEF2A, 0xCA6B79ED, 0xD37048AC, 0xF85D1B6F, 0xE1462A2E, 0x66DE36E1, 0x7FC507A0, 0x54E85463, 0x4DF36522,
   0x2B2F3E5, 0x1BA9C2A4, 0x30849167, 0x299FA026, 0xE4C5AEB8, 0xFDDE9FF9, 0xD6F3CC3A, 0xCFE8FD7B, 0x80A96BBC,
   0x99B25AFD, 0xB29F093E, 0xAB84387F, 0x2C1C24B0, 0x350715F1, 0x1E2A4632, 0x7317773, 0x4870E1B4, 0x516BD0F5,
   0x7A468336, 0x635DB277, 0xCBFAD74E, 0xD2E1E60F, 0xF9CCB5CC, 0xE0D7848D, 0xAF96124A, 0xB68D230B, 0x9DA070C8,
   0x84BB4189, 0x3235D46, 0x1A386C07, 0x31153FC4, 0x280E0E85, 0x674F9842, 0x7E54A903, 0x5579FAC0, 0x4C62CB81,
   0x8138C51F, 0x9823F45E, 0xB30EA79D, 0xAA1596DC, 0xE554001B, 0xFC4F315A, 0xD7626299, 0xCE7953D8, 0x49E14F17,
   0x50FA7E56, 0x7BD72D95, 0x62CC1CD4, 0x2D8D8A13, 0x3496BB52, 0x1FBBE891, 0x6A0D9D0, 0x5E7EF3EC, 0x4765C2AD,
   0x6C48916E, 0x7553A02F, 0x3A1236E8, 0x230907A9, 0x824546A, 0x113F652B, 0x96A779E4, 0x8FBC48A5, 0xA4911B66,
   0xBD8A2A27, 0xF2CBBCE0, 0xEBD08DA1, 0xC0FDDE62, 0xD9E6EF23, 0x14BCE1BD, 0xDA7D0FC, 0x268A833F, 0x3F91B27E,
   0x70D024B9, 0x69CB15F8, 0x42E6463B, 0x5BFD777A, 0xDC656BB5, 0xC57E5AF4, 0xEE530937, 0xF7483876, 0xB809AEB1,
   0xA1129FF0, 0x8A3FCC33, 0x9324FD72]"

definition crc32_slice8_2 :: "u32 list" where
  "crc32_slice8_2 =
  [0x0, 0x1C26A37, 0x384D46E, 0x246BE59, 0x709A8DC, 0x6CBC2EB, 0x48D7CB2, 0x54F1685, 0xE1351B8, 0xFD13B8F,
   0xD9785D6, 0xC55EFE1, 0x91AF964, 0x8D89353, 0xA9E2D0A, 0xB5C473D, 0x1C26A370, 0x1DE4C947, 0x1FA2771E,
   0x1E601D29, 0x1B2F0BAC, 0x1AED619B, 0x18ABDFC2, 0x1969B5F5, 0x1235F2C8, 0x13F798FF, 0x11B126A6, 0x10734C91,
   0x153C5A14, 0x14FE3023, 0x16B88E7A, 0x177AE44D, 0x384D46E0, 0x398F2CD7, 0x3BC9928E, 0x3A0BF8B9, 0x3F44EE3C,
   0x3E86840B, 0x3CC03A52, 0x3D025065, 0x365E1758, 0x379C7D6F, 0x35DAC336, 0x3418A901, 0x3157BF84, 0x3095D5B3,
   0x32D36BEA, 0x331101DD, 0x246BE590, 0x25A98FA7, 0x27EF31FE, 0x262D5BC9, 0x23624D4C, 0x22A0277B, 0x20E69922,
   0x2124F315, 0x2A78B428, 0x2BBADE1F, 0x29FC6046, 0x283E0A71, 0x2D711CF4, 0x2CB376C3, 0x2EF5C89A, 0x2F37A2AD,
   0x709A8DC0, 0x7158E7F7, 0x731E59AE, 0x72DC3399, 0x7793251C, 0x76514F2B, 0x7417F172, 0x75D59B45, 0x7E89DC78,
   0x7F4BB64F, 0x7D0D0816, 0x7CCF6221, 0x798074A4, 0x78421E93, 0x7A04A0CA, 0x7BC6CAFD, 0x6CBC2EB0, 0x6D7E4487,
   0x6F38FADE, 0x6EFA90E9, 0x6BB5866C, 0x6A77EC5B, 0x68315202, 0x69F33835, 0x62AF7F08, 0x636D153F, 0x612BAB66,
   0x60E9C151, 0x65A6D7D4, 0x6464BDE3, 0x662203BA, 0x67E0698D, 0x48D7CB20, 0x4915A117, 0x4B531F4E, 0x4A917579,
   0x4FDE63FC, 0x4E1C09CB, 0x4C5AB792, 0x4D98DDA5, 0x46C49A98, 0x4706F0AF, 0x45404EF6, 0x448224C1, 0x41CD3244,
   0x400F5873, 0x4249E62A, 0x438B8C1D, 0x54F16850, 0x55330267, 0x5775BC3E, 0x56B7D609, 0x53F8C08C, 0x523AAABB,
   0x507C14E2, 0x51BE7ED5, 0x5AE239E8, 0x5B2053DF, 0x5966ED86, 0x58A487B1, 0x5DEB9134, 0x5C29FB03, 0x5E6F455A,
   0x5FAD2F6D, 0xE1351B80, 0xE0F771B7, 0xE2B1CFEE, 0xE373A5D9, 0xE63CB35C, 0xE7FED96B, 0xE5B86732, 0xE47A0D05,
   0xEF264A38, 0xEEE4200F, 0xECA29E56, 0xED60F461, 0xE82FE2E4, 0xE9ED88D3, 0xEBAB368A, 0xEA695CBD, 0xFD13B8F0,
   0xFCD1D2C7, 0xFE976C9E, 0xFF5506A9, 0xFA1A102C, 0xFBD87A1B, 0xF99EC442, 0xF85CAE75, 0xF300E948, 0xF2C2837F,
   0xF0843D26, 0xF1465711, 0xF4094194, 0xF5CB2BA3, 0xF78D95FA, 0xF64FFFCD, 0xD9785D60, 0xD8BA3757, 0xDAFC890E,
   0xDB3EE339, 0xDE71F5BC, 0xDFB39F8B, 0xDDF521D2, 0xDC374BE5, 0xD76B0CD8, 0xD6A966EF, 0xD4EFD8B6, 0xD52DB281,
   0xD062A404, 0xD1A0CE33, 0xD3E6706A, 0xD2241A5D, 0xC55EFE10, 0xC49C9427, 0xC6DA2A7E, 0xC7184049, 0xC25756CC,
   0xC3953CFB, 0xC1D382A2, 0xC011E895, 0xCB4DAFA8, 0xCA8FC59F, 0xC8C97BC6, 0xC90B11F1, 0xCC440774, 0xCD866D43,
   0xCFC0D31A, 0xCE02B92D, 0x91AF9640, 0x906DFC77, 0x922B422E, 0x93E92819, 0x96A63E9C, 0x976454AB, 0x9522EAF2,
   0x94E080C5, 0x9FBCC7F8, 0x9E7EADCF, 0x9C381396, 0x9DFA79A1, 0x98B56F24, 0x99770513, 0x9B31BB4A, 0x9AF3D17D,
   0x8D893530, 0x8C4B5F07, 0x8E0DE15E, 0x8FCF8B69, 0x8A809DEC, 0x8B42F7DB, 0x89044982, 0x88C623B5, 0x839A6488,
   0x82580EBF, 0x801EB0E6, 0x81DCDAD1, 0x8493CC54, 0x8551A663, 0x8717183A, 0x86D5720D, 0xA9E2D0A0, 0xA820BA97,
   0xAA6604CE, 0xABA46EF9, 0xAEEB787C, 0xAF29124B, 0xAD6FAC12, 0xACADC625, 0xA7F18118, 0xA633EB2F, 0xA4755576,
   0xA5B73F41, 0xA0F829C4, 0xA13A43F3, 0xA37CFDAA, 0xA2BE979D, 0xB5C473D0, 0xB40619E7, 0xB640A7BE, 0xB782CD89,
   0xB2CDDB0C, 0xB30FB13B, 0xB1490F62, 0xB08B6555, 0xBBD72268, 0xBA15485F, 0xB853F606, 0xB9919C31, 0xBCDE8AB4,
   0xBD1CE083, 0xBF5A5EDA, 0xBE9834ED]"

definition crc32_slice8_3 :: "u32 list" where
  "crc32_slice8_3 =
  [0x0, 0xB8BC6765, 0xAA09C88B, 0x12B5AFEE, 0x8F629757, 0x37DEF032, 0x256B5FDC, 0x9DD738B9, 0xC5B428EF, 0x7D084F8A,
   0x6FBDE064, 0xD7018701, 0x4AD6BFB8, 0xF26AD8DD, 0xE0DF7733, 0x58631056, 0x5019579F, 0xE8A530FA, 0xFA109F14,
   0x42ACF871, 0xDF7BC0C8, 0x67C7A7AD, 0x75720843, 0xCDCE6F26, 0x95AD7F70, 0x2D111815, 0x3FA4B7FB, 0x8718D09E,
   0x1ACFE827, 0xA2738F42, 0xB0C620AC, 0x87A47C9, 0xA032AF3E, 0x188EC85B, 0xA3B67B5, 0xB28700D0, 0x2F503869,
   0x97EC5F0C, 0x8559F0E2, 0x3DE59787, 0x658687D1, 0xDD3AE0B4, 0xCF8F4F5A, 0x7733283F, 0xEAE41086, 0x525877E3,
   0x40EDD80D, 0xF851BF68, 0xF02BF8A1, 0x48979FC4, 0x5A22302A, 0xE29E574F, 0x7F496FF6, 0xC7F50893, 0xD540A77D,
   0x6DFCC018, 0x359FD04E, 0x8D23B72B, 0x9F9618C5, 0x272A7FA0, 0xBAFD4719, 0x241207C, 0x10F48F92, 0xA848E8F7,
   0x9B14583D, 0x23A83F58, 0x311D90B6, 0x89A1F7D3, 0x1476CF6A, 0xACCAA80F, 0xBE7F07E1, 0x6C36084, 0x5EA070D2,
   0xE61C17B7, 0xF4A9B859, 0x4C15DF3C, 0xD1C2E785, 0x697E80E0, 0x7BCB2F0E, 0xC377486B, 0xCB0D0FA2, 0x73B168C7,
   0x6104C729, 0xD9B8A04C, 0x446F98F5, 0xFCD3FF90, 0xEE66507E, 0x56DA371B, 0xEB9274D, 0xB6054028, 0xA4B0EFC6,
   0x1C0C88A3, 0x81DBB01A, 0x3967D77F, 0x2BD27891, 0x936E1FF4, 0x3B26F703, 0x839A9066, 0x912F3F88, 0x299358ED,
   0xB4446054, 0xCF80731, 0x1E4DA8DF, 0xA6F1CFBA, 0xFE92DFEC, 0x462EB889, 0x549B1767, 0xEC277002, 0x71F048BB,
   0xC94C2FDE, 0xDBF98030, 0x6345E755, 0x6B3FA09C, 0xD383C7F9, 0xC1366817, 0x798A0F72, 0xE45D37CB, 0x5CE150AE,
   0x4E54FF40, 0xF6E89825, 0xAE8B8873, 0x1637EF16, 0x48240F8, 0xBC3E279D, 0x21E91F24, 0x99557841, 0x8BE0D7AF,
   0x335CB0CA, 0xED59B63B, 0x55E5D15E, 0x47507EB0, 0xFFEC19D5, 0x623B216C, 0xDA874609, 0xC832E9E7, 0x708E8E82,
   0x28ED9ED4, 0x9051F9B1, 0x82E4565F, 0x3A58313A, 0xA78F0983, 0x1F336EE6, 0xD86C108, 0xB53AA66D, 0xBD40E1A4,
   0x5FC86C1, 0x1749292F, 0xAFF54E4A, 0x322276F3, 0x8A9E1196, 0x982BBE78, 0x2097D91D, 0x78F4C94B, 0xC048AE2E,
   0xD2FD01C0, 0x6A4166A5, 0xF7965E1C, 0x4F2A3979, 0x5D9F9697, 0xE523F1F2, 0x4D6B1905, 0xF5D77E60, 0xE762D18E,
   0x5FDEB6EB, 0xC2098E52, 0x7AB5E937, 0x680046D9, 0xD0BC21BC, 0x88DF31EA, 0x3063568F, 0x22D6F961, 0x9A6A9E04,
   0x7BDA6BD, 0xBF01C1D8, 0xADB46E36, 0x15080953, 0x1D724E9A, 0xA5CE29FF, 0xB77B8611, 0xFC7E174, 0x9210D9CD,
   0x2AACBEA8, 0x38191146, 0x80A57623, 0xD8C66675, 0x607A0110, 0x72CFAEFE, 0xCA73C99B, 0x57A4F122, 0xEF189647,
   0xFDAD39A9, 0x45115ECC, 0x764DEE06, 0xCEF18963, 0xDC44268D, 0x64F841E8, 0xF92F7951, 0x41931E34, 0x5326B1DA,
   0xEB9AD6BF, 0xB3F9C6E9, 0xB45A18C, 0x19F00E62, 0xA14C6907, 0x3C9B51BE, 0x842736DB, 0x96929935, 0x2E2EFE50,
   0x2654B999, 0x9EE8DEFC, 0x8C5D7112, 0x34E11677, 0xA9362ECE, 0x118A49AB, 0x33FE645, 0xBB838120, 0xE3E09176,
   0x5B5CF613, 0x49E959FD, 0xF1553E98, 0x6C820621, 0xD43E6144, 0xC68BCEAA, 0x7E37A9CF, 0xD67F4138, 0x6EC3265D,
   0x7C7689B3, 0xC4CAEED6, 0x591DD66F, 0xE1A1B10A, 0xF3141EE4, 0x4BA87981, 0x13CB69D7, 0xAB770EB2, 0xB9C2A15C,
   0x17EC639, 0x9CA9FE80, 0x241599E5, 0x36A0360B, 0x8E1C516E, 0x866616A7, 0x3EDA71C2, 0x2C6FDE2C, 0x94D3B949,
   0x90481F0, 0xB1B8E695, 0xA30D497B, 0x1BB12E1E, 0x43D23E48, 0xFB6E592D, 0xE9DBF6C3, 0x516791A6, 0xCCB0A91F,
   0x740CCE7A, 0x66B96194, 0xDE0506F1]"

definition crc32_slice8_4 :: "u32 list" where
  "crc32_slice8_4 =
  [0x0, 0x3D6029B0, 0x7AC05360, 0x47A07AD0, 0xF580A6C0, 0xC8E08F70, 0x8F40F5A0, 0xB220DC10, 0x30704BC1, 0xD106271,
   0x4AB018A1, 0x77D03111, 0xC5F0ED01, 0xF890C4B1, 0xBF30BE61, 0x825097D1, 0x60E09782, 0x5D80BE32, 0x1A20C4E2,
   0x2740ED52, 0x95603142, 0xA80018F2, 0xEFA06222, 0xD2C04B92, 0x5090DC43, 0x6DF0F5F3, 0x2A508F23, 0x1730A693,
   0xA5107A83, 0x98705333, 0xDFD029E3, 0xE2B00053, 0xC1C12F04, 0xFCA106B4, 0xBB017C64, 0x866155D4, 0x344189C4,
   0x921A074, 0x4E81DAA4, 0x73E1F314, 0xF1B164C5, 0xCCD14D75, 0x8B7137A5, 0xB6111E15, 0x431C205, 0x3951EBB5,
   0x7EF19165, 0x4391B8D5, 0xA121B886, 0x9C419136, 0xDBE1EBE6, 0xE681C256, 0x54A11E46, 0x69C137F6, 0x2E614D26,
   0x13016496, 0x9151F347, 0xAC31DAF7, 0xEB91A027, 0xD6F18997, 0x64D15587, 0x59B17C37, 0x1E1106E7, 0x23712F57,
   0x58F35849, 0x659371F9, 0x22330B29, 0x1F532299, 0xAD73FE89, 0x9013D739, 0xD7B3ADE9, 0xEAD38459, 0x68831388,
   0x55E33A38, 0x124340E8, 0x2F236958, 0x9D03B548, 0xA0639CF8, 0xE7C3E628, 0xDAA3CF98, 0x3813CFCB, 0x573E67B,
   0x42D39CAB, 0x7FB3B51B, 0xCD93690B, 0xF0F340BB, 0xB7533A6B, 0x8A3313DB, 0x863840A, 0x3503ADBA, 0x72A3D76A,
   0x4FC3FEDA, 0xFDE322CA, 0xC0830B7A, 0x872371AA, 0xBA43581A, 0x9932774D, 0xA4525EFD, 0xE3F2242D, 0xDE920D9D,
   0x6CB2D18D, 0x51D2F83D, 0x167282ED, 0x2B12AB5D, 0xA9423C8C, 0x9422153C, 0xD3826FEC, 0xEEE2465C, 0x5CC29A4C,
   0x61A2B3FC, 0x2602C92C, 0x1B62E09C, 0xF9D2E0CF, 0xC4B2C97F, 0x8312B3AF, 0xBE729A1F, 0xC52460F, 0x31326FBF,
   0x7692156F, 0x4BF23CDF, 0xC9A2AB0E, 0xF4C282BE, 0xB362F86E, 0x8E02D1DE, 0x3C220DCE, 0x142247E, 0x46E25EAE,
   0x7B82771E, 0xB1E6B092, 0x8C869922, 0xCB26E3F2, 0xF646CA42, 0x44661652, 0x79063FE2, 0x3EA64532, 0x3C66C82,
   0x8196FB53, 0xBCF6D2E3, 0xFB56A833, 0xC6368183, 0x74165D93, 0x49767423, 0xED60EF3, 0x33B62743, 0xD1062710,
   0xEC660EA0, 0xABC67470, 0x96A65DC0, 0x248681D0, 0x19E6A860, 0x5E46D2B0, 0x6326FB00, 0xE1766CD1, 0xDC164561,
   0x9BB63FB1, 0xA6D61601, 0x14F6CA11, 0x2996E3A1, 0x6E369971, 0x5356B0C1, 0x70279F96, 0x4D47B626, 0xAE7CCF6,
   0x3787E546, 0x85A73956, 0xB8C710E6, 0xFF676A36, 0xC2074386, 0x4057D457, 0x7D37FDE7, 0x3A978737, 0x7F7AE87,
   0xB5D77297, 0x88B75B27, 0xCF1721F7, 0xF2770847, 0x10C70814, 0x2DA721A4, 0x6A075B74, 0x576772C4, 0xE547AED4,
   0xD8278764, 0x9F87FDB4, 0xA2E7D404, 0x20B743D5, 0x1DD76A65, 0x5A7710B5, 0x67173905, 0xD537E515, 0xE857CCA5,
   0xAFF7B675, 0x92979FC5, 0xE915E8DB, 0xD475C16B, 0x93D5BBBB, 0xAEB5920B, 0x1C954E1B, 0x21F567AB, 0x66551D7B,
   0x5B3534CB, 0xD965A31A, 0xE4058AAA, 0xA3A5F07A, 0x9EC5D9CA, 0x2CE505DA, 0x11852C6A, 0x562556BA, 0x6B457F0A,
   0x89F57F59, 0xB49556E9, 0xF3352C39, 0xCE550589, 0x7C75D999, 0x4115F029, 0x6B58AF9, 0x3BD5A349, 0xB9853498,
   0x84E51D28, 0xC34567F8, 0xFE254E48, 0x4C059258, 0x7165BBE8, 0x36C5C138, 0xBA5E888, 0x28D4C7DF, 0x15B4EE6F,
   0x521494BF, 0x6F74BD0F, 0xDD54611F, 0xE03448AF, 0xA794327F, 0x9AF41BCF, 0x18A48C1E, 0x25C4A5AE, 0x6264DF7E,
   0x5F04F6CE, 0xED242ADE, 0xD044036E, 0x97E479BE, 0xAA84500E, 0x4834505D, 0x755479ED, 0x32F4033D, 0xF942A8D,
   0xBDB4F69D, 0x80D4DF2D, 0xC774A5FD, 0xFA148C4D, 0x78441B9C, 0x4524322C, 0x28448FC, 0x3FE4614C, 0x8DC4BD5C,
   0xB0A494EC, 0xF704EE3C, 0xCA64C78C]"

definition crc32_slice8_5 :: "u32 list" where
  "crc32_slice8_5 =
  [0x0, 0xCB5CD3A5, 0x4DC8A10B, 0x869472AE, 0x9B914216, 0x50CD91B3, 0xD659E31D, 0x1D0530B8, 0xEC53826D, 0x270F51C8,
   0xA19B2366, 0x6AC7F0C3, 0x77C2C07B, 0xBC9E13DE, 0x3A0A6170, 0xF156B2D5, 0x3D6029B, 0xC88AD13E, 0x4E1EA390,
   0x85427035, 0x9847408D, 0x531B9328, 0xD58FE186, 0x1ED33223, 0xEF8580F6, 0x24D95353, 0xA24D21FD, 0x6911F258,
   0x7414C2E0, 0xBF481145, 0x39DC63EB, 0xF280B04E, 0x7AC0536, 0xCCF0D693, 0x4A64A43D, 0x81387798, 0x9C3D4720,
   0x57619485, 0xD1F5E62B, 0x1AA9358E, 0xEBFF875B, 0x20A354FE, 0xA6372650, 0x6D6BF5F5, 0x706EC54D, 0xBB3216E8,
   0x3DA66446, 0xF6FAB7E3, 0x47A07AD, 0xCF26D408, 0x49B2A6A6, 0x82EE7503, 0x9FEB45BB, 0x54B7961E, 0xD223E4B0,
   0x197F3715, 0xE82985C0, 0x23755665, 0xA5E124CB, 0x6EBDF76E, 0x73B8C7D6, 0xB8E41473, 0x3E7066DD, 0xF52CB578,
   0xF580A6C, 0xC404D9C9, 0x4290AB67, 0x89CC78C2, 0x94C9487A, 0x5F959BDF, 0xD901E971, 0x125D3AD4, 0xE30B8801,
   0x28575BA4, 0xAEC3290A, 0x659FFAAF, 0x789ACA17, 0xB3C619B2, 0x35526B1C, 0xFE0EB8B9, 0xC8E08F7, 0xC7D2DB52,
   0x4146A9FC, 0x8A1A7A59, 0x971F4AE1, 0x5C439944, 0xDAD7EBEA, 0x118B384F, 0xE0DD8A9A, 0x2B81593F, 0xAD152B91,
   0x6649F834, 0x7B4CC88C, 0xB0101B29, 0x36846987, 0xFDD8BA22, 0x8F40F5A, 0xC3A8DCFF, 0x453CAE51, 0x8E607DF4,
   0x93654D4C, 0x58399EE9, 0xDEADEC47, 0x15F13FE2, 0xE4A78D37, 0x2FFB5E92, 0xA96F2C3C, 0x6233FF99, 0x7F36CF21,
   0xB46A1C84, 0x32FE6E2A, 0xF9A2BD8F, 0xB220DC1, 0xC07EDE64, 0x46EAACCA, 0x8DB67F6F, 0x90B34FD7, 0x5BEF9C72,
   0xDD7BEEDC, 0x16273D79, 0xE7718FAC, 0x2C2D5C09, 0xAAB92EA7, 0x61E5FD02, 0x7CE0CDBA, 0xB7BC1E1F, 0x31286CB1,
   0xFA74BF14, 0x1EB014D8, 0xD5ECC77D, 0x5378B5D3, 0x98246676, 0x852156CE, 0x4E7D856B, 0xC8E9F7C5, 0x3B52460,
   0xF2E396B5, 0x39BF4510, 0xBF2B37BE, 0x7477E41B, 0x6972D4A3, 0xA22E0706, 0x24BA75A8, 0xEFE6A60D, 0x1D661643,
   0xD63AC5E6, 0x50AEB748, 0x9BF264ED, 0x86F75455, 0x4DAB87F0, 0xCB3FF55E, 0x6326FB, 0xF135942E, 0x3A69478B,
   0xBCFD3525, 0x77A1E680, 0x6AA4D638, 0xA1F8059D, 0x276C7733, 0xEC30A496, 0x191C11EE, 0xD240C24B, 0x54D4B0E5,
   0x9F886340, 0x828D53F8, 0x49D1805D, 0xCF45F2F3, 0x4192156, 0xF54F9383, 0x3E134026, 0xB8873288, 0x73DBE12D,
   0x6EDED195, 0xA5820230, 0x2316709E, 0xE84AA33B, 0x1ACA1375, 0xD196C0D0, 0x5702B27E, 0x9C5E61DB, 0x815B5163,
   0x4A0782C6, 0xCC93F068, 0x7CF23CD, 0xF6999118, 0x3DC542BD, 0xBB513013, 0x700DE3B6, 0x6D08D30E, 0xA65400AB,
   0x20C07205, 0xEB9CA1A0, 0x11E81EB4, 0xDAB4CD11, 0x5C20BFBF, 0x977C6C1A, 0x8A795CA2, 0x41258F07, 0xC7B1FDA9,
   0xCED2E0C, 0xFDBB9CD9, 0x36E74F7C, 0xB0733DD2, 0x7B2FEE77, 0x662ADECF, 0xAD760D6A, 0x2BE27FC4, 0xE0BEAC61,
   0x123E1C2F, 0xD962CF8A, 0x5FF6BD24, 0x94AA6E81, 0x89AF5E39, 0x42F38D9C, 0xC467FF32, 0xF3B2C97, 0xFE6D9E42,
   0x35314DE7, 0xB3A53F49, 0x78F9ECEC, 0x65FCDC54, 0xAEA00FF1, 0x28347D5F, 0xE368AEFA, 0x16441B82, 0xDD18C827,
   0x5B8CBA89, 0x90D0692C, 0x8DD55994, 0x46898A31, 0xC01DF89F, 0xB412B3A, 0xFA1799EF, 0x314B4A4A, 0xB7DF38E4,
   0x7C83EB41, 0x6186DBF9, 0xAADA085C, 0x2C4E7AF2, 0xE712A957, 0x15921919, 0xDECECABC, 0x585AB812, 0x93066BB7,
   0x8E035B0F, 0x455F88AA, 0xC3CBFA04, 0x89729A1, 0xF9C19B74, 0x329D48D1, 0xB4093A7F, 0x7F55E9DA, 0x6250D962,
   0xA90C0AC7, 0x2F987869, 0xE4C4ABCC]"

definition crc32_slice8_6 :: "u32 list" where
  "crc32_slice8_6 =
  [0x0, 0xA6770BB4, 0x979F1129, 0x31E81A9D, 0xF44F2413, 0x52382FA7, 0x63D0353A, 0xC5A73E8E, 0x33EF4E67, 0x959845D3,
   0xA4705F4E, 0x20754FA, 0xC7A06A74, 0x61D761C0, 0x503F7B5D, 0xF64870E9, 0x67DE9CCE, 0xC1A9977A, 0xF0418DE7,
   0x56368653, 0x9391B8DD, 0x35E6B369, 0x40EA9F4, 0xA279A240, 0x5431D2A9, 0xF246D91D, 0xC3AEC380, 0x65D9C834,
   0xA07EF6BA, 0x609FD0E, 0x37E1E793, 0x9196EC27, 0xCFBD399C, 0x69CA3228, 0x582228B5, 0xFE552301, 0x3BF21D8F,
   0x9D85163B, 0xAC6D0CA6, 0xA1A0712, 0xFC5277FB, 0x5A257C4F, 0x6BCD66D2, 0xCDBA6D66, 0x81D53E8, 0xAE6A585C,
   0x9F8242C1, 0x39F54975, 0xA863A552, 0xE14AEE6, 0x3FFCB47B, 0x998BBFCF, 0x5C2C8141, 0xFA5B8AF5, 0xCBB39068,
   0x6DC49BDC, 0x9B8CEB35, 0x3DFBE081, 0xC13FA1C, 0xAA64F1A8, 0x6FC3CF26, 0xC9B4C492, 0xF85CDE0F, 0x5E2BD5BB,
   0x440B7579, 0xE27C7ECD, 0xD3946450, 0x75E36FE4, 0xB044516A, 0x16335ADE, 0x27DB4043, 0x81AC4BF7, 0x77E43B1E,
   0xD19330AA, 0xE07B2A37, 0x460C2183, 0x83AB1F0D, 0x25DC14B9, 0x14340E24, 0xB2430590, 0x23D5E9B7, 0x85A2E203,
   0xB44AF89E, 0x123DF32A, 0xD79ACDA4, 0x71EDC610, 0x4005DC8D, 0xE672D739, 0x103AA7D0, 0xB64DAC64, 0x87A5B6F9,
   0x21D2BD4D, 0xE47583C3, 0x42028877, 0x73EA92EA, 0xD59D995E, 0x8BB64CE5, 0x2DC14751, 0x1C295DCC, 0xBA5E5678,
   0x7FF968F6, 0xD98E6342, 0xE86679DF, 0x4E11726B, 0xB8590282, 0x1E2E0936, 0x2FC613AB, 0x89B1181F, 0x4C162691,
   0xEA612D25, 0xDB8937B8, 0x7DFE3C0C, 0xEC68D02B, 0x4A1FDB9F, 0x7BF7C102, 0xDD80CAB6, 0x1827F438, 0xBE50FF8C,
   0x8FB8E511, 0x29CFEEA5, 0xDF879E4C, 0x79F095F8, 0x48188F65, 0xEE6F84D1, 0x2BC8BA5F, 0x8DBFB1EB, 0xBC57AB76,
   0x1A20A0C2, 0x8816EAF2, 0x2E61E146, 0x1F89FBDB, 0xB9FEF06F, 0x7C59CEE1, 0xDA2EC555, 0xEBC6DFC8, 0x4DB1D47C,
   0xBBF9A495, 0x1D8EAF21, 0x2C66B5BC, 0x8A11BE08, 0x4FB68086, 0xE9C18B32, 0xD82991AF, 0x7E5E9A1B, 0xEFC8763C,
   0x49BF7D88, 0x78576715, 0xDE206CA1, 0x1B87522F, 0xBDF0599B, 0x8C184306, 0x2A6F48B2, 0xDC27385B, 0x7A5033EF,
   0x4BB82972, 0xEDCF22C6, 0x28681C48, 0x8E1F17FC, 0xBFF70D61, 0x198006D5, 0x47ABD36E, 0xE1DCD8DA, 0xD034C247,
   0x7643C9F3, 0xB3E4F77D, 0x1593FCC9, 0x247BE654, 0x820CEDE0, 0x74449D09, 0xD23396BD, 0xE3DB8C20, 0x45AC8794,
   0x800BB91A, 0x267CB2AE, 0x1794A833, 0xB1E3A387, 0x20754FA0, 0x86024414, 0xB7EA5E89, 0x119D553D, 0xD43A6BB3,
   0x724D6007, 0x43A57A9A, 0xE5D2712E, 0x139A01C7, 0xB5ED0A73, 0x840510EE, 0x22721B5A, 0xE7D525D4, 0x41A22E60,
   0x704A34FD, 0xD63D3F49, 0xCC1D9F8B, 0x6A6A943F, 0x5B828EA2, 0xFDF58516, 0x3852BB98, 0x9E25B02C, 0xAFCDAAB1,
   0x9BAA105, 0xFFF2D1EC, 0x5985DA58, 0x686DC0C5, 0xCE1ACB71, 0xBBDF5FF, 0xADCAFE4B, 0x9C22E4D6, 0x3A55EF62,
   0xABC30345, 0xDB408F1, 0x3C5C126C, 0x9A2B19D8, 0x5F8C2756, 0xF9FB2CE2, 0xC813367F, 0x6E643DCB, 0x982C4D22,
   0x3E5B4696, 0xFB35C0B, 0xA9C457BF, 0x6C636931, 0xCA146285, 0xFBFC7818, 0x5D8B73AC, 0x3A0A617, 0xA5D7ADA3,
   0x943FB73E, 0x3248BC8A, 0xF7EF8204, 0x519889B0, 0x6070932D, 0xC6079899, 0x304FE870, 0x9638E3C4, 0xA7D0F959,
   0x1A7F2ED, 0xC400CC63, 0x6277C7D7, 0x539FDD4A, 0xF5E8D6FE, 0x647E3AD9, 0xC209316D, 0xF3E12BF0, 0x55962044,
   0x90311ECA, 0x3646157E, 0x7AE0FE3, 0xA1D90457, 0x579174BE, 0xF1E67F0A, 0xC00E6597, 0x66796E23, 0xA3DE50AD,
   0x5A95B19, 0x34414184, 0x92364A30]"

definition crc32_slice8_7 :: "u32 list" where
  "crc32_slice8_7 =
  [0x0, 0xCCAA009E, 0x4225077D, 0x8E8F07E3, 0x844A0EFA, 0x48E00E64, 0xC66F0987, 0xAC50919, 0xD3E51BB5, 0x1F4F1B2B,
   0x91C01CC8, 0x5D6A1C56, 0x57AF154F, 0x9B0515D1, 0x158A1232, 0xD92012AC, 0x7CBB312B, 0xB01131B5, 0x3E9E3656,
   0xF23436C8, 0xF8F13FD1, 0x345B3F4F, 0xBAD438AC, 0x767E3832, 0xAF5E2A9E, 0x63F42A00, 0xED7B2DE3, 0x21D12D7D,
   0x2B142464, 0xE7BE24FA, 0x69312319, 0xA59B2387, 0xF9766256, 0x35DC62C8, 0xBB53652B, 0x77F965B5, 0x7D3C6CAC,
   0xB1966C32, 0x3F196BD1, 0xF3B36B4F, 0x2A9379E3, 0xE639797D, 0x68B67E9E, 0xA41C7E00, 0xAED97719, 0x62737787,
   0xECFC7064, 0x205670FA, 0x85CD537D, 0x496753E3, 0xC7E85400, 0xB42549E, 0x1875D87, 0xCD2D5D19, 0x43A25AFA,
   0x8F085A64, 0x562848C8, 0x9A824856, 0x140D4FB5, 0xD8A74F2B, 0xD2624632, 0x1EC846AC, 0x9047414F, 0x5CED41D1,
   0x299DC2ED, 0xE537C273, 0x6BB8C590, 0xA712C50E, 0xADD7CC17, 0x617DCC89, 0xEFF2CB6A, 0x2358CBF4, 0xFA78D958,
   0x36D2D9C6, 0xB85DDE25, 0x74F7DEBB, 0x7E32D7A2, 0xB298D73C, 0x3C17D0DF, 0xF0BDD041, 0x5526F3C6, 0x998CF358,
   0x1703F4BB, 0xDBA9F425, 0xD16CFD3C, 0x1DC6FDA2, 0x9349FA41, 0x5FE3FADF, 0x86C3E873, 0x4A69E8ED, 0xC4E6EF0E,
   0x84CEF90, 0x289E689, 0xCE23E617, 0x40ACE1F4, 0x8C06E16A, 0xD0EBA0BB, 0x1C41A025, 0x92CEA7C6, 0x5E64A758,
   0x54A1AE41, 0x980BAEDF, 0x1684A93C, 0xDA2EA9A2, 0x30EBB0E, 0xCFA4BB90, 0x412BBC73, 0x8D81BCED, 0x8744B5F4,
   0x4BEEB56A, 0xC561B289, 0x9CBB217, 0xAC509190, 0x60FA910E, 0xEE7596ED, 0x22DF9673, 0x281A9F6A, 0xE4B09FF4,
   0x6A3F9817, 0xA6959889, 0x7FB58A25, 0xB31F8ABB, 0x3D908D58, 0xF13A8DC6, 0xFBFF84DF, 0x37558441, 0xB9DA83A2,
   0x7570833C, 0x533B85DA, 0x9F918544, 0x111E82A7, 0xDDB48239, 0xD7718B20, 0x1BDB8BBE, 0x95548C5D, 0x59FE8CC3,
   0x80DE9E6F, 0x4C749EF1, 0xC2FB9912, 0xE51998C, 0x4949095, 0xC83E900B, 0x46B197E8, 0x8A1B9776, 0x2F80B4F1,
   0xE32AB46F, 0x6DA5B38C, 0xA10FB312, 0xABCABA0B, 0x6760BA95, 0xE9EFBD76, 0x2545BDE8, 0xFC65AF44, 0x30CFAFDA,
   0xBE40A839, 0x72EAA8A7, 0x782FA1BE, 0xB485A120, 0x3A0AA6C3, 0xF6A0A65D, 0xAA4DE78C, 0x66E7E712, 0xE868E0F1,
   0x24C2E06F, 0x2E07E976, 0xE2ADE9E8, 0x6C22EE0B, 0xA088EE95, 0x79A8FC39, 0xB502FCA7, 0x3B8DFB44, 0xF727FBDA,
   0xFDE2F2C3, 0x3148F25D, 0xBFC7F5BE, 0x736DF520, 0xD6F6D6A7, 0x1A5CD639, 0x94D3D1DA, 0x5879D144, 0x52BCD85D,
   0x9E16D8C3, 0x1099DF20, 0xDC33DFBE, 0x513CD12, 0xC9B9CD8C, 0x4736CA6F, 0x8B9CCAF1, 0x8159C3E8, 0x4DF3C376,
   0xC37CC495, 0xFD6C40B, 0x7AA64737, 0xB60C47A9, 0x3883404A, 0xF42940D4, 0xFEEC49CD, 0x32464953, 0xBCC94EB0,
   0x70634E2E, 0xA9435C82, 0x65E95C1C, 0xEB665BFF, 0x27CC5B61, 0x2D095278, 0xE1A352E6, 0x6F2C5505, 0xA386559B,
   0x61D761C, 0xCAB77682, 0x44387161, 0x889271FF, 0x825778E6, 0x4EFD7878, 0xC0727F9B, 0xCD87F05, 0xD5F86DA9,
   0x19526D37, 0x97DD6AD4, 0x5B776A4A, 0x51B26353, 0x9D1863CD, 0x1397642E, 0xDF3D64B0, 0x83D02561, 0x4F7A25FF,
   0xC1F5221C, 0xD5F2282, 0x79A2B9B, 0xCB302B05, 0x45BF2CE6, 0x89152C78, 0x50353ED4, 0x9C9F3E4A, 0x121039A9,
   0xDEBA3937, 0xD47F302E, 0x18D530B0, 0x965A3753, 0x5AF037CD, 0xFF6B144A, 0x33C114D4, 0xBD4E1337, 0x71E413A9,
   0x7B211AB0, 0xB78B1A2E, 0x39041DCD, 0xF5AE1D53, 0x2C8E0FFF, 0xE0240F61, 0x6EAB0882, 0xA201081C, 0xA8C40105,
   0x646E019B, 0xEAE10678, 0x264B06E6]"

definition crc32_slice8 :: "u32 list list" where
  "crc32_slice8 = [crc32_slice8_0, crc32_slice8_1, crc32_slice8_2, crc32_slice8_3, crc32_slice8_4, crc32_slice8_5, crc32_slice8_6, crc32_slice8_7]"

text \<open>Its entries at the single bits.\<close>

lemma crc32_orbit: "orbit crc32_step 64 0xEDB88320 =
  [0xEDB88320, 0x76DC4190, 0x3B6E20C8, 0x1DB71064, 0xEDB8832, 0x76DC419, 0xEE0E612C, 0x77073096, 0x3B83984B,
   0xF0794F05, 0x958424A2, 0x4AC21251, 0xC8D98A08, 0x646CC504, 0x32366282, 0x191B3141, 0xE1351B80, 0x709A8DC0,
   0x384D46E0, 0x1C26A370, 0xE1351B8, 0x709A8DC, 0x384D46E, 0x1C26A37, 0xED59B63B, 0x9B14583D, 0xA032AF3E,
   0x5019579F, 0xC5B428EF, 0x8F629757, 0xAA09C88B, 0xB8BC6765, 0xB1E6B092, 0x58F35849, 0xC1C12F04, 0x60E09782,
   0x30704BC1, 0xF580A6C0, 0x7AC05360, 0x3D6029B0, 0x1EB014D8, 0xF580A6C, 0x7AC0536, 0x3D6029B, 0xEC53826D,
   0x9B914216, 0x4DC8A10B, 0xCB5CD3A5, 0x8816EAF2, 0x440B7579, 0xCFBD399C, 0x67DE9CCE, 0x33EF4E67, 0xF44F2413,
   0x979F1129, 0xA6770BB4, 0x533B85DA, 0x299DC2ED, 0xF9766256, 0x7CBB312B, 0xD3E51BB5, 0x844A0EFA, 0x4225077D,
   0xCCAA009E]"
  by (simp add: orbit_numeral crc32_step_def bit_32_and)

lemma crc32_row0: "crc32_slice8_0 = span
  [0xEDB88320, 0x76DC4190, 0x3B6E20C8, 0x1DB71064, 0xEDB8832, 0x76DC419, 0xEE0E612C, 0x77073096]"
  unfolding crc32_slice8_0_def by (simp add: span.simps)

lemma crc32_row1: "crc32_slice8_1 = span
  [0x3B83984B, 0xF0794F05, 0x958424A2, 0x4AC21251, 0xC8D98A08, 0x646CC504, 0x32366282, 0x191B3141]"
  unfolding crc32_slice8_1_def by (simp add: span.simps)

lemma crc32_row2: "crc32_slice8_2 = span
  [0xE1351B80, 0x709A8DC0, 0x384D46E0, 0x1C26A370, 0xE1351B8, 0x709A8DC, 0x384D46E, 0x1C26A37]"
  unfolding crc32_slice8_2_def by (simp add: span.simps)

lemma crc32_row3: "crc32_slice8_3 = span
  [0xED59B63B, 0x9B14583D, 0xA032AF3E, 0x5019579F, 0xC5B428EF, 0x8F629757, 0xAA09C88B, 0xB8BC6765]"
  unfolding crc32_slice8_3_def by (simp add: span.simps)

lemma crc32_row4: "crc32_slice8_4 = span
  [0xB1E6B092, 0x58F35849, 0xC1C12F04, 0x60E09782, 0x30704BC1, 0xF580A6C0, 0x7AC05360, 0x3D6029B0]"
  unfolding crc32_slice8_4_def by (simp add: span.simps)

lemma crc32_row5: "crc32_slice8_5 = span
  [0x1EB014D8, 0xF580A6C, 0x7AC0536, 0x3D6029B, 0xEC53826D, 0x9B914216, 0x4DC8A10B, 0xCB5CD3A5]"
  unfolding crc32_slice8_5_def by (simp add: span.simps)

lemma crc32_row6: "crc32_slice8_6 = span
  [0x8816EAF2, 0x440B7579, 0xCFBD399C, 0x67DE9CCE, 0x33EF4E67, 0xF44F2413, 0x979F1129, 0xA6770BB4]"
  unfolding crc32_slice8_6_def by (simp add: span.simps)

lemma crc32_row7: "crc32_slice8_7 = span
  [0x533B85DA, 0x299DC2ED, 0xF9766256, 0x7CBB312B, 0xD3E51BB5, 0x844A0EFA, 0x4225077D, 0xCCAA009E]"
  unfolding crc32_slice8_7_def by (simp add: span.simps)

section \<open>\<open>crc32_ogg_slice8\<close>\<close>

definition crc32_ogg_slice8_0 :: "u32 list" where
  "crc32_ogg_slice8_0 =
  [0x0, 0x4C11DB7, 0x9823B6E, 0xD4326D9, 0x130476DC, 0x17C56B6B, 0x1A864DB2, 0x1E475005, 0x2608EDB8, 0x22C9F00F,
   0x2F8AD6D6, 0x2B4BCB61, 0x350C9B64, 0x31CD86D3, 0x3C8EA00A, 0x384FBDBD, 0x4C11DB70, 0x48D0C6C7, 0x4593E01E,
   0x4152FDA9, 0x5F15ADAC, 0x5BD4B01B, 0x569796C2, 0x52568B75, 0x6A1936C8, 0x6ED82B7F, 0x639B0DA6, 0x675A1011,
   0x791D4014, 0x7DDC5DA3, 0x709F7B7A, 0x745E66CD, 0x9823B6E0, 0x9CE2AB57, 0x91A18D8E, 0x95609039, 0x8B27C03C,
   0x8FE6DD8B, 0x82A5FB52, 0x8664E6E5, 0xBE2B5B58, 0xBAEA46EF, 0xB7A96036, 0xB3687D81, 0xAD2F2D84, 0xA9EE3033,
   0xA4AD16EA, 0xA06C0B5D, 0xD4326D90, 0xD0F37027, 0xDDB056FE, 0xD9714B49, 0xC7361B4C, 0xC3F706FB, 0xCEB42022,
   0xCA753D95, 0xF23A8028, 0xF6FB9D9F, 0xFBB8BB46, 0xFF79A6F1, 0xE13EF6F4, 0xE5FFEB43, 0xE8BCCD9A, 0xEC7DD02D,
   0x34867077, 0x30476DC0, 0x3D044B19, 0x39C556AE, 0x278206AB, 0x23431B1C, 0x2E003DC5, 0x2AC12072, 0x128E9DCF,
   0x164F8078, 0x1B0CA6A1, 0x1FCDBB16, 0x18AEB13, 0x54BF6A4, 0x808D07D, 0xCC9CDCA, 0x7897AB07, 0x7C56B6B0,
   0x71159069, 0x75D48DDE, 0x6B93DDDB, 0x6F52C06C, 0x6211E6B5, 0x66D0FB02, 0x5E9F46BF, 0x5A5E5B08, 0x571D7DD1,
   0x53DC6066, 0x4D9B3063, 0x495A2DD4, 0x44190B0D, 0x40D816BA, 0xACA5C697, 0xA864DB20, 0xA527FDF9, 0xA1E6E04E,
   0xBFA1B04B, 0xBB60ADFC, 0xB6238B25, 0xB2E29692, 0x8AAD2B2F, 0x8E6C3698, 0x832F1041, 0x87EE0DF6, 0x99A95DF3,
   0x9D684044, 0x902B669D, 0x94EA7B2A, 0xE0B41DE7, 0xE4750050, 0xE9362689, 0xEDF73B3E, 0xF3B06B3B, 0xF771768C,
   0xFA325055, 0xFEF34DE2, 0xC6BCF05F, 0xC27DEDE8, 0xCF3ECB31, 0xCBFFD686, 0xD5B88683, 0xD1799B34, 0xDC3ABDED,
   0xD8FBA05A, 0x690CE0EE, 0x6DCDFD59, 0x608EDB80, 0x644FC637, 0x7A089632, 0x7EC98B85, 0x738AAD5C, 0x774BB0EB,
   0x4F040D56, 0x4BC510E1, 0x46863638, 0x42472B8F, 0x5C007B8A, 0x58C1663D, 0x558240E4, 0x51435D53, 0x251D3B9E,
   0x21DC2629, 0x2C9F00F0, 0x285E1D47, 0x36194D42, 0x32D850F5, 0x3F9B762C, 0x3B5A6B9B, 0x315D626, 0x7D4CB91,
   0xA97ED48, 0xE56F0FF, 0x1011A0FA, 0x14D0BD4D, 0x19939B94, 0x1D528623, 0xF12F560E, 0xF5EE4BB9, 0xF8AD6D60,
   0xFC6C70D7, 0xE22B20D2, 0xE6EA3D65, 0xEBA91BBC, 0xEF68060B, 0xD727BBB6, 0xD3E6A601, 0xDEA580D8, 0xDA649D6F,
   0xC423CD6A, 0xC0E2D0DD, 0xCDA1F604, 0xC960EBB3, 0xBD3E8D7E, 0xB9FF90C9, 0xB4BCB610, 0xB07DABA7, 0xAE3AFBA2,
   0xAAFBE615, 0xA7B8C0CC, 0xA379DD7B, 0x9B3660C6, 0x9FF77D71, 0x92B45BA8, 0x9675461F, 0x8832161A, 0x8CF30BAD,
   0x81B02D74, 0x857130C3, 0x5D8A9099, 0x594B8D2E, 0x5408ABF7, 0x50C9B640, 0x4E8EE645, 0x4A4FFBF2, 0x470CDD2B,
   0x43CDC09C, 0x7B827D21, 0x7F436096, 0x7200464F, 0x76C15BF8, 0x68860BFD, 0x6C47164A, 0x61043093, 0x65C52D24,
   0x119B4BE9, 0x155A565E, 0x18197087, 0x1CD86D30, 0x29F3D35, 0x65E2082, 0xB1D065B, 0xFDC1BEC, 0x3793A651,
   0x3352BBE6, 0x3E119D3F, 0x3AD08088, 0x2497D08D, 0x2056CD3A, 0x2D15EBE3, 0x29D4F654, 0xC5A92679, 0xC1683BCE,
   0xCC2B1D17, 0xC8EA00A0, 0xD6AD50A5, 0xD26C4D12, 0xDF2F6BCB, 0xDBEE767C, 0xE3A1CBC1, 0xE760D676, 0xEA23F0AF,
   0xEEE2ED18, 0xF0A5BD1D, 0xF464A0AA, 0xF9278673, 0xFDE69BC4, 0x89B8FD09, 0x8D79E0BE, 0x803AC667, 0x84FBDBD0,
   0x9ABC8BD5, 0x9E7D9662, 0x933EB0BB, 0x97FFAD0C, 0xAFB010B1, 0xAB710D06, 0xA6322BDF, 0xA2F33668, 0xBCB4666D,
   0xB8757BDA, 0xB5365D03, 0xB1F740B4]"

definition crc32_ogg_slice8_1 :: "u32 list" where
  "crc32_ogg_slice8_1 =
  [0x0, 0xD219C1DC, 0xA0F29E0F, 0x72EB5FD3, 0x452421A9, 0x973DE075, 0xE5D6BFA6, 0x37CF7E7A, 0x8A484352, 0x5851828E,
   0x2ABADD5D, 0xF8A31C81, 0xCF6C62FB, 0x1D75A327, 0x6F9EFCF4, 0xBD873D28, 0x10519B13, 0xC2485ACF, 0xB0A3051C,
   0x62BAC4C0, 0x5575BABA, 0x876C7B66, 0xF58724B5, 0x279EE569, 0x9A19D841, 0x4800199D, 0x3AEB464E, 0xE8F28792,
   0xDF3DF9E8, 0xD243834, 0x7FCF67E7, 0xADD6A63B, 0x20A33626, 0xF2BAF7FA, 0x8051A829, 0x524869F5, 0x6587178F,
   0xB79ED653, 0xC5758980, 0x176C485C, 0xAAEB7574, 0x78F2B4A8, 0xA19EB7B, 0xD8002AA7, 0xEFCF54DD, 0x3DD69501,
   0x4F3DCAD2, 0x9D240B0E, 0x30F2AD35, 0xE2EB6CE9, 0x9000333A, 0x4219F2E6, 0x75D68C9C, 0xA7CF4D40, 0xD5241293,
   0x73DD34F, 0xBABAEE67, 0x68A32FBB, 0x1A487068, 0xC851B1B4, 0xFF9ECFCE, 0x2D870E12, 0x5F6C51C1, 0x8D75901D,
   0x41466C4C, 0x935FAD90, 0xE1B4F243, 0x33AD339F, 0x4624DE5, 0xD67B8C39, 0xA490D3EA, 0x76891236, 0xCB0E2F1E,
   0x1917EEC2, 0x6BFCB111, 0xB9E570CD, 0x8E2A0EB7, 0x5C33CF6B, 0x2ED890B8, 0xFCC15164, 0x5117F75F, 0x830E3683,
   0xF1E56950, 0x23FCA88C, 0x1433D6F6, 0xC62A172A, 0xB4C148F9, 0x66D88925, 0xDB5FB40D, 0x94675D1, 0x7BAD2A02,
   0xA9B4EBDE, 0x9E7B95A4, 0x4C625478, 0x3E890BAB, 0xEC90CA77, 0x61E55A6A, 0xB3FC9BB6, 0xC117C465, 0x130E05B9,
   0x24C17BC3, 0xF6D8BA1F, 0x8433E5CC, 0x562A2410, 0xEBAD1938, 0x39B4D8E4, 0x4B5F8737, 0x994646EB, 0xAE893891,
   0x7C90F94D, 0xE7BA69E, 0xDC626742, 0x71B4C179, 0xA3AD00A5, 0xD1465F76, 0x35F9EAA, 0x3490E0D0, 0xE689210C,
   0x94627EDF, 0x467BBF03, 0xFBFC822B, 0x29E543F7, 0x5B0E1C24, 0x8917DDF8, 0xBED8A382, 0x6CC1625E, 0x1E2A3D8D,
   0xCC33FC51, 0x828CD898, 0x50951944, 0x227E4697, 0xF067874B, 0xC7A8F931, 0x15B138ED, 0x675A673E, 0xB543A6E2,
   0x8C49BCA, 0xDADD5A16, 0xA83605C5, 0x7A2FC419, 0x4DE0BA63, 0x9FF97BBF, 0xED12246C, 0x3F0BE5B0, 0x92DD438B,
   0x40C48257, 0x322FDD84, 0xE0361C58, 0xD7F96222, 0x5E0A3FE, 0x770BFC2D, 0xA5123DF1, 0x189500D9, 0xCA8CC105,
   0xB8679ED6, 0x6A7E5F0A, 0x5DB12170, 0x8FA8E0AC, 0xFD43BF7F, 0x2F5A7EA3, 0xA22FEEBE, 0x70362F62, 0x2DD70B1,
   0xD0C4B16D, 0xE70BCF17, 0x35120ECB, 0x47F95118, 0x95E090C4, 0x2867ADEC, 0xFA7E6C30, 0x889533E3, 0x5A8CF23F,
   0x6D438C45, 0xBF5A4D99, 0xCDB1124A, 0x1FA8D396, 0xB27E75AD, 0x6067B471, 0x128CEBA2, 0xC0952A7E, 0xF75A5404,
   0x254395D8, 0x57A8CA0B, 0x85B10BD7, 0x383636FF, 0xEA2FF723, 0x98C4A8F0, 0x4ADD692C, 0x7D121756, 0xAF0BD68A,
   0xDDE08959, 0xFF94885, 0xC3CAB4D4, 0x11D37508, 0x63382ADB, 0xB121EB07, 0x86EE957D, 0x54F754A1, 0x261C0B72,
   0xF405CAAE, 0x4982F786, 0x9B9B365A, 0xE9706989, 0x3B69A855, 0xCA6D62F, 0xDEBF17F3, 0xAC544820, 0x7E4D89FC,
   0xD39B2FC7, 0x182EE1B, 0x7369B1C8, 0xA1707014, 0x96BF0E6E, 0x44A6CFB2, 0x364D9061, 0xE45451BD, 0x59D36C95,
   0x8BCAAD49, 0xF921F29A, 0x2B383346, 0x1CF74D3C, 0xCEEE8CE0, 0xBC05D333, 0x6E1C12EF, 0xE36982F2, 0x3170432E,
   0x439B1CFD, 0x9182DD21, 0xA64DA35B, 0x74546287, 0x6BF3D54, 0xD4A6FC88, 0x6921C1A0, 0xBB38007C, 0xC9D35FAF,
   0x1BCA9E73, 0x2C05E009, 0xFE1C21D5, 0x8CF77E06, 0x5EEEBFDA, 0xF33819E1, 0x2121D83D, 0x53CA87EE, 0x81D34632,
   0xB61C3848, 0x6405F994, 0x16EEA647, 0xC4F7679B, 0x79705AB3, 0xAB699B6F, 0xD982C4BC, 0xB9B0560, 0x3C547B1A,
   0xEE4DBAC6, 0x9CA6E515, 0x4EBF24C9]"

definition crc32_ogg_slice8_2 :: "u32 list" where
  "crc32_ogg_slice8_2 =
  [0x0, 0x1D8AC87, 0x3B1590E, 0x269F589, 0x762B21C, 0x6BA1E9B, 0x4D3EB12, 0x50B4795, 0xEC56438, 0xF1DC8BF,
   0xD743D36, 0xCAC91B1, 0x9A7D624, 0x87F7AA3, 0xA168F2A, 0xBCE23AD, 0x1D8AC870, 0x1C5264F7, 0x1E3B917E,
   0x1FE33DF9, 0x1AE87A6C, 0x1B30D6EB, 0x19592362, 0x18818FE5, 0x134FAC48, 0x129700CF, 0x10FEF546, 0x112659C1,
   0x142D1E54, 0x15F5B2D3, 0x179C475A, 0x1644EBDD, 0x3B1590E0, 0x3ACD3C67, 0x38A4C9EE, 0x397C6569, 0x3C7722FC,
   0x3DAF8E7B, 0x3FC67BF2, 0x3E1ED775, 0x35D0F4D8, 0x3408585F, 0x3661ADD6, 0x37B90151, 0x32B246C4, 0x336AEA43,
   0x31031FCA, 0x30DBB34D, 0x269F5890, 0x2747F417, 0x252E019E, 0x24F6AD19, 0x21FDEA8C, 0x2025460B, 0x224CB382,
   0x23941F05, 0x285A3CA8, 0x2982902F, 0x2BEB65A6, 0x2A33C921, 0x2F388EB4, 0x2EE02233, 0x2C89D7BA, 0x2D517B3D,
   0x762B21C0, 0x77F38D47, 0x759A78CE, 0x7442D449, 0x714993DC, 0x70913F5B, 0x72F8CAD2, 0x73206655, 0x78EE45F8,
   0x7936E97F, 0x7B5F1CF6, 0x7A87B071, 0x7F8CF7E4, 0x7E545B63, 0x7C3DAEEA, 0x7DE5026D, 0x6BA1E9B0, 0x6A794537,
   0x6810B0BE, 0x69C81C39, 0x6CC35BAC, 0x6D1BF72B, 0x6F7202A2, 0x6EAAAE25, 0x65648D88, 0x64BC210F, 0x66D5D486,
   0x670D7801, 0x62063F94, 0x63DE9313, 0x61B7669A, 0x606FCA1D, 0x4D3EB120, 0x4CE61DA7, 0x4E8FE82E, 0x4F5744A9,
   0x4A5C033C, 0x4B84AFBB, 0x49ED5A32, 0x4835F6B5, 0x43FBD518, 0x4223799F, 0x404A8C16, 0x41922091, 0x44996704,
   0x4541CB83, 0x47283E0A, 0x46F0928D, 0x50B47950, 0x516CD5D7, 0x5305205E, 0x52DD8CD9, 0x57D6CB4C, 0x560E67CB,
   0x54679242, 0x55BF3EC5, 0x5E711D68, 0x5FA9B1EF, 0x5DC04466, 0x5C18E8E1, 0x5913AF74, 0x58CB03F3, 0x5AA2F67A,
   0x5B7A5AFD, 0xEC564380, 0xED8EEF07, 0xEFE71A8E, 0xEE3FB609, 0xEB34F19C, 0xEAEC5D1B, 0xE885A892, 0xE95D0415,
   0xE29327B8, 0xE34B8B3F, 0xE1227EB6, 0xE0FAD231, 0xE5F195A4, 0xE4293923, 0xE640CCAA, 0xE798602D, 0xF1DC8BF0,
   0xF0042777, 0xF26DD2FE, 0xF3B57E79, 0xF6BE39EC, 0xF766956B, 0xF50F60E2, 0xF4D7CC65, 0xFF19EFC8, 0xFEC1434F,
   0xFCA8B6C6, 0xFD701A41, 0xF87B5DD4, 0xF9A3F153, 0xFBCA04DA, 0xFA12A85D, 0xD743D360, 0xD69B7FE7, 0xD4F28A6E,
   0xD52A26E9, 0xD021617C, 0xD1F9CDFB, 0xD3903872, 0xD24894F5, 0xD986B758, 0xD85E1BDF, 0xDA37EE56, 0xDBEF42D1,
   0xDEE40544, 0xDF3CA9C3, 0xDD555C4A, 0xDC8DF0CD, 0xCAC91B10, 0xCB11B797, 0xC978421E, 0xC8A0EE99, 0xCDABA90C,
   0xCC73058B, 0xCE1AF002, 0xCFC25C85, 0xC40C7F28, 0xC5D4D3AF, 0xC7BD2626, 0xC6658AA1, 0xC36ECD34, 0xC2B661B3,
   0xC0DF943A, 0xC10738BD, 0x9A7D6240, 0x9BA5CEC7, 0x99CC3B4E, 0x981497C9, 0x9D1FD05C, 0x9CC77CDB, 0x9EAE8952,
   0x9F7625D5, 0x94B80678, 0x9560AAFF, 0x97095F76, 0x96D1F3F1, 0x93DAB464, 0x920218E3, 0x906BED6A, 0x91B341ED,
   0x87F7AA30, 0x862F06B7, 0x8446F33E, 0x859E5FB9, 0x8095182C, 0x814DB4AB, 0x83244122, 0x82FCEDA5, 0x8932CE08,
   0x88EA628F, 0x8A839706, 0x8B5B3B81, 0x8E507C14, 0x8F88D093, 0x8DE1251A, 0x8C39899D, 0xA168F2A0, 0xA0B05E27,
   0xA2D9ABAE, 0xA3010729, 0xA60A40BC, 0xA7D2EC3B, 0xA5BB19B2, 0xA463B535, 0xAFAD9698, 0xAE753A1F, 0xAC1CCF96,
   0xADC46311, 0xA8CF2484, 0xA9178803, 0xAB7E7D8A, 0xAAA6D10D, 0xBCE23AD0, 0xBD3A9657, 0xBF5363DE, 0xBE8BCF59,
   0xBB8088CC, 0xBA58244B, 0xB831D1C2, 0xB9E97D45, 0xB2275EE8, 0xB3FFF26F, 0xB19607E6, 0xB04EAB61, 0xB545ECF4,
   0xB49D4073, 0xB6F4B5FA, 0xB72C197D]"

definition crc32_ogg_slice8_3 :: "u32 list" where
  "crc32_ogg_slice8_3 =
  [0x0, 0xDC6D9AB7, 0xBC1A28D9, 0x6077B26E, 0x7CF54C05, 0xA098D6B2, 0xC0EF64DC, 0x1C82FE6B, 0xF9EA980A, 0x258702BD,
   0x45F0B0D3, 0x999D2A64, 0x851FD40F, 0x59724EB8, 0x3905FCD6, 0xE5686661, 0xF7142DA3, 0x2B79B714, 0x4B0E057A,
   0x97639FCD, 0x8BE161A6, 0x578CFB11, 0x37FB497F, 0xEB96D3C8, 0xEFEB5A9, 0xD2932F1E, 0xB2E49D70, 0x6E8907C7,
   0x720BF9AC, 0xAE66631B, 0xCE11D175, 0x127C4BC2, 0xEAE946F1, 0x3684DC46, 0x56F36E28, 0x8A9EF49F, 0x961C0AF4,
   0x4A719043, 0x2A06222D, 0xF66BB89A, 0x1303DEFB, 0xCF6E444C, 0xAF19F622, 0x73746C95, 0x6FF692FE, 0xB39B0849,
   0xD3ECBA27, 0xF812090, 0x1DFD6B52, 0xC190F1E5, 0xA1E7438B, 0x7D8AD93C, 0x61082757, 0xBD65BDE0, 0xDD120F8E,
   0x17F9539, 0xE417F358, 0x387A69EF, 0x580DDB81, 0x84604136, 0x98E2BF5D, 0x448F25EA, 0x24F89784, 0xF8950D33,
   0xD1139055, 0xD7E0AE2, 0x6D09B88C, 0xB164223B, 0xADE6DC50, 0x718B46E7, 0x11FCF489, 0xCD916E3E, 0x28F9085F,
   0xF49492E8, 0x94E32086, 0x488EBA31, 0x540C445A, 0x8861DEED, 0xE8166C83, 0x347BF634, 0x2607BDF6, 0xFA6A2741,
   0x9A1D952F, 0x46700F98, 0x5AF2F1F3, 0x869F6B44, 0xE6E8D92A, 0x3A85439D, 0xDFED25FC, 0x380BF4B, 0x63F70D25,
   0xBF9A9792, 0xA31869F9, 0x7F75F34E, 0x1F024120, 0xC36FDB97, 0x3BFAD6A4, 0xE7974C13, 0x87E0FE7D, 0x5B8D64CA,
   0x470F9AA1, 0x9B620016, 0xFB15B278, 0x277828CF, 0xC2104EAE, 0x1E7DD419, 0x7E0A6677, 0xA267FCC0, 0xBEE502AB,
   0x6288981C, 0x2FF2A72, 0xDE92B0C5, 0xCCEEFB07, 0x108361B0, 0x70F4D3DE, 0xAC994969, 0xB01BB702, 0x6C762DB5,
   0xC019FDB, 0xD06C056C, 0x3504630D, 0xE969F9BA, 0x891E4BD4, 0x5573D163, 0x49F12F08, 0x959CB5BF, 0xF5EB07D1,
   0x29869D66, 0xA6E63D1D, 0x7A8BA7AA, 0x1AFC15C4, 0xC6918F73, 0xDA137118, 0x67EEBAF, 0x660959C1, 0xBA64C376,
   0x5F0CA517, 0x83613FA0, 0xE3168DCE, 0x3F7B1779, 0x23F9E912, 0xFF9473A5, 0x9FE3C1CB, 0x438E5B7C, 0x51F210BE,
   0x8D9F8A09, 0xEDE83867, 0x3185A2D0, 0x2D075CBB, 0xF16AC60C, 0x911D7462, 0x4D70EED5, 0xA81888B4, 0x74751203,
   0x1402A06D, 0xC86F3ADA, 0xD4EDC4B1, 0x8805E06, 0x68F7EC68, 0xB49A76DF, 0x4C0F7BEC, 0x9062E15B, 0xF0155335,
   0x2C78C982, 0x30FA37E9, 0xEC97AD5E, 0x8CE01F30, 0x508D8587, 0xB5E5E3E6, 0x69887951, 0x9FFCB3F, 0xD5925188,
   0xC910AFE3, 0x157D3554, 0x750A873A, 0xA9671D8D, 0xBB1B564F, 0x6776CCF8, 0x7017E96, 0xDB6CE421, 0xC7EE1A4A,
   0x1B8380FD, 0x7BF43293, 0xA799A824, 0x42F1CE45, 0x9E9C54F2, 0xFEEBE69C, 0x22867C2B, 0x3E048240, 0xE26918F7,
   0x821EAA99, 0x5E73302E, 0x77F5AD48, 0xAB9837FF, 0xCBEF8591, 0x17821F26, 0xB00E14D, 0xD76D7BFA, 0xB71AC994,
   0x6B775323, 0x8E1F3542, 0x5272AFF5, 0x32051D9B, 0xEE68872C, 0xF2EA7947, 0x2E87E3F0, 0x4EF0519E, 0x929DCB29,
   0x80E180EB, 0x5C8C1A5C, 0x3CFBA832, 0xE0963285, 0xFC14CCEE, 0x20795659, 0x400EE437, 0x9C637E80, 0x790B18E1,
   0xA5668256, 0xC5113038, 0x197CAA8F, 0x5FE54E4, 0xD993CE53, 0xB9E47C3D, 0x6589E68A, 0x9D1CEBB9, 0x4171710E,
   0x2106C360, 0xFD6B59D7, 0xE1E9A7BC, 0x3D843D0B, 0x5DF38F65, 0x819E15D2, 0x64F673B3, 0xB89BE904, 0xD8EC5B6A,
   0x481C1DD, 0x18033FB6, 0xC46EA501, 0xA419176F, 0x78748DD8, 0x6A08C61A, 0xB6655CAD, 0xD612EEC3, 0xA7F7474,
   0x16FD8A1F, 0xCA9010A8, 0xAAE7A2C6, 0x768A3871, 0x93E25E10, 0x4F8FC4A7, 0x2FF876C9, 0xF395EC7E, 0xEF171215,
   0x337A88A2, 0x530D3ACC, 0x8F60A07B]"

definition crc32_ogg_slice8_4 :: "u32 list" where
  "crc32_ogg_slice8_4 =
  [0x0, 0x490D678D, 0x921ACF1A, 0xDB17A897, 0x20F48383, 0x69F9E40E, 0xB2EE4C99, 0xFBE32B14, 0x41E90706, 0x8E4608B,
   0xD3F3C81C, 0x9AFEAF91, 0x611D8485, 0x2810E308, 0xF3074B9F, 0xBA0A2C12, 0x83D20E0C, 0xCADF6981, 0x11C8C116,
   0x58C5A69B, 0xA3268D8F, 0xEA2BEA02, 0x313C4295, 0x78312518, 0xC23B090A, 0x8B366E87, 0x5021C610, 0x192CA19D,
   0xE2CF8A89, 0xABC2ED04, 0x70D54593, 0x39D8221E, 0x36501AF, 0x4A686622, 0x917FCEB5, 0xD872A938, 0x2391822C,
   0x6A9CE5A1, 0xB18B4D36, 0xF8862ABB, 0x428C06A9, 0xB816124, 0xD096C9B3, 0x999BAE3E, 0x6278852A, 0x2B75E2A7,
   0xF0624A30, 0xB96F2DBD, 0x80B70FA3, 0xC9BA682E, 0x12ADC0B9, 0x5BA0A734, 0xA0438C20, 0xE94EEBAD, 0x3259433A,
   0x7B5424B7, 0xC15E08A5, 0x88536F28, 0x5344C7BF, 0x1A49A032, 0xE1AA8B26, 0xA8A7ECAB, 0x73B0443C, 0x3ABD23B1,
   0x6CA035E, 0x4FC764D3, 0x94D0CC44, 0xDDDDABC9, 0x263E80DD, 0x6F33E750, 0xB4244FC7, 0xFD29284A, 0x47230458,
   0xE2E63D5, 0xD539CB42, 0x9C34ACCF, 0x67D787DB, 0x2EDAE056, 0xF5CD48C1, 0xBCC02F4C, 0x85180D52, 0xCC156ADF,
   0x1702C248, 0x5E0FA5C5, 0xA5EC8ED1, 0xECE1E95C, 0x37F641CB, 0x7EFB2646, 0xC4F10A54, 0x8DFC6DD9, 0x56EBC54E,
   0x1FE6A2C3, 0xE40589D7, 0xAD08EE5A, 0x761F46CD, 0x3F122140, 0x5AF02F1, 0x4CA2657C, 0x97B5CDEB, 0xDEB8AA66,
   0x255B8172, 0x6C56E6FF, 0xB7414E68, 0xFE4C29E5, 0x444605F7, 0xD4B627A, 0xD65CCAED, 0x9F51AD60, 0x64B28674,
   0x2DBFE1F9, 0xF6A8496E, 0xBFA52EE3, 0x867D0CFD, 0xCF706B70, 0x1467C3E7, 0x5D6AA46A, 0xA6898F7E, 0xEF84E8F3,
   0x34934064, 0x7D9E27E9, 0xC7940BFB, 0x8E996C76, 0x558EC4E1, 0x1C83A36C, 0xE7608878, 0xAE6DEFF5, 0x757A4762,
   0x3C7720EF, 0xD9406BC, 0x44996131, 0x9F8EC9A6, 0xD683AE2B, 0x2D60853F, 0x646DE2B2, 0xBF7A4A25, 0xF6772DA8,
   0x4C7D01BA, 0x5706637, 0xDE67CEA0, 0x976AA92D, 0x6C898239, 0x2584E5B4, 0xFE934D23, 0xB79E2AAE, 0x8E4608B0,
   0xC74B6F3D, 0x1C5CC7AA, 0x5551A027, 0xAEB28B33, 0xE7BFECBE, 0x3CA84429, 0x75A523A4, 0xCFAF0FB6, 0x86A2683B,
   0x5DB5C0AC, 0x14B8A721, 0xEF5B8C35, 0xA656EBB8, 0x7D41432F, 0x344C24A2, 0xEF10713, 0x47FC609E, 0x9CEBC809,
   0xD5E6AF84, 0x2E058490, 0x6708E31D, 0xBC1F4B8A, 0xF5122C07, 0x4F180015, 0x6156798, 0xDD02CF0F, 0x940FA882,
   0x6FEC8396, 0x26E1E41B, 0xFDF64C8C, 0xB4FB2B01, 0x8D23091F, 0xC42E6E92, 0x1F39C605, 0x5634A188, 0xADD78A9C,
   0xE4DAED11, 0x3FCD4586, 0x76C0220B, 0xCCCA0E19, 0x85C76994, 0x5ED0C103, 0x17DDA68E, 0xEC3E8D9A, 0xA533EA17,
   0x7E244280, 0x3729250D, 0xB5E05E2, 0x4253626F, 0x9944CAF8, 0xD049AD75, 0x2BAA8661, 0x62A7E1EC, 0xB9B0497B,
   0xF0BD2EF6, 0x4AB702E4, 0x3BA6569, 0xD8ADCDFE, 0x91A0AA73, 0x6A438167, 0x234EE6EA, 0xF8594E7D, 0xB15429F0,
   0x888C0BEE, 0xC1816C63, 0x1A96C4F4, 0x539BA379, 0xA878886D, 0xE175EFE0, 0x3A624777, 0x736F20FA, 0xC9650CE8,
   0x80686B65, 0x5B7FC3F2, 0x1272A47F, 0xE9918F6B, 0xA09CE8E6, 0x7B8B4071, 0x328627FC, 0x83B044D, 0x413663C0,
   0x9A21CB57, 0xD32CACDA, 0x28CF87CE, 0x61C2E043, 0xBAD548D4, 0xF3D82F59, 0x49D2034B, 0xDF64C6, 0xDBC8CC51,
   0x92C5ABDC, 0x692680C8, 0x202BE745, 0xFB3C4FD2, 0xB231285F, 0x8BE90A41, 0xC2E46DCC, 0x19F3C55B, 0x50FEA2D6,
   0xAB1D89C2, 0xE210EE4F, 0x390746D8, 0x700A2155, 0xCA000D47, 0x830D6ACA, 0x581AC25D, 0x1117A5D0, 0xEAF48EC4,
   0xA3F9E949, 0x78EE41DE, 0x31E32653]"

definition crc32_ogg_slice8_5 :: "u32 list" where
  "crc32_ogg_slice8_5 =
  [0x0, 0x1B280D78, 0x36501AF0, 0x2D781788, 0x6CA035E0, 0x77883898, 0x5AF02F10, 0x41D82268, 0xD9406BC0, 0xC26866B8,
   0xEF107130, 0xF4387C48, 0xB5E05E20, 0xAEC85358, 0x83B044D0, 0x989849A8, 0xB641CA37, 0xAD69C74F, 0x8011D0C7,
   0x9B39DDBF, 0xDAE1FFD7, 0xC1C9F2AF, 0xECB1E527, 0xF799E85F, 0x6F01A1F7, 0x7429AC8F, 0x5951BB07, 0x4279B67F,
   0x3A19417, 0x1889996F, 0x35F18EE7, 0x2ED9839F, 0x684289D9, 0x736A84A1, 0x5E129329, 0x453A9E51, 0x4E2BC39,
   0x1FCAB141, 0x32B2A6C9, 0x299AABB1, 0xB102E219, 0xAA2AEF61, 0x8752F8E9, 0x9C7AF591, 0xDDA2D7F9, 0xC68ADA81,
   0xEBF2CD09, 0xF0DAC071, 0xDE0343EE, 0xC52B4E96, 0xE853591E, 0xF37B5466, 0xB2A3760E, 0xA98B7B76, 0x84F36CFE,
   0x9FDB6186, 0x743282E, 0x1C6B2556, 0x311332DE, 0x2A3B3FA6, 0x6BE31DCE, 0x70CB10B6, 0x5DB3073E, 0x469B0A46,
   0xD08513B2, 0xCBAD1ECA, 0xE6D50942, 0xFDFD043A, 0xBC252652, 0xA70D2B2A, 0x8A753CA2, 0x915D31DA, 0x9C57872,
   0x12ED750A, 0x3F956282, 0x24BD6FFA, 0x65654D92, 0x7E4D40EA, 0x53355762, 0x481D5A1A, 0x66C4D985, 0x7DECD4FD,
   0x5094C375, 0x4BBCCE0D, 0xA64EC65, 0x114CE11D, 0x3C34F695, 0x271CFBED, 0xBF84B245, 0xA4ACBF3D, 0x89D4A8B5,
   0x92FCA5CD, 0xD32487A5, 0xC80C8ADD, 0xE5749D55, 0xFE5C902D, 0xB8C79A6B, 0xA3EF9713, 0x8E97809B, 0x95BF8DE3,
   0xD467AF8B, 0xCF4FA2F3, 0xE237B57B, 0xF91FB803, 0x6187F1AB, 0x7AAFFCD3, 0x57D7EB5B, 0x4CFFE623, 0xD27C44B,
   0x160FC933, 0x3B77DEBB, 0x205FD3C3, 0xE86505C, 0x15AE5D24, 0x38D64AAC, 0x23FE47D4, 0x622665BC, 0x790E68C4,
   0x54767F4C, 0x4F5E7234, 0xD7C63B9C, 0xCCEE36E4, 0xE196216C, 0xFABE2C14, 0xBB660E7C, 0xA04E0304, 0x8D36148C,
   0x961E19F4, 0xA5CB3AD3, 0xBEE337AB, 0x939B2023, 0x88B32D5B, 0xC96B0F33, 0xD243024B, 0xFF3B15C3, 0xE41318BB,
   0x7C8B5113, 0x67A35C6B, 0x4ADB4BE3, 0x51F3469B, 0x102B64F3, 0xB03698B, 0x267B7E03, 0x3D53737B, 0x138AF0E4,
   0x8A2FD9C, 0x25DAEA14, 0x3EF2E76C, 0x7F2AC504, 0x6402C87C, 0x497ADFF4, 0x5252D28C, 0xCACA9B24, 0xD1E2965C,
   0xFC9A81D4, 0xE7B28CAC, 0xA66AAEC4, 0xBD42A3BC, 0x903AB434, 0x8B12B94C, 0xCD89B30A, 0xD6A1BE72, 0xFBD9A9FA,
   0xE0F1A482, 0xA12986EA, 0xBA018B92, 0x97799C1A, 0x8C519162, 0x14C9D8CA, 0xFE1D5B2, 0x2299C23A, 0x39B1CF42,
   0x7869ED2A, 0x6341E052, 0x4E39F7DA, 0x5511FAA2, 0x7BC8793D, 0x60E07445, 0x4D9863CD, 0x56B06EB5, 0x17684CDD,
   0xC4041A5, 0x2138562D, 0x3A105B55, 0xA28812FD, 0xB9A01F85, 0x94D8080D, 0x8FF00575, 0xCE28271D, 0xD5002A65,
   0xF8783DED, 0xE3503095, 0x754E2961, 0x6E662419, 0x431E3391, 0x58363EE9, 0x19EE1C81, 0x2C611F9, 0x2FBE0671,
   0x34960B09, 0xAC0E42A1, 0xB7264FD9, 0x9A5E5851, 0x81765529, 0xC0AE7741, 0xDB867A39, 0xF6FE6DB1, 0xEDD660C9,
   0xC30FE356, 0xD827EE2E, 0xF55FF9A6, 0xEE77F4DE, 0xAFAFD6B6, 0xB487DBCE, 0x99FFCC46, 0x82D7C13E, 0x1A4F8896,
   0x16785EE, 0x2C1F9266, 0x37379F1E, 0x76EFBD76, 0x6DC7B00E, 0x40BFA786, 0x5B97AAFE, 0x1D0CA0B8, 0x624ADC0,
   0x2B5CBA48, 0x3074B730, 0x71AC9558, 0x6A849820, 0x47FC8FA8, 0x5CD482D0, 0xC44CCB78, 0xDF64C600, 0xF21CD188,
   0xE934DCF0, 0xA8ECFE98, 0xB3C4F3E0, 0x9EBCE468, 0x8594E910, 0xAB4D6A8F, 0xB06567F7, 0x9D1D707F, 0x86357D07,
   0xC7ED5F6F, 0xDCC55217, 0xF1BD459F, 0xEA9548E7, 0x720D014F, 0x69250C37, 0x445D1BBF, 0x5F7516C7, 0x1EAD34AF,
   0x58539D7, 0x28FD2E5F, 0x33D52327]"

definition crc32_ogg_slice8_6 :: "u32 list" where
  "crc32_ogg_slice8_6 =
  [0x0, 0x4F576811, 0x9EAED022, 0xD1F9B833, 0x399CBDF3, 0x76CBD5E2, 0xA7326DD1, 0xE86505C0, 0x73397BE6, 0x3C6E13F7,
   0xED97ABC4, 0xA2C0C3D5, 0x4AA5C615, 0x5F2AE04, 0xD40B1637, 0x9B5C7E26, 0xE672F7CC, 0xA9259FDD, 0x78DC27EE,
   0x378B4FFF, 0xDFEE4A3F, 0x90B9222E, 0x41409A1D, 0xE17F20C, 0x954B8C2A, 0xDA1CE43B, 0xBE55C08, 0x44B23419,
   0xACD731D9, 0xE38059C8, 0x3279E1FB, 0x7D2E89EA, 0xC824F22F, 0x87739A3E, 0x568A220D, 0x19DD4A1C, 0xF1B84FDC,
   0xBEEF27CD, 0x6F169FFE, 0x2041F7EF, 0xBB1D89C9, 0xF44AE1D8, 0x25B359EB, 0x6AE431FA, 0x8281343A, 0xCDD65C2B,
   0x1C2FE418, 0x53788C09, 0x2E5605E3, 0x61016DF2, 0xB0F8D5C1, 0xFFAFBDD0, 0x17CAB810, 0x589DD001, 0x89646832,
   0xC6330023, 0x5D6F7E05, 0x12381614, 0xC3C1AE27, 0x8C96C636, 0x64F3C3F6, 0x2BA4ABE7, 0xFA5D13D4, 0xB50A7BC5,
   0x9488F9E9, 0xDBDF91F8, 0xA2629CB, 0x457141DA, 0xAD14441A, 0xE2432C0B, 0x33BA9438, 0x7CEDFC29, 0xE7B1820F,
   0xA8E6EA1E, 0x791F522D, 0x36483A3C, 0xDE2D3FFC, 0x917A57ED, 0x4083EFDE, 0xFD487CF, 0x72FA0E25, 0x3DAD6634,
   0xEC54DE07, 0xA303B616, 0x4B66B3D6, 0x431DBC7, 0xD5C863F4, 0x9A9F0BE5, 0x1C375C3, 0x4E941DD2, 0x9F6DA5E1,
   0xD03ACDF0, 0x385FC830, 0x7708A021, 0xA6F11812, 0xE9A67003, 0x5CAC0BC6, 0x13FB63D7, 0xC202DBE4, 0x8D55B3F5,
   0x6530B635, 0x2A67DE24, 0xFB9E6617, 0xB4C90E06, 0x2F957020, 0x60C21831, 0xB13BA002, 0xFE6CC813, 0x1609CDD3,
   0x595EA5C2, 0x88A71DF1, 0xC7F075E0, 0xBADEFC0A, 0xF589941B, 0x24702C28, 0x6B274439, 0x834241F9, 0xCC1529E8,
   0x1DEC91DB, 0x52BBF9CA, 0xC9E787EC, 0x86B0EFFD, 0x574957CE, 0x181E3FDF, 0xF07B3A1F, 0xBF2C520E, 0x6ED5EA3D,
   0x2182822C, 0x2DD0EE65, 0x62878674, 0xB37E3E47, 0xFC295656, 0x144C5396, 0x5B1B3B87, 0x8AE283B4, 0xC5B5EBA5,
   0x5EE99583, 0x11BEFD92, 0xC04745A1, 0x8F102DB0, 0x67752870, 0x28224061, 0xF9DBF852, 0xB68C9043, 0xCBA219A9,
   0x84F571B8, 0x550CC98B, 0x1A5BA19A, 0xF23EA45A, 0xBD69CC4B, 0x6C907478, 0x23C71C69, 0xB89B624F, 0xF7CC0A5E,
   0x2635B26D, 0x6962DA7C, 0x8107DFBC, 0xCE50B7AD, 0x1FA90F9E, 0x50FE678F, 0xE5F41C4A, 0xAAA3745B, 0x7B5ACC68,
   0x340DA479, 0xDC68A1B9, 0x933FC9A8, 0x42C6719B, 0xD91198A, 0x96CD67AC, 0xD99A0FBD, 0x863B78E, 0x4734DF9F,
   0xAF51DA5F, 0xE006B24E, 0x31FF0A7D, 0x7EA8626C, 0x386EB86, 0x4CD18397, 0x9D283BA4, 0xD27F53B5, 0x3A1A5675,
   0x754D3E64, 0xA4B48657, 0xEBE3EE46, 0x70BF9060, 0x3FE8F871, 0xEE114042, 0xA1462853, 0x49232D93, 0x6744582,
   0xD78DFDB1, 0x98DA95A0, 0xB958178C, 0xF60F7F9D, 0x27F6C7AE, 0x68A1AFBF, 0x80C4AA7F, 0xCF93C26E, 0x1E6A7A5D,
   0x513D124C, 0xCA616C6A, 0x8536047B, 0x54CFBC48, 0x1B98D459, 0xF3FDD199, 0xBCAAB988, 0x6D5301BB, 0x220469AA,
   0x5F2AE040, 0x107D8851, 0xC1843062, 0x8ED35873, 0x66B65DB3, 0x29E135A2, 0xF8188D91, 0xB74FE580, 0x2C139BA6,
   0x6344F3B7, 0xB2BD4B84, 0xFDEA2395, 0x158F2655, 0x5AD84E44, 0x8B21F677, 0xC4769E66, 0x717CE5A3, 0x3E2B8DB2,
   0xEFD23581, 0xA0855D90, 0x48E05850, 0x7B73041, 0xD64E8872, 0x9919E063, 0x2459E45, 0x4D12F654, 0x9CEB4E67,
   0xD3BC2676, 0x3BD923B6, 0x748E4BA7, 0xA577F394, 0xEA209B85, 0x970E126F, 0xD8597A7E, 0x9A0C24D, 0x46F7AA5C,
   0xAE92AF9C, 0xE1C5C78D, 0x303C7FBE, 0x7F6B17AF, 0xE4376989, 0xAB600198, 0x7A99B9AB, 0x35CED1BA, 0xDDABD47A,
   0x92FCBC6B, 0x43050458, 0xC526C49]"

definition crc32_ogg_slice8_7 :: "u32 list" where
  "crc32_ogg_slice8_7 =
  [0x0, 0x5BA1DCCA, 0xB743B994, 0xECE2655E, 0x6A466E9F, 0x31E7B255, 0xDD05D70B, 0x86A40BC1, 0xD48CDD3E, 0x8F2D01F4,
   0x63CF64AA, 0x386EB860, 0xBECAB3A1, 0xE56B6F6B, 0x9890A35, 0x5228D6FF, 0xADD8A7CB, 0xF6797B01, 0x1A9B1E5F,
   0x413AC295, 0xC79EC954, 0x9C3F159E, 0x70DD70C0, 0x2B7CAC0A, 0x79547AF5, 0x22F5A63F, 0xCE17C361, 0x95B61FAB,
   0x1312146A, 0x48B3C8A0, 0xA451ADFE, 0xFFF07134, 0x5F705221, 0x4D18EEB, 0xE833EBB5, 0xB392377F, 0x35363CBE,
   0x6E97E074, 0x8275852A, 0xD9D459E0, 0x8BFC8F1F, 0xD05D53D5, 0x3CBF368B, 0x671EEA41, 0xE1BAE180, 0xBA1B3D4A,
   0x56F95814, 0xD5884DE, 0xF2A8F5EA, 0xA9092920, 0x45EB4C7E, 0x1E4A90B4, 0x98EE9B75, 0xC34F47BF, 0x2FAD22E1,
   0x740CFE2B, 0x262428D4, 0x7D85F41E, 0x91679140, 0xCAC64D8A, 0x4C62464B, 0x17C39A81, 0xFB21FFDF, 0xA0802315,
   0xBEE0A442, 0xE5417888, 0x9A31DD6, 0x5202C11C, 0xD4A6CADD, 0x8F071617, 0x63E57349, 0x3844AF83, 0x6A6C797C,
   0x31CDA5B6, 0xDD2FC0E8, 0x868E1C22, 0x2A17E3, 0x5B8BCB29, 0xB769AE77, 0xECC872BD, 0x13380389, 0x4899DF43,
   0xA47BBA1D, 0xFFDA66D7, 0x797E6D16, 0x22DFB1DC, 0xCE3DD482, 0x959C0848, 0xC7B4DEB7, 0x9C15027D, 0x70F76723,
   0x2B56BBE9, 0xADF2B028, 0xF6536CE2, 0x1AB109BC, 0x4110D576, 0xE190F663, 0xBA312AA9, 0x56D34FF7, 0xD72933D,
   0x8BD698FC, 0xD0774436, 0x3C952168, 0x6734FDA2, 0x351C2B5D, 0x6EBDF797, 0x825F92C9, 0xD9FE4E03, 0x5F5A45C2,
   0x4FB9908, 0xE819FC56, 0xB3B8209C, 0x4C4851A8, 0x17E98D62, 0xFB0BE83C, 0xA0AA34F6, 0x260E3F37, 0x7DAFE3FD,
   0x914D86A3, 0xCAEC5A69, 0x98C48C96, 0xC365505C, 0x2F873502, 0x7426E9C8, 0xF282E209, 0xA9233EC3, 0x45C15B9D,
   0x1E608757, 0x79005533, 0x22A189F9, 0xCE43ECA7, 0x95E2306D, 0x13463BAC, 0x48E7E766, 0xA4058238, 0xFFA45EF2,
   0xAD8C880D, 0xF62D54C7, 0x1ACF3199, 0x416EED53, 0xC7CAE692, 0x9C6B3A58, 0x70895F06, 0x2B2883CC, 0xD4D8F2F8,
   0x8F792E32, 0x639B4B6C, 0x383A97A6, 0xBE9E9C67, 0xE53F40AD, 0x9DD25F3, 0x527CF939, 0x542FC6, 0x5BF5F30C,
   0xB7179652, 0xECB64A98, 0x6A124159, 0x31B39D93, 0xDD51F8CD, 0x86F02407, 0x26700712, 0x7DD1DBD8, 0x9133BE86,
   0xCA92624C, 0x4C36698D, 0x1797B547, 0xFB75D019, 0xA0D40CD3, 0xF2FCDA2C, 0xA95D06E6, 0x45BF63B8, 0x1E1EBF72,
   0x98BAB4B3, 0xC31B6879, 0x2FF90D27, 0x7458D1ED, 0x8BA8A0D9, 0xD0097C13, 0x3CEB194D, 0x674AC587, 0xE1EECE46,
   0xBA4F128C, 0x56AD77D2, 0xD0CAB18, 0x5F247DE7, 0x485A12D, 0xE867C473, 0xB3C618B9, 0x35621378, 0x6EC3CFB2,
   0x8221AAEC, 0xD9807626, 0xC7E0F171, 0x9C412DBB, 0x70A348E5, 0x2B02942F, 0xADA69FEE, 0xF6074324, 0x1AE5267A,
   0x4144FAB0, 0x136C2C4F, 0x48CDF085, 0xA42F95DB, 0xFF8E4911, 0x792A42D0, 0x228B9E1A, 0xCE69FB44, 0x95C8278E,
   0x6A3856BA, 0x31998A70, 0xDD7BEF2E, 0x86DA33E4, 0x7E3825, 0x5BDFE4EF, 0xB73D81B1, 0xEC9C5D7B, 0xBEB48B84,
   0xE515574E, 0x9F73210, 0x5256EEDA, 0xD4F2E51B, 0x8F5339D1, 0x63B15C8F, 0x38108045, 0x9890A350, 0xC3317F9A,
   0x2FD31AC4, 0x7472C60E, 0xF2D6CDCF, 0xA9771105, 0x4595745B, 0x1E34A891, 0x4C1C7E6E, 0x17BDA2A4, 0xFB5FC7FA,
   0xA0FE1B30, 0x265A10F1, 0x7DFBCC3B, 0x9119A965, 0xCAB875AF, 0x3548049B, 0x6EE9D851, 0x820BBD0F, 0xD9AA61C5,
   0x5F0E6A04, 0x4AFB6CE, 0xE84DD390, 0xB3EC0F5A, 0xE1C4D9A5, 0xBA65056F, 0x56876031, 0xD26BCFB, 0x8B82B73A,
   0xD0236BF0, 0x3CC10EAE, 0x6760D264]"

definition crc32_ogg_slice8 :: "u32 list list" where
  "crc32_ogg_slice8 = [crc32_ogg_slice8_0, crc32_ogg_slice8_1, crc32_ogg_slice8_2, crc32_ogg_slice8_3, crc32_ogg_slice8_4, crc32_ogg_slice8_5, crc32_ogg_slice8_6, crc32_ogg_slice8_7]"

text \<open>Its entries at the single bits.\<close>

lemma ogg_orbit: "orbit crc32_ogg_step 64 0x4C11DB7 =
  [0x4C11DB7, 0x9823B6E, 0x130476DC, 0x2608EDB8, 0x4C11DB70, 0x9823B6E0, 0x34867077, 0x690CE0EE, 0xD219C1DC,
   0xA0F29E0F, 0x452421A9, 0x8A484352, 0x10519B13, 0x20A33626, 0x41466C4C, 0x828CD898, 0x1D8AC87, 0x3B1590E,
   0x762B21C, 0xEC56438, 0x1D8AC870, 0x3B1590E0, 0x762B21C0, 0xEC564380, 0xDC6D9AB7, 0xBC1A28D9, 0x7CF54C05,
   0xF9EA980A, 0xF7142DA3, 0xEAE946F1, 0xD1139055, 0xA6E63D1D, 0x490D678D, 0x921ACF1A, 0x20F48383, 0x41E90706,
   0x83D20E0C, 0x36501AF, 0x6CA035E, 0xD9406BC, 0x1B280D78, 0x36501AF0, 0x6CA035E0, 0xD9406BC0, 0xB641CA37,
   0x684289D9, 0xD08513B2, 0xA5CB3AD3, 0x4F576811, 0x9EAED022, 0x399CBDF3, 0x73397BE6, 0xE672F7CC, 0xC824F22F,
   0x9488F9E9, 0x2DD0EE65, 0x5BA1DCCA, 0xB743B994, 0x6A466E9F, 0xD48CDD3E, 0xADD8A7CB, 0x5F705221, 0xBEE0A442,
   0x79005533]"
  by (simp add: orbit_numeral crc32_ogg_step_def bit_32_and)

lemma ogg_row0: "crc32_ogg_slice8_0 = span
  [0x690CE0EE, 0x34867077, 0x9823B6E0, 0x4C11DB70, 0x2608EDB8, 0x130476DC, 0x9823B6E, 0x4C11DB7]"
  unfolding crc32_ogg_slice8_0_def by (simp add: span.simps)

lemma ogg_row1: "crc32_ogg_slice8_1 = span
  [0x828CD898, 0x41466C4C, 0x20A33626, 0x10519B13, 0x8A484352, 0x452421A9, 0xA0F29E0F, 0xD219C1DC]"
  unfolding crc32_ogg_slice8_1_def by (simp add: span.simps)

lemma ogg_row2: "crc32_ogg_slice8_2 = span
  [0xEC564380, 0x762B21C0, 0x3B1590E0, 0x1D8AC870, 0xEC56438, 0x762B21C, 0x3B1590E, 0x1D8AC87]"
  unfolding crc32_ogg_slice8_2_def by (simp add: span.simps)

lemma ogg_row3: "crc32_ogg_slice8_3 = span
  [0xA6E63D1D, 0xD1139055, 0xEAE946F1, 0xF7142DA3, 0xF9EA980A, 0x7CF54C05, 0xBC1A28D9, 0xDC6D9AB7]"
  unfolding crc32_ogg_slice8_3_def by (simp add: span.simps)

lemma ogg_row4: "crc32_ogg_slice8_4 = span
  [0xD9406BC, 0x6CA035E, 0x36501AF, 0x83D20E0C, 0x41E90706, 0x20F48383, 0x921ACF1A, 0x490D678D]"
  unfolding crc32_ogg_slice8_4_def by (simp add: span.simps)

lemma ogg_row5: "crc32_ogg_slice8_5 = span
  [0xA5CB3AD3, 0xD08513B2, 0x684289D9, 0xB641CA37, 0xD9406BC0, 0x6CA035E0, 0x36501AF0, 0x1B280D78]"
  unfolding crc32_ogg_slice8_5_def by (simp add: span.simps)

lemma ogg_row6: "crc32_ogg_slice8_6 = span
  [0x2DD0EE65, 0x9488F9E9, 0xC824F22F, 0xE672F7CC, 0x73397BE6, 0x399CBDF3, 0x9EAED022, 0x4F576811]"
  unfolding crc32_ogg_slice8_6_def by (simp add: span.simps)

lemma ogg_row7: "crc32_ogg_slice8_7 = span
  [0x79005533, 0xBEE0A442, 0x5F705221, 0xADD8A7CB, 0xD48CDD3E, 0x6A466E9F, 0xB743B994, 0x5BA1DCCA]"
  unfolding crc32_ogg_slice8_7_def by (simp add: span.simps)

section \<open>\<open>crc16_ccitt_slice8\<close>\<close>

definition crc16_ccitt_slice8_0 :: "16 word list" where
  "crc16_ccitt_slice8_0 =
  [0x0, 0x1021, 0x2042, 0x3063, 0x4084, 0x50A5, 0x60C6, 0x70E7, 0x8108, 0x9129, 0xA14A, 0xB16B, 0xC18C, 0xD1AD,
   0xE1CE, 0xF1EF, 0x1231, 0x210, 0x3273, 0x2252, 0x52B5, 0x4294, 0x72F7, 0x62D6, 0x9339, 0x8318, 0xB37B, 0xA35A,
   0xD3BD, 0xC39C, 0xF3FF, 0xE3DE, 0x2462, 0x3443, 0x420, 0x1401, 0x64E6, 0x74C7, 0x44A4, 0x5485, 0xA56A, 0xB54B,
   0x8528, 0x9509, 0xE5EE, 0xF5CF, 0xC5AC, 0xD58D, 0x3653, 0x2672, 0x1611, 0x630, 0x76D7, 0x66F6, 0x5695, 0x46B4,
   0xB75B, 0xA77A, 0x9719, 0x8738, 0xF7DF, 0xE7FE, 0xD79D, 0xC7BC, 0x48C4, 0x58E5, 0x6886, 0x78A7, 0x840, 0x1861,
   0x2802, 0x3823, 0xC9CC, 0xD9ED, 0xE98E, 0xF9AF, 0x8948, 0x9969, 0xA90A, 0xB92B, 0x5AF5, 0x4AD4, 0x7AB7, 0x6A96,
   0x1A71, 0xA50, 0x3A33, 0x2A12, 0xDBFD, 0xCBDC, 0xFBBF, 0xEB9E, 0x9B79, 0x8B58, 0xBB3B, 0xAB1A, 0x6CA6, 0x7C87,
   0x4CE4, 0x5CC5, 0x2C22, 0x3C03, 0xC60, 0x1C41, 0xEDAE, 0xFD8F, 0xCDEC, 0xDDCD, 0xAD2A, 0xBD0B, 0x8D68, 0x9D49,
   0x7E97, 0x6EB6, 0x5ED5, 0x4EF4, 0x3E13, 0x2E32, 0x1E51, 0xE70, 0xFF9F, 0xEFBE, 0xDFDD, 0xCFFC, 0xBF1B, 0xAF3A,
   0x9F59, 0x8F78, 0x9188, 0x81A9, 0xB1CA, 0xA1EB, 0xD10C, 0xC12D, 0xF14E, 0xE16F, 0x1080, 0xA1, 0x30C2, 0x20E3,
   0x5004, 0x4025, 0x7046, 0x6067, 0x83B9, 0x9398, 0xA3FB, 0xB3DA, 0xC33D, 0xD31C, 0xE37F, 0xF35E, 0x2B1, 0x1290,
   0x22F3, 0x32D2, 0x4235, 0x5214, 0x6277, 0x7256, 0xB5EA, 0xA5CB, 0x95A8, 0x8589, 0xF56E, 0xE54F, 0xD52C, 0xC50D,
   0x34E2, 0x24C3, 0x14A0, 0x481, 0x7466, 0x6447, 0x5424, 0x4405, 0xA7DB, 0xB7FA, 0x8799, 0x97B8, 0xE75F, 0xF77E,
   0xC71D, 0xD73C, 0x26D3, 0x36F2, 0x691, 0x16B0, 0x6657, 0x7676, 0x4615, 0x5634, 0xD94C, 0xC96D, 0xF90E, 0xE92F,
   0x99C8, 0x89E9, 0xB98A, 0xA9AB, 0x5844, 0x4865, 0x7806, 0x6827, 0x18C0, 0x8E1, 0x3882, 0x28A3, 0xCB7D, 0xDB5C,
   0xEB3F, 0xFB1E, 0x8BF9, 0x9BD8, 0xABBB, 0xBB9A, 0x4A75, 0x5A54, 0x6A37, 0x7A16, 0xAF1, 0x1AD0, 0x2AB3, 0x3A92,
   0xFD2E, 0xED0F, 0xDD6C, 0xCD4D, 0xBDAA, 0xAD8B, 0x9DE8, 0x8DC9, 0x7C26, 0x6C07, 0x5C64, 0x4C45, 0x3CA2, 0x2C83,
   0x1CE0, 0xCC1, 0xEF1F, 0xFF3E, 0xCF5D, 0xDF7C, 0xAF9B, 0xBFBA, 0x8FD9, 0x9FF8, 0x6E17, 0x7E36, 0x4E55, 0x5E74,
   0x2E93, 0x3EB2, 0xED1, 0x1EF0]"

definition crc16_ccitt_slice8_1 :: "16 word list" where
  "crc16_ccitt_slice8_1 =
  [0x0, 0x3331, 0x6662, 0x5553, 0xCCC4, 0xFFF5, 0xAAA6, 0x9997, 0x89A9, 0xBA98, 0xEFCB, 0xDCFA, 0x456D, 0x765C,
   0x230F, 0x103E, 0x373, 0x3042, 0x6511, 0x5620, 0xCFB7, 0xFC86, 0xA9D5, 0x9AE4, 0x8ADA, 0xB9EB, 0xECB8, 0xDF89,
   0x461E, 0x752F, 0x207C, 0x134D, 0x6E6, 0x35D7, 0x6084, 0x53B5, 0xCA22, 0xF913, 0xAC40, 0x9F71, 0x8F4F, 0xBC7E,
   0xE92D, 0xDA1C, 0x438B, 0x70BA, 0x25E9, 0x16D8, 0x595, 0x36A4, 0x63F7, 0x50C6, 0xC951, 0xFA60, 0xAF33, 0x9C02,
   0x8C3C, 0xBF0D, 0xEA5E, 0xD96F, 0x40F8, 0x73C9, 0x269A, 0x15AB, 0xDCC, 0x3EFD, 0x6BAE, 0x589F, 0xC108, 0xF239,
   0xA76A, 0x945B, 0x8465, 0xB754, 0xE207, 0xD136, 0x48A1, 0x7B90, 0x2EC3, 0x1DF2, 0xEBF, 0x3D8E, 0x68DD, 0x5BEC,
   0xC27B, 0xF14A, 0xA419, 0x9728, 0x8716, 0xB427, 0xE174, 0xD245, 0x4BD2, 0x78E3, 0x2DB0, 0x1E81, 0xB2A, 0x381B,
   0x6D48, 0x5E79, 0xC7EE, 0xF4DF, 0xA18C, 0x92BD, 0x8283, 0xB1B2, 0xE4E1, 0xD7D0, 0x4E47, 0x7D76, 0x2825, 0x1B14,
   0x859, 0x3B68, 0x6E3B, 0x5D0A, 0xC49D, 0xF7AC, 0xA2FF, 0x91CE, 0x81F0, 0xB2C1, 0xE792, 0xD4A3, 0x4D34, 0x7E05,
   0x2B56, 0x1867, 0x1B98, 0x28A9, 0x7DFA, 0x4ECB, 0xD75C, 0xE46D, 0xB13E, 0x820F, 0x9231, 0xA100, 0xF453, 0xC762,
   0x5EF5, 0x6DC4, 0x3897, 0xBA6, 0x18EB, 0x2BDA, 0x7E89, 0x4DB8, 0xD42F, 0xE71E, 0xB24D, 0x817C, 0x9142, 0xA273,
   0xF720, 0xC411, 0x5D86, 0x6EB7, 0x3BE4, 0x8D5, 0x1D7E, 0x2E4F, 0x7B1C, 0x482D, 0xD1BA, 0xE28B, 0xB7D8, 0x84E9,
   0x94D7, 0xA7E6, 0xF2B5, 0xC184, 0x5813, 0x6B22, 0x3E71, 0xD40, 0x1E0D, 0x2D3C, 0x786F, 0x4B5E, 0xD2C9, 0xE1F8,
   0xB4AB, 0x879A, 0x97A4, 0xA495, 0xF1C6, 0xC2F7, 0x5B60, 0x6851, 0x3D02, 0xE33, 0x1654, 0x2565, 0x7036, 0x4307,
   0xDA90, 0xE9A1, 0xBCF2, 0x8FC3, 0x9FFD, 0xACCC, 0xF99F, 0xCAAE, 0x5339, 0x6008, 0x355B, 0x66A, 0x1527, 0x2616,
   0x7345, 0x4074, 0xD9E3, 0xEAD2, 0xBF81, 0x8CB0, 0x9C8E, 0xAFBF, 0xFAEC, 0xC9DD, 0x504A, 0x637B, 0x3628, 0x519,
   0x10B2, 0x2383, 0x76D0, 0x45E1, 0xDC76, 0xEF47, 0xBA14, 0x8925, 0x991B, 0xAA2A, 0xFF79, 0xCC48, 0x55DF, 0x66EE,
   0x33BD, 0x8C, 0x13C1, 0x20F0, 0x75A3, 0x4692, 0xDF05, 0xEC34, 0xB967, 0x8A56, 0x9A68, 0xA959, 0xFC0A, 0xCF3B,
   0x56AC, 0x659D, 0x30CE, 0x3FF]"

definition crc16_ccitt_slice8_2 :: "16 word list" where
  "crc16_ccitt_slice8_2 =
  [0x0, 0x3730, 0x6E60, 0x5950, 0xDCC0, 0xEBF0, 0xB2A0, 0x8590, 0xA9A1, 0x9E91, 0xC7C1, 0xF0F1, 0x7561, 0x4251,
   0x1B01, 0x2C31, 0x4363, 0x7453, 0x2D03, 0x1A33, 0x9FA3, 0xA893, 0xF1C3, 0xC6F3, 0xEAC2, 0xDDF2, 0x84A2, 0xB392,
   0x3602, 0x132, 0x5862, 0x6F52, 0x86C6, 0xB1F6, 0xE8A6, 0xDF96, 0x5A06, 0x6D36, 0x3466, 0x356, 0x2F67, 0x1857,
   0x4107, 0x7637, 0xF3A7, 0xC497, 0x9DC7, 0xAAF7, 0xC5A5, 0xF295, 0xABC5, 0x9CF5, 0x1965, 0x2E55, 0x7705, 0x4035,
   0x6C04, 0x5B34, 0x264, 0x3554, 0xB0C4, 0x87F4, 0xDEA4, 0xE994, 0x1DAD, 0x2A9D, 0x73CD, 0x44FD, 0xC16D, 0xF65D,
   0xAF0D, 0x983D, 0xB40C, 0x833C, 0xDA6C, 0xED5C, 0x68CC, 0x5FFC, 0x6AC, 0x319C, 0x5ECE, 0x69FE, 0x30AE, 0x79E,
   0x820E, 0xB53E, 0xEC6E, 0xDB5E, 0xF76F, 0xC05F, 0x990F, 0xAE3F, 0x2BAF, 0x1C9F, 0x45CF, 0x72FF, 0x9B6B, 0xAC5B,
   0xF50B, 0xC23B, 0x47AB, 0x709B, 0x29CB, 0x1EFB, 0x32CA, 0x5FA, 0x5CAA, 0x6B9A, 0xEE0A, 0xD93A, 0x806A, 0xB75A,
   0xD808, 0xEF38, 0xB668, 0x8158, 0x4C8, 0x33F8, 0x6AA8, 0x5D98, 0x71A9, 0x4699, 0x1FC9, 0x28F9, 0xAD69, 0x9A59,
   0xC309, 0xF439, 0x3B5A, 0xC6A, 0x553A, 0x620A, 0xE79A, 0xD0AA, 0x89FA, 0xBECA, 0x92FB, 0xA5CB, 0xFC9B, 0xCBAB,
   0x4E3B, 0x790B, 0x205B, 0x176B, 0x7839, 0x4F09, 0x1659, 0x2169, 0xA4F9, 0x93C9, 0xCA99, 0xFDA9, 0xD198, 0xE6A8,
   0xBFF8, 0x88C8, 0xD58, 0x3A68, 0x6338, 0x5408, 0xBD9C, 0x8AAC, 0xD3FC, 0xE4CC, 0x615C, 0x566C, 0xF3C, 0x380C,
   0x143D, 0x230D, 0x7A5D, 0x4D6D, 0xC8FD, 0xFFCD, 0xA69D, 0x91AD, 0xFEFF, 0xC9CF, 0x909F, 0xA7AF, 0x223F, 0x150F,
   0x4C5F, 0x7B6F, 0x575E, 0x606E, 0x393E, 0xE0E, 0x8B9E, 0xBCAE, 0xE5FE, 0xD2CE, 0x26F7, 0x11C7, 0x4897, 0x7FA7,
   0xFA37, 0xCD07, 0x9457, 0xA367, 0x8F56, 0xB866, 0xE136, 0xD606, 0x5396, 0x64A6, 0x3DF6, 0xAC6, 0x6594, 0x52A4,
   0xBF4, 0x3CC4, 0xB954, 0x8E64, 0xD734, 0xE004, 0xCC35, 0xFB05, 0xA255, 0x9565, 0x10F5, 0x27C5, 0x7E95, 0x49A5,
   0xA031, 0x9701, 0xCE51, 0xF961, 0x7CF1, 0x4BC1, 0x1291, 0x25A1, 0x990, 0x3EA0, 0x67F0, 0x50C0, 0xD550, 0xE260,
   0xBB30, 0x8C00, 0xE352, 0xD462, 0x8D32, 0xBA02, 0x3F92, 0x8A2, 0x51F2, 0x66C2, 0x4AF3, 0x7DC3, 0x2493, 0x13A3,
   0x9633, 0xA103, 0xF853, 0xCF63]"

definition crc16_ccitt_slice8_3 :: "16 word list" where
  "crc16_ccitt_slice8_3 =
  [0x0, 0x76B4, 0xED68, 0x9BDC, 0xCAF1, 0xBC45, 0x2799, 0x512D, 0x85C3, 0xF377, 0x68AB, 0x1E1F, 0x4F32, 0x3986,
   0xA25A, 0xD4EE, 0x1BA7, 0x6D13, 0xF6CF, 0x807B, 0xD156, 0xA7E2, 0x3C3E, 0x4A8A, 0x9E64, 0xE8D0, 0x730C, 0x5B8,
   0x5495, 0x2221, 0xB9FD, 0xCF49, 0x374E, 0x41FA, 0xDA26, 0xAC92, 0xFDBF, 0x8B0B, 0x10D7, 0x6663, 0xB28D, 0xC439,
   0x5FE5, 0x2951, 0x787C, 0xEC8, 0x9514, 0xE3A0, 0x2CE9, 0x5A5D, 0xC181, 0xB735, 0xE618, 0x90AC, 0xB70, 0x7DC4,
   0xA92A, 0xDF9E, 0x4442, 0x32F6, 0x63DB, 0x156F, 0x8EB3, 0xF807, 0x6E9C, 0x1828, 0x83F4, 0xF540, 0xA46D, 0xD2D9,
   0x4905, 0x3FB1, 0xEB5F, 0x9DEB, 0x637, 0x7083, 0x21AE, 0x571A, 0xCCC6, 0xBA72, 0x753B, 0x38F, 0x9853, 0xEEE7,
   0xBFCA, 0xC97E, 0x52A2, 0x2416, 0xF0F8, 0x864C, 0x1D90, 0x6B24, 0x3A09, 0x4CBD, 0xD761, 0xA1D5, 0x59D2, 0x2F66,
   0xB4BA, 0xC20E, 0x9323, 0xE597, 0x7E4B, 0x8FF, 0xDC11, 0xAAA5, 0x3179, 0x47CD, 0x16E0, 0x6054, 0xFB88, 0x8D3C,
   0x4275, 0x34C1, 0xAF1D, 0xD9A9, 0x8884, 0xFE30, 0x65EC, 0x1358, 0xC7B6, 0xB102, 0x2ADE, 0x5C6A, 0xD47, 0x7BF3,
   0xE02F, 0x969B, 0xDD38, 0xAB8C, 0x3050, 0x46E4, 0x17C9, 0x617D, 0xFAA1, 0x8C15, 0x58FB, 0x2E4F, 0xB593, 0xC327,
   0x920A, 0xE4BE, 0x7F62, 0x9D6, 0xC69F, 0xB02B, 0x2BF7, 0x5D43, 0xC6E, 0x7ADA, 0xE106, 0x97B2, 0x435C, 0x35E8,
   0xAE34, 0xD880, 0x89AD, 0xFF19, 0x64C5, 0x1271, 0xEA76, 0x9CC2, 0x71E, 0x71AA, 0x2087, 0x5633, 0xCDEF, 0xBB5B,
   0x6FB5, 0x1901, 0x82DD, 0xF469, 0xA544, 0xD3F0, 0x482C, 0x3E98, 0xF1D1, 0x8765, 0x1CB9, 0x6A0D, 0x3B20, 0x4D94,
   0xD648, 0xA0FC, 0x7412, 0x2A6, 0x997A, 0xEFCE, 0xBEE3, 0xC857, 0x538B, 0x253F, 0xB3A4, 0xC510, 0x5ECC, 0x2878,
   0x7955, 0xFE1, 0x943D, 0xE289, 0x3667, 0x40D3, 0xDB0F, 0xADBB, 0xFC96, 0x8A22, 0x11FE, 0x674A, 0xA803, 0xDEB7,
   0x456B, 0x33DF, 0x62F2, 0x1446, 0x8F9A, 0xF92E, 0x2DC0, 0x5B74, 0xC0A8, 0xB61C, 0xE731, 0x9185, 0xA59, 0x7CED,
   0x84EA, 0xF25E, 0x6982, 0x1F36, 0x4E1B, 0x38AF, 0xA373, 0xD5C7, 0x129, 0x779D, 0xEC41, 0x9AF5, 0xCBD8, 0xBD6C,
   0x26B0, 0x5004, 0x9F4D, 0xE9F9, 0x7225, 0x491, 0x55BC, 0x2308, 0xB8D4, 0xCE60, 0x1A8E, 0x6C3A, 0xF7E6, 0x8152,
   0xD07F, 0xA6CB, 0x3D17, 0x4BA3]"

definition crc16_ccitt_slice8_4 :: "16 word list" where
  "crc16_ccitt_slice8_4 =
  [0x0, 0xAA51, 0x4483, 0xEED2, 0x8906, 0x2357, 0xCD85, 0x67D4, 0x22D, 0xA87C, 0x46AE, 0xECFF, 0x8B2B, 0x217A,
   0xCFA8, 0x65F9, 0x45A, 0xAE0B, 0x40D9, 0xEA88, 0x8D5C, 0x270D, 0xC9DF, 0x638E, 0x677, 0xAC26, 0x42F4, 0xE8A5,
   0x8F71, 0x2520, 0xCBF2, 0x61A3, 0x8B4, 0xA2E5, 0x4C37, 0xE666, 0x81B2, 0x2BE3, 0xC531, 0x6F60, 0xA99, 0xA0C8,
   0x4E1A, 0xE44B, 0x839F, 0x29CE, 0xC71C, 0x6D4D, 0xCEE, 0xA6BF, 0x486D, 0xE23C, 0x85E8, 0x2FB9, 0xC16B, 0x6B3A,
   0xEC3, 0xA492, 0x4A40, 0xE011, 0x87C5, 0x2D94, 0xC346, 0x6917, 0x1168, 0xBB39, 0x55EB, 0xFFBA, 0x986E, 0x323F,
   0xDCED, 0x76BC, 0x1345, 0xB914, 0x57C6, 0xFD97, 0x9A43, 0x3012, 0xDEC0, 0x7491, 0x1532, 0xBF63, 0x51B1, 0xFBE0,
   0x9C34, 0x3665, 0xD8B7, 0x72E6, 0x171F, 0xBD4E, 0x539C, 0xF9CD, 0x9E19, 0x3448, 0xDA9A, 0x70CB, 0x19DC, 0xB38D,
   0x5D5F, 0xF70E, 0x90DA, 0x3A8B, 0xD459, 0x7E08, 0x1BF1, 0xB1A0, 0x5F72, 0xF523, 0x92F7, 0x38A6, 0xD674, 0x7C25,
   0x1D86, 0xB7D7, 0x5905, 0xF354, 0x9480, 0x3ED1, 0xD003, 0x7A52, 0x1FAB, 0xB5FA, 0x5B28, 0xF179, 0x96AD, 0x3CFC,
   0xD22E, 0x787F, 0x22D0, 0x8881, 0x6653, 0xCC02, 0xABD6, 0x187, 0xEF55, 0x4504, 0x20FD, 0x8AAC, 0x647E, 0xCE2F,
   0xA9FB, 0x3AA, 0xED78, 0x4729, 0x268A, 0x8CDB, 0x6209, 0xC858, 0xAF8C, 0x5DD, 0xEB0F, 0x415E, 0x24A7, 0x8EF6,
   0x6024, 0xCA75, 0xADA1, 0x7F0, 0xE922, 0x4373, 0x2A64, 0x8035, 0x6EE7, 0xC4B6, 0xA362, 0x933, 0xE7E1, 0x4DB0,
   0x2849, 0x8218, 0x6CCA, 0xC69B, 0xA14F, 0xB1E, 0xE5CC, 0x4F9D, 0x2E3E, 0x846F, 0x6ABD, 0xC0EC, 0xA738, 0xD69,
   0xE3BB, 0x49EA, 0x2C13, 0x8642, 0x6890, 0xC2C1, 0xA515, 0xF44, 0xE196, 0x4BC7, 0x33B8, 0x99E9, 0x773B, 0xDD6A,
   0xBABE, 0x10EF, 0xFE3D, 0x546C, 0x3195, 0x9BC4, 0x7516, 0xDF47, 0xB893, 0x12C2, 0xFC10, 0x5641, 0x37E2, 0x9DB3,
   0x7361, 0xD930, 0xBEE4, 0x14B5, 0xFA67, 0x5036, 0x35CF, 0x9F9E, 0x714C, 0xDB1D, 0xBCC9, 0x1698, 0xF84A, 0x521B,
   0x3B0C, 0x915D, 0x7F8F, 0xD5DE, 0xB20A, 0x185B, 0xF689, 0x5CD8, 0x3921, 0x9370, 0x7DA2, 0xD7F3, 0xB027, 0x1A76,
   0xF4A4, 0x5EF5, 0x3F56, 0x9507, 0x7BD5, 0xD184, 0xB650, 0x1C01, 0xF2D3, 0x5882, 0x3D7B, 0x972A, 0x79F8, 0xD3A9,
   0xB47D, 0x1E2C, 0xF0FE, 0x5AAF]"

definition crc16_ccitt_slice8_5 :: "16 word list" where
  "crc16_ccitt_slice8_5 =
  [0x0, 0x45A0, 0x8B40, 0xCEE0, 0x6A1, 0x4301, 0x8DE1, 0xC841, 0xD42, 0x48E2, 0x8602, 0xC3A2, 0xBE3, 0x4E43,
   0x80A3, 0xC503, 0x1A84, 0x5F24, 0x91C4, 0xD464, 0x1C25, 0x5985, 0x9765, 0xD2C5, 0x17C6, 0x5266, 0x9C86, 0xD926,
   0x1167, 0x54C7, 0x9A27, 0xDF87, 0x3508, 0x70A8, 0xBE48, 0xFBE8, 0x33A9, 0x7609, 0xB8E9, 0xFD49, 0x384A, 0x7DEA,
   0xB30A, 0xF6AA, 0x3EEB, 0x7B4B, 0xB5AB, 0xF00B, 0x2F8C, 0x6A2C, 0xA4CC, 0xE16C, 0x292D, 0x6C8D, 0xA26D, 0xE7CD,
   0x22CE, 0x676E, 0xA98E, 0xEC2E, 0x246F, 0x61CF, 0xAF2F, 0xEA8F, 0x6A10, 0x2FB0, 0xE150, 0xA4F0, 0x6CB1, 0x2911,
   0xE7F1, 0xA251, 0x6752, 0x22F2, 0xEC12, 0xA9B2, 0x61F3, 0x2453, 0xEAB3, 0xAF13, 0x7094, 0x3534, 0xFBD4, 0xBE74,
   0x7635, 0x3395, 0xFD75, 0xB8D5, 0x7DD6, 0x3876, 0xF696, 0xB336, 0x7B77, 0x3ED7, 0xF037, 0xB597, 0x5F18, 0x1AB8,
   0xD458, 0x91F8, 0x59B9, 0x1C19, 0xD2F9, 0x9759, 0x525A, 0x17FA, 0xD91A, 0x9CBA, 0x54FB, 0x115B, 0xDFBB, 0x9A1B,
   0x459C, 0x3C, 0xCEDC, 0x8B7C, 0x433D, 0x69D, 0xC87D, 0x8DDD, 0x48DE, 0xD7E, 0xC39E, 0x863E, 0x4E7F, 0xBDF,
   0xC53F, 0x809F, 0xD420, 0x9180, 0x5F60, 0x1AC0, 0xD281, 0x9721, 0x59C1, 0x1C61, 0xD962, 0x9CC2, 0x5222, 0x1782,
   0xDFC3, 0x9A63, 0x5483, 0x1123, 0xCEA4, 0x8B04, 0x45E4, 0x44, 0xC805, 0x8DA5, 0x4345, 0x6E5, 0xC3E6, 0x8646,
   0x48A6, 0xD06, 0xC547, 0x80E7, 0x4E07, 0xBA7, 0xE128, 0xA488, 0x6A68, 0x2FC8, 0xE789, 0xA229, 0x6CC9, 0x2969,
   0xEC6A, 0xA9CA, 0x672A, 0x228A, 0xEACB, 0xAF6B, 0x618B, 0x242B, 0xFBAC, 0xBE0C, 0x70EC, 0x354C, 0xFD0D, 0xB8AD,
   0x764D, 0x33ED, 0xF6EE, 0xB34E, 0x7DAE, 0x380E, 0xF04F, 0xB5EF, 0x7B0F, 0x3EAF, 0xBE30, 0xFB90, 0x3570, 0x70D0,
   0xB891, 0xFD31, 0x33D1, 0x7671, 0xB372, 0xF6D2, 0x3832, 0x7D92, 0xB5D3, 0xF073, 0x3E93, 0x7B33, 0xA4B4, 0xE114,
   0x2FF4, 0x6A54, 0xA215, 0xE7B5, 0x2955, 0x6CF5, 0xA9F6, 0xEC56, 0x22B6, 0x6716, 0xAF57, 0xEAF7, 0x2417, 0x61B7,
   0x8B38, 0xCE98, 0x78, 0x45D8, 0x8D99, 0xC839, 0x6D9, 0x4379, 0x867A, 0xC3DA, 0xD3A, 0x489A, 0x80DB, 0xC57B,
   0xB9B, 0x4E3B, 0x91BC, 0xD41C, 0x1AFC, 0x5F5C, 0x971D, 0xD2BD, 0x1C5D, 0x59FD, 0x9CFE, 0xD95E, 0x17BE, 0x521E,
   0x9A5F, 0xDFFF, 0x111F, 0x54BF]"

definition crc16_ccitt_slice8_6 :: "16 word list" where
  "crc16_ccitt_slice8_6 =
  [0x0, 0xB861, 0x60E3, 0xD882, 0xC1C6, 0x79A7, 0xA125, 0x1944, 0x93AD, 0x2BCC, 0xF34E, 0x4B2F, 0x526B, 0xEA0A,
   0x3288, 0x8AE9, 0x377B, 0x8F1A, 0x5798, 0xEFF9, 0xF6BD, 0x4EDC, 0x965E, 0x2E3F, 0xA4D6, 0x1CB7, 0xC435, 0x7C54,
   0x6510, 0xDD71, 0x5F3, 0xBD92, 0x6EF6, 0xD697, 0xE15, 0xB674, 0xAF30, 0x1751, 0xCFD3, 0x77B2, 0xFD5B, 0x453A,
   0x9DB8, 0x25D9, 0x3C9D, 0x84FC, 0x5C7E, 0xE41F, 0x598D, 0xE1EC, 0x396E, 0x810F, 0x984B, 0x202A, 0xF8A8, 0x40C9,
   0xCA20, 0x7241, 0xAAC3, 0x12A2, 0xBE6, 0xB387, 0x6B05, 0xD364, 0xDDEC, 0x658D, 0xBD0F, 0x56E, 0x1C2A, 0xA44B,
   0x7CC9, 0xC4A8, 0x4E41, 0xF620, 0x2EA2, 0x96C3, 0x8F87, 0x37E6, 0xEF64, 0x5705, 0xEA97, 0x52F6, 0x8A74, 0x3215,
   0x2B51, 0x9330, 0x4BB2, 0xF3D3, 0x793A, 0xC15B, 0x19D9, 0xA1B8, 0xB8FC, 0x9D, 0xD81F, 0x607E, 0xB31A, 0xB7B,
   0xD3F9, 0x6B98, 0x72DC, 0xCABD, 0x123F, 0xAA5E, 0x20B7, 0x98D6, 0x4054, 0xF835, 0xE171, 0x5910, 0x8192, 0x39F3,
   0x8461, 0x3C00, 0xE482, 0x5CE3, 0x45A7, 0xFDC6, 0x2544, 0x9D25, 0x17CC, 0xAFAD, 0x772F, 0xCF4E, 0xD60A, 0x6E6B,
   0xB6E9, 0xE88, 0xABF9, 0x1398, 0xCB1A, 0x737B, 0x6A3F, 0xD25E, 0xADC, 0xB2BD, 0x3854, 0x8035, 0x58B7, 0xE0D6,
   0xF992, 0x41F3, 0x9971, 0x2110, 0x9C82, 0x24E3, 0xFC61, 0x4400, 0x5D44, 0xE525, 0x3DA7, 0x85C6, 0xF2F, 0xB74E,
   0x6FCC, 0xD7AD, 0xCEE9, 0x7688, 0xAE0A, 0x166B, 0xC50F, 0x7D6E, 0xA5EC, 0x1D8D, 0x4C9, 0xBCA8, 0x642A, 0xDC4B,
   0x56A2, 0xEEC3, 0x3641, 0x8E20, 0x9764, 0x2F05, 0xF787, 0x4FE6, 0xF274, 0x4A15, 0x9297, 0x2AF6, 0x33B2, 0x8BD3,
   0x5351, 0xEB30, 0x61D9, 0xD9B8, 0x13A, 0xB95B, 0xA01F, 0x187E, 0xC0FC, 0x789D, 0x7615, 0xCE74, 0x16F6, 0xAE97,
   0xB7D3, 0xFB2, 0xD730, 0x6F51, 0xE5B8, 0x5DD9, 0x855B, 0x3D3A, 0x247E, 0x9C1F, 0x449D, 0xFCFC, 0x416E, 0xF90F,
   0x218D, 0x99EC, 0x80A8, 0x38C9, 0xE04B, 0x582A, 0xD2C3, 0x6AA2, 0xB220, 0xA41, 0x1305, 0xAB64, 0x73E6, 0xCB87,
   0x18E3, 0xA082, 0x7800, 0xC061, 0xD925, 0x6144, 0xB9C6, 0x1A7, 0x8B4E, 0x332F, 0xEBAD, 0x53CC, 0x4A88, 0xF2E9,
   0x2A6B, 0x920A, 0x2F98, 0x97F9, 0x4F7B, 0xF71A, 0xEE5E, 0x563F, 0x8EBD, 0x36DC, 0xBC35, 0x454, 0xDCD6, 0x64B7,
   0x7DF3, 0xC592, 0x1D10, 0xA571]"

definition crc16_ccitt_slice8_7 :: "16 word list" where
  "crc16_ccitt_slice8_7 =
  [0x0, 0x47D3, 0x8FA6, 0xC875, 0xF6D, 0x48BE, 0x80CB, 0xC718, 0x1EDA, 0x5909, 0x917C, 0xD6AF, 0x11B7, 0x5664,
   0x9E11, 0xD9C2, 0x3DB4, 0x7A67, 0xB212, 0xF5C1, 0x32D9, 0x750A, 0xBD7F, 0xFAAC, 0x236E, 0x64BD, 0xACC8, 0xEB1B,
   0x2C03, 0x6BD0, 0xA3A5, 0xE476, 0x7B68, 0x3CBB, 0xF4CE, 0xB31D, 0x7405, 0x33D6, 0xFBA3, 0xBC70, 0x65B2, 0x2261,
   0xEA14, 0xADC7, 0x6ADF, 0x2D0C, 0xE579, 0xA2AA, 0x46DC, 0x10F, 0xC97A, 0x8EA9, 0x49B1, 0xE62, 0xC617, 0x81C4,
   0x5806, 0x1FD5, 0xD7A0, 0x9073, 0x576B, 0x10B8, 0xD8CD, 0x9F1E, 0xF6D0, 0xB103, 0x7976, 0x3EA5, 0xF9BD, 0xBE6E,
   0x761B, 0x31C8, 0xE80A, 0xAFD9, 0x67AC, 0x207F, 0xE767, 0xA0B4, 0x68C1, 0x2F12, 0xCB64, 0x8CB7, 0x44C2, 0x311,
   0xC409, 0x83DA, 0x4BAF, 0xC7C, 0xD5BE, 0x926D, 0x5A18, 0x1DCB, 0xDAD3, 0x9D00, 0x5575, 0x12A6, 0x8DB8, 0xCA6B,
   0x21E, 0x45CD, 0x82D5, 0xC506, 0xD73, 0x4AA0, 0x9362, 0xD4B1, 0x1CC4, 0x5B17, 0x9C0F, 0xDBDC, 0x13A9, 0x547A,
   0xB00C, 0xF7DF, 0x3FAA, 0x7879, 0xBF61, 0xF8B2, 0x30C7, 0x7714, 0xAED6, 0xE905, 0x2170, 0x66A3, 0xA1BB, 0xE668,
   0x2E1D, 0x69CE, 0xFD81, 0xBA52, 0x7227, 0x35F4, 0xF2EC, 0xB53F, 0x7D4A, 0x3A99, 0xE35B, 0xA488, 0x6CFD, 0x2B2E,
   0xEC36, 0xABE5, 0x6390, 0x2443, 0xC035, 0x87E6, 0x4F93, 0x840, 0xCF58, 0x888B, 0x40FE, 0x72D, 0xDEEF, 0x993C,
   0x5149, 0x169A, 0xD182, 0x9651, 0x5E24, 0x19F7, 0x86E9, 0xC13A, 0x94F, 0x4E9C, 0x8984, 0xCE57, 0x622, 0x41F1,
   0x9833, 0xDFE0, 0x1795, 0x5046, 0x975E, 0xD08D, 0x18F8, 0x5F2B, 0xBB5D, 0xFC8E, 0x34FB, 0x7328, 0xB430, 0xF3E3,
   0x3B96, 0x7C45, 0xA587, 0xE254, 0x2A21, 0x6DF2, 0xAAEA, 0xED39, 0x254C, 0x629F, 0xB51, 0x4C82, 0x84F7, 0xC324,
   0x43C, 0x43EF, 0x8B9A, 0xCC49, 0x158B, 0x5258, 0x9A2D, 0xDDFE, 0x1AE6, 0x5D35, 0x9540, 0xD293, 0x36E5, 0x7136,
   0xB943, 0xFE90, 0x3988, 0x7E5B, 0xB62E, 0xF1FD, 0x283F, 0x6FEC, 0xA799, 0xE04A, 0x2752, 0x6081, 0xA8F4, 0xEF27,
   0x7039, 0x37EA, 0xFF9F, 0xB84C, 0x7F54, 0x3887, 0xF0F2, 0xB721, 0x6EE3, 0x2930, 0xE145, 0xA696, 0x618E, 0x265D,
   0xEE28, 0xA9FB, 0x4D8D, 0xA5E, 0xC22B, 0x85F8, 0x42E0, 0x533, 0xCD46, 0x8A95, 0x5357, 0x1484, 0xDCF1, 0x9B22,
   0x5C3A, 0x1BE9, 0xD39C, 0x944F]"

definition crc16_ccitt_slice8 :: "16 word list list" where
  "crc16_ccitt_slice8 = [crc16_ccitt_slice8_0, crc16_ccitt_slice8_1, crc16_ccitt_slice8_2, crc16_ccitt_slice8_3, crc16_ccitt_slice8_4, crc16_ccitt_slice8_5, crc16_ccitt_slice8_6, crc16_ccitt_slice8_7]"

text \<open>Its entries at the single bits.\<close>

lemma crc16_orbit: "orbit crc16_step 64 0x1021 =
  [0x1021, 0x2042, 0x4084, 0x8108, 0x1231, 0x2462, 0x48C4, 0x9188, 0x3331, 0x6662, 0xCCC4, 0x89A9, 0x373, 0x6E6,
   0xDCC, 0x1B98, 0x3730, 0x6E60, 0xDCC0, 0xA9A1, 0x4363, 0x86C6, 0x1DAD, 0x3B5A, 0x76B4, 0xED68, 0xCAF1, 0x85C3,
   0x1BA7, 0x374E, 0x6E9C, 0xDD38, 0xAA51, 0x4483, 0x8906, 0x22D, 0x45A, 0x8B4, 0x1168, 0x22D0, 0x45A0, 0x8B40,
   0x6A1, 0xD42, 0x1A84, 0x3508, 0x6A10, 0xD420, 0xB861, 0x60E3, 0xC1C6, 0x93AD, 0x377B, 0x6EF6, 0xDDEC, 0xABF9,
   0x47D3, 0x8FA6, 0xF6D, 0x1EDA, 0x3DB4, 0x7B68, 0xF6D0, 0xFD81]"
  by (simp add: orbit_numeral crc16_step_def bit_32_and)

lemma crc16_row0: "crc16_ccitt_slice8_0 = span
  [0x9188, 0x48C4, 0x2462, 0x1231, 0x8108, 0x4084, 0x2042, 0x1021]"
  unfolding crc16_ccitt_slice8_0_def by (simp add: span.simps)

lemma crc16_row1: "crc16_ccitt_slice8_1 = span
  [0x1B98, 0xDCC, 0x6E6, 0x373, 0x89A9, 0xCCC4, 0x6662, 0x3331]"
  unfolding crc16_ccitt_slice8_1_def by (simp add: span.simps)

lemma crc16_row2: "crc16_ccitt_slice8_2 = span
  [0x3B5A, 0x1DAD, 0x86C6, 0x4363, 0xA9A1, 0xDCC0, 0x6E60, 0x3730]"
  unfolding crc16_ccitt_slice8_2_def by (simp add: span.simps)

lemma crc16_row3: "crc16_ccitt_slice8_3 = span
  [0xDD38, 0x6E9C, 0x374E, 0x1BA7, 0x85C3, 0xCAF1, 0xED68, 0x76B4]"
  unfolding crc16_ccitt_slice8_3_def by (simp add: span.simps)

lemma crc16_row4: "crc16_ccitt_slice8_4 = span
  [0x22D0, 0x1168, 0x8B4, 0x45A, 0x22D, 0x8906, 0x4483, 0xAA51]"
  unfolding crc16_ccitt_slice8_4_def by (simp add: span.simps)

lemma crc16_row5: "crc16_ccitt_slice8_5 = span
  [0xD420, 0x6A10, 0x3508, 0x1A84, 0xD42, 0x6A1, 0x8B40, 0x45A0]"
  unfolding crc16_ccitt_slice8_5_def by (simp add: span.simps)

lemma crc16_row6: "crc16_ccitt_slice8_6 = span
  [0xABF9, 0xDDEC, 0x6EF6, 0x377B, 0x93AD, 0xC1C6, 0x60E3, 0xB861]"
  unfolding crc16_ccitt_slice8_6_def by (simp add: span.simps)

lemma crc16_row7: "crc16_ccitt_slice8_7 = span
  [0xFD81, 0xF6D0, 0x7B68, 0x3DB4, 0x1EDA, 0xF6D, 0x8FA6, 0x47D3]"
  unfolding crc16_ccitt_slice8_7_def by (simp add: span.simps)

section \<open>What an entry is\<close>

lemma below_8: "k < 8 \<longleftrightarrow> k = 0 \<or> k = 1 \<or> k = 2 \<or> k = 3 \<or> k = 4 \<or> k = 5 \<or> k = 6 \<or> k = (7 :: nat)"
  by auto

lemma crc32_rows: "k < 8 \<Longrightarrow> crc32_slice8 ! k = span (take 8 (drop (8 * k) (orbit crc32_step 64 0xEDB88320)))"
  unfolding crc32_orbit below_8
  by (elim disjE) (simp_all only: crc32_slice8_def crc32_row0 crc32_row1 crc32_row2 crc32_row3 crc32_row4 crc32_row5
    crc32_row6 crc32_row7 nth_Cons_0 nth_Cons_numeral One_nat_def nth_Cons_Suc mult_0_right drop_0, simp_all)

lemma ogg_rows: "k < 8 \<Longrightarrow> crc32_ogg_slice8 ! k = span (rev (take 8 (drop (8 * k) (orbit crc32_ogg_step 64 0x4C11DB7))))"
  unfolding ogg_orbit below_8
  by (elim disjE) (simp_all only: crc32_ogg_slice8_def ogg_row0 ogg_row1 ogg_row2 ogg_row3 ogg_row4 ogg_row5
    ogg_row6 ogg_row7 nth_Cons_0 nth_Cons_numeral One_nat_def nth_Cons_Suc mult_0_right drop_0, simp_all)

lemma crc16_rows: "k < 8 \<Longrightarrow> crc16_ccitt_slice8 ! k = span (rev (take 8 (drop (8 * k) (orbit crc16_step 64 0x1021))))"
  unfolding crc16_orbit below_8
  by (elim disjE) (simp_all only: crc16_ccitt_slice8_def crc16_row0 crc16_row1 crc16_row2 crc16_row3 crc16_row4 crc16_row5
    crc16_row6 crc16_row7 nth_Cons_0 nth_Cons_numeral One_nat_def nth_Cons_Suc mult_0_right drop_0, simp_all)

lemma take_drop_orbit: "m + n \<le> l \<Longrightarrow> take n (drop m (orbit step l c)) = map (\<lambda>i. adv step (m + i) c) [0..<n]"
  by (rule nth_equalityI) (simp_all add: orbit_nth)

lemma rev_upt_map: "rev (map f [0..<8]) = map (\<lambda>i. f (7 - i)) [0..<8]"
  by (rule nth_equalityI) (simp_all add: rev_nth)

lemma crc32_entry:
  assumes "k < 8" and "i < 256"
  shows "crc32_slice8 ! k ! i = adv crc32_step (8 * k + 8) (of_nat i)"
proof -
  have "adv crc32_step (8 * k + 8) (single (7 - i)) = adv crc32_step (8 * k + i) 0xEDB88320" if "i < 8" for i
  proof -
    have "adv crc32_step i (single 7) = single (7 - i)" using crc32.adv_single [of i "7 - i"] that by simp
    moreover have "adv crc32_step 8 (single 7) = 0xEDB88320" by (simp add: adv_numeral crc32_step_def bit_32_and)
    moreover have "adv crc32_step (8 * k + 8) (adv crc32_step i (single 7)) = adv crc32_step (8 * k + i) (adv crc32_step 8 (single 7))"
      by (rule adv_regroup) simp
    ultimately show ?thesis by (simp only:)
  qed
  then have "rev (map (\<lambda>j. adv crc32_step (8 * k + 8) (single j)) [0..<8]) = take 8 (drop (8 * k) (orbit crc32_step 64 0xEDB88320))"
    using assms(1) by (subst take_drop_orbit) (auto simp: rev_upt_map)
  then show ?thesis
    using span_nth [of "adv crc32_step (8 * k + 8)" i 8] assms(2) crc32.adv_linear [OF xor_linear_id] crc32_rows [OF assms(1)] by simp
qed

text \<open>The registers that shift to the left take the byte at their high end.\<close>

lemma msb_basis:
  assumes "adv step 8 (single s) = c" and "\<And>j. j < 8 \<Longrightarrow> single (s + j) = adv step j (single s)" and "k < 8"
  shows "rev (map (\<lambda>j. adv step (8 * k + 8) (push_bit s (single j))) [0..<8]) = rev (take 8 (drop (8 * k) (orbit step 64 c)))"
proof -
  have "adv step (8 * k + 8) (single (s + j)) = adv step (8 * k + j) c" if "j < 8" for j
    unfolding assms(1) [symmetric] assms(2) [OF that] by (rule adv_regroup) simp
  then show ?thesis using assms(3) by (auto simp: take_drop_orbit push_single intro!: map_cong)
qed

lemma ogg_entry:
  assumes "k < 8" and "i < 256"
  shows "crc32_ogg_slice8 ! k ! i = adv crc32_ogg_step (8 * k + 8) (push_bit 24 (of_nat i))"
proof -
  have "adv crc32_ogg_step 8 (single 24) = 0x4C11DB7" by (simp add: adv_numeral crc32_ogg_step_def bit_32_and)
  then have "rev (map (\<lambda>j. adv crc32_ogg_step (8 * k + 8) (push_bit 24 (single j))) [0..<8]) =
      rev (take 8 (drop (8 * k) (orbit crc32_ogg_step 64 0x4C11DB7)))"
    using assms(1) ogg.adv_single [of 24] by (intro msb_basis) simp_all
  then show ?thesis
    using span_nth [of "\<lambda>c. adv crc32_ogg_step (8 * k + 8) (push_bit 24 c)" i 8] assms(2) ogg_rows [OF assms(1)]
      ogg.adv_linear [OF xor_linear_bits(1) [OF xor_linear_id]] by simp
qed

lemma crc16_entry:
  assumes "k < 8" and "i < 256"
  shows "crc16_ccitt_slice8 ! k ! i = adv crc16_step (8 * k + 8) (push_bit 8 (of_nat i))"
proof -
  have "adv crc16_step 8 (single 8) = 0x1021" by (simp add: adv_numeral crc16_step_def bit_32_and)
  then have "rev (map (\<lambda>j. adv crc16_step (8 * k + 8) (push_bit 8 (single j))) [0..<8]) =
      rev (take 8 (drop (8 * k) (orbit crc16_step 64 0x1021)))"
    using assms(1) crc16.adv_single [of 8] by (intro msb_basis) simp_all
  then show ?thesis
    using span_nth [of "\<lambda>c. adv crc16_step (8 * k + 8) (push_bit 8 c)" i 8] assms(2) crc16_rows [OF assms(1)]
      crc16.adv_linear [OF xor_linear_bits(1) [OF xor_linear_id]] by simp
qed

end
