(* ===== verification/Sse.thy ===== *)
theory Sse
  imports ShiftRegister
begin

text \<open>
  The 128-bit vector registers of x86 and the intrinsics that the sources use on them, read as the
  documented operations: a register is a 128-bit word, whose byte 0 is the lowest. It is seen as
  sixteen bytes (\<open>epi8\<close>), as four 32-bit lanes (\<open>epi32\<close>) or as two 64-bit halves.
\<close>

section \<open>Registers, bytes and lanes\<close>

type_synonym m128 = "128 word"

definition epi8 :: "m128 \<Rightarrow> byte list" where
  "epi8 v = map (\<lambda>k. ucast (drop_bit (8 * k) v)) [0..<16]"

definition of_epi8 :: "byte list \<Rightarrow> m128" where
  "of_epi8 bs = word_rcat (rev bs)"

definition epi32 :: "m128 \<Rightarrow> u32 list" where
  "epi32 v = map (\<lambda>k. ucast (drop_bit (32 * k) v)) [0..<4]"

definition of_epi32 :: "u32 list \<Rightarrow> m128" where
  "of_epi32 ls = word_rcat (rev ls)"

definition le_bytes32 :: "u32 \<Rightarrow> byte list" where
  "le_bytes32 w = map (\<lambda>k. ucast (drop_bit (8 * k) w)) [0..<4]"

lemma length_epi [simp]: "length (epi8 v) = 16" "length (epi32 v) = 4" "length (le_bytes32 w) = 4"
  by (simp_all add: epi8_def epi32_def le_bytes32_def)

lemma bit_of_epi8: "bit (of_epi8 bs) n \<longleftrightarrow> n < 128 \<and> n div 8 < length bs \<and> bit (bs ! (n div 8)) (n mod 8)"
  using bit_horner_sum_uint_exp_iff [of bs n] by (auto simp: of_epi8_def word_rcat_def bit_simps)

lemma bit_of_epi32: "bit (of_epi32 ls) n \<longleftrightarrow> n < 128 \<and> n div 32 < length ls \<and> bit (ls ! (n div 32)) (n mod 32)"
  using bit_horner_sum_uint_exp_iff [of ls n] by (auto simp: of_epi32_def word_rcat_def bit_simps)

lemma bit_epi8: "k < 16 \<Longrightarrow> bit (epi8 v ! k) i \<longleftrightarrow> i < 8 \<and> bit v (8 * k + i)"
  by (simp add: epi8_def bit_simps)

lemma bit_epi32: "k < 4 \<Longrightarrow> bit (epi32 v ! k) i \<longleftrightarrow> i < 32 \<and> bit v (32 * k + i)"
  by (simp add: epi32_def bit_simps)

lemma epi8_of_epi8: "length bs = 16 \<Longrightarrow> epi8 (of_epi8 bs) = bs"
  by (intro nth_equalityI bit_eqI) (auto simp: bit_epi8 bit_of_epi8 dest: bit_imp_le_length)

lemma of_epi8_epi8 [simp]: "of_epi8 (epi8 v) = v"
proof (rule bit_word_eqI)
  fix n assume "n < LENGTH(128)"
  then have "n div 8 < 16" by simp
  with \<open>n < LENGTH(128)\<close> show "bit (of_epi8 (epi8 v)) n = bit v n" by (simp add: bit_of_epi8 bit_epi8)
qed

lemma epi32_of_epi32: "length ls = 4 \<Longrightarrow> epi32 (of_epi32 ls) = ls"
  by (intro nth_equalityI bit_eqI) (auto simp: bit_epi32 bit_of_epi32 dest: bit_imp_le_length)

lemma of_epi32_epi32 [simp]: "of_epi32 (epi32 v) = v"
proof (rule bit_word_eqI)
  fix n assume "n < LENGTH(128)"
  then have "n div 32 < 4" by simp
  with \<open>n < LENGTH(128)\<close> show "bit (of_epi32 (epi32 v)) n = bit v n" by (simp add: bit_of_epi32 bit_epi32)
qed

lemma epi8_inject: "epi8 v = epi8 w \<longleftrightarrow> v = w"
  by (metis of_epi8_epi8)

lemma epi32_inject: "epi32 v = epi32 w \<longleftrightarrow> v = w"
  by (metis of_epi32_epi32)

lemma bit_le_bytes32: "k < 4 \<Longrightarrow> bit (le_bytes32 w ! k) i \<longleftrightarrow> i < 8 \<and> bit w (8 * k + i)"
  by (simp add: le_bytes32_def bit_simps)

lemma epi8_epi32: "epi8 v = concat (map le_bytes32 (epi32 v))"
proof -
  have upt: "[0..<16] = [0, 1, 2, 3, 4, 5, 6, 7, 8, 9, 10, 11, 12, 13, 14, 15::nat]" "[0..<4] = [0, 1, 2, 3::nat]"
    by (simp_all add: upt_rec)
  have "ucast (drop_bit k v) = (ucast (drop_bit (k - 32 * j) (ucast (drop_bit (32 * j) v) :: u32)) :: byte)"
    if "32 * j \<le> k" "k + 8 \<le> 32 * j + 32" for j k
    using that by (intro bit_eqI) (auto simp: bit_simps)
  from this [of 0 0] this [of 0 8] this [of 0 16] this [of 0 24]
    this [of 1 32] this [of 1 40] this [of 1 48] this [of 1 56]
    this [of 2 64] this [of 2 72] this [of 2 80] this [of 2 88]
    this [of 3 96] this [of 3 104] this [of 3 112] this [of 3 120]
  show ?thesis by (simp add: epi8_def epi32_def le_bytes32_def upt)
qed

section \<open>Loads and stores\<close>

text \<open>\<open>_mm_loadu_si128\<close> and \<open>_mm_storeu_si128\<close>.\<close>

definition mm_loadu :: "byte list \<Rightarrow> nat \<Rightarrow> m128 option" where
  "mm_loadu p off = map_option (\<lambda>bs. word_rcat (rev bs)) (mem_read p off 16)"

definition mm_storeu :: "byte list \<Rightarrow> nat \<Rightarrow> m128 \<Rightarrow> byte list option" where
  "mm_storeu p off v = mem_write p off (epi8 v)"

lemma mm_loadu_of_epi8: "mm_loadu p off = map_option of_epi8 (mem_read p off 16)"
  by (simp add: mm_loadu_def of_epi8_def [abs_def])

section \<open>Constants\<close>

text \<open>\<open>_mm_set_epi32\<close>, \<open>_mm_set_epi8\<close> and \<open>_mm_set1_epi32\<close>; the first argument is the highest lane.\<close>

definition mm_set_epi32 :: "u32 \<Rightarrow> u32 \<Rightarrow> u32 \<Rightarrow> u32 \<Rightarrow> m128" where
  "mm_set_epi32 e3 e2 e1 e0 = push_bit 96 (ucast e3) OR push_bit 64 (ucast e2) OR push_bit 32 (ucast e1) OR ucast e0"

definition mm_set_epi8 :: "byte list \<Rightarrow> m128" where
  "mm_set_epi8 es = word_rcat es"

definition mm_set1_epi32 :: "u32 \<Rightarrow> m128" where
  "mm_set1_epi32 x = of_epi32 [x, x, x, x]"

lemma epi32_set_epi32: "epi32 (mm_set_epi32 e3 e2 e1 e0) = [e0, e1, e2, e3]"
proof -
  have upt: "[0..<4] = [0, 1, 2, 3::nat]" by (simp add: upt_rec)
  have "ucast (mm_set_epi32 e3 e2 e1 e0) = e0" "ucast (drop_bit 32 (mm_set_epi32 e3 e2 e1 e0)) = e1"
    "ucast (drop_bit 64 (mm_set_epi32 e3 e2 e1 e0)) = e2" "ucast (drop_bit 96 (mm_set_epi32 e3 e2 e1 e0)) = e3"
    unfolding mm_set_epi32_def by (intro bit_eqI; auto simp: bit_simps dest: bit_imp_le_length)+
  then show ?thesis by (simp add: epi32_def upt)
qed

lemma epi8_set_epi8: "length es = 16 \<Longrightarrow> epi8 (mm_set_epi8 es) = rev es"
  using epi8_of_epi8 [of "rev es"] by (simp add: mm_set_epi8_def of_epi8_def)

lemma epi32_set1: "epi32 (mm_set1_epi32 x) = [x, x, x, x]"
  by (simp add: mm_set1_epi32_def epi32_of_epi32)

section \<open>Operations on lanes\<close>

definition mm_add_epi32 :: "m128 \<Rightarrow> m128 \<Rightarrow> m128" where
  "mm_add_epi32 a b = of_epi32 (map2 (+) (epi32 a) (epi32 b))"

definition mm_slli_epi32 :: "m128 \<Rightarrow> nat \<Rightarrow> m128" where
  "mm_slli_epi32 a n = of_epi32 (map (push_bit n) (epi32 a))"

definition mm_srli_epi32 :: "m128 \<Rightarrow> nat \<Rightarrow> m128" where
  "mm_srli_epi32 a n = of_epi32 (map (drop_bit n) (epi32 a))"

text \<open>\<open>_mm_slli_si128\<close> and \<open>_mm_srli_si128\<close> shift the register by bytes.\<close>

definition mm_slli_si128 :: "m128 \<Rightarrow> nat \<Rightarrow> m128" where
  "mm_slli_si128 a n = push_bit (8 * n) a"

definition mm_srli_si128 :: "m128 \<Rightarrow> nat \<Rightarrow> m128" where
  "mm_srli_si128 a n = drop_bit (8 * n) a"

text \<open>\<open>_mm_shuffle_epi8\<close>: a byte of the control selects a byte by its low four bits, or zero.\<close>

definition mm_shuffle_epi8 :: "m128 \<Rightarrow> m128 \<Rightarrow> m128" where
  "mm_shuffle_epi8 a c = of_epi8 (map (\<lambda>k. if bit k 7 then 0 else epi8 a ! unat (k AND 0x0F)) (epi8 c))"

definition mm_unpacklo_epi32 :: "m128 \<Rightarrow> m128 \<Rightarrow> m128" where
  "mm_unpacklo_epi32 a b = of_epi32 [epi32 a ! 0, epi32 b ! 0, epi32 a ! 1, epi32 b ! 1]"

definition mm_unpackhi_epi32 :: "m128 \<Rightarrow> m128 \<Rightarrow> m128" where
  "mm_unpackhi_epi32 a b = of_epi32 [epi32 a ! 2, epi32 b ! 2, epi32 a ! 3, epi32 b ! 3]"

definition mm_unpacklo_epi64 :: "m128 \<Rightarrow> m128 \<Rightarrow> m128" where
  "mm_unpacklo_epi64 a b = of_epi32 [epi32 a ! 0, epi32 a ! 1, epi32 b ! 0, epi32 b ! 1]"

definition mm_unpackhi_epi64 :: "m128 \<Rightarrow> m128 \<Rightarrow> m128" where
  "mm_unpackhi_epi64 a b = of_epi32 [epi32 a ! 2, epi32 a ! 3, epi32 b ! 2, epi32 b ! 3]"

text \<open>\<open>_mm_clmulepi64_si128\<close>, whose immediate byte selects the halves by its bits 0 and 4.\<close>

definition mm_clmulepi64 :: "m128 \<Rightarrow> m128 \<Rightarrow> byte \<Rightarrow> m128" where
  "mm_clmulepi64 x k imm = clmul 64 (if bit imm 0 then drop_bit 64 x else take_bit 64 x) (if bit imm 4 then drop_bit 64 k else take_bit 64 k)"

lemma epi32_unpack:
  "epi32 (mm_unpacklo_epi32 a b) = [epi32 a ! 0, epi32 b ! 0, epi32 a ! 1, epi32 b ! 1]"
  "epi32 (mm_unpackhi_epi32 a b) = [epi32 a ! 2, epi32 b ! 2, epi32 a ! 3, epi32 b ! 3]"
  "epi32 (mm_unpacklo_epi64 a b) = [epi32 a ! 0, epi32 a ! 1, epi32 b ! 0, epi32 b ! 1]"
  "epi32 (mm_unpackhi_epi64 a b) = [epi32 a ! 2, epi32 a ! 3, epi32 b ! 2, epi32 b ! 3]"
  by (simp_all add: mm_unpacklo_epi32_def mm_unpackhi_epi32_def mm_unpacklo_epi64_def mm_unpackhi_epi64_def epi32_of_epi32)

lemma lane_add: "k < 4 \<Longrightarrow> epi32 (mm_add_epi32 a b) ! k = epi32 a ! k + epi32 b ! k"
  by (simp add: mm_add_epi32_def epi32_of_epi32)

lemma lane_slli: "k < 4 \<Longrightarrow> epi32 (mm_slli_epi32 a n) ! k = push_bit n (epi32 a ! k)"
  by (simp add: mm_slli_epi32_def epi32_of_epi32)

lemma lane_srli: "k < 4 \<Longrightarrow> epi32 (mm_srli_epi32 a n) ! k = drop_bit n (epi32 a ! k)"
  by (simp add: mm_srli_epi32_def epi32_of_epi32)

lemma lane_xor: "k < 4 \<Longrightarrow> epi32 (a XOR b) ! k = epi32 a ! k XOR epi32 b ! k"
  by (intro bit_eqI) (auto simp: bit_epi32 bit_xor_iff)

lemma lane_or: "k < 4 \<Longrightarrow> epi32 (a OR b) ! k = epi32 a ! k OR epi32 b ! k"
  by (intro bit_eqI) (auto simp: bit_epi32 bit_or_iff)

lemmas epi32_lanes = lane_add lane_slli lane_srli lane_xor lane_or

lemma epi8_xor: "epi8 (a XOR b) = map2 (XOR) (epi8 a) (epi8 b)"
  by (intro nth_equalityI bit_eqI) (auto simp: bit_epi8 bit_xor_iff)

end
