(* ===== verification/Crc32.thy ===== *)
theory Crc32
  imports CrcTables Sse
begin

text \<open>
  The checksums of \<open>encodings/encoding_crc32.c\<close>: CRC-32, the CRC-32 of Ogg and the CRC-16 of CCITT,
  with every way in which the file computes them: the slicing tables, eight bytes at a time; the
  folding by carry-less multiplication in SSE registers and in the wider AVX-512 ones; and the three
  interleaved streams with the CRC instructions of ARM. The vector instructions are read as the
  documented operations on lanes; which unit the processor has is an argument. The lookups of the
  tables are masked to their 256 entries.
\<close>

section \<open>CRC-32 by tables\<close>

definition crc32_load_le32 :: "byte list \<Rightarrow> u32 option" where
  "crc32_load_le32 p = map_option (\<lambda>bs. word_rcat (rev bs)) (mem_read p 0 4)"

function crc32_slice8_loop :: "u32 \<Rightarrow> byte list \<Rightarrow> nat \<Rightarrow> (u32 \<times> byte list \<times> nat) option" where
  "crc32_slice8_loop crc data len =
     (if len \<ge> 8 then do {
        l \<leftarrow> crc32_load_le32 data;
        let lo = l XOR crc;
        hi \<leftarrow> crc32_load_le32 (drop 4 data);
        let crc = crc32_slice8 ! 7 ! unat (lo AND 0xFF)
            XOR crc32_slice8 ! 6 ! unat (drop_bit 8 lo AND 0xFF)
            XOR crc32_slice8 ! 5 ! unat (drop_bit 16 lo AND 0xFF)
            XOR crc32_slice8 ! 4 ! unat (drop_bit 24 lo AND 0xFF)
            XOR crc32_slice8 ! 3 ! unat (hi AND 0xFF)
            XOR crc32_slice8 ! 2 ! unat (drop_bit 8 hi AND 0xFF)
            XOR crc32_slice8 ! 1 ! unat (drop_bit 16 hi AND 0xFF)
            XOR crc32_slice8 ! 0 ! unat (drop_bit 24 hi AND 0xFF);
        crc32_slice8_loop crc (drop 8 data) (len - 8) }
      else Some (crc, data, len))"
  by pat_completeness auto
termination by (relation "measure (\<lambda>(crc, data, len). len)") auto

fun crc32_byte_loop :: "u32 \<Rightarrow> byte list \<Rightarrow> nat \<Rightarrow> u32 option" where
  "crc32_byte_loop crc data 0 = Some crc"
| "crc32_byte_loop crc data (Suc len) = do {
     b \<leftarrow> arr_get data 0;
     crc32_byte_loop (crc32_slice8 ! 0 ! unat ((crc XOR ucast b) AND 0xFF) XOR drop_bit 8 crc) (drop 1 data) len }"

definition crc32_slice_by_8 :: "u32 \<Rightarrow> byte list \<Rightarrow> nat \<Rightarrow> u32 option" where
  "crc32_slice_by_8 crc data len = do {
     (crc, data, len) \<leftarrow> crc32_slice8_loop crc data len;
     crc32_byte_loop crc data len }"

section \<open>CRC-32 by folding\<close>

definition crc32_k1k2 :: m128 where
  "crc32_k1k2 = mm_set_epi32 0x00000001 0xC6E41596 0x00000001 0x54442BD4"

definition crc32_k3k4 :: m128 where
  "crc32_k3k4 = mm_set_epi32 0x00000000 0xCCAA009E 0x00000001 0x751997D0"

definition crc32_k5 :: m128 where
  "crc32_k5 = mm_set_epi32 0 0 0x00000001 0x63CD6124"

definition crc32_mupp :: m128 where
  "crc32_mupp = mm_set_epi32 0x00000001 0xDB710641 0x00000001 0xF7011641"

definition mask32 :: m128 where
  "mask32 = mm_set_epi32 0 0 0 (- 1)"

definition crc32_fold16 :: "m128 \<Rightarrow> m128 \<Rightarrow> m128" where
  "crc32_fold16 x k = mm_clmulepi64 x k 0x00 XOR mm_clmulepi64 x k 0x11"

function crc32_tail_loop :: "m128 \<Rightarrow> byte list \<Rightarrow> nat \<Rightarrow> (m128 \<times> byte list \<times> nat) option" where
  "crc32_tail_loop x0 data len =
     (if len \<ge> 16 then do {
        d \<leftarrow> mm_loadu data 0;
        crc32_tail_loop (crc32_fold16 x0 crc32_k3k4 XOR d) (drop 16 data) (len - 16) }
      else Some (x0, data, len))"
  by pat_completeness auto
termination by (relation "measure (\<lambda>(x0, data, len). len)") auto

text \<open>The reduction to 96, to 64 and, by Barrett's method, to 32 bits.\<close>

definition crc32_reduce :: "m128 \<Rightarrow> u32" where
  "crc32_reduce x0 =
     (let t = mm_clmulepi64 x0 crc32_k3k4 0x10;
          x0 = drop_bit 64 x0 XOR t;
          t = mm_clmulepi64 (x0 AND mask32) crc32_k5 0x00;
          x0 = drop_bit 32 x0 XOR t;
          t = mm_clmulepi64 (x0 AND mask32) crc32_mupp 0x00;
          t = mm_clmulepi64 (t AND mask32) crc32_mupp 0x10;
          x0 = x0 XOR t
      in ucast (drop_bit 32 x0))"

definition crc32_pclmul_tail :: "m128 \<Rightarrow> byte list \<Rightarrow> nat \<Rightarrow> u32 option" where
  "crc32_pclmul_tail x0 data len = do {
     (x0, data, len) \<leftarrow> crc32_tail_loop x0 data len;
     let crc = crc32_reduce x0;
     if len \<noteq> 0 then crc32_slice_by_8 crc data len else Some crc }"

function crc32_pclmul_loop :: "m128 \<Rightarrow> m128 \<Rightarrow> m128 \<Rightarrow> m128 \<Rightarrow> byte list \<Rightarrow> nat \<Rightarrow>
  (m128 \<times> m128 \<times> m128 \<times> m128 \<times> byte list \<times> nat) option" where
  "crc32_pclmul_loop x0 x1 x2 x3 data len =
     (if len \<ge> 64 then do {
        d0 \<leftarrow> mm_loadu data 0;
        d1 \<leftarrow> mm_loadu data 16;
        d2 \<leftarrow> mm_loadu data 32;
        d3 \<leftarrow> mm_loadu data 48;
        crc32_pclmul_loop (crc32_fold16 x0 crc32_k1k2 XOR d0) (crc32_fold16 x1 crc32_k1k2 XOR d1)
          (crc32_fold16 x2 crc32_k1k2 XOR d2) (crc32_fold16 x3 crc32_k1k2 XOR d3) (drop 64 data) (len - 64) }
      else Some (x0, x1, x2, x3, data, len))"
  by pat_completeness auto
termination by (relation "measure (\<lambda>(x0, x1, x2, x3, data, len). len)") auto

definition crc32_pclmul :: "u32 \<Rightarrow> byte list \<Rightarrow> nat \<Rightarrow> u32 option" where
  "crc32_pclmul crc data len =
     (if len < 64 then crc32_slice_by_8 crc data len
      else do {
        x0 \<leftarrow> mm_loadu data 0;
        x1 \<leftarrow> mm_loadu data 16;
        x2 \<leftarrow> mm_loadu data 32;
        x3 \<leftarrow> mm_loadu data 48;
        let x0 = x0 XOR ucast crc;
        (x0, x1, x2, x3, data, len) \<leftarrow> crc32_pclmul_loop x0 x1 x2 x3 (drop 64 data) (len - 64);
        let x1 = crc32_fold16 x0 crc32_k3k4 XOR x1;
        let x2 = crc32_fold16 x1 crc32_k3k4 XOR x2;
        let x0 = crc32_fold16 x2 crc32_k3k4 XOR x3;
        crc32_pclmul_tail x0 data len })"

section \<open>CRC-32 by folding in wider registers\<close>

text \<open>
  A register of 512 bits is the list of its four lanes of 128 bits, the lowest first. The ternary
  logic \<open>0x96\<close> is the exclusive or of three, and \<open>_mm512_mask_mov_epi64\<close> with \<open>0xC0\<close> takes the last
  lane of its third argument.
\<close>

definition mm512_loadu :: "byte list \<Rightarrow> nat \<Rightarrow> m128 list option" where
  "mm512_loadu p off = do {
     a \<leftarrow> mm_loadu p off;
     b \<leftarrow> mm_loadu p (off + 16);
     c \<leftarrow> mm_loadu p (off + 32);
     d \<leftarrow> mm_loadu p (off + 48);
     Some [a, b, c, d] }"

definition mm512_broadcast :: "m128 \<Rightarrow> m128 list" where
  "mm512_broadcast k = [k, k, k, k]"

definition crc32_fold64 :: "m128 list \<Rightarrow> m128 list \<Rightarrow> m128 list \<Rightarrow> m128 list" where
  "crc32_fold64 x k d = map2 (XOR) (map2 (\<lambda>x k. mm_clmulepi64 x k 0x00 XOR mm_clmulepi64 x k 0x11) x k) d"

definition mm512_mask_mov_C0 :: "m128 list \<Rightarrow> m128 list \<Rightarrow> m128 list" where
  "mm512_mask_mov_C0 src a = take 3 src @ drop 3 a"

text \<open>The exclusive or of the two halves, and of the two lanes of that.\<close>

definition mm512_halves :: "m128 list \<Rightarrow> m128" where
  "mm512_halves z = (let y = map2 (XOR) (take 2 z) (drop 2 z) in y ! 0 XOR y ! 1)"

definition crc32_k2048 :: "m128 list" where
  "crc32_k2048 = mm512_broadcast (mm_set_epi32 0x00000001 0x322D1430 0x00000001 0x1542778A)"

definition crc32_k512 :: "m128 list" where
  "crc32_k512 = mm512_broadcast (mm_set_epi32 0x00000001 0xC6E41596 0x00000001 0x54442BD4)"

definition crc32_kl :: "m128 list" where
  "crc32_kl = [mm_set_epi32 0x00000001 0x74359406 0x00000000 0x3DB1ECDC,
     mm_set_epi32 0x00000001 0x5A546366 0x00000000 0xF1DA05AA,
     mm_set_epi32 0x00000000 0xCCAA009E 0x00000001 0x751997D0, 0]"

function crc32_vp_loop4 :: "m128 list \<Rightarrow> m128 list \<Rightarrow> m128 list \<Rightarrow> m128 list \<Rightarrow> byte list \<Rightarrow> nat \<Rightarrow>
  (m128 list \<times> m128 list \<times> m128 list \<times> m128 list \<times> byte list \<times> nat) option" where
  "crc32_vp_loop4 z0 z1 z2 z3 data len =
     (if len \<ge> 256 then do {
        d0 \<leftarrow> mm512_loadu data 0;
        d1 \<leftarrow> mm512_loadu data 64;
        d2 \<leftarrow> mm512_loadu data 128;
        d3 \<leftarrow> mm512_loadu data 192;
        crc32_vp_loop4 (crc32_fold64 z0 crc32_k2048 d0) (crc32_fold64 z1 crc32_k2048 d1)
          (crc32_fold64 z2 crc32_k2048 d2) (crc32_fold64 z3 crc32_k2048 d3) (drop 256 data) (len - 256) }
      else Some (z0, z1, z2, z3, data, len))"
  by pat_completeness auto
termination by (relation "measure (\<lambda>(z0, z1, z2, z3, data, len). len)") auto

function crc32_vp_loop1 :: "m128 list \<Rightarrow> byte list \<Rightarrow> nat \<Rightarrow> (m128 list \<times> byte list \<times> nat) option" where
  "crc32_vp_loop1 z0 data len =
     (if len \<ge> 64 then do {
        d \<leftarrow> mm512_loadu data 0;
        crc32_vp_loop1 (crc32_fold64 z0 crc32_k512 d) (drop 64 data) (len - 64) }
      else Some (z0, data, len))"
  by pat_completeness auto
termination by (relation "measure (\<lambda>(z0, data, len). len)") auto

text \<open>The code is called for 256 bytes and more.\<close>

definition crc32_vpclmul :: "u32 \<Rightarrow> byte list \<Rightarrow> nat \<Rightarrow> u32 option" where
  "crc32_vpclmul crc data len = do {
     z0 \<leftarrow> mm512_loadu data 0;
     let z0 = map2 (XOR) z0 [ucast crc, 0, 0, 0];
     z1 \<leftarrow> mm512_loadu data 64;
     z2 \<leftarrow> mm512_loadu data 128;
     z3 \<leftarrow> mm512_loadu data 192;
     (z0, z1, z2, z3, data, len) \<leftarrow> crc32_vp_loop4 z0 z1 z2 z3 (drop 256 data) (len - 256);
     let z1 = crc32_fold64 z0 crc32_k512 z1;
     let z2 = crc32_fold64 z1 crc32_k512 z2;
     let z0 = crc32_fold64 z2 crc32_k512 z3;
     (z0, data, len) \<leftarrow> crc32_vp_loop1 z0 data len;
     let z0 = mm512_mask_mov_C0 (crc32_fold64 z0 crc32_kl [0, 0, 0, 0]) z0;
     crc32_pclmul_tail (mm512_halves z0) data len }"

section \<open>CRC-32 by the instructions of ARM\<close>

text \<open>\<open>__crc32b\<close> and \<open>__crc32d\<close> shift a byte and a double word through the register, low bit first.\<close>

definition arm_crc32b :: "u32 \<Rightarrow> byte \<Rightarrow> u32" where
  "arm_crc32b crc b = feed crc32_step 1 crc (lsb_bits b)"

definition arm_crc32d :: "u32 \<Rightarrow> 64 word \<Rightarrow> u32" where
  "arm_crc32d crc v = feed crc32_step 1 crc (lsb_bits v)"

definition crc32_arm_on :: "u32 list list" where
  "crc32_arm_on =
  [
   [0x0, 0xF891F16F, 0x2A52E49F, 0xD2C315F0, 0x54A5C93E, 0xAC343851, 0x7EF72DA1, 0x8666DCCE, 0xA94B927C,
    0x51DA6313, 0x831976E3, 0x7B88878C, 0xFDEE5B42, 0x57FAA2D, 0xD7BCBFDD, 0x2F2D4EB2],
   [0x0, 0x89E622B9, 0xC8BD4333, 0x415B618A, 0x4A0B8027, 0xC3EDA29E, 0x82B6C314, 0xB50E1AD, 0x9417004E, 0x1DF122F7,
    0x5CAA437D, 0xD54C61C4, 0xDE1C8069, 0x57FAA2D0, 0x16A1C35A, 0x9F47E1E3],
   [0x0, 0xF35F06DD, 0x3DCF0BFB, 0xCE900D26, 0x7B9E17F6, 0x88C1112B, 0x46511C0D, 0xB50E1AD0, 0xF73C2FEC, 0x4632931,
    0xCAF32417, 0x39AC22CA, 0x8CA2381A, 0x7FFD3EC7, 0xB16D33E1, 0x4232353C],
   [0x0, 0x35095999, 0x6A12B332, 0x5F1BEAAB, 0xD4256664, 0xE12C3FFD, 0xBE37D556, 0x8B3E8CCF, 0x733BCA89,
    0x46329310, 0x192979BB, 0x2C202022, 0xA71EACED, 0x9217F574, 0xCD0C1FDF, 0xF8054646],
   [0x0, 0xE6779512, 0x179E2C65, 0xF1E9B977, 0x2F3C58CA, 0xC94BCDD8, 0x38A274AF, 0xDED5E1BD, 0x5E78B194,
    0xB80F2486, 0x49E69DF1, 0xAF9108E3, 0x7144E95E, 0x97337C4C, 0x66DAC53B, 0x80AD5029],
   [0x0, 0xBCF16328, 0xA293C011, 0x1E62A339, 0x9E568663, 0x22A7E54B, 0x3CC54672, 0x8034255A, 0xE7DC0A87,
    0x5B2D69AF, 0x454FCA96, 0xF9BEA9BE, 0x798A8CE4, 0xC57BEFCC, 0xDB194CF5, 0x67E82FDD],
   [0x0, 0x14C9134F, 0x2992269E, 0x3D5B35D1, 0x53244D3C, 0x47ED5E73, 0x7AB66BA2, 0x6E7F78ED, 0xA6489A78,
    0xB2818937, 0x8FDABCE6, 0x9B13AFA9, 0xF56CD744, 0xE1A5C40B, 0xDCFEF1DA, 0xC837E295],
   [0x0, 0x97E032B1, 0xF4B16323, 0x63515192, 0x3213C007, 0xA5F3F2B6, 0xC6A2A324, 0x51429195, 0x6427800E,
    0xF3C7B2BF, 0x9096E32D, 0x776D19C, 0x56344009, 0xC1D472B8, 0xA285232A, 0x3565119B]]"

definition crc32_arm_lane_on :: "u32 \<Rightarrow> u32" where
  "crc32_arm_lane_on c = crc32_arm_on ! 0 ! unat (c AND 15) XOR crc32_arm_on ! 1 ! unat (drop_bit 4 c AND 15)
     XOR crc32_arm_on ! 2 ! unat (drop_bit 8 c AND 15) XOR crc32_arm_on ! 3 ! unat (drop_bit 12 c AND 15)
     XOR crc32_arm_on ! 4 ! unat (drop_bit 16 c AND 15) XOR crc32_arm_on ! 5 ! unat (drop_bit 20 c AND 15)
     XOR crc32_arm_on ! 6 ! unat (drop_bit 24 c AND 15) XOR crc32_arm_on ! 7 ! unat (drop_bit 28 c)"

definition CRC32_ARM_LANE :: nat where
  "CRC32_ARM_LANE = 1024"

definition arm_load64 :: "byte list \<Rightarrow> nat \<Rightarrow> 64 word option" where
  "arm_load64 p off = map_option (\<lambda>bs. word_rcat (rev bs)) (mem_read p off 8)"

text \<open>Up to an aligned address; the three lanes, \<open>n\<close> double words of each; and the rest.\<close>

fun arm_align_loop :: "nat \<Rightarrow> u32 \<Rightarrow> byte list \<Rightarrow> nat \<Rightarrow> (u32 \<times> byte list \<times> nat) option" where
  "arm_align_loop addr crc data 0 = Some (crc, data, 0)"
| "arm_align_loop addr crc data (Suc len) =
     (if addr mod 8 \<noteq> 0 then do {
        b \<leftarrow> arr_get data 0;
        arm_align_loop (addr + 1) (arm_crc32b crc b) (drop 1 data) len }
      else Some (crc, data, Suc len))"

primrec arm_lane_loop :: "nat \<Rightarrow> nat \<Rightarrow> u32 \<Rightarrow> u32 \<Rightarrow> u32 \<Rightarrow> byte list \<Rightarrow> (u32 \<times> u32 \<times> u32) option" where
  "arm_lane_loop 0 i crc c1 c2 data = Some (crc, c1, c2)"
| "arm_lane_loop (Suc n) i crc c1 c2 data = do {
     v0 \<leftarrow> arm_load64 data i;
     v1 \<leftarrow> arm_load64 data (CRC32_ARM_LANE + i);
     v2 \<leftarrow> arm_load64 data (2 * CRC32_ARM_LANE + i);
     arm_lane_loop n (i + 8) (arm_crc32d crc v0) (arm_crc32d c1 v1) (arm_crc32d c2 v2) data }"

function arm_three_loop :: "u32 \<Rightarrow> byte list \<Rightarrow> nat \<Rightarrow> (u32 \<times> byte list \<times> nat) option" where
  "arm_three_loop crc data len =
     (if len \<ge> 3 * CRC32_ARM_LANE then do {
        (crc, c1, c2) \<leftarrow> arm_lane_loop (CRC32_ARM_LANE div 8) 0 crc 0 0 data;
        arm_three_loop (crc32_arm_lane_on (crc32_arm_lane_on crc XOR c1) XOR c2)
          (drop (3 * CRC32_ARM_LANE) data) (len - 3 * CRC32_ARM_LANE) }
      else Some (crc, data, len))"
  by pat_completeness auto
termination by (relation "measure (\<lambda>(crc, data, len). len)") (auto simp: CRC32_ARM_LANE_def)

function arm_eight_loop :: "u32 \<Rightarrow> byte list \<Rightarrow> nat \<Rightarrow> (u32 \<times> byte list \<times> nat) option" where
  "arm_eight_loop crc data len =
     (if len \<ge> 8 then do {
        v \<leftarrow> arm_load64 data 0;
        arm_eight_loop (arm_crc32d crc v) (drop 8 data) (len - 8) }
      else Some (crc, data, len))"
  by pat_completeness auto
termination by (relation "measure (\<lambda>(crc, data, len). len)") auto

fun arm_byte_loop :: "u32 \<Rightarrow> byte list \<Rightarrow> nat \<Rightarrow> u32 option" where
  "arm_byte_loop crc data 0 = Some crc"
| "arm_byte_loop crc data (Suc len) = do {
     b \<leftarrow> arr_get data 0;
     arm_byte_loop (arm_crc32b crc b) (drop 1 data) len }"

definition crc32_arm :: "nat \<Rightarrow> u32 \<Rightarrow> byte list \<Rightarrow> nat \<Rightarrow> u32 option" where
  "crc32_arm addr crc data len = do {
     (crc, data, len) \<leftarrow> arm_align_loop addr crc data len;
     (crc, data, len) \<leftarrow> arm_three_loop crc data len;
     (crc, data, len) \<leftarrow> arm_eight_loop crc data len;
     arm_byte_loop crc data len }"

section \<open>The choice of the unit\<close>

text \<open>
  What the file was compiled for and what the processor has: an ARM core with the instructions or
  without, an x86 with the two carry-less units, or neither.
\<close>

datatype crc_unit = Portable | Arm bool | X86 (have_vpclmul: bool) (have_pclmul: bool)

definition encoding_crc32 :: "crc_unit \<Rightarrow> nat \<Rightarrow> u32 \<Rightarrow> byte list \<Rightarrow> nat \<Rightarrow> u32 option" where
  "encoding_crc32 u addr crc data len =
     (let crc = NOT crc in
      map_option NOT
        (case u of
           Arm has_crc32 \<Rightarrow> if has_crc32 then crc32_arm addr crc data len else crc32_slice_by_8 crc data len
         | X86 vpclmul pclmul \<Rightarrow>
             if len \<ge> 256 \<and> vpclmul then crc32_vpclmul crc data len
             else if len \<ge> 64 \<and> pclmul then crc32_pclmul crc data len
             else crc32_slice_by_8 crc data len
         | Portable \<Rightarrow> crc32_slice_by_8 crc data len))"

declare crc32_slice8_loop.simps [simp del] crc32_tail_loop.simps [simp del] crc32_pclmul_loop.simps [simp del]
  crc32_vp_loop4.simps [simp del] crc32_vp_loop1.simps [simp del] arm_three_loop.simps [simp del] arm_eight_loop.simps [simp del]

section \<open>The reference\<close>

text \<open>
  The register after the bits of \<open>len\<close> bytes, the low bit of each byte first. Every loop of the code
  keeps what the register will be at the end, \<open>crc32_end\<close> of its state.
\<close>

definition crc32_end :: "u32 \<Rightarrow> byte list \<Rightarrow> nat \<Rightarrow> u32" where
  "crc32_end crc data len = feed crc32_step 1 crc (lsb_stream (take len data))"

lemma crc32_end_0 [simp]: "crc32_end crc data 0 = crc"
  by (simp add: crc32_end_def)

lemma crc32_end_split:
  assumes "n \<le> len"
  shows "crc32_end crc data len = crc32_end (feed crc32_step 1 crc (lsb_stream (take n data))) (drop n data) (len - n)"
  using assms take_add [of n "len - n" data] by (simp add: crc32_end_def)

section \<open>Eight bytes at a time\<close>

lemma and_255: "c AND 0xFF = take_bit 8 (c :: 'a::len word)"
  by (simp add: take_bit_eq_mask mask_eq_exp_minus_1)

lemma drop_bit_small:
  assumes "n + m = LENGTH('a)"
  shows "take_bit m (drop_bit n c) = drop_bit n (c :: 'a::len word)"
proof (rule bit_word_eqI)
  fix i
  have "n + i < n + m" if "bit c (n + i)" using bit_imp_le_length [OF that] assms by simp
  then show "bit (take_bit m (drop_bit n c)) i = bit (drop_bit n c) i" by (auto simp: bit_take_bit_iff bit_drop_bit_eq)
qed

lemma crc32_lookup: "k < 8 \<Longrightarrow> crc32_slice8 ! k ! unat (c AND 0xFF) = adv crc32_step (8 * k + 8) (c AND 0xFF)"
proof -
  assume "k < 8"
  moreover have "unat (c AND 0xFF) < 256" using unat_and_mask [of c 8] by (simp add: mask_eq_exp_minus_1)
  ultimately show ?thesis by (simp add: crc32_entry)
qed

lemma crc32_lookups:
  "crc32_slice8 ! 7 ! unat (c AND 0xFF) = adv crc32_step 64 (take_bit 8 c)"
  "crc32_slice8 ! 6 ! unat (c AND 0xFF) = adv crc32_step 56 (take_bit 8 c)"
  "crc32_slice8 ! 5 ! unat (c AND 0xFF) = adv crc32_step 48 (take_bit 8 c)"
  "crc32_slice8 ! 4 ! unat (c AND 0xFF) = adv crc32_step 40 (take_bit 8 c)"
  "crc32_slice8 ! 3 ! unat (c AND 0xFF) = adv crc32_step 32 (take_bit 8 c)"
  "crc32_slice8 ! 2 ! unat (c AND 0xFF) = adv crc32_step 24 (take_bit 8 c)"
  "crc32_slice8 ! 1 ! unat (c AND 0xFF) = adv crc32_step 16 (take_bit 8 c)"
  "crc32_slice8 ! 0 ! unat (c AND 0xFF) = adv crc32_step 8 (take_bit 8 c)"
  using crc32_lookup [of 7 c] crc32_lookup [of 6 c] crc32_lookup [of 5 c] crc32_lookup [of 4 c]
    crc32_lookup [of 3 c] crc32_lookup [of 2 c] crc32_lookup [of 1 c] crc32_lookup [of 0 c]
  by (simp_all add: and_255)

lemma four_bytes:
  "c = take_bit 8 c XOR push_bit 8 (take_bit 8 (drop_bit 8 c)) XOR push_bit 16 (take_bit 8 (drop_bit 16 c))
    XOR push_bit 24 (take_bit 8 (drop_bit 24 c))" for c :: u32
proof (rule bit_word_eqI)
  fix n assume n: "n < LENGTH(32)"
  then consider "n < 8" | "8 \<le> n" "n < 16" | "16 \<le> n" "n < 24" | "24 \<le> n" "n < 32" by fastforce
  then show "bit c n = bit (take_bit 8 c XOR push_bit 8 (take_bit 8 (drop_bit 8 c)) XOR push_bit 16 (take_bit 8 (drop_bit 16 c))
    XOR push_bit 24 (take_bit 8 (drop_bit 24 c))) n"
    by cases (simp_all add: bit_simps less_diff_conv2)
qed

lemma crc32_word:
  "adv crc32_step (n + 32) c = adv crc32_step (n + 32) (take_bit 8 c) XOR adv crc32_step (n + 24) (take_bit 8 (drop_bit 8 c))
    XOR adv crc32_step (n + 16) (take_bit 8 (drop_bit 16 c)) XOR adv crc32_step (n + 8) (take_bit 8 (drop_bit 24 c))"
proof -
  have "adv crc32_step (n + 32) (push_bit m (take_bit 8 x)) = adv crc32_step (n + 32 - m) (take_bit 8 x)" if "m \<le> 24" for m x
  proof -
    have "adv crc32_step m (push_bit m (take_bit 8 x)) = take_bit 8 x" using that by (intro crc32.adv_push [of 8]) simp_all
    moreover have "n + 32 = (n + 32 - m) + m" using that by simp
    ultimately show ?thesis by (metis adv_add)
  qed
  then show ?thesis by (subst four_bytes [of c]) (simp add: crc32.adv_xor add.commute)
qed

lemma crc32_slices:
  "crc32_slice8 ! 7 ! unat (a AND 0xFF) XOR crc32_slice8 ! 6 ! unat (drop_bit 8 a AND 0xFF)
     XOR crc32_slice8 ! 5 ! unat (drop_bit 16 a AND 0xFF) XOR crc32_slice8 ! 4 ! unat (drop_bit 24 a AND 0xFF)
     XOR crc32_slice8 ! 3 ! unat (b AND 0xFF) XOR crc32_slice8 ! 2 ! unat (drop_bit 8 b AND 0xFF)
     XOR crc32_slice8 ! 1 ! unat (drop_bit 16 b AND 0xFF) XOR crc32_slice8 ! 0 ! unat (drop_bit 24 b AND 0xFF) =
   adv crc32_step 64 a XOR adv crc32_step 32 b"
  using crc32_word [of 32 a] crc32_word [of 0 b] by (simp only: crc32_lookups) (simp add: xor.assoc)

lemma feed_word: "feed crc32_step 1 crc (lsb_bits (w :: u32)) = adv crc32_step 32 (crc XOR w)"
  using crc32.feed_split [of crc "lsb_bits w"] crc32.lsb_value_short [of w] by (simp add: crc32.adv_xor crc32.lsb_value_def)

lemma crc32_slice8_loop_result:
  "len \<le> length data \<Longrightarrow> \<exists>crc' data' len'. crc32_slice8_loop crc data len = Some (crc', data', len') \<and>
    len' \<le> length data' \<and> crc32_end crc' data' len' = crc32_end crc data len"
proof (induction crc data len rule: crc32_slice8_loop.induct)
  case (1 crc data len)
  show ?case
  proof (cases "8 \<le> len")
    case True
    let ?l = "word_rcat (rev (take 4 data)) :: u32" and ?h = "word_rcat (rev (take 4 (drop 4 data))) :: u32"
    let ?c = "feed crc32_step 1 crc (lsb_stream (take 8 data))" and ?lo = "word_rcat (rev (take 4 data)) XOR crc"
    have bits: "lsb_bits ?l = lsb_stream (take 4 data)" "lsb_bits ?h = lsb_stream (take 4 (drop 4 data))"
      using True 1(2) by (simp_all add: lsb_bits_load)
    have "lsb_stream (take 8 data) = lsb_bits ?l @ lsb_bits ?h"
      unfolding bits using take_add [of 4 4 data] by simp
    then have "?c = adv crc32_step 64 ?lo XOR adv crc32_step 32 ?h"
      by (simp add: feed_word crc32.adv_xor adv_add [of crc32_step 32 32, simplified] ac_simps)
    note c = this [folded crc32_slices]
    have loads: "crc32_load_le32 data = Some ?l" "crc32_load_le32 (drop 4 data) = Some ?h"
      using True 1(2) by (simp_all add: crc32_load_le32_def mem_read_Some)
    have "crc32_slice8_loop crc data len = crc32_slice8_loop ?c (drop 8 data) (len - 8)"
      by (subst crc32_slice8_loop.simps) (simp only: True if_True loads Option.bind.bind_lunit Let_def c)
    moreover have "crc32_end ?c (drop 8 data) (len - 8) = crc32_end crc data len" using True by (rule crc32_end_split [symmetric])
    ultimately show ?thesis using 1(1) [OF True loads(1) refl loads(2) refl] 1(2) unfolding c [symmetric] by simp
  next
    case False
    then show ?thesis using 1(2) by (subst crc32_slice8_loop.simps) simp
  qed
qed

lemma crc32_byte_loop_result: "len \<le> length data \<Longrightarrow> crc32_byte_loop crc data len = Some (crc32_end crc data len)"
proof (induction crc data len rule: crc32_byte_loop.induct)
  case (2 crc data len)
  then obtain b bs where data: "data = b # bs" by (cases data) auto
  let ?x = "(crc XOR ucast b) AND 0xFF"
  have "feed crc32_step 1 crc (lsb_bits b) = adv crc32_step 8 (crc XOR ucast b)"
    using crc32.feed_split [of crc "lsb_bits b"] crc32.lsb_value_short [of b] by (simp add: crc32.adv_xor crc32.lsb_value_def)
  also have "crc XOR ucast b = ?x XOR push_bit 8 (drop_bit 8 crc)"
    unfolding and_255 by (rule bit_word_eqI) (auto simp: bit_simps dest: bit_imp_le_length)
  also have "adv crc32_step 8 (?x XOR push_bit 8 (drop_bit 8 crc)) = crc32_slice8 ! 0 ! unat ?x XOR drop_bit 8 crc"
  proof -
    have "adv crc32_step 8 (push_bit 8 (drop_bit 8 crc)) = drop_bit 8 crc"
      by (rule crc32.adv_push [of 24]) (simp_all add: drop_bit_small)
    then show ?thesis using crc32_lookup [of 0 "crc XOR ucast b"] by (simp add: crc32.adv_xor)
  qed
  finally show ?case
    using 2 crc32_end_split [of 1 "Suc len" crc data] by (simp add: data arr_get_Some)
qed simp

lemma crc32_slice_by_8_result:
  assumes "len \<le> length data"
  shows "crc32_slice_by_8 crc data len = Some (crc32_end crc data len)"
  using crc32_slice8_loop_result [OF assms, of crc] crc32_byte_loop_result by (auto simp: crc32_slice_by_8_def)

section \<open>The constants\<close>

text \<open>The values of the register after powers of its steps, each a product of two before it.\<close>

lemmas crc32_eval = msb_bits_def lsb_bits_low low_bits_numeral orbit_numeral crc32_step_def bit_32_and

lemma crc32_adv32: "adv crc32_step 32 0x80000000 = 0xEDB88320"
  by (simp add: adv_numeral crc32_step_def bit_32_and)

lemma crc32_adv64: "adv crc32_step 64 0x80000000 = 0xB1E6B092"
  using crc32.adv_mult [of 32 32] by (simp add: crc32_adv32 crc32_eval)

lemma crc32_adv96: "adv crc32_step 96 0x80000000 = 0x6655004F"
  using crc32.adv_mult [of 64 32] by (simp add: crc32_adv64 crc32_adv32 crc32_eval)

lemma crc32_adv128: "adv crc32_step 128 0x80000000 = 0xA06A2517"
  using crc32.adv_mult [of 64 64] by (simp add: crc32_adv64 crc32_eval)

lemma crc32_adv160: "adv crc32_step 160 0x80000000 = 0xBA8CCBE8"
  using crc32.adv_mult [of 128 32] by (simp add: crc32_adv128 crc32_adv32 crc32_eval)

lemma crc32_adv224: "adv crc32_step 224 0x80000000 = 0xAD2A31B3"
  using crc32.adv_mult [of 128 96] by (simp add: crc32_adv128 crc32_adv96 crc32_eval)

lemma crc32_adv256: "adv crc32_step 256 0x80000000 = 0xED627DAE"
  using crc32.adv_mult [of 128 128] by (simp add: crc32_adv128 crc32_eval)

lemma crc32_adv288: "adv crc32_step 288 0x80000000 = 0x78ED02D5"
  using crc32.adv_mult [of 256 32] by (simp add: crc32_adv256 crc32_adv32 crc32_eval)

lemma crc32_adv352: "adv crc32_step 352 0x80000000 = 0xBA1ACA03"
  using crc32.adv_mult [of 256 96] by (simp add: crc32_adv256 crc32_adv96 crc32_eval)

lemma crc32_adv416: "adv crc32_step 416 0x80000000 = 0x1ED8F66E"
  using crc32.adv_mult [of 256 160] by (simp add: crc32_adv256 crc32_adv160 crc32_eval)

lemma crc32_adv480: "adv crc32_step 480 0x80000000 = 0xE3720ACB"
  using crc32.adv_mult [of 256 224] by (simp add: crc32_adv256 crc32_adv224 crc32_eval)

lemma crc32_adv512: "adv crc32_step 512 0x80000000 = 0x88D14467"
  using crc32.adv_mult [of 256 256] by (simp add: crc32_adv256 crc32_eval)

lemma crc32_adv544: "adv crc32_step 544 0x80000000 = 0xAA2215EA"
  using crc32.adv_mult [of 512 32] by (simp add: crc32_adv512 crc32_adv32 crc32_eval)

lemma crc32_adv992: "adv crc32_step 992 0x80000000 = 0xA53FF440"
  using crc32.adv_mult [of 512 480] by (simp add: crc32_adv512 crc32_adv480 crc32_eval)

lemma crc32_adv1024: "adv crc32_step 1024 0x80000000 = 0xD7BBFE6A"
  using crc32.adv_mult [of 512 512] by (simp add: crc32_adv512 crc32_eval)

lemma crc32_adv2016: "adv crc32_step 2016 0x80000000 = 0x99168A18"
  using crc32.adv_mult [of 1024 992] by (simp add: crc32_adv1024 crc32_adv992 crc32_eval)

lemma crc32_adv2048: "adv crc32_step 2048 0x80000000 = 0xEC447F11"
  using crc32.adv_mult [of 1024 1024] by (simp add: crc32_adv1024 crc32_eval)

lemma crc32_adv2080: "adv crc32_step 2080 0x80000000 = 0x8AA13BC5"
  using crc32.adv_mult [of 2048 32] by (simp add: crc32_adv2048 crc32_adv32 crc32_eval)

lemma crc32_adv4096: "adv crc32_step 4096 0x80000000 = 0x8E7EA170"
  using crc32.adv_mult [of 2048 2048] by (simp add: crc32_adv2048 crc32_eval)

lemma crc32_adv8192: "adv crc32_step 8192 0x80000000 = 0x6427800E"
  using crc32.adv_mult [of 4096 4096] by (simp add: crc32_adv4096 crc32_eval)

text \<open>
  A pair of constants folds over \<open>n\<close> bits: the low half holds the value of \<open>n + 32\<close> steps and the high
  half that of \<open>n - 32\<close>, both shifted by one.
\<close>

definition crc32_pair :: "nat \<Rightarrow> m128 \<Rightarrow> bool" where
  "crc32_pair n k \<longleftrightarrow> 32 \<le> n \<and> take_bit 64 k = push_bit 1 (ucast (adv crc32_step (n + 32) 0x80000000)) \<and>
     drop_bit 64 k = push_bit 1 (ucast (adv crc32_step (n - 32) 0x80000000))"

lemma crc32_one: "adv crc32_step n 1 = adv crc32_step (n + 31) 0x80000000"
proof -
  have "adv crc32_step 31 0x80000000 = 1" by (simp add: adv_numeral crc32_step_def bit_32_and)
  then show ?thesis by (simp add: adv_add)
qed

lemma crc32_fold:
  assumes "crc32_pair n k"
  shows "crc32.lsb_value (crc32_fold16 x k) = adv crc32_step n (crc32.lsb_value x)"
proof -
  have "crc32.lsb_value (push_bit 64 (push_bit 1 (ucast c)) :: m128) = adv crc32_step 63 c" for c
    using crc32.lsb_value_long [of 65 c, where ?'b = 128] by (simp only: push_bit_push_bit) simp
  then have "crc32.lsb_value (push_bit 64 (take_bit 64 k)) = adv crc32_step (n + 64) 1"
    "crc32.lsb_value (push_bit 64 (drop_bit 64 k)) = adv crc32_step n 1"
    using assms by (simp_all add: crc32_pair_def crc32_one adv_add [symmetric] add.commute)
  from crc32.lsb_fold [OF this] show ?thesis by (simp add: crc32_fold16_def mm_clmulepi64_def)
qed

lemma crc32_pairs: "crc32_pair 512 crc32_k1k2" "crc32_pair 128 crc32_k3k4"
  "crc32_pair 2048 (mm_set_epi32 0x00000001 0x322D1430 0x00000001 0x1542778A)"
  "crc32_pair 384 (crc32_kl ! 0)" "crc32_pair 256 (crc32_kl ! 1)" "crc32_pair 128 (crc32_kl ! 2)"
  by (simp_all add: crc32_pair_def crc32_k1k2_def crc32_k3k4_def crc32_kl_def mm_set_epi32_def crc32_adv96 crc32_adv160
    crc32_adv224 crc32_adv288 crc32_adv352 crc32_adv416 crc32_adv480 crc32_adv544 crc32_adv2016 crc32_adv2080)

section \<open>Folding\<close>

text \<open>The block of sixteen bytes at an offset, and the four blocks of sixty-four.\<close>

definition lsb_block :: "byte list \<Rightarrow> nat \<Rightarrow> m128" where
  "lsb_block data off = word_rcat (rev (take 16 (drop off data)))"

lemma mm_loadu_block: "off + 16 \<le> length data \<Longrightarrow> mm_loadu data off = Some (lsb_block data off)"
  by (simp add: mm_loadu_def mem_read_Some lsb_block_def)

lemma lsb_bits_block: "off + 16 \<le> length data \<Longrightarrow> lsb_bits (lsb_block data off) = lsb_stream (take 16 (drop off data))"
  by (simp add: lsb_block_def lsb_bits_load)

definition lsb_blocks :: "byte list \<Rightarrow> nat \<Rightarrow> m128 list" where
  "lsb_blocks data off = [lsb_block data off, lsb_block data (off + 16), lsb_block data (off + 32), lsb_block data (off + 48)]"

lemma take_64: "take 64 xs = take 16 xs @ take 16 (drop 16 xs) @ take 16 (drop 32 xs) @ take 16 (drop 48 xs)"
proof -
  have "take (16 + (16 + (16 + 16))) xs = take 16 xs @ take 16 (drop 16 xs) @ take 16 (drop 32 xs) @ take 16 (drop 48 xs)"
    by (simp only: take_add drop_drop) simp
  then show ?thesis by simp
qed

lemma lsb_bits_blocks:
  assumes "off + 64 \<le> length data"
  shows "concat (map lsb_bits (lsb_blocks data off)) = lsb_stream (take 64 (drop off data))"
proof -
  have "lsb_bits (lsb_block data (off + n)) = lsb_stream (take 16 (drop n (drop off data)))" if "n \<le> 48" for n
    using lsb_bits_block [of "off + n" data] that assms by (simp add: add.commute)
  from this [of 0] this [of 16] this [of 32] this [of 48] show ?thesis
    unfolding lsb_blocks_def take_64 [of "drop off data"] by simp
qed

lemma mm512_loadu_blocks: "off + 64 \<le> length data \<Longrightarrow> mm512_loadu data off = Some (lsb_blocks data off)"
  by (simp add: mm512_loadu_def mm_loadu_block lsb_blocks_def)

text \<open>Feeding the bytes of some blocks to a register that stands for folded words.\<close>

lemma feed_lanes:
  assumes "concat (map lsb_bits (ys :: m128 list)) = bs"
  shows "feed crc32_step 1 c bs = adv crc32_step (128 * length ys) c XOR crc32.lsb_lanes ys"
  using crc32.feed_split [of c "concat (map lsb_bits ys)"] unfolding assms [symmetric] by (simp add: crc32.lsb_lanes_def)

lemma crc32_tail_loop_result:
  "len \<le> length data \<Longrightarrow> \<exists>x' data' len'. crc32_tail_loop x0 data len = Some (x', data', len') \<and> len' \<le> length data' \<and>
    crc32_end (crc32.lsb_value x') data' len' = crc32_end (crc32.lsb_value x0) data len"
proof (induction x0 data len rule: crc32_tail_loop.induct)
  case (1 x0 data len)
  show ?case
  proof (cases "16 \<le> len")
    case True
    obtain d where d: "mm_loadu data 0 = Some d" "lsb_bits d = lsb_stream (take 16 data)"
      using mm_loadu_block [of 0 data] lsb_bits_block [of 0 data] True 1(2) by auto
    let ?x = "crc32_fold16 x0 crc32_k3k4 XOR d"
    have "feed crc32_step 1 (crc32.lsb_value x0) (lsb_stream (take 16 data)) = crc32.lsb_value ?x"
      using crc32.feed_split [of "crc32.lsb_value x0" "lsb_bits d"]
      by (simp add: d(2) [symmetric] crc32.value_xor crc32_fold [OF crc32_pairs(2)] crc32.lsb_value_def [of d])
    then have "crc32_end (crc32.lsb_value ?x) (drop 16 data) (len - 16) = crc32_end (crc32.lsb_value x0) data len"
      using crc32_end_split [OF True, of "crc32.lsb_value x0" data] by simp
    moreover have "crc32_tail_loop x0 data len = crc32_tail_loop ?x (drop 16 data) (len - 16)"
      using True d by (subst crc32_tail_loop.simps) simp
    ultimately show ?thesis using 1(1) [OF True d(1)] 1(2) by simp
  next
    case False
    then show ?thesis using 1(2) by (subst crc32_tail_loop.simps) simp
  qed
qed

text \<open>The reduction: each stage weighs the bits that are left, from the highest down.\<close>

lemma mask32_take: "x AND mask32 = take_bit 32 x"
  by (simp add: mask32_def mm_set_epi32_def take_bit_eq_mask mask_eq_exp_minus_1 unsigned_minus_1_eq_mask)

definition crc32_barrett :: "m128 \<Rightarrow> u32" where
  "crc32_barrett z = ucast (drop_bit 32 (z XOR clmul 32 (take_bit 32 (clmul 32 (take_bit 32 z) 0x1F7011641)) 0x1DB710641))"

definition crc32_reduce96 :: "m128 \<Rightarrow> u32" where
  "crc32_reduce96 y = crc32_barrett (drop_bit 32 y XOR clmul 32 (take_bit 32 y) 0x163CD6124)"

lemma take_bit_shorter: "m \<le> n \<Longrightarrow> take_bit n (take_bit m x) = take_bit m (x :: 'a::len word)"
  by (simp add: min_absorb1)

lemma crc32_reduce_stages: "crc32_reduce x = crc32_reduce96 (drop_bit 64 x XOR clmul 64 (take_bit 64 x) 0xCCAA009E)"
proof -
  have k: "take_bit 64 crc32_mupp = 0x1F7011641" "drop_bit 64 crc32_mupp = 0x1DB710641" "take_bit 64 crc32_k5 = 0x163CD6124"
    "drop_bit 64 crc32_k3k4 = 0xCCAA009E"
    by (simp_all add: crc32_mupp_def crc32_k5_def crc32_k3k4_def mm_set_epi32_def)
  have imm: "\<not> bit (0 :: byte) 0" "\<not> bit (0 :: byte) 4" "\<not> bit (0x10 :: byte) 0" "bit (0x10 :: byte) 4" by simp_all
  have c: "clmul 64 (take_bit 64 (take_bit 32 y)) b = clmul 32 (take_bit 32 y) b" for y b :: m128
    by (subst take_bit_shorter, simp, rule clmul_short) simp_all
  show ?thesis
    unfolding crc32_reduce_def crc32_reduce96_def crc32_barrett_def Let_def mask32_take mm_clmulepi64_def
    by (simp only: imm if_True if_False k c)
qed

lemma crc32_barrett_linear: "xor_linear crc32_barrett"
  unfolding crc32_barrett_def by (intro linear)

lemma crc32_reduce96_linear: "xor_linear crc32_reduce96"
  unfolding crc32_reduce96_def by (rule xor_linear_compose [OF crc32_barrett_linear]) (intro linear)

lemma orbit_singles: "i < n \<Longrightarrow> orbit (push_bit 1) n (1 :: 'a::len word) ! i = single i"
proof -
  have "adv (push_bit 1) i (c :: 'a word) = push_bit i c" for i c
    by (induction i arbitrary: c) (simp_all add: push_bit_push_bit del: push_bit_Suc flip: push_bit_push_bit, simp add: push_bit_push_bit)
  then show "i < n \<Longrightarrow> ?thesis" by (simp add: orbit_nth)
qed

text \<open>The last stage is decided by the single bits, one by one.\<close>

lemma crc32_barrett_table: "map crc32_barrett (orbit (push_bit 1) 32 1) = rev (orbit crc32_step 32 0xEDB88320)"
  by (simp add: orbit_numeral crc32_barrett_def clmul_low low_bits_numeral crc32_step_def bit_32_and)

lemma crc32_barrett_single:
  assumes "j < 64"
  shows "crc32_barrett (single j) = adv crc32_step (63 - j) 0x80000000"
proof (cases "j < 32")
  case True
  have "map crc32_barrett (orbit (push_bit 1) 32 1) ! j = rev (orbit crc32_step 32 (adv crc32_step 32 0x80000000)) ! j"
    by (simp only: crc32_barrett_table crc32_adv32)
  then have "crc32_barrett (single j) = adv crc32_step (31 - j) (adv crc32_step 32 0x80000000)"
    using True orbit_singles [of j 32, where 'a = 128] by (simp add: rev_nth orbit_nth)
  also have "\<dots> = adv crc32_step (63 - j) 0x80000000" using True by (simp add: adv_add [symmetric])
  finally show ?thesis .
next
  case False
  have "take_bit 32 (single j :: m128) = 0" by (rule bit_word_eqI) (use False in \<open>auto simp: bit_take_bit_iff bit_exp_iff\<close>)
  moreover have "clmul 32 0 (k :: m128) = 0" for k using clmul_single_out [of 32 64 k] xor_linear_0 [OF clmul_linear [OF xor_linear_id]] by simp
  moreover have "ucast (drop_bit 32 (single j :: m128)) = (single (j - 32) :: u32)"
    by (rule bit_word_eqI) (use False assms in \<open>auto simp: bit_drop_bit_eq bit_exp_iff bit_ucast_iff\<close>)
  ultimately have "crc32_barrett (single j) = single (j - 32)" by (simp add: crc32_barrett_def)
  moreover have "63 - j + (j - 32) = 31" using False assms by simp
  ultimately show ?thesis using crc32.adv_single [of "63 - j" "j - 32"] by simp
qed

lemma take_bit_push_ucast:
  assumes "m + 32 \<le> n"
  shows "take_bit n (push_bit m (ucast (c :: u32))) = (push_bit m (ucast c) :: m128)"
proof (rule bit_word_eqI)
  fix i
  have "i < n" if "bit c (i - m)" "m \<le> i" using bit_imp_le_length [OF that(1)] that(2) assms by simp
  then show "bit (take_bit n (push_bit m (ucast c) :: m128)) i = bit (push_bit m (ucast c) :: m128) i"
    by (auto simp: bit_take_bit_iff bit_push_bit_iff bit_ucast_iff)
qed

lemma crc32_barrett_weigh:
  assumes "take_bit 64 z = z"
  shows "crc32_barrett z = crc32.weigh 64 z"
proof (rule xor_linear_eq_small [of crc32_barrett "crc32.weigh 64" 64])
  show "crc32_barrett (single j) = crc32.weigh 64 (single j :: m128)" if "j < 64" for j
    using that crc32_barrett_single [OF that] crc32.weigh_single [of j 64, where ?'b = 128] by simp
qed (intro crc32_barrett_linear crc32.weigh_linear xor_linear_id assms)+

text \<open>A single bit that the constant of a stage moves to where a register of its value fits.\<close>

lemma crc32_reduce96_weigh:
  assumes "take_bit 96 y = y"
  shows "crc32_reduce96 y = crc32.weigh 96 y"
proof (rule xor_linear_eq_small [of crc32_reduce96 "crc32.weigh 96" 96])
  fix j :: nat assume j: "j < 96"
  have w: "crc32.weigh 96 (single j :: m128) = adv crc32_step (95 - j) 0x80000000"
    using j crc32.weigh_single [of j 96, where ?'b = 128] by simp
  show "crc32_reduce96 (single j) = crc32.weigh 96 (single j :: m128)"
  proof (cases "j < 32")
    case True
    have "take_bit 32 (single j :: m128) = single j" "drop_bit 32 (single j :: m128) = 0"
      by (rule bit_word_eqI, use True in \<open>auto simp: bit_take_bit_iff bit_drop_bit_eq bit_exp_iff\<close>)+
    moreover have "push_bit j (0x163CD6124 :: m128) = push_bit (Suc j) (ucast (0xB1E6B092 :: u32))"
      by (simp add: push_bit_eq_mult)
    ultimately have "crc32_reduce96 (single j) = crc32_barrett (push_bit (Suc j) (ucast (0xB1E6B092 :: u32)))"
      using True by (simp add: crc32_reduce96_def clmul_single)
    also have "\<dots> = crc32.weigh 64 (push_bit (Suc j) (ucast (0xB1E6B092 :: u32)) :: m128)"
      by (rule crc32_barrett_weigh, rule take_bit_push_ucast) (use True in simp)
    also have "\<dots> = adv crc32_step (31 - j) 0xB1E6B092"
      using True crc32.weigh_push [of "Suc j" 64 "0xB1E6B092", where ?'b = 128] by simp
    also have "\<dots> = adv crc32_step (95 - j) 0x80000000"
      using True by (simp add: crc32_adv64 [symmetric] adv_add [symmetric])
    finally show ?thesis by (simp add: w)
  next
    case False
    have "take_bit 32 (single j :: m128) = 0" "drop_bit 32 (single j :: m128) = single (j - 32)"
      by (rule bit_word_eqI, use False j in \<open>auto simp: bit_take_bit_iff bit_drop_bit_eq bit_exp_iff\<close>)+
    then have "crc32_reduce96 (single j) = crc32_barrett (single (j - 32))"
      using xor_linear_0 [OF clmul_linear [OF xor_linear_id], of 32 "0x163CD6124 :: m128"] by (simp add: crc32_reduce96_def)
    then show ?thesis using False j crc32_barrett_single [of "j - 32"] by (simp add: w)
  qed
qed (intro crc32_reduce96_linear crc32.weigh_linear xor_linear_id assms)+

lemma crc32_reduce_result: "crc32_reduce x = crc32.lsb_value x"
proof (rule xor_linear_eq [of crc32_reduce crc32.lsb_value])
  show "xor_linear crc32_reduce"
    unfolding crc32_reduce_stages [abs_def] by (rule xor_linear_compose [OF crc32_reduce96_linear]) (intro linear)
  fix j assume "j < LENGTH(128)"
  then have j: "j < 128" by simp
  have v: "crc32.lsb_value (single j :: m128) = adv crc32_step (159 - j) 0x80000000"
    using j by (simp add: crc32.value_single128 crc32_one)
  show "crc32_reduce (single j) = crc32.lsb_value (single j :: m128)"
  proof (cases "j < 64")
    case True
    have "push_bit j (0xCCAA009E :: m128) = push_bit (Suc j) (ucast (0x6655004F :: u32))"
      by (simp add: push_bit_eq_mult)
    then have "crc32_reduce (single j) = crc32_reduce96 (push_bit (Suc j) (ucast (0x6655004F :: u32)))"
      using True by (simp add: crc32_reduce_stages crc32.halves_single clmul_single)
    also have "\<dots> = crc32.weigh 96 (push_bit (Suc j) (ucast (0x6655004F :: u32)) :: m128)"
      by (rule crc32_reduce96_weigh, rule take_bit_push_ucast) (use True in simp)
    also have "\<dots> = adv crc32_step (63 - j) 0x6655004F"
      using True crc32.weigh_push [of "Suc j" 96 "0x6655004F", where ?'b = 128] by simp
    also have "\<dots> = adv crc32_step (159 - j) 0x80000000"
      using True by (simp add: crc32_adv96 [symmetric] adv_add [symmetric])
    finally show ?thesis by (simp add: v)
  next
    case False
    then have "crc32_reduce (single j) = crc32_reduce96 (single (j - 64))"
      using j xor_linear_0 [OF clmul_linear [OF xor_linear_id], of 64 "0xCCAA009E :: m128"]
      by (simp add: crc32_reduce_stages crc32.halves_single)
    also have "\<dots> = crc32.weigh 96 (single (j - 64) :: m128)"
      by (rule crc32_reduce96_weigh, rule bit_word_eqI) (use False j in \<open>auto simp: bit_take_bit_iff bit_exp_iff\<close>)
    also have "\<dots> = adv crc32_step (159 - j) 0x80000000"
      using False j crc32.weigh_single [of "j - 64" 96, where ?'b = 128] by simp
    finally show ?thesis by (simp add: v)
  qed
qed (intro crc32.value_linear xor_linear_id)

text \<open>Four registers.\<close>

lemma crc32_fold_lanes:
  assumes "crc32_pair n k" and "length ys = length xs"
  shows "crc32.lsb_lanes (map2 (\<lambda>x y. crc32_fold16 x k XOR y) xs ys) = adv crc32_step n (crc32.lsb_lanes xs) XOR crc32.lsb_lanes ys"
  using assms by (intro crc32.lsb_lanes_fold crc32_fold)

lemma crc32_join:
  "crc32.lsb_lanes ((crc32_fold16 x crc32_k3k4 XOR y) # zs) = crc32.lsb_lanes (x # y # zs)"
  by (rule crc32.lanes_join(1) [OF _ crc32_fold [OF crc32_pairs(2)]]) simp

lemma crc32_pclmul_loop_result:
  "len \<le> length data \<Longrightarrow> \<exists>y0 y1 y2 y3 data' len'.
    crc32_pclmul_loop x0 x1 x2 x3 data len = Some (y0, y1, y2, y3, data', len') \<and> len' \<le> length data' \<and>
    crc32_end (crc32.lsb_lanes [y0, y1, y2, y3]) data' len' = crc32_end (crc32.lsb_lanes [x0, x1, x2, x3]) data len"
proof (induction x0 x1 x2 x3 data len rule: crc32_pclmul_loop.induct)
  case (1 x0 x1 x2 x3 data len)
  show ?case
  proof (cases "64 \<le> len")
    case True
    let ?d = "lsb_block data"
    let ?f = "\<lambda>x y. crc32_fold16 x crc32_k1k2 XOR y"
    have loads: "mm_loadu data 0 = Some (?d 0)" "mm_loadu data 16 = Some (?d 16)" "mm_loadu data 32 = Some (?d 32)"
      "mm_loadu data 48 = Some (?d 48)"
      using True 1(2) by (simp_all add: mm_loadu_block)
    have "feed crc32_step 1 (crc32.lsb_lanes [x0, x1, x2, x3]) (lsb_stream (take 64 data)) =
        adv crc32_step 512 (crc32.lsb_lanes [x0, x1, x2, x3]) XOR crc32.lsb_lanes (lsb_blocks data 0)"
      using feed_lanes [OF lsb_bits_blocks [of 0 data]] True 1(2) by (simp add: lsb_blocks_def)
    also have "\<dots> = crc32.lsb_lanes [?f x0 (?d 0), ?f x1 (?d 16), ?f x2 (?d 32), ?f x3 (?d 48)]"
      using crc32_fold_lanes [OF crc32_pairs(1), of "lsb_blocks data 0" "[x0, x1, x2, x3]"] by (simp add: lsb_blocks_def)
    finally have "crc32_end (crc32.lsb_lanes [?f x0 (?d 0), ?f x1 (?d 16), ?f x2 (?d 32), ?f x3 (?d 48)]) (drop 64 data) (len - 64) =
        crc32_end (crc32.lsb_lanes [x0, x1, x2, x3]) data len"
      using crc32_end_split [OF True, of "crc32.lsb_lanes [x0, x1, x2, x3]" data] by simp
    moreover have "crc32_pclmul_loop x0 x1 x2 x3 data len =
        crc32_pclmul_loop (?f x0 (?d 0)) (?f x1 (?d 16)) (?f x2 (?d 32)) (?f x3 (?d 48)) (drop 64 data) (len - 64)"
      by (subst crc32_pclmul_loop.simps) (simp only: True if_True loads Option.bind.bind_lunit)
    ultimately show ?thesis using 1(1) [OF True loads] 1(2) by simp
  next
    case False
    then show ?thesis using 1(2) by (subst crc32_pclmul_loop.simps) simp
  qed
qed

lemma crc32_pclmul_tail_result:
  assumes "len \<le> length data"
  shows "crc32_pclmul_tail x data len = Some (crc32_end (crc32.lsb_value x) data len)"
  using crc32_tail_loop_result [OF assms, of x] crc32_slice_by_8_result
  by (auto simp: crc32_pclmul_tail_def Let_def crc32_reduce_result)

text \<open>The register goes into the first bits of the message.\<close>

lemma crc32_into_lane: "crc32.lsb_lanes ((x XOR ucast c) # zs) = adv crc32_step (128 * Suc (length zs)) c XOR crc32.lsb_lanes ((x :: m128) # zs)"
proof -
  have "crc32.lsb_value (ucast c :: m128) = adv crc32_step 128 c"
    using crc32.lsb_value_long [of 0 c, where ?'b = 128] by simp
  then show ?thesis
    by (simp add: crc32.lsb_lanes_simps crc32.value_xor crc32.adv_xor adv_add [symmetric] ac_simps)
qed

lemma crc32_pclmul_result:
  assumes "len \<le> length data"
  shows "crc32_pclmul crc data len = Some (crc32_end crc data len)"
proof (cases "64 \<le> len")
  case True
  let ?d = "lsb_block data"
  have loads: "mm_loadu data 0 = Some (?d 0)" "mm_loadu data 16 = Some (?d 16)" "mm_loadu data 32 = Some (?d 32)"
    "mm_loadu data 48 = Some (?d 48)"
    using True assms by (simp_all add: mm_loadu_block)
  obtain y0 y1 y2 y3 data' len' where loop:
    "crc32_pclmul_loop (?d 0 XOR ucast crc) (?d 16) (?d 32) (?d 48) (drop 64 data) (len - 64) = Some (y0, y1, y2, y3, data', len')"
    "len' \<le> length data'"
    "crc32_end (crc32.lsb_lanes [y0, y1, y2, y3]) data' len' =
      crc32_end (crc32.lsb_lanes [?d 0 XOR ucast crc, ?d 16, ?d 32, ?d 48]) (drop 64 data) (len - 64)"
    using crc32_pclmul_loop_result [of "len - 64" "drop 64 data" "?d 0 XOR ucast crc" "?d 16" "?d 32" "?d 48"] assms by fastforce
  have "feed crc32_step 1 crc (lsb_stream (take 64 data)) = crc32.lsb_lanes [?d 0 XOR ucast crc, ?d 16, ?d 32, ?d 48]"
    using feed_lanes [OF lsb_bits_blocks [of 0 data], of crc] True assms by (simp add: lsb_blocks_def crc32_into_lane)
  then have "crc32_end (crc32.lsb_lanes [y0, y1, y2, y3]) data' len' = crc32_end crc data len"
    using loop(3) crc32_end_split [OF True, of crc data] by simp
  moreover have "crc32.lsb_value (crc32_fold16 (crc32_fold16 (crc32_fold16 y0 crc32_k3k4 XOR y1) crc32_k3k4 XOR y2) crc32_k3k4 XOR y3) =
      crc32.lsb_lanes [y0, y1, y2, y3]"
    using crc32_join [of "crc32_fold16 (crc32_fold16 y0 crc32_k3k4 XOR y1) crc32_k3k4 XOR y2" y3 "[]"]
      crc32_join [of "crc32_fold16 y0 crc32_k3k4 XOR y1" y2 "[y3]"] crc32_join [of y0 y1 "[y2, y3]"]
    by (simp add: crc32.lsb_lanes_simps(1) crc32.lsb_lanes_simps(2) [of _ "[]"])
  ultimately show ?thesis
    using True loop(2) by (simp add: crc32_pclmul_def loads loop(1) Let_def crc32_pclmul_tail_result)
qed (simp add: crc32_pclmul_def crc32_slice_by_8_result assms)

section \<open>Registers of 512 bits\<close>

abbreviation four :: "'a list \<Rightarrow> bool" where
  "four z \<equiv> length z = 4"

lemma fourE:
  assumes "four z"
  obtains a b c d where "z = [a, b, c, d]"
  using assms by (auto simp: length_Suc_conv eval_nat_numeral)

lemma crc32_fold64_broadcast:
  assumes "four x" and "four d"
  shows "crc32_fold64 x (mm512_broadcast k) d = map2 (\<lambda>x y. crc32_fold16 x k XOR y) x d"
  by (rule fourE [OF assms(1)], rule fourE [OF assms(2)])
    (simp add: crc32_fold64_def mm512_broadcast_def crc32_fold16_def)

lemma four_blocks: "four (lsb_blocks data off)"
  by (simp add: lsb_blocks_def)

lemma four_fold64: "four x \<Longrightarrow> four k \<Longrightarrow> four d \<Longrightarrow> four (crc32_fold64 x k d)"
  by (simp add: crc32_fold64_def)

lemma four_constants: "four crc32_k512" "four crc32_k2048" "four crc32_kl"
  by (simp_all add: crc32_k512_def crc32_k2048_def crc32_kl_def mm512_broadcast_def)

lemma crc32_fold512:
  assumes "four x" and "four y"
  shows "crc32.lsb_lanes (crc32_fold64 x crc32_k512 y @ zs) = crc32.lsb_lanes (x @ y @ zs)"
proof -
  have k: "crc32_k512 = mm512_broadcast crc32_k1k2" by (simp add: crc32_k512_def crc32_k1k2_def)
  have "crc32.lsb_lanes (crc32_fold64 x crc32_k512 y) = crc32.lsb_lanes (x @ y)"
    unfolding k using crc32_fold_lanes [OF crc32_pairs(1), of y x] assms by (simp add: crc32_fold64_broadcast crc32.lanes_append)
  then show ?thesis
    using crc32.lanes_append(1) [of "x @ y" zs] by (simp add: crc32.lanes_append(1) [of _ zs])
qed

lemma take_256: "take 256 xs = take 64 xs @ take 64 (drop 64 xs) @ take 64 (drop 128 xs) @ take 64 (drop 192 xs)"
proof -
  have "take (64 + (64 + (64 + 64))) xs = take 64 xs @ take 64 (drop 64 xs) @ take 64 (drop 128 xs) @ take 64 (drop 192 xs)"
    by (simp only: take_add drop_drop) simp
  then show ?thesis by simp
qed

lemma lsb_bits_blocks4:
  assumes "256 \<le> length data"
  shows "concat (map lsb_bits (lsb_blocks data 0 @ lsb_blocks data 64 @ lsb_blocks data 128 @ lsb_blocks data 192)) = lsb_stream (take 256 data)"
  using assms lsb_bits_blocks [of 0 data] lsb_bits_blocks [of 64 data] lsb_bits_blocks [of 128 data] lsb_bits_blocks [of 192 data]
  by (simp add: take_256 [of data])

lemma crc32_vp_loop4_result:
  "len \<le> length data \<Longrightarrow> four z0 \<Longrightarrow> four z1 \<Longrightarrow> four z2 \<Longrightarrow> four z3 \<Longrightarrow> \<exists>y0 y1 y2 y3 data' len'.
    crc32_vp_loop4 z0 z1 z2 z3 data len = Some (y0, y1, y2, y3, data', len') \<and> len' \<le> length data' \<and>
    four y0 \<and> four y1 \<and> four y2 \<and> four y3 \<and>
    crc32_end (crc32.lsb_lanes (y0 @ y1 @ y2 @ y3)) data' len' = crc32_end (crc32.lsb_lanes (z0 @ z1 @ z2 @ z3)) data len"
proof (induction z0 z1 z2 z3 data len rule: crc32_vp_loop4.induct)
  case (1 z0 z1 z2 z3 data len)
  show ?case
  proof (cases "256 \<le> len")
    case True
    let ?d = "lsb_blocks data" and ?k = "mm_set_epi32 0x00000001 0x322D1430 0x00000001 0x1542778A"
    let ?z = "z0 @ z1 @ z2 @ z3" and ?ds = "lsb_blocks data 0 @ lsb_blocks data 64 @ lsb_blocks data 128 @ lsb_blocks data 192"
    let ?f = "\<lambda>z d. crc32_fold64 z crc32_k2048 d"
    have loads: "mm512_loadu data 0 = Some (?d 0)" "mm512_loadu data 64 = Some (?d 64)" "mm512_loadu data 128 = Some (?d 128)"
      "mm512_loadu data 192 = Some (?d 192)"
      using True 1(2) by (simp_all add: mm512_loadu_blocks)
    have "?f z0 (?d 0) @ ?f z1 (?d 64) @ ?f z2 (?d 128) @ ?f z3 (?d 192) = map2 (\<lambda>x y. crc32_fold16 x ?k XOR y) ?z ?ds"
      using 1(3-6) by (simp add: crc32_k2048_def crc32_fold64_broadcast four_blocks)
    moreover have "crc32.lsb_lanes (map2 (\<lambda>x y. crc32_fold16 x ?k XOR y) ?z ?ds) =
        adv crc32_step 2048 (crc32.lsb_lanes ?z) XOR crc32.lsb_lanes ?ds"
      using 1(3-6) by (intro crc32_fold_lanes crc32_pairs) (simp add: four_blocks)
    moreover have "feed crc32_step 1 (crc32.lsb_lanes ?z) (lsb_stream (take 256 data)) =
        adv crc32_step 2048 (crc32.lsb_lanes ?z) XOR crc32.lsb_lanes ?ds"
      using feed_lanes [OF lsb_bits_blocks4 [of data]] True 1(2) by (simp add: four_blocks)
    ultimately have "crc32_end (crc32.lsb_lanes (?f z0 (?d 0) @ ?f z1 (?d 64) @ ?f z2 (?d 128) @ ?f z3 (?d 192))) (drop 256 data) (len - 256) =
        crc32_end (crc32.lsb_lanes ?z) data len"
      using crc32_end_split [OF True, of "crc32.lsb_lanes ?z" data] by simp
    moreover have "crc32_vp_loop4 z0 z1 z2 z3 data len =
        crc32_vp_loop4 (?f z0 (?d 0)) (?f z1 (?d 64)) (?f z2 (?d 128)) (?f z3 (?d 192)) (drop 256 data) (len - 256)"
      by (subst crc32_vp_loop4.simps) (simp only: True if_True loads Option.bind.bind_lunit)
    ultimately show ?thesis
      using 1(1) [OF True loads] 1(2-6) by (simp add: four_fold64 four_blocks four_constants)
  next
    case False
    then show ?thesis using 1(2-6) by (subst crc32_vp_loop4.simps) simp
  qed
qed

lemma crc32_vp_loop1_result:
  "len \<le> length data \<Longrightarrow> four z \<Longrightarrow> \<exists>y data' len'. crc32_vp_loop1 z data len = Some (y, data', len') \<and> len' \<le> length data' \<and>
    four y \<and> crc32_end (crc32.lsb_lanes y) data' len' = crc32_end (crc32.lsb_lanes z) data len"
proof (induction z data len rule: crc32_vp_loop1.induct)
  case (1 z data len)
  show ?case
  proof (cases "64 \<le> len")
    case True
    let ?d = "lsb_blocks data 0" and ?z = "crc32_fold64 z crc32_k512 (lsb_blocks data 0)"
    have load: "mm512_loadu data 0 = Some ?d" using True 1(2) by (simp add: mm512_loadu_blocks)
    have "feed crc32_step 1 (crc32.lsb_lanes z) (lsb_stream (take 64 data)) = crc32.lsb_lanes ?z"
      using feed_lanes [OF lsb_bits_blocks [of 0 data]] True 1(2,3) crc32_fold512 [OF 1(3) four_blocks, of data 0 "[]"]
      by (simp add: four_blocks crc32.lanes_append)
    then have "crc32_end (crc32.lsb_lanes ?z) (drop 64 data) (len - 64) = crc32_end (crc32.lsb_lanes z) data len"
      using crc32_end_split [OF True, of "crc32.lsb_lanes z" data] by simp
    moreover have "crc32_vp_loop1 z data len = crc32_vp_loop1 ?z (drop 64 data) (len - 64)"
      by (subst crc32_vp_loop1.simps) (simp only: True if_True load Option.bind.bind_lunit)
    ultimately show ?thesis using 1(1) [OF True load] 1(2,3) by (simp add: four_fold64 four_blocks four_constants)
  next
    case False
    then show ?thesis using 1(2,3) by (subst crc32_vp_loop1.simps) simp
  qed
qed

text \<open>The three first lanes are moved onto the last.\<close>

lemma crc32_collapse:
  assumes "four z"
  shows "crc32.lsb_value (mm512_halves (mm512_mask_mov_C0 (crc32_fold64 z crc32_kl [0, 0, 0, 0]) z)) = crc32.lsb_lanes z"
proof -
  obtain a b c d where z: "z = [a, b, c, d]" using assms by (rule fourE)
  have kl: "crc32_kl = [crc32_kl ! 0, crc32_kl ! 1, crc32_kl ! 2, 0]" by (simp add: crc32_kl_def)
  have "mm512_halves (mm512_mask_mov_C0 (crc32_fold64 z crc32_kl [0, 0, 0, 0]) z) =
      (crc32_fold16 a (crc32_kl ! 0) XOR crc32_fold16 c (crc32_kl ! 2)) XOR (crc32_fold16 b (crc32_kl ! 1) XOR d)"
    by (subst kl) (simp add: z mm512_halves_def mm512_mask_mov_C0_def crc32_fold64_def crc32_fold16_def Let_def numeral_3_eq_3 numeral_2_eq_2)
  moreover have "crc32.lsb_lanes [a, b, c, d] = adv crc32_step 384 (crc32.lsb_value a) XOR adv crc32_step 256 (crc32.lsb_value b)
      XOR adv crc32_step 128 (crc32.lsb_value c) XOR crc32.lsb_value d"
    by (simp add: crc32.lsb_lanes_simps del: adv_simps(2))
  ultimately show ?thesis
    by (simp add: z crc32.value_xor crc32_fold [OF crc32_pairs(4)] crc32_fold [OF crc32_pairs(5), simplified]
      crc32_fold [OF crc32_pairs(6)] ac_simps)
qed

lemma crc32_vpclmul_result:
  assumes "len \<le> length data" and "256 \<le> len"
  shows "crc32_vpclmul crc data len = Some (crc32_end crc data len)"
proof -
  let ?d = "lsb_blocks data" and ?z = "map2 (XOR) (lsb_blocks data 0) [ucast crc, 0, 0, 0]"
  have loads: "mm512_loadu data 0 = Some (?d 0)" "mm512_loadu data 64 = Some (?d 64)" "mm512_loadu data 128 = Some (?d 128)"
    "mm512_loadu data 192 = Some (?d 192)"
    using assms by (simp_all add: mm512_loadu_blocks)
  have z: "?z = (lsb_block data 0 XOR ucast crc) # tl (?d 0)" by (simp add: lsb_blocks_def)
  have "feed crc32_step 1 crc (lsb_stream (take 256 data)) = crc32.lsb_lanes (?z @ ?d 64 @ ?d 128 @ ?d 192)"
    using feed_lanes [OF lsb_bits_blocks4 [of data], of crc] assms unfolding z
    by (simp add: crc32_into_lane four_blocks) (simp add: lsb_blocks_def)
  then have start: "crc32_end (crc32.lsb_lanes (?z @ ?d 64 @ ?d 128 @ ?d 192)) (drop 256 data) (len - 256) = crc32_end crc data len"
    using crc32_end_split [OF assms(2), of crc data] by simp
  have "len - 256 \<le> length (drop 256 data)" using assms by simp
  from crc32_vp_loop4_result [OF this, of ?z "?d 64" "?d 128" "?d 192"] obtain y0 y1 y2 y3 data' len' where loop4:
    "crc32_vp_loop4 ?z (?d 64) (?d 128) (?d 192) (drop 256 data) (len - 256) = Some (y0, y1, y2, y3, data', len')"
    "len' \<le> length data'" "four y0" "four y1" "four y2" "four y3"
    "crc32_end (crc32.lsb_lanes (y0 @ y1 @ y2 @ y3)) data' len' = crc32_end crc data len"
    using start by (auto simp: four_blocks)
  let ?w = "crc32_fold64 (crc32_fold64 (crc32_fold64 y0 crc32_k512 y1) crc32_k512 y2) crc32_k512 y3"
  note four = four_fold64 four_constants loop4(3-6)
  have "crc32.lsb_lanes ?w = crc32.lsb_lanes (y0 @ y1 @ y2 @ y3)"
    using crc32_fold512 [of "crc32_fold64 (crc32_fold64 y0 crc32_k512 y1) crc32_k512 y2" y3 "[]"]
      crc32_fold512 [of "crc32_fold64 y0 crc32_k512 y1" y2 y3] crc32_fold512 [of y0 y1 "y2 @ y3"]
    by (simp add: four)
  with crc32_vp_loop1_result [OF loop4(2), of ?w] loop4(7) obtain y data'' len'' where loop1:
    "crc32_vp_loop1 ?w data' len' = Some (y, data'', len'')" "len'' \<le> length data''" "four y"
    "crc32_end (crc32.lsb_lanes y) data'' len'' = crc32_end crc data len"
    by (auto simp: four)
  show ?thesis
    by (simp add: crc32_vpclmul_def loads loop4(1) loop1 Let_def crc32_pclmul_tail_result crc32_collapse)
qed

section \<open>ARM\<close>

lemma crc32_arm_orbit: "orbit crc32_step 32 (adv crc32_step 8192 0x80000000) =
  [0x6427800E, 0x3213C007, 0xF4B16323, 0x97E032B1, 0xA6489A78, 0x53244D3C, 0x2992269E, 0x14C9134F, 0xE7DC0A87,
   0x9E568663, 0xA293C011, 0xBCF16328, 0x5E78B194, 0x2F3C58CA, 0x179E2C65, 0xE6779512, 0x733BCA89, 0xD4256664,
   0x6A12B332, 0x35095999, 0xF73C2FEC, 0x7B9E17F6, 0x3DCF0BFB, 0xF35F06DD, 0x9417004E, 0x4A0B8027, 0xC8BD4333,
   0x89E622B9, 0xA94B927C, 0x54A5C93E, 0x2A52E49F, 0xF891F16F]"
  by (simp add: crc32_adv8192 orbit_numeral crc32_step_def bit_32_and)

lemma rev_upt_4: "rev (map f [0..<4]) = map (\<lambda>i. f (3 - i)) [0..<4]"
  by (rule nth_equalityI) (simp_all add: rev_nth)

text \<open>The tables advance a register over a lane of 1024 bytes of zeros, one nibble at a time.\<close>

lemma crc32_arm_rows: "j < 8 \<Longrightarrow> crc32_arm_on ! j = span (take 4 (drop (28 - 4 * j) (orbit crc32_step 32 (adv crc32_step 8192 0x80000000))))"
  unfolding crc32_arm_orbit below_8 by (elim disjE) (simp_all add: crc32_arm_on_def span.simps)

lemma crc32_arm_entry:
  assumes "j < 8" and "i < 16"
  shows "crc32_arm_on ! j ! i = adv crc32_step 8192 (push_bit (4 * j) (of_nat i))"
proof -
  have "adv crc32_step 8192 (single (31 - m)) = adv crc32_step m (adv crc32_step 8192 0x80000000)" if "m \<le> 31" for m
    using that crc32.adv_single [of m "31 - m"] by (subst adv_commute) simp
  then have "adv crc32_step 8192 (push_bit (4 * j) (single (3 - k))) = adv crc32_step (28 - 4 * j + k) (adv crc32_step 8192 0x80000000)" if "k < 4" for k
  proof -
    have "28 - 4 * j + k \<le> 31" "4 * j + (3 - k) = 31 - (28 - 4 * j + k)" using that assms(1) by simp_all
    then show ?thesis using \<open>\<And>m. m \<le> 31 \<Longrightarrow> adv crc32_step 8192 (single (31 - m)) = adv crc32_step m (adv crc32_step 8192 0x80000000)\<close>
      by (simp only: push_single)
  qed
  then have "rev (map (\<lambda>k. adv crc32_step 8192 (push_bit (4 * j) (single k))) [0..<4]) =
      take 4 (drop (28 - 4 * j) (orbit crc32_step 32 (adv crc32_step 8192 0x80000000)))"
    using assms(1) by (subst take_drop_orbit) (auto simp: rev_upt_4)
  then show ?thesis
    using span_nth [of "\<lambda>c. adv crc32_step 8192 (push_bit (4 * j) c)" i 4] assms(2) crc32_arm_rows [OF assms(1)]
      crc32.adv_linear [OF xor_linear_bits(1) [OF xor_linear_id]] by simp
qed

lemma eight_nibbles:
  "c = take_bit 4 c XOR push_bit 4 (take_bit 4 (drop_bit 4 c)) XOR push_bit 8 (take_bit 4 (drop_bit 8 c))
    XOR push_bit 12 (take_bit 4 (drop_bit 12 c)) XOR push_bit 16 (take_bit 4 (drop_bit 16 c))
    XOR push_bit 20 (take_bit 4 (drop_bit 20 c)) XOR push_bit 24 (take_bit 4 (drop_bit 24 c))
    XOR push_bit 28 (take_bit 4 (drop_bit 28 c))" for c :: u32
proof (rule bit_word_eqI)
  fix n assume n: "n < LENGTH(32)"
  then consider "n < 4" | "4 \<le> n" "n < 8" | "8 \<le> n" "n < 12" | "12 \<le> n" "n < 16" | "16 \<le> n" "n < 20" | "20 \<le> n" "n < 24"
    | "24 \<le> n" "n < 28" | "28 \<le> n" "n < 32" by fastforce
  then show "bit c n = bit (take_bit 4 c XOR push_bit 4 (take_bit 4 (drop_bit 4 c)) XOR push_bit 8 (take_bit 4 (drop_bit 8 c))
    XOR push_bit 12 (take_bit 4 (drop_bit 12 c)) XOR push_bit 16 (take_bit 4 (drop_bit 16 c))
    XOR push_bit 20 (take_bit 4 (drop_bit 20 c)) XOR push_bit 24 (take_bit 4 (drop_bit 24 c))
    XOR push_bit 28 (take_bit 4 (drop_bit 28 c))) n"
    by cases (simp_all add: bit_simps less_diff_conv2)
qed

lemma crc32_arm_lane_on_result: "crc32_arm_lane_on c = adv crc32_step 8192 c"
proof -
  have "crc32_arm_on ! j ! unat (x AND 15) = adv crc32_step 8192 (push_bit (4 * j) (take_bit 4 x))" if "j < 8" for j x
  proof -
    have "unat (x AND 15) < 16" using unat_and_mask [of x 4] by (simp add: mask_eq_exp_minus_1)
    moreover have "x AND 15 = take_bit 4 x" by (simp add: take_bit_eq_mask mask_eq_exp_minus_1)
    ultimately show ?thesis using crc32_arm_entry [OF that, of "unat (x AND 15)"] by simp
  qed
  note e = this [of 0, simplified] this [of 1, simplified] this [of 2, simplified] this [of 3, simplified]
    this [of 4, simplified] this [of 5, simplified] this [of 6, simplified] this [of 7, simplified]
  have "drop_bit 28 c = drop_bit 28 c AND 15"
    using drop_bit_small [of 28 4 c] by (simp add: take_bit_eq_mask mask_eq_exp_minus_1)
  then have "crc32_arm_lane_on c = crc32_arm_on ! 0 ! unat (c AND 15) XOR crc32_arm_on ! Suc 0 ! unat (drop_bit 4 c AND 15)
     XOR crc32_arm_on ! 2 ! unat (drop_bit 8 c AND 15) XOR crc32_arm_on ! 3 ! unat (drop_bit 12 c AND 15)
     XOR crc32_arm_on ! 4 ! unat (drop_bit 16 c AND 15) XOR crc32_arm_on ! 5 ! unat (drop_bit 20 c AND 15)
     XOR crc32_arm_on ! 6 ! unat (drop_bit 24 c AND 15) XOR crc32_arm_on ! 7 ! unat (drop_bit 28 c AND 15)"
    by (simp only: crc32_arm_lane_on_def One_nat_def)
  also have "\<dots> = adv crc32_step 8192 c"
    by (subst (9) eight_nibbles [of c]) (simp only: e crc32.adv_xor)
  finally show ?thesis .
qed

text \<open>The loops.\<close>

lemma arm_align_loop_result:
  "len \<le> length data \<Longrightarrow> \<exists>crc' data' len'. arm_align_loop addr crc data len = Some (crc', data', len') \<and>
    len' \<le> length data' \<and> crc32_end crc' data' len' = crc32_end crc data len"
proof (induction addr crc data len rule: arm_align_loop.induct)
  case (2 addr crc data len)
  then obtain b bs where data: "data = b # bs" by (cases data) auto
  have "crc32_end crc data (Suc len) = crc32_end (arm_crc32b crc b) bs len"
    using crc32_end_split [of 1 "Suc len" crc data] by (simp add: data arm_crc32b_def)
  then show ?case using 2 by (auto simp: data arr_get_Some)
qed simp

lemma arm_load64_result:
  assumes "off + 8 \<le> length data"
  shows "\<exists>v. arm_load64 data off = Some v \<and> lsb_bits v = lsb_stream (take 8 (drop off data))"
  using assms by (simp add: arm_load64_def mem_read_Some lsb_bits_load)

lemma lsb_stream_take_add: "lsb_stream (take (m + n) xs) = lsb_stream (take m xs) @ lsb_stream (take n (drop m xs))"
  by (simp add: take_add)

lemma arm_lane_loop_result:
  "i + 8 * n \<le> 1024 \<Longrightarrow> 3072 \<le> length data \<Longrightarrow> arm_lane_loop n i crc c1 c2 data = Some
    (feed crc32_step 1 crc (lsb_stream (take (8 * n) (drop i data))),
     feed crc32_step 1 c1 (lsb_stream (take (8 * n) (drop (1024 + i) data))),
     feed crc32_step 1 c2 (lsb_stream (take (8 * n) (drop (2048 + i) data))))"
proof (induction n arbitrary: i crc c1 c2)
  case (Suc n)
  obtain v0 v1 v2 where v: "arm_load64 data i = Some v0" "lsb_bits v0 = lsb_stream (take 8 (drop i data))"
    "arm_load64 data (i + 1024) = Some v1" "lsb_bits v1 = lsb_stream (take 8 (drop (i + 1024) data))"
    "arm_load64 data (i + 2048) = Some v2" "lsb_bits v2 = lsb_stream (take 8 (drop (i + 2048) data))"
    using arm_load64_result [of i data] arm_load64_result [of "i + 1024" data] arm_load64_result [of "i + 2048" data] Suc.prems by auto
  have "lsb_stream (take (8 * Suc n) xs) = lsb_stream (take 8 xs) @ lsb_stream (take (8 * n) (drop 8 xs))" for xs
    using lsb_stream_take_add [of 8 "8 * n" xs] by simp
  then show ?case
    using Suc.IH [of "i + 8"] Suc.prems by (simp add: CRC32_ARM_LANE_def v arm_crc32d_def ac_simps del: mult_Suc_right)
qed simp

lemma arm_three_loop_result:
  "len \<le> length data \<Longrightarrow> \<exists>crc' data' len'. arm_three_loop crc data len = Some (crc', data', len') \<and>
    len' \<le> length data' \<and> crc32_end crc' data' len' = crc32_end crc data len"
proof (induction crc data len rule: arm_three_loop.induct)
  case (1 crc data len)
  show ?case
  proof (cases "3 * CRC32_ARM_LANE \<le> len")
    case True
    then have len: "3072 \<le> len" by (simp add: CRC32_ARM_LANE_def)
    let ?a = "lsb_stream (take 1024 data)" and ?b = "lsb_stream (take 1024 (drop 1024 data))"
      and ?c = "lsb_stream (take 1024 (drop 2048 data))"
    have lanes: "arm_lane_loop (CRC32_ARM_LANE div 8) 0 crc 0 0 data = Some (feed crc32_step 1 crc ?a, feed crc32_step 1 0 ?b, feed crc32_step 1 0 ?c)"
      using arm_lane_loop_result [of 0 128 data crc 0 0] len 1(2) by (simp add: CRC32_ARM_LANE_def)
    have "take (1024 + (1024 + 1024)) data = take 1024 data @ take 1024 (drop 1024 data) @ take 1024 (drop 2048 data)"
      by (simp only: take_add drop_drop) simp
    then have "lsb_stream (take 3072 data) = ?a @ ?b @ ?c" by simp
    moreover have "length ?b = 8192" "length ?c = 8192" using len 1(2) by (simp_all add: length_stream)
    ultimately have f: "feed crc32_step 1 crc (lsb_stream (take (3 * CRC32_ARM_LANE) data)) =
        crc32_arm_lane_on (crc32_arm_lane_on (feed crc32_step 1 crc ?a) XOR feed crc32_step 1 0 ?b) XOR feed crc32_step 1 0 ?c"
      using crc32.feed_split [of "feed crc32_step 1 crc ?a" ?b] crc32.feed_split [of "feed crc32_step 1 (feed crc32_step 1 crc ?a) ?b" ?c]
      by (simp add: CRC32_ARM_LANE_def crc32_arm_lane_on_result)
    have "arm_three_loop crc data len = arm_three_loop (feed crc32_step 1 crc (lsb_stream (take (3 * CRC32_ARM_LANE) data)))
        (drop (3 * CRC32_ARM_LANE) data) (len - 3 * CRC32_ARM_LANE)"
      by (subst arm_three_loop.simps) (simp only: True if_True lanes Option.bind.bind_lunit prod.case f)
    moreover note crc32_end_split [OF True, of crc data, symmetric]
    moreover have "len - 3 * CRC32_ARM_LANE \<le> length (drop (3 * CRC32_ARM_LANE) data)" using 1(2) by simp
    ultimately show ?thesis using 1(1) [OF True lanes refl refl] unfolding f by simp
  next
    case False
    then show ?thesis using 1(2) by (subst arm_three_loop.simps) simp
  qed
qed

lemma arm_eight_loop_result:
  "len \<le> length data \<Longrightarrow> \<exists>crc' data' len'. arm_eight_loop crc data len = Some (crc', data', len') \<and>
    len' \<le> length data' \<and> crc32_end crc' data' len' = crc32_end crc data len"
proof (induction crc data len rule: arm_eight_loop.induct)
  case (1 crc data len)
  show ?case
  proof (cases "8 \<le> len")
    case True
    obtain v where v: "arm_load64 data 0 = Some v" "lsb_bits v = lsb_stream (take 8 data)"
      using arm_load64_result [of 0 data] True 1(2) by auto
    have "arm_eight_loop crc data len = arm_eight_loop (arm_crc32d crc v) (drop 8 data) (len - 8)"
      by (subst arm_eight_loop.simps) (simp only: True if_True v Option.bind.bind_lunit)
    moreover have "crc32_end (arm_crc32d crc v) (drop 8 data) (len - 8) = crc32_end crc data len"
      using crc32_end_split [OF True, of crc data] by (simp add: arm_crc32d_def v)
    ultimately show ?thesis using 1(1) [OF True v(1)] 1(2) by simp
  next
    case False
    then show ?thesis using 1(2) by (subst arm_eight_loop.simps) simp
  qed
qed

lemma arm_byte_loop_result: "len \<le> length data \<Longrightarrow> arm_byte_loop crc data len = Some (crc32_end crc data len)"
proof (induction crc data len rule: arm_byte_loop.induct)
  case (2 crc data len)
  then obtain b bs where data: "data = b # bs" by (cases data) auto
  have "crc32_end crc data (Suc len) = crc32_end (arm_crc32b crc b) bs len"
    using crc32_end_split [of 1 "Suc len" crc data] by (simp add: data arm_crc32b_def)
  then show ?case using 2 by (simp add: data arr_get_Some)
qed simp

lemma crc32_arm_result:
  assumes "len \<le> length data"
  shows "crc32_arm addr crc data len = Some (crc32_end crc data len)"
proof -
  obtain c1 d1 l1 where 1: "arm_align_loop addr crc data len = Some (c1, d1, l1)" "l1 \<le> length d1" "crc32_end c1 d1 l1 = crc32_end crc data len"
    using arm_align_loop_result [OF assms, of addr crc] by auto
  obtain c2 d2 l2 where 2: "arm_three_loop c1 d1 l1 = Some (c2, d2, l2)" "l2 \<le> length d2" "crc32_end c2 d2 l2 = crc32_end crc data len"
    using arm_three_loop_result [OF 1(2), of c1] 1(3) by auto
  obtain c3 d3 l3 where 3: "arm_eight_loop c2 d2 l2 = Some (c3, d3, l3)" "l3 \<le> length d3" "crc32_end c3 d3 l3 = crc32_end crc data len"
    using arm_eight_loop_result [OF 2(2), of c2] 2(3) by auto
  show ?thesis by (simp add: crc32_arm_def 1(1) 2(1) 3(1) arm_byte_loop_result 3(2,3))
qed

lemma encoding_crc32_result:
  assumes "len \<le> length data"
  shows "encoding_crc32 u addr crc data len = Some (NOT (crc32_end (NOT crc) data len))"
proof -
  have "(case u of
      Arm has_crc32 \<Rightarrow> if has_crc32 then crc32_arm addr (NOT crc) data len else crc32_slice_by_8 (NOT crc) data len
    | X86 vpclmul pclmul \<Rightarrow>
        if len \<ge> 256 \<and> vpclmul then crc32_vpclmul (NOT crc) data len
        else if len \<ge> 64 \<and> pclmul then crc32_pclmul (NOT crc) data len
        else crc32_slice_by_8 (NOT crc) data len
    | Portable \<Rightarrow> crc32_slice_by_8 (NOT crc) data len) = Some (crc32_end (NOT crc) data len)"
    using assms by (cases u) (simp_all add: crc32_slice_by_8_result crc32_pclmul_result crc32_vpclmul_result crc32_arm_result)
  then show ?thesis by (simp add: encoding_crc32_def Let_def)
qed

section \<open>Properties\<close>

text \<open>
  C11. whatever unit computes it and wherever the data lies, \<open>encoding_crc32\<close> is the register of the
  reflected polynomial after every bit of the data, inverted before and after: the slicing tables, the
  two ways of folding with their reduction, and the interleaved streams of ARM all agree, on any
  length, and no byte beyond the data is read.
\<close>

theorem encoding_crc32_correct:
  assumes "len \<le> length data"
  shows "encoding_crc32 u addr crc data len = Some (NOT (feed crc32_step 1 (NOT crc) (lsb_stream (take len data))))"
  using encoding_crc32_result [OF assms] by (simp add: crc32_end_def)

text \<open>The witness: the check value of the CRC-32, of the digits \<open>1\<close> to \<open>9\<close>.\<close>

theorem encoding_crc32_correct_witness:
  "encoding_crc32 (Arm True) 3 0 [0x31, 0x32, 0x33, 0x34, 0x35, 0x36, 0x37, 0x38, 0x39] 9 = Some 0xCBF43926"
  using encoding_crc32_correct [of 9 "[0x31, 0x32, 0x33, 0x34, 0x35, 0x36, 0x37, 0x38, 0x39]" "Arm True" 3 0]
  by (simp add: lsb_bits_low low_bits_numeral crc32_step_def bit_32_and)

lemma crc32_step_inj: "crc32_step c = 0 \<Longrightarrow> c = 0"
proof -
  assume s: "crc32_step c = 0"
  have "bit (crc32_step c) 31 = bit c 0" by (auto simp: crc32_step_def bit_simps dest: bit_imp_le_length)
  then have "\<not> bit c 0" using s by simp
  then have "drop_bit 1 c = 0" using s by (simp add: crc32_step_def)
  show "c = 0"
  proof (rule bit_word_eqI)
    fix n assume "n < LENGTH(32)"
    show "bit c n = bit 0 n"
    proof (cases n)
      case (Suc m)
      have "bit (drop_bit 1 c) m = bit c (Suc m)" by (simp add: bit_drop_bit_eq)
      then show ?thesis using \<open>drop_bit 1 c = 0\<close> Suc by simp
    qed (use \<open>\<not> bit c 0\<close> in simp)
  qed
qed

lemma crc32_adv_inj: "adv crc32_step n c = 0 \<Longrightarrow> c = 0"
  by (induction n arbitrary: c) (auto dest: crc32_step_inj)

lemma lsb_bits_onto:
  assumes "length ds = LENGTH('b)"
  shows "\<exists>w :: 'b::len word. lsb_bits w = ds"
proof -
  have "lsb_bits (horner_sum of_bool 2 ds :: 'b word) = ds"
    using assms by (intro nth_equalityI) (auto simp: lsb_bits_def bit_horner_sum_bit_iff)
  then show ?thesis by blast
qed

lemma crc32_short_stream:
  assumes "length ds \<le> 32" and "feed crc32_step 1 0 ds = 0"
  shows "ds = replicate (length ds) False"
proof -
  let ?es = "ds @ replicate (32 - length ds) False"
  have "length ?es = LENGTH(32)" using assms(1) by simp
  then obtain w :: u32 where w: "lsb_bits w = ?es" using lsb_bits_onto by blast
  have "feed crc32_step 1 0 ?es = 0" using assms(2) by (simp add: crc32.adv_0)
  then have "adv crc32_step 32 w = 0"
    using crc32.lsb_value_short [of w] unfolding crc32.lsb_value_def w by simp
  then have "w = 0" by (rule crc32_adv_inj)
  then have "?es = replicate 32 False" using w by (simp add: lsb_bits_0)
  then have "take (length ds) ?es = take (length ds) (replicate 32 False)" by simp
  then show ?thesis using assms(1) by (simp add: min_absorb1)
qed

lemma map2_neq_same: "length xs = length ys \<Longrightarrow> map2 (\<noteq>) xs ys = replicate (length xs) False \<Longrightarrow> xs = ys"
  by (induction xs ys rule: list_induct2) auto

text \<open>
  C13. the checksum detects every burst of errors within 32 bits: two sequences of bytes of the same
  length whose bits differ, but only in a window of 32, have different checksums, on any unit.
\<close>

theorem encoding_crc32_detects_bursts:
  assumes "lsb_stream xs = p @ x @ s" and "lsb_stream ys = p @ y @ s" and "length x = length y" and "length x \<le> 32" and "x \<noteq> y"
  shows "encoding_crc32 u addr crc xs (length xs) \<noteq> encoding_crc32 u addr crc ys (length ys)"
proof -
  let ?d = "map2 (\<noteq>) x y" and ?f = "feed crc32_step 1"
  have "?f 0 ?d \<noteq> 0"
    using crc32_short_stream [of ?d] map2_neq_same [OF assms(3)] assms(3-5) by auto
  then have "adv crc32_step (length s) (?f 0 ?d) \<noteq> 0" using crc32_adv_inj by blast
  moreover have "?f (?f (?f c p) x) s XOR ?f (?f (?f c p) y) s = adv crc32_step (length s) (?f 0 ?d)" for c
    using crc32.feed_xor [OF assms(3), of "?f c p" "?f c p"] crc32.feed_split [of "?f (?f c p) x" s] crc32.feed_split [of "?f (?f c p) y" s]
    by (simp add: crc32.adv_xor ac_simps)
  ultimately have "?f (?f (?f c p) x) s \<noteq> ?f (?f (?f c p) y) s" for c
    by (metis xor_self_eq)
  then have "crc32_end (NOT crc) xs (length xs) \<noteq> crc32_end (NOT crc) ys (length ys)"
    by (simp only: crc32_end_def take_all order_refl assms(1,2) feed_append) simp
  then show ?thesis by (simp only: encoding_crc32_result order_refl option.inject bit.compl_eq_compl_iff) simp
qed

theorem encoding_crc32_detects_bursts_witness:
  "encoding_crc32 Portable 0 0 [0x41, 0x42] 2 \<noteq> encoding_crc32 Portable 0 0 [0x41, 0x43] 2"
  using encoding_crc32_detects_bursts [of "[0x41, 0x42]" "lsb_bits (0x41 :: byte)" "lsb_bits (0x42 :: byte)" "[]" "[0x41, 0x43]" "lsb_bits (0x43 :: byte)" Portable 0 0]
  by (simp add: lsb_bits_low low_bits_numeral numeral_2_eq_2)

end
