(* ===== verification/CrcMsb.thy ===== *)
theory CrcMsb
  imports Crc32
begin

text \<open>
  The checksums of \<open>encodings/encoding_crc32.c\<close> that take the high bit of a byte first: the CRC-32 of
  Ogg and the CRC-16 of CCITT. Each has its slicing tables, and both share the folding code, which a
  record of constants and the function of the tables parameterise. The locale states what that code
  needs of the record; it is interpreted on the two records of the file.
\<close>

section \<open>The tables\<close>

function crc16_slice8_loop :: "16 word \<Rightarrow> byte list \<Rightarrow> nat \<Rightarrow> (16 word \<times> byte list \<times> nat) option" where
  "crc16_slice8_loop crc data len =
     (if len \<ge> 8 then do {
        d0 \<leftarrow> arr_get data 0;
        d1 \<leftarrow> arr_get data 1;
        d2 \<leftarrow> arr_get data 2;
        d3 \<leftarrow> arr_get data 3;
        d4 \<leftarrow> arr_get data 4;
        d5 \<leftarrow> arr_get data 5;
        d6 \<leftarrow> arr_get data 6;
        d7 \<leftarrow> arr_get data 7;
        let crc = crc16_ccitt_slice8 ! 7 ! unat (ucast (ucast d0 XOR drop_bit 8 crc) :: byte)
            XOR crc16_ccitt_slice8 ! 6 ! unat (ucast (ucast d1 XOR crc) :: byte)
            XOR crc16_ccitt_slice8 ! 5 ! unat d2
            XOR crc16_ccitt_slice8 ! 4 ! unat d3
            XOR crc16_ccitt_slice8 ! 3 ! unat d4
            XOR crc16_ccitt_slice8 ! 2 ! unat d5
            XOR crc16_ccitt_slice8 ! 1 ! unat d6
            XOR crc16_ccitt_slice8 ! 0 ! unat d7;
        crc16_slice8_loop crc (drop 8 data) (len - 8) }
      else Some (crc, data, len))"
  by pat_completeness auto
termination by (relation "measure (\<lambda>(crc, data, len). len)") auto

fun crc16_byte_loop :: "16 word \<Rightarrow> byte list \<Rightarrow> nat \<Rightarrow> 16 word option" where
  "crc16_byte_loop crc data 0 = Some crc"
| "crc16_byte_loop crc data (Suc len) = do {
     b \<leftarrow> arr_get data 0;
     crc16_byte_loop (push_bit 8 crc XOR crc16_ccitt_slice8 ! 0 ! unat (ucast (drop_bit 8 crc XOR ucast b) :: byte)) (drop 1 data) len }"

definition crc16_ccitt_table :: "u32 \<Rightarrow> byte list \<Rightarrow> nat \<Rightarrow> u32 option" where
  "crc16_ccitt_table seed data len = do {
     (crc, data, len) \<leftarrow> crc16_slice8_loop (ucast seed) data len;
     map_option ucast (crc16_byte_loop crc data len) }"

function ogg_slice8_loop :: "u32 \<Rightarrow> byte list \<Rightarrow> nat \<Rightarrow> (u32 \<times> byte list \<times> nat) option" where
  "ogg_slice8_loop crc data len =
     (if len \<ge> 8 then do {
        d0 \<leftarrow> arr_get data 0;
        d1 \<leftarrow> arr_get data 1;
        d2 \<leftarrow> arr_get data 2;
        d3 \<leftarrow> arr_get data 3;
        d4 \<leftarrow> arr_get data 4;
        d5 \<leftarrow> arr_get data 5;
        d6 \<leftarrow> arr_get data 6;
        d7 \<leftarrow> arr_get data 7;
        let crc = crc XOR (push_bit 24 (ucast d0) OR push_bit 16 (ucast d1) OR push_bit 8 (ucast d2) OR ucast d3);
        let crc = crc32_ogg_slice8 ! 7 ! unat (drop_bit 24 crc AND 0xFF)
            XOR crc32_ogg_slice8 ! 6 ! unat (drop_bit 16 crc AND 0xFF)
            XOR crc32_ogg_slice8 ! 5 ! unat (drop_bit 8 crc AND 0xFF)
            XOR crc32_ogg_slice8 ! 4 ! unat (crc AND 0xFF)
            XOR crc32_ogg_slice8 ! 3 ! unat d4
            XOR crc32_ogg_slice8 ! 2 ! unat d5
            XOR crc32_ogg_slice8 ! 1 ! unat d6
            XOR crc32_ogg_slice8 ! 0 ! unat d7;
        ogg_slice8_loop crc (drop 8 data) (len - 8) }
      else Some (crc, data, len))"
  by pat_completeness auto
termination by (relation "measure (\<lambda>(crc, data, len). len)") auto

fun ogg_byte_loop :: "u32 \<Rightarrow> byte list \<Rightarrow> nat \<Rightarrow> u32 option" where
  "ogg_byte_loop crc data 0 = Some crc"
| "ogg_byte_loop crc data (Suc len) = do {
     b \<leftarrow> arr_get data 0;
     ogg_byte_loop (push_bit 8 crc XOR crc32_ogg_slice8 ! 0 ! unat (ucast (drop_bit 24 crc) XOR b)) (drop 1 data) len }"

definition crc32_ogg_table :: "u32 \<Rightarrow> byte list \<Rightarrow> nat \<Rightarrow> u32 option" where
  "crc32_ogg_table crc data len = do {
     (crc, data, len) \<leftarrow> ogg_slice8_loop crc data len;
     ogg_byte_loop crc data len }"

section \<open>Folding\<close>

record crc_msb =
  msb_k576 :: u32
  msb_k512 :: u32
  msb_k192 :: u32
  msb_k128 :: u32
  msb_k2112 :: u32
  msb_k2048 :: u32
  msb_k448 :: u32
  msb_k384 :: u32
  msb_k320 :: u32
  msb_k256 :: u32
  msb_width :: nat
  msb_table :: "u32 \<Rightarrow> byte list \<Rightarrow> nat \<Rightarrow> u32 option"

definition crc_msb_ogg :: crc_msb where
  "crc_msb_ogg = \<lparr>msb_k576 = 0x8833794C, msb_k512 = 0xE6228B11, msb_k192 = 0xC5B9CD4C, msb_k128 = 0xE8A45605,
     msb_k2112 = 0xCBCF3BCB, msb_k2048 = 0x88FE2237, msb_k448 = 0x64BF7A9B, msb_k384 = 0x8C3828A8,
     msb_k320 = 0x569700E5, msb_k256 = 0x75BE46B7, msb_width = 32, msb_table = crc32_ogg_table\<rparr>"

definition crc_msb_c16 :: crc_msb where
  "crc_msb_c16 = \<lparr>msb_k576 = 0x8832, msb_k512 = 0x13FC, msb_k192 = 0x650B, msb_k128 = 0xAEFC,
     msb_k2112 = 0xF17E, msb_k2048 = 0xFD50, msb_k448 = 0x2535, msb_k384 = 0xCDE2,
     msb_k320 = 0x26AA, msb_k256 = 0x8E29, msb_width = 16, msb_table = crc16_ccitt_table\<rparr>"

text \<open>\<open>CRC_MSB_K\<close>, and a load with its bytes reversed, which puts the first byte into the highest.\<close>

definition crc_msb_K :: "u32 \<Rightarrow> u32 \<Rightarrow> m128" where
  "crc_msb_K hi lo = mm_set_epi32 0 hi 0 lo"

definition crc_msb_load :: "byte list \<Rightarrow> nat \<Rightarrow> m128 option" where
  "crc_msb_load p off = map_option word_rcat (mem_read p off 16)"

definition crc_msb_fold :: "m128 \<Rightarrow> m128 \<Rightarrow> m128 \<Rightarrow> m128" where
  "crc_msb_fold x k d = (mm_clmulepi64 x k 0x11 XOR mm_clmulepi64 x k 0x00) XOR d"

function crc_msb_tail_loop :: "m128 \<Rightarrow> m128 \<Rightarrow> byte list \<Rightarrow> nat \<Rightarrow> (m128 \<times> byte list \<times> nat) option" where
  "crc_msb_tail_loop k128 x0 data len =
     (if len \<ge> 16 then do {
        d \<leftarrow> crc_msb_load data 0;
        crc_msb_tail_loop k128 (crc_msb_fold x0 k128 d) (drop 16 data) (len - 16) }
      else Some (x0, data, len))"
  by pat_completeness auto
termination by (relation "measure (\<lambda>(k, x0, data, len). len)") auto

text \<open>The bytes of a register stored in reversed order.\<close>

definition crc_msb_store :: "m128 \<Rightarrow> byte list" where
  "crc_msb_store x = map (\<lambda>i. ucast (drop_bit (8 * (15 - i)) x)) [0..<16]"

definition crc_msb_tail :: "crc_msb \<Rightarrow> m128 \<Rightarrow> byte list \<Rightarrow> nat \<Rightarrow> u32 option" where
  "crc_msb_tail m x0 data len = do {
     (x0, data, len) \<leftarrow> crc_msb_tail_loop (crc_msb_K (msb_k192 m) (msb_k128 m)) x0 data len;
     crc \<leftarrow> msb_table m 0 (crc_msb_store x0) 16;
     msb_table m crc data len }"

function crc_msb_loop :: "m128 \<Rightarrow> m128 \<Rightarrow> m128 \<Rightarrow> m128 \<Rightarrow> m128 \<Rightarrow> byte list \<Rightarrow> nat \<Rightarrow>
  (m128 \<times> m128 \<times> m128 \<times> m128 \<times> byte list \<times> nat) option" where
  "crc_msb_loop k512 x0 x1 x2 x3 data len =
     (if len \<ge> 64 then do {
        d0 \<leftarrow> crc_msb_load data 0;
        d1 \<leftarrow> crc_msb_load data 16;
        d2 \<leftarrow> crc_msb_load data 32;
        d3 \<leftarrow> crc_msb_load data 48;
        crc_msb_loop k512 (crc_msb_fold x0 k512 d0) (crc_msb_fold x1 k512 d1) (crc_msb_fold x2 k512 d2) (crc_msb_fold x3 k512 d3)
          (drop 64 data) (len - 64) }
      else Some (x0, x1, x2, x3, data, len))"
  by pat_completeness auto
termination by (relation "measure (\<lambda>(k, x0, x1, x2, x3, data, len). len)") auto

definition crc_msb_pclmul :: "crc_msb \<Rightarrow> u32 \<Rightarrow> byte list \<Rightarrow> nat \<Rightarrow> u32 option" where
  "crc_msb_pclmul m crc data len = do {
     let k512 = crc_msb_K (msb_k576 m) (msb_k512 m);
     let k128 = crc_msb_K (msb_k192 m) (msb_k128 m);
     d \<leftarrow> crc_msb_load data 0;
     let x0 = d XOR mm_set_epi32 (push_bit (32 - msb_width m) crc) 0 0 0;
     x1 \<leftarrow> crc_msb_load data 16;
     x2 \<leftarrow> crc_msb_load data 32;
     x3 \<leftarrow> crc_msb_load data 48;
     (x0, x1, x2, x3, data, len) \<leftarrow> crc_msb_loop k512 x0 x1 x2 x3 (drop 64 data) (len - 64);
     let x1 = crc_msb_fold x0 k128 x1;
     let x2 = crc_msb_fold x1 k128 x2;
     let x0 = crc_msb_fold x2 k128 x3;
     crc_msb_tail m x0 data len }"

section \<open>Folding in wider registers\<close>

definition crc_msb_load64 :: "byte list \<Rightarrow> nat \<Rightarrow> m128 list option" where
  "crc_msb_load64 p off = do {
     a \<leftarrow> crc_msb_load p off;
     b \<leftarrow> crc_msb_load p (off + 16);
     c \<leftarrow> crc_msb_load p (off + 32);
     d \<leftarrow> crc_msb_load p (off + 48);
     Some [a, b, c, d] }"

function crc_msb_vp_loop4 :: "m128 list \<Rightarrow> m128 list \<Rightarrow> m128 list \<Rightarrow> m128 list \<Rightarrow> m128 list \<Rightarrow> byte list \<Rightarrow> nat \<Rightarrow>
  (m128 list \<times> m128 list \<times> m128 list \<times> m128 list \<times> byte list \<times> nat) option" where
  "crc_msb_vp_loop4 k2048 z0 z1 z2 z3 data len =
     (if len \<ge> 256 then do {
        d0 \<leftarrow> crc_msb_load64 data 0;
        d1 \<leftarrow> crc_msb_load64 data 64;
        d2 \<leftarrow> crc_msb_load64 data 128;
        d3 \<leftarrow> crc_msb_load64 data 192;
        crc_msb_vp_loop4 k2048 (crc32_fold64 z0 k2048 d0) (crc32_fold64 z1 k2048 d1) (crc32_fold64 z2 k2048 d2)
          (crc32_fold64 z3 k2048 d3) (drop 256 data) (len - 256) }
      else Some (z0, z1, z2, z3, data, len))"
  by pat_completeness auto
termination by (relation "measure (\<lambda>(k, z0, z1, z2, z3, data, len). len)") auto

function crc_msb_vp_loop1 :: "m128 list \<Rightarrow> m128 list \<Rightarrow> byte list \<Rightarrow> nat \<Rightarrow> (m128 list \<times> byte list \<times> nat) option" where
  "crc_msb_vp_loop1 k512 z0 data len =
     (if len \<ge> 64 then do {
        d \<leftarrow> crc_msb_load64 data 0;
        crc_msb_vp_loop1 k512 (crc32_fold64 z0 k512 d) (drop 64 data) (len - 64) }
      else Some (z0, data, len))"
  by pat_completeness auto
termination by (relation "measure (\<lambda>(k, z0, data, len). len)") auto

definition crc_msb_vpclmul :: "crc_msb \<Rightarrow> u32 \<Rightarrow> byte list \<Rightarrow> nat \<Rightarrow> u32 option" where
  "crc_msb_vpclmul m crc data len = do {
     let k2048 = mm512_broadcast (crc_msb_K (msb_k2112 m) (msb_k2048 m));
     let k512 = mm512_broadcast (crc_msb_K (msb_k576 m) (msb_k512 m));
     let kl = [crc_msb_K (msb_k448 m) (msb_k384 m), crc_msb_K (msb_k320 m) (msb_k256 m), crc_msb_K (msb_k192 m) (msb_k128 m), 0];
     d \<leftarrow> crc_msb_load64 data 0;
     let z0 = map2 (XOR) d [mm_set_epi32 (push_bit (32 - msb_width m) crc) 0 0 0, 0, 0, 0];
     z1 \<leftarrow> crc_msb_load64 data 64;
     z2 \<leftarrow> crc_msb_load64 data 128;
     z3 \<leftarrow> crc_msb_load64 data 192;
     (z0, z1, z2, z3, data, len) \<leftarrow> crc_msb_vp_loop4 k2048 z0 z1 z2 z3 (drop 256 data) (len - 256);
     let z1 = crc32_fold64 z0 k512 z1;
     let z2 = crc32_fold64 z1 k512 z2;
     let z0 = crc32_fold64 z2 k512 z3;
     (z0, data, len) \<leftarrow> crc_msb_vp_loop1 k512 z0 data len;
     let z0 = mm512_mask_mov_C0 (crc32_fold64 z0 kl [0, 0, 0, 0]) z0;
     crc_msb_tail m (mm512_halves z0) data len }"

text \<open>The choice: on x86 with the units, the folding; else the tables.\<close>

definition crc_msb_update :: "crc_unit \<Rightarrow> crc_msb \<Rightarrow> u32 \<Rightarrow> byte list \<Rightarrow> nat \<Rightarrow> u32 option" where
  "crc_msb_update u m crc data len = (case u of
     X86 vpclmul pclmul \<Rightarrow>
       if len \<ge> 256 \<and> vpclmul then crc_msb_vpclmul m crc data len
       else if len \<ge> 64 \<and> pclmul then crc_msb_pclmul m crc data len
       else msb_table m crc data len
   | _ \<Rightarrow> msb_table m crc data len)"

definition encoding_crc16_ccitt :: "crc_unit \<Rightarrow> 16 word \<Rightarrow> byte list \<Rightarrow> nat \<Rightarrow> 16 word option" where
  "encoding_crc16_ccitt u crc data len = map_option ucast (crc_msb_update u crc_msb_c16 (ucast crc) data len)"

definition encoding_crc32_ogg :: "crc_unit \<Rightarrow> u32 \<Rightarrow> byte list \<Rightarrow> nat \<Rightarrow> u32 option" where
  "encoding_crc32_ogg u crc data len = crc_msb_update u crc_msb_ogg crc data len"

declare crc16_slice8_loop.simps [simp del] ogg_slice8_loop.simps [simp del] crc_msb_tail_loop.simps [simp del]
  crc_msb_loop.simps [simp del] crc_msb_vp_loop4.simps [simp del] crc_msb_vp_loop1.simps [simp del]

section \<open>The tables compute the register\<close>

context msb_register
begin

text \<open>What the register will be at the end of the data, and the contribution of one byte.\<close>

definition msb_end :: "'a word \<Rightarrow> byte list \<Rightarrow> nat \<Rightarrow> 'a word" where
  "msb_end c data len = feed step e c (msb_stream (take len data))"

lemma msb_end_0 [simp]: "msb_end c data 0 = c"
  by (simp add: msb_end_def)

lemma msb_end_split:
  assumes "n \<le> len"
  shows "msb_end c data len = msb_end (msb_end c data n) (drop n data) (len - n)"
  using assms take_add [of n "len - n" data] by (simp add: msb_end_def)

lemma msb_end_byte:
  assumes "s + 8 = LENGTH('a)"
  shows "msb_end c (b # bs) (Suc len) = msb_end (adv step 8 (c XOR push_bit s (ucast b))) bs len"
proof -
  have "s = LENGTH('a) - 8" "8 \<le> LENGTH('a)" using assms by simp_all
  then show ?thesis
    using feed_split [of c "msb_bits b"] msb_value_short [of b, unfolded msb_value_def] by (simp add: msb_end_def adv_xor)
qed

lemma msb_end_8:
  assumes "s + 8 = LENGTH('a)"
  shows "msb_end c [d0, d1, d2, d3, d4, d5, d6, d7] 8 = adv step 64 c
    XOR adv step 64 (push_bit s (ucast d0)) XOR adv step 56 (push_bit s (ucast d1))
    XOR adv step 48 (push_bit s (ucast d2)) XOR adv step 40 (push_bit s (ucast d3))
    XOR adv step 32 (push_bit s (ucast d4)) XOR adv step 24 (push_bit s (ucast d5))
    XOR adv step 16 (push_bit s (ucast d6)) XOR adv step 8 (push_bit s (ucast d7))"
proof -
  have e: "msb_end c (b # bs) (numeral k) = msb_end (adv step 8 (c XOR push_bit s (ucast b))) bs (pred_numeral k)" for c b bs k
    using msb_end_byte [OF assms, of c b bs "pred_numeral k"] by (simp add: numeral_eq_Suc)
  show ?thesis by (simp add: e msb_end_byte [OF assms, of _ _ _ 0, simplified] adv_xor adv_add [symmetric] xor.assoc)
qed

end

lemma unat_and_255: "unat (c AND 0xFF) = unat (ucast c :: byte)" for c :: u32
  using unat_and_mask [of c 8] by (simp add: mask_eq_exp_minus_1 unsigned_ucast_eq take_bit_eq_mod)

lemma ogg_lookup: "k < 8 \<Longrightarrow> crc32_ogg_slice8 ! k ! unat (b :: byte) = adv crc32_ogg_step (8 * k + 8) (push_bit 24 (ucast b))"
  using ogg_entry [of k "unat b"] unsigned_less [of b, where ?'a = nat] by simp

lemma crc16_lookup: "k < 8 \<Longrightarrow> crc16_ccitt_slice8 ! k ! unat (b :: byte) = adv crc16_step (8 * k + 8) (push_bit 8 (ucast b))"
  using crc16_entry [of k "unat b"] unsigned_less [of b, where ?'a = nat] by simp

lemma ogg_lookups:
  "crc32_ogg_slice8 ! 7 ! unat (b :: byte) = adv crc32_ogg_step 64 (push_bit 24 (ucast b))"
  "crc32_ogg_slice8 ! 6 ! unat (b :: byte) = adv crc32_ogg_step 56 (push_bit 24 (ucast b))"
  "crc32_ogg_slice8 ! 5 ! unat (b :: byte) = adv crc32_ogg_step 48 (push_bit 24 (ucast b))"
  "crc32_ogg_slice8 ! 4 ! unat (b :: byte) = adv crc32_ogg_step 40 (push_bit 24 (ucast b))"
  "crc32_ogg_slice8 ! 3 ! unat (b :: byte) = adv crc32_ogg_step 32 (push_bit 24 (ucast b))"
  "crc32_ogg_slice8 ! 2 ! unat (b :: byte) = adv crc32_ogg_step 24 (push_bit 24 (ucast b))"
  "crc32_ogg_slice8 ! 1 ! unat (b :: byte) = adv crc32_ogg_step 16 (push_bit 24 (ucast b))"
  "crc32_ogg_slice8 ! 0 ! unat (b :: byte) = adv crc32_ogg_step 8 (push_bit 24 (ucast b))"
  using ogg_lookup [of 7 b] ogg_lookup [of 6 b] ogg_lookup [of 5 b] ogg_lookup [of 4 b]
    ogg_lookup [of 3 b] ogg_lookup [of 2 b] ogg_lookup [of 1 b] ogg_lookup [of 0 b]
  by simp_all

lemma crc16_lookups:
  "crc16_ccitt_slice8 ! 7 ! unat (b :: byte) = adv crc16_step 64 (push_bit 8 (ucast b))"
  "crc16_ccitt_slice8 ! 6 ! unat (b :: byte) = adv crc16_step 56 (push_bit 8 (ucast b))"
  "crc16_ccitt_slice8 ! 5 ! unat (b :: byte) = adv crc16_step 48 (push_bit 8 (ucast b))"
  "crc16_ccitt_slice8 ! 4 ! unat (b :: byte) = adv crc16_step 40 (push_bit 8 (ucast b))"
  "crc16_ccitt_slice8 ! 3 ! unat (b :: byte) = adv crc16_step 32 (push_bit 8 (ucast b))"
  "crc16_ccitt_slice8 ! 2 ! unat (b :: byte) = adv crc16_step 24 (push_bit 8 (ucast b))"
  "crc16_ccitt_slice8 ! 1 ! unat (b :: byte) = adv crc16_step 16 (push_bit 8 (ucast b))"
  "crc16_ccitt_slice8 ! 0 ! unat (b :: byte) = adv crc16_step 8 (push_bit 8 (ucast b))"
  using crc16_lookup [of 7 b] crc16_lookup [of 6 b] crc16_lookup [of 5 b] crc16_lookup [of 4 b]
    crc16_lookup [of 3 b] crc16_lookup [of 2 b] crc16_lookup [of 1 b] crc16_lookup [of 0 b]
  by simp_all

lemma ogg_word:
  "adv crc32_ogg_step 64 c = adv crc32_ogg_step 64 (push_bit 24 (take_bit 8 (drop_bit 24 c)))
    XOR adv crc32_ogg_step 56 (push_bit 24 (take_bit 8 (drop_bit 16 c)))
    XOR adv crc32_ogg_step 48 (push_bit 24 (take_bit 8 (drop_bit 8 c))) XOR adv crc32_ogg_step 40 (push_bit 24 (take_bit 8 c))"
proof -
  have "adv crc32_ogg_step 64 (push_bit (24 - m) (take_bit 8 x)) = adv crc32_ogg_step (64 - m) (push_bit 24 (take_bit 8 x))" if "m \<le> 24" for m and x :: u32
  proof -
    have "adv crc32_ogg_step 64 y = adv crc32_ogg_step (64 - m) (adv crc32_ogg_step m y)" for y
      using that by (simp add: adv_add [symmetric])
    moreover have "adv crc32_ogg_step m (push_bit (24 - m) (take_bit 8 x)) = push_bit m (push_bit (24 - m) (take_bit 8 x))"
    proof (rule ogg.adv_push [of "32 - m"])
      show "take_bit (32 - m) (push_bit (24 - m) (take_bit 8 x)) = push_bit (24 - m) (take_bit 8 x)"
        using that by (intro bit_word_eqI) (auto simp: bit_simps)
    qed (use that in simp)
    ultimately show ?thesis using that by (simp add: push_bit_push_bit)
  qed
  from this [of 0] this [of 8] this [of 16] this [of 24] show ?thesis
    by (subst four_bytes [of c]) (simp add: ogg.adv_xor ac_simps)
qed

lemma crc16_word:
  "adv crc16_step 64 c = adv crc16_step 64 (push_bit 8 (drop_bit 8 c)) XOR adv crc16_step 56 (push_bit 8 (take_bit 8 c))"
proof -
  have "adv crc16_step 64 (take_bit 8 c) = adv crc16_step 56 (adv crc16_step 8 (take_bit 8 c))"
    by (simp add: adv_add [symmetric])
  also have "adv crc16_step 8 (take_bit 8 c) = push_bit 8 (take_bit 8 c)" by (rule crc16.adv_push [of 8]) simp_all
  finally have "adv crc16_step 64 (take_bit 8 c) = adv crc16_step 56 (push_bit 8 (take_bit 8 c))" .
  moreover have "c = push_bit 8 (drop_bit 8 c) XOR take_bit 8 c" by (rule bit_word_eqI) (auto simp: bit_simps)
  ultimately show ?thesis by (metis crc16.adv_xor)
qed

lemma ogg_slices:
  "adv crc32_ogg_step 64 c = crc32_ogg_slice8 ! 7 ! unat (drop_bit 24 c AND 0xFF) XOR crc32_ogg_slice8 ! 6 ! unat (drop_bit 16 c AND 0xFF)
    XOR crc32_ogg_slice8 ! 5 ! unat (drop_bit 8 c AND 0xFF) XOR crc32_ogg_slice8 ! 4 ! unat (c AND 0xFF)"
proof -
  have "ucast (ucast x :: byte) = take_bit 8 x" for x :: u32 by (rule bit_word_eqI) (auto simp: bit_simps)
  then show ?thesis by (simp only: unat_and_255 ogg_lookups ogg_word [of c])
qed

lemma ogg_load:
  "adv crc32_ogg_step 64 (push_bit 24 (ucast d0) OR push_bit 16 (ucast d1) OR push_bit 8 (ucast d2) OR ucast d3) =
    adv crc32_ogg_step 64 (push_bit 24 (ucast (d0 :: byte))) XOR adv crc32_ogg_step 56 (push_bit 24 (ucast (d1 :: byte)))
    XOR adv crc32_ogg_step 48 (push_bit 24 (ucast (d2 :: byte))) XOR adv crc32_ogg_step 40 (push_bit 24 (ucast (d3 :: byte)))"
proof -
  let ?w = "push_bit 24 (ucast d0) OR push_bit 16 (ucast d1) OR push_bit 8 (ucast d2) OR ucast d3 :: u32"
  have small: "bit (d :: byte) n \<longleftrightarrow> n < 8 \<and> bit d n" for d n using bit_imp_le_length [of d n] by auto
  have "take_bit 8 (drop_bit 24 ?w) = ucast d0" "take_bit 8 (drop_bit 16 ?w) = ucast d1"
    "take_bit 8 (drop_bit 8 ?w) = ucast d2" "take_bit 8 ?w = ucast d3"
    by (rule bit_word_eqI, (auto simp: bit_simps dest: small [THEN iffD1])[1])+
  then show ?thesis unfolding ogg_word [of ?w] by simp
qed

lemma ogg_end_list: "ogg.msb_end c (d0 # d1 # d2 # d3 # d4 # d5 # d6 # d7 # rest) 8 = ogg.msb_end c [d0, d1, d2, d3, d4, d5, d6, d7] 8"
  by (simp add: ogg.msb_end_def)

lemma crc16_end_list: "crc16.msb_end c (d0 # d1 # d2 # d3 # d4 # d5 # d6 # d7 # rest) 8 = crc16.msb_end c [d0, d1, d2, d3, d4, d5, d6, d7] 8"
  by (simp add: crc16.msb_end_def)

text \<open>A list of at least eight bytes.\<close>

lemma eight_bytesE:
  assumes "8 \<le> length data"
  obtains d0 d1 d2 d3 d4 d5 d6 d7 rest where "data = d0 # d1 # d2 # d3 # d4 # d5 # d6 # d7 # rest"
  using assms that by (auto simp: eval_nat_numeral Suc_le_length_iff)

lemma ogg_slice8_loop_result:
  "len \<le> length data \<Longrightarrow> \<exists>crc' data' len'. ogg_slice8_loop crc data len = Some (crc', data', len') \<and>
    len' \<le> length data' \<and> ogg.msb_end crc' data' len' = ogg.msb_end crc data len"
proof (induction crc data len rule: ogg_slice8_loop.induct)
  case (1 crc data len)
  show ?case
  proof (cases "8 \<le> len")
    case True
    then have "8 \<le> length data" using 1(2) by simp
    then obtain d0 d1 d2 d3 d4 d5 d6 d7 rest where data: "data = d0 # d1 # d2 # d3 # d4 # d5 # d6 # d7 # rest" by (rule eight_bytesE)
    have gets: "arr_get data 0 = Some d0" "arr_get data 1 = Some d1" "arr_get data 2 = Some d2" "arr_get data 3 = Some d3"
      "arr_get data 4 = Some d4" "arr_get data 5 = Some d5" "arr_get data 6 = Some d6" "arr_get data 7 = Some d7"
      by (simp_all add: arr_get_def data)
    let ?c = "crc XOR (push_bit 24 (ucast d0) OR push_bit 16 (ucast d1) OR push_bit 8 (ucast d2) OR ucast d3)"
    let ?e = "ogg.msb_end crc data 8"
    have "?e = adv crc32_ogg_step 64 ?c XOR adv crc32_ogg_step 32 (push_bit 24 (ucast d4)) XOR adv crc32_ogg_step 24 (push_bit 24 (ucast d5))
        XOR adv crc32_ogg_step 16 (push_bit 24 (ucast d6)) XOR adv crc32_ogg_step 8 (push_bit 24 (ucast d7))"
      unfolding data by (subst ogg_end_list, subst ogg.msb_end_8 [of 24]) (simp_all only: ogg.adv_xor ogg_load xor.assoc, simp)
    also have "adv crc32_ogg_step 64 ?c = crc32_ogg_slice8 ! 7 ! unat (drop_bit 24 ?c AND 0xFF) XOR crc32_ogg_slice8 ! 6 ! unat (drop_bit 16 ?c AND 0xFF)
        XOR crc32_ogg_slice8 ! 5 ! unat (drop_bit 8 ?c AND 0xFF) XOR crc32_ogg_slice8 ! 4 ! unat (?c AND 0xFF)"
      by (simp only: ogg_slices)
    finally have e: "?e = crc32_ogg_slice8 ! 7 ! unat (drop_bit 24 ?c AND 0xFF) XOR crc32_ogg_slice8 ! 6 ! unat (drop_bit 16 ?c AND 0xFF)
        XOR crc32_ogg_slice8 ! 5 ! unat (drop_bit 8 ?c AND 0xFF) XOR crc32_ogg_slice8 ! 4 ! unat (?c AND 0xFF)
        XOR crc32_ogg_slice8 ! 3 ! unat d4 XOR crc32_ogg_slice8 ! 2 ! unat d5 XOR crc32_ogg_slice8 ! 1 ! unat d6 XOR crc32_ogg_slice8 ! 0 ! unat d7"
      by (simp only: ogg_lookups xor.assoc)
    have "ogg_slice8_loop crc data len = ogg_slice8_loop ?e (drop 8 data) (len - 8)"
      by (subst ogg_slice8_loop.simps) (simp only: True if_True gets Option.bind.bind_lunit Let_def e)
    then show ?thesis
      using 1(1) [OF True gets refl refl] 1(2) ogg.msb_end_split [OF True, of crc data] unfolding e [symmetric] by simp
  next
    case False
    then show ?thesis using 1(2) by (subst ogg_slice8_loop.simps) simp
  qed
qed

lemma ogg_byte_loop_result: "len \<le> length data \<Longrightarrow> ogg_byte_loop crc data len = Some (ogg.msb_end crc data len)"
proof (induction crc data len rule: ogg_byte_loop.induct)
  case (2 crc data len)
  then obtain b bs where data: "data = b # bs" by (cases data) auto
  have "adv crc32_ogg_step 8 (take_bit 24 crc) = push_bit 8 (take_bit 24 crc)" by (rule ogg.adv_push [of 24]) simp_all
  moreover have "push_bit 8 (take_bit 24 crc) = push_bit 8 crc" by (rule bit_word_eqI) (auto simp: bit_simps)
  moreover have "crc XOR push_bit 24 (ucast b) = take_bit 24 crc XOR push_bit 24 (ucast (ucast (drop_bit 24 crc) XOR b))"
    by (rule bit_word_eqI) (auto simp: bit_simps dest: bit_imp_le_length)
  ultimately have "adv crc32_ogg_step 8 (crc XOR push_bit 24 (ucast b)) =
      push_bit 8 crc XOR crc32_ogg_slice8 ! 0 ! unat (ucast (drop_bit 24 crc) XOR b)"
    by (simp only: ogg.adv_xor ogg_lookups)
  then show ?case using 2 ogg.msb_end_byte [of 24 crc b bs len] by (simp add: data arr_get_Some)
qed simp

lemma crc32_ogg_table_result:
  assumes "len \<le> length data"
  shows "crc32_ogg_table crc data len = Some (ogg.msb_end crc data len)"
  using ogg_slice8_loop_result [OF assms, of crc] ogg_byte_loop_result by (auto simp: crc32_ogg_table_def)

lemma crc16_slice8_loop_result:
  "len \<le> length data \<Longrightarrow> \<exists>crc' data' len'. crc16_slice8_loop crc data len = Some (crc', data', len') \<and>
    len' \<le> length data' \<and> crc16.msb_end crc' data' len' = crc16.msb_end crc data len"
proof (induction crc data len rule: crc16_slice8_loop.induct)
  case (1 crc data len)
  show ?case
  proof (cases "8 \<le> len")
    case True
    then have "8 \<le> length data" using 1(2) by simp
    then obtain d0 d1 d2 d3 d4 d5 d6 d7 rest where data: "data = d0 # d1 # d2 # d3 # d4 # d5 # d6 # d7 # rest" by (rule eight_bytesE)
    have gets: "arr_get data 0 = Some d0" "arr_get data 1 = Some d1" "arr_get data 2 = Some d2" "arr_get data 3 = Some d3"
      "arr_get data 4 = Some d4" "arr_get data 5 = Some d5" "arr_get data 6 = Some d6" "arr_get data 7 = Some d7"
      by (simp_all add: arr_get_def data)
    let ?e = "crc16.msb_end crc data 8"
    have u: "ucast (ucast (ucast d0 XOR drop_bit 8 crc) :: byte) = ucast d0 XOR drop_bit 8 crc"
      "ucast (ucast (ucast d1 XOR crc) :: byte) = ucast d1 XOR take_bit 8 crc"
      by (rule bit_word_eqI, (auto simp: bit_simps dest: bit_imp_le_length)[1])+
    have e: "?e = crc16_ccitt_slice8 ! 7 ! unat (ucast (ucast d0 XOR drop_bit 8 crc) :: byte)
        XOR crc16_ccitt_slice8 ! 6 ! unat (ucast (ucast d1 XOR crc) :: byte)
        XOR crc16_ccitt_slice8 ! 5 ! unat d2 XOR crc16_ccitt_slice8 ! 4 ! unat d3 XOR crc16_ccitt_slice8 ! 3 ! unat d4
        XOR crc16_ccitt_slice8 ! 2 ! unat d5 XOR crc16_ccitt_slice8 ! 1 ! unat d6 XOR crc16_ccitt_slice8 ! 0 ! unat d7"
      unfolding data by (subst crc16_end_list, subst crc16.msb_end_8 [of 8])
        (simp_all only: crc16_lookups u push_bit_xor crc16.adv_xor crc16_word [of crc] xor.assoc xor.left_commute, simp_all add: ac_simps)
    have "crc16_slice8_loop crc data len = crc16_slice8_loop ?e (drop 8 data) (len - 8)"
      by (subst crc16_slice8_loop.simps) (simp only: True if_True gets Option.bind.bind_lunit Let_def e)
    then show ?thesis
      using 1(1) [OF True gets refl] 1(2) crc16.msb_end_split [OF True, of crc data] unfolding e [symmetric] by simp
  next
    case False
    then show ?thesis using 1(2) by (subst crc16_slice8_loop.simps) simp
  qed
qed

lemma crc16_byte_loop_result: "len \<le> length data \<Longrightarrow> crc16_byte_loop crc data len = Some (crc16.msb_end crc data len)"
proof (induction crc data len rule: crc16_byte_loop.induct)
  case (2 crc data len)
  then obtain b bs where data: "data = b # bs" by (cases data) auto
  have "adv crc16_step 8 (take_bit 8 crc) = push_bit 8 (take_bit 8 crc)" by (rule crc16.adv_push [of 8]) simp_all
  moreover have "push_bit 8 (take_bit 8 crc) = push_bit 8 crc" by (rule bit_word_eqI) (auto simp: bit_simps)
  moreover have "crc XOR push_bit 8 (ucast b) = take_bit 8 crc XOR push_bit 8 (ucast (ucast (drop_bit 8 crc XOR ucast b) :: byte))"
    by (rule bit_word_eqI) (auto simp: bit_simps dest: bit_imp_le_length)
  ultimately have "adv crc16_step 8 (crc XOR push_bit 8 (ucast b)) =
      push_bit 8 crc XOR crc16_ccitt_slice8 ! 0 ! unat (ucast (drop_bit 8 crc XOR ucast b) :: byte)"
    by (simp only: crc16.adv_xor crc16_lookups)
  then show ?case using 2 crc16.msb_end_byte [of 8 crc b bs len] by (simp add: data arr_get_Some)
qed simp

lemma crc16_ccitt_table_result:
  assumes "len \<le> length data"
  shows "crc16_ccitt_table (ucast crc) data len = Some (ucast (crc16.msb_end crc data len))"
proof -
  have "ucast (ucast crc :: u32) = (crc :: 16 word)" by (rule bit_word_eqI) (auto simp: bit_simps)
  then show ?thesis
    using crc16_slice8_loop_result [OF assms, of crc] crc16_byte_loop_result by (auto simp: crc16_ccitt_table_def)
qed

section \<open>Folding computes the register\<close>

lemma crc_msb_fold_16: "crc_msb_fold x k d = crc32_fold16 x k XOR d"
  by (simp add: crc_msb_fold_def crc32_fold16_def ac_simps)

lemma crc_msb_K_halves: "take_bit 64 (crc_msb_K hi lo) = ucast lo" "drop_bit 64 (crc_msb_K hi lo) = ucast hi"
proof -
  have small: "bit (c :: u32) n \<Longrightarrow> n < 32" for c n using bit_imp_le_length [of c n] by simp
  show "take_bit 64 (crc_msb_K hi lo) = ucast lo" "drop_bit 64 (crc_msb_K hi lo) = ucast hi"
    by (rule bit_word_eqI, (auto simp: crc_msb_K_def mm_set_epi32_def bit_simps dest: small)[1])+
qed

text \<open>Blocks with the first byte highest.\<close>

definition msb_block :: "byte list \<Rightarrow> nat \<Rightarrow> m128" where
  "msb_block data off = word_rcat (take 16 (drop off data))"

definition msb_blocks :: "byte list \<Rightarrow> nat \<Rightarrow> m128 list" where
  "msb_blocks data off = [msb_block data off, msb_block data (off + 16), msb_block data (off + 32), msb_block data (off + 48)]"

lemma crc_msb_load_block: "off + 16 \<le> length data \<Longrightarrow> crc_msb_load data off = Some (msb_block data off)"
  by (simp add: crc_msb_load_def mem_read_Some msb_block_def)

lemma crc_msb_load64_blocks: "off + 64 \<le> length data \<Longrightarrow> crc_msb_load64 data off = Some (msb_blocks data off)"
  by (simp add: crc_msb_load64_def crc_msb_load_block msb_blocks_def)

lemma four_msb_blocks: "four (msb_blocks data off)"
  by (simp add: msb_blocks_def)

lemma msb_bits_block: "off + 16 \<le> length data \<Longrightarrow> msb_bits (msb_block data off) = msb_stream (take 16 (drop off data))"
  by (simp add: msb_block_def msb_bits_load)

lemma msb_bits_blocks:
  assumes "off + 64 \<le> length data"
  shows "concat (map msb_bits (msb_blocks data off)) = msb_stream (take 64 (drop off data))"
proof -
  have "msb_bits (msb_block data (off + n)) = msb_stream (take 16 (drop n (drop off data)))" if "n \<le> 48" for n
    using msb_bits_block [of "off + n" data] that assms by (simp add: add.commute)
  from this [of 0] this [of 16] this [of 32] this [of 48] show ?thesis
    unfolding msb_blocks_def take_64 [of "drop off data"] by simp
qed

lemma msb_bits_blocks4:
  assumes "256 \<le> length data"
  shows "concat (map msb_bits (msb_blocks data 0 @ msb_blocks data 64 @ msb_blocks data 128 @ msb_blocks data 192)) = msb_stream (take 256 data)"
  using assms msb_bits_blocks [of 0 data] msb_bits_blocks [of 64 data] msb_bits_blocks [of 128 data] msb_bits_blocks [of 192 data]
  by (simp add: take_256 [of data])

lemma rev_upt_16: "rev (map f [0..<16]) = map (\<lambda>i. f (15 - i)) [0..<16]"
  by (rule nth_equalityI) (simp_all add: rev_nth)

lemma msb_stream_store: "msb_stream (crc_msb_store x) = msb_bits x"
proof -
  have "lsb_stream (rev (crc_msb_store x)) = lsb_bits x"
  proof (rule nth_equalityI)
    show "length (lsb_stream (rev (crc_msb_store x))) = length (lsb_bits x)" by (simp add: length_stream crc_msb_store_def)
    fix n assume "n < length (lsb_stream (rev (crc_msb_store x)))"
    then have n: "n < 128" by (simp add: length_stream crc_msb_store_def)
    then have j: "n div 8 < 16" by simp
    then have "rev (crc_msb_store x) ! (n div 8) = ucast (drop_bit (8 * (n div 8)) x)"
      by (simp add: crc_msb_store_def rev_upt_16)
    then show "lsb_stream (rev (crc_msb_store x)) ! n = lsb_bits x ! n"
      using n by (subst nth_lsb_stream) (simp_all add: crc_msb_store_def lsb_bits_def bit_ucast_iff bit_drop_bit_eq)
  qed
  then have "rev (lsb_stream (rev (crc_msb_store x))) = msb_bits x" by (simp add: msb_bits_def)
  then show ?thesis by (simp add: rev_concat rev_map msb_bits_def [abs_def] comp_def)
qed

lemma length_store: "length (crc_msb_store x) = 16"
  by (simp add: crc_msb_store_def)

locale msb_checksum = msb_register +
  fixes m :: crc_msb
  assumes width: "msb_width m = LENGTH('a)" "LENGTH('a) \<le> 32"
    and table: "len \<le> length data \<Longrightarrow> msb_table m (ucast c) data len = Some (ucast (msb_end c data len))"
    and near: "msb_k512 m = ucast (adv step 512 1)" "msb_k576 m = ucast (adv step 576 1)"
      "msb_k128 m = ucast (adv step 128 1)" "msb_k192 m = ucast (adv step 192 1)"
    and far: "msb_k2048 m = ucast (adv step 2048 1)" "msb_k2112 m = ucast (adv step 2112 1)"
      "msb_k384 m = ucast (adv step 384 1)" "msb_k448 m = ucast (adv step 448 1)"
      "msb_k256 m = ucast (adv step 256 1)" "msb_k320 m = ucast (adv step 320 1)"
begin

lemma one_step: "adv step (LENGTH('a) + n) 1 = adv step (n + 1) e"
proof -
  have "adv step (LENGTH('a) - Suc 0) (single 0) = e" by (rule adv_single_top) simp
  then have "adv step (n + 1) e = adv step (n + 1) (adv step (LENGTH('a) - Suc 0) 1)" by simp
  also have "\<dots> = adv step (LENGTH('a) + n) (adv step 0 1)" by (rule adv_regroup) simp
  finally show ?thesis by simp
qed

lemma msb_fold_K:
  assumes "lo = ucast (adv step n 1)" and "hi = ucast (adv step (n + 64) 1)"
  shows "msb_value (crc32_fold16 x (crc_msb_K hi lo)) = adv step n (msb_value x)"
proof -
  have widen: "(ucast (ucast c :: u32) :: m128) = ucast c" for c :: "'a word"
    by (rule bit_word_eqI) (use width(2) in \<open>auto simp: bit_simps dest: bit_imp_le_length\<close>)
  have embedded: "msb_value (ucast c :: m128) = adv step LENGTH('a) c" for c
    using msb_value_long [of 0 c, where ?'b = 128] width(2) by simp
  have "msb_value (take_bit 64 (crc_msb_K hi lo)) = adv step (n + 1) e"
    "msb_value (drop_bit 64 (crc_msb_K hi lo)) = adv step (n + 65) e"
    using one_step [of n] one_step [of "n + 64"]
    by (simp_all add: crc_msb_K_halves assms widen embedded adv_add [symmetric] add.commute)
  from msb_fold [OF this] show ?thesis by (simp add: crc32_fold16_def mm_clmulepi64_def ac_simps)
qed

abbreviation "K512 \<equiv> crc_msb_K (msb_k576 m) (msb_k512 m)"
abbreviation "K128 \<equiv> crc_msb_K (msb_k192 m) (msb_k128 m)"
abbreviation "K2048 \<equiv> crc_msb_K (msb_k2112 m) (msb_k2048 m)"
abbreviation "K384 \<equiv> crc_msb_K (msb_k448 m) (msb_k384 m)"
abbreviation "K256 \<equiv> crc_msb_K (msb_k320 m) (msb_k256 m)"

lemma folds:
  "msb_value (crc32_fold16 x K512) = adv step 512 (msb_value x)" "msb_value (crc32_fold16 x K128) = adv step 128 (msb_value x)"
  "msb_value (crc32_fold16 x K2048) = adv step 2048 (msb_value x)" "msb_value (crc32_fold16 x K384) = adv step 384 (msb_value x)"
  "msb_value (crc32_fold16 x K256) = adv step 256 (msb_value x)"
  by (rule msb_fold_K; simp add: near far)+

lemma feed_msb_lanes:
  assumes "concat (map msb_bits (ys :: m128 list)) = msb_stream (take n data)"
  shows "msb_end c data n = adv step (128 * length ys) c XOR msb_lanes ys"
  using feed_split [of c "concat (map msb_bits ys)"] unfolding msb_end_def assms [symmetric] by (simp add: msb_lanes_def)

lemma tail_loop_result:
  "len \<le> length data \<Longrightarrow> \<exists>x' data' len'. crc_msb_tail_loop K128 x0 data len = Some (x', data', len') \<and> len' \<le> length data' \<and>
    msb_end (msb_value x') data' len' = msb_end (msb_value x0) data len"
proof (induction len arbitrary: x0 data rule: less_induct)
  case (less len)
  show ?case
  proof (cases "16 \<le> len")
    case True
    let ?d = "msb_block data 0" and ?x = "crc_msb_fold x0 K128 (msb_block data 0)"
    have "concat (map msb_bits [?d]) = msb_stream (take 16 data)" using msb_bits_block [of 0 data] True less.prems by simp
    from feed_msb_lanes [OF this, of "msb_value x0"] have "msb_end (msb_value x0) data 16 = msb_value ?x"
      by (simp add: crc_msb_fold_16 value_xor folds msb_lanes_simps)
    then have "msb_end (msb_value ?x) (drop 16 data) (len - 16) = msb_end (msb_value x0) data len"
      using msb_end_split [OF True, of "msb_value x0" data] by simp
    moreover have "crc_msb_tail_loop K128 x0 data len = crc_msb_tail_loop K128 ?x (drop 16 data) (len - 16)"
      using True less.prems crc_msb_load_block [of 0 data] by (subst crc_msb_tail_loop.simps) simp
    ultimately show ?thesis using less.IH [of "len - 16" "drop 16 data" ?x] True less.prems by simp
  next
    case False
    then show ?thesis using less.prems by (subst crc_msb_tail_loop.simps) simp
  qed
qed

lemma tail_result:
  assumes "len \<le> length data"
  shows "crc_msb_tail m x data len = Some (ucast (msb_end (msb_value x) data len))"
proof -
  obtain x' data' len' where l: "crc_msb_tail_loop K128 x data len = Some (x', data', len')" "len' \<le> length data'"
    "msb_end (msb_value x') data' len' = msb_end (msb_value x) data len"
    using tail_loop_result [OF assms, of x] by auto
  have "msb_end 0 (crc_msb_store x') 16 = msb_value x'"
    using msb_stream_store [of x'] by (simp add: msb_end_def msb_value_def length_store)
  then show ?thesis
    using table [of 16 "crc_msb_store x'" 0] table [OF l(2)] by (simp add: crc_msb_tail_def l length_store)
qed

lemma loop_result:
  "len \<le> length data \<Longrightarrow> \<exists>y0 y1 y2 y3 data' len'.
    crc_msb_loop K512 x0 x1 x2 x3 data len = Some (y0, y1, y2, y3, data', len') \<and> len' \<le> length data' \<and>
    msb_end (msb_lanes [y0, y1, y2, y3]) data' len' = msb_end (msb_lanes [x0, x1, x2, x3]) data len"
proof (induction len arbitrary: x0 x1 x2 x3 data rule: less_induct)
  case (less len)
  show ?case
  proof (cases "64 \<le> len")
    case True
    let ?d = "msb_block data"
    let ?f = "\<lambda>x y. crc_msb_fold x K512 y"
    have loads: "crc_msb_load data 0 = Some (?d 0)" "crc_msb_load data 16 = Some (?d 16)" "crc_msb_load data 32 = Some (?d 32)"
      "crc_msb_load data 48 = Some (?d 48)"
      using True less.prems by (simp_all add: crc_msb_load_block)
    have "concat (map msb_bits (msb_blocks data 0)) = msb_stream (take 64 data)"
      using msb_bits_blocks [of 0 data] True less.prems by simp
    from feed_msb_lanes [OF this, of "msb_lanes [x0, x1, x2, x3]"]
    have "msb_end (msb_lanes [x0, x1, x2, x3]) data 64 =
        adv step 512 (msb_lanes [x0, x1, x2, x3]) XOR msb_lanes (msb_blocks data 0)"
      by (simp add: msb_blocks_def)
    also have "\<dots> = msb_lanes [?f x0 (?d 0), ?f x1 (?d 16), ?f x2 (?d 32), ?f x3 (?d 48)]"
      using msb_lanes_fold [where f = "\<lambda>x. crc32_fold16 x K512" and n = 512, OF folds(1), of "msb_blocks data 0" "[x0, x1, x2, x3]"]
      by (simp add: msb_blocks_def crc_msb_fold_16)
    finally have "msb_end (msb_lanes [?f x0 (?d 0), ?f x1 (?d 16), ?f x2 (?d 32), ?f x3 (?d 48)]) (drop 64 data) (len - 64) =
        msb_end (msb_lanes [x0, x1, x2, x3]) data len"
      using msb_end_split [OF True, of "msb_lanes [x0, x1, x2, x3]" data] by simp
    moreover have "crc_msb_loop K512 x0 x1 x2 x3 data len =
        crc_msb_loop K512 (?f x0 (?d 0)) (?f x1 (?d 16)) (?f x2 (?d 32)) (?f x3 (?d 48)) (drop 64 data) (len - 64)"
      by (subst crc_msb_loop.simps) (simp only: True if_True loads Option.bind.bind_lunit)
    ultimately show ?thesis
      using less.IH [of "len - 64" "drop 64 data" "?f x0 (?d 0)" "?f x1 (?d 16)" "?f x2 (?d 32)" "?f x3 (?d 48)"] True less.prems by simp
  next
    case False
    then show ?thesis using less.prems by (subst crc_msb_loop.simps) simp
  qed
qed

text \<open>The register goes into the highest bits of the first word.\<close>

lemma into_lane:
  "msb_lanes ((x XOR mm_set_epi32 (push_bit (32 - msb_width m) (ucast c)) 0 0 0) # zs) =
    adv step (128 * Suc (length zs)) c XOR msb_lanes ((x :: m128) # zs)"
proof -
  have "mm_set_epi32 (push_bit (32 - msb_width m) (ucast c)) 0 0 0 = push_bit (128 - LENGTH('a)) (ucast c)"
    unfolding width(1) mm_set_epi32_def
    by (rule bit_word_eqI) (use width(2) in \<open>auto simp: bit_simps dest: bit_imp_le_length\<close>)
  moreover have "msb_value (push_bit (128 - LENGTH('a)) (ucast c) :: m128) = adv step 128 c"
    using msb_value_long [of "128 - LENGTH('a)" c, where ?'b = 128] width(2) by simp
  ultimately show ?thesis
    by (simp add: msb_lanes_simps value_xor adv_xor adv_add [symmetric] ac_simps)
qed

lemma join: "msb_lanes ((crc_msb_fold x K128 y) # zs) = msb_lanes (x # y # zs)"
  unfolding crc_msb_fold_16 by (rule lanes_join(2) [OF _ folds(2)]) simp

lemma pclmul_result:
  assumes "len \<le> length data" and "64 \<le> len"
  shows "crc_msb_pclmul m (ucast c) data len = Some (ucast (msb_end c data len))"
proof -
  let ?d = "msb_block data" and ?x = "msb_block data 0 XOR mm_set_epi32 (push_bit (32 - msb_width m) (ucast c)) 0 0 0"
  have loads: "crc_msb_load data 0 = Some (?d 0)" "crc_msb_load data 16 = Some (?d 16)" "crc_msb_load data 32 = Some (?d 32)"
    "crc_msb_load data 48 = Some (?d 48)"
    using assms by (simp_all add: crc_msb_load_block)
  obtain y0 y1 y2 y3 data' len' where loop:
    "crc_msb_loop K512 ?x (?d 16) (?d 32) (?d 48) (drop 64 data) (len - 64) = Some (y0, y1, y2, y3, data', len')"
    "len' \<le> length data'"
    "msb_end (msb_lanes [y0, y1, y2, y3]) data' len' = msb_end (msb_lanes [?x, ?d 16, ?d 32, ?d 48]) (drop 64 data) (len - 64)"
    using loop_result [of "len - 64" "drop 64 data" ?x "?d 16" "?d 32" "?d 48"] assms by fastforce
  have "concat (map msb_bits (msb_blocks data 0)) = msb_stream (take 64 data)"
    using msb_bits_blocks [of 0 data] assms by simp
  from feed_msb_lanes [OF this, of c] have "msb_end c data 64 = msb_lanes [?x, ?d 16, ?d 32, ?d 48]"
    by (simp add: msb_blocks_def into_lane)
  then have "msb_end (msb_lanes [y0, y1, y2, y3]) data' len' = msb_end c data len"
    using loop(3) msb_end_split [OF assms(2), of c data] by simp
  moreover have "msb_value (crc_msb_fold (crc_msb_fold (crc_msb_fold y0 K128 y1) K128 y2) K128 y3) = msb_lanes [y0, y1, y2, y3]"
    using join [of "crc_msb_fold (crc_msb_fold y0 K128 y1) K128 y2" y3 "[]"] join [of "crc_msb_fold y0 K128 y1" y2 "[y3]"]
      join [of y0 y1 "[y2, y3]"]
    by (simp add: msb_lanes_simps(1) msb_lanes_simps(2) [of _ "[]"])
  ultimately show ?thesis
    by (simp add: crc_msb_pclmul_def loads loop(1) Let_def tail_result [OF loop(2)])
qed

text \<open>The wide registers.\<close>

lemma fold_lanes:
  assumes "\<And>x. msb_value (crc32_fold16 x k) = adv step n (msb_value x)" and "length ys = length xs"
  shows "msb_lanes (map2 (\<lambda>x y. crc32_fold16 x k XOR y) xs ys) = adv step n (msb_lanes xs) XOR msb_lanes ys"
  using assms by (rule msb_lanes_fold)

lemma fold512:
  assumes "four x" and "four y"
  shows "msb_lanes (crc32_fold64 x (mm512_broadcast K512) y @ zs) = msb_lanes (x @ y @ zs)"
proof -
  have "msb_lanes (crc32_fold64 x (mm512_broadcast K512) y) = msb_lanes (x @ y)"
    using fold_lanes [OF folds(1), of y x] assms by (simp add: crc32_fold64_broadcast lanes_append)
  then show ?thesis
    using lanes_append(2) [of "x @ y" zs] by (simp add: lanes_append(2) [of _ zs])
qed

lemma four_broadcast: "four (mm512_broadcast k)"
  by (simp add: mm512_broadcast_def)

lemma vp_loop4_result:
  "len \<le> length data \<Longrightarrow> four z0 \<Longrightarrow> four z1 \<Longrightarrow> four z2 \<Longrightarrow> four z3 \<Longrightarrow> \<exists>y0 y1 y2 y3 data' len'.
    crc_msb_vp_loop4 (mm512_broadcast K2048) z0 z1 z2 z3 data len = Some (y0, y1, y2, y3, data', len') \<and> len' \<le> length data' \<and>
    four y0 \<and> four y1 \<and> four y2 \<and> four y3 \<and>
    msb_end (msb_lanes (y0 @ y1 @ y2 @ y3)) data' len' = msb_end (msb_lanes (z0 @ z1 @ z2 @ z3)) data len"
proof (induction len arbitrary: z0 z1 z2 z3 data rule: less_induct)
  case (less len)
  show ?case
  proof (cases "256 \<le> len")
    case True
    let ?d = "msb_blocks data" and ?z = "z0 @ z1 @ z2 @ z3"
    let ?ds = "msb_blocks data 0 @ msb_blocks data 64 @ msb_blocks data 128 @ msb_blocks data 192"
    let ?f = "\<lambda>z d. crc32_fold64 z (mm512_broadcast K2048) d"
    have loads: "crc_msb_load64 data 0 = Some (?d 0)" "crc_msb_load64 data 64 = Some (?d 64)" "crc_msb_load64 data 128 = Some (?d 128)"
      "crc_msb_load64 data 192 = Some (?d 192)"
      using True less.prems(1) by (simp_all add: crc_msb_load64_blocks)
    have "?f z0 (?d 0) @ ?f z1 (?d 64) @ ?f z2 (?d 128) @ ?f z3 (?d 192) = map2 (\<lambda>x y. crc32_fold16 x K2048 XOR y) ?z ?ds"
      using less.prems by (simp add: crc32_fold64_broadcast four_msb_blocks)
    moreover have "msb_lanes (map2 (\<lambda>x y. crc32_fold16 x K2048 XOR y) ?z ?ds) = adv step 2048 (msb_lanes ?z) XOR msb_lanes ?ds"
      using less.prems by (intro fold_lanes folds) (simp add: four_msb_blocks)
    moreover have "msb_end (msb_lanes ?z) data 256 = adv step 2048 (msb_lanes ?z) XOR msb_lanes ?ds"
      using feed_msb_lanes [OF msb_bits_blocks4 [of data]] True less.prems(1) by (simp add: four_msb_blocks)
    ultimately have "msb_end (msb_lanes (?f z0 (?d 0) @ ?f z1 (?d 64) @ ?f z2 (?d 128) @ ?f z3 (?d 192))) (drop 256 data) (len - 256) =
        msb_end (msb_lanes ?z) data len"
      using msb_end_split [OF True, of "msb_lanes ?z" data] by simp
    moreover have "crc_msb_vp_loop4 (mm512_broadcast K2048) z0 z1 z2 z3 data len =
        crc_msb_vp_loop4 (mm512_broadcast K2048) (?f z0 (?d 0)) (?f z1 (?d 64)) (?f z2 (?d 128)) (?f z3 (?d 192)) (drop 256 data) (len - 256)"
      by (subst crc_msb_vp_loop4.simps) (simp only: True if_True loads Option.bind.bind_lunit)
    ultimately show ?thesis
      using less.IH [of "len - 256" "drop 256 data" "?f z0 (?d 0)" "?f z1 (?d 64)" "?f z2 (?d 128)" "?f z3 (?d 192)"] True less.prems
      by (simp add: four_fold64 four_msb_blocks four_broadcast)
  next
    case False
    then show ?thesis using less.prems by (subst crc_msb_vp_loop4.simps) simp
  qed
qed

lemma vp_loop1_result:
  "len \<le> length data \<Longrightarrow> four z \<Longrightarrow> \<exists>y data' len'. crc_msb_vp_loop1 (mm512_broadcast K512) z data len = Some (y, data', len') \<and>
    len' \<le> length data' \<and> four y \<and> msb_end (msb_lanes y) data' len' = msb_end (msb_lanes z) data len"
proof (induction len arbitrary: z data rule: less_induct)
  case (less len)
  show ?case
  proof (cases "64 \<le> len")
    case True
    let ?d = "msb_blocks data 0" and ?z = "crc32_fold64 z (mm512_broadcast K512) (msb_blocks data 0)"
    have load: "crc_msb_load64 data 0 = Some ?d" using True less.prems(1) by (simp add: crc_msb_load64_blocks)
    have "concat (map msb_bits ?d) = msb_stream (take 64 data)"
      using msb_bits_blocks [of 0 data] True less.prems by simp
    from feed_msb_lanes [OF this, of "msb_lanes z"] have "msb_end (msb_lanes z) data 64 = msb_lanes ?z"
      using fold512 [OF less.prems(2) four_msb_blocks, of data 0 "[]"] by (simp add: four_msb_blocks lanes_append)
    then have "msb_end (msb_lanes ?z) (drop 64 data) (len - 64) = msb_end (msb_lanes z) data len"
      using msb_end_split [OF True, of "msb_lanes z" data] by simp
    moreover have "crc_msb_vp_loop1 (mm512_broadcast K512) z data len = crc_msb_vp_loop1 (mm512_broadcast K512) ?z (drop 64 data) (len - 64)"
      by (subst crc_msb_vp_loop1.simps) (simp only: True if_True load Option.bind.bind_lunit)
    ultimately show ?thesis
      using less.IH [of "len - 64" "drop 64 data" ?z] True less.prems by (simp add: four_fold64 four_msb_blocks four_broadcast)
  next
    case False
    then show ?thesis using less.prems by (subst crc_msb_vp_loop1.simps) simp
  qed
qed

lemma collapse:
  assumes "four z"
  shows "msb_value (mm512_halves (mm512_mask_mov_C0 (crc32_fold64 z [K384, K256, K128, 0] [0, 0, 0, 0]) z)) = msb_lanes z"
proof -
  obtain a b c d where z: "z = [a, b, c, d]" using assms by (rule fourE)
  have "mm512_halves (mm512_mask_mov_C0 (crc32_fold64 z [K384, K256, K128, 0] [0, 0, 0, 0]) z) =
      (crc32_fold16 a K384 XOR crc32_fold16 c K128) XOR (crc32_fold16 b K256 XOR d)"
    by (simp add: z mm512_halves_def mm512_mask_mov_C0_def crc32_fold64_def crc32_fold16_def Let_def numeral_3_eq_3 numeral_2_eq_2)
  moreover have "msb_lanes [a, b, c, d] = adv step 384 (msb_value a) XOR adv step 256 (msb_value b) XOR adv step 128 (msb_value c) XOR msb_value d"
    by (simp add: msb_lanes_simps del: adv_simps(2))
  ultimately show ?thesis by (simp add: z value_xor folds ac_simps)
qed

lemma vpclmul_result:
  assumes "len \<le> length data" and "256 \<le> len"
  shows "crc_msb_vpclmul m (ucast c) data len = Some (ucast (msb_end c data len))"
proof -
  let ?d = "msb_blocks data" and ?c = "mm_set_epi32 (push_bit (32 - msb_width m) (ucast c)) 0 0 0"
  let ?z = "map2 (XOR) (msb_blocks data 0) [?c, 0, 0, 0]" and ?k = "mm512_broadcast K512"
  have loads: "crc_msb_load64 data 0 = Some (?d 0)" "crc_msb_load64 data 64 = Some (?d 64)" "crc_msb_load64 data 128 = Some (?d 128)"
    "crc_msb_load64 data 192 = Some (?d 192)"
    using assms by (simp_all add: crc_msb_load64_blocks)
  have z: "?z = (msb_block data 0 XOR ?c) # tl (?d 0)" by (simp add: msb_blocks_def)
  have "msb_end c data 256 = msb_lanes (?z @ ?d 64 @ ?d 128 @ ?d 192)"
    using feed_msb_lanes [OF msb_bits_blocks4 [of data], of c] assms unfolding z
    by (simp add: into_lane four_msb_blocks) (simp add: msb_blocks_def)
  then have start: "msb_end (msb_lanes (?z @ ?d 64 @ ?d 128 @ ?d 192)) (drop 256 data) (len - 256) = msb_end c data len"
    using msb_end_split [OF assms(2), of c data] by simp
  have "len - 256 \<le> length (drop 256 data)" using assms by simp
  from vp_loop4_result [OF this, of ?z "?d 64" "?d 128" "?d 192"] obtain y0 y1 y2 y3 data' len' where loop4:
    "crc_msb_vp_loop4 (mm512_broadcast K2048) ?z (?d 64) (?d 128) (?d 192) (drop 256 data) (len - 256) = Some (y0, y1, y2, y3, data', len')"
    "len' \<le> length data'" "four y0" "four y1" "four y2" "four y3"
    "msb_end (msb_lanes (y0 @ y1 @ y2 @ y3)) data' len' = msb_end c data len"
    using start by (auto simp: four_msb_blocks)
  let ?w = "crc32_fold64 (crc32_fold64 (crc32_fold64 y0 ?k y1) ?k y2) ?k y3"
  note four = four_fold64 four_broadcast loop4(3-6)
  have "msb_lanes ?w = msb_lanes (y0 @ y1 @ y2 @ y3)"
    using fold512 [of "crc32_fold64 (crc32_fold64 y0 ?k y1) ?k y2" y3 "[]"]
      fold512 [of "crc32_fold64 y0 ?k y1" y2 y3] fold512 [of y0 y1 "y2 @ y3"]
    by (simp add: four)
  with vp_loop1_result [OF loop4(2), of ?w] loop4(7) obtain y data'' len'' where loop1:
    "crc_msb_vp_loop1 ?k ?w data' len' = Some (y, data'', len'')" "len'' \<le> length data''" "four y"
    "msb_end (msb_lanes y) data'' len'' = msb_end c data len"
    by (auto simp: four)
  show ?thesis
    by (simp add: crc_msb_vpclmul_def loads loop4(1) loop1 Let_def tail_result collapse)
qed

lemma update_result:
  assumes "len \<le> length data"
  shows "crc_msb_update u m (ucast c) data len = Some (ucast (msb_end c data len))"
  using assms by (cases u) (simp_all add: crc_msb_update_def pclmul_result vpclmul_result table)

end

section \<open>The two checksums\<close>

lemmas ogg_eval = lsb_bits_low low_bits_numeral orbit_numeral crc32_ogg_step_def bit_32_and

lemma ogg_adv64: "adv crc32_ogg_step 64 1 = 0x490D678D"
  by (simp add: adv_numeral crc32_ogg_step_def bit_32_and)

lemma ogg_adv128: "adv crc32_ogg_step 128 1 = 0xE8A45605"
  using ogg.adv_mult [of 64 64] by (simp add: ogg_adv64 ogg_eval)

lemma ogg_adv192: "adv crc32_ogg_step 192 1 = 0xC5B9CD4C"
  using ogg.adv_mult [of 128 64] by (simp add: ogg_adv128 ogg_adv64 ogg_eval)

lemma ogg_adv256: "adv crc32_ogg_step 256 1 = 0x75BE46B7"
  using ogg.adv_mult [of 128 128] by (simp add: ogg_adv128 ogg_eval)

lemma ogg_adv320: "adv crc32_ogg_step 320 1 = 0x569700E5"
  using ogg.adv_mult [of 256 64] by (simp add: ogg_adv256 ogg_adv64 ogg_eval)

lemma ogg_adv384: "adv crc32_ogg_step 384 1 = 0x8C3828A8"
  using ogg.adv_mult [of 256 128] by (simp add: ogg_adv256 ogg_adv128 ogg_eval)

lemma ogg_adv448: "adv crc32_ogg_step 448 1 = 0x64BF7A9B"
  using ogg.adv_mult [of 256 192] by (simp add: ogg_adv256 ogg_adv192 ogg_eval)

lemma ogg_adv512: "adv crc32_ogg_step 512 1 = 0xE6228B11"
  using ogg.adv_mult [of 256 256] by (simp add: ogg_adv256 ogg_eval)

lemma ogg_adv576: "adv crc32_ogg_step 576 1 = 0x8833794C"
  using ogg.adv_mult [of 512 64] by (simp add: ogg_adv512 ogg_adv64 ogg_eval)

lemma ogg_adv1024: "adv crc32_ogg_step 1024 1 = 0x567FDDEB"
  using ogg.adv_mult [of 512 512] by (simp add: ogg_adv512 ogg_eval)

lemma ogg_adv2048: "adv crc32_ogg_step 2048 1 = 0x88FE2237"
  using ogg.adv_mult [of 1024 1024] by (simp add: ogg_adv1024 ogg_eval)

lemma ogg_adv2112: "adv crc32_ogg_step 2112 1 = 0xCBCF3BCB"
  using ogg.adv_mult [of 2048 64] by (simp add: ogg_adv2048 ogg_adv64 ogg_eval)

lemmas crc16_eval = lsb_bits_low low_bits_numeral orbit_numeral crc16_step_def bit_32_and

lemma crc16_adv64: "adv crc16_step 64 1 = 0xB861"
  by (simp add: adv_numeral crc16_step_def bit_32_and)

lemma crc16_adv128: "adv crc16_step 128 1 = 0xAEFC"
  using crc16.adv_mult [of 64 64] by (simp add: crc16_adv64 crc16_eval)

lemma crc16_adv192: "adv crc16_step 192 1 = 0x650B"
  using crc16.adv_mult [of 128 64] by (simp add: crc16_adv128 crc16_adv64 crc16_eval)

lemma crc16_adv256: "adv crc16_step 256 1 = 0x8E29"
  using crc16.adv_mult [of 128 128] by (simp add: crc16_adv128 crc16_eval)

lemma crc16_adv320: "adv crc16_step 320 1 = 0x26AA"
  using crc16.adv_mult [of 256 64] by (simp add: crc16_adv256 crc16_adv64 crc16_eval)

lemma crc16_adv384: "adv crc16_step 384 1 = 0xCDE2"
  using crc16.adv_mult [of 256 128] by (simp add: crc16_adv256 crc16_adv128 crc16_eval)

lemma crc16_adv448: "adv crc16_step 448 1 = 0x2535"
  using crc16.adv_mult [of 256 192] by (simp add: crc16_adv256 crc16_adv192 crc16_eval)

lemma crc16_adv512: "adv crc16_step 512 1 = 0x13FC"
  using crc16.adv_mult [of 256 256] by (simp add: crc16_adv256 crc16_eval)

lemma crc16_adv576: "adv crc16_step 576 1 = 0x8832"
  using crc16.adv_mult [of 512 64] by (simp add: crc16_adv512 crc16_adv64 crc16_eval)

lemma crc16_adv1024: "adv crc16_step 1024 1 = 0x36C4"
  using crc16.adv_mult [of 512 512] by (simp add: crc16_adv512 crc16_eval)

lemma crc16_adv2048: "adv crc16_step 2048 1 = 0xFD50"
  using crc16.adv_mult [of 1024 1024] by (simp add: crc16_adv1024 crc16_eval)

lemma crc16_adv2112: "adv crc16_step 2112 1 = 0xF17E"
  using crc16.adv_mult [of 2048 64] by (simp add: crc16_adv2048 crc16_adv64 crc16_eval)

interpretation ogg: msb_checksum crc32_ogg_step "0x80000000" crc_msb_ogg
proof
  show "msb_table crc_msb_ogg (ucast c) data len = Some (ucast (ogg.msb_end c data len))" if "len \<le> length data" for len data c
    using crc32_ogg_table_result [OF that, of c] by (simp add: crc_msb_ogg_def)
qed (simp_all add: crc_msb_ogg_def ogg_adv128 ogg_adv192 ogg_adv256 ogg_adv320 ogg_adv384 ogg_adv448 ogg_adv512 ogg_adv576 ogg_adv2048 ogg_adv2112)

interpretation crc16: msb_checksum crc16_step "0x8000" crc_msb_c16
proof
  show "msb_table crc_msb_c16 (ucast c) data len = Some (ucast (crc16.msb_end c data len))" if "len \<le> length data" for len data c
    using crc16_ccitt_table_result [OF that, of c] by (simp add: crc_msb_c16_def)
qed (simp_all add: crc_msb_c16_def crc16_adv128 crc16_adv192 crc16_adv256 crc16_adv320 crc16_adv384 crc16_adv448 crc16_adv512 crc16_adv576 crc16_adv2048 crc16_adv2112)

text \<open>
  C12. the CRC-32 of Ogg and the CRC-16 of CCITT are, on any unit and any length, the registers of
  their polynomials after every bit of the data, high bit first; and no byte beyond the data is read.
\<close>

theorem encoding_crc_msb_correct:
  assumes "len \<le> length data"
  shows "encoding_crc32_ogg u crc data len = Some (feed crc32_ogg_step 0x80000000 crc (msb_stream (take len data))) \<and>
    encoding_crc16_ccitt u c16 data len = Some (feed crc16_step 0x8000 c16 (msb_stream (take len data)))"
proof
  show "encoding_crc32_ogg u crc data len = Some (feed crc32_ogg_step 0x80000000 crc (msb_stream (take len data)))"
    using ogg.update_result [OF assms, of u crc] by (simp add: encoding_crc32_ogg_def ogg.msb_end_def)
  have "ucast (ucast c :: u32) = (c :: 16 word)" for c by (rule bit_word_eqI) (auto simp: bit_simps)
  then show "encoding_crc16_ccitt u c16 data len = Some (feed crc16_step 0x8000 c16 (msb_stream (take len data)))"
    using crc16.update_result [OF assms, of u c16] by (simp add: encoding_crc16_ccitt_def crc16.msb_end_def)
qed

text \<open>The witness: the check values, of the digits \<open>1\<close> to \<open>9\<close>.\<close>

theorem encoding_crc_msb_correct_witness:
  "encoding_crc32_ogg (X86 True True) 0 [0x31, 0x32, 0x33, 0x34, 0x35, 0x36, 0x37, 0x38, 0x39] 9 = Some 0x89A1897F \<and>
   encoding_crc16_ccitt Portable 0xFFFF [0x31, 0x32, 0x33, 0x34, 0x35, 0x36, 0x37, 0x38, 0x39] 9 = Some 0x29B1"
  using encoding_crc_msb_correct [of 9 "[0x31, 0x32, 0x33, 0x34, 0x35, 0x36, 0x37, 0x38, 0x39]" "X86 True True" 0 0]
    encoding_crc_msb_correct [of 9 "[0x31, 0x32, 0x33, 0x34, 0x35, 0x36, 0x37, 0x38, 0x39]" Portable 0 "0xFFFF"]
  by (simp add: msb_bits_def lsb_bits_low low_bits_numeral crc32_ogg_step_def crc16_step_def bit_32_and)

end
