(* ===== verification/CryptoBase.thy ===== *)
theory CryptoBase
  imports Sse BlockHash
begin

text \<open>
  What the functions of \<open>crypto/crypto.c\<close> share: the loads and stores of \<open>crypto.h\<close>, the comparison in
  constant time, and the way a cipher writes its output. The source and the destination of a cipher
  are two offsets in one memory, so that the calls in place, which the headers allow, are covered by
  the same theorems: the two ranges are the same or do not meet.
\<close>

section \<open>Loads and stores of words\<close>

definition crypto_load32_be :: "byte list \<Rightarrow> nat \<Rightarrow> u32 option" where
  "crypto_load32_be m p = do {
     p0 \<leftarrow> arr_get m p;
     p1 \<leftarrow> arr_get m (p + 1);
     p2 \<leftarrow> arr_get m (p + 2);
     p3 \<leftarrow> arr_get m (p + 3);
     Some (push_bit 24 (ucast p0) OR push_bit 16 (ucast p1) OR push_bit 8 (ucast p2) OR ucast p3) }"

definition crypto_store32_be :: "byte list \<Rightarrow> nat \<Rightarrow> u32 \<Rightarrow> byte list option" where
  "crypto_store32_be m p v = do {
     m \<leftarrow> arr_set m p (ucast (drop_bit 24 v));
     m \<leftarrow> arr_set m (p + 1) (ucast (drop_bit 16 v));
     m \<leftarrow> arr_set m (p + 2) (ucast (drop_bit 8 v));
     arr_set m (p + 3) (ucast v) }"

definition crypto_load64_be :: "byte list \<Rightarrow> nat \<Rightarrow> 64 word option" where
  "crypto_load64_be m p = do {
     h \<leftarrow> crypto_load32_be m p;
     l \<leftarrow> crypto_load32_be m (p + 4);
     Some (push_bit 32 (ucast h) OR ucast l) }"

definition crypto_store64_be :: "byte list \<Rightarrow> nat \<Rightarrow> 64 word \<Rightarrow> byte list option" where
  "crypto_store64_be m p v = do {
     m \<leftarrow> crypto_store32_be m p (ucast (drop_bit 32 v));
     crypto_store32_be m (p + 4) (ucast v) }"

definition crypto_load32_le :: "byte list \<Rightarrow> nat \<Rightarrow> u32 option" where
  "crypto_load32_le m p = do {
     p0 \<leftarrow> arr_get m p;
     p1 \<leftarrow> arr_get m (p + 1);
     p2 \<leftarrow> arr_get m (p + 2);
     p3 \<leftarrow> arr_get m (p + 3);
     Some (ucast p0 OR push_bit 8 (ucast p1) OR push_bit 16 (ucast p2) OR push_bit 24 (ucast p3)) }"

definition crypto_store32_le :: "byte list \<Rightarrow> nat \<Rightarrow> u32 \<Rightarrow> byte list option" where
  "crypto_store32_le m p v = do {
     m \<leftarrow> arr_set m p (ucast v);
     m \<leftarrow> arr_set m (p + 1) (ucast (drop_bit 8 v));
     m \<leftarrow> arr_set m (p + 2) (ucast (drop_bit 16 v));
     arr_set m (p + 3) (ucast (drop_bit 24 v)) }"

definition crypto_store64_le :: "byte list \<Rightarrow> nat \<Rightarrow> 64 word \<Rightarrow> byte list option" where
  "crypto_store64_le m p v = do {
     m \<leftarrow> crypto_store32_le m p (ucast v);
     crypto_store32_le m (p + 4) (ucast (drop_bit 32 v)) }"

definition crypto_rotl32 :: "u32 \<Rightarrow> nat \<Rightarrow> u32" where
  "crypto_rotl32 v n = push_bit n v OR drop_bit (32 - n) v"

text \<open>
  The value of a string of bytes, least significant first; big-endian values are those of the
  reversed string. The bytes of a word are written by \<open>le_enc\<close> and \<open>be_enc\<close>.
\<close>

definition le_word :: "byte list \<Rightarrow> 'a::len word" where
  "le_word bs = word_rcat (rev bs)"

definition be_word :: "byte list \<Rightarrow> 'a::len word" where
  "be_word bs = word_rcat bs"

definition le_enc :: "nat \<Rightarrow> 'a::len word \<Rightarrow> byte list" where
  "le_enc n w = map (\<lambda>k. ucast (drop_bit (8 * k) w)) [0..<n]"

definition be_enc :: "nat \<Rightarrow> 'a::len word \<Rightarrow> byte list" where
  "be_enc n w = rev (le_enc n w)"

lemma be_word_le: "be_word bs = le_word (rev bs)"
  by (simp add: be_word_def le_word_def)

lemma length_enc [simp]: "length (le_enc n w) = n" "length (be_enc n w) = n"
  by (simp_all add: le_enc_def be_enc_def)

lemma bit_crypto_le_word:
  "bit (le_word bs :: 'a::len word) n \<longleftrightarrow> n < LENGTH('a) \<and> n div 8 < length bs \<and> bit (bs ! (n div 8)) (n mod 8)"
  using bit_horner_sum_uint_exp_iff [of bs n] by (auto simp: le_word_def word_rcat_def bit_simps)

lemma bit_le_enc: "k < n \<Longrightarrow> bit (le_enc n w ! k) i \<longleftrightarrow> i < 8 \<and> bit w (8 * k + i)"
  by (simp add: le_enc_def bit_simps)

lemma le_enc_word: "length bs = n \<Longrightarrow> 8 * n \<le> LENGTH('a) \<Longrightarrow> le_enc n (le_word bs :: 'a::len word) = bs"
  by (intro nth_equalityI bit_eqI) (auto simp: bit_le_enc bit_crypto_le_word dest: bit_imp_le_length)

lemma le_word_enc: "8 * n = LENGTH('a) \<Longrightarrow> le_word (le_enc n (w :: 'a::len word)) = w"
proof (rule bit_word_eqI)
  fix i assume n: "8 * n = LENGTH('a)" and "i < LENGTH('a)"
  then have "i div 8 < n" by auto
  with \<open>i < LENGTH('a)\<close> show "bit (le_word (le_enc n w) :: 'a word) i = bit w i"
    by (simp add: bit_crypto_le_word bit_le_enc)
qed

lemma be_enc_word: "length bs = n \<Longrightarrow> 8 * n \<le> LENGTH('a) \<Longrightarrow> be_enc n (be_word bs :: 'a::len word) = bs"
  using le_enc_word [of "rev bs" n, where 'a = 'a] by (simp add: be_enc_def be_word_def le_word_def)

lemma be_word_enc: "8 * n = LENGTH('a) \<Longrightarrow> be_word (be_enc n (w :: 'a::len word)) = w"
  using le_word_enc [of n w] by (simp add: be_enc_def be_word_def le_word_def)

lemma four_crypto_bytes: "length bs = 4 \<Longrightarrow> \<exists>b0 b1 b2 b3. bs = [b0, b1, b2, b3]"
  by (auto simp: length_Suc_conv numeral_eq_Suc)

lemma take_4: "p + 4 \<le> length m \<Longrightarrow> take 4 (drop p m) = [m ! p, m ! (p + 1), m ! (p + 2), m ! (p + 3)]"
  by (intro nth_equalityI) (auto simp: less_Suc_eq numeral_eq_Suc)

lemma le_word_append:
  "le_word (as @ bs) = (le_word as OR push_bit (8 * length as) (le_word bs) :: 'a::len word)"
proof (rule bit_word_eqI)
  fix n assume n: "n < LENGTH('a)"
  show "bit (le_word (as @ bs) :: 'a word) n = bit (le_word as OR push_bit (8 * length as) (le_word bs) :: 'a word) n"
  proof (cases "n < 8 * length as")
    case True
    then have "n div 8 < length as" by auto
    with True n show ?thesis by (simp add: bit_crypto_le_word bit_or_iff bit_push_bit_iff nth_append)
  next
    case False
    define k where "k = n - 8 * length as"
    then have k: "n = 8 * length as + k" using False by simp
    then have "n div 8 = length as + k div 8" "n mod 8 = k mod 8" by simp_all
    with n k show ?thesis by (simp add: bit_crypto_le_word bit_or_iff bit_push_bit_iff nth_append)
  qed
qed

lemma le_word_1: "le_word [b] = (ucast b :: 'a::len word)"
proof (rule bit_word_eqI)
  fix n assume "n < LENGTH('a)"
  show "bit (le_word [b] :: 'a word) n = bit (ucast b :: 'a word) n"
  proof (cases "n < 8")
    case True
    then have "n div 8 = 0" "n mod 8 = n" by simp_all
    with \<open>n < LENGTH('a)\<close> show ?thesis by (simp add: bit_crypto_le_word bit_ucast_iff)
  next
    case False
    then have "0 < n div 8" "\<not> bit b n" by (auto dest: bit_imp_le_length)
    then show ?thesis by (simp add: bit_crypto_le_word bit_ucast_iff)
  qed
qed

lemma le_word_4: "le_word [b0, b1, b2, b3] = (ucast b0 OR push_bit 8 (ucast b1) OR push_bit 16 (ucast b2) OR push_bit 24 (ucast b3) :: u32)"
  using le_word_append [of "[b0]" "[b1, b2, b3]", where 'a = 32] le_word_append [of "[b1]" "[b2, b3]", where 'a = 32]
    le_word_append [of "[b2]" "[b3]", where 'a = 32]
  by (simp add: le_word_1 push_bit_or ac_simps)

lemma be_word_4: "be_word [b0, b1, b2, b3] = (push_bit 24 (ucast b0) OR push_bit 16 (ucast b1) OR push_bit 8 (ucast b2) OR ucast b3 :: u32)"
  using le_word_4 [of b3 b2 b1 b0] by (simp add: be_word_def le_word_def or.commute or.left_commute)

lemma crypto_load32_le_word: "p + 4 \<le> length m \<Longrightarrow> crypto_load32_le m p = Some (le_word (take 4 (drop p m)))"
  by (simp add: crypto_load32_le_def arr_get_def take_4 le_word_4)

lemma crypto_load32_be_word: "p + 4 \<le> length m \<Longrightarrow> crypto_load32_be m p = Some (be_word (take 4 (drop p m)))"
  by (simp add: crypto_load32_be_def arr_get_def take_4 be_word_4)

lemma ucast_le_word: "LENGTH('b) \<le> LENGTH('a) \<Longrightarrow> 8 * length bs \<le> LENGTH('b) \<Longrightarrow>
  (ucast (le_word bs :: 'b::len word) :: 'a::len word) = le_word bs"
  by (rule bit_word_eqI) (auto simp: bit_crypto_le_word bit_ucast_iff)

lemma be_word_8:
  assumes "length bs = 8"
  shows "(be_word bs :: 64 word) = push_bit 32 (ucast (be_word (take 4 bs) :: u32)) OR ucast (be_word (drop 4 bs) :: u32)"
proof -
  have "rev bs = rev (drop 4 bs) @ rev (take 4 bs)" by (metis append_take_drop_id rev_append)
  then have "(le_word (rev bs) :: 64 word) = le_word (rev (drop 4 bs)) OR push_bit 32 (le_word (rev (take 4 bs)))"
    using assms by (simp only: le_word_append) simp
  then show ?thesis using assms by (simp add: be_word_le or.commute ucast_le_word)
qed

lemma crypto_load64_be_word: "p + 8 \<le> length m \<Longrightarrow> crypto_load64_be m p = Some (be_word (take 8 (drop p m)))"
  using be_word_8 [of "take 8 (drop p m)"]
  by (simp add: crypto_load64_be_def crypto_load32_be_word drop_take add.commute)

lemma list_update_4:
  assumes "p + 4 \<le> length m"
  shows "m[p := a, p + 1 := b, p + 2 := c, p + 3 := d] = take p m @ [a, b, c, d] @ drop (p + 4) m"
proof -
  have len: "length (take 4 (drop p m)) = 4" using assms by simp
  from four_crypto_bytes [OF len] obtain e f g h where efgh: "take 4 (drop p m) = [e, f, g, h]" by auto
  define xs where "xs = take p m"
  define ys where "ys = drop (p + 4) m"
  have "m = take p m @ take 4 (drop p m) @ drop 4 (drop p m)" by (simp only: append_take_drop_id)
  also have "\<dots> = xs @ [e, f, g, h] @ ys" by (simp only: efgh xs_def ys_def drop_drop add.commute)
  finally have m: "m = xs @ [e, f, g, h] @ ys" .
  have p: "length xs = p" using assms by (simp add: xs_def)
  have upd: "(xs @ zs)[p + k := x] = xs @ zs[k := x]" for zs k x by (simp add: list_update_append flip: p)
  have "m[p := a, p + 1 := b, p + 2 := c, p + 3 := d] = xs @ [e, f, g, h][0 := a, 1 := b, 2 := c, 3 := d] @ ys"
    using upd [of "[e, f, g, h] @ ys" 0] upd [of "[a, f, g, h] @ ys" 1] upd [of "[a, b, g, h] @ ys" 2] upd [of "[a, b, c, h] @ ys" 3]
    by (simp add: m)
  then show ?thesis by (simp add: xs_def ys_def)
qed

lemma le_enc_4: "le_enc 4 w = [ucast w, ucast (drop_bit 8 w), ucast (drop_bit 16 w), ucast (drop_bit 24 w)]"
  by (simp add: le_enc_def upt_rec)

lemma crypto_store32_le_bytes: "p + 4 \<le> length m \<Longrightarrow> crypto_store32_le m p v = mem_write m p (le_enc 4 v)"
  using list_update_4 [of p m] by (simp add: crypto_store32_le_def arr_set_def mem_write_def le_enc_4) (simp add: numeral_eq_Suc)

lemma crypto_store32_be_bytes: "p + 4 \<le> length m \<Longrightarrow> crypto_store32_be m p v = mem_write m p (be_enc 4 v)"
  using list_update_4 [of p m] by (simp add: crypto_store32_be_def arr_set_def mem_write_def le_enc_4 be_enc_def) (simp add: numeral_eq_Suc)

lemma mem_write_twice:
  "length a = i \<Longrightarrow> p + i + length b \<le> length m \<Longrightarrow> q = p + i \<Longrightarrow> do { m \<leftarrow> mem_write m p a; mem_write m q b } = mem_write m p (a @ b)"
  by (auto simp: mem_write_def ac_simps)

lemma le_enc_ucast:
  "8 * n \<le> LENGTH('b) \<Longrightarrow> le_enc n (ucast (w :: 'a::len word) :: 'b::len word) = le_enc n w"
  by (intro nth_equalityI bit_eqI) (auto simp: bit_le_enc bit_ucast_iff)

lemma le_enc_add: "le_enc (m + n) w = le_enc m w @ le_enc n (drop_bit (8 * m) w)"
  by (intro nth_equalityI bit_eqI)
    (auto simp: bit_le_enc nth_append bit_drop_bit_eq algebra_simps)

lemma le_enc_8: "le_enc 8 (v :: 64 word) = le_enc 4 (ucast v :: u32) @ le_enc 4 (ucast (drop_bit 32 v) :: u32)"
  using le_enc_add [of 4 4 v] by (simp add: le_enc_ucast)

lemma crypto_store64_le_bytes: "p + 8 \<le> length m \<Longrightarrow> crypto_store64_le m p v = mem_write m p (le_enc 8 v)"
  using mem_write_twice [of "le_enc 4 (ucast v :: u32)" 4 p "le_enc 4 (ucast (drop_bit 32 v) :: u32)" m "p + 4"]
  by (simp add: crypto_store64_le_def crypto_store32_le_bytes le_enc_8 bind_eq_Some_conv mem_write_def)

lemma crypto_store64_be_bytes: "p + 8 \<le> length m \<Longrightarrow> crypto_store64_be m p v = mem_write m p (be_enc 8 v)"
  using mem_write_twice [of "be_enc 4 (ucast (drop_bit 32 v) :: u32)" 4 p "be_enc 4 (ucast v :: u32)" m "p + 4"]
  by (simp add: crypto_store64_be_def crypto_store32_be_bytes le_enc_8 be_enc_def mem_write_def)

lemma crypto_rotl32_word: "0 < n \<Longrightarrow> n < 32 \<Longrightarrow> crypto_rotl32 v n = word_rotl n v"
  using shifts_rotl [of n v] by (simp add: crypto_rotl32_def)

section \<open>Comparing and clearing\<close>

lemma word_xor_eq_0: "x XOR y = 0 \<longleftrightarrow> x = (y :: 'a::len word)"
  by (metis xor.assoc xor.left_neutral xor.right_neutral xor_self_eq)

fun memeq_loop :: "byte list \<Rightarrow> byte list \<Rightarrow> nat \<Rightarrow> nat \<Rightarrow> byte \<Rightarrow> byte option" where
  "memeq_loop a b i 0 acc = Some acc"
| "memeq_loop a b i (Suc n) acc = do {
     x \<leftarrow> arr_get a i;
     y \<leftarrow> arr_get b i;
     memeq_loop a b (Suc i) n (acc OR (x XOR y)) }"

text \<open>\<open>acc - 1\<close> is computed in \<open>unsigned\<close>; its bit 8 is the borrow.\<close>

definition crypto_memeq_ct :: "byte list \<Rightarrow> byte list \<Rightarrow> nat \<Rightarrow> int option" where
  "crypto_memeq_ct a b len = do {
     acc \<leftarrow> memeq_loop a b 0 len 0;
     Some (uint (drop_bit 8 (ucast acc - 1 :: u32) AND 1)) }"

definition crypto_memzero :: "byte list \<Rightarrow> byte list" where
  "crypto_memzero m = replicate (length m) 0"

lemma memeq_loop_result:
  "i + n \<le> length a \<Longrightarrow> i + n \<le> length b \<Longrightarrow>
   \<exists>r. memeq_loop a b i n acc = Some r \<and> (r = 0 \<longleftrightarrow> acc = 0 \<and> take n (drop i a) = take n (drop i b))"
proof (induction n arbitrary: i acc)
  case (Suc n)
  from Suc.IH [of "Suc i" "acc OR (a ! i XOR b ! i)"] Suc.prems obtain r where
    r: "memeq_loop a b (Suc i) n (acc OR (a ! i XOR b ! i)) = Some r"
    "r = 0 \<longleftrightarrow> (acc OR (a ! i XOR b ! i)) = 0 \<and> take n (drop (Suc i) a) = take n (drop (Suc i) b)" by auto
  have "(acc OR (a ! i XOR b ! i)) = 0 \<longleftrightarrow> acc = 0 \<and> a ! i = b ! i"
    by (auto simp: or_eq_0_iff word_xor_eq_0)
  moreover have "take (Suc n) (drop i a) = a ! i # take n (drop (Suc i) a)" "take (Suc n) (drop i b) = b ! i # take n (drop (Suc i) b)"
    using Suc.prems by (simp_all add: Cons_nth_drop_Suc [symmetric])
  ultimately show ?case using r Suc.prems by (auto simp: buf_simps)
qed simp

lemma borrow_bit: "uint (drop_bit 8 (ucast (acc :: byte) - 1 :: u32) AND 1) = (if acc = 0 then 1 else 0)"
proof (cases "acc = 0")
  case False
  have lt: "unat acc < 256" using unsigned_less [of acc] by simp
  from False have "0 < unat acc" by (simp add: unat_gt_0)
  moreover have "unat (ucast acc :: u32) = unat acc" using lt by (simp add: unsigned_ucast_eq take_bit_nat_eq_self)
  ultimately have "unat (ucast acc - 1 :: u32) = unat acc - 1"
    by (metis One_nat_def Suc_leI unat_1 unat_sub word_le_nat_alt)
  with lt have "unat (drop_bit 8 (ucast acc - 1 :: u32)) = 0" by (simp add: drop_bit_eq_div unat_div)
  then have "drop_bit 8 (ucast acc - 1 :: u32) = 0" by (simp only: unat_eq_zero)
  with False show ?thesis by simp
qed (simp add: mask_eq_exp_minus_1)

lemma crypto_memeq_ct_result:
  "len \<le> length a \<Longrightarrow> len \<le> length b \<Longrightarrow>
   crypto_memeq_ct a b len = Some (if take len a = take len b then 1 else 0)"
  using memeq_loop_result [of 0 len a b 0] by (auto simp: crypto_memeq_ct_def borrow_bit)

section \<open>Output of a cipher\<close>

text \<open>
  A cipher that adds a key stream writes \<open>out[i] = in[i] ^ ks[i]\<close>. \<open>xored m inp out S f\<close> is the memory
  after the bytes with indices in \<open>S\<close> are written, in whatever order, all read from the memory \<open>m\<close> at
  the start.
\<close>

definition may_alias :: "nat \<Rightarrow> nat \<Rightarrow> nat \<Rightarrow> nat \<Rightarrow> bool" where
  "may_alias inp out len n \<longleftrightarrow> inp + len \<le> n \<and> out + len \<le> n \<and> (inp = out \<or> inp + len \<le> out \<or> out + len \<le> inp)"

definition xored :: "byte list \<Rightarrow> nat \<Rightarrow> nat \<Rightarrow> nat set \<Rightarrow> (nat \<Rightarrow> byte) \<Rightarrow> byte list" where
  "xored m inp out S f = map (\<lambda>j. if out \<le> j \<and> j - out \<in> S then m ! (inp + (j - out)) XOR f (j - out) else m ! j) [0..<length m]"

definition xor_bytes :: "byte list \<Rightarrow> byte list \<Rightarrow> byte list" where
  "xor_bytes a b = map2 (XOR) a b"

text \<open>The memory when all of it is written.\<close>

definition xor_mem :: "byte list \<Rightarrow> nat \<Rightarrow> nat \<Rightarrow> byte list \<Rightarrow> byte list" where
  "xor_mem m inp out ks =
     take out m @ xor_bytes (take (length ks) (drop inp m)) ks @ drop (out + length ks) m"

lemma length_xored [simp]: "length (xored m inp out S f) = length m"
  by (simp add: xored_def)

lemma length_xor_bytes [simp]: "length (xor_bytes a b) = min (length a) (length b)"
  by (simp add: xor_bytes_def)

lemma nth_xor_bytes: "i < length a \<Longrightarrow> i < length b \<Longrightarrow> xor_bytes a b ! i = a ! i XOR b ! i"
  by (simp add: xor_bytes_def)

lemma le_enc_xor: "le_enc n (a XOR b) = xor_bytes (le_enc n a) (le_enc n b)"
  by (intro nth_equalityI bit_eqI) (auto simp: nth_xor_bytes bit_le_enc bit_xor_iff)

lemma xored_empty [simp]: "xored m inp out {} f = m"
  by (simp add: xored_def map_nth)

lemma xored_step:
  assumes al: "may_alias inp out len (length m)" and S: "S \<inter> {p..<p + n} = {}" "S \<subseteq> {..<len}"
    and p: "p + n \<le> len" and ks: "length ks = n" "\<And>i. i < n \<Longrightarrow> f (p + i) = ks ! i"
  shows "do { bs \<leftarrow> mem_read (xored m inp out S f) (inp + p) n; mem_write (xored m inp out S f) (out + p) (xor_bytes bs ks) } =
    Some (xored m inp out (S \<union> {p..<p + n}) f)"
proof -
  let ?x = "xored m inp out S f"
  let ?bs = "take n (drop (inp + p) m)"
  have bounds: "inp + p + n \<le> length m" "out + p + n \<le> length m" using al p by (auto simp: may_alias_def)
  have "take n (drop (inp + p) ?x) = ?bs"
  proof (rule nth_equalityI)
    fix i assume "i < length (take n (drop (inp + p) ?x))"
    then have i: "i < n" by simp
    have "\<not> (out \<le> inp + p + i \<and> inp + p + i - out \<in> S)"
    proof
      assume *: "out \<le> inp + p + i \<and> inp + p + i - out \<in> S"
      then have "inp + p + i - out < len" using S(2) by auto
      then have "inp = out" using al * i p by (auto simp: may_alias_def)
      with * i S(1) show False by auto
    qed
    then show "take n (drop (inp + p) ?x) ! i = ?bs ! i" using i bounds by (auto simp: xored_def)
  qed (use bounds in simp)
  then have read: "mem_read ?x (inp + p) n = Some ?bs" using bounds by (simp add: mem_read_def)
  have "take (out + p) ?x @ xor_bytes ?bs ks @ drop (out + p + n) ?x = xored m inp out (S \<union> {p..<p + n}) f"
  proof (rule nth_equalityI)
    show "length (take (out + p) ?x @ xor_bytes ?bs ks @ drop (out + p + n) ?x) = length (xored m inp out (S \<union> {p..<p + n}) f)"
      using bounds ks by simp
    fix j assume "j < length (take (out + p) ?x @ xor_bytes ?bs ks @ drop (out + p + n) ?x)"
    then have j: "j < length m" using bounds ks by simp
    consider "j < out + p" | "out + p \<le> j" "j < out + p + n" | "out + p + n \<le> j" by linarith
    then show "(take (out + p) ?x @ xor_bytes ?bs ks @ drop (out + p + n) ?x) ! j = xored m inp out (S \<union> {p..<p + n}) f ! j"
    proof cases
      case 1
      then have "j - out \<notin> {p..<p + n} \<or> \<not> out \<le> j" by auto
      with 1 j show ?thesis by (auto simp: xored_def nth_append)
    next
      case 2
      define i where "i = j - (out + p)"
      with 2 have i: "i < n" "j = out + p + i" by auto
      with 2 ks j bounds show ?thesis
        by (simp add: nth_append xored_def nth_xor_bytes add.assoc)
    next
      case 3
      then have "j - out \<notin> {p..<p + n}" by auto
      moreover from 3 have "\<not> j < out + p" "\<not> j - (out + p) < n" by linarith+
      ultimately show ?thesis using 3 j ks bounds by (simp add: nth_append xored_def)
    qed
  qed
  then show ?thesis using read bounds ks by (simp add: mem_write_def)
qed

lemma xored_all:
  assumes "inp + length ks \<le> length m" "out + length ks \<le> length m" and "\<And>i. i < length ks \<Longrightarrow> f i = ks ! i"
  shows "xored m inp out {..<length ks} f = xor_mem m inp out ks"
proof (rule nth_equalityI)
  fix j assume "j < length (xored m inp out {..<length ks} f)"
  then have j: "j < length m" by simp
  consider "j < out" | i where "j = out + i" "i < length ks" | "out + length ks \<le> j"
    by (metis le_Suc_ex linorder_not_le nat_add_left_cancel_less)
  then show "xored m inp out {..<length ks} f ! j = xor_mem m inp out ks ! j"
    using j assms by cases (auto simp: xored_def xor_mem_def nth_append nth_xor_bytes)
qed (use assms in \<open>simp add: xor_mem_def\<close>)

lemma xor_bytes_twice: "length a = length b \<Longrightarrow> xor_bytes (xor_bytes a b) b = a"
  by (rule nth_equalityI) (simp_all add: nth_xor_bytes xor.assoc)

lemma xor_mem_twice: "p + length ks \<le> length m \<Longrightarrow> xor_mem (xor_mem m p p ks) p p ks = m"
proof -
  assume le: "p + length ks \<le> length m"
  have m: "m = take p m @ take (length ks) (drop p m) @ drop (p + length ks) m"
    by (metis add.commute append_take_drop_id drop_drop)
  from le have "xor_mem (xor_mem m p p ks) p p ks = take p m @ take (length ks) (drop p m) @ drop (p + length ks) m"
    by (simp add: xor_mem_def xor_bytes_twice)
  with m show ?thesis by (simp only:)
qed

text \<open>A byte at a time.\<close>

fun xor_loop :: "byte list \<Rightarrow> nat \<Rightarrow> nat \<Rightarrow> byte list \<Rightarrow> nat \<Rightarrow> byte list option" where
  "xor_loop m inp out ks 0 = Some m"
| "xor_loop m inp out ks (Suc n) = do {
     k \<leftarrow> arr_get ks 0;
     b \<leftarrow> arr_get m inp;
     m \<leftarrow> arr_set m out (b XOR k);
     xor_loop m (inp + 1) (out + 1) (drop 1 ks) n }"

lemma xor_loop_xored:
  assumes "may_alias inp out len (length m)" and "S \<inter> {p..<p + n} = {}" and "S \<subseteq> {..<len}" and "p + n \<le> len"
    and "n \<le> length ks" and "\<And>i. i < n \<Longrightarrow> f (p + i) = ks ! i"
  shows "xor_loop (xored m inp out S f) (inp + p) (out + p) ks n = Some (xored m inp out (S \<union> {p..<p + n}) f)"
  using assms
proof (induction n arbitrary: p ks S)
  case (Suc n)
  let ?x = "xored m inp out S f"
  have bounds: "inp + p < length m" "out + p < length m" using Suc.prems(1,4) by (auto simp: may_alias_def)
  have "do { bs \<leftarrow> mem_read ?x (inp + p) 1; mem_write ?x (out + p) (xor_bytes bs [ks ! 0]) } = Some (xored m inp out (S \<union> {p..<p + 1}) f)"
    using Suc.prems by (intro xored_step [where len = len]) force+
  moreover have "take 1 (drop (inp + p) ?x) = [?x ! (inp + p)]" using bounds by (simp add: take_Suc_conv_app_nth)
  ultimately have step: "arr_set ?x (out + p) (?x ! (inp + p) XOR ks ! 0) = Some (xored m inp out (S \<union> {p..<p + 1}) f)"
    using bounds by (simp add: mem_read_def mem_write_def xor_bytes_def arr_set_def upd_conv_take_nth_drop)
  have "xor_loop (xored m inp out (S \<union> {p..<p + 1}) f) (inp + (p + 1)) (out + (p + 1)) (drop 1 ks) n =
      Some (xored m inp out ((S \<union> {p..<p + 1}) \<union> {p + 1..<p + 1 + n}) f)"
  proof (rule Suc.IH)
    show "f (p + 1 + i) = drop 1 ks ! i" if "i < n" for i
      using Suc.prems(6) [of "Suc i"] that Suc.prems(5) by simp
  qed (use Suc.prems in force)+
  moreover have "(S \<union> {p..<p + 1}) \<union> {p + 1..<p + 1 + n} = S \<union> {p..<p + Suc n}" by auto
  moreover have "0 < length ks" using Suc.prems(5) by linarith
  ultimately show ?case using step bounds by (simp add: arr_get_def)
qed simp

section \<open>Buffers of pending bytes\<close>

text \<open>
  A state that absorbs bytes in blocks of \<open>B\<close> and holds fewer than \<open>B\<close> pending ones, without a limit on
  their number: feeding the pieces of a message is feeding the message.
\<close>

locale block_buffer =
  fixes B :: nat
    and f :: "'s \<Rightarrow> byte list \<Rightarrow> 's"
    and inv :: "'c \<Rightarrow> bool"
    and chain :: "'c \<Rightarrow> 's"
    and pending :: "'c \<Rightarrow> byte list"
    and update :: "'c \<Rightarrow> byte list \<Rightarrow> 'c option"
  assumes B_pos: "0 < B"
    and pending_short: "inv c \<Longrightarrow> length (pending c) < B"
    and update: "inv c \<Longrightarrow> \<exists>c'. update c xs = Some c' \<and> inv c' \<and>
      (chain c', pending c') = absorb B f (chain c) (pending c @ xs)"
begin

lemma buffer_update_absorbs:
  assumes "inv c"
  shows "\<exists>c'. update_all update c xss = Some c' \<and> inv c' \<and>
    (chain c', pending c') = absorb B f (chain c) (pending c @ concat xss)"
  using assms
proof (induction xss arbitrary: c)
  case Nil
  then show ?case by (simp add: absorb_short pending_short)
next
  case (Cons xs xss)
  from update [OF Cons.prems, of xs] obtain c' where c': "update c xs = Some c'" "inv c'"
    "(chain c', pending c') = absorb B f (chain c) (pending c @ xs)" by auto
  from Cons.IH [OF c'(2)] obtain c'' where c'': "update_all update c' xss = Some c''" "inv c''"
    "(chain c'', pending c'') = absorb B f (chain c') (pending c' @ concat xss)" by auto
  have "absorb B f (chain c) (pending c @ concat (xs # xss)) = absorb B f (chain c') (pending c' @ concat xss)"
    using absorb_append [OF B_pos, of f "chain c" "pending c @ xs" "concat xss"] by (simp flip: c'(3))
  with c' c'' show ?case by simp
qed

end

end
