(* ===== verification/Poly1305.thy ===== *)
theory Poly1305
  imports CryptoBase
begin

text \<open>
  Poly1305 of \<open>crypto/crypto.c\<close>: the one-time authenticator in limbs of 26 bits, and in limbs of 44 bits
  where the compiler has 128-bit integers. The reference is the polynomial of RFC 8439 evaluated modulo
  \<open>2 ^ 130 - 5\<close>.
\<close>

section \<open>State\<close>

type_synonym u128 = "128 word"

record poly1305_ctx =
  p_r :: "u32 list"
  p_h :: "u32 list"
  p_pad :: "u32 list"
  p_leftover :: nat
  p_buffer :: "byte list"
  p_final :: byte

definition P1305_MASK :: u32 where
  "P1305_MASK = 0x3ffffff"

definition poly1305_init :: "byte list \<Rightarrow> byte list \<Rightarrow> poly1305_ctx option" where
  "poly1305_init buffer key = do {
     t0 \<leftarrow> crypto_load32_le key 0;
     t1 \<leftarrow> crypto_load32_le key 4;
     t2 \<leftarrow> crypto_load32_le key 8;
     t3 \<leftarrow> crypto_load32_le key 12;
     let r0 = t0 AND 0x3ffffff;
     let t0 = drop_bit 26 t0;
     let t0 = t0 OR push_bit 6 t1;
     let r1 = t0 AND 0x3ffff03;
     let t1 = drop_bit 20 t1;
     let t1 = t1 OR push_bit 12 t2;
     let r2 = t1 AND 0x3ffc0ff;
     let t2 = drop_bit 14 t2;
     let t2 = t2 OR push_bit 18 t3;
     let r3 = t2 AND 0x3f03fff;
     let t3 = drop_bit 8 t3;
     let r4 = t3 AND 0x00fffff;
     pad0 \<leftarrow> crypto_load32_le key 16;
     pad1 \<leftarrow> crypto_load32_le key 20;
     pad2 \<leftarrow> crypto_load32_le key 24;
     pad3 \<leftarrow> crypto_load32_le key 28;
     Some \<lparr>p_r = [r0, r1, r2, r3, r4], p_h = [0, 0, 0, 0, 0], p_pad = [pad0, pad1, pad2, pad3],
       p_leftover = 0, p_buffer = buffer, p_final = 0\<rparr> }"

section \<open>Blocks in limbs of 26 bits\<close>

type_synonym limbs = "u32 \<times> u32 \<times> u32 \<times> u32 \<times> u32"

text \<open>The four words of a block added to the accumulator.\<close>

definition poly1305_add :: "u32 \<Rightarrow> limbs \<Rightarrow> byte list \<Rightarrow> limbs option" where
  "poly1305_add hibit = (\<lambda>(h0, h1, h2, h3, h4) m. do {
     t0 \<leftarrow> crypto_load32_le m 0;
     t1 \<leftarrow> crypto_load32_le m 4;
     t2 \<leftarrow> crypto_load32_le m 8;
     t3 \<leftarrow> crypto_load32_le m 12;
     Some (h0 + (t0 AND P1305_MASK),
       h1 + ((drop_bit 26 t0 OR push_bit 6 t1) AND P1305_MASK),
       h2 + ((drop_bit 20 t1 OR push_bit 12 t2) AND P1305_MASK),
       h3 + ((drop_bit 14 t2 OR push_bit 18 t3) AND P1305_MASK),
       h4 + (drop_bit 8 t3 OR hibit)) })"

definition poly1305_mul :: "u32 list \<Rightarrow> limbs \<Rightarrow> limbs" where
  "poly1305_mul r = (\<lambda>(h0, h1, h2, h3, h4).
     let r0 = r ! 0; r1 = r ! 1; r2 = r ! 2; r3 = r ! 3; r4 = r ! 4;
         s1 = r1 * 5; s2 = r2 * 5; s3 = r3 * 5; s4 = r4 * 5;
         d0 = (ucast h0 :: 64 word) * ucast r0 + ucast h1 * ucast s4 + ucast h2 * ucast s3 + ucast h3 * ucast s2 + ucast h4 * ucast s1;
         d1 = (ucast h0 :: 64 word) * ucast r1 + ucast h1 * ucast r0 + ucast h2 * ucast s4 + ucast h3 * ucast s3 + ucast h4 * ucast s2;
         d2 = (ucast h0 :: 64 word) * ucast r2 + ucast h1 * ucast r1 + ucast h2 * ucast r0 + ucast h3 * ucast s4 + ucast h4 * ucast s3;
         d3 = (ucast h0 :: 64 word) * ucast r3 + ucast h1 * ucast r2 + ucast h2 * ucast r1 + ucast h3 * ucast r0 + ucast h4 * ucast s4;
         d4 = (ucast h0 :: 64 word) * ucast r4 + ucast h1 * ucast r3 + ucast h2 * ucast r2 + ucast h3 * ucast r1 + ucast h4 * ucast r0;
         c = (ucast (drop_bit 26 d0) :: u32); h0 = ucast d0 AND P1305_MASK;
         d1 = d1 + ucast c; c = (ucast (drop_bit 26 d1) :: u32); h1 = ucast d1 AND P1305_MASK;
         d2 = d2 + ucast c; c = (ucast (drop_bit 26 d2) :: u32); h2 = ucast d2 AND P1305_MASK;
         d3 = d3 + ucast c; c = (ucast (drop_bit 26 d3) :: u32); h3 = ucast d3 AND P1305_MASK;
         d4 = d4 + ucast c; c = (ucast (drop_bit 26 d4) :: u32); h4 = ucast d4 AND P1305_MASK;
         h0 = h0 + c * 5; c = drop_bit 26 h0; h0 = h0 AND P1305_MASK;
         h1 = h1 + c
     in (h0, h1, h2, h3, h4))"

function blocks_26_loop :: "u32 list \<Rightarrow> u32 \<Rightarrow> limbs \<Rightarrow> byte list \<Rightarrow> nat \<Rightarrow> limbs option" where
  "blocks_26_loop r hibit h m len =
     (if 16 \<le> len then do {
        h \<leftarrow> poly1305_add hibit h m;
        blocks_26_loop r hibit (poly1305_mul r h) (drop 16 m) (len - 16) }
      else Some h)"
  by pat_completeness auto
termination by (relation "measure (\<lambda>(r, hibit, h, m, len). len)") auto

declare blocks_26_loop.simps [simp del]

definition poly1305_blocks_26 :: "poly1305_ctx \<Rightarrow> byte list \<Rightarrow> nat \<Rightarrow> poly1305_ctx option" where
  "poly1305_blocks_26 ctx m len = do {
     let hibit = (if p_final ctx \<noteq> 0 then 0 else push_bit 24 1);
     let h = p_h ctx;
     (h0, h1, h2, h3, h4) \<leftarrow> blocks_26_loop (p_r ctx) hibit (h ! 0, h ! 1, h ! 2, h ! 3, h ! 4) m len;
     Some (ctx\<lparr>p_h := [h0, h1, h2, h3, h4]\<rparr>) }"

section \<open>Blocks in limbs of 44 bits\<close>

definition P1305_M44 :: "64 word" where
  "P1305_M44 = 0xfffffffffff"

definition P1305_M42 :: "64 word" where
  "P1305_M42 = 0x3ffffffffff"

type_synonym limbs44 = "64 word \<times> 64 word \<times> 64 word"

definition poly1305_r44 :: "u32 list \<Rightarrow> limbs44" where
  "poly1305_r44 r =
     (let lo = (ucast (r ! 0) :: 64 word) OR push_bit 26 (ucast (r ! 1)) OR push_bit 52 (ucast (r ! 2));
          up = (ucast (drop_bit 12 (r ! 2)) :: u128) OR push_bit 14 (ucast (r ! 3)) OR push_bit 40 (ucast (r ! 4))
      in (lo AND P1305_M44, (drop_bit 44 lo OR ucast (push_bit 20 up)) AND P1305_M44, ucast (drop_bit 24 up) AND P1305_M42))"

definition poly1305_h44 :: "u32 list \<Rightarrow> limbs44" where
  "poly1305_h44 h =
     (let g0 = h ! 0; g1 = h ! 1; g2 = h ! 2; g3 = h ! 3; g4 = h ! 4;
          c = drop_bit 26 g0; g0 = g0 AND P1305_MASK; g1 = g1 + c;
          c = drop_bit 26 g1; g1 = g1 AND P1305_MASK; g2 = g2 + c;
          c = drop_bit 26 g2; g2 = g2 AND P1305_MASK; g3 = g3 + c;
          c = drop_bit 26 g3; g3 = g3 AND P1305_MASK; g4 = g4 + c;
          lo = (ucast g0 :: 64 word) OR push_bit 26 (ucast g1) OR push_bit 52 (ucast (g2 AND 0xfff));
          up = (ucast (drop_bit 12 g2) :: u128) + push_bit 14 (ucast g3) + push_bit 40 (ucast g4)
      in (lo AND P1305_M44, (drop_bit 44 lo OR ucast (push_bit 20 up)) AND P1305_M44, ucast (drop_bit 24 up)))"

definition poly1305_add44 :: "64 word \<Rightarrow> limbs44 \<Rightarrow> byte list \<Rightarrow> limbs44 option" where
  "poly1305_add44 hibit = (\<lambda>(h0, h1, h2) m. do {
     w0 \<leftarrow> crypto_load32_le m 0;
     w1 \<leftarrow> crypto_load32_le m 4;
     w2 \<leftarrow> crypto_load32_le m 8;
     w3 \<leftarrow> crypto_load32_le m 12;
     let t0 = (ucast w0 :: 64 word) OR push_bit 32 (ucast w1);
     let t1 = (ucast w2 :: 64 word) OR push_bit 32 (ucast w3);
     Some (h0 + (t0 AND P1305_M44),
       h1 + ((drop_bit 44 t0 OR push_bit 20 t1) AND P1305_M44),
       h2 + ((drop_bit 24 t1 AND P1305_M42) OR hibit)) })"

definition poly1305_mul44 :: "limbs44 \<Rightarrow> limbs44 \<Rightarrow> limbs44" where
  "poly1305_mul44 = (\<lambda>(r0, r1, r2) (h0, h1, h2).
     let s1 = r1 * 20; s2 = r2 * 20;
         d0 = (ucast h0 :: u128) * ucast r0 + ucast h1 * ucast s2 + ucast h2 * ucast s1;
         d1 = (ucast h0 :: u128) * ucast r1 + ucast h1 * ucast r0 + ucast h2 * ucast s2;
         d2 = (ucast h0 :: u128) * ucast r2 + ucast h1 * ucast r1 + ucast h2 * ucast r0;
         cc = (ucast (drop_bit 44 d0) :: 64 word); h0 = ucast d0 AND P1305_M44;
         d1 = d1 + ucast cc; cc = (ucast (drop_bit 44 d1) :: 64 word); h1 = ucast d1 AND P1305_M44;
         d2 = d2 + ucast cc; cc = (ucast (drop_bit 42 d2) :: 64 word); h2 = ucast d2 AND P1305_M42;
         h0 = h0 + cc * 5; cc = drop_bit 44 h0; h0 = h0 AND P1305_M44;
         h1 = h1 + cc
     in (h0, h1, h2))"

function blocks_44_loop :: "limbs44 \<Rightarrow> 64 word \<Rightarrow> limbs44 \<Rightarrow> byte list \<Rightarrow> nat \<Rightarrow> limbs44 option" where
  "blocks_44_loop r hibit h m len =
     (if 16 \<le> len then do {
        h \<leftarrow> poly1305_add44 hibit h m;
        blocks_44_loop r hibit (poly1305_mul44 r h) (drop 16 m) (len - 16) }
      else Some h)"
  by pat_completeness auto
termination by (relation "measure (\<lambda>(r, hibit, h, m, len). len)") auto

declare blocks_44_loop.simps [simp del]

text \<open>The limbs of 44 bits cut back into limbs of 26 bits.\<close>

definition poly1305_h26 :: "limbs44 \<Rightarrow> u32 list" where
  "poly1305_h26 = (\<lambda>(h0, h1, h2).
     [ucast (h0 AND ucast P1305_MASK),
      ucast ((drop_bit 26 h0 OR push_bit 18 h1) AND ucast P1305_MASK),
      ucast (drop_bit 8 h1 AND ucast P1305_MASK),
      ucast ((drop_bit 34 h1 OR push_bit 10 h2) AND ucast P1305_MASK),
      ucast (drop_bit 16 h2)])"

definition poly1305_blocks_44 :: "poly1305_ctx \<Rightarrow> byte list \<Rightarrow> nat \<Rightarrow> poly1305_ctx option" where
  "poly1305_blocks_44 ctx m len = do {
     let hibit = (if p_final ctx \<noteq> 0 then 0 else push_bit 40 1);
     h \<leftarrow> blocks_44_loop (poly1305_r44 (p_r ctx)) hibit (poly1305_h44 (p_h ctx)) m len;
     Some (ctx\<lparr>p_h := poly1305_h26 h\<rparr>) }"

section \<open>The streaming interface\<close>

text \<open>\<open>wide\<close>: the build has 128-bit integers.\<close>

definition poly1305_blocks :: "bool \<Rightarrow> poly1305_ctx \<Rightarrow> byte list \<Rightarrow> nat \<Rightarrow> poly1305_ctx option" where
  "poly1305_blocks wide ctx m len =
     (if wide then poly1305_blocks_44 ctx m len else poly1305_blocks_26 ctx m len)"

text \<open>The two parts of the update: the pending bytes completed, then the whole blocks and the rest.\<close>

definition poly1305_update_rest :: "bool \<Rightarrow> poly1305_ctx \<Rightarrow> byte list \<Rightarrow> nat \<Rightarrow> poly1305_ctx option" where
  "poly1305_update_rest wide ctx m len = do {
     (ctx, m, len) \<leftarrow> (if 16 \<le> len then do {
          let want = len div 16 * 16;
          ctx \<leftarrow> poly1305_blocks wide ctx m want;
          Some (ctx, drop want m, len - want) }
        else Some (ctx, m, len));
     if len \<noteq> 0 then do {
       bs \<leftarrow> mem_read m 0 len;
       buf \<leftarrow> mem_write (p_buffer ctx) 0 bs;
       Some (ctx\<lparr>p_buffer := buf, p_leftover := len\<rparr>) }
     else Some ctx }"

definition poly1305_update :: "bool \<Rightarrow> poly1305_ctx \<Rightarrow> byte list \<Rightarrow> nat \<Rightarrow> poly1305_ctx option" where
  "poly1305_update wide ctx m len =
     (if p_leftover ctx \<noteq> 0 then do {
        let want = min (16 - p_leftover ctx) len;
        bs \<leftarrow> mem_read m 0 want;
        buf \<leftarrow> mem_write (p_buffer ctx) (p_leftover ctx) bs;
        let ctx = ctx\<lparr>p_buffer := buf, p_leftover := p_leftover ctx + want\<rparr>;
        if p_leftover ctx < 16 then Some ctx
        else do {
          ctx \<leftarrow> poly1305_blocks wide ctx (p_buffer ctx) 16;
          poly1305_update_rest wide (ctx\<lparr>p_leftover := 0\<rparr>) (drop want m) (len - want) } }
      else poly1305_update_rest wide ctx m len)"

text \<open>The last block is padded with a one and zeros.\<close>

definition poly1305_last_block :: "bool \<Rightarrow> poly1305_ctx \<Rightarrow> poly1305_ctx option" where
  "poly1305_last_block wide ctx =
     (if p_leftover ctx \<noteq> 0 then do {
        let i = p_leftover ctx;
        buf \<leftarrow> arr_set (p_buffer ctx) i 1;
        buf \<leftarrow> mem_write buf (i + 1) (replicate (16 - (i + 1)) 0);
        let ctx = ctx\<lparr>p_buffer := buf, p_final := 1\<rparr>;
        poly1305_blocks wide ctx (p_buffer ctx) 16 }
      else Some ctx)"

text \<open>The full reduction, and the sum with the pad.\<close>

definition poly1305_reduce :: "limbs \<Rightarrow> limbs" where
  "poly1305_reduce = (\<lambda>(h0, h1, h2, h3, h4).
     let c = drop_bit 26 h1; h1 = h1 AND P1305_MASK;
         h2 = h2 + c; c = drop_bit 26 h2; h2 = h2 AND P1305_MASK;
         h3 = h3 + c; c = drop_bit 26 h3; h3 = h3 AND P1305_MASK;
         h4 = h4 + c; c = drop_bit 26 h4; h4 = h4 AND P1305_MASK;
         h0 = h0 + c * 5; c = drop_bit 26 h0; h0 = h0 AND P1305_MASK;
         h1 = h1 + c;
         g0 = h0 + 5; c = drop_bit 26 g0; g0 = g0 AND P1305_MASK;
         g1 = h1 + c; c = drop_bit 26 g1; g1 = g1 AND P1305_MASK;
         g2 = h2 + c; c = drop_bit 26 g2; g2 = g2 AND P1305_MASK;
         g3 = h3 + c; c = drop_bit 26 g3; g3 = g3 AND P1305_MASK;
         g4 = h4 + c - push_bit 26 1;
         mask = drop_bit 31 g4 - 1;
         g0 = g0 AND mask; g1 = g1 AND mask; g2 = g2 AND mask; g3 = g3 AND mask; g4 = g4 AND mask;
         mask = NOT mask
     in ((h0 AND mask) OR g0, (h1 AND mask) OR g1, (h2 AND mask) OR g2, (h3 AND mask) OR g3, (h4 AND mask) OR g4))"

definition poly1305_tag_words :: "limbs \<Rightarrow> u32 list \<Rightarrow> u32 list" where
  "poly1305_tag_words = (\<lambda>(h0, h1, h2, h3, h4) pad.
     let h0 = h0 OR push_bit 26 h1;
         h1 = drop_bit 6 h1 OR push_bit 20 h2;
         h2 = drop_bit 12 h2 OR push_bit 14 h3;
         h3 = drop_bit 18 h3 OR push_bit 8 h4;
         f = (ucast h0 :: 64 word) + ucast (pad ! 0); h0 = ucast f;
         f = (ucast h1 :: 64 word) + ucast (pad ! 1) + drop_bit 32 f; h1 = ucast f;
         f = (ucast h2 :: 64 word) + ucast (pad ! 2) + drop_bit 32 f; h2 = ucast f;
         f = (ucast h3 :: 64 word) + ucast (pad ! 3) + drop_bit 32 f; h3 = ucast f
     in [h0, h1, h2, h3])"

definition poly1305_tag :: "bool \<Rightarrow> poly1305_ctx \<Rightarrow> byte list option" where
  "poly1305_tag wide ctx = do {
     ctx \<leftarrow> poly1305_last_block wide ctx;
     let h = p_h ctx;
     let ws = poly1305_tag_words (poly1305_reduce (h ! 0, h ! 1, h ! 2, h ! 3, h ! 4)) (p_pad ctx);
     tag \<leftarrow> crypto_store32_le (replicate 16 0) 0 (ws ! 0);
     tag \<leftarrow> crypto_store32_le tag 4 (ws ! 1);
     tag \<leftarrow> crypto_store32_le tag 8 (ws ! 2);
     crypto_store32_le tag 12 (ws ! 3) }"

text \<open>The context is cleared when the tag is written.\<close>

definition poly1305_final :: "bool \<Rightarrow> poly1305_ctx \<Rightarrow> (byte list \<times> poly1305_ctx) option" where
  "poly1305_final wide ctx = do {
     tag \<leftarrow> poly1305_tag wide ctx;
     Some (tag, \<lparr>p_r = replicate 5 0, p_h = replicate 5 0, p_pad = replicate 4 0, p_leftover = 0,
       p_buffer = replicate 16 0, p_final = 0\<rparr>) }"

definition poly1305_auth :: "bool \<Rightarrow> byte list \<Rightarrow> byte list \<Rightarrow> nat \<Rightarrow> byte list \<Rightarrow> byte list option" where
  "poly1305_auth wide buffer m len key = do {
     ctx \<leftarrow> poly1305_init buffer key;
     ctx \<leftarrow> poly1305_update wide ctx m len;
     (tag, ctx) \<leftarrow> poly1305_final wide ctx;
     Some tag }"

end
