(* ===== verification/Poly1305Proof.thy ===== *)
theory Poly1305Proof
  imports Poly1305
begin

text \<open>
  Poly1305 as the polynomial of RFC 8439: a block and the accumulator as numbers in limbs of 26 bits, the
  clamped key, the final reduction and the tag; then the streaming interface with any chunking, and
  the message on which the limbs of 44 bits lose a carry.
\<close>

section \<open>The reference\<close>

fun le_num :: "byte list \<Rightarrow> nat" where
  "le_num [] = 0"
| "le_num (b # bs) = unat b + 256 * le_num bs"

definition p1305 :: nat where
  "p1305 = 2 ^ 130 - 5"

definition rfc_r :: "byte list \<Rightarrow> nat" where
  "rfc_r key = le_num (take 16 key) AND 0x0ffffffc0ffffffc0ffffffc0fffffff"

definition rfc_pad :: "byte list \<Rightarrow> nat" where
  "rfc_pad key = le_num (take 16 (drop 16 key))"

text \<open>A block, of sixteen bytes or fewer, is a number with a one after its last byte.\<close>

definition rfc_step :: "nat \<Rightarrow> nat \<Rightarrow> byte list \<Rightarrow> nat" where
  "rfc_step r acc block = (acc + le_num (block @ [1])) * r mod p1305"

function rfc_blocks :: "byte list \<Rightarrow> byte list list" where
  "rfc_blocks msg = (if msg = [] then [] else take 16 msg # rfc_blocks (drop 16 msg))"
  by pat_completeness auto
termination by (relation "measure length") auto

declare rfc_blocks.simps [simp del]

fun num_bytes :: "nat \<Rightarrow> nat \<Rightarrow> byte list" where
  "num_bytes 0 x = []"
| "num_bytes (Suc n) x = of_nat x # num_bytes n (x div 256)"

definition rfc_poly1305 :: "byte list \<Rightarrow> byte list \<Rightarrow> byte list" where
  "rfc_poly1305 key msg = num_bytes 16 ((foldl (rfc_step (rfc_r key)) 0 (rfc_blocks msg) + rfc_pad key) mod 2 ^ 128)"

section \<open>Words as numbers\<close>

lemma unat_ucast_wide: "LENGTH('a) \<le> LENGTH('b) \<Longrightarrow> unat (ucast (x :: 'a::len word) :: 'b::len word) = unat x"
proof -
  assume le: "LENGTH('a) \<le> LENGTH('b)"
  have "unat x < 2 ^ LENGTH('a)" by (rule unsigned_less)
  also have "\<dots> \<le> 2 ^ LENGTH('b)" using le by simp
  finally show ?thesis by (simp add: unsigned_ucast_eq take_bit_nat_eq_self)
qed

lemma unat_low26: "unat (w AND 0x3ffffff) = unat w mod 2 ^ 26" for w :: "'a::len word"
  using unat_and_mask [of w 26] by (simp add: mask_eq_exp_minus_1)

lemma unat_take26: "unat (ucast (d :: 64 word) AND P1305_MASK :: u32) = unat d mod 2 ^ 26"
  by (simp add: P1305_MASK_def unat_low26 unsigned_ucast_eq take_bit_eq_mod mod_mod_cancel)

lemma unat_drop: "unat (drop_bit k w) = unat w div 2 ^ k" for w :: "'a::len word"
proof -
  have "take_bit LENGTH('a) (unat w) = unat w" using unsigned_less [of w] by (simp add: take_bit_nat_eq_self)
  then show ?thesis by (simp only: unsigned_drop_bit_eq) (simp only: drop_bit_eq_div)
qed

lemma unat_carry26: "unat d < 2 ^ 58 \<Longrightarrow> unat (ucast (drop_bit 26 (d :: 64 word)) :: u32) = unat d div 2 ^ 26"
  by (simp add: unsigned_ucast_eq unat_drop take_bit_nat_eq_self_iff less_mult_imp_div_less)

lemma unat_add_small: "unat a + unat b < 2 ^ LENGTH('a) \<Longrightarrow> unat (a + b) = unat a + unat b" for a b :: "'a::len word"
  by (simp add: unat_word_ariths)

lemma unat_mult_small: "unat a * unat b < 2 ^ LENGTH('a) \<Longrightarrow> unat (a * b) = unat a * unat b" for a b :: "'a::len word"
  by (simp add: unat_word_ariths)

lemma unat_dot5:
  fixes a0 :: "64 word"
  assumes "unat a0 * unat b0 + unat a1 * unat b1 + unat a2 * unat b2 + unat a3 * unat b3 + unat a4 * unat b4 < 2 ^ 64"
  shows "unat (a0 * b0 + a1 * b1 + a2 * b2 + a3 * b3 + a4 * b4) =
    unat a0 * unat b0 + unat a1 * unat b1 + unat a2 * unat b2 + unat a3 * unat b3 + unat a4 * unat b4"
proof -
  have "unat (a0 * b0 + a1 * b1 + a2 * b2 + a3 * b3 + a4 * b4) =
    (unat a0 * unat b0 + unat a1 * unat b1 + unat a2 * unat b2 + unat a3 * unat b3 + unat a4 * unat b4) mod 2 ^ 64"
    by (simp add: unat_word_ariths mod_simps)
  with assms show ?thesis by simp
qed

section \<open>Limbs of 26 bits\<close>

definition val26 :: "limbs \<Rightarrow> nat" where
  "val26 = (\<lambda>(h0, h1, h2, h3, h4). unat h0 + 2 ^ 26 * unat h1 + 2 ^ 52 * unat h2 + 2 ^ 78 * unat h3 + 2 ^ 104 * unat h4)"

text \<open>The bounds of the accumulator between two blocks, and of the clamped key.\<close>

definition acc26 :: "limbs \<Rightarrow> bool" where
  "acc26 = (\<lambda>(h0, h1, h2, h3, h4). unat h0 < 2 ^ 26 \<and> unat h1 < 2 ^ 26 + 64 \<and> unat h2 < 2 ^ 26 \<and> unat h3 < 2 ^ 26 \<and> unat h4 < 2 ^ 26)"

definition key26 :: "u32 list \<Rightarrow> bool" where
  "key26 r \<longleftrightarrow> length r = 5 \<and> unat (r ! 0) \<le> 0x3ffffff \<and> unat (r ! 1) \<le> 0x3ffff03 \<and> unat (r ! 2) \<le> 0x3ffc0ff \<and>
     unat (r ! 3) \<le> 0x3f03fff \<and> unat (r ! 4) \<le> 0xfffff"

definition key_val :: "u32 list \<Rightarrow> nat" where
  "key_val r = val26 (r ! 0, r ! 1, r ! 2, r ! 3, r ! 4)"

text \<open>The product of two numbers in limbs, with what passes \<open>2 ^ 130\<close> counted five times below.\<close>

lemma product_limbs:
  fixes h0 h1 h2 h3 h4 r0 r1 r2 r3 r4 :: nat
  shows "(h0 + 2 ^ 26 * h1 + 2 ^ 52 * h2 + 2 ^ 78 * h3 + 2 ^ 104 * h4) * (r0 + 2 ^ 26 * r1 + 2 ^ 52 * r2 + 2 ^ 78 * r3 + 2 ^ 104 * r4) =
    (h0 * r0 + h1 * (r4 * 5) + h2 * (r3 * 5) + h3 * (r2 * 5) + h4 * (r1 * 5)) +
    2 ^ 26 * (h0 * r1 + h1 * r0 + h2 * (r4 * 5) + h3 * (r3 * 5) + h4 * (r2 * 5)) +
    2 ^ 52 * (h0 * r2 + h1 * r1 + h2 * r0 + h3 * (r4 * 5) + h4 * (r3 * 5)) +
    2 ^ 78 * (h0 * r3 + h1 * r2 + h2 * r1 + h3 * r0 + h4 * (r4 * 5)) +
    2 ^ 104 * (h0 * r4 + h1 * r3 + h2 * r2 + h3 * r1 + h4 * r0) +
    p1305 * ((h1 * r4 + h2 * r3 + h3 * r2 + h4 * r1) + 2 ^ 26 * (h2 * r4 + h3 * r3 + h4 * r2) + 2 ^ 52 * (h3 * r4 + h4 * r3) + 2 ^ 78 * (h4 * r4))"
  by (simp add: p1305_def algebra_simps)

lemma carry_limbs:
  fixes d0 d1 d2 d3 d4 :: nat
  assumes "c0 = d0 div 2 ^ 26" "d1' = d1 + c0" "c1 = d1' div 2 ^ 26" "d2' = d2 + c1" "c2 = d2' div 2 ^ 26"
    "d3' = d3 + c2" "c3 = d3' div 2 ^ 26" "d4' = d4 + c3" "c4 = d4' div 2 ^ 26" "x = d0 mod 2 ^ 26 + c4 * 5"
  shows "(x mod 2 ^ 26 + 2 ^ 26 * (d1' mod 2 ^ 26 + x div 2 ^ 26) + 2 ^ 52 * (d2' mod 2 ^ 26) + 2 ^ 78 * (d3' mod 2 ^ 26) + 2 ^ 104 * (d4' mod 2 ^ 26))
    + p1305 * c4 = d0 + 2 ^ 26 * d1 + 2 ^ 52 * d2 + 2 ^ 78 * d3 + 2 ^ 104 * d4"
proof -
  have "d0 = 2 ^ 26 * c0 + d0 mod 2 ^ 26" "d1' = 2 ^ 26 * c1 + d1' mod 2 ^ 26" "d2' = 2 ^ 26 * c2 + d2' mod 2 ^ 26"
    "d3' = 2 ^ 26 * c3 + d3' mod 2 ^ 26" "d4' = 2 ^ 26 * c4 + d4' mod 2 ^ 26" "x = 2 ^ 26 * (x div 2 ^ 26) + x mod 2 ^ 26"
    by (simp_all only: assms(1,3,5,7,9) mult_div_mod_eq)
  with assms(2,4,6,8,10) show ?thesis by (simp add: p1305_def)
qed

lemma product_bounds:
  fixes a b A B :: nat
  shows "a \<le> A \<Longrightarrow> b \<le> B \<Longrightarrow> a * b \<le> A * B"
  by (rule mult_le_mono)

text \<open>The accumulator after the words of a block are added.\<close>

definition sum26 :: "limbs \<Rightarrow> bool" where
  "sum26 = (\<lambda>(h0, h1, h2, h3, h4). unat h0 < 2 ^ 27 \<and> unat h1 < 2 ^ 27 + 64 \<and> unat h2 < 2 ^ 27 \<and> unat h3 < 2 ^ 27 \<and> unat h4 < 2 ^ 27)"

lemma poly1305_mul_value:
  assumes "sum26 h" and "key26 r"
  shows "acc26 (poly1305_mul r h)" and "val26 (poly1305_mul r h) mod p1305 = val26 h * key_val r mod p1305"
proof -
  obtain h0 h1 h2 h3 h4 where h: "h = (h0, h1, h2, h3, h4)" by (metis prod_cases5)
  define H0 H1 H2 H3 H4 where Hs: "H0 = unat h0" "H1 = unat h1" "H2 = unat h2" "H3 = unat h3" "H4 = unat h4"
  define r0 r1 r2 r3 r4 where rs: "r0 = r ! 0" "r1 = r ! 1" "r2 = r ! 2" "r3 = r ! 3" "r4 = r ! 4"
  define R0 R1 R2 R3 R4 where Rs: "R0 = unat r0" "R1 = unat r1" "R2 = unat r2" "R3 = unat r3" "R4 = unat r4"
  have Hb: "H0 \<le> 134217791" "H1 \<le> 134217791" "H2 \<le> 134217791" "H3 \<le> 134217791" "H4 \<le> 134217791"
    using assms(1) by (simp_all add: h sum26_def Hs)
  have Rb: "R0 \<le> 67108863" "R1 \<le> 67108611" "R2 \<le> 67092735" "R3 \<le> 66076671" "R4 \<le> 1048575"
    using assms(2) by (simp_all add: key26_def Rs rs)
  have five: "unat (r1 * 5) = R1 * 5" "unat (r2 * 5) = R2 * 5" "unat (r3 * 5) = R3 * 5" "unat (r4 * 5) = R4 * 5"
    using Rb by (simp_all add: unat_mult_small Rs)
  note wide = unat_ucast_wide [where 'a = 32 and 'b = 64, simplified]
  define D0 where "D0 = H0 * R0 + H1 * (R4 * 5) + H2 * (R3 * 5) + H3 * (R2 * 5) + H4 * (R1 * 5)"
  define D1 where "D1 = H0 * R1 + H1 * R0 + H2 * (R4 * 5) + H3 * (R3 * 5) + H4 * (R2 * 5)"
  define D2 where "D2 = H0 * R2 + H1 * R1 + H2 * R0 + H3 * (R4 * 5) + H4 * (R3 * 5)"
  define D3 where "D3 = H0 * R3 + H1 * R2 + H2 * R1 + H3 * R0 + H4 * (R4 * 5)"
  define D4 where "D4 = H0 * R4 + H1 * R3 + H2 * R2 + H3 * R1 + H4 * R0"
  note prods = product_bounds [OF Hb(1) Rb(1)] product_bounds [OF Hb(1) Rb(2)] product_bounds [OF Hb(1) Rb(3)] product_bounds [OF Hb(1) Rb(4)] product_bounds [OF Hb(1) Rb(5)]
    product_bounds [OF Hb(2) Rb(1)] product_bounds [OF Hb(2) Rb(2)] product_bounds [OF Hb(2) Rb(3)] product_bounds [OF Hb(2) Rb(4)] product_bounds [OF Hb(2) Rb(5)]
    product_bounds [OF Hb(3) Rb(1)] product_bounds [OF Hb(3) Rb(2)] product_bounds [OF Hb(3) Rb(3)] product_bounds [OF Hb(3) Rb(4)] product_bounds [OF Hb(3) Rb(5)]
    product_bounds [OF Hb(4) Rb(1)] product_bounds [OF Hb(4) Rb(2)] product_bounds [OF Hb(4) Rb(3)] product_bounds [OF Hb(4) Rb(4)] product_bounds [OF Hb(4) Rb(5)]
    product_bounds [OF Hb(5) Rb(1)] product_bounds [OF Hb(5) Rb(2)] product_bounds [OF Hb(5) Rb(3)] product_bounds [OF Hb(5) Rb(4)] product_bounds [OF Hb(5) Rb(5)]
  have Db: "D0 \<le> 144115256795332608" "D1 \<le> 144115256795332608" "D2 \<le> 144115256795332608" "D3 \<le> 144115256795332608" "D4 \<le> 36028813796179905"
    unfolding D0_def D1_def D2_def D3_def D4_def using prods by simp_all
  define d0 where "d0 = (ucast h0 :: 64 word) * ucast r0 + ucast h1 * ucast (r4 * 5) + ucast h2 * ucast (r3 * 5) + ucast h3 * ucast (r2 * 5) + ucast h4 * ucast (r1 * 5)"
  define d1 where "d1 = (ucast h0 :: 64 word) * ucast r1 + ucast h1 * ucast r0 + ucast h2 * ucast (r4 * 5) + ucast h3 * ucast (r3 * 5) + ucast h4 * ucast (r2 * 5)"
  define d2 where "d2 = (ucast h0 :: 64 word) * ucast r2 + ucast h1 * ucast r1 + ucast h2 * ucast r0 + ucast h3 * ucast (r4 * 5) + ucast h4 * ucast (r3 * 5)"
  define d3 where "d3 = (ucast h0 :: 64 word) * ucast r3 + ucast h1 * ucast r2 + ucast h2 * ucast r1 + ucast h3 * ucast r0 + ucast h4 * ucast (r4 * 5)"
  define d4 where "d4 = (ucast h0 :: 64 word) * ucast r4 + ucast h1 * ucast r3 + ucast h2 * ucast r2 + ucast h3 * ucast r1 + ucast h4 * ucast r0"
  have ds: "unat d0 = D0" "unat d1 = D1" "unat d2 = D2" "unat d3 = D3" "unat d4 = D4"
    unfolding d0_def d1_def d2_def d3_def d4_def D0_def D1_def D2_def D3_def D4_def
    by (subst unat_dot5; (simp only: wide five Hs Rs)?; (use Db in \<open>simp add: D0_def D1_def D2_def D3_def D4_def Hs Rs five\<close>)?)+
  define C0 D1' C1 D2' C2 D3' C3 D4' C4 X where Cs: "C0 = D0 div 2 ^ 26" "D1' = D1 + C0" "C1 = D1' div 2 ^ 26" "D2' = D2 + C1" "C2 = D2' div 2 ^ 26"
    "D3' = D3 + C2" "C3 = D3' div 2 ^ 26" "D4' = D4 + C3" "C4 = D4' div 2 ^ 26" "X = D0 mod 2 ^ 26 + C4 * 5"
  have C0: "C0 \<le> 2147484800" using div_le_mono [OF Db(1), of "2 ^ 26"] by (simp add: Cs)
  then have D1': "D1' \<le> 144115258942817408" using Db(2) by (simp add: Cs(2))
  have C1: "C1 \<le> 2147484800" using div_le_mono [OF D1', of "2 ^ 26"] by (simp add: Cs(3))
  then have D2': "D2' \<le> 144115258942817408" using Db(3) by (simp add: Cs(4))
  have C2: "C2 \<le> 2147484800" using div_le_mono [OF D2', of "2 ^ 26"] by (simp add: Cs(5))
  then have D3': "D3' \<le> 144115258942817408" using Db(4) by (simp add: Cs(6))
  have C3: "C3 \<le> 2147484800" using div_le_mono [OF D3', of "2 ^ 26"] by (simp add: Cs(7))
  then have D4': "D4' \<le> 36028815943664705" using Db(5) by (simp add: Cs(8))
  have C4: "C4 \<le> 536871194" using div_le_mono [OF D4', of "2 ^ 26"] by (simp add: Cs(9))
  have X: "X < 2751464834"
    using C4 mod_less_divisor [of "2 ^ 26" D0] unfolding Cs(10) by simp
  have XC: "X div 2 ^ 26 < 64" using X by (simp add: less_mult_imp_div_less)
  define c0 where "c0 = (ucast (drop_bit 26 d0) :: u32)"
  define d1' where "d1' = d1 + ucast c0"
  define c1 where "c1 = (ucast (drop_bit 26 d1') :: u32)"
  define d2' where "d2' = d2 + ucast c1"
  define c2 where "c2 = (ucast (drop_bit 26 d2') :: u32)"
  define d3' where "d3' = d3 + ucast c2"
  define c3 where "c3 = (ucast (drop_bit 26 d3') :: u32)"
  define d4' where "d4' = d4 + ucast c3"
  define c4 where "c4 = (ucast (drop_bit 26 d4') :: u32)"
  define x where "x = (ucast d0 AND P1305_MASK) + c4 * 5"
  have c0: "unat c0 = C0" using Db(1) ds unfolding c0_def by (subst unat_carry26) (simp_all add: Cs)
  then have d1': "unat d1' = D1'" using D1' ds unfolding d1'_def by (subst unat_add_small) (simp_all add: wide Cs)
  have c1: "unat c1 = C1" using D1' d1' unfolding c1_def by (subst unat_carry26) (simp_all add: Cs)
  then have d2': "unat d2' = D2'" using D2' ds unfolding d2'_def by (subst unat_add_small) (simp_all add: wide Cs)
  have c2: "unat c2 = C2" using D2' d2' unfolding c2_def by (subst unat_carry26) (simp_all add: Cs)
  then have d3': "unat d3' = D3'" using D3' ds unfolding d3'_def by (subst unat_add_small) (simp_all add: wide Cs)
  have c3: "unat c3 = C3" using D3' d3' unfolding c3_def by (subst unat_carry26) (simp_all add: Cs)
  then have d4': "unat d4' = D4'" using D4' ds unfolding d4'_def by (subst unat_add_small) (simp_all add: wide Cs)
  have c4: "unat c4 = C4" using D4' d4' unfolding c4_def by (subst unat_carry26) (simp_all add: Cs)
  then have "unat (c4 * 5) = C4 * 5" using C4 by (subst unat_mult_small) simp_all
  then have x: "unat x = X" using X ds unfolding x_def by (subst unat_add_small) (simp_all add: unat_take26 Cs(10))
  have mul: "poly1305_mul r h = (x AND P1305_MASK, (ucast d1' AND P1305_MASK) + drop_bit 26 x, ucast d2' AND P1305_MASK, ucast d3' AND P1305_MASK, ucast d4' AND P1305_MASK)"
    unfolding poly1305_mul_def h prod.case
    by (simp only: Let_def rs [symmetric] d0_def [symmetric] d1_def [symmetric] d2_def [symmetric] d3_def [symmetric] d4_def [symmetric]
        c0_def [symmetric] d1'_def [symmetric] c1_def [symmetric] d2'_def [symmetric] c2_def [symmetric] d3'_def [symmetric] c3_def [symmetric]
        d4'_def [symmetric] c4_def [symmetric] x_def [symmetric])
  have h1: "unat ((ucast d1' AND P1305_MASK) + drop_bit 26 x) = D1' mod 2 ^ 26 + X div 2 ^ 26"
    using XC mod_less_divisor [of "2 ^ 26" D1'] by (subst unat_add_small) (simp_all add: unat_take26 d1' x unat_drop)
  have low: "unat (x AND P1305_MASK) = X mod 2 ^ 26" by (simp add: P1305_MASK_def unat_low26 x)
  show "acc26 (poly1305_mul r h)"
    using XC mod_less_divisor [of "2 ^ 26" D1'] by (simp add: mul acc26_def h1 low unat_take26)
  have "val26 (poly1305_mul r h) + p1305 * C4 = D0 + 2 ^ 26 * D1 + 2 ^ 52 * D2 + 2 ^ 78 * D3 + 2 ^ 104 * D4"
    using carry_limbs [OF Cs] by (simp only: mul val26_def prod.case h1 low unat_take26 d2' d3' d4')
  moreover have "val26 h * key_val r = (D0 + 2 ^ 26 * D1 + 2 ^ 52 * D2 + 2 ^ 78 * D3 + 2 ^ 104 * D4) +
      p1305 * ((H1 * R4 + H2 * R3 + H3 * R2 + H4 * R1) + 2 ^ 26 * (H2 * R4 + H3 * R3 + H4 * R2) + 2 ^ 52 * (H3 * R4 + H4 * R3) + 2 ^ 78 * (H4 * R4))"
    unfolding val26_def key_val_def h prod.case D0_def D1_def D2_def D3_def D4_def
    by (simp only: product_limbs Hs [symmetric] rs [symmetric] Rs [symmetric])
  ultimately show "val26 (poly1305_mul r h) mod p1305 = val26 h * key_val r mod p1305"
    by (metis mod_mult_self2)
qed

section \<open>Bytes, words and limbs\<close>

lemma le_num_append: "le_num (a @ b) = le_num a + 256 ^ length a * le_num b"
  by (induction a) (simp_all add: algebra_simps)

lemma le_num_less: "le_num bs < 256 ^ length bs"
proof (induction bs)
  case (Cons b bs)
  have "unat b < 256" using unsigned_less [of b] by simp
  with Cons show ?case by simp
qed simp

lemma le_num_horner: "int (le_num bs) = horner_sum uint 256 bs"
  by (induction bs) simp_all

lemma unat_le_word: "8 * length bs \<le> LENGTH('a) \<Longrightarrow> unat (le_word bs :: 'a::len word) = le_num bs"
proof -
  assume le: "8 * length bs \<le> LENGTH('a)"
  have "(256 :: nat) ^ length bs = 2 ^ (8 * length bs)" by (simp add: power_mult)
  also have "\<dots> \<le> 2 ^ LENGTH('a)" using le by simp
  finally have "le_num bs < 2 ^ LENGTH('a)" using le_num_less [of bs] by simp
  moreover have "(le_word bs :: 'a word) = of_nat (le_num bs)"
    by (simp add: le_word_def word_rcat_def flip: le_num_horner)
  ultimately show ?thesis by (simp add: unat_of_nat)
qed

lemma le_num_16:
  assumes "16 \<le> length m"
  shows "le_num (take 16 m) = unat (le_word (take 4 m) :: u32) + 2 ^ 32 * unat (le_word (take 4 (drop 4 m)) :: u32) +
    2 ^ 64 * unat (le_word (take 4 (drop 8 m)) :: u32) + 2 ^ 96 * unat (le_word (take 4 (drop 12 m)) :: u32)"
proof -
  have "take 16 m = take 4 m @ take 4 (drop 4 m) @ take 4 (drop 8 m) @ take 4 (drop 12 m)"
    using take_add [of 4 12 m] take_add [of 4 8 "drop 4 m"] take_add [of 4 4 "drop 8 m"] by simp
  then have "le_num (take 16 m) = le_num (take 4 m @ take 4 (drop 4 m) @ take 4 (drop 8 m) @ take 4 (drop 12 m))" by (simp only:)
  with assms show ?thesis by (simp add: le_num_append unat_le_word)
qed

lemma unat_or_disjoint:
  fixes x y :: "'a::len word"
  assumes "x AND y = 0"
  shows "unat (x OR y) = unat x + unat y"
proof -
  have "unat x AND unat y = 0" using assms by (metis unsigned_and_eq unsigned_0)
  then show ?thesis by (simp add: unsigned_or_eq disjunctive_add_eq_or)
qed

lemma unat_push_bit: "unat x * 2 ^ j < 2 ^ LENGTH('a) \<Longrightarrow> unat (push_bit j x) = 2 ^ j * unat x" for x :: "'a::len word"
proof -
  assume lt: "unat x * 2 ^ j < 2 ^ LENGTH('a)"
  have "unat (push_bit j x) = take_bit LENGTH('a) (push_bit j (unat x))" by (rule unsigned_push_bit_eq)
  also have "\<dots> = push_bit j (unat x)" using lt by (intro take_bit_nat_eq_self) (simp add: push_bit_eq_mult)
  finally show ?thesis by (simp add: push_bit_eq_mult)
qed

text \<open>The end of a word and the start of the next, in one limb.\<close>

lemma unat_middle:
  fixes x y :: u32
  assumes "k + j = 32" "j \<le> 26" "0 < k"
  shows "unat ((drop_bit k x OR push_bit j y) AND P1305_MASK) = unat x div 2 ^ k + 2 ^ j * (unat y mod 2 ^ (26 - j))"
proof -
  let ?y = "take_bit (26 - j) y"
  have y: "unat ?y = unat y mod 2 ^ (26 - j)" by (simp only: unsigned_take_bit_eq) (simp only: take_bit_eq_mod)
  have "P1305_MASK = mask 26" by (simp add: P1305_MASK_def mask_eq_exp_minus_1)
  moreover have "(drop_bit k x OR push_bit j y) AND mask 26 = drop_bit k x OR push_bit j ?y"
    using assms by (intro bit_word_eqI) (auto simp: bit_simps dest: bit_imp_le_length)
  moreover have "drop_bit k x AND push_bit j ?y = 0"
    using assms by (intro bit_word_eqI) (auto simp: bit_simps dest: bit_imp_le_length)
  ultimately have "unat ((drop_bit k x OR push_bit j y) AND P1305_MASK) = unat (drop_bit k x) + unat (push_bit j ?y)"
    by (simp only: unat_or_disjoint)
  moreover have "unat (push_bit j ?y) = 2 ^ j * unat ?y"
  proof (rule unat_push_bit)
    have "unat ?y < 2 ^ (26 - j)" by (simp only: y) simp
    then have "unat ?y * 2 ^ j < 2 ^ (26 - j) * 2 ^ j" by simp
    also have "\<dots> = 2 ^ 26" using assms(2) by (simp flip: power_add)
    finally show "unat ?y * 2 ^ j < 2 ^ LENGTH(32)" by simp
  qed
  ultimately show ?thesis by (simp only: unat_drop y)
qed

text \<open>Four words as five limbs.\<close>

lemma limbs_of_words:
  fixes t0 t1 t2 t3 :: nat
  shows "t0 mod 2 ^ 26 + 2 ^ 26 * (t0 div 2 ^ 26 + 2 ^ 6 * (t1 mod 2 ^ 20)) + 2 ^ 52 * (t1 div 2 ^ 20 + 2 ^ 12 * (t2 mod 2 ^ 14)) +
    2 ^ 78 * (t2 div 2 ^ 14 + 2 ^ 18 * (t3 mod 2 ^ 8)) + 2 ^ 104 * (t3 div 2 ^ 8) = t0 + 2 ^ 32 * t1 + 2 ^ 64 * t2 + 2 ^ 96 * t3"
proof -
  have "m0 + 2 ^ 26 * (q0 + 2 ^ 6 * m1) + 2 ^ 52 * (q1 + 2 ^ 12 * m2) + 2 ^ 78 * (q2 + 2 ^ 18 * m3) + 2 ^ 104 * q3 =
    (2 ^ 26 * q0 + m0) + 2 ^ 32 * (2 ^ 20 * q1 + m1) + 2 ^ 64 * (2 ^ 14 * q2 + m2) + 2 ^ 96 * (2 ^ 8 * q3 + m3)"
    for m0 m1 m2 m3 q0 q1 q2 q3 :: nat by simp
  from this [of "t0 mod 2 ^ 26" "t0 div 2 ^ 26" "t1 mod 2 ^ 20" "t1 div 2 ^ 20" "t2 mod 2 ^ 14" "t2 div 2 ^ 14" "t3 mod 2 ^ 8" "t3 div 2 ^ 8"]
  show ?thesis by (simp only: mult_div_mod_eq)
qed

lemma poly1305_add_value:
  assumes "acc26 h" and "16 \<le> length m" and "hibit = 0 \<or> hibit = push_bit 24 1"
  shows "\<exists>h'. poly1305_add hibit h m = Some h' \<and> sum26 h' \<and> val26 h' = val26 h + le_num (take 16 m) + 2 ^ 104 * unat hibit"
proof -
  obtain h0 h1 h2 h3 h4 where h: "h = (h0, h1, h2, h3, h4)" by (metis prod_cases5)
  define t0 where "t0 = (le_word (take 4 m) :: u32)"
  define t1 where "t1 = (le_word (take 4 (drop 4 m)) :: u32)"
  define t2 where "t2 = (le_word (take 4 (drop 8 m)) :: u32)"
  define t3 where "t3 = (le_word (take 4 (drop 12 m)) :: u32)"
  let ?a1 = "(drop_bit 26 t0 OR push_bit 6 t1) AND P1305_MASK"
  let ?a2 = "(drop_bit 20 t1 OR push_bit 12 t2) AND P1305_MASK"
  let ?a3 = "(drop_bit 14 t2 OR push_bit 18 t3) AND P1305_MASK"
  let ?h' = "(h0 + (t0 AND P1305_MASK), h1 + ?a1, h2 + ?a2, h3 + ?a3, h4 + (drop_bit 8 t3 OR hibit))"
  have add: "poly1305_add hibit h m = Some ?h'"
    using assms(2) by (simp add: poly1305_add_def h crypto_load32_le_word t0_def t1_def t2_def t3_def)
  have "unat t3 < 2 ^ LENGTH(32)" by (rule unsigned_less)
  then have t3: "unat t3 div 2 ^ 8 < 2 ^ 24" by (simp add: less_mult_imp_div_less)
  have "\<not> (bit (drop_bit 8 t3) n \<and> bit hibit n)" for n
  proof -
    have "bit (drop_bit 8 t3) n \<Longrightarrow> n < 24" by (auto simp: bit_drop_bit_eq dest: bit_imp_le_length)
    moreover have "bit hibit n \<Longrightarrow> n = 24" using assms(3)
      by (elim disjE) (simp, simp only: bit_push_bit_iff bit_1_iff le_less, auto)
    ultimately show ?thesis by auto
  qed
  then have "drop_bit 8 t3 AND hibit = 0" by (intro bit_word_eqI) (simp add: bit_and_iff)
  then have a4: "unat (drop_bit 8 t3 OR hibit) = unat t3 div 2 ^ 8 + unat hibit" by (simp add: unat_or_disjoint unat_drop)
  have hb: "unat hibit \<le> 2 ^ 24" using assms(3) by auto
  have a0: "unat (t0 AND P1305_MASK) = unat t0 mod 2 ^ 26" by (simp add: P1305_MASK_def unat_low26)
  have mask: "unat (w AND P1305_MASK) < 2 ^ 26" for w :: u32 by (simp add: P1305_MASK_def unat_low26)
  have sums: "unat (h0 + (t0 AND P1305_MASK)) = unat h0 + unat (t0 AND P1305_MASK)" "unat (h1 + ?a1) = unat h1 + unat ?a1"
    "unat (h2 + ?a2) = unat h2 + unat ?a2" "unat (h3 + ?a3) = unat h3 + unat ?a3"
    "unat (h4 + (drop_bit 8 t3 OR hibit)) = unat h4 + unat (drop_bit 8 t3 OR hibit)"
    using assms(1) mask [of t0] mask [of "drop_bit 26 t0 OR push_bit 6 t1"] mask [of "drop_bit 20 t1 OR push_bit 12 t2"]
      mask [of "drop_bit 14 t2 OR push_bit 18 t3"] t3 hb
    by (simp_all add: acc26_def h unat_add_small a4)
  have "sum26 ?h'"
    using assms(1) mask [of t0] mask [of "drop_bit 26 t0 OR push_bit 6 t1"] mask [of "drop_bit 20 t1 OR push_bit 12 t2"]
      mask [of "drop_bit 14 t2 OR push_bit 18 t3"] t3 hb
    by (simp add: sum26_def acc26_def h sums a4)
  moreover have "val26 ?h' = val26 h + le_num (take 16 m) + 2 ^ 104 * unat hibit"
  proof -
    have "unat ?a1 = unat t0 div 2 ^ 26 + 2 ^ 6 * (unat t1 mod 2 ^ 20)" "unat ?a2 = unat t1 div 2 ^ 20 + 2 ^ 12 * (unat t2 mod 2 ^ 14)"
      "unat ?a3 = unat t2 div 2 ^ 14 + 2 ^ 18 * (unat t3 mod 2 ^ 8)"
      by (subst unat_middle; simp)+
    then show ?thesis
      using limbs_of_words [of "unat t0" "unat t1" "unat t2" "unat t3"] le_num_16 [OF assms(2)]
      unfolding val26_def h prod.case sums a0 a4 t0_def [symmetric] t1_def [symmetric] t2_def [symmetric] t3_def [symmetric]
      by (simp only:) (simp only: algebra_simps)
  qed
  ultimately show ?thesis using add by blast
qed

section \<open>The clamped key\<close>

lemma and_limb:
  fixes a b c d :: nat
  assumes "a < 2 ^ n" "c < 2 ^ n"
  shows "(a + 2 ^ n * b) AND (c + 2 ^ n * d) = (a AND c) + 2 ^ n * (b AND d)"
proof -
  have bits: "bit (x + 2 ^ n * y) i \<longleftrightarrow> (if i < n then bit x i else bit y (i - n))" if "x < 2 ^ n" for x y i :: nat
  proof -
    have x: "take_bit n x = x" using that by (simp add: take_bit_nat_eq_self)
    have "x AND push_bit n y = 0"
      by (rule bit_eqI) (use x in \<open>auto simp: bit_and_iff bit_push_bit_iff bit_take_bit_iff dest: arg_cong [where f = "\<lambda>z. bit z i" for i]\<close>; metis bit_take_bit_iff x not_less)
    then have "x + 2 ^ n * y = x OR push_bit n y"
      by (simp add: disjunctive_add_eq_or push_bit_eq_mult mult.commute)
    then show ?thesis
      by (simp add: bit_or_iff bit_push_bit_iff) (metis bit_take_bit_iff x)
  qed
  have "take_bit n (a AND c) = a AND c" using assms by (simp add: take_bit_and take_bit_nat_eq_self)
  then have "a AND c < 2 ^ n" by (metis take_bit_nat_less_exp)
  then show ?thesis using assms by (intro bit_eqI) (simp add: bits bit_and_iff)
qed

lemma poly1305_init_result:
  assumes "32 \<le> length key"
  shows "\<exists>r. poly1305_init buffer key = Some \<lparr>p_r = r, p_h = [0, 0, 0, 0, 0],
      p_pad = map (\<lambda>i. le_word (take 4 (drop (16 + 4 * i) key))) [0..<4], p_leftover = 0, p_buffer = buffer, p_final = 0\<rparr> \<and>
    key26 r \<and> key_val r = rfc_r key"
proof -
  define t0 where "t0 = (le_word (take 4 key) :: u32)"
  define t1 where "t1 = (le_word (take 4 (drop 4 key)) :: u32)"
  define t2 where "t2 = (le_word (take 4 (drop 8 key)) :: u32)"
  define t3 where "t3 = (le_word (take 4 (drop 12 key)) :: u32)"
  let ?r = "[t0 AND 0x3ffffff, (drop_bit 26 t0 OR push_bit 6 t1) AND 0x3ffff03, (drop_bit 20 t1 OR push_bit 12 t2) AND 0x3ffc0ff,
    (drop_bit 14 t2 OR push_bit 18 t3) AND 0x3f03fff, drop_bit 8 t3 AND 0x00fffff]"
  have upt: "[0..<4] = [0, 1, 2, 3 :: nat]" by (simp add: upt_rec)
  have init: "poly1305_init buffer key = Some \<lparr>p_r = ?r, p_h = [0, 0, 0, 0, 0],
      p_pad = map (\<lambda>i. le_word (take 4 (drop (16 + 4 * i) key))) [0..<4], p_leftover = 0, p_buffer = buffer, p_final = 0\<rparr>"
    using assms by (simp add: poly1305_init_def crypto_load32_le_word t0_def t1_def t2_def t3_def upt)
  define x1 where "x1 = unat t0 div 2 ^ 26 + 2 ^ 6 * (unat t1 mod 2 ^ 20)"
  define x2 where "x2 = unat t1 div 2 ^ 20 + 2 ^ 12 * (unat t2 mod 2 ^ 14)"
  define x3 where "x3 = unat t2 div 2 ^ 14 + 2 ^ 18 * (unat t3 mod 2 ^ 8)"
  have masked: "unat (w AND c) = unat (w AND P1305_MASK) AND unat c" if "c AND P1305_MASK = c" for w c :: u32
    by (metis that unsigned_and_eq and.assoc and.commute)
  have clamps: "unat (w AND 0x3ffff03) = unat (w AND P1305_MASK) AND 0x3ffff03" "unat (w AND 0x3ffc0ff) = unat (w AND P1305_MASK) AND 0x3ffc0ff"
    "unat (w AND 0x3f03fff) = unat (w AND P1305_MASK) AND 0x3f03fff" for w :: u32
    by (subst masked; simp add: P1305_MASK_def)+
  have mids: "unat ((drop_bit 26 t0 OR push_bit 6 t1) AND P1305_MASK) = x1" "unat ((drop_bit 20 t1 OR push_bit 12 t2) AND P1305_MASK) = x2"
    "unat ((drop_bit 14 t2 OR push_bit 18 t3) AND P1305_MASK) = x3"
    unfolding x1_def x2_def x3_def by (subst unat_middle; simp)+
  have low: "unat (t0 AND 0x3ffffff) = unat t0 mod 2 ^ 26 AND 0x3ffffff"
  proof -
    have "(0x3ffffff :: nat) = mask 26" by (simp add: mask_eq_exp_minus_1)
    then have "unat t0 mod 2 ^ 26 AND 0x3ffffff = take_bit 26 (unat t0 mod 2 ^ 26)" by (simp only: take_bit_eq_mask)
    also have "\<dots> = unat t0 mod 2 ^ 26" by (simp only: take_bit_eq_mod mod_mod_trivial)
    finally show ?thesis by (simp only: unat_low26)
  qed
  have high: "unat (drop_bit 8 t3 AND 0x00fffff) = unat t3 div 2 ^ 8 AND 0x00fffff"
    by (simp only: unsigned_and_eq unat_drop) simp
  have lt: "unat t0 mod 2 ^ 26 < 2 ^ 26" "x1 < 2 ^ 26" "x2 < 2 ^ 26" "x3 < 2 ^ 26"
    unfolding mids [symmetric] by (simp_all add: P1305_MASK_def unat_low26)
  have clt: "(0x3ffffff :: nat) < 2 ^ 26" "(0x3ffff03 :: nat) < 2 ^ 26" "(0x3ffc0ff :: nat) < 2 ^ 26" "(0x3f03fff :: nat) < 2 ^ 26" by simp_all
  have "le_num (take 16 key) = unat t0 mod 2 ^ 26 + 2 ^ 26 * (x1 + 2 ^ 26 * (x2 + 2 ^ 26 * (x3 + 2 ^ 26 * (unat t3 div 2 ^ 8))))"
    using limbs_of_words [of "unat t0" "unat t1" "unat t2" "unat t3"] le_num_16 [of key] assms
    unfolding t0_def [symmetric] t1_def [symmetric] t2_def [symmetric] t3_def [symmetric] x1_def [symmetric] x2_def [symmetric] x3_def [symmetric]
    by simp
  moreover have "(0x0ffffffc0ffffffc0ffffffc0fffffff :: nat) =
      0x3ffffff + 2 ^ 26 * (0x3ffff03 + 2 ^ 26 * (0x3ffc0ff + 2 ^ 26 * (0x3f03fff + 2 ^ 26 * 0x00fffff)))" by simp
  ultimately have "rfc_r key = (unat t0 mod 2 ^ 26 AND 0x3ffffff) + 2 ^ 26 * ((x1 AND 0x3ffff03) + 2 ^ 26 * ((x2 AND 0x3ffc0ff) +
      2 ^ 26 * ((x3 AND 0x3f03fff) + 2 ^ 26 * ((unat t3 div 2 ^ 8) AND 0x00fffff))))"
    unfolding rfc_r_def by (simp only: and_limb [OF lt(1) clt(1)] and_limb [OF lt(2) clt(2)] and_limb [OF lt(3) clt(3)] and_limb [OF lt(4) clt(4)])
  moreover have "key_val ?r = unat (t0 AND 0x3ffffff) + 2 ^ 26 * unat ((drop_bit 26 t0 OR push_bit 6 t1) AND 0x3ffff03) +
      2 ^ 52 * unat ((drop_bit 20 t1 OR push_bit 12 t2) AND 0x3ffc0ff) + 2 ^ 78 * unat ((drop_bit 14 t2 OR push_bit 18 t3) AND 0x3f03fff) +
      2 ^ 104 * unat (drop_bit 8 t3 AND 0x00fffff)" by (simp add: key_val_def val26_def)
  ultimately have val: "key_val ?r = rfc_r key" unfolding low high clamps mids by simp
  have and_le: "unat (w AND c) \<le> unat c" for w c :: u32
    using word_and_le1 [of w c] by (simp add: word_le_nat_alt and.commute)
  have "key26 ?r"
    using and_le [of t0 "0x3ffffff"] and_le [of "drop_bit 26 t0 OR push_bit 6 t1" "0x3ffff03"] and_le [of "drop_bit 20 t1 OR push_bit 12 t2" "0x3ffc0ff"]
      and_le [of "drop_bit 14 t2 OR push_bit 18 t3" "0x3f03fff"] and_le [of "drop_bit 8 t3" "0x00fffff"]
    by (simp add: key26_def)
  with init val show ?thesis by blast
qed

section \<open>The full reduction\<close>

definition reduced26 :: "limbs \<Rightarrow> bool" where
  "reduced26 = (\<lambda>(h0, h1, h2, h3, h4). unat h0 < 2 ^ 26 \<and> unat h1 < 2 ^ 26 \<and> unat h2 < 2 ^ 26 \<and> unat h3 < 2 ^ 26 \<and> unat h4 < 2 ^ 26)"

lemma val26_less: "reduced26 h \<Longrightarrow> val26 h < 2 ^ 130"
  by (auto simp: reduced26_def val26_def split: prod.splits)

text \<open>The first pass of carries leaves all limbs below \<open>2 ^ 26\<close>: when a carry comes back into the second
  limb, that limb has just passed one on and is small.\<close>

definition carry_pass :: "limbs \<Rightarrow> limbs" where
  "carry_pass = (\<lambda>(h0, h1, h2, h3, h4).
     let c = drop_bit 26 h1; h1 = h1 AND P1305_MASK;
         h2 = h2 + c; c = drop_bit 26 h2; h2 = h2 AND P1305_MASK;
         h3 = h3 + c; c = drop_bit 26 h3; h3 = h3 AND P1305_MASK;
         h4 = h4 + c; c = drop_bit 26 h4; h4 = h4 AND P1305_MASK;
         h0 = h0 + c * 5; c = drop_bit 26 h0; h0 = h0 AND P1305_MASK;
         h1 = h1 + c
     in (h0, h1, h2, h3, h4))"

definition select_pass :: "limbs \<Rightarrow> limbs" where
  "select_pass = (\<lambda>(h0, h1, h2, h3, h4).
     let g0 = h0 + 5; c = drop_bit 26 g0; g0 = g0 AND P1305_MASK;
         g1 = h1 + c; c = drop_bit 26 g1; g1 = g1 AND P1305_MASK;
         g2 = h2 + c; c = drop_bit 26 g2; g2 = g2 AND P1305_MASK;
         g3 = h3 + c; c = drop_bit 26 g3; g3 = g3 AND P1305_MASK;
         g4 = h4 + c - push_bit 26 1;
         mask = drop_bit 31 g4 - 1;
         g0 = g0 AND mask; g1 = g1 AND mask; g2 = g2 AND mask; g3 = g3 AND mask; g4 = g4 AND mask;
         mask = NOT mask
     in ((h0 AND mask) OR g0, (h1 AND mask) OR g1, (h2 AND mask) OR g2, (h3 AND mask) OR g3, (h4 AND mask) OR g4))"

lemma reduce_passes: "poly1305_reduce h = select_pass (carry_pass h)"
  by (cases h) (simp only: poly1305_reduce_def carry_pass_def select_pass_def Let_def prod.case)

lemma carry_pass_value:
  assumes "acc26 h"
  shows "reduced26 (carry_pass h)" and "val26 (carry_pass h) mod p1305 = val26 h mod p1305"
proof -
  obtain h0 h1 h2 h3 h4 where h: "h = (h0, h1, h2, h3, h4)" by (metis prod_cases5)
  define H0 H1 H2 H3 H4 where Hs: "H0 = unat h0" "H1 = unat h1" "H2 = unat h2" "H3 = unat h3" "H4 = unat h4"
  have Hb: "H0 < 2 ^ 26" "H1 < 2 ^ 26 + 64" "H2 < 2 ^ 26" "H3 < 2 ^ 26" "H4 < 2 ^ 26"
    using assms by (simp_all add: h acc26_def Hs)
  define C1 X2 C2 X3 C3 X4 C4 X0 where Cs: "C1 = H1 div 2 ^ 26" "X2 = H2 + C1" "C2 = X2 div 2 ^ 26" "X3 = H3 + C2" "C3 = X3 div 2 ^ 26"
    "X4 = H4 + C3" "C4 = X4 div 2 ^ 26" "X0 = H0 + C4 * 5"
  have C1: "C1 \<le> 1" using div_le_mono [of H1 "2 ^ 26 + 63" "2 ^ 26"] Hb(2) by (simp add: Cs(1))
  then have X2: "X2 \<le> 2 ^ 26" using Hb(3) by (simp add: Cs(2))
  have C2: "C2 \<le> 1" using div_le_mono [OF X2, of "2 ^ 26"] by (simp add: Cs(3))
  then have X3: "X3 \<le> 2 ^ 26" using Hb(4) by (simp add: Cs(4))
  have C3: "C3 \<le> 1" using div_le_mono [OF X3, of "2 ^ 26"] by (simp add: Cs(5))
  then have X4: "X4 \<le> 2 ^ 26" using Hb(5) by (simp add: Cs(6))
  have C4: "C4 \<le> 1" using div_le_mono [OF X4, of "2 ^ 26"] by (simp add: Cs(7))
  then have X0: "X0 \<le> 2 ^ 26 + 4" using Hb(1) by (simp add: Cs(8))
  have C0: "X0 div 2 ^ 26 \<le> 1" using div_le_mono [OF X0, of "2 ^ 26"] by simp
  have small: "H1 mod 2 ^ 26 + X0 div 2 ^ 26 < 2 ^ 26"
  proof (cases "X0 div 2 ^ 26 = 0")
    case True
    then show ?thesis by simp
  next
    case False
    then have "C4 \<noteq> 0" using Hb(1) Cs(8) by (cases "C4 = 0") simp_all
    then have "2 ^ 26 \<le> X4" using Cs(7) by (metis div_less linorder_not_le)
    then have "C3 \<noteq> 0" using Hb(5) Cs(6) by auto
    then have "2 ^ 26 \<le> X3" using Cs(5) by (metis div_less linorder_not_le)
    then have "C2 \<noteq> 0" using Hb(4) Cs(4) by auto
    then have "2 ^ 26 \<le> X2" using Cs(3) by (metis div_less linorder_not_le)
    then have "C1 \<noteq> 0" using Hb(3) Cs(2) by auto
    then have "2 ^ 26 \<le> H1" using Cs(1) by (metis div_less linorder_not_le)
    then have "H1 mod 2 ^ 26 < 64" using Hb(2) by (simp add: le_mod_geq)
    with C0 show ?thesis by simp
  qed
  define c1 where "c1 = drop_bit 26 h1"
  define x2 where "x2 = h2 + c1"
  define c2 where "c2 = drop_bit 26 x2"
  define x3 where "x3 = h3 + c2"
  define c3 where "c3 = drop_bit 26 x3"
  define x4 where "x4 = h4 + c3"
  define c4 where "c4 = drop_bit 26 x4"
  define x0 where "x0 = h0 + c4 * 5"
  have c1: "unat c1 = C1" by (simp only: c1_def unat_drop Cs Hs)
  have x2: "unat x2 = X2" using X2 c1 unfolding x2_def by (subst unat_add_small) (simp_all add: Cs Hs)
  then have c2: "unat c2 = C2" by (simp only: c2_def unat_drop Cs(3))
  have x3: "unat x3 = X3" using X3 c2 unfolding x3_def by (subst unat_add_small) (simp_all add: Cs(4) Hs)
  then have c3: "unat c3 = C3" by (simp only: c3_def unat_drop Cs(5))
  have x4: "unat x4 = X4" using X4 c3 unfolding x4_def by (subst unat_add_small) (simp_all add: Cs(6) Hs)
  then have c4: "unat c4 = C4" by (simp only: c4_def unat_drop Cs(7))
  have "unat (c4 * 5) = C4 * 5" using C4 c4 by (subst unat_mult_small) simp_all
  then have x0: "unat x0 = X0" using X0 unfolding x0_def by (subst unat_add_small) (simp_all add: Cs(8) Hs)
  have pass: "carry_pass h = (x0 AND P1305_MASK, (h1 AND P1305_MASK) + drop_bit 26 x0, x2 AND P1305_MASK, x3 AND P1305_MASK, x4 AND P1305_MASK)"
    unfolding carry_pass_def h prod.case
    by (simp only: Let_def c1_def [symmetric] x2_def [symmetric] c2_def [symmetric] x3_def [symmetric] c3_def [symmetric] x4_def [symmetric] c4_def [symmetric] x0_def [symmetric])
  have low: "unat (w AND P1305_MASK) = unat w mod 2 ^ 26" for w :: u32 by (simp add: P1305_MASK_def unat_low26)
  have sum: "unat ((h1 AND P1305_MASK) + drop_bit 26 x0) = H1 mod 2 ^ 26 + X0 div 2 ^ 26"
    using small by (subst unat_add_small) (simp_all add: low unat_drop x0 Hs)
  show "reduced26 (carry_pass h)" using small by (simp add: pass reduced26_def low sum)
  have "X0 = 2 ^ 26 * (X0 div 2 ^ 26) + X0 mod 2 ^ 26" "H1 = 2 ^ 26 * C1 + H1 mod 2 ^ 26" "X2 = 2 ^ 26 * C2 + X2 mod 2 ^ 26"
    "X3 = 2 ^ 26 * C3 + X3 mod 2 ^ 26" "X4 = 2 ^ 26 * C4 + X4 mod 2 ^ 26"
    by (simp_all only: Cs(1,3,5,7) mult_div_mod_eq)
  moreover have "val26 (carry_pass h) = X0 mod 2 ^ 26 + 2 ^ 26 * (H1 mod 2 ^ 26 + X0 div 2 ^ 26) + 2 ^ 52 * (X2 mod 2 ^ 26) +
      2 ^ 78 * (X3 mod 2 ^ 26) + 2 ^ 104 * (X4 mod 2 ^ 26)"
    by (simp only: pass val26_def prod.case low sum x0 x2 x3 x4)
  moreover have "val26 h = H0 + 2 ^ 26 * H1 + 2 ^ 52 * H2 + 2 ^ 78 * H3 + 2 ^ 104 * H4" by (simp only: h val26_def prod.case Hs)
  ultimately have "val26 (carry_pass h) + p1305 * C4 = val26 h"
    using Cs(2,4,6,8) by (simp add: p1305_def)
  then show "val26 (carry_pass h) mod p1305 = val26 h mod p1305" by (metis mod_mult_self2)
qed

lemma select_pass_value:
  assumes "reduced26 h"
  shows "reduced26 (select_pass h)" and "val26 (select_pass h) = val26 h mod p1305"
proof -
  obtain h0 h1 h2 h3 h4 where h: "h = (h0, h1, h2, h3, h4)" by (metis prod_cases5)
  define H0 H1 H2 H3 H4 where Hs: "H0 = unat h0" "H1 = unat h1" "H2 = unat h2" "H3 = unat h3" "H4 = unat h4"
  have Hb: "H0 < 2 ^ 26" "H1 < 2 ^ 26" "H2 < 2 ^ 26" "H3 < 2 ^ 26" "H4 < 2 ^ 26"
    using assms by (simp_all add: h reduced26_def Hs)
  define C0 X1 C1 X2 C2 X3 C3 X4 where Cs: "C0 = (H0 + 5) div 2 ^ 26" "X1 = H1 + C0" "C1 = X1 div 2 ^ 26" "X2 = H2 + C1" "C2 = X2 div 2 ^ 26"
    "X3 = H3 + C2" "C3 = X3 div 2 ^ 26" "X4 = H4 + C3"
  have C0: "C0 \<le> 1" using div_le_mono [of "H0 + 5" "2 ^ 26 + 4" "2 ^ 26"] Hb(1) by (simp add: Cs(1))
  then have X1: "X1 \<le> 2 ^ 26" using Hb(2) by (simp add: Cs(2))
  have C1: "C1 \<le> 1" using div_le_mono [OF X1, of "2 ^ 26"] by (simp add: Cs(3))
  then have X2: "X2 \<le> 2 ^ 26" using Hb(3) by (simp add: Cs(4))
  have C2: "C2 \<le> 1" using div_le_mono [OF X2, of "2 ^ 26"] by (simp add: Cs(5))
  then have X3: "X3 \<le> 2 ^ 26" using Hb(4) by (simp add: Cs(6))
  have C3: "C3 \<le> 1" using div_le_mono [OF X3, of "2 ^ 26"] by (simp add: Cs(7))
  then have X4: "X4 \<le> 2 ^ 26" using Hb(5) by (simp add: Cs(8))
  define x0 where "x0 = h0 + 5"
  define c0 where "c0 = drop_bit 26 x0"
  define x1 where "x1 = h1 + c0"
  define c1 where "c1 = drop_bit 26 x1"
  define x2 where "x2 = h2 + c1"
  define c2 where "c2 = drop_bit 26 x2"
  define x3 where "x3 = h3 + c2"
  define c3 where "c3 = drop_bit 26 x3"
  define x4 where "x4 = h4 + c3 - push_bit 26 1"
  define mask' where "mask' = drop_bit 31 x4 - 1"
  have x0: "unat x0 = H0 + 5" using Hb unfolding x0_def by (subst unat_add_small) (simp_all add: Hs)
  then have c0: "unat c0 = C0" by (simp only: c0_def unat_drop Cs)
  have x1: "unat x1 = X1" using X1 c0 unfolding x1_def by (subst unat_add_small) (simp_all add: Cs(2) Hs)
  then have c1: "unat c1 = C1" by (simp only: c1_def unat_drop Cs(3))
  have x2: "unat x2 = X2" using X2 c1 unfolding x2_def by (subst unat_add_small) (simp_all add: Cs(4) Hs)
  then have c2: "unat c2 = C2" by (simp only: c2_def unat_drop Cs(5))
  have x3: "unat x3 = X3" using X3 c2 unfolding x3_def by (subst unat_add_small) (simp_all add: Cs(6) Hs)
  then have c3: "unat c3 = C3" by (simp only: c3_def unat_drop Cs(7))
  have sum4: "unat (h4 + c3) = X4" using X4 c3 by (subst unat_add_small) (simp_all add: Cs(8) Hs)
  have word4: "h4 + c3 = of_nat X4" using sum4 X4 by (simp add: word_unat_eq_iff unat_of_nat)
  have pass: "select_pass h = ((h0 AND NOT mask') OR (x0 AND P1305_MASK AND mask'), (h1 AND NOT mask') OR (x1 AND P1305_MASK AND mask'),
      (h2 AND NOT mask') OR (x2 AND P1305_MASK AND mask'), (h3 AND NOT mask') OR (x3 AND P1305_MASK AND mask'), (h4 AND NOT mask') OR (x4 AND mask'))"
    unfolding select_pass_def h prod.case
    by (simp only: Let_def x0_def [symmetric] c0_def [symmetric] x1_def [symmetric] c1_def [symmetric] x2_def [symmetric] c2_def [symmetric] x3_def [symmetric] c3_def [symmetric]
        x4_def [symmetric] mask'_def [symmetric] and.assoc)
  have low: "unat (w AND P1305_MASK) = unat w mod 2 ^ 26" for w :: u32 by (simp add: P1305_MASK_def unat_low26)
  have V: "val26 h = H0 + 2 ^ 26 * H1 + 2 ^ 52 * H2 + 2 ^ 78 * H3 + 2 ^ 104 * H4" by (simp only: h val26_def prod.case Hs)
  have "H0 + 5 = 2 ^ 26 * C0 + (H0 + 5) mod 2 ^ 26" "X1 = 2 ^ 26 * C1 + X1 mod 2 ^ 26" "X2 = 2 ^ 26 * C2 + X2 mod 2 ^ 26" "X3 = 2 ^ 26 * C3 + X3 mod 2 ^ 26"
    by (simp_all only: Cs(1,3,5,7) mult_div_mod_eq)
  then have G: "val26 h + 5 = (H0 + 5) mod 2 ^ 26 + 2 ^ 26 * (X1 mod 2 ^ 26) + 2 ^ 52 * (X2 mod 2 ^ 26) + 2 ^ 78 * (X3 mod 2 ^ 26) + 2 ^ 104 * X4"
    using Cs(2,4,6,8) unfolding V by simp
  have "(H0 + 5) mod 2 ^ 26 < 2 ^ 26" "X1 mod 2 ^ 26 < 2 ^ 26" "X2 mod 2 ^ 26 < 2 ^ 26" "X3 mod 2 ^ 26 < 2 ^ 26" by simp_all
  then have low4: "(H0 + 5) mod 2 ^ 26 + 2 ^ 26 * (X1 mod 2 ^ 26) + 2 ^ 52 * (X2 mod 2 ^ 26) + 2 ^ 78 * (X3 mod 2 ^ 26) < 2 ^ 104" by simp
  have "reduced26 (select_pass h) \<and> val26 (select_pass h) = val26 h mod p1305"
  proof (cases "X4 < 2 ^ 26")
    case True
    have "(of_nat (2 ^ 32 - 2 ^ 26 + X4) :: u32) + 2 ^ 26 = of_nat (2 ^ 32 - 2 ^ 26 + X4 + 2 ^ 26)" by simp
    also have "2 ^ 32 - 2 ^ 26 + X4 + 2 ^ 26 = 2 ^ 32 + X4" by simp
    also have "(of_nat (2 ^ 32 + X4) :: u32) = of_nat X4" by (simp add: of_nat_add)
    finally have "x4 = of_nat (2 ^ 32 - 2 ^ 26 + X4)" unfolding x4_def word4 by (simp add: eq_diff_eq diff_eq_eq)
    then have "unat x4 = (2 ^ 32 - 2 ^ 26 + X4) mod 2 ^ LENGTH(32)" by (simp only: unat_of_nat)
    then have "unat x4 = 2 ^ 32 - 2 ^ 26 + X4" using True by simp
    then have "unat (drop_bit 31 x4) = 1" using True by (simp only: unat_drop) simp
    then have "drop_bit 31 x4 = 1" by (simp only: word_unat_eq_iff) simp
    then have "mask' = 0" by (simp add: mask'_def)
    then have "select_pass h = h" by (simp only: pass) (simp add: h)
    moreover have "val26 h < p1305" using G low4 True by (simp add: p1305_def)
    ultimately show ?thesis using assms by simp
  next
    case False
    then have X4': "X4 = 2 ^ 26" using X4 by simp
    then have "x4 = 0" unfolding x4_def word4 by simp
    then have "mask' = - 1" by (simp add: mask'_def)
    then have sel: "select_pass h = (x0 AND P1305_MASK, x1 AND P1305_MASK, x2 AND P1305_MASK, x3 AND P1305_MASK, 0)" by (simp add: pass \<open>x4 = 0\<close>)
    then have red: "reduced26 (select_pass h)" by (simp add: reduced26_def low)
    have "val26 (select_pass h) + 2 ^ 130 = val26 h + 5" using G by (simp add: sel val26_def low x0 x1 x2 x3 X4')
    moreover have "val26 h < 2 ^ 130" using val26_less [OF assms] .
    ultimately have "val26 h = p1305 + val26 (select_pass h)" "val26 (select_pass h) < p1305" by (simp_all add: p1305_def)
    then have "val26 h mod p1305 = val26 (select_pass h)" by (metis mod_add_self1 mod_less)
    with red show ?thesis by simp
  qed
  then show "reduced26 (select_pass h)" "val26 (select_pass h) = val26 h mod p1305" by simp_all
qed

lemma poly1305_reduce_value:
  assumes "acc26 h"
  shows "reduced26 (poly1305_reduce h)" and "val26 (poly1305_reduce h) = val26 h mod p1305"
  using carry_pass_value [OF assms] select_pass_value [of "carry_pass h"] by (simp_all add: reduce_passes)

section \<open>The tag\<close>

text \<open>Two limbs joined in a word.\<close>

lemma unat_join:
  fixes x y :: u32
  assumes "k \<le> 26" "unat x < 2 ^ 26"
  shows "unat (drop_bit k x OR push_bit (26 - k) y) = unat x div 2 ^ k + 2 ^ (26 - k) * (unat y mod 2 ^ (6 + k))"
proof -
  let ?y = "take_bit (6 + k) y"
  have y: "unat ?y = unat y mod 2 ^ (6 + k)" by (simp only: unsigned_take_bit_eq) (simp only: take_bit_eq_mod)
  have "take_bit 26 x = x" using assms(2) by (metis less_exp take_bit_nat_eq_self unsigned_take_bit_eq word_unat_eq_iff)
  then have x: "n < 26" if "bit x n" for n using that by (metis bit_take_bit_iff)
  have "push_bit (26 - k) y = push_bit (26 - k) ?y"
    using assms(1) by (intro bit_word_eqI) (auto simp: bit_simps)
  moreover have "drop_bit k x AND push_bit (26 - k) ?y = 0"
    using assms(1) by (intro bit_word_eqI) (auto simp: bit_simps dest!: x)
  ultimately have "unat (drop_bit k x OR push_bit (26 - k) y) = unat (drop_bit k x) + unat (push_bit (26 - k) ?y)"
    by (simp only: unat_or_disjoint)
  moreover have "unat (push_bit (26 - k) ?y) = 2 ^ (26 - k) * unat ?y"
  proof (rule unat_push_bit)
    have "unat ?y < 2 ^ (6 + k)" by (simp only: y) simp
    then have "unat ?y * 2 ^ (26 - k) < 2 ^ (6 + k) * 2 ^ (26 - k)" by simp
    also have "\<dots> = 2 ^ 32" using assms(1) by (simp flip: power_add)
    finally show "unat ?y * 2 ^ (26 - k) < 2 ^ LENGTH(32)" by simp
  qed
  ultimately show ?thesis by (simp only: unat_drop y)
qed

lemma words_of_limbs:
  fixes h0 h1 h2 h3 h4 :: nat
  shows "(h0 + 2 ^ 26 * (h1 mod 2 ^ 6)) + 2 ^ 32 * (h1 div 2 ^ 6 + 2 ^ 20 * (h2 mod 2 ^ 12)) + 2 ^ 64 * (h2 div 2 ^ 12 + 2 ^ 14 * (h3 mod 2 ^ 18)) +
    2 ^ 96 * (h3 div 2 ^ 18 + 2 ^ 8 * (h4 mod 2 ^ 24)) + 2 ^ 128 * (h4 div 2 ^ 24) = h0 + 2 ^ 26 * h1 + 2 ^ 52 * h2 + 2 ^ 78 * h3 + 2 ^ 104 * h4"
proof -
  have "(h0 + 2 ^ 26 * m1) + 2 ^ 32 * (q1 + 2 ^ 20 * m2) + 2 ^ 64 * (q2 + 2 ^ 14 * m3) + 2 ^ 96 * (q3 + 2 ^ 8 * m4) + 2 ^ 128 * q4 =
    h0 + 2 ^ 26 * (2 ^ 6 * q1 + m1) + 2 ^ 52 * (2 ^ 12 * q2 + m2) + 2 ^ 78 * (2 ^ 18 * q3 + m3) + 2 ^ 104 * (2 ^ 24 * q4 + m4)"
    for m1 m2 m3 m4 q1 q2 q3 q4 :: nat by simp
  from this [of "h1 mod 2 ^ 6" "h1 div 2 ^ 6" "h2 mod 2 ^ 12" "h2 div 2 ^ 12" "h3 mod 2 ^ 18" "h3 div 2 ^ 18" "h4 mod 2 ^ 24" "h4 div 2 ^ 24"]
  show ?thesis by (simp only: mult_div_mod_eq)
qed

definition words_num :: "u32 list \<Rightarrow> nat" where
  "words_num ws = unat (ws ! 0) + 2 ^ 32 * unat (ws ! 1) + 2 ^ 64 * unat (ws ! 2) + 2 ^ 96 * unat (ws ! 3)"

lemma add_with_carries:
  fixes t0 t1 t2 t3 p0 p1 p2 p3 :: nat
  defines "f0 \<equiv> t0 + p0" defines "f1 \<equiv> t1 + p1 + f0 div 2 ^ 32" defines "f2 \<equiv> t2 + p2 + f1 div 2 ^ 32" defines "f3 \<equiv> t3 + p3 + f2 div 2 ^ 32"
  shows "f0 mod 2 ^ 32 + 2 ^ 32 * (f1 mod 2 ^ 32) + 2 ^ 64 * (f2 mod 2 ^ 32) + 2 ^ 96 * (f3 mod 2 ^ 32) =
    ((t0 + 2 ^ 32 * t1 + 2 ^ 64 * t2 + 2 ^ 96 * t3) + (p0 + 2 ^ 32 * p1 + 2 ^ 64 * p2 + 2 ^ 96 * p3)) mod 2 ^ 128"
proof -
  let ?s = "f0 mod 2 ^ 32 + 2 ^ 32 * (f1 mod 2 ^ 32) + 2 ^ 64 * (f2 mod 2 ^ 32) + 2 ^ 96 * (f3 mod 2 ^ 32)"
  have "m0 + 2 ^ 32 * m1 + 2 ^ 64 * m2 + 2 ^ 96 * m3 + 2 ^ 128 * q3 =
      ((2 ^ 32 * q0 + m0) + 2 ^ 32 * (2 ^ 32 * q1 + m1) + 2 ^ 64 * (2 ^ 32 * q2 + m2) + 2 ^ 96 * (2 ^ 32 * q3 + m3)) - (2 ^ 32 * q0 + 2 ^ 64 * q1 + 2 ^ 96 * q2)"
    for m0 m1 m2 m3 q0 q1 q2 q3 :: nat by simp
  from this [of "f0 mod 2 ^ 32" "f1 mod 2 ^ 32" "f2 mod 2 ^ 32" "f3 mod 2 ^ 32" "f3 div 2 ^ 32" "f0 div 2 ^ 32" "f1 div 2 ^ 32" "f2 div 2 ^ 32"]
  have "?s + 2 ^ 128 * (f3 div 2 ^ 32) = (f0 + 2 ^ 32 * f1 + 2 ^ 64 * f2 + 2 ^ 96 * f3) - (2 ^ 32 * (f0 div 2 ^ 32) + 2 ^ 64 * (f1 div 2 ^ 32) + 2 ^ 96 * (f2 div 2 ^ 32))"
    by (simp only: mult_div_mod_eq)
  also have "\<dots> = (t0 + 2 ^ 32 * t1 + 2 ^ 64 * t2 + 2 ^ 96 * t3) + (p0 + 2 ^ 32 * p1 + 2 ^ 64 * p2 + 2 ^ 96 * p3)"
    unfolding f3_def f2_def f1_def f0_def by simp
  finally have "(t0 + 2 ^ 32 * t1 + 2 ^ 64 * t2 + 2 ^ 96 * t3) + (p0 + 2 ^ 32 * p1 + 2 ^ 64 * p2 + 2 ^ 96 * p3) = ?s + 2 ^ 128 * (f3 div 2 ^ 32)" ..
  moreover have "f0 mod 2 ^ 32 < 2 ^ 32" "f1 mod 2 ^ 32 < 2 ^ 32" "f2 mod 2 ^ 32 < 2 ^ 32" "f3 mod 2 ^ 32 < 2 ^ 32" by simp_all
  then have "?s < 2 ^ 128" by simp
  ultimately show ?thesis by simp
qed

lemma mod_insert: "(a + n * q + c) mod n = (a + c) mod n" for a c n q :: nat
proof -
  have "a + n * q + c = a + c + n * q" by simp
  then show ?thesis by (simp only: mod_mult_self2)
qed

lemma poly1305_tag_words_value:
  assumes "reduced26 h"
  shows "words_num (poly1305_tag_words h pad) = (val26 h + words_num pad) mod 2 ^ 128 \<and> length (poly1305_tag_words h pad) = 4"
proof -
  obtain h0 h1 h2 h3 h4 where h: "h = (h0, h1, h2, h3, h4)" by (metis prod_cases5)
  have Hb: "unat h0 < 2 ^ 26" "unat h1 < 2 ^ 26" "unat h2 < 2 ^ 26" "unat h3 < 2 ^ 26" "unat h4 < 2 ^ 26"
    using assms by (simp_all add: h reduced26_def)
  define w0 where "w0 = h0 OR push_bit 26 h1"
  define w1 where "w1 = drop_bit 6 h1 OR push_bit 20 h2"
  define w2 where "w2 = drop_bit 12 h2 OR push_bit 14 h3"
  define w3 where "w3 = drop_bit 18 h3 OR push_bit 8 h4"
  have ws: "unat w0 = unat h0 + 2 ^ 26 * (unat h1 mod 2 ^ 6)" "unat w1 = unat h1 div 2 ^ 6 + 2 ^ 20 * (unat h2 mod 2 ^ 12)"
    "unat w2 = unat h2 div 2 ^ 12 + 2 ^ 14 * (unat h3 mod 2 ^ 18)" "unat w3 = unat h3 div 2 ^ 18 + 2 ^ 8 * (unat h4 mod 2 ^ 24)"
    using unat_join [of 0 h0 h1] unat_join [of 6 h1 h2] unat_join [of 12 h2 h3] unat_join [of 18 h3 h4] Hb
    by (simp_all add: w0_def w1_def w2_def w3_def)
  note wide = unat_ucast_wide [where 'a = 32 and 'b = 64, simplified]
  have lt: "unat w < 2 ^ 32" for w :: u32 using unsigned_less [of w] by simp
  define f0 where "f0 = (ucast w0 :: 64 word) + ucast (pad ! 0)"
  define f1 where "f1 = (ucast w1 :: 64 word) + ucast (pad ! 1) + drop_bit 32 f0"
  define f2 where "f2 = (ucast w2 :: 64 word) + ucast (pad ! 2) + drop_bit 32 f1"
  define f3 where "f3 = (ucast w3 :: 64 word) + ucast (pad ! 3) + drop_bit 32 f2"
  have sum: "unat ((ucast a :: 64 word) + ucast b + drop_bit 32 f) = unat a + unat b + unat f div 2 ^ 32" for a b :: u32 and f :: "64 word"
  proof -
    have "unat f < 2 ^ LENGTH(64)" by (rule unsigned_less)
    then have "unat f div 2 ^ 32 < 2 ^ 32" by (simp add: less_mult_imp_div_less)
    with lt [of a] lt [of b] show ?thesis by (subst unat_add_small; (subst unat_add_small)?; simp add: wide unat_drop)
  qed
  have f0: "unat f0 = unat w0 + unat (pad ! 0)"
    using lt [of w0] lt [of "pad ! 0"] unfolding f0_def by (subst unat_add_small) (simp_all add: wide)
  have f1: "unat f1 = unat w1 + unat (pad ! 1) + unat f0 div 2 ^ 32" unfolding f1_def by (rule sum)
  have f2: "unat f2 = unat w2 + unat (pad ! 2) + unat f1 div 2 ^ 32" unfolding f2_def by (rule sum)
  have f3: "unat f3 = unat w3 + unat (pad ! 3) + unat f2 div 2 ^ 32" unfolding f3_def by (rule sum)
  have narrow: "unat (ucast (f :: 64 word) :: u32) = unat f mod 2 ^ 32" for f
    by (simp only: unsigned_ucast_eq take_bit_eq_mod) simp
  have tag: "poly1305_tag_words h pad = [ucast f0, ucast f1, ucast f2, ucast f3]"
    unfolding poly1305_tag_words_def h prod.case
    by (simp only: Let_def w0_def [symmetric] w1_def [symmetric] w2_def [symmetric] w3_def [symmetric] f0_def [symmetric] f1_def [symmetric] f2_def [symmetric] f3_def [symmetric])
  have "words_num (poly1305_tag_words h pad) = unat f0 mod 2 ^ 32 + 2 ^ 32 * (unat f1 mod 2 ^ 32) + 2 ^ 64 * (unat f2 mod 2 ^ 32) + 2 ^ 96 * (unat f3 mod 2 ^ 32)"
    unfolding words_num_def tag by (simp add: narrow)
  also have "\<dots> = ((unat w0 + 2 ^ 32 * unat w1 + 2 ^ 64 * unat w2 + 2 ^ 96 * unat w3) + words_num pad) mod 2 ^ 128"
    unfolding words_num_def f3 f2 f1 f0 by (rule add_with_carries)
  also have "\<dots> = ((unat w0 + 2 ^ 32 * unat w1 + 2 ^ 64 * unat w2 + 2 ^ 96 * unat w3 + 2 ^ 128 * (unat h4 div 2 ^ 24)) + words_num pad) mod 2 ^ 128"
    by (simp only: mod_insert)
  also have "unat w0 + 2 ^ 32 * unat w1 + 2 ^ 64 * unat w2 + 2 ^ 96 * unat w3 + 2 ^ 128 * (unat h4 div 2 ^ 24) = val26 h"
    unfolding ws val26_def h prod.case by (rule words_of_limbs)
  finally show ?thesis by (simp add: tag)
qed

lemma num_bytes_le_num: "num_bytes (length bs) (le_num bs) = bs"
proof (induction bs)
  case (Cons b bs)
  have "unat b < 256" using unsigned_less [of b] by simp
  moreover have "(of_nat (256 * n) :: byte) = 0" for n by (simp add: word_of_nat_eq_0_iff del: of_nat_mult)
  ultimately show ?case using Cons by (simp del: of_nat_mult)
qed simp

lemma le_num_enc: "8 * n = LENGTH('a) \<Longrightarrow> le_num (le_enc n (w :: 'a::len word)) = unat w"
  using unat_le_word [of "le_enc n w", where 'a = 'a] by (simp add: le_word_enc)

lemma tag_bytes:
  assumes "length ws = 4"
  shows "do {
     tag \<leftarrow> crypto_store32_le (replicate 16 0) 0 (ws ! 0);
     tag \<leftarrow> crypto_store32_le tag 4 (ws ! 1);
     tag \<leftarrow> crypto_store32_le tag 8 (ws ! 2);
     crypto_store32_le tag 12 (ws ! 3) } = Some (num_bytes 16 (words_num ws))"
proof -
  let ?e = "le_enc 4 (ws ! 0) @ le_enc 4 (ws ! 1) @ le_enc 4 (ws ! 2) @ le_enc 4 (ws ! 3)"
  have "le_num ?e = words_num ws" by (simp add: le_num_append le_num_enc words_num_def)
  then have "num_bytes 16 (words_num ws) = ?e" using num_bytes_le_num [of ?e] by simp
  then show ?thesis by (simp add: crypto_store32_le_bytes mem_write_def)
qed

section \<open>Runs of blocks\<close>

lemma rfc_step_less: "rfc_step R a b < p1305"
  by (simp add: rfc_step_def p1305_def)

lemma rfc_step_mod: "rfc_step R (a mod p1305) b = (a + le_num b + 256 ^ length b) * R mod p1305"
proof -
  have "(a mod p1305 + x) * R mod p1305 = (a + x) * R mod p1305" for x by (metis mod_add_left_eq mod_mult_left_eq)
  then show ?thesis by (simp add: rfc_step_def le_num_append add.assoc)
qed

lemma blocks_26_loop_value:
  assumes "key26 r" and "16 * n \<le> length m" and "acc26 h"
  shows "\<exists>h'. blocks_26_loop r (push_bit 24 1) h m (16 * n) = Some h' \<and> acc26 h' \<and>
    val26 h' mod p1305 = fst (absorb 16 (rfc_step (key_val r)) (val26 h mod p1305) (take (16 * n) m))"
  using assms(2,3)
proof (induction n arbitrary: h m)
  case 0
  then show ?case by (subst blocks_26_loop.simps) (simp add: absorb_short)
next
  case (Suc n)
  then have len: "16 \<le> length m" by simp
  from poly1305_add_value [OF Suc.prems(2) len, of "push_bit 24 1"] obtain h' where
    h': "poly1305_add (push_bit 24 1) h m = Some h'" "sum26 h'" "val26 h' = val26 h + le_num (take 16 m) + 2 ^ 104 * unat (push_bit 24 1 :: u32)" by auto
  note mul = poly1305_mul_value [OF h'(2) assms(1)]
  have "val26 (poly1305_mul r h') mod p1305 = rfc_step (key_val r) (val26 h mod p1305) (take 16 m)"
    using len by (simp add: mul(2) rfc_step_mod h'(3))
  moreover from Suc.prems have "16 * n \<le> length (drop 16 m)" by simp
  note Suc.IH [OF this mul(1)]
  moreover have "absorb 16 (rfc_step (key_val r)) (val26 h mod p1305) (take (16 * Suc n) m) =
      absorb 16 (rfc_step (key_val r)) (rfc_step (key_val r) (val26 h mod p1305) (take 16 m)) (take (16 * n) (drop 16 m))"
    using Suc.prems by (subst absorb_step) (simp_all add: take_drop add.commute)
  ultimately show ?case using h'(1) by (subst blocks_26_loop.simps) simp
qed

section \<open>The streaming interface\<close>

definition ctx_limbs :: "poly1305_ctx \<Rightarrow> limbs" where
  "ctx_limbs ctx = (p_h ctx ! 0, p_h ctx ! 1, p_h ctx ! 2, p_h ctx ! 3, p_h ctx ! 4)"

definition poly1305_inv :: "nat \<Rightarrow> nat \<Rightarrow> poly1305_ctx \<Rightarrow> bool" where
  "poly1305_inv R P ctx \<longleftrightarrow> key26 (p_r ctx) \<and> key_val (p_r ctx) = R \<and> acc26 (ctx_limbs ctx) \<and> words_num (p_pad ctx) = P \<and>
     p_leftover ctx < 16 \<and> length (p_buffer ctx) = 16 \<and> p_final ctx = 0"

definition poly1305_chain :: "poly1305_ctx \<Rightarrow> nat" where
  "poly1305_chain ctx = val26 (ctx_limbs ctx) mod p1305"

definition poly1305_pending :: "poly1305_ctx \<Rightarrow> byte list" where
  "poly1305_pending ctx = take (p_leftover ctx) (p_buffer ctx)"

lemma poly1305_blocks_26_value:
  assumes "key26 (p_r ctx)" "acc26 (ctx_limbs ctx)" "p_final ctx = 0" "16 * n \<le> length m"
  shows "\<exists>h. poly1305_blocks_26 ctx m (16 * n) = Some (ctx\<lparr>p_h := h\<rparr>) \<and> acc26 (ctx_limbs (ctx\<lparr>p_h := h\<rparr>)) \<and>
    poly1305_chain (ctx\<lparr>p_h := h\<rparr>) = fst (absorb 16 (rfc_step (key_val (p_r ctx))) (poly1305_chain ctx) (take (16 * n) m))"
proof -
  from blocks_26_loop_value [OF assms(1,4,2)] obtain h' where h':
    "blocks_26_loop (p_r ctx) (push_bit 24 1) (ctx_limbs ctx) m (16 * n) = Some h'" "acc26 h'"
    "val26 h' mod p1305 = fst (absorb 16 (rfc_step (key_val (p_r ctx))) (val26 (ctx_limbs ctx) mod p1305) (take (16 * n) m))" by auto
  obtain a b c d e where "h' = (a, b, c, d, e)" by (metis prod_cases5)
  with h' show ?thesis
    by (intro exI [of _ "[a, b, c, d, e]"]) (simp add: poly1305_blocks_26_def assms(3) ctx_limbs_def poly1305_chain_def)
qed

lemma update_rest_value:
  assumes "poly1305_inv R P ctx" "p_leftover ctx = 0" "len \<le> length m"
  shows "\<exists>ctx'. poly1305_update_rest False ctx m len = Some ctx' \<and> poly1305_inv R P ctx' \<and>
    (poly1305_chain ctx', poly1305_pending ctx') = absorb 16 (rfc_step R) (poly1305_chain ctx) (take len m)"
proof -
  define n where "n = len div 16"
  let ?want = "16 * n"
  have n: "?want \<le> len" "len - ?want < 16" by (simp_all add: n_def minus_mult_div_eq_mod)
  have "\<exists>ctx'. (if 16 \<le> len then do {
          let want = len div 16 * 16;
          ctx \<leftarrow> poly1305_blocks False ctx m want;
          Some (ctx, drop want m, len - want) }
        else Some (ctx, m, len)) = Some (ctx', drop ?want m, len - ?want) \<and> poly1305_inv R P ctx' \<and> p_leftover ctx' = 0 \<and>
      poly1305_chain ctx' = fst (absorb 16 (rfc_step R) (poly1305_chain ctx) (take ?want m))"
  proof (cases "16 \<le> len")
    case True
    from poly1305_blocks_26_value [of ctx n m] assms n obtain h where h:
      "poly1305_blocks_26 ctx m ?want = Some (ctx\<lparr>p_h := h\<rparr>)" "acc26 (ctx_limbs (ctx\<lparr>p_h := h\<rparr>))"
      "poly1305_chain (ctx\<lparr>p_h := h\<rparr>) = fst (absorb 16 (rfc_step R) (poly1305_chain ctx) (take ?want m))"
      by (auto simp: poly1305_inv_def)
    with True assms show ?thesis
      by (intro exI [of _ "ctx\<lparr>p_h := h\<rparr>"]) (simp add: poly1305_blocks_def poly1305_inv_def n_def mult.commute Let_def)
  next
    case False
    then have "n = 0" by (simp add: n_def)
    with False assms show ?thesis by (intro exI [of _ ctx]) (simp add: absorb_short)
  qed
  then obtain c where c: "(if 16 \<le> len then do {
          let want = len div 16 * 16;
          ctx \<leftarrow> poly1305_blocks False ctx m want;
          Some (ctx, drop want m, len - want) }
        else Some (ctx, m, len)) = Some (c, drop ?want m, len - ?want)" "poly1305_inv R P c" "p_leftover c = 0"
    "poly1305_chain c = fst (absorb 16 (rfc_step R) (poly1305_chain ctx) (take ?want m))" by blast
  have "absorb 16 (rfc_step R) (poly1305_chain ctx) (take len m) =
      absorb 16 (rfc_step R) (fst (absorb 16 (rfc_step R) (poly1305_chain ctx) (take (n * 16) (take len m)))) (drop (n * 16) (take len m))"
    using n assms(3) by (intro absorb_whole) simp_all
  also have "\<dots> = (poly1305_chain c, take (len - ?want) (drop ?want m))"
    using n assms(3) by (simp add: c(4) mult.commute min_def drop_take absorb_short)
  finally have abs: "absorb 16 (rfc_step R) (poly1305_chain ctx) (take len m) = (poly1305_chain c, take (len - ?want) (drop ?want m))" .
  show ?thesis
  proof (cases "len - ?want = 0")
    case True
    then show ?thesis using c abs unfolding poly1305_update_rest_def by (simp add: poly1305_pending_def)
  next
    case False
    let ?bs = "take (len - ?want) (drop ?want m)"
    have "length ?bs = len - ?want" using n assms(3) by simp
    moreover have "length (p_buffer c) = 16" using c(2) by (simp add: poly1305_inv_def)
    ultimately show ?thesis using c abs False n assms(3) unfolding poly1305_update_rest_def
      by (simp add: mem_read_def mem_write_def poly1305_inv_def poly1305_pending_def poly1305_chain_def ctx_limbs_def)
  qed
qed

lemma poly1305_update_value:
  assumes inv: "poly1305_inv R P ctx"
  shows "\<exists>ctx'. poly1305_update False ctx xs (length xs) = Some ctx' \<and> poly1305_inv R P ctx' \<and>
    (poly1305_chain ctx', poly1305_pending ctx') = absorb 16 (rfc_step R) (poly1305_chain ctx) (poly1305_pending ctx @ xs)"
proof (cases "p_leftover ctx = 0")
  case True
  then have "poly1305_pending ctx = []" by (simp add: poly1305_pending_def)
  with update_rest_value [OF inv True, of "length xs" xs] True show ?thesis by (simp add: poly1305_update_def)
next
  case False
  define k where "k = p_leftover ctx"
  define want where "want = min (16 - k) (length xs)"
  have k: "0 < k" "k < 16" "length (p_buffer ctx) = 16" using inv False by (simp_all add: poly1305_inv_def k_def)
  let ?buf = "take k (p_buffer ctx) @ take want xs @ drop (k + want) (p_buffer ctx)"
  have pend: "length (poly1305_pending ctx) = k" using k by (simp add: poly1305_pending_def k_def)
  have want: "want \<le> length xs" "k + want \<le> 16" using k by (auto simp: want_def)
  let ?c = "ctx\<lparr>p_buffer := ?buf, p_leftover := k + want\<rparr>"
  have buf: "mem_write (p_buffer ctx) k (take want xs) = Some ?buf" using k want by (simp add: mem_write_def)
  show ?thesis
  proof (cases "k + want < 16")
    case True
    then have w: "want = length xs" using k by (auto simp: want_def)
    then have "poly1305_pending ?c = poly1305_pending ctx @ xs" using k by (simp add: poly1305_pending_def k_def)
    moreover have "length (poly1305_pending ctx @ xs) < 16" using True pend w by simp
    ultimately show ?thesis using True inv k buf w False
      by (intro exI [of _ ?c]) (simp add: poly1305_update_def want_def [symmetric] mem_read_def absorb_short poly1305_inv_def poly1305_chain_def ctx_limbs_def Let_def flip: k_def)
  next
    case full: False
    then have kw: "k + want = 16" using want by simp
    have c: "key26 (p_r ?c)" "key_val (p_r ?c) = R" "acc26 (ctx_limbs ?c)" "p_final ?c = 0" using inv by (simp_all add: poly1305_inv_def ctx_limbs_def)
    have rest: "16 - p_leftover ctx = want" using kw by (simp add: k_def)
    have blk: "take 16 ?buf = poly1305_pending ctx @ take want xs" "length ?buf = 16"
      using k kw want rest by (simp_all add: poly1305_pending_def k_def)
    from poly1305_blocks_26_value [OF c(1,3,4), of 1 ?buf] obtain h where h:
      "poly1305_blocks_26 ?c ?buf 16 = Some (?c\<lparr>p_h := h\<rparr>)" "acc26 (ctx_limbs (?c\<lparr>p_h := h\<rparr>))"
      "poly1305_chain (?c\<lparr>p_h := h\<rparr>) = fst (absorb 16 (rfc_step R) (poly1305_chain ctx) (take 16 ?buf))"
      using blk(2) c(2) by (auto simp: poly1305_chain_def ctx_limbs_def)
    let ?d = "?c\<lparr>p_h := h, p_leftover := 0\<rparr>"
    have d: "poly1305_inv R P ?d" "p_leftover ?d = 0" using h(2) inv blk(2) by (simp_all add: poly1305_inv_def ctx_limbs_def)
    have "length (poly1305_pending ctx @ take want xs) = 16" using pend kw want by simp
    then have "absorb 16 (rfc_step R) (poly1305_chain ctx) (poly1305_pending ctx @ xs) =
        absorb 16 (rfc_step R) (rfc_step R (poly1305_chain ctx) (poly1305_pending ctx @ take want xs)) (drop want xs)"
      using absorb_block [of 16 "poly1305_pending ctx @ take want xs" "rfc_step R" "poly1305_chain ctx" "drop want xs"] by simp
    moreover have "poly1305_chain ?d = rfc_step R (poly1305_chain ctx) (poly1305_pending ctx @ take want xs)"
      using h(3) \<open>length (poly1305_pending ctx @ take want xs) = 16\<close> unfolding blk(1)
      by (simp add: absorb_one poly1305_chain_def ctx_limbs_def)
    moreover note update_rest_value [OF d, of "length xs - want" "drop want xs"]
    moreover have "poly1305_update False ctx xs (length xs) = poly1305_update_rest False ?d (drop want xs) (length xs - want)"
      using False buf h(1) kw want by (simp add: poly1305_update_def poly1305_blocks_def want_def [symmetric] mem_read_def Let_def flip: k_def)
    ultimately show ?thesis using want by simp
  qed
qed

text \<open>Any way of cutting the message into updates.\<close>

interpretation poly26: block_buffer 16 "rfc_step R" "poly1305_inv R P" poly1305_chain poly1305_pending
    "\<lambda>ctx xs. poly1305_update False ctx xs (length xs)" for R P
proof
  show "length (poly1305_pending ctx) < 16" if "poly1305_inv R P ctx" for ctx
    using that by (simp add: poly1305_pending_def poly1305_inv_def)
qed (simp, rule poly1305_update_value)

text \<open>The blocks of the reference, absorbed.\<close>

definition last_step :: "nat \<Rightarrow> nat \<times> byte list \<Rightarrow> nat" where
  "last_step R = (\<lambda>(a, rest). if rest = [] then a else rfc_step R a rest)"

lemma rfc_blocks_absorb: "foldl (rfc_step R) a (rfc_blocks msg) = last_step R (absorb 16 (rfc_step R) a msg)"
proof (induction msg arbitrary: a rule: rfc_blocks.induct)
  case (1 msg)
  show ?case
  proof (cases "16 \<le> length msg")
    case True
    then have "msg \<noteq> []" by auto
    with True 1 show ?thesis by (subst rfc_blocks.simps) (simp add: absorb_step)
  next
    case False
    show ?thesis
    proof (cases "msg = []")
      case False
      with \<open>\<not> 16 \<le> length msg\<close> show ?thesis
        by (subst rfc_blocks.simps, subst rfc_blocks.simps) (simp add: absorb_short last_step_def)
    qed (subst rfc_blocks.simps, simp add: absorb_short last_step_def)
  qed
qed

lemma le_num_zeros: "le_num (bs @ replicate n 0) = le_num bs"
proof -
  have "le_num (replicate n 0) = 0" by (induction n) simp_all
  then show ?thesis by (simp add: le_num_append)
qed

lemma poly1305_last_block_value:
  assumes inv: "poly1305_inv R P ctx"
  shows "\<exists>ctx'. poly1305_last_block False ctx = Some ctx' \<and> acc26 (ctx_limbs ctx') \<and> words_num (p_pad ctx') = P \<and>
    val26 (ctx_limbs ctx') mod p1305 = last_step R (poly1305_chain ctx, poly1305_pending ctx)"
proof (cases "p_leftover ctx = 0")
  case True
  with inv show ?thesis by (simp add: poly1305_last_block_def poly1305_inv_def last_step_def poly1305_pending_def poly1305_chain_def)
next
  case False
  define k where "k = p_leftover ctx"
  have k: "0 < k" "k < 16" "length (p_buffer ctx) = 16" using inv False by (simp_all add: poly1305_inv_def k_def)
  let ?buf = "poly1305_pending ctx @ 1 # replicate (15 - k) 0"
  have pend: "length (poly1305_pending ctx) = k" using k by (simp add: poly1305_pending_def k_def)
  have buf: "arr_set (p_buffer ctx) k 1 = Some ((p_buffer ctx)[k := 1])"
    "mem_write ((p_buffer ctx)[k := 1]) (k + 1) (replicate (16 - (k + 1)) 0) = Some ?buf"
  proof -
    show "arr_set (p_buffer ctx) k 1 = Some ((p_buffer ctx)[k := 1])" using k by (simp add: arr_set_def)
    have "take (k + 1) ((p_buffer ctx)[k := 1]) = poly1305_pending ctx @ [1]"
      using k by (simp add: take_Suc_conv_app_nth poly1305_pending_def k_def)
    then show "mem_write ((p_buffer ctx)[k := 1]) (k + 1) (replicate (16 - (k + 1)) 0) = Some ?buf"
      using k by (simp add: mem_write_def)
  qed
  let ?c = "ctx\<lparr>p_buffer := ?buf, p_final := 1\<rparr>"
  have len: "16 \<le> length ?buf" using k pend by simp
  have acc: "acc26 (ctx_limbs ctx)" "key26 (p_r ctx)" "key_val (p_r ctx) = R" using inv by (simp_all add: poly1305_inv_def)
  from poly1305_add_value [OF acc(1) len, of 0] obtain h' where
    h': "poly1305_add 0 (ctx_limbs ctx) ?buf = Some h'" "sum26 h'" "val26 h' = val26 (ctx_limbs ctx) + le_num (take 16 ?buf)" by auto
  note mul = poly1305_mul_value [OF h'(2) acc(2)]
  obtain a b c d e where m: "poly1305_mul (p_r ctx) h' = (a, b, c, d, e)" by (metis prod_cases5)
  have "blocks_26_loop (p_r ctx) 0 (ctx_limbs ctx) ?buf 16 = Some (a, b, c, d, e)"
    using h'(1) m by (subst blocks_26_loop.simps, subst blocks_26_loop.simps) simp
  then have run: "poly1305_last_block False ctx = Some (?c\<lparr>p_h := [a, b, c, d, e]\<rparr>)"
    using False buf by (simp add: poly1305_last_block_def poly1305_blocks_def poly1305_blocks_26_def ctx_limbs_def Let_def flip: k_def)
  have "le_num (take 16 ?buf) = le_num (poly1305_pending ctx @ [1])"
    using k pend le_num_zeros [of "poly1305_pending ctx @ [1]" "15 - k"] by simp
  then have "val26 (a, b, c, d, e) mod p1305 = (val26 (ctx_limbs ctx) + le_num (poly1305_pending ctx @ [1])) * R mod p1305"
    using mul(2) h'(3) acc(3) by (simp add: m)
  also have "\<dots> = rfc_step R (poly1305_chain ctx) (poly1305_pending ctx)"
    by (simp add: poly1305_chain_def rfc_step_mod le_num_append add.assoc)
  finally have "val26 (a, b, c, d, e) mod p1305 = rfc_step R (poly1305_chain ctx) (poly1305_pending ctx)" .
  moreover have "poly1305_pending ctx \<noteq> []" using pend k by auto
  ultimately show ?thesis using run mul(1) inv by (simp add: m ctx_limbs_def last_step_def poly1305_inv_def)
qed

lemma words_num_pad:
  assumes "32 \<le> length key"
  shows "words_num (map (\<lambda>i. le_word (take 4 (drop (16 + 4 * i) key))) [0..<4]) = rfc_pad key"
  using le_num_16 [of "drop 16 key"] assms by (simp add: words_num_def rfc_pad_def add.commute)

lemma poly1305_streaming_result:
  assumes "32 \<le> length key" and "length buffer = 16"
  shows "do { ctx \<leftarrow> poly1305_init buffer key; ctx \<leftarrow> update_all (\<lambda>ctx xs. poly1305_update False ctx xs (length xs)) ctx xss; (tag, ctx) \<leftarrow> poly1305_final False ctx; Some tag } =
    Some (rfc_poly1305 key (concat xss))"
proof -
  from poly1305_init_result [of key buffer] assms(1) obtain ctx where
    ctx: "poly1305_init buffer key = Some ctx" "poly1305_inv (rfc_r key) (rfc_pad key) ctx" "poly1305_chain ctx = 0" "poly1305_pending ctx = []"
    using assms(2) words_num_pad [of key]
    by (auto simp: poly1305_inv_def ctx_limbs_def acc26_def poly1305_chain_def val26_def poly1305_pending_def)
  from poly26.buffer_update_absorbs [OF ctx(2), of xss] obtain c where c: "update_all (\<lambda>ctx xs. poly1305_update False ctx xs (length xs)) ctx xss = Some c"
    "poly1305_inv (rfc_r key) (rfc_pad key) c" "(poly1305_chain c, poly1305_pending c) = absorb 16 (rfc_step (rfc_r key)) 0 (concat xss)"
    using ctx(3,4) by auto
  from poly1305_last_block_value [OF c(2)] obtain d where d: "poly1305_last_block False c = Some d" "acc26 (ctx_limbs d)"
    "words_num (p_pad d) = rfc_pad key" "val26 (ctx_limbs d) mod p1305 = foldl (rfc_step (rfc_r key)) 0 (rfc_blocks (concat xss))"
    by (auto simp: c(3) rfc_blocks_absorb)
  note red = poly1305_reduce_value [OF d(2)]
  let ?ws = "poly1305_tag_words (poly1305_reduce (ctx_limbs d)) (p_pad d)"
  have ws: "words_num ?ws = (foldl (rfc_step (rfc_r key)) 0 (rfc_blocks (concat xss)) + rfc_pad key) mod 2 ^ 128" "length ?ws = 4"
    using poly1305_tag_words_value [OF red(1), of "p_pad d"] by (simp_all add: red(2) d(3,4))
  from tag_bytes [OF ws(2), unfolded ws(1)] have "poly1305_tag False c = Some (rfc_poly1305 key (concat xss))"
    by (simp add: poly1305_tag_def d(1) ctx_limbs_def Let_def rfc_poly1305_def)
  with ctx(1) c(1) show ?thesis by (simp add: poly1305_final_def)
qed

text \<open>C38. Poly1305 in limbs of 26 bits, fed with the message cut into pieces in any way, gives the tag
  of RFC 8439: the polynomial over the blocks modulo \<open>2 ^ 130 - 5\<close>, plus the second half of the key.\<close>

theorem poly1305_correct:
  assumes "length key = 32" and "length buffer = 16"
  shows "do { ctx \<leftarrow> poly1305_init buffer key; ctx \<leftarrow> update_all (\<lambda>ctx xs. poly1305_update False ctx xs (length xs)) ctx xss; (tag, ctx) \<leftarrow> poly1305_final False ctx; Some tag } =
    Some (rfc_poly1305 key (concat xss))"
  using assms by (intro poly1305_streaming_result) simp_all

theorem poly1305_correct_witness:
  "do { ctx \<leftarrow> poly1305_init (replicate 16 0) (replicate 32 9); ctx \<leftarrow> update_all (\<lambda>ctx xs. poly1305_update False ctx xs (length xs)) ctx [[1, 2], replicate 40 7]; (tag, ctx) \<leftarrow> poly1305_final False ctx; Some tag } =
    Some (rfc_poly1305 (replicate 32 9) (concat [[1, 2], replicate 40 7]))"
  by (rule poly1305_correct) simp_all

lemma poly1305_auth_result:
  assumes "32 \<le> length key" and "length buffer = 16"
  shows "poly1305_auth False buffer m (length m) key = Some (rfc_poly1305 key m)"
  using poly1305_streaming_result [OF assms, of "[m]"] by (simp add: poly1305_auth_def)

section \<open>Limbs of 44 bits\<close>

text \<open>In limbs of 44 bits a carry can be lost: for the key whose multiplier is 4 and the message of eleven
  bytes \<open>ff\<close> and five zeros, the second limb ends at \<open>2 ^ 44\<close> while the third is odd, and when the limbs are
  cut back into 26 bits the bit \<open>2 ^ 88\<close> of the one falls onto that of the other. The tag is not the one
  of RFC 8439, which the 26-bit limbs give.\<close>

theorem poly1305_wide_loses_carry:
  "poly1305_auth True (replicate 16 0) (replicate 11 0xff @ replicate 5 0) 16 (4 # replicate 31 0) = Some [1,0,0,0,0,0,0,0,0,0,0,3,0,0,0,0] \<and>
   rfc_poly1305 (4 # replicate 31 0) (replicate 11 0xff @ replicate 5 0) = [1,0,0,0,0,0,0,0,0,0,0,4,0,0,0,0]"
proof
  show "poly1305_auth True (replicate 16 0) (replicate 11 0xff @ replicate 5 0) 16 (4 # replicate 31 0) = Some [1,0,0,0,0,0,0,0,0,0,0,3,0,0,0,0]"
    by code_simp
  have "poly1305_auth False (replicate 16 0) (replicate 11 0xff @ replicate 5 0) 16 (4 # replicate 31 0) = Some [1,0,0,0,0,0,0,0,0,0,0,4,0,0,0,0]"
    by code_simp
  then show "rfc_poly1305 (4 # replicate 31 0) (replicate 11 0xff @ replicate 5 0) = [1,0,0,0,0,0,0,0,0,0,0,4,0,0,0,0]"
    using poly1305_auth_result [of "4 # replicate 31 0" "replicate 16 0" "replicate 11 0xff @ replicate 5 0"] by simp
qed

end
