(* ===== verification/Poly1305Wide.thy ===== *)
theory Poly1305Wide
  imports Poly1305Proof
begin

text \<open>
  The block function in limbs of 44 bits, which the 128-bit builds use, as arithmetic on numbers: the
  limbs of 26 bits cut into limbs of 44, the multiplication, the carries, and the way back, with the
  one case in which a carry is lost.
\<close>

section \<open>Numbers in limbs of 44 bits\<close>

definition val44 :: "limbs44 \<Rightarrow> nat" where
  "val44 = (\<lambda>(h0, h1, h2). unat h0 + 2 ^ 44 * unat h1 + 2 ^ 88 * unat h2)"

definition acc44 :: "limbs44 \<Rightarrow> bool" where
  "acc44 = (\<lambda>(h0, h1, h2). unat h0 < 2 ^ 44 \<and> unat h1 < 2 ^ 44 + 64 \<and> unat h2 < 2 ^ 42 + 2 ^ 18)"

definition sum44 :: "limbs44 \<Rightarrow> bool" where
  "sum44 = (\<lambda>(h0, h1, h2). unat h0 < 2 ^ 45 \<and> unat h1 < 2 ^ 45 + 64 \<and> unat h2 < 2 ^ 43 + 2 ^ 18)"

definition key44 :: "limbs44 \<Rightarrow> bool" where
  "key44 = (\<lambda>(r0, r1, r2). unat r0 < 2 ^ 44 \<and> unat r1 < 2 ^ 44 \<and> unat r2 < 2 ^ 42)"

lemma product_limbs44:
  fixes h0 h1 h2 r0 r1 r2 :: nat
  shows "(h0 + 2 ^ 44 * h1 + 2 ^ 88 * h2) * (r0 + 2 ^ 44 * r1 + 2 ^ 88 * r2) =
    (h0 * r0 + h1 * (r2 * 20) + h2 * (r1 * 20)) + 2 ^ 44 * (h0 * r1 + h1 * r0 + h2 * (r2 * 20)) + 2 ^ 88 * (h0 * r2 + h1 * r1 + h2 * r0) +
    p1305 * (4 * (h1 * r2 + h2 * r1) + 2 ^ 46 * (h2 * r2))"
  by (simp add: p1305_def algebra_simps)

lemma carry_limbs44:
  fixes d0 d1 d2 :: nat
  assumes "c0 = d0 div 2 ^ 44" "d1' = d1 + c0" "c1 = d1' div 2 ^ 44" "d2' = d2 + c1" "c2 = d2' div 2 ^ 42" "x = d0 mod 2 ^ 44 + c2 * 5"
  shows "(x mod 2 ^ 44 + 2 ^ 44 * (d1' mod 2 ^ 44 + x div 2 ^ 44) + 2 ^ 88 * (d2' mod 2 ^ 42)) + p1305 * c2 = d0 + 2 ^ 44 * d1 + 2 ^ 88 * d2"
proof -
  have "d0 = 2 ^ 44 * c0 + d0 mod 2 ^ 44" "d1' = 2 ^ 44 * c1 + d1' mod 2 ^ 44" "d2' = 2 ^ 42 * c2 + d2' mod 2 ^ 42"
    "x = 2 ^ 44 * (x div 2 ^ 44) + x mod 2 ^ 44"
    by (simp_all only: assms(1,3,5) mult_div_mod_eq)
  with assms(2,4,6) show ?thesis by (simp add: p1305_def)
qed

lemma unat_dot3:
  fixes a0 :: u128
  assumes "unat a0 * unat b0 + unat a1 * unat b1 + unat a2 * unat b2 < 2 ^ 128"
  shows "unat (a0 * b0 + a1 * b1 + a2 * b2) = unat a0 * unat b0 + unat a1 * unat b1 + unat a2 * unat b2"
proof -
  have "unat (a0 * b0 + a1 * b1 + a2 * b2) = (unat a0 * unat b0 + unat a1 * unat b1 + unat a2 * unat b2) mod 2 ^ 128"
    by (simp add: unat_word_ariths mod_simps)
  with assms show ?thesis by simp
qed

lemma unat_low_mask: "c = mask n \<Longrightarrow> unat (w AND c) = unat w mod 2 ^ n" for w c :: "'a::len word"
  by (simp only: unat_and_mask)

lemma masks44: "P1305_M44 = mask 44" "P1305_M42 = mask 42"
  by (simp_all add: P1305_M44_def P1305_M42_def mask_eq_exp_minus_1)

lemmas unat_masks44 = unat_low_mask [OF masks44(1)] unat_low_mask [OF masks44(2)]

lemma unat_narrow: "LENGTH('b) \<le> LENGTH('a) \<Longrightarrow> unat (ucast (w :: 'a::len word) :: 'b::len word) = unat w mod 2 ^ LENGTH('b)"
  by (simp only: unsigned_ucast_eq take_bit_eq_mod)

lemma poly1305_mul44_value:
  assumes "sum44 h" and "key44 r"
  shows "acc44 (poly1305_mul44 r h)" and "unat (snd (snd (poly1305_mul44 r h))) < 2 ^ 42"
    and "val44 (poly1305_mul44 r h) mod p1305 = val44 h * val44 r mod p1305"
proof -
  obtain h0 h1 h2 where h: "h = (h0, h1, h2)" by (metis prod_cases3)
  obtain r0 r1 r2 where r: "r = (r0, r1, r2)" by (metis prod_cases3)
  define H0 H1 H2 where Hs: "H0 = unat h0" "H1 = unat h1" "H2 = unat h2"
  define R0 R1 R2 where Rs: "R0 = unat r0" "R1 = unat r1" "R2 = unat r2"
  have Hb: "H0 \<le> 35184372088895" "H1 \<le> 35184372088895" "H2 \<le> 8796093284351"
    using assms(1) by (simp_all add: h sum44_def Hs)
  have Rb: "R0 \<le> 17592186044415" "R1 \<le> 17592186044415" "R2 \<le> 4398046511103"
    using assms(2) by (simp_all add: r key44_def Rs)
  have twenty: "unat (r1 * 20) = R1 * 20" "unat (r2 * 20) = R2 * 20"
    using Rb by (simp_all add: unat_mult_small Rs)
  note wide = unat_ucast_wide [where 'a = 64 and 'b = 128, simplified]
  define D0 where "D0 = H0 * R0 + H1 * (R2 * 20) + H2 * (R1 * 20)"
  define D1 where "D1 = H0 * R1 + H1 * R0 + H2 * (R2 * 20)"
  define D2 where "D2 = H0 * R2 + H1 * R1 + H2 * R0"
  note prods = product_bounds [OF Hb(1) Rb(1)] product_bounds [OF Hb(1) Rb(2)] product_bounds [OF Hb(1) Rb(3)]
    product_bounds [OF Hb(2) Rb(1)] product_bounds [OF Hb(2) Rb(2)] product_bounds [OF Hb(2) Rb(3)]
    product_bounds [OF Hb(3) Rb(1)] product_bounds [OF Hb(3) Rb(2)] product_bounds [OF Hb(3) Rb(3)]
  have Db: "D0 \<le> 2 ^ 94" "D1 \<le> 2 ^ 94" "D2 \<le> 3 * 2 ^ 88 + 2 ^ 63"
    unfolding D0_def D1_def D2_def using prods by simp_all
  define d0 where "d0 = (ucast h0 :: u128) * ucast r0 + ucast h1 * ucast (r2 * 20) + ucast h2 * ucast (r1 * 20)"
  define d1 where "d1 = (ucast h0 :: u128) * ucast r1 + ucast h1 * ucast r0 + ucast h2 * ucast (r2 * 20)"
  define d2 where "d2 = (ucast h0 :: u128) * ucast r2 + ucast h1 * ucast r1 + ucast h2 * ucast r0"
  have ds: "unat d0 = D0" "unat d1 = D1" "unat d2 = D2"
    unfolding d0_def d1_def d2_def D0_def D1_def D2_def
    by (subst unat_dot3; (simp only: wide twenty Hs Rs)?; (use Db in \<open>simp add: D0_def D1_def D2_def Hs Rs twenty\<close>)?)+
  define C0 D1' C1 D2' C2 X where Cs: "C0 = D0 div 2 ^ 44" "D1' = D1 + C0" "C1 = D1' div 2 ^ 44" "D2' = D2 + C1" "C2 = D2' div 2 ^ 42" "X = D0 mod 2 ^ 44 + C2 * 5"
  have C0: "C0 \<le> 2 ^ 50" using div_le_mono [OF Db(1), of "2 ^ 44"] by (simp add: Cs)
  then have D1': "D1' \<le> 2 ^ 94 + 2 ^ 50" using Db(2) by (simp add: Cs(2))
  have C1: "C1 \<le> 2 ^ 50 + 64" using div_le_mono [OF D1', of "2 ^ 44"] by (simp add: Cs(3))
  then have D2': "D2' \<le> 3 * 2 ^ 88 + 2 ^ 64" using Db(3) by (simp add: Cs(4))
  have C2: "C2 \<le> 3 * 2 ^ 46 + 2 ^ 23" using div_le_mono [OF D2', of "2 ^ 42"] by (simp add: Cs(5))
  have X: "X < 2 ^ 44 + 15 * 2 ^ 46 + 5 * 2 ^ 23" using C2 mod_less_divisor [of "2 ^ 44" D0] unfolding Cs(6) by simp
  have XC: "X div 2 ^ 44 < 64" using X by (simp add: less_mult_imp_div_less)
  define c0 where "c0 = (ucast (drop_bit 44 d0) :: 64 word)"
  define d1' where "d1' = d1 + ucast c0"
  define c1 where "c1 = (ucast (drop_bit 44 d1') :: 64 word)"
  define d2' where "d2' = d2 + ucast c1"
  define c2 where "c2 = (ucast (drop_bit 42 d2') :: 64 word)"
  define x where "x = (ucast d0 AND P1305_M44) + c2 * 5"
  have low: "unat (ucast (d :: u128) AND P1305_M44) = unat d mod 2 ^ 44" "unat (ucast d AND P1305_M42) = unat d mod 2 ^ 42" for d
    by (simp_all add: unat_masks44 unat_narrow mod_mod_cancel)
  have c0: "unat c0 = C0" using C0 ds unfolding c0_def by (simp add: unat_narrow unat_drop Cs(1))
  then have d1': "unat d1' = D1'" using D1' ds unfolding d1'_def by (subst unat_add_small) (simp_all add: wide Cs)
  have c1: "unat c1 = C1" using C1 d1' unfolding c1_def by (simp add: unat_narrow unat_drop Cs(3))
  then have d2': "unat d2' = D2'" using D2' ds unfolding d2'_def by (subst unat_add_small) (simp_all add: wide Cs)
  have c2: "unat c2 = C2" using C2 d2' unfolding c2_def by (simp add: unat_narrow unat_drop Cs(5))
  then have "unat (c2 * 5) = C2 * 5" using C2 by (subst unat_mult_small) simp_all
  then have x: "unat x = X" using X ds unfolding x_def by (subst unat_add_small) (simp_all add: low Cs(6))
  have mul: "poly1305_mul44 r h = (x AND P1305_M44, (ucast d1' AND P1305_M44) + drop_bit 44 x, ucast d2' AND P1305_M42)"
    unfolding poly1305_mul44_def h r prod.case
    by (simp only: Let_def d0_def [symmetric] d1_def [symmetric] d2_def [symmetric] c0_def [symmetric] d1'_def [symmetric] c1_def [symmetric]
        d2'_def [symmetric] c2_def [symmetric] x_def [symmetric])
  have h1: "unat ((ucast d1' AND P1305_M44) + drop_bit 44 x) = D1' mod 2 ^ 44 + X div 2 ^ 44"
    using XC mod_less_divisor [of "2 ^ 44" D1'] by (subst unat_add_small) (simp_all add: low d1' x unat_drop)
  have low0: "unat (x AND P1305_M44) = X mod 2 ^ 44" by (simp add: unat_masks44 x)
  show "unat (snd (snd (poly1305_mul44 r h))) < 2 ^ 42" by (simp add: mul low)
  have "D1' mod 2 ^ 44 < 2 ^ 44" "D2' mod 2 ^ 42 < 2 ^ 42" "X mod 2 ^ 44 < 2 ^ 44" by simp_all
  with XC have "X mod 2 ^ 44 < 2 ^ 44" "D1' mod 2 ^ 44 + X div 2 ^ 44 < 2 ^ 44 + 64" "D2' mod 2 ^ 42 < 2 ^ 42 + 2 ^ 18" by linarith+
  then show "acc44 (poly1305_mul44 r h)" by (simp only: mul acc44_def prod.case h1 low low0 d2')
  have "val44 (poly1305_mul44 r h) + p1305 * C2 = D0 + 2 ^ 44 * D1 + 2 ^ 88 * D2"
    using carry_limbs44 [OF Cs] by (simp only: mul val44_def prod.case h1 low low0 d2')
  moreover have "val44 h * val44 r = (D0 + 2 ^ 44 * D1 + 2 ^ 88 * D2) + p1305 * (4 * (H1 * R2 + H2 * R1) + 2 ^ 46 * (H2 * R2))"
    unfolding val44_def h r prod.case D0_def D1_def D2_def by (simp only: product_limbs44 Hs [symmetric] Rs [symmetric])
  ultimately show "val44 (poly1305_mul44 r h) mod p1305 = val44 h * val44 r mod p1305"
    by (metis mod_mult_self2)
qed

text \<open>Numbers put together with a shift and an \<open>or\<close>.\<close>

lemma unat_or_push:
  fixes a b :: "'a::len word"
  assumes "unat a < 2 ^ k" and "unat b * 2 ^ k < 2 ^ LENGTH('a)"
  shows "unat (a OR push_bit k b) = unat a + 2 ^ k * unat b"
proof -
  have "take_bit k (unat a) = unat a" using assms(1) by (simp add: take_bit_nat_eq_self)
  then have "take_bit k a = a" by (metis unsigned_take_bit_eq word_unat_eq_iff)
  then have "\<not> (bit a n \<and> k \<le> n)" for n by (metis bit_take_bit_iff not_less)
  then have "a AND push_bit k b = 0" by (intro bit_word_eqI) (simp add: bit_and_iff bit_push_bit_iff, blast)
  then show ?thesis using assms(2) by (simp add: unat_or_disjoint unat_push_bit)
qed

lemma push_bit_take: "push_bit k w = push_bit k (take_bit (LENGTH('a) - k) w)" for w :: "'a::len word"
  by (rule bit_word_eqI) (auto simp: bit_simps)

lemma unat_or_push_mod:
  fixes a b :: "'a::len word"
  assumes "unat a < 2 ^ k" and "k \<le> LENGTH('a)"
  shows "unat (a OR push_bit k b) = unat a + 2 ^ k * (unat b mod 2 ^ (LENGTH('a) - k))"
proof -
  let ?b = "take_bit (LENGTH('a) - k) b"
  have b: "unat ?b = unat b mod 2 ^ (LENGTH('a) - k)" by (simp only: unsigned_take_bit_eq) (simp only: take_bit_eq_mod)
  then have "unat ?b < 2 ^ (LENGTH('a) - k)" by simp
  then have "unat ?b * 2 ^ k < 2 ^ (LENGTH('a) - k) * 2 ^ k" by simp
  also have "\<dots> = 2 ^ LENGTH('a)" using assms(2) by (simp flip: power_add)
  finally have "unat (a OR push_bit k ?b) = unat a + 2 ^ k * unat ?b" using assms(1) by (intro unat_or_push)
  then show ?thesis using push_bit_take [of k b] b by simp
qed

text \<open>A number in two words of which the low one has 64 bits, as three limbs.\<close>

lemma limb_mod: "q < A \<Longrightarrow> (q + A * x) mod (A * B) = q + A * (x mod B)" for q A B x :: nat
  by (simp add: mod_mult2_eq)

lemma limb_split: "A * (m mod C) + A * C * (m div C) = A * m" for m A C :: nat
proof -
  have "A * x + A * C * y = A * (x + C * y)" for x y by (simp add: algebra_simps)
  then show ?thesis by (simp only: mod_mult_div_eq)
qed

lemma limb_sum: "l mod A + A * (l div A + B * (u mod C)) + A * B * C * (u div C) = l + A * B * u" for l u A B C :: nat
proof -
  have "x + A * (y + B * z) + A * B * C * w = (x + A * y) + (A * B * z + A * B * C * w)" for x y z w
    by (simp add: algebra_simps)
  then show ?thesis by (simp only: limb_split mod_mult_div_eq)
qed

lemma middle44:
  fixes lo u :: "64 word"
  shows "unat ((drop_bit 44 lo OR push_bit 20 u) AND P1305_M44) = unat lo div 2 ^ 44 + 2 ^ 20 * (unat u mod 2 ^ 24)"
proof -
  have "unat lo < 2 ^ LENGTH(64)" by (rule unsigned_less)
  then have lo: "unat lo div 2 ^ 44 < 2 ^ 20" by (simp add: less_mult_imp_div_less)
  then have "unat (drop_bit 44 lo OR push_bit 20 u) = unat lo div 2 ^ 44 + 2 ^ 20 * (unat u mod 2 ^ 44)"
    using unat_or_push_mod [of "drop_bit 44 lo" 20 u] by (simp add: unat_drop)
  then show ?thesis
    using limb_mod [OF lo, of "unat u mod 2 ^ 44" "2 ^ 24"] by (simp add: unat_masks44 mod_mod_cancel)
qed

lemma three_limbs:
  fixes lo :: "64 word" and up :: u128
  shows "unat (lo AND P1305_M44) + 2 ^ 44 * unat ((drop_bit 44 lo OR ucast (push_bit 20 up)) AND P1305_M44) + 2 ^ 88 * (unat up div 2 ^ 24) =
    unat lo + 2 ^ 64 * unat up"
proof -
  have "ucast (push_bit 20 up) = push_bit 20 (ucast up :: 64 word)"
    by (rule bit_word_eqI) (auto simp: bit_simps)
  then have "unat ((drop_bit 44 lo OR ucast (push_bit 20 up)) AND P1305_M44) = unat lo div 2 ^ 44 + 2 ^ 20 * (unat up mod 2 ^ 24)"
    using middle44 [of lo "ucast up"] by (simp add: unat_narrow mod_mod_cancel)
  then show ?thesis using limb_sum [of "unat lo" "2 ^ 44" "2 ^ 20" "unat up" "2 ^ 24"] by (simp add: unat_masks44)
qed

lemma low_word:
  fixes a b c :: u32
  assumes "unat a < 2 ^ 26" "unat b < 2 ^ 26"
  shows "unat ((ucast a :: 64 word) OR push_bit 26 (ucast b) OR push_bit 52 (ucast c)) = unat a + 2 ^ 26 * unat b + 2 ^ 52 * (unat c mod 2 ^ 12)"
proof -
  note wide = unat_ucast_wide [where 'a = 32 and 'b = 64, simplified]
  have ab: "unat ((ucast a :: 64 word) OR push_bit 26 (ucast b)) = unat a + 2 ^ 26 * unat b"
    using assms by (subst unat_or_push) (simp_all add: wide)
  then have lt: "unat ((ucast a :: 64 word) OR push_bit 26 (ucast b)) < 2 ^ 52" using assms by simp
  show ?thesis using unat_or_push_mod [OF lt, of "ucast c"] by (simp add: ab wide or.assoc)
qed

lemma poly1305_r44_value:
  assumes "key26 r"
  shows "key44 (poly1305_r44 r)" and "val44 (poly1305_r44 r) = key_val r"
proof -
  note wide = unat_ucast_wide [where 'a = 32 and 'b = 128, simplified]
  have R: "unat (r ! 0) < 2 ^ 26" "unat (r ! 1) < 2 ^ 26" "unat (r ! 2) < 2 ^ 26" "unat (r ! 3) < 2 ^ 26" "unat (r ! 4) < 2 ^ 20"
    using assms by (simp_all add: key26_def)
  define lo where "lo = (ucast (r ! 0) :: 64 word) OR push_bit 26 (ucast (r ! 1)) OR push_bit 52 (ucast (r ! 2))"
  define up where "up = (ucast (drop_bit 12 (r ! 2)) :: u128) OR push_bit 14 (ucast (r ! 3)) OR push_bit 40 (ucast (r ! 4))"
  have lo: "unat lo = unat (r ! 0) + 2 ^ 26 * unat (r ! 1) + 2 ^ 52 * (unat (r ! 2) mod 2 ^ 12)"
    unfolding lo_def using R by (intro low_word)
  have d2: "unat (r ! 2) div 2 ^ 12 < 2 ^ 14" using R(3) by (simp add: less_mult_imp_div_less)
  have ab: "unat ((ucast (drop_bit 12 (r ! 2)) :: u128) OR push_bit 14 (ucast (r ! 3))) = unat (r ! 2) div 2 ^ 12 + 2 ^ 14 * unat (r ! 3)"
    using R d2 by (subst unat_or_push) (simp_all add: wide unat_drop)
  then have up: "unat up = unat (r ! 2) div 2 ^ 12 + 2 ^ 14 * unat (r ! 3) + 2 ^ 40 * unat (r ! 4)"
    unfolding up_def or.assoc [symmetric] using R d2 by (subst unat_or_push) (simp_all add: wide)
  have u: "unat up < 2 ^ 60" using up R d2 by simp
  then have "unat up div 2 ^ 24 < 2 ^ 36" by (simp add: less_mult_imp_div_less)
  then have top: "unat ((ucast (drop_bit 24 up) :: 64 word) AND P1305_M42) = unat up div 2 ^ 24"
    by (simp add: unat_masks44 unat_narrow unat_drop)
  have r44: "poly1305_r44 r = (lo AND P1305_M44, (drop_bit 44 lo OR ucast (push_bit 20 up)) AND P1305_M44, ucast (drop_bit 24 up) AND P1305_M42)"
    by (simp only: poly1305_r44_def Let_def lo_def up_def)
  show "key44 (poly1305_r44 r)" by (simp add: r44 key44_def unat_masks44)
  have "val44 (poly1305_r44 r) = unat lo + 2 ^ 64 * unat up"
    unfolding r44 val44_def prod.case top by (rule three_limbs)
  moreover note limb_split [of "2 ^ 52" "unat (r ! 2)" "2 ^ 12"]
  ultimately show "val44 (poly1305_r44 r) = key_val r" unfolding lo up key_val_def val26_def by simp
qed

lemma poly1305_h44_value:
  assumes "acc26 (h ! 0, h ! 1, h ! 2, h ! 3, h ! 4)"
  shows "acc44 (poly1305_h44 h)" and "val44 (poly1305_h44 h) = val26 (h ! 0, h ! 1, h ! 2, h ! 3, h ! 4)"
proof -
  note wide = unat_ucast_wide [where 'a = 32 and 'b = 128, simplified]
  define H0 H1 H2 H3 H4 where Hs: "H0 = unat (h ! 0)" "H1 = unat (h ! 1)" "H2 = unat (h ! 2)" "H3 = unat (h ! 3)" "H4 = unat (h ! 4)"
  have Hb: "H0 < 2 ^ 26" "H1 < 2 ^ 26 + 64" "H2 < 2 ^ 26" "H3 < 2 ^ 26" "H4 < 2 ^ 26"
    using assms by (simp_all add: acc26_def Hs)
  define C1 X2 C2 X3 C3 X4 where Cs: "C1 = H1 div 2 ^ 26" "X2 = H2 + C1" "C2 = X2 div 2 ^ 26" "X3 = H3 + C2" "C3 = X3 div 2 ^ 26" "X4 = H4 + C3"
  have C1: "C1 \<le> 1" using div_le_mono [of H1 "2 ^ 26 + 63" "2 ^ 26"] Hb(2) by (simp add: Cs(1))
  then have X2: "X2 \<le> 2 ^ 26" using Hb(3) by (simp add: Cs(2))
  have C2: "C2 \<le> 1" using div_le_mono [OF X2, of "2 ^ 26"] by (simp add: Cs(3))
  then have X3: "X3 \<le> 2 ^ 26" using Hb(4) by (simp add: Cs(4))
  have C3: "C3 \<le> 1" using div_le_mono [OF X3, of "2 ^ 26"] by (simp add: Cs(5))
  then have X4: "X4 \<le> 2 ^ 26" using Hb(5) by (simp add: Cs(6))
  define x1 where "x1 = h ! 1 + drop_bit 26 (h ! 0)"
  define x2 where "x2 = h ! 2 + drop_bit 26 x1"
  define x3 where "x3 = h ! 3 + drop_bit 26 x2"
  define x4 where "x4 = h ! 4 + drop_bit 26 x3"
  have low: "unat (w AND P1305_MASK) = unat w mod 2 ^ 26" for w :: u32 by (simp add: P1305_MASK_def unat_low26)
  have z: "drop_bit 26 (h ! 0) = 0" using Hb(1) unat_drop [of 26 "h ! 0"] by (simp add: Hs word_unat_eq_iff)
  have x1: "unat x1 = H1" by (simp add: x1_def z Hs)
  have x2: "unat x2 = X2" using X2 x1 unfolding x2_def by (subst unat_add_small) (simp_all add: unat_drop Cs Hs)
  have x3: "unat x3 = X3" using X3 x2 unfolding x3_def by (subst unat_add_small) (simp_all add: unat_drop Cs(3,4) Hs)
  have x4: "unat x4 = X4" using X4 x3 unfolding x4_def by (subst unat_add_small) (simp_all add: unat_drop Cs(5,6) Hs)
  define g2 where "g2 = x2 AND P1305_MASK"
  define lo where "lo = (ucast (h ! 0 AND P1305_MASK) :: 64 word) OR push_bit 26 (ucast (x1 AND P1305_MASK)) OR push_bit 52 (ucast (g2 AND 0xfff))"
  define up where "up = (ucast (drop_bit 12 g2) :: u128) + push_bit 14 (ucast (x3 AND P1305_MASK)) + push_bit 40 (ucast x4)"
  have "(0xfff :: u32) = mask 12" by (simp add: mask_eq_exp_minus_1)
  then have twelve: "unat (g2 AND 0xfff) = unat g2 mod 2 ^ 12" by (simp only: unat_and_mask)
  have g2: "unat g2 = X2 mod 2 ^ 26" by (simp add: g2_def low x2)
  have lo: "unat lo = H0 + 2 ^ 26 * (H1 mod 2 ^ 26) + 2 ^ 52 * (unat g2 mod 2 ^ 12)"
    unfolding lo_def using Hb(1) by (subst low_word) (simp_all add: low x1 twelve Hs)
  have d2: "unat g2 div 2 ^ 12 < 2 ^ 14" using g2 by (simp add: less_mult_imp_div_less)
  have p3: "unat (push_bit 14 (ucast (x3 AND P1305_MASK) :: u128)) = 2 ^ 14 * (X3 mod 2 ^ 26)"
    using mod_less_divisor [of "2 ^ 26" X3] by (subst unat_push_bit) (simp_all add: wide low x3)
  have p4: "unat (push_bit 40 (ucast x4 :: u128)) = 2 ^ 40 * X4"
    using X4 by (subst unat_push_bit) (simp_all add: wide x4)
  have ab: "unat ((ucast (drop_bit 12 g2) :: u128) + push_bit 14 (ucast (x3 AND P1305_MASK))) = unat g2 div 2 ^ 12 + 2 ^ 14 * (X3 mod 2 ^ 26)"
    using d2 mod_less_divisor [of "2 ^ 26" X3] by (subst unat_add_small) (simp_all add: wide unat_drop p3)
  have up: "unat up = unat g2 div 2 ^ 12 + 2 ^ 14 * (X3 mod 2 ^ 26) + 2 ^ 40 * X4"
    unfolding up_def using d2 mod_less_divisor [of "2 ^ 26" X3] X4 by (subst unat_add_small) (simp_all add: ab p4)
  have X3m: "X3 mod 2 ^ 26 < 2 ^ 26" by simp
  then have ub: "unat up < 2 ^ 66 + 2 ^ 41" using up d2 X4 by simp
  then have top: "unat up div 2 ^ 24 < 2 ^ 42 + 2 ^ 18" by (simp add: less_mult_imp_div_less)
  then have hi: "unat (ucast (drop_bit 24 up) :: 64 word) = unat up div 2 ^ 24" by (simp add: unat_narrow unat_drop)
  have h44: "poly1305_h44 h = (lo AND P1305_M44, (drop_bit 44 lo OR ucast (push_bit 20 up)) AND P1305_M44, ucast (drop_bit 24 up))"
    by (simp only: poly1305_h44_def Let_def lo_def up_def x1_def x2_def x3_def x4_def g2_def)
  have "unat (lo AND P1305_M44) < 2 ^ 44" "unat ((drop_bit 44 lo OR ucast (push_bit 20 up)) AND P1305_M44) < 2 ^ 44"
    by (simp_all add: unat_masks44)
  with top show "acc44 (poly1305_h44 h)" by (simp add: h44 acc44_def hi)
  have "val44 (poly1305_h44 h) = unat lo + 2 ^ 64 * unat up"
    unfolding h44 val44_def prod.case hi by (rule three_limbs)
  moreover have "2 ^ 26 * (H1 mod 2 ^ 26) + 2 ^ 52 * C1 = 2 ^ 26 * H1" "2 ^ 52 * (X2 mod 2 ^ 26) + 2 ^ 78 * C2 = 2 ^ 52 * X2"
    "2 ^ 78 * (X3 mod 2 ^ 26) + 2 ^ 104 * C3 = 2 ^ 78 * X3" "2 ^ 52 * (unat g2 mod 2 ^ 12) + 2 ^ 64 * (unat g2 div 2 ^ 12) = 2 ^ 52 * (X2 mod 2 ^ 26)"
    using limb_split [of "2 ^ 26" H1 "2 ^ 26"] limb_split [of "2 ^ 52" X2 "2 ^ 26"] limb_split [of "2 ^ 78" X3 "2 ^ 26"]
      limb_split [of "2 ^ 52" "unat g2" "2 ^ 12"] by (simp_all add: Cs(1,3,5) g2)
  moreover have "val26 (h ! 0, h ! 1, h ! 2, h ! 3, h ! 4) = H0 + 2 ^ 26 * H1 + 2 ^ 52 * H2 + 2 ^ 78 * H3 + 2 ^ 104 * H4"
    by (simp only: val26_def prod.case Hs)
  ultimately show "val44 (poly1305_h44 h) = val26 (h ! 0, h ! 1, h ! 2, h ! 3, h ! 4)"
    using Cs(2,4,6) lo up by simp
qed

text \<open>A block added to the accumulator.\<close>

lemma unat_pair: "unat ((ucast a :: 64 word) OR push_bit 32 (ucast b)) = unat a + 2 ^ 32 * unat b" for a b :: u32
proof -
  note wide = unat_ucast_wide [where 'a = 32 and 'b = 64, simplified]
  have "unat a < 2 ^ LENGTH(32)" "unat b < 2 ^ LENGTH(32)" by (rule unsigned_less)+
  then show ?thesis by (subst unat_or_push) (simp_all add: wide)
qed

lemma poly1305_add44_value:
  assumes "acc44 h" and "16 \<le> length m"
  shows "\<exists>h'. poly1305_add44 (push_bit 40 1) h m = Some h' \<and> sum44 h' \<and> val44 h' = val44 h + le_num (take 16 m) + 2 ^ 128"
proof -
  obtain h0 h1 h2 where h: "h = (h0, h1, h2)" by (metis prod_cases3)
  define w0 where "w0 = (le_word (take 4 m) :: u32)"
  define w1 where "w1 = (le_word (take 4 (drop 4 m)) :: u32)"
  define w2 where "w2 = (le_word (take 4 (drop 8 m)) :: u32)"
  define w3 where "w3 = (le_word (take 4 (drop 12 m)) :: u32)"
  define t0 where "t0 = (ucast w0 :: 64 word) OR push_bit 32 (ucast w1)"
  define t1 where "t1 = (ucast w2 :: 64 word) OR push_bit 32 (ucast w3)"
  define a0 where "a0 = t0 AND P1305_M44"
  define a1 where "a1 = (drop_bit 44 t0 OR push_bit 20 t1) AND P1305_M44"
  define a2 where "a2 = (drop_bit 24 t1 AND P1305_M42) OR push_bit 40 1"
  have add: "poly1305_add44 (push_bit 40 1) h m = Some (h0 + a0, h1 + a1, h2 + a2)"
    using assms(2) by (simp add: poly1305_add44_def h crypto_load32_le_word a0_def a1_def a2_def t0_def t1_def w0_def w1_def w2_def w3_def)
  have "unat t1 < 2 ^ LENGTH(64)" by (rule unsigned_less)
  then have t1: "unat t1 div 2 ^ 24 < 2 ^ 40" by (simp add: less_mult_imp_div_less)
  then have d1: "unat (drop_bit 24 t1 AND P1305_M42) = unat t1 div 2 ^ 24" by (simp add: unat_masks44 unat_drop)
  with t1 have a2: "unat a2 = unat t1 div 2 ^ 24 + 2 ^ 40"
    unfolding a2_def by (subst unat_or_push) simp_all
  have a0: "unat a0 = unat t0 mod 2 ^ 44" by (simp add: a0_def unat_masks44)
  have a1: "unat a1 = unat t0 div 2 ^ 44 + 2 ^ 20 * (unat t1 mod 2 ^ 24)" unfolding a1_def by (rule middle44)
  have less: "unat a0 < 2 ^ 44" "unat a1 < 2 ^ 44" by (simp_all add: a0_def a1_def unat_masks44)
  have sums: "unat (h0 + a0) = unat h0 + unat a0" "unat (h1 + a1) = unat h1 + unat a1" "unat (h2 + a2) = unat h2 + unat a2"
    using assms(1) less t1 by (simp_all add: acc44_def h unat_add_small a2)
  have "sum44 (h0 + a0, h1 + a1, h2 + a2)"
    using assms(1) less t1 by (simp add: sum44_def acc44_def h sums a2)
  moreover have "val44 (h0 + a0, h1 + a1, h2 + a2) = val44 h + le_num (take 16 m) + 2 ^ 128"
  proof -
    have "unat t0 mod 2 ^ 44 + 2 ^ 44 * (unat t0 div 2 ^ 44 + 2 ^ 20 * (unat t1 mod 2 ^ 24)) + 2 ^ 88 * (unat t1 div 2 ^ 24) =
        unat t0 + 2 ^ 64 * unat t1"
      using limb_sum [of "unat t0" "2 ^ 44" "2 ^ 20" "unat t1" "2 ^ 24"] by simp
    moreover have "unat t0 + 2 ^ 64 * unat t1 = le_num (take 16 m)"
      unfolding le_num_16 [OF assms(2)] t0_def t1_def unat_pair w0_def w1_def w2_def w3_def by simp
    ultimately show ?thesis unfolding val44_def h prod.case sums a0 a1 a2 by simp
  qed
  ultimately show ?thesis using add by blast
qed

lemma blocks_44_loop_value:
  assumes "key44 r" and "16 * n \<le> length m" and "acc44 h"
  shows "\<exists>h'. blocks_44_loop r (push_bit 40 1) h m (16 * n) = Some h' \<and> acc44 h' \<and> (0 < n \<longrightarrow> unat (snd (snd h')) < 2 ^ 42) \<and>
    val44 h' mod p1305 = fst (absorb 16 (rfc_step (val44 r)) (val44 h mod p1305) (take (16 * n) m))"
  using assms(2,3)
proof (induction n arbitrary: h m)
  case 0
  then show ?case by (subst blocks_44_loop.simps) (simp add: absorb_short)
next
  case (Suc n)
  then have len: "16 \<le> length m" by simp
  from poly1305_add44_value [OF Suc.prems(2) len] obtain h' where
    h': "poly1305_add44 (push_bit 40 1) h m = Some h'" "sum44 h'" "val44 h' = val44 h + le_num (take 16 m) + 2 ^ 128" by auto
  note mul = poly1305_mul44_value [OF h'(2) assms(1)]
  have "val44 (poly1305_mul44 r h') mod p1305 = rfc_step (val44 r) (val44 h mod p1305) (take 16 m)"
    using len by (simp add: mul(3) rfc_step_mod h'(3))
  moreover from Suc.prems have "16 * n \<le> length (drop 16 m)" by simp
  note Suc.IH [OF this mul(1)]
  moreover have "absorb 16 (rfc_step (val44 r)) (val44 h mod p1305) (take (16 * Suc n) m) =
      absorb 16 (rfc_step (val44 r)) (rfc_step (val44 r) (val44 h mod p1305) (take 16 m)) (take (16 * n) (drop 16 m))"
    using Suc.prems by (subst absorb_step) (simp_all add: take_drop add.commute)
  moreover have "n = 0 \<Longrightarrow> blocks_44_loop r (push_bit 40 1) (poly1305_mul44 r h') (drop 16 m) (16 * n) = Some (poly1305_mul44 r h')"
    by (subst blocks_44_loop.simps) simp
  ultimately show ?case using h'(1) mul(2) by (subst blocks_44_loop.simps) (cases "n = 0"; auto)
qed

text \<open>
  The limbs of 44 bits cut back into limbs of 26 bits: the number is kept, unless the second limb has a
  carry in its bit 44 and the third limb is odd. Then the carry falls onto the lowest bit of the third.
\<close>

definition carry_lost :: "limbs44 \<Rightarrow> bool" where
  "carry_lost = (\<lambda>(h0, h1, h2). 2 ^ 44 \<le> unat h1 \<and> odd (unat h2))"

lemma unat_take_mask26: "unat (ucast (w AND ucast P1305_MASK) :: u32) = unat w mod 2 ^ 26" for w :: "64 word"
proof -
  have "(ucast P1305_MASK :: 64 word) = mask 26" by (simp add: P1305_MASK_def mask_eq_exp_minus_1)
  then have "unat (w AND ucast P1305_MASK) = unat w mod 2 ^ 26" by (rule unat_low_mask)
  moreover have "unat w mod 2 ^ 26 < 2 ^ 26" by simp
  ultimately show ?thesis by (simp add: unat_narrow)
qed

lemma unat_or_one: "unat (w OR 1) = (if odd (unat w) then unat w else unat w + 1)" for w :: "64 word"
proof -
  have "unat (w OR 1) = unat w OR 1" by (simp only: unsigned_or_eq unsigned_1)
  then show ?thesis by (simp only: or_one_eq) simp
qed

lemma h26_third:
  fixes h1 h2 :: "64 word"
  assumes "unat h1 < 2 ^ 44 + 64"
  shows "unat ((drop_bit 34 h1 OR push_bit 10 h2) :: 64 word) mod 2 ^ 26 =
    (if unat h1 < 2 ^ 44 then unat h1 div 2 ^ 34 + 2 ^ 10 * (unat h2 mod 2 ^ 16) else 2 ^ 10 * (unat (h2 OR 1) mod 2 ^ 16))"
proof (cases "unat h1 < 2 ^ 44")
  case True
  then have lt: "unat h1 div 2 ^ 34 < 2 ^ 10" by (simp add: less_mult_imp_div_less)
  then have "unat ((drop_bit 34 h1 OR push_bit 10 h2) :: 64 word) = unat h1 div 2 ^ 34 + 2 ^ 10 * (unat h2 mod 2 ^ 54)"
    using unat_or_push_mod [of "drop_bit 34 h1" 10 h2] by (simp add: unat_drop)
  then show ?thesis using True limb_mod [OF lt, of "unat h2 mod 2 ^ 54" "2 ^ 16"] by (simp add: mod_mod_cancel)
next
  case False
  then have "unat h1 div 2 ^ 34 = 2 ^ 10" using assms by (intro div_nat_eqI) simp_all
  then have "drop_bit 34 h1 = push_bit 10 1" by (simp add: word_unat_eq_iff unat_drop)
  then have "(drop_bit 34 h1 OR push_bit 10 h2) = push_bit 10 (h2 OR 1)" by (simp only: push_bit_or or.commute)
  then have "unat ((drop_bit 34 h1 OR push_bit 10 h2) :: 64 word) = 2 ^ 10 * (unat (h2 OR 1) mod 2 ^ 54)"
    using unat_or_push_mod [of "0 :: 64 word" 10 "h2 OR 1"] by simp
  then show ?thesis using False limb_mod [of 0 "2 ^ 10" "unat (h2 OR 1) mod 2 ^ 54" "2 ^ 16"] by (simp add: mod_mod_cancel)
qed

lemma h26_sum:
  fixes a b c d e f g k :: nat
  assumes "a + 2 ^ 26 * b = h0" "2 ^ 44 * c + 2 ^ 52 * d = 2 ^ 44 * h1" "2 ^ 52 * e + 2 ^ 78 * f = 2 ^ 52 * d"
    "2 ^ 88 * g + 2 ^ 104 * k = 2 ^ 88 * h2"
  shows "a + 2 ^ 26 * (b + 2 ^ 18 * c) + 2 ^ 52 * e + 2 ^ 78 * (f + 2 ^ 10 * g) + 2 ^ 104 * k = h0 + 2 ^ 44 * h1 + 2 ^ 88 * h2"
  using assms by simp

lemma poly1305_h26_value:
  assumes "acc44 h" and "unat (snd (snd h)) < 2 ^ 42"
  defines "e \<equiv> poly1305_h26 h"
  shows "acc26 (e ! 0, e ! 1, e ! 2, e ! 3, e ! 4)"
    and "val26 (e ! 0, e ! 1, e ! 2, e ! 3, e ! 4) + (if carry_lost h then 2 ^ 88 else 0) = val44 h"
proof -
  obtain h0 h1 h2 where h: "h = (h0, h1, h2)" by (metis prod_cases3)
  define H0 H1 H2 where Hs: "H0 = unat h0" "H1 = unat h1" "H2 = unat h2"
  have b: "H0 < 2 ^ 44" "H1 < 2 ^ 44 + 64" "H2 < 2 ^ 42" using assms(1,2) by (simp_all add: acc44_def h Hs)
  have e0: "unat (e ! 0) = H0 mod 2 ^ 26" by (simp add: e_def poly1305_h26_def h unat_take_mask26 Hs)
  have l: "H0 div 2 ^ 26 < 2 ^ 18" using b(1) by (simp add: less_mult_imp_div_less)
  then have "unat (drop_bit 26 h0 OR push_bit 18 h1) = H0 div 2 ^ 26 + 2 ^ 18 * (H1 mod 2 ^ 46)"
    using unat_or_push_mod [of "drop_bit 26 h0" 18 h1] by (simp add: unat_drop Hs)
  then have e1: "unat (e ! 1) = H0 div 2 ^ 26 + 2 ^ 18 * (H1 mod 2 ^ 8)"
    using limb_mod [OF l, of "H1 mod 2 ^ 46" "2 ^ 8"] by (simp add: e_def poly1305_h26_def h unat_take_mask26 mod_mod_cancel)
  have e2: "unat (e ! 2) = H1 div 2 ^ 8 mod 2 ^ 26" by (simp add: e_def poly1305_h26_def h unat_take_mask26 unat_drop Hs)
  have e3: "unat (e ! 3) = (if H1 < 2 ^ 44 then H1 div 2 ^ 34 + 2 ^ 10 * (H2 mod 2 ^ 16) else 2 ^ 10 * (unat (h2 OR 1) mod 2 ^ 16))"
    using h26_third [of h1 h2] b(2) by (simp add: e_def poly1305_h26_def h unat_take_mask26 Hs)
  have t: "H2 div 2 ^ 16 < 2 ^ 26" using b(3) by (simp add: less_mult_imp_div_less)
  then have e4: "unat (e ! 4) = H2 div 2 ^ 16"
    by (simp add: e_def poly1305_h26_def h unat_narrow unat_drop Hs)
  have three: "unat (e ! 3) < 2 ^ 26"
    by (simp add: e_def poly1305_h26_def h unat_take_mask26)
  have one: "unat (e ! 1) < 2 ^ 26" by (simp add: e_def poly1305_h26_def h unat_take_mask26)
  show "acc26 (e ! 0, e ! 1, e ! 2, e ! 3, e ! 4)"
    using t three one by (simp add: acc26_def e0 e2 e4)
  have lows: "H0 mod 2 ^ 26 + 2 ^ 26 * (H0 div 2 ^ 26) = H0"
    "2 ^ 44 * (H1 mod 2 ^ 8) + 2 ^ 52 * (H1 div 2 ^ 8) = 2 ^ 44 * H1"
    using limb_split [of 1 H0 "2 ^ 26"] limb_split [of "2 ^ 44" H1 "2 ^ 8"] by simp_all
  have mid: "2 ^ 52 * (H1 div 2 ^ 8 mod 2 ^ 26) + 2 ^ 78 * (H1 div 2 ^ 34) = 2 ^ 52 * (H1 div 2 ^ 8)"
    using limb_split [of "2 ^ 52" "H1 div 2 ^ 8" "2 ^ 26"] by (simp add: div_mult2_eq [symmetric])
  have high: "2 ^ 88 * (H2 mod 2 ^ 16) + 2 ^ 104 * (H2 div 2 ^ 16) = 2 ^ 88 * H2"
    using limb_split [of "2 ^ 88" H2 "2 ^ 16"] by simp
  note sum = h26_sum [OF lows mid high]
  show "val26 (e ! 0, e ! 1, e ! 2, e ! 3, e ! 4) + (if carry_lost h then 2 ^ 88 else 0) = val44 h"
  proof (cases "H1 < 2 ^ 44")
    case True
    then have "\<not> carry_lost h" by (simp add: carry_lost_def h Hs)
    moreover have "unat (e ! 3) = H1 div 2 ^ 34 + 2 ^ 10 * (H2 mod 2 ^ 16)" unfolding e3 using True by (rule if_P)
    ultimately show ?thesis
      unfolding val26_def val44_def h prod.case e0 e1 e2 e4 Hs [symmetric] using sum by (simp only: if_False add_0_right)
  next
    case False
    then have h1: "H1 div 2 ^ 34 = 2 ^ 10" using b(2) by (intro div_nat_eqI) simp_all
    have or1: "unat (h2 OR 1) mod 2 ^ 16 = (if odd H2 then H2 mod 2 ^ 16 else H2 mod 2 ^ 16 + 1)"
    proof (cases "odd H2")
      case False
      then have "even (H2 mod 2 ^ 16)" by (simp add: dvd_mod_iff)
      moreover have "H2 mod 2 ^ 16 < 2 ^ 16" by simp
      moreover have "x + 1 < 2 ^ 16" if "even x" "x < 2 ^ 16" for x :: nat using that by (elim evenE) simp
      ultimately have "H2 mod 2 ^ 16 + 1 < 2 ^ 16" by blast
      then have "(H2 + 1) mod 2 ^ 16 = H2 mod 2 ^ 16 + 1" by (simp add: mod_Suc)
      with False show ?thesis by (simp add: unat_or_one Hs)
    qed (simp add: unat_or_one Hs)
    have e3': "unat (e ! 3) + (if carry_lost h then 2 ^ 10 else 0) = 2 ^ 10 + 2 ^ 10 * (H2 mod 2 ^ 16)"
    proof -
      have "unat (e ! 3) = 2 ^ 10 * (unat (h2 OR 1) mod 2 ^ 16)" unfolding e3 using False by (rule if_not_P)
      moreover have "carry_lost h \<longleftrightarrow> odd H2" using False by (simp add: carry_lost_def h Hs)
      ultimately show ?thesis unfolding or1 by (cases "odd H2") (simp_all only: if_True if_False, simp_all)
    qed
    have "a + b + c + 2 ^ 78 * x + d + (if P then 2 ^ 88 else 0) = a + b + c + 2 ^ 78 * (x + (if P then 2 ^ 10 else 0)) + d"
      for a b c d x :: nat and P by simp
    then show ?thesis
      unfolding val26_def val44_def h prod.case e0 e1 e2 e4 Hs [symmetric] using sum [unfolded h1]
      by (simp only: e3' [unfolded h])
  qed
qed

text \<open>
  C40. In limbs of 44 bits \<open>poly1305_blocks\<close> adds the whole blocks of a message to the accumulator as RFC 8439
  says, modulo \<open>2 ^ 130 - 5\<close>, with one exception: when at the end the second limb carries into its bit
  44 and the third limb is odd, cutting the limbs back into 26 bits merges that carry with the lowest bit
  of the third limb, and the accumulator is \<open>2 ^ 88\<close> too small (\<open>poly1305_wide_loses_carry\<close> is a message
  whose tag is wrong for that reason).
\<close>

theorem poly1305_wide_blocks:
  assumes "key26 (p_r ctx)" "acc26 (ctx_limbs ctx)" "p_final ctx = 0" "0 < n" "16 * n \<le> length m"
  shows "\<exists>h. blocks_44_loop (poly1305_r44 (p_r ctx)) (push_bit 40 1) (poly1305_h44 (p_h ctx)) m (16 * n) = Some h \<and>
    (let ctx' = ctx\<lparr>p_h := poly1305_h26 h\<rparr>
     in poly1305_blocks True ctx m (16 * n) = Some ctx' \<and> acc26 (ctx_limbs ctx') \<and>
       (val26 (ctx_limbs ctx') + (if carry_lost h then 2 ^ 88 else 0)) mod p1305 =
         fst (absorb 16 (rfc_step (key_val (p_r ctx))) (poly1305_chain ctx) (take (16 * n) m)))"
proof -
  note r = poly1305_r44_value [OF assms(1)]
  note h = poly1305_h44_value [OF assms(2) [unfolded ctx_limbs_def]]
  from blocks_44_loop_value [OF r(1) assms(5) h(1)] assms(4) obtain h' where h':
    "blocks_44_loop (poly1305_r44 (p_r ctx)) (push_bit 40 1) (poly1305_h44 (p_h ctx)) m (16 * n) = Some h'" "acc44 h'"
    "unat (snd (snd h')) < 2 ^ 42"
    "val44 h' mod p1305 = fst (absorb 16 (rfc_step (key_val (p_r ctx))) (val26 (ctx_limbs ctx) mod p1305) (take (16 * n) m))"
    by (auto simp: r(2) h(2) ctx_limbs_def)
  note e = poly1305_h26_value [OF h'(2,3)]
  have "poly1305_blocks True ctx m (16 * n) = Some (ctx\<lparr>p_h := poly1305_h26 h'\<rparr>)"
    by (simp only: poly1305_blocks_def poly1305_blocks_44_def assms(3) simp_thms if_True if_False Let_def h'(1) bind.bind_lunit)
  moreover have limbs: "ctx_limbs (ctx\<lparr>p_h := poly1305_h26 h'\<rparr>) =
      (poly1305_h26 h' ! 0, poly1305_h26 h' ! 1, poly1305_h26 h' ! 2, poly1305_h26 h' ! 3, poly1305_h26 h' ! 4)"
    by (simp add: ctx_limbs_def)
  have "acc26 (ctx_limbs (ctx\<lparr>p_h := poly1305_h26 h'\<rparr>))" unfolding limbs by (rule e(1))
  moreover have "(val26 (ctx_limbs (ctx\<lparr>p_h := poly1305_h26 h'\<rparr>)) + (if carry_lost h' then 2 ^ 88 else 0)) mod p1305 =
      fst (absorb 16 (rfc_step (key_val (p_r ctx))) (poly1305_chain ctx) (take (16 * n) m))"
    unfolding limbs e(2) h'(4) poly1305_chain_def ..
  ultimately show ?thesis unfolding Let_def using h'(1) by blast
qed

text \<open>The witness: the message of \<open>poly1305_wide_loses_carry\<close> in a fresh context, whose carry is lost.\<close>

lemma carry_lost_message:
  "blocks_44_loop (poly1305_r44 [4, 0, 0, 0, 0]) (push_bit 40 1) (poly1305_h44 [0, 0, 0, 0, 0])
     (replicate 11 0xff @ replicate 5 0) 16 = Some (1, 2 ^ 44, 3)"
  by code_simp

theorem poly1305_wide_blocks_witness:
  "let ctx = \<lparr>p_r = [4, 0, 0, 0, 0], p_h = [0, 0, 0, 0, 0], p_pad = replicate 4 0, p_leftover = 0,
      p_buffer = replicate 16 0, p_final = 0\<rparr>; m = replicate 11 0xff @ replicate 5 0
   in \<exists>ctx'. poly1305_blocks True ctx m 16 = Some ctx' \<and>
     (val26 (ctx_limbs ctx') + 2 ^ 88) mod p1305 = fst (absorb 16 (rfc_step (key_val (p_r ctx))) (poly1305_chain ctx) m)"
proof -
  define ctx where "ctx = \<lparr>p_r = [4, 0, 0, 0, 0], p_h = [0, 0, 0, 0, 0 :: u32], p_pad = replicate 4 (0 :: u32), p_leftover = 0,
    p_buffer = replicate 16 (0 :: byte), p_final = (0 :: byte)\<rparr>"
  define m where "m = replicate 11 0xff @ replicate 5 (0 :: byte)"
  have "key26 (p_r ctx)" "acc26 (ctx_limbs ctx)" "p_final ctx = 0" "(0 :: nat) < 1" "16 * 1 \<le> length m"
    by (simp_all add: ctx_def m_def key26_def acc26_def ctx_limbs_def)
  from poly1305_wide_blocks [OF this] obtain h where h:
    "blocks_44_loop (poly1305_r44 (p_r ctx)) (push_bit 40 1) (poly1305_h44 (p_h ctx)) m (16 * 1) = Some h"
    "poly1305_blocks True ctx m (16 * 1) = Some (ctx\<lparr>p_h := poly1305_h26 h\<rparr>)"
    "(val26 (ctx_limbs (ctx\<lparr>p_h := poly1305_h26 h\<rparr>)) + (if carry_lost h then 2 ^ 88 else 0)) mod p1305 =
      fst (absorb 16 (rfc_step (key_val (p_r ctx))) (poly1305_chain ctx) (take (16 * 1) m))"
    unfolding Let_def by blast
  have "h = (1, 2 ^ 44, 3)" using h(1) carry_lost_message by (simp add: ctx_def m_def)
  then have "carry_lost h" by (simp add: carry_lost_def)
  with h(2,3) have "\<exists>ctx'. poly1305_blocks True ctx m 16 = Some ctx' \<and>
     (val26 (ctx_limbs ctx') + 2 ^ 88) mod p1305 = fst (absorb 16 (rfc_step (key_val (p_r ctx))) (poly1305_chain ctx) m)"
    by (auto simp: m_def)
  then show ?thesis unfolding Let_def ctx_def m_def .
qed

end
