(* ===== verification/ChaCha.thy ===== *)
theory ChaCha
  imports CryptoBase
begin

text \<open>
  ChaCha20 of \<open>crypto/crypto.c\<close>: the block function, the stream cipher by whole words and by bytes, and
  the four blocks at a time of the SSSE3 and the NEON units. The reference is the block function of
  RFC 8439 read as a function on sixteen words; every unit gives the key stream of consecutive counters.
\<close>

section \<open>The block function\<close>

text \<open>The macro \<open>QR\<close> on four of the sixteen words.\<close>

definition QR :: "nat \<Rightarrow> nat \<Rightarrow> nat \<Rightarrow> nat \<Rightarrow> u32 list \<Rightarrow> u32 list" where
  "QR a b c d x =
     (let x = x[a := x ! a + x ! b]; x = x[d := x ! d XOR x ! a]; x = x[d := crypto_rotl32 (x ! d) 16];
          x = x[c := x ! c + x ! d]; x = x[b := x ! b XOR x ! c]; x = x[b := crypto_rotl32 (x ! b) 12];
          x = x[a := x ! a + x ! b]; x = x[d := x ! d XOR x ! a]; x = x[d := crypto_rotl32 (x ! d) 8];
          x = x[c := x ! c + x ! d]; x = x[b := x ! b XOR x ! c]
      in x[b := crypto_rotl32 (x ! b) 7])"

definition chacha20_double_round :: "u32 list \<Rightarrow> u32 list" where
  "chacha20_double_round x =
     (let x = QR 0 4 8 12 x; x = QR 1 5 9 13 x; x = QR 2 6 10 14 x; x = QR 3 7 11 15 x;
          x = QR 0 5 10 15 x; x = QR 1 6 11 12 x; x = QR 2 7 8 13 x
      in QR 3 4 9 14 x)"

text \<open>The words of the key, and the state set up from key, counter and nonce.\<close>

fun load_le_words :: "byte list \<Rightarrow> nat \<Rightarrow> nat \<Rightarrow> u32 list option" where
  "load_le_words m p 0 = Some []"
| "load_le_words m p (Suc n) = do {
     w \<leftarrow> crypto_load32_le m p;
     ws \<leftarrow> load_le_words m (p + 4) n;
     Some (w # ws) }"

definition chacha20_state :: "byte list \<Rightarrow> byte list \<Rightarrow> u32 \<Rightarrow> u32 list option" where
  "chacha20_state key nonce counter = do {
     ks \<leftarrow> load_le_words key 0 8;
     n0 \<leftarrow> crypto_load32_le nonce 0;
     n1 \<leftarrow> crypto_load32_le nonce 4;
     n2 \<leftarrow> crypto_load32_le nonce 8;
     Some ([0x61707865, 0x3320646e, 0x79622d32, 0x6b206574] @ ks @ [counter, n0, n1, n2]) }"

definition chacha20_core :: "byte list \<Rightarrow> byte list \<Rightarrow> u32 \<Rightarrow> u32 list option" where
  "chacha20_core key nonce counter = do {
     s \<leftarrow> chacha20_state key nonce counter;
     let x = (chacha20_double_round ^^ 10) s;
     Some (map2 (+) x s) }"

fun store_words :: "byte list \<Rightarrow> nat \<Rightarrow> u32 list \<Rightarrow> byte list option" where
  "store_words m p [] = Some m"
| "store_words m p (w # ws) = do {
     m \<leftarrow> crypto_store32_le m p w;
     store_words m (p + 4) ws }"

definition chacha20_block :: "byte list \<Rightarrow> byte list \<Rightarrow> u32 \<Rightarrow> byte list \<Rightarrow> byte list option" where
  "chacha20_block key nonce counter out = do {
     w \<leftarrow> chacha20_core key nonce counter;
     store_words out 0 w }"

section \<open>Four blocks in SSSE3 registers\<close>

definition chacha_r16 :: m128 where
  "chacha_r16 = mm_set_epi8 [13,12,15,14, 9,8,11,10, 5,4,7,6, 1,0,3,2]"

definition chacha_r8 :: m128 where
  "chacha_r8 = mm_set_epi8 [14,13,12,15, 10,9,8,11, 6,5,4,7, 2,1,0,3]"

definition CHACHA_ROTL :: "m128 \<Rightarrow> nat \<Rightarrow> m128" where
  "CHACHA_ROTL v n = mm_slli_epi32 v n OR mm_srli_epi32 v (32 - n)"

definition CHACHA_QR4 :: "nat \<Rightarrow> nat \<Rightarrow> nat \<Rightarrow> nat \<Rightarrow> m128 list \<Rightarrow> m128 list" where
  "CHACHA_QR4 a b c d x =
     (let x = x[a := mm_add_epi32 (x ! a) (x ! b)]; x = x[d := mm_shuffle_epi8 (x ! d XOR x ! a) chacha_r16];
          x = x[c := mm_add_epi32 (x ! c) (x ! d)]; x = x[b := CHACHA_ROTL (x ! b XOR x ! c) 12];
          x = x[a := mm_add_epi32 (x ! a) (x ! b)]; x = x[d := mm_shuffle_epi8 (x ! d XOR x ! a) chacha_r8];
          x = x[c := mm_add_epi32 (x ! c) (x ! d)]
      in x[b := CHACHA_ROTL (x ! b XOR x ! c) 7])"

definition chacha20_x86_round :: "m128 list \<Rightarrow> m128 list" where
  "chacha20_x86_round x =
     (let x = CHACHA_QR4 0 4 8 12 x; x = CHACHA_QR4 1 5 9 13 x; x = CHACHA_QR4 2 6 10 14 x; x = CHACHA_QR4 3 7 11 15 x;
          x = CHACHA_QR4 0 5 10 15 x; x = CHACHA_QR4 1 6 11 12 x; x = CHACHA_QR4 2 7 8 13 x
      in CHACHA_QR4 3 4 9 14 x)"

text \<open>The source added to a vector of the key stream, at one place of the output.\<close>

definition xor_vector :: "byte list \<Rightarrow> nat \<Rightarrow> nat \<Rightarrow> m128 \<Rightarrow> byte list option" where
  "xor_vector m ip op v = do {
     i \<leftarrow> mm_loadu m ip;
     mm_storeu m op (v XOR i) }"

definition chacha20_x86_group :: "m128 list \<Rightarrow> nat \<Rightarrow> nat \<Rightarrow> nat \<Rightarrow> byte list \<Rightarrow> byte list option" where
  "chacha20_x86_group x inp out g m = do {
     let t0 = mm_unpacklo_epi32 (x ! (4 * g)) (x ! (4 * g + 1));
     let t1 = mm_unpacklo_epi32 (x ! (4 * g + 2)) (x ! (4 * g + 3));
     let t2 = mm_unpackhi_epi32 (x ! (4 * g)) (x ! (4 * g + 1));
     let t3 = mm_unpackhi_epi32 (x ! (4 * g + 2)) (x ! (4 * g + 3));
     let ip = inp + 16 * g;
     let op = out + 16 * g;
     m \<leftarrow> xor_vector m ip op (mm_unpacklo_epi64 t0 t1);
     m \<leftarrow> xor_vector m (ip + 64) (op + 64) (mm_unpackhi_epi64 t0 t1);
     m \<leftarrow> xor_vector m (ip + 128) (op + 128) (mm_unpacklo_epi64 t2 t3);
     xor_vector m (ip + 192) (op + 192) (mm_unpackhi_epi64 t2 t3) }"

definition chacha20_x86_four :: "u32 list \<Rightarrow> u32 \<Rightarrow> m128 list" where
  "chacha20_x86_four s counter =
     (let o4 = (map mm_set1_epi32 s)[12 := mm_add_epi32 (mm_set1_epi32 counter) (mm_set_epi32 3 2 1 0)];
          x = (chacha20_x86_round ^^ 10) o4
      in map2 mm_add_epi32 x o4)"

function chacha20_x86_xor :: "u32 list \<Rightarrow> u32 \<Rightarrow> byte list \<Rightarrow> nat \<Rightarrow> nat \<Rightarrow> nat \<Rightarrow> nat \<Rightarrow> (byte list \<times> nat) option" where
  "chacha20_x86_xor s counter m inp out len filled =
     (if 256 \<le> len - filled then do {
        let x = chacha20_x86_four s counter;
        m \<leftarrow> chacha20_x86_group x (inp + filled) (out + filled) 0 m;
        m \<leftarrow> chacha20_x86_group x (inp + filled) (out + filled) 1 m;
        m \<leftarrow> chacha20_x86_group x (inp + filled) (out + filled) 2 m;
        m \<leftarrow> chacha20_x86_group x (inp + filled) (out + filled) 3 m;
        chacha20_x86_xor s (counter + 4) m inp out len (filled + 256) }
      else Some (m, filled))"
  by pat_completeness auto
termination by (relation "measure (\<lambda>(s, counter, m, inp, out, len, filled). len - filled)") auto

declare chacha20_x86_xor.simps [simp del]

section \<open>Four blocks in NEON registers\<close>

text \<open>
  A \<open>uint32x4_t\<close> is a 128-bit register of four lanes, as for SSE. \<open>vsriq_n_u32\<close> shifts its second argument
  right and keeps the high bits of the first; \<open>vrev32q_u16\<close> swaps the halves of each word; \<open>vtrnq_u32\<close>
  transposes pairs of lanes.
\<close>

definition vsriq_n_u32 :: "m128 \<Rightarrow> m128 \<Rightarrow> nat \<Rightarrow> m128" where
  "vsriq_n_u32 a b n = of_epi32 (map2 (\<lambda>x y. (x AND NOT (drop_bit n (- 1))) OR drop_bit n y) (epi32 a) (epi32 b))"

definition vrev32q_u16 :: "m128 \<Rightarrow> m128" where
  "vrev32q_u16 a = of_epi32 (map (\<lambda>x. push_bit 16 x OR drop_bit 16 x) (epi32 a))"

definition vtrnq_u32 :: "m128 \<Rightarrow> m128 \<Rightarrow> m128 \<times> m128" where
  "vtrnq_u32 a b = (of_epi32 [epi32 a ! 0, epi32 b ! 0, epi32 a ! 2, epi32 b ! 2],
     of_epi32 [epi32 a ! 1, epi32 b ! 1, epi32 a ! 3, epi32 b ! 3])"

definition vcombine_low :: "m128 \<Rightarrow> m128 \<Rightarrow> m128" where
  "vcombine_low p q = of_epi32 [epi32 p ! 0, epi32 p ! 1, epi32 q ! 0, epi32 q ! 1]"

definition vcombine_high :: "m128 \<Rightarrow> m128 \<Rightarrow> m128" where
  "vcombine_high p q = of_epi32 [epi32 p ! 2, epi32 p ! 3, epi32 q ! 2, epi32 q ! 3]"

definition CHACHA_NROT :: "m128 \<Rightarrow> nat \<Rightarrow> m128" where
  "CHACHA_NROT v n = vsriq_n_u32 (mm_slli_epi32 v n) v (32 - n)"

definition CHACHA_NQR :: "nat \<Rightarrow> nat \<Rightarrow> nat \<Rightarrow> nat \<Rightarrow> m128 list \<Rightarrow> m128 list" where
  "CHACHA_NQR a b c d x =
     (let x = x[a := mm_add_epi32 (x ! a) (x ! b)]; x = x[d := vrev32q_u16 (x ! d XOR x ! a)];
          x = x[c := mm_add_epi32 (x ! c) (x ! d)]; x = x[b := CHACHA_NROT (x ! b XOR x ! c) 12];
          x = x[a := mm_add_epi32 (x ! a) (x ! b)]; x = x[d := CHACHA_NROT (x ! d XOR x ! a) 8];
          x = x[c := mm_add_epi32 (x ! c) (x ! d)]
      in x[b := CHACHA_NROT (x ! b XOR x ! c) 7])"

definition chacha20_neon_round :: "m128 list \<Rightarrow> m128 list" where
  "chacha20_neon_round x =
     (let x = CHACHA_NQR 0 4 8 12 x; x = CHACHA_NQR 1 5 9 13 x; x = CHACHA_NQR 2 6 10 14 x; x = CHACHA_NQR 3 7 11 15 x;
          x = CHACHA_NQR 0 5 10 15 x; x = CHACHA_NQR 1 6 11 12 x; x = CHACHA_NQR 2 7 8 13 x
      in CHACHA_NQR 3 4 9 14 x)"

definition chacha20_neon_group :: "m128 list \<Rightarrow> nat \<Rightarrow> nat \<Rightarrow> nat \<Rightarrow> byte list \<Rightarrow> byte list option" where
  "chacha20_neon_group x inp out g m = do {
     let (p0, p1) = vtrnq_u32 (x ! (4 * g)) (x ! (4 * g + 1));
     let (q0, q1) = vtrnq_u32 (x ! (4 * g + 2)) (x ! (4 * g + 3));
     let r0 = vcombine_low p0 q0;
     let r1 = vcombine_low p1 q1;
     let r2 = vcombine_high p0 q0;
     let r3 = vcombine_high p1 q1;
     let ip = inp + 16 * g;
     let op = out + 16 * g;
     m \<leftarrow> xor_vector m ip op r0;
     m \<leftarrow> xor_vector m (ip + 64) (op + 64) r1;
     m \<leftarrow> xor_vector m (ip + 128) (op + 128) r2;
     xor_vector m (ip + 192) (op + 192) r3 }"

definition chacha20_neon_four :: "u32 list \<Rightarrow> u32 \<Rightarrow> m128 list" where
  "chacha20_neon_four s counter =
     (let o4 = (map mm_set1_epi32 s)[12 := mm_add_epi32 (mm_set1_epi32 counter) (of_epi32 [0, 1, 2, 3])];
          x = (chacha20_neon_round ^^ 10) o4
      in map2 mm_add_epi32 x o4)"

function chacha20_neon_xor :: "u32 list \<Rightarrow> u32 \<Rightarrow> byte list \<Rightarrow> nat \<Rightarrow> nat \<Rightarrow> nat \<Rightarrow> nat \<Rightarrow> (byte list \<times> nat) option" where
  "chacha20_neon_xor s counter m inp out len filled =
     (if 256 \<le> len - filled then do {
        let x = chacha20_neon_four s counter;
        m \<leftarrow> chacha20_neon_group x (inp + filled) (out + filled) 0 m;
        m \<leftarrow> chacha20_neon_group x (inp + filled) (out + filled) 1 m;
        m \<leftarrow> chacha20_neon_group x (inp + filled) (out + filled) 2 m;
        m \<leftarrow> chacha20_neon_group x (inp + filled) (out + filled) 3 m;
        chacha20_neon_xor s (counter + 4) m inp out len (filled + 256) }
      else Some (m, filled))"
  by pat_completeness auto
termination by (relation "measure (\<lambda>(s, counter, m, inp, out, len, filled). len - filled)") auto

declare chacha20_neon_xor.simps [simp del]

section \<open>The stream cipher\<close>

text \<open>Which vector unit the build has and the processor offers is an argument.\<close>

datatype chacha_unit = Chacha_none | Chacha_ssse3 | Chacha_neon

text \<open>One word of the key stream added to the source.\<close>

fun xor_words :: "byte list \<Rightarrow> nat \<Rightarrow> nat \<Rightarrow> u32 list \<Rightarrow> byte list option" where
  "xor_words m inp out [] = Some m"
| "xor_words m inp out (w # ws) = do {
     v \<leftarrow> crypto_load32_le m inp;
     m \<leftarrow> crypto_store32_le m out (v XOR w);
     xor_words m (inp + 4) (out + 4) ws }"

function chacha20_block_loop :: "byte list \<Rightarrow> byte list \<Rightarrow> u32 \<Rightarrow> byte list \<Rightarrow> nat \<Rightarrow> nat \<Rightarrow> nat \<Rightarrow>
  (u32 \<times> byte list \<times> nat \<times> nat \<times> nat) option" where
  "chacha20_block_loop key nonce counter m inp out len =
     (if 64 \<le> len then do {
        w \<leftarrow> chacha20_core key nonce counter;
        m \<leftarrow> xor_words m inp out w;
        chacha20_block_loop key nonce (counter + 1) m (inp + 64) (out + 64) (len - 64) }
      else Some (counter, m, inp, out, len))"
  by pat_completeness auto
termination by (relation "measure (\<lambda>(key, nonce, counter, m, inp, out, len). len)") auto

declare chacha20_block_loop.simps [simp del]

definition chacha20_xor :: "chacha_unit \<Rightarrow> byte list \<Rightarrow> byte list \<Rightarrow> u32 \<Rightarrow> byte list \<Rightarrow> nat \<Rightarrow> nat \<Rightarrow> nat \<Rightarrow> byte list option" where
  "chacha20_xor unit key nonce counter m inp out len = do {
     (counter, m, inp, out, len) \<leftarrow>
       (if 256 \<le> len \<and> unit \<noteq> Chacha_none then do {
          s \<leftarrow> chacha20_state key nonce counter;
          (m, filled) \<leftarrow> (if unit = Chacha_ssse3 then chacha20_x86_xor s counter m inp out len 0
             else chacha20_neon_xor s counter m inp out len 0);
          Some (counter + of_nat (filled div 64), m, inp + filled, out + filled, len - filled) }
        else Some (counter, m, inp, out, len));
     (counter, m, inp, out, len) \<leftarrow> chacha20_block_loop key nonce counter m inp out len;
     if len \<noteq> 0 then do {
       ks \<leftarrow> chacha20_block key nonce counter (replicate 64 0);
       xor_loop m inp out ks len }
     else Some m }"

section \<open>The reference\<close>

text \<open>The quarter round and the block function of RFC 8439, section 2.\<close>

definition rfc_quarter :: "u32 \<Rightarrow> u32 \<Rightarrow> u32 \<Rightarrow> u32 \<Rightarrow> u32 \<times> u32 \<times> u32 \<times> u32" where
  "rfc_quarter a b c d =
     (let a = a + b; d = word_rotl 16 (d XOR a); c = c + d; b = word_rotl 12 (b XOR c);
          a = a + b; d = word_rotl 8 (d XOR a); c = c + d; b = word_rotl 7 (b XOR c)
      in (a, b, c, d))"

definition rfc_quarter_at :: "nat \<times> nat \<times> nat \<times> nat \<Rightarrow> u32 list \<Rightarrow> u32 list" where
  "rfc_quarter_at = (\<lambda>(i, j, k, l) x.
     case rfc_quarter (x ! i) (x ! j) (x ! k) (x ! l) of (a, b, c, d) \<Rightarrow> x[i := a, j := b, k := c, l := d])"

definition rfc_inner_block :: "u32 list \<Rightarrow> u32 list" where
  "rfc_inner_block = fold rfc_quarter_at
     [(0, 4, 8, 12), (1, 5, 9, 13), (2, 6, 10, 14), (3, 7, 11, 15),
      (0, 5, 10, 15), (1, 6, 11, 12), (2, 7, 8, 13), (3, 4, 9, 14)]"

definition rfc_words :: "nat \<Rightarrow> byte list \<Rightarrow> u32 list" where
  "rfc_words n bs = map (\<lambda>i. le_word (take 4 (drop (4 * i) bs))) [0..<n]"

text \<open>The constants are the words of the text ``expand 32-byte k''.\<close>

definition rfc_state :: "byte list \<Rightarrow> byte list \<Rightarrow> u32 \<Rightarrow> u32 list" where
  "rfc_state key nonce counter = rfc_words 4 (map (of_char :: char \<Rightarrow> byte) ''expand 32-byte k'') @
     rfc_words 8 key @ [counter] @ rfc_words 3 nonce"

definition rfc_chacha_block :: "byte list \<Rightarrow> byte list \<Rightarrow> u32 \<Rightarrow> byte list" where
  "rfc_chacha_block key nonce counter =
     (let s = rfc_state key nonce counter
      in concat (map (le_enc 4) (map2 (+) ((rfc_inner_block ^^ 10) s) s)))"

text \<open>Byte \<open>i\<close> of the key stream that starts at block \<open>counter\<close>.\<close>

definition rfc_stream :: "byte list \<Rightarrow> byte list \<Rightarrow> u32 \<Rightarrow> nat \<Rightarrow> byte" where
  "rfc_stream key nonce counter i = rfc_chacha_block key nonce (counter + of_nat (i div 64)) ! (i mod 64)"

section \<open>The block function is the reference\<close>

lemma quarter_updates:
  "distinct [a, b, c, d] \<Longrightarrow> max (max a b) (max c d) < length x \<Longrightarrow>
   x[a := a1, d := d1, c := c1, b := b1, a := a2, d := d2, c := c2, b := b2] = x[a := a2, b := b2, c := c2, d := d2]"
  by (intro nth_equalityI) (auto simp: nth_list_update)

lemma QR_rfc:
  assumes "length x = 16" and "distinct [a, b, c, d]" and "max (max a b) (max c d) < 16"
  shows "QR a b c d x = rfc_quarter_at (a, b, c, d) x"
proof -
  have neq: "a \<noteq> b" "a \<noteq> c" "a \<noteq> d" "b \<noteq> a" "b \<noteq> c" "b \<noteq> d" "c \<noteq> a" "c \<noteq> b" "c \<noteq> d" "d \<noteq> a" "d \<noteq> b" "d \<noteq> c"
    using assms(2) by auto
  have lt: "a < length x" "b < length x" "c < length x" "d < length x" using assms(1,3) by auto
  define a1 where "a1 = x ! a + x ! b"
  define d1 where "d1 = word_rotl 16 (x ! d XOR a1)"
  define c1 where "c1 = x ! c + d1"
  define b1 where "b1 = word_rotl 12 (x ! b XOR c1)"
  define a2 where "a2 = a1 + b1"
  define d2 where "d2 = word_rotl 8 (d1 XOR a2)"
  define c2 where "c2 = c1 + d2"
  define b2 where "b2 = word_rotl 7 (b1 XOR c2)"
  note defs = a1_def [symmetric] d1_def [symmetric] c1_def [symmetric] b1_def [symmetric]
    a2_def [symmetric] d2_def [symmetric] c2_def [symmetric] b2_def [symmetric]
  note rots = crypto_rotl32_word [of 16, simplified] crypto_rotl32_word [of 12, simplified]
    crypto_rotl32_word [of 8, simplified] crypto_rotl32_word [of 7, simplified]
  have "QR a b c d x = x[a := a1, d := d1, c := c1, b := b1, a := a2, d := d2, c := c2, b := b2]"
    unfolding QR_def
    by (simp only: Let_def nth_list_update_eq nth_list_update_neq length_list_update list_update_overwrite neq lt not_False_eq_True simp_thms rots defs)
  also have "\<dots> = x[a := a2, b := b2, c := c2, d := d2]"
    using assms by (intro quarter_updates) simp_all
  also have "\<dots> = rfc_quarter_at (a, b, c, d) x"
    by (simp only: rfc_quarter_at_def rfc_quarter_def Let_def prod.case defs)
  finally show ?thesis .
qed

lemma length_rfc_quarter_at [simp]: "length (rfc_quarter_at p x) = length x"
  by (simp add: rfc_quarter_at_def split: prod.splits)

lemma length_rfc_inner_block [simp]: "length (rfc_inner_block x) = length x"
  by (simp add: rfc_inner_block_def)

lemma double_round_rfc: "length x = 16 \<Longrightarrow> chacha20_double_round x = rfc_inner_block x"
  by (simp add: chacha20_double_round_def rfc_inner_block_def QR_rfc)

lemma funpow_rounds:
  fixes f :: "'a list \<Rightarrow> 'a list"
  assumes "\<And>x. length x = n \<Longrightarrow> f x = g x" and "\<And>x. length (g x) = length x" and "length x = n"
  shows "(f ^^ k) x = (g ^^ k) x \<and> length ((g ^^ k) x) = n"
  using assms by (induction k) auto

lemma rounds_rfc: "length x = 16 \<Longrightarrow> (chacha20_double_round ^^ 10) x = (rfc_inner_block ^^ 10) x"
  "length x = 16 \<Longrightarrow> length ((rfc_inner_block ^^ 10) x) = 16"
  using funpow_rounds [of 16 chacha20_double_round rfc_inner_block x 10, OF double_round_rfc] by simp_all

lemma load_le_words_rfc: "p + 4 * n \<le> length m \<Longrightarrow> load_le_words m p n = Some (rfc_words n (drop p m))"
proof (induction n arbitrary: p)
  case (Suc n)
  then have "load_le_words m (p + 4) n = Some (rfc_words n (drop (p + 4) m))" by simp
  moreover have "rfc_words (Suc n) (drop p m) = le_word (take 4 (drop p m)) # rfc_words n (drop (p + 4) m)"
    by (simp add: rfc_words_def map_upt_Suc ac_simps del: upt_Suc)
  ultimately show ?case using Suc.prems by (simp add: crypto_load32_le_word)
qed (simp add: rfc_words_def)

lemma rfc_words_simps: "rfc_words 0 bs = []" "rfc_words (Suc n) bs = le_word (take 4 bs) # rfc_words n (drop 4 bs)"
  by (simp_all add: rfc_words_def map_upt_Suc ac_simps del: upt_Suc)

lemma rfc_constants: "rfc_words 4 (map of_char ''expand 32-byte k'') = [0x61707865, 0x3320646e, 0x79622d32, 0x6b206574]"
  by (simp add: rfc_words_simps numeral_eq_Suc) (simp add: le_word_4 numeral_eq_Suc [symmetric])

lemma chacha20_state_rfc:
  assumes "length key = 32" "length nonce = 12"
  shows "chacha20_state key nonce counter = Some (rfc_state key nonce counter)"
proof -
  have "rfc_words 3 nonce = [le_word (take 4 nonce), le_word (take 4 (drop 4 nonce)), le_word (take 4 (drop 8 nonce))]"
    by (simp add: rfc_words_simps numeral_eq_Suc)
  then have state: "rfc_state key nonce counter = [0x61707865, 0x3320646e, 0x79622d32, 0x6b206574] @ rfc_words 8 key @
      [counter, le_word (take 4 nonce), le_word (take 4 (drop 4 nonce)), le_word (take 4 (drop 8 nonce))]"
    by (simp only: rfc_state_def rfc_constants) simp
  have keys: "load_le_words key 0 8 = Some (rfc_words 8 key)" using load_le_words_rfc [of 0 8 key] assms by (simp only:) simp
  show ?thesis unfolding chacha20_state_def keys state using assms by (simp add: crypto_load32_le_word)
qed

lemma length_rfc_state [simp]: "length (rfc_state key nonce counter) = 16"
  by (simp add: rfc_state_def rfc_words_def)

definition rfc_sum :: "byte list \<Rightarrow> byte list \<Rightarrow> u32 \<Rightarrow> u32 list" where
  "rfc_sum key nonce counter = map2 (+) ((rfc_inner_block ^^ 10) (rfc_state key nonce counter)) (rfc_state key nonce counter)"

lemma length_rfc_sum [simp]: "length (rfc_sum key nonce counter) = 16"
  by (simp add: rfc_sum_def rounds_rfc)

lemma rfc_block_sum: "rfc_chacha_block key nonce counter = concat (map (le_enc 4) (rfc_sum key nonce counter))"
  by (simp add: rfc_chacha_block_def rfc_sum_def Let_def)

lemma chacha20_core_rfc:
  "length key = 32 \<Longrightarrow> length nonce = 12 \<Longrightarrow> chacha20_core key nonce counter = Some (rfc_sum key nonce counter)"
  by (simp add: chacha20_core_def chacha20_state_rfc rounds_rfc rfc_sum_def)

lemma length_concat_enc [simp]: "length (concat (map (le_enc n) ws)) = n * length ws"
  by (induction ws) simp_all

lemma length_rfc_block [simp]: "length (rfc_chacha_block key nonce counter) = 64"
  by (simp add: rfc_block_sum)

lemma store_words_bytes:
  "p + 4 * length ws \<le> length m \<Longrightarrow> store_words m p ws = mem_write m p (concat (map (le_enc 4) ws))"
proof (induction ws arbitrary: m p)
  case (Cons w ws)
  from Cons.prems obtain m' where m': "mem_write m p (le_enc 4 w) = Some m'" "length m' = length m"
    by (auto simp: mem_write_def)
  with Cons.IH [of "p + 4" m'] Cons.prems have "store_words m p (w # ws) = do { m \<leftarrow> mem_write m p (le_enc 4 w); mem_write m (p + 4) (concat (map (le_enc 4) ws)) }"
    by (simp add: crypto_store32_le_bytes)
  also have "\<dots> = mem_write m p (le_enc 4 w @ concat (map (le_enc 4) ws))"
    using Cons.prems by (intro mem_write_twice) simp_all
  finally show ?case by simp
qed (simp add: mem_write_def)

lemma chacha20_block_rfc:
  "length key = 32 \<Longrightarrow> length nonce = 12 \<Longrightarrow> length out = 64 \<Longrightarrow>
   chacha20_block key nonce counter out = Some (rfc_chacha_block key nonce counter)"
  by (simp add: chacha20_block_def chacha20_core_rfc store_words_bytes mem_write_def rfc_block_sum)

section \<open>The portable loop\<close>

lemma xor_words_xored:
  assumes "may_alias inp out len (length m)" and "S \<inter> {p..<p + 4 * length ws} = {}" and "S \<subseteq> {..<len}" and "p + 4 * length ws \<le> len"
    and "\<And>i. i < 4 * length ws \<Longrightarrow> f (p + i) = concat (map (le_enc 4) ws) ! i"
  shows "xor_words (xored m inp out S f) (inp + p) (out + p) ws = Some (xored m inp out (S \<union> {p..<p + 4 * length ws}) f)"
  using assms
proof (induction ws arbitrary: p S)
  case (Cons w ws)
  let ?x = "xored m inp out S f"
  have bounds: "inp + p + 4 \<le> length m" "out + p + 4 \<le> length m" using Cons.prems(1,4) by (auto simp: may_alias_def)
  let ?bs = "take 4 (drop (inp + p) ?x)"
  have "do { bs \<leftarrow> mem_read ?x (inp + p) 4; mem_write ?x (out + p) (xor_bytes bs (le_enc 4 w)) } = Some (xored m inp out (S \<union> {p..<p + 4}) f)"
  proof (rule xored_step [OF Cons.prems(1)])
    show "f (p + i) = le_enc 4 w ! i" if "i < 4" for i
      using Cons.prems(5) [of i] that by (simp add: nth_append)
  qed (use Cons.prems in force)+
  moreover have "le_enc 4 (le_word ?bs XOR w) = xor_bytes ?bs (le_enc 4 w)"
  proof (rule nth_equalityI)
    fix i assume "i < length (le_enc 4 (le_word ?bs XOR w))"
    then have "i < 4" by simp
    have "le_enc 4 (le_word ?bs :: u32) = ?bs" using bounds by (intro le_enc_word) simp_all
    then have *: "le_enc 4 (le_word ?bs :: u32) ! i = ?bs ! i" by simp
    with \<open>i < 4\<close> show "le_enc 4 (le_word ?bs XOR w) ! i = xor_bytes ?bs (le_enc 4 w) ! i"
      using bounds by (simp add: nth_xor_bytes flip: *) (simp add: le_enc_xor nth_xor_bytes)
  qed (use bounds in simp)
  ultimately have step: "do { v \<leftarrow> crypto_load32_le ?x (inp + p); crypto_store32_le ?x (out + p) (v XOR w) } = Some (xored m inp out (S \<union> {p..<p + 4}) f)"
    using bounds by (simp add: crypto_load32_le_word crypto_store32_le_bytes mem_read_def)
  have "xor_words (xored m inp out (S \<union> {p..<p + 4}) f) (inp + (p + 4)) (out + (p + 4)) ws =
      Some (xored m inp out ((S \<union> {p..<p + 4}) \<union> {p + 4..<p + 4 + 4 * length ws}) f)"
  proof (rule Cons.IH)
    show "f (p + 4 + i) = concat (map (le_enc 4) ws) ! i" if "i < 4 * length ws" for i
      using Cons.prems(5) [of "4 + i"] that by (simp add: nth_append add.assoc)
  qed (use Cons.prems in force)+
  moreover have "(S \<union> {p..<p + 4}) \<union> {p + 4..<p + 4 + 4 * length ws} = S \<union> {p..<p + 4 * length (w # ws)}" by auto
  ultimately show ?case using step by (simp add: bind_eq_Some_conv add.assoc) (auto simp: ac_simps)
qed simp

lemma stream_at_block:
  assumes "64 dvd p" and "i < 64"
  shows "rfc_stream key nonce counter (p + i) = rfc_chacha_block key nonce (counter + of_nat (p div 64)) ! i"
proof -
  from assms(1) obtain k where "p = 64 * k" by (auto simp: dvd_def)
  with assms(2) show ?thesis by (simp add: rfc_stream_def)
qed

lemma chacha20_block_loop_stream:
  assumes "may_alias inp out len (length m)" "length key = 32" "length nonce = 12" "64 dvd p" "p + n \<le> len"
  shows "chacha20_block_loop key nonce (counter + of_nat (p div 64)) (xored m inp out {..<p} (rfc_stream key nonce counter)) (inp + p) (out + p) n =
    Some (counter + of_nat ((p + n) div 64), xored m inp out {..<p + 64 * (n div 64)} (rfc_stream key nonce counter),
      inp + (p + 64 * (n div 64)), out + (p + 64 * (n div 64)), n mod 64)"
  using assms
proof (induction n arbitrary: p rule: less_induct)
  case (less n)
  let ?f = "rfc_stream key nonce counter"
  let ?c = "counter + of_nat (p div 64)"
  show ?case
  proof (cases "64 \<le> n")
    case True
    have "xor_words (xored m inp out {..<p} ?f) (inp + p) (out + p) (rfc_sum key nonce ?c) =
        Some (xored m inp out ({..<p} \<union> {p..<p + 4 * length (rfc_sum key nonce ?c)}) ?f)"
    proof (rule xor_words_xored [OF less.prems(1)])
      show "?f (p + i) = concat (map (le_enc 4) (rfc_sum key nonce ?c)) ! i" if "i < 4 * length (rfc_sum key nonce ?c)" for i
        using stream_at_block [OF less.prems(4), of i key nonce counter] that by (simp add: rfc_block_sum)
    qed (use less.prems True in auto)
    moreover have "{..<p} \<union> {p..<p + 4 * length (rfc_sum key nonce ?c)} = {..<p + 64}" by auto
    ultimately have step: "xor_words (xored m inp out {..<p} ?f) (inp + p) (out + p) (rfc_sum key nonce ?c) = Some (xored m inp out {..<p + 64} ?f)" by simp
    from less.prems(4) obtain k where k: "p = 64 * k" by (auto simp: dvd_def)
    have "?c + 1 = counter + of_nat ((p + 64) div 64)" by (simp add: k)
    moreover from less.prems True have "64 dvd p + 64" "p + 64 + (n - 64) \<le> len" by simp_all
    note less.IH [OF _ less.prems(1-3) this]
    moreover have "64 + 64 * ((n - 64) div 64) = 64 * (n div 64)" "(n - 64) mod 64 = n mod 64"
      using True by (simp_all add: le_div_geq le_mod_geq)
    ultimately show ?thesis using True step
      by (subst chacha20_block_loop.simps) (simp add: chacha20_core_rfc less.prems(2,3) add.assoc)
  next
    case False
    then have "n div 64 = 0" "n mod 64 = n" by simp_all
    moreover from less.prems(4) obtain k where k: "p = 64 * k" by (auto simp: dvd_def)
    moreover have "(64 * k + n) div 64 = k" using False by simp
    ultimately show ?thesis using False by (subst chacha20_block_loop.simps) simp
  qed
qed

section \<open>The vector units\<close>

text \<open>Lane \<open>k\<close> of a vector state is the state of one block.\<close>

definition lane_words :: "nat \<Rightarrow> m128 list \<Rightarrow> u32 list" where
  "lane_words k x = map (\<lambda>v. epi32 v ! k) x"

lemma length_lane_words [simp]: "length (lane_words k x) = length x"
  by (simp add: lane_words_def)

lemma le_bytes32_enc: "le_bytes32 w = le_enc 4 w"
  by (simp add: le_bytes32_def le_enc_def)

lemma epi8_lanes: "epi8 v = le_enc 4 (epi32 v ! 0) @ le_enc 4 (epi32 v ! 1) @ le_enc 4 (epi32 v ! 2) @ le_enc 4 (epi32 v ! 3)"
proof -
  from four_crypto_bytes [of "epi32 v"] obtain a b c d where "epi32 v = [a, b, c, d]" by auto
  then show ?thesis by (simp add: epi8_epi32 le_bytes32_enc [abs_def])
qed

lemma lane_shuffle:
  assumes "k < 4"
  shows "epi32 (mm_shuffle_epi8 v c) ! k = le_word (take 4 (drop (4 * k) (epi8 (mm_shuffle_epi8 v c))))"
proof -
  have "take 4 (drop (4 * k) (epi8 w)) = le_enc 4 (epi32 w ! k)" for w
  proof -
    from assms consider "k = 0" | "k = 1" | "k = 2" | "k = 3" by linarith
    then show ?thesis by cases (simp_all add: epi8_lanes)
  qed
  then show ?thesis by (simp add: le_word_enc)
qed

lemma byte_rotl:
  assumes "r < 32" "t + 8 \<le> 32" "(t + 32 - r) mod 32 = q" "q + 8 \<le> 32"
  shows "(ucast (drop_bit t (word_rotl r (w :: u32))) :: byte) = ucast (drop_bit q w)"
proof (rule bit_word_eqI)
  fix n assume "n < LENGTH(8)"
  then have n: "n < 8" by simp
  have "(t + n + (32 - r)) mod 32 = ((t + 32 - r) + n) mod 32" using assms(1) by (simp add: ac_simps)
  also have "\<dots> = (q + n) mod 32" using assms(3) by (metis mod_add_left_eq)
  also have "\<dots> = q + n" using assms(4) n by simp
  finally have "bit (word_rotl r w) (t + n) = bit w (q + n)" using assms n by (simp add: bit_word_rotl_iff)
  then show "bit (ucast (drop_bit t (word_rotl r w)) :: byte) n = bit (ucast (drop_bit q w) :: byte) n"
    using n by (simp add: bit_ucast_iff bit_drop_bit_eq)
qed

lemma rotl_bytes:
  "le_word [le_enc 4 w ! 2, le_enc 4 w ! 3, le_enc 4 w ! 0, le_enc 4 w ! 1] = word_rotl 16 (w :: u32)"
  "le_word [le_enc 4 w ! 3, le_enc 4 w ! 0, le_enc 4 w ! 1, le_enc 4 w ! 2] = word_rotl 8 (w :: u32)"
proof -
  have "[le_enc 4 w ! 2, le_enc 4 w ! 3, le_enc 4 w ! 0, le_enc 4 w ! 1] = le_enc 4 (word_rotl 16 w)"
    using byte_rotl [of 16 0 16 w] byte_rotl [of 16 8 24 w] byte_rotl [of 16 16 0 w] byte_rotl [of 16 24 8 w] by (simp add: le_enc_4)
  then show "le_word [le_enc 4 w ! 2, le_enc 4 w ! 3, le_enc 4 w ! 0, le_enc 4 w ! 1] = word_rotl 16 w"
    by (simp add: le_word_enc)
  have "[le_enc 4 w ! 3, le_enc 4 w ! 0, le_enc 4 w ! 1, le_enc 4 w ! 2] = le_enc 4 (word_rotl 8 w)"
    using byte_rotl [of 8 0 24 w] byte_rotl [of 8 8 0 w] byte_rotl [of 8 16 8 w] byte_rotl [of 8 24 16 w] by (simp add: le_enc_4)
  then show "le_word [le_enc 4 w ! 3, le_enc 4 w ! 0, le_enc 4 w ! 1, le_enc 4 w ! 2] = word_rotl 8 w"
    by (simp add: le_word_enc)
qed

lemma epi8_shuffles:
  "epi8 (mm_shuffle_epi8 v chacha_r16) = concat (map (\<lambda>k. [epi8 v ! (k + 2), epi8 v ! (k + 3), epi8 v ! k, epi8 v ! (k + 1)]) [0, 4, 8, 12])"
  "epi8 (mm_shuffle_epi8 v chacha_r8) = concat (map (\<lambda>k. [epi8 v ! (k + 3), epi8 v ! k, epi8 v ! (k + 1), epi8 v ! (k + 2)]) [0, 4, 8, 12])"
  unfolding mm_shuffle_epi8_def by (subst epi8_of_epi8; simp add: chacha_r16_def chacha_r8_def epi8_set_epi8; simp only: numeral_2_eq_2)+

lemma epi8_at: "k < 4 \<Longrightarrow> j < 4 \<Longrightarrow> epi8 v ! (4 * k + j) = le_enc 4 (epi32 v ! k) ! j"
  by (intro bit_eqI) (auto simp: bit_epi8 bit_le_enc bit_epi32 algebra_simps)

lemma shuffle_lanes:
  assumes "k < 4"
  shows "take 4 (drop (4 * k) (epi8 (mm_shuffle_epi8 v chacha_r16))) = [epi8 v ! (4 * k + 2), epi8 v ! (4 * k + 3), epi8 v ! (4 * k + 0), epi8 v ! (4 * k + 1)]"
    "take 4 (drop (4 * k) (epi8 (mm_shuffle_epi8 v chacha_r8))) = [epi8 v ! (4 * k + 3), epi8 v ! (4 * k + 0), epi8 v ! (4 * k + 1), epi8 v ! (4 * k + 2)]"
proof -
  from assms consider "k = 0" | "k = 1" | "k = 2" | "k = 3" by linarith
  then show "take 4 (drop (4 * k) (epi8 (mm_shuffle_epi8 v chacha_r16))) = [epi8 v ! (4 * k + 2), epi8 v ! (4 * k + 3), epi8 v ! (4 * k + 0), epi8 v ! (4 * k + 1)]"
    "take 4 (drop (4 * k) (epi8 (mm_shuffle_epi8 v chacha_r8))) = [epi8 v ! (4 * k + 3), epi8 v ! (4 * k + 0), epi8 v ! (4 * k + 1), epi8 v ! (4 * k + 2)]"
    unfolding epi8_shuffles by (cases; simp)+
qed

lemma lane_rotl16: "k < 4 \<Longrightarrow> epi32 (mm_shuffle_epi8 v chacha_r16) ! k = crypto_rotl32 (epi32 v ! k) 16"
  by (simp only: lane_shuffle shuffle_lanes epi8_at rotl_bytes) (simp add: crypto_rotl32_word)

lemma lane_rotl8: "k < 4 \<Longrightarrow> epi32 (mm_shuffle_epi8 v chacha_r8) ! k = crypto_rotl32 (epi32 v ! k) 8"
  by (simp only: lane_shuffle shuffle_lanes epi8_at rotl_bytes) (simp add: crypto_rotl32_word)

lemma lane_rotl:
  "k < 4 \<Longrightarrow> 0 < n \<Longrightarrow> n < 32 \<Longrightarrow> epi32 (CHACHA_ROTL v n) ! k = crypto_rotl32 (epi32 v ! k) n"
  by (simp add: CHACHA_ROTL_def epi32_lanes crypto_rotl32_def)

lemma lane_nrot:
  assumes "k < 4" "0 < n" "n < 32"
  shows "epi32 (CHACHA_NROT v n) ! k = crypto_rotl32 (epi32 v ! k) n"
proof -
  have "(push_bit n x AND NOT (drop_bit (32 - n) (- 1))) OR drop_bit (32 - n) x = push_bit n x OR drop_bit (32 - n) x" for x :: u32
    using assms(2,3) by (intro bit_word_eqI) (auto simp: bit_simps)
  with assms show ?thesis
    by (simp add: CHACHA_NROT_def vsriq_n_u32_def epi32_of_epi32 lane_slli crypto_rotl32_def)
qed

lemma lane_vrev: "k < 4 \<Longrightarrow> epi32 (vrev32q_u16 v) ! k = crypto_rotl32 (epi32 v ! k) 16"
  by (simp add: vrev32q_u16_def epi32_of_epi32 crypto_rotl32_def)

lemma lane_words_update: "lane_words k (x[i := v]) = (lane_words k x)[i := epi32 v ! k]"
  by (simp add: lane_words_def map_update)

lemma lane_words_nth: "i < length x \<Longrightarrow> epi32 (x ! i) ! k = lane_words k x ! i"
  by (simp add: lane_words_def)

text \<open>The quarter round on vectors, over the four rotations.\<close>

definition vec_quarter :: "(m128 \<Rightarrow> m128) \<Rightarrow> (m128 \<Rightarrow> m128) \<Rightarrow> (m128 \<Rightarrow> m128) \<Rightarrow> (m128 \<Rightarrow> m128) \<Rightarrow>
  nat \<Rightarrow> nat \<Rightarrow> nat \<Rightarrow> nat \<Rightarrow> m128 list \<Rightarrow> m128 list" where
  "vec_quarter r16 r12 r8 r7 a b c d x =
     (let x = x[a := mm_add_epi32 (x ! a) (x ! b)]; x = x[d := r16 (x ! d XOR x ! a)];
          x = x[c := mm_add_epi32 (x ! c) (x ! d)]; x = x[b := r12 (x ! b XOR x ! c)];
          x = x[a := mm_add_epi32 (x ! a) (x ! b)]; x = x[d := r8 (x ! d XOR x ! a)];
          x = x[c := mm_add_epi32 (x ! c) (x ! d)]
      in x[b := r7 (x ! b XOR x ! c)])"

definition rotates :: "(m128 \<Rightarrow> m128) \<Rightarrow> nat \<Rightarrow> bool" where
  "rotates r n \<longleftrightarrow> (\<forall>v. \<forall>k < 4. epi32 (r v) ! k = word_rotl n (epi32 v ! k))"

lemma rotatesD: "rotates r n \<Longrightarrow> k < 4 \<Longrightarrow> epi32 (r v) ! k = word_rotl n (epi32 v ! k)"
  by (simp add: rotates_def)

lemma lane_quarter:
  assumes k: "k < 4" and "distinct [a, b, c, d]" and "max (max a b) (max c d) < length x"
    and rot: "rotates r16 16" "rotates r12 12" "rotates r8 8" "rotates r7 7"
  shows "lane_words k (vec_quarter r16 r12 r8 r7 a b c d x) = rfc_quarter_at (a, b, c, d) (lane_words k x)"
proof -
  have neq: "a \<noteq> b" "a \<noteq> c" "a \<noteq> d" "b \<noteq> a" "b \<noteq> c" "b \<noteq> d" "c \<noteq> a" "c \<noteq> b" "c \<noteq> d" "d \<noteq> a" "d \<noteq> b" "d \<noteq> c"
    using assms(2) by auto
  have lt: "a < length x" "b < length x" "c < length x" "d < length x" using assms(1,3) by auto
  define a1 where "a1 = mm_add_epi32 (x ! a) (x ! b)"
  define d1 where "d1 = r16 (x ! d XOR a1)"
  define c1 where "c1 = mm_add_epi32 (x ! c) d1"
  define b1 where "b1 = r12 (x ! b XOR c1)"
  define a2 where "a2 = mm_add_epi32 a1 b1"
  define d2 where "d2 = r8 (d1 XOR a2)"
  define c2 where "c2 = mm_add_epi32 c1 d2"
  define b2 where "b2 = r7 (b1 XOR c2)"
  note defs = a1_def [symmetric] d1_def [symmetric] c1_def [symmetric] b1_def [symmetric]
    a2_def [symmetric] d2_def [symmetric] c2_def [symmetric] b2_def [symmetric]
  have "vec_quarter r16 r12 r8 r7 a b c d x = x[a := a1, d := d1, c := c1, b := b1, a := a2, d := d2, c := c2, b := b2]"
    unfolding vec_quarter_def
    by (simp only: Let_def nth_list_update_eq nth_list_update_neq length_list_update list_update_overwrite neq lt not_False_eq_True simp_thms defs)
  also have "\<dots> = x[a := a2, b := b2, c := c2, d := d2]"
    using assms by (intro quarter_updates) simp_all
  finally have eq: "vec_quarter r16 r12 r8 r7 a b c d x = x[a := a2, b := b2, c := c2, d := d2]" .
  have nth: "lane_words k x ! a = epi32 (x ! a) ! k" "lane_words k x ! b = epi32 (x ! b) ! k"
    "lane_words k x ! c = epi32 (x ! c) ! k" "lane_words k x ! d = epi32 (x ! d) ! k"
    using lt by (simp_all add: lane_words_nth)
  have lanes: "epi32 a1 ! k = epi32 (x ! a) ! k + epi32 (x ! b) ! k" "epi32 d1 ! k = word_rotl 16 (epi32 (x ! d) ! k XOR epi32 a1 ! k)"
    "epi32 c1 ! k = epi32 (x ! c) ! k + epi32 d1 ! k" "epi32 b1 ! k = word_rotl 12 (epi32 (x ! b) ! k XOR epi32 c1 ! k)"
    "epi32 a2 ! k = epi32 a1 ! k + epi32 b1 ! k" "epi32 d2 ! k = word_rotl 8 (epi32 d1 ! k XOR epi32 a2 ! k)"
    "epi32 c2 ! k = epi32 c1 ! k + epi32 d2 ! k" "epi32 b2 ! k = word_rotl 7 (epi32 b1 ! k XOR epi32 c2 ! k)"
    unfolding a1_def d1_def c1_def b1_def a2_def d2_def c2_def b2_def
    by (simp_all only: rot [THEN rotatesD, OF k] lane_add [OF k] lane_xor [OF k])
  show ?thesis
    unfolding eq lane_words_update rfc_quarter_at_def rfc_quarter_def prod.case nth
    by (simp only: Let_def prod.case lanes [symmetric])
qed

lemma length_vec_quarter [simp]: "length (vec_quarter r16 r12 r8 r7 a b c d x) = length x"
  by (simp add: vec_quarter_def Let_def)

definition vec_round :: "(nat \<Rightarrow> nat \<Rightarrow> nat \<Rightarrow> nat \<Rightarrow> m128 list \<Rightarrow> m128 list) \<Rightarrow> m128 list \<Rightarrow> m128 list" where
  "vec_round q = fold (\<lambda>(a, b, c, d). q a b c d)
     [(0, 4, 8, 12), (1, 5, 9, 13), (2, 6, 10, 14), (3, 7, 11, 15),
      (0, 5, 10, 15), (1, 6, 11, 12), (2, 7, 8, 13), (3, 4, 9, 14)]"

lemma lane_round:
  assumes "k < 4" and "length x = 16" and "rotates r16 16" "rotates r12 12" "rotates r8 8" "rotates r7 7"
  shows "lane_words k (vec_round (vec_quarter r16 r12 r8 r7) x) = rfc_inner_block (lane_words k x) \<and>
    length (vec_round (vec_quarter r16 r12 r8 r7) x) = 16"
  using assms by (simp add: vec_round_def rfc_inner_block_def lane_quarter)

lemma lane_rounds:
  assumes "k < 4" and "length x = 16" and "rotates r16 16" "rotates r12 12" "rotates r8 8" "rotates r7 7"
  shows "lane_words k ((vec_round (vec_quarter r16 r12 r8 r7) ^^ n) x) = (rfc_inner_block ^^ n) (lane_words k x) \<and>
    length ((vec_round (vec_quarter r16 r12 r8 r7) ^^ n) x) = 16"
  using assms lane_round [OF assms(1) _ assms(3-6)] by (induction n) simp_all

lemma x86_quarter:
  "CHACHA_QR4 = vec_quarter (\<lambda>v. mm_shuffle_epi8 v chacha_r16) (\<lambda>v. CHACHA_ROTL v 12) (\<lambda>v. mm_shuffle_epi8 v chacha_r8) (\<lambda>v. CHACHA_ROTL v 7)"
  by (intro ext) (simp only: CHACHA_QR4_def vec_quarter_def)

lemma neon_quarter:
  "CHACHA_NQR = vec_quarter vrev32q_u16 (\<lambda>v. CHACHA_NROT v 12) (\<lambda>v. CHACHA_NROT v 8) (\<lambda>v. CHACHA_NROT v 7)"
  by (intro ext) (simp only: CHACHA_NQR_def vec_quarter_def)

lemma x86_rotates:
  "rotates (\<lambda>v. mm_shuffle_epi8 v chacha_r16) 16" "rotates (\<lambda>v. mm_shuffle_epi8 v chacha_r8) 8"
  "rotates (\<lambda>v. CHACHA_ROTL v 12) 12" "rotates (\<lambda>v. CHACHA_ROTL v 7) 7"
  by (simp_all add: rotates_def lane_rotl16 lane_rotl8 lane_rotl crypto_rotl32_word)

lemma neon_rotates:
  "rotates vrev32q_u16 16" "rotates (\<lambda>v. CHACHA_NROT v 8) 8"
  "rotates (\<lambda>v. CHACHA_NROT v 12) 12" "rotates (\<lambda>v. CHACHA_NROT v 7) 7"
  by (simp_all add: rotates_def lane_vrev lane_nrot crypto_rotl32_word)

lemma x86_round: "chacha20_x86_round = vec_round CHACHA_QR4"
  by (intro ext) (simp add: chacha20_x86_round_def vec_round_def Let_def)

lemma neon_round: "chacha20_neon_round = vec_round CHACHA_NQR"
  by (intro ext) (simp add: chacha20_neon_round_def vec_round_def Let_def)

lemma vec_four:
  assumes round: "round = vec_round (vec_quarter r16 r12 r8 r7)" and rot: "rotates r16 16" "rotates r12 12" "rotates r8 8" "rotates r7 7"
    and counters: "epi32 cs = [0, 1, 2, 3]" and k: "k < 4" and s: "length s = 16"
    and x: "x = (let o4 = (map mm_set1_epi32 s)[12 := mm_add_epi32 (mm_set1_epi32 counter) cs] in map2 mm_add_epi32 ((round ^^ 10) o4) o4)"
  shows "lane_words k x = map2 (+) ((rfc_inner_block ^^ 10) (s[12 := counter + of_nat k])) (s[12 := counter + of_nat k]) \<and> length x = 16"
proof -
  let ?o = "(map mm_set1_epi32 s)[12 := mm_add_epi32 (mm_set1_epi32 counter) cs]"
  have "epi32 (mm_set1_epi32 c) ! k = c" for c using k by (auto simp: epi32_set1 less_Suc_eq numeral_eq_Suc)
  moreover have "epi32 cs ! k = of_nat k"
  proof -
    from k consider "k = 0" | "k = 1" | "k = 2" | "k = 3" by linarith
    then show ?thesis by cases (simp_all add: counters)
  qed
  ultimately have o: "lane_words k ?o = s[12 := counter + of_nat k]"
    using k s by (simp add: lane_words_update lane_add) (simp add: lane_words_def comp_def)
  from lane_rounds [OF k _ rot, of ?o 10] s o have r:
    "lane_words k ((round ^^ 10) ?o) = (rfc_inner_block ^^ 10) (s[12 := counter + of_nat k])" "length ((round ^^ 10) ?o) = 16"
    by (simp_all add: round)
  have "lane_words k (map2 mm_add_epi32 u v) = map2 (+) (lane_words k u) (lane_words k v)" for u v
    using k by (simp add: lane_words_def lane_add zip_map1 zip_map2 comp_def case_prod_beta)
  with r o s show ?thesis by (simp add: x Let_def)
qed

lemma rfc_state_counter: "(rfc_state key nonce c)[12 := c'] = rfc_state key nonce c'"
  by (simp add: rfc_state_def list_update_append rfc_words_def)

text \<open>The lanes of the four blocks, for both units.\<close>

lemma x86_four_lanes:
  assumes "k < 4"
  shows "lane_words k (chacha20_x86_four (rfc_state key nonce c) counter) = rfc_sum key nonce (counter + of_nat k)"
    and "length (chacha20_x86_four (rfc_state key nonce c) counter) = 16"
  using vec_four [OF trans [OF x86_round, unfolded x86_quarter, OF refl] x86_rotates(1,3,2,4) _ assms, of "mm_set_epi32 3 2 1 0" "rfc_state key nonce c"
      "chacha20_x86_four (rfc_state key nonce c) counter" counter]
  by (simp_all add: chacha20_x86_four_def Let_def epi32_set_epi32 rfc_state_counter rfc_sum_def)

lemma neon_four_lanes:
  assumes "k < 4"
  shows "lane_words k (chacha20_neon_four (rfc_state key nonce c) counter) = rfc_sum key nonce (counter + of_nat k)"
    and "length (chacha20_neon_four (rfc_state key nonce c) counter) = 16"
  using vec_four [OF trans [OF neon_round, unfolded neon_quarter, OF refl] neon_rotates(1,3,2,4) _ assms, of "of_epi32 [0, 1, 2, 3]" "rfc_state key nonce c"
      "chacha20_neon_four (rfc_state key nonce c) counter" counter]
  by (simp_all add: chacha20_neon_four_def Let_def epi32_of_epi32 rfc_state_counter rfc_sum_def)

text \<open>One vector of the output, and the four of a group: a quarter of every block.\<close>

lemma xor_vector_xored:
  assumes "may_alias inp out len (length m)" and "S \<inter> {p..<p + 16} = {}" and "S \<subseteq> {..<len}" and "p + 16 \<le> len"
    and "\<And>i. i < 16 \<Longrightarrow> f (p + i) = epi8 v ! i" and "ip = inp + p" "op = out + p"
  shows "xor_vector (xored m inp out S f) ip op v = Some (xored m inp out (S \<union> {p..<p + 16}) f)"
proof -
  let ?x = "xored m inp out S f"
  have bounds: "inp + p + 16 \<le> length m" "out + p + 16 \<le> length m" using assms(1,4) by (auto simp: may_alias_def)
  let ?bs = "take 16 (drop (inp + p) ?x)"
  have len: "length ?bs = 16" using bounds by simp
  have "epi8 (v XOR of_epi8 ?bs) = xor_bytes ?bs (epi8 v)"
    by (simp add: epi8_xor epi8_of_epi8 [OF len] xor_bytes_def)
      (rule nth_equalityI; simp add: len xor.commute)
  with xored_step [OF assms(1-4) _ assms(5)] bounds show ?thesis
    by (simp add: xor_vector_def mm_loadu_of_epi8 mm_storeu_def mem_read_def assms(6,7))
qed

definition quarter_words :: "nat \<Rightarrow> nat \<Rightarrow> m128 list \<Rightarrow> u32 list" where
  "quarter_words k g x = take 4 (drop (4 * g) (lane_words k x))"

lemma quarter_words_eq:
  "4 * g + 4 \<le> length x \<Longrightarrow> quarter_words k g x = [epi32 (x ! (4 * g)) ! k, epi32 (x ! (4 * g + 1)) ! k, epi32 (x ! (4 * g + 2)) ! k, epi32 (x ! (4 * g + 3)) ! k]"
  by (simp add: quarter_words_def lane_words_def take_4)

lemma epi8_of_words: "length ls = 4 \<Longrightarrow> epi8 (of_epi32 ls) = concat (map (le_enc 4) ls)"
  by (simp add: epi8_epi32 epi32_of_epi32 le_bytes32_enc [abs_def])

lemma x86_group_vectors:
  assumes "4 * g + 4 \<le> length x"
  shows "chacha20_x86_group x inp out g m = do {
     m \<leftarrow> xor_vector m (inp + 16 * g) (out + 16 * g) (of_epi32 (quarter_words 0 g x));
     m \<leftarrow> xor_vector m (inp + 16 * g + 64) (out + 16 * g + 64) (of_epi32 (quarter_words 1 g x));
     m \<leftarrow> xor_vector m (inp + 16 * g + 128) (out + 16 * g + 128) (of_epi32 (quarter_words 2 g x));
     xor_vector m (inp + 16 * g + 192) (out + 16 * g + 192) (of_epi32 (quarter_words 3 g x)) }"
  using assms by (simp add: chacha20_x86_group_def mm_unpacklo_epi64_def mm_unpackhi_epi64_def epi32_unpack quarter_words_eq Let_def)

lemma neon_group_vectors:
  assumes "4 * g + 4 \<le> length x"
  shows "chacha20_neon_group x inp out g m = do {
     m \<leftarrow> xor_vector m (inp + 16 * g) (out + 16 * g) (of_epi32 (quarter_words 0 g x));
     m \<leftarrow> xor_vector m (inp + 16 * g + 64) (out + 16 * g + 64) (of_epi32 (quarter_words 1 g x));
     m \<leftarrow> xor_vector m (inp + 16 * g + 128) (out + 16 * g + 128) (of_epi32 (quarter_words 2 g x));
     xor_vector m (inp + 16 * g + 192) (out + 16 * g + 192) (of_epi32 (quarter_words 3 g x)) }"
  using assms by (simp add: chacha20_neon_group_def vtrnq_u32_def vcombine_low_def vcombine_high_def epi32_of_epi32 quarter_words_eq Let_def)

definition group_ranges :: "nat \<Rightarrow> nat \<Rightarrow> nat set" where
  "group_ranges p g = {p + 16 * g..<p + 16 * g + 16} \<union> {p + 16 * g + 64..<p + 16 * g + 64 + 16} \<union>
     {p + 16 * g + 128..<p + 16 * g + 128 + 16} \<union> {p + 16 * g + 192..<p + 16 * g + 192 + 16}"

definition four_vectors :: "nat \<Rightarrow> nat \<Rightarrow> nat \<Rightarrow> m128 list \<Rightarrow> byte list \<Rightarrow> byte list option" where
  "four_vectors inp out g x m = do {
     m \<leftarrow> xor_vector m (inp + 16 * g) (out + 16 * g) (of_epi32 (quarter_words 0 g x));
     m \<leftarrow> xor_vector m (inp + 16 * g + 64) (out + 16 * g + 64) (of_epi32 (quarter_words 1 g x));
     m \<leftarrow> xor_vector m (inp + 16 * g + 128) (out + 16 * g + 128) (of_epi32 (quarter_words 2 g x));
     xor_vector m (inp + 16 * g + 192) (out + 16 * g + 192) (of_epi32 (quarter_words 3 g x)) }"

lemma four_vectors_xored:
  assumes al: "may_alias inp out len (length m)" and p: "p + 256 \<le> len" and S: "S \<subseteq> {..<len}" "S \<inter> group_ranges p g = {}" and g: "g < 4"
    and x: "length x = 16"
    and f: "\<forall>k < 4. \<forall>i < 64. f (p + 64 * k + i) = concat (map (le_enc 4) (lane_words k x)) ! i"
  shows "four_vectors (inp + p) (out + p) g x (xored m inp out S f) = Some (xored m inp out (S \<union> group_ranges p g) f)"
proof -
  have vec: "f (p + 16 * g + 64 * k + i) = epi8 (of_epi32 (quarter_words k g x)) ! i" if "k < 4" "i < 16" for k i
  proof -
    have "length (quarter_words k g x) = 4" using g x by (simp add: quarter_words_def)
    then have "epi8 (of_epi32 (quarter_words k g x)) = concat (map (le_enc 4) (take 4 (drop (4 * g) (lane_words k x))))"
      by (simp add: epi8_of_words quarter_words_def)
    moreover have split: "lane_words k x = take (4 * g) (lane_words k x) @ take 4 (drop (4 * g) (lane_words k x)) @ drop (4 * g + 4) (lane_words k x)"
      by (metis add.commute append_take_drop_id drop_drop)
    have "concat (map (le_enc 4) (lane_words k x)) ! (16 * g + i) = concat (map (le_enc 4) (take 4 (drop (4 * g) (lane_words k x)))) ! i"
      by (subst split) (use that g x in \<open>simp add: nth_append\<close>)
    moreover have "f (p + 16 * g + 64 * k + i) = f (p + 64 * k + (16 * g + i))" by (simp add: ac_simps)
    moreover have "16 * g + i < 64" using that g by simp
    ultimately show ?thesis using f that(1) by simp
  qed
  have "S \<inter> {p + 16 * g..<p + 16 * g + 16} = {}" "S \<inter> {p + 16 * g + 64..<p + 16 * g + 64 + 16} = {}"
    "S \<inter> {p + 16 * g + 128..<p + 16 * g + 128 + 16} = {}" "S \<inter> {p + 16 * g + 192..<p + 16 * g + 192 + 16} = {}"
    using S(2) by (auto simp: group_ranges_def)
  note S = S(1) this
  let ?S1 = "S \<union> {p + 16 * g..<p + 16 * g + 16}"
  let ?S2 = "?S1 \<union> {p + 16 * g + 64..<p + 16 * g + 64 + 16}"
  let ?S3 = "?S2 \<union> {p + 16 * g + 128..<p + 16 * g + 128 + 16}"
  have S': "?S1 \<subseteq> {..<len}" "?S2 \<subseteq> {..<len}" "?S3 \<subseteq> {..<len}"
    "?S1 \<inter> {p + 16 * g + 64..<p + 16 * g + 64 + 16} = {}" "?S2 \<inter> {p + 16 * g + 128..<p + 16 * g + 128 + 16} = {}"
    "?S3 \<inter> {p + 16 * g + 192..<p + 16 * g + 192 + 16} = {}"
    using S p g by (auto simp: Int_Un_distrib2)
  have "xor_vector (xored m inp out S f) (inp + p + 16 * g) (out + p + 16 * g) (of_epi32 (quarter_words 0 g x)) = Some (xored m inp out (S \<union> {p + 16 * g..<p + 16 * g + 16}) f)"
    using S p g vec [of 0] by (intro xor_vector_xored [OF al]) (simp_all add: ac_simps)
  moreover have "xor_vector (xored m inp out ?S1 f) (inp + p + 16 * g + 64) (out + p + 16 * g + 64) (of_epi32 (quarter_words 1 g x)) = Some (xored m inp out (?S1 \<union> {p + 16 * g + 64..<p + 16 * g + 64 + 16}) f)"
    using S' p g vec [of 1] by (intro xor_vector_xored [OF al]) (simp_all add: ac_simps)
  moreover have "xor_vector (xored m inp out ?S2 f) (inp + p + 16 * g + 128) (out + p + 16 * g + 128) (of_epi32 (quarter_words 2 g x)) = Some (xored m inp out (?S2 \<union> {p + 16 * g + 128..<p + 16 * g + 128 + 16}) f)"
    using S' p g vec [of 2] by (intro xor_vector_xored [OF al]) (simp_all add: ac_simps)
  moreover have "xor_vector (xored m inp out ?S3 f) (inp + p + 16 * g + 192) (out + p + 16 * g + 192) (of_epi32 (quarter_words 3 g x)) = Some (xored m inp out (?S3 \<union> {p + 16 * g + 192..<p + 16 * g + 192 + 16}) f)"
    using S' p g vec [of 3] by (intro xor_vector_xored [OF al]) (simp_all add: ac_simps)
  ultimately show ?thesis by (simp add: four_vectors_def group_ranges_def Un_assoc)
qed

lemma group_ranges_cover: "{..<p} \<union> group_ranges p 0 \<union> group_ranges p 1 \<union> group_ranges p 2 \<union> group_ranges p 3 = {..<p + 256}"
proof (rule antisym)
  show "{..<p + 256} \<subseteq> {..<p} \<union> group_ranges p 0 \<union> group_ranges p 1 \<union> group_ranges p 2 \<union> group_ranges p 3"
  proof
    fix j assume "j \<in> {..<p + 256}"
    show "j \<in> {..<p} \<union> group_ranges p 0 \<union> group_ranges p 1 \<union> group_ranges p 2 \<union> group_ranges p 3"
    proof (cases "j < p")
      case False
      define r where "r = j - p"
      define k where "k = r div 64"
      define g where "g = r mod 64 div 16"
      have "r mod 64 mod 16 = r mod 16" by (simp add: mod_mod_cancel)
      moreover have "r = 64 * k + r mod 64" "r mod 64 = 16 * g + r mod 64 mod 16"
        by (simp_all only: k_def g_def mult_div_mod_eq)
      ultimately have "r = 64 * k + 16 * g + r mod 16" by linarith
      moreover have "r < 256" using \<open>j \<in> {..<p + 256}\<close> False by (simp add: r_def)
      then have "k < 4" "g < 4" by (simp_all add: k_def g_def less_mult_imp_div_less)
      moreover have "r mod 16 < 16" by simp
      ultimately have j: "j = p + 64 * k + 16 * g + r mod 16" using False by (simp add: r_def)
      from \<open>k < 4\<close> consider "k = 0" | "k = 1" | "k = 2" | "k = 3" by linarith
      then have "j \<in> group_ranges p g" using j \<open>r mod 16 < 16\<close> by cases (simp_all add: group_ranges_def)
      moreover from \<open>g < 4\<close> consider "g = 0" | "g = 1" | "g = 2" | "g = 3" by linarith
      then have "group_ranges p g \<subseteq> {..<p} \<union> group_ranges p 0 \<union> group_ranges p 1 \<union> group_ranges p 2 \<union> group_ranges p 3" by cases auto
      ultimately show ?thesis by blast
    qed simp
  qed
qed (auto simp: group_ranges_def)

lemma group_ranges_disjoint: "g < 4 \<Longrightarrow> h < 4 \<Longrightarrow> g \<noteq> h \<Longrightarrow> group_ranges p g \<inter> group_ranges p h = {}"
  by (auto simp: group_ranges_def)

lemma four_groups:
  assumes al: "may_alias inp out len (length m)" and p: "p + 256 \<le> len" and x: "length x = 16"
    and f: "\<forall>k < 4. \<forall>i < 64. f (p + 64 * k + i) = concat (map (le_enc 4) (lane_words k x)) ! i"
  shows "do { m \<leftarrow> four_vectors (inp + p) (out + p) 0 x (xored m inp out {..<p} f);
      m \<leftarrow> four_vectors (inp + p) (out + p) 1 x m;
      m \<leftarrow> four_vectors (inp + p) (out + p) 2 x m;
      four_vectors (inp + p) (out + p) 3 x m } = Some (xored m inp out {..<p + 256} f)"
proof -
  have sub: "group_ranges p g \<subseteq> {..<len}" if "g < 4" for g using p that by (auto simp: group_ranges_def)
  have dis: "{..<p} \<inter> group_ranges p g = {}" for g by (auto simp: group_ranges_def)
  note step = four_vectors_xored [OF al p _ _ _ x f]
  have "four_vectors (inp + p) (out + p) 0 x (xored m inp out {..<p} f) = Some (xored m inp out ({..<p} \<union> group_ranges p 0) f)"
    using p dis [of 0] by (intro step) (auto simp: group_ranges_def)
  moreover have "four_vectors (inp + p) (out + p) 1 x (xored m inp out ({..<p} \<union> group_ranges p 0) f) =
      Some (xored m inp out ({..<p} \<union> group_ranges p 0 \<union> group_ranges p 1) f)"
    using p sub [of 0] dis group_ranges_disjoint [of 0 1 p] by (intro step) (auto simp: Int_Un_distrib2)
  moreover have "four_vectors (inp + p) (out + p) 2 x (xored m inp out ({..<p} \<union> group_ranges p 0 \<union> group_ranges p 1) f) =
      Some (xored m inp out ({..<p} \<union> group_ranges p 0 \<union> group_ranges p 1 \<union> group_ranges p 2) f)"
    using p sub [of 0] sub [of 1] dis group_ranges_disjoint [of 0 2 p] group_ranges_disjoint [of 1 2 p]
    by (intro step) (auto simp: Int_Un_distrib2)
  moreover have "four_vectors (inp + p) (out + p) 3 x (xored m inp out ({..<p} \<union> group_ranges p 0 \<union> group_ranges p 1 \<union> group_ranges p 2) f) =
      Some (xored m inp out ({..<p} \<union> group_ranges p 0 \<union> group_ranges p 1 \<union> group_ranges p 2 \<union> group_ranges p 3) f)"
    using p sub [of 0] sub [of 1] sub [of 2] dis group_ranges_disjoint [of 0 3 p] group_ranges_disjoint [of 1 3 p] group_ranges_disjoint [of 2 3 p]
    by (intro step) (auto simp: Int_Un_distrib2)
  ultimately show ?thesis by (simp only: bind.simps group_ranges_cover)
qed

lemma lanes_stream:
  assumes "\<And>k. k < 4 \<Longrightarrow> lane_words k x = rfc_sum key nonce (c + of_nat (p div 64) + of_nat k)" and "64 dvd p"
  shows "\<forall>k < 4. \<forall>i < 64. rfc_stream key nonce c (p + 64 * k + i) = concat (map (le_enc 4) (lane_words k x)) ! i"
proof (intro allI impI)
  fix k i :: nat assume "k < 4" "i < 64"
  from assms(2) obtain j where "p = 64 * j" by (auto simp: dvd_def)
  then have d: "64 dvd p + 64 * k" "(p + 64 * k) div 64 = p div 64 + k" by simp_all
  have "rfc_stream key nonce c (p + 64 * k + i) = rfc_chacha_block key nonce (c + of_nat (p div 64 + k)) ! i"
    using stream_at_block [OF d(1) \<open>i < 64\<close>] d(2) by simp
  then show "rfc_stream key nonce c (p + 64 * k + i) = concat (map (le_enc 4) (lane_words k x)) ! i"
    using assms(1) [OF \<open>k < 4\<close>] by (simp add: rfc_block_sum add.assoc)
qed

lemma four_vectors_group:
  "length x = 16 \<Longrightarrow> g < 4 \<Longrightarrow> chacha20_x86_group x inp out g m = four_vectors inp out g x m"
  "length x = 16 \<Longrightarrow> g < 4 \<Longrightarrow> chacha20_neon_group x inp out g m = four_vectors inp out g x m"
  by (simp_all add: x86_group_vectors neon_group_vectors four_vectors_def)

lemma blocks_of_256:
  "256 \<le> n - p \<Longrightarrow> p + 256 + 256 * ((n - (p + 256)) div 256) = p + 256 * ((n - p) div 256)" for n p :: nat
  by (simp add: le_div_geq)

lemma chacha20_x86_xor_stream:
  assumes "may_alias inp out len (length m)" "64 dvd p" "n \<le> len"
  shows "chacha20_x86_xor (rfc_state key nonce c') (c + of_nat (p div 64)) (xored m inp out {..<p} (rfc_stream key nonce c)) inp out n p =
    Some (xored m inp out {..<p + 256 * ((n - p) div 256)} (rfc_stream key nonce c), p + 256 * ((n - p) div 256))"
  using assms
proof (induction "n - p" arbitrary: p rule: less_induct)
  case less
  show ?case
  proof (cases "256 \<le> n - p")
    case True
    let ?x = "chacha20_x86_four (rfc_state key nonce c') (c + of_nat (p div 64))"
    have x: "length ?x = 16" using x86_four_lanes(2) [of 0] by simp
    have "p + 256 \<le> len" using True less.prems by simp
    note groups = four_groups [OF less.prems(1) this x lanes_stream [OF x86_four_lanes(1) less.prems(2)]]
    from less.prems(2) obtain j where "p = 64 * j" by (auto simp: dvd_def)
    then have "64 dvd p + 256" "c + of_nat (p div 64) + 4 = c + of_nat ((p + 256) div 64)"
      by (simp_all add: dvd_add_left_iff)
    note next256 = this
    from groups obtain m1 m2 m3 where run:
      "four_vectors (inp + p) (out + p) 0 ?x (xored m inp out {..<p} (rfc_stream key nonce c)) = Some m1"
      "four_vectors (inp + p) (out + p) 1 ?x m1 = Some m2" "four_vectors (inp + p) (out + p) 2 ?x m2 = Some m3"
      "four_vectors (inp + p) (out + p) 3 ?x m3 = Some (xored m inp out {..<p + 256} (rfc_stream key nonce c))"
      by (auto simp: bind_eq_Some_conv)
    have "n - (p + 256) < n - p" using True by simp
    note less.hyps [OF this less.prems(1) next256(1) less.prems(3)]
    with True run next256(2) blocks_of_256 [OF True] show ?thesis
      by (subst chacha20_x86_xor.simps) (simp add: four_vectors_group [OF x] add.assoc)
  next
    case False
    then show ?thesis by (subst chacha20_x86_xor.simps) simp
  qed
qed

lemma chacha20_neon_xor_stream:
  assumes "may_alias inp out len (length m)" "64 dvd p" "n \<le> len"
  shows "chacha20_neon_xor (rfc_state key nonce c') (c + of_nat (p div 64)) (xored m inp out {..<p} (rfc_stream key nonce c)) inp out n p =
    Some (xored m inp out {..<p + 256 * ((n - p) div 256)} (rfc_stream key nonce c), p + 256 * ((n - p) div 256))"
  using assms
proof (induction "n - p" arbitrary: p rule: less_induct)
  case less
  show ?case
  proof (cases "256 \<le> n - p")
    case True
    let ?x = "chacha20_neon_four (rfc_state key nonce c') (c + of_nat (p div 64))"
    have x: "length ?x = 16" using neon_four_lanes(2) [of 0] by simp
    have "p + 256 \<le> len" using True less.prems by simp
    note groups = four_groups [OF less.prems(1) this x lanes_stream [OF neon_four_lanes(1) less.prems(2)]]
    from less.prems(2) obtain j where "p = 64 * j" by (auto simp: dvd_def)
    then have "64 dvd p + 256" "c + of_nat (p div 64) + 4 = c + of_nat ((p + 256) div 64)"
      by (simp_all add: dvd_add_left_iff)
    note next256 = this
    from groups obtain m1 m2 m3 where run:
      "four_vectors (inp + p) (out + p) 0 ?x (xored m inp out {..<p} (rfc_stream key nonce c)) = Some m1"
      "four_vectors (inp + p) (out + p) 1 ?x m1 = Some m2" "four_vectors (inp + p) (out + p) 2 ?x m2 = Some m3"
      "four_vectors (inp + p) (out + p) 3 ?x m3 = Some (xored m inp out {..<p + 256} (rfc_stream key nonce c))"
      by (auto simp: bind_eq_Some_conv)
    have "n - (p + 256) < n - p" using True by simp
    note less.hyps [OF this less.prems(1) next256(1) less.prems(3)]
    with True run next256(2) blocks_of_256 [OF True] show ?thesis
      by (subst chacha20_neon_xor.simps) (simp add: four_vectors_group [OF x] add.assoc)
  next
    case False
    then show ?thesis by (subst chacha20_neon_xor.simps) simp
  qed
qed

section \<open>The cipher adds the key stream\<close>

lemma chacha20_xor_result:
  assumes al: "may_alias inp out len (length m)" and "length key = 32" "length nonce = 12"
  shows "chacha20_xor unit key nonce counter m inp out len =
    Some (xor_mem m inp out (map (rfc_stream key nonce counter) [0..<len]))"
proof -
  let ?f = "rfc_stream key nonce counter"
  define p where "p = (if 256 \<le> len \<and> unit \<noteq> Chacha_none then 256 * (len div 256) else 0)"
  have p: "64 dvd p" "p \<le> len" by (simp_all add: p_def)
  note blocks = chacha20_block_loop_stream [OF al assms(2,3) p(1), of "len - p" counter]
  let ?q = "p + 64 * ((len - p) div 64)"
  have first: "(if 256 \<le> len \<and> unit \<noteq> Chacha_none then do {
          s \<leftarrow> chacha20_state key nonce counter;
          (m, filled) \<leftarrow> (if unit = Chacha_ssse3 then chacha20_x86_xor s counter m inp out len 0
             else chacha20_neon_xor s counter m inp out len 0);
          Some (counter + of_nat (filled div 64), m, inp + filled, out + filled, len - filled) }
        else Some (counter, m, inp, out, len)) =
      Some (counter + of_nat (p div 64), xored m inp out {..<p} ?f, inp + p, out + p, len - p)"
    using chacha20_x86_xor_stream [OF al, of 0 len key nonce counter counter] chacha20_neon_xor_stream [OF al, of 0 len key nonce counter counter] assms(2,3)
    by (auto simp: chacha20_state_rfc p_def)
  have q: "64 dvd ?q" "?q + (len - p) mod 64 = len" "?q div 64 = len div 64"
  proof -
    from p(1) obtain j where j: "p = 64 * j" by (auto simp: dvd_def)
    then show "64 dvd ?q" by simp
    show "?q + (len - p) mod 64 = len" using p(2) by simp
    moreover obtain i where i: "?q = 64 * i" using \<open>64 dvd ?q\<close> by (auto simp: dvd_def)
    ultimately have "len = 64 * i + (len - p) mod 64" by simp
    then have "len div 64 = i" by (metis div_less mod_less_divisor div_mult_self4 add_cancel_left_right zero_less_numeral zero_neq_numeral)
    then show "?q div 64 = len div 64" using i by simp
  qed
  have tail: "xor_loop (xored m inp out {..<?q} ?f) (inp + ?q) (out + ?q) (rfc_chacha_block key nonce (counter + of_nat (len div 64))) ((len - p) mod 64) =
      Some (xored m inp out ({..<?q} \<union> {?q..<?q + (len - p) mod 64}) ?f)"
  proof (rule xor_loop_xored [OF al])
    show "?f (?q + i) = rfc_chacha_block key nonce (counter + of_nat (len div 64)) ! i" if "i < (len - p) mod 64" for i
    proof -
      have "i < 64" using that by (meson less_trans mod_less_divisor zero_less_numeral)
      then show ?thesis using stream_at_block [OF q(1), of i] q(3) by simp
    qed
  qed (use q in \<open>auto intro: less_imp_le\<close>)
  have all: "{..<?q} \<union> {?q..<?q + (len - p) mod 64} = {..<length (map ?f [0..<len])}" using q(2) by auto
  have "xored m inp out {..<length (map ?f [0..<len])} ?f = xor_mem m inp out (map ?f [0..<len])"
    using al by (intro xored_all) (auto simp: may_alias_def)
  then have final: "xored m inp out {..<len} ?f = xor_mem m inp out (map ?f [0..<len])" by simp
  show ?thesis
  proof (cases "(len - p) mod 64 = 0")
    case True
    then have "?q = len" using q(2) by simp
    with True show ?thesis using blocks p(2) final unfolding chacha20_xor_def first by simp
  next
    case False
    then show ?thesis using blocks p(2) final tail all q assms(2,3) unfolding chacha20_xor_def first by (simp add: chacha20_block_rfc)
  qed
qed

text \<open>C37. \<open>chacha20_xor\<close>, by the portable loop, by the four blocks at a time of SSSE3 and by those of
  NEON, adds the key stream of RFC 8439 to the source, for any length and any start of the counter,
  which counts modulo \<open>2 ^ 32\<close>, in place or into another range, and changes nothing else.\<close>

theorem chacha20_xor_correct:
  assumes "may_alias inp out len (length m)" and "length key = 32" and "length nonce = 12"
  shows "chacha20_xor unit key nonce counter m inp out len =
    Some (take out m @ xor_bytes (take len (drop inp m)) (map (rfc_stream key nonce counter) [0..<len]) @ drop (out + len) m)"
  using chacha20_xor_result [OF assms] by (simp add: xor_mem_def)

theorem chacha20_xor_correct_witness:
  "chacha20_xor Chacha_ssse3 (replicate 32 1) (replicate 12 2) 7 (replicate 600 0) 0 0 600 =
    Some (take 0 (replicate 600 0) @ xor_bytes (take 600 (drop 0 (replicate 600 0))) (map (rfc_stream (replicate 32 1) (replicate 12 2) 7) [0..<600])
      @ drop (0 + 600) (replicate 600 0))"
  by (rule chacha20_xor_correct) (simp_all add: may_alias_def)

text \<open>C0. Applying \<open>chacha20_xor\<close> twice in place with the same key, nonce and counter gives the
  plaintext back, whichever units the two sides use.\<close>

theorem chacha20_xor_roundtrip:
  assumes "length key = 32" and "length nonce = 12" and "p + len \<le> length m"
  shows "do { c \<leftarrow> chacha20_xor unit key nonce counter m p p len; chacha20_xor unit' key nonce counter c p p len } = Some m"
proof -
  have al: "may_alias p p len (length m)" using assms(3) by (simp add: may_alias_def)
  let ?ks = "map (rfc_stream key nonce counter) [0..<len]"
  have len: "length (xor_mem m p p ?ks) = length m" using assms(3) by (simp add: xor_mem_def)
  have "chacha20_xor unit' key nonce counter (xor_mem m p p ?ks) p p len = Some (xor_mem (xor_mem m p p ?ks) p p ?ks)"
    using al len by (intro chacha20_xor_result assms) simp
  moreover have "xor_mem (xor_mem m p p ?ks) p p ?ks = m"
    using assms(3) by (intro xor_mem_twice) simp
  ultimately show ?thesis using chacha20_xor_result [OF al assms(1,2)] by simp
qed

theorem chacha20_xor_roundtrip_witness:
  "do { c \<leftarrow> chacha20_xor Chacha_neon (replicate 32 1) (replicate 12 2) 7 [1, 2, 3] 1 1 2;
     chacha20_xor Chacha_none (replicate 32 1) (replicate 12 2) 7 c 1 1 2 } = Some [1, 2, 3]"
  by (rule chacha20_xor_roundtrip) simp_all

end
