(* ===== verification/Aead.thy ===== *)
theory Aead
  imports ChaCha Poly1305Proof
begin

text \<open>
  The authenticated encryption of \<open>crypto/crypto.c\<close> with ChaCha20 and Poly1305: the tag over the associated
  data and the ciphertext, \<open>aead_encrypt\<close> and \<open>aead_decrypt\<close>. The other algorithm of the two functions,
  AES-256-GCM, is an argument of them.
\<close>

section \<open>The tag\<close>

definition aead_zero :: "byte list" where
  "aead_zero = replicate 16 0"

text \<open>Data, and the zeros that fill its last block.\<close>

definition aead_update_padded :: "bool \<Rightarrow> poly1305_ctx \<Rightarrow> byte list \<Rightarrow> poly1305_ctx option" where
  "aead_update_padded wide p xs = do {
     p \<leftarrow> poly1305_update wide p xs (length xs);
     if length xs mod 16 \<noteq> 0 then poly1305_update wide p aead_zero (16 - length xs mod 16) else Some p }"

text \<open>\<open>buffer\<close> is what the uninitialised buffer of the context holds.\<close>

definition aead_chacha_tag :: "bool \<Rightarrow> byte list \<Rightarrow> byte list \<Rightarrow> byte list \<Rightarrow> byte list \<Rightarrow> byte list \<Rightarrow> byte list option" where
  "aead_chacha_tag wide buffer key nonce aad ct = do {
     otk \<leftarrow> chacha20_block key nonce 0 (replicate 64 0);
     p \<leftarrow> poly1305_init buffer otk;
     p \<leftarrow> aead_update_padded wide p aad;
     p \<leftarrow> aead_update_padded wide p ct;
     lens \<leftarrow> crypto_store64_le (replicate 16 0) 0 (of_nat (length aad));
     lens \<leftarrow> crypto_store64_le lens 8 (of_nat (length ct));
     p \<leftarrow> poly1305_update wide p lens 16;
     (tag, p) \<leftarrow> poly1305_final wide p;
     Some tag }"

section \<open>Encryption and decryption\<close>

datatype aead_alg = AEAD_CHACHA20_POLY1305 | AEAD_AES256_GCM

text \<open>
  The plaintext and the ciphertext are ranges of one memory. The result is the value returned, the memory,
  and the tag when one was written. \<open>gcm\<close> stands for the calls of the AES-256-GCM functions.
\<close>

definition aead_encrypt :: "(byte list \<Rightarrow> byte list \<Rightarrow> byte list \<Rightarrow> byte list \<Rightarrow> nat \<Rightarrow> nat \<Rightarrow> nat \<Rightarrow> (int \<times> byte list \<times> byte list option) option) \<Rightarrow>
    bool \<Rightarrow> chacha_unit \<Rightarrow> byte list \<Rightarrow> aead_alg \<Rightarrow> byte list \<Rightarrow> byte list \<Rightarrow> byte list \<Rightarrow> byte list \<Rightarrow> nat \<Rightarrow> nat \<Rightarrow> nat \<Rightarrow> nat \<Rightarrow>
    (int \<times> byte list \<times> byte list option) option" where
  "aead_encrypt gcm wide unit buffer alg key nonce aad m pt pt_len ct tag_len =
     (if length key \<noteq> 32 \<or> length nonce \<noteq> 12 \<or> tag_len \<noteq> 16 then Some (-1, m, None)
      else case alg of
        AEAD_CHACHA20_POLY1305 \<Rightarrow> do {
          m \<leftarrow> chacha20_xor unit key nonce 1 m pt ct pt_len;
          c \<leftarrow> mem_read m ct pt_len;
          tag \<leftarrow> aead_chacha_tag wide buffer key nonce aad c;
          Some (0, m, Some tag) }
      | AEAD_AES256_GCM \<Rightarrow> gcm key nonce aad m pt pt_len ct)"

definition aead_decrypt :: "(byte list \<Rightarrow> byte list \<Rightarrow> byte list \<Rightarrow> byte list \<Rightarrow> nat \<Rightarrow> nat \<Rightarrow> byte list \<Rightarrow> nat \<Rightarrow> (int \<times> byte list) option) \<Rightarrow>
    bool \<Rightarrow> chacha_unit \<Rightarrow> byte list \<Rightarrow> aead_alg \<Rightarrow> byte list \<Rightarrow> byte list \<Rightarrow> byte list \<Rightarrow> byte list \<Rightarrow> nat \<Rightarrow> nat \<Rightarrow> byte list \<Rightarrow> nat \<Rightarrow>
    (int \<times> byte list) option" where
  "aead_decrypt gcm wide unit buffer alg key nonce aad m ct ct_len tag pt =
     (if length key \<noteq> 32 \<or> length nonce \<noteq> 12 \<or> length tag \<noteq> 16 then Some (-1, m)
      else case alg of
        AEAD_CHACHA20_POLY1305 \<Rightarrow> do {
          c \<leftarrow> mem_read m ct ct_len;
          calc \<leftarrow> aead_chacha_tag wide buffer key nonce aad c;
          ok \<leftarrow> crypto_memeq_ct calc tag 16;
          if ok = 0 then Some (-2, m)
          else do {
            m \<leftarrow> chacha20_xor unit key nonce 1 m ct pt ct_len;
            Some (0, m) } }
      | AEAD_AES256_GCM \<Rightarrow> gcm key nonce aad m ct ct_len tag pt)"

section \<open>The tag is always computed\<close>

text \<open>Neither block function faults on whole blocks, so the calls of the authenticator never do.\<close>

lemma crypto_load32_le_total: "p + 4 \<le> length m \<Longrightarrow> crypto_load32_le m p \<noteq> None"
  by (simp add: crypto_load32_le_word)

lemma blocks_26_loop_total: "len \<le> length m \<Longrightarrow> blocks_26_loop r hibit h m len \<noteq> None"
proof (induction r hibit h m len rule: blocks_26_loop.induct)
  case (1 r hibit h m len)
  show ?case
  proof (cases "16 \<le> len")
    case True
    with 1 obtain h' where "poly1305_add hibit h m = Some h'"
      by (cases h) (simp add: poly1305_add_def crypto_load32_le_word)
    with 1 True show ?thesis by (subst blocks_26_loop.simps) simp
  qed (subst blocks_26_loop.simps, simp)
qed

lemma blocks_44_loop_total: "len \<le> length m \<Longrightarrow> blocks_44_loop r hibit h m len \<noteq> None"
proof (induction r hibit h m len rule: blocks_44_loop.induct)
  case (1 r hibit h m len)
  show ?case
  proof (cases "16 \<le> len")
    case True
    with 1 obtain h' where "poly1305_add44 hibit h m = Some h'"
      by (cases h) (simp add: poly1305_add44_def crypto_load32_le_word)
    with 1 True show ?thesis by (subst blocks_44_loop.simps) simp
  qed (subst blocks_44_loop.simps, simp)
qed

text \<open>
  What the buffer of a context holds beyond the pending bytes does not matter: \<open>same_pending c b\<close> says
  that the context \<open>c\<close> would stand for the same with the buffer \<open>b\<close>.
\<close>

definition same_pending :: "poly1305_ctx \<Rightarrow> byte list \<Rightarrow> bool" where
  "same_pending c b \<longleftrightarrow> length (p_buffer c) = 16 \<and> length b = 16 \<and> p_leftover c < 16 \<and>
     take (p_leftover c) b = take (p_leftover c) (p_buffer c)"

lemma poly1305_blocks_buffer:
  assumes "len \<le> length m"
  obtains h where "\<And>b. poly1305_blocks wide (c\<lparr>p_buffer := b\<rparr>) m len = Some (c\<lparr>p_buffer := b, p_h := h\<rparr>)"
proof (cases wide)
  case True
  obtain h where "blocks_44_loop (poly1305_r44 (p_r c)) (if p_final c \<noteq> 0 then 0 else push_bit 40 1) (poly1305_h44 (p_h c)) m len = Some h"
    using blocks_44_loop_total [OF assms] by blast
  with True that show ?thesis by (simp add: poly1305_blocks_def poly1305_blocks_44_def)
next
  case False
  obtain h where "blocks_26_loop (p_r c) (if p_final c \<noteq> 0 then 0 else push_bit 24 1) (p_h c ! 0, p_h c ! 1, p_h c ! 2, p_h c ! 3, p_h c ! 4) m len = Some h"
    using blocks_26_loop_total [OF assms] by blast
  with False that show ?thesis by (cases h) (simp add: poly1305_blocks_def poly1305_blocks_26_def)
qed

lemma poly1305_blocks_total:
  assumes "len \<le> length m"
  obtains h where "poly1305_blocks wide c m len = Some (c\<lparr>p_h := h\<rparr>)"
proof -
  obtain h where "\<And>b. poly1305_blocks wide (c\<lparr>p_buffer := b\<rparr>) m len = Some (c\<lparr>p_buffer := b, p_h := h\<rparr>)"
    using poly1305_blocks_buffer [OF assms, of wide c] by blast
  from this [of "p_buffer c"] that show ?thesis by simp
qed

lemma poly1305_update_rest_buffer:
  assumes "len \<le> length m"
  obtains c1 m1 n where "n < 16" "n \<le> length m1" "p_leftover c1 = p_leftover c" "p_buffer c1 = p_buffer c"
    "\<And>x. poly1305_update_rest wide (c\<lparr>p_buffer := x\<rparr>) m len =
      (if n \<noteq> 0 then do { bs \<leftarrow> mem_read m1 0 n; buf \<leftarrow> mem_write x 0 bs; Some (c1\<lparr>p_buffer := buf, p_leftover := n\<rparr>) }
       else Some (c1\<lparr>p_buffer := x\<rparr>))"
proof (cases "16 \<le> len")
  case True
  define w where "w = len div 16 * 16"
  have w: "w \<le> len" "len - w < 16" by (simp_all add: w_def minus_div_mult_eq_mod)
  obtain h where "\<And>b. poly1305_blocks wide (c\<lparr>p_buffer := b\<rparr>) m w = Some (c\<lparr>p_buffer := b, p_h := h\<rparr>)"
    using poly1305_blocks_buffer [of w m wide c] assms w(1) by (meson le_trans)
  then have "poly1305_update_rest wide (c\<lparr>p_buffer := x\<rparr>) m len =
      (if len - w \<noteq> 0 then do { bs \<leftarrow> mem_read (drop w m) 0 (len - w); buf \<leftarrow> mem_write x 0 bs; Some (c\<lparr>p_h := h, p_buffer := buf, p_leftover := len - w\<rparr>) }
       else Some (c\<lparr>p_h := h, p_buffer := x\<rparr>))" for x
    using True by (simp add: poly1305_update_rest_def w_def [symmetric] Let_def)
  with w assms that [of "len - w" "drop w m" "c\<lparr>p_h := h\<rparr>"] show ?thesis by simp
next
  case False
  with assms that [of len m c] show ?thesis by (simp add: poly1305_update_rest_def)
qed

lemma poly1305_update_rest_same:
  assumes "same_pending c b" "len \<le> length m" "p_leftover c = 0"
  shows "\<exists>c' b'. poly1305_update_rest wide c m len = Some c' \<and> same_pending c' b' \<and>
    poly1305_update_rest wide (c\<lparr>p_buffer := b\<rparr>) m len = Some (c'\<lparr>p_buffer := b'\<rparr>)"
proof -
  obtain n m1 c1 where n: "n < 16" "n \<le> length m1" "p_leftover c1 = p_leftover c" "p_buffer c1 = p_buffer c"
    and run: "\<And>x. poly1305_update_rest wide (c\<lparr>p_buffer := x\<rparr>) m len =
      (if n \<noteq> 0 then do { bs \<leftarrow> mem_read m1 0 n; buf \<leftarrow> mem_write x 0 bs; Some (c1\<lparr>p_buffer := buf, p_leftover := n\<rparr>) }
       else Some (c1\<lparr>p_buffer := x\<rparr>))"
    by (rule poly1305_update_rest_buffer [OF assms(2), where c = c and wide = wide]) (rule that; assumption)
  from run [of "p_buffer c"] n(4) have run0: "poly1305_update_rest wide c m len =
      (if n \<noteq> 0 then do { bs \<leftarrow> mem_read m1 0 n; buf \<leftarrow> mem_write (p_buffer c) 0 bs; Some (c1\<lparr>p_buffer := buf, p_leftover := n\<rparr>) }
       else Some c1)" by simp
  show ?thesis
  proof (cases "n = 0")
    case True
    have "same_pending c1 b" using assms(1,3) n(3,4) by (simp add: same_pending_def)
    with run [of b] run0 True show ?thesis by auto
  next
    case False
    define new where "new x = take n m1 @ drop n x" for x
    have read: "mem_read m1 0 n = Some (take n m1)" using n(2) by (simp add: mem_read_def)
    have new: "mem_write x 0 (take n m1) = Some (new x)" "length (new x) = 16" "take n (new x) = take n m1" if "length x = 16" for x
      using that n(1,2) by (simp_all add: mem_write_def new_def)
    have lens: "length (p_buffer c) = 16" "length b = 16" using assms(1) by (simp_all add: same_pending_def)
    note new_b = new [OF lens(2)] and new_c = new [OF lens(1)]
    have "same_pending (c1\<lparr>p_buffer := new (p_buffer c), p_leftover := n\<rparr>) (new b)"
      using n(1) new_b(2,3) new_c(2,3) by (simp add: same_pending_def)
    moreover have "poly1305_update_rest wide c m len = Some (c1\<lparr>p_buffer := new (p_buffer c), p_leftover := n\<rparr>)"
      unfolding run0 using False by (simp add: read new_c(1))
    moreover have "poly1305_update_rest wide (c\<lparr>p_buffer := b\<rparr>) m len = Some (c1\<lparr>p_buffer := new b, p_leftover := n\<rparr>)"
      unfolding run using False by (simp add: read new_b(1))
    ultimately show ?thesis
      by (intro exI [of _ "c1\<lparr>p_buffer := new (p_buffer c), p_leftover := n\<rparr>"] exI [of _ "new b"]) simp
  qed
qed

lemma poly1305_update_same:
  assumes "same_pending c b" "len \<le> length m"
  shows "\<exists>c' b'. poly1305_update wide c m len = Some c' \<and> same_pending c' b' \<and>
    poly1305_update wide (c\<lparr>p_buffer := b\<rparr>) m len = Some (c'\<lparr>p_buffer := b'\<rparr>)"
proof (cases "p_leftover c = 0")
  case True
  with poly1305_update_rest_same [OF assms] show ?thesis by (simp add: poly1305_update_def)
next
  case False
  define w where "w = min (16 - p_leftover c) len"
  define fill where "fill x = take (p_leftover c) x @ take w m @ drop (p_leftover c + w) x" for x
  have w: "w \<le> length m" "p_leftover c + w \<le> 16" using assms by (auto simp: w_def same_pending_def)
  have read: "mem_read m 0 w = Some (take w m)" using w by (simp add: mem_read_def)
  have wr: "mem_write x (p_leftover c) (take w m) = Some (fill x)" "length (fill x) = 16" if "length x = 16" for x
    using that w by (auto simp: mem_write_def fill_def)
  note lens = assms(1) [unfolded same_pending_def]
  have run: "poly1305_update wide (c\<lparr>p_buffer := x\<rparr>) m len = (if p_leftover c + w < 16 then Some (c\<lparr>p_buffer := fill x, p_leftover := p_leftover c + w\<rparr>)
      else do { d \<leftarrow> poly1305_blocks wide (c\<lparr>p_buffer := fill x, p_leftover := p_leftover c + w\<rparr>) (fill x) 16;
                poly1305_update_rest wide (d\<lparr>p_leftover := 0\<rparr>) (drop w m) (len - w) })" if "length x = 16" for x
    using False wr [OF that] read by (simp add: poly1305_update_def w_def [symmetric] Let_def)
  have same: "take (p_leftover c + w) (fill b) = take (p_leftover c + w) (fill (p_buffer c))"
    using lens w by (simp add: fill_def)
  show ?thesis
  proof (cases "p_leftover c + w < 16")
    case True
    with run [of b] run [of "p_buffer c"] lens same wr(2) show ?thesis
      by (intro exI [of _ "c\<lparr>p_buffer := fill (p_buffer c), p_leftover := p_leftover c + w\<rparr>"] exI [of _ "fill b"])
        (simp add: same_pending_def)
  next
    case full: False
    then have "p_leftover c + w = 16" using w(2) by simp
    with same wr(2) lens have eq: "fill b = fill (p_buffer c)" by simp
    define d where "d = c\<lparr>p_buffer := fill b, p_leftover := p_leftover c + w\<rparr>"
    have "16 \<le> length (fill b)" using wr(2) lens by simp
    then obtain h where h: "poly1305_blocks wide d (fill b) 16 = Some (d\<lparr>p_h := h\<rparr>)" by (rule poly1305_blocks_total)
    have "same_pending (d\<lparr>p_h := h, p_leftover := 0\<rparr>) (fill b)" using wr(2) lens by (simp add: same_pending_def d_def)
    from poly1305_update_rest_same [OF this, of "len - w" "drop w m" wide] assms(2) obtain e be where
      "poly1305_update_rest wide (d\<lparr>p_h := h, p_leftover := 0\<rparr>) (drop w m) (len - w) = Some e" "same_pending e be" by force
    then have "poly1305_update wide (c\<lparr>p_buffer := x\<rparr>) m len = Some e" if "x = b \<or> x = p_buffer c" for x
      using that run [of x] lens full h eq by (auto simp: d_def)
    from this [of b] this [of "p_buffer c"] \<open>same_pending e be\<close> show ?thesis
      by (intro exI [of _ e] exI [of _ "p_buffer e"]) (simp add: same_pending_def)
  qed
qed

lemma poly1305_final_same:
  assumes "same_pending c b"
  shows "\<exists>tag d d'. poly1305_final wide c = Some (tag, d) \<and> poly1305_final wide (c\<lparr>p_buffer := b\<rparr>) = Some (tag, d') \<and> length tag = 16"
proof -
  note lens = assms [unfolded same_pending_def]
  obtain h where h: "\<And>x. x = b \<or> x = p_buffer c \<Longrightarrow> \<exists>y. poly1305_last_block wide (c\<lparr>p_buffer := x\<rparr>) = Some (c\<lparr>p_buffer := y, p_final := (if p_leftover c = 0 then p_final c else 1), p_h := h\<rparr>)"
  proof (cases "p_leftover c = 0")
    case True
    then have "poly1305_last_block wide (c\<lparr>p_buffer := x\<rparr>) = Some (c\<lparr>p_buffer := x, p_final := p_final c, p_h := p_h c\<rparr>)" for x
      by (simp add: poly1305_last_block_def)
    then show ?thesis using True by (intro that [of "p_h c"] exI) simp
  next
    case False
    define f where "f x = take (p_leftover c) x @ 1 # replicate (15 - p_leftover c) 0" for x :: "byte list"
    have set: "arr_set x (p_leftover c) 1 = Some (x[p_leftover c := 1])"
      "mem_write (x[p_leftover c := 1]) (p_leftover c + 1) (replicate (16 - (p_leftover c + 1)) 0) = Some (f x)"
      if "length x = 16" for x
      using that lens by (auto simp: arr_set_def mem_write_def f_def take_Suc_conv_app_nth)
    have f: "f b = f (p_buffer c)" "16 \<le> length (f b)" using lens by (simp_all add: f_def)
    from f(2) obtain h where "poly1305_blocks wide (c\<lparr>p_buffer := f b, p_final := 1\<rparr>) (f b) 16 = Some (c\<lparr>p_buffer := f b, p_final := 1, p_h := h\<rparr>)"
      by (rule poly1305_blocks_total [where wide = wide and c = "c\<lparr>p_buffer := f b, p_final := 1\<rparr>"]) simp
    then have "poly1305_last_block wide (c\<lparr>p_buffer := x\<rparr>) = Some (c\<lparr>p_buffer := f b, p_final := 1, p_h := h\<rparr>)"
      if "f x = f b" "length x = 16" for x
      using that(1) set [OF that(2)] False by (simp add: poly1305_last_block_def Let_def)
    with False f(1) lens show ?thesis by (intro that [of h] exI [of _ "f b"]) auto
  qed
  define f where "f = (if p_leftover c = 0 then p_final c else 1)"
  note h = h [folded f_def]
  obtain y where y: "poly1305_last_block wide (c\<lparr>p_buffer := b\<rparr>) = Some (c\<lparr>p_buffer := y, p_final := f, p_h := h\<rparr>)" using h by blast
  obtain z where "poly1305_last_block wide (c\<lparr>p_buffer := p_buffer c\<rparr>) = Some (c\<lparr>p_buffer := z, p_final := f, p_h := h\<rparr>)" using h by blast
  then have z: "poly1305_last_block wide c = Some (c\<lparr>p_buffer := z, p_final := f, p_h := h\<rparr>)" by simp
  have sel: "p_h (c\<lparr>p_buffer := x, p_final := f, p_h := h\<rparr>) = h" "p_pad (c\<lparr>p_buffer := x, p_final := f, p_h := h\<rparr>) = p_pad c" for x
    by simp_all
  obtain ws where ws: "ws = poly1305_tag_words (poly1305_reduce (h ! 0, h ! 1, h ! 2, h ! 3, h ! 4)) (p_pad c)" by simp
  obtain tag where "crypto_store32_le (replicate 16 0) 0 (ws ! 0) \<bind> (\<lambda>t. crypto_store32_le t 4 (ws ! 1) \<bind>
      (\<lambda>t. crypto_store32_le t 8 (ws ! 2) \<bind> (\<lambda>t. crypto_store32_le t 12 (ws ! 3)))) = Some tag" "length tag = 16"
    by (simp add: crypto_store32_le_bytes mem_write_def)
  then have "poly1305_tag wide c = Some tag" "poly1305_tag wide (c\<lparr>p_buffer := b\<rparr>) = Some tag"
    unfolding poly1305_tag_def y z Let_def bind.bind_lunit sel ws [symmetric] by blast+
  with \<open>length tag = 16\<close> show ?thesis by (simp add: poly1305_final_def)
qed

lemma aead_update_padded_same:
  assumes "same_pending c b"
  shows "\<exists>c' b'. aead_update_padded wide c xs = Some c' \<and> same_pending c' b' \<and>
    aead_update_padded wide (c\<lparr>p_buffer := b\<rparr>) xs = Some (c'\<lparr>p_buffer := b'\<rparr>)"
proof -
  obtain d bd where d: "poly1305_update wide c xs (length xs) = Some d" "same_pending d bd"
    "poly1305_update wide (c\<lparr>p_buffer := b\<rparr>) xs (length xs) = Some (d\<lparr>p_buffer := bd\<rparr>)"
    using poly1305_update_same [OF assms order_refl] by blast
  have zero: "16 - length xs mod 16 \<le> length aead_zero" by (simp add: aead_zero_def)
  note d
  moreover obtain e be where "poly1305_update wide d aead_zero (16 - length xs mod 16) = Some e" "same_pending e be"
    "poly1305_update wide (d\<lparr>p_buffer := bd\<rparr>) aead_zero (16 - length xs mod 16) = Some (e\<lparr>p_buffer := be\<rparr>)"
    using poly1305_update_same [OF d(2) zero] by blast
  ultimately show ?thesis by (auto simp: aead_update_padded_def)
qed

text \<open>The tag is computed, and is the same whatever the buffer held before.\<close>

lemma aead_chacha_tag_same:
  fixes buffer :: "byte list"
  assumes "length key = 32" "length nonce = 12" "length buffer = 16"
  obtains tag where "\<And>b. length b = 16 \<Longrightarrow> aead_chacha_tag wide b key nonce aad ct = Some tag" "length tag = 16"
proof -
  have otk: "chacha20_block key nonce 0 (replicate 64 0) = Some (rfc_chacha_block key nonce 0)"
    using assms by (intro chacha20_block_rfc) simp_all
  obtain lens where lens: "crypto_store64_le (replicate 16 0) 0 (of_nat (length aad)) = Some lens" "length lens = 16"
    by (simp add: crypto_store64_le_bytes mem_write_def)
  obtain lens' where lens': "crypto_store64_le lens 8 (of_nat (length ct)) = Some lens'" "length lens' = 16"
    using lens(2) by (simp add: crypto_store64_le_bytes mem_write_def)
  have "\<exists>tag. aead_chacha_tag wide buffer key nonce aad ct = Some tag \<and> aead_chacha_tag wide b key nonce aad ct = Some tag \<and> length tag = 16"
    if b: "length b = 16" for b
  proof -
    have "32 \<le> length (rfc_chacha_block key nonce 0)" by simp
    from poly1305_init_result [OF this] obtain p where
      p: "poly1305_init buffer (rfc_chacha_block key nonce 0) = Some p" "p_leftover p = 0" "p_buffer p = buffer" by force
    then have pb: "poly1305_init b (rfc_chacha_block key nonce 0) = Some (p\<lparr>p_buffer := b\<rparr>)"
      by (cases p) (auto simp: poly1305_init_def bind_eq_Some_conv Let_def)
    have "same_pending p b" using p b assms(3) by (simp add: same_pending_def)
    then obtain q bq where q: "aead_update_padded wide p aad = Some q" "same_pending q bq"
      "aead_update_padded wide (p\<lparr>p_buffer := b\<rparr>) aad = Some (q\<lparr>p_buffer := bq\<rparr>)"
      using aead_update_padded_same by blast
    then obtain r br where r: "aead_update_padded wide q ct = Some r" "same_pending r br"
      "aead_update_padded wide (q\<lparr>p_buffer := bq\<rparr>) ct = Some (r\<lparr>p_buffer := br\<rparr>)"
      using aead_update_padded_same by blast
    obtain s bs where s: "poly1305_update wide r lens' 16 = Some s" "same_pending s bs"
      "poly1305_update wide (r\<lparr>p_buffer := br\<rparr>) lens' 16 = Some (s\<lparr>p_buffer := bs\<rparr>)"
      using poly1305_update_same [OF r(2), of 16 lens'] lens'(2) by (metis order_refl)
    obtain tag d d' where "poly1305_final wide s = Some (tag, d)" "poly1305_final wide (s\<lparr>p_buffer := bs\<rparr>) = Some (tag, d')" "length tag = 16"
      using poly1305_final_same [OF s(2)] by blast
    then show ?thesis using otk p(1) pb q r lens(1) lens'(1) s by (simp add: aead_chacha_tag_def)
  qed
  with assms(3) that show ?thesis by (metis option.inject)
qed

section \<open>The tag of RFC 8439\<close>

definition rfc_pad16 :: "byte list \<Rightarrow> byte list" where
  "rfc_pad16 xs = replicate ((16 - length xs mod 16) mod 16) 0"

definition rfc_aead_tag :: "byte list \<Rightarrow> byte list \<Rightarrow> byte list \<Rightarrow> byte list \<Rightarrow> byte list" where
  "rfc_aead_tag key nonce aad ct = rfc_poly1305 (rfc_chacha_block key nonce 0)
     (aad @ rfc_pad16 aad @ ct @ rfc_pad16 ct @ le_enc 8 (of_nat (length aad) :: 64 word) @ le_enc 8 (of_nat (length ct) :: 64 word))"

text \<open>The authenticator reads no more than the length it is given.\<close>

lemma take_4_of_take: "p + 4 \<le> n \<Longrightarrow> take 4 (drop p (take n m)) = take 4 (drop p m)"
  by (simp add: drop_take)

lemma blocks_26_loop_take:
  "len \<le> n \<Longrightarrow> n \<le> length m \<Longrightarrow> blocks_26_loop r hibit h (take n m) len = blocks_26_loop r hibit h m len"
proof (induction r hibit h m len arbitrary: n rule: blocks_26_loop.induct)
  case (1 r hibit h m len)
  show ?case
  proof (cases "16 \<le> len")
    case True
    with 1(2,3) have add: "poly1305_add hibit h (take n m) = poly1305_add hibit h m"
      by (cases h) (simp add: poly1305_add_def crypto_load32_le_word take_4_of_take min_absorb1)
    have "blocks_26_loop r hibit (poly1305_mul r h') (drop 16 (take n m)) (len - 16) =
        blocks_26_loop r hibit (poly1305_mul r h') (drop 16 m) (len - 16)" if "poly1305_add hibit h m = Some h'" for h'
      using 1(1) [OF True that, of "n - 16"] 1(2,3) by (simp add: drop_take)
    with True show ?thesis
      by (subst (1 2) blocks_26_loop.simps) (cases "poly1305_add hibit h m"; simp add: add)
  qed (subst (1 2) blocks_26_loop.simps, simp)
qed

lemma poly1305_blocks_take:
  "len \<le> n \<Longrightarrow> n \<le> length m \<Longrightarrow> poly1305_blocks False ctx (take n m) len = poly1305_blocks False ctx m len"
  by (simp add: poly1305_blocks_def poly1305_blocks_26_def blocks_26_loop_take Let_def)

lemma poly1305_update_rest_take:
  assumes "len \<le> length m"
  shows "poly1305_update_rest False ctx (take len m) len = poly1305_update_rest False ctx m len"
proof -
  let ?w = "len div 16 * 16"
  have "mem_read (drop ?w (take len m)) 0 (len - ?w) = mem_read (drop ?w m) 0 (len - ?w)"
    using assms by (auto simp: mem_read_def drop_take)
  moreover have "mem_read (take len m) 0 len = mem_read m 0 len" using assms by (simp add: mem_read_def)
  moreover have "poly1305_blocks False ctx (take len m) ?w = poly1305_blocks False ctx m ?w"
    using assms by (intro poly1305_blocks_take) simp_all
  ultimately show ?thesis
    by (cases "16 \<le> len"; cases "poly1305_blocks False ctx m ?w") (simp_all only: poly1305_update_rest_def if_True if_False Let_def
        bind.bind_lunit bind.bind_lzero prod.case)
qed

lemma poly1305_update_take:
  assumes "len \<le> length m"
  shows "poly1305_update False ctx (take len m) len = poly1305_update False ctx m len"
proof -
  define w where "w = min (16 - p_leftover ctx) len"
  have reads: "mem_read (take len m) 0 w = mem_read m 0 w" using assms by (simp add: mem_read_def w_def min_def)
  have rest: "poly1305_update_rest False c (drop w (take len m)) (len - w) = poly1305_update_rest False c (drop w m) (len - w)" for c
    using poly1305_update_rest_take [of "len - w" "drop w m" c] assms by (simp add: drop_take)
  show ?thesis
    by (simp only: poly1305_update_def Let_def w_def [symmetric] reads rest poly1305_update_rest_take [OF assms])
qed

text \<open>The pieces that one call of the update with its padding stands for.\<close>

definition padded_pieces :: "byte list \<Rightarrow> byte list list" where
  "padded_pieces xs = xs # (if length xs mod 16 \<noteq> 0 then [replicate (16 - length xs mod 16) 0] else [])"

lemma concat_padded_pieces: "concat (padded_pieces xs) = xs @ rfc_pad16 xs"
  by (simp add: padded_pieces_def rfc_pad16_def)

lemma update_all_append:
  "update_all u c (xss @ yss) = do { c \<leftarrow> update_all u c xss; update_all u c yss }"
  by (induction xss arbitrary: c) (simp_all add: bind_assoc)

abbreviation narrow_update :: "poly1305_ctx \<Rightarrow> byte list \<Rightarrow> poly1305_ctx option" where
  "narrow_update \<equiv> \<lambda>ctx xs. poly1305_update False ctx xs (length xs)"

lemma aead_update_padded_pieces: "aead_update_padded False p xs = update_all narrow_update p (padded_pieces xs)"
proof -
  have "poly1305_update False q aead_zero (16 - length xs mod 16) =
      narrow_update q (replicate (16 - length xs mod 16) 0)" for q
    using poly1305_update_take [of "16 - length xs mod 16" aead_zero q] by (simp add: aead_zero_def)
  then show ?thesis by (simp add: aead_update_padded_def padded_pieces_def)
qed

lemma aead_chacha_tag_rfc:
  assumes "length key = 32" "length nonce = 12" "length buffer = 16"
  shows "aead_chacha_tag False buffer key nonce aad ct = Some (rfc_aead_tag key nonce aad ct)"
proof -
  let ?otk = "rfc_chacha_block key nonce 0"
  define lens where "lens = le_enc 8 (of_nat (length aad) :: 64 word) @ le_enc 8 (of_nat (length ct) :: 64 word)"
  have otk: "chacha20_block key nonce 0 (replicate 64 0) = Some ?otk" "32 \<le> length ?otk"
    using assms by (simp_all add: chacha20_block_rfc)
  define half where "half = le_enc 8 (of_nat (length aad) :: 64 word) @ replicate 8 0"
  have st: "crypto_store64_le (replicate 16 0) 0 (of_nat (length aad)) = Some half"
    "crypto_store64_le half 8 (of_nat (length ct)) = Some lens" "length lens = 16"
    by (simp_all add: crypto_store64_le_bytes mem_write_def lens_def half_def)
  have "aead_chacha_tag False buffer key nonce aad ct =
      do { p \<leftarrow> poly1305_init buffer ?otk;
           p \<leftarrow> update_all narrow_update p (padded_pieces aad @ padded_pieces ct @ [lens]);
           (tag, p) \<leftarrow> poly1305_final False p; Some tag }"
    by (simp add: aead_chacha_tag_def otk(1) st aead_update_padded_pieces update_all_append bind_assoc)
  also have "\<dots> = Some (rfc_poly1305 ?otk (concat (padded_pieces aad @ padded_pieces ct @ [lens])))"
    using poly1305_streaming_result [OF otk(2) assms(3)] .
  finally show ?thesis by (simp add: concat_padded_pieces rfc_aead_tag_def lens_def)
qed

section \<open>Encryption and decryption are inverse\<close>

lemma aead_encrypt_result:
  assumes "length key = 32" "length nonce = 12" "may_alias pt ct len (length m)"
  defines "m' \<equiv> xor_mem m pt ct (map (rfc_stream key nonce 1) [0..<len])"
  assumes tag: "aead_chacha_tag wide buffer key nonce aad (take len (drop ct m')) = Some tag"
  shows "aead_encrypt gcm wide unit buffer AEAD_CHACHA20_POLY1305 key nonce aad m pt len ct 16 = Some (0, m', Some tag)"
proof -
  have "ct + len \<le> length m'" using assms(3) by (auto simp: m'_def xor_mem_def may_alias_def)
  then have "mem_read m' ct len = Some (take len (drop ct m'))" by (simp add: mem_read_def)
  moreover have "chacha20_xor unit key nonce 1 m pt ct len = Some m'"
    unfolding m'_def using assms(1-3) by (intro chacha20_xor_result)
  ultimately show ?thesis using assms(1,2) tag by (simp add: aead_encrypt_def)
qed

lemma aead_decrypt_result:
  assumes "length key = 32" "length nonce = 12" "may_alias ct pt len (length m)" "length tag = 16"
    and "aead_chacha_tag wide buffer key nonce aad (take len (drop ct m)) = Some calc" "length calc = 16"
  shows "aead_decrypt gcm wide unit buffer AEAD_CHACHA20_POLY1305 key nonce aad m ct len tag pt =
    (if tag = calc then Some (0, xor_mem m ct pt (map (rfc_stream key nonce 1) [0..<len])) else Some (-2, m))"
proof -
  have "mem_read m ct len = Some (take len (drop ct m))" using assms(3) by (auto simp: mem_read_def may_alias_def)
  then show ?thesis
    using assms by (auto simp: aead_decrypt_def crypto_memeq_ct_result chacha20_xor_result)
qed

text \<open>
  C39. What \<open>aead_encrypt\<close> encrypts with ChaCha20-Poly1305, \<open>aead_decrypt\<close> decrypts: with the same key, nonce
  and associated data it returns 0 and the plaintext, in place or from and into ranges that do not meet,
  whichever vector units the two sides have and whatever the uninitialised buffers held, as long as both
  have the same block function of Poly1305. For any other tag it returns -2 and writes nothing.
\<close>

theorem aead_encrypt_decrypt:
  assumes "length key = 32" "length nonce = 12" "length buffer = 16" "length buffer' = 16"
    and "may_alias pt ct len (length m)" "may_alias ct pt' len (length m)" "length tag' = 16"
  shows "\<exists>m' tag. aead_encrypt gcm wide unit buffer AEAD_CHACHA20_POLY1305 key nonce aad m pt len ct 16 = Some (0, m', Some tag) \<and>
    (\<exists>m''. aead_decrypt gcm' wide unit' buffer' AEAD_CHACHA20_POLY1305 key nonce aad m' ct len tag' pt' =
        (if tag' = tag then Some (0, m'') else Some (-2, m')) \<and>
      take len (drop pt' m'') = take len (drop pt m))"
proof -
  define ks where "ks = map (rfc_stream key nonce 1) [0..<len]"
  define m1 where "m1 = xor_mem m pt ct ks"
  have ks: "length ks = len" by (simp add: ks_def)
  have bounds: "pt + len \<le> length m" "ct + len \<le> length m" "pt' + len \<le> length m" using assms(5,6) by (auto simp: may_alias_def)
  have m1: "length m1 = length m" "take len (drop ct m1) = xor_bytes (take len (drop pt m)) ks"
    using bounds ks by (simp_all add: m1_def xor_mem_def)
  obtain tag where tag: "\<And>b. length b = 16 \<Longrightarrow> aead_chacha_tag wide b key nonce aad (take len (drop ct m1)) = Some tag" "length tag = 16"
    using aead_chacha_tag_same [OF assms(1-3)] by blast
  have enc: "aead_encrypt gcm wide unit buffer AEAD_CHACHA20_POLY1305 key nonce aad m pt len ct 16 = Some (0, m1, Some tag)"
    unfolding m1_def ks_def using tag(1) [OF assms(3)]
    by (intro aead_encrypt_result assms(1,2,5)) (simp add: m1_def ks_def)
  have dec: "aead_decrypt gcm' wide unit' buffer' AEAD_CHACHA20_POLY1305 key nonce aad m1 ct len tag' pt' =
      (if tag' = tag then Some (0, xor_mem m1 ct pt' ks) else Some (-2, m1))"
    unfolding ks_def using assms(6,7) tag(1) [OF assms(4)] tag(2) m1(1) by (intro aead_decrypt_result assms(1,2)) simp_all
  have "take len (drop pt' (xor_mem m1 ct pt' ks)) = xor_bytes (take len (drop ct m1)) ks"
    using bounds ks m1(1) by (simp add: xor_mem_def)
  then have "take len (drop pt' (xor_mem m1 ct pt' ks)) = take len (drop pt m)"
    using bounds ks by (simp add: m1(2) xor_bytes_twice)
  with enc dec show ?thesis by blast
qed

theorem aead_encrypt_decrypt_witness:
  "\<exists>m' tag. aead_encrypt (\<lambda>key nonce aad m pt len ct. None) True Chacha_ssse3 (replicate 16 7) AEAD_CHACHA20_POLY1305
      (replicate 32 1) (replicate 12 2) [3, 4] [5, 6, 7] 0 3 0 16 = Some (0, m', Some tag) \<and>
    (\<exists>m''. aead_decrypt (\<lambda>key nonce aad m ct len tag pt. None) True Chacha_neon (replicate 16 8) AEAD_CHACHA20_POLY1305
        (replicate 32 1) (replicate 12 2) [3, 4] m' 0 3 (replicate 16 9) 0 =
        (if replicate 16 9 = tag then Some (0, m'') else Some (-2, m')) \<and>
      take 3 (drop 0 m'') = take 3 (drop 0 [5, 6, 7]))"
  by (rule aead_encrypt_decrypt) (simp_all add: may_alias_def)

text \<open>
  With the block function in limbs of 26 bits the ciphertext and the tag are those of RFC 8439.
\<close>

theorem aead_encrypt_rfc:
  assumes "length key = 32" "length nonce = 12" "length buffer = 16" "may_alias pt ct len (length m)"
  shows "\<exists>m'. aead_encrypt gcm False unit buffer AEAD_CHACHA20_POLY1305 key nonce aad m pt len ct 16 =
      Some (0, m', Some (rfc_aead_tag key nonce aad (xor_bytes (take len (drop pt m)) (map (rfc_stream key nonce 1) [0..<len])))) \<and>
    take len (drop ct m') = xor_bytes (take len (drop pt m)) (map (rfc_stream key nonce 1) [0..<len])"
proof -
  let ?ks = "map (rfc_stream key nonce 1) [0..<len]"
  have "take len (drop ct (xor_mem m pt ct ?ks)) = xor_bytes (take len (drop pt m)) ?ks"
    using assms(4) by (auto simp: xor_mem_def may_alias_def)
  with aead_encrypt_result [OF assms(1,2,4)] aead_chacha_tag_rfc [OF assms(1-3)] show ?thesis by auto
qed

theorem aead_encrypt_rfc_witness:
  "\<exists>m'. aead_encrypt (\<lambda>key nonce aad m pt len ct. None) False Chacha_none (replicate 16 7) AEAD_CHACHA20_POLY1305
      (replicate 32 1) (replicate 12 2) [3, 4] [5, 6, 7] 0 3 0 16 =
    Some (0, m', Some (rfc_aead_tag (replicate 32 1) (replicate 12 2) [3, 4]
      (xor_bytes (take 3 (drop 0 [5, 6, 7])) (map (rfc_stream (replicate 32 1) (replicate 12 2) 1) [0..<3])))) \<and>
    take 3 (drop 0 m') = xor_bytes (take 3 (drop 0 [5, 6, 7])) (map (rfc_stream (replicate 32 1) (replicate 12 2) 1) [0..<3])"
  by (rule aead_encrypt_rfc) (simp_all add: may_alias_def)

end
