(* ===== verification/Spec2Isabelle.thy ===== *)
theory Spec2Isabelle
  imports LinkedList GenericQueue FifoBuffer MessageQueue Md5 Sha1 Sha512 Djb2 Base64 StringList StdString SpscThreads
    TripleBuffer MpscStack Fnmatch Lz4 Utf16 CrcMsb Poly1305Wide Aead
begin

text \<open>
  A verification library for libretro-common: the containers, queues, string functions, encodings,
  checksums, hashes and the ChaCha20-Poly1305 cipher of the repository as HOL functions, with the
  theorems that make them correct.

  \<^bold>\<open>Parts.\<close> libretro-common is a toolkit of small C libraries. The parts modelled here are the
  ones other parts are built on: the lists of \<open>src/lists\<close>, the queues of \<open>src/queues\<close>, the string
  functions of \<open>src/string\<close> and \<open>src/compat\<close>, the hashes of \<open>src/hash\<close> and \<open>src/utils\<close>, base64, UTF, LZ4
  and the checksums of \<open>src/encodings\<close>, the authenticated cipher of \<open>src/crypto\<close>. They interact by
  calls: \<open>string_list\<close> calls \<open>strlcpy\<close>, the tokenizer and the merge of \<open>stdstring.c\<close> fill a
  \<open>string_list\<close>, the streaming and one-shot hash interfaces share the block functions, the conversions
  between wide strings and UTF-8 go through the two halves of the UTF code, \<open>aead_encrypt\<close> runs ChaCha20
  for the key stream and for the key of Poly1305.

  \<^bold>\<open>How C is read.\<close> A C function is a HOL function of the same name into \<open>'a option\<close>: \<open>None\<close> is
  undefined behaviour (a dereference of \<open>NULL\<close> or of freed memory, a double free, an access
  outside a buffer, a loop that does not end), so that \<open>Some\<close> in a theorem is memory safety and
  termination. A struct is a record with the C field names behind a prefix, \<open>size_t\<close> and the
  fixed-width integers are words, a C string is the list of its bytes with the terminator. A loop
  is a recursive function named after its C function (\<open>..._loop\<close>); where the pointers it follows
  may be cyclic it is a \<open>partial_function\<close>. What \<open>malloc\<close> and \<open>realloc\<close> answer is an argument of
  the functions that allocate, so that every theorem covers every failure. User callbacks are
  arguments too.

  \<^bold>\<open>Theories.\<close>
  \<^item> \<open>Prelude\<close>: the machine types, buffers (\<open>mem_read\<close>, \<open>mem_write\<close>, \<open>arr_get\<close>, \<open>arr_set\<close>), masks.
  \<^item> \<open>Contracts\<close>: the interfaces as locales (sequences, bags, bytes in and out of a bounded queue,
    a block hash); each is interpreted on the model that provides it, and the runs of
    calls in the properties rest on the facts proved once in the locale.
  \<^item> \<open>DList\<close>: the doubly linked node of \<open>lists/linked_list.c\<close> and \<open>queues/generic_queue.c\<close> on a heap
    from addresses to nodes, and the segments of a chain. \<open>LinkedList\<close> and \<open>GenericQueue\<close>: all
    functions of the two files. The properties say that every sequence of calls is the one on a
    list of values, that freeing frees every node once, and where \<open>generic_queue.c\<close> leaves a link
    to a freed node.
  \<^item> \<open>FifoBuffer\<close>: \<open>queues/fifo_queue.c\<close>, the byte ring with one free byte.
  \<^item> \<open>Spsc\<close>: \<open>queues/retro_spsc.c\<close>, the ring between two threads, plain and mirrored: one call at a
    time it is a bounded queue whatever the cursors have wrapped to. \<open>SpscThreads\<close>: its producer and
    its consumer as step relations split at every access to shared memory; the invariant of all
    interleavings, the absence of data races and wait-freedom.
  \<^item> \<open>TripleBuffer\<close> and \<open>MpscStack\<close>: the lock-free headers \<open>retro_triple_buffer.h\<close> and \<open>mpsc_stack.h\<close>, the
    code of a call first and then the interleavings of its threads: frames stay intact and the newest
    is shown; no node is lost, whatever the number of producers.
  \<^item> \<open>MessageQueue\<close>: \<open>queues/message_queue.c\<close>, the priority heap in an array with its first slot
    unused: the messages come out by priority, none lost.
  \<^item> \<open>BlockHash\<close>: the part of a streaming hash that MD5 and the SHA functions share (a buffer of
    pending bytes, a count, whole blocks compressed as they fill). \<open>Md5\<close>, \<open>Sha1\<close>, \<open>Sha256\<close>,
    \<open>Sha512\<close>: \<open>utils/md5.c\<close> and \<open>hash/lrc_hash.c\<close>, each shown equal to a reference definition written
    from the standard, for every way of cutting the message into updates. \<open>Djb2\<close>: the SSE2 path of
    the string hash equals its scalar loop.
  \<^item> \<open>Base64\<close>: \<open>encodings/encoding_base64.c\<close>.
  \<^item> \<open>Utf8\<close>, \<open>Utf8Text\<close>, \<open>Utf16\<close>: \<open>encodings/encoding_utf.c\<close>: the functions on UTF-8; the encoding of a
    sequence of code points and what these functions do on it, the eight bytes at a time included; the
    functions on UTF-16 and on wide strings.
  \<^item> \<open>Lz4Copy\<close>, \<open>Lz4\<close>: \<open>encodings/encoding_rlz4.c\<close>: the match copies inside the output buffer, each equal to
    the byte-wise forward copy; the decoder, equal to a decoder of the block format that has no fast
    path, and the inverse of an encoder.
  \<^item> \<open>ShiftRegister\<close>: linear feedback shift registers, as a locale on linear maps. \<open>CrcTables\<close>: the tables of
    \<open>encodings/encoding_crc32_tables.h\<close>. \<open>Crc32\<close> and \<open>CrcMsb\<close>: \<open>encodings/encoding_crc32.c\<close>, every unit
    equal to the register one bit at a time; the detection of bursts.
  \<^item> \<open>Sse\<close>: the vector registers of x86 and their intrinsics, as documented. \<open>CryptoBase\<close>: the loads and
    stores of \<open>crypto.h\<close>, constant-time comparison, outputs in place. \<open>ChaCha\<close>, \<open>Poly1305\<close> (the code) with
    \<open>Poly1305Proof\<close> (limbs of 26 bits) and \<open>Poly1305Wide\<close> (limbs of 44 bits), \<open>Aead\<close>: the stream cipher, the
    authenticator and the authenticated encryption of \<open>crypto/crypto.c\<close>. The cipher on every unit and the
    limbs of 26 bits compute what RFC 8439 defines; of the limbs of 44 bits it is proved what they compute,
    and that they lose a carry on some messages.
  \<^item> \<open>Cstring\<close>: C strings, the functions of \<open>string.h\<close> the sources call, \<open>compat/compat_strl.c\<close>, and
    the allocator as a counter of live blocks. \<open>Fnmatch\<close>: \<open>compat/compat_fnmatch.c\<close> and the language of a
    pattern. \<open>OwnedList\<close>: lists that own their elements.
    \<open>StringList\<close>: \<open>lists/string_list.c\<close>. \<open>StdString\<close>: \<open>string/stdstring.c\<close>.

  \<^bold>\<open>Bounds.\<close> Hash messages are below \<open>2 ^ 61\<close> bytes (their bit length fits the 64-bit count of the
  padding). A buffer has at most \<open>2 ^ 63\<close> bytes. String lists hold at most \<open>sl_limit\<close> elements, the
  number whose array fits in memory. Base64 encodes up to 536870910 bytes (beyond, the computation of the
  size overflows an \<open>int\<close>), the LZ4 decoder is proved for inputs below \<open>2 ^ 55\<close> and outputs below \<open>2 ^ 63\<close> bytes,
  checksums and UTF conversions for any length. No function is given fuel: recursion is structural, or has a
  measure, or is a \<open>partial_function\<close> with a theorem that it returns.

  \<^bold>\<open>Not modelled.\<close> The codecs of \<open>src/formats\<close>, \<open>src/audio\<close>, \<open>src/gfx\<close> (floating point, SIMD, external
  formats), the operating system layers (\<open>vfs\<close>, \<open>net\<close>, \<open>rthreads\<close>, \<open>libco\<close>, \<open>cdrom\<close>), generated tables
  (\<open>glsym\<close>), the vector block functions of the hashes, \<open>sha1_calculate\<close> (it reads a file), the two
  line wrappers of \<open>stdstring.c\<close>, the branches of the UTF code for Windows, the detection of the processor
  (the unit is an argument), the rest of \<open>src/crypto\<close> (AES and its modes, key derivation, public keys,
  certificates; AES-256-GCM is an argument of \<open>aead_encrypt\<close> and \<open>aead_decrypt\<close>), the other codecs of
  \<open>src/encodings\<close>, and the mapping of the mirrored ring by the operating system (an argument). The memory model of the threads is sequential consistency; the theorem on data
  races is what makes that enough for acquire and release operations.
\<close>

end
